(* ===== verification/Prelude.thy ===== *)
theory Prelude
  imports Main "HOL-Library.Word" "HOL-Library.Monad_Syntax"
begin

text \<open>
  Shared vocabulary of the development: the machine integers of
  \<^verbatim>\<open>src/src/utility/types.h\<close>, the error codes the library returns, the assertion
  macros of \<^verbatim>\<open>src/src/utility/assert_helper.h\<close>, and the generic lemmas on lists,
  options and words that several components use.

  \<^bold>\<open>Assertions.\<close> The repository builds without \<^verbatim>\<open>NDEBUG\<close>, so \<^verbatim>\<open>sk_assert\<close>,
  \<^verbatim>\<open>assert_retval\<close> and \<^verbatim>\<open>assert_retnone\<close> end the process in \<^verbatim>\<open>assert()\<close> when their
  condition is false. An operation of the model that contains such a macro therefore
  returns an option: \<open>None\<close> is the aborted process, \<open>Some\<close> a normal return. A
  theorem that an operation returns \<open>Some\<close> states that none of its assertions fails.
\<close>

unbundle bit_operations_syntax

section \<open>Machine integers\<close>

type_synonym u8 = "8 word"
type_synonym u16 = "16 word"
type_synonym u32 = "32 word"
type_synonym u64 = "64 word"

section \<open>Error codes\<close>

text \<open>The errno values of Linux that the library negates and returns.\<close>

definition EPERM :: int where "EPERM = 1"
definition E2BIG :: int where "E2BIG = 7"
definition EAGAIN :: int where "EAGAIN = 11"
definition ENOMEM :: int where "ENOMEM = 12"
definition EBUSY :: int where "EBUSY = 16"
definition EEXIST :: int where "EEXIST = 17"
definition EINVAL :: int where "EINVAL = 22"

named_theorems errno_defs

lemmas [errno_defs] = EPERM_def E2BIG_def EAGAIN_def ENOMEM_def EBUSY_def EEXIST_def EINVAL_def

section \<open>Assertions\<close>

definition sk_assert :: "bool \<Rightarrow> unit option" where
  "sk_assert b = (if b then Some () else None)"

lemma sk_assert_True [simp]: "sk_assert True = Some ()"
  by (simp add: sk_assert_def)

lemma sk_assert_False [simp]: "sk_assert False = None"
  by (simp add: sk_assert_def)

lemma sk_assert_Some_iff [simp]: "sk_assert b = Some u \<longleftrightarrow> b"
  by (simp add: sk_assert_def)

lemma sk_assert_None_iff [simp]: "sk_assert b = None \<longleftrightarrow> \<not> b"
  by (simp add: sk_assert_def)

lemma sk_assert_bind [simp]: "Option.bind (sk_assert b) f = (if b then f () else None)"
  by (simp add: sk_assert_def)

section \<open>Lists\<close>

lemma nth_take_drop_append:
  "i < length xs \<Longrightarrow> take i xs @ xs ! i # drop (Suc i) xs = xs"
  by (simp add: id_take_nth_drop [symmetric])

lemma list_update_take_drop:
  "i < length xs \<Longrightarrow> xs[i := v] = take i xs @ v # drop (Suc i) xs"
  by (simp add: upd_conv_take_nth_drop)

end
