(* ===== verification/Shm_Address.thy ===== *)
theory Shm_Address
  imports Prelude
begin

text \<open>
  \<^verbatim>\<open>src/src/shm/shm_config.h\<close> and \<^verbatim>\<open>src/src/shm/detail/shm_address.h\<close>: an address
  inside the shared memory is one 64-bit word, a 16-bit serial above a 48-bit offset.
  The serials 1 and 2 name the metadata and the userdata block; the serials from 3 on
  are generated by \<^verbatim>\<open>shm_mgr::malloc\<close> and mark one allocation.
\<close>

unbundle bit_operations_syntax

section \<open>Configuration constants\<close>

definition ADDRESS_BITS :: nat where "ADDRESS_BITS = 48"
definition ADDRESS_MASK :: u64 where "ADDRESS_MASK = push_bit ADDRESS_BITS 1 - 1"
definition PAGE_BITS :: nat where "PAGE_BITS = 13"
definition PAGE_SIZE :: u64 where "PAGE_SIZE = push_bit PAGE_BITS 1"
definition PAGE_MASK :: u64 where "PAGE_MASK = PAGE_SIZE - 1"
definition SERIAL_BITS :: nat where "SERIAL_BITS = 8 * 8 - ADDRESS_BITS"
definition SERIAL_MASK :: u64 where "SERIAL_MASK = push_bit SERIAL_BITS 1 - 1"
definition METADATA_SERIAL_NUM :: u64 where "METADATA_SERIAL_NUM = 1"
definition USERDATA_SERIAL_NUM :: u64 where "USERDATA_SERIAL_NUM = 2"
definition MIN_VALID_SERIAL_NUM :: u64 where "MIN_VALID_SERIAL_NUM = 3"

named_theorems config_defs

lemmas [config_defs] = ADDRESS_BITS_def ADDRESS_MASK_def PAGE_BITS_def PAGE_SIZE_def
  PAGE_MASK_def SERIAL_BITS_def SERIAL_MASK_def METADATA_SERIAL_NUM_def
  USERDATA_SERIAL_NUM_def MIN_VALID_SERIAL_NUM_def

section \<open>The address word\<close>

type_synonym shm_address = u64

definition null_address :: shm_address where "null_address = 0"

definition shm_address_make :: "u64 \<Rightarrow> u64 \<Rightarrow> shm_address option" where
  "shm_address_make serial offset = do {
     sk_assert (drop_bit SERIAL_BITS serial = 0);
     sk_assert (drop_bit ADDRESS_BITS offset = 0);
     Some (push_bit ADDRESS_BITS serial OR (offset AND ADDRESS_MASK))
   }"

definition serial :: "shm_address \<Rightarrow> u64" where
  "serial a = drop_bit ADDRESS_BITS a"

definition offset :: "shm_address \<Rightarrow> u64" where
  "offset a = a AND ADDRESS_MASK"

definition address_eq :: "shm_address \<Rightarrow> shm_address \<Rightarrow> bool" where
  "address_eq a b =
     (if a = b then True
      else if offset a \<noteq> offset b then False
      else (serial a \<ge> MIN_VALID_SERIAL_NUM \<and> serial b = USERDATA_SERIAL_NUM) \<or>
           (serial b \<ge> MIN_VALID_SERIAL_NUM \<and> serial a = USERDATA_SERIAL_NUM))"

definition address_ne :: "shm_address \<Rightarrow> shm_address \<Rightarrow> bool" where
  "address_ne a b = (\<not> address_eq a b)"

definition address_valid :: "shm_address \<Rightarrow> bool" where
  "address_valid a = (serial a \<noteq> 0)"

section \<open>The two fields\<close>

lemma offset_take_bit: "offset a = take_bit 48 a"
  by (simp add: offset_def config_defs take_bit_eq_mask mask_eq_exp_minus_1)

lemma serial_drop_bit: "serial a = drop_bit 48 a"
  by (simp add: serial_def config_defs)

lemma address_make_Some_iff:
  "shm_address_make s p = Some a \<longleftrightarrow>
     drop_bit 16 s = 0 \<and> drop_bit 48 p = 0 \<and> a = push_bit 48 s OR take_bit 48 p"
  by (auto simp: shm_address_make_def config_defs take_bit_eq_mask mask_eq_exp_minus_1)

lemma drop_bit_eq_0_iff_less:
  "drop_bit n (w :: u64) = 0 \<longleftrightarrow> unat w < 2 ^ n"
proof -
  have "drop_bit n w = 0 \<longleftrightarrow> unat (drop_bit n w) = 0"
    by (simp add: unat_eq_zero)
  moreover have "unat w < 2 ^ LENGTH(64)" by (rule unsigned_less)
  then have "unat (drop_bit n w) = drop_bit n (unat w)"
    by (simp add: unsigned_drop_bit_eq take_bit_nat_eq_self)
  ultimately show ?thesis
    by (simp add: drop_bit_eq_div div_eq_0_iff)
qed

lemma drop_bit_eq_0_bit: "drop_bit n (w :: u64) = 0 \<Longrightarrow> bit w m \<Longrightarrow> m < n"
proof (rule ccontr)
  assume z: "drop_bit n w = 0" and b: "bit w m" and n: "\<not> m < n"
  from b n have "bit (drop_bit n w) (m - n)" by (simp add: bit_simps)
  with z show False by simp
qed

lemma serial_combine:
  "drop_bit 16 s = 0 \<Longrightarrow> serial (push_bit 48 s OR take_bit 48 p) = s"
  by (rule bit_word_eqI) (auto simp: serial_drop_bit bit_simps dest: drop_bit_eq_0_bit)

lemma offset_combine:
  "drop_bit 48 p = 0 \<Longrightarrow> offset (push_bit 48 s OR take_bit 48 p) = p"
  by (rule bit_word_eqI) (auto simp: offset_take_bit bit_simps dest: drop_bit_eq_0_bit)

lemma serial_offset_combine:
  "push_bit 48 (serial a) OR take_bit 48 (offset a) = a"
  by (rule bit_word_eqI) (auto simp: serial_drop_bit offset_take_bit bit_simps)

lemma drop_bit_offset: "drop_bit 48 (offset a) = 0"
  by (rule bit_word_eqI) (auto simp: offset_take_bit bit_simps)

lemma drop_bit_serial: "drop_bit 16 (serial a) = 0"
  by (rule bit_word_eqI) (auto simp: serial_drop_bit bit_simps)

lemma offset_less: "unat (offset a) < 2 ^ 48"
  using drop_bit_offset by (simp only: drop_bit_eq_0_iff_less)

lemma serial_less: "unat (serial a) < 2 ^ 16"
  using drop_bit_serial by (simp only: drop_bit_eq_0_iff_less)

lemma address_ext: "serial a = serial b \<Longrightarrow> offset a = offset b \<Longrightarrow> a = b"
  by (metis serial_offset_combine)

lemma serial_null [simp]: "serial null_address = 0"
  by (simp add: serial_def null_address_def)

lemma offset_null [simp]: "offset null_address = 0"
  by (simp add: offset_def null_address_def)

lemma address_make_fields:
  assumes "shm_address_make s p = Some a"
  shows "serial a = s" and "offset a = p"
  using assms by (auto simp: address_make_Some_iff serial_combine offset_combine)

lemma address_make_exists:
  assumes "unat s < 2 ^ 16" and "unat p < 2 ^ 48"
  shows "\<exists>a. shm_address_make s p = Some a \<and> serial a = s \<and> offset a = p"
  using assms by (auto simp: address_make_Some_iff drop_bit_eq_0_iff_less
      serial_combine offset_combine)

section \<open>Addresses as pairs\<close>

text \<open>
  The allocator theories read an address as the pair of its two fields, which the packing
  above makes lossless. \<open>make_addr\<close>, \<open>addr_ok\<close> and \<open>addr_eq\<close> are the constructor, the bool
  conversion and \<^verbatim>\<open>operator==\<close> on pairs; \<open>encode\<close> and \<open>decode\<close> convert.
\<close>

type_synonym addr = "nat \<times> nat"

definition nulladdr :: addr where "nulladdr = (0, 0)"

definition make_addr :: "nat \<Rightarrow> nat \<Rightarrow> addr option" where
  "make_addr s p = do { sk_assert (s div 2 ^ 16 = 0); sk_assert (p div 2 ^ 48 = 0); Some (s, p) }"

definition addr_ok :: "addr \<Rightarrow> bool" where "addr_ok a = (fst a \<noteq> 0)"

definition addr_eq :: "addr \<Rightarrow> addr \<Rightarrow> bool" where
  "addr_eq a b =
     (if a = b then True
      else if snd a \<noteq> snd b then False
      else (fst a \<ge> 3 \<and> fst b = 2) \<or> (fst b \<ge> 3 \<and> fst a = 2))"

definition encode :: "addr \<Rightarrow> u64" where
  "encode a = push_bit 48 (word_of_nat (fst a)) OR word_of_nat (snd a)"

definition decode :: "u64 \<Rightarrow> addr" where
  "decode w = (unat (serial w), unat (offset w))"

definition addr_wf :: "addr \<Rightarrow> bool" where
  "addr_wf a \<longleftrightarrow> fst a < 2 ^ 16 \<and> snd a < 2 ^ 48"

lemma addr_ok_null [simp]: "\<not> addr_ok nulladdr"
  by (simp add: addr_ok_def nulladdr_def)

lemma addr_ok_pair [simp]: "addr_ok (k, p) \<longleftrightarrow> k \<noteq> 0"
  by (simp add: addr_ok_def)

lemma addr_wf_null [simp]: "addr_wf nulladdr"
  by (simp add: addr_wf_def nulladdr_def)

lemma make_addr_Some [simp]: "make_addr s p = Some a \<longleftrightarrow> s < 2 ^ 16 \<and> p < 2 ^ 48 \<and> a = (s, p)"
  by (auto simp: make_addr_def div_eq_0_iff)

lemma addr_eq_meta: "fst a < 2 \<or> fst b < 2 \<Longrightarrow> addr_eq a b \<longleftrightarrow> a = b"
  by (auto simp: addr_eq_def)

lemma addr_wf_encode_word:
  assumes "addr_wf a"
  shows "encode a = push_bit 48 (word_of_nat (fst a)) OR take_bit 48 (word_of_nat (snd a) :: u64)"
    and "drop_bit 16 (word_of_nat (fst a) :: u64) = 0" and "drop_bit 48 (word_of_nat (snd a) :: u64) = 0"
proof -
  have f: "unat (word_of_nat (fst a) :: u64) = fst a" and n: "unat (word_of_nat (snd a) :: u64) = snd a"
    using assms by (auto simp: addr_wf_def unat_of_nat take_bit_nat_eq_self)
  then show "drop_bit 16 (word_of_nat (fst a) :: u64) = 0" and d: "drop_bit 48 (word_of_nat (snd a) :: u64) = 0"
    using assms by (simp_all only: drop_bit_eq_0_iff_less addr_wf_def)
  have "take_bit 48 (word_of_nat (snd a) :: u64) = word_of_nat (snd a)"
    using d by (intro bit_word_eqI) (auto simp: bit_simps dest: drop_bit_eq_0_bit)
  then show "encode a = push_bit 48 (word_of_nat (fst a)) OR take_bit 48 (word_of_nat (snd a) :: u64)"
    by (simp add: encode_def)
qed

lemma decode_encode [simp]: "addr_wf a \<Longrightarrow> decode (encode a) = a"
  using addr_wf_encode_word [of a]
  by (auto simp: decode_def serial_combine offset_combine addr_wf_def unat_of_nat
      take_bit_nat_eq_self prod_eq_iff)

lemma decode_wf: "addr_wf (decode w)"
  using offset_less serial_less by (simp add: addr_wf_def decode_def)

lemma encode_decode: "encode (decode w) = w"
proof -
  have "encode (decode w) = push_bit 48 (serial w) OR take_bit 48 (offset w)"
    using addr_wf_encode_word(1) [OF decode_wf, of w] by (simp add: decode_def)
  then show ?thesis by (simp add: serial_offset_combine)
qed

lemma serial_encode: "addr_wf a \<Longrightarrow> serial (encode a) = word_of_nat (fst a)"
  using addr_wf_encode_word [of a] by (simp add: serial_combine)

section \<open>Properties\<close>

text \<open>
  The constructor aborts exactly when the serial does not fit 16 bits or the offset
  does not fit 48 bits; otherwise both fields read back what was packed, and packing the
  two fields of any address word gives that word again.
\<close>

theorem address_roundtrip:
  "(case shm_address_make s p of
      None \<Rightarrow> unat s \<ge> 2 ^ 16 \<or> unat p \<ge> 2 ^ 48
    | Some a \<Rightarrow> unat s < 2 ^ 16 \<and> unat p < 2 ^ 48 \<and> serial a = s \<and> offset a = p)
   \<and> shm_address_make (serial b) (offset b) = Some b"
proof
  show "case shm_address_make s p of
      None \<Rightarrow> unat s \<ge> 2 ^ 16 \<or> unat p \<ge> 2 ^ 48
    | Some a \<Rightarrow> unat s < 2 ^ 16 \<and> unat p < 2 ^ 48 \<and> serial a = s \<and> offset a = p"
  proof (cases "shm_address_make s p")
    case None
    then have "\<not> (unat s < 2 ^ 16 \<and> unat p < 2 ^ 48)"
      using address_make_exists [of s p] by auto
    with None show ?thesis by auto
  next
    case (Some a)
    then have "drop_bit 16 s = 0" and "drop_bit 48 p = 0"
      by (simp_all add: address_make_Some_iff)
    then show ?thesis
      using address_make_fields [OF Some] by (simp add: Some drop_bit_eq_0_iff_less)
  qed
  show "shm_address_make (serial b) (offset b) = Some b"
    by (simp only: address_make_Some_iff drop_bit_serial drop_bit_offset serial_offset_combine)
qed

text \<open>
  \<^verbatim>\<open>operator==\<close> of addresses is reflexive and symmetric, is plain equality on the
  words of one block or of two generated serials, identifies a generated address with the
  userdata address of the same offset, and for that reason is not transitive: two
  allocations of different serials at one offset both equal the raw userdata address and
  differ from each other.
\<close>

theorem address_eq_laws:
  "address_eq a a \<and>
   address_eq a b = address_eq b a \<and>
   (serial a = serial b \<or> serial a \<noteq> USERDATA_SERIAL_NUM \<and> serial b \<noteq> USERDATA_SERIAL_NUM
      \<longrightarrow> address_eq a b = (a = b)) \<and>
   (serial a = USERDATA_SERIAL_NUM \<and> serial b \<ge> MIN_VALID_SERIAL_NUM
      \<longrightarrow> address_eq a b = (offset a = offset b)) \<and>
   (\<exists>x y z. address_eq x y \<and> address_eq y z \<and> \<not> address_eq x z)"
proof -
  have eq: "serial a = serial b \<Longrightarrow> address_eq a b = (a = b)"
    by (auto simp: address_eq_def MIN_VALID_SERIAL_NUM_def USERDATA_SERIAL_NUM_def
        intro: address_ext)
  have trans: "address_eq 0x3000000000008 0x2000000000008 \<and>
      address_eq 0x2000000000008 0x4000000000008 \<and>
      \<not> address_eq 0x3000000000008 0x4000000000008"
    by (simp add: address_eq_def serial_def offset_def config_defs)
  then have "\<exists>x y z. address_eq x y \<and> address_eq y z \<and> \<not> address_eq x z"
    by blast
  moreover have "address_eq a a" and "address_eq a b = address_eq b a"
    by (auto simp: address_eq_def)
  moreover have "serial a \<noteq> USERDATA_SERIAL_NUM \<Longrightarrow> serial b \<noteq> USERDATA_SERIAL_NUM \<Longrightarrow>
      address_eq a b = (a = b)"
    by (simp add: address_eq_def)
  moreover have "serial a = USERDATA_SERIAL_NUM \<Longrightarrow> serial b \<ge> MIN_VALID_SERIAL_NUM \<Longrightarrow>
      address_eq a b = (offset a = offset b)"
    by (auto simp: address_eq_def)
  ultimately show ?thesis
    using eq by blast
qed

theorem address_eq_laws_witness:
  "serial 0x2000000000008 = USERDATA_SERIAL_NUM \<and>
   serial 0x5000000000008 \<ge> MIN_VALID_SERIAL_NUM \<and>
   address_eq 0x2000000000008 0x5000000000008"
proof -
  have "serial 0x2000000000008 = USERDATA_SERIAL_NUM"
    and "serial 0x5000000000008 \<ge> MIN_VALID_SERIAL_NUM"
    and "offset 0x2000000000008 = offset 0x5000000000008"
    by (simp_all add: serial_def offset_def config_defs)
  then show ?thesis
    using address_eq_laws [of "0x2000000000008" "0x5000000000008"] by blast
qed

text \<open>
  The pair form of addresses refines the packed word: decoding commutes with the
  constructor (aborts included), the comparison and the bool conversion, and is a bijection
  between the 64-bit words and the pairs whose fields fit 16 and 48 bits.
\<close>

theorem address_pair_refinement:
  "map_option decode (shm_address_make s p) = make_addr (unat s) (unat p) \<and>
   address_eq a b = addr_eq (decode a) (decode b) \<and>
   address_valid a = addr_ok (decode a) \<and>
   bij_betw decode UNIV {x. addr_wf x}"
proof (intro conjI)
  show "map_option decode (shm_address_make s p) = make_addr (unat s) (unat p)"
  proof (cases "shm_address_make s p")
    case None
    then have "\<not> (unat s < 2 ^ 16 \<and> unat p < 2 ^ 48)"
      using address_make_exists [of s p] by auto
    with None show ?thesis by (auto simp: make_addr_def div_eq_0_iff)
  next
    case (Some a)
    then show ?thesis
      using address_make_fields [OF Some]
      by (auto simp: address_make_Some_iff drop_bit_eq_0_iff_less make_addr_def div_eq_0_iff decode_def)
  qed
  have inj: "decode x = decode y \<Longrightarrow> x = y" for x y by (metis encode_decode)
  have eq: "decode x = decode y \<longleftrightarrow> x = y" for x y using inj by blast
  show "address_eq a b = addr_eq (decode a) (decode b)"
    by (simp add: address_eq_def addr_eq_def eq config_defs) (simp add: decode_def word_le_nat_alt
        word_unat_eq_iff)
  show "address_valid a = addr_ok (decode a)"
    by (simp add: address_valid_def addr_ok_def decode_def unat_eq_zero)
  show "bij_betw decode UNIV {x. addr_wf x}"
    by (intro bij_betw_byWitness [where f' = encode]) (auto simp: decode_wf encode_decode)
qed

end
