(* ===== verification/Size_Map.thy ===== *)
theory Size_Map
  imports Prelude
begin

text \<open>
  \<^verbatim>\<open>src/src/shm/detail/size_map.h\<close> and \<^verbatim>\<open>size_map.cpp\<close>: the table that maps a request
  in bytes to a size class, and a class to its chunk size and its span length in pages.
  \<open>size_map_init\<close> is the table builder \<^verbatim>\<open>size_map::init\<close> with its three loops; the
  theorems evaluate it and show that the lookup returns the smallest class that fits.
  Sizes are natural numbers: every value stays below \<open>2 ^ 19\<close>. The quotient
  \<^verbatim>\<open>64.0 * 1024.0 / bytes\<close> of \<^verbatim>\<open>chunk_count\<close> is truncated to an int, which for a power of two
  divided by an integer below \<open>2 ^ 19\<close> is the integer quotient. In \<open>class_loop\<close> a write
  behind the end of the two class arrays, which the code does not guard, is \<open>None\<close>, so the
  result of \<open>size_map_init\<close> below shows that it never happens.
\<close>

section \<open>Definitions\<close>

definition SIZE_CLASS_COUNT :: nat where "SIZE_CLASS_COUNT = 87"
definition MAX_SIZE :: nat where "MAX_SIZE = 256 * 1024"
definition MAX_SMALL_SIZE :: nat where "MAX_SMALL_SIZE = 1024"
definition CLASS_ARRAY_SIZE :: nat where
  "CLASS_ARRAY_SIZE = (MAX_SIZE + 127 + 120 * 2 ^ 7) div 2 ^ 7 + 1"
definition BASE_ALIGNMENT :: nat where "BASE_ALIGNMENT = 8"
definition MIN_ALIGNMENT :: nat where "MIN_ALIGNMENT = 16"
definition page_size :: nat where "page_size = 8192"

named_theorems size_map_consts
lemmas [size_map_consts] = SIZE_CLASS_COUNT_def MAX_SIZE_def MAX_SMALL_SIZE_def
  CLASS_ARRAY_SIZE_def BASE_ALIGNMENT_def MIN_ALIGNMENT_def page_size_def

record size_map =
  index2class_arr :: "nat list"
  class2size_arr :: "nat list"
  class2pages_arr :: "nat list"

definition small_index :: "nat \<Rightarrow> nat" where
  "small_index bytes = (bytes + 7) div 2 ^ 3"

definition large_index :: "nat \<Rightarrow> nat" where
  "large_index bytes = (bytes + 127 + 120 * 2 ^ 7) div 2 ^ 7"

definition class_index :: "nat \<Rightarrow> nat option" where
  "class_index bytes = do {
     sk_assert (bytes \<le> MAX_SIZE);
     Some (if bytes \<le> MAX_SMALL_SIZE then small_index bytes else large_index bytes)
   }"

definition size2class :: "size_map \<Rightarrow> nat \<Rightarrow> nat option" where
  "size2class m bytes =
     (if bytes \<le> MAX_SMALL_SIZE then Some (index2class_arr m ! small_index bytes)
      else if bytes \<le> MAX_SIZE then Some (index2class_arr m ! large_index bytes)
      else None)"

definition class2size :: "size_map \<Rightarrow> nat \<Rightarrow> nat option" where
  "class2size m sc = do { sk_assert (sc < SIZE_CLASS_COUNT); Some (class2size_arr m ! sc) }"

definition class2pages :: "size_map \<Rightarrow> nat \<Rightarrow> nat option" where
  "class2pages m sc = do { sk_assert (sc < SIZE_CLASS_COUNT); Some (class2pages_arr m ! sc) }"

definition chunk_count :: "nat \<Rightarrow> nat" where
  "chunk_count bytes =
     (if bytes = 0 then 0
      else let num = 64 * 1024 div bytes;
               num = (if num < 2 then 2 else num);
               num = (if num > 32 then 32 else num)
           in num)"

fun lg_floor_loop :: "nat list \<Rightarrow> nat \<Rightarrow> nat \<Rightarrow> nat \<times> nat" where
  "lg_floor_loop [] n lg = (n, lg)"
| "lg_floor_loop (i # is) n lg =
     (let shift = 2 ^ i; x = n div 2 ^ shift
      in if x \<noteq> 0 then lg_floor_loop is x (lg + shift) else lg_floor_loop is n lg)"

definition lg_floor :: "nat \<Rightarrow> nat option" where
  "lg_floor n =
     (let (m, lg) = lg_floor_loop [4, 3, 2, 1, 0] n 0
      in do { sk_assert (m = 1); Some lg })"

definition calc_alignment :: "nat \<Rightarrow> nat option" where
  "calc_alignment bytes = do {
     alignment \<leftarrow>
       (if bytes > MAX_SIZE then Some page_size
        else if bytes \<ge> 128 then do { lg \<leftarrow> lg_floor bytes; Some (2 ^ lg div 8) }
        else if bytes \<ge> MIN_ALIGNMENT then Some MIN_ALIGNMENT
        else Some BASE_ALIGNMENT);
     let alignment = (if alignment > page_size then page_size else alignment);
     sk_assert (bytes < MIN_ALIGNMENT \<or> alignment \<ge> MIN_ALIGNMENT);
     sk_assert (and alignment (alignment - 1) = 0);
     Some alignment
   }"

function waste_loop :: "nat \<Rightarrow> nat \<Rightarrow> nat" where
  "waste_loop sz psize =
     (if 0 < sz \<and> psize mod sz > psize div 2 ^ 3 then waste_loop sz (psize + page_size)
      else psize)"
  by pat_completeness auto
termination
proof (relation "measure (\<lambda>(sz, psize). 8 * sz - psize)", goal_cases)
  case (2 sz psize)
  then have "psize div 8 < sz" using mod_less_divisor [of sz psize] by (simp del: mod_less_divisor) 
  then have "psize < 8 * sz" by (simp add: div_less_iff_less_mult mult.commute)
  then show ?case by (simp add: page_size_def)
qed simp

declare waste_loop.simps [simp del]

lemma waste_loop_ge: "psize \<le> waste_loop sz psize"
proof (induction sz psize rule: waste_loop.induct)
  case (1 sz psize)
  then show ?case by (subst waste_loop.simps) (auto simp: page_size_def)
qed

function psize_loop :: "nat \<Rightarrow> nat \<Rightarrow> nat \<Rightarrow> nat" where
  "psize_loop sz chunk_to_alloc psize =
     (let psize = waste_loop sz (psize + page_size)
      in if 0 < sz \<and> psize div sz < chunk_to_alloc
         then psize_loop sz chunk_to_alloc psize else psize)"
  by pat_completeness auto
termination
proof (relation "measure (\<lambda>(sz, chunk, psize). chunk * sz - psize)", goal_cases)
  case (2 sz chunk psize p)
  then have "p < chunk * sz" by (auto simp: div_less_iff_less_mult)
  moreover have "psize < p" using 2 waste_loop_ge [of "psize + page_size" sz]
    by (simp add: page_size_def)
  ultimately show ?case by simp
qed simp

declare psize_loop.simps [simp del]

lemma calc_alignment_pos: "calc_alignment n = Some a \<Longrightarrow> 0 < a"
  by (auto simp: calc_alignment_def size_map_consts bind_eq_Some_conv Let_def split: if_splits)

function class_loop ::
    "nat \<Rightarrow> nat \<Rightarrow> nat list \<Rightarrow> nat list \<Rightarrow> (nat \<times> nat list \<times> nat list) option" where
  "class_loop sz sc sizes pages =
     (if sz \<le> MAX_SIZE then do {
        alignment \<leftarrow> calc_alignment sz;
        sk_assert (sz mod alignment = 0);
        let this_page_count = psize_loop sz (chunk_count sz div 4) 0 div page_size;
        if sc > 1 \<and> this_page_count = pages ! (sc - 1) \<and>
           this_page_count * page_size div sz = pages ! (sc - 1) * page_size div sizes ! (sc - 1)
        then class_loop (sz + alignment) sc (sizes[sc - 1 := sz]) pages
        else do {
          sk_assert (sc < SIZE_CLASS_COUNT);
          class_loop (sz + alignment) (sc + 1) (sizes[sc := sz]) (pages[sc := this_page_count])
        }
      }
      else Some (sc, sizes, pages))"
  by pat_completeness auto
termination
  by (relation "measure (\<lambda>(sz, sc, sizes, pages). MAX_SIZE + 1 - sz)")
    (auto dest: calc_alignment_pos)

declare class_loop.simps [simp del]

function fill_class :: "nat list \<Rightarrow> nat \<Rightarrow> nat \<Rightarrow> nat \<Rightarrow> nat list option" where
  "fill_class arr s max_size_in_class c =
     (if s \<le> max_size_in_class then do {
        i \<leftarrow> class_index s;
        fill_class (arr[i := c]) (s + BASE_ALIGNMENT) max_size_in_class c
      }
      else Some arr)"
  by pat_completeness auto
termination
  by (relation "measure (\<lambda>(arr, s, m, c). m + 1 - s)") (auto simp: BASE_ALIGNMENT_def)

declare fill_class.simps [simp del]

fun fill_classes :: "nat list \<Rightarrow> nat list \<Rightarrow> nat \<Rightarrow> nat list \<Rightarrow> nat list option" where
  "fill_classes sizes [] next_size arr = Some arr"
| "fill_classes sizes (c # cs) next_size arr = do {
     arr' \<leftarrow> fill_class arr next_size (sizes ! c) c;
     fill_classes sizes cs (sizes ! c + BASE_ALIGNMENT) arr'
   }"

function verify_loop :: "size_map \<Rightarrow> nat \<Rightarrow> nat \<Rightarrow> int" where
  "verify_loop m class_count sz =
     (if sz \<le> MAX_SIZE then
        (case size2class m sz of
           None \<Rightarrow> -1
         | Some sc \<Rightarrow>
             if sc \<le> 0 \<or> sc \<ge> class_count then -1
             else if sc > 1 \<and> sz \<le> class2size_arr m ! (sc - 1) then -1
             else if sz > class2size_arr m ! sc \<or> class2size_arr m ! sc = 0 then -1
             else verify_loop m class_count (if sz \<le> MAX_SMALL_SIZE then sz + 8 else sz + 128))
      else 0)"
  by pat_completeness auto
termination
  by (relation "measure (\<lambda>(m, n, sz). MAX_SIZE + 1 - sz)") auto

declare verify_loop.simps [simp del]

definition size_map_init :: "size_map \<Rightarrow> (int \<times> size_map) option" where
  "size_map_init m0 = do {
     i0 \<leftarrow> class_index 0;
     iN \<leftarrow> class_index MAX_SIZE;
     if i0 \<noteq> 0 then Some (-1, m0)
     else if iN \<ge> CLASS_ARRAY_SIZE then Some (-1, m0)
     else do {
       let zero = replicate CLASS_ARRAY_SIZE 0;
       (sc, sizes, pages) \<leftarrow>
         class_loop BASE_ALIGNMENT 1 (replicate SIZE_CLASS_COUNT 0) (replicate SIZE_CLASS_COUNT 0);
       if sc > SIZE_CLASS_COUNT
       then Some (-1, \<lparr>index2class_arr = zero, class2size_arr = sizes, class2pages_arr = pages\<rparr>)
       else do {
         arr \<leftarrow> fill_classes sizes [1..<sc] 0 zero;
         let m = \<lparr>index2class_arr = arr, class2size_arr = sizes, class2pages_arr = pages\<rparr>;
         Some (verify_loop m sc 0, m)
       }
     }
   }"

section \<open>The index function\<close>

lemma MAX_SIZE_val: "MAX_SIZE = 262144"
  by (simp add: MAX_SIZE_def)

lemma class_index_Some:
  "b \<le> MAX_SIZE \<Longrightarrow>
     class_index b = Some (if b \<le> MAX_SMALL_SIZE then small_index b else large_index b)"
  by (simp add: class_index_def)

definition index_of :: "nat \<Rightarrow> nat" where
  "index_of b = (if b \<le> MAX_SMALL_SIZE then small_index b else large_index b)"

lemma index_of_less: "b \<le> MAX_SIZE \<Longrightarrow> index_of b < CLASS_ARRAY_SIZE"
  by (auto simp: index_of_def small_index_def large_index_def size_map_consts)

text \<open>The largest size that shares the index of a request.\<close>

definition rep_of :: "nat \<Rightarrow> nat" where
  "rep_of b = (if b \<le> MAX_SMALL_SIZE then 8 * ((b + 7) div 8) else 128 * ((b + 127) div 128))"

lemma index_of_rep_of: "index_of (rep_of b) = index_of b"
proof (cases "b \<le> MAX_SMALL_SIZE")
  case True
  then show ?thesis
    by (auto simp: index_of_def rep_of_def small_index_def size_map_consts)
next
  case False
  then have "128 * ((b + 127) div 128) > 1024" by (simp add: size_map_consts)
  with False show ?thesis
    by (simp add: index_of_def rep_of_def large_index_def size_map_consts)
qed

lemma large_index_alt: "large_index b = (b + 127) div 128 + 120"
  by (simp add: large_index_def)

lemma rep_of_ge: "b \<le> rep_of b"
  by (auto simp: rep_of_def)

lemma index_of_gt_rep_of:
  assumes "8 dvd s" and "rep_of b < s"
  shows "index_of s \<noteq> index_of b"
proof (cases "b \<le> MAX_SMALL_SIZE")
  case True
  then have "index_of b \<le> 128"
    by (auto simp: index_of_def small_index_def size_map_consts)
  moreover have "s > 1024 \<Longrightarrow> index_of s \<ge> 129"
    by (auto simp: index_of_def large_index_def size_map_consts)
  moreover have "s \<le> 1024 \<Longrightarrow> index_of s > index_of b"
    using True assms by (auto simp: index_of_def rep_of_def small_index_def size_map_consts)
  ultimately show ?thesis by linarith
next
  case False
  then have lt: "128 * ((b + 127) div 128) < s"
    using assms(2) by (simp add: rep_of_def)
  with False have "s > MAX_SMALL_SIZE"
    using rep_of_ge [of b] by (simp add: rep_of_def)
  moreover have "(b + 127) div 128 < (s + 127) div 128"
    using lt by (simp add: less_eq_div_iff_mult_less_eq Suc_le_eq [symmetric])
  ultimately show ?thesis
    using False by (simp add: index_of_def large_index_alt)
qed

lemma rep_of_le: "b \<le> MAX_SIZE \<Longrightarrow> rep_of b \<le> MAX_SIZE"
  by (auto simp: rep_of_def size_map_consts)

lemma rep_of_dvd: "8 dvd rep_of b"
  by (auto simp: rep_of_def)

section \<open>The fill loops\<close>

text \<open>\<open>class_fits sizes s c\<close>: class \<open>c\<close> holds size \<open>s\<close> and the class below does not.\<close>

definition class_fits :: "nat list \<Rightarrow> nat \<Rightarrow> nat \<Rightarrow> bool" where
  "class_fits sizes s c \<longleftrightarrow> 1 \<le> c \<and> c < length sizes \<and> s \<le> sizes ! c \<and>
     (c = 1 \<or> sizes ! (c - 1) < s)"

text \<open>All multiples of 8 below \<open>n\<close> have been written, the last write to each index wins.\<close>

definition filled :: "nat list \<Rightarrow> nat list \<Rightarrow> nat \<Rightarrow> bool" where
  "filled sizes arr n \<longleftrightarrow> length arr = CLASS_ARRAY_SIZE \<and>
     (\<forall>s. 8 dvd s \<longrightarrow> s < n \<longrightarrow>
        (\<forall>s'. 8 dvd s' \<longrightarrow> s < s' \<longrightarrow> s' < n \<longrightarrow> index_of s' \<noteq> index_of s) \<longrightarrow>
        class_fits sizes s (arr ! index_of s))"

lemma dvd8_less_Suc: "8 dvd (s :: nat) \<Longrightarrow> 8 dvd n \<Longrightarrow> s < n + 8 \<Longrightarrow> s < n \<or> s = n"
  by (auto elim!: dvdE)

lemma filled_step:
  assumes "filled sizes arr n" and "8 dvd n" and "n \<le> MAX_SIZE" and "class_fits sizes n c"
  shows "filled sizes (arr[index_of n := c]) (n + 8)"
  unfolding filled_def
proof (intro conjI allI impI)
  show "length (arr[index_of n := c]) = CLASS_ARRAY_SIZE"
    using assms(1) by (simp add: filled_def)
  fix s assume s: "8 dvd s" "s < n + 8"
    and last: "\<forall>s'. 8 dvd s' \<longrightarrow> s < s' \<longrightarrow> s' < n + 8 \<longrightarrow> index_of s' \<noteq> index_of s"
  have len: "index_of n < length arr"
    using assms(1,3) by (simp add: filled_def index_of_less)
  show "class_fits sizes s (arr[index_of n := c] ! index_of s)"
  proof (cases "s = n")
    case True
    with assms(4) len show ?thesis by simp
  next
    case False
    with s assms(2) have "s < n" using dvd8_less_Suc by blast
    with last assms(2) have "index_of n \<noteq> index_of s" by simp
    moreover have "class_fits sizes s (arr ! index_of s)"
      using assms(1) s(1) \<open>s < n\<close> last by (auto simp: filled_def)
    ultimately show ?thesis by simp
  qed
qed

lemma fill_class_filled:
  assumes "filled sizes arr s" and "8 dvd s" and "8 dvd m" and "m \<le> MAX_SIZE"
    and "sizes ! c = m" and "1 \<le> c" and "c < length sizes" and "c = 1 \<or> sizes ! (c - 1) < s"
    and "s \<le> m + 8"
  shows "\<exists>arr'. fill_class arr s m c = Some arr' \<and> filled sizes arr' (m + 8)"
  using assms
proof (induction arr s m c rule: fill_class.induct)
  case (1 arr s m c)
  show ?case
  proof (cases "s \<le> m")
    case True
    then have idx: "class_index s = Some (index_of s)"
      using "1.prems"(4) by (simp add: class_index_Some index_of_def)
    have "filled sizes (arr[index_of s := c]) (s + 8)"
      using "1.prems" True by (intro filled_step) (auto simp: class_fits_def)
    moreover have "s + 8 \<le> m + 8" using True by simp
    ultimately show ?thesis
      using "1.IH" [OF True idx] "1.prems" True idx
      by (subst fill_class.simps) (auto simp: BASE_ALIGNMENT_def)
  next
    case False
    with "1.prems" have "s = m + 8"
      by (auto elim!: dvdE)
    with False "1.prems"(1) show ?thesis by (subst fill_class.simps) simp
  qed
qed

lemma fill_classes_filled:
  assumes "filled sizes arr (if c = 1 then 0 else sizes ! (c - 1) + 8)"
    and "1 \<le> c" and "c \<le> n" and "n < length sizes"
    and "\<forall>i. 1 \<le> i \<longrightarrow> i \<le> n \<longrightarrow> 8 dvd sizes ! i \<and> sizes ! i \<le> MAX_SIZE"
    and "\<forall>i. 1 \<le> i \<longrightarrow> i < n \<longrightarrow> sizes ! i < sizes ! Suc i"
  shows "\<exists>arr'. fill_classes sizes [c..<Suc n] (if c = 1 then 0 else sizes ! (c - 1) + 8) arr
            = Some arr' \<and> filled sizes arr' (sizes ! n + 8)"
  using assms
proof (induction "n - c" arbitrary: c arr)
  case 0
  then have "c = n" by simp
  moreover have "\<exists>arr'. fill_class arr (if c = 1 then 0 else sizes ! (c - 1) + 8) (sizes ! c) c
      = Some arr' \<and> filled sizes arr' (sizes ! c + 8)"
    by (rule fill_class_filled) (use 0 in \<open>auto simp: Suc_le_eq dest: spec [of _ "c - 1"]\<close>)
  ultimately show ?case by (auto simp: BASE_ALIGNMENT_def)
next
  case (Suc k)
  then have cn: "c < n" by simp
  have "\<exists>arr'. fill_class arr (if c = 1 then 0 else sizes ! (c - 1) + 8) (sizes ! c) c
      = Some arr' \<and> filled sizes arr' (sizes ! c + 8)"
    by (rule fill_class_filled) (use Suc.prems cn in \<open>auto simp: Suc_le_eq dest: spec [of _ "c - 1"]\<close>)
  then obtain arr1 where a1: "fill_class arr (if c = 1 then 0 else sizes ! (c - 1) + 8) (sizes ! c) c
      = Some arr1" "filled sizes arr1 (sizes ! c + 8)" by blast
  have "\<exists>arr'. fill_classes sizes [Suc c..<Suc n] (if Suc c = 1 then 0 else sizes ! (Suc c - 1) + 8) arr1
            = Some arr' \<and> filled sizes arr' (sizes ! n + 8)"
    by (rule Suc.hyps(1)) (use Suc cn a1 in auto)
  then have "\<exists>arr'. fill_classes sizes [Suc c..<Suc n] (sizes ! c + 8) arr1
            = Some arr' \<and> filled sizes arr' (sizes ! n + 8)"
    using Suc.prems(2) by simp
  with a1 cn show ?case by (subst upt_conv_Cons) (auto simp: BASE_ALIGNMENT_def)
qed

section \<open>The class loop, evaluated\<close>

definition class_sizes :: "nat list" where
  "class_sizes =
    [0, 8, 16, 32, 48, 64, 80, 96, 112, 128, 144, 160, 176, 192, 208, 224, 240, 256, 288,
     320, 352, 384, 416, 448, 480, 512, 576, 640, 704, 768, 896, 1024, 1152, 1280, 1408,
     1536, 1792, 2048, 2304, 2560, 2816, 3072, 3328, 4096, 4608, 5120, 6144, 6656, 8192,
     9216, 10240, 12288, 13312, 16384, 20480, 24576, 26624, 32768, 40960, 49152, 57344,
     65536, 73728, 81920, 90112, 98304, 106496, 114688, 122880, 131072, 139264, 147456,
     155648, 163840, 172032, 180224, 188416, 196608, 204800, 212992, 221184, 229376,
     237568, 245760, 253952, 262144, 0]"

definition class_pages :: "nat list" where
  "class_pages =
    [0, 1, 1, 1, 1, 1, 1, 1, 1, 1, 1, 1, 1, 1, 1, 1, 1, 1, 1, 1, 1, 1, 1, 1, 1, 1, 1, 1, 1,
     1, 1, 1, 2, 2, 2, 2, 2, 2, 2, 2, 3, 2, 3, 2, 3, 2, 3, 5, 2, 5, 4, 3, 5, 2, 5, 3, 7, 4,
     5, 6, 7, 8, 9, 10, 11, 12, 13, 14, 15, 16, 17, 18, 19, 20, 21, 22, 23, 24, 25, 26, 27,
     28, 29, 30, 31, 32, 0]"

lemma waste_unfold:
  "waste_loop (numeral v) p =
     (if p mod (numeral v) > p div 8 then waste_loop (numeral v) (p + 8192) else p)"
  by (subst waste_loop.simps) (simp add: page_size_def)

lemma psize_unfold:
  "psize_loop (numeral v) c p =
     (let q = waste_loop (numeral v) (p + 8192)
      in if q div (numeral v) < c then psize_loop (numeral v) c q else q)"
  by (subst psize_loop.simps) (simp add: page_size_def Let_def)

lemma class_unfold:
  "class_loop (numeral v) sc sizes pages =
     (if numeral v \<le> (262144::nat) then do {
        alignment \<leftarrow> calc_alignment (numeral v);
        sk_assert (numeral v mod alignment = 0);
        let this_page_count = psize_loop (numeral v) (chunk_count (numeral v) div 4) 0 div 8192;
        if sc > 1 \<and> this_page_count = pages ! (sc - 1) \<and>
           this_page_count * 8192 div (numeral v) = pages ! (sc - 1) * 8192 div sizes ! (sc - 1)
        then class_loop (numeral v + alignment) sc (sizes[sc - 1 := numeral v]) pages
        else do {
          sk_assert (sc < 87);
          class_loop (numeral v + alignment) (sc + 1) (sizes[sc := numeral v])
            (pages[sc := this_page_count])
        }
      }
      else Some (sc, sizes, pages))"
  by (subst class_loop.simps) (simp only: MAX_SIZE_val page_size_def SIZE_CLASS_COUNT_def)

lemma update_numeral: "(x # xs)[numeral v := y] = x # xs[pred_numeral v := y]"
  by (simp add: numeral_eq_Suc)

lemma replicate_numeral: "replicate (numeral v) x = x # replicate (pred_numeral v) x"
  by (simp add: numeral_eq_Suc)

lemma class_loop_result:
  "class_loop 8 1 (replicate 87 0) (replicate 87 0) = Some (86, class_sizes, class_pages)"
  by (simp add: class_unfold psize_unfold waste_unfold calc_alignment_def lg_floor_def
      size_map_consts chunk_count_def update_numeral replicate_numeral
      class_sizes_def class_pages_def)

text \<open>Two consecutive entries of the size table, as one executable check per entry.\<close>

definition good_step :: "nat \<Rightarrow> nat \<Rightarrow> bool" where
  "good_step a b \<longleftrightarrow> a < b \<and> b \<le> MAX_SIZE \<and> 8 dvd b \<and> (b \<le> MAX_SMALL_SIZE \<or> 128 dvd b)"

lemma class_sizes_length [simp]: "length class_sizes = 87"
  by (simp add: class_sizes_def)

lemma class_pages_length [simp]: "length class_pages = 87"
  by (simp add: class_pages_def)

lemma class_sizes_steps: "\<forall>i < 85. good_step (class_sizes ! i) (class_sizes ! Suc i)"
proof -
  have "list_all (\<lambda>(a, b). good_step a b) (zip (take 85 class_sizes) (take 85 (tl class_sizes)))"
    by (simp add: class_sizes_def good_step_def size_map_consts take_Cons_numeral)
  then show ?thesis
    by (simp add: list_all_length nth_tl)
qed

lemma class_sizes_last: "class_sizes ! 85 = MAX_SIZE"
  by (simp add: class_sizes_def size_map_consts)

lemma class_sizes_entry:
  assumes "1 \<le> i" and "i \<le> 85"
  shows "8 dvd class_sizes ! i" and "class_sizes ! i \<le> MAX_SIZE" and "0 < class_sizes ! i"
    and "class_sizes ! i \<le> MAX_SMALL_SIZE \<or> 128 dvd class_sizes ! i"
proof -
  have "i - 1 < 85" and "Suc (i - 1) = i" using assms by auto
  then have "good_step (class_sizes ! (i - 1)) (class_sizes ! i)"
    using class_sizes_steps by metis
  then show "8 dvd class_sizes ! i" and "class_sizes ! i \<le> MAX_SIZE" and "0 < class_sizes ! i"
    and "class_sizes ! i \<le> MAX_SMALL_SIZE \<or> 128 dvd class_sizes ! i"
    by (auto simp: good_step_def)
qed

lemma class_sizes_mono: "i < 85 \<Longrightarrow> class_sizes ! i < class_sizes ! Suc i"
  using class_sizes_steps by (simp add: good_step_def)

lemma class_sizes_strict:
  assumes "i < j" and "j \<le> 85"
  shows "class_sizes ! i < class_sizes ! j"
  using assms
proof (induction j)
  case (Suc j)
  then show ?case using class_sizes_mono [of j] by (cases "i = j") auto
qed simp

definition good_span :: "nat \<Rightarrow> nat \<Rightarrow> bool" where
  "good_span sz pages \<longleftrightarrow> 1 \<le> pages \<and> sz \<le> pages * page_size \<and>
     (pages * page_size) mod sz \<le> pages * page_size div 8"

lemma class_span_entry:
  assumes "1 \<le> c" and "c \<le> 85"
  shows "1 \<le> class_pages ! c" and "class_sizes ! c \<le> class_pages ! c * page_size"
    and "(class_pages ! c * page_size) mod (class_sizes ! c) \<le> class_pages ! c * page_size div 8"
proof -
  have "list_all (\<lambda>(sz, pages). good_span sz pages)
      (zip (take 85 (tl class_sizes)) (take 85 (tl class_pages)))"
    by (simp add: class_sizes_def class_pages_def good_span_def page_size_def take_Cons_numeral)
  then have "\<forall>i < 85. good_span (class_sizes ! Suc i) (class_pages ! Suc i)"
    by (simp add: list_all_length nth_tl)
  moreover have "c - 1 < 85" and "Suc (c - 1) = c" using assms by auto
  ultimately have "good_span (class_sizes ! c) (class_pages ! c)" by metis
  then show "1 \<le> class_pages ! c" and "class_sizes ! c \<le> class_pages ! c * page_size"
    and "(class_pages ! c * page_size) mod (class_sizes ! c) \<le> class_pages ! c * page_size div 8"
    by (simp_all add: good_span_def)
qed

section \<open>The initialised table\<close>

text \<open>What \<^verbatim>\<open>init\<close> establishes; the components above the map rely on it alone.\<close>

definition size_map_ok :: "size_map \<Rightarrow> bool" where
  "size_map_ok m \<longleftrightarrow> class2size_arr m = class_sizes \<and> class2pages_arr m = class_pages \<and>
     filled class_sizes (index2class_arr m) (MAX_SIZE + 8)"

lemma filled_lookup:
  assumes "filled class_sizes arr (MAX_SIZE + 8)" and "b \<le> MAX_SIZE"
  shows "class_fits class_sizes b (arr ! index_of b) \<and> arr ! index_of b \<le> 85"
proof -
  let ?c = "arr ! index_of b"
  have n: "rep_of b < MAX_SIZE + 8" using rep_of_le [OF assms(2)] by simp
  have "\<forall>s. 8 dvd s \<longrightarrow> rep_of b < s \<longrightarrow> s < MAX_SIZE + 8 \<longrightarrow> index_of s \<noteq> index_of (rep_of b)"
    unfolding index_of_rep_of using index_of_gt_rep_of by blast
  then have "class_fits class_sizes (rep_of b) (arr ! index_of (rep_of b))"
    using assms(1) rep_of_dvd [of b] n unfolding filled_def by blast
  then have fits: "class_fits class_sizes (rep_of b) ?c"
    by (simp add: index_of_rep_of)
  have c85: "?c \<le> 85"
  proof (rule ccontr)
    assume "\<not> ?c \<le> 85"
    with fits have "?c = 86" by (auto simp: class_fits_def)
    then have "rep_of b = 0" and "class_sizes ! 85 < rep_of b"
      using fits by (auto simp: class_fits_def class_sizes_def)
    then show False by simp
  qed
  have "class_sizes ! (?c - 1) < b" if "?c \<noteq> 1"
  proof -
    let ?p = "class_sizes ! (?c - 1)"
    have lt: "?p < rep_of b" and one: "1 \<le> ?c - 1" "?c - 1 \<le> 85"
      using fits that c85 by (auto simp: class_fits_def)
    note e = class_sizes_entry [OF one]
    show ?thesis
    proof (cases "b \<le> MAX_SMALL_SIZE")
      case True
      with lt have "?p < 8 * ((b + 7) div 8)" by (simp add: rep_of_def)
      with e(1) show ?thesis by (auto elim!: dvdE)
    next
      case False
      with lt have "?p < 128 * ((b + 127) div 128)" by (simp add: rep_of_def)
      with e(4) False show ?thesis by (auto elim!: dvdE)
    qed
  qed
  then show ?thesis
    using fits c85 rep_of_ge [of b] by (auto simp: class_fits_def)
qed

lemma size2class_index_of:
  "size2class m b = (if b \<le> MAX_SIZE then Some (index2class_arr m ! index_of b) else None)"
  by (auto simp: size2class_def index_of_def size_map_consts)

lemma size2class_fits:
  assumes "size_map_ok m" and "b \<le> MAX_SIZE"
  shows "\<exists>c. size2class m b = Some c \<and> class_fits class_sizes b c \<and> 1 \<le> c \<and> c \<le> 85"
  using assms filled_lookup [of "index2class_arr m" b]
  by (auto simp: size_map_ok_def size2class_index_of class_fits_def)

lemma verify_loop_ok: "size_map_ok m \<Longrightarrow> verify_loop m 86 sz = 0"
proof (induction m "86 :: nat" sz rule: verify_loop.induct)
  case (1 m sz)
  show ?case
  proof (cases "sz \<le> MAX_SIZE")
    case True
    then obtain c where c: "size2class m sz = Some c" "class_fits class_sizes sz c" "1 \<le> c" "c \<le> 85"
      using size2class_fits "1.prems" by blast
    moreover have "0 < class_sizes ! c" using class_sizes_entry c by blast
    moreover have "class2size_arr m = class_sizes" using "1.prems" by (simp add: size_map_ok_def)
    ultimately show ?thesis
      using 1 True by (subst verify_loop.simps) (auto simp: class_fits_def)
  qed (subst verify_loop.simps, simp)
qed

lemma size_map_init_ok: "\<exists>m. size_map_init m0 = Some (0, m) \<and> size_map_ok m"
proof -
  have "filled class_sizes (replicate CLASS_ARRAY_SIZE 0) 0"
    by (simp add: filled_def)
  then have "\<exists>arr. fill_classes class_sizes [1..<Suc 85] (if (1::nat) = 1 then 0 else class_sizes ! (1 - 1) + 8)
        (replicate CLASS_ARRAY_SIZE 0) = Some arr \<and> filled class_sizes arr (class_sizes ! 85 + 8)"
    by (intro fill_classes_filled) (auto intro: class_sizes_entry class_sizes_mono)
  then obtain arr where arr: "fill_classes class_sizes [1..<86] 0 (replicate CLASS_ARRAY_SIZE 0) = Some arr"
      "filled class_sizes arr (MAX_SIZE + 8)"
    by (auto simp: class_sizes_last)
  let ?m = "\<lparr>index2class_arr = arr, class2size_arr = class_sizes, class2pages_arr = class_pages\<rparr>"
  have ok: "size_map_ok ?m" by (simp add: size_map_ok_def arr)
  have "class_index 0 = Some 0" and "class_index MAX_SIZE = Some 2168"
    by (simp_all add: class_index_def small_index_def large_index_def size_map_consts)
  moreover have "CLASS_ARRAY_SIZE = 2169" by (simp add: size_map_consts)
  moreover have "class_loop BASE_ALIGNMENT 1 (replicate SIZE_CLASS_COUNT 0)
      (replicate SIZE_CLASS_COUNT 0) = Some (86, class_sizes, class_pages)"
    using class_loop_result by (simp add: BASE_ALIGNMENT_def SIZE_CLASS_COUNT_def)
  ultimately have "size_map_init m0 = Some (0, ?m)"
    using arr(1) verify_loop_ok [OF ok]
    by (simp add: size_map_init_def SIZE_CLASS_COUNT_def del: upt_Suc upt_conv_Cons)
  with ok show ?thesis by blast
qed

section \<open>Properties\<close>

text \<open>
  From any memory contents, \<^verbatim>\<open>size_map::init\<close> succeeds without a failing assertion, its
  own verification pass included; afterwards every request of at most \<^verbatim>\<open>MAX_SIZE\<close> bytes
  maps to a class whose chunk is large enough while the chunk of the class below is too
  small, so the lookup returns the smallest class that fits, and every larger request is
  refused.
\<close>

theorem size_map_lookup_smallest:
  "\<exists>m. size_map_init m0 = Some (0, m) \<and>
     (\<forall>b. case size2class m b of
        None \<Rightarrow> b > MAX_SIZE
      | Some c \<Rightarrow> b \<le> MAX_SIZE \<and> 1 \<le> c \<and> c < SIZE_CLASS_COUNT - 1 \<and>
          (\<exists>sz. class2size m c = Some sz \<and> b \<le> sz) \<and>
          (c = 1 \<or> (\<exists>sz. class2size m (c - 1) = Some sz \<and> sz < b)))"
proof -
  obtain m where m: "size_map_init m0 = Some (0, m)" "size_map_ok m"
    using size_map_init_ok by blast
  have sizes: "class2size_arr m = class_sizes" using m(2) by (simp add: size_map_ok_def)
  have "case size2class m b of
        None \<Rightarrow> b > MAX_SIZE
      | Some c \<Rightarrow> b \<le> MAX_SIZE \<and> 1 \<le> c \<and> c < SIZE_CLASS_COUNT - 1 \<and>
          (\<exists>sz. class2size m c = Some sz \<and> b \<le> sz) \<and>
          (c = 1 \<or> (\<exists>sz. class2size m (c - 1) = Some sz \<and> sz < b))" for b
  proof (cases "b \<le> MAX_SIZE")
    case True
    then obtain c where "size2class m b = Some c" "class_fits class_sizes b c" "1 \<le> c" "c \<le> 85"
      using size2class_fits m(2) by blast
    with True sizes show ?thesis
      by (auto simp: class_fits_def class2size_def SIZE_CLASS_COUNT_def)
  qed (simp add: size2class_index_of)
  with m(1) show ?thesis by blast
qed

text \<open>
  In the table \<^verbatim>\<open>init\<close> builds, the span of every class is at least one page long and
  holds at least one chunk, and what is left of it after the last whole chunk is at most
  an eighth of the span, the bound the comment of the loop states.
\<close>

theorem size_map_waste_bound:
  "\<exists>m. size_map_init m0 = Some (0, m) \<and>
     (\<forall>c \<in> {1..<SIZE_CLASS_COUNT - 1}. \<exists>sz pages. class2size m c = Some sz \<and>
        class2pages m c = Some pages \<and> 0 < sz \<and> 1 \<le> pages \<and>
        sz \<le> pages * page_size \<and> (pages * page_size) mod sz \<le> pages * page_size div 8)"
proof -
  obtain m where m: "size_map_init m0 = Some (0, m)" "size_map_ok m"
    using size_map_init_ok by blast
  have "\<exists>sz pages. class2size m c = Some sz \<and> class2pages m c = Some pages \<and> 0 < sz \<and>
      1 \<le> pages \<and> sz \<le> pages * page_size \<and>
      (pages * page_size) mod sz \<le> pages * page_size div 8"
    if "c \<in> {1..<SIZE_CLASS_COUNT - 1}" for c
  proof -
    have c: "1 \<le> c" "c \<le> 85" using that by (auto simp: SIZE_CLASS_COUNT_def)
    have "class2size m c = Some (class_sizes ! c)" and "class2pages m c = Some (class_pages ! c)"
      using c m(2) by (simp_all add: class2size_def class2pages_def size_map_ok_def
          SIZE_CLASS_COUNT_def)
    then show ?thesis
      using class_span_entry [OF c] class_sizes_entry(3) [OF c] by auto
  qed
  with m(1) show ?thesis by blast
qed

theorem size_map_waste_bound_witness:
  "(40 :: nat) \<in> {1..<SIZE_CLASS_COUNT - 1} \<and>
   (\<exists>m sz pages. size_map_init \<lparr>index2class_arr = [], class2size_arr = [], class2pages_arr = []\<rparr> =
        Some (0, m) \<and>
      class2size m 40 = Some sz \<and> class2pages m 40 = Some pages \<and>
      (pages * page_size) mod sz \<le> pages * page_size div 8)"
proof
  show c: "(40 :: nat) \<in> {1..<SIZE_CLASS_COUNT - 1}" by (simp add: SIZE_CLASS_COUNT_def)
  show "\<exists>m sz pages. size_map_init \<lparr>index2class_arr = [], class2size_arr = [], class2pages_arr = []\<rparr> =
        Some (0, m) \<and> class2size m 40 = Some sz \<and> class2pages m 40 = Some pages \<and>
      (pages * page_size) mod sz \<le> pages * page_size div 8"
    using size_map_waste_bound [of "\<lparr>index2class_arr = [], class2size_arr = [], class2pages_arr = []\<rparr>"] c
    by blast
qed

end
