(* ===== verification/Shm_Memory.thy ===== *)
theory Shm_Memory
  imports Shm_Address Size_Map
begin

text \<open>
  The state of the shared memory manager and its two growing blocks:
  \<^verbatim>\<open>src/src/shm/detail/shm_object.cpp\<close>, the block functions, \<^verbatim>\<open>sbrk\<close>, \<^verbatim>\<open>addr2ptr\<close> and
  \<^verbatim>\<open>ptr2addr\<close> of \<^verbatim>\<open>src/src/shm/detail/shm_mgr.cpp\<close>.

  The metadata block holds the spans, the nodes of the radix tree and the free cells of the
  metadata allocator. \<open>meta\<close> gives the object that was last constructed at an offset, as a
  \<open>cell\<close>; reading an offset as an object of another kind is \<open>None\<close>, so a theorem that an
  operation returns \<open>Some\<close> also excludes a use of a freed span or of a node under
  construction. The userdata block is a memory of 64-bit words, indexed by byte offset.
  The operating system is a parameter: \<open>answer\<close> answers the system calls, numbered in the order in
  which they are made, with \<open>None\<close> for a failure.
\<close>

unbundle bit_operations_syntax

section \<open>State\<close>

definition MAX_PAGES :: nat where "MAX_PAGES = 2 ^ (20 - 13)"
definition HEAP_GROW_PAGE_COUNT :: nat where "HEAP_GROW_PAGE_COUNT = MAX_PAGES"
definition MAX_PAGE_COUNT :: nat where "MAX_PAGE_COUNT = 2 ^ (48 - 13)"
definition METADATA_GROW_SIZE :: nat where "METADATA_GROW_SIZE = 2 ^ 20"
definition USERDATA_GROW_SIZE :: nat where "USERDATA_GROW_SIZE = 2 ^ 20"

lemmas grow_defs = MAX_PAGES_def HEAP_GROW_PAGE_COUNT_def MAX_PAGE_COUNT_def
  METADATA_GROW_SIZE_def USERDATA_GROW_SIZE_def

record span =
  in_use :: bool
  size_class :: nat
  used_count :: nat
  start_page :: nat
  page_count :: nat
  prev_span :: addr
  next_span :: addr
  chunk_list :: addr

datatype cell =
    Raw
  | SpanCell span
  | Link addr
  | Node1 "nat \<Rightarrow> addr"
  | Node2 "nat \<Rightarrow> addr"

datatype syscall =
    Shm_open nat
  | Ftruncate nat nat
  | Fstat nat
  | Mmap nat nat
  | Mmap_fixed nat nat nat
  | Munmap nat nat
  | Shm_unlink nat

record os =
  os_page_size :: nat
  answer :: "nat \<Rightarrow> syscall \<Rightarrow> nat option"

record shm_block =
  block_addr :: nat
  used_size :: nat
  real_size :: nat
  mmap_size :: nat

record metadata_stat =
  ma_total_size :: nat
  ma_waste_size :: nat
  ma_alloc_count :: nat
  ma_free_count :: nat

record page_heap_stat =
  ph_used_size :: nat
  ph_total_size :: nat
  ph_grow_count :: nat
  ph_alloc_count :: nat
  ph_free_count :: nat

record class_cache =
  span_count :: int
  cl_alloc_count :: nat
  cl_free_count :: nat
  cl_used_size :: nat
  cl_total_size :: nat

record chunk_cache_stat =
  cc_span_alloc_count :: nat
  cc_span_free_count :: nat
  cc_alloc_count :: nat
  cc_free_count :: nat
  cc_used_size :: nat
  cc_total_size :: nat

record mgr_stat =
  alloc_count :: nat
  free_count :: nat
  metadata_alloc_count :: nat
  userdata_alloc_count :: nat

record shm =
  os :: os
  os_calls :: nat
  default_mmap_size :: nat
  blocks :: "nat \<Rightarrow> shm_block"
  meta :: "nat \<Rightarrow> cell"
  user :: "nat \<Rightarrow> u64"
  sizes :: size_map
  lv0 :: "nat \<Rightarrow> addr"
  span_free_list :: addr
  ma_stat :: metadata_stat
  ph_stat :: page_heap_stat
  caches :: "nat \<Rightarrow> class_cache"
  cc_stat :: chunk_cache_stat
  serial_no :: nat
  singletons :: "nat \<Rightarrow> addr"
  mgr_stat :: mgr_stat
  basename :: string

section \<open>System calls and shared memory objects\<close>

definition sys :: "shm \<Rightarrow> syscall \<Rightarrow> nat option \<times> shm" where
  "sys s c = (answer (os s) (os_calls s) c, s\<lparr>os_calls := Suc (os_calls s)\<rparr>)"

definition round_up :: "nat \<Rightarrow> nat \<Rightarrow> nat option" where
  "round_up sz alignment =
     (if sz mod alignment \<noteq> 0 then do {
        let real = sz + (alignment - and sz (alignment - 1));
        sk_assert (real mod alignment = 0);
        Some real
      }
      else Some sz)"

definition shm_object_create :: "shm \<Rightarrow> nat \<Rightarrow> nat \<Rightarrow> (nat option \<times> shm) option" where
  "shm_object_create s path sz = (
     let (fd, s) = sys s (Shm_open path) in
     if fd = None then Some (None, s)
     else do {
       real \<leftarrow> round_up sz (os_page_size (os s));
       let (ret, s) = sys s (Ftruncate path real);
       if ret = None then Some (None, snd (sys s (Shm_unlink path)))
       else Some (Some real, s)
     })"

definition shm_object_attach :: "shm \<Rightarrow> nat \<Rightarrow> (nat option \<times> shm) option" where
  "shm_object_attach s path = (
     let (fd, s) = sys s (Shm_open path) in
     if fd = None then Some (None, s)
     else Some (sys s (Fstat path)))"

definition shm_object_resize :: "shm \<Rightarrow> nat \<Rightarrow> nat \<Rightarrow> (nat option \<times> shm) option" where
  "shm_object_resize s path sz = (
     let (fd, s) = sys s (Shm_open path) in
     if fd = None then Some (None, s)
     else do {
       real \<leftarrow> round_up sz (os_page_size (os s));
       let (ret, s) = sys s (Ftruncate path real);
       Some (if ret = None then None else Some real, s)
     })"

definition shm_object_map :: "shm \<Rightarrow> nat \<Rightarrow> nat \<Rightarrow> nat \<Rightarrow> ((nat \<times> nat) option \<times> shm) option" where
  "shm_object_map s path sz alignment0 = do {
     let page = os_page_size (os s);
     let alignment = (if alignment0 < page then page else alignment0);
     real \<leftarrow> round_up sz alignment;
     let extra = (if alignment > page then alignment - page else 0);
     let (r, s) = sys s (Mmap path (real + extra));
     case r of None \<Rightarrow> Some (None, s)
     | Some ptr \<Rightarrow> do {
         let skip_size = (if ptr mod alignment \<noteq> 0 then alignment - and ptr (alignment - 1) else 0);
         sk_assert (ptr mod alignment \<noteq> 0 \<longrightarrow> skip_size \<le> extra);
         if skip_size = 0 then
           if extra > 0 then do {
             let (ret, s) = sys s (Munmap (ptr + real) extra);
             sk_assert (ret \<noteq> None);
             Some (Some (ptr, real), s)
           }
           else Some (Some (ptr, real), s)
         else do {
           let (ret, s) = sys s (Munmap ptr (real + extra));
           sk_assert (ret \<noteq> None);
           let (r2, s) = sys s (Mmap_fixed path (ptr + skip_size) real);
           case r2 of None \<Rightarrow> Some (None, s)
           | Some p2 \<Rightarrow> do {
               sk_assert (p2 = ptr + skip_size);
               Some (Some (p2, real), s)
             }
         }
       }
   }"

definition shm_object_unmap :: "shm \<Rightarrow> nat \<Rightarrow> nat \<Rightarrow> shm option" where
  "shm_object_unmap s ptr sz = (
     let (ret, s) = sys s (Munmap ptr sz) in do { sk_assert (ret \<noteq> None); Some s })"

definition shm_object_unlink :: "shm \<Rightarrow> nat \<Rightarrow> shm option" where
  "shm_object_unlink s path = (
     let (ret, s) = sys s (Shm_unlink path) in do { sk_assert (ret \<noteq> None); Some s })"

section \<open>The two blocks\<close>

definition METADATA_BLOCK :: nat where "METADATA_BLOCK = 0"
definition USERDATA_BLOCK :: nat where "USERDATA_BLOCK = 1"

lemmas block_defs = METADATA_BLOCK_def USERDATA_BLOCK_def

definition create_block :: "shm \<Rightarrow> nat \<Rightarrow> nat \<Rightarrow> nat \<Rightarrow> (int \<times> shm) option" where
  "create_block s i real mmap = do {
     (fd, s) \<leftarrow> shm_object_create s i real;
     case fd of None \<Rightarrow> Some (-1, s)
     | Some real' \<Rightarrow> do {
         (m, s) \<leftarrow> shm_object_map s i mmap page_size;
         case m of
           None \<Rightarrow> do { s \<leftarrow> shm_object_unlink s i; Some (-1, s) }
         | Some (ptr, mmap') \<Rightarrow>
             Some (0, s\<lparr>blocks := (blocks s)(i :=
               \<lparr>block_addr = ptr, used_size = 0, real_size = real', mmap_size = mmap'\<rparr>)\<rparr>)
       }
   }"

definition resize_block :: "shm \<Rightarrow> nat \<Rightarrow> nat \<Rightarrow> (int \<times> shm) option" where
  "resize_block s i new_size = (
     if new_size > mmap_size (blocks s i) then Some (-1, s)
     else do {
       (fd, s) \<leftarrow> shm_object_resize s i new_size;
       case fd of None \<Rightarrow> Some (-1, s)
       | Some new_size' \<Rightarrow>
           Some (0, s\<lparr>blocks := (blocks s)(i := (blocks s i)\<lparr>real_size := new_size'\<rparr>)\<rparr>)
     })"

definition attach_block :: "shm \<Rightarrow> nat \<Rightarrow> (int \<times> shm) option" where
  "attach_block s i = (
     if block_addr (blocks s i) = 0 then Some (0, s)
     else do {
       (fd, s) \<leftarrow> shm_object_attach s i;
       case fd of None \<Rightarrow> Some (-1, s)
       | Some real \<Rightarrow> do {
           sk_assert (real = real_size (blocks s i));
           (m, s) \<leftarrow> shm_object_map s i (mmap_size (blocks s i)) page_size;
           case m of None \<Rightarrow> Some (-1, s)
           | Some (ptr, mmap') \<Rightarrow> do {
               sk_assert (mmap' = mmap_size (blocks s i));
               Some (0, s\<lparr>blocks := (blocks s)(i := (blocks s i)\<lparr>block_addr := ptr\<rparr>)\<rparr>)
             }
         }
     })"

definition delete_block :: "shm \<Rightarrow> nat \<Rightarrow> (int \<times> shm) option" where
  "delete_block s i = (
     if block_addr (blocks s i) = 0 then Some (0, s)
     else do {
       s \<leftarrow> shm_object_unmap s (block_addr (blocks s i)) (mmap_size (blocks s i));
       let s = s\<lparr>blocks := (blocks s)(i :=
         \<lparr>block_addr = 0, used_size = 0, real_size = 0, mmap_size = 0\<rparr>)\<rparr>;
       s \<leftarrow> shm_object_unlink s i;
       Some (0, s)
     })"

definition grow_size :: "nat \<Rightarrow> nat" where
  "grow_size i = (if i = METADATA_BLOCK then METADATA_GROW_SIZE else USERDATA_GROW_SIZE)"

function grow_loop :: "nat \<Rightarrow> nat \<Rightarrow> nat \<Rightarrow> nat \<Rightarrow> nat" where
  "grow_loop step used real_bytes new_size =
     (let new_size = new_size + step
      in if 0 < step \<and> new_size - used < real_bytes
         then grow_loop step used real_bytes new_size else new_size)"
  by pat_completeness auto
termination
  by (relation "measure (\<lambda>(step, used, b, n). used + b - n)") auto

declare grow_loop.simps [simp del]

definition page_align :: "nat \<Rightarrow> nat option" where
  "page_align bytes =
     (if and bytes (page_size - 1) \<noteq> 0 then do {
        let real_bytes = bytes + (page_size - and bytes (page_size - 1));
        sk_assert (and real_bytes (page_size - 1) = 0);
        Some real_bytes
      }
      else Some bytes)"

definition sbrk :: "shm \<Rightarrow> nat \<Rightarrow> nat \<Rightarrow> ((addr \<times> nat) \<times> shm) option" where
  "sbrk s i bytes = do {
     real_bytes \<leftarrow> page_align bytes;
     (ok, s) \<leftarrow>
       (if block_addr (blocks s i) \<noteq> 0 then do {
          sk_assert (used_size (blocks s i) \<le> real_size (blocks s i));
          if real_size (blocks s i) - used_size (blocks s i) < real_bytes then do {
            let new_size = grow_loop (grow_size i) (used_size (blocks s i)) real_bytes
              (real_size (blocks s i));
            (ret, s) \<leftarrow> resize_block s i new_size;
            Some (ret = 0, s)
          }
          else Some (True, s)
        }
        else do {
          let real = (if grow_size i < real_bytes then real_bytes else grow_size i);
          (ret, s) \<leftarrow> create_block s i real (default_mmap_size s);
          Some (ret = 0, s)
        });
     if ok then do {
       sk_assert (block_addr (blocks s i) \<noteq> 0 \<and>
         real_size (blocks s i) - used_size (blocks s i) \<ge> real_bytes);
       a \<leftarrow> make_addr (i + 1) (used_size (blocks s i));
       Some ((a, real_bytes), s\<lparr>blocks := (blocks s)(i :=
         (blocks s i)\<lparr>used_size := used_size (blocks s i) + real_bytes\<rparr>)\<rparr>)
     }
     else Some ((nulladdr, bytes), s)
   }"

definition allocate_metadata :: "shm \<Rightarrow> nat \<Rightarrow> ((addr \<times> nat) \<times> shm) option" where
  "allocate_metadata s bytes =
     sbrk (s\<lparr>mgr_stat := (mgr_stat s)\<lparr>metadata_alloc_count :=
       metadata_alloc_count (mgr_stat s) + 1\<rparr>\<rparr>) METADATA_BLOCK bytes"

definition allocate_userdata :: "shm \<Rightarrow> nat \<Rightarrow> ((addr \<times> nat) \<times> shm) option" where
  "allocate_userdata s bytes =
     sbrk (s\<lparr>mgr_stat := (mgr_stat s)\<lparr>userdata_alloc_count :=
       userdata_alloc_count (mgr_stat s) + 1\<rparr>\<rparr>) USERDATA_BLOCK bytes"

section \<open>Addresses and pointers\<close>

definition SK_MAGIC :: nat where "SK_MAGIC = 0xC0DEFEED"
definition shm_meta_size :: nat where "shm_meta_size = 8"

definition meta_serial :: "u64 \<Rightarrow> nat" where "meta_serial w = unat (take_bit 16 w)"
definition meta_magic :: "u64 \<Rightarrow> nat" where "meta_magic w = unat (drop_bit 16 w)"

definition shm_meta_make :: "nat \<Rightarrow> nat \<Rightarrow> u64" where
  "shm_meta_make magic sn = push_bit 16 (word_of_nat magic) OR take_bit 16 (word_of_nat sn)"

text \<open>The result of \<open>addr2ptr\<close> is the process address; 0 is the null pointer.\<close>

definition addr2ptr :: "shm \<Rightarrow> addr \<Rightarrow> nat option" where
  "addr2ptr s a = do {
     sk_assert (addr_ok a);
     if fst a < 3 then do {
       sk_assert (fst a = 1 \<or> fst a = 2);
       sk_assert (snd a < used_size (blocks s (fst a - 1)));
       Some (block_addr (blocks s (fst a - 1)) + snd a)
     }
     else do {
       let block = blocks s USERDATA_BLOCK;
       sk_assert (snd a < used_size block);
       sk_assert (snd a \<ge> shm_meta_size);
       let w = user s (snd a - shm_meta_size);
       if meta_magic w \<noteq> SK_MAGIC \<or> meta_serial w \<noteq> fst a then Some 0
       else Some (block_addr block + (snd a - shm_meta_size) + shm_meta_size)
     }
   }"

definition ptr_in_block :: "shm_block \<Rightarrow> nat \<Rightarrow> bool" where
  "ptr_in_block b ptr \<longleftrightarrow>
     block_addr b \<noteq> 0 \<and> ptr \<ge> block_addr b \<and> ptr < block_addr b + used_size b"

definition ptr2addr :: "shm \<Rightarrow> nat \<Rightarrow> addr option" where
  "ptr2addr s ptr = do {
     sk_assert (ptr \<noteq> 0);
     if ptr_in_block (blocks s METADATA_BLOCK) ptr
     then make_addr 1 (ptr - block_addr (blocks s METADATA_BLOCK))
     else if ptr_in_block (blocks s USERDATA_BLOCK) ptr
     then make_addr 2 (ptr - block_addr (blocks s USERDATA_BLOCK))
     else None
   }"

section \<open>What the system provides\<close>

text \<open>
  The documented behaviour of the system calls the block functions rely on: the page size is a
  power of two of at most 8 KB, mappings are page aligned and not at address 0, \<^verbatim>\<open>MAP_FIXED\<close> maps at
  the given address, and releasing an own mapping or object succeeds. Whether an object can be
  created, resized or mapped is left open.
\<close>

definition os_ok :: "os \<Rightarrow> bool" where
  "os_ok k \<longleftrightarrow> (\<exists>n \<le> 13. os_page_size k = 2 ^ n) \<and>
     (\<forall>n p l. answer k n (Munmap p l) \<noteq> None) \<and> (\<forall>n i. answer k n (Shm_unlink i) \<noteq> None) \<and>
     (\<forall>n i l p. answer k n (Mmap i l) = Some p \<longrightarrow> 0 < p \<and> os_page_size k dvd p) \<and>
     (\<forall>n i l p q. answer k n (Mmap_fixed i p l) = Some q \<longrightarrow> q = p)"

lemma and_pow2_mod: "and x (2 ^ k - 1) = x mod 2 ^ k" for x :: nat
  by (metis mask_eq_exp_minus_1 take_bit_eq_mask take_bit_eq_mod)

lemma round_up_pow2:
  assumes "p = 2 ^ k"
  shows "\<exists>r. round_up sz p = Some r \<and> sz \<le> r \<and> r < sz + p \<and> p dvd r"
proof (cases "sz mod p = 0")
  case True
  with assms show ?thesis by (auto simp: round_up_def)
next
  case False
  let ?r = "sz + (p - sz mod p)"
  have lt: "sz mod p < p" using assms by simp
  have "?r = sz div p * p + p" using lt div_mult_mod_eq [of sz p] by linarith
  then have "p dvd ?r" by simp
  moreover have "and sz (p - 1) = sz mod p" unfolding assms by (rule and_pow2_mod)
  ultimately show ?thesis
    using False lt unfolding round_up_def by (auto simp: Let_def)
qed

definition pages_bytes :: "nat \<Rightarrow> nat" where
  "pages_bytes b = (b + 8191) div 8192 * 8192"

lemma page_align_eq: "page_align b = Some (pages_bytes b)"
proof -
  have a: "and x (page_size - 1) = x mod 8192" for x
    using and_pow2_mod [of x 13] by (simp add: page_size_def)
  show ?thesis
  proof (cases "b mod 8192 = 0")
    case True
    then show ?thesis unfolding page_align_def a pages_bytes_def by auto
  next
    case False
    define q r where "q = b div 8192" and "r = b mod 8192"
    have b: "b = 8192 * q + r" and r: "0 < r" "r < 8192" using False by (simp_all add: q_def r_def)
    have "(b + 8191) div 8192 = q + 1" by (rule div_nat_eqI) (use b r in simp_all)
    then have "b + (8192 - b mod 8192) = (b + 8191) div 8192 * 8192"
      using b r by (simp add: r_def [symmetric])
    then have "b + (page_size - b mod 8192) = pages_bytes b" by (simp only: page_size_def pages_bytes_def)
    moreover have "pages_bytes b mod 8192 = 0" by (simp add: pages_bytes_def)
    ultimately show ?thesis using False unfolding page_align_def a by (simp only: Let_def) simp
  qed
qed

lemma pages_bytes_facts: "b \<le> pages_bytes b" "pages_bytes b < b + 8192" "8192 dvd pages_bytes b"
  by (simp_all add: pages_bytes_def)

lemma pages_bytes_le: "8192 dvd m \<Longrightarrow> b \<le> m \<Longrightarrow> pages_bytes b \<le> m"
  by (auto simp: pages_bytes_def elim!: dvdE)

lemma pages_bytes_page: "8192 dvd b \<Longrightarrow> pages_bytes b = b"
  by (auto simp: pages_bytes_def elim!: dvdE)

lemma grow_loop_bounds:
  assumes "0 < step" and "used \<le> n" and "n - used < b"
  shows "b \<le> grow_loop step used b n - used \<and> grow_loop step used b n < used + b + step \<and>
    n < grow_loop step used b n"
  using assms
proof (induction step used b n rule: grow_loop.induct)
  case (1 step used b n)
  show ?case
  proof (cases "n + step - used < b")
    case True
    then have "grow_loop step used b n = grow_loop step used b (n + step)"
      using 1 by (subst grow_loop.simps) (simp add: Let_def)
    with 1 True show ?thesis by auto
  next
    case False
    then have "grow_loop step used b n = n + step"
      using 1 by (subst grow_loop.simps) (simp add: Let_def)
    with 1 False show ?thesis by auto
  qed
qed

section \<open>Growing a block\<close>

definition block_ok :: "shm_block \<Rightarrow> bool" where
  "block_ok b \<longleftrightarrow> used_size b \<le> real_size b \<and> real_size b \<le> 2 ^ 47 \<and> mmap_size b \<le> 2 ^ 47 \<and>
     8192 dvd used_size b \<and> (block_addr b = 0 \<longrightarrow> real_size b = 0)"

definition default_ok :: "shm \<Rightarrow> bool" where
  "default_ok s \<longleftrightarrow> 8192 dvd default_mmap_size s \<and> default_mmap_size s \<le> 2 ^ 47"

lemma sys_simps [simp]:
  "sys s c = (r, s') \<longleftrightarrow> r = answer (os s) (os_calls s) c \<and> s' = s\<lparr>os_calls := Suc (os_calls s)\<rparr>"
  by (auto simp: sys_def)

lemma shm_object_map_ok:
  assumes os: "os_ok (os s)" and "8192 dvd sz"
  shows "\<exists>r n. shm_object_map s i sz page_size = Some (r, s\<lparr>os_calls := n\<rparr>) \<and>
    (\<forall>p l. r = Some (p, l) \<longrightarrow> p \<noteq> 0 \<and> l = sz)"
proof -
  obtain k where k: "k \<le> 13" "os_page_size (os s) = 2 ^ k" using os by (auto simp: os_ok_def)
  let ?P = "os_page_size (os s)"
  have P: "?P \<le> 8192" "0 < ?P" "?P dvd 8192"
    using k power_increasing [of k 13 "2 :: nat"] le_imp_power_dvd [of k 13 "2 :: nat"] by simp_all
  have rnd: "round_up sz 8192 = Some sz" using assms(2) by (auto simp: round_up_def)
  have skip: "8192 - and p 8191 \<le> 8192 - ?P \<and> 0 < 8192 - and p 8191"
    if "answer (os s) n (Mmap i l) = Some p" "p mod 8192 \<noteq> 0" for n l p
  proof -
    have "?P dvd p" using os that(1) by (auto simp: os_ok_def)
    then have "?P dvd p mod 8192" using P(3) by (simp add: dvd_mod)
    then have "?P \<le> p mod 8192" using that(2) by (simp add: dvd_imp_le)
    then show ?thesis using and_pow2_mod [of p 13] by simp
  qed
  have nz: "p \<noteq> 0" if "answer (os s) n (Mmap i l) = Some p" for n l p
    using os that by (fastforce simp: os_ok_def)
  have mu: "answer (os s) n (Munmap p l) \<noteq> None" for n p l
    using os by (auto simp: os_ok_def)
  have fx: "answer (os s) n (Mmap_fixed i p l) = Some q \<Longrightarrow> q = p" for n p l q
    using os by (auto simp: os_ok_def)
  show ?thesis
  proof (cases "answer (os s) (os_calls s) (Mmap i (sz + (if ?P < 8192 then 8192 - ?P else 0)))")
    case None
    then show ?thesis
      using P rnd by (auto simp: shm_object_map_def page_size_def Let_def sys_def)
  next
    case (Some p)
    show ?thesis
    proof (cases "p mod 8192 = 0")
      case True
      then show ?thesis
        using Some P rnd nz [OF Some] mu
        by (auto simp: shm_object_map_def page_size_def Let_def sys_def)
    next
      case False
      note sk = skip [OF Some False]
      show ?thesis
      proof (cases "answer (os s) (Suc (Suc (os_calls s))) (Mmap_fixed i (p + (8192 - and p 8191)) sz)")
        case None
        then show ?thesis
          using Some False P rnd mu sk
          by (auto simp: shm_object_map_def page_size_def Let_def sys_def)
      next
        case (Some q)
        then show ?thesis
          using \<open>answer _ _ (Mmap _ _) = Some p\<close> False P rnd mu sk fx [OF Some]
          by (auto simp: shm_object_map_def page_size_def Let_def sys_def)
      qed
    qed
  qed
qed

lemma os_page:
  assumes "os_ok k"
  shows "\<exists>r. round_up sz (os_page_size k) = Some r \<and> sz \<le> r \<and> (\<forall>m. 8192 dvd m \<longrightarrow> sz \<le> m \<longrightarrow> r \<le> m)"
proof -
  obtain n where n: "n \<le> 13" "os_page_size k = 2 ^ n" using assms by (auto simp: os_ok_def)
  have P: "os_page_size k dvd 8192" using n le_imp_power_dvd [of n 13 "2 :: nat"] by simp
  obtain r where r: "round_up sz (os_page_size k) = Some r" "sz \<le> r" "r < sz + os_page_size k"
      "os_page_size k dvd r"
    using round_up_pow2 [OF n(2)] by blast
  have "r \<le> m" if m: "8192 dvd m" "sz \<le> m" for m
  proof (rule ccontr)
    assume "\<not> r \<le> m"
    then have "0 < r - m" and "r - m < os_page_size k" using r(3) m(2) by auto
    moreover have "os_page_size k dvd r - m" using r(4) P m(1) by (meson dvd_diff_nat dvd_trans)
    ultimately show False by (meson dvd_imp_le leD)
  qed
  with r show ?thesis by blast
qed

text \<open>The system never refuses to open or resize object \<open>i\<close>.\<close>

definition willing :: "os \<Rightarrow> nat \<Rightarrow> bool" where
  "willing k i \<longleftrightarrow>
     (\<forall>c. answer k c (Shm_open i) \<noteq> None) \<and> (\<forall>c l. answer k c (Ftruncate i l) \<noteq> None)"

lemma create_block_ok:
  assumes "os_ok (os s)" and "8192 dvd mmap" and "mmap \<le> 2 ^ 47" and "real \<le> 2 ^ 47"
  shows "\<exists>r n bl. create_block s i real mmap = Some (r, s\<lparr>os_calls := n, blocks := bl\<rparr>) \<and>
    (r = 0 \<longrightarrow> (\<exists>b. bl = (blocks s)(i := b) \<and> block_ok b \<and> block_addr b \<noteq> 0 \<and> used_size b = 0 \<and>
       real \<le> real_size b \<and> mmap_size b = mmap)) \<and>
    (r \<noteq> 0 \<longrightarrow> bl = blocks s)"
proof -
  obtain r' where r': "round_up real (os_page_size (os s)) = Some r'" "real \<le> r'" "r' \<le> 2 ^ 47"
    using os_page [OF assms(1), of real] assms(4) by fastforce
  have ul: "answer (os s) n (Shm_unlink i) \<noteq> None" for n using assms(1) by (auto simp: os_ok_def)
  consider "answer (os s) (os_calls s) (Shm_open i) = None"
    | "answer (os s) (os_calls s) (Shm_open i) \<noteq> None" "answer (os s) (Suc (os_calls s)) (Ftruncate i r') = None"
    | "answer (os s) (os_calls s) (Shm_open i) \<noteq> None" "answer (os s) (Suc (os_calls s)) (Ftruncate i r') \<noteq> None"
    by blast
  then show ?thesis
  proof cases
    case 1
    then have "create_block s i real mmap = Some (-1, s\<lparr>os_calls := Suc (os_calls s), blocks := blocks s\<rparr>)"
      by (simp add: create_block_def shm_object_create_def sys_def)
    then show ?thesis by (intro exI conjI) auto
  next
    case 2
    then have "create_block s i real mmap =
        Some (-1, s\<lparr>os_calls := Suc (Suc (Suc (os_calls s))), blocks := blocks s\<rparr>)"
      using r' by (auto simp: create_block_def shm_object_create_def sys_def Let_def)
    then show ?thesis by (intro exI conjI) auto
  next
    case 3
    let ?s = "s\<lparr>os_calls := Suc (Suc (os_calls s))\<rparr>"
    have c: "shm_object_create s i real = Some (Some r', ?s)"
      using 3 r' by (simp add: shm_object_create_def sys_def Let_def)
    obtain m n where m: "shm_object_map ?s i mmap page_size = Some (m, ?s\<lparr>os_calls := n\<rparr>)"
        "\<forall>p l. m = Some (p, l) \<longrightarrow> p \<noteq> 0 \<and> l = mmap"
      using shm_object_map_ok [of ?s mmap i] assms(1,2) by auto
    show ?thesis
    proof (cases m)
      case None
      then have "create_block s i real mmap = Some (-1, s\<lparr>os_calls := Suc n, blocks := blocks s\<rparr>)"
        using c m ul [of n] by (simp add: create_block_def shm_object_unlink_def sys_def Let_def)
      then show ?thesis by (intro exI conjI) auto
    next
      case (Some pl)
      then obtain p where pl: "pl = (p, mmap)" "p \<noteq> 0" using m(2) by (cases pl) auto
      let ?b = "\<lparr>block_addr = p, used_size = 0, real_size = r', mmap_size = mmap\<rparr>"
      have "create_block s i real mmap = Some (0, s\<lparr>os_calls := n, blocks := (blocks s)(i := ?b)\<rparr>)"
        using c m(1) Some pl(1) by (simp add: create_block_def)
      then show ?thesis using r' pl assms by (intro exI conjI) (auto simp: block_ok_def)
    qed
  qed
qed

lemma resize_block_ok:
  assumes "os_ok (os s)" and "block_ok (blocks s i)" and "real_size (blocks s i) \<le> new_size"
    and "block_addr (blocks s i) \<noteq> 0"
  shows "\<exists>r n bl. resize_block s i new_size = Some (r, s\<lparr>os_calls := n, blocks := bl\<rparr>) \<and>
    (r = 0 \<longrightarrow> (\<exists>b. bl = (blocks s)(i := b) \<and> block_ok b \<and> new_size \<le> real_size b \<and>
       b = (blocks s i)\<lparr>real_size := real_size b\<rparr>)) \<and>
    (r \<noteq> 0 \<longrightarrow> bl = blocks s) \<and>
    (new_size \<le> mmap_size (blocks s i) \<longrightarrow> willing (os s) i \<longrightarrow> r = 0)"
proof (cases "new_size > mmap_size (blocks s i)")
  case True
  then have "resize_block s i new_size = Some (-1, s\<lparr>os_calls := os_calls s, blocks := blocks s\<rparr>)"
    by (simp add: resize_block_def)
  then show ?thesis
    using True by (intro exI [of _ "-1"] exI [of _ "os_calls s"] exI [of _ "blocks s"] conjI) auto
next
  case False
  then have le: "new_size \<le> 2 ^ 47" using assms(2) by (simp add: block_ok_def)
  obtain r' where r': "round_up new_size (os_page_size (os s)) = Some r'" "new_size \<le> r'" "r' \<le> 2 ^ 47"
    using os_page [OF assms(1), of new_size] le by fastforce
  consider "answer (os s) (os_calls s) (Shm_open i) = None"
    | "answer (os s) (os_calls s) (Shm_open i) \<noteq> None" "answer (os s) (Suc (os_calls s)) (Ftruncate i r') = None"
    | "answer (os s) (os_calls s) (Shm_open i) \<noteq> None" "answer (os s) (Suc (os_calls s)) (Ftruncate i r') \<noteq> None"
    by blast
  then show ?thesis
  proof cases
    case 1
    then have "resize_block s i new_size = Some (-1, s\<lparr>os_calls := Suc (os_calls s), blocks := blocks s\<rparr>)"
      using False by (simp add: resize_block_def shm_object_resize_def sys_def)
    moreover have "\<not> willing (os s) i" using 1 by (auto simp: willing_def)
    ultimately show ?thesis by (intro exI conjI) auto
  next
    case 2
    then have "resize_block s i new_size =
        Some (-1, s\<lparr>os_calls := Suc (Suc (os_calls s)), blocks := blocks s\<rparr>)"
      using False r' by (auto simp: resize_block_def shm_object_resize_def sys_def Let_def)
    moreover have "\<not> willing (os s) i" using 2 by (auto simp: willing_def)
    ultimately show ?thesis by (intro exI conjI) auto
  next
    case 3
    let ?b = "(blocks s i)\<lparr>real_size := r'\<rparr>"
    have "resize_block s i new_size =
        Some (0, s\<lparr>os_calls := Suc (Suc (os_calls s)), blocks := (blocks s)(i := ?b)\<rparr>)"
      using 3 False r' by (simp add: resize_block_def shm_object_resize_def sys_def Let_def)
    then show ?thesis using r' assms by (intro exI conjI) (auto simp: block_ok_def)
  qed
qed

text \<open>
  \<open>grew s i n s'\<close>: the block \<open>i\<close> has got \<open>n\<close> more bytes; nothing but the two blocks' sizes,
  the mapping of a block that was not mapped, and the count of system calls has changed.
\<close>

definition grew :: "shm \<Rightarrow> nat \<Rightarrow> nat \<Rightarrow> shm \<Rightarrow> bool" where
  "grew s i n s' \<longleftrightarrow> s' = s\<lparr>os_calls := os_calls s', blocks := blocks s'\<rparr> \<and>
     (\<forall>j. j \<noteq> i \<longrightarrow> blocks s' j = blocks s j) \<and> block_ok (blocks s' i) \<and>
     used_size (blocks s' i) = used_size (blocks s i) + n \<and>
     (block_addr (blocks s i) \<noteq> 0 \<longrightarrow> block_addr (blocks s' i) = block_addr (blocks s i) \<and>
        mmap_size (blocks s' i) = mmap_size (blocks s i)) \<and>
     (n > 0 \<longrightarrow> block_addr (blocks s' i) \<noteq> 0)"

definition grants :: "shm \<Rightarrow> nat \<Rightarrow> nat \<Rightarrow> bool" where
  "grants s i n \<longleftrightarrow> block_addr (blocks s i) \<noteq> 0 \<and>
     used_size (blocks s i) + n + 2 ^ 20 \<le> mmap_size (blocks s i) \<and>
     willing (os s) i"

lemma sbrk_finish:
  assumes "block_ok (blocks s i)" and "block_addr (blocks s i) \<noteq> 0" and "0 < b" and "8192 dvd b"
    and "b \<le> real_size (blocks s i) - used_size (blocks s i)" and "i < 2"
  shows "used_size (blocks s i) < 2 ^ 48"
    and "block_ok ((blocks s i)\<lparr>used_size := used_size (blocks s i) + b\<rparr>)"
  using assms by (auto simp: block_ok_def)

lemma sbrk_ok:
  assumes os: "os_ok (os s)" and d: "default_ok s" and b: "block_ok (blocks s i)" and i: "i < 2"
    and bytes: "0 < bytes" "bytes \<le> 2 ^ 47"
  shows "\<exists>a n s'. sbrk s i bytes = Some ((a, n), s') \<and>
    (if addr_ok a then a = (i + 1, used_size (blocks s i)) \<and> n = pages_bytes bytes \<and> grew s i n s'
     else a = nulladdr \<and> grew s i 0 s') \<and>
    (grants s i (pages_bytes bytes) \<longrightarrow> addr_ok a)"
proof -
  let ?b = "pages_bytes bytes"
  have pb: "0 < ?b" "?b \<le> 2 ^ 47" "8192 dvd ?b"
    using bytes pages_bytes_facts [of bytes] pages_bytes_le [of "2 ^ 47" bytes] by auto
  show ?thesis
  proof (cases "block_addr (blocks s i) = 0")
    case True
    let ?real = "if grow_size i < ?b then ?b else grow_size i"
    have rl: "?real \<le> 2 ^ 47" using pb by (simp add: grow_size_def grow_defs)
    have z: "used_size (blocks s i) = 0" using b True by (simp add: block_ok_def)
    obtain r n bl where c: "create_block s i ?real (default_mmap_size s) = Some (r, s\<lparr>os_calls := n, blocks := bl\<rparr>)"
        "r = 0 \<longrightarrow> (\<exists>b. bl = (blocks s)(i := b) \<and> block_ok b \<and> block_addr b \<noteq> 0 \<and> used_size b = 0 \<and>
          ?real \<le> real_size b \<and> mmap_size b = default_mmap_size s)" "r \<noteq> 0 \<longrightarrow> bl = blocks s"
      using create_block_ok [OF os _ _ rl, of "default_mmap_size s" i] d by (auto simp: default_ok_def)
    show ?thesis
    proof (cases "r = 0")
      case True
      then obtain bk where bk: "bl = (blocks s)(i := bk)" "block_ok bk" "block_addr bk \<noteq> 0" "used_size bk = 0"
          "?real \<le> real_size bk" using c(2) by auto
      let ?s = "s\<lparr>os_calls := n, blocks := (blocks s)(i := bk)\<rparr>"
      have f: "used_size (blocks ?s i) < 2 ^ 48" "block_ok ((blocks ?s i)\<lparr>used_size := used_size (blocks ?s i) + ?b\<rparr>)"
        using sbrk_finish [of ?s i ?b] bk pb i by (auto split: if_splits)
      have "sbrk s i bytes = Some (((i + 1, 0), ?b), ?s\<lparr>blocks := (blocks ?s)(i := bk\<lparr>used_size := ?b\<rparr>)\<rparr>)"
        using \<open>block_addr (blocks s i) = 0\<close> c(1) True bk i f pb
        by (simp add: sbrk_def page_align_eq make_addr_def split: if_splits)
      then show ?thesis
        using z f bk \<open>block_addr (blocks s i) = 0\<close> pb by (intro exI conjI) (auto simp: grew_def grants_def)
    next
      case False
      then have "sbrk s i bytes = Some ((nulladdr, bytes), s\<lparr>os_calls := n, blocks := blocks s\<rparr>)"
        using \<open>block_addr (blocks s i) = 0\<close> c by (simp add: sbrk_def page_align_eq)
      then show ?thesis
        using b \<open>block_addr (blocks s i) = 0\<close> by (intro exI conjI) (auto simp: grew_def grants_def)
    qed
  next
    case mapped: False
    let ?u = "used_size (blocks s i)" and ?r = "real_size (blocks s i)"
    have ur: "?u \<le> ?r" using b by (simp add: block_ok_def)
    show ?thesis
    proof (cases "?r - ?u < ?b")
      case False
      then have f: "?u < 2 ^ 48" "block_ok ((blocks s i)\<lparr>used_size := ?u + ?b\<rparr>)"
        using sbrk_finish [of s i ?b] b mapped pb i by auto
      have "sbrk s i bytes = Some (((i + 1, ?u), ?b), s\<lparr>blocks := (blocks s)(i := (blocks s i)\<lparr>used_size := ?u + ?b\<rparr>)\<rparr>)"
        using mapped False ur i f by (simp add: sbrk_def page_align_eq make_addr_def)
      then show ?thesis
        using f mapped pb by (intro exI conjI) (auto simp: grew_def)
    next
      case True
      let ?n = "grow_loop (grow_size i) ?u ?b ?r"
      have g: "?b \<le> ?n - ?u" "?n < ?u + ?b + 2 ^ 20" "?r < ?n"
        using grow_loop_bounds [of "grow_size i" ?u ?r ?b] ur True by (auto simp: grow_size_def grow_defs)
      obtain r n bl where c: "resize_block s i ?n = Some (r, s\<lparr>os_calls := n, blocks := bl\<rparr>)"
          "r = 0 \<longrightarrow> (\<exists>b. bl = (blocks s)(i := b) \<and> block_ok b \<and> ?n \<le> real_size b \<and>
             b = (blocks s i)\<lparr>real_size := real_size b\<rparr>)" "r \<noteq> 0 \<longrightarrow> bl = blocks s"
          "?n \<le> mmap_size (blocks s i) \<longrightarrow> willing (os s) i \<longrightarrow> r = 0"
        using resize_block_ok [OF os b _ mapped, of ?n] less_imp_le [OF g(3)] by blast
      show ?thesis
      proof (cases "r = 0")
        case True
        then obtain bk where bk: "bl = (blocks s)(i := bk)" "block_ok bk" "?n \<le> real_size bk"
            "bk = (blocks s i)\<lparr>real_size := real_size bk\<rparr>" using c(2) by auto
        have same: "block_addr bk = block_addr (blocks s i)" "used_size bk = ?u" "mmap_size bk = mmap_size (blocks s i)"
          by (subst bk(4); simp)+
        let ?s = "s\<lparr>os_calls := n, blocks := (blocks s)(i := bk)\<rparr>"
        have f: "?u < 2 ^ 48" "block_ok (bk\<lparr>used_size := ?u + ?b\<rparr>)"
          using sbrk_finish [of ?s i ?b] bk(2,3) mapped pb g i same by auto
        have "sbrk s i bytes = Some (((i + 1, ?u), ?b), ?s\<lparr>blocks := (blocks ?s)(i := bk\<lparr>used_size := ?u + ?b\<rparr>)\<rparr>)"
          using mapped \<open>?r - ?u < ?b\<close> ur i f c(1) bk(1,3) same g True
          by (simp add: sbrk_def page_align_eq make_addr_def)
        then show ?thesis
          using f mapped pb same by (intro exI conjI) (auto simp: grew_def)
      next
        case False
        then have "sbrk s i bytes = Some ((nulladdr, bytes), s\<lparr>os_calls := n, blocks := blocks s\<rparr>)"
          using mapped \<open>?r - ?u < ?b\<close> ur c by (simp add: sbrk_def page_align_eq)
        moreover have "\<not> grants s i ?b" using False c(4) g by (auto simp: grants_def)
        ultimately show ?thesis
          using b mapped by (intro exI conjI) (auto simp: grew_def)
      qed
    qed
  qed
qed

section \<open>Reading through addresses\<close>

lemma addr2ptr_meta:
  "p < used_size (blocks s METADATA_BLOCK) \<Longrightarrow>
     addr2ptr s (1, p) = Some (block_addr (blocks s METADATA_BLOCK) + p)"
  by (simp add: addr2ptr_def block_defs)

lemma addr2ptr_user:
  "p < used_size (blocks s USERDATA_BLOCK) \<Longrightarrow>
     addr2ptr s (2, p) = Some (block_addr (blocks s USERDATA_BLOCK) + p)"
  by (simp add: addr2ptr_def block_defs)

lemma ptr2addr_meta:
  assumes "block_ok (blocks s METADATA_BLOCK)" and "block_addr (blocks s METADATA_BLOCK) \<noteq> 0"
    and "p < used_size (blocks s METADATA_BLOCK)"
  shows "ptr2addr s (block_addr (blocks s METADATA_BLOCK) + p) = Some (1, p)"
  using assms by (auto simp: ptr2addr_def ptr_in_block_def block_ok_def make_addr_def div_eq_0_iff)

end
