(* ===== verification/Dll.thy ===== *)
theory Dll
  imports Prelude
begin

text \<open>
  Circular doubly linked lists with a sentinel, the structure behind the span lists of
  \<^verbatim>\<open>src/src/shm/detail/span.h\<close>, the timer lists of \<^verbatim>\<open>src/src/time/shm_timer.cpp\<close> and
  others. A heap is seen through the two functions \<open>nx\<close> and \<open>pv\<close> that read the link fields of
  a node. \<open>rings\<close> says that a family of sentinels owns pairwise disjoint lists and
  that every other node is unlinked. The locales state what a client may rely on: each
  component interprets them on its own remove and insert functions.
\<close>

section \<open>Chains and rings\<close>

lemma append_last_Cons: "ys \<noteq> [] \<Longrightarrow> ys @ zs = butlast ys @ last ys # zs"
  by (induction ys) auto

fun chain :: "('a \<Rightarrow> 'a) \<Rightarrow> ('a \<Rightarrow> 'a) \<Rightarrow> 'a list \<Rightarrow> bool" where
  "chain nx pv (a # b # r) = (nx a = b \<and> pv b = a \<and> chain nx pv (b # r))"
| "chain nx pv _ = True"

lemma chain_split:
  "chain nx pv (us @ a # vs) \<longleftrightarrow> chain nx pv (us @ [a]) \<and> chain nx pv (a # vs)"
proof (induction us)
  case Nil then show ?case by simp
next
  case (Cons u us) then show ?case by (cases us) auto
qed

lemma chain_append:
  assumes "us \<noteq> []"
  shows "chain nx pv (us @ vs) \<longleftrightarrow> chain nx pv us \<and> chain nx pv (last us # vs)"
  using chain_split [of nx pv "butlast us" "last us" vs] assms by (simp add: append_last_Cons)

lemma chain_cong:
  assumes "\<forall>a \<in> set (butlast ys). nx' a = nx a" and "\<forall>a \<in> set (tl ys). pv' a = pv a"
  shows "chain nx' pv' ys = chain nx pv ys"
  using assms by (induction nx pv ys rule: chain.induct) auto

definition ring :: "('a \<Rightarrow> 'a) \<Rightarrow> ('a \<Rightarrow> 'a) \<Rightarrow> 'a \<Rightarrow> 'a list \<Rightarrow> bool" where
  "ring nx pv h xs \<longleftrightarrow> chain nx pv (h # xs @ [h]) \<and> distinct (h # xs)"

lemma ring_cong:
  assumes "\<forall>a \<in> insert h (set xs). nx' a = nx a \<and> pv' a = pv a"
  shows "ring nx' pv' h xs = ring nx pv h xs"
proof -
  have "chain nx' pv' (h # xs @ [h]) = chain nx pv (h # xs @ [h])"
    using assms by (intro chain_cong) (auto simp: butlast_append)
  then show ?thesis by (simp add: ring_def)
qed

lemma ring_Nil: "ring nx pv h [] \<longleftrightarrow> nx h = h \<and> pv h = h"
  by (auto simp: ring_def)

lemma ring_first: "ring nx pv h xs \<Longrightarrow> nx h = (case xs of [] \<Rightarrow> h | x # _ \<Rightarrow> x)"
  by (cases xs) (auto simp: ring_def)

lemma ring_last: "ring nx pv h xs \<Longrightarrow> pv h = last (h # xs)"
proof -
  assume r: "ring nx pv h xs"
  then have "chain nx pv (last (h # xs) # [h])"
    using chain_append [of "h # xs" nx pv "[h]"] by (simp add: ring_def del: last.simps)
  then show ?thesis by simp
qed

lemma ring_mem:
  assumes "ring nx pv h (us @ x # vs)"
  shows "pv x = last (h # us)" and "nx x = hd (vs @ [h])"
    and "chain nx pv (h # us)" and "chain nx pv (vs @ [h])"
proof -
  have c: "chain nx pv ((h # us) @ x # vs @ [h])" using assms by (simp add: ring_def)
  then have l: "chain nx pv ((h # us) @ [x])" and r: "chain nx pv (x # vs @ [h])"
    using chain_split [of nx pv "h # us" x "vs @ [h]"] by simp_all
  then have "chain nx pv (h # us)" and "chain nx pv (last (h # us) # [x])"
    using chain_append [of "h # us" nx pv "[x]"] by (simp_all del: last.simps)
  then show "pv x = last (h # us)" and "chain nx pv (h # us)"
    by simp_all
  obtain y ys where "vs @ [h] = y # ys" by (cases "vs @ [h]") auto
  with r show "nx x = hd (vs @ [h])" and "chain nx pv (vs @ [h])" by auto
qed

lemma chain_join:
  assumes "chain nx pv us" and "chain nx pv vs" and "us \<noteq> []" and "vs \<noteq> []"
    and "nx (last us) = hd vs" and "pv (hd vs) = last us"
  shows "chain nx pv (us @ vs)"
  using assms by (cases vs) (auto simp: chain_append)

text \<open>Unlinking \<open>x\<close>, and linking \<open>x\<close> in between two neighbours.\<close>

lemma ring_remove:
  assumes r: "ring nx pv h (us @ x # vs)"
  shows "ring (nx(pv x := nx x, x := e)) (pv(nx x := pv x, x := e')) h (us @ vs)"
proof -
  let ?p = "last (h # us)" and ?n = "hd (vs @ [h])"
  let ?nx = "nx(?p := ?n, x := e)" and ?pv = "pv(?n := ?p, x := e')"
  note m = ring_mem [OF r]
  have d: "distinct (h # us @ x # vs)" using r by (simp add: ring_def)
  have px: "?p \<noteq> x" and nx: "?n \<noteq> x" using d by (cases us rule: rev_cases; cases vs; auto)+
  have "\<forall>a \<in> set (butlast (h # us)). ?nx a = nx a"
    using d by (cases us rule: rev_cases) (auto simp: butlast_append)
  moreover have "\<forall>a \<in> set (tl (h # us)). ?pv a = pv a"
    using d by (cases vs) auto
  ultimately have c1: "chain ?nx ?pv (h # us)" using m(3) chain_cong by blast
  have "\<forall>a \<in> set (butlast (vs @ [h])). ?nx a = nx a"
    using d by (cases us rule: rev_cases) auto
  moreover have "\<forall>a \<in> set (tl (vs @ [h])). ?pv a = pv a"
    using d by (cases vs) auto
  ultimately have c2: "chain ?nx ?pv (vs @ [h])" using m(4) chain_cong by blast
  have "chain ?nx ?pv ((h # us) @ (vs @ [h]))"
    by (rule chain_join [OF c1 c2]) (use px nx in auto)
  then show ?thesis using d m(1,2) by (simp add: ring_def)
qed

lemma ring_insert:
  assumes r: "ring nx pv h (us @ vs)" and x: "x \<notin> insert h (set (us @ vs))"
    and p: "p = last (h # us)" and n: "n = hd (vs @ [h])"
  shows "ring (nx(x := n, p := x)) (pv(x := p, n := x)) h (us @ x # vs)"
proof -
  let ?nx = "nx(x := n, p := x)" and ?pv = "pv(x := p, n := x)"
  have d: "distinct (h # us @ vs)" using r by (simp add: ring_def)
  have "chain nx pv ((h # us) @ (vs @ [h]))" using r by (simp add: ring_def)
  then have m: "chain nx pv (h # us)" "chain nx pv (vs @ [h])"
    using chain_append [of "h # us" nx pv "vs @ [h]"] by (cases "vs @ [h]"; auto)+
  have px: "p \<noteq> x" and nx: "n \<noteq> x" using x p n by (cases us rule: rev_cases; cases vs; auto)+
  have "\<forall>a \<in> set (butlast (h # us)). ?nx a = nx a"
    using d x p by (cases us rule: rev_cases) (auto simp: butlast_append)
  moreover have "\<forall>a \<in> set (tl (h # us)). ?pv a = pv a"
    using d x n by (cases vs) auto
  ultimately have c1: "chain ?nx ?pv (h # us)" using m(1) chain_cong by blast
  have "\<forall>a \<in> set (butlast (vs @ [h])). ?nx a = nx a"
    using d x p by (cases us rule: rev_cases) auto
  moreover have "\<forall>a \<in> set (tl (vs @ [h])). ?pv a = pv a"
    using d x n by (cases vs) auto
  ultimately have c2: "chain ?nx ?pv (vs @ [h])" using m(2) chain_cong by blast
  have c3: "chain ?nx ?pv ([x] @ (vs @ [h]))"
    by (rule chain_join [OF _ c2]) (use px nx n in auto)
  have "chain ?nx ?pv ((h # us) @ ([x] @ (vs @ [h])))"
    by (rule chain_join [OF c1 c3]) (use px nx p in auto)
  then show ?thesis using d x by (auto simp: ring_def)
qed

section \<open>Families of rings\<close>

definition rings :: "('a \<Rightarrow> 'a) \<Rightarrow> ('a \<Rightarrow> 'a) \<Rightarrow> 'a \<Rightarrow> 'a set \<Rightarrow> ('a \<Rightarrow> 'a list) \<Rightarrow> bool" where
  "rings nx pv nl H L \<longleftrightarrow>
     (\<forall>h \<in> H. ring nx pv h (L h)) \<and>
     (\<forall>h \<in> H. \<forall>y \<in> set (L h). y \<notin> H) \<and>
     (\<forall>h \<in> H. \<forall>g \<in> H. h \<noteq> g \<longrightarrow> (\<forall>y \<in> set (L h). y \<notin> set (L g))) \<and>
     (\<forall>y. y \<notin> H \<longrightarrow> (\<forall>h \<in> H. y \<notin> set (L h)) \<longrightarrow> nx y = nl \<and> pv y = nl)"

lemma ringsI:
  assumes "\<And>h. h \<in> H \<Longrightarrow> ring nx pv h (L h)" and "\<And>h y. h \<in> H \<Longrightarrow> y \<in> set (L h) \<Longrightarrow> y \<notin> H"
    and "\<And>h g y. h \<in> H \<Longrightarrow> g \<in> H \<Longrightarrow> h \<noteq> g \<Longrightarrow> y \<in> set (L h) \<Longrightarrow> y \<notin> set (L g)"
    and "\<And>y. y \<notin> H \<Longrightarrow> (\<And>h. h \<in> H \<Longrightarrow> y \<notin> set (L h)) \<Longrightarrow> nx y = nl \<and> pv y = nl"
  shows "rings nx pv nl H L"
  using assms unfolding rings_def by blast

lemma rings_disjoint:
  "rings nx pv nl H L \<Longrightarrow> h \<in> H \<Longrightarrow> g \<in> H \<Longrightarrow> h \<noteq> g \<Longrightarrow> y \<in> set (L h) \<Longrightarrow> y \<notin> set (L g)"
  unfolding rings_def by blast

lemma rings_heads: "rings nx pv nl H L \<Longrightarrow> h \<in> H \<Longrightarrow> y \<in> set (L h) \<Longrightarrow> y \<notin> H"
  unfolding rings_def by blast

lemma rings_ring: "rings nx pv nl H L \<Longrightarrow> h \<in> H \<Longrightarrow> ring nx pv h (L h)"
  by (simp add: rings_def)

lemma rings_distinct: "rings nx pv nl H L \<Longrightarrow> h \<in> H \<Longrightarrow> distinct (L h)"
  by (auto simp: rings_def ring_def)

lemma rings_unlinked:
  "rings nx pv nl H L \<Longrightarrow> x \<notin> H \<Longrightarrow> (\<And>h. h \<in> H \<Longrightarrow> x \<notin> set (L h)) \<Longrightarrow> nx x = nl \<and> pv x = nl"
  unfolding rings_def by blast

lemma rings_other:
  assumes "rings nx pv nl H L" and "h \<in> H" and "g \<in> H" and "g \<noteq> h"
  shows "set (L g) \<inter> insert h (set (L h)) = {}"
  using rings_disjoint [OF assms(1,3,2,4)] rings_heads [OF assms(1,3)] assms(2) by blast

lemma rings_change:
  assumes R: "rings nx pv nl H L" and h: "h \<in> H" and ring: "ring nx' pv' h ys"
    and same: "\<And>a. a \<notin> insert h (set (L h) \<union> set ys) \<Longrightarrow> nx' a = nx a \<and> pv' a = pv a"
    and ys: "\<And>y. y \<in> set ys \<Longrightarrow> y \<notin> H"
      "\<And>y g. y \<in> set ys \<Longrightarrow> g \<in> H \<Longrightarrow> g \<noteq> h \<Longrightarrow> y \<notin> set (L g)"
    and out: "\<And>y. y \<in> set (L h) \<Longrightarrow> y \<notin> set ys \<Longrightarrow> nx' y = nl \<and> pv' y = nl"
  shows "rings nx' pv' nl H (L(h := ys))"
proof (rule ringsI)
  fix g assume g: "g \<in> H"
  show "ring nx' pv' g ((L(h := ys)) g)"
  proof (cases "g = h")
    case False
    have "a \<notin> insert h (set (L h) \<union> set ys)" if a: "a \<in> insert g (set (L g))" for a
      using a g h False ys rings_heads [OF R h] rings_heads [OF R g] rings_disjoint [OF R g h False]
      by blast
    then have "ring nx' pv' g (L g) = ring nx pv g (L g)" using same by (intro ring_cong) blast
    with False R g show ?thesis by (simp add: rings_ring)
  qed (simp add: ring)
next
  fix g y assume g: "g \<in> H" and y: "y \<in> set ((L(h := ys)) g)"
  show "y \<notin> H"
  proof (cases "g = h")
    case True with y ys(1) show ?thesis by simp
  next
    case False with y rings_heads [OF R g] show ?thesis by simp
  qed
next
  fix g k y assume g: "g \<in> H" and k: "k \<in> H" and gk: "g \<noteq> k" and y: "y \<in> set ((L(h := ys)) g)"
  show "y \<notin> set ((L(h := ys)) k)"
  proof (cases "g = h")
    case True
    then have "k \<noteq> h" and "y \<in> set ys" using gk y by auto
    then show ?thesis using ys(2) k by simp
  next
    case False
    then have yg: "y \<in> set (L g)" using y by simp
    show ?thesis
    proof (cases "k = h")
      case True
      have "y \<notin> set ys" using ys(2) [OF _ g False] yg by blast
      with True show ?thesis by simp
    next
      case False with rings_disjoint [OF R g k gk yg] show ?thesis by simp
    qed
  qed
next
  fix y assume y: "y \<notin> H" and free: "\<And>g. g \<in> H \<Longrightarrow> y \<notin> set ((L(h := ys)) g)"
  have yys: "y \<notin> set ys" using free [OF h] by simp
  show "nx' y = nl \<and> pv' y = nl"
  proof (cases "y \<in> set (L h)")
    case True with out yys show ?thesis by blast
  next
    case False
    have "y \<notin> set (L g)" if "g \<in> H" for g using free [OF that] False by (cases "g = h") auto
    then have "nx y = nl \<and> pv y = nl" using rings_unlinked [OF R y] by blast
    moreover have "nx' y = nx y \<and> pv' y = pv y" by (rule same) (use y h False yys in auto)
    ultimately show ?thesis by simp
  qed
qed

lemma rings_remove:
  assumes R: "rings nx pv nl H L" and h: "h \<in> H" and x: "x \<in> set (L h)"
  shows "rings (nx(pv x := nx x, x := nl)) (pv(nx x := pv x, x := nl)) nl H (L(h := remove1 x (L h)))"
proof -
  obtain us vs where L: "L h = us @ x # vs" using x by (meson split_list)
  have r: "ring nx pv h (us @ x # vs)" using rings_ring [OF R h] L by simp
  have d: "distinct (h # us @ x # vs)" using r by (simp add: ring_def)
  have rem: "remove1 x (L h) = us @ vs" using L d by (simp add: remove1_append)
  have nb: "pv x \<in> insert h (set us)" "nx x \<in> insert h (set vs)"
    using ring_mem(1,2) [OF r] by (simp_all add: hd_append)
  show ?thesis
    unfolding rem
  proof (rule rings_change [OF R h ring_remove [OF r]])
    fix a assume "a \<notin> insert h (set (L h) \<union> set (us @ vs))"
    then have "a \<noteq> pv x" "a \<noteq> nx x" "a \<noteq> x" using nb L by auto
    then show "(nx(pv x := nx x, x := nl)) a = nx a \<and> (pv(nx x := pv x, x := nl)) a = pv a" by simp
  next
    fix y assume "y \<in> set (us @ vs)" then show "y \<notin> H" using rings_heads [OF R h] L by simp
  next
    fix y g assume "y \<in> set (us @ vs)" "g \<in> H" "g \<noteq> h"
    then show "y \<notin> set (L g)" using rings_disjoint [OF R h] L by simp
  next
    fix y assume "y \<in> set (L h)" "y \<notin> set (us @ vs)"
    then have "y = x" using L by simp
    then show "(nx(pv x := nx x, x := nl)) y = nl \<and> (pv(nx x := pv x, x := nl)) y = nl" by simp
  qed
qed

lemma rings_insert:
  assumes R: "rings nx pv nl H L" and h: "h \<in> H" and L: "L h = us @ vs"
    and x: "x \<notin> H" "\<And>g. g \<in> H \<Longrightarrow> x \<notin> set (L g)"
    and p: "p = last (h # us)" and n: "n = hd (vs @ [h])"
  shows "rings (nx(x := n, p := x)) (pv(x := p, n := x)) nl H (L(h := us @ x # vs))"
proof -
  have r: "ring nx pv h (us @ vs)" using rings_ring [OF R h] L by simp
  have xh: "x \<notin> insert h (set (us @ vs))" using x(1) x(2) [OF h] h L by auto
  have nb: "p \<in> insert h (set us)" "n \<in> insert h (set vs)"
    using p n by (simp_all add: hd_append)
  show ?thesis
  proof (rule rings_change [OF R h ring_insert [OF r xh p n]])
    fix a assume "a \<notin> insert h (set (L h) \<union> set (us @ x # vs))"
    then have "a \<noteq> p" "a \<noteq> n" "a \<noteq> x" using nb by auto
    then show "(nx(x := n, p := x)) a = nx a \<and> (pv(x := p, n := x)) a = pv a" by simp
  next
    fix y assume "y \<in> set (us @ x # vs)" then show "y \<notin> H" using rings_heads [OF R h] L x(1) by auto
  next
    fix y g assume "y \<in> set (us @ x # vs)" and g: "g \<in> H" "g \<noteq> h"
    then have "y = x \<or> y \<in> set (L h)" using L by auto
    then show "y \<notin> set (L g)" using rings_disjoint [OF R h g(1)] g x(2) by auto
  next
    fix y assume "y \<in> set (L h)" "y \<notin> set (us @ x # vs)"
    then show "(nx(x := n, p := x)) y = nl \<and> (pv(x := p, n := x)) y = nl" using L by simp
  qed
qed

lemma rings_prepend:
  assumes "rings nx pv nl H L" and "h \<in> H" and "x \<notin> H" "\<And>g. g \<in> H \<Longrightarrow> x \<notin> set (L g)"
  shows "rings (nx(x := nx h, h := x)) (pv(x := h, nx h := x)) nl H (L(h := x # L h))"
proof -
  have "nx h = hd (L h @ [h])"
    using ring_first [OF rings_ring [OF assms(1,2)]] by (simp split: list.splits)
  then show ?thesis
    using rings_insert [of nx pv nl H L h "[]" "L h" x h "nx h"] assms by simp
qed

lemma rings_append:
  assumes "rings nx pv nl H L" and "h \<in> H" and "x \<notin> H" "\<And>g. g \<in> H \<Longrightarrow> x \<notin> set (L g)"
  shows "rings (nx(x := h, pv h := x)) (pv(x := pv h, h := x)) nl H (L(h := L h @ [x]))"
  using rings_insert [of nx pv nl H L h "L h" "[]" x "pv h" h] assms
    ring_last [OF rings_ring [OF assms(1,2)]] by simp

lemma rings_empty:
  assumes "rings nx pv nl H L" and "h \<in> H"
  shows "nx h = h \<longleftrightarrow> L h = []"
proof (cases "L h")
  case (Cons y ys)
  then have "y \<noteq> h" using rings_heads [OF assms, of y] assms(2) by auto
  with Cons ring_first [OF rings_ring [OF assms]] show ?thesis by simp
qed (use ring_first [OF rings_ring [OF assms]] in simp)

lemma rings_first:
  assumes "rings nx pv nl H L" and "h \<in> H" and "L h = y # ys"
  shows "nx h = y"
  using ring_first [OF rings_ring [OF assms(1,2)]] assms(3) by simp

text \<open>A node and its two neighbours belong to the same ring.\<close>

lemma rings_neighbours:
  assumes "rings nx pv nl H L" and "h \<in> H" and "x \<in> set (L h)"
  shows "nx x \<in> insert h (set (L h))" and "pv x \<in> insert h (set (L h))" and "nx x \<noteq> x" and "pv x \<noteq> x"
proof -
  obtain us vs where L: "L h = us @ x # vs" using assms(3) by (meson split_list)
  then have r: "ring nx pv h (us @ x # vs)" using rings_ring [OF assms(1,2)] by simp
  then have d: "distinct (h # us @ x # vs)" by (simp add: ring_def)
  have "pv x \<in> insert h (set us)" "nx x \<in> insert h (set vs)"
    using ring_mem(1,2) [OF r] by (simp_all add: hd_append)
  with d L show "nx x \<in> insert h (set (L h))" and "pv x \<in> insert h (set (L h))"
    and "nx x \<noteq> x" and "pv x \<noteq> x" by auto
qed

section \<open>The contract of a list implementation\<close>

text \<open>
  \<open>node s a\<close>: the address \<open>a\<close> can be read as a node in state \<open>s\<close>; \<open>relinked s s'\<close>: at most
  link fields differ. \<open>remove_node\<close> unlinks a node, \<open>add_node s h x\<close> links \<open>x\<close> into the list of
  the sentinel \<open>h\<close>, at the front (\<open>prepend_lists\<close>) or at the back (\<open>append_lists\<close>).
\<close>

locale linked_lists =
  fixes nx :: "'s \<Rightarrow> 'a \<Rightarrow> 'a" and pv :: "'s \<Rightarrow> 'a \<Rightarrow> 'a" and nl :: 'a
    and node :: "'s \<Rightarrow> 'a \<Rightarrow> bool" and relinked :: "'s \<Rightarrow> 's \<Rightarrow> bool"
    and remove_node :: "'s \<Rightarrow> 'a \<Rightarrow> 's option"
  assumes remove_law: "\<lbrakk>node s x; node s (pv s x); node s (nx s x); pv s x \<noteq> x; nx s x \<noteq> x\<rbrakk> \<Longrightarrow>
      \<exists>s'. remove_node s x = Some s' \<and> relinked s s' \<and>
        nx s' = (nx s)(pv s x := nx s x, x := nl) \<and> pv s' = (pv s)(nx s x := pv s x, x := nl)"
    and relinked_node: "relinked s s' \<Longrightarrow> node s' = node s"
begin

lemma remove_rings:
  assumes R: "rings (nx s) (pv s) nl H L" and h: "h \<in> H" and x: "x \<in> set (L h)"
    and nodes: "\<forall>y \<in> insert h (set (L h)). node s y"
  shows "\<exists>s'. remove_node s x = Some s' \<and> relinked s s' \<and> node s' = node s \<and>
    rings (nx s') (pv s') nl H (L(h := remove1 x (L h)))"
proof -
  note nb = rings_neighbours [OF R h x]
  then obtain s' where "remove_node s x = Some s'" "relinked s s'"
      "nx s' = (nx s)(pv s x := nx s x, x := nl)" "pv s' = (pv s)(nx s x := pv s x, x := nl)"
    using remove_law [of s x] nodes x by blast
  with rings_remove [OF R h x] relinked_node show ?thesis by auto
qed

end

locale prepend_lists = linked_lists +
  fixes add_node :: "'s \<Rightarrow> 'a \<Rightarrow> 'a \<Rightarrow> 's option"
  assumes prepend_law: "\<lbrakk>node s h; node s x; node s (nx s h); x \<noteq> h; nx s h \<noteq> x; nx s x = nl; pv s x = nl\<rbrakk> \<Longrightarrow>
      \<exists>s'. add_node s h x = Some s' \<and> relinked s s' \<and>
        nx s' = (nx s)(x := nx s h, h := x) \<and> pv s' = (pv s)(x := h, nx s h := x)"
begin

lemma prepend_rings:
  assumes R: "rings (nx s) (pv s) nl H L" and h: "h \<in> H" and x: "x \<notin> H" "\<And>g. g \<in> H \<Longrightarrow> x \<notin> set (L g)"
    and nodes: "\<forall>y \<in> insert h (set (L h)). node s y" "node s x"
  shows "\<exists>s'. add_node s h x = Some s' \<and> relinked s s' \<and> node s' = node s \<and>
    rings (nx s') (pv s') nl H (L(h := x # L h))"
proof -
  have "nx s h \<in> insert h (set (L h))"
    using ring_first [OF rings_ring [OF R h]] by (auto split: list.splits)
  moreover have "nx s h \<noteq> x" using calculation x h by auto
  moreover have "nx s x = nl \<and> pv s x = nl" using rings_unlinked [OF R x] by blast
  ultimately obtain s' where "add_node s h x = Some s'" "relinked s s'"
      "nx s' = (nx s)(x := nx s h, h := x)" "pv s' = (pv s)(x := h, nx s h := x)"
    using prepend_law [of s h x] nodes x h by blast
  with rings_prepend [OF R h x] relinked_node show ?thesis by auto
qed

end

locale append_lists = linked_lists +
  fixes add_node :: "'s \<Rightarrow> 'a \<Rightarrow> 'a \<Rightarrow> 's option"
  assumes append_law: "\<lbrakk>node s h; node s x; node s (pv s h); x \<noteq> h; pv s h \<noteq> x; nx s x = nl; pv s x = nl\<rbrakk> \<Longrightarrow>
      \<exists>s'. add_node s h x = Some s' \<and> relinked s s' \<and>
        nx s' = (nx s)(x := h, pv s h := x) \<and> pv s' = (pv s)(x := pv s h, h := x)"
begin

lemma append_rings:
  assumes R: "rings (nx s) (pv s) nl H L" and h: "h \<in> H" and x: "x \<notin> H" "\<And>g. g \<in> H \<Longrightarrow> x \<notin> set (L g)"
    and nodes: "\<forall>y \<in> insert h (set (L h)). node s y" "node s x"
  shows "\<exists>s'. add_node s h x = Some s' \<and> relinked s s' \<and> node s' = node s \<and>
    rings (nx s') (pv s') nl H (L(h := L h @ [x]))"
proof -
  have "pv s h \<in> insert h (set (L h))"
    using ring_last [OF rings_ring [OF R h]] by (auto split: if_splits)
  moreover have "pv s h \<noteq> x" using calculation x h by auto
  moreover have "nx s x = nl \<and> pv s x = nl" using rings_unlinked [OF R x] by blast
  ultimately obtain s' where "add_node s h x = Some s'" "relinked s s'"
      "nx s' = (nx s)(x := h, pv s h := x)" "pv s' = (pv s)(x := pv s h, h := x)"
    using append_law [of s h x] nodes x h by blast
  with rings_append [OF R h x] relinked_node show ?thesis by auto
qed

end

end
