(* ===== verification/Span.thy ===== *)
theory Span
  imports Shm_Memory Dll
begin

text \<open>
  \<^verbatim>\<open>src/src/shm/detail/span.h\<close> and \<^verbatim>\<open>span.cpp\<close>: runs of pages, the lists they are linked
  into, and the chunk list of a span that has been partitioned.
\<close>

section \<open>Reading and writing spans\<close>

definition span_default :: span where
  "span_default = \<lparr>in_use = False, size_class = 255, used_count = 0, start_page = 0, page_count = 0,
     prev_span = nulladdr, next_span = nulladdr, chunk_list = nulladdr\<rparr>"

definition span_make :: "nat \<Rightarrow> nat \<Rightarrow> span" where
  "span_make start count = span_default\<lparr>start_page := start, page_count := count\<rparr>"

text \<open>\<^verbatim>\<open>addr.as<span>()\<close>, dereferenced.\<close>

definition as_span :: "shm \<Rightarrow> addr \<Rightarrow> span option" where
  "as_span s a = do {
     p \<leftarrow> addr2ptr s a;
     sk_assert (p \<noteq> 0);
     sk_assert (fst a = 1);
     case meta s (snd a) of SpanCell x \<Rightarrow> Some x | _ \<Rightarrow> None
   }"

definition put_span :: "shm \<Rightarrow> addr \<Rightarrow> span \<Rightarrow> shm" where
  "put_span s a x = s\<lparr>meta := (meta s)(snd a := SpanCell x)\<rparr>"

definition upd_span :: "shm \<Rightarrow> addr \<Rightarrow> (span \<Rightarrow> span) \<Rightarrow> shm option" where
  "upd_span s a f = do { x \<leftarrow> as_span s a; Some (put_span s a (f x)) }"

definition last_page :: "span \<Rightarrow> nat option" where
  "last_page x = do { sk_assert (page_count x > 0); Some (start_page x + page_count x - 1) }"

definition span_list_init :: "shm \<Rightarrow> addr \<Rightarrow> shm option" where
  "span_list_init s list = upd_span s list (\<lambda>x. x\<lparr>prev_span := list, next_span := list\<rparr>)"

definition span_list_empty :: "shm \<Rightarrow> addr \<Rightarrow> bool option" where
  "span_list_empty s list = do { l \<leftarrow> as_span s list; Some (addr_eq (next_span l) list) }"

definition span_list_remove :: "shm \<Rightarrow> addr \<Rightarrow> shm option" where
  "span_list_remove s node = do {
     n \<leftarrow> as_span s node;
     _ \<leftarrow> as_span s (prev_span n);
     _ \<leftarrow> as_span s (next_span n);
     s \<leftarrow> upd_span s (prev_span n) (\<lambda>x. x\<lparr>next_span := next_span n\<rparr>);
     s \<leftarrow> upd_span s (next_span n) (\<lambda>x. x\<lparr>prev_span := prev_span n\<rparr>);
     s \<leftarrow> upd_span s node (\<lambda>x. x\<lparr>prev_span := nulladdr\<rparr>);
     upd_span s node (\<lambda>x. x\<lparr>next_span := nulladdr\<rparr>)
   }"

definition span_list_prepend :: "shm \<Rightarrow> addr \<Rightarrow> addr \<Rightarrow> shm option" where
  "span_list_prepend s list node = do {
     l \<leftarrow> as_span s list;
     n \<leftarrow> as_span s node;
     _ \<leftarrow> as_span s (next_span l);
     sk_assert (\<not> addr_ok (prev_span n));
     sk_assert (\<not> addr_ok (next_span n));
     s \<leftarrow> upd_span s node (\<lambda>x. x\<lparr>next_span := next_span l\<rparr>);
     s \<leftarrow> upd_span s node (\<lambda>x. x\<lparr>prev_span := list\<rparr>);
     s \<leftarrow> upd_span s (next_span l) (\<lambda>x. x\<lparr>prev_span := node\<rparr>);
     upd_span s list (\<lambda>x. x\<lparr>next_span := node\<rparr>)
   }"

section \<open>Chunks\<close>

text \<open>\<^verbatim>\<open>*addr.as<shm_address>()\<close>, read and written: a word of the userdata block.\<close>

definition read_link :: "shm \<Rightarrow> addr \<Rightarrow> addr option" where
  "read_link s a = do {
     p \<leftarrow> addr2ptr s a;
     sk_assert (p \<noteq> 0);
     sk_assert (fst a = 2);
     Some (decode (user s (snd a)))
   }"

definition write_link :: "shm \<Rightarrow> addr \<Rightarrow> addr \<Rightarrow> shm option" where
  "write_link s a v = do {
     p \<leftarrow> addr2ptr s a;
     sk_assert (p \<noteq> 0);
     sk_assert (fst a = 2);
     Some (s\<lparr>user := (user s)(snd a := encode v)\<rparr>)
   }"

text \<open>The variable \<^verbatim>\<open>tail\<close> of \<^verbatim>\<open>partition\<close> points to the field of the span or into a chunk.\<close>

definition write_tail :: "shm \<Rightarrow> addr \<Rightarrow> addr option \<Rightarrow> addr \<Rightarrow> shm option" where
  "write_tail s sp tail v =
     (case tail of None \<Rightarrow> upd_span s sp (\<lambda>x. x\<lparr>chunk_list := v\<rparr>) | Some c \<Rightarrow> write_link s c v)"

function partition_loop :: "shm \<Rightarrow> addr \<Rightarrow> addr option \<Rightarrow> nat \<Rightarrow> nat \<Rightarrow> nat \<Rightarrow> shm option" where
  "partition_loop s sp tail bytes ofs end_ofs =
     (if 0 < bytes \<and> ofs + bytes \<le> end_ofs then do {
        a \<leftarrow> make_addr 2 ofs;
        s \<leftarrow> write_tail s sp tail a;
        _ \<leftarrow> addr2ptr s a;
        partition_loop s sp (Some a) bytes (ofs + bytes) end_ofs
      }
      else write_tail s sp tail nulladdr)"
  by pat_completeness auto
termination
  by (relation "measure (\<lambda>(s, sp, tail, bytes, ofs, end_ofs). end_ofs - ofs)") auto

declare partition_loop.simps [simp del]

definition span_partition :: "shm \<Rightarrow> addr \<Rightarrow> nat \<Rightarrow> nat \<Rightarrow> shm option" where
  "span_partition s sp bytes sc = do {
     x \<leftarrow> as_span s sp;
     sk_assert (bytes \<ge> 8);
     sk_assert (\<not> addr_ok (chunk_list x));
     sk_assert (used_count x = 0);
     sk_assert (size_class x = 255);
     s \<leftarrow> upd_span s sp (\<lambda>x. x\<lparr>size_class := sc\<rparr>);
     partition_loop s sp None bytes (start_page x * page_size)
       ((start_page x + page_count x) * page_size)
   }"

definition span_erase :: "shm \<Rightarrow> addr \<Rightarrow> shm option" where
  "span_erase s sp =
     upd_span s sp (\<lambda>x. x\<lparr>used_count := 0, size_class := 255, chunk_list := nulladdr\<rparr>)"

definition span_fetch :: "shm \<Rightarrow> addr \<Rightarrow> (addr \<times> shm) option" where
  "span_fetch s sp = do {
     x \<leftarrow> as_span s sp;
     let ret = chunk_list x;
     if addr_ok ret then do {
       next \<leftarrow> read_link s ret;
       s \<leftarrow> upd_span s sp (\<lambda>x. x\<lparr>chunk_list := next\<rparr>);
       s \<leftarrow> upd_span s sp (\<lambda>x. x\<lparr>used_count := used_count x + 1\<rparr>);
       Some (ret, s)
     }
     else Some (ret, s)
   }"

definition span_recycle :: "shm \<Rightarrow> addr \<Rightarrow> addr \<Rightarrow> shm option" where
  "span_recycle s sp chunk = do {
     x \<leftarrow> as_span s sp;
     s \<leftarrow> write_link s chunk (chunk_list x);
     s \<leftarrow> upd_span s sp (\<lambda>x. x\<lparr>chunk_list := chunk\<rparr>);
     upd_span s sp (\<lambda>x. x\<lparr>used_count := used_count x - 1\<rparr>)
   }"

section \<open>The view of the metadata block as spans\<close>

definition is_span :: "shm \<Rightarrow> addr \<Rightarrow> bool" where
  "is_span s a \<longleftrightarrow> fst a = 1 \<and> snd a < used_size (blocks s METADATA_BLOCK) \<and>
     block_addr (blocks s METADATA_BLOCK) \<noteq> 0 \<and> (\<exists>x. meta s (snd a) = SpanCell x)"

definition spn :: "shm \<Rightarrow> addr \<Rightarrow> span" where
  "spn s a = (if fst a = 1 then (case meta s (snd a) of SpanCell x \<Rightarrow> x | _ \<Rightarrow> span_default)
              else span_default)"

abbreviation span_nx :: "shm \<Rightarrow> addr \<Rightarrow> addr" where "span_nx s a \<equiv> next_span (spn s a)"
abbreviation span_pv :: "shm \<Rightarrow> addr \<Rightarrow> addr" where "span_pv s a \<equiv> prev_span (spn s a)"

lemma as_span_eq [simp]: "is_span s a \<Longrightarrow> as_span s a = Some (spn s a)"
  by (cases a) (auto simp: is_span_def as_span_def addr2ptr_def spn_def block_defs)

lemma is_span_ok [simp]: "is_span s a \<Longrightarrow> addr_ok a"
  by (cases a) (auto simp: is_span_def)

lemma is_span_neq_null: "is_span s a \<Longrightarrow> a \<noteq> nulladdr"
  using addr_ok_null is_span_ok by blast

lemma upd_span_eq [simp]: "is_span s a \<Longrightarrow> upd_span s a f = Some (put_span s a (f (spn s a)))"
  by (simp add: upd_span_def)

lemma is_span_put [simp]: "is_span s a \<Longrightarrow> is_span (put_span s a x) b = is_span s b"
  by (auto simp: is_span_def put_span_def)

lemma spn_put: "is_span s a \<Longrightarrow> spn (put_span s a x) b = (if b = a then x else spn s b)"
  by (cases a; cases b) (auto simp: spn_def put_span_def is_span_def)

lemma spn_put_same [simp]: "is_span s a \<Longrightarrow> spn (put_span s a x) a = x"
  by (simp add: spn_put)

lemma put_span_fields [simp]:
  "blocks (put_span s a x) = blocks s" "user (put_span s a x) = user s" "lv0 (put_span s a x) = lv0 s"
  "os (put_span s a x) = os s" "os_calls (put_span s a x) = os_calls s"
  "sizes (put_span s a x) = sizes s" "span_free_list (put_span s a x) = span_free_list s"
  "ma_stat (put_span s a x) = ma_stat s" "ph_stat (put_span s a x) = ph_stat s"
  "caches (put_span s a x) = caches s" "cc_stat (put_span s a x) = cc_stat s"
  "serial_no (put_span s a x) = serial_no s" "singletons (put_span s a x) = singletons s"
  "mgr_stat (put_span s a x) = mgr_stat s" "default_mmap_size (put_span s a x) = default_mmap_size s"
  by (simp_all add: put_span_def)

section \<open>The span lists implement the list contract\<close>

text \<open>Only span cells changed, and of these only the links.\<close>

definition span_core :: "span \<Rightarrow> span" where
  "span_core x = x\<lparr>prev_span := nulladdr, next_span := nulladdr\<rparr>"

lemma span_core_iff:
  "span_core x = span_core y \<longleftrightarrow> in_use x = in_use y \<and> size_class x = size_class y \<and>
     used_count x = used_count y \<and> start_page x = start_page y \<and> page_count x = page_count y \<and>
     chunk_list x = chunk_list y"
  by (cases x; cases y) (auto simp: span_core_def)

definition span_relinked :: "shm \<Rightarrow> shm \<Rightarrow> bool" where
  "span_relinked s s' \<longleftrightarrow> s' = s\<lparr>meta := meta s'\<rparr> \<and> is_span s' = is_span s \<and>
     (\<forall>a. span_core (spn s' a) = span_core (spn s a)) \<and>
     (\<forall>p. (\<forall>x. meta s p \<noteq> SpanCell x) \<longrightarrow> meta s' p = meta s p)"

lemma span_relinked_put:
  assumes "is_span s a" and "span_core x = span_core (spn s a)"
  shows "span_relinked s (put_span s a x)"
proof -
  have "meta s (snd a) = SpanCell (spn s a)" using assms(1) by (auto simp: is_span_def spn_def)
  moreover have "put_span s a x = s\<lparr>meta := meta (put_span s a x)\<rparr>" by (simp add: put_span_def)
  ultimately show ?thesis
    using assms by (auto simp: span_relinked_def spn_put) (auto simp: put_span_def)
qed

lemma meta_update_collapse: "s' = s\<lparr>meta := m\<rparr> \<Longrightarrow> s'\<lparr>meta := n\<rparr> = s\<lparr>meta := n\<rparr>" for s s' :: shm
  by simp

lemma span_relinked_trans:
  assumes "span_relinked s s'" and "span_relinked s' s''"
  shows "span_relinked s s''"
proof -
  have "s'' = s\<lparr>meta := meta s''\<rparr>"
    using assms unfolding span_relinked_def by (metis meta_update_collapse)
  moreover have "\<forall>p. (\<forall>x. meta s p \<noteq> SpanCell x) \<longrightarrow> meta s'' p = meta s p"
    using assms unfolding span_relinked_def by metis
  ultimately show ?thesis using assms unfolding span_relinked_def by simp
qed

lemma span_core_links [simp]:
  "span_core (x\<lparr>prev_span := p\<rparr>) = span_core x" "span_core (x\<lparr>next_span := p\<rparr>) = span_core x"
  by (simp_all add: span_core_def)

lemma span_list_remove_law:
  assumes n: "is_span s x" "is_span s (span_pv s x)" "is_span s (span_nx s x)"
    and d: "span_pv s x \<noteq> x" "span_nx s x \<noteq> x"
  shows "\<exists>s'. span_list_remove s x = Some s' \<and> span_relinked s s' \<and>
     span_nx s' = (span_nx s)(span_pv s x := span_nx s x, x := nulladdr) \<and>
     span_pv s' = (span_pv s)(span_nx s x := span_pv s x, x := nulladdr)"
proof -
  let ?p = "span_pv s x" and ?n = "span_nx s x"
  define s1 where "s1 = put_span s ?p ((spn s ?p)\<lparr>next_span := ?n\<rparr>)"
  define s2 where "s2 = put_span s1 ?n ((spn s1 ?n)\<lparr>prev_span := ?p\<rparr>)"
  define s3 where "s3 = put_span s2 x ((spn s2 x)\<lparr>prev_span := nulladdr\<rparr>)"
  define s4 where "s4 = put_span s3 x ((spn s3 x)\<lparr>next_span := nulladdr\<rparr>)"
  have i: "is_span s1 = is_span s" "is_span s2 = is_span s" "is_span s3 = is_span s"
    using n by (auto simp: s1_def s2_def s3_def)
  have "span_relinked s s1" "span_relinked s1 s2" "span_relinked s2 s3" "span_relinked s3 s4"
    unfolding s1_def s2_def s3_def s4_def using n i
    by (auto simp: s1_def s2_def s3_def intro!: span_relinked_put)
  then have "span_relinked s s4" using span_relinked_trans by blast
  moreover have "span_list_remove s x = Some s4"
    using n i by (simp add: span_list_remove_def del: spn_put_same flip: s1_def s2_def s3_def s4_def)
  moreover have v: "spn s1 = (spn s)(?p := (spn s ?p)\<lparr>next_span := ?n\<rparr>)"
      "spn s2 = (spn s1)(?n := (spn s1 ?n)\<lparr>prev_span := ?p\<rparr>)"
      "spn s3 = (spn s2)(x := (spn s2 x)\<lparr>prev_span := nulladdr\<rparr>)"
      "spn s4 = (spn s3)(x := (spn s3 x)\<lparr>next_span := nulladdr\<rparr>)"
    using n i by (auto simp: fun_eq_iff s1_def s2_def s3_def s4_def spn_put)
  have "span_nx s4 = (span_nx s)(?p := ?n, x := nulladdr)"
    unfolding v using d by (intro ext) auto
  moreover have "span_pv s4 = (span_pv s)(?n := ?p, x := nulladdr)"
    unfolding v using d by (intro ext) auto
  ultimately show ?thesis by blast
qed

lemma span_list_prepend_law:
  assumes n: "is_span s h" "is_span s x" "is_span s (span_nx s h)"
    and d: "x \<noteq> h" "span_nx s h \<noteq> x" and e: "span_nx s x = nulladdr" "span_pv s x = nulladdr"
  shows "\<exists>s'. span_list_prepend s h x = Some s' \<and> span_relinked s s' \<and>
     span_nx s' = (span_nx s)(x := span_nx s h, h := x) \<and>
     span_pv s' = (span_pv s)(x := h, span_nx s h := x)"
proof -
  let ?n = "span_nx s h"
  define s1 where "s1 = put_span s x ((spn s x)\<lparr>next_span := ?n\<rparr>)"
  define s2 where "s2 = put_span s1 x ((spn s1 x)\<lparr>prev_span := h\<rparr>)"
  define s3 where "s3 = put_span s2 ?n ((spn s2 ?n)\<lparr>prev_span := x\<rparr>)"
  define s4 where "s4 = put_span s3 h ((spn s3 h)\<lparr>next_span := x\<rparr>)"
  have i: "is_span s1 = is_span s" "is_span s2 = is_span s" "is_span s3 = is_span s"
    using n by (auto simp: s1_def s2_def s3_def)
  have "span_relinked s s1" "span_relinked s1 s2" "span_relinked s2 s3" "span_relinked s3 s4"
    unfolding s1_def s2_def s3_def s4_def using n i
    by (auto simp: s1_def s2_def s3_def intro!: span_relinked_put)
  then have "span_relinked s s4" using span_relinked_trans by blast
  moreover have "span_list_prepend s h x = Some s4"
    using n i e by (simp add: span_list_prepend_def del: spn_put_same flip: s1_def s2_def s3_def s4_def)
  moreover have v: "spn s1 = (spn s)(x := (spn s x)\<lparr>next_span := ?n\<rparr>)"
      "spn s2 = (spn s1)(x := (spn s1 x)\<lparr>prev_span := h\<rparr>)"
      "spn s3 = (spn s2)(?n := (spn s2 ?n)\<lparr>prev_span := x\<rparr>)"
      "spn s4 = (spn s3)(h := (spn s3 h)\<lparr>next_span := x\<rparr>)"
    using n i by (auto simp: fun_eq_iff s1_def s2_def s3_def s4_def spn_put)
  have "span_nx s4 = (span_nx s)(x := ?n, h := x)"
    unfolding v using d by (intro ext) auto
  moreover have "span_pv s4 = (span_pv s)(x := h, ?n := x)"
    unfolding v using d by (intro ext) auto
  ultimately show ?thesis by blast
qed

interpretation span_lists:
  prepend_lists span_nx span_pv nulladdr is_span span_relinked span_list_remove span_list_prepend
proof unfold_locales
  show "span_relinked s s' \<Longrightarrow> is_span s' = is_span s" for s s' by (simp add: span_relinked_def)
qed (use span_list_remove_law span_list_prepend_law in blast)+

end
