(* ===== verification/Radix_Tree.thy ===== *)
theory Radix_Tree
  imports Span
begin

text \<open>
  \<^verbatim>\<open>src/src/shm/detail/radix_tree.h\<close> at the instance of the page heap (10, 10 and 15 bits):
  the map from page numbers to spans. Its nodes are allocated from the metadata block and
  never released. \<open>smap\<close> is the abstraction to a function from pages to addresses.
\<close>

declare block_defs [simp]

section \<open>Definitions\<close>

definition LV0_BITS :: nat where "LV0_BITS = 10"
definition LV1_BITS :: nat where "LV1_BITS = 10"
definition LV2_BITS :: nat where "LV2_BITS = 48 - 13 - (LV0_BITS + LV1_BITS)"

lemmas lv_defs = LV0_BITS_def LV1_BITS_def LV2_BITS_def

definition radix_index :: "nat \<Rightarrow> nat \<times> nat \<times> nat" where
  "radix_index key =
     (drop_bit (LV1_BITS + LV2_BITS) key, take_bit LV1_BITS (drop_bit LV2_BITS key), take_bit LV2_BITS key)"

definition as_node1 :: "shm \<Rightarrow> addr \<Rightarrow> (nat \<Rightarrow> addr) option" where
  "as_node1 s a = do {
     p \<leftarrow> addr2ptr s a;
     sk_assert (p \<noteq> 0);
     sk_assert (fst a = 1);
     case meta s (snd a) of Node1 f \<Rightarrow> Some f | _ \<Rightarrow> None
   }"

definition as_node2 :: "shm \<Rightarrow> addr \<Rightarrow> (nat \<Rightarrow> addr) option" where
  "as_node2 s a = do {
     p \<leftarrow> addr2ptr s a;
     sk_assert (p \<noteq> 0);
     sk_assert (fst a = 1);
     case meta s (snd a) of Node2 f \<Rightarrow> Some f | _ \<Rightarrow> None
   }"

definition put_meta :: "shm \<Rightarrow> addr \<Rightarrow> cell \<Rightarrow> shm option" where
  "put_meta s a c = do {
     p \<leftarrow> addr2ptr s a;
     sk_assert (p \<noteq> 0);
     sk_assert (fst a = 1);
     Some (s\<lparr>meta := (meta s)(snd a := c)\<rparr>)
   }"

definition radix_get :: "shm \<Rightarrow> nat \<Rightarrow> addr option option" where
  "radix_get s key = do {
     sk_assert (drop_bit (LV0_BITS + LV1_BITS + LV2_BITS) key = 0);
     let (i0, i1, i2) = radix_index key;
     if \<not> addr_ok (lv0 s i0) then Some None
     else do {
       v1 \<leftarrow> as_node1 s (lv0 s i0);
       if \<not> addr_ok (v1 i1) then Some None
       else do {
         v2 \<leftarrow> as_node2 s (v1 i1);
         Some (Some (v2 i2))
       }
     }
   }"

definition radix_node1 :: "shm \<Rightarrow> nat \<Rightarrow> shm option" where
  "radix_node1 s i0 =
     (if addr_ok (lv0 s i0) then Some s
      else do {
        ((a, _), s) \<leftarrow> allocate_metadata s (8 * 2 ^ LV1_BITS);
        let s = s\<lparr>lv0 := (lv0 s)(i0 := a)\<rparr>;
        sk_assert (addr_ok a);
        put_meta s a (Node1 (\<lambda>_. nulladdr))
      })"

definition radix_node2 :: "shm \<Rightarrow> nat \<Rightarrow> nat \<Rightarrow> shm option" where
  "radix_node2 s i0 i1 = do {
     v1 \<leftarrow> as_node1 s (lv0 s i0);
     if addr_ok (v1 i1) then Some s
     else do {
       ((a, _), s) \<leftarrow> allocate_metadata s (8 * 2 ^ LV2_BITS);
       s \<leftarrow> put_meta s (lv0 s i0) (Node1 (v1(i1 := a)));
       sk_assert (addr_ok a);
       put_meta s a (Node2 (\<lambda>_. nulladdr))
     }
   }"

definition radix_set :: "shm \<Rightarrow> nat \<Rightarrow> addr \<Rightarrow> shm option" where
  "radix_set s key v = do {
     sk_assert (drop_bit (LV0_BITS + LV1_BITS + LV2_BITS) key = 0);
     let (i0, i1, i2) = radix_index key;
     s \<leftarrow> radix_node1 s i0;
     s \<leftarrow> radix_node2 s i0 i1;
     v1 \<leftarrow> as_node1 s (lv0 s i0);
     v2 \<leftarrow> as_node2 s (v1 i1);
     put_meta s (v1 i1) (Node2 (v2(i2 := v)))
   }"

section \<open>Growing the metadata block\<close>

abbreviation used0 :: "shm \<Rightarrow> nat" where "used0 s \<equiv> used_size (blocks s 0)"

definition mem_ok :: "shm \<Rightarrow> bool" where
  "mem_ok s \<longleftrightarrow> os_ok (os s) \<and> default_ok s \<and> block_ok (blocks s 0) \<and> block_ok (blocks s 1) \<and>
     block_addr (blocks s 0) \<noteq> 0 \<and> (\<forall>p \<ge> used0 s. meta s p = Raw)"

text \<open>What the operations on metadata leave alone; the metadata block only grows.\<close>

definition mframe :: "shm \<Rightarrow> shm \<Rightarrow> bool" where
  "mframe s s' \<longleftrightarrow>
     os s' = os s \<and> default_mmap_size s' = default_mmap_size s \<and> user s' = user s \<and>
     sizes s' = sizes s \<and> ph_stat s' = ph_stat s \<and> caches s' = caches s \<and> cc_stat s' = cc_stat s \<and>
     serial_no s' = serial_no s \<and> singletons s' = singletons s \<and> blocks s' 1 = blocks s 1 \<and>
     block_addr (blocks s' 0) = block_addr (blocks s 0) \<and>
     mmap_size (blocks s' 0) = mmap_size (blocks s 0) \<and> used0 s \<le> used0 s'"

lemma mframe_refl [simp]: "mframe s s"
  by (simp add: mframe_def)

lemma mframe_trans [trans]: "mframe s s' \<Longrightarrow> mframe s' s'' \<Longrightarrow> mframe s s''"
  by (simp add: mframe_def)

lemma grants_mframe:
  assumes "mframe s s'" and "used0 s' \<le> used0 s + n" and "grants s 0 (K + n)"
  shows "grants s' 0 K"
  using assms by (simp add: grants_def mframe_def)

lemma grants_mono: "grants s i m \<Longrightarrow> n \<le> m \<Longrightarrow> grants s i n"
  by (auto simp: grants_def)

lemma allocate_metadata_ok:
  assumes m: "mem_ok s" and b: "0 < b" "b \<le> 2 ^ 47" and g: "grants s 0 (pages_bytes b)"
  shows "\<exists>s'. allocate_metadata s b = Some (((1, used0 s), pages_bytes b), s') \<and> mem_ok s' \<and>
    mframe s s' \<and> used0 s' = used0 s + pages_bytes b \<and> meta s' = meta s \<and> lv0 s' = lv0 s \<and>
    span_free_list s' = span_free_list s \<and> ma_stat s' = ma_stat s"
proof -
  let ?t = "s\<lparr>mgr_stat := (mgr_stat s)\<lparr>metadata_alloc_count := metadata_alloc_count (mgr_stat s) + 1\<rparr>\<rparr>"
  have "os_ok (os ?t)" "default_ok ?t" "block_ok (blocks ?t 0)" "grants ?t 0 (pages_bytes b)"
    using m g by (auto simp: mem_ok_def default_ok_def grants_def)
  then obtain a n s' where s': "sbrk ?t 0 b = Some ((a, n), s')" "a = (1, used0 s)" "n = pages_bytes b"
      "grew ?t 0 n s'"
    using sbrk_ok [of ?t 0 b] b by (auto split: if_splits)
  have f: "s' = ?t\<lparr>os_calls := os_calls s', blocks := blocks s'\<rparr>" and b1: "blocks s' 1 = blocks s 1"
    and b0: "block_ok (blocks s' 0)" "used0 s' = used0 s + n"
      "block_addr (blocks s' 0) = block_addr (blocks s 0)" "mmap_size (blocks s' 0) = mmap_size (blocks s 0)"
    using s'(4) m by (auto simp: grew_def mem_ok_def)
  have e: "os s' = os s" "default_mmap_size s' = default_mmap_size s" "user s' = user s"
     "sizes s' = sizes s" "ph_stat s' = ph_stat s" "caches s' = caches s" "cc_stat s' = cc_stat s"
     "serial_no s' = serial_no s" "singletons s' = singletons s" "meta s' = meta s" "lv0 s' = lv0 s"
     "span_free_list s' = span_free_list s" "ma_stat s' = ma_stat s"
    by (subst f; simp)+
  have "allocate_metadata s b = Some (((1, used0 s), pages_bytes b), s')"
    using s' by (simp add: allocate_metadata_def)
  moreover have "mem_ok s'" using m b0 b1 e by (auto simp: mem_ok_def default_ok_def)
  ultimately show ?thesis using b0 b1 e s'(3) by (auto simp: mframe_def)
qed

section \<open>Nodes and the map they hold\<close>

definition node1 :: "shm \<Rightarrow> addr \<Rightarrow> (nat \<Rightarrow> addr) \<Rightarrow> bool" where
  "node1 s a f \<longleftrightarrow> fst a = 1 \<and> snd a < used0 s \<and> meta s (snd a) = Node1 f"

definition node2 :: "shm \<Rightarrow> addr \<Rightarrow> (nat \<Rightarrow> addr) \<Rightarrow> bool" where
  "node2 s a f \<longleftrightarrow> fst a = 1 \<and> snd a < used0 s \<and> meta s (snd a) = Node2 f"

definition radix_ok :: "shm \<Rightarrow> bool" where
  "radix_ok s \<longleftrightarrow>
     (\<forall>i. addr_ok (lv0 s i) \<longrightarrow> (\<exists>f. node1 s (lv0 s i) f)) \<and>
     (\<forall>i j. addr_ok (lv0 s i) \<longrightarrow> lv0 s i = lv0 s j \<longrightarrow> i = j) \<and>
     (\<forall>i j f. node1 s (lv0 s i) f \<longrightarrow> addr_ok (f j) \<longrightarrow> (\<exists>g. node2 s (f j) g)) \<and>
     (\<forall>i i' j j' f f'. node1 s (lv0 s i) f \<longrightarrow> node1 s (lv0 s i') f' \<longrightarrow> addr_ok (f j) \<longrightarrow>
        f j = f' j' \<longrightarrow> i = i' \<and> j = j')"

definition lv1_of :: "shm \<Rightarrow> nat \<Rightarrow> nat \<Rightarrow> addr" where
  "lv1_of s i0 =
     (if addr_ok (lv0 s i0) then (case meta s (snd (lv0 s i0)) of Node1 f \<Rightarrow> f | _ \<Rightarrow> (\<lambda>_. nulladdr))
      else (\<lambda>_. nulladdr))"

definition lv2_of :: "shm \<Rightarrow> addr \<Rightarrow> nat \<Rightarrow> addr" where
  "lv2_of s a =
     (if addr_ok a then (case meta s (snd a) of Node2 f \<Rightarrow> f | _ \<Rightarrow> (\<lambda>_. nulladdr)) else (\<lambda>_. nulladdr))"

definition smap :: "shm \<Rightarrow> nat \<Rightarrow> addr" where
  "smap s key = (case radix_index key of (i0, i1, i2) \<Rightarrow> lv2_of s (lv1_of s i0 i1) i2)"

lemma as_node1_eq: "mem_ok s \<Longrightarrow> node1 s a f \<Longrightarrow> as_node1 s a = Some f"
  by (cases a) (auto simp: as_node1_def node1_def addr2ptr_def mem_ok_def)

lemma as_node2_eq: "mem_ok s \<Longrightarrow> node2 s a f \<Longrightarrow> as_node2 s a = Some f"
  by (cases a) (auto simp: as_node2_def node2_def addr2ptr_def mem_ok_def)

lemma put_meta_eq:
  "mem_ok s \<Longrightarrow> fst a = 1 \<Longrightarrow> snd a < used0 s \<Longrightarrow>
     put_meta s a c = Some (s\<lparr>meta := (meta s)(snd a := c)\<rparr>)"
  by (cases a) (auto simp: put_meta_def addr2ptr_def mem_ok_def)

lemma mem_ok_put: "mem_ok s \<Longrightarrow> p < used0 s \<Longrightarrow> mem_ok (s\<lparr>meta := (meta s)(p := c)\<rparr>)"
  by (auto simp: mem_ok_def default_ok_def)

lemma lv1_of_eq: "node1 s (lv0 s i) f \<Longrightarrow> lv1_of s i = f"
  by (auto simp: lv1_of_def node1_def addr_ok_def)

lemma lv2_of_eq: "node2 s a f \<Longrightarrow> lv2_of s a = f"
  by (auto simp: lv2_of_def node2_def addr_ok_def)

lemma lv1_of_null: "\<not> addr_ok (lv0 s i) \<Longrightarrow> lv1_of s i j = nulladdr"
  by (simp add: lv1_of_def)

lemma lv2_of_null: "\<not> addr_ok a \<Longrightarrow> lv2_of s a i = nulladdr"
  by (simp add: lv2_of_def)

lemma radix_get_eq:
  assumes m: "mem_ok s" and r: "radix_ok s" and k: "key < 2 ^ 35"
  shows "\<exists>v. radix_get s key = Some v \<and> smap s key = (case v of None \<Rightarrow> nulladdr | Some a \<Rightarrow> a)"
proof -
  obtain i0 i1 i2 where ix: "radix_index key = (i0, i1, i2)" by (cases "radix_index key")
  have d: "drop_bit 35 key = 0" using k by (simp add: drop_bit_eq_div)
  show ?thesis
  proof (cases "addr_ok (lv0 s i0)")
    case False
    then show ?thesis
      using d by (simp add: radix_get_def lv_defs ix smap_def lv1_of_null lv2_of_null)
  next
    case True
    then obtain f where f: "node1 s (lv0 s i0) f" using r by (auto simp: radix_ok_def)
    show ?thesis
    proof (cases "addr_ok (f i1)")
      case False
      then show ?thesis
        using d True as_node1_eq [OF m f] f
        by (simp add: radix_get_def lv_defs ix smap_def lv1_of_eq lv2_of_null)
    next
      case ok: True
      then obtain g where g: "node2 s (f i1) g" using r f unfolding radix_ok_def by blast
      then show ?thesis
        using d True ok as_node1_eq [OF m f] as_node2_eq [OF m g] f
        by (simp add: radix_get_def lv_defs ix smap_def lv1_of_eq lv2_of_eq)
    qed
  qed
qed

lemma radix_index_inj:
  assumes "radix_index k = radix_index l"
  shows "k = l"
proof -
  have e: "k = (k div 2 ^ 25) * 2 ^ 25 + ((k div 2 ^ 15) mod 2 ^ 10) * 2 ^ 15 + k mod 2 ^ 15" for k :: nat
  proof -
    define q r p t where "q = k div 2 ^ 15" and "r = k mod 2 ^ 15" and "p = q div 2 ^ 10" and "t = q mod 2 ^ 10"
    have "k = q * 2 ^ 15 + r" "q = p * 2 ^ 10 + t" by (simp_all add: q_def r_def p_def t_def)
    then have "k = p * 2 ^ 25 + t * 2 ^ 15 + r" by simp
    moreover have "k div 2 ^ 25 = p" by (simp add: p_def q_def div_mult2_eq [symmetric])
    ultimately show ?thesis unfolding q_def [symmetric] r_def [symmetric] t_def [symmetric] by metis
  qed
  have "k div 2 ^ 25 = l div 2 ^ 25" "(k div 2 ^ 15) mod 2 ^ 10 = (l div 2 ^ 15) mod 2 ^ 10"
    "k mod 2 ^ 15 = l mod 2 ^ 15"
    using assms by (simp_all add: radix_index_def lv_defs drop_bit_eq_div take_bit_eq_mod)
  with e [of k] e [of l] show ?thesis by simp
qed

section \<open>Writing an entry\<close>

text \<open>Cells that hold spans or free links stay as they are, and none is added.\<close>

definition rframe :: "shm \<Rightarrow> shm \<Rightarrow> bool" where
  "rframe s s' \<longleftrightarrow> mframe s s' \<and> span_free_list s' = span_free_list s \<and> ma_stat s' = ma_stat s \<and>
     (\<forall>p x. meta s' p = SpanCell x \<longleftrightarrow> meta s p = SpanCell x) \<and>
     (\<forall>p x. meta s' p = Link x \<longleftrightarrow> meta s p = Link x)"

lemma rframe_refl [simp]: "rframe s s"
  by (simp add: rframe_def)

lemma rframe_trans: "rframe s s' \<Longrightarrow> rframe s' s'' \<Longrightarrow> rframe s s''"
  by (auto simp: rframe_def intro: mframe_trans)

lemma rframe_put:
  assumes "\<And>x. c \<noteq> SpanCell x" "\<And>x. c \<noteq> Link x" "\<And>x. meta s p \<noteq> SpanCell x" "\<And>x. meta s p \<noteq> Link x"
  shows "rframe s (s\<lparr>meta := (meta s)(p := c)\<rparr>)"
  using assms by (auto simp: rframe_def mframe_def)

lemma mem_below: "mem_ok s \<Longrightarrow> meta s p \<noteq> Raw \<Longrightarrow> p < used0 s"
  by (meson mem_ok_def not_less)

lemma radix_okD:
  assumes "radix_ok s"
  shows "addr_ok (lv0 s i) \<Longrightarrow> \<exists>f. node1 s (lv0 s i) f"
    and "addr_ok (lv0 s i) \<Longrightarrow> lv0 s i = lv0 s j \<Longrightarrow> i = j"
    and "node1 s (lv0 s i) f \<Longrightarrow> addr_ok (f k) \<Longrightarrow> \<exists>g. node2 s (f k) g"
    and "node1 s (lv0 s i) f \<Longrightarrow> node1 s (lv0 s i') f' \<Longrightarrow> addr_ok (f k) \<Longrightarrow> f k = f' k' \<Longrightarrow> i = i' \<and> k = k'"
  using assms unfolding radix_ok_def by blast+

lemma radix_okI:
  assumes "\<And>i. addr_ok (lv0 s i) \<Longrightarrow> \<exists>f. node1 s (lv0 s i) f"
    and "\<And>i j. addr_ok (lv0 s i) \<Longrightarrow> lv0 s i = lv0 s j \<Longrightarrow> i = j"
    and "\<And>i f k. node1 s (lv0 s i) f \<Longrightarrow> addr_ok (f k) \<Longrightarrow> \<exists>g. node2 s (f k) g"
    and "\<And>i i' f f' k k'. node1 s (lv0 s i) f \<Longrightarrow> node1 s (lv0 s i') f' \<Longrightarrow> addr_ok (f k) \<Longrightarrow>
      f k = f' k' \<Longrightarrow> i = i' \<and> k = k'"
  shows "radix_ok s"
  using assms unfolding radix_ok_def by blast

lemma radix_node1_ok:
  assumes m: "mem_ok s" and r: "radix_ok s" and g: "grants s 0 8192"
  shows "\<exists>s'. radix_node1 s i0 = Some s' \<and> mem_ok s' \<and> radix_ok s' \<and> rframe s s' \<and> smap s' = smap s \<and>
    used0 s' \<le> used0 s + 8192 \<and> addr_ok (lv0 s' i0)"
proof (cases "addr_ok (lv0 s i0)")
  case True
  then show ?thesis using m r by (auto simp: radix_node1_def)
next
  case False
  obtain s1 where s1: "allocate_metadata s 8192 = Some (((1, used0 s), 8192), s1)" "mem_ok s1" "mframe s s1"
      "used0 s1 = used0 s + 8192" "meta s1 = meta s" "lv0 s1 = lv0 s" "span_free_list s1 = span_free_list s"
      "ma_stat s1 = ma_stat s"
    using allocate_metadata_ok [OF m, of 8192] g by (auto simp: pages_bytes_page)
  let ?a = "(1, used0 s)"
  let ?s2 = "s1\<lparr>lv0 := (lv0 s1)(i0 := ?a)\<rparr>"
  let ?s' = "?s2\<lparr>meta := (meta s1)(used0 s := Node1 (\<lambda>_. nulladdr))\<rparr>"
  have m2: "mem_ok ?s2" using s1(2) by (simp add: mem_ok_def default_ok_def)
  have raw: "meta s (used0 s) = Raw" using m by (simp add: mem_ok_def)
  have "radix_node1 s i0 = Some ?s'"
    using False s1(1,4) put_meta_eq [OF m2, of ?a] by (simp add: radix_node1_def lv_defs)
  moreover have "mem_ok ?s'" using mem_ok_put [OF m2, of "used0 s"] s1(4) by simp
  moreover have n1: "node1 ?s' a f \<longleftrightarrow> node1 s a f \<or> a = ?a \<and> f = (\<lambda>_. nulladdr)" for a f
    using s1(4,5) raw by (cases a) (auto simp: node1_def intro: mem_below [OF m])
  moreover have n2: "node2 ?s' a f \<longleftrightarrow> node2 s a f" for a f
    using s1(4,5) raw by (cases a) (auto simp: node2_def intro: mem_below [OF m])
  have new: "\<not> node1 s ?a f" for f by (simp add: node1_def)
  have l: "addr_ok (lv0 s i) \<Longrightarrow> lv0 s i \<noteq> ?a" for i
    using radix_okD(1) [OF r, of i] new by metis
  have lv: "lv0 ?s' = (lv0 s)(i0 := ?a)" using s1(6) by simp
  have old: "node1 s (lv0 s i) f \<and> i \<noteq> i0" if "node1 ?s' (lv0 ?s' i) f" "addr_ok (f k)" for i f k
  proof -
    have "node1 s (lv0 ?s' i) f" using that n1 by auto
    moreover from this have "i \<noteq> i0" using new lv by auto
    ultimately show ?thesis using s1(6) by simp
  qed
  have "radix_ok ?s'"
  proof (rule radix_okI)
    show "\<exists>f. node1 ?s' (lv0 ?s' i) f" if "addr_ok (lv0 ?s' i)" for i
      using that radix_okD(1) [OF r, of i] unfolding n1 lv by (cases "i = i0") auto
    show "i = j" if "addr_ok (lv0 ?s' i)" "lv0 ?s' i = lv0 ?s' j" for i j
      using that radix_okD(2) [OF r, of i j] l [of i] l [of j] unfolding lv
      by (cases "i = i0"; cases "j = i0") (auto simp del: n1)
    show "\<exists>g. node2 ?s' (f k) g" if "node1 ?s' (lv0 ?s' i) f" "addr_ok (f k)" for i f k
      using old [OF that] radix_okD(3) [OF r] that(2) unfolding n2 by blast
    show "i = i' \<and> k = k'" if "node1 ?s' (lv0 ?s' i) f" "node1 ?s' (lv0 ?s' i') f'" "addr_ok (f k)"
        "f k = f' k'" for i i' f f' k k'
      using old [OF that(1,3)] old [OF that(2), of k'] radix_okD(4) [OF r] that(3,4) by metis
  qed
  moreover have "rframe s ?s'" using s1 raw by (auto simp: rframe_def mframe_def)
  moreover have "smap ?s' = smap s"
  proof
    fix key
    obtain j0 j1 j2 where ix: "radix_index key = (j0, j1, j2)" by (cases "radix_index key")
    have e1: "lv1_of ?s' j0 j1 = lv1_of s j0 j1"
      using s1(5,6) raw False l [of j0] by (auto simp: lv1_of_def)
    have "lv2_of ?s' a = lv2_of s a" for a using s1(5) raw by (auto simp: lv2_of_def)
    with e1 ix show "smap ?s' key = smap s key" by (simp add: smap_def)
  qed
  ultimately show ?thesis using s1(4) by auto
qed

lemma radix_node2_ok:
  assumes m: "mem_ok s" and r: "radix_ok s" and g: "grants s 0 262144" and ok: "addr_ok (lv0 s i0)"
  shows "\<exists>s'. radix_node2 s i0 i1 = Some s' \<and> mem_ok s' \<and> radix_ok s' \<and> rframe s s' \<and> smap s' = smap s \<and>
    used0 s' \<le> used0 s + 262144 \<and> lv0 s' = lv0 s \<and> (\<exists>f. node1 s' (lv0 s' i0) f \<and> addr_ok (f i1))"
proof -
  obtain f where f: "node1 s (lv0 s i0) f" using radix_okD(1) [OF r ok] by blast
  show ?thesis
  proof (cases "addr_ok (f i1)")
    case True
    then show ?thesis using m r f as_node1_eq [OF m f] by (auto simp: radix_node2_def)
  next
    case False
    obtain s1 where s1: "allocate_metadata s 262144 = Some (((1, used0 s), 262144), s1)" "mem_ok s1" "mframe s s1"
        "used0 s1 = used0 s + 262144" "meta s1 = meta s" "lv0 s1 = lv0 s" "span_free_list s1 = span_free_list s"
        "ma_stat s1 = ma_stat s"
      using allocate_metadata_ok [OF m, of 262144] g by (auto simp: pages_bytes_page)
    let ?a = "(1, used0 s)" and ?f = "f(i1 := (1, used0 s))" and ?p = "snd (lv0 s i0)"
    let ?s2 = "s1\<lparr>meta := (meta s)(?p := Node1 ?f)\<rparr>"
    let ?s' = "?s2\<lparr>meta := (meta s)(?p := Node1 ?f, used0 s := Node2 (\<lambda>_. nulladdr))\<rparr>"
    have p: "fst (lv0 s i0) = 1" "?p < used0 s" "meta s ?p = Node1 f" using f by (auto simp: node1_def)
    have m2: "mem_ok ?s2" using mem_ok_put [OF s1(2), of ?p] p(2) s1(4,5) by simp
    have raw: "meta s (used0 s) = Raw" using m by (simp add: mem_ok_def)
    have "radix_node2 s i0 i1 = Some ?s'"
      using False s1 as_node1_eq [OF m f] p put_meta_eq [OF s1(2), of "lv0 s i0"] put_meta_eq [OF m2, of ?a]
      by (simp add: radix_node2_def lv_defs)
    moreover have "mem_ok ?s'" using mem_ok_put [OF m2, of "used0 s"] s1(4) by simp
    moreover have n1: "node1 ?s' a h \<longleftrightarrow> (if a = lv0 s i0 then h = ?f else node1 s a h)" for a h
      using s1(4) p raw by (cases a; cases "lv0 s i0") (auto simp: node1_def intro: mem_below [OF m])
    moreover have n2: "node2 ?s' a h \<longleftrightarrow> node2 s a h \<or> a = ?a \<and> h = (\<lambda>_. nulladdr)" for a h
      using s1(4) p raw by (cases a) (auto simp: node2_def intro: mem_below [OF m])
    have l: "lv0 s i = lv0 s i0 \<longleftrightarrow> i = i0" for i using radix_okD(2) [OF r ok, of i] by auto
    have new: "h k \<noteq> ?a" if h: "node1 s (lv0 s i) h" for i h k
      using radix_okD(3) [OF r h, of k] by (auto simp: node2_def)
    have old: "node1 s (lv0 s i) (if i = i0 then f else h)" if "node1 ?s' (lv0 s i) h" for i h
      using that f n1 [of "lv0 s i" h] l [of i] by auto
    have hf: "i = i0 \<Longrightarrow> h = ?f" if "node1 ?s' (lv0 s i) h" for i h
      using that n1 [of "lv0 s i" h] by auto
    have "radix_ok ?s'"
    proof (rule radix_okI)
      show "\<exists>h. node1 ?s' (lv0 ?s' i) h" if "addr_ok (lv0 ?s' i)" for i
        using that radix_okD(1) [OF r, of i] s1(6) n1 by (cases "lv0 s i = lv0 s i0") auto
      show "i = j" if "addr_ok (lv0 ?s' i)" "lv0 ?s' i = lv0 ?s' j" for i j
        using that radix_okD(2) [OF r, of i j] s1(6) by simp
      show "\<exists>g. node2 ?s' (h k) g" if h: "node1 ?s' (lv0 ?s' i) h" and k: "addr_ok (h k)" for i h k
      proof -
        have h': "node1 ?s' (lv0 s i) h" using h s1(6) by simp
        show ?thesis
        proof (cases "i = i0 \<and> k = i1")
          case True
          then have "h k = ?a" using hf [OF h'] by simp
          then show ?thesis using n2 by auto
        next
          case False
          then have "h k = (if i = i0 then f else h) k" using hf [OF h'] by auto
          then show ?thesis using radix_okD(3) [OF r old [OF h'], of k] k n2 by metis
        qed
      qed
      show "i = i' \<and> k = k'" if h: "node1 ?s' (lv0 ?s' i) h" "node1 ?s' (lv0 ?s' i') h'" and k: "addr_ok (h k)"
          "h k = h' k'" for i i' h h' k k'
      proof -
        have h2: "node1 ?s' (lv0 s i) h" "node1 ?s' (lv0 s i') h'" using h s1(6) by simp_all
        have e: "h k = (if i = i0 \<and> k = i1 then ?a else (if i = i0 then f else h) k)"
          "h' k' = (if i' = i0 \<and> k' = i1 then ?a else (if i' = i0 then f else h') k')"
          using hf [OF h2(1)] hf [OF h2(2)] by auto
        note nw = new [OF old [OF h2(1)], of k] new [OF old [OF h2(2)], of k']
        show ?thesis
        proof (cases "i = i0 \<and> k = i1")
          case True
          then have "i' = i0 \<and> k' = i1" using e k(2) nw(2) by metis
          with True show ?thesis by simp
        next
          case False
          then have "\<not> (i' = i0 \<and> k' = i1)" using e k(2) nw(1) by metis
          then have "(if i = i0 then f else h) k = (if i' = i0 then f else h') k'"
            using e k(2) False by metis
          moreover have "addr_ok ((if i = i0 then f else h) k)" using e(1) k(1) False by metis
          ultimately show ?thesis using radix_okD(4) [OF r old [OF h2(1)] old [OF h2(2)]] by blast
        qed
      qed
    qed
    moreover have "rframe s ?s'" using s1 raw p by (auto simp: rframe_def mframe_def)
    moreover have "smap ?s' = smap s"
    proof
      fix key
      obtain j0 j1 j2 where ix: "radix_index key = (j0, j1, j2)" by (cases "radix_index key")
      have l2: "lv2_of ?s' a = lv2_of s a" if "a \<noteq> ?a" "fst a = 1 \<or> \<not> addr_ok a" for a
        using that raw p by (cases a) (auto simp: lv2_of_def)
      show "smap ?s' key = smap s key"
      proof (cases "j0 = i0")
        case True
        have e: "lv1_of s j0 = f" "lv1_of ?s' j0 = ?f" 
          using True lv1_of_eq [OF f] lv1_of_eq [of ?s' i0 ?f] n1 [of "lv0 s i0" ?f] s1(6) by auto
        show ?thesis
        proof (cases "j1 = i1")
          case True
          then have "lv2_of ?s' ?a j2 = nulladdr" using lv2_of_eq [of ?s' ?a "\<lambda>_. nulladdr"] n2 by auto
          with True ix e False show ?thesis by (simp add: smap_def lv2_of_null)
        next
          case other: False
          have "fst (f j1) = 1 \<or> \<not> addr_ok (f j1)" using radix_okD(3) [OF r f, of j1] by (auto simp: node2_def)
          then have "lv2_of ?s' (f j1) = lv2_of s (f j1)" using l2 new [OF f] by blast
          with other ix e show ?thesis by (simp add: smap_def)
        qed
      next
        case False
        show ?thesis
        proof (cases "addr_ok (lv0 s j0)")
          case True
          obtain h where h: "node1 s (lv0 s j0) h" using radix_okD(1) [OF r True] by blast
          have e: "lv1_of s j0 = h" "lv1_of ?s' j0 = h"
            using lv1_of_eq [OF h] lv1_of_eq [of ?s' j0 h] n1 [of "lv0 s j0" h] l [of j0] False h s1(6) by auto
          have "fst (h j1) = 1 \<or> \<not> addr_ok (h j1)" using radix_okD(3) [OF r h, of j1] by (auto simp: node2_def)
          then have "lv2_of ?s' (h j1) = lv2_of s (h j1)" using l2 new [OF h] by blast
          with ix e show ?thesis by (simp add: smap_def)
        next
          case False
          then show ?thesis using ix s1(6) by (simp add: smap_def lv1_of_null lv2_of_null)
        qed
      qed
    qed
    moreover have "node1 ?s' (lv0 ?s' i0) ?f" using n1 s1(6) by simp
    ultimately show ?thesis using s1(4,6) by (intro exI [of _ ?s']) auto
  qed
qed

lemma radix_write_ok:
  assumes m: "mem_ok s" and r: "radix_ok s" and f: "node1 s (lv0 s i0) f" and ok: "addr_ok (f i1)"
    and ix: "radix_index key = (i0, i1, i2)"
  shows "\<exists>g. node2 s (f i1) g \<and>
    (let s' = s\<lparr>meta := (meta s)(snd (f i1) := Node2 (g(i2 := v)))\<rparr>
     in mem_ok s' \<and> radix_ok s' \<and> rframe s s' \<and> smap s' = (smap s)(key := v))"
proof -
  obtain g where g: "node2 s (f i1) g" using radix_okD(3) [OF r f ok] by blast
  let ?q = "snd (f i1)" and ?g = "g(i2 := v)"
  let ?s' = "s\<lparr>meta := (meta s)(?q := Node2 ?g)\<rparr>"
  have q: "fst (f i1) = 1" "?q < used0 s" "meta s ?q = Node2 g" using g by (auto simp: node2_def)
  have n1: "node1 ?s' a h \<longleftrightarrow> node1 s a h" for a h using q by (auto simp: node1_def)
  have n2: "node2 ?s' a h \<longleftrightarrow> (if a = f i1 then h = ?g else node2 s a h)" for a h
    using q by (cases a; cases "f i1") (auto simp: node2_def)
  have "radix_ok ?s'"
  proof (rule radix_okI)
    show "\<exists>g. node2 ?s' (h k) g" if "node1 ?s' (lv0 ?s' i) h" "addr_ok (h k)" for i h k
      using that radix_okD(3) [OF r, of i h k] n1 n2 by (cases "h k = f i1") auto
  qed (use radix_okD [OF r] in \<open>auto simp: n1\<close>)
  moreover have "smap ?s' = (smap s)(key := v)"
  proof
    fix k
    obtain j0 j1 j2 where jx: "radix_index k = (j0, j1, j2)" by (cases "radix_index k")
    have l1: "lv1_of ?s' j0 = lv1_of s j0" using q by (auto simp: lv1_of_def)
    show "smap ?s' k = ((smap s)(key := v)) k"
    proof (cases "j0 = i0 \<and> j1 = i1")
      case True
      have "lv2_of ?s' (f i1) = ?g" using lv2_of_eq [of ?s' "f i1" ?g] n2 by auto
      moreover have "k = key \<longleftrightarrow> j2 = i2" using radix_index_inj [of k key] ix jx True by auto
      ultimately show ?thesis
        using True l1 ix jx lv1_of_eq [OF f] lv2_of_eq [OF g] by (simp add: smap_def)
    next
      case False
      then have "k \<noteq> key" using ix jx by auto
      moreover have "lv2_of ?s' (lv1_of s j0 j1) = lv2_of s (lv1_of s j0 j1)"
      proof (cases "addr_ok (lv0 s j0)")
        case True
        obtain h where h: "node1 s (lv0 s j0) h" using radix_okD(1) [OF r True] by blast
        show ?thesis
        proof (cases "addr_ok (h j1)")
          case True
          then have "h j1 \<noteq> f i1" using radix_okD(4) [OF r h f] False by blast
          moreover obtain g' where "node2 s (h j1) g'" using radix_okD(3) [OF r h True] by blast
          ultimately show ?thesis
            using lv2_of_eq [of s "h j1" g'] lv2_of_eq [of ?s' "h j1" g'] n2 lv1_of_eq [OF h] by auto
        qed (use lv1_of_eq [OF h] in \<open>auto simp: lv2_of_def\<close>)
      qed (auto simp: lv1_of_null lv2_of_def)
      ultimately show ?thesis using jx l1 by (simp add: smap_def)
    qed
  qed
  moreover have "mem_ok ?s'" using mem_ok_put [OF m q(2)] .
  moreover have "rframe s ?s'" using q(3) by (intro rframe_put) auto
  ultimately show ?thesis using g by (auto simp: Let_def)
qed

lemma radix_set_ok:
  assumes m: "mem_ok s" and r: "radix_ok s" and g: "grants s 0 270336" and k: "key < 2 ^ 35"
  shows "\<exists>s'. radix_set s key v = Some s' \<and> mem_ok s' \<and> radix_ok s' \<and> rframe s s' \<and>
    smap s' = (smap s)(key := v) \<and> used0 s' \<le> used0 s + 270336"
proof -
  obtain i0 i1 i2 where ix: "radix_index key = (i0, i1, i2)" by (cases "radix_index key")
  have d: "drop_bit 35 key = 0" using k by (simp add: drop_bit_eq_div)
  obtain s1 where s1: "radix_node1 s i0 = Some s1" "mem_ok s1" "radix_ok s1" "rframe s s1" "smap s1 = smap s"
      "used0 s1 \<le> used0 s + 8192" "addr_ok (lv0 s1 i0)"
    using radix_node1_ok [OF m r] grants_mono [OF g] by auto
  have "grants s1 0 262144" using s1(4,6) g by (auto simp: rframe_def intro: grants_mframe)
  then obtain s2 f where s2: "radix_node2 s1 i0 i1 = Some s2" "mem_ok s2" "radix_ok s2" "rframe s1 s2"
      "smap s2 = smap s1" "used0 s2 \<le> used0 s1 + 262144" "node1 s2 (lv0 s2 i0) f" "addr_ok (f i1)"
    using radix_node2_ok [OF s1(2,3) _ s1(7), of i1] by auto
  obtain g where g: "node2 s2 (f i1) g"
    and w: "let s' = s2\<lparr>meta := (meta s2)(snd (f i1) := Node2 (g(i2 := v)))\<rparr>
     in mem_ok s' \<and> radix_ok s' \<and> rframe s2 s' \<and> smap s' = (smap s2)(key := v)"
    using radix_write_ok [OF s2(2,3,7,8) ix] by blast
  have "radix_set s key v = Some (s2\<lparr>meta := (meta s2)(snd (f i1) := Node2 (g(i2 := v)))\<rparr>)"
    using d ix s1(1) s2(1) as_node1_eq [OF s2(2,7)] as_node2_eq [OF s2(2) g] g
      put_meta_eq [OF s2(2), of "f i1"] by (simp add: radix_set_def lv_defs node2_def)
  moreover have "rframe s s2" using rframe_trans [OF s1(4) s2(4)] .
  moreover have "used0 s2 \<le> used0 s + 270336" using s1(6) s2(6) by simp
  ultimately show ?thesis
    using w s1(5) s2(5) rframe_trans [of s s2] by (simp add: Let_def)
qed

end
