(* ===== verification/Metadata_Allocator.thy ===== *)
theory Metadata_Allocator
  imports Radix_Tree
begin

text \<open>
  \<^verbatim>\<open>src/src/shm/detail/metadata_allocator.h\<close> at the instance \<^verbatim>\<open>metadata_allocator<span>\<close>: a free
  list of fixed-size cells, threaded through the first word of the free cells.
\<close>

section \<open>Definitions\<close>

definition ALLOCATION_SIZE :: nat where "ALLOCATION_SIZE = 128 * 1024"
definition span_size :: nat where "span_size = 48"

definition as_link :: "shm \<Rightarrow> addr \<Rightarrow> addr option" where
  "as_link s a = do {
     p \<leftarrow> addr2ptr s a;
     sk_assert (p \<noteq> 0);
     sk_assert (fst a = 1);
     case meta s (snd a) of Link x \<Rightarrow> Some x | _ \<Rightarrow> None
   }"

function ma_fill :: "shm \<Rightarrow> nat \<Rightarrow> nat \<Rightarrow> (nat \<times> shm) option" where
  "ma_fill s ptr end_ptr =
     (if ptr + span_size \<le> end_ptr then do {
        a \<leftarrow> make_addr 1 ptr;
        ma_fill (s\<lparr>meta := (meta s)(ptr := Link (span_free_list s)), span_free_list := a\<rparr>)
          (ptr + span_size) end_ptr
      }
      else Some (ptr, s))"
  by pat_completeness auto
termination
  by (relation "measure (\<lambda>(s, ptr, e). e - ptr)") (auto simp: span_size_def)

declare ma_fill.simps [simp del]

definition ma_refill :: "shm \<Rightarrow> (bool \<times> shm) option" where
  "ma_refill s = do {
     ((space, sz), s) \<leftarrow> allocate_metadata s ALLOCATION_SIZE;
     if \<not> addr_ok space then Some (False, s)
     else do {
       sk_assert (fst space = 1);
       block \<leftarrow> make_addr (fst space) 0;
       _ \<leftarrow> addr2ptr s block;
       _ \<leftarrow> addr2ptr s space;
       let end_ptr = snd space + sz;
       (ptr, s) \<leftarrow> ma_fill s (snd space) end_ptr;
       sk_assert (ptr \<le> end_ptr);
       Some (True, s\<lparr>ma_stat := (ma_stat s)
         \<lparr>ma_waste_size := ma_waste_size (ma_stat s) + (end_ptr - ptr),
          ma_total_size := ma_total_size (ma_stat s) + sz\<rparr>\<rparr>)
     }
   }"

definition ma_allocate :: "shm \<Rightarrow> (addr \<times> shm) option" where
  "ma_allocate s = do {
     (ok, s) \<leftarrow> (if addr_ok (span_free_list s) then Some (True, s) else ma_refill s);
     if \<not> ok then Some (nulladdr, s)
     else do {
       sk_assert (addr_ok (span_free_list s));
       let a = span_free_list s;
       next \<leftarrow> as_link s a;
       Some (a, s\<lparr>span_free_list := next,
         ma_stat := (ma_stat s)\<lparr>ma_alloc_count := ma_alloc_count (ma_stat s) + 1\<rparr>\<rparr>)
     }
   }"

definition ma_deallocate :: "shm \<Rightarrow> addr \<Rightarrow> shm option" where
  "ma_deallocate s a = do {
     sk_assert (addr_ok a);
     s \<leftarrow> put_meta s a (Link (span_free_list s));
     Some (s\<lparr>span_free_list := a,
       ma_stat := (ma_stat s)\<lparr>ma_free_count := ma_free_count (ma_stat s) + 1\<rparr>\<rparr>)
   }"

section \<open>The free list\<close>

fun linked :: "(nat \<Rightarrow> cell) \<Rightarrow> addr \<Rightarrow> addr list \<Rightarrow> bool" where
  "linked m a [] \<longleftrightarrow> a = nulladdr"
| "linked m a (x # xs) \<longleftrightarrow> a = x \<and> fst x = 1 \<and> (\<exists>y. m (snd x) = Link y \<and> linked m y xs)"

definition ma_ok :: "shm \<Rightarrow> addr list \<Rightarrow> bool" where
  "ma_ok s fs \<longleftrightarrow> distinct fs \<and> linked (meta s) (span_free_list s) fs"

lemma linked_cell: "linked m a xs \<Longrightarrow> x \<in> set xs \<Longrightarrow> fst x = 1 \<and> (\<exists>y. m (snd x) = Link y)"
  by (induction xs arbitrary: a) auto

lemma linked_mono:
  "linked m a xs \<Longrightarrow> (\<And>x y. x \<in> set xs \<Longrightarrow> m (snd x) = Link y \<Longrightarrow> m' (snd x) = Link y) \<Longrightarrow> linked m' a xs"
proof (induction xs arbitrary: a)
  case (Cons x xs)
  then obtain y where "a = x" "fst x = 1" "m (snd x) = Link y" "linked m y xs" by auto
  moreover from this Cons.prems(2) have "m' (snd x) = Link y" by simp
  moreover have "linked m' y xs" by (rule Cons.IH) (use calculation Cons.prems(2) in auto)
  ultimately show ?case by auto
qed simp

lemma linked_Nil_iff: "linked m a xs \<Longrightarrow> addr_ok a \<longleftrightarrow> xs \<noteq> []"
  by (cases xs) (auto simp: addr_ok_def nulladdr_def)

lemma ma_fill_ok:
  assumes "ma_ok s fs" and "\<forall>x \<in> set fs. snd x < ptr" and "e \<le> 2 ^ 48" and "ptr \<le> e"
  shows "\<exists>q m fl gs. ma_fill s ptr e = Some (q, s\<lparr>meta := m, span_free_list := fl\<rparr>) \<and> q \<le> e \<and>
    ma_ok (s\<lparr>meta := m, span_free_list := fl\<rparr>) gs \<and> (ptr + span_size \<le> e \<or> fs \<noteq> [] \<longrightarrow> gs \<noteq> []) \<and>
    (\<forall>p. m p = meta s p \<or> ptr \<le> p \<and> p < e \<and> (\<exists>y. m p = Link y))"
  using assms
proof (induction s ptr e arbitrary: fs rule: ma_fill.induct)
  case (1 s ptr e)
  show ?case
  proof (cases "ptr + span_size \<le> e")
    case False
    then have "ma_fill s ptr e = Some (ptr, s\<lparr>meta := meta s, span_free_list := span_free_list s\<rparr>)"
      by (subst ma_fill.simps) simp
    with False 1 show ?thesis
      by (intro exI [of _ ptr] exI [of _ "meta s"] exI [of _ "span_free_list s"] exI [of _ fs]) auto
  next
    case True
    let ?t = "s\<lparr>meta := (meta s)(ptr := Link (span_free_list s)), span_free_list := (1, ptr)\<rparr>"
    have p: "ptr < 2 ^ 48" using True "1.prems"(3) by (simp add: span_size_def)
    then have mk: "make_addr 1 ptr = Some (1, ptr)" by simp
    have l: "linked (meta s) (span_free_list s) fs" using "1.prems"(1) by (simp add: ma_ok_def)
    have "linked (meta ?t) (span_free_list s) fs"
      by (rule linked_mono [OF l]) (use "1.prems"(2) in auto)
    then have "ma_ok ?t ((1, ptr) # fs)" using "1.prems" by (auto simp: ma_ok_def)
    then obtain q m fl gs where I: "ma_fill ?t (ptr + span_size) e = Some (q, ?t\<lparr>meta := m, span_free_list := fl\<rparr>)"
        "q \<le> e" "ma_ok (?t\<lparr>meta := m, span_free_list := fl\<rparr>) gs" "gs \<noteq> []"
        "\<forall>p. m p = meta ?t p \<or> ptr + span_size \<le> p \<and> p < e \<and> (\<exists>y. m p = Link y)"
      using "1.IH" [OF True mk, of "(1, ptr) # fs"] "1.prems"(2,3) True
      by (fastforce simp: span_size_def)
    have "ma_fill s ptr e = Some (q, s\<lparr>meta := m, span_free_list := fl\<rparr>)"
      using I(1) True p by (subst ma_fill.simps) (simp add: make_addr_def)
    moreover have "m p = meta s p \<or> ptr \<le> p \<and> p < e \<and> (\<exists>y. m p = Link y)" for p
      using I(5) [rule_format, of p] True by (cases "p = ptr") (auto simp: span_size_def)
    ultimately show ?thesis using I(2-4) by (intro exI conjI) auto
  qed
qed

lemma ma_refill_ok:
  assumes m: "mem_ok s" and f: "ma_ok s []" and g: "grants s 0 131072"
  shows "\<exists>s' gs. ma_refill s = Some (True, s') \<and> mem_ok s' \<and> mframe s s' \<and> lv0 s' = lv0 s \<and>
    used0 s' \<le> used0 s + 131072 \<and> ma_ok s' gs \<and> gs \<noteq> [] \<and>
    (\<forall>p. meta s' p = meta s p \<or> meta s p = Raw \<and> (\<exists>y. meta s' p = Link y))"
proof -
  obtain s1 where s1: "allocate_metadata s 131072 = Some (((1, used0 s), 131072), s1)" "mem_ok s1" "mframe s s1"
      "used0 s1 = used0 s + 131072" "meta s1 = meta s" "lv0 s1 = lv0 s" "span_free_list s1 = span_free_list s"
      "ma_stat s1 = ma_stat s"
    using allocate_metadata_ok [OF m, of 131072] g by (auto simp: pages_bytes_page)
  have lim: "used0 s + 131072 \<le> 2 ^ 48" using s1(2,4) by (auto simp: mem_ok_def block_ok_def)
  have "ma_ok s1 []" using f s1(5,7) by (simp add: ma_ok_def)
  then obtain q mm fl gs where I: "ma_fill s1 (used0 s) (used0 s + 131072) = Some (q, s1\<lparr>meta := mm, span_free_list := fl\<rparr>)"
      "q \<le> used0 s + 131072" "ma_ok (s1\<lparr>meta := mm, span_free_list := fl\<rparr>) gs" "gs \<noteq> []"
      "\<forall>p. mm p = meta s1 p \<or> used0 s \<le> p \<and> p < used0 s + 131072 \<and> (\<exists>y. mm p = Link y)"
    using ma_fill_ok [of s1 "[]" "used0 s" "used0 s + 131072"] lim by (auto simp: span_size_def)
  let ?s = "s1\<lparr>meta := mm, span_free_list := fl, ma_stat := (ma_stat s1)
         \<lparr>ma_waste_size := ma_waste_size (ma_stat s1) + (used0 s + 131072 - q),
          ma_total_size := ma_total_size (ma_stat s1) + 131072\<rparr>\<rparr>"
  have ne: "block_addr (blocks s1 0) \<noteq> 0" using s1(2) by (simp add: mem_ok_def)
  have "ma_refill s = Some (True, ?s)"
    using s1(1,4) I(1,2) by (simp add: ma_refill_def ALLOCATION_SIZE_def addr2ptr_def make_addr_def)
  moreover have "mm p = Raw" if "used0 s1 \<le> p" for p
    using I(5) [rule_format, of p] s1(2,4) that by (auto simp: mem_ok_def)
  then have "mem_ok ?s" using s1(2) by (simp add: mem_ok_def default_ok_def)
  moreover have "mframe s ?s" using s1(3) by (simp add: mframe_def)
  moreover have "ma_ok ?s gs" using I(3) by (simp add: ma_ok_def)
  moreover have "mm p = meta s p \<or> meta s p = Raw \<and> (\<exists>y. mm p = Link y)" for p
    using I(5) [rule_format, of p] s1(5) m by (auto simp: mem_ok_def)
  ultimately show ?thesis using s1(4,6) I(4) by (intro exI [of _ ?s] exI [of _ gs]) auto
qed

lemma ma_allocate_ok:
  assumes m: "mem_ok s" and f: "ma_ok s fs" and g: "grants s 0 131072"
  shows "\<exists>a s' gs. ma_allocate s = Some (a, s') \<and> mem_ok s' \<and> mframe s s' \<and> lv0 s' = lv0 s \<and>
    used0 s' \<le> used0 s + 131072 \<and> ma_ok s' gs \<and> fst a = 1 \<and> (\<exists>y. meta s' (snd a) = Link y) \<and>
    a \<notin> set gs \<and> (\<forall>p. meta s' p = meta s p \<or> meta s p = Raw \<and> (\<exists>y. meta s' p = Link y))"
proof -
  obtain s1 gs where s1: "(if addr_ok (span_free_list s) then Some (True, s) else ma_refill s) = Some (True, s1)"
      "mem_ok s1" "mframe s s1" "lv0 s1 = lv0 s" "used0 s1 \<le> used0 s + 131072" "ma_ok s1 gs" "gs \<noteq> []"
      "\<forall>p. meta s1 p = meta s p \<or> meta s p = Raw \<and> (\<exists>y. meta s1 p = Link y)"
  proof (cases "fs = []")
    case True
    then have "\<not> addr_ok (span_free_list s)" using f linked_Nil_iff [of "meta s" "span_free_list s" fs] by (auto simp: ma_ok_def)
    with ma_refill_ok [OF m _ g] f True that show ?thesis by auto
  next
    case False
    then have "addr_ok (span_free_list s)" using f linked_Nil_iff [of "meta s" "span_free_list s" fs] by (auto simp: ma_ok_def)
    with that [of s fs] m f False show ?thesis by simp
  qed
  then obtain a gs' where gs: "gs = a # gs'" by (cases gs) auto
  then obtain y where y: "span_free_list s1 = a" "fst a = 1" "meta s1 (snd a) = Link y" "linked (meta s1) y gs'"
      "distinct (a # gs')"
    using s1(6) by (auto simp: ma_ok_def)
  let ?s = "s1\<lparr>span_free_list := y,
         ma_stat := (ma_stat s1)\<lparr>ma_alloc_count := ma_alloc_count (ma_stat s1) + 1\<rparr>\<rparr>"
  have "as_link s1 a = Some y"
    using y mem_below [OF s1(2), of "snd a"] s1(2) by (cases a) (auto simp: as_link_def addr2ptr_def mem_ok_def)
  then have "ma_allocate s = Some (a, ?s)"
    using s1(1) y(1,2) unfolding ma_allocate_def by (simp add: addr_ok_def)
  moreover have "mem_ok ?s" using s1(2) by (simp add: mem_ok_def default_ok_def)
  moreover have "mframe s ?s" using s1(3) by (simp add: mframe_def)
  moreover have "ma_ok ?s gs'" using y by (simp add: ma_ok_def)
  ultimately show ?thesis using s1(4,5,8) y
    by (intro exI [of _ a] exI [of _ ?s] exI [of _ gs']) auto
qed

end
