(* ===== verification/Page_Heap.thy ===== *)
theory Page_Heap
  imports Metadata_Allocator
begin

text \<open>
  \<^verbatim>\<open>src/src/shm/detail/page_heap.h\<close> and \<^verbatim>\<open>page_heap.cpp\<close>: runs of pages are kept as spans, the
  free ones in lists by length, and neighbours are found through the span map and merged.

  The sentinels of the free lists are members of the \<^verbatim>\<open>page_heap\<close> object, which
  \<^verbatim>\<open>shm_mgr::on_create\<close> places behind the size map in the metadata block; the offsets below
  are those of the x86-64 layout.
\<close>

section \<open>Layout\<close>

definition sizeof_size_map :: nat where "sizeof_size_map = 2176 + 87 * 8 + 87 * 8"
definition sizeof_page_heap :: nat where "sizeof_page_heap = 8192 + 40 + 128 * 48 + 48 + 40"
definition sizeof_chunk_cache :: nat where "sizeof_chunk_cache = 87 * 88 + 48"

definition free_list_offset :: "nat \<Rightarrow> nat" where
  "free_list_offset i = sizeof_size_map + 8192 + 40 + 48 * i"

definition large_list_offset :: nat where
  "large_list_offset = sizeof_size_map + 8192 + 40 + 48 * 128"

definition class_list_offset :: "nat \<Rightarrow> nat" where
  "class_list_offset c = sizeof_size_map + sizeof_page_heap + 88 * c"

lemmas layout_defs = sizeof_size_map_def sizeof_page_heap_def sizeof_chunk_cache_def
  free_list_offset_def large_list_offset_def class_list_offset_def

section \<open>Definitions\<close>

text \<open>\<^verbatim>\<open>span::addr\<close> of a span that is a member of an object at offset \<open>p\<close> of the metadata block.\<close>

definition span_addr :: "shm \<Rightarrow> nat \<Rightarrow> addr option" where
  "span_addr s p = do {
     a \<leftarrow> ptr2addr s (block_addr (blocks s METADATA_BLOCK) + p);
     sk_assert (addr_ok a);
     Some a
   }"

definition get_span_map :: "shm \<Rightarrow> nat \<Rightarrow> addr option" where
  "get_span_map s page = do {
     sk_assert (page < MAX_PAGE_COUNT);
     v \<leftarrow> radix_get s page;
     Some (case v of None \<Rightarrow> nulladdr | Some a \<Rightarrow> a)
   }"

definition set_span_map :: "shm \<Rightarrow> nat \<Rightarrow> addr \<Rightarrow> shm option" where
  "set_span_map s page sp = do { sk_assert (page < MAX_PAGE_COUNT); radix_set s page sp }"

definition new_span :: "shm \<Rightarrow> nat \<Rightarrow> nat \<Rightarrow> (addr \<times> shm) option" where
  "new_span s start count = do {
     (sp, s) \<leftarrow> ma_allocate s;
     if addr_ok sp then do {
       s \<leftarrow> put_meta s sp (SpanCell (span_make start count));
       Some (sp, s)
     }
     else Some (sp, s)
   }"

definition del_span :: "shm \<Rightarrow> addr \<Rightarrow> shm option" where
  "del_span s sp = do { _ \<leftarrow> as_span s sp; ma_deallocate s sp }"

definition link_span :: "shm \<Rightarrow> addr \<Rightarrow> shm option" where
  "link_span s sp = do {
     x \<leftarrow> as_span s sp;
     head \<leftarrow> (if page_count x < MAX_PAGES then span_addr s (free_list_offset (page_count x))
              else span_addr s large_list_offset);
     span_list_prepend s head sp
   }"

definition carve_left :: "shm \<Rightarrow> addr \<Rightarrow> nat \<Rightarrow> addr \<Rightarrow> shm option" where
  "carve_left s sp n left = do {
     l \<leftarrow> as_span s left;
     s \<leftarrow> set_span_map s (start_page l) left;
     s \<leftarrow> (if page_count l > 1 then do { p \<leftarrow> last_page l; set_span_map s p left } else Some s);
     next \<leftarrow> get_span_map s (start_page l + page_count l);
     (if addr_ok next then do { x \<leftarrow> as_span s next; sk_assert (in_use x) } else Some ());
     s \<leftarrow> link_span s left;
     s \<leftarrow> upd_span s sp (\<lambda>x. x\<lparr>page_count := n\<rparr>);
     x \<leftarrow> as_span s sp;
     p \<leftarrow> last_page x;
     set_span_map s p sp
   }"

definition carve :: "shm \<Rightarrow> addr \<Rightarrow> nat \<Rightarrow> (addr \<times> shm) option" where
  "carve s sp n = do {
     x \<leftarrow> as_span s sp;
     sk_assert (\<not> in_use x);
     sk_assert (page_count x \<ge> n);
     s \<leftarrow> span_list_remove s sp;
     x \<leftarrow> as_span s sp;
     let extra = page_count x - n;
     s \<leftarrow> (if extra > 0 then do {
         (left, s) \<leftarrow> new_span s (start_page x + n) extra;
         if addr_ok left then carve_left s sp n left else Some s
       }
       else Some s);
     s \<leftarrow> upd_span s sp (\<lambda>x. x\<lparr>in_use := True\<rparr>);
     Some (sp, s)
   }"

partial_function (option) large_loop :: "shm \<Rightarrow> nat \<Rightarrow> addr \<Rightarrow> addr \<Rightarrow> addr \<Rightarrow> addr option" where
  "large_loop s n it end_addr best =
     (if addr_eq it end_addr then Some best
      else do {
        x \<leftarrow> as_span s it;
        if page_count x < n then large_loop s n (next_span x) end_addr best
        else if \<not> addr_ok best then large_loop s n (next_span x) end_addr it
        else do {
          b \<leftarrow> as_span s best;
          if page_count x < page_count b \<or>
             (page_count x = page_count b \<and> start_page x < start_page b)
          then large_loop s n (next_span x) end_addr it
          else large_loop s n (next_span x) end_addr best
        }
      })"

definition allocate_large :: "shm \<Rightarrow> nat \<Rightarrow> (addr \<times> shm) option" where
  "allocate_large s n = do {
     end_addr \<leftarrow> span_addr s large_list_offset;
     l \<leftarrow> as_span s end_addr;
     best \<leftarrow> large_loop s n (next_span l) end_addr nulladdr;
     if addr_ok best then carve s best n else Some (nulladdr, s)
   }"

fun search_lists :: "shm \<Rightarrow> nat list \<Rightarrow> addr option option" where
  "search_lists s [] = Some None"
| "search_lists s (i # is) = do {
     head \<leftarrow> span_addr s (free_list_offset i);
     empty \<leftarrow> span_list_empty s head;
     if empty then search_lists s is
     else do { h \<leftarrow> as_span s head; Some (Some (next_span h)) }
   }"

definition search_existing :: "shm \<Rightarrow> nat \<Rightarrow> (addr \<times> shm) option" where
  "search_existing s n = do {
     r \<leftarrow> search_lists s [n..<MAX_PAGES];
     case r of Some sp \<Rightarrow> carve s sp n | None \<Rightarrow> allocate_large s n
   }"

definition merge_prev :: "shm \<Rightarrow> addr \<Rightarrow> nat \<Rightarrow> shm option" where
  "merge_prev s sp orig_start =
     (if orig_start > 0 then do {
        prev \<leftarrow> get_span_map s (orig_start - 1);
        if addr_ok prev then do {
          p \<leftarrow> as_span s prev;
          if \<not> in_use p then do {
            sk_assert (page_count p > 0);
            sk_assert (start_page p + page_count p = orig_start);
            s \<leftarrow> upd_span s sp (\<lambda>x. x\<lparr>start_page := start_page x - page_count p\<rparr>);
            s \<leftarrow> upd_span s sp (\<lambda>x. x\<lparr>page_count := page_count x + page_count p\<rparr>);
            s \<leftarrow> span_list_remove s prev;
            s \<leftarrow> del_span s prev;
            x \<leftarrow> as_span s sp;
            set_span_map s (start_page x) sp
          }
          else Some s
        }
        else Some s
      }
      else Some s)"

definition merge_next :: "shm \<Rightarrow> addr \<Rightarrow> nat \<Rightarrow> nat \<Rightarrow> shm option" where
  "merge_next s sp orig_start orig_count =
     (if orig_start + orig_count < MAX_PAGE_COUNT then do {
        next \<leftarrow> get_span_map s (orig_start + orig_count);
        if addr_ok next then do {
          n \<leftarrow> as_span s next;
          if \<not> in_use n then do {
            sk_assert (page_count n > 0);
            sk_assert (int (start_page n) - int orig_count = int orig_start);
            s \<leftarrow> upd_span s sp (\<lambda>x. x\<lparr>page_count := page_count x + page_count n\<rparr>);
            s \<leftarrow> span_list_remove s next;
            s \<leftarrow> del_span s next;
            x \<leftarrow> as_span s sp;
            p \<leftarrow> last_page x;
            set_span_map s p sp
          }
          else Some s
        }
        else Some s
      }
      else Some s)"

definition deallocate_span :: "shm \<Rightarrow> addr \<Rightarrow> shm option" where
  "deallocate_span s sp = do {
     sk_assert (addr_ok sp);
     x \<leftarrow> as_span s sp;
     sk_assert (in_use x);
     sk_assert (page_count x > 0);
     sk_assert (\<not> addr_ok (prev_span x));
     sk_assert (\<not> addr_ok (next_span x));
     a \<leftarrow> get_span_map s (start_page x);
     sk_assert (addr_eq a sp);
     p \<leftarrow> last_page x;
     b \<leftarrow> get_span_map s p;
     sk_assert (addr_eq b sp);
     s \<leftarrow> upd_span s sp (\<lambda>x. x\<lparr>in_use := False\<rparr>);
     let orig_start = start_page x;
     let orig_count = page_count x;
     s \<leftarrow> merge_prev s sp orig_start;
     s \<leftarrow> merge_next s sp orig_start orig_count;
     s \<leftarrow> link_span s sp;
     let s = s\<lparr>ph_stat := (ph_stat s)\<lparr>ph_free_count := ph_free_count (ph_stat s) + 1\<rparr>\<rparr>;
     sk_assert (ph_used_size (ph_stat s) \<ge> orig_count);
     Some (s\<lparr>ph_stat := (ph_stat s)\<lparr>ph_used_size := ph_used_size (ph_stat s) - orig_count\<rparr>\<rparr>)
   }"

definition grow_userdata :: "shm \<Rightarrow> nat \<Rightarrow> ((addr \<times> nat \<times> nat) \<times> shm) option" where
  "grow_userdata s pages = do {
     let ask = (if pages < HEAP_GROW_PAGE_COUNT then HEAP_GROW_PAGE_COUNT else pages);
     ((a, real_bytes), s) \<leftarrow> allocate_userdata s (ask * page_size);
     if addr_ok a then Some ((a, real_bytes, ask), s)
     else if pages \<ge> ask then Some ((nulladdr, 0, ask), s)
     else do {
       let ask = pages;
       ((a, real_bytes), s) \<leftarrow> allocate_userdata s (ask * page_size);
       if addr_ok a then Some ((a, real_bytes, ask), s) else Some ((nulladdr, 0, ask), s)
     }
   }"

definition grow_heap :: "shm \<Rightarrow> nat \<Rightarrow> (bool \<times> shm) option" where
  "grow_heap s n = do {
     sk_assert (MAX_PAGES \<ge> HEAP_GROW_PAGE_COUNT);
     if \<not> n \<le> MAX_PAGE_COUNT then Some (False, s)
     else do {
       ((a, real_bytes, ask), s) \<leftarrow> grow_userdata s n;
       if \<not> addr_ok a then Some (False, s)
       else do {
         sk_assert (and real_bytes (page_size - 1) = 0);
         sk_assert (and (snd a) (page_size - 1) = 0);
         sk_assert (fst a = 2);
         let s = s\<lparr>ph_stat := (ph_stat s)
           \<lparr>ph_grow_count := ph_grow_count (ph_stat s) + 1,
            ph_total_size := ph_total_size (ph_stat s) + real_bytes div page_size\<rparr>\<rparr>;
         (sp, s) \<leftarrow> new_span s (snd a div page_size) (real_bytes div page_size);
         sk_assert (addr_ok sp);
         x \<leftarrow> as_span s sp;
         s \<leftarrow> set_span_map s (start_page x) sp;
         s \<leftarrow> (if page_count x > 1 then do { p \<leftarrow> last_page x; set_span_map s p sp } else Some s);
         s \<leftarrow> upd_span s sp (\<lambda>x. x\<lparr>in_use := True\<rparr>);
         let s = s\<lparr>ph_stat := (ph_stat s)
           \<lparr>ph_alloc_count := ph_alloc_count (ph_stat s) + 1,
            ph_used_size := ph_used_size (ph_stat s) + ask\<rparr>\<rparr>;
         s \<leftarrow> deallocate_span s sp;
         Some (True, s)
       }
     }
   }"

definition allocate_span :: "shm \<Rightarrow> nat \<Rightarrow> (addr \<times> shm) option" where
  "allocate_span s n = do {
     (a, s) \<leftarrow> search_existing s n;
     (a, s) \<leftarrow> (if \<not> addr_ok a then do {
         (grown, s) \<leftarrow> grow_heap s n;
         if grown then search_existing s n else Some (a, s)
       }
       else Some (a, s));
     if addr_ok a then
       Some (a, s\<lparr>ph_stat := (ph_stat s)
         \<lparr>ph_alloc_count := ph_alloc_count (ph_stat s) + 1,
          ph_used_size := ph_used_size (ph_stat s) + n\<rparr>\<rparr>)
     else Some (nulladdr, s)
   }"

fun register_pages :: "shm \<Rightarrow> addr \<Rightarrow> nat list \<Rightarrow> shm option" where
  "register_pages s sp [] = Some s"
| "register_pages s sp (i # is) = do {
     x \<leftarrow> as_span s sp;
     s \<leftarrow> set_span_map s (start_page x + i) sp;
     register_pages s sp is
   }"

definition register_span :: "shm \<Rightarrow> addr \<Rightarrow> shm option" where
  "register_span s sp = do {
     sk_assert (addr_ok sp);
     x \<leftarrow> as_span s sp;
     sk_assert (in_use x);
     a \<leftarrow> get_span_map s (start_page x);
     sk_assert (addr_eq a sp);
     p \<leftarrow> last_page x;
     b \<leftarrow> get_span_map s p;
     sk_assert (addr_eq b sp);
     register_pages s sp [1..<page_count x - 1]
   }"

definition find_span :: "shm \<Rightarrow> addr \<Rightarrow> addr option" where
  "find_span s a = get_span_map s (snd a div page_size)"

end
