(* ===== verification/Heap_View.thy ===== *)
theory Heap_View
  imports Page_Heap
begin

text \<open>
  The abstract state of the page heap and what its primitive steps do to it. \<open>view s C S L M\<close>
  relates a memory \<open>s\<close> to the contents \<open>C\<close> of the spans (links left out), the set \<open>S\<close> of the
  addresses that hold a span, the lists \<open>L\<close> of the sentinels and the span map \<open>M\<close>. Every
  primitive of the page heap, a list operation, a constructor, an access to the radix
  tree, is a functional update of these four; the correctness of the page heap is then
  argued about them alone.
\<close>

section \<open>The view\<close>

definition fl_head :: "nat \<Rightarrow> addr" where "fl_head i = (1, free_list_offset i)"
definition lg_head :: addr where "lg_head = (1, large_list_offset)"
definition cl_head :: "nat \<Rightarrow> addr" where "cl_head c = (1, class_list_offset c)"

definition HEADS :: "addr set" where
  "HEADS = fl_head ` {..<128} \<union> {lg_head} \<union> cl_head ` {..<87}"

lemma heads_distinct [simp]:
  "fl_head i = fl_head j \<longleftrightarrow> i = j" "cl_head i = cl_head j \<longleftrightarrow> i = j"
  "i < 128 \<Longrightarrow> fl_head i \<noteq> lg_head" "i < 128 \<Longrightarrow> lg_head \<noteq> fl_head i"
  "i < 128 \<Longrightarrow> fl_head i \<noteq> cl_head c" "i < 128 \<Longrightarrow> cl_head c \<noteq> fl_head i"
  "lg_head \<noteq> cl_head c" "cl_head c \<noteq> lg_head"
  by (auto simp: fl_head_def lg_head_def cl_head_def layout_defs)

lemma heads_in [simp]:
  "i < 128 \<Longrightarrow> fl_head i \<in> HEADS" "lg_head \<in> HEADS" "c < 87 \<Longrightarrow> cl_head c \<in> HEADS"
  by (auto simp: HEADS_def)

lemma heads_offset: "h \<in> HEADS \<Longrightarrow> fst h = 1 \<and> snd h < 32768"
  by (auto simp: HEADS_def fl_head_def lg_head_def cl_head_def layout_defs)

definition view :: "shm \<Rightarrow> (addr \<Rightarrow> span) \<Rightarrow> addr set \<Rightarrow> (addr \<Rightarrow> addr list) \<Rightarrow> (nat \<Rightarrow> addr) \<Rightarrow> bool" where
  "view s C S L M \<longleftrightarrow> mem_ok s \<and> radix_ok s \<and> (\<exists>fs. ma_ok s fs) \<and>
     (\<forall>a. span_core (spn s a) = C a) \<and> (\<forall>a. is_span s a \<longleftrightarrow> a \<in> S) \<and> smap s = M \<and>
     rings (span_nx s) (span_pv s) nulladdr HEADS L \<and> HEADS \<subseteq> S \<and> (\<forall>h \<in> HEADS. set (L h) \<subseteq> S)"

lemma viewD:
  assumes "view s C S L M"
  shows "mem_ok s" "radix_ok s" "\<exists>fs. ma_ok s fs" "span_core (spn s a) = C a" "is_span s a \<longleftrightarrow> a \<in> S"
    "smap s = M" "rings (span_nx s) (span_pv s) nulladdr HEADS L" "HEADS \<subseteq> S" "h \<in> HEADS \<Longrightarrow> set (L h) \<subseteq> S"
  using assms unfolding view_def by blast+

lemma span_core_sel [simp]:
  "in_use (span_core x) = in_use x" "size_class (span_core x) = size_class x"
  "used_count (span_core x) = used_count x" "start_page (span_core x) = start_page x"
  "page_count (span_core x) = page_count x" "chunk_list (span_core x) = chunk_list x"
  by (simp_all add: span_core_def)

lemma view_fields:
  assumes "view s C S L M" and "a \<in> S"
  shows "as_span s a = Some (spn s a)" "in_use (spn s a) = in_use (C a)"
    "size_class (spn s a) = size_class (C a)" "used_count (spn s a) = used_count (C a)"
    "start_page (spn s a) = start_page (C a)" "page_count (spn s a) = page_count (C a)"
    "chunk_list (spn s a) = chunk_list (C a)"
proof -
  have "C a = span_core (spn s a)" and "is_span s a" using viewD(4,5) [OF assms(1), of a] assms(2) by simp_all
  then show "as_span s a = Some (spn s a)" "in_use (spn s a) = in_use (C a)"
    "size_class (spn s a) = size_class (C a)" "used_count (spn s a) = used_count (C a)"
    "start_page (spn s a) = start_page (C a)" "page_count (spn s a) = page_count (C a)"
    "chunk_list (spn s a) = chunk_list (C a)"
    by simp_all
qed

text \<open>The view does not depend on the statistics, the class caches or the user memory.\<close>

lemma view_cong:
  assumes "os s' = os s" "default_mmap_size s' = default_mmap_size s" "meta s' = meta s" "lv0 s' = lv0 s"
    "span_free_list s' = span_free_list s" "blocks s' 0 = blocks s 0" "block_ok (blocks s' 1)"
  shows "view s C S L M \<Longrightarrow> view s' C S L M"
proof -
  have l: "lv1_of s' = lv1_of s" "lv2_of s' = lv2_of s"
    by (intro ext; simp add: lv1_of_def lv2_of_def assms cong: if_cong)+
  have e: "spn s' = spn s" "is_span s' = is_span s" "smap s' = smap s" "node1 s' = node1 s" "node2 s' = node2 s"
    by (intro ext; simp add: spn_def is_span_def smap_def l node1_def node2_def assms cong: if_cong)+
  have "ma_ok s' = ma_ok s" by (intro ext) (simp add: ma_ok_def assms)
  moreover have "radix_ok s' = radix_ok s" by (simp only: radix_ok_def e assms(4))
  moreover have "mem_ok s \<Longrightarrow> mem_ok s'" using assms by (simp add: mem_ok_def default_ok_def)
  ultimately show "view s C S L M \<Longrightarrow> view s' C S L M" unfolding view_def e by metis
qed

section \<open>Primitive steps\<close>

text \<open>Nodes of the radix tree are neither read nor written by a step on span and link cells.\<close>

lemma radix_cong:
  assumes m: "mem_ok s" and l: "lv0 s' = lv0 s" and u: "used0 s \<le> used0 s'"
    and n1: "\<And>p f. meta s' p = Node1 f \<longleftrightarrow> meta s p = Node1 f" and n2: "\<And>p f. meta s' p = Node2 f \<longleftrightarrow> meta s p = Node2 f"
  shows "radix_ok s \<Longrightarrow> radix_ok s'" and "smap s' = smap s"
proof -
  have a: "node1 s' a f \<longleftrightarrow> node1 s a f" for a f
    using n1 [of "snd a" f] u mem_below [OF m, of "snd a"] by (auto simp: node1_def)
  have b: "node2 s' a f \<longleftrightarrow> node2 s a f" for a f
    using n2 [of "snd a" f] u mem_below [OF m, of "snd a"] by (auto simp: node2_def)
  show "radix_ok s \<Longrightarrow> radix_ok s'" unfolding radix_ok_def a b l .
  have "(case meta s' p of Node1 f \<Rightarrow> f | _ \<Rightarrow> (\<lambda>_. nulladdr)) = (case meta s p of Node1 f \<Rightarrow> f | _ \<Rightarrow> (\<lambda>_. nulladdr))" for p
    using n1 [of p] by (cases "meta s p"; cases "meta s' p") auto
  moreover have "(case meta s' p of Node2 f \<Rightarrow> f | _ \<Rightarrow> (\<lambda>_. nulladdr)) = (case meta s p of Node2 f \<Rightarrow> f | _ \<Rightarrow> (\<lambda>_. nulladdr))" for p
    using n2 [of p] by (cases "meta s p"; cases "meta s' p") auto
  ultimately have "lv1_of s' = lv1_of s" "lv2_of s' = lv2_of s"
    by (intro ext; simp add: lv1_of_def lv2_of_def l cong: if_cong)+
  then show "smap s' = smap s" by (intro ext) (simp add: smap_def)
qed

lemma is_span_mem: "mem_ok s \<Longrightarrow> is_span s a \<longleftrightarrow> fst a = 1 \<and> (\<exists>x. meta s (snd a) = SpanCell x)"
  using mem_below [of s "snd a"] by (auto simp: is_span_def mem_ok_def)

lemma view_upd:
  assumes v: "view s C S L M" and a: "a \<in> S" and f: "\<And>x. span_core (f x) = f (span_core x)"
    and n: "\<And>x. next_span (f x) = next_span x" "\<And>x. prev_span (f x) = prev_span x"
  shows "\<exists>s'. upd_span s a f = Some s' \<and> view s' (C(a := f (C a))) S L M \<and> s' = s\<lparr>meta := meta s'\<rparr>"
proof -
  have sp: "is_span s a" using viewD(5) [OF v] a by simp
  let ?s = "put_span s a (f (spn s a))"
  have e: "spn ?s = (spn s)(a := f (spn s a))" using sp by (auto simp: spn_put fun_eq_iff)
  have m: "mem_ok ?s" using viewD(1) [OF v] sp mem_ok_put by (auto simp: put_span_def is_span_def)
  obtain x where x: "meta s (snd a) = SpanCell x" using sp by (auto simp: is_span_def)
  have r: "radix_ok ?s" "smap ?s = smap s"
    using radix_cong [OF viewD(1) [OF v], of ?s] viewD(2) [OF v] x by (auto simp: put_span_def)
  obtain fs where fs: "ma_ok s fs" using viewD(3) [OF v] by blast
  have "linked (meta ?s) (span_free_list s) fs"
    by (rule linked_mono [of "meta s"]) (use fs x in \<open>auto simp: ma_ok_def put_span_def\<close>)
  then have "ma_ok ?s fs" using fs by (simp add: ma_ok_def)
  moreover have "span_nx ?s = span_nx s" "span_pv ?s = span_pv s" using n e by (auto simp: fun_eq_iff)
  moreover have "span_core (spn ?s b) = (C(a := f (C a))) b" for b using e f viewD(4) [OF v] by simp
  ultimately have "view ?s (C(a := f (C a))) S L M"
    using v m r sp unfolding view_def by auto
  moreover have "?s = s\<lparr>meta := meta ?s\<rparr>" by (simp add: put_span_def)
  ultimately show ?thesis using sp by simp
qed

lemma view_links:
  assumes v: "view s C S L M" and s': "span_relinked s s'"
    and R: "rings (span_nx s') (span_pv s') nulladdr HEADS L'" and L': "\<And>h. h \<in> HEADS \<Longrightarrow> set (L' h) \<subseteq> S"
  shows "view s' C S L' M" and "mframe s s'" and "used0 s' = used0 s"
proof -
  have e: "s' = s\<lparr>meta := meta s'\<rparr>" "is_span s' = is_span s" "\<And>a. span_core (spn s' a) = span_core (spn s a)"
     "\<And>p. (\<forall>x. meta s p \<noteq> SpanCell x) \<Longrightarrow> meta s' p = meta s p"
    using s' unfolding span_relinked_def by auto
  have f: "blocks s' = blocks s" "lv0 s' = lv0 s" "span_free_list s' = span_free_list s" "os s' = os s"
    "default_mmap_size s' = default_mmap_size s" "user s' = user s" "sizes s' = sizes s" "ph_stat s' = ph_stat s"
    "caches s' = caches s" "cc_stat s' = cc_stat s" "serial_no s' = serial_no s" "singletons s' = singletons s"
    by (subst e(1); simp)+
  have iff: "(\<exists>x. meta s' p = SpanCell x) \<longleftrightarrow> (\<exists>x. meta s p = SpanCell x)" for p
  proof (cases "\<exists>x. meta s p = SpanCell x")
    case True
    then have "is_span s (1, p)" using viewD(1) [OF v] by (simp add: is_span_mem)
    then have "is_span s' (1, p)" using e(2) by simp
    then show ?thesis using True by (simp add: is_span_def)
  qed (use e(4) in auto)
  have m: "mem_ok s'"
    using viewD(1) [OF v] e(4) unfolding mem_ok_def default_ok_def f by (metis cell.distinct(1))
  have n: "meta s' p = c \<longleftrightarrow> meta s p = c" if "\<And>x. c \<noteq> SpanCell x" for p c
    using iff [of p] e(4) [of p] that by metis
  have r: "radix_ok s'" "smap s' = smap s"
    using radix_cong [OF viewD(1) [OF v], of s'] viewD(2) [OF v] f n by auto
  obtain fs where fs: "ma_ok s fs" using viewD(3) [OF v] by blast
  have "linked (meta s') (span_free_list s) fs"
    by (rule linked_mono [of "meta s"]) (use fs n in \<open>auto simp: ma_ok_def\<close>)
  then have "ma_ok s' fs" using fs f by (simp add: ma_ok_def)
  then show "view s' C S L' M"
    using v m r R L' e(2,3) unfolding view_def by auto
  show "mframe s s'" and "used0 s' = used0 s" by (simp_all add: mframe_def f)
qed

lemma view_remove:
  assumes v: "view s C S L M" and h: "h \<in> HEADS" and x: "x \<in> set (L h)"
  shows "\<exists>s'. span_list_remove s x = Some s' \<and> view s' C S (L(h := remove1 x (L h))) M \<and>
    mframe s s' \<and> used0 s' = used0 s"
proof -
  have "\<forall>y \<in> insert h (set (L h)). is_span s y" using viewD(5,8,9) [OF v] h by blast
  then obtain s' where s': "span_list_remove s x = Some s'" "span_relinked s s'"
      "rings (span_nx s') (span_pv s') nulladdr HEADS (L(h := remove1 x (L h)))"
    using span_lists.remove_rings [OF viewD(7) [OF v] h x] by blast
  have "set ((L(h := remove1 x (L h))) k) \<subseteq> S" if "k \<in> HEADS" for k
    using viewD(9) [OF v that] set_remove1_subset [of x "L h"] by auto
  with view_links [OF v s'(2,3)] s'(1) show ?thesis by blast
qed

lemma view_prepend:
  assumes v: "view s C S L M" and h: "h \<in> HEADS" and x: "x \<in> S" "x \<notin> HEADS" "\<And>g. g \<in> HEADS \<Longrightarrow> x \<notin> set (L g)"
  shows "\<exists>s'. span_list_prepend s h x = Some s' \<and> view s' C S (L(h := x # L h)) M \<and>
    mframe s s' \<and> used0 s' = used0 s"
proof -
  have "\<forall>y \<in> insert h (set (L h)). is_span s y" "is_span s x" using viewD(5,8,9) [OF v] h x(1) by blast+
  then obtain s' where s': "span_list_prepend s h x = Some s'" "span_relinked s s'"
      "rings (span_nx s') (span_pv s') nulladdr HEADS (L(h := x # L h))"
    using span_lists.prepend_rings [OF viewD(7) [OF v] h x(2,3)] by blast
  have "set ((L(h := x # L h)) k) \<subseteq> S" if "k \<in> HEADS" for k
    using viewD(9) [OF v that] viewD(9) [OF v h] x(1) by auto
  with view_links [OF v s'(2,3)] s'(1) show ?thesis by blast
qed

lemma span_case_cong:
  "(\<And>x. c = SpanCell x \<longleftrightarrow> d = SpanCell x) \<Longrightarrow>
     (case c of SpanCell x \<Rightarrow> x | _ \<Rightarrow> y) = (case d of SpanCell x \<Rightarrow> x | _ \<Rightarrow> y)"
  by (cases c; cases d) auto

lemma view_set:
  assumes v: "view s C S L M" and p: "p < 2 ^ 35" and g: "grants s 0 (K + 270336)"
  shows "\<exists>s'. set_span_map s p a = Some s' \<and> view s' C S L (M(p := a)) \<and> mframe s s' \<and> grants s' 0 K"
proof -
  have "grants s 0 270336" using grants_mono [OF g] by simp
  then obtain s' where s': "radix_set s p a = Some s'" "mem_ok s'" "radix_ok s'" "rframe s s'"
      "smap s' = (smap s)(p := a)" "used0 s' \<le> used0 s + 270336"
    using radix_set_ok [OF viewD(1,2) [OF v] _ p] by blast
  have c: "meta s' q = SpanCell x \<longleftrightarrow> meta s q = SpanCell x" "meta s' q = Link y \<longleftrightarrow> meta s q = Link y" for q x y
    using s'(4) unfolding rframe_def by blast+
  have "(case meta s' q of SpanCell x \<Rightarrow> x | _ \<Rightarrow> span_default) = (case meta s q of SpanCell x \<Rightarrow> x | _ \<Rightarrow> span_default)" for q
    by (rule span_case_cong) (use c in auto)
  then have sp: "spn s' = spn s" by (intro ext) (simp add: spn_def)
  have iss: "is_span s' a = is_span s a" for a
    using is_span_mem [OF s'(2)] is_span_mem [OF viewD(1) [OF v]] c by simp
  obtain fs where fs: "ma_ok s fs" using viewD(3) [OF v] by blast
  have "linked (meta s') (span_free_list s) fs"
    by (rule linked_mono [of "meta s"]) (use fs c in \<open>auto simp: ma_ok_def\<close>)
  then have "ma_ok s' fs" using fs s'(4) by (simp add: ma_ok_def rframe_def)
  then have "view s' C S L (M(p := a))"
    using v s'(2,3,5) sp iss unfolding view_def by auto
  moreover have "mframe s s'" using s'(4) by (simp add: rframe_def)
  moreover have "grants s' 0 K" using grants_mframe [OF \<open>mframe s s'\<close> s'(6) g] .
  moreover have "set_span_map s p a = Some s'" using s'(1) p by (simp add: set_span_map_def MAX_PAGE_COUNT_def)
  ultimately show ?thesis by blast
qed

lemma view_get:
  assumes v: "view s C S L M" and p: "p < 2 ^ 35"
  shows "get_span_map s p = Some (M p)"
  using radix_get_eq [OF viewD(1,2) [OF v] p] viewD(6) [OF v] p
  by (auto simp: get_span_map_def MAX_PAGE_COUNT_def)

lemma view_head:
  assumes v: "view s C S L M" and h: "(1, p) \<in> HEADS"
  shows "span_addr s p = Some (1, p)"
proof -
  have "is_span s (1, p)" using viewD(5,8) [OF v] h by auto
  then have "p < used0 s" by (simp add: is_span_def)
  then have "ptr2addr s (block_addr (blocks s 0) + p) = Some (1, p)"
    using viewD(1) [OF v] ptr2addr_meta [of s p] by (simp add: mem_ok_def)
  then show ?thesis by (simp add: span_addr_def)
qed

text \<open>A step that turns one free cell into a span, or a span into a free cell.\<close>

lemma rings_fresh:
  assumes "rings nx pv nl H L" and "x \<notin> H" and "\<And>h. h \<in> H \<Longrightarrow> x \<notin> set (L h)" and "nx' x = nl" "pv' x = nl"
    and "\<And>y. y \<noteq> x \<Longrightarrow> nx' y = nx y \<and> pv' y = pv y"
  shows "rings nx' pv' nl H L"
proof -
  have "nx x = nl \<and> pv x = nl" using rings_unlinked [OF assms(1-3)] by blast
  then have "nx' = nx" "pv' = pv" using assms(4-6) by (metis ext)+
  then show ?thesis using assms(1) by simp
qed

lemma view_new:
  assumes v: "view s C S L M" and g: "grants s 0 (K + 131072)"
  shows "\<exists>a s'. new_span s st ct = Some (a, s') \<and> a \<notin> S \<and> addr_ok a \<and>
    view s' (C(a := span_make st ct)) (insert a S) L M \<and> mframe s s' \<and> grants s' 0 K"
proof -
  note m = viewD(1) [OF v]
  obtain fs where "ma_ok s fs" using viewD(3) [OF v] by blast
  moreover have "grants s 0 131072" using grants_mono [OF g] by simp
  ultimately obtain a s1 gs where s1: "ma_allocate s = Some (a, s1)" "mem_ok s1" "mframe s s1" "lv0 s1 = lv0 s"
      "used0 s1 \<le> used0 s + 131072" "ma_ok s1 gs" "fst a = 1" "\<exists>y. meta s1 (snd a) = Link y" "a \<notin> set gs"
      "\<And>p. meta s1 p = meta s p \<or> meta s p = Raw \<and> (\<exists>y. meta s1 p = Link y)"
    using ma_allocate_ok [OF m] by blast
  let ?s = "s1\<lparr>meta := (meta s1)(snd a := SpanCell (span_make st ct))\<rparr>"
  have pa: "snd a < used0 s1" using mem_below [OF s1(2)] s1(8) by auto
  have "new_span s st ct = Some (a, ?s)"
    using s1(1,7) put_meta_eq [OF s1(2,7) pa] by (simp add: new_span_def addr_ok_def)
  moreover have m': "mem_ok ?s" using mem_ok_put [OF s1(2) pa] .
  have noS: "meta s (snd a) \<noteq> SpanCell x" for x using s1(8) s1(10) [of "snd a"] by auto
  have noN: "meta s (snd a) \<noteq> Node1 f" "meta s (snd a) \<noteq> Node2 f" for f using s1(8) s1(10) [of "snd a"] by auto
  have aS: "a \<notin> S" using viewD(5) [OF v, of a] noS is_span_mem [OF m, of a] by auto
  have other: "meta ?s p = SpanCell x \<longleftrightarrow> meta s p = SpanCell x" if "p \<noteq> snd a" for p x
    using s1(10) [of p] that by auto
  have "(case meta ?s p of SpanCell x \<Rightarrow> x | _ \<Rightarrow> span_default) = (case meta s p of SpanCell x \<Rightarrow> x | _ \<Rightarrow> span_default)" if "p \<noteq> snd a" for p
    by (rule span_case_cong) (rule other [OF that])
  then have sp: "spn ?s b = (if b = a then span_make st ct else spn s b)" for b
    using s1(7) by (cases b; cases a) (auto simp: spn_def)
  have iss: "is_span ?s b \<longleftrightarrow> b = a \<or> is_span s b" for b
    using is_span_mem [OF m', of b] is_span_mem [OF m, of b] other [of "snd b"] noS s1(7)
    by (cases b; cases a; cases "snd b = snd a") auto
  have nd: "meta ?s p = Node1 f \<longleftrightarrow> meta s p = Node1 f" "meta ?s p = Node2 f \<longleftrightarrow> meta s p = Node2 f" for p f
    using s1(10) [of p] noN by (cases "p = snd a"; auto)+
  have r: "radix_ok ?s" "smap ?s = smap s"
    using radix_cong [OF m, of ?s] viewD(2) [OF v] s1(3,4) nd by (auto simp: mframe_def)
  have "linked (meta ?s) (span_free_list s1) gs"
  proof (rule linked_mono [of "meta s1"])
    show l: "linked (meta s1) (span_free_list s1) gs" using s1(6) by (simp add: ma_ok_def)
    fix x y assume x: "x \<in> set gs" "meta s1 (snd x) = Link y"
    then have "snd x \<noteq> snd a" using linked_cell [OF l x(1)] s1(7,9) by (metis prod_eqI)
    with x show "meta ?s (snd x) = Link y" by simp
  qed
  then have "ma_ok ?s gs" using s1(6) by (simp add: ma_ok_def)
  moreover have "rings (span_nx ?s) (span_pv ?s) nulladdr HEADS L"
    by (rule rings_fresh [OF viewD(7) [OF v], of a])
      (use aS viewD(8,9) [OF v] sp in \<open>auto simp: span_make_def span_default_def\<close>)
  moreover have "span_core (span_make st ct) = span_make st ct"
    by (simp add: span_core_def span_make_def span_default_def)
  ultimately have "view ?s (C(a := span_make st ct)) (insert a S) L M"
    using v m' r unfolding view_def by (auto simp: sp iss)
  moreover have "mframe s ?s" using s1(3) by (simp add: mframe_def)
  moreover have "grants ?s 0 K" using grants_mframe [OF \<open>mframe s ?s\<close> _ g] s1(5) by simp
  ultimately show ?thesis using aS s1(7) \<open>new_span s st ct = Some (a, ?s)\<close> by (auto simp: addr_ok_def)
qed

lemma view_del:
  assumes v: "view s C S L M" and a: "a \<in> S" "a \<notin> HEADS" "\<And>h. h \<in> HEADS \<Longrightarrow> a \<notin> set (L h)"
  shows "\<exists>s'. del_span s a = Some s' \<and> view s' (C(a := span_default)) (S - {a}) L M \<and>
    mframe s s' \<and> used0 s' = used0 s"
proof -
  note m = viewD(1) [OF v]
  have ia: "is_span s a" using viewD(5) [OF v] a by simp
  have f1: "fst a = 1" "snd a < used0 s" using ia by (auto simp: is_span_def)
  obtain x where x: "meta s (snd a) = SpanCell x" using ia by (auto simp: is_span_def)
  let ?s = "s\<lparr>meta := (meta s)(snd a := Link (span_free_list s)), span_free_list := a,
       ma_stat := (ma_stat s)\<lparr>ma_free_count := ma_free_count (ma_stat s) + 1\<rparr>\<rparr>"
  have "del_span s a = Some ?s"
    using ia put_meta_eq [OF m f1] by (simp add: del_span_def ma_deallocate_def)
  moreover have m': "mem_ok ?s" using mem_ok_put [OF m f1(2)] by (simp add: mem_ok_def default_ok_def)
  moreover have sp: "spn ?s b = (if b = a then span_default else spn s b)" for b
    using f1 by (cases b; cases a) (auto simp: spn_def)
  moreover have iss: "is_span ?s b \<longleftrightarrow> b \<noteq> a \<and> is_span s b" for b
    using is_span_mem [OF m', of b] is_span_mem [OF m, of b] f1 by (cases b; cases a) auto
  moreover have r: "radix_ok ?s" "smap ?s = smap s"
    using radix_cong [OF m, of ?s] viewD(2) [OF v] x by auto
  obtain fs where fs: "ma_ok s fs" using viewD(3) [OF v] by blast
  then have l: "linked (meta s) (span_free_list s) fs" by (simp add: ma_ok_def)
  have nin: "\<forall>y \<in> set fs. snd y \<noteq> snd a" using linked_cell [OF l] x by fastforce
  have "linked (meta ?s) (span_free_list s) fs"
    by (rule linked_mono [OF l]) (use nin in auto)
  then have "ma_ok ?s (a # fs)" using fs f1 nin by (auto simp: ma_ok_def)
  moreover have "rings (span_nx ?s) (span_pv ?s) nulladdr HEADS L"
    by (rule rings_fresh [OF viewD(7) [OF v] a(2,3)]) (use sp in \<open>auto simp: span_default_def\<close>)
  moreover have "span_core span_default = span_default" by (simp add: span_core_def span_default_def)
  moreover have "HEADS \<subseteq> S - {a}" "\<And>h. h \<in> HEADS \<Longrightarrow> set (L h) \<subseteq> S - {a}" using viewD(8,9) [OF v] a by auto
  ultimately have "view ?s (C(a := span_default)) (S - {a}) L M"
    using v r unfolding view_def by (auto simp: sp iss)
  moreover have "mframe s ?s" by (simp add: mframe_def)
  ultimately show ?thesis using \<open>del_span s a = Some ?s\<close> by auto
qed

end
