(* ===== verification/Tiling.thy ===== *)
theory Tiling
  imports Main
begin

text \<open>
  Sets of half-open intervals that tile \<open>{0..<T}\<close>, and the four changes the page heap makes to
  such a set: merging with the left or right neighbour, splitting, and growing at the end.
\<close>

definition tiling :: "('a \<Rightarrow> nat) \<Rightarrow> ('a \<Rightarrow> nat) \<Rightarrow> 'a set \<Rightarrow> nat \<Rightarrow> bool" where
  "tiling lo hi A T \<longleftrightarrow> (\<forall>a \<in> A. lo a < hi a \<and> hi a \<le> T) \<and>
     (\<forall>a \<in> A. \<forall>b \<in> A. a \<noteq> b \<longrightarrow> hi a \<le> lo b \<or> hi b \<le> lo a) \<and>
     (\<forall>p < T. \<exists>a \<in> A. lo a \<le> p \<and> p < hi a)"

lemma tilingI:
  assumes "\<And>a. a \<in> A \<Longrightarrow> lo a < hi a \<and> hi a \<le> T"
    and "\<And>a b. a \<in> A \<Longrightarrow> b \<in> A \<Longrightarrow> a \<noteq> b \<Longrightarrow> hi a \<le> lo b \<or> hi b \<le> lo a"
    and "\<And>p. p < T \<Longrightarrow> \<exists>a \<in> A. lo a \<le> p \<and> p < hi a"
  shows "tiling lo hi A T"
  using assms by (simp add: tiling_def)

lemma tilingD:
  assumes "tiling lo hi A T"
  shows "a \<in> A \<Longrightarrow> lo a < hi a" "a \<in> A \<Longrightarrow> hi a \<le> T"
    "a \<in> A \<Longrightarrow> b \<in> A \<Longrightarrow> a \<noteq> b \<Longrightarrow> hi a \<le> lo b \<or> hi b \<le> lo a"
    "p < T \<Longrightarrow> \<exists>a \<in> A. lo a \<le> p \<and> p < hi a"
  using assms by (auto simp: tiling_def)

lemma tiling_cong:
  assumes "tiling lo hi A T" and "\<And>a. a \<in> A \<Longrightarrow> lo' a = lo a \<and> hi' a = hi a"
  shows "tiling lo' hi' A T"
  using assms by (auto simp: tiling_def)

lemma tiling_owner:
  assumes "tiling lo hi A T" and "a \<in> A" "b \<in> A" and "lo a \<le> p" "p < hi a" "lo b \<le> p" "p < hi b"
  shows "a = b"
  using tilingD(3) [OF assms(1-3)] assms(4-) by force

lemma tiling_prev:
  assumes t: "tiling lo hi A T" and q: "q \<in> A" and pos: "0 < lo q"
  shows "\<exists>p \<in> A. p \<noteq> q \<and> hi p = lo q"
proof -
  have "lo q - 1 < T" using tilingD(1,2) [OF t q] by linarith
  then obtain p where p: "p \<in> A" "lo p \<le> lo q - 1" "lo q - 1 < hi p" using tilingD(4) [OF t] by blast
  then have "p \<noteq> q" using pos by auto
  moreover have "hi p = lo q" using tilingD(3) [OF t p(1) q \<open>p \<noteq> q\<close>] p tilingD(1) [OF t q] by linarith
  ultimately show ?thesis using p by blast
qed

lemma tiling_next:
  assumes t: "tiling lo hi A T" and q: "q \<in> A" and pos: "hi q < T"
  shows "\<exists>n \<in> A. n \<noteq> q \<and> lo n = hi q"
proof -
  obtain n where n: "n \<in> A" "lo n \<le> hi q" "hi q < hi n" using tilingD(4) [OF t pos] by blast
  then have "n \<noteq> q" by auto
  moreover have "lo n = hi q" using tilingD(3) [OF t n(1) q \<open>n \<noteq> q\<close>] n tilingD(1) [OF t q] by linarith
  ultimately show ?thesis using n by blast
qed

lemma tiling_merge_prev:
  assumes t: "tiling lo hi A T" and p: "p \<in> A" and q: "q \<in> A" and pq: "p \<noteq> q" and adj: "hi p = lo q"
  shows "tiling (lo(q := lo p)) hi (A - {p}) T"
proof (rule tilingI)
  fix a assume "a \<in> A - {p}"
  then show "(lo(q := lo p)) a < hi a \<and> hi a \<le> T"
    using tilingD(1,2) [OF t, of a] tilingD(1) [OF t p] tilingD(1) [OF t q] adj by auto
next
  fix a b assume a: "a \<in> A - {p}" and b: "b \<in> A - {p}" and "a \<noteq> b"
  then show "hi a \<le> (lo(q := lo p)) b \<or> hi b \<le> (lo(q := lo p)) a"
    using tilingD(3) [OF t, of a b] tilingD(3) [OF t, of a p] tilingD(3) [OF t, of b p] p
      tilingD(1) [OF t, of a] tilingD(1) [OF t, of b] tilingD(1) [OF t p] tilingD(1) [OF t q] adj
    by (cases "a = q"; cases "b = q"; simp; linarith)
next
  fix x assume "x < T"
  then obtain a where a: "a \<in> A" "lo a \<le> x" "x < hi a" using tilingD(4) [OF t] by blast
  show "\<exists>a \<in> A - {p}. (lo(q := lo p)) a \<le> x \<and> x < hi a"
  proof (cases "a = p")
    case True
    then show ?thesis using a q pq adj tilingD(1) [OF t q] by (intro bexI [of _ q]) auto
  next
    case False
    then show ?thesis using a tilingD(1) [OF t p] adj by (intro bexI [of _ a]) auto
  qed
qed

lemma tiling_merge_next:
  assumes t: "tiling lo hi A T" and n: "n \<in> A" and q: "q \<in> A" and nq: "n \<noteq> q" and adj: "hi q = lo n"
  shows "tiling lo (hi(q := hi n)) (A - {n}) T"
proof (rule tilingI)
  fix a assume "a \<in> A - {n}"
  then show "lo a < (hi(q := hi n)) a \<and> (hi(q := hi n)) a \<le> T"
    using tilingD(1,2) [OF t, of a] tilingD(1,2) [OF t n] tilingD(1) [OF t q] adj by auto
next
  fix a b assume a: "a \<in> A - {n}" and b: "b \<in> A - {n}" and "a \<noteq> b"
  then show "(hi(q := hi n)) a \<le> lo b \<or> (hi(q := hi n)) b \<le> lo a"
    using tilingD(3) [OF t, of a b] tilingD(3) [OF t, of a n] tilingD(3) [OF t, of b n] n
      tilingD(1) [OF t, of a] tilingD(1) [OF t, of b] tilingD(1) [OF t n] tilingD(1) [OF t q] adj
    by (cases "a = q"; cases "b = q"; simp; linarith)
next
  fix x assume "x < T"
  then obtain a where a: "a \<in> A" "lo a \<le> x" "x < hi a" using tilingD(4) [OF t] by blast
  show "\<exists>a \<in> A - {n}. lo a \<le> x \<and> x < (hi(q := hi n)) a"
  proof (cases "a = n")
    case True
    then show ?thesis using a q nq adj tilingD(1) [OF t q] by (intro bexI [of _ q]) auto
  next
    case False
    then show ?thesis using a tilingD(1) [OF t n] adj by (intro bexI [of _ a]) auto
  qed
qed

lemma tiling_split:
  assumes t: "tiling lo hi A T" and q: "q \<in> A" and l: "l \<notin> A" and m: "lo q < m" "m < hi q"
  shows "tiling (lo(l := m)) (hi(l := hi q, q := m)) (insert l A) T"
proof (rule tilingI)
  have lq: "l \<noteq> q" using q l by auto
  fix a assume "a \<in> insert l A"
  then show "(lo(l := m)) a < (hi(l := hi q, q := m)) a \<and> (hi(l := hi q, q := m)) a \<le> T"
    using tilingD(1,2) [OF t, of a] tilingD(2) [OF t q] m lq by auto
next
  have lq: "l \<noteq> q" using q l by auto
  fix a b assume "a \<in> insert l A" "b \<in> insert l A" "a \<noteq> b"
  then show "(hi(l := hi q, q := m)) a \<le> (lo(l := m)) b \<or> (hi(l := hi q, q := m)) b \<le> (lo(l := m)) a"
    using tilingD(3) [OF t, of a b] tilingD(3) [OF t, of a q] tilingD(3) [OF t, of b q] q m lq
    by (cases "a = q"; cases "b = q"; cases "a = l"; cases "b = l"; simp; linarith?)
next
  have lq: "l \<noteq> q" using q l by auto
  fix x assume "x < T"
  then obtain a where a: "a \<in> A" "lo a \<le> x" "x < hi a" using tilingD(4) [OF t] by blast
  show "\<exists>a \<in> insert l A. (lo(l := m)) a \<le> x \<and> x < (hi(l := hi q, q := m)) a"
  proof (cases "a = q \<and> m \<le> x")
    case True
    then show ?thesis using a lq by (intro bexI [of _ l]) auto
  next
    case False
    then have "x < (hi(l := hi q, q := m)) a" using a l by (cases "a = q") auto
    with a l show ?thesis by (intro bexI [of _ a]) auto
  qed
qed

lemma tiling_grow:
  assumes t: "tiling lo hi A T" and l: "l \<notin> A" and T': "T < T'"
  shows "tiling (lo(l := T)) (hi(l := T')) (insert l A) T'"
proof (rule tilingI)
  fix a assume "a \<in> insert l A"
  then show "(lo(l := T)) a < (hi(l := T')) a \<and> (hi(l := T')) a \<le> T'"
    using tilingD(1,2) [OF t, of a] T' by auto
next
  fix a b assume "a \<in> insert l A" "b \<in> insert l A" "a \<noteq> b"
  then show "(hi(l := T')) a \<le> (lo(l := T)) b \<or> (hi(l := T')) b \<le> (lo(l := T)) a"
    using tilingD(3) [OF t, of a b] tilingD(2) [OF t, of a] tilingD(2) [OF t, of b] l by auto
next
  fix x assume x: "x < T'"
  show "\<exists>a \<in> insert l A. (lo(l := T)) a \<le> x \<and> x < (hi(l := T')) a"
  proof (cases "x < T")
    case True
    then obtain a where "a \<in> A" "lo a \<le> x" "x < hi a" using tilingD(4) [OF t] by blast
    then show ?thesis using l by (intro bexI [of _ a]) auto
  next
    case False
    then show ?thesis using x by (intro bexI [of _ l]) auto
  qed
qed

end
