(* ===== verification/Page_Heap_Correct.thy ===== *)
theory Page_Heap_Correct
  imports Heap_View Tiling
begin

text \<open>
  The invariant of the page heap and that its operations keep it: the spans tile the pages
  of the userdata block, every span is found in the span map at its first and last page,
  the free spans are exactly the members of the free lists, each in the list of its length,
  and no two neighbours are free.
\<close>

section \<open>The invariant\<close>

abbreviation lo :: "(addr \<Rightarrow> span) \<Rightarrow> addr \<Rightarrow> nat" where "lo C a \<equiv> start_page (C a)"
abbreviation hi :: "(addr \<Rightarrow> span) \<Rightarrow> addr \<Rightarrow> nat" where "hi C a \<equiv> start_page (C a) + page_count (C a)"

definition pages :: "shm \<Rightarrow> nat" where "pages s = used_size (blocks s 1) div 8192"

definition head_of :: "nat \<Rightarrow> addr" where "head_of n = (if n < 128 then fl_head n else lg_head)"

definition lists_ok :: "(addr \<Rightarrow> span) \<Rightarrow> addr set \<Rightarrow> (addr \<Rightarrow> addr list) \<Rightarrow> bool" where
  "lists_ok C B L \<longleftrightarrow>
     (\<forall>n. set (L (head_of n)) = {a \<in> B. \<not> in_use (C a) \<and> head_of (page_count (C a)) = head_of n}) \<and>
     (\<forall>c < 87. set (L (cl_head c)) \<subseteq> {a \<in> B. in_use (C a)})"

text \<open>
  \<open>A\<close> is the set of all spans of the heap. The members of \<open>X\<close> are in transition: they take part
  in the tiling, but are in no list and need not be in the span map.
\<close>

definition heap_inv ::
    "shm \<Rightarrow> (addr \<Rightarrow> span) \<Rightarrow> addr set \<Rightarrow> (addr \<Rightarrow> addr list) \<Rightarrow> (nat \<Rightarrow> addr) \<Rightarrow> addr set \<Rightarrow> addr set \<Rightarrow> bool" where
  "heap_inv s C S L M A X \<longleftrightarrow> view s C S L M \<and> A \<subseteq> S - HEADS \<and> finite A \<and>
     tiling (lo C) (hi C) A (pages s) \<and> lists_ok C (A - X) L \<and>
     (\<forall>a \<in> A - X. M (lo C a) = a \<and> M (hi C a - 1) = a) \<and> (\<forall>p \<ge> pages s. M p = nulladdr) \<and>
     (\<forall>a \<in> A - X. \<forall>b \<in> A - X. hi C a = lo C b \<longrightarrow> in_use (C a) \<or> in_use (C b))"

lemma heap_invD:
  assumes "heap_inv s C S L M A X"
  shows "view s C S L M" "A \<subseteq> S" "a \<in> A \<Longrightarrow> a \<notin> HEADS" "finite A" "tiling (lo C) (hi C) A (pages s)"
    "lists_ok C (A - X) L" "a \<in> A \<Longrightarrow> a \<notin> X \<Longrightarrow> M (lo C a) = a" "a \<in> A \<Longrightarrow> a \<notin> X \<Longrightarrow> M (hi C a - 1) = a"
    "p \<ge> pages s \<Longrightarrow> M p = nulladdr"
    "a \<in> A \<Longrightarrow> a \<notin> X \<Longrightarrow> b \<in> A \<Longrightarrow> b \<notin> X \<Longrightarrow> hi C a = lo C b \<Longrightarrow> in_use (C a) \<or> in_use (C b)"
  using assms unfolding heap_inv_def by blast+

lemma pages_bound: "mem_ok s \<Longrightarrow> pages s \<le> 2 ^ 34"
proof -
  assume "mem_ok s"
  then have "used_size (blocks s 1) \<le> 2 ^ 47" by (auto simp: mem_ok_def block_ok_def)
  then have "used_size (blocks s 1) div 8192 \<le> 2 ^ 47 div 8192" by (rule div_le_mono)
  then show ?thesis by (simp add: pages_def)
qed

lemma head_of_in [simp]: "head_of n \<in> HEADS"
  by (simp add: head_of_def)

lemma head_of_neq_cl [simp]: "head_of n \<noteq> cl_head c" "cl_head c \<noteq> head_of n"
  by (auto simp: head_of_def)

lemma head_of_eq: "head_of m = head_of n \<longleftrightarrow> (if n < 128 then m = n else 128 \<le> m)"
  by (auto simp: head_of_def)

lemma heads_cases:
  assumes "h \<in> HEADS"
  obtains n where "h = head_of n" | c where "c < 87" "h = cl_head c"
proof -
  have "fl_head i = head_of i" if "i < 128" for i using that by (simp add: head_of_def)
  moreover have "lg_head = head_of 128" by (simp add: head_of_def)
  ultimately show ?thesis using assms that unfolding HEADS_def by auto
qed

lemma lists_ok_cong:
  assumes "lists_ok C B L" and C': "\<And>a. a \<in> B \<Longrightarrow> C' a = C a"
  shows "lists_ok C' B L"
proof -
  have "{a \<in> B. \<not> in_use (C' a) \<and> head_of (page_count (C' a)) = h} = {a \<in> B. \<not> in_use (C a) \<and> head_of (page_count (C a)) = h}"
    "{a \<in> B. in_use (C' a)} = {a \<in> B. in_use (C a)}" for h
    using C' by (metis (mono_tags, lifting))+
  with assms(1) show ?thesis unfolding lists_ok_def by simp
qed

lemma lists_ok_remove:
  assumes l: "lists_ok C B L" and a: "a \<in> B" "\<not> in_use (C a)" and d: "distinct (L (head_of (page_count (C a))))"
  shows "a \<in> set (L (head_of (page_count (C a))))"
    and "lists_ok C (B - {a}) (L(head_of (page_count (C a)) := remove1 a (L (head_of (page_count (C a))))))"
proof -
  have s: "set (L (head_of n)) = {b \<in> B. \<not> in_use (C b) \<and> head_of (page_count (C b)) = head_of n}" for n
    using l by (simp add: lists_ok_def)
  then show "a \<in> set (L (head_of (page_count (C a))))" using a by simp
  show "lists_ok C (B - {a}) (L(head_of (page_count (C a)) := remove1 a (L (head_of (page_count (C a))))))"
    unfolding lists_ok_def
  proof (intro conjI allI impI)
    fix n
    show "set ((L(head_of (page_count (C a)) := remove1 a (L (head_of (page_count (C a)))))) (head_of n)) =
        {b \<in> B - {a}. \<not> in_use (C b) \<and> head_of (page_count (C b)) = head_of n}"
      using s [of n] s [of "page_count (C a)"] d by (cases "head_of n = head_of (page_count (C a))") auto
  next
    fix c :: nat assume "c < 87"
    then show "set ((L(head_of (page_count (C a)) := remove1 a (L (head_of (page_count (C a)))))) (cl_head c)) \<subseteq>
        {b \<in> B - {a}. in_use (C b)}"
      using l a(2) by (auto simp: lists_ok_def)
  qed
qed

lemma lists_ok_add:
  assumes l: "lists_ok C B L" and a: "\<not> in_use (C a)"
  shows "lists_ok C (insert a B) (L(head_of (page_count (C a)) := a # L (head_of (page_count (C a)))))"
  unfolding lists_ok_def
proof (intro conjI allI impI)
  fix n
  have "set (L (head_of n)) = {b \<in> B. \<not> in_use (C b) \<and> head_of (page_count (C b)) = head_of n}" for n
    using l by (simp add: lists_ok_def)
  from this [of n] this [of "page_count (C a)"]
  show "set ((L(head_of (page_count (C a)) := a # L (head_of (page_count (C a))))) (head_of n)) =
        {b \<in> insert a B. \<not> in_use (C b) \<and> head_of (page_count (C b)) = head_of n}"
    using a by (cases "head_of n = head_of (page_count (C a))") auto
next
  fix c :: nat assume "c < 87"
  then show "set ((L(head_of (page_count (C a)) := a # L (head_of (page_count (C a))))) (cl_head c)) \<subseteq>
        {b \<in> insert a B. in_use (C b)}"
    using l by (auto simp: lists_ok_def)
qed

lemma lists_ok_unlisted:
  assumes "lists_ok C B L" and "a \<notin> B" and "h \<in> HEADS"
  shows "a \<notin> set (L h)"
  using assms(3)
proof (cases rule: heads_cases)
  case (1 n)
  then show ?thesis using assms(1,2) by (simp add: lists_ok_def)
next
  case (2 c)
  then show ?thesis using assms(1,2) by (auto simp: lists_ok_def)
qed

section \<open>What an operation on one span leaves alone\<close>

text \<open>
  Every span in use other than \<open>sp\<close> stays, with its contents and its entries in the
  span map, no other span becomes one in use, and the lists of the chunk cache stay. The
  fields of a span that the chunk cache owns are kept or reset.
\<close>

definition payload :: "span \<Rightarrow> nat \<times> nat \<times> addr" where
  "payload x = (size_class x, used_count x, chunk_list x)"

definition hframe ::
    "addr \<Rightarrow> (addr \<Rightarrow> span) \<Rightarrow> (addr \<Rightarrow> addr list) \<Rightarrow> (nat \<Rightarrow> addr) \<Rightarrow> addr set \<Rightarrow>
     (addr \<Rightarrow> span) \<Rightarrow> (addr \<Rightarrow> addr list) \<Rightarrow> (nat \<Rightarrow> addr) \<Rightarrow> addr set \<Rightarrow> bool" where
  "hframe sp C L M A C' L' M' A' \<longleftrightarrow>
     (\<forall>a \<in> A. a \<noteq> sp \<longrightarrow> in_use (C a) \<longrightarrow> a \<in> A' \<and> C' a = C a \<and> (\<forall>p. lo C a \<le> p \<longrightarrow> p < hi C a \<longrightarrow> M' p = M p)) \<and>
     (\<forall>a \<in> A'. a \<noteq> sp \<longrightarrow> in_use (C' a) \<longrightarrow> a \<in> A \<and> C' a = C a) \<and>
     (\<forall>c. L' (cl_head c) = L (cl_head c)) \<and>
     (\<forall>a. payload (C' a) = payload (C a) \<or> payload (C' a) = payload span_default)"

lemma hframe_refl [simp]: "hframe sp C L M A C L M A"
  by (simp add: hframe_def)

lemma hframeD:
  assumes "hframe sp C L M A C' L' M' A'"
  shows "a \<in> A \<Longrightarrow> a \<noteq> sp \<Longrightarrow> in_use (C a) \<Longrightarrow> a \<in> A'" "a \<in> A \<Longrightarrow> a \<noteq> sp \<Longrightarrow> in_use (C a) \<Longrightarrow> C' a = C a"
    "a \<in> A \<Longrightarrow> a \<noteq> sp \<Longrightarrow> in_use (C a) \<Longrightarrow> lo C a \<le> p \<Longrightarrow> p < hi C a \<Longrightarrow> M' p = M p"
    "a \<in> A' \<Longrightarrow> a \<noteq> sp \<Longrightarrow> in_use (C' a) \<Longrightarrow> a \<in> A" "a \<in> A' \<Longrightarrow> a \<noteq> sp \<Longrightarrow> in_use (C' a) \<Longrightarrow> C' a = C a"
    "L' (cl_head c) = L (cl_head c)" "payload (C' b) = payload (C b) \<or> payload (C' b) = payload span_default"
  using assms unfolding hframe_def by blast+

lemma hframe_trans:
  assumes 1: "hframe sp C L M A C' L' M' A'" and 2: "hframe sp C' L' M' A' C'' L'' M'' A''"
  shows "hframe sp C L M A C'' L'' M'' A''"
  unfolding hframe_def
proof (intro conjI ballI impI allI)
  fix a assume a: "a \<in> A" "a \<noteq> sp" "in_use (C a)"
  note x = hframeD(1,2) [OF 1 a]
  then have u: "in_use (C' a)" using a by simp
  note y = hframeD(1,2) [OF 2 x(1) a(2) u]
  show "a \<in> A''" using y by simp
  show "C'' a = C a" using x(2) y(2) by simp
  fix p assume p: "lo C a \<le> p" "p < hi C a"
  have "M'' p = M' p" by (rule hframeD(3) [OF 2 x(1) a(2) u]) (use p x(2) in auto)
  with hframeD(3) [OF 1 a p] show "M'' p = M p" by simp
next
  fix a assume a: "a \<in> A''" "a \<noteq> sp" "in_use (C'' a)"
  note y = hframeD(4,5) [OF 2 a]
  then have u: "in_use (C' a)" using a by simp
  note x = hframeD(4,5) [OF 1 y(1) a(2) u]
  show "a \<in> A" using x by simp
  show "C'' a = C a" using x(2) y(2) by simp
next
  fix c show "L'' (cl_head c) = L (cl_head c)" using hframeD(6) [OF 1] hframeD(6) [OF 2] by simp
next
  fix a show "payload (C'' a) = payload (C a) \<or> payload (C'' a) = payload span_default"
    using hframeD(7) [OF 1, of a] hframeD(7) [OF 2, of a] by auto
qed

lemma mframe_pages: "mframe s s' \<Longrightarrow> pages s' = pages s"
  by (simp add: pages_def mframe_def)

section \<open>Merging\<close>

lemma absorb:
  assumes inv: "heap_inv s C S L M A {sp}" and sp: "sp \<in> A" and x: "x \<in> A" "x \<noteq> sp" "\<not> in_use (C x)"
    and v1: "view s1 (C(sp := y)) S L M" and mf: "mframe s s1" and g: "grants s1 0 (K + 270336)"
    and tl: "tiling (lo (C(sp := y, x := span_default))) (hi (C(sp := y, x := span_default))) (A - {x}) (pages s)"
    and page: "start_page y \<le> p" "p < start_page y + page_count y" and pl: "payload y = payload (C sp)"
  shows "\<exists>s2 s3 s' L'. span_list_remove s1 x = Some s2 \<and> del_span s2 x = Some s3 \<and>
    as_span s3 sp = Some (spn s3 sp) \<and> span_core (spn s3 sp) = y \<and> set_span_map s3 p sp = Some s' \<and>
    heap_inv s' (C(sp := y, x := span_default)) (S - {x}) L' (M(p := sp)) (A - {x}) {sp} \<and>
    hframe sp C L M A (C(sp := y, x := span_default)) L' (M(p := sp)) (A - {x}) \<and>
    mframe s s' \<and> grants s' 0 K"
proof -
  let ?C = "C(sp := y, x := span_default)" and ?h = "head_of (page_count (C x))"
  let ?L = "L(?h := remove1 x (L ?h))"
  note d = heap_invD [OF inv]
  have "distinct (L ?h)" using rings_distinct [OF viewD(7) [OF d(1)]] by simp
  then have lx: "x \<in> set (L ?h)" "lists_ok C (A - {sp} - {x}) ?L"
    using lists_ok_remove [OF d(6), of x] x by auto
  have L: "lists_ok ?C (A - {x} - {sp}) ?L"
  proof -
    have "A - {x} - {sp} = A - {sp} - {x}" by blast
    moreover have "lists_ok ?C (A - {sp} - {x}) ?L" by (rule lists_ok_cong [OF lx(2)]) auto
    ultimately show ?thesis by (simp only:)
  qed
  obtain s2 where s2: "span_list_remove s1 x = Some s2" "view s2 (C(sp := y)) S ?L M" "mframe s1 s2" "used0 s2 = used0 s1"
    using view_remove [OF v1 _ lx(1)] by auto
  have unl: "x \<notin> set (?L h)" if "h \<in> HEADS" for h
    using lists_ok_unlisted [OF L _ that, of x] by simp
  obtain s3 where s3: "del_span s2 x = Some s3" "view s3 ((C(sp := y))(x := span_default)) (S - {x}) ?L M"
      "mframe s2 s3" "used0 s3 = used0 s2"
    using view_del [OF s2(2), of x] d(2,3) x unl by auto
  have T: "p < pages s" using tilingD(2) [OF tl, of sp] sp x(2) page by simp
  then have "p < 2 ^ 35" using pages_bound [OF viewD(1) [OF d(1)]] by simp
  moreover have "grants s3 0 (K + 270336)"
    using grants_mframe [OF mframe_trans [OF s2(3) s3(3)], of 0 "K + 270336"] g s2(4) s3(4) by simp
  ultimately obtain s' where s': "set_span_map s3 p sp = Some s'" "view s' ?C (S - {x}) ?L (M(p := sp))"
      "mframe s3 s'" "grants s' 0 K"
    using view_set [OF s3(2)] by blast
  have mf': "mframe s s'" using mf s2(3) s3(3) s'(3) by (meson mframe_trans)
  have far: "p < lo C a \<or> hi C a \<le> p" if "a \<in> A" "a \<noteq> sp" "a \<noteq> x" for a
    using tilingD(3) [OF tl, of a sp] that sp x(2) page by auto
  have M': "(M(p := sp)) (lo C a) = a" "(M(p := sp)) (hi C a - 1) = a" if "a \<in> A" "a \<noteq> sp" "a \<noteq> x" for a
    using far [OF that] tilingD(1) [OF d(5) that(1)] d(7,8) that by auto
  have "heap_inv s' ?C (S - {x}) ?L (M(p := sp)) (A - {x}) {sp}"
    unfolding heap_inv_def mframe_pages [OF mf']
  proof (intro conjI)
    show "A - {x} \<subseteq> S - {x} - HEADS" "finite (A - {x})" using d(2,3,4) by auto
    show "\<forall>q \<ge> pages s. (M(p := sp)) q = nulladdr" using d(9) T by auto
    show "\<forall>a \<in> A - {x} - {sp}. (M(p := sp)) (lo ?C a) = a \<and> (M(p := sp)) (hi ?C a - 1) = a"
      using M' by auto
    show "\<forall>a \<in> A - {x} - {sp}. \<forall>b \<in> A - {x} - {sp}. hi ?C a = lo ?C b \<longrightarrow> in_use (?C a) \<or> in_use (?C b)"
      using d(10) by simp
  qed (use s'(2) tl L in auto)
  moreover have "hframe sp C L M A ?C ?L (M(p := sp)) (A - {x})"
    unfolding hframe_def
  proof (intro conjI ballI impI allI)
    fix a assume a: "a \<in> A" "a \<noteq> sp" "in_use (C a)"
    then have ax: "a \<noteq> x" using x(3) by blast
    with a show "a \<in> A - {x}" "?C a = C a" by simp_all
    fix q assume "lo C a \<le> q" "q < hi C a"
    then have "q \<noteq> p" using far [OF a(1,2) ax] by linarith
    then show "(M(p := sp)) q = M q" by simp
  next
    fix a show "payload (?C a) = payload (C a) \<or> payload (?C a) = payload span_default" using pl by simp
  qed (auto simp: span_default_def)
  moreover have "as_span s3 sp = Some (spn s3 sp)" "span_core (spn s3 sp) = y"
    using view_fields(1) [OF s3(2), of sp] viewD(4) [OF s3(2), of sp] d(2) sp x(2) by auto
  ultimately show ?thesis using s2(1) s3(1) s'(1,4) mf' by blast
qed

definition merged ::
    "shm \<Rightarrow> addr \<Rightarrow> (addr \<Rightarrow> span) \<Rightarrow> (addr \<Rightarrow> addr list) \<Rightarrow> (nat \<Rightarrow> addr) \<Rightarrow> addr set \<Rightarrow>
     shm \<Rightarrow> (addr \<Rightarrow> span) \<Rightarrow> addr set \<Rightarrow> (addr \<Rightarrow> addr list) \<Rightarrow> (nat \<Rightarrow> addr) \<Rightarrow> addr set \<Rightarrow> bool" where
  "merged s sp C L M A s' C' S' L' M' A' \<longleftrightarrow>
     heap_inv s' C' S' L' M' A' {sp} \<and> hframe sp C L M A C' L' M' A' \<and> sp \<in> A' \<and>
     M' (lo C' sp) = sp \<and> M' (hi C' sp - 1) = sp \<and>
     C' sp = (C sp)\<lparr>start_page := lo C' sp, page_count := page_count (C' sp)\<rparr> \<and>
     lo C' sp \<le> lo C sp \<and> hi C sp \<le> hi C' sp \<and> mframe s s'"

lemma merged_refl:
  "heap_inv s C S L M A {sp} \<Longrightarrow> sp \<in> A \<Longrightarrow> M (lo C sp) = sp \<Longrightarrow> M (hi C sp - 1) = sp \<Longrightarrow>
     merged s sp C L M A s C S L M A"
  by (simp add: merged_def)

lemma merge_prev_ok:
  assumes inv: "heap_inv s C S L M A {sp}" and sp: "sp \<in> A" and m: "M (lo C sp) = sp" "M (hi C sp - 1) = sp"
    and g: "grants s 0 (K + 270336)"
  shows "\<exists>s' C' S' L' M' A'. merge_prev s sp (lo C sp) = Some s' \<and> merged s sp C L M A s' C' S' L' M' A' \<and>
    hi C' sp = hi C sp \<and> (\<forall>a \<in> A'. hi C' a = lo C' sp \<longrightarrow> in_use (C' a)) \<and> grants s' 0 K"
proof (cases "lo C sp = 0")
  case True
  have "hi C a \<noteq> lo C sp" if "a \<in> A" for a
    using tilingD(1) [OF heap_invD(5) [OF inv] that] True by simp
  moreover have "merge_prev s sp (lo C sp) = Some s" using True by (simp add: merge_prev_def)
  moreover have "grants s 0 K" using grants_mono [OF g] by simp
  ultimately show ?thesis using merged_refl [OF inv sp m] by blast
next
  case False
  note d = heap_invD [OF inv]
  obtain p where p: "p \<in> A" "p \<noteq> sp" "hi C p = lo C sp" using tiling_prev [OF d(5) sp] False by auto
  have pp: "0 < page_count (C p)" using tilingD(1) [OF d(5) p(1)] by simp
  have "M (lo C sp - 1) = p" using d(8) [OF p(1)] p by simp
  moreover have "lo C sp - 1 < 2 ^ 35"
    using tilingD(1,2) [OF d(5) sp] pages_bound [OF viewD(1) [OF d(1)]] by simp
  ultimately have get: "get_span_map s (lo C sp - 1) = Some p" using view_get [OF d(1)] by simp
  have pS: "p \<in> S" and spS: "sp \<in> S" using d(2) p(1) sp by auto
  have okp: "addr_ok p" using viewD(5) [OF d(1)] pS is_span_ok by blast
  note fp = view_fields [OF d(1) pS]
  have uniq: "a = p" if "a \<in> A" "hi C a = lo C sp" for a
    using tiling_owner [OF d(5) that(1) p(1), of "lo C sp - 1"] that(2) p(3) pp tilingD(1) [OF d(5) that(1)] by simp
  show ?thesis
  proof (cases "in_use (C p)")
    case True
    then have "merge_prev s sp (lo C sp) = Some s" using False get okp fp by (simp add: merge_prev_def)
    moreover have "\<forall>a \<in> A. hi C a = lo C sp \<longrightarrow> in_use (C a)" using uniq True by blast
    moreover have "grants s 0 K" using grants_mono [OF g] by simp
    ultimately show ?thesis using merged_refl [OF inv sp m] by blast
  next
    case free: False
    let ?C1 = "C(sp := (C sp)\<lparr>start_page := lo C sp - page_count (C p)\<rparr>)"
    obtain s1 where s1: "upd_span s sp (\<lambda>x. x\<lparr>start_page := start_page x - page_count (spn s p)\<rparr>) = Some s1"
        "view s1 ?C1 S L M" "s1 = s\<lparr>meta := meta s1\<rparr>"
      using view_upd [OF d(1) spS, of "\<lambda>x. x\<lparr>start_page := start_page x - page_count (spn s p)\<rparr>"] fp
      by (auto simp: span_core_def)
    define y where "y = (C sp)\<lparr>start_page := lo C p, page_count := page_count (C sp) + page_count (C p)\<rparr>"
    have "lo C sp - page_count (C p) = lo C p" using p(3) by simp
    then have yy: "(?C1 sp)\<lparr>page_count := page_count (?C1 sp) + page_count (C p)\<rparr> = y" by (simp add: y_def)
    obtain s2 where s2: "upd_span s1 sp (\<lambda>x. x\<lparr>page_count := page_count x + page_count (spn s p)\<rparr>) = Some s2"
        "view s2 (C(sp := y)) S L M" "s2 = s1\<lparr>meta := meta s2\<rparr>"
      using view_upd [OF s1(2) spS, of "\<lambda>x. x\<lparr>page_count := page_count x + page_count (spn s p)\<rparr>"] fp yy
      by (auto simp: span_core_def)
    have mf: "mframe s s2" by (subst s2(3), subst s1(3)) (simp add: mframe_def)
    have g2: "grants s2 0 (K + 270336)" using grants_mframe [OF mf _ , of 0] g
      by (subst s2(3), subst s1(3)) (simp add: grants_def)
    have ty: "start_page y = lo C p" "start_page y + page_count y = hi C sp" using p(3) by (auto simp: y_def)
    have py: "0 < page_count y" using pp by (simp add: y_def)
    have pl: "payload y = payload (C sp)" by (simp add: y_def payload_def)
    have tl: "tiling (lo (C(sp := y, p := span_default))) (hi (C(sp := y, p := span_default))) (A - {p}) (pages s)"
      by (rule tiling_cong [OF tiling_merge_prev [OF d(5) p(1) sp p(2,3)]]) (use ty in auto)
    obtain s3 s4 s' L' where a: "span_list_remove s2 p = Some s3" "del_span s3 p = Some s4"
        "as_span s4 sp = Some (spn s4 sp)" "span_core (spn s4 sp) = y" "set_span_map s4 (lo C p) sp = Some s'"
        "heap_inv s' (C(sp := y, p := span_default)) (S - {p}) L' (M(lo C p := sp)) (A - {p}) {sp}"
        "hframe sp C L M A (C(sp := y, p := span_default)) L' (M(lo C p := sp)) (A - {p})"
        "mframe s s'" "grants s' 0 K"
      using absorb [OF inv sp p(1,2) free s2(2) mf g2 tl, of "lo C p"] ty pp py pl by auto
    have "start_page (spn s4 sp) = lo C p" using a(4) ty(1) span_core_sel(4) by metis
    then have "merge_prev s sp (lo C sp) = Some s'"
      using False get okp fp free pp p(3) s1(1) s2(1) a(1,2,3,5) by (simp add: merge_prev_def)
    moreover have "in_use (C q)" if "q \<in> A - {p}" "q \<noteq> sp" "hi C q = lo C p" for q
      using d(10) [of q p] that p free by auto
    then have "\<forall>q \<in> A - {p}. hi (C(sp := y, p := span_default)) q = lo (C(sp := y, p := span_default)) sp \<longrightarrow>
        in_use ((C(sp := y, p := span_default)) q)"
      using p(2) ty tilingD(1) [OF tl, of sp] sp by auto
    moreover have "merged s sp C L M A s' (C(sp := y, p := span_default)) (S - {p}) L' (M(lo C p := sp)) (A - {p})"
      using a(6-8) sp p(2) ty m(2) unfolding merged_def by (simp add: y_def [symmetric]) (simp add: y_def)
    moreover have "hi (C(sp := y, p := span_default)) sp = hi C sp" using p(2) ty by simp
    ultimately show ?thesis using a(9) by blast
  qed
qed

lemma merge_next_ok:
  assumes inv: "heap_inv s C S L M A {sp}" and sp: "sp \<in> A" and m: "M (lo C sp) = sp" "M (hi C sp - 1) = sp"
    and oc: "os0 + oc0 = hi C sp" and g: "grants s 0 (K + 270336)"
  shows "\<exists>s' C' S' L' M' A'. merge_next s sp os0 oc0 = Some s' \<and> merged s sp C L M A s' C' S' L' M' A' \<and>
    lo C' sp = lo C sp \<and> (\<forall>a \<in> A'. a \<noteq> sp \<longrightarrow> a \<in> A \<and> C' a = C a) \<and>
    (\<forall>a \<in> A'. lo C' a = hi C' sp \<longrightarrow> in_use (C' a)) \<and> grants s' 0 K"
proof -
  note d = heap_invD [OF inv]
  have b: "hi C sp \<le> pages s" "pages s \<le> 2 ^ 34"
    using tilingD(2) [OF d(5) sp] pages_bound [OF viewD(1) [OF d(1)]] by auto
  have lim: "os0 + oc0 < MAX_PAGE_COUNT" using b oc by (simp add: MAX_PAGE_COUNT_def)
  have get: "get_span_map s (os0 + oc0) = Some (M (hi C sp))" using view_get [OF d(1)] b oc by simp
  have gK: "grants s 0 K" using grants_mono [OF g] by simp
  show ?thesis
  proof (cases "hi C sp < pages s")
    case False
    then have "M (hi C sp) = nulladdr" using d(9) by simp
    then have "merge_next s sp os0 oc0 = Some s" using lim get by (simp add: merge_next_def)
    moreover have "lo C a \<noteq> hi C sp" if "a \<in> A" for a
      using tilingD(1,2) [OF d(5) that] False b by linarith
    ultimately show ?thesis using merged_refl [OF inv sp m] gK by blast
  next
    case True
    obtain n where n: "n \<in> A" "n \<noteq> sp" "lo C n = hi C sp" using tiling_next [OF d(5) sp True] by blast
    have nn: "0 < page_count (C n)" using tilingD(1) [OF d(5) n(1)] by simp
    have Mn: "M (hi C sp) = n" using d(7) [OF n(1)] n by simp
    have nS: "n \<in> S" and spS: "sp \<in> S" using d(2) n(1) sp by auto
    have okn: "addr_ok n" using viewD(5) [OF d(1)] nS is_span_ok by blast
    note fn = view_fields [OF d(1) nS]
    have uniq: "a = n" if "a \<in> A" "lo C a = hi C sp" for a
      using tiling_owner [OF d(5) that(1) n(1), of "hi C sp"] that(2) n(3) nn tilingD(1) [OF d(5) that(1)] by simp
    show ?thesis
    proof (cases "in_use (C n)")
      case True
      then have "merge_next s sp os0 oc0 = Some s" using lim get Mn okn fn by (simp add: merge_next_def)
      moreover have "\<forall>a \<in> A. lo C a = hi C sp \<longrightarrow> in_use (C a)" using uniq True by blast
      ultimately show ?thesis using merged_refl [OF inv sp m] gK by blast
    next
      case free: False
      define y where "y = (C sp)\<lparr>page_count := page_count (C sp) + page_count (C n)\<rparr>"
      obtain s1 where s1: "upd_span s sp (\<lambda>x. x\<lparr>page_count := page_count x + page_count (spn s n)\<rparr>) = Some s1"
          "view s1 (C(sp := y)) S L M" "s1 = s\<lparr>meta := meta s1\<rparr>"
        using view_upd [OF d(1) spS, of "\<lambda>x. x\<lparr>page_count := page_count x + page_count (spn s n)\<rparr>"] fn
        by (auto simp: span_core_def y_def)
      have mf: "mframe s s1" by (subst s1(3)) (simp add: mframe_def)
      have g1: "grants s1 0 (K + 270336)" using g by (subst s1(3)) (simp add: grants_def)
      have ty: "start_page y = lo C sp" "start_page y + page_count y = hi C n" "0 < page_count y"
        using n(3) nn by (auto simp: y_def)
      have tl: "tiling (lo (C(sp := y, n := span_default))) (hi (C(sp := y, n := span_default))) (A - {n}) (pages s)"
        by (rule tiling_cong [OF tiling_merge_next [OF d(5) n(1) sp n(2) n(3) [symmetric]]]) (use ty in auto)
      let ?p = "start_page y + page_count y - 1"
      have pl: "payload y = payload (C sp)" by (simp add: y_def payload_def)
      have pr: "start_page y \<le> ?p" "?p < start_page y + page_count y" using ty(3) by linarith+
      obtain s2 s3 s' L' where a: "span_list_remove s1 n = Some s2" "del_span s2 n = Some s3"
          "as_span s3 sp = Some (spn s3 sp)" "span_core (spn s3 sp) = y" "set_span_map s3 ?p sp = Some s'"
          "heap_inv s' (C(sp := y, n := span_default)) (S - {n}) L' (M(?p := sp)) (A - {n}) {sp}"
          "hframe sp C L M A (C(sp := y, n := span_default)) L' (M(?p := sp)) (A - {n})"
          "mframe s s'" "grants s' 0 K"
        using absorb [OF inv sp n(1,2) free s1(2) mf g1 tl pr pl] by blast
      have "start_page (spn s3 sp) = start_page y" "page_count (spn s3 sp) = page_count y"
        using a(4) span_core_sel(4,5) by metis+
      then have "merge_next s sp os0 oc0 = Some s'"
        using lim get Mn okn fn free nn oc n(3) s1(1) a(1,2,3,5) ty(3) by (simp add: merge_next_def last_page_def)
      moreover have "in_use (C q)" if "q \<in> A - {n}" "q \<noteq> sp" "lo C q = hi C n" for q
        using d(10) [of n q] that n free by auto
      then have "\<forall>q \<in> A - {n}. lo (C(sp := y, n := span_default)) q = hi (C(sp := y, n := span_default)) sp \<longrightarrow>
          in_use ((C(sp := y, n := span_default)) q)"
        using n(2) ty tilingD(1) [OF tl, of sp] sp by auto
      moreover have "merged s sp C L M A s' (C(sp := y, n := span_default)) (S - {n}) L' (M(?p := sp)) (A - {n})"
        using a(6-8) sp n(2) m(1) unfolding merged_def by (simp add: y_def [symmetric]) (simp add: y_def)
      moreover have "lo (C(sp := y, n := span_default)) sp = lo C sp" using n(2) ty by simp
      moreover have "\<forall>a \<in> A - {n}. a \<noteq> sp \<longrightarrow> a \<in> A \<and> (C(sp := y, n := span_default)) a = C a" by simp
      ultimately show ?thesis using a(9) by blast
    qed
  qed
qed

section \<open>Linking and releasing a span\<close>

lemma link_view:
  assumes v: "view s C S L M" and sp: "sp \<in> S" "sp \<notin> HEADS" "\<And>h. h \<in> HEADS \<Longrightarrow> sp \<notin> set (L h)"
  shows "\<exists>s'. link_span s sp = Some s' \<and>
    view s' C S (L(head_of (page_count (C sp)) := sp # L (head_of (page_count (C sp))))) M \<and>
    mframe s s' \<and> used0 s' = used0 s"
proof -
  let ?h = "head_of (page_count (C sp))"
  obtain s' where s': "span_list_prepend s ?h sp = Some s'" "view s' C S (L(?h := sp # L ?h)) M" "mframe s s'"
      "used0 s' = used0 s"
    using view_prepend [OF v head_of_in sp] by blast
  have hd: "(if page_count (C sp) < MAX_PAGES then span_addr s (free_list_offset (page_count (C sp)))
      else span_addr s large_list_offset) = Some ?h"
  proof (cases "page_count (C sp) < 128")
    case True
    then have "(1, free_list_offset (page_count (C sp))) \<in> HEADS" using heads_in(1) [OF True] by (simp add: fl_head_def)
    with True view_head [OF v] show ?thesis by (simp add: MAX_PAGES_def head_of_def fl_head_def)
  next
    case False
    have "(1, large_list_offset) \<in> HEADS" using heads_in(2) by (simp add: lg_head_def)
    with False view_head [OF v] show ?thesis by (simp add: MAX_PAGES_def head_of_def lg_head_def)
  qed
  have "link_span s sp = Some s'"
    using view_fields [OF v sp(1)] hd s'(1) by (simp add: link_span_def split: if_splits)
  with s' show ?thesis by blast
qed

lemma link_span_ok:
  assumes inv: "heap_inv s C S L M A {sp}" and sp: "sp \<in> A" and m: "M (lo C sp) = sp" "M (hi C sp - 1) = sp"
    and free: "\<not> in_use (C sp)" and nb: "\<And>a. a \<in> A \<Longrightarrow> hi C a = lo C sp \<Longrightarrow> in_use (C a)"
      "\<And>a. a \<in> A \<Longrightarrow> lo C a = hi C sp \<Longrightarrow> in_use (C a)"
  shows "\<exists>s' L'. link_span s sp = Some s' \<and> heap_inv s' C S L' M A {} \<and> (\<forall>c. L' (cl_head c) = L (cl_head c)) \<and>
    mframe s s' \<and> used0 s' = used0 s"
proof -
  note d = heap_invD [OF inv]
  let ?h = "head_of (page_count (C sp))"
  have spS: "sp \<in> S" using d(2) sp by auto
  have unl: "sp \<notin> set (L h)" if "h \<in> HEADS" for h using lists_ok_unlisted [OF d(6) _ that] by simp
  obtain s' where s': "link_span s sp = Some s'" "view s' C S (L(?h := sp # L ?h)) M" "mframe s s'"
      "used0 s' = used0 s"
    using link_view [OF d(1) spS d(3) [OF sp] unl] by blast
  have "heap_inv s' C S (L(?h := sp # L ?h)) M A {}"
    unfolding heap_inv_def mframe_pages [OF s'(3)]
  proof (intro conjI)
    have "insert sp (A - {sp}) = A" using sp by blast
    then show "lists_ok C (A - {}) (L(?h := sp # L ?h))" using lists_ok_add [OF d(6) free] by simp
    show "\<forall>a \<in> A - {}. M (lo C a) = a \<and> M (hi C a - 1) = a" using d(7,8) m by (metis Diff_empty singletonD)
    show "\<forall>a \<in> A - {}. \<forall>b \<in> A - {}. hi C a = lo C b \<longrightarrow> in_use (C a) \<or> in_use (C b)"
      using d(10) nb by (metis Diff_empty singletonD)
  qed (use s'(2) d in auto)
  then show ?thesis using s'(1,3,4) by auto
qed

text \<open>The pages in use, which \<^verbatim>\<open>stat_.used_size\<close> counts.\<close>

definition used_pages :: "(addr \<Rightarrow> span) \<Rightarrow> addr set \<Rightarrow> nat" where
  "used_pages C A = (\<Sum>a \<in> {a \<in> A. in_use (C a)}. page_count (C a))"

lemma used_pages_hframe:
  assumes f: "hframe sp C L M A C' L' M' A'" and fin: "finite A" "finite A'"
  shows "used_pages C' A' + (if sp \<in> A \<and> in_use (C sp) then page_count (C sp) else 0) =
    used_pages C A + (if sp \<in> A' \<and> in_use (C' sp) then page_count (C' sp) else 0)"
proof -
  have split: "used_pages D B = (\<Sum>a \<in> {a \<in> B - {sp}. in_use (D a)}. page_count (D a)) +
      (if sp \<in> B \<and> in_use (D sp) then page_count (D sp) else 0)" if "finite B" for D B
  proof (cases "sp \<in> B \<and> in_use (D sp)")
    case True
    then have "{a \<in> B. in_use (D a)} = insert sp {a \<in> B - {sp}. in_use (D a)}" by blast
    then show ?thesis using True that by (simp add: used_pages_def)
  next
    case False
    then have "{a \<in> B. in_use (D a)} = {a \<in> B - {sp}. in_use (D a)}" by blast
    then show ?thesis using False unfolding used_pages_def by auto
  qed
  have ag: "C' a = C a" if "a \<in> {a \<in> A - {sp}. in_use (C a)}" for a using hframeD(2) [OF f] that by blast
  have eq: "{a \<in> A' - {sp}. in_use (C' a)} = {a \<in> A - {sp}. in_use (C a)}"
  proof (intro set_eqI iffI)
    fix a assume a: "a \<in> {a \<in> A' - {sp}. in_use (C' a)}"
    then have "a \<in> A" "C' a = C a" using hframeD(4,5) [OF f, of a] by simp_all
    with a show "a \<in> {a \<in> A - {sp}. in_use (C a)}" by simp
  next
    fix a assume a: "a \<in> {a \<in> A - {sp}. in_use (C a)}"
    then have "a \<in> A'" "C' a = C a" using hframeD(1,2) [OF f, of a] by simp_all
    with a show "a \<in> {a \<in> A' - {sp}. in_use (C' a)}" by simp
  qed
  have "(\<Sum>a \<in> {a \<in> A' - {sp}. in_use (C' a)}. page_count (C' a)) = (\<Sum>a \<in> {a \<in> A - {sp}. in_use (C a)}. page_count (C a))"
    unfolding eq using ag by (intro sum.cong) auto
  then show ?thesis using split [OF fin(1)] split [OF fin(2)] by simp
qed

text \<open>As \<open>mframe\<close>, but the statistics of the page heap may change.\<close>

definition pframe :: "shm \<Rightarrow> shm \<Rightarrow> bool" where
  "pframe s s' \<longleftrightarrow> mframe s (s'\<lparr>ph_stat := ph_stat s\<rparr>)"

lemma pframe_mframe: "mframe s s' \<Longrightarrow> pframe s s'"
  by (simp add: pframe_def mframe_def)

lemma pframe_trans: "pframe s s' \<Longrightarrow> pframe s' s'' \<Longrightarrow> pframe s s''"
  by (simp add: pframe_def mframe_def)

lemma pframe_stat: "pframe s s' \<Longrightarrow> pframe s (s'\<lparr>ph_stat := x\<rparr>)"
  by (simp add: pframe_def mframe_def)

lemma pframe_pages: "pframe s s' \<Longrightarrow> pages s' = pages s"
  by (simp add: pages_def pframe_def mframe_def)

lemma heap_inv_stat: "heap_inv s C S L M A X \<Longrightarrow> heap_inv (s\<lparr>ph_stat := x\<rparr>) C S L M A X"
  using view_cong [of "s\<lparr>ph_stat := x\<rparr>" s C S L M] viewD(1) [of s C S L M]
  by (auto simp: heap_inv_def pages_def mem_ok_def)

lemma heap_unlinked:
  assumes inv: "heap_inv s C S L M A {}" and sp: "sp \<in> A" "in_use (C sp)" and ul: "\<And>c. c < 87 \<Longrightarrow> sp \<notin> set (L (cl_head c))"
  shows "h \<in> HEADS \<Longrightarrow> sp \<notin> set (L h)" and "span_nx s sp = nulladdr" and "span_pv s sp = nulladdr"
    and "lists_ok C (A - {sp}) L"
proof -
  note d = heap_invD [OF inv]
  have l: "set (L (head_of n)) = {a \<in> A. \<not> in_use (C a) \<and> head_of (page_count (C a)) = head_of n}"
      "c < 87 \<Longrightarrow> set (L (cl_head c)) \<subseteq> {a \<in> A. in_use (C a)}" for n c
    using d(6) by (simp_all add: lists_ok_def)
  show n: "sp \<notin> set (L h)" if "h \<in> HEADS" for h
    using that
  proof (cases rule: heads_cases)
    case (1 n) then show ?thesis using l(1) [of n] sp(2) by simp
  next
    case (2 c) then show ?thesis using ul by simp
  qed
  then show "span_nx s sp = nulladdr" "span_pv s sp = nulladdr"
    using rings_unlinked [OF viewD(7) [OF d(1)] d(3) [OF sp(1)]] by blast+
  show "lists_ok C (A - {sp}) L"
    unfolding lists_ok_def
  proof (intro conjI allI impI)
    fix n show "set (L (head_of n)) = {a \<in> A - {sp}. \<not> in_use (C a) \<and> head_of (page_count (C a)) = head_of n}"
      using l(1) [of n] sp(2) by blast
  next
    fix c :: nat assume "c < 87"
    then show "set (L (cl_head c)) \<subseteq> {a \<in> A - {sp}. in_use (C a)}" using l(2) [of c] ul [of c] by blast
  qed
qed

lemma deallocate_span_ok:
  assumes inv: "heap_inv s C S L M A {}" and sp: "sp \<in> A" "in_use (C sp)" and ul: "\<And>c. c < 87 \<Longrightarrow> sp \<notin> set (L (cl_head c))"
    and us: "page_count (C sp) \<le> ph_used_size (ph_stat s)" and g: "grants s 0 (K + 540672)"
  shows "\<exists>s' C' S' L' M' A'. deallocate_span s sp = Some s' \<and> heap_inv s' C' S' L' M' A' {} \<and>
    hframe sp C L M A C' L' M' A' \<and> sp \<in> A' \<and> \<not> in_use (C' sp) \<and> pframe s s' \<and> grants s' 0 K \<and>
    lo C' sp \<le> lo C sp \<and> hi C sp \<le> hi C' sp \<and>
    ph_used_size (ph_stat s') = ph_used_size (ph_stat s) - page_count (C sp)"
proof -
  note d = heap_invD [OF inv]
  note u = heap_unlinked [OF inv sp ul]
  have spS: "sp \<in> S" using d(2) sp by auto
  note f = view_fields [OF d(1) spS]
  have t: "0 < page_count (C sp)" "hi C sp \<le> pages s" using tilingD(1,2) [OF d(5) sp(1)] by auto
  have lim: "lo C sp < 2 ^ 35" "hi C sp - 1 < 2 ^ 35" using t pages_bound [OF viewD(1) [OF d(1)]] by auto
  have M: "M (lo C sp) = sp" "M (hi C sp - 1) = sp" using d(7,8) sp by auto
  have get: "get_span_map s (lo C sp) = Some sp" "get_span_map s (hi C sp - 1) = Some sp"
    using view_get [OF d(1)] lim M by auto
  have ok: "addr_ok sp" using viewD(5) [OF d(1)] spS is_span_ok by blast
  let ?C1 = "C(sp := (C sp)\<lparr>in_use := False\<rparr>)"
  obtain s1 where s1: "upd_span s sp (\<lambda>x. x\<lparr>in_use := False\<rparr>) = Some s1" "view s1 ?C1 S L M" "s1 = s\<lparr>meta := meta s1\<rparr>"
    using view_upd [OF d(1) spS, of "\<lambda>x. x\<lparr>in_use := False\<rparr>"] by (auto simp: span_core_def)
  have mf1: "mframe s s1" by (subst s1(3)) (simp add: mframe_def)
  have g1: "grants s1 0 (K + 270336 + 270336)" using g by (subst s1(3)) (simp add: grants_def)
  have inv1: "heap_inv s1 ?C1 S L M A {sp}"
    unfolding heap_inv_def mframe_pages [OF mf1]
  proof (intro conjI)
    show "lists_ok ?C1 (A - {sp}) L" by (rule lists_ok_cong [OF u(4)]) auto
    show "tiling (lo ?C1) (hi ?C1) A (pages s)" by (rule tiling_cong [OF d(5)]) auto
  qed (use s1(2) d in auto)
  have fr1: "hframe sp C L M A ?C1 L M A" by (simp add: hframe_def payload_def)
  obtain s2 C2 S2 L2 M2 A2 where s2: "merge_prev s1 sp (lo ?C1 sp) = Some s2" "merged s1 sp ?C1 L M A s2 C2 S2 L2 M2 A2"
      "hi C2 sp = hi ?C1 sp" "\<forall>a \<in> A2. hi C2 a = lo C2 sp \<longrightarrow> in_use (C2 a)" "grants s2 0 (K + 270336)"
    using merge_prev_ok [OF inv1 sp(1) _ _ g1] M by auto
  have m2: "heap_inv s2 C2 S2 L2 M2 A2 {sp}" "hframe sp ?C1 L M A C2 L2 M2 A2" "sp \<in> A2" "M2 (lo C2 sp) = sp"
      "M2 (hi C2 sp - 1) = sp" "C2 sp = (?C1 sp)\<lparr>start_page := lo C2 sp, page_count := page_count (C2 sp)\<rparr>" "mframe s1 s2"
      "lo C2 sp \<le> lo C sp" "hi C sp \<le> hi C2 sp"
    using s2(2) by (simp_all add: merged_def)
  have oc: "lo C sp + page_count (C sp) = hi C2 sp" using s2(3) by simp
  obtain s3 C3 S3 L3 M3 A3 where s3: "merge_next s2 sp (lo C sp) (page_count (C sp)) = Some s3"
      "merged s2 sp C2 L2 M2 A2 s3 C3 S3 L3 M3 A3" "lo C3 sp = lo C2 sp"
      "\<forall>a \<in> A3. a \<noteq> sp \<longrightarrow> a \<in> A2 \<and> C3 a = C2 a" "\<forall>a \<in> A3. lo C3 a = hi C3 sp \<longrightarrow> in_use (C3 a)" "grants s3 0 K"
    using merge_next_ok [OF m2(1,3,4,5) oc s2(5)] by blast
  have m3: "heap_inv s3 C3 S3 L3 M3 A3 {sp}" "hframe sp C2 L2 M2 A2 C3 L3 M3 A3" "sp \<in> A3" "M3 (lo C3 sp) = sp"
      "M3 (hi C3 sp - 1) = sp" "C3 sp = (C2 sp)\<lparr>start_page := lo C3 sp, page_count := page_count (C3 sp)\<rparr>" "mframe s2 s3"
      "lo C3 sp \<le> lo C2 sp" "hi C2 sp \<le> hi C3 sp"
    using s3(2) by (simp_all add: merged_def)
  have "in_use (C3 sp) = in_use (C2 sp)" by (subst m3(6)) simp
  also have "in_use (C2 sp) = False" by (subst m2(6)) simp
  finally have nu: "\<not> in_use (C3 sp)" by simp
  have left: "in_use (C3 a)" if "a \<in> A3" "hi C3 a = lo C3 sp" for a
  proof -
    have "a \<noteq> sp" using that tilingD(1) [OF heap_invD(5) [OF m3(1)] m3(3)] by auto
    then have "a \<in> A2" "C3 a = C2 a" using s3(4) that(1) by auto
    then show ?thesis using s2(4) that(2) s3(3) by auto
  qed
  obtain s4 L4 where s4: "link_span s3 sp = Some s4" "heap_inv s4 C3 S3 L4 M3 A3 {}"
      "\<forall>c. L4 (cl_head c) = L3 (cl_head c)" "mframe s3 s4" "used0 s4 = used0 s3"
    using link_span_ok [OF m3(1,3,4,5) nu left] s3(5) by blast
  have mf: "mframe s s4" using mf1 m2(7) m3(7) s4(4) by (meson mframe_trans)
  have st: "ph_stat s4 = ph_stat s" using mf by (simp add: mframe_def)
  let ?s' = "s4\<lparr>ph_stat := (ph_stat s)\<lparr>ph_free_count := ph_free_count (ph_stat s) + 1,
      ph_used_size := ph_used_size (ph_stat s) - page_count (C sp)\<rparr>\<rparr>"
  have "deallocate_span s sp = Some ?s'"
    using ok f sp(2) t(1) u(2,3) get s1(1) s2(1) s3(1) s4(1) us st
    by (simp add: deallocate_span_def last_page_def addr_eq_def)
  moreover have "heap_inv ?s' C3 S3 L4 M3 A3 {}" using heap_inv_stat [OF s4(2)] .
  moreover have "hframe sp C L M A C3 L4 M3 A3"
  proof -
    have "hframe sp C3 L3 M3 A3 C3 L4 M3 A3" using s4(3) by (simp add: hframe_def)
    then show ?thesis using fr1 m2(2) m3(2) by (meson hframe_trans)
  qed
  moreover have "pframe s ?s'" using pframe_stat [OF pframe_mframe [OF mf]] .
  moreover have "grants s4 0 K" using grants_mframe [OF s4(4), of 0 K] s3(6) s4(5) by simp
  then have "grants ?s' 0 K" by (simp add: grants_def)
  moreover have "ph_used_size (ph_stat ?s') = ph_used_size (ph_stat s) - page_count (C sp)" by simp
  moreover have "lo C3 sp \<le> lo C sp" "hi C sp \<le> hi C3 sp" using m2(8,9) m3(8,9) by linarith+
  ultimately show ?thesis using m3(3) nu by blast
qed

section \<open>Taking a span\<close>

lemma lists_ok_use:
  assumes "lists_ok C (A - {sp}) L" and "in_use (C sp)"
  shows "lists_ok C A L"
  unfolding lists_ok_def
proof (intro conjI allI impI)
  fix n show "set (L (head_of n)) = {a \<in> A. \<not> in_use (C a) \<and> head_of (page_count (C a)) = head_of n}"
    using assms unfolding lists_ok_def by blast
next
  fix c :: nat assume "c < 87"
  then show "set (L (cl_head c)) \<subseteq> {a \<in> A. in_use (C a)}" using assms unfolding lists_ok_def by blast
qed

lemma upd_in_use:
  assumes v: "view s C S L M" and sp: "sp \<in> S"
  shows "\<exists>s'. upd_span s sp (\<lambda>x. x\<lparr>in_use := b\<rparr>) = Some s' \<and> view s' (C(sp := (C sp)\<lparr>in_use := b\<rparr>)) S L M \<and>
    mframe s s' \<and> used0 s' = used0 s"
proof -
  obtain s' where s': "upd_span s sp (\<lambda>x. x\<lparr>in_use := b\<rparr>) = Some s'" "view s' (C(sp := (C sp)\<lparr>in_use := b\<rparr>)) S L M"
      "s' = s\<lparr>meta := meta s'\<rparr>"
    using view_upd [OF v sp, of "\<lambda>x. x\<lparr>in_use := b\<rparr>"] by (auto simp: span_core_def)
  moreover have "mframe s s'" "used0 s' = used0 s" by (subst s'(3), simp add: mframe_def)+
  ultimately show ?thesis by blast
qed

lemma upd_page_count:
  assumes v: "view s C S L M" and sp: "sp \<in> S"
  shows "\<exists>s'. upd_span s sp (\<lambda>x. x\<lparr>page_count := n\<rparr>) = Some s' \<and> view s' (C(sp := (C sp)\<lparr>page_count := n\<rparr>)) S L M \<and>
    mframe s s' \<and> used0 s' = used0 s"
proof -
  obtain s' where s': "upd_span s sp (\<lambda>x. x\<lparr>page_count := n\<rparr>) = Some s'" "view s' (C(sp := (C sp)\<lparr>page_count := n\<rparr>)) S L M"
      "s' = s\<lparr>meta := meta s'\<rparr>"
    using view_upd [OF v sp, of "\<lambda>x. x\<lparr>page_count := n\<rparr>"] by (auto simp: span_core_def)
  moreover have "mframe s s'" "used0 s' = used0 s" by (subst s'(3), simp add: mframe_def)+
  ultimately show ?thesis by blast
qed

text \<open>The memory side of splitting off the rest \<open>l\<close> of a span \<open>sp\<close> that has left its list.\<close>

lemma carve_left_view:
  assumes v: "view s C S L M" and sp: "sp \<in> S" "l \<in> S" "l \<noteq> sp" "l \<notin> HEADS" "\<And>h. h \<in> HEADS \<Longrightarrow> l \<notin> set (L h)"
    and n: "0 < n" and c: "lo C l = lo C sp + n" "0 < page_count (C l)" "hi C l < 2 ^ 35"
    and nxt: "addr_ok (M (hi C l)) \<Longrightarrow> M (hi C l) \<in> S \<and> in_use (C (M (hi C l)))"
    and g: "grants s 0 (K + 811008)"
  shows "\<exists>s'. carve_left s sp n l = Some s' \<and>
    view s' (C(sp := (C sp)\<lparr>page_count := n\<rparr>)) S (L(head_of (page_count (C l)) := l # L (head_of (page_count (C l)))))
      (M(lo C l := l, hi C l - 1 := l, lo C l - 1 := sp)) \<and> mframe s s' \<and> grants s' 0 K"
proof -
  note f = view_fields [OF v sp(2)]
  let ?M1 = "M(lo C l := l)" and ?M2 = "M(lo C l := l, hi C l - 1 := l)"
  have g0: "grants s 0 (K + 540672 + 270336)" using g by (simp add: add.assoc)
  have "lo C l < 2 ^ 35" using c(3) by simp
  then obtain s1 where s1: "set_span_map s (lo C l) l = Some s1" "view s1 C S L ?M1" "mframe s s1" "grants s1 0 (K + 540672)"
    using view_set [OF v _ g0, of "lo C l" l] by blast
  obtain s2 where s2: "(if page_count (C l) > 1 then set_span_map s1 (hi C l - 1) l else Some s1) = Some s2"
      "view s2 C S L ?M2" "mframe s1 s2" "grants s2 0 (K + 270336)"
  proof (cases "page_count (C l) > 1")
    case True
    have "grants s1 0 (K + 270336 + 270336)" "hi C l - 1 < 2 ^ 35" using s1(4) c(3) by (simp_all add: add.assoc)
    then show ?thesis using that True view_set [OF s1(2), of "hi C l - 1" "K + 270336" l] by auto
  next
    case False
    then have "hi C l - 1 = lo C l" using c(2) by simp
    then show ?thesis using that [of s1] False s1 grants_mono [OF s1(4)] by simp
  qed
  have e: "hi C l - 1 \<noteq> hi C l" "lo C l \<noteq> hi C l" using c(2) by auto
  then have get: "get_span_map s2 (hi C l) = Some (M (hi C l))" using view_get [OF s2(2) c(3)] by simp
  have chk: "as_span s2 (M (hi C l)) = Some (spn s2 (M (hi C l)))" "in_use (spn s2 (M (hi C l)))"
    if "addr_ok (M (hi C l))"
    using nxt [OF that] view_fields(1,2) [OF s2(2), of "M (hi C l)"] by simp_all
  obtain s3 where s3: "link_span s2 l = Some s3"
      "view s3 C S (L(head_of (page_count (C l)) := l # L (head_of (page_count (C l))))) ?M2" "mframe s2 s3" "used0 s3 = used0 s2"
    using link_view [OF s2(2) sp(2,4,5)] by blast
  obtain s4 where s4: "upd_span s3 sp (\<lambda>x. x\<lparr>page_count := n\<rparr>) = Some s4"
      "view s4 (C(sp := (C sp)\<lparr>page_count := n\<rparr>)) S (L(head_of (page_count (C l)) := l # L (head_of (page_count (C l))))) ?M2"
      "mframe s3 s4" "used0 s4 = used0 s3"
    using upd_page_count [OF s3(2) sp(1)] by blast
  have g4: "grants s4 0 (K + 270336)"
    using grants_mframe [OF mframe_trans [OF s3(3) s4(3)], of 0 "K + 270336"] s2(4) s3(4) s4(4) by simp
  note f4 = view_fields [OF s4(2) sp(1)]
  have "lo C l - 1 < 2 ^ 35" using c(3) by simp
  then obtain s5 where s5: "set_span_map s4 (lo C l - 1) sp = Some s5"
      "view s5 (C(sp := (C sp)\<lparr>page_count := n\<rparr>)) S (L(head_of (page_count (C l)) := l # L (head_of (page_count (C l)))))
        (?M2(lo C l - 1 := sp))" "mframe s4 s5" "grants s5 0 K"
    using view_set [OF s4(2) _ g4] by blast
  have "carve_left s sp n l = Some s5"
    using f s1(1) s2(1) get s3(1) s4(1) f4 n c(1) s5(1) c(2) chk
    by (cases "addr_ok (M (hi C l))") (simp_all add: carve_left_def last_page_def split: if_splits)
  moreover have "mframe s s5" using s1(3) s2(3) s3(3) s4(3) s5(3) by (meson mframe_trans)
  ultimately show ?thesis using s5(2,4) by blast
qed

definition carved ::
    "addr \<Rightarrow> nat \<Rightarrow> (addr \<Rightarrow> span) \<Rightarrow> (addr \<Rightarrow> addr list) \<Rightarrow> (nat \<Rightarrow> addr) \<Rightarrow> addr set \<Rightarrow>
     shm \<Rightarrow> (addr \<Rightarrow> span) \<Rightarrow> addr set \<Rightarrow> (addr \<Rightarrow> addr list) \<Rightarrow> (nat \<Rightarrow> addr) \<Rightarrow> addr set \<Rightarrow> bool" where
  "carved sp n C L M A s' C' S' L' M' A' \<longleftrightarrow>
     heap_inv s' C' S' L' M' A' {} \<and> hframe sp C L M A C' L' M' A' \<and> sp \<in> A \<and> sp \<in> A' \<and>
     \<not> in_use (C sp) \<and> n \<le> page_count (C sp) \<and> C' sp = (C sp)\<lparr>page_count := n, in_use := True\<rparr>"

lemma carve_whole:
  assumes inv: "heap_inv s C S L M A {}" and sp: "sp \<in> A" "\<not> in_use (C sp)"
    and v: "view s' (C(sp := (C sp)\<lparr>in_use := True\<rparr>)) S L' M" and mf: "mframe s s'"
    and L': "lists_ok C (A - {sp}) L'" "\<And>c. L' (cl_head c) = L (cl_head c)"
  shows "carved sp (page_count (C sp)) C L M A s' (C(sp := (C sp)\<lparr>in_use := True\<rparr>)) S L' M A"
proof -
  note d = heap_invD [OF inv]
  let ?C = "C(sp := (C sp)\<lparr>in_use := True\<rparr>)"
  have "heap_inv s' ?C S L' M A {}"
    unfolding heap_inv_def mframe_pages [OF mf]
  proof (intro conjI)
    have "lists_ok ?C (A - {sp}) L'" by (rule lists_ok_cong [OF L'(1)]) auto
    then show "lists_ok ?C (A - {}) L'" using lists_ok_use [of ?C A sp] by simp
    show "tiling (lo ?C) (hi ?C) A (pages s)" by (rule tiling_cong [OF d(5)]) auto
    show "\<forall>a \<in> A - {}. \<forall>b \<in> A - {}. hi ?C a = lo ?C b \<longrightarrow> in_use (?C a) \<or> in_use (?C b)" using d(10) by simp
  qed (use v d in auto)
  moreover have "hframe sp C L M A ?C L' M A" using L'(2) by (simp add: hframe_def payload_def)
  ultimately show ?thesis using sp by (simp add: carved_def)
qed

lemma carve_split:
  assumes inv: "heap_inv s C S L M A {}" and sp: "sp \<in> A" "\<not> in_use (C sp)" and l: "l \<notin> S"
    and n: "0 < n" "n < page_count (C sp)"
    and C': "C' = C(l := span_make (lo C sp + n) (page_count (C sp) - n), sp := (C sp)\<lparr>page_count := n, in_use := True\<rparr>)"
    and M': "M' = M(lo C sp + n := l, hi C sp - 1 := l, lo C sp + n - 1 := sp)"
    and v: "view s' C' (insert l S) (L'(head_of (page_count (C sp) - n) := l # L' (head_of (page_count (C sp) - n)))) M'"
    and mf: "mframe s s'" and L': "lists_ok C (A - {sp}) L'" "\<And>c. L' (cl_head c) = L (cl_head c)"
  shows "carved sp n C L M A s' C' (insert l S) (L'(head_of (page_count (C sp) - n) := l # L' (head_of (page_count (C sp) - n))))
    M' (insert l A)"
proof -
  note d = heap_invD [OF inv]
  have lA: "l \<notin> A" "l \<noteq> sp" using l sp d(2) by auto
  have Cl: "lo C' l = lo C sp + n" "hi C' l = hi C sp" "page_count (C' l) = page_count (C sp) - n" "\<not> in_use (C' l)"
    using lA(2) n by (auto simp: C' span_make_def span_default_def)
  have Csp: "lo C' sp = lo C sp" "hi C' sp = lo C sp + n" "in_use (C' sp)" by (simp_all add: C')
  have Co: "C' a = C a" if "a \<in> A" "a \<noteq> sp" for a using that lA by (auto simp: C')
  have tl: "tiling (lo C') (hi C') (insert l A) (pages s)"
    by (rule tiling_cong [OF tiling_split [OF d(5) sp(1) lA(1), of "lo C sp + n"]]) (use n Cl Csp Co lA in auto)
  have far: "hi C a \<le> lo C sp \<or> hi C sp \<le> lo C a" if "a \<in> A" "a \<noteq> sp" for a
    using tilingD(3) [OF d(5) that(1) sp(1) that(2)] .
  have Mo: "M' p = M p" if "a \<in> A" "a \<noteq> sp" "lo C a \<le> p" "p < hi C a" for a p
    using far [OF that(1,2)] that(3,4) n by (auto simp: M')
  have T: "hi C sp \<le> pages s" using tilingD(2) [OF d(5) sp(1)] .
  have "heap_inv s' C' (insert l S) (L'(head_of (page_count (C sp) - n) := l # L' (head_of (page_count (C sp) - n)))) M' (insert l A) {}"
    unfolding heap_inv_def mframe_pages [OF mf]
  proof (intro conjI)
    show "insert l A \<subseteq> insert l S - HEADS" using d(2,3) l viewD(8) [OF d(1)] by blast
    show "finite (insert l A)" using d(4) by simp
    have "lists_ok C' (A - {sp}) L'" by (rule lists_ok_cong [OF L'(1)]) (use Co in auto)
    then have "lists_ok C' A L'" using lists_ok_use Csp(3) by blast
    then show "lists_ok C' (insert l A - {}) (L'(head_of (page_count (C sp) - n) := l # L' (head_of (page_count (C sp) - n))))"
      using lists_ok_add [of C' A L' l] Cl(3,4) by simp
    show "\<forall>p \<ge> pages s. M' p = nulladdr"
    proof (intro allI impI)
      fix p assume p: "pages s \<le> p"
      then have "p \<noteq> lo C sp + n" "p \<noteq> hi C sp - 1" "p \<noteq> lo C sp + n - 1" using T n by linarith+
      then show "M' p = nulladdr" using d(9) [OF p] by (simp add: M')
    qed
    show "\<forall>a \<in> insert l A - {}. M' (lo C' a) = a \<and> M' (hi C' a - 1) = a"
    proof
      fix a assume "a \<in> insert l A - {}"
      then consider "a = l" | "a = sp" | "a \<in> A" "a \<noteq> sp" by blast
      then show "M' (lo C' a) = a \<and> M' (hi C' a - 1) = a"
      proof cases
        case 1
        have "lo C sp + n \<noteq> lo C sp + n - 1" "hi C sp - 1 \<noteq> lo C sp + n - 1" using n by linarith+
        with 1 show ?thesis using Cl by (simp add: M')
      next
        case 2 then show ?thesis using Csp n d(7) [OF sp(1)] lA by (auto simp: M')
      next
        case 3
        then show ?thesis
          using Mo [OF 3, of "lo C a"] Mo [OF 3, of "hi C a - 1"] Co [OF 3] d(7,8) [OF 3(1)] tilingD(1) [OF d(5) 3(1)] by simp
      qed
    qed
    show "\<forall>a \<in> insert l A - {}. \<forall>b \<in> insert l A - {}. hi C' a = lo C' b \<longrightarrow> in_use (C' a) \<or> in_use (C' b)"
    proof (intro ballI impI)
      fix a b assume ab: "a \<in> insert l A - {}" "b \<in> insert l A - {}" "hi C' a = lo C' b"
      consider "a = sp \<or> b = sp" | "a = l" "b \<in> A" "b \<noteq> sp" | "b = l" "a \<in> A" "a \<noteq> sp" | "a = l" "b = l"
        | "a \<in> A" "a \<noteq> sp" "b \<in> A" "b \<noteq> sp"
        using ab by blast
      then show "in_use (C' a) \<or> in_use (C' b)"
      proof cases
        case 1 then show ?thesis using Csp(3) by blast
      next
        case 2
        then have "hi C sp = lo C b" using ab(3) Cl(2) Co by simp
        then show ?thesis using d(10) [OF sp(1) _ 2(2)] sp(2) Co [OF 2(2,3)] by simp
      next
        case 3
        then have "hi C a = lo C sp + n" using ab(3) Cl(1) Co by simp
        then show ?thesis using far [OF 3(2,3)] n tilingD(1) [OF d(5) 3(2)] by simp
      next
        case 4
        then show ?thesis using ab(3) Cl n by simp
      next
        case 5
        then show ?thesis using d(10) [OF 5(1) _ 5(3)] ab(3) Co by simp
      qed
    qed
  qed (use v tl in auto)
  moreover have "hframe sp C L M A C' (L'(head_of (page_count (C sp) - n) := l # L' (head_of (page_count (C sp) - n)))) M' (insert l A)"
    unfolding hframe_def
  proof (intro conjI ballI impI allI)
    fix a assume a: "a \<in> insert l A" "a \<noteq> sp" "in_use (C' a)"
    then show "a \<in> A" "C' a = C a" using Cl(4) Co by blast+
  next
    fix a show "payload (C' a) = payload (C a) \<or> payload (C' a) = payload span_default"
      by (simp add: C' payload_def span_make_def)
  qed (use Co Mo L'(2) in auto)
  ultimately show ?thesis using sp n by (simp add: carved_def C')
qed

lemma carve_ok:
  assumes inv: "heap_inv s C S L M A {}" and sp: "sp \<in> A" "\<not> in_use (C sp)" and n: "0 < n" "n \<le> page_count (C sp)"
    and g: "grants s 0 (K + 942080)"
  shows "\<exists>s' C' S' L' M' A'. carve s sp n = Some (sp, s') \<and> carved sp n C L M A s' C' S' L' M' A' \<and>
    mframe s s' \<and> grants s' 0 K"
proof -
  note d = heap_invD [OF inv]
  have spS: "sp \<in> S" using d(2) sp by auto
  note f = view_fields [OF d(1) spS]
  let ?h = "head_of (page_count (C sp))"
  let ?L = "L(?h := remove1 sp (L ?h))"
  have "distinct (L ?h)" using rings_distinct [OF viewD(7) [OF d(1)]] by simp
  then have lx: "sp \<in> set (L ?h)" "lists_ok C (A - {sp}) ?L" using lists_ok_remove [OF d(6), of sp] sp by simp_all
  have cl: "?L (cl_head c) = L (cl_head c)" for c by simp
  obtain s1 where s1: "span_list_remove s sp = Some s1" "view s1 C S ?L M" "mframe s s1" "used0 s1 = used0 s"
    using view_remove [OF d(1) _ lx(1)] by auto
  note f1 = view_fields [OF s1(2) spS]
  have g1: "grants s1 0 (K + 811008 + 131072)"
    using grants_mframe [OF s1(3), of 0] g s1(4) by (simp add: add.assoc)
  show ?thesis
  proof (cases "n = page_count (C sp)")
    case True
    obtain s2 where s2: "upd_span s1 sp (\<lambda>x. x\<lparr>in_use := True\<rparr>) = Some s2"
        "view s2 (C(sp := (C sp)\<lparr>in_use := True\<rparr>)) S ?L M" "mframe s1 s2" "used0 s2 = used0 s1"
      using upd_in_use [OF s1(2) spS] by blast
    have mf: "mframe s s2" using mframe_trans [OF s1(3) s2(3)] .
    have "carve s sp n = Some (sp, s2)" using f f1 sp(2) s1(1) s2(1) True by (simp add: carve_def)
    moreover have "carved sp n C L M A s2 (C(sp := (C sp)\<lparr>in_use := True\<rparr>)) S ?L M A"
      unfolding True by (rule carve_whole [OF inv sp s2(2) mf lx(2)]) simp
    moreover have "grants s2 0 K" using grants_mframe [OF mf, of 0 K] grants_mono [OF g] s1(4) s2(4) by simp
    ultimately show ?thesis using mf by blast
  next
    case False
    then have n': "n < page_count (C sp)" using n(2) by simp
    let ?e = "page_count (C sp) - n"
    obtain l s2 where s2: "new_span s1 (lo C sp + n) ?e = Some (l, s2)" "l \<notin> S" "addr_ok l"
        "view s2 (C(l := span_make (lo C sp + n) ?e)) (insert l S) ?L M" "mframe s1 s2" "grants s2 0 (K + 811008)"
      using view_new [OF s1(2) g1, of "lo C sp + n" ?e] by blast
    let ?C2 = "C(l := span_make (lo C sp + n) ?e)"
    have l: "l \<noteq> sp" "l \<notin> HEADS" "\<And>h. h \<in> HEADS \<Longrightarrow> l \<notin> set (?L h)"
      using s2(2) spS viewD(8,9) [OF s1(2)] by blast+
    have Cl: "lo ?C2 l = lo ?C2 sp + n" "page_count (?C2 l) = ?e" "hi ?C2 l = hi C sp" "?C2 sp = C sp"
      using l(1) n' by (auto simp: span_make_def span_default_def)
    have T: "hi C sp \<le> pages s" "pages s \<le> 2 ^ 34"
      using tilingD(2) [OF d(5) sp(1)] pages_bound [OF viewD(1) [OF d(1)]] by auto
    have nxt: "M (hi ?C2 l) \<in> insert l S \<and> in_use (?C2 (M (hi ?C2 l)))" if ok: "addr_ok (M (hi ?C2 l))"
    proof -
      have "hi C sp < pages s" using ok d(9) [of "hi C sp"] Cl(3) by (metis addr_ok_null not_less)
      then obtain b where b: "b \<in> A" "b \<noteq> sp" "lo C b = hi C sp" using tiling_next [OF d(5) sp(1)] by blast
      then have "M (hi C sp) = b" "in_use (C b)" using d(7) [OF b(1)] d(10) [OF sp(1) _ b(1)] sp(2) by auto
      moreover have "b \<noteq> l" "b \<in> S" using b(1) d(2) s2(2) by auto
      ultimately show ?thesis unfolding Cl(3) by simp
    qed
    have A1: "sp \<in> insert l S" "l \<in> insert l S" "0 < page_count (?C2 l)" "hi ?C2 l < 2 ^ 35"
      using spS Cl(2) n' T unfolding Cl(3) by simp_all
    have "\<exists>s3. carve_left s2 sp n l = Some s3 \<and>
        view s3 (?C2(sp := (?C2 sp)\<lparr>page_count := n\<rparr>)) (insert l S)
          (?L(head_of (page_count (?C2 l)) := l # ?L (head_of (page_count (?C2 l)))))
          (M(lo ?C2 l := l, hi ?C2 l - 1 := l, lo ?C2 l - 1 := sp)) \<and> mframe s2 s3 \<and> grants s3 0 K"
      by (rule carve_left_view [where C = ?C2 and L = ?L and M = M and S = "insert l S" and s = s2 and sp = sp
            and l = l and n = n and K = K])
        (fact s2(4) A1 l n(1) Cl(1) s2(6) nxt)+
    then obtain s3 where s3: "carve_left s2 sp n l = Some s3"
        "view s3 (?C2(sp := (C sp)\<lparr>page_count := n\<rparr>)) (insert l S) (?L(head_of ?e := l # ?L (head_of ?e)))
          (M(lo C sp + n := l, hi C sp - 1 := l, lo C sp + n - 1 := sp))" "mframe s2 s3" "grants s3 0 K"
      unfolding Cl(3) unfolding Cl(1,2) unfolding Cl(4) by blast
    obtain s4 where s4: "upd_span s3 sp (\<lambda>x. x\<lparr>in_use := True\<rparr>) = Some s4"
        "view s4 (C(l := span_make (lo C sp + n) ?e, sp := (C sp)\<lparr>page_count := n, in_use := True\<rparr>)) (insert l S)
          (?L(head_of ?e := l # ?L (head_of ?e))) (M(lo C sp + n := l, hi C sp - 1 := l, lo C sp + n - 1 := sp))"
        "mframe s3 s4" "used0 s4 = used0 s3"
      using upd_in_use [OF s3(2), of sp True] spS by auto
    have mf: "mframe s s4" using s1(3) s2(5) s3(3) s4(3) by (meson mframe_trans)
    have "carve s sp n = Some (sp, s4)"
      using f f1 sp(2) s1(1) s2(1,3) s3(1) s4(1) n' by (simp add: carve_def)
    moreover have "carved sp n C L M A s4 (C(l := span_make (lo C sp + n) ?e, sp := (C sp)\<lparr>page_count := n, in_use := True\<rparr>))
        (insert l S) (?L(head_of ?e := l # ?L (head_of ?e))) (M(lo C sp + n := l, hi C sp - 1 := l, lo C sp + n - 1 := sp)) (insert l A)"
      by (rule carve_split [OF inv sp s2(2) n(1) n' refl refl s4(2) mf lx(2) cl])
    moreover have "grants s4 0 K" using grants_mframe [OF s4(3), of 0 K] s3(4) s4(4) by simp
    ultimately show ?thesis using mf by blast
  qed
qed

section \<open>Searching\<close>

lemma search_lists_ok:
  assumes v: "view s C S L M" and "\<forall>i \<in> set is. i < 128" and "sorted is"
  shows "\<exists>r. search_lists s is = Some r \<and>
    (case r of None \<Rightarrow> \<forall>i \<in> set is. L (fl_head i) = []
     | Some a \<Rightarrow> \<exists>i \<in> set is. a \<in> set (L (fl_head i)) \<and> (\<forall>j \<in> set is. j < i \<longrightarrow> L (fl_head j) = []))"
  using assms(2,3)
proof (induction "is")
  case (Cons i "is")
  have h: "fl_head i \<in> HEADS" using Cons.prems by simp
  have ad: "span_addr s (free_list_offset i) = Some (fl_head i)" using view_head [OF v] h by (simp add: fl_head_def)
  have hS: "fl_head i \<in> S" using viewD(8) [OF v] h by auto
  have as: "as_span s (fl_head i) = Some (spn s (fl_head i))" using view_fields(1) [OF v hS] .
  have em: "span_list_empty s (fl_head i) = Some (L (fl_head i) = [])"
    using as rings_empty [OF viewD(7) [OF v] h] by (simp add: span_list_empty_def addr_eq_meta fl_head_def)
  show ?case
  proof (cases "L (fl_head i) = []")
    case True
    obtain r where r: "search_lists s is = Some r"
        "case r of None \<Rightarrow> \<forall>i \<in> set is. L (fl_head i) = []
         | Some a \<Rightarrow> \<exists>i \<in> set is. a \<in> set (L (fl_head i)) \<and> (\<forall>j \<in> set is. j < i \<longrightarrow> L (fl_head j) = [])"
      using Cons.IH Cons.prems by auto
    have "search_lists s (i # is) = Some r" using ad em True r(1) by simp
    with r(2) True show ?thesis by (cases r) auto
  next
    case False
    then obtain y ys where y: "L (fl_head i) = y # ys" by (cases "L (fl_head i)") auto
    then have "span_nx s (fl_head i) = y" using rings_first [OF viewD(7) [OF v] h] by blast
    then have "search_lists s (i # is) = Some (Some y)" using ad em False as by simp
    moreover have "\<forall>j \<in> set (i # is). \<not> j < i" using Cons.prems(2) by auto
    ultimately show ?thesis using y by (intro exI [of _ "Some y"]) auto
  qed
qed simp

definition fits_better :: "(addr \<Rightarrow> span) \<Rightarrow> addr \<Rightarrow> addr \<Rightarrow> bool" where
  "fits_better C a b \<longleftrightarrow>
     page_count (C a) < page_count (C b) \<or> (page_count (C a) = page_count (C b) \<and> start_page (C a) \<le> start_page (C b))"

lemma large_loop_ok:
  assumes v: "view s C S L M"
    and "chain (span_nx s) (span_pv s) (zs @ [e])" and "set zs \<subseteq> S" and "e \<notin> set zs" and "fst e = 1"
    and "it = hd (zs @ [e])" and "addr_ok best \<Longrightarrow> best \<in> S \<and> n \<le> page_count (C best)"
  shows "\<exists>r. large_loop s n it e best = Some r \<and>
    (if addr_ok r then (r = best \<or> r \<in> set zs) \<and> n \<le> page_count (C r) \<and>
       (\<forall>z \<in> set zs \<union> (if addr_ok best then {best} else {}). n \<le> page_count (C z) \<longrightarrow> fits_better C r z)
     else r = best \<and> \<not> addr_ok best \<and> (\<forall>z \<in> set zs. page_count (C z) < n))"
  using assms(2-)
proof (induction zs arbitrary: it best)
  case Nil
  then have "large_loop s n it e best = Some best" by (subst large_loop.simps) (simp add: addr_eq_def)
  with Nil show ?case by (auto simp: fits_better_def)
next
  case (Cons z zs)
  have it: "it = z" using Cons.prems by simp
  have zS: "z \<in> S" "z \<noteq> e" using Cons.prems by auto
  note f = view_fields [OF v zS(1)]
  have nx: "span_nx s z = hd (zs @ [e])" "chain (span_nx s) (span_pv s) (zs @ [e])"
    using Cons.prems(1) by (cases "zs @ [e]"; simp)+
  have ne: "\<not> addr_eq z e" using zS(2) Cons.prems(4) by (simp add: addr_eq_meta)
  have okz: "addr_ok z" using viewD(5) [OF v] zS(1) is_span_ok by blast
  define best' where "best' = (if page_count (C z) < n then best else if \<not> addr_ok best then z
      else if page_count (C z) < page_count (C best) \<or> page_count (C z) = page_count (C best) \<and> lo C z < lo C best
        then z else best)"
  have step: "large_loop s n it e best = large_loop s n (hd (zs @ [e])) e best'"
    using f ne it nx(1) Cons.prems(6) view_fields [OF v, of best]
    by (subst large_loop.simps) (auto simp: best'_def)
  have b': "addr_ok best' \<Longrightarrow> best' \<in> S \<and> n \<le> page_count (C best')"
    using Cons.prems(6) zS by (auto simp: best'_def split: if_splits)
  obtain r where r: "large_loop s n (hd (zs @ [e])) e best' = Some r"
      "if addr_ok r then (r = best' \<or> r \<in> set zs) \<and> n \<le> page_count (C r) \<and>
         (\<forall>z \<in> set zs \<union> (if addr_ok best' then {best'} else {}). n \<le> page_count (C z) \<longrightarrow> fits_better C r z)
       else r = best' \<and> \<not> addr_ok best' \<and> (\<forall>z \<in> set zs. page_count (C z) < n)"
    using Cons.IH [OF nx(2) _ _ Cons.prems(4) refl b'] Cons.prems(2,3) by auto
  have fb: "fits_better C r z \<and> (addr_ok best \<longrightarrow> fits_better C r best)"
    if "addr_ok r" "n \<le> page_count (C z)" "fits_better C r best'" 
    using that Cons.prems(6) by (auto simp: best'_def fits_better_def split: if_splits)
  show ?case
  proof (cases "addr_ok r")
    case True
    then have R: "r = best' \<or> r \<in> set zs" "n \<le> page_count (C r)"
        "\<forall>z \<in> set zs \<union> (if addr_ok best' then {best'} else {}). n \<le> page_count (C z) \<longrightarrow> fits_better C r z"
      using r(2) by auto
    have "r = best \<or> r \<in> set (z # zs)" using R(1) by (auto simp: best'_def split: if_splits)
    moreover have "fits_better C r y" if y: "y \<in> set (z # zs) \<union> (if addr_ok best then {best} else {})" "n \<le> page_count (C y)" for y
    proof (cases "y \<in> set zs")
      case True then show ?thesis using R(3) y(2) by blast
    next
      case False
      then have yb: "y = z \<or> addr_ok best \<and> y = best" using y(1) by (auto split: if_splits)
      show ?thesis
      proof (cases "page_count (C z) < n")
        case True
        then have "y = best" "best' = best" "addr_ok best" using yb y(2) by (auto simp: best'_def)
        then show ?thesis using R(3) y(2) by auto
      next
        case F: False
        then have "addr_ok best'" using okz by (auto simp: best'_def)
        then have "fits_better C r best'" using R(3) b' by auto
        then show ?thesis using fb [OF True] F yb by auto
      qed
    qed
    ultimately show ?thesis using True R(2) step r(1) by auto
  next
    case False
    then have R: "r = best'" "\<not> addr_ok best'" "\<forall>z \<in> set zs. page_count (C z) < n" using r(2) by auto
    then have "page_count (C z) < n" "best' = best" using okz by (auto simp: best'_def split: if_splits)
    with R False step r(1) show ?thesis by auto
  qed
qed

definition best_fit :: "(addr \<Rightarrow> span) \<Rightarrow> addr set \<Rightarrow> nat \<Rightarrow> addr \<Rightarrow> bool" where
  "best_fit C A n sp \<longleftrightarrow> sp \<in> A \<and> \<not> in_use (C sp) \<and> n \<le> page_count (C sp) \<and>
     (\<forall>a \<in> A. \<not> in_use (C a) \<longrightarrow> n \<le> page_count (C a) \<longrightarrow> page_count (C sp) \<le> page_count (C a))"

lemma search_existing_ok:
  assumes inv: "heap_inv s C S L M A {}" and n: "0 < n" and g: "grants s 0 (K + 942080)"
  shows "(\<exists>sp s' C' S' L' M' A'. search_existing s n = Some (sp, s') \<and> best_fit C A n sp \<and>
      carved sp n C L M A s' C' S' L' M' A' \<and> mframe s s' \<and> grants s' 0 K) \<or>
    search_existing s n = Some (nulladdr, s) \<and> (\<forall>a \<in> A. \<not> in_use (C a) \<longrightarrow> page_count (C a) < n)"
proof -
  note d = heap_invD [OF inv]
  have l: "set (L (head_of m)) = {a \<in> A. \<not> in_use (C a) \<and> head_of (page_count (C a)) = head_of m}" for m
    using d(6) by (simp add: lists_ok_def)
  have lf: "a \<in> set (L (fl_head i)) \<longleftrightarrow> a \<in> A \<and> \<not> in_use (C a) \<and> page_count (C a) = i" if "i < 128" for a i
    using l [of i] that head_of_eq [of "page_count (C a)" i] by (simp add: head_of_def [of i])
  have ll: "a \<in> set (L lg_head) \<longleftrightarrow> a \<in> A \<and> \<not> in_use (C a) \<and> 128 \<le> page_count (C a)" for a
    using l [of 128] head_of_eq [of "page_count (C a)" 128] by (simp add: head_of_def [of 128])
  obtain r where r: "search_lists s [n..<128] = Some r"
      "case r of None \<Rightarrow> \<forall>i \<in> set [n..<128]. L (fl_head i) = []
       | Some a \<Rightarrow> \<exists>i \<in> set [n..<128]. a \<in> set (L (fl_head i)) \<and> (\<forall>j \<in> set [n..<128]. j < i \<longrightarrow> L (fl_head j) = [])"
    using search_lists_ok [OF d(1), of "[n..<128]"] by auto
  show ?thesis
  proof (cases r)
    case (Some sp)
    then obtain i where i: "n \<le> i" "i < 128" "sp \<in> set (L (fl_head i))" "\<forall>j. n \<le> j \<longrightarrow> j < i \<longrightarrow> L (fl_head j) = []"
      using r(2) by auto
    have sp: "sp \<in> A" "\<not> in_use (C sp)" "page_count (C sp) = i" using i lf by auto
    have "i \<le> page_count (C a)" if "a \<in> A" "\<not> in_use (C a)" "n \<le> page_count (C a)" for a
    proof (rule ccontr)
      assume "\<not> i \<le> page_count (C a)"
      then have "L (fl_head (page_count (C a))) = []" "page_count (C a) < 128" using i that by auto
      then show False using lf [of "page_count (C a)" a] that by simp
    qed
    then have bf: "best_fit C A n sp" using sp i by (simp add: best_fit_def)
    have np: "n \<le> page_count (C sp)" using sp i by simp
    obtain s' C' S' L' M' A' where "carve s sp n = Some (sp, s')" "carved sp n C L M A s' C' S' L' M' A'" "mframe s s'" "grants s' 0 K"
      using carve_ok [OF inv sp(1,2) n np g] by blast
    moreover from this have "search_existing s n = Some (sp, s')"
      using r(1) Some by (simp add: search_existing_def MAX_PAGES_def)
    ultimately show ?thesis using bf by blast
  next
    case None
    then have small: "128 \<le> page_count (C a)" if "a \<in> A" "\<not> in_use (C a)" "n \<le> page_count (C a)" for a
      using r(2) lf [of "page_count (C a)" a] that by (force simp: not_le)
    have lgS: "lg_head \<in> S" using viewD(8) [OF d(1)] by auto
    have ad: "span_addr s large_list_offset = Some lg_head"
      using view_head [OF d(1)] heads_in(2) by (simp add: lg_head_def)
    note as = view_fields(1) [OF d(1) lgS]
    have rg: "ring (span_nx s) (span_pv s) lg_head (L lg_head)" using rings_ring [OF viewD(7) [OF d(1)]] by simp
    then have ch: "chain (span_nx s) (span_pv s) (L lg_head @ [lg_head])" "lg_head \<notin> set (L lg_head)"
      "span_nx s lg_head = hd (L lg_head @ [lg_head])"
      by (cases "L lg_head"; simp add: ring_def)+
    have sub: "set (L lg_head) \<subseteq> S" using viewD(9) [OF d(1)] by simp
    obtain b where b: "large_loop s n (span_nx s lg_head) lg_head nulladdr = Some b"
        "if addr_ok b then (b = nulladdr \<or> b \<in> set (L lg_head)) \<and> n \<le> page_count (C b) \<and>
           (\<forall>z \<in> set (L lg_head) \<union> (if addr_ok nulladdr then {nulladdr} else {}). n \<le> page_count (C z) \<longrightarrow> fits_better C b z)
         else b = nulladdr \<and> \<not> addr_ok nulladdr \<and> (\<forall>z \<in> set (L lg_head). page_count (C z) < n)"
      using large_loop_ok [OF d(1) ch(1) sub ch(2) _ ch(3), of nulladdr n] by (auto simp: lg_head_def)
    show ?thesis
    proof (cases "addr_ok b")
      case True
      then have B: "b \<in> set (L lg_head)" "n \<le> page_count (C b)"
          "\<forall>z \<in> set (L lg_head). n \<le> page_count (C z) \<longrightarrow> fits_better C b z"
        using b(2) by auto
      have bA: "b \<in> A" "\<not> in_use (C b)" using B(1) ll by auto
      have "page_count (C b) \<le> page_count (C a)" if "a \<in> A" "\<not> in_use (C a)" "n \<le> page_count (C a)" for a
        using B(3) ll [of a] small [OF that] that by (auto simp: fits_better_def)
      then have bf: "best_fit C A n b" using bA B by (simp add: best_fit_def)
      obtain s' C' S' L' M' A' where "carve s b n = Some (b, s')" "carved b n C L M A s' C' S' L' M' A'" "mframe s s'" "grants s' 0 K"
        using carve_ok [OF inv bA n B(2) g] by blast
      moreover from this have "search_existing s n = Some (b, s')"
        using r(1) None ad as b(1) True by (simp add: search_existing_def allocate_large_def MAX_PAGES_def)
      ultimately show ?thesis using bf by blast
    next
      case False
      then have B: "b = nulladdr" "\<forall>z \<in> set (L lg_head). page_count (C z) < n" using b(2) by auto
      have "search_existing s n = Some (nulladdr, s)"
        using r(1) None ad as b(1) B(1) by (simp add: search_existing_def allocate_large_def MAX_PAGES_def)
      moreover have "page_count (C a) < n" if "a \<in> A" "\<not> in_use (C a)" for a
        using small [OF that] B(2) ll [of a] that by force
      ultimately show ?thesis by blast
    qed
  qed
qed

end
