(* ===== verification/Page_Heap_Alloc.thy ===== *)
theory Page_Heap_Alloc
  imports Page_Heap_Correct
begin

text \<open>
  Growing the page heap and allocating from it: \<^verbatim>\<open>allocate_span\<close>, \<^verbatim>\<open>grow_heap\<close> and
  \<^verbatim>\<open>register_span\<close> keep the invariant, and allocation is best fit.
\<close>

section \<open>The heap invariant with its statistics\<close>

text \<open>
  \<open>page_heap_ok\<close> adds to \<open>heap_inv\<close> that \<^verbatim>\<open>stat_.used_size\<close> counts the pages in use and that
  the fields the chunk cache owns are reset in every span that is not in use.
\<close>

definition page_heap_ok ::
    "shm \<Rightarrow> (addr \<Rightarrow> span) \<Rightarrow> addr set \<Rightarrow> (addr \<Rightarrow> addr list) \<Rightarrow> (nat \<Rightarrow> addr) \<Rightarrow> addr set \<Rightarrow> bool" where
  "page_heap_ok s C S L M A \<longleftrightarrow> heap_inv s C S L M A {} \<and>
     ph_used_size (ph_stat s) = used_pages C A \<and>
     (\<forall>a. a \<notin> HEADS \<longrightarrow> \<not> (a \<in> A \<and> in_use (C a)) \<longrightarrow> payload (C a) = payload span_default)"

lemma page_heap_okD:
  assumes "page_heap_ok s C S L M A"
  shows "heap_inv s C S L M A {}" "ph_used_size (ph_stat s) = used_pages C A"
    "a \<notin> HEADS \<Longrightarrow> \<not> (a \<in> A \<and> in_use (C a)) \<Longrightarrow> payload (C a) = payload span_default"
  using assms unfolding page_heap_ok_def by blast+

lemma payload_hframe:
  assumes cl: "\<And>a. a \<notin> HEADS \<Longrightarrow> \<not> (a \<in> A \<and> in_use (C a)) \<Longrightarrow> payload (C a) = payload span_default"
    and f: "hframe sp C L M A C' L' M' A'" and sp: "\<not> (sp \<in> A' \<and> in_use (C' sp)) \<Longrightarrow> payload (C sp) = payload span_default"
    and a: "a \<notin> HEADS" "\<not> (a \<in> A' \<and> in_use (C' a))"
  shows "payload (C' a) = payload span_default"
proof (cases "payload (C' a) = payload span_default")
  case False
  then have e: "payload (C' a) = payload (C a)" using hframeD(7) [OF f, of a] by blast
  show ?thesis
  proof (cases "a = sp")
    case True then show ?thesis using sp a(2) e by simp
  next
    case False
    then have "\<not> (a \<in> A \<and> in_use (C a))" using hframeD(1,2) [OF f] a(2) by metis
    then show ?thesis using cl a(1) e by simp
  qed
qed

lemma page_heap_dealloc:
  assumes ok: "page_heap_ok s C S L M A" and sp: "sp \<in> A" "in_use (C sp)" "payload (C sp) = payload span_default"
    and ul: "\<And>c. c < 87 \<Longrightarrow> sp \<notin> set (L (cl_head c))" and g: "grants s 0 (K + 540672)"
  shows "\<exists>s' C' S' L' M' A'. deallocate_span s sp = Some s' \<and> page_heap_ok s' C' S' L' M' A' \<and>
    hframe sp C L M A C' L' M' A' \<and> sp \<in> A' \<and> \<not> in_use (C' sp) \<and> pframe s s' \<and> grants s' 0 K \<and>
    page_count (C sp) \<le> page_count (C' sp)"
proof -
  note d = page_heap_okD [OF ok]
  note fin = heap_invD(4) [OF d(1)]
  have us: "page_count (C sp) \<le> used_pages C A"
    unfolding used_pages_def using sp(1,2) fin member_le_sum [of sp "{a \<in> A. in_use (C a)}" "\<lambda>a. page_count (C a)"] by simp
  then obtain s' C' S' L' M' A' where s': "deallocate_span s sp = Some s'" "heap_inv s' C' S' L' M' A' {}"
      "hframe sp C L M A C' L' M' A'" "sp \<in> A'" "\<not> in_use (C' sp)" "pframe s s'" "grants s' 0 K"
      "ph_used_size (ph_stat s') = ph_used_size (ph_stat s) - page_count (C sp)"
      "lo C' sp \<le> lo C sp" "hi C sp \<le> hi C' sp"
    using deallocate_span_ok [OF d(1) sp(1,2) ul _ g] d(2) by auto
  have "used_pages C' A' + page_count (C sp) = used_pages C A"
    using used_pages_hframe [OF s'(3) fin heap_invD(4) [OF s'(2)]] sp s'(5) by simp
  then have "ph_used_size (ph_stat s') = used_pages C' A'" using s'(8) d(2) by simp
  moreover have "payload (C' a) = payload span_default" if "a \<notin> HEADS" "\<not> (a \<in> A' \<and> in_use (C' a))" for a
    using payload_hframe [OF d(3) s'(3) _ that] sp(3) by blast
  ultimately have "page_heap_ok s' C' S' L' M' A'" using s'(2) by (simp add: page_heap_ok_def)
  moreover have "page_count (C sp) \<le> page_count (C' sp)" using s'(9,10) by linarith
  ultimately show ?thesis using s' by blast
qed

section \<open>Growing\<close>

abbreviation used1 :: "shm \<Rightarrow> nat" where "used1 s \<equiv> used_size (blocks s 1)"

text \<open>Only the userdata block, the count of system calls and a counter have changed.\<close>

definition uframe :: "shm \<Rightarrow> shm \<Rightarrow> bool" where
  "uframe s s' \<longleftrightarrow>
     os s' = os s \<and> default_mmap_size s' = default_mmap_size s \<and> user s' = user s \<and> meta s' = meta s \<and>
     lv0 s' = lv0 s \<and> span_free_list s' = span_free_list s \<and>
     sizes s' = sizes s \<and> ph_stat s' = ph_stat s \<and> caches s' = caches s \<and> cc_stat s' = cc_stat s \<and>
     serial_no s' = serial_no s \<and> singletons s' = singletons s \<and> blocks s' 0 = blocks s 0 \<and>
     block_ok (blocks s' 1) \<and> used1 s \<le> used1 s' \<and> (block_addr (blocks s 1) \<noteq> 0 \<longrightarrow> block_addr (blocks s' 1) = block_addr (blocks s 1)) \<and>
     (used1 s < used1 s' \<longrightarrow> block_addr (blocks s' 1) \<noteq> 0)"

lemma uframe_trans: "uframe s s' \<Longrightarrow> uframe s' s'' \<Longrightarrow> uframe s s''"
  by (auto simp: uframe_def)

lemma allocate_userdata_ok:
  assumes m: "mem_ok s" and b: "0 < b" "b \<le> 2 ^ 47"
  shows "\<exists>a n s'. allocate_userdata s b = Some ((a, n), s') \<and> uframe s s' \<and>
    (if addr_ok a then a = (2, used1 s) \<and> n = pages_bytes b \<and> used1 s' = used1 s + n
     else a = nulladdr \<and> used1 s' = used1 s)"
proof -
  let ?t = "s\<lparr>mgr_stat := (mgr_stat s)\<lparr>userdata_alloc_count := userdata_alloc_count (mgr_stat s) + 1\<rparr>\<rparr>"
  have "os_ok (os ?t)" "default_ok ?t" "block_ok (blocks ?t 1)"
    using m by (auto simp: mem_ok_def default_ok_def)
  then obtain a n s' where s': "sbrk ?t 1 b = Some ((a, n), s')"
      "if addr_ok a then a = (1 + 1, used_size (blocks ?t 1)) \<and> n = pages_bytes b \<and> grew ?t 1 n s' else a = nulladdr \<and> grew ?t 1 0 s'"
    using sbrk_ok [of ?t 1 b] b by auto
  define k where "k = (if addr_ok a then n else 0)"
  have k: "grew ?t 1 k s'" "k = (if addr_ok a then n else 0)"
    using s'(2) by (cases "addr_ok a"; simp add: k_def)+
  have f: "s' = ?t\<lparr>os_calls := os_calls s', blocks := blocks s'\<rparr>" and b1: "blocks s' 0 = blocks s 0"
    and b0: "block_ok (blocks s' 1)" "used1 s' = used1 s + k"
      "block_addr (blocks s 1) \<noteq> 0 \<longrightarrow> block_addr (blocks s' 1) = block_addr (blocks s 1)"
      "0 < k \<longrightarrow> block_addr (blocks s' 1) \<noteq> 0"
    using k(1) by (auto simp: grew_def)
  have e: "os s' = os s" "default_mmap_size s' = default_mmap_size s" "user s' = user s"
     "sizes s' = sizes s" "ph_stat s' = ph_stat s" "caches s' = caches s" "cc_stat s' = cc_stat s"
     "serial_no s' = serial_no s" "singletons s' = singletons s" "meta s' = meta s" "lv0 s' = lv0 s"
     "span_free_list s' = span_free_list s"
    by (subst f; simp)+
  have "uframe s s'" using e b1 b0 by (auto simp: uframe_def)
  moreover have "allocate_userdata s b = Some ((a, n), s')" using s'(1) by (simp add: allocate_userdata_def)
  ultimately show ?thesis using s'(2) b0(2) k(2) by auto
qed

lemma view_uframe: "view s C S L M \<Longrightarrow> uframe s s' \<Longrightarrow> view s' C S L M"
  using view_cong [of s' s C S L M] by (simp add: uframe_def)

lemma grow_userdata_ok:
  assumes m: "mem_ok s" and n: "0 < n" "n \<le> 2 ^ 34"
  shows "\<exists>a b ask s'. grow_userdata s n = Some ((a, b, ask), s') \<and> uframe s s' \<and>
    (if addr_ok a then a = (2, used1 s) \<and> b = ask * 8192 \<and> n \<le> ask \<and> used1 s' = used1 s + ask * 8192
     else used1 s' = used1 s)"
proof -
  let ?ask = "if n < 128 then 128 else n"
  have ask: "0 < ?ask * 8192" "?ask * 8192 \<le> 2 ^ 47" "0 < n * 8192" "n * 8192 \<le> 2 ^ 47" using n by auto
  obtain a b s1 where s1: "allocate_userdata s (?ask * 8192) = Some ((a, b), s1)" "uframe s s1"
      "if addr_ok a then a = (2, used1 s) \<and> b = pages_bytes (?ask * 8192) \<and> used1 s1 = used1 s + b else a = nulladdr \<and> used1 s1 = used1 s"
    using allocate_userdata_ok [OF m ask(1,2)] by blast
  note defs = grow_userdata_def HEAP_GROW_PAGE_COUNT_def MAX_PAGES_def page_size_def
  show ?thesis
  proof (cases "addr_ok a")
    case True
    then have "grow_userdata s n = Some ((a, b, ?ask), s1)" using s1(1) by (cases "n < 128") (simp_all add: defs)
    with True s1 show ?thesis by (auto simp: pages_bytes_page)
  next
    case fail: False
    show ?thesis
    proof (cases "n < 128")
      case False
      then have "grow_userdata s n = Some ((nulladdr, 0, ?ask), s1)" using s1(1) fail by (simp add: defs)
      with s1 fail show ?thesis by auto
    next
      case True
      have m1: "mem_ok s1" using m s1(2) by (auto simp: mem_ok_def uframe_def default_ok_def)
      obtain a2 b2 s2 where s2: "allocate_userdata s1 (n * 8192) = Some ((a2, b2), s2)" "uframe s1 s2"
          "if addr_ok a2 then a2 = (2, used1 s1) \<and> b2 = pages_bytes (n * 8192) \<and> used1 s2 = used1 s1 + b2 else a2 = nulladdr \<and> used1 s2 = used1 s1"
        using allocate_userdata_ok [OF m1 ask(3,4)] by blast
      have uf: "uframe s s2" using uframe_trans [OF s1(2) s2(2)] .
      show ?thesis
      proof (cases "addr_ok a2")
        case ok: True
        then have "grow_userdata s n = Some ((a2, b2, n), s2)" using s1(1) s2(1) fail True by (simp add: defs)
        with ok s1(3) s2(3) fail uf show ?thesis by (auto simp: pages_bytes_page)
      next
        case no: False
        then have "grow_userdata s n = Some ((nulladdr, 0, n), s2)" using s1(1) s2(1) fail True by (simp add: defs)
        with no s1(3) s2(3) fail uf show ?thesis by auto
      qed
    qed
  qed
qed

lemma heap_inv_grow:
  assumes inv: "heap_inv s C S L M A {}" and sp: "sp \<notin> S" and ask: "0 < ask" and T: "pages s' = pages s + ask"
    and v: "view s' (C(sp := (span_make (pages s) ask)\<lparr>in_use := True\<rparr>)) (insert sp S) L (M(pages s := sp, pages s + ask - 1 := sp))"
  shows "heap_inv s' (C(sp := (span_make (pages s) ask)\<lparr>in_use := True\<rparr>)) (insert sp S) L
    (M(pages s := sp, pages s + ask - 1 := sp)) (insert sp A) {}"
proof -
  note d = heap_invD [OF inv]
  let ?x = "(span_make (pages s) ask)\<lparr>in_use := True\<rparr>"
  let ?C = "C(sp := ?x)" and ?M = "M(pages s := sp, pages s + ask - 1 := sp)"
  have x: "start_page ?x = pages s" "page_count ?x = ask" "in_use ?x" by (simp_all add: span_make_def)
  have spA: "sp \<notin> A" using sp d(2) by auto
  have old: "?M p = M p" if "a \<in> A" "p < hi C a" for a p
  proof -
    have "p \<noteq> pages s" "p \<noteq> pages s + ask - 1" using tilingD(2) [OF d(5) that(1)] that(2) ask by linarith+
    then show ?thesis by simp
  qed
  show ?thesis
    unfolding heap_inv_def T
  proof (intro conjI)
    show "insert sp A \<subseteq> insert sp S - HEADS" using d(2,3) sp viewD(8) [OF d(1)] by blast
    show "finite (insert sp A)" using d(4) by simp
    show "tiling (lo ?C) (hi ?C) (insert sp A) (pages s + ask)"
      by (rule tiling_cong [OF tiling_grow [OF d(5) spA, of "pages s + ask"]]) (use ask x spA in auto)
    have "insert sp A - {sp} = A" using spA by blast
    moreover have "lists_ok ?C A L" by (rule lists_ok_cong [OF d(6) [simplified]]) (use spA in auto)
    ultimately show "lists_ok ?C (insert sp A - {}) L" using lists_ok_use [of ?C "insert sp A" sp L] x(3) by simp
    show "\<forall>a \<in> insert sp A - {}. ?M (lo ?C a) = a \<and> ?M (hi ?C a - 1) = a"
    proof
      fix a assume "a \<in> insert sp A - {}"
      then consider "a = sp" | "a \<in> A" "a \<noteq> sp" by blast
      then show "?M (lo ?C a) = a \<and> ?M (hi ?C a - 1) = a"
      proof cases
        case 1 then show ?thesis using x by simp
      next
        case 2
        then show ?thesis
          using old [OF 2(1), of "lo C a"] old [OF 2(1), of "hi C a - 1"] d(7,8) [OF 2(1)] tilingD(1) [OF d(5) 2(1)] by simp
      qed
    qed
    show "\<forall>p \<ge> pages s + ask. ?M p = nulladdr" using d(9) ask by auto
    show "\<forall>a \<in> insert sp A - {}. \<forall>b \<in> insert sp A - {}. hi ?C a = lo ?C b \<longrightarrow> in_use (?C a) \<or> in_use (?C b)"
      using d(10) x(3) by (simp del: split_paired_All)
  qed (rule v)
qed

text \<open>What no operation of the page heap changes.\<close>

definition aframe :: "shm \<Rightarrow> shm \<Rightarrow> bool" where
  "aframe s s' \<longleftrightarrow> os s' = os s \<and> default_mmap_size s' = default_mmap_size s \<and> user s' = user s \<and>
     sizes s' = sizes s \<and> caches s' = caches s \<and> cc_stat s' = cc_stat s \<and>
     serial_no s' = serial_no s \<and> singletons s' = singletons s \<and> used1 s \<le> used1 s' \<and>
     (block_addr (blocks s 1) \<noteq> 0 \<longrightarrow> block_addr (blocks s' 1) = block_addr (blocks s 1)) \<and>
     (used1 s < used1 s' \<longrightarrow> block_addr (blocks s' 1) \<noteq> 0)"

lemma aframe_refl [simp]: "aframe s s"
  by (simp add: aframe_def)

lemma aframe_trans: "aframe s s' \<Longrightarrow> aframe s' s'' \<Longrightarrow> aframe s s''"
  unfolding aframe_def by (metis le_trans le_neq_implies_less less_irrefl)

lemma aframe_pframe: "pframe s s' \<Longrightarrow> aframe s s'"
  by (simp add: aframe_def pframe_def mframe_def)

lemma aframe_uframe: "uframe s s' \<Longrightarrow> aframe s s'"
  by (simp add: aframe_def uframe_def)

lemma aframe_stat: "aframe s s' \<Longrightarrow> aframe s (s'\<lparr>ph_stat := x\<rparr>)"
  by (simp add: aframe_def)

lemma grants_uframe: "uframe s s' \<Longrightarrow> grants s 0 K \<Longrightarrow> grants s' 0 K"
  by (simp add: grants_def uframe_def)

lemma hframe_other:
  assumes "hframe sp C L M A C' L' M' A'" and "\<not> (sp \<in> A \<and> in_use (C sp))" and "\<not> (sp \<in> A' \<and> in_use (C' sp))"
  shows "hframe x C L M A C' L' M' A'"
  unfolding hframe_def
proof (intro conjI ballI impI allI)
  note f = hframeD [OF assms(1)]
  fix a assume a: "a \<in> A" "in_use (C a)"
  then have "a \<noteq> sp" using assms(2) by blast
  with a f show "a \<in> A'" "C' a = C a" "\<And>p. lo C a \<le> p \<Longrightarrow> p < hi C a \<Longrightarrow> M' p = M p" by blast+
next
  fix a assume a: "a \<in> A'" "in_use (C' a)"
  then have "a \<noteq> sp" using assms(3) by blast
  with a show "a \<in> A" "C' a = C a" using hframeD [OF assms(1)] by blast+
qed (use hframeD(6,7) [OF assms(1)] in blast)+

lemma grow_heap_ok:
  assumes ok: "page_heap_ok s C S L M A" and n: "0 < n" "n \<le> 2 ^ 34" and g: "grants s 0 (K + 1212416)"
  shows "\<exists>b s' C' S' L' M' A'. grow_heap s n = Some (b, s') \<and> page_heap_ok s' C' S' L' M' A' \<and>
    (\<forall>x. hframe x C L M A C' L' M' A') \<and> aframe s s' \<and> grants s' 0 K \<and>
    (if b then \<exists>a \<in> A'. \<not> in_use (C' a) \<and> n \<le> page_count (C' a) else A' = A \<and> C' = C)"
proof -
  note o = page_heap_okD [OF ok]
  note d = heap_invD [OF o(1)]
  have mem: "mem_ok s" using viewD(1) [OF d(1)] .
  have lim: "n \<le> MAX_PAGE_COUNT" using n(2) by (simp add: MAX_PAGE_COUNT_def)
  obtain a b ask s1 where s1: "grow_userdata s n = Some ((a, b, ask), s1)" "uframe s s1"
      "if addr_ok a then a = (2, used1 s) \<and> b = ask * 8192 \<and> n \<le> ask \<and> used1 s1 = used1 s + ask * 8192 else used1 s1 = used1 s"
    using grow_userdata_ok [OF mem n] by blast
  have v1: "view s1 C S L M" using view_uframe [OF d(1) s1(2)] .
  show ?thesis
  proof (cases "addr_ok a")
    case False
    then have "grow_heap s n = Some (False, s1)" using s1(1) lim by (simp add: grow_heap_def HEAP_GROW_PAGE_COUNT_def)
    moreover have "heap_inv s1 C S L M A {}"
      using o(1) v1 s1(3) False unfolding heap_inv_def pages_def by simp
    then have "page_heap_ok s1 C S L M A" using o s1(2) unfolding page_heap_ok_def by (simp add: uframe_def)
    moreover have "grants s1 0 K" using grants_uframe [OF s1(2)] grants_mono [OF g] by simp
    moreover have "if False then \<exists>a \<in> A. \<not> in_use (C a) \<and> n \<le> page_count (C a) else A = A \<and> C = C" by simp
    ultimately show ?thesis using aframe_uframe [OF s1(2)] hframe_refl by blast
  next
    case True
    then have A: "a = (2, used1 s)" "b = ask * 8192" "n \<le> ask" "used1 s1 = used1 s + ask * 8192" using s1(3) by auto
    have al: "8192 dvd used1 s" using mem by (simp add: mem_ok_def block_ok_def)
    have mask: "and x (page_size - 1) = x mod 8192" for x using and_pow2_mod [of x 13] by (simp add: page_size_def)
    have asserts: "and b (page_size - 1) = 0" "and (snd a) (page_size - 1) = 0"
      unfolding mask using A(1,2) al by (simp_all add: dvd_eq_mod_eq_0)
    have pg: "snd a div page_size = pages s" "b div page_size = ask" using A by (simp_all add: pages_def page_size_def)
    let ?t = "s1\<lparr>ph_stat := (ph_stat s1)\<lparr>ph_grow_count := ph_grow_count (ph_stat s1) + 1,
        ph_total_size := ph_total_size (ph_stat s1) + ask\<rparr>\<rparr>"
    have vt: "view ?t C S L M" using view_cong [of ?t s1 C S L M] v1 viewD(1) [OF v1] by (simp add: mem_ok_def)
    have gt: "grants ?t 0 (K + 1081344 + 131072)"
      using grants_uframe [OF s1(2), of "K + 1212416"] g by (simp add: grants_def)
    obtain sp s2 where s2: "new_span ?t (pages s) ask = Some (sp, s2)" "sp \<notin> S" "addr_ok sp"
        "view s2 (C(sp := span_make (pages s) ask)) (insert sp S) L M" "mframe ?t s2" "grants s2 0 (K + 1081344)"
      using view_new [OF vt gt] by blast
    let ?C = "C(sp := span_make (pages s) ask)"
    have T: "pages s1 = pages s + ask" using A(4) al by (auto simp: pages_def)
    have lims: "pages s < 2 ^ 35" "pages s + ask - 1 < 2 ^ 35"
      using pages_bound [OF viewD(1) [OF v1]] T by simp_all
    note f = view_fields [OF s2(4), of sp, simplified]
    have fs: "start_page (spn s2 sp) = pages s" "page_count (spn s2 sp) = ask" "as_span s2 sp = Some (spn s2 sp)"
      using f by (simp_all add: span_make_def)
    have g2: "grants s2 0 (K + 811008 + 270336)" using s2(6) by (simp add: add.assoc)
    obtain s3 where s3: "set_span_map s2 (pages s) sp = Some s3" "view s3 ?C (insert sp S) L (M(pages s := sp))"
        "mframe s2 s3" "grants s3 0 (K + 811008)"
      using view_set [OF s2(4) lims(1) g2] by blast
    have ask: "0 < ask" using n A(3) by simp
    obtain s4 where s4: "(if ask > 1 then set_span_map s3 (pages s + ask - 1) sp else Some s3) = Some s4"
        "view s4 ?C (insert sp S) L (M(pages s := sp, pages s + ask - 1 := sp))" "mframe s3 s4" "grants s4 0 (K + 540672)"
    proof (cases "ask > 1")
      case True
      have "grants s3 0 (K + 540672 + 270336)" using s3(4) by (simp add: add.assoc)
      from view_set [OF s3(2) lims(2) this, of sp] that True show ?thesis by auto
    next
      case False
      then have "pages s + ask - 1 = pages s" using ask by simp
      then show ?thesis using that [of s3] False s3 grants_mono [OF s3(4)] by simp
    qed
    obtain s5 where s5: "upd_span s4 sp (\<lambda>x. x\<lparr>in_use := True\<rparr>) = Some s5"
        "view s5 (?C(sp := (?C sp)\<lparr>in_use := True\<rparr>)) (insert sp S) L (M(pages s := sp, pages s + ask - 1 := sp))"
        "mframe s4 s5" "used0 s5 = used0 s4"
      using upd_in_use [OF s4(2), of sp True] by blast
    let ?C5 = "C(sp := (span_make (pages s) ask)\<lparr>in_use := True\<rparr>)" and ?M5 = "M(pages s := sp, pages s + ask - 1 := sp)"
    have mf: "mframe ?t s5" using s2(5) s3(3) s4(3) s5(3) by (meson mframe_trans)
    have pst: "ph_used_size (ph_stat s5) = used_pages C A"
      using mf s1(2) o(2) by (simp add: mframe_def uframe_def)
    have p5: "pages s5 = pages s + ask" using mframe_pages [OF mf] T by (simp add: pages_def)
    have inv5: "heap_inv s5 ?C5 (insert sp S) L ?M5 (insert sp A) {}"
      using heap_inv_grow [OF o(1) s2(2) ask p5] s5(2) by simp
    let ?s6 = "s5\<lparr>ph_stat := (ph_stat s5)\<lparr>ph_alloc_count := ph_alloc_count (ph_stat s5) + 1,
        ph_used_size := ph_used_size (ph_stat s5) + ask\<rparr>\<rparr>"
    have spA: "sp \<notin> A" using s2(2) d(2) by auto
    have h5: "hframe sp C L M A ?C5 L ?M5 (insert sp A)"
      unfolding hframe_def
      proof (intro conjI ballI impI allI)
        fix a p assume "a \<in> A" "a \<noteq> sp" "in_use (C a)" "lo C a \<le> p" "p < hi C a"
        then have "p \<noteq> pages s" "p \<noteq> pages s + ask - 1" using tilingD(2) [OF d(5)] ask by fastforce+
        then show "?M5 p = M p" by simp
      next
        fix a show "payload (?C5 a) = payload (C a) \<or> payload (?C5 a) = payload span_default"
          by (simp add: payload_def span_make_def)
      qed (use spA in auto)
    have u5: "used_pages ?C5 (insert sp A) = used_pages C A + ask"
      using used_pages_hframe [OF h5 d(4)] spA d(4) by (simp add: span_make_def)
    have ok6: "page_heap_ok ?s6 ?C5 (insert sp S) L ?M5 (insert sp A)"
      unfolding page_heap_ok_def
    proof (intro conjI allI impI)
      show "heap_inv ?s6 ?C5 (insert sp S) L ?M5 (insert sp A) {}" by (rule heap_inv_stat [OF inv5])
      show "ph_used_size (ph_stat ?s6) = used_pages ?C5 (insert sp A)" using pst u5 by simp
      fix a assume "a \<notin> HEADS" "\<not> (a \<in> insert sp A \<and> in_use (?C5 a))"
      then show "payload (?C5 a) = payload span_default" using o(3) [of a] by (cases "a = sp") auto
    qed
    have "grants s5 0 (K + 540672)" using grants_mframe [OF s5(3), of 0 "K + 540672"] s4(4) s5(4) by simp
    then have g6: "grants ?s6 0 (K + 540672)" by (simp add: grants_def)
    have ul: "sp \<notin> set (L (cl_head c))" if "c < 87" for c using viewD(9) [OF d(1), of "cl_head c"] that s2(2) by auto
    obtain s7 C7 S7 L7 M7 A7 where s7: "deallocate_span ?s6 sp = Some s7" "page_heap_ok s7 C7 S7 L7 M7 A7"
        "hframe sp ?C5 L ?M5 (insert sp A) C7 L7 M7 A7" "sp \<in> A7" "\<not> in_use (C7 sp)" "pframe ?s6 s7" "grants s7 0 K"
        "page_count (?C5 sp) \<le> page_count (C7 sp)"
      using page_heap_dealloc [OF ok6 _ _ _ ul g6] by (auto simp: payload_def span_make_def)
    have big: "n \<le> page_count (C7 sp)" using s7(8) A(3) by (simp add: span_make_def)
    have "grow_heap s n = Some (True, s7)"
      using s1(1) lim True A(1) asserts pg s2(1,3) fs s3(1) s4(1) ask s5(1) s7(1)
      by (simp add: grow_heap_def HEAP_GROW_PAGE_COUNT_def last_page_def split: if_splits)
    moreover have "aframe s s7"
    proof -
      have "aframe s ?t" using aframe_stat [OF aframe_uframe [OF s1(2)]] .
      moreover have "aframe ?t ?s6" using aframe_stat [OF aframe_pframe [OF pframe_mframe [OF mf]]] .
      ultimately show ?thesis using aframe_pframe [OF s7(6)] aframe_trans by blast
    qed
    moreover have "hframe x C L M A C7 L7 M7 A7" for x
      by (rule hframe_other [OF hframe_trans [OF h5 s7(3)]]) (use spA s7(5) in auto)
    moreover have "if True then \<exists>a \<in> A7. \<not> in_use (C7 a) \<and> n \<le> page_count (C7 a) else A7 = A \<and> C7 = C"
      using s7(4,5) big by auto
    ultimately show ?thesis using s7(2,7) by blast
  qed
qed

section \<open>Allocating\<close>

lemma carved_ok:
  assumes ok: "page_heap_ok s C S L M A" and c: "carved sp n C L M A s' C' S' L' M' A'" and f: "mframe s s'"
  shows "page_heap_ok (s'\<lparr>ph_stat := (ph_stat s')\<lparr>ph_alloc_count := k, ph_used_size := ph_used_size (ph_stat s') + n\<rparr>\<rparr>)
    C' S' L' M' A'"
proof -
  note o = page_heap_okD [OF ok]
  have c': "heap_inv s' C' S' L' M' A' {}" "hframe sp C L M A C' L' M' A'" "sp \<in> A" "sp \<in> A'" "\<not> in_use (C sp)"
      "C' sp = (C sp)\<lparr>page_count := n, in_use := True\<rparr>"
    using c unfolding carved_def by blast+
  have "used_pages C' A' = used_pages C A + n"
    using used_pages_hframe [OF c'(2) heap_invD(4) [OF o(1)] heap_invD(4) [OF c'(1)]] c' by simp
  moreover have "ph_stat s' = ph_stat s" using f by (simp add: mframe_def)
  moreover have "payload (C' a) = payload span_default" if "a \<notin> HEADS" "\<not> (a \<in> A' \<and> in_use (C' a))" for a
    using payload_hframe [OF o(3) c'(2) _ that] c'(4,6) by simp
  ultimately show ?thesis using heap_inv_stat [OF c'(1)] o(2) by (simp add: page_heap_ok_def)
qed

text \<open>The span that an allocation of \<open>n\<close> pages returns.\<close>

definition fresh_span :: "nat \<Rightarrow> addr \<Rightarrow> (addr \<Rightarrow> span) \<Rightarrow> addr set \<Rightarrow> (addr \<Rightarrow> span) \<Rightarrow> addr set \<Rightarrow> bool" where
  "fresh_span n sp C A C' A' \<longleftrightarrow> sp \<in> A' \<and> in_use (C' sp) \<and> page_count (C' sp) = n \<and>
     payload (C' sp) = payload span_default \<and> \<not> (sp \<in> A \<and> in_use (C sp))"

lemma carved_fresh:
  assumes "page_heap_ok s C S L M A" and "carved sp n C L M A s' C' S' L' M' A'"
  shows "fresh_span n sp C A C' A'"
proof -
  note o = page_heap_okD [OF assms(1)]
  have c': "sp \<in> A" "sp \<in> A'" "\<not> in_use (C sp)" "C' sp = (C sp)\<lparr>page_count := n, in_use := True\<rparr>"
    using assms(2) unfolding carved_def by blast+
  have "payload (C sp) = payload span_default" using o(3) heap_invD(3) [OF o(1) c'(1)] c'(3) by blast
  then have "payload (C' sp) = payload span_default" using c'(4) by (simp add: payload_def)
  with c' show ?thesis by (simp add: fresh_span_def)
qed

definition allocated ::
    "nat \<Rightarrow> addr \<Rightarrow> shm \<Rightarrow> (addr \<Rightarrow> span) \<Rightarrow> (addr \<Rightarrow> addr list) \<Rightarrow> (nat \<Rightarrow> addr) \<Rightarrow> addr set \<Rightarrow>
     shm \<Rightarrow> (addr \<Rightarrow> span) \<Rightarrow> addr set \<Rightarrow> (addr \<Rightarrow> addr list) \<Rightarrow> (nat \<Rightarrow> addr) \<Rightarrow> addr set \<Rightarrow> bool" where
  "allocated n sp s C L M A s' C' S' L' M' A' \<longleftrightarrow>
     page_heap_ok s' C' S' L' M' A' \<and> hframe sp C L M A C' L' M' A' \<and> aframe s s' \<and>
     (if addr_ok sp
      then fresh_span n sp C A C' A' \<and>
        (best_fit C A n sp \<or> (\<forall>a \<in> A. \<not> in_use (C a) \<longrightarrow> page_count (C a) < n))
      else sp = nulladdr \<and> C' = C \<and> A' = A \<and> (\<forall>a \<in> A. \<not> in_use (C a) \<longrightarrow> page_count (C a) < n))"

lemma heap_inv_addr_ok: "heap_inv s C S L M A X \<Longrightarrow> a \<in> A \<Longrightarrow> addr_ok a"
  using heap_invD(1,2) [of s C S L M A X] viewD(5) [of s C S L M a] by (auto simp: is_span_def addr_ok_def)

text \<open>A null result means that the heap could not grow.\<close>

lemma allocate_span_full:
  assumes ok: "page_heap_ok s C S L M A" and n: "0 < n" "n \<le> 2 ^ 34" and g: "grants s 0 (K + 2154496)"
  shows "\<exists>sp s' C' S' L' M' A'. allocate_span s n = Some (sp, s') \<and>
    allocated n sp s C L M A s' C' S' L' M' A' \<and> grants s' 0 K \<and> (addr_ok sp \<or> (\<exists>t. grow_heap s n = Some (False, t)))"
proof -
  note o = page_heap_okD [OF ok]
  have g1: "grants s 0 ((K + 1212416) + 942080)" "grants s 0 ((K + 942080) + 1212416)" using g by (simp_all add: add.assoc)
  consider (fit) sp s' C' S' L' M' A' where "search_existing s n = Some (sp, s')" "best_fit C A n sp"
      "carved sp n C L M A s' C' S' L' M' A'" "mframe s s'" "grants s' 0 (K + 1212416)"
    | (none) "search_existing s n = Some (nulladdr, s)" "\<forall>a \<in> A. \<not> in_use (C a) \<longrightarrow> page_count (C a) < n"
    using search_existing_ok [OF o(1) n(1) g1(1)] by blast
  then show ?thesis
  proof cases
    case fit
    have sp: "addr_ok sp" using fit(2) heap_inv_addr_ok [OF o(1)] by (simp add: best_fit_def)
    let ?s = "s'\<lparr>ph_stat := (ph_stat s')\<lparr>ph_alloc_count := ph_alloc_count (ph_stat s') + 1,
          ph_used_size := ph_used_size (ph_stat s') + n\<rparr>\<rparr>"
    have "allocate_span s n = Some (sp, ?s)" using fit(1) sp by (simp add: allocate_span_def)
    moreover have "hframe sp C L M A C' L' M' A'" using fit(3) by (simp add: carved_def)
    then have "allocated n sp s C L M A ?s C' S' L' M' A'"
      using carved_ok [OF ok fit(3,4)] carved_fresh [OF ok fit(3)] sp fit(2) aframe_stat [OF aframe_pframe [OF pframe_mframe [OF fit(4)]]]
      by (simp add: allocated_def)
    moreover have "grants s' 0 K" using grants_mono [OF fit(5)] by simp
    then have "grants ?s 0 K" by (simp add: grants_def)
    ultimately show ?thesis using sp by blast
  next
    case none
    obtain b s1 C1 S1 L1 M1 A1 where s1: "grow_heap s n = Some (b, s1)" "page_heap_ok s1 C1 S1 L1 M1 A1"
        "\<And>x. hframe x C L M A C1 L1 M1 A1" "aframe s s1" "grants s1 0 (K + 942080)"
        "if b then \<exists>a \<in> A1. \<not> in_use (C1 a) \<and> n \<le> page_count (C1 a) else A1 = A \<and> C1 = C"
      using grow_heap_ok [OF ok n g1(2)] by blast
    show ?thesis
    proof (cases b)
      case False
      then have "allocate_span s n = Some (nulladdr, s1)" using none(1) s1(1) by (simp add: allocate_span_def)
      moreover have "allocated n nulladdr s C L M A s1 C1 S1 L1 M1 A1"
        unfolding allocated_def using s1(2,3,4,6) False none(2) by simp
      moreover have "grants s1 0 K" using grants_mono [OF s1(5)] by simp
      moreover have "grow_heap s n = Some (False, s1)" using s1(1) False by simp
      ultimately show ?thesis by blast
    next
      case True
      note o1 = page_heap_okD [OF s1(2)]
      obtain sp s' C' S' L' M' A' where r: "search_existing s1 n = Some (sp, s')" "best_fit C1 A1 n sp"
          "carved sp n C1 L1 M1 A1 s' C' S' L' M' A'" "mframe s1 s'" "grants s' 0 K"
        using search_existing_ok [OF o1(1) n(1) s1(5)] s1(6) True by (auto simp: not_less)
      have sp: "addr_ok sp" using r(2) heap_inv_addr_ok [OF o1(1)] by (simp add: best_fit_def)
      let ?s = "s'\<lparr>ph_stat := (ph_stat s')\<lparr>ph_alloc_count := ph_alloc_count (ph_stat s') + 1,
            ph_used_size := ph_used_size (ph_stat s') + n\<rparr>\<rparr>"
      have "allocate_span s n = Some (sp, ?s)" using none(1) s1(1) True r(1) sp by (simp add: allocate_span_def)
      moreover have fr: "fresh_span n sp C1 A1 C' A'" using carved_fresh [OF s1(2) r(3)] .
      have "\<not> (sp \<in> A \<and> in_use (C sp))"
      proof
        assume h: "sp \<in> A \<and> in_use (C sp)"
        obtain y :: addr where y: "y \<noteq> sp" by (metis prod.inject n_not_Suc_n surj_pair)
        have "sp \<in> A1" "C1 sp = C sp" using hframeD(1,2) [OF s1(3) [of y], of sp] h y by blast+
        with h fr show False by (simp add: fresh_span_def)
      qed
      then have "fresh_span n sp C A C' A'" using fr by (simp add: fresh_span_def)
      moreover have "hframe sp C1 L1 M1 A1 C' L' M' A'" using r(3) by (simp add: carved_def)
      then have "hframe sp C L M A C' L' M' A'" using hframe_trans [OF s1(3)] by blast
      ultimately have "allocated n sp s C L M A ?s C' S' L' M' A'"
        using carved_ok [OF s1(2) r(3,4)] sp none(2) aframe_trans [OF s1(4) aframe_stat [OF aframe_pframe [OF pframe_mframe [OF r(4)]]]]
        by (simp add: allocated_def)
      moreover have "grants ?s 0 K" using r(5) by (simp add: grants_def)
      moreover have "allocate_span s n = Some (sp, ?s)" using none(1) s1(1) True r(1) sp by (simp add: allocate_span_def)
      ultimately show ?thesis using sp by blast
    qed
  qed
qed

lemma allocate_span_ok:
  assumes "page_heap_ok s C S L M A" and "0 < n" and "n \<le> 2 ^ 34" and "grants s 0 (K + 2154496)"
  shows "\<exists>sp s' C' S' L' M' A'. allocate_span s n = Some (sp, s') \<and>
    allocated n sp s C L M A s' C' S' L' M' A' \<and> grants s' 0 K"
  using allocate_span_full [OF assms] by blast

section \<open>Registering and finding\<close>

lemma register_pages_ok:
  "view s C S L M \<Longrightarrow> sp \<in> S \<Longrightarrow> \<forall>i \<in> set is. lo C sp + i < 2 ^ 35 \<Longrightarrow> grants s 0 (K + length is * 270336) \<Longrightarrow>
   \<exists>s'. register_pages s sp is = Some s' \<and>
     view s' C S L (\<lambda>p. if p \<in> (\<lambda>i. lo C sp + i) ` set is then sp else M p) \<and> mframe s s' \<and> grants s' 0 K"
proof (induction "is" arbitrary: s M)
  case Nil then show ?case by (simp add: mframe_refl)
next
  case (Cons i ks)
  note f = view_fields [OF Cons.prems(1,2)]
  have "grants s 0 ((K + length ks * 270336) + 270336)" using Cons.prems(4) by (simp add: ac_simps)
  then obtain s1 where s1: "set_span_map s (lo C sp + i) sp = Some s1" "view s1 C S L (M(lo C sp + i := sp))"
      "mframe s s1" "grants s1 0 (K + length ks * 270336)"
    using view_set [OF Cons.prems(1), of "lo C sp + i" _ sp] Cons.prems(3) by auto
  obtain s' where s': "register_pages s1 sp ks = Some s'"
      "view s' C S L (\<lambda>p. if p \<in> (\<lambda>i. lo C sp + i) ` set ks then sp else (M(lo C sp + i := sp)) p)"
      "mframe s1 s'" "grants s' 0 K"
    using Cons.IH [OF s1(2) Cons.prems(2) _ s1(4)] Cons.prems(3) by auto
  have "(\<lambda>p. if p \<in> (\<lambda>i. lo C sp + i) ` set (i # ks) then sp else M p) =
      (\<lambda>p. if p \<in> (\<lambda>i. lo C sp + i) ` set ks then sp else (M(lo C sp + i := sp)) p)" by auto
  then show ?case using s' s1(1,3) f mframe_trans [OF s1(3) s'(3)] by auto
qed

lemma heap_inv_set:
  assumes inv: "heap_inv s C S L M A {}" and sp: "sp \<in> A" and T: "pages s' = pages s"
    and v: "view s' C S L (\<lambda>p. if p \<in> P then sp else M p)" and P: "P \<subseteq> {lo C sp..<hi C sp}"
  shows "heap_inv s' C S L (\<lambda>p. if p \<in> P then sp else M p) A {}"
    and "\<And>a. a \<in> A \<Longrightarrow> a \<noteq> sp \<Longrightarrow> lo C a \<le> p \<Longrightarrow> p < hi C a \<Longrightarrow> p \<notin> P"
proof -
  note d = heap_invD [OF inv]
  show np: "p \<notin> P" if "a \<in> A" "a \<noteq> sp" "lo C a \<le> p" "p < hi C a" for a p
    using tilingD(3) [OF d(5) that(1) sp that(2)] that(3,4) P by force
  show "heap_inv s' C S L (\<lambda>p. if p \<in> P then sp else M p) A {}"
    unfolding heap_inv_def T
  proof (intro conjI ballI allI impI)
    fix a assume a: "a \<in> A - {}"
    then have t: "lo C a < hi C a" using tilingD(1) [OF d(5)] by blast
    show "(if lo C a \<in> P then sp else M (lo C a)) = a" using np [of a "lo C a"] t d(7) [of a] a by auto
    have "lo C a \<le> hi C a - 1" "hi C a - 1 < hi C a" using t by auto
    then show "(if hi C a - 1 \<in> P then sp else M (hi C a - 1)) = a" using np [of a "hi C a - 1"] d(8) [of a] a by auto
  next
    fix p assume "pages s \<le> p"
    then have "p \<notin> P" using P tilingD(2) [OF d(5) sp] by auto
    then show "(if p \<in> P then sp else M p) = nulladdr" using d(9) \<open>pages s \<le> p\<close> by simp
  qed (use d v in auto)
qed

text \<open>A span whose every page leads to it.\<close>

definition registered :: "(addr \<Rightarrow> span) \<Rightarrow> (nat \<Rightarrow> addr) \<Rightarrow> addr \<Rightarrow> bool" where
  "registered C M sp \<longleftrightarrow> (\<forall>p. lo C sp \<le> p \<longrightarrow> p < hi C sp \<longrightarrow> M p = sp)"

lemma register_span_ok:
  assumes ok: "page_heap_ok s C S L M A" and sp: "sp \<in> A" "in_use (C sp)"
    and g: "grants s 0 (K + page_count (C sp) * 270336)"
  shows "\<exists>s' M'. register_span s sp = Some s' \<and> page_heap_ok s' C S L M' A \<and> registered C M' sp \<and>
    hframe sp C L M A C L M' A \<and> mframe s s' \<and> grants s' 0 K"
proof -
  note o = page_heap_okD [OF ok]
  note d = heap_invD [OF o(1)]
  have spS: "sp \<in> S" using d(2) sp by auto
  note f = view_fields [OF d(1) spS]
  have t: "lo C sp < hi C sp" "hi C sp \<le> pages s" using tilingD(1,2) [OF d(5) sp(1)] by auto
  have b: "hi C sp \<le> 2 ^ 34" using t(2) pages_bound [OF viewD(1) [OF d(1)]] by simp
  have get: "get_span_map s (lo C sp) = Some sp" "get_span_map s (hi C sp - 1) = Some sp"
    using view_get [OF d(1), of "lo C sp"] view_get [OF d(1), of "hi C sp - 1"] b t d(7,8) [OF sp(1)] by simp_all
  let ?is = "[1..<page_count (C sp) - 1]"
  have "grants s 0 (K + length ?is * 270336)" by (rule grants_mono [OF g]) simp
  moreover have "\<forall>i \<in> set ?is. lo C sp + i < 2 ^ 35" using b by auto
  ultimately obtain s' where s': "register_pages s sp ?is = Some s'"
      "view s' C S L (\<lambda>p. if p \<in> (\<lambda>i. lo C sp + i) ` set ?is then sp else M p)" "mframe s s'" "grants s' 0 K"
    using register_pages_ok [OF d(1) spS] by blast
  let ?M = "\<lambda>p. if p \<in> (\<lambda>i. lo C sp + i) ` set ?is then sp else M p"
  have P: "(\<lambda>i. lo C sp + i) ` set ?is \<subseteq> {lo C sp..<hi C sp}" by auto
  note h = heap_inv_set [OF o(1) sp(1) mframe_pages [OF s'(3)] s'(2) P]
  have "register_span s sp = Some s'"
    using s'(1) f get heap_inv_addr_ok [OF o(1) sp(1)] sp(2) t by (simp add: register_span_def last_page_def addr_eq_def)
  moreover have "page_heap_ok s' C S L ?M A" using h(1) o s'(3) by (simp add: page_heap_ok_def mframe_def)
  moreover have "registered C ?M sp"
    unfolding registered_def
  proof (intro allI impI)
    fix p assume p: "lo C sp \<le> p" "p < hi C sp"
    show "?M p = sp"
    proof (cases "p = lo C sp \<or> p = hi C sp - 1")
      case True then show ?thesis using d(7,8) [OF sp(1)] by auto
    next
      case False
      then have "p - lo C sp \<in> set ?is" "p = lo C sp + (p - lo C sp)" using p by auto
      then have "p \<in> (\<lambda>i. lo C sp + i) ` set ?is" by blast
      then show ?thesis by simp
    qed
  qed
  moreover have "hframe sp C L M A C L ?M A" unfolding hframe_def using h(2) by auto
  ultimately show ?thesis using s'(3,4) by blast
qed

lemma find_span_ok:
  assumes "page_heap_ok s C S L M A" and "sp \<in> A" "registered C M sp" and "lo C sp \<le> snd a div 8192" "snd a div 8192 < hi C sp"
  shows "find_span s a = Some sp"
proof -
  note d = heap_invD [OF page_heap_okD(1) [OF assms(1)]]
  have "snd a div 8192 < 2 ^ 35"
    using assms(5) tilingD(2) [OF d(5) assms(2)] pages_bound [OF viewD(1) [OF d(1)]] by simp
  from view_get [OF d(1) this] show ?thesis
    using assms(3-5) by (simp add: find_span_def page_size_def registered_def)
qed

end
