(* ===== verification/Chunk_Cache.thy ===== *)
theory Chunk_Cache
  imports Page_Heap
begin

text \<open>
  \<^verbatim>\<open>src/src/shm/detail/chunk_cache.h\<close> and \<^verbatim>\<open>chunk_cache.cpp\<close>: per size class, the spans that
  still have a free chunk are kept in a list; a span without a used chunk goes back to the page
  heap unless it is the last one of its class.
\<close>

section \<open>Definitions\<close>

definition class_list_addr :: "shm \<Rightarrow> nat \<Rightarrow> addr option" where
  "class_list_addr s sc = span_addr s (class_list_offset sc)"

definition upd_cache :: "shm \<Rightarrow> nat \<Rightarrow> (class_cache \<Rightarrow> class_cache) \<Rightarrow> shm" where
  "upd_cache s sc f = s\<lparr>caches := (caches s)(sc := f (caches s sc))\<rparr>"

text \<open>
  The block of \<^verbatim>\<open>allocate_chunk\<close> that chooses a span: the first one of the class list, or a new
  one from the page heap. The result is \<open>None\<close> when the page heap has no span to give.
\<close>

definition fetch_class_span :: "shm \<Rightarrow> nat \<Rightarrow> nat \<Rightarrow> addr \<Rightarrow> (addr option \<times> shm) option" where
  "fetch_class_span s bytes sc head = do {
     empty \<leftarrow> span_list_empty s head;
     if \<not> empty then do {
       sk_assert (span_count (caches s sc) > 0);
       h \<leftarrow> as_span s head;
       Some (Some (next_span h), s)
     }
     else do {
       n \<leftarrow> class2pages (sizes s) sc;
       (sp, s) \<leftarrow> allocate_span s n;
       if \<not> addr_ok sp then Some (None, s)
       else do {
         let s = s\<lparr>cc_stat := (cc_stat s)
           \<lparr>cc_span_alloc_count := cc_span_alloc_count (cc_stat s) + 1,
            cc_total_size := cc_total_size (cc_stat s) + n * page_size\<rparr>\<rparr>;
         s \<leftarrow> register_span s sp;
         s \<leftarrow> span_partition s sp bytes sc;
         s \<leftarrow> span_list_prepend s head sp;
         let s = upd_cache s sc (\<lambda>c. c\<lparr>span_count := span_count c + 1,
           cl_total_size := cl_total_size c + n * page_size\<rparr>);
         Some (Some sp, s)
       }
     }
   }"

text \<open>The rest of \<^verbatim>\<open>allocate_chunk\<close>: a chunk of the chosen span is handed out.\<close>

definition take_chunk :: "shm \<Rightarrow> nat \<Rightarrow> nat \<Rightarrow> addr \<Rightarrow> (addr \<times> shm) option" where
  "take_chunk s bytes sc sp = do {
     (ret, s) \<leftarrow> span_fetch s sp;
     sk_assert (addr_ok ret);
     x \<leftarrow> as_span s sp;
     s \<leftarrow> (if \<not> addr_ok (chunk_list x) then do {
         s \<leftarrow> span_list_remove s sp;
         Some (upd_cache s sc (\<lambda>c. c\<lparr>span_count := span_count c - 1\<rparr>))
       }
       else Some s);
     let s = upd_cache s sc (\<lambda>c. c\<lparr>cl_alloc_count := cl_alloc_count c + 1,
       cl_used_size := cl_used_size c + bytes\<rparr>);
     Some (ret, s\<lparr>cc_stat := (cc_stat s)
       \<lparr>cc_alloc_count := cc_alloc_count (cc_stat s) + 1,
        cc_used_size := cc_used_size (cc_stat s) + bytes\<rparr>\<rparr>)
   }"

definition allocate_chunk :: "shm \<Rightarrow> nat \<Rightarrow> nat \<Rightarrow> (addr \<times> shm) option" where
  "allocate_chunk s old_bytes sc = do {
     sk_assert (sc < SIZE_CLASS_COUNT);
     bytes \<leftarrow> class2size (sizes s) sc;
     sk_assert (bytes \<ge> old_bytes);
     head \<leftarrow> class_list_addr s sc;
     (found, s) \<leftarrow> fetch_class_span s bytes sc head;
     case found of None \<Rightarrow> Some (nulladdr, s)
     | Some sp \<Rightarrow> take_chunk s bytes sc sp
   }"

text \<open>The statements that give an empty span back to the page heap, which occur twice.\<close>

definition release_span :: "shm \<Rightarrow> nat \<Rightarrow> addr \<Rightarrow> shm option" where
  "release_span s sc sp = do {
     x \<leftarrow> as_span s sp;
     let bytes = page_count x * page_size;
     sk_assert (cl_total_size (caches s sc) \<ge> bytes);
     sk_assert (cc_total_size (cc_stat s) \<ge> bytes);
     let s = upd_cache s sc (\<lambda>c. c\<lparr>cl_total_size := cl_total_size c - bytes\<rparr>);
     let s = s\<lparr>cc_stat := (cc_stat s)
       \<lparr>cc_total_size := cc_total_size (cc_stat s) - bytes,
        cc_span_free_count := cc_span_free_count (cc_stat s) + 1\<rparr>\<rparr>;
     s \<leftarrow> span_erase s sp;
     deallocate_span s sp
   }"

definition list_span :: "shm \<Rightarrow> nat \<Rightarrow> addr \<Rightarrow> addr \<Rightarrow> shm option" where
  "list_span s sc head sp = do {
     s \<leftarrow> span_list_prepend s head sp;
     Some (upd_cache s sc (\<lambda>c. c\<lparr>span_count := span_count c + 1\<rparr>))
   }"

text \<open>What becomes of the span after a chunk has returned to it.\<close>

definition settle_span :: "shm \<Rightarrow> nat \<Rightarrow> addr \<Rightarrow> addr \<Rightarrow> bool \<Rightarrow> bool \<Rightarrow> shm option" where
  "settle_span s sc head sp full_before empty_after =
     (if \<not> full_before then
        if empty_after then
          if span_count (caches s sc) > 1 then do {
            s \<leftarrow> span_list_remove s sp;
            let s = upd_cache s sc (\<lambda>c. c\<lparr>span_count := span_count c - 1\<rparr>);
            release_span s sc sp
          }
          else Some s
        else Some s
      else
        if empty_after then
          if span_count (caches s sc) > 0 then release_span s sc sp
          else list_span s sc head sp
        else list_span s sc head sp)"

definition count_free :: "shm \<Rightarrow> nat \<Rightarrow> shm option" where
  "count_free s sc = do {
     bytes \<leftarrow> class2size (sizes s) sc;
     sk_assert (cl_used_size (caches s sc) \<ge> bytes);
     sk_assert (cc_used_size (cc_stat s) \<ge> bytes);
     let s = upd_cache s sc (\<lambda>c. c\<lparr>cl_used_size := cl_used_size c - bytes,
       cl_free_count := cl_free_count c + 1\<rparr>);
     Some (s\<lparr>cc_stat := (cc_stat s)
       \<lparr>cc_used_size := cc_used_size (cc_stat s) - bytes,
        cc_free_count := cc_free_count (cc_stat s) + 1\<rparr>\<rparr>)
   }"

definition deallocate_chunk :: "shm \<Rightarrow> addr \<Rightarrow> addr \<Rightarrow> shm option" where
  "deallocate_chunk s a sp = do {
     sk_assert (addr_ok a);
     sk_assert (addr_ok sp);
     x \<leftarrow> as_span s sp;
     sk_assert (used_count x > 0);
     let sc = size_class x;
     sk_assert (sc < SIZE_CLASS_COUNT);
     head \<leftarrow> class_list_addr s sc;
     let full_before = (\<not> addr_ok (chunk_list x));
     s \<leftarrow> span_recycle s sp a;
     y \<leftarrow> as_span s sp;
     let empty_after = (used_count y \<le> 0);
     s \<leftarrow> settle_span s sc head sp full_before empty_after;
     count_free s sc
   }"

section \<open>Construction\<close>

definition new_cell :: "shm \<Rightarrow> nat \<Rightarrow> shm" where
  "new_cell s p = s\<lparr>meta := (meta s)(p := SpanCell span_default)\<rparr>"

fun init_lists :: "shm \<Rightarrow> nat list \<Rightarrow> shm option" where
  "init_lists s [] = Some s"
| "init_lists s (p # ps) = do {
     head \<leftarrow> span_addr s p;
     s \<leftarrow> span_list_init s head;
     init_lists s ps
   }"

text \<open>
  \<^verbatim>\<open>page_heap::page_heap\<close>: the members are constructed in the order of their declaration, then
  the sentinels are linked to themselves.
\<close>

definition page_heap_new :: "shm \<Rightarrow> shm option" where
  "page_heap_new s = do {
     let s = s\<lparr>lv0 := (\<lambda>_. nulladdr), span_free_list := nulladdr,
       ma_stat := \<lparr>ma_total_size = 0, ma_waste_size = 0, ma_alloc_count = 0, ma_free_count = 0\<rparr>\<rparr>;
     let s = foldl new_cell s (map free_list_offset [0..<MAX_PAGES] @ [large_list_offset]);
     let s = s\<lparr>ph_stat := \<lparr>ph_used_size = 0, ph_total_size = 0, ph_grow_count = 0,
       ph_alloc_count = 0, ph_free_count = 0\<rparr>\<rparr>;
     s \<leftarrow> init_lists s (map free_list_offset [0..<MAX_PAGES]);
     init_lists s [large_list_offset]
   }"

definition class_cache_new :: "shm \<Rightarrow> nat \<Rightarrow> shm option" where
  "class_cache_new s sc = do {
     s \<leftarrow> init_lists (new_cell s (class_list_offset sc)) [class_list_offset sc];
     Some (upd_cache s sc (\<lambda>c. \<lparr>span_count = 0, cl_alloc_count = 0, cl_free_count = 0,
       cl_used_size = 0, cl_total_size = 0\<rparr>))
   }"

fun class_caches_new :: "shm \<Rightarrow> nat list \<Rightarrow> shm option" where
  "class_caches_new s [] = Some s"
| "class_caches_new s (sc # scs) = do { s \<leftarrow> class_cache_new s sc; class_caches_new s scs }"

definition chunk_cache_new :: "shm \<Rightarrow> shm option" where
  "chunk_cache_new s = do {
     s \<leftarrow> class_caches_new s [0..<SIZE_CLASS_COUNT];
     Some (s\<lparr>cc_stat := \<lparr>cc_span_alloc_count = 0, cc_span_free_count = 0, cc_alloc_count = 0,
       cc_free_count = 0, cc_used_size = 0, cc_total_size = 0\<rparr>\<rparr>)
   }"

end
