(* ===== verification/Chunk_View.thy ===== *)
theory Chunk_View
  imports Page_Heap_Alloc Chunk_Cache
begin

text \<open>
  The steps of the chunk cache on a page heap that satisfies its invariant: changes of the
  fields of a span in use that belong to the cache, the class lists, and the free chunks
  linked through the user memory.
\<close>

section \<open>Spans in use and the class lists\<close>

lemma page_heap_cong:
  assumes "page_heap_ok s C S L M A" and "os s' = os s" "default_mmap_size s' = default_mmap_size s"
    "meta s' = meta s" "lv0 s' = lv0 s" "span_free_list s' = span_free_list s" "blocks s' = blocks s" "ph_stat s' = ph_stat s"
  shows "page_heap_ok s' C S L M A"
proof -
  note o = page_heap_okD [OF assms(1)]
  have "view s C S L M" using heap_invD(1) [OF o(1)] .
  then have "view s' C S L M" using view_cong [of s' s C S L M] assms(2-) viewD(1) by (simp add: mem_ok_def)
  moreover have "pages s' = pages s" by (simp add: pages_def assms)
  ultimately have "heap_inv s' C S L M A {}" using o(1) by (simp add: heap_inv_def)
  then show ?thesis using assms(1,8) by (simp add: page_heap_ok_def)
qed

text \<open>An update of the payload of a span in use.\<close>

definition payload_upd :: "(span \<Rightarrow> span) \<Rightarrow> bool" where
  "payload_upd f \<longleftrightarrow> (\<forall>x. span_core (f x) = f (span_core x) \<and> next_span (f x) = next_span x \<and>
     prev_span (f x) = prev_span x \<and> in_use (f x) = in_use x \<and> start_page (f x) = start_page x \<and>
     page_count (f x) = page_count x)"

lemma payload_upds [simp]:
  "payload_upd (\<lambda>x. x\<lparr>size_class := c\<rparr>)" "payload_upd (\<lambda>x. x\<lparr>chunk_list := a\<rparr>)"
  "payload_upd (\<lambda>x. x\<lparr>used_count := Suc (used_count x)\<rparr>)" "payload_upd (\<lambda>x. x\<lparr>used_count := used_count x - Suc 0\<rparr>)"
  "payload_upd (\<lambda>x. x\<lparr>used_count := 0, size_class := 255, chunk_list := nulladdr\<rparr>)"
  by (simp_all add: payload_upd_def span_core_def)

lemma lists_ok_upd:
  assumes "lists_ok C A L" and "\<And>a. in_use (C' a) = in_use (C a) \<and> page_count (C' a) = page_count (C a)"
  shows "lists_ok C' A L"
  using assms unfolding lists_ok_def by simp

lemma page_heap_upd:
  assumes ok: "page_heap_ok s C S L M A" and sp: "sp \<in> A" "in_use (C sp)" and f: "payload_upd f"
  shows "\<exists>s'. upd_span s sp f = Some s' \<and> page_heap_ok s' (C(sp := f (C sp))) S L M A \<and> mframe s s' \<and> used0 s' = used0 s"
proof -
  note o = page_heap_okD [OF ok]
  note d = heap_invD [OF o(1)]
  have spS: "sp \<in> S" using d(2) sp by auto
  have ff: "in_use (f x) = in_use x" "start_page (f x) = start_page x" "page_count (f x) = page_count x"
      "span_core (f x) = f (span_core x)" "next_span (f x) = next_span x" "prev_span (f x) = prev_span x" for x
    using f by (simp_all add: payload_upd_def)
  let ?C = "C(sp := f (C sp))"
  have same: "in_use (?C a) = in_use (C a)" "start_page (?C a) = start_page (C a)" "page_count (?C a) = page_count (C a)" for a
    using ff by simp_all
  obtain s' where s': "upd_span s sp f = Some s'" "view s' ?C S L M" "s' = s\<lparr>meta := meta s'\<rparr>"
    using view_upd [OF d(1) spS ff(4-6)] by blast
  have m: "mframe s s'" "used0 s' = used0 s" by (subst s'(3), simp add: mframe_def)+
  have "lists_ok ?C (A - {}) L" using lists_ok_upd [OF d(6)] same by simp
  then have "heap_inv s' ?C S L M A {}"
    using o(1) s'(2) mframe_pages [OF m(1)] unfolding heap_inv_def same by simp
  moreover have "used_pages ?C A = used_pages C A" unfolding used_pages_def same ..
  moreover have "ph_stat s' = ph_stat s" using m(1) by (simp add: mframe_def)
  moreover have "payload (?C a) = payload span_default" if "a \<notin> HEADS" "\<not> (a \<in> A \<and> in_use (?C a))" for a
    using o(3) [of a] that sp ff(1) by (cases "a = sp") auto
  ultimately have "page_heap_ok s' ?C S L M A" using o(2) by (simp add: page_heap_ok_def)
  with s'(1) m show ?thesis by blast
qed

lemma page_heap_relist:
  assumes ok: "page_heap_ok s C S L M A" and v: "view s' C S L' M" and m: "mframe s s'" and c: "c < 87"
    and L': "L' = L(cl_head c := zs)" and zs: "\<And>a. a \<in> set zs \<Longrightarrow> a \<in> A \<and> in_use (C a)"
  shows "page_heap_ok s' C S L' M A"
proof -
  note o = page_heap_okD [OF ok]
  note d = heap_invD [OF o(1)]
  have "lists_ok C A L'" using d(6) zs unfolding L' lists_ok_def by auto
  then have "heap_inv s' C S L' M A {}" using o(1) v mframe_pages [OF m] unfolding heap_inv_def by simp
  moreover have "ph_stat s' = ph_stat s" using m by (simp add: mframe_def)
  ultimately show ?thesis using o by (simp add: page_heap_ok_def)
qed

lemma page_heap_prepend:
  assumes ok: "page_heap_ok s C S L M A" and sp: "sp \<in> A" "in_use (C sp)" and c: "c < 87"
    and nl: "\<And>b. b < 87 \<Longrightarrow> sp \<notin> set (L (cl_head b))"
  shows "\<exists>s'. span_list_prepend s (cl_head c) sp = Some s' \<and>
    page_heap_ok s' C S (L(cl_head c := sp # L (cl_head c))) M A \<and> mframe s s' \<and> used0 s' = used0 s"
proof -
  note o = page_heap_okD [OF ok]
  note d = heap_invD [OF o(1)]
  have spS: "sp \<in> S" using d(2) sp by auto
  have all: "sp \<notin> set (L h)" if "h \<in> HEADS" for h
    using that
  proof (cases rule: heads_cases)
    case (1 n) then show ?thesis using d(6) sp by (simp add: lists_ok_def)
  next
    case (2 b) then show ?thesis using nl by simp
  qed
  obtain s' where s': "span_list_prepend s (cl_head c) sp = Some s'" "view s' C S (L(cl_head c := sp # L (cl_head c))) M"
      "mframe s s'" "used0 s' = used0 s"
    using view_prepend [OF d(1) _ spS d(3) [OF sp(1)] all, of "cl_head c"] c by auto
  have "a \<in> A \<and> in_use (C a)" if "a \<in> set (sp # L (cl_head c))" for a
    using that sp d(6) c by (auto simp: lists_ok_def)
  then have "page_heap_ok s' C S (L(cl_head c := sp # L (cl_head c))) M A"
    using page_heap_relist [OF ok s'(2,3) c refl] by blast
  with s' show ?thesis by blast
qed

lemma page_heap_remove:
  assumes ok: "page_heap_ok s C S L M A" and c: "c < 87" and sp: "sp \<in> set (L (cl_head c))"
  shows "\<exists>s'. span_list_remove s sp = Some s' \<and>
    page_heap_ok s' C S (L(cl_head c := remove1 sp (L (cl_head c)))) M A \<and> mframe s s' \<and> used0 s' = used0 s"
proof -
  note o = page_heap_okD [OF ok]
  note d = heap_invD [OF o(1)]
  obtain s' where s': "span_list_remove s sp = Some s'" "view s' C S (L(cl_head c := remove1 sp (L (cl_head c)))) M"
      "mframe s s'" "used0 s' = used0 s"
    using view_remove [OF d(1) _ sp] c by auto
  have "a \<in> A \<and> in_use (C a)" if "a \<in> set (remove1 sp (L (cl_head c)))" for a
    using notin_set_remove1 [of a "L (cl_head c)" sp] that d(6) c by (auto simp: lists_ok_def)
  then have "page_heap_ok s' C S (L(cl_head c := remove1 sp (L (cl_head c)))) M A"
    using page_heap_relist [OF ok s'(2,3) c refl] by blast
  with s' show ?thesis by blast
qed

section \<open>Chunks in user memory\<close>

text \<open>The free chunks of a span, by offset, linked through their first word.\<close>

fun uchain :: "(nat \<Rightarrow> u64) \<Rightarrow> addr \<Rightarrow> nat list \<Rightarrow> bool" where
  "uchain u a [] \<longleftrightarrow> a = nulladdr"
| "uchain u a (p # ps) \<longleftrightarrow> a = (2, p) \<and> uchain u (decode (u p)) ps"

lemma uchain_cong: "(\<And>p. p \<in> set ps \<Longrightarrow> u' p = u p) \<Longrightarrow> uchain u' a ps = uchain u a ps"
  by (induction ps arbitrary: a) auto

lemma uchain_ok: "uchain u a ps \<Longrightarrow> addr_ok a \<longleftrightarrow> ps \<noteq> []"
  by (cases ps) auto

definition slot_count :: "span \<Rightarrow> nat" where
  "slot_count x = page_count x * 8192 div class_sizes ! size_class x"

definition slot :: "span \<Rightarrow> nat \<Rightarrow> nat" where
  "slot x i = start_page x * 8192 + i * class_sizes ! size_class x"

definition chunk_slots :: "span \<Rightarrow> nat list" where
  "chunk_slots x = map (slot x) [0..<slot_count x]"

lemma slot_bounds:
  assumes "1 \<le> size_class x" "size_class x \<le> 85" "p \<in> set (chunk_slots x)"
  shows "start_page x * 8192 \<le> p" "p + class_sizes ! size_class x \<le> (start_page x + page_count x) * 8192"
proof -
  let ?z = "class_sizes ! size_class x"
  obtain i where i: "i < slot_count x" "p = start_page x * 8192 + i * ?z"
    using assms(3) by (auto simp: chunk_slots_def slot_def)
  have "(i + 1) * ?z \<le> slot_count x * ?z" using i(1) by (intro mult_le_mono1) simp
  also have "\<dots> \<le> page_count x * 8192" by (simp add: slot_count_def)
  finally show "p + ?z \<le> (start_page x + page_count x) * 8192" using i(2) by (simp add: algebra_simps)
  show "start_page x * 8192 \<le> p" using i(2) by simp
qed

lemma slot_apart:
  assumes "1 \<le> size_class x" "size_class x \<le> 85" "p \<in> set (chunk_slots x)" "q \<in> set (chunk_slots x)" "p \<noteq> q"
  shows "p + class_sizes ! size_class x \<le> q \<or> q + class_sizes ! size_class x \<le> p"
proof -
  let ?z = "class_sizes ! size_class x"
  obtain i j where i: "p = start_page x * 8192 + i * ?z" "q = start_page x * 8192 + j * ?z"
    using assms(3,4) by (auto simp: chunk_slots_def slot_def)
  then have "i < j \<or> j < i" using assms(5) by auto
  then show ?thesis
  proof
    assume "i < j"
    then have "(i + 1) * ?z \<le> j * ?z" by (intro mult_le_mono1) simp
    then show ?thesis using i by (simp add: algebra_simps)
  next
    assume "j < i"
    then have "(j + 1) * ?z \<le> i * ?z" by (intro mult_le_mono1) simp
    then show ?thesis using i by (simp add: algebra_simps)
  qed
qed

lemma slots_distinct: "1 \<le> size_class x \<Longrightarrow> size_class x \<le> 85 \<Longrightarrow> distinct (chunk_slots x)"
  using class_sizes_entry(3) [of "size_class x"] by (auto simp: chunk_slots_def slot_def distinct_map inj_on_def)

lemma slot_page:
  assumes "1 \<le> size_class x" "size_class x \<le> 85" "p \<in> set (chunk_slots x)"
  shows "start_page x \<le> p div 8192" "p div 8192 < start_page x + page_count x"
proof -
  note b = slot_bounds [OF assms]
  have z: "0 < class_sizes ! size_class x" using class_sizes_entry(3) assms by blast
  show "start_page x \<le> p div 8192" using b(1) by (simp add: less_eq_div_iff_mult_less_eq)
  have "p < (start_page x + page_count x) * 8192" using b(2) z by linarith
  then show "p div 8192 < start_page x + page_count x" by (simp add: div_less_iff_less_mult)
qed

section \<open>Reading and writing links\<close>

definition user_ok :: "shm \<Rightarrow> nat \<Rightarrow> bool" where
  "user_ok s p \<longleftrightarrow> p < used1 s \<and> block_addr (blocks s 1) \<noteq> 0"

lemma write_link_eq: "user_ok s p \<Longrightarrow> write_link s (2, p) v = Some (s\<lparr>user := (user s)(p := encode v)\<rparr>)"
  by (simp add: user_ok_def write_link_def addr2ptr_def block_defs)

lemma read_link_eq: "user_ok s p \<Longrightarrow> read_link s (2, p) = Some (decode (user s p))"
  by (simp add: user_ok_def read_link_def addr2ptr_def block_defs)

abbreviation steps :: "nat \<Rightarrow> nat \<Rightarrow> nat \<Rightarrow> nat list" where
  "steps ofs b n \<equiv> map (\<lambda>i. ofs + i * b) [0..<n]"

lemma steps_Suc: "steps ofs b (Suc n) = ofs # steps (ofs + b) b n"
  by (simp add: upt_conv_Cons map_Suc_upt [symmetric] del: upt_Suc)

lemma make_addr_eq: "k < 2 ^ 16 \<Longrightarrow> p < 2 ^ 48 \<Longrightarrow> make_addr k p = Some (k, p)"
  by simp

lemma partition_tail:
  assumes "0 < b" and "e \<le> used1 s" and "e \<le> 2 ^ 47" and "user_ok s t" and "t < ofs" and "ofs + n * b \<le> e" and "e < ofs + (n + 1) * b"
  shows "\<exists>u. partition_loop s sp (Some (2, t)) b ofs e = Some (s\<lparr>user := u\<rparr>) \<and>
    uchain u (decode (u t)) (steps ofs b n) \<and> (\<forall>q. q \<noteq> t \<longrightarrow> q \<notin> set (steps ofs b n) \<longrightarrow> u q = user s q)"
  using assms
proof (induction n arbitrary: s t ofs)
  case 0
  then have "partition_loop s sp (Some (2, t)) b ofs e = Some (s\<lparr>user := (user s)(t := encode nulladdr)\<rparr>)"
    by (subst partition_loop.simps) (simp add: write_tail_def write_link_eq)
  moreover let ?u = "(user s)(t := encode nulladdr)"
  have "uchain ?u (decode (?u t)) (steps ofs b 0)" "\<forall>q. q \<noteq> t \<longrightarrow> q \<notin> set (steps ofs b 0) \<longrightarrow> ?u q = user s q" by simp_all
  ultimately show ?case by blast
next
  case (Suc n)
  let ?s = "s\<lparr>user := (user s)(t := encode (2, ofs))\<rparr>"
  have le: "ofs + b \<le> e" using Suc.prems(6) by simp
  have uo: "user_ok ?s ofs" using Suc.prems(1,2,4) le by (simp add: user_ok_def)
  have "\<exists>u. partition_loop ?s sp (Some (2, ofs)) b (ofs + b) e = Some (?s\<lparr>user := u\<rparr>) \<and>
      uchain u (decode (u ofs)) (steps (ofs + b) b n) \<and>
      (\<forall>q. q \<noteq> ofs \<longrightarrow> q \<notin> set (steps (ofs + b) b n) \<longrightarrow> u q = user ?s q)"
    by (rule Suc.IH) (use Suc.prems uo in \<open>simp_all add: algebra_simps\<close>)
  then obtain u where u: "partition_loop ?s sp (Some (2, ofs)) b (ofs + b) e = Some (?s\<lparr>user := u\<rparr>)"
      "uchain u (decode (u ofs)) (steps (ofs + b) b n)"
      "\<And>q. q \<noteq> ofs \<Longrightarrow> q \<notin> set (steps (ofs + b) b n) \<Longrightarrow> u q = user ?s q"
    by blast
  have a2: "addr2ptr ?s (2, ofs) = Some (block_addr (blocks s 1) + ofs)"
    using uo by (simp add: addr2ptr_def user_ok_def block_defs)
  have mk: "ofs < 2 ^ 48" using le Suc.prems(3) by simp
  have "partition_loop s sp (Some (2, t)) b ofs e = Some (s\<lparr>user := u\<rparr>)"
    using u(1) le Suc.prems(1) mk a2 by (subst partition_loop.simps) (simp add: write_tail_def write_link_eq [OF Suc.prems(4)] make_addr_eq)
  moreover have "t \<noteq> ofs" "t \<notin> set (steps (ofs + b) b n)" using Suc.prems(5) by auto
  then have "u t = encode (2, ofs)" using u(3) [of t] by simp
  then have "decode (u t) = (2, ofs)" using le Suc.prems(3) by (simp add: addr_wf_def)
  ultimately show ?case
    unfolding steps_Suc using u(2,3) by (intro exI [of _ u]) auto
qed

lemma chunk_slots_steps: "chunk_slots x = steps (start_page x * 8192) (class_sizes ! size_class x) (slot_count x)"
  by (simp add: chunk_slots_def slot_def)

lemma div_steps: "0 < (b :: nat) \<Longrightarrow> l < (l div b + 1) * b"
  using dividend_less_times_div [of b l] by (simp add: algebra_simps)

text \<open>Partitioning a fresh span links all its chunks in address order.\<close>

lemma span_partition_ok:
  assumes ok: "page_heap_ok s C S L M A" and sp: "sp \<in> A" "in_use (C sp)" "payload (C sp) = payload span_default"
    and c: "1 \<le> c" "c \<le> 85" "page_count (C sp) = class_pages ! c" and ba: "block_addr (blocks s 1) \<noteq> 0"
  shows "\<exists>s' x. span_partition s sp (class_sizes ! c) c = Some s' \<and> page_heap_ok s' (C(sp := x)) S L M A \<and>
    x = (C sp)\<lparr>size_class := c, chunk_list := chunk_list x\<rparr> \<and> uchain (user s') (chunk_list x) (chunk_slots x) \<and>
    (\<forall>q. q \<notin> set (chunk_slots x) \<longrightarrow> user s' q = user s q) \<and> mframe s (s'\<lparr>user := user s\<rparr>) \<and> used0 s' = used0 s"
proof -
  note o = page_heap_okD [OF ok]
  note d = heap_invD [OF o(1)]
  have spS: "sp \<in> S" using d(2) sp by auto
  note f = view_fields [OF d(1) spS]
  let ?z = "class_sizes ! c"
  have z: "0 < ?z" "8 \<le> ?z" "?z \<le> page_count (C sp) * 8192"
    using class_sizes_entry(1,3) [OF c(1,2)] class_span_entry(2) [OF c(1,2)] c(3) by (auto simp: page_size_def dest: dvd_imp_le)
  have pl: "size_class (C sp) = 255" "used_count (C sp) = 0" "chunk_list (C sp) = nulladdr"
    using sp(3) by (simp_all add: payload_def span_default_def)
  obtain s1 where s1: "upd_span s sp (\<lambda>x. x\<lparr>size_class := c\<rparr>) = Some s1"
      "page_heap_ok s1 (C(sp := (C sp)\<lparr>size_class := c\<rparr>)) S L M A" "mframe s s1" "used0 s1 = used0 s"
    using page_heap_upd [OF ok sp(1,2), of "\<lambda>x. x\<lparr>size_class := c\<rparr>"] by auto
  let ?C1 = "C(sp := (C sp)\<lparr>size_class := c\<rparr>)" and ?o = "start_page (C sp) * 8192" and ?e = "(start_page (C sp) + page_count (C sp)) * 8192"
  let ?x = "(C sp)\<lparr>size_class := c, chunk_list := (2, ?o)\<rparr>"
  obtain s2 where s2: "upd_span s1 sp (\<lambda>x. x\<lparr>chunk_list := (2, ?o)\<rparr>) = Some s2"
      "page_heap_ok s2 (C(sp := ?x)) S L M A" "mframe s1 s2" "used0 s2 = used0 s1"
    using page_heap_upd [OF s1(2) sp(1), of "\<lambda>x. x\<lparr>chunk_list := (2, ?o)\<rparr>"] sp(2) by auto
  have mf: "mframe s s2" using s1(3) s2(3) by (rule mframe_trans)
  have used: "?e \<le> used1 s2" "block_addr (blocks s2 1) \<noteq> 0" "?e \<le> 2 ^ 47"
  proof -
    have "hi C sp \<le> pages s" using tilingD(2) [OF d(5) sp(1)] .
    then have "?e \<le> pages s * 8192" by simp
    also have "\<dots> \<le> used1 s" by (simp add: pages_def)
    finally have le: "?e \<le> used1 s" .
    then show "?e \<le> used1 s2" "block_addr (blocks s2 1) \<noteq> 0" using mf ba by (simp_all add: mframe_def)
    have "used1 s \<le> 2 ^ 47" using viewD(1) [OF d(1)] by (auto simp: mem_ok_def block_ok_def)
    with le show "?e \<le> 2 ^ 47" by simp
  qed
  define m where "m = slot_count ?x - 1"
  have n: "slot_count ?x = Suc m" unfolding m_def using z by (simp add: slot_count_def div_greater_zero_iff)
  have e: "?e = ?o + page_count (C sp) * 8192" by (simp add: algebra_simps)
  have sc: "slot_count ?x * ?z \<le> page_count (C sp) * 8192" "page_count (C sp) * 8192 < (slot_count ?x + 1) * ?z"
    using div_steps [OF z(1), of "page_count (C sp) * 8192"] by (simp_all add: slot_count_def)
  have uo: "user_ok s2 ?o" using used z by (simp add: user_ok_def)
  obtain u where u: "partition_loop s2 sp (Some (2, ?o)) ?z (?o + ?z) ?e = Some (s2\<lparr>user := u\<rparr>)"
      "uchain u (decode (u ?o)) (steps (?o + ?z) ?z m)"
      "\<And>q. q \<noteq> ?o \<Longrightarrow> q \<notin> set (steps (?o + ?z) ?z m) \<Longrightarrow> u q = user s2 q"
  proof -
    have "?o + ?z + m * ?z \<le> ?e" "?e < ?o + ?z + (m + 1) * ?z"
      using sc unfolding n e by simp_all
    then show ?thesis using partition_tail [OF z(1) used(1,3) uo, of "?o + ?z" m sp] z(1) that by auto
  qed
  have cs: "chunk_slots ?x = ?o # steps (?o + ?z) ?z m"
    unfolding chunk_slots_steps using steps_Suc [of ?o ?z m] n by simp
  let ?s = "s2\<lparr>user := u\<rparr>"
  have "partition_loop s1 sp None ?z ?o ?e = Some ?s"
  proof -
    have "?o < 2 ^ 48" using used(3) z by simp
    moreover have "addr2ptr s2 (2, ?o) = Some (block_addr (blocks s2 1) + ?o)"
      using uo by (simp add: addr2ptr_def user_ok_def block_defs)
    moreover have "?o + ?z \<le> ?e" using z(3) e by simp
    ultimately show ?thesis using u(1) s2(1) z(1) by (subst partition_loop.simps) (simp add: write_tail_def make_addr_eq)
  qed
  then have "span_partition s sp ?z c = Some ?s"
    using f pl z(2) s1(1) by (simp add: span_partition_def page_size_def)
  moreover have "page_heap_ok ?s (C(sp := ?x)) S L M A" by (rule page_heap_cong [OF s2(2)]) simp_all
  moreover have "uchain (user ?s) (chunk_list ?x) (chunk_slots ?x)" unfolding cs using u(2) by simp
  moreover have "\<forall>q. q \<notin> set (chunk_slots ?x) \<longrightarrow> user ?s q = user s q"
    unfolding cs using u(3) mf by (simp add: mframe_def)
  moreover have "mframe s (?s\<lparr>user := user s\<rparr>)" "used0 ?s = used0 s" using mf s1(4) s2(4) by (simp_all add: mframe_def)
  ultimately show ?thesis by (intro exI [of _ ?s] exI [of _ ?x]) simp
qed

end
