(* ===== verification/Chunk_Inv.thy ===== *)
theory Chunk_Inv
  imports Chunk_View
begin

text \<open>
  The invariant of the chunk cache, and the memory it has handed out.
\<close>

section \<open>The invariant\<close>

definition chunks_ok :: "(nat \<Rightarrow> u64) \<Rightarrow> (addr \<Rightarrow> span) \<Rightarrow> (nat \<Rightarrow> addr) \<Rightarrow> addr \<Rightarrow> nat list \<Rightarrow> bool" where
  "chunks_ok u C M a fs \<longleftrightarrow> 1 \<le> size_class (C a) \<and> size_class (C a) \<le> 85 \<and>
     page_count (C a) = class_pages ! size_class (C a) \<and> registered C M a \<and> distinct fs \<and>
     set fs \<subseteq> set (chunk_slots (C a)) \<and> uchain u (chunk_list (C a)) fs \<and>
     used_count (C a) + length fs = slot_count (C a)"

definition cached :: "(addr \<Rightarrow> span) \<Rightarrow> addr set \<Rightarrow> nat \<Rightarrow> addr set" where
  "cached C A c = {a \<in> A. in_use (C a) \<and> size_class (C a) = c}"

definition wsum :: "(span \<Rightarrow> nat) \<Rightarrow> (addr \<Rightarrow> span) \<Rightarrow> addr set \<Rightarrow> nat \<Rightarrow> nat" where
  "wsum g C A c = (\<Sum>a \<in> cached C A c. g (C a))"

definition used_bytes :: "span \<Rightarrow> nat" where "used_bytes x = used_count x * class_sizes ! size_class x"
definition span_bytes :: "span \<Rightarrow> nat" where "span_bytes x = page_count x * 8192"

text \<open>The statistics are exact: bytes handed out and bytes owned, per class and in total.\<close>

definition cstats :: "shm \<Rightarrow> (addr \<Rightarrow> span) \<Rightarrow> addr set \<Rightarrow> bool" where
  "cstats s C A \<longleftrightarrow>
     (\<forall>c < 87. cl_used_size (caches s c) = wsum used_bytes C A c) \<and>
     (\<forall>c < 87. cl_total_size (caches s c) = wsum span_bytes C A c) \<and>
     cc_used_size (cc_stat s) = (\<Sum>c < 87. wsum used_bytes C A c) \<and>
     cc_total_size (cc_stat s) = (\<Sum>c < 87. wsum span_bytes C A c)"

text \<open>\<open>F a\<close> lists the free chunks of the span \<open>a\<close> in the order in which they are linked.\<close>

definition cache_inv ::
    "shm \<Rightarrow> (addr \<Rightarrow> span) \<Rightarrow> (addr \<Rightarrow> addr list) \<Rightarrow> (nat \<Rightarrow> addr) \<Rightarrow> addr set \<Rightarrow> (addr \<Rightarrow> nat list) \<Rightarrow> bool" where
  "cache_inv s C L M A F \<longleftrightarrow> size_map_ok (sizes s) \<and>
     (\<forall>a \<in> A. in_use (C a) \<longrightarrow> size_class (C a) \<noteq> 255 \<longrightarrow> chunks_ok (user s) C M a (F a)) \<and>
     (\<forall>a \<in> A. in_use (C a) \<longrightarrow> size_class (C a) = 255 \<longrightarrow> payload (C a) = payload span_default) \<and>
     (\<forall>c < 87. set (L (cl_head c)) = {a \<in> cached C A c. F a \<noteq> []}) \<and>
     (\<forall>c < 87. span_count (caches s c) = int (length (L (cl_head c)))) \<and> cstats s C A"

lemma cache_invD:
  assumes "cache_inv s C L M A F"
  shows "size_map_ok (sizes s)"
    "a \<in> A \<Longrightarrow> in_use (C a) \<Longrightarrow> size_class (C a) \<noteq> 255 \<Longrightarrow> chunks_ok (user s) C M a (F a)"
    "a \<in> A \<Longrightarrow> in_use (C a) \<Longrightarrow> size_class (C a) = 255 \<Longrightarrow> payload (C a) = payload span_default"
    "c < 87 \<Longrightarrow> set (L (cl_head c)) = {a \<in> cached C A c. F a \<noteq> []}"
    "c < 87 \<Longrightarrow> span_count (caches s c) = int (length (L (cl_head c)))" "cstats s C A"
  using assms unfolding cache_inv_def by blast+

lemma chunks_okD:
  assumes "chunks_ok u C M a fs"
  shows "1 \<le> size_class (C a)" "size_class (C a) \<le> 85" "page_count (C a) = class_pages ! size_class (C a)"
    "registered C M a" "distinct fs" "set fs \<subseteq> set (chunk_slots (C a))" "uchain u (chunk_list (C a)) fs"
    "used_count (C a) + length fs = slot_count (C a)"
  using assms unfolding chunks_ok_def by blast+

section \<open>The sums\<close>

lemma cached_upd:
  assumes "sp \<in> A" and "in_use x"
  shows "cached (C(sp := x)) A c - {sp} = cached C A c - {sp}" "sp \<in> cached (C(sp := x)) A c \<longleftrightarrow> size_class x = c"
  using assms by (auto simp: cached_def)

lemma wsum_split:
  assumes "finite A"
  shows "wsum g C A c = (\<Sum>a \<in> cached C A c - {sp}. g (C a)) + (if sp \<in> cached C A c then g (C sp) else 0)"
proof -
  have f: "finite (cached C A c)" using assms by (simp add: cached_def)
  show ?thesis
  proof (cases "sp \<in> cached C A c")
    case True then show ?thesis using sum.remove [OF f True, of "\<lambda>a. g (C a)"] by (simp add: wsum_def)
  qed (simp add: wsum_def)
qed

lemma wsum_upd:
  assumes "finite A" "sp \<in> A" "in_use (C sp)" "in_use x"
  shows "wsum g (C(sp := x)) A c + (if size_class (C sp) = c then g (C sp) else 0) =
    wsum g C A c + (if size_class x = c then g x else 0)"
proof -
  have "sp \<in> cached C A c \<longleftrightarrow> size_class (C sp) = c" using assms by (simp add: cached_def)
  moreover have "(\<Sum>a \<in> cached C A c - {sp}. g ((C(sp := x)) a)) = (\<Sum>a \<in> cached C A c - {sp}. g (C a))"
    by (rule sum.cong) auto
  ultimately show ?thesis
    using wsum_split [OF assms(1), of g "C(sp := x)" c sp] wsum_split [OF assms(1), of g C c sp]
      cached_upd [OF assms(2,4), of C c] by simp
qed

lemma wsum_total_upd:
  assumes "finite A" "sp \<in> A" "in_use (C sp)" "in_use x"
  shows "(\<Sum>c < 87. wsum g (C(sp := x)) A c) + (if size_class (C sp) < 87 then g (C sp) else 0) =
    (\<Sum>c < 87. wsum g C A c) + (if size_class x < 87 then g x else 0)"
proof -
  have d: "(\<Sum>c < (87 :: nat). if k = c then v else 0) = (if k < 87 then v else (0 :: nat))" for k v
    by (simp add: sum.delta')
  have "(\<Sum>c < 87. wsum g (C(sp := x)) A c + (if size_class (C sp) = c then g (C sp) else 0)) =
    (\<Sum>c < 87. wsum g C A c + (if size_class x = c then g x else 0))"
    by (rule sum.cong) (use wsum_upd [of A sp C x g] assms in auto)
  then show ?thesis unfolding sum.distrib d .
qed

section \<open>Memory in use\<close>

text \<open>The regions handed out, as pairs of an offset and a length: whole spans and chunks.\<close>

definition live_of :: "span \<Rightarrow> nat list \<Rightarrow> (nat \<times> nat) set" where
  "live_of x fs = (if size_class x = 255 then {(start_page x * 8192, page_count x * 8192)}
     else (\<lambda>p. (p, class_sizes ! size_class x)) ` (set (chunk_slots x) - set fs))"

definition live :: "(addr \<Rightarrow> span) \<Rightarrow> addr set \<Rightarrow> (addr \<Rightarrow> nat list) \<Rightarrow> (nat \<times> nat) set" where
  "live C A F = (\<Union>a \<in> {a \<in> A. in_use (C a)}. live_of (C a) (F a))"

lemma live_split:
  assumes "sp \<in> A" "in_use (C sp)"
  shows "live C A F = live_of (C sp) (F sp) \<union> live C (A - {sp}) F"
proof -
  have "{a \<in> A. in_use (C a)} = insert sp {a \<in> A - {sp}. in_use (C a)}" using assms by blast
  then show ?thesis by (simp add: live_def)
qed

lemma live_cong:
  assumes "\<And>a. a \<in> B \<Longrightarrow> C' a = C a \<and> F' a = F a"
  shows "live C' B F' = live C B F"
proof -
  have "{a \<in> B. in_use (C' a)} = {a \<in> B. in_use (C a)}" using assms by auto
  then show ?thesis unfolding live_def using assms by (intro SUP_cong) auto
qed

lemma live_hframe:
  assumes "hframe sp C L M A C' L' M' A'"
  shows "live C' (A' - {sp}) F = live C (A - {sp}) F"
proof -
  have "{a \<in> A' - {sp}. in_use (C' a)} = {a \<in> A - {sp}. in_use (C a)}"
  proof (intro set_eqI iffI)
    fix a assume a: "a \<in> {a \<in> A' - {sp}. in_use (C' a)}"
    then have "a \<in> A" "C' a = C a" using hframeD(4,5) [OF assms, of a] by simp_all
    with a show "a \<in> {a \<in> A - {sp}. in_use (C a)}" by simp
  next
    fix a assume a: "a \<in> {a \<in> A - {sp}. in_use (C a)}"
    then have "a \<in> A'" "C' a = C a" using hframeD(1,2) [OF assms, of a] by simp_all
    with a show "a \<in> {a \<in> A' - {sp}. in_use (C' a)}" by simp
  qed
  moreover have "live_of (C' a) (F a) = live_of (C a) (F a)" if "a \<in> {a \<in> A - {sp}. in_use (C a)}" for a
    using hframeD(2) [OF assms, of a] that by simp
  ultimately show ?thesis unfolding live_def by (metis (mono_tags, lifting) SUP_cong)
qed

lemma live_not_used: "\<not> (sp \<in> A \<and> in_use (C sp)) \<Longrightarrow> live C (A - {sp}) F = live C A F"
proof -
  assume "\<not> (sp \<in> A \<and> in_use (C sp))"
  then have "{a \<in> A - {sp}. in_use (C a)} = {a \<in> A. in_use (C a)}" by blast
  then show ?thesis by (simp add: live_def)
qed

lemma live_of_bounds:
  assumes "(p, n) \<in> live_of x fs" and "size_class x \<noteq> 255 \<longrightarrow> 1 \<le> size_class x \<and> size_class x \<le> 85" and "0 < page_count x"
  shows "0 < n" "start_page x * 8192 \<le> p" "p + n \<le> (start_page x + page_count x) * 8192"
proof -
  have "0 < n \<and> start_page x * 8192 \<le> p \<and> p + n \<le> (start_page x + page_count x) * 8192"
  proof (cases "size_class x = 255")
    case True then show ?thesis using assms(1,3) by (auto simp: live_of_def)
  next
    case False
    then have c: "1 \<le> size_class x" "size_class x \<le> 85" using assms(2) by auto
    have p: "p \<in> set (chunk_slots x)" "n = class_sizes ! size_class x" using assms(1) False by (auto simp: live_of_def)
    show ?thesis using slot_bounds [OF c p(1)] class_sizes_entry(3) [OF c] p(2) by simp
  qed
  then show "0 < n" "start_page x * 8192 \<le> p" "p + n \<le> (start_page x + page_count x) * 8192" by auto
qed

lemma live_of_apart:
  assumes "(p, n) \<in> live_of x fs" "(q, m) \<in> live_of x fs" "(p, n) \<noteq> (q, m)"
    and "size_class x \<noteq> 255 \<longrightarrow> 1 \<le> size_class x \<and> size_class x \<le> 85"
  shows "p + n \<le> q \<or> q + m \<le> p"
proof (cases "size_class x = 255")
  case True then show ?thesis using assms by (simp add: live_of_def)
next
  case False
  then have c: "1 \<le> size_class x" "size_class x \<le> 85" using assms(4) by auto
  have p: "p \<in> set (chunk_slots x)" "q \<in> set (chunk_slots x)" "n = class_sizes ! size_class x" "m = class_sizes ! size_class x"
    using assms(1,2) False by (auto simp: live_of_def)
  then show ?thesis using slot_apart [OF c p(1,2)] assms(3) by auto
qed

lemma live_in_span:
  assumes ok: "page_heap_ok s C S L M A" and inv: "cache_inv s C L M A F" and "(p, n) \<in> live C A F"
  shows "\<exists>a \<in> A. in_use (C a) \<and> (p, n) \<in> live_of (C a) (F a) \<and> 0 < n \<and> lo C a * 8192 \<le> p \<and> p + n \<le> hi C a * 8192 \<and>
    (size_class (C a) \<noteq> 255 \<longrightarrow> 1 \<le> size_class (C a) \<and> size_class (C a) \<le> 85)"
proof -
  obtain a where a: "a \<in> A" "in_use (C a)" "(p, n) \<in> live_of (C a) (F a)" using assms(3) by (auto simp: live_def)
  have c: "size_class (C a) \<noteq> 255 \<longrightarrow> 1 \<le> size_class (C a) \<and> size_class (C a) \<le> 85"
    using cache_invD(2) [OF inv a(1,2)] chunks_okD(1,2) by blast
  have "0 < page_count (C a)" using tilingD(1) [OF heap_invD(5) [OF page_heap_okD(1) [OF ok]] a(1)] by simp
  from live_of_bounds [OF a(3) c this] a c show ?thesis by blast
qed

text \<open>Two regions in use never overlap, and all lie in the user block.\<close>

lemma live_apart:
  assumes ok: "page_heap_ok s C S L M A" and inv: "cache_inv s C L M A F"
    and "(p, n) \<in> live C A F" "(q, m) \<in> live C A F" "(p, n) \<noteq> (q, m)"
  shows "p + n \<le> q \<or> q + m \<le> p"
proof -
  obtain a where a: "a \<in> A" "(p, n) \<in> live_of (C a) (F a)" "lo C a * 8192 \<le> p" "p + n \<le> hi C a * 8192"
      "size_class (C a) \<noteq> 255 \<longrightarrow> 1 \<le> size_class (C a) \<and> size_class (C a) \<le> 85"
    using live_in_span [OF ok inv assms(3)] by blast
  obtain b where b: "b \<in> A" "(q, m) \<in> live_of (C b) (F b)" "lo C b * 8192 \<le> q" "q + m \<le> hi C b * 8192"
    using live_in_span [OF ok inv assms(4)] by blast
  show ?thesis
  proof (cases "a = b")
    case True then show ?thesis using live_of_apart [OF a(2) _ assms(5) a(5), of] b(2) by blast
  next
    case False
    then have "hi C a \<le> lo C b \<or> hi C b \<le> lo C a"
      using tilingD(3) [OF heap_invD(5) [OF page_heap_okD(1) [OF ok]] a(1) b(1)] by blast
    then have "hi C a * 8192 \<le> lo C b * 8192 \<or> hi C b * 8192 \<le> lo C a * 8192" by auto
    then show ?thesis using a(3,4) b(3,4) by linarith
  qed
qed

lemma live_bound:
  assumes ok: "page_heap_ok s C S L M A" and inv: "cache_inv s C L M A F" and "(p, n) \<in> live C A F"
  shows "0 < n" "p + n \<le> used1 s"
proof -
  obtain a where a: "a \<in> A" "0 < n" "p + n \<le> hi C a * 8192" using live_in_span [OF assms] by blast
  have "hi C a \<le> pages s" using tilingD(2) [OF heap_invD(5) [OF page_heap_okD(1) [OF ok]] a(1)] .
  then have "hi C a * 8192 \<le> pages s * 8192" by simp
  also have "\<dots> \<le> used1 s" by (simp add: pages_def)
  finally show "p + n \<le> used1 s" using a(3) by simp
  show "0 < n" by (rule a(2))
qed

section \<open>Steps of the page heap keep the invariant of the cache\<close>

lemma chunks_ok_cong:
  assumes "chunks_ok u C M a fs" "C' a = C a" "\<And>p. p \<in> set fs \<Longrightarrow> u' p = u p"
    and "\<And>p. lo C a \<le> p \<Longrightarrow> p < hi C a \<Longrightarrow> M' p = M p"
  shows "chunks_ok u' C' M' a fs"
  using assms uchain_cong [of fs u' u] unfolding chunks_ok_def registered_def by simp

lemma cached_hframe:
  assumes f: "hframe sp C L M A C' L' M' A'" and c: "c \<noteq> 255"
    and b: "sp \<in> A \<Longrightarrow> in_use (C sp) \<Longrightarrow> size_class (C sp) = 255" and a: "sp \<in> A' \<Longrightarrow> in_use (C' sp) \<Longrightarrow> size_class (C' sp) = 255"
  shows "cached C' A' c = cached C A c" "a \<in> cached C A c \<Longrightarrow> C' a = C a"
proof -
  have n: "x \<noteq> sp" if "x \<in> cached C A c" for x using that b c by (auto simp: cached_def)
  have n': "x \<noteq> sp" if "x \<in> cached C' A' c" for x using that a c by (auto simp: cached_def)
  show eq: "C' x = C x" if "x \<in> cached C A c" for x
    using hframeD(2) [OF f, of x] n [OF that] that by (simp add: cached_def)
  show "cached C' A' c = cached C A c"
  proof (intro set_eqI iffI)
    fix x assume x: "x \<in> cached C' A' c"
    then have "x \<in> A" "C' x = C x" using hframeD(4,5) [OF f, of x] n' [OF x] by (simp_all add: cached_def)
    with x show "x \<in> cached C A c" by (simp add: cached_def)
  next
    fix x assume x: "x \<in> cached C A c"
    then have "x \<in> A'" using hframeD(1) [OF f, of x] n [OF x] by (simp add: cached_def)
    with x eq [OF x] show "x \<in> cached C' A' c" by (simp add: cached_def)
  qed
qed

lemma cache_inv_hframe:
  assumes inv: "cache_inv s C L M A F" and f: "hframe sp C L M A C' L' M' A'"
    and b: "sp \<in> A \<Longrightarrow> in_use (C sp) \<Longrightarrow> size_class (C sp) = 255"
    and a: "sp \<in> A' \<Longrightarrow> in_use (C' sp) \<Longrightarrow> payload (C' sp) = payload span_default"
    and e: "sizes s' = sizes s" "user s' = user s" "caches s' = caches s" "cc_stat s' = cc_stat s"
  shows "cache_inv s' C' L' M' A' F"
proof -
  note i = cache_invD [OF inv]
  have a': "size_class (C' sp) = 255" if "sp \<in> A'" "in_use (C' sp)"
    using a [OF that] by (simp add: payload_def span_default_def)
  have cc: "cached C' A' c = cached C A c" "\<And>x. x \<in> cached C A c \<Longrightarrow> C' x = C x" if "c < 87" for c
  proof -
    have n: "c \<noteq> 255" using that by simp
    show "cached C' A' c = cached C A c" by (rule cached_hframe(1) [OF f n]) (use b a' in blast)+
    show "C' x = C x" if "x \<in> cached C A c" for x by (rule cached_hframe(2) [OF f n _ _ that]) (use b a' in blast)+
  qed
  have w: "wsum g C' A' c = wsum g C A c" if "c < 87" for g c
  proof -
    show ?thesis unfolding wsum_def cc(1) [OF that] by (rule sum.cong) (simp_all only: cc(2) [OF that])
  qed
  have "cstats s' C' A'" using i(6) unfolding cstats_def e by (simp add: w)
  moreover have "chunks_ok (user s') C' M' x (F x)" if x: "x \<in> A'" "in_use (C' x)" "size_class (C' x) \<noteq> 255" for x
  proof -
    have "x \<noteq> sp" using x a' by blast
    then have y: "x \<in> A" "C' x = C x" using hframeD(4,5) [OF f, of x] x by simp_all
    have z: "in_use (C x)" "size_class (C x) \<noteq> 255" using x y(2) by simp_all
    show ?thesis
    proof (rule chunks_ok_cong [OF i(2) [OF y(1) z]])
      show "C' x = C x" by (rule y(2))
      show "M' p = M p" if "lo C x \<le> p" "p < hi C x" for p using hframeD(3) [OF f y(1) \<open>x \<noteq> sp\<close> z(1) that] .
    qed (simp add: e)
  qed
  moreover have "payload (C' x) = payload span_default" if x: "x \<in> A'" "in_use (C' x)" "size_class (C' x) = 255" for x
  proof (cases "x = sp")
    case True then show ?thesis using a x by simp
  next
    case False
    then have "x \<in> A" "C' x = C x" using hframeD(4,5) [OF f, of x] x by simp_all
    then show ?thesis using i(3) [of x] x by simp
  qed
  moreover have "set (L' (cl_head c)) = {a \<in> cached C' A' c. F a \<noteq> []}" if "c < 87" for c
    using i(4) [OF that] cc(1) [of c] hframeD(6) [OF f, of c] that by simp
  moreover have "span_count (caches s' c) = int (length (L' (cl_head c)))" if "c < 87" for c
    using i(5) [OF that] hframeD(6) [OF f, of c] e by simp
  moreover have "size_map_ok (sizes s')" using i(1) e by simp
  ultimately show ?thesis unfolding cache_inv_def by blast
qed

end
