(* ===== verification/Chunk_Cache_Correct.thy ===== *)
theory Chunk_Cache_Correct
  imports Chunk_Inv
begin

text \<open>
  \<^verbatim>\<open>allocate_chunk\<close> and \<^verbatim>\<open>deallocate_chunk\<close> keep the invariant of the cache and change the
  memory in use by one chunk.
\<close>

section \<open>Changing one span of the cache\<close>

lemma cstats_upd:
  assumes st: "cstats s C A" and fin: "finite A" and sp: "sp \<in> A" "in_use (C sp)" "in_use x"
    and u: "\<And>c. c < 87 \<Longrightarrow> cl_used_size (caches s' c) + (if size_class (C sp) = c then used_bytes (C sp) else 0) =
      cl_used_size (caches s c) + (if size_class x = c then used_bytes x else 0)"
    and t: "\<And>c. c < 87 \<Longrightarrow> cl_total_size (caches s' c) + (if size_class (C sp) = c then span_bytes (C sp) else 0) =
      cl_total_size (caches s c) + (if size_class x = c then span_bytes x else 0)"
    and U: "cc_used_size (cc_stat s') + (if size_class (C sp) < 87 then used_bytes (C sp) else 0) =
      cc_used_size (cc_stat s) + (if size_class x < 87 then used_bytes x else 0)"
    and T: "cc_total_size (cc_stat s') + (if size_class (C sp) < 87 then span_bytes (C sp) else 0) =
      cc_total_size (cc_stat s) + (if size_class x < 87 then span_bytes x else 0)"
  shows "cstats s' (C(sp := x)) A"
  unfolding cstats_def
proof (intro conjI allI impI)
  have st': "\<And>c. c < 87 \<Longrightarrow> cl_used_size (caches s c) = wsum used_bytes C A c"
      "\<And>c. c < 87 \<Longrightarrow> cl_total_size (caches s c) = wsum span_bytes C A c"
      "cc_used_size (cc_stat s) = (\<Sum>c < 87. wsum used_bytes C A c)" "cc_total_size (cc_stat s) = (\<Sum>c < 87. wsum span_bytes C A c)"
    using st unfolding cstats_def by blast+
  note w = wsum_upd [of A sp C x, OF fin sp] and W = wsum_total_upd [of A sp C x, OF fin sp]
  show "cl_used_size (caches s' c) = wsum used_bytes (C(sp := x)) A c" if "c < 87" for c
    using u [OF that] st'(1) [OF that] w [of used_bytes c] by linarith
  show "cl_total_size (caches s' c) = wsum span_bytes (C(sp := x)) A c" if "c < 87" for c
    using t [OF that] st'(2) [OF that] w [of span_bytes c] by linarith
  show "cc_used_size (cc_stat s') = (\<Sum>c < 87. wsum used_bytes (C(sp := x)) A c)" using U st'(3) W [of used_bytes] by linarith
  show "cc_total_size (cc_stat s') = (\<Sum>c < 87. wsum span_bytes (C(sp := x)) A c)" using T st'(4) W [of span_bytes] by linarith
qed

lemma cache_inv_upd:
  assumes ok: "page_heap_ok s C S L M A" and inv: "cache_inv s C L M A F" and sp: "sp \<in> A" "in_use (C sp)"
    and x: "in_use x" "start_page x = start_page (C sp)" "page_count x = page_count (C sp)"
    and fs: "size_class x \<noteq> 255 \<Longrightarrow> chunks_ok (user s') (C(sp := x)) M sp fs"
      "size_class x = 255 \<Longrightarrow> payload x = payload span_default"
    and u: "\<And>q. \<not> (lo C sp * 8192 \<le> q \<and> q < hi C sp * 8192) \<Longrightarrow> user s' q = user s q"
    and l: "\<And>b. b < 87 \<Longrightarrow> set (L' (cl_head b)) - {sp} = set (L (cl_head b)) - {sp}"
      "\<And>b. b < 87 \<Longrightarrow> sp \<in> set (L' (cl_head b)) \<longleftrightarrow> size_class x = b \<and> fs \<noteq> []"
    and n: "\<And>b. b < 87 \<Longrightarrow> span_count (caches s' b) = int (length (L' (cl_head b)))"
    and st: "cstats s' (C(sp := x)) A" and sz: "sizes s' = sizes s"
  shows "cache_inv s' (C(sp := x)) L' M A (F(sp := fs))"
proof -
  note i = cache_invD [OF inv]
  note d = heap_invD [OF page_heap_okD(1) [OF ok]]
  let ?C = "C(sp := x)" and ?F = "F(sp := fs)"
  have "chunks_ok (user s') ?C M a (?F a)" if a: "a \<in> A" "in_use (?C a)" "size_class (?C a) \<noteq> 255" for a
  proof (cases "a = sp")
    case True then show ?thesis using fs(1) a by simp
  next
    case False
    then have aa: "in_use (C a)" "size_class (C a) \<noteq> 255" "?C a = C a" using a by simp_all
    note co = i(2) [OF a(1) aa(1,2)]
    have "chunks_ok (user s') ?C M a (F a)"
    proof (rule chunks_ok_cong [OF co])
      fix p assume "p \<in> set (F a)"
      then have "p \<in> set (chunk_slots (C a))" using chunks_okD(6) [OF co] by blast
      then have p: "lo C a \<le> p div 8192" "p div 8192 < hi C a" using slot_page [OF chunks_okD(1,2) [OF co]] by blast+
      have "hi C a \<le> lo C sp \<or> hi C sp \<le> lo C a" using tilingD(3) [OF d(5) a(1) sp(1) False] .
      then have "p div 8192 < lo C sp \<or> hi C sp \<le> p div 8192" using p by linarith
      then have "\<not> (lo C sp * 8192 \<le> p \<and> p < hi C sp * 8192)"
        by (auto simp: div_less_iff_less_mult less_eq_div_iff_mult_less_eq)
      then show "user s' p = user s p" by (rule u)
    qed (use aa(3) in simp_all)
    then show ?thesis using False by simp
  qed
  moreover have "payload (?C a) = payload span_default" if a: "a \<in> A" "in_use (?C a)" "size_class (?C a) = 255" for a
    using fs(2) i(3) [of a] a by (cases "a = sp") simp_all
  moreover have "set (L' (cl_head c)) = {a \<in> cached ?C A c. ?F a \<noteq> []}" if c: "c < 87" for c
  proof (intro set_eqI)
    fix a
    show "a \<in> set (L' (cl_head c)) \<longleftrightarrow> a \<in> {a \<in> cached ?C A c. ?F a \<noteq> []}"
    proof (cases "a = sp")
      case True then show ?thesis using l(2) [OF c] sp(1) x(1) by (auto simp: cached_def)
    next
      case False
      then have "a \<in> set (L' (cl_head c)) \<longleftrightarrow> a \<in> set (L (cl_head c))" using l(1) [OF c] by blast
      then show ?thesis using False i(4) [OF c] by (simp add: cached_def)
    qed
  qed
  moreover have "size_map_ok (sizes s')" using i(1) sz by simp
  ultimately show ?thesis using n st unfolding cache_inv_def by blast
qed

section \<open>Frames\<close>

text \<open>What the operations of the cache leave alone.\<close>

definition cframe :: "shm \<Rightarrow> shm \<Rightarrow> bool" where
  "cframe s s' \<longleftrightarrow> os s' = os s \<and> default_mmap_size s' = default_mmap_size s \<and> sizes s' = sizes s \<and>
     serial_no s' = serial_no s \<and> singletons s' = singletons s \<and> used1 s \<le> used1 s' \<and>
     (block_addr (blocks s 1) \<noteq> 0 \<longrightarrow> block_addr (blocks s' 1) = block_addr (blocks s 1)) \<and>
     (used1 s < used1 s' \<longrightarrow> block_addr (blocks s' 1) \<noteq> 0)"

lemma cframe_refl [simp]: "cframe s s"
  by (simp add: cframe_def)

lemma cframe_trans: "cframe s s' \<Longrightarrow> cframe s' s'' \<Longrightarrow> cframe s s''"
  unfolding cframe_def by (metis le_trans le_neq_implies_less less_irrefl)

lemma cframe_aframe: "aframe s s' \<Longrightarrow> cframe s s'"
  by (simp add: cframe_def aframe_def)

lemma cframe_mframe: "mframe s s' \<Longrightarrow> cframe s s'"
  by (simp add: cframe_def mframe_def)

lemma cframe_upd [simp]:
  "cframe s (s'\<lparr>user := u\<rparr>) = cframe s s'" "cframe s (s'\<lparr>cc_stat := t\<rparr>) = cframe s s'"
  "cframe s (s'\<lparr>caches := k\<rparr>) = cframe s s'" "cframe s (upd_cache s' c f) = cframe s s'"
  "cframe s (s'\<lparr>mgr_stat := m\<rparr>) = cframe s s'"
  by (simp_all add: cframe_def upd_cache_def)

text \<open>No word of a region in use changes.\<close>

definition ukeep :: "(nat \<times> nat) set \<Rightarrow> shm \<Rightarrow> shm \<Rightarrow> bool" where
  "ukeep V s s' \<longleftrightarrow> (\<forall>p n q. (p, n) \<in> V \<longrightarrow> p \<le> q \<longrightarrow> q < p + n \<longrightarrow> user s' q = user s q)"

lemma user_block:
  assumes "page_heap_ok s C S L M A" and "A \<noteq> {}"
  shows "block_addr (blocks s 1) \<noteq> 0"
proof -
  note d = heap_invD [OF page_heap_okD(1) [OF assms(1)]]
  obtain a where a: "a \<in> A" using assms(2) by blast
  have "0 < pages s" using tilingD(1,2) [OF d(5) a] by linarith
  then have "0 < used1 s" by (auto simp: pages_def intro: gr0I)
  moreover have "block_ok (blocks s 1)" using viewD(1) [OF d(1)] by (simp add: mem_ok_def)
  ultimately show ?thesis by (auto simp: block_ok_def)
qed

lemma class_head:
  assumes ok: "page_heap_ok s C S L M A" and c: "c < 87"
  shows "class_list_addr s c = Some (cl_head c)" "span_list_empty s (cl_head c) = Some (L (cl_head c) = [])"
    "as_span s (cl_head c) = Some (spn s (cl_head c))"
    "L (cl_head c) = y # ys \<Longrightarrow> next_span (spn s (cl_head c)) = y" "distinct (L (cl_head c))"
proof -
  note v = heap_invD(1) [OF page_heap_okD(1) [OF ok]]
  have h: "cl_head c \<in> HEADS" using c by simp
  show "class_list_addr s c = Some (cl_head c)" using view_head [OF v] h by (simp add: class_list_addr_def cl_head_def)
  have hS: "cl_head c \<in> S" using viewD(8) [OF v] h by auto
  show as: "as_span s (cl_head c) = Some (spn s (cl_head c))" using view_fields(1) [OF v hS] .
  show "span_list_empty s (cl_head c) = Some (L (cl_head c) = [])"
    using as rings_empty [OF viewD(7) [OF v] h] by (simp add: span_list_empty_def addr_eq_meta cl_head_def)
  show "L (cl_head c) = y # ys \<Longrightarrow> next_span (spn s (cl_head c)) = y" using rings_first [OF viewD(7) [OF v] h] by blast
  show "distinct (L (cl_head c))" using rings_distinct [OF viewD(7) [OF v] h] .
qed

section \<open>Taking a chunk from a listed span\<close>

definition took ::
    "nat \<Rightarrow> nat \<Rightarrow> shm \<Rightarrow> (nat \<times> nat) set \<Rightarrow> shm \<Rightarrow> (nat \<times> nat) set \<Rightarrow> bool" where
  "took p n s V s' V' \<longleftrightarrow> V' = insert (p, n) V \<and> (p, n) \<notin> V \<and> cframe s s' \<and> ukeep V s s'"

lemma span_fetch_ok:
  assumes ok: "page_heap_ok s C S L M A" and inv: "cache_inv s C L M A F"
    and sp: "sp \<in> A" "in_use (C sp)" "size_class (C sp) \<noteq> 255" and F: "F sp = p # ps"
  shows "\<exists>s' x. span_fetch s sp = Some ((2, p), s') \<and> page_heap_ok s' (C(sp := x)) S L M A \<and>
    x = (C sp)\<lparr>chunk_list := chunk_list x, used_count := used_count (C sp) + 1\<rparr> \<and>
    chunks_ok (user s') (C(sp := x)) M sp ps \<and> mframe s s' \<and> used0 s' = used0 s"
proof -
  note d = heap_invD [OF page_heap_okD(1) [OF ok]]
  note co = cache_invD(2) [OF inv sp]
  have spS: "sp \<in> S" using d(2) sp by auto
  note f = view_fields [OF d(1) spS]
  note q = chunks_okD [OF co]
  have ch: "chunk_list (C sp) = (2, p)" "uchain (user s) (decode (user s p)) ps" using q(7) F by simp_all
  have "p \<in> set (chunk_slots (C sp))" using q(6) F by auto
  note b = slot_bounds [OF q(1,2) this]
  have "p < used1 s"
  proof -
    have "p < hi C sp * 8192" using b(2) class_sizes_entry(3) [OF q(1,2)] by linarith
    also have "\<dots> \<le> pages s * 8192" using tilingD(2) [OF d(5) sp(1)] by simp
    also have "\<dots> \<le> used1 s" by (simp add: pages_def)
    finally show ?thesis .
  qed
  then have uo: "user_ok s p" using user_block [OF ok] sp(1) by (auto simp: user_ok_def)
  let ?nx = "decode (user s p)"
  obtain s1 where s1: "upd_span s sp (\<lambda>x. x\<lparr>chunk_list := ?nx\<rparr>) = Some s1"
      "page_heap_ok s1 (C(sp := (C sp)\<lparr>chunk_list := ?nx\<rparr>)) S L M A" "mframe s s1" "used0 s1 = used0 s"
    using page_heap_upd [OF ok sp(1,2), of "\<lambda>x. x\<lparr>chunk_list := ?nx\<rparr>"] by auto
  let ?x = "(C sp)\<lparr>chunk_list := ?nx, used_count := used_count (C sp) + 1\<rparr>"
  obtain s2 where s2: "upd_span s1 sp (\<lambda>x. x\<lparr>used_count := used_count x + 1\<rparr>) = Some s2"
      "page_heap_ok s2 (C(sp := ?x)) S L M A" "mframe s1 s2" "used0 s2 = used0 s1"
    using page_heap_upd [OF s1(2) sp(1), of "\<lambda>x. x\<lparr>used_count := used_count x + 1\<rparr>"] sp(2) by auto
  have mf: "mframe s s2" using s1(3) s2(3) by (rule mframe_trans)
  have "span_fetch s sp = Some ((2, p), s2)"
    using f ch(1) read_link_eq [OF uo] s1(1) s2(1) by (simp add: span_fetch_def)
  moreover have "user s2 = user s" using mf by (simp add: mframe_def)
  then have "chunks_ok (user s2) (C(sp := ?x)) M sp ps"
    using q ch(2) F unfolding chunks_ok_def by (auto simp: registered_def chunk_slots_def slot_def slot_count_def)
  ultimately show ?thesis using s2(2,4) s1(4) mf by (intro exI [of _ s2] exI [of _ ?x]) simp
qed

lemma live_take:
  assumes ok: "page_heap_ok s C S L M A" and inv: "cache_inv s C L M A F"
    and sp: "sp \<in> A" "in_use (C sp)" "size_class (C sp) \<noteq> 255" and F: "F sp = p # ps"
    and x: "in_use x" "size_class x = size_class (C sp)" "chunk_slots x = chunk_slots (C sp)"
  shows "live (C(sp := x)) A (F(sp := ps)) = insert (p, class_sizes ! size_class (C sp)) (live C A F)"
    "(p, class_sizes ! size_class (C sp)) \<notin> live C A F"
proof -
  note co = chunks_okD [OF cache_invD(2) [OF inv sp]]
  let ?z = "class_sizes ! size_class (C sp)"
  have others: "live (C(sp := x)) (A - {sp}) (F(sp := ps)) = live C (A - {sp}) F" by (rule live_cong) simp
  have p: "p \<in> set (chunk_slots (C sp))" "p \<notin> set ps" using co(5,6) F by auto
  have "live_of x ps = insert (p, ?z) (live_of (C sp) (F sp))"
    using sp(3) x F p by (auto simp: live_of_def)
  then show "live (C(sp := x)) A (F(sp := ps)) = insert (p, ?z) (live C A F)"
    using live_split [of sp A "C(sp := x)" "F(sp := ps)"] live_split [of sp A C F] sp x(1) others by simp
  show "(p, ?z) \<notin> live C A F"
  proof
    assume l: "(p, ?z) \<in> live C A F"
    then obtain a where a: "a \<in> A" "in_use (C a)" "(p, ?z) \<in> live_of (C a) (F a)" "lo C a * 8192 \<le> p" "p + ?z \<le> hi C a * 8192" "0 < ?z"
      using live_in_span [OF ok inv] by blast
    show False
    proof (cases "a = sp")
      case True then show ?thesis using a(3) F sp(3) by (simp add: live_of_def image_iff)
    next
      case False
      have "hi C a \<le> lo C sp \<or> hi C sp \<le> lo C a"
        using tilingD(3) [OF heap_invD(5) [OF page_heap_okD(1) [OF ok]] a(1) sp(1) False] .
      then have "hi C a * 8192 \<le> lo C sp * 8192 \<or> hi C sp * 8192 \<le> lo C a * 8192" by auto
      then show False using a(4-6) slot_bounds [OF co(1,2) p(1)] by linarith
    qed
  qed
qed

lemma int_length_remove1: "x \<in> set xs \<Longrightarrow> int (length (remove1 x xs)) = int (length xs) - 1"
  using length_pos_if_in_set [of x xs] by (simp add: length_remove1 of_nat_diff Suc_leI)

lemma take_chunk_ok:
  assumes ok: "page_heap_ok s C S L M A" and inv: "cache_inv s C L M A F" and c: "1 \<le> c" "c \<le> 85"
    and sp: "sp \<in> set (L (cl_head c))"
  shows "\<exists>p s' C' L' F'. take_chunk s (class_sizes ! c) c sp = Some ((2, p), s') \<and> page_heap_ok s' C' S L' M A \<and>
    cache_inv s' C' L' M A F' \<and> took p (class_sizes ! c) s (live C A F) s' (live C' A F') \<and>
    (\<forall>K. grants s 0 K \<longrightarrow> grants s' 0 K)"
proof -
  note i = cache_invD [OF inv]
  note d = heap_invD [OF page_heap_okD(1) [OF ok]]
  let ?z = "class_sizes ! c"
  have c87: "c < 87" using c by simp
  have spA: "sp \<in> A" "in_use (C sp)" "size_class (C sp) = c" "F sp \<noteq> []" using i(4) [OF c87] sp by (auto simp: cached_def)
  have n255: "size_class (C sp) \<noteq> 255" using spA(3) c by simp
  obtain p ps where F: "F sp = p # ps" using spA(4) by (cases "F sp") auto
  obtain s1 x where s1: "span_fetch s sp = Some ((2, p), s1)" "page_heap_ok s1 (C(sp := x)) S L M A"
      "x = (C sp)\<lparr>chunk_list := chunk_list x, used_count := used_count (C sp) + 1\<rparr>"
      "chunks_ok (user s1) (C(sp := x)) M sp ps" "mframe s s1" "used0 s1 = used0 s"
    using span_fetch_ok [OF ok inv spA(1,2) n255 F] by blast
  let ?C = "C(sp := x)" and ?F = "F(sp := ps)"
  have x: "in_use x" "start_page x = start_page (C sp)" "page_count x = page_count (C sp)" "size_class x = c"
      "used_count x = used_count (C sp) + 1"
    by (subst s1(3), simp add: spA)+
  have cs: "chunk_slots x = chunk_slots (C sp)" using x spA(3) by (simp add: chunk_slots_def slot_def slot_count_def)
  have spS: "sp \<in> S" using d(2) spA by auto
  note f1 = view_fields [OF heap_invD(1) [OF page_heap_okD(1) [OF s1(2)]] spS]
  have full: "addr_ok (chunk_list x) \<longleftrightarrow> ps \<noteq> []" using uchain_ok [OF chunks_okD(7) [OF s1(4)]] by simp
  let ?L = "if ps = [] then L(cl_head c := remove1 sp (L (cl_head c))) else L"
  let ?dec = "\<lambda>c. c\<lparr>span_count := span_count c - (if ps = [] then 1 else 0)\<rparr>"
  obtain t where t: "(if \<not> addr_ok (chunk_list x) then do {
         s \<leftarrow> span_list_remove s1 sp;
         Some (upd_cache s c (\<lambda>c. c\<lparr>span_count := span_count c - 1\<rparr>))
       } else Some s1) = Some (upd_cache t c ?dec)" "page_heap_ok t ?C S ?L M A" "mframe s t" "used0 t = used0 s"
  proof (cases "ps = []")
    case True
    obtain t where t: "span_list_remove s1 sp = Some t" "page_heap_ok t ?C S (L(cl_head c := remove1 sp (L (cl_head c)))) M A"
        "mframe s1 t" "used0 t = used0 s1"
      using page_heap_remove [OF s1(2) c87 sp] by blast
    then show ?thesis using that [of t] True full mframe_trans [OF s1(5) t(3)] s1(6) by simp
  next
    case False
    then show ?thesis using that [of s1] full s1 by (simp add: upd_cache_def)
  qed
  let ?inc = "\<lambda>c. c\<lparr>cl_alloc_count := cl_alloc_count c + 1, cl_used_size := cl_used_size c + ?z\<rparr>"
  let ?t = "upd_cache (upd_cache t c ?dec) c ?inc"
  let ?s = "?t\<lparr>cc_stat := (cc_stat ?t)\<lparr>cc_alloc_count := cc_alloc_count (cc_stat ?t) + 1,
        cc_used_size := cc_used_size (cc_stat ?t) + ?z\<rparr>\<rparr>"
  have run: "take_chunk s ?z c sp = Some ((2, p), ?s)"
    using s1(1) f1 t(1) by (simp add: take_chunk_def Let_def)
  have m: "caches t = caches s" "cc_stat t = cc_stat s" "user t = user s" "sizes t = sizes s"
    using t(3) by (simp_all add: mframe_def)
  have us: "user ?s = user s" using m by (simp add: upd_cache_def)
  have "page_heap_ok ?s ?C S ?L M A" by (rule page_heap_cong [OF t(2)]) (simp_all add: upd_cache_def)
  moreover have "cache_inv ?s ?C ?L M A ?F"
  proof (rule cache_inv_upd [OF ok inv spA(1,2) x(1-3)])
    show "chunks_ok (user ?s) ?C M sp ps" using s1(4,5) us by (simp add: mframe_def)
    show "user ?s q = user s q" for q using us by simp
    have dl: "distinct (L (cl_head c))" by (rule class_head(5) [OF ok c87])
    show "set (?L (cl_head b)) - {sp} = set (L (cl_head b)) - {sp}" if "b < 87" for b
      using dl by (cases "b = c") (auto simp: set_remove1_eq)
    show "sp \<in> set (?L (cl_head b)) \<longleftrightarrow> size_class x = b \<and> ps \<noteq> []" if b: "b < 87" for b
      using dl sp i(4) [OF b] spA(3) x(4) by (cases "b = c") (auto simp: set_remove1_eq cached_def)
    show "span_count (caches ?s b) = int (length (?L (cl_head b)))" if b: "b < 87" for b
      using i(5) [OF b] sp m(1) int_length_remove1 [OF sp] by (cases "b = c") (auto simp: upd_cache_def)
    show "cstats ?s ?C A"
      by (rule cstats_upd [OF i(6) d(4) spA(1,2) x(1)])
        (use spA(3) c m x in \<open>auto simp: upd_cache_def used_bytes_def span_bytes_def algebra_simps\<close>)
  qed (use x(4) c m in \<open>simp_all add: upd_cache_def\<close>)
  moreover have "took p ?z s (live C A F) ?s (live ?C A ?F)"
    using live_take [OF ok inv spA(1,2) n255 F x(1) _ cs] x(4) spA(3) cframe_mframe [OF t(3)] us
    by (simp add: took_def ukeep_def)
  moreover have "\<forall>K. grants s 0 K \<longrightarrow> grants ?s 0 K"
    using t(3,4) by (simp add: grants_def mframe_def upd_cache_def)
  ultimately show ?thesis using run by blast
qed

section \<open>Choosing a span\<close>

lemma class_tables:
  assumes "size_map_ok m" and "c < 87"
  shows "class2size m c = Some (class_sizes ! c)" "class2pages m c = Some (class_pages ! c)"
  using assms by (simp_all add: size_map_ok_def class2size_def class2pages_def SIZE_CLASS_COUNT_def)

lemma class_pages_le: "c \<le> 85 \<Longrightarrow> class_pages ! c \<le> 32"
proof -
  assume "c \<le> 85"
  have "list_all (\<lambda>n. n \<le> 32) class_pages" by (simp add: class_pages_def)
  then show ?thesis using \<open>c \<le> 85\<close> by (simp add: list_all_length class_pages_def)
qed

text \<open>A fresh span is registered, partitioned and put on the list of its class.\<close>

lemma new_class_span:
  assumes ok: "page_heap_ok s C S L M A" and inv: "cache_inv s C L M A F" and c: "1 \<le> c" "c \<le> 85"
    and sp: "sp \<in> A" "in_use (C sp)" "payload (C sp) = payload span_default" "page_count (C sp) = class_pages ! c"
    and e: "L (cl_head c) = []" and g: "grants s 0 (K + 8650752)"
    and t: "t = s\<lparr>cc_stat := (cc_stat s)\<lparr>cc_span_alloc_count := k, cc_total_size := cc_total_size (cc_stat s) + class_pages ! c * 8192\<rparr>\<rparr>"
  shows "\<exists>s1 s2 s3 s' C' M'. register_span t sp = Some s1 \<and> span_partition s1 sp (class_sizes ! c) c = Some s2 \<and>
    span_list_prepend s2 (cl_head c) sp = Some s3 \<and>
    s' = upd_cache s3 c (\<lambda>c. c\<lparr>span_count := span_count c + 1, cl_total_size := cl_total_size c + page_count (C sp) * 8192\<rparr>) \<and>
    page_heap_ok s' C' S (L(cl_head c := [sp])) M' A \<and>
    cache_inv s' C' (L(cl_head c := [sp])) M' A (F(sp := chunk_slots (C' sp))) \<and>
    live C' A (F(sp := chunk_slots (C' sp))) = live C (A - {sp}) F \<and>
    cframe s s' \<and> ukeep (live C (A - {sp}) F) s s' \<and> grants s' 0 K"
proof -
  note i = cache_invD [OF inv]
  have c87: "c < 87" using c by simp
  have okt: "page_heap_ok t C S L M A" by (rule page_heap_cong [OF ok]) (simp_all add: t)
  have "page_count (C sp) * 270336 \<le> 8650752" using class_pages_le [OF c(2)] sp(4) by simp
  then have "grants s 0 (K + page_count (C sp) * 270336)" using grants_mono [OF g] by simp
  then have gt: "grants t 0 (K + page_count (C sp) * 270336)" by (simp add: t grants_def)
  obtain s1 M1 where s1: "register_span t sp = Some s1" "page_heap_ok s1 C S L M1 A" "registered C M1 sp"
      "hframe sp C L M A C L M1 A" "mframe t s1" "grants s1 0 K"
    using register_span_ok [OF okt sp(1,2) gt] by blast
  have c255: "size_class (C sp) = 255" using sp(3) by (simp add: payload_def span_default_def)
  have inv1: "cache_inv (s1\<lparr>cc_stat := cc_stat s\<rparr>) C L M1 A F"
    by (rule cache_inv_hframe [OF inv s1(4)]) (use s1(5) c255 sp in \<open>simp_all add: mframe_def t\<close>)
  have ok1: "page_heap_ok (s1\<lparr>cc_stat := cc_stat s\<rparr>) C S L M1 A" by (rule page_heap_cong [OF s1(2)]) simp_all
  have ba: "block_addr (blocks s1 1) \<noteq> 0" using user_block [OF s1(2)] sp(1) by blast
  obtain s2 x where s2: "span_partition s1 sp (class_sizes ! c) c = Some s2" "page_heap_ok s2 (C(sp := x)) S L M1 A"
      "x = (C sp)\<lparr>size_class := c, chunk_list := chunk_list x\<rparr>" "uchain (user s2) (chunk_list x) (chunk_slots x)"
      "\<And>q. q \<notin> set (chunk_slots x) \<Longrightarrow> user s2 q = user s1 q" "mframe s1 (s2\<lparr>user := user s1\<rparr>)" "used0 s2 = used0 s1"
    using span_partition_ok [OF s1(2) sp(1-3) c sp(4) ba] by blast
  let ?C = "C(sp := x)" and ?L = "L(cl_head c := [sp])" and ?F = "F(sp := chunk_slots x)"
  have x: "in_use x" "start_page x = start_page (C sp)" "page_count x = page_count (C sp)" "size_class x = c" "used_count x = 0"
    using sp(3) by (subst s2(3), simp add: sp payload_def span_default_def)+
  have nl: "sp \<notin> set (L (cl_head b))" if "b < 87" for b using i(4) [OF that] c255 that by (auto simp: cached_def)
  obtain s3 where s3: "span_list_prepend s2 (cl_head c) sp = Some s3" "page_heap_ok s3 ?C S ?L M1 A" "mframe s2 s3" "used0 s3 = used0 s2"
    using page_heap_prepend [OF s2(2) sp(1) _ c87 nl] x(1) e by auto
  let ?s = "upd_cache s3 c (\<lambda>c. c\<lparr>span_count := span_count c + 1, cl_total_size := cl_total_size c + page_count (C sp) * 8192\<rparr>)"
  have m: "caches s3 = caches s" "cc_stat s3 = cc_stat t" "user s3 = user s2" "sizes s3 = sizes s" "user s1 = user s"
    using s1(5) s2(6) s3(3) by (simp_all add: mframe_def t)
  have us: "user ?s q = user s q" if "q \<notin> set (chunk_slots x)" for q using s2(5) [OF that] m by (simp add: upd_cache_def)
  have sb: "lo C sp * 8192 \<le> q \<and> q < hi C sp * 8192" if "q \<in> set (chunk_slots x)" for q
    using slot_bounds [of x q] class_sizes_entry(3) [OF c] that x c by force
  have co: "chunks_ok (user ?s) ?C M1 sp (chunk_slots x)"
    using s2(4) s1(3) x c sp(4) slots_distinct [of x] m
    by (auto simp: chunks_ok_def registered_def upd_cache_def chunk_slots_def)
  have ne: "chunk_slots x \<noteq> []"
    using x c sp(4) class_span_entry(2) [OF c] class_sizes_entry(3) [OF c]
    by (simp add: chunk_slots_def slot_count_def div_greater_zero_iff page_size_def)
  have "page_heap_ok ?s ?C S ?L M1 A" by (rule page_heap_cong [OF s3(2)]) (simp_all add: upd_cache_def)
  moreover have "cache_inv ?s ?C ?L M1 A ?F"
  proof (rule cache_inv_upd [OF ok1 inv1 sp(1,2) x(1-3)])
    show "chunks_ok (user ?s) ?C M1 sp (chunk_slots x)" by (rule co)
    show "user ?s q = user (s1\<lparr>cc_stat := cc_stat s\<rparr>) q" if "\<not> (lo C sp * 8192 \<le> q \<and> q < hi C sp * 8192)" for q
      using us [of q] sb [of q] that m(5) by auto
    show "set (?L (cl_head b)) - {sp} = set (L (cl_head b)) - {sp}" if "b < 87" for b using e by auto
    show "sp \<in> set (?L (cl_head b)) \<longleftrightarrow> size_class x = b \<and> chunk_slots x \<noteq> []" if "b < 87" for b
      using nl [OF that] x(4) ne by auto
    show "span_count (caches ?s b) = int (length (?L (cl_head b)))" if b: "b < 87" for b
      using i(5) [OF b] m(1) e by (cases "b = c") (auto simp: upd_cache_def)
    show "cstats ?s ?C A"
      by (rule cstats_upd [OF cache_invD(6) [OF inv1] heap_invD(4) [OF page_heap_okD(1) [OF ok]] sp(1,2) x(1)])
        (use c255 c m x sp(4) s1(5) in \<open>auto simp: upd_cache_def used_bytes_def span_bytes_def mframe_def t\<close>)
  qed (use x(4) c m s1(5) in \<open>simp_all add: upd_cache_def mframe_def t\<close>)
  moreover have "live ?C A ?F = live C (A - {sp}) F"
  proof -
    have "live_of x (chunk_slots x) = {}" using x(4) c by (simp add: live_of_def)
    moreover have "live ?C (A - {sp}) ?F = live C (A - {sp}) F" by (rule live_cong) simp
    ultimately show ?thesis using live_split [of sp A ?C ?F] sp(1) x(1) by simp
  qed
  moreover have "cframe s ?s" using s1(5) s2(6) s3(3) by (simp add: cframe_def mframe_def t upd_cache_def)
  moreover have "grants ?s 0 K" using s1(6) s2(6,7) s3(3,4) by (simp add: grants_def mframe_def upd_cache_def)
  moreover have "ukeep (live C (A - {sp}) F) s ?s"
    unfolding ukeep_def
  proof (intro allI impI)
    fix p n q assume h: "(p, n) \<in> live C (A - {sp}) F" "p \<le> q" "q < p + n"
    then obtain a where a: "a \<in> A" "a \<noteq> sp" "in_use (C a)" "(p, n) \<in> live_of (C a) (F a)" by (auto simp: live_def)
    have lb: "size_class (C a) \<noteq> 255 \<longrightarrow> 1 \<le> size_class (C a) \<and> size_class (C a) \<le> 85"
      using i(2) [OF a(1,3)] chunks_okD(1,2) by blast
    note tl = heap_invD(5) [OF page_heap_okD(1) [OF ok]]
    have "0 < page_count (C a)" using tilingD(1) [OF tl a(1)] by simp
    note b = live_of_bounds [OF a(4) lb this]
    have "hi C a \<le> lo C sp \<or> hi C sp \<le> lo C a" using tilingD(3) [OF tl a(1) sp(1) a(2)] .
    then have "hi C a * 8192 \<le> lo C sp * 8192 \<or> hi C sp * 8192 \<le> lo C a * 8192" by auto
    then have "q \<notin> set (chunk_slots x)" using sb [of q] b h(2,3) by auto
    then show "user ?s q = user s q" by (rule us)
  qed
  ultimately show ?thesis
    using s1(1) s2(1) s3(1)
    by (rule_tac exI [of _ s1], rule_tac exI [of _ s2], rule_tac exI [of _ s3], rule_tac exI [of _ ?s],
        rule_tac exI [of _ ?C], rule_tac exI [of _ M1]) (simp only: fun_upd_same simp_thms)
qed

definition kept :: "shm \<Rightarrow> (nat \<times> nat) set \<Rightarrow> shm \<Rightarrow> (nat \<times> nat) set \<Rightarrow> bool" where
  "kept s V s' V' \<longleftrightarrow> V' = V \<and> cframe s s' \<and> ukeep V s s'"

lemma allocated_inv:
  assumes ok: "page_heap_ok s C S L M A" and inv: "cache_inv s C L M A F"
    and al: "allocated n sp s C L M A s' C' S' L' M' A'"
  shows "cache_inv s' C' L' M' A' F" "live C' (A' - {sp}) F = live C A F" "cframe s s'" "user s' = user s"
proof -
  have a: "page_heap_ok s' C' S' L' M' A'" "hframe sp C L M A C' L' M' A'" "aframe s s'"
    using al unfolding allocated_def by blast+
  show "cframe s s'" using cframe_aframe [OF a(3)] .
  show us: "user s' = user s" using a(3) by (simp add: aframe_def)
  have unused: "\<not> (sp \<in> A \<and> in_use (C sp))"
  proof (cases "addr_ok sp")
    case True then show ?thesis using al by (simp add: allocated_def fresh_span_def)
  next
    case False then show ?thesis using heap_inv_addr_ok [OF page_heap_okD(1) [OF ok]] by blast
  qed
  show "live C' (A' - {sp}) F = live C A F" using live_hframe [OF a(2)] live_not_used [of sp A C F] unused by simp
  show "cache_inv s' C' L' M' A' F"
  proof (rule cache_inv_hframe [OF inv a(2)])
    show "payload (C' sp) = payload span_default" if "sp \<in> A'" "in_use (C' sp)"
    proof -
      have "addr_ok sp" using heap_inv_addr_ok [OF page_heap_okD(1) [OF a(1)] that(1)] .
      then show ?thesis using al by (simp add: allocated_def fresh_span_def)
    qed
  qed (use unused a(3) in \<open>simp_all add: aframe_def\<close>)
qed

lemma fetch_class_span_ok:
  assumes ok: "page_heap_ok s C S L M A" and inv: "cache_inv s C L M A F" and c: "1 \<le> c" "c \<le> 85"
    and g: "grants s 0 (K + 10805248)"
  shows "\<exists>r s' C' S' L' M' A' F'. fetch_class_span s (class_sizes ! c) c (cl_head c) = Some (r, s') \<and>
    page_heap_ok s' C' S' L' M' A' \<and> cache_inv s' C' L' M' A' F' \<and> kept s (live C A F) s' (live C' A' F') \<and>
    grants s' 0 K \<and> (\<forall>sp. r = Some sp \<longrightarrow> sp \<in> set (L' (cl_head c)))"
proof -
  note i = cache_invD [OF inv]
  have c87: "c < 87" using c by simp
  note h = class_head [OF ok c87]
  show ?thesis
  proof (cases "L (cl_head c)")
    case (Cons y ys)
    then have "fetch_class_span s (class_sizes ! c) c (cl_head c) = Some (Some y, s)"
      using h i(5) [OF c87] by (simp add: fetch_class_span_def)
    moreover have "kept s (live C A F) s (live C A F)" by (simp add: kept_def ukeep_def)
    moreover have "grants s 0 K" using grants_mono [OF g] by simp
    ultimately show ?thesis using ok inv Cons by fastforce
  next
    case Nil
    let ?n = "class_pages ! c"
    have n: "0 < ?n" "?n \<le> 2 ^ 34" using class_span_entry(1) [OF c] class_pages_le [OF c(2)] by simp_all
    have g1: "grants s 0 ((K + 8650752) + 2154496)" using g by (simp add: add.assoc)
    obtain sp s1 C1 S1 L1 M1 A1 where s1: "allocate_span s ?n = Some (sp, s1)"
        "allocated ?n sp s C L M A s1 C1 S1 L1 M1 A1" "grants s1 0 (K + 8650752)"
      using allocate_span_ok [OF ok n g1] by blast
    have ok1: "page_heap_ok s1 C1 S1 L1 M1 A1" and hf: "hframe sp C L M A C1 L1 M1 A1"
      using s1(2) unfolding allocated_def by blast+
    note al = allocated_inv [OF ok inv s1(2)]
    have pg: "class2pages (sizes s) c = Some ?n" using class_tables(2) [OF i(1) c87] .
    show ?thesis
    proof (cases "addr_ok sp")
      case False
      then have "fetch_class_span s (class_sizes ! c) c (cl_head c) = Some (None, s1)"
        using h(2) Nil pg s1(1) by (simp add: fetch_class_span_def)
      moreover have "\<not> (sp \<in> A1 \<and> in_use (C1 sp))" using False heap_inv_addr_ok [OF page_heap_okD(1) [OF ok1]] by blast
      then have "live C1 A1 F = live C A F" using al(2) live_not_used [of sp A1 C1 F] by simp
      then have "kept s (live C A F) s1 (live C1 A1 F)" using al(3,4) by (simp add: kept_def ukeep_def)
      moreover have "grants s1 0 K" using grants_mono [OF s1(3)] by simp
      ultimately show ?thesis using ok1 al(1) by (intro exI conjI) auto
    next
      case True
      then have fr: "sp \<in> A1" "in_use (C1 sp)" "page_count (C1 sp) = ?n" "payload (C1 sp) = payload span_default"
        using s1(2) by (simp_all add: allocated_def fresh_span_def)
      have e1: "L1 (cl_head c) = []" using hframeD(6) [OF hf] Nil by simp
      let ?t = "s1\<lparr>cc_stat := (cc_stat s1)\<lparr>cc_span_alloc_count := cc_span_alloc_count (cc_stat s1) + 1,
          cc_total_size := cc_total_size (cc_stat s1) + ?n * 8192\<rparr>\<rparr>"
      obtain t1 t2 t3 s' C' M' where r: "register_span ?t sp = Some t1" "span_partition t1 sp (class_sizes ! c) c = Some t2"
          "span_list_prepend t2 (cl_head c) sp = Some t3"
          "s' = upd_cache t3 c (\<lambda>c. c\<lparr>span_count := span_count c + 1, cl_total_size := cl_total_size c + page_count (C1 sp) * 8192\<rparr>)"
          "page_heap_ok s' C' S1 (L1(cl_head c := [sp])) M' A1"
          "cache_inv s' C' (L1(cl_head c := [sp])) M' A1 (F(sp := chunk_slots (C' sp)))"
          "live C' A1 (F(sp := chunk_slots (C' sp))) = live C1 (A1 - {sp}) F" "cframe s1 s'"
          "ukeep (live C1 (A1 - {sp}) F) s1 s'" "grants s' 0 K"
        using new_class_span [OF ok1 al(1) c fr(1,2,4,3) e1 s1(3) refl] by blast
      have "fetch_class_span s (class_sizes ! c) c (cl_head c) = Some (Some sp, s')"
        using h(2) Nil pg s1(1) True r(1-4) fr(3) by (simp add: fetch_class_span_def page_size_def)
      moreover have "kept s (live C A F) s' (live C' A1 (F(sp := chunk_slots (C' sp))))"
        using r(7,8,9) al cframe_trans [OF al(3) r(8)] by (simp add: kept_def ukeep_def)
      moreover have "\<forall>x. Some sp = Some x \<longrightarrow> x \<in> set ((L1(cl_head c := [sp])) (cl_head c))" by simp
      ultimately show ?thesis using r(5,6,10) by blast
    qed
  qed
qed

lemma ukeep_trans: "ukeep V s s' \<Longrightarrow> ukeep V s' s'' \<Longrightarrow> ukeep V s s''"
  by (simp add: ukeep_def)

lemma allocate_chunk_ok:
  assumes ok: "page_heap_ok s C S L M A" and inv: "cache_inv s C L M A F" and c: "1 \<le> c" "c \<le> 85"
    and b: "bytes \<le> class_sizes ! c" and g: "grants s 0 (K + 10805248)"
  shows "\<exists>a s' C' S' L' M' A' F'. allocate_chunk s bytes c = Some (a, s') \<and>
    page_heap_ok s' C' S' L' M' A' \<and> cache_inv s' C' L' M' A' F' \<and> grants s' 0 K \<and>
    (if addr_ok a then \<exists>p. a = (2, p) \<and> took p (class_sizes ! c) s (live C A F) s' (live C' A' F')
     else a = nulladdr \<and> kept s (live C A F) s' (live C' A' F'))"
proof -
  note i = cache_invD [OF inv]
  have c87: "c < 87" using c by simp
  obtain r s1 C1 S1 L1 M1 A1 F1 where s1: "fetch_class_span s (class_sizes ! c) c (cl_head c) = Some (r, s1)"
      "page_heap_ok s1 C1 S1 L1 M1 A1" "cache_inv s1 C1 L1 M1 A1 F1" "kept s (live C A F) s1 (live C1 A1 F1)"
      "grants s1 0 K" "\<forall>sp. r = Some sp \<longrightarrow> sp \<in> set (L1 (cl_head c))"
    using fetch_class_span_ok [OF ok inv c g] by blast
  have pre: "allocate_chunk s bytes c = (case r of None \<Rightarrow> Some (nulladdr, s1) | Some sp \<Rightarrow> take_chunk s1 (class_sizes ! c) c sp)"
    using class_tables(1) [OF i(1) c87] class_head(1) [OF ok c87] s1(1) b c87
    by (simp add: allocate_chunk_def SIZE_CLASS_COUNT_def)
  show ?thesis
  proof (cases r)
    case None
    then have "allocate_chunk s bytes c = Some (nulladdr, s1)" using pre by simp
    moreover have "if addr_ok nulladdr then \<exists>p. nulladdr = (2, p) \<and> took p (class_sizes ! c) s (live C A F) s1 (live C1 A1 F1)
        else nulladdr = nulladdr \<and> kept s (live C A F) s1 (live C1 A1 F1)" using s1(4) by simp
    ultimately show ?thesis using s1(2,3,5) by blast
  next
    case (Some sp)
    then have "sp \<in> set (L1 (cl_head c))" using s1(6) by blast
    then obtain p s' C' L' F' where t: "take_chunk s1 (class_sizes ! c) c sp = Some ((2, p), s')" "page_heap_ok s' C' S1 L' M1 A1"
        "cache_inv s' C' L' M1 A1 F'" "took p (class_sizes ! c) s1 (live C1 A1 F1) s' (live C' A1 F')"
        "\<forall>K. grants s1 0 K \<longrightarrow> grants s' 0 K"
      using take_chunk_ok [OF s1(2,3) c] by blast
    have "allocate_chunk s bytes c = Some ((2, p), s')" using pre Some t(1) by simp
    moreover have "took p (class_sizes ! c) s (live C A F) s' (live C' A1 F')"
    proof -
      have k: "live C1 A1 F1 = live C A F" "cframe s s1" "ukeep (live C A F) s s1" using s1(4) unfolding kept_def by blast+
      then show ?thesis using t(4) cframe_trans [OF k(2)] ukeep_trans [OF k(3)] unfolding took_def by auto
    qed
    then have "if addr_ok (2, p) then \<exists>q. (2, p) = (2, q) \<and> took q (class_sizes ! c) s (live C A F) s' (live C' A1 F')
        else (2, p) = nulladdr \<and> kept s (live C A F) s' (live C' A1 F')" by simp
    ultimately show ?thesis using t(2,3,5) s1(5) by blast
  qed
qed

section \<open>Giving a chunk back\<close>

lemma span_recycle_ok:
  assumes ok: "page_heap_ok s C S L M A" and inv: "cache_inv s C L M A F"
    and sp: "sp \<in> A" "in_use (C sp)" "size_class (C sp) \<noteq> 255" and p: "p \<in> set (chunk_slots (C sp))" "p \<notin> set (F sp)"
  shows "\<exists>s' x. span_recycle s sp (2, p) = Some s' \<and> page_heap_ok s' (C(sp := x)) S L M A \<and>
    x = (C sp)\<lparr>chunk_list := (2, p), used_count := used_count (C sp) - 1\<rparr> \<and> 0 < used_count (C sp) \<and>
    chunks_ok (user s') (C(sp := x)) M sp (p # F sp) \<and> mframe s (s'\<lparr>user := user s\<rparr>) \<and> used0 s' = used0 s \<and>
    (\<forall>q. q \<noteq> p \<longrightarrow> user s' q = user s q) \<and> user s' p = encode (chunk_list (C sp))"
proof -
  note d = heap_invD [OF page_heap_okD(1) [OF ok]]
  note co = cache_invD(2) [OF inv sp]
  have spS: "sp \<in> S" using d(2) sp by auto
  note f = view_fields [OF d(1) spS]
  note q = chunks_okD [OF co]
  have le: "hi C sp * 8192 \<le> used1 s" "used1 s \<le> 2 ^ 47"
  proof -
    have "hi C sp * 8192 \<le> pages s * 8192" using tilingD(2) [OF d(5) sp(1)] by simp
    also have "\<dots> \<le> used1 s" by (simp add: pages_def)
    finally show "hi C sp * 8192 \<le> used1 s" .
    show "used1 s \<le> 2 ^ 47" using viewD(1) [OF d(1)] by (auto simp: mem_ok_def block_ok_def)
  qed
  have lt: "r < hi C sp * 8192" if "r \<in> set (chunk_slots (C sp))" for r
    using slot_bounds(2) [OF q(1,2) that] class_sizes_entry(3) [OF q(1,2)] by linarith
  have uo: "user_ok s p" using user_block [OF ok] sp(1) lt [OF p(1)] le(1) by (auto simp: user_ok_def)
  have wf: "addr_wf (chunk_list (C sp))"
  proof (cases "F sp")
    case Nil then show ?thesis using q(7) by simp
  next
    case (Cons r rs)
    then have "chunk_list (C sp) = (2, r)" "r < 2 ^ 48" using q(6,7) lt [of r] le by auto
    then show ?thesis by (simp add: addr_wf_def)
  qed
  let ?s = "s\<lparr>user := (user s)(p := encode (chunk_list (C sp)))\<rparr>"
  have ok0: "page_heap_ok ?s C S L M A" by (rule page_heap_cong [OF ok]) simp_all
  obtain s1 where s1: "upd_span ?s sp (\<lambda>x. x\<lparr>chunk_list := (2, p)\<rparr>) = Some s1"
      "page_heap_ok s1 (C(sp := (C sp)\<lparr>chunk_list := (2, p)\<rparr>)) S L M A" "mframe ?s s1" "used0 s1 = used0 ?s"
    using page_heap_upd [OF ok0 sp(1,2), of "\<lambda>x. x\<lparr>chunk_list := (2, p)\<rparr>"] by auto
  let ?x = "(C sp)\<lparr>chunk_list := (2, p), used_count := used_count (C sp) - 1\<rparr>"
  obtain s2 where s2: "upd_span s1 sp (\<lambda>x. x\<lparr>used_count := used_count x - 1\<rparr>) = Some s2"
      "page_heap_ok s2 (C(sp := ?x)) S L M A" "mframe s1 s2" "used0 s2 = used0 s1"
    using page_heap_upd [OF s1(2) sp(1), of "\<lambda>x. x\<lparr>used_count := used_count x - 1\<rparr>"] sp(2) by auto
  have mf: "mframe ?s s2" using s1(3) s2(3) by (rule mframe_trans)
  have run: "span_recycle s sp (2, p) = Some s2"
    using f write_link_eq [OF uo] s1(1) s2(1) by (simp add: span_recycle_def)
  have us: "user s2 = (user s)(p := encode (chunk_list (C sp)))" using mf by (simp add: mframe_def)
  have "set (p # F sp) \<subseteq> set (chunk_slots (C sp))" using p(1) q(6) by simp
  moreover have "distinct (p # F sp)" using p(2) q(5) by simp
  ultimately have "length (p # F sp) \<le> slot_count (C sp)"
    using card_mono [of "set (chunk_slots (C sp))" "set (p # F sp)"] distinct_card [of "p # F sp"]
      slots_distinct [OF q(1,2)] distinct_card [of "chunk_slots (C sp)"] by (simp add: chunk_slots_def)
  then have pos: "0 < used_count (C sp)" using q(8) by simp
  have "uchain (user s2) (chunk_list (C sp)) (F sp)"
    by (subst uchain_cong [where u = "user s"]) (use us p(2) q(7) in auto)
  then have "chunks_ok (user s2) (C(sp := ?x)) M sp (p # F sp)"
    using q p us wf pos unfolding chunks_ok_def by (auto simp: registered_def chunk_slots_def slot_def slot_count_def)
  moreover have "mframe s (s2\<lparr>user := user s\<rparr>)" "used0 s2 = used0 s" using mf s1(4) s2(4) by (simp_all add: mframe_def)
  ultimately show ?thesis using run s2(2) pos us by (intro exI [of _ s2] exI [of _ ?x]) simp
qed

lemma live_of_give:
  assumes "size_class x \<noteq> 255" "size_class y = size_class x" "chunk_slots y = chunk_slots x" "p \<notin> set fs"
  shows "live_of y (p # fs) = live_of x fs - {(p, class_sizes ! size_class x)}"
  using assms by (auto simp: live_of_def)

lemma live_of_single:
  assumes co: "chunks_ok u C M a fs" and u: "used_count (C a) = 1" and p: "p \<in> set (chunk_slots (C a))" "p \<notin> set fs"
  shows "live_of (C a) fs = {(p, class_sizes ! size_class (C a))}"
proof -
  note q = chunks_okD [OF co]
  have "card (set (chunk_slots (C a)) - set fs) = slot_count (C a) - length fs"
    using card_Diff_subset [OF _ q(6)] distinct_card [OF q(5)] distinct_card [OF slots_distinct [OF q(1,2)]]
    by (simp add: chunk_slots_def)
  also have "\<dots> = 1" using q(8) u by simp
  finally obtain r where "set (chunk_slots (C a)) - set fs = {r}" by (auto simp: card_1_singleton_iff)
  then have "set (chunk_slots (C a)) - set fs = {p}" using p by auto
  then show ?thesis using q(2) by (simp add: live_of_def)
qed

lemma live_elsewhere:
  assumes ok: "page_heap_ok s C S L M A" and inv: "cache_inv s C L M A F"
    and sp: "sp \<in> A" "in_use (C sp)" and p: "(p, n) \<in> live_of (C sp) (F sp)"
  shows "(p, n) \<notin> live C (A - {sp}) F"
proof
  assume "(p, n) \<in> live C (A - {sp}) F"
  then obtain a where a: "a \<in> A" "a \<noteq> sp" "in_use (C a)" "(p, n) \<in> live_of (C a) (F a)" by (auto simp: live_def)
  have b: "0 < n \<and> lo C x * 8192 \<le> p \<and> p + n \<le> hi C x * 8192" if "x \<in> A" "in_use (C x)" "(p, n) \<in> live_of (C x) (F x)" for x
  proof -
    have "size_class (C x) \<noteq> 255 \<longrightarrow> 1 \<le> size_class (C x) \<and> size_class (C x) \<le> 85"
      using cache_invD(2) [OF inv that(1,2)] chunks_okD(1,2) by blast
    moreover have "0 < page_count (C x)" using tilingD(1) [OF heap_invD(5) [OF page_heap_okD(1) [OF ok]] that(1)] by simp
    ultimately show ?thesis using live_of_bounds [OF that(3)] by blast
  qed
  have "hi C a \<le> lo C sp \<or> hi C sp \<le> lo C a"
    using tilingD(3) [OF heap_invD(5) [OF page_heap_okD(1) [OF ok]] a(1) sp(1) a(2)] .
  then have "hi C a * 8192 \<le> lo C sp * 8192 \<or> hi C sp * 8192 \<le> lo C a * 8192" by auto
  then show False using b [OF a(1,3,4)] b [OF sp p] by linarith
qed

text \<open>
  \<open>gave p n\<close>: the region of \<open>n\<close> bytes at \<open>p\<close> is no longer in use, the others stay and keep their
  contents.
\<close>

definition gave ::
    "nat \<Rightarrow> nat \<Rightarrow> shm \<Rightarrow> (nat \<times> nat) set \<Rightarrow> shm \<Rightarrow> (nat \<times> nat) set \<Rightarrow> bool" where
  "gave p n s V s' V' \<longleftrightarrow> V' = V - {(p, n)} \<and> (p, n) \<in> V \<and> cframe s s' \<and> ukeep V' s s'"

lemma count_free_ok:
  assumes sz: "size_map_ok (sizes s)" and c: "c < 87"
    and b: "class_sizes ! c \<le> cl_used_size (caches s c)" "class_sizes ! c \<le> cc_used_size (cc_stat s)"
  shows "\<exists>k m. count_free s c = Some (s\<lparr>caches := (caches s)(c := (caches s c)\<lparr>cl_used_size := cl_used_size (caches s c) - class_sizes ! c, cl_free_count := k\<rparr>),
      cc_stat := (cc_stat s)\<lparr>cc_used_size := cc_used_size (cc_stat s) - class_sizes ! c, cc_free_count := m\<rparr>\<rparr>)"
  by (rule exI [of _ "cl_free_count (caches s c) + 1"], rule exI [of _ "cc_free_count (cc_stat s) + 1"])
    (use class_tables(1) [OF sz c] b in \<open>simp add: count_free_def upd_cache_def Let_def\<close>)

lemma used_bytes_le:
  assumes st: "cstats s C A" and fin: "finite A" and sp: "sp \<in> A" "in_use (C sp)" "size_class (C sp) = c" "c < 87"
  shows "used_bytes (C sp) \<le> cl_used_size (caches s c)" "used_bytes (C sp) \<le> cc_used_size (cc_stat s)"
    "span_bytes (C sp) \<le> cl_total_size (caches s c)" "span_bytes (C sp) \<le> cc_total_size (cc_stat s)"
proof -
  have f: "finite (cached C A c)" using fin by (simp add: cached_def)
  have m: "sp \<in> cached C A c" using sp by (simp add: cached_def)
  have w: "g (C sp) \<le> wsum g C A c" for g unfolding wsum_def by (rule member_le_sum [OF m _ f]) simp
  have W: "wsum g C A c \<le> (\<Sum>c < 87. wsum g C A c)" for g using sp(4) by (intro member_le_sum) simp_all
  show "used_bytes (C sp) \<le> cl_used_size (caches s c)" "used_bytes (C sp) \<le> cc_used_size (cc_stat s)"
    "span_bytes (C sp) \<le> cl_total_size (caches s c)" "span_bytes (C sp) \<le> cc_total_size (cc_stat s)"
    using st sp(4) w [of used_bytes] W [of used_bytes] w [of span_bytes] W [of span_bytes] unfolding cstats_def by auto
qed

text \<open>The two ways a span can be settled without leaving the cache.\<close>

lemma settle_keep:
  assumes ok: "page_heap_ok s C S L M A" and inv: "cache_inv s C L M A F" and c: "1 \<le> c" "c \<le> 85"
    and sp: "sp \<in> A" "in_use (C sp)" "size_class (C sp) = c"
    and ok1: "page_heap_ok s1 (C(sp := x)) S L M A" and x: "x = (C sp)\<lparr>chunk_list := (2, p), used_count := used_count (C sp) - 1\<rparr>"
    and pos: "0 < used_count (C sp)" and co: "chunks_ok (user s1) (C(sp := x)) M sp (p # F sp)"
    and mf: "mframe s (s1\<lparr>user := user s\<rparr>)" "used0 s1 = used0 s" and us: "\<And>q. q \<noteq> p \<Longrightarrow> user s1 q = user s q"
    and p: "p \<in> set (chunk_slots (C sp))"
  shows "\<exists>s2 s' L'. (if F sp = [] then list_span s1 c (cl_head c) sp else Some s1) = Some s2 \<and> count_free s2 c = Some s' \<and>
    page_heap_ok s' (C(sp := x)) S L' M A \<and> cache_inv s' (C(sp := x)) L' M A (F(sp := p # F sp)) \<and>
    cframe s s' \<and> user s' = user s1 \<and> (\<forall>K. grants s 0 K \<longrightarrow> grants s' 0 K)"
proof -
  note i = cache_invD [OF inv]
  note d = heap_invD [OF page_heap_okD(1) [OF ok]]
  have c87: "c < 87" using c by simp
  let ?C = "C(sp := x)" and ?F = "F(sp := p # F sp)" and ?z = "class_sizes ! c"
  have xx: "in_use x" "start_page x = start_page (C sp)" "page_count x = page_count (C sp)" "size_class x = c"
      "used_count x = used_count (C sp) - 1"
    using x sp by simp_all
  have lst: "sp \<in> set (L (cl_head b)) \<longleftrightarrow> b = c \<and> F sp \<noteq> []" if "b < 87" for b
    using i(4) [OF that] sp by (auto simp: cached_def)
  let ?L = "if F sp = [] then L(cl_head c := sp # L (cl_head c)) else L"
  let ?inc = "\<lambda>c. c\<lparr>span_count := span_count c + (if F sp = [] then 1 else 0)\<rparr>"
  obtain t where t: "(if F sp = [] then list_span s1 c (cl_head c) sp else Some s1) = Some (upd_cache t c ?inc)"
      "page_heap_ok t ?C S ?L M A" "mframe s1 t" "used0 t = used0 s1"
  proof (cases "F sp = []")
    case True
    then have nl: "\<And>b. b < 87 \<Longrightarrow> sp \<notin> set (L (cl_head b))" using lst by blast
    obtain t where t: "span_list_prepend s1 (cl_head c) sp = Some t" "page_heap_ok t ?C S (L(cl_head c := sp # L (cl_head c))) M A"
        "mframe s1 t" "used0 t = used0 s1"
      using page_heap_prepend [OF ok1 sp(1) _ c87 nl] xx(1) by auto
    then show ?thesis using that [of t] True by (simp add: list_span_def)
  next
    case False then show ?thesis using that [of s1] ok1 by (simp add: upd_cache_def)
  qed
  let ?s2 = "upd_cache t c ?inc"
  have m: "caches t = caches s" "cc_stat t = cc_stat s" "sizes t = sizes s" "user t = user s1"
    using mf(1) t(3) by (simp_all add: mframe_def)
  note ub = used_bytes_le [OF i(6) d(4) sp c87]
  have zu: "?z \<le> used_bytes (C sp)" using pos sp(3) by (simp add: used_bytes_def)
  obtain k l where cf: "count_free ?s2 c = Some (?s2\<lparr>caches := (caches ?s2)(c := (caches ?s2 c)\<lparr>cl_used_size := cl_used_size (caches ?s2 c) - ?z, cl_free_count := k\<rparr>),
      cc_stat := (cc_stat ?s2)\<lparr>cc_used_size := cc_used_size (cc_stat ?s2) - ?z, cc_free_count := l\<rparr>\<rparr>)"
    using count_free_ok [of ?s2 c] i(1) c87 ub(1,2) zu m by (auto simp: upd_cache_def)
  define s' where "s' = ?s2\<lparr>caches := (caches ?s2)(c := (caches ?s2 c)\<lparr>cl_used_size := cl_used_size (caches ?s2 c) - ?z, cl_free_count := k\<rparr>),
      cc_stat := (cc_stat ?s2)\<lparr>cc_used_size := cc_used_size (cc_stat ?s2) - ?z, cc_free_count := l\<rparr>\<rparr>"
  have f: "user s' = user s1" "sizes s' = sizes s" "cc_used_size (cc_stat s') = cc_used_size (cc_stat s) - ?z"
      "cc_total_size (cc_stat s') = cc_total_size (cc_stat s)"
      "caches s' = (caches s)(c := (caches s c)\<lparr>span_count := span_count (caches s c) + (if F sp = [] then 1 else 0),
         cl_used_size := cl_used_size (caches s c) - ?z, cl_free_count := k\<rparr>)"
    using m by (simp_all add: s'_def upd_cache_def)
  have "page_heap_ok s' ?C S ?L M A" by (rule page_heap_cong [OF t(2)]) (simp_all add: s'_def upd_cache_def)
  moreover have "cache_inv s' ?C ?L M A ?F"
  proof (rule cache_inv_upd [OF ok inv sp(1,2) xx(1-3)])
    show "chunks_ok (user s') ?C M sp (p # F sp)" using co f(1) by simp
    have "1 \<le> size_class (C sp)" "size_class (C sp) \<le> 85" using sp c by simp_all
    note sb = slot_bounds [OF this p] and z = class_sizes_entry(3) [OF this]
    show "user s' q = user s q" if "\<not> (lo C sp * 8192 \<le> q \<and> q < hi C sp * 8192)" for q
      using that sb z us [of q] f(1) by (cases "q = p") auto
    show "set (?L (cl_head b)) - {sp} = set (L (cl_head b)) - {sp}" if "b < 87" for b by auto
    show "sp \<in> set (?L (cl_head b)) \<longleftrightarrow> size_class x = b \<and> p # F sp \<noteq> []" if "b < 87" for b
      using lst [OF that] xx(4) by (cases "b = c") auto
    show "span_count (caches s' b) = int (length (?L (cl_head b)))" if b: "b < 87" for b
      using i(5) [OF b] f(5) by (cases "b = c") auto
    have "used_bytes (C sp) = used_bytes x + ?z" using pos sp(3) xx(4,5) by (cases "used_count (C sp)") (simp_all add: used_bytes_def)
    then show "cstats s' ?C A"
      by (intro cstats_upd [OF i(6) d(4) sp(1,2) xx(1)])
        (use sp(3) c xx f ub zu in \<open>auto simp: span_bytes_def\<close>)
  qed (use xx(4) c f in simp_all)
  moreover have "cframe s s'" using mf(1) t(3) by (simp add: cframe_def mframe_def s'_def upd_cache_def)
  moreover have "\<forall>K. grants s 0 K \<longrightarrow> grants s' 0 K" using mf t(3,4) by (simp add: grants_def mframe_def s'_def upd_cache_def)
  ultimately show ?thesis using t(1) cf f(1) unfolding s'_def by blast
qed

text \<open>An empty span leaves the cache and is merged into the page heap.\<close>

lemma settle_release:
  assumes ok: "page_heap_ok s C S L M A" and inv: "cache_inv s C L M A F" and c: "1 \<le> c" "c \<le> 85"
    and sp: "sp \<in> A" "in_use (C sp)" "size_class (C sp) = c"
    and ok1: "page_heap_ok s1 (C(sp := x)) S L M A" and x: "x = (C sp)\<lparr>chunk_list := (2, p), used_count := used_count (C sp) - 1\<rparr>"
    and one: "used_count (C sp) = 1"
    and mf: "mframe s (s1\<lparr>user := user s\<rparr>)" "used0 s1 = used0 s" and us: "\<And>q. q \<noteq> p \<Longrightarrow> user s1 q = user s q"
    and p: "p \<in> set (chunk_slots (C sp))" and g: "grants s 0 (K + 540672)"
  shows "\<exists>s2 s' C' S' L' M' A'. (if F sp = [] then release_span s1 c sp
      else do {
        s \<leftarrow> span_list_remove s1 sp;
        let s = upd_cache s c (\<lambda>c. c\<lparr>span_count := span_count c - 1\<rparr>);
        release_span s c sp
      }) = Some s2 \<and> count_free s2 c = Some s' \<and>
    page_heap_ok s' C' S' L' M' A' \<and> cache_inv s' C' L' M' A' (F(sp := [])) \<and> live C' A' (F(sp := [])) = live C (A - {sp}) F \<and>
    cframe s s' \<and> user s' = user s1 \<and> grants s' 0 K"
proof -
  note i = cache_invD [OF inv]
  note d = heap_invD [OF page_heap_okD(1) [OF ok]]
  have c87: "c < 87" using c by simp
  let ?C = "C(sp := x)" and ?z = "class_sizes ! c" and ?b = "page_count (C sp) * 8192"
  have lst: "sp \<in> set (L (cl_head b)) \<longleftrightarrow> b = c \<and> F sp \<noteq> []" if "b < 87" for b
    using i(4) [OF that] sp by (auto simp: cached_def)
  have dl: "distinct (L (cl_head c))" by (rule class_head(5) [OF ok c87])
  let ?L = "if F sp = [] then L else L(cl_head c := remove1 sp (L (cl_head c)))"
  let ?dec = "\<lambda>c. c\<lparr>span_count := span_count c - (if F sp = [] then 0 else 1)\<rparr>"
  obtain t where t: "(if F sp = [] then release_span s1 c sp
      else do {
        s \<leftarrow> span_list_remove s1 sp;
        let s = upd_cache s c (\<lambda>c. c\<lparr>span_count := span_count c - 1\<rparr>);
        release_span s c sp
      }) = release_span (upd_cache t c ?dec) c sp"
      "page_heap_ok t ?C S ?L M A" "mframe s1 t" "used0 t = used0 s1"
  proof (cases "F sp = []")
    case True then show ?thesis using that [of s1] ok1 by (simp add: upd_cache_def)
  next
    case False
    then have "sp \<in> set (L (cl_head c))" using lst c87 by blast
    then obtain t where "span_list_remove s1 sp = Some t" "page_heap_ok t ?C S (L(cl_head c := remove1 sp (L (cl_head c)))) M A"
        "mframe s1 t" "used0 t = used0 s1"
      using page_heap_remove [OF ok1 c87] by blast
    then show ?thesis using that [of t] False by simp
  qed
  have m: "caches t = caches s" "cc_stat t = cc_stat s" "sizes t = sizes s" "user t = user s1"
    using mf(1) t(3) by (simp_all add: mframe_def)
  note ub = used_bytes_le [OF i(6) d(4) sp c87]
  have zu: "used_bytes (C sp) = ?z" "span_bytes (C sp) = ?b" using one sp(3) by (simp_all add: used_bytes_def span_bytes_def)
  let ?s2 = "upd_cache (upd_cache t c ?dec) c (\<lambda>c. c\<lparr>cl_total_size := cl_total_size c - ?b\<rparr>)"
  let ?s3 = "?s2\<lparr>cc_stat := (cc_stat ?s2)\<lparr>cc_total_size := cc_total_size (cc_stat ?s2) - ?b,
        cc_span_free_count := cc_span_free_count (cc_stat ?s2) + 1\<rparr>\<rparr>"
  have ok3: "page_heap_ok ?s3 ?C S ?L M A" by (rule page_heap_cong [OF t(2)]) (simp_all add: upd_cache_def)
  let ?y = "x\<lparr>used_count := 0, size_class := 255, chunk_list := nulladdr\<rparr>"
  let ?Y = "C(sp := ?y)"
  have xu: "in_use x" "start_page x = start_page (C sp)" "page_count x = page_count (C sp)" using x sp by simp_all
  obtain s4 where s4: "span_erase ?s3 sp = Some s4" "page_heap_ok s4 ?Y S ?L M A" "mframe ?s3 s4" "used0 s4 = used0 ?s3"
    using page_heap_upd [OF ok3 sp(1), of "\<lambda>x. x\<lparr>used_count := 0, size_class := 255, chunk_list := nulladdr\<rparr>"] xu(1)
    by (auto simp: span_erase_def)
  have ul: "sp \<notin> set (?L (cl_head b))" if "b < 87" for b
    using lst [OF that] dl by (cases "b = c") (auto simp: set_remove1_eq)
  have pd: "payload (?Y sp) = payload span_default" by (simp add: payload_def span_default_def)
  have g4: "grants s4 0 (K + 540672)"
    using g mf t(3,4) s4(3,4) by (simp add: grants_def mframe_def upd_cache_def)
  obtain s5 C5 S5 L5 M5 A5 where s5: "deallocate_span s4 sp = Some s5" "page_heap_ok s5 C5 S5 L5 M5 A5"
      "hframe sp ?Y ?L M A C5 L5 M5 A5" "\<not> in_use (C5 sp)" "pframe s4 s5" "grants s5 0 K"
  proof -
    have "in_use (?Y sp)" using xu(1) by simp
    from page_heap_dealloc [where C = ?Y and sp = sp, OF s4(2) sp(1) this pd ul g4] show ?thesis using that by blast
  qed
  have af: "aframe s4 s5" using aframe_pframe [OF s5(5)] .
  have spS: "sp \<in> S" using d(2) sp by auto
  have "view (upd_cache t c ?dec) ?C S ?L M"
    by (rule heap_invD(1) [OF page_heap_okD(1) [OF page_heap_cong [OF t(2)]]]) (simp_all add: upd_cache_def)
  note fx = view_fields [OF this spS]
  have rel: "release_span (upd_cache t c ?dec) c sp = Some s5"
    using fx xu s4(1) s5(1) ub(3,4) zu m by (simp add: release_span_def page_size_def upd_cache_def Let_def)
  have m5: "caches s5 = (caches s)(c := (caches s c)\<lparr>span_count := span_count (caches s c) - (if F sp = [] then 0 else 1),
        cl_total_size := cl_total_size (caches s c) - ?b\<rparr>)"
      "cc_used_size (cc_stat s5) = cc_used_size (cc_stat s)" "cc_total_size (cc_stat s5) = cc_total_size (cc_stat s) - ?b"
      "sizes s5 = sizes s" "user s5 = user s1" "user s4 = user s1" "sizes s4 = sizes s"
    using af s4(3) m by (simp_all add: aframe_def mframe_def upd_cache_def)
  obtain k l where cf: "count_free s5 c = Some (s5\<lparr>caches := (caches s5)(c := (caches s5 c)\<lparr>cl_used_size := cl_used_size (caches s5 c) - ?z, cl_free_count := k\<rparr>),
      cc_stat := (cc_stat s5)\<lparr>cc_used_size := cc_used_size (cc_stat s5) - ?z, cc_free_count := l\<rparr>\<rparr>)"
    using count_free_ok [of s5 c] i(1) c87 ub(1,2) zu m5 by auto
  define s' where "s' = s5\<lparr>caches := (caches s5)(c := (caches s5 c)\<lparr>cl_used_size := cl_used_size (caches s5 c) - ?z, cl_free_count := k\<rparr>),
      cc_stat := (cc_stat s5)\<lparr>cc_used_size := cc_used_size (cc_stat s5) - ?z, cc_free_count := l\<rparr>\<rparr>"
  define v where "v = s4\<lparr>caches := caches s', cc_stat := cc_stat s'\<rparr>"
  have ok': "page_heap_ok s' C5 S5 L5 M5 A5" by (rule page_heap_cong [OF s5(2)]) (simp_all add: s'_def)
  have inv4: "cache_inv v ?Y ?L M A (F(sp := []))"
  proof (rule cache_inv_upd [OF ok inv sp(1,2)])
    have "1 \<le> size_class (C sp)" "size_class (C sp) \<le> 85" using sp c by simp_all
    note sb = slot_bounds [OF this p] and z = class_sizes_entry(3) [OF this]
    show "user v q = user s q" if "\<not> (lo C sp * 8192 \<le> q \<and> q < hi C sp * 8192)" for q
      using that sb z us [of q] m5 by (cases "q = p") (auto simp: v_def)
    show "set (?L (cl_head b)) - {sp} = set (L (cl_head b)) - {sp}" if "b < 87" for b
      using dl by (cases "b = c") (auto simp: set_remove1_eq)
    show "sp \<in> set (?L (cl_head b)) \<longleftrightarrow> size_class ?y = b \<and> [] \<noteq> []" if "b < 87" for b using ul [OF that] by simp
    show "span_count (caches v b) = int (length (?L (cl_head b)))" if b: "b < 87" for b
      using i(5) [OF b] m5(1) lst [OF b] int_length_remove1 [of sp "L (cl_head c)"] by (cases "b = c") (auto simp: v_def s'_def)
    show "cstats v ?Y A"
      by (rule cstats_upd [OF i(6) d(4) sp(1,2)])
        (use sp(3) c xu m5 ub zu in \<open>auto simp: v_def s'_def\<close>)
  qed (use xu m5 pd in \<open>simp_all add: v_def\<close>)
  have "cache_inv s' C5 L5 M5 A5 (F(sp := []))"
    by (rule cache_inv_hframe [OF inv4 s5(3)]) (use s5(4) m5 in \<open>simp_all add: v_def s'_def\<close>)
  moreover have "live C5 A5 (F(sp := [])) = live C (A - {sp}) F"
  proof -
    have "live C5 A5 (F(sp := [])) = live C5 (A5 - {sp}) (F(sp := []))" using live_not_used [of sp A5 C5 "F(sp := [])"] s5(4) by simp
    also have "\<dots> = live ?Y (A - {sp}) (F(sp := []))" by (rule live_hframe [OF s5(3)])
    also have "\<dots> = live C (A - {sp}) F" by (rule live_cong) simp
    finally show ?thesis .
  qed
  moreover have "cframe s s'"
  proof -
    have "cframe s ?s3" using mf(1) t(3) by (simp add: cframe_def mframe_def upd_cache_def)
    then have "cframe s s5" using cframe_mframe [OF s4(3)] cframe_aframe [OF af] cframe_trans by blast
    then show ?thesis by (simp add: s'_def cframe_def)
  qed
  moreover have "grants s' 0 K" using s5(6) by (simp add: grants_def s'_def)
  moreover have "user s' = user s1" using m5 by (simp add: s'_def)
  moreover have "(if F sp = [] then release_span s1 c sp
      else do {
        s \<leftarrow> span_list_remove s1 sp;
        let s = upd_cache s c (\<lambda>c. c\<lparr>span_count := span_count c - 1\<rparr>);
        release_span s c sp
      }) = Some s5" using t(1) rel by (rule trans)
  moreover have "count_free s5 c = Some s'" using cf by (simp add: s'_def)
  ultimately show ?thesis using ok' by blast
qed

lemma deallocate_chunk_ok:
  assumes ok: "page_heap_ok s C S L M A" and inv: "cache_inv s C L M A F"
    and sp: "sp \<in> A" "in_use (C sp)" "size_class (C sp) = c" "c \<noteq> 255"
    and p: "p \<in> set (chunk_slots (C sp))" "p \<notin> set (F sp)" and g: "grants s 0 (K + 540672)"
  shows "\<exists>s' C' S' L' M' A' F'. deallocate_chunk s (2, p) sp = Some s' \<and>
    page_heap_ok s' C' S' L' M' A' \<and> cache_inv s' C' L' M' A' F' \<and> grants s' 0 K \<and>
    gave p (class_sizes ! c) s (live C A F) s' (live C' A' F') \<and> (\<forall>q. q \<noteq> p \<longrightarrow> user s' q = user s q) \<and>
    user s' p = encode (chunk_list (C sp))"
proof -
  note i = cache_invD [OF inv]
  note d = heap_invD [OF page_heap_okD(1) [OF ok]]
  have n: "size_class (C sp) \<noteq> 255" using sp by simp
  note co = i(2) [OF sp(1,2) n]
  have c: "1 \<le> c" "c \<le> 85" using chunks_okD(1,2) [OF co] sp(3) by simp_all
  have c87: "c < 87" using c by simp
  let ?z = "class_sizes ! c"
  obtain s1 x where s1: "span_recycle s sp (2, p) = Some s1" "page_heap_ok s1 (C(sp := x)) S L M A"
      "x = (C sp)\<lparr>chunk_list := (2, p), used_count := used_count (C sp) - 1\<rparr>" "0 < used_count (C sp)"
      "chunks_ok (user s1) (C(sp := x)) M sp (p # F sp)" "mframe s (s1\<lparr>user := user s\<rparr>)" "used0 s1 = used0 s"
      "\<And>q. q \<noteq> p \<Longrightarrow> user s1 q = user s q" "user s1 p = encode (chunk_list (C sp))"
    using span_recycle_ok [OF ok inv sp(1,2) n p] by blast
  have spS: "sp \<in> S" using d(2) sp by auto
  note f = view_fields [OF d(1) spS]
  note f1 = view_fields [OF heap_invD(1) [OF page_heap_okD(1) [OF s1(2)]] spS]
  have full: "addr_ok (chunk_list (C sp)) \<longleftrightarrow> F sp \<noteq> []" using uchain_ok [OF chunks_okD(7) [OF co]] .
  have emp: "used_count (C sp) - 1 = 0 \<longleftrightarrow> used_count (C sp) = 1" using s1(4) by auto
  have ux: "used_count x = used_count (C sp) - 1" using s1(3) by simp
  have pre: "deallocate_chunk s (2, p) sp = do {
      s \<leftarrow> settle_span s1 c (cl_head c) sp (F sp = []) (used_count (C sp) = 1);
      count_free s c
    }"
    using f f1 s1(1,4) sp(3) heap_inv_addr_ok [OF page_heap_okD(1) [OF ok] sp(1)] class_head(1) [OF ok c87] full emp ux c87
    by (simp add: deallocate_chunk_def SIZE_CLASS_COUNT_def)
  let ?keep = "if F sp = [] then list_span s1 c (cl_head c) sp else Some s1"
  let ?rel = "if F sp = [] then release_span s1 c sp
      else do {
        s \<leftarrow> span_list_remove s1 sp;
        let s = upd_cache s c (\<lambda>c. c\<lparr>span_count := span_count c - 1\<rparr>);
        release_span s c sp
      }"
  have pl: "(p, ?z) \<in> live_of (C sp) (F sp)" using p n sp(3) by (simp add: live_of_def)
  have rest: "(p, ?z) \<notin> live C (A - {sp}) F" using live_elsewhere [OF ok inv sp(1,2) pl] .
  have split: "live C A F = live_of (C sp) (F sp) \<union> live C (A - {sp}) F" using live_split [of sp A C F] sp by simp
  have z: "0 < ?z" using class_sizes_entry(3) [OF c] .
  have uk: "ukeep (live C A F - {(p, ?z)}) s s'" if "user s' = user s1" for s'
    unfolding ukeep_def
  proof (intro allI impI)
    fix r m q assume h: "(r, m) \<in> live C A F - {(p, ?z)}" "r \<le> q" "q < r + m"
    then have "r + m \<le> p \<or> p + ?z \<le> r" using live_apart [OF ok inv, of r m p ?z] split pl by blast
    then have "q \<noteq> p" using h z by linarith
    then show "user s' q = user s q" using s1(8) that by simp
  qed
  consider (keep) "settle_span s1 c (cl_head c) sp (F sp = []) (used_count (C sp) = 1) = ?keep"
    | (release) "settle_span s1 c (cl_head c) sp (F sp = []) (used_count (C sp) = 1) = ?rel" "used_count (C sp) = 1"
    unfolding settle_span_def by (cases "F sp = []"; cases "used_count (C sp) = 1"; cases "span_count (caches s1 c) > 1";
        cases "span_count (caches s1 c) > 0") auto
  then show ?thesis
  proof cases
    case keep
    obtain s2 s' L' where r: "?keep = Some s2" "count_free s2 c = Some s'" "page_heap_ok s' (C(sp := x)) S L' M A"
        "cache_inv s' (C(sp := x)) L' M A (F(sp := p # F sp))" "cframe s s'" "user s' = user s1" "\<forall>K. grants s 0 K \<longrightarrow> grants s' 0 K"
      using settle_keep [OF ok inv c sp(1-3) s1(2-8) p(1)] by blast
    have "deallocate_chunk s (2, p) sp = Some s'" using pre keep r(1,2) by simp
    moreover have "live (C(sp := x)) A (F(sp := p # F sp)) = live C A F - {(p, ?z)}"
    proof -
      have xs: "size_class x = size_class (C sp)" "chunk_slots x = chunk_slots (C sp)" "in_use x"
        using s1(3) sp(2) by (simp_all add: chunk_slots_def slot_def slot_count_def)
      have "live_of x (p # F sp) = live_of (C sp) (F sp) - {(p, ?z)}" using live_of_give [OF n xs(1,2) p(2)] sp(3) by simp
      moreover have "live (C(sp := x)) (A - {sp}) (F(sp := p # F sp)) = live C (A - {sp}) F" by (rule live_cong) simp
      ultimately show ?thesis
        using live_split [of sp A "C(sp := x)" "F(sp := p # F sp)"] sp(1) xs(3) split rest by auto
    qed
    then have "gave p ?z s (live C A F) s' (live (C(sp := x)) A (F(sp := p # F sp)))"
      using uk [OF r(6)] r(5) split pl by (simp add: gave_def)
    moreover have "grants s' 0 K" using r(7) grants_mono [OF g] by simp
    moreover have "\<forall>q. q \<noteq> p \<longrightarrow> user s' q = user s q" "user s' p = encode (chunk_list (C sp))" using s1(8,9) r(6) by auto
    ultimately show ?thesis using r(3,4) by blast
  next
    case release
    obtain s2 s' C' S' L' M' A' where r: "?rel = Some s2" "count_free s2 c = Some s'" "page_heap_ok s' C' S' L' M' A'"
        "cache_inv s' C' L' M' A' (F(sp := []))" "live C' A' (F(sp := [])) = live C (A - {sp}) F" "cframe s s'" "user s' = user s1" "grants s' 0 K"
      using settle_release [OF ok inv c sp(1-3) s1(2,3) release(2) s1(6-8) p(1) g] by blast
    have "deallocate_chunk s (2, p) sp = Some s'" using pre release(1) r(1,2) by simp
    moreover have "live C' A' (F(sp := [])) = live C A F - {(p, ?z)}"
      using r(5) split rest live_of_single [OF co release(2) p] sp(3) by auto
    then have "gave p ?z s (live C A F) s' (live C' A' (F(sp := [])))"
      using uk [OF r(7)] r(6) split pl by (simp add: gave_def)
    moreover have "\<forall>q. q \<noteq> p \<longrightarrow> user s' q = user s q" "user s' p = encode (chunk_list (C sp))" using s1(8,9) r(7) by auto
    ultimately show ?thesis using r(3,4,8) by blast
  qed
qed

end
