(* ===== verification/Shm_Mgr.thy ===== *)
theory Shm_Mgr
  imports Chunk_Cache
begin

text \<open>
  \<^verbatim>\<open>src/src/shm/detail/shm_mgr.h\<close> and \<^verbatim>\<open>shm_mgr.cpp\<close>: creation, resumption and destruction of the
  manager, \<^verbatim>\<open>malloc\<close>, \<^verbatim>\<open>free\<close> and the singletons. The pointers \<^verbatim>\<open>size_map_\<close>, \<^verbatim>\<open>page_heap_\<close> and
  \<^verbatim>\<open>chunk_cache_\<close> are fixed offsets of the metadata block, so they are not part of the state.
\<close>

section \<open>Life cycle\<close>

definition MAX_SINGLETON_COUNT :: int where "MAX_SINGLETON_COUNT = 256"

definition no_block :: shm_block where
  "no_block = \<lparr>block_addr = 0, used_size = 0, real_size = 0, mmap_size = 0\<rparr>"

text \<open>The object \<^verbatim>\<open>shm_mgr::shm_mgr\<close> leaves behind, in a process that has made no system call yet.\<close>

definition shm_mgr_new :: "os \<Rightarrow> shm" where
  "shm_mgr_new k = \<lparr>os = k, os_calls = 0, default_mmap_size = 0, blocks = (\<lambda>_. no_block),
     meta = (\<lambda>_. Raw), user = (\<lambda>_. 0),
     sizes = \<lparr>index2class_arr = [], class2size_arr = [], class2pages_arr = []\<rparr>,
     lv0 = (\<lambda>_. nulladdr), span_free_list = nulladdr,
     ma_stat = \<lparr>ma_total_size = 0, ma_waste_size = 0, ma_alloc_count = 0, ma_free_count = 0\<rparr>,
     ph_stat = \<lparr>ph_used_size = 0, ph_total_size = 0, ph_grow_count = 0, ph_alloc_count = 0, ph_free_count = 0\<rparr>,
     caches = (\<lambda>_. \<lparr>span_count = 0, cl_alloc_count = 0, cl_free_count = 0, cl_used_size = 0, cl_total_size = 0\<rparr>),
     cc_stat = \<lparr>cc_span_alloc_count = 0, cc_span_free_count = 0, cc_alloc_count = 0, cc_free_count = 0,
       cc_used_size = 0, cc_total_size = 0\<rparr>,
     serial_no = 0, singletons = (\<lambda>_. nulladdr),
     mgr_stat = \<lparr>alloc_count = 0, free_count = 0, metadata_alloc_count = 0, userdata_alloc_count = 0\<rparr>,
     basename = []\<rparr>"

definition add_used :: "shm \<Rightarrow> nat \<Rightarrow> shm" where
  "add_used s n = s\<lparr>blocks := (blocks s)(METADATA_BLOCK :=
     (blocks s METADATA_BLOCK)\<lparr>used_size := used_size (blocks s METADATA_BLOCK) + n\<rparr>)\<rparr>"

text \<open>\<open>totalram\<close> is what \<^verbatim>\<open>sysinfo\<close> reports, \<open>None\<close> when it fails.\<close>

definition on_create :: "shm \<Rightarrow> nat option \<Rightarrow> string \<Rightarrow> (int \<times> shm) option" where
  "on_create s totalram name = do {
     ram \<leftarrow> totalram;
     let s = s\<lparr>serial_no := 3, default_mmap_size := ram - ram mod page_size, basename := take 255 name\<rparr>;
     let real = sizeof_size_map + sizeof_page_heap + sizeof_chunk_cache + page_size;
     sk_assert (block_addr (blocks s METADATA_BLOCK) = 0);
     (ret, s) \<leftarrow> create_block s METADATA_BLOCK real (default_mmap_size s);
     if ret \<noteq> 0 then Some (ret, s)
     else do {
       let s = add_used s sizeof_size_map;
       (ret, m) \<leftarrow> size_map_init (sizes s);
       let s = s\<lparr>sizes := m\<rparr>;
       if ret \<noteq> 0 then do { (_, s) \<leftarrow> delete_block s METADATA_BLOCK; Some (ret, s) }
       else do {
         s \<leftarrow> page_heap_new (add_used s sizeof_page_heap);
         s \<leftarrow> chunk_cache_new (add_used s sizeof_chunk_cache);
         let s = add_used s (page_size - and (used_size (blocks s METADATA_BLOCK)) (page_size - 1));
         sk_assert (and (used_size (blocks s METADATA_BLOCK)) (page_size - 1) = 0);
         sk_assert (used_size (blocks s METADATA_BLOCK) \<le> real_size (blocks s METADATA_BLOCK));
         Some (0, s)
       }
     }
   }"

definition on_resume :: "shm \<Rightarrow> string \<Rightarrow> (int \<times> shm) option" where
  "on_resume s name = do {
     sk_assert (basename s = name);
     (ret, s) \<leftarrow> attach_block s METADATA_BLOCK;
     if ret \<noteq> 0 then Some (ret, s) else attach_block s USERDATA_BLOCK
   }"

section \<open>Allocation\<close>

definition read_meta :: "shm \<Rightarrow> addr \<Rightarrow> u64 option" where
  "read_meta s a = do {
     p \<leftarrow> addr2ptr s a;
     sk_assert (p \<noteq> 0);
     Some (user s (snd a))
   }"

definition write_meta :: "shm \<Rightarrow> addr \<Rightarrow> nat \<Rightarrow> nat \<Rightarrow> shm option" where
  "write_meta s a magic sn = do {
     p \<leftarrow> addr2ptr s a;
     sk_assert (p \<noteq> 0);
     Some (s\<lparr>user := (user s)(snd a := shm_meta_make magic sn)\<rparr>)
   }"

text \<open>The block of \<^verbatim>\<open>malloc\<close> that finds the memory: a chunk, or a whole span.\<close>

definition malloc_base :: "shm \<Rightarrow> nat \<Rightarrow> (addr \<times> shm) option" where
  "malloc_base s bytes =
     (case size2class (sizes s) bytes of
        Some sc \<Rightarrow> allocate_chunk s bytes sc
      | None \<Rightarrow> do {
          let n = ((bytes + (page_size - 1)) mod 2 ^ 64) div page_size;
          (sp, s) \<leftarrow> allocate_span s n;
          if addr_ok sp then do {
            x \<leftarrow> as_span s sp;
            a \<leftarrow> make_addr 2 (start_page x * page_size);
            Some (a, s)
          }
          else Some (nulladdr, s)
        })"

definition malloc :: "shm \<Rightarrow> nat \<Rightarrow> (addr \<times> shm) option" where
  "malloc s bytes = do {
     let s = s\<lparr>mgr_stat := (mgr_stat s)\<lparr>alloc_count := alloc_count (mgr_stat s) + 1\<rparr>\<rparr>;
     let bytes = (bytes + shm_meta_size) mod 2 ^ 64;
     (a, s) \<leftarrow> malloc_base s bytes;
     if \<not> addr_ok a then Some (nulladdr, s)
     else do {
       let sn = serial_no s;
       s \<leftarrow> write_meta s a SK_MAGIC sn;
       let s = s\<lparr>serial_no := sn + 1\<rparr>;
       let s = (if and (serial_no s) (2 ^ 16 - 1) = 0 then s\<lparr>serial_no := 3\<rparr> else s);
       w \<leftarrow> read_meta s a;
       r \<leftarrow> make_addr (meta_serial w) (snd a + shm_meta_size);
       Some (r, s)
     }
   }"

definition mgr_free :: "shm \<Rightarrow> addr \<Rightarrow> shm option" where
  "mgr_free s a = do {
     sk_assert (addr_ok a);
     let s = s\<lparr>mgr_stat := (mgr_stat s)\<lparr>free_count := free_count (mgr_stat s) + 1\<rparr>\<rparr>;
     sk_assert (fst a \<ge> 3);
     sk_assert (snd a \<ge> shm_meta_size);
     base \<leftarrow> make_addr 2 (snd a - shm_meta_size);
     w \<leftarrow> read_meta s base;
     if meta_magic w \<noteq> SK_MAGIC \<or> meta_serial w \<noteq> fst a then Some s
     else do {
       s \<leftarrow> write_meta s base 0 0;
       sp \<leftarrow> find_span s base;
       sk_assert (addr_ok sp);
       x \<leftarrow> as_span s sp;
       if size_class x = 255 then do {
         sk_assert (\<not> addr_ok (chunk_list x));
         sk_assert (used_count x = 0);
         deallocate_span s sp
       }
       else deallocate_chunk s base sp
     }
   }"

section \<open>Singletons and destruction\<close>

definition has_singleton :: "shm \<Rightarrow> int \<Rightarrow> bool option" where
  "has_singleton s i = do {
     sk_assert (0 \<le> i \<and> i < MAX_SINGLETON_COUNT);
     Some (addr_ok (singletons s (nat i)))
   }"

definition get_singleton :: "shm \<Rightarrow> int \<Rightarrow> nat \<Rightarrow> ((addr \<times> bool) \<times> shm) option" where
  "get_singleton s i bytes = do {
     sk_assert (0 \<le> i \<and> i < MAX_SINGLETON_COUNT);
     if \<not> addr_ok (singletons s (nat i)) then do {
       (p, s) \<leftarrow> malloc s bytes;
       if \<not> addr_ok p then Some ((nulladdr, False), s)
       else do {
         let s = s\<lparr>singletons := (singletons s)(nat i := p)\<rparr>;
         Some ((singletons s (nat i), True), s)
       }
     }
     else Some ((singletons s (nat i), False), s)
   }"

definition free_singleton :: "shm \<Rightarrow> int \<Rightarrow> shm option" where
  "free_singleton s i = do {
     sk_assert (0 \<le> i \<and> i < MAX_SINGLETON_COUNT);
     if addr_ok (singletons s (nat i)) then do {
       s \<leftarrow> mgr_free s (singletons s (nat i));
       Some (s\<lparr>singletons := (singletons s)(nat i := nulladdr)\<rparr>)
     }
     else Some s
   }"

fun free_singletons :: "shm \<Rightarrow> nat list \<Rightarrow> shm option" where
  "free_singletons s [] = Some s"
| "free_singletons s (i # is) = do {
     has \<leftarrow> has_singleton s (int i);
     s \<leftarrow> (if has then free_singleton s (int i) else Some s);
     free_singletons s is
   }"

definition shm_mgr_delete :: "shm \<Rightarrow> shm option" where
  "shm_mgr_delete s = do {
     s \<leftarrow> free_singletons s [0..<256];
     (_, s) \<leftarrow> delete_block s METADATA_BLOCK;
     (_, s) \<leftarrow> delete_block s USERDATA_BLOCK;
     Some s
   }"

end
