(* ===== verification/Shm_Create.thy ===== *)
theory Shm_Create
  imports Page_Heap_Alloc Shm_Mgr
begin

text \<open>
  \<^verbatim>\<open>shm_mgr::on_create\<close> establishes the invariants of the allocator.
\<close>

section \<open>The sentinels\<close>

definition headcell :: "nat \<Rightarrow> cell" where
  "headcell p = SpanCell (span_default\<lparr>prev_span := (1, p), next_span := (1, p)\<rparr>)"

lemma span_addr_eq:
  assumes "block_addr (blocks s 0) \<noteq> 0" and "p < used0 s" and "p < 2 ^ 48"
  shows "span_addr s p = Some (1, p)"
  using assms by (auto simp: span_addr_def ptr2addr_def ptr_in_block_def make_addr_def block_defs)

lemma init_lists_ok:
  assumes "block_addr (blocks s 0) \<noteq> 0" and "distinct ps"
    and "\<forall>p \<in> set ps. p < used0 s \<and> p < 2 ^ 48 \<and> meta s p = SpanCell span_default"
  shows "init_lists s ps = Some (s\<lparr>meta := (\<lambda>p. if p \<in> set ps then headcell p else meta s p)\<rparr>)"
  using assms
proof (induction ps arbitrary: s)
  case Nil then show ?case by simp
next
  case (Cons p ps)
  have sp: "is_span s (1, p)" "spn s (1, p) = span_default" using Cons.prems by (auto simp: is_span_def spn_def block_defs)
  let ?s = "s\<lparr>meta := (meta s)(p := headcell p)\<rparr>"
  have i: "span_list_init s (1, p) = Some ?s"
    using sp by (simp add: span_list_init_def put_span_def headcell_def)
  have "init_lists ?s ps = Some (?s\<lparr>meta := (\<lambda>q. if q \<in> set ps then headcell q else meta ?s q)\<rparr>)"
    by (rule Cons.IH) (use Cons.prems in auto)
  moreover have "(\<lambda>q. if q \<in> set ps then headcell q else meta ?s q) = (\<lambda>q. if q \<in> set (p # ps) then headcell q else meta s q)"
    using Cons.prems(2) by auto
  ultimately show ?case using i span_addr_eq [of s p] Cons.prems by simp
qed

lemma new_cells: "foldl new_cell s ps = s\<lparr>meta := (\<lambda>p. if p \<in> set ps then SpanCell span_default else meta s p)\<rparr>"
proof (induction ps arbitrary: s)
  case (Cons p ps)
  show ?case unfolding foldl_Cons Cons.IH by (simp add: new_cell_def fun_eq_iff)
qed simp

abbreviation zero_cache :: class_cache where
  "zero_cache \<equiv> \<lparr>span_count = 0, cl_alloc_count = 0, cl_free_count = 0, cl_used_size = 0, cl_total_size = 0\<rparr>"

lemma class_caches_new_ok:
  assumes "block_addr (blocks s 0) \<noteq> 0" and "distinct scs"
    and "\<forall>c \<in> set scs. class_list_offset c < used0 s \<and> class_list_offset c < 2 ^ 48"
  shows "class_caches_new s scs =
    Some (s\<lparr>meta := (\<lambda>p. if p \<in> class_list_offset ` set scs then headcell p else meta s p),
            caches := (\<lambda>c. if c \<in> set scs then zero_cache else caches s c)\<rparr>)"
  using assms
proof (induction scs arbitrary: s)
  case Nil then show ?case by simp
next
  case (Cons c scs)
  let ?p = "class_list_offset c"
  let ?s = "s\<lparr>meta := (meta s)(?p := headcell ?p), caches := (caches s)(c := zero_cache)\<rparr>"
  have "init_lists (new_cell s ?p) [?p] =
      Some ((new_cell s ?p)\<lparr>meta := (\<lambda>p. if p \<in> set [?p] then headcell p else meta (new_cell s ?p) p)\<rparr>)"
    by (rule init_lists_ok) (use Cons.prems in \<open>auto simp: new_cell_def\<close>)
  moreover have "(\<lambda>p. if p \<in> set [?p] then headcell p else meta (new_cell s ?p) p) = (meta s)(?p := headcell ?p)"
    by (auto simp: new_cell_def)
  ultimately have "class_cache_new s c = Some ?s" by (simp add: class_cache_new_def upd_cache_def new_cell_def)
  moreover have "class_caches_new ?s scs =
    Some (?s\<lparr>meta := (\<lambda>p. if p \<in> class_list_offset ` set scs then headcell p else meta ?s p),
            caches := (\<lambda>c. if c \<in> set scs then zero_cache else caches ?s c)\<rparr>)"
    by (rule Cons.IH) (use Cons.prems in auto)
  moreover have "(\<lambda>p. if p \<in> class_list_offset ` set scs then headcell p else meta ?s p) =
      (\<lambda>p. if p \<in> class_list_offset ` set (c # scs) then headcell p else meta s p)" by auto
  moreover have "(\<lambda>d. if d \<in> set scs then zero_cache else caches ?s d) =
      (\<lambda>d. if d \<in> set (c # scs) then zero_cache else caches s d)" by auto
  ultimately show ?case by simp
qed

lemma page_heap_new_ok:
  assumes "block_addr (blocks s 0) \<noteq> 0" and "sizeof_size_map + sizeof_page_heap \<le> used0 s"
  shows "\<exists>s'. page_heap_new s = Some s' \<and>
    s' = s\<lparr>lv0 := (\<lambda>_. nulladdr), span_free_list := nulladdr,
      ma_stat := \<lparr>ma_total_size = 0, ma_waste_size = 0, ma_alloc_count = 0, ma_free_count = 0\<rparr>,
      ph_stat := \<lparr>ph_used_size = 0, ph_total_size = 0, ph_grow_count = 0, ph_alloc_count = 0, ph_free_count = 0\<rparr>,
      meta := (\<lambda>p. if p \<in> insert large_list_offset (free_list_offset ` {..<128}) then headcell p else meta s p)\<rparr>"
proof -
  let ?F = "map free_list_offset [0..<MAX_PAGES]"
  have F: "set ?F = free_list_offset ` {..<128}" "distinct ?F"
    by (auto simp: MAX_PAGES_def free_list_offset_def distinct_map inj_on_def atLeast0LessThan)
  have lg: "large_list_offset \<notin> set ?F" by (auto simp: layout_defs MAX_PAGES_def)
  have b: "\<forall>p \<in> set (?F @ [large_list_offset]). p < used0 s \<and> p < 2 ^ 48"
    using assms(2) by (auto simp: layout_defs MAX_PAGES_def)
  let ?s = "s\<lparr>lv0 := (\<lambda>_. nulladdr), span_free_list := nulladdr,
      ma_stat := \<lparr>ma_total_size = 0, ma_waste_size = 0, ma_alloc_count = 0, ma_free_count = 0\<rparr>,
      ph_stat := \<lparr>ph_used_size = 0, ph_total_size = 0, ph_grow_count = 0, ph_alloc_count = 0, ph_free_count = 0\<rparr>,
      meta := (\<lambda>p. if p \<in> set (?F @ [large_list_offset]) then SpanCell span_default else meta s p)\<rparr>"
  let ?t = "?s\<lparr>meta := (\<lambda>p. if p \<in> set ?F then headcell p else meta ?s p)\<rparr>"
  let ?u = "?t\<lparr>meta := (\<lambda>p. if p \<in> set [large_list_offset] then headcell p else meta ?t p)\<rparr>"
  have 1: "init_lists ?s ?F = Some ?t" by (rule init_lists_ok) (use assms F b in auto)
  have 2: "init_lists ?t [large_list_offset] = Some ?u" by (rule init_lists_ok) (use assms lg b in auto)
  let ?m = "s\<lparr>lv0 := (\<lambda>_. nulladdr), span_free_list := nulladdr,
      ma_stat := \<lparr>ma_total_size = 0, ma_waste_size = 0, ma_alloc_count = 0, ma_free_count = 0\<rparr>\<rparr>"
  have 0: "(foldl new_cell ?m (?F @ [large_list_offset]))\<lparr>ph_stat := \<lparr>ph_used_size = 0, ph_total_size = 0,
      ph_grow_count = 0, ph_alloc_count = 0, ph_free_count = 0\<rparr>\<rparr> = ?s"
    unfolding new_cells by (simp cong: if_cong)
  have "page_heap_new s = Some ?u"
    unfolding page_heap_new_def Let_def 0 1 bind.bind_lunit by (rule 2)
  moreover have "(\<lambda>p. if p \<in> set [large_list_offset] then headcell p else meta ?t p) =
      (\<lambda>p. if p \<in> insert large_list_offset (free_list_offset ` {..<128}) then headcell p else meta s p)"
    unfolding F(1) [symmetric] by auto
  ultimately show ?thesis by simp
qed

section \<open>The manager after its creation\<close>

text \<open>
  The state behind a successful \<^verbatim>\<open>on_create\<close>: a metadata block that holds nothing but the
  sentinels.
\<close>

definition created :: "shm \<Rightarrow> bool" where
  "created s \<longleftrightarrow> mem_ok s \<and> used0 s = 32768 \<and> used1 s = 0 \<and> block_addr (blocks s 1) = 0 \<and>
     lv0 s = (\<lambda>_. nulladdr) \<and> span_free_list s = nulladdr \<and>
     meta s = (\<lambda>p. if (1, p) \<in> HEADS then headcell p else Raw) \<and>
     size_map_ok (sizes s) \<and> ph_used_size (ph_stat s) = 0 \<and>
     (\<forall>c < 87. caches s c = zero_cache) \<and> cc_used_size (cc_stat s) = 0 \<and> cc_total_size (cc_stat s) = 0 \<and>
     serial_no s = 3 \<and> singletons s = (\<lambda>_. nulladdr) \<and> user s = (\<lambda>_. 0)"

lemma heads_iff:
  "(1, p) \<in> HEADS \<longleftrightarrow> p \<in> class_list_offset ` {0..<87} \<or> p \<in> insert large_list_offset (free_list_offset ` {..<128})"
  by (auto simp: HEADS_def fl_head_def lg_head_def cl_head_def)

lemma on_create_ok:
  assumes os: "os_ok k" and ram: "ram \<le> 2 ^ 47"
  shows "\<exists>r s. on_create (shm_mgr_new k) (Some ram) name = Some (r, s) \<and> os s = k \<and>
    default_mmap_size s = ram - ram mod 8192 \<and> (r = 0 \<longrightarrow> created s \<and> mmap_size (blocks s 0) = ram - ram mod 8192) \<and>
    (\<exists>t. create_block ((shm_mgr_new k)\<lparr>serial_no := 3, default_mmap_size := ram - ram mod 8192, basename := take 255 name\<rparr>)
       0 33928 (ram - ram mod 8192) = Some (r, t))"
proof -
  let ?d = "ram - ram mod 8192"
  let ?s0 = "(shm_mgr_new k)\<lparr>serial_no := 3, default_mmap_size := ?d, basename := take 255 name\<rparr>"
  have d: "8192 dvd ?d" "?d \<le> 2 ^ 47" using ram by (simp_all add: minus_mod_eq_mult_div)
  obtain r n bl where c: "create_block ?s0 0 33928 ?d = Some (r, ?s0\<lparr>os_calls := n, blocks := bl\<rparr>)"
      "r = 0 \<longrightarrow> (\<exists>b. bl = (blocks ?s0)(0 := b) \<and> block_ok b \<and> block_addr b \<noteq> 0 \<and> used_size b = 0 \<and>
       33928 \<le> real_size b \<and> mmap_size b = ?d)"
    using create_block_ok [of ?s0 ?d 33928 0] os d by (auto simp: shm_mgr_new_def)
  have real: "sizeof_size_map + sizeof_page_heap + sizeof_chunk_cache + 8192 = 33928"
    by (simp add: layout_defs)
  have fresh: "block_addr (blocks ?s0 0) = 0" by (simp add: shm_mgr_new_def no_block_def)
  have head: "on_create (shm_mgr_new k) (Some ram) name = do {
      (ret, s) \<leftarrow> create_block ?s0 0 33928 ?d;
      if ret \<noteq> 0 then Some (ret, s)
      else do {
        let s = add_used s sizeof_size_map;
        (ret, m) \<leftarrow> size_map_init (sizes s);
        let s = s\<lparr>sizes := m\<rparr>;
        if ret \<noteq> 0 then do { (_, s) \<leftarrow> delete_block s METADATA_BLOCK; Some (ret, s) }
        else do {
          s \<leftarrow> page_heap_new (add_used s sizeof_page_heap);
          s \<leftarrow> chunk_cache_new (add_used s sizeof_chunk_cache);
          let s = add_used s (page_size - and (used_size (blocks s METADATA_BLOCK)) (page_size - 1));
          sk_assert (and (used_size (blocks s METADATA_BLOCK)) (page_size - 1) = 0);
          sk_assert (used_size (blocks s METADATA_BLOCK) \<le> real_size (blocks s METADATA_BLOCK));
          Some (0, s)
        }
      }
    }"
    using fresh by (simp add: on_create_def real page_size_def block_defs)
  show ?thesis
  proof (cases "r = 0")
    case False
    then show ?thesis using head c(1) by (intro exI [of _ r] exI [of _ "?s0\<lparr>os_calls := n, blocks := bl\<rparr>"]) (simp add: shm_mgr_new_def)
  next
    case True
    then obtain b where b: "bl = (blocks ?s0)(0 := b)" "block_ok b" "block_addr b \<noteq> 0" "used_size b = 0"
        "33928 \<le> real_size b" "mmap_size b = ?d" using c(2) by blast
    let ?s1 = "?s0\<lparr>os_calls := n, blocks := (blocks ?s0)(0 := b)\<rparr>"
    obtain m where m: "size_map_init (sizes (add_used ?s1 sizeof_size_map)) = Some (0, m)" "size_map_ok m"
      using size_map_init_ok by blast
    let ?s2 = "add_used ((add_used ?s1 sizeof_size_map)\<lparr>sizes := m\<rparr>) sizeof_page_heap"
    have u2: "used0 ?s2 = 18032" "block_addr (blocks ?s2 0) \<noteq> 0"
      using b by (simp_all add: add_used_def block_defs layout_defs)
    obtain s3 where s3: "page_heap_new ?s2 = Some s3"
      "s3 = ?s2\<lparr>lv0 := (\<lambda>_. nulladdr), span_free_list := nulladdr,
      ma_stat := \<lparr>ma_total_size = 0, ma_waste_size = 0, ma_alloc_count = 0, ma_free_count = 0\<rparr>,
      ph_stat := \<lparr>ph_used_size = 0, ph_total_size = 0, ph_grow_count = 0, ph_alloc_count = 0, ph_free_count = 0\<rparr>,
      meta := (\<lambda>p. if p \<in> insert large_list_offset (free_list_offset ` {..<128}) then headcell p else meta ?s2 p)\<rparr>"
      using page_heap_new_ok [of ?s2] u2 by (auto simp: layout_defs)
    let ?s4 = "add_used s3 sizeof_chunk_cache"
    have u4: "used0 ?s4 = 25736" "block_addr (blocks ?s4 0) \<noteq> 0"
      using u2 unfolding s3(2) by (simp_all add: add_used_def block_defs layout_defs)
    have ad: "and (25736 :: nat) 8191 = 1160" using and_pow2_mod [of 25736 13] by simp
    have ad2: "and (32768 :: nat) 8191 = 0" using and_pow2_mod [of 32768 13] by simp
    let ?C = "\<lambda>p. if p \<in> class_list_offset ` set [0..<87] then headcell p else meta ?s4 p"
    have cc: "class_caches_new ?s4 [0..<87] =
        Some (?s4\<lparr>meta := ?C, caches := (\<lambda>c. if c \<in> set [0..<87] then zero_cache else caches ?s4 c)\<rparr>)"
      by (rule class_caches_new_ok) (use u4 in \<open>auto simp: layout_defs\<close>)
    define s5 where "s5 = ?s4\<lparr>meta := ?C, caches := (\<lambda>c. if c \<in> set [0..<87] then zero_cache else caches ?s4 c),
       cc_stat := \<lparr>cc_span_alloc_count = 0, cc_span_free_count = 0, cc_alloc_count = 0,
       cc_free_count = 0, cc_used_size = 0, cc_total_size = 0\<rparr>\<rparr>"
    have c5: "chunk_cache_new ?s4 = Some s5" using cc by (simp add: chunk_cache_new_def SIZE_CLASS_COUNT_def s5_def)
    define s6 where "s6 = add_used s5 7032"
    have b6: "blocks s6 = (blocks ?s0)(0 := b\<lparr>used_size := 32768\<rparr>)"
      unfolding s6_def s5_def s3(2) using b(4) by (simp add: add_used_def block_defs layout_defs)
    have u5: "used_size (blocks s5 METADATA_BLOCK) = 25736" using u4 by (simp add: s5_def block_defs)
    have u6: "used_size (blocks s6 METADATA_BLOCK) = 32768" "real_size (blocks s6 METADATA_BLOCK) = real_size b"
      using b6 by (simp_all add: block_defs)
    have cr: "on_create (shm_mgr_new k) (Some ram) name = Some (0, s6)"
      unfolding head c(1)[unfolded b(1)] bind.bind_lunit prod.case
      by (simp only: True not_True_eq_False if_False Let_def m(1) bind.bind_lunit prod.case simp_thms s3(1) c5 u5 page_size_def)
         (use b(5) in \<open>simp add: ad ad2 u6 u6 [unfolded block_defs] s6_def [symmetric] del: One_nat_def\<close>)
    moreover have f6: "os s6 = k" "default_mmap_size s6 = ?d" "user s6 = (\<lambda>_. 0)" "serial_no s6 = 3"
      "singletons s6 = (\<lambda>_. nulladdr)" "lv0 s6 = (\<lambda>_. nulladdr)" "span_free_list s6 = nulladdr" "sizes s6 = m"
      "ph_used_size (ph_stat s6) = 0" "\<forall>c < 87. caches s6 c = zero_cache" "cc_used_size (cc_stat s6) = 0"
      "cc_total_size (cc_stat s6) = 0"
      unfolding s6_def s5_def s3(2) by (simp_all add: add_used_def shm_mgr_new_def)
    moreover have me: "meta s6 = (\<lambda>p. if (1, p) \<in> HEADS then headcell p else Raw)"
      unfolding s6_def s5_def s3(2) heads_iff by (auto simp: add_used_def shm_mgr_new_def fun_eq_iff)
    moreover have "mem_ok s6"
      unfolding mem_ok_def
    proof (intro conjI allI impI)
      show "os_ok (os s6)" using os f6(1) by simp
      show "default_ok s6" using f6(2) d by (simp add: default_ok_def)
      show "block_ok (blocks s6 0)" unfolding b6 using b by (simp add: block_ok_def)
      show "block_ok (blocks s6 1)" unfolding b6 by (simp add: block_ok_def shm_mgr_new_def no_block_def)
      show "block_addr (blocks s6 0) \<noteq> 0" unfolding b6 using b by simp
      show "meta s6 p = Raw" if "p \<ge> used0 s6" for p
        using that heads_offset [of "(1, p)"] unfolding me b6 by auto
    qed
    ultimately have "created s6" unfolding created_def b6 using m(2) b by (simp add: shm_mgr_new_def no_block_def)
    moreover have "mmap_size (blocks s6 0) = ?d" unfolding b6 using b(6) by simp
    ultimately show ?thesis using f6(1,2) cr c(1) True by blast
  qed
qed


lemma created_view:
  assumes "created s"
  shows "view s (\<lambda>_. span_default) HEADS (\<lambda>_. []) (\<lambda>_. nulladdr)"
proof -
  have s: "mem_ok s" "used0 s = 32768" "lv0 s = (\<lambda>_. nulladdr)" "span_free_list s = nulladdr"
      "meta s = (\<lambda>p. if (1, p) \<in> HEADS then headcell p else Raw)"
    using assms by (simp_all add: created_def)
  have isp: "is_span s a \<longleftrightarrow> a \<in> HEADS" for a
  proof -
    have "is_span s a \<longleftrightarrow> fst a = 1 \<and> (\<exists>x. meta s (snd a) = SpanCell x)" using is_span_mem [OF s(1)] .
    also have "\<dots> \<longleftrightarrow> a \<in> HEADS" unfolding s(5) using heads_offset [of a] by (cases a) (auto simp: headcell_def)
    finally show ?thesis .
  qed
  have sp: "spn s a = (if a \<in> HEADS then span_default\<lparr>prev_span := a, next_span := a\<rparr> else span_default)" for a
    using heads_offset [of a] by (cases a) (auto simp: spn_def s(5) headcell_def)
  show ?thesis
    unfolding view_def
  proof (intro conjI allI ballI)
    show "radix_ok s" by (auto simp: radix_ok_def s(3) node1_def nulladdr_def)
    show "\<exists>fs. ma_ok s fs" by (rule exI [of _ "[]"]) (simp add: ma_ok_def s(4))
    show "span_core (spn s a) = span_default" for a unfolding sp by (simp add: span_core_def span_default_def)
    show "smap s = (\<lambda>_. nulladdr)"
      by (auto simp: smap_def lv2_of_def lv1_of_def s(3) fun_eq_iff split: prod.split)
    show "rings (span_nx s) (span_pv s) nulladdr HEADS (\<lambda>_. [])"
      by (rule ringsI) (auto simp: sp ring_Nil span_default_def)
  qed (use s(1) isp in auto)
qed

lemma created_ok:
  assumes "created s"
  shows "page_heap_ok s (\<lambda>_. span_default) HEADS (\<lambda>_. []) (\<lambda>_. nulladdr) {}"
proof -
  have "pages s = 0" "ph_used_size (ph_stat s) = 0" using assms by (simp_all add: created_def pages_def)
  then show ?thesis
    using created_view [OF assms]
    by (simp add: page_heap_ok_def heap_inv_def lists_ok_def used_pages_def tiling_def)
qed

end
