(* ===== verification/Shm_Mgr_Correct.thy ===== *)
theory Shm_Mgr_Correct
  imports Chunk_Cache_Correct Shm_Create
begin

text \<open>
  \<^verbatim>\<open>malloc\<close> and \<^verbatim>\<open>free\<close> against their abstract specification: a set of disjoint regions in use.
\<close>

section \<open>The tag in front of an allocation\<close>

lemma meta_serial_make: "meta_serial (shm_meta_make magic sn) = sn mod 2 ^ 16"
proof -
  have "take_bit 16 (shm_meta_make magic sn) = take_bit 16 (word_of_nat sn)"
    by (auto simp: shm_meta_make_def bit_eq_iff bit_simps)
  then have "meta_serial (shm_meta_make magic sn) = take_bit 16 (take_bit 64 sn)"
    by (simp only: meta_serial_def unsigned_take_bit_eq unsigned_of_nat len_of_numeral_defs) simp
  then show ?thesis by (simp add: take_bit_take_bit) (simp add: take_bit_eq_mod)
qed

lemma meta_magic_make:
  assumes "magic < 2 ^ 48"
  shows "meta_magic (shm_meta_make magic sn) = magic"
proof -
  have "drop_bit 16 (shm_meta_make magic sn) = (take_bit 48 (word_of_nat magic) :: u64)"
    by (auto simp: shm_meta_make_def bit_eq_iff bit_simps)
  then have "meta_magic (shm_meta_make magic sn) = take_bit 48 (take_bit 64 magic)"
    by (simp only: meta_magic_def unsigned_take_bit_eq unsigned_of_nat len_of_numeral_defs) simp
  then show ?thesis using assms by (simp add: take_bit_take_bit) (simp add: take_bit_eq_mod)
qed

lemma magic_link:
  assumes "a = nulladdr \<or> fst a = 2 \<and> snd a < 2 ^ 48"
  shows "meta_magic (encode a) \<noteq> SK_MAGIC"
proof (cases "a = nulladdr")
  case True
  then have "meta_magic (encode a) = 0" by (simp add: encode_def nulladdr_def meta_magic_def)
  then show ?thesis by (simp add: SK_MAGIC_def)
next
  case False
  then have a: "fst a = 2" "snd a < 2 ^ 48" using assms by auto
  have b: "bit (encode a) 49"
    using a by (simp add: encode_def bit_simps)
  have "bit (unat (drop_bit 16 (encode a))) 33" using b by (simp add: bit_simps unsigned_drop_bit_eq)
  then have "bit (meta_magic (encode a)) 33" by (simp add: meta_magic_def)
  moreover have "\<not> bit SK_MAGIC 33" by (simp add: SK_MAGIC_def)
  ultimately show ?thesis by metis
qed

lemma zero_tag: "shm_meta_make 0 0 = 0" "meta_magic 0 \<noteq> SK_MAGIC"
  by (simp_all add: shm_meta_make_def meta_magic_def SK_MAGIC_def)

section \<open>The invariant of the manager\<close>

definition mgr_inv ::
    "shm \<Rightarrow> (addr \<Rightarrow> span) \<Rightarrow> addr set \<Rightarrow> (addr \<Rightarrow> addr list) \<Rightarrow> (nat \<Rightarrow> addr) \<Rightarrow> addr set \<Rightarrow> (addr \<Rightarrow> nat list) \<Rightarrow> bool" where
  "mgr_inv s C S L M A F \<longleftrightarrow> page_heap_ok s C S L M A \<and> cache_inv s C L M A F"

text \<open>
  \<open>V\<close> are the regions in use. Each begins with a tag, and the serial number for the next
  allocation is one that fits the tag.
\<close>

definition tagged :: "shm \<Rightarrow> (nat \<times> nat) set \<Rightarrow> bool" where
  "tagged s V \<longleftrightarrow> (\<forall>p n. (p, n) \<in> V \<longrightarrow> meta_magic (user s p) = SK_MAGIC \<and> 3 \<le> meta_serial (user s p))"

definition alloc_inv :: "shm \<Rightarrow> (nat \<times> nat) set \<Rightarrow> bool" where
  "alloc_inv s V \<longleftrightarrow> (\<exists>C S L M A F. mgr_inv s C S L M A F \<and> V = live C A F) \<and> tagged s V \<and>
     3 \<le> serial_no s \<and> serial_no s < 2 ^ 16"

lemma live_free_apart:
  assumes inv: "mgr_inv s C S L M A F" and "(p, n) \<in> live C A F"
    and a: "a \<in> A" "in_use (C a)" "size_class (C a) \<noteq> 255" "r \<in> set (F a)"
  shows "r < p \<or> p + n \<le> r"
proof -
  have ok: "page_heap_ok s C S L M A" and ci: "cache_inv s C L M A F" using inv by (auto simp: mgr_inv_def)
  obtain b where b: "b \<in> A" "in_use (C b)" "(p, n) \<in> live_of (C b) (F b)" "lo C b * 8192 \<le> p" "p + n \<le> hi C b * 8192"
    using live_in_span [OF ok ci assms(2)] by blast
  note co = chunks_okD [OF cache_invD(2) [OF ci a(1-3)]]
  have r: "r \<in> set (chunk_slots (C a))" using co(6) a(4) by blast
  show ?thesis
  proof (cases "b = a")
    case True
    then have p: "p \<in> set (chunk_slots (C a))" "p \<notin> set (F a)" "n = class_sizes ! size_class (C a)"
      using b(3) a(3) by (auto simp: live_of_def)
    then have "p \<noteq> r" using a(4) by blast
    then show ?thesis using slot_apart [OF co(1,2) p(1) r] p(3) class_sizes_entry(3) [OF co(1,2)] by linarith
  next
    case False
    have "hi C a \<le> lo C b \<or> hi C b \<le> lo C a"
      using tilingD(3) [OF heap_invD(5) [OF page_heap_okD(1) [OF ok]] a(1) b(1)] False by blast
    then have "hi C a * 8192 \<le> lo C b * 8192 \<or> hi C b * 8192 \<le> lo C a * 8192" by auto
    then show ?thesis using slot_bounds [OF co(1,2) r] class_sizes_entry(3) [OF co(1,2)] b(4,5) by linarith
  qed
qed

text \<open>Whatever is written into a region in use, the allocator does not notice.\<close>

lemma user_write:
  assumes inv: "mgr_inv s C S L M A F" and l: "(p, n) \<in> live C A F" and q: "p \<le> q" "q < p + n"
  shows "mgr_inv (s\<lparr>user := (user s)(q := w)\<rparr>) C S L M A F"
proof -
  have ok: "page_heap_ok s C S L M A" and ci: "cache_inv s C L M A F" using inv by (auto simp: mgr_inv_def)
  let ?s = "s\<lparr>user := (user s)(q := w)\<rparr>"
  have "page_heap_ok ?s C S L M A" by (rule page_heap_cong [OF ok]) simp_all
  moreover have "chunks_ok (user ?s) C M a (F a)" if a: "a \<in> A" "in_use (C a)" "size_class (C a) \<noteq> 255" for a
  proof (rule chunks_ok_cong [OF cache_invD(2) [OF ci a]])
    fix r assume "r \<in> set (F a)"
    then have "r \<noteq> q" using live_free_apart [OF inv l a] q by fastforce
    then show "user ?s r = user s r" by simp
  qed simp_all
  ultimately show ?thesis using ci unfolding mgr_inv_def cache_inv_def by (simp add: cstats_def)
qed

lemma mgr_inv_cong:
  assumes "mgr_inv s C S L M A F" and "os s' = os s" "default_mmap_size s' = default_mmap_size s"
    "meta s' = meta s" "lv0 s' = lv0 s" "span_free_list s' = span_free_list s" "blocks s' = blocks s" "ph_stat s' = ph_stat s"
    "user s' = user s" "sizes s' = sizes s" "caches s' = caches s" "cc_stat s' = cc_stat s"
  shows "mgr_inv s' C S L M A F"
  using assms page_heap_cong [of s C S L M A s'] unfolding mgr_inv_def cache_inv_def by (simp add: cstats_def)

section \<open>Allocating\<close>

lemma page_round:
  fixes bytes :: nat
  assumes "bytes \<le> 2 ^ 47"
  shows "((bytes + 8191) mod 2 ^ 64) div 8192 \<le> 2 ^ 34" "bytes \<le> ((bytes + 8191) mod 2 ^ 64) div 8192 * 8192"
    "0 < bytes \<Longrightarrow> 0 < ((bytes + 8191) mod 2 ^ 64) div 8192"
proof -
  have m: "(bytes + 8191) mod 2 ^ 64 = bytes + 8191" using assms by simp
  have "(bytes + 8191) div 8192 \<le> (2 ^ 47 + 8191) div 8192" using assms by (intro div_le_mono) simp
  then show "((bytes + 8191) mod 2 ^ 64) div 8192 \<le> 2 ^ 34" unfolding m by simp
  show "bytes \<le> ((bytes + 8191) mod 2 ^ 64) div 8192 * 8192" unfolding m
    using div_mult_mod_eq [of "bytes + 8191" 8192] mod_less_divisor [of 8192 "bytes + 8191"] by linarith
  show "0 < bytes \<Longrightarrow> 0 < ((bytes + 8191) mod 2 ^ 64) div 8192" unfolding m by (simp add: div_greater_zero_iff)
qed

lemma malloc_base_ok:
  assumes inv: "mgr_inv s C S L M A F" and b: "bytes \<le> 2 ^ 47" and g: "grants s 0 (K + 10805248)"
  shows "\<exists>a s' C' S' L' M' A' F'. malloc_base s bytes = Some (a, s') \<and> mgr_inv s' C' S' L' M' A' F' \<and> grants s' 0 K \<and>
    (if addr_ok a then \<exists>p n. a = (2, p) \<and> bytes \<le> n \<and> (bytes = 0 \<longrightarrow> n = 8) \<and> took p n s (live C A F) s' (live C' A' F')
     else a = nulladdr \<and> kept s (live C A F) s' (live C' A' F'))"
proof -
  have ok: "page_heap_ok s C S L M A" and ci: "cache_inv s C L M A F" using inv by (auto simp: mgr_inv_def)
  note i = cache_invD [OF ci]
  show ?thesis
  proof (cases "bytes \<le> MAX_SIZE")
    case True
    then obtain c where c: "size2class (sizes s) bytes = Some c" "class_fits class_sizes bytes c" "1 \<le> c" "c \<le> 85"
      using size2class_fits [OF i(1)] by blast
    have fit: "bytes \<le> class_sizes ! c" using c(2) by (simp add: class_fits_def)
    have one: "class_sizes ! c = 8" if "bytes = 0" using c(2) that by (auto simp: class_fits_def class_sizes_def)
    obtain a s' C' S' L' M' A' F' where r: "allocate_chunk s bytes c = Some (a, s')"
        "page_heap_ok s' C' S' L' M' A'" "cache_inv s' C' L' M' A' F'" "grants s' 0 K"
        "if addr_ok a then \<exists>p. a = (2, p) \<and> took p (class_sizes ! c) s (live C A F) s' (live C' A' F')
         else a = nulladdr \<and> kept s (live C A F) s' (live C' A' F')"
      using allocate_chunk_ok [OF ok ci c(3,4) fit g] by blast
    have "malloc_base s bytes = Some (a, s')" using c(1) r(1) by (simp add: malloc_base_def)
    moreover have "if addr_ok a then \<exists>p n. a = (2, p) \<and> bytes \<le> n \<and> (bytes = 0 \<longrightarrow> n = 8) \<and> took p n s (live C A F) s' (live C' A' F')
         else a = nulladdr \<and> kept s (live C A F) s' (live C' A' F')"
      using r(5) fit one by (cases "addr_ok a") (simp_all, blast)
    ultimately show ?thesis using r(2-4) unfolding mgr_inv_def by blast
  next
    case False
    then have big: "size2class (sizes s) bytes = None" by (simp add: size2class_index_of)
    let ?n = "((bytes + 8191) mod 2 ^ 64) div 8192"
    note n = page_round [OF b]
    have b0: "0 < bytes" using False by simp
    have g1: "grants s 0 (K + 2154496)" using grants_mono [OF g] by simp
    obtain sp s1 C1 S1 L1 M1 A1 where s1: "allocate_span s ?n = Some (sp, s1)"
        "allocated ?n sp s C L M A s1 C1 S1 L1 M1 A1" "grants s1 0 K"
      using allocate_span_ok [OF ok n(3) [OF b0] n(1) g1] by blast
    have ok1: "page_heap_ok s1 C1 S1 L1 M1 A1" using s1(2) unfolding allocated_def by blast
    note al = allocated_inv [OF ok ci s1(2)]
    have inv1: "mgr_inv s1 C1 S1 L1 M1 A1 F" using ok1 al(1) by (simp add: mgr_inv_def)
    show ?thesis
    proof (cases "addr_ok sp")
      case no: False
      then have "malloc_base s bytes = Some (nulladdr, s1)" using big s1(1) by (simp add: malloc_base_def page_size_def)
      moreover have "\<not> (sp \<in> A1 \<and> in_use (C1 sp))" using no heap_inv_addr_ok [OF page_heap_okD(1) [OF ok1]] by blast
      then have "live C1 A1 F = live C A F" using al(2) live_not_used [of sp A1 C1 F] by simp
      then have "if addr_ok nulladdr then \<exists>p n. nulladdr = (2, p) \<and> bytes \<le> n \<and> (bytes = 0 \<longrightarrow> n = 8) \<and> took p n s (live C A F) s1 (live C1 A1 F)
         else nulladdr = nulladdr \<and> kept s (live C A F) s1 (live C1 A1 F)"
        using al(3,4) by (simp add: kept_def ukeep_def)
      ultimately show ?thesis using inv1 s1(3) by blast
    next
      case True
      then have fr: "sp \<in> A1" "in_use (C1 sp)" "page_count (C1 sp) = ?n" "payload (C1 sp) = payload span_default"
        using s1(2) by (simp_all add: allocated_def fresh_span_def)
      note d1 = heap_invD [OF page_heap_okD(1) [OF ok1]]
      have spS: "sp \<in> S1" using d1(2) fr(1) by auto
      note f = view_fields [OF d1(1) spS]
      have "start_page (C1 sp) < 2 ^ 34"
        using tilingD(1,2) [OF d1(5) fr(1)] pages_bound [OF viewD(1) [OF d1(1)]] by linarith
      then have lt: "start_page (C1 sp) * 8192 < 2 ^ 48" by simp
      let ?p = "start_page (C1 sp) * 8192"
      have run: "malloc_base s bytes = Some ((2, ?p), s1)"
        using big s1(1) True f lt by (simp add: malloc_base_def page_size_def make_addr_eq)
      have lo: "live_of (C1 sp) (F sp) = {(?p, ?n * 8192)}"
        using fr(3,4) by (simp add: live_of_def payload_def span_default_def)
      have l: "live C1 A1 F = insert (?p, ?n * 8192) (live C A F)"
        using live_split [of sp A1 C1 F] fr(1,2) lo al(2) by simp
      have nl: "(?p, ?n * 8192) \<notin> live C A F" using live_elsewhere [OF ok1 al(1) fr(1,2)] lo al(2) by simp
      have "took ?p (?n * 8192) s (live C A F) s1 (live C1 A1 F)"
        unfolding took_def using l nl al(3,4) by (simp add: ukeep_def)
      then have "if addr_ok (2, ?p) then \<exists>p n. (2, ?p) = (2, p) \<and> bytes \<le> n \<and> (bytes = 0 \<longrightarrow> n = 8) \<and> took p n s (live C A F) s1 (live C1 A1 F)
         else (2, ?p) = nulladdr \<and> kept s (live C A F) s1 (live C1 A1 F)" using n(2) b0 by auto
      then show ?thesis using run inv1 s1(3) by blast
    qed
  qed
qed

lemma live_user_ok:
  assumes inv: "mgr_inv s C S L M A F" and "(p, n) \<in> live C A F"
  shows "user_ok s p" "p + n \<le> used1 s" "0 < n" "used1 s \<le> 2 ^ 47"
proof -
  have ok: "page_heap_ok s C S L M A" and ci: "cache_inv s C L M A F" using inv by (auto simp: mgr_inv_def)
  note b = live_bound [OF ok ci assms(2)]
  show "p + n \<le> used1 s" "0 < n" using b by blast+
  have "A \<noteq> {}" using assms(2) by (auto simp: live_def)
  then show "user_ok s p" using b user_block [OF ok] by (auto simp: user_ok_def)
  show "used1 s \<le> 2 ^ 47"
    using viewD(1) [OF heap_invD(1) [OF page_heap_okD(1) [OF ok]]] by (auto simp: mem_ok_def block_ok_def)
qed

lemma meta_access:
  assumes "user_ok s p"
  shows "read_meta s (2, p) = Some (user s p)"
    "write_meta s (2, p) magic sn = Some (s\<lparr>user := (user s)(p := shm_meta_make magic sn)\<rparr>)"
  using assms by (simp_all add: user_ok_def read_meta_def write_meta_def addr2ptr_def block_defs)

lemma live_ge8:
  assumes inv: "mgr_inv s C S L M A F" and "(p, n) \<in> live C A F"
  shows "8 \<le> n"
proof -
  have ok: "page_heap_ok s C S L M A" and ci: "cache_inv s C L M A F" using inv by (auto simp: mgr_inv_def)
  obtain a where a: "a \<in> A" "in_use (C a)" "(p, n) \<in> live_of (C a) (F a)" using assms(2) by (auto simp: live_def)
  show ?thesis
  proof (cases "size_class (C a) = 255")
    case True
    then show ?thesis using a(3) tilingD(1) [OF heap_invD(5) [OF page_heap_okD(1) [OF ok]] a(1)] by (simp add: live_of_def)
  next
    case False
    note co = chunks_okD [OF cache_invD(2) [OF ci a(1,2) False]]
    show ?thesis using a(3) False class_sizes_entry(1,3) [OF co(1,2)] by (auto simp: live_of_def dest: dvd_imp_le)
  qed
qed

lemma malloc_ok:
  assumes inv: "alloc_inv s V" and b: "(bytes + 8) mod 2 ^ 64 \<le> 2 ^ 47" and g: "grants s 0 (K + 10805248)"
  shows "\<exists>r s'. malloc s bytes = Some (r, s') \<and> grants s' 0 K \<and> ukeep V s s' \<and>
    (if addr_ok r then \<exists>p n. r = (serial_no s, p + 8) \<and> (bytes + 8) mod 2 ^ 64 \<le> n \<and> 8 \<le> n \<and>
       ((bytes + 8) mod 2 ^ 64 = 0 \<longrightarrow> n = 8) \<and> (p, n) \<notin> V \<and> alloc_inv s' (insert (p, n) V) \<and>
       meta_serial (user s' p) = serial_no s
     else r = nulladdr \<and> alloc_inv s' V)"
proof -
  obtain C S L M A F where mi: "mgr_inv s C S L M A F" "V = live C A F" and tg: "tagged s V"
    and sn: "3 \<le> serial_no s" "serial_no s < 2 ^ 16" using inv unfolding alloc_inv_def by blast
  let ?s0 = "s\<lparr>mgr_stat := (mgr_stat s)\<lparr>alloc_count := alloc_count (mgr_stat s) + 1\<rparr>\<rparr>"
  have mi0: "mgr_inv ?s0 C S L M A F" by (rule mgr_inv_cong [OF mi(1)]) simp_all
  have g0: "grants ?s0 0 (K + 10805248)" using g by (simp add: grants_def)
  define m where "m = (bytes + 8) mod 2 ^ 64"
  have b0: "(bytes + shm_meta_size) mod 2 ^ 64 = m" "m \<le> 2 ^ 47" using b by (simp_all add: m_def shm_meta_size_def)
  obtain a s1 C1 S1 L1 M1 A1 F1 where s1: "malloc_base ?s0 m = Some (a, s1)" "mgr_inv s1 C1 S1 L1 M1 A1 F1" "grants s1 0 K"
      "if addr_ok a then \<exists>p n. a = (2, p) \<and> m \<le> n \<and> (m = 0 \<longrightarrow> n = 8) \<and> took p n ?s0 (live C A F) s1 (live C1 A1 F1)
       else a = nulladdr \<and> kept ?s0 (live C A F) s1 (live C1 A1 F1)"
    using malloc_base_ok [OF mi0 b0(2) g0] by blast
  have keep: "tagged s' V'" if "tagged s V'" "ukeep V' s s'" "\<And>p n. (p, n) \<in> V' \<Longrightarrow> 0 < n" for s' V'
    using that unfolding tagged_def ukeep_def by (metis less_add_same_cancel1 order_refl)
  have pos: "0 < n" if "(p, n) \<in> V" for p n using live_user_ok(3) [OF mi(1)] that mi(2) by blast
  show ?thesis
  proof (cases "addr_ok a")
    case False
    then have k: "live C1 A1 F1 = V" "cframe s s1" "ukeep V s s1"
      using s1(4) mi(2) by (simp_all add: kept_def cframe_def ukeep_def)
    have "malloc s bytes = Some (nulladdr, s1)" using s1(1) False b0(1) by (simp add: malloc_def)
    moreover have "alloc_inv s1 V"
    proof -
      have "tagged s1 V" by (rule keep [OF tg k(3)]) (rule pos)
      moreover have "serial_no s1 = serial_no s" using k(2) by (simp add: cframe_def)
      ultimately show ?thesis unfolding alloc_inv_def using s1(2) k(1) sn by metis
    qed
    ultimately show ?thesis using s1(3) k(3) by auto
  next
    case True
    then obtain p n where p: "a = (2, p)" "m \<le> n" "live C1 A1 F1 = insert (p, n) V" "(p, n) \<notin> V" "cframe s s1" "ukeep V s s1" "m = 0 \<longrightarrow> n = 8"
      using s1(4) mi(2) by (auto simp: took_def cframe_def ukeep_def)
    have l1: "(p, n) \<in> live C1 A1 F1" using p(3) by simp
    note u1 = live_user_ok [OF s1(2) l1]
    have n8: "8 \<le> n" using live_ge8 [OF s1(2) l1] .
    let ?sn = "serial_no s"
    let ?w = "shm_meta_make SK_MAGIC ?sn"
    define s2 where "s2 = s1\<lparr>user := (user s1)(p := ?w)\<rparr>"
    define s' where "s' = s2\<lparr>serial_no := (if and (?sn + 1) (2 ^ 16 - 1) = 0 then 3 else ?sn + 1)\<rparr>"
    have w: "meta_serial ?w = ?sn" "meta_magic ?w = SK_MAGIC"
      using sn meta_serial_make [of SK_MAGIC ?sn] meta_magic_make [of SK_MAGIC ?sn] by (simp_all add: SK_MAGIC_def)
    have sn1: "serial_no s1 = ?sn" using p(5) by (simp add: cframe_def)
    have uo: "user_ok s' p" "user s' p = ?w" using u1(1) by (simp_all add: user_ok_def s'_def s2_def)
    have mk: "p + 8 < 2 ^ 48" using u1 n8 by simp
    have wm: "write_meta s1 (2, p) SK_MAGIC ?sn = Some s2" using meta_access(2) [OF u1(1)] by (simp add: s2_def)
    have run: "malloc s bytes = Some ((?sn, p + 8), s')"
      using s1(1) p(1) b0(1) wm sn1 meta_access(1) [OF uo(1)] uo(2) w(1) mk sn
      by (cases "and (?sn + 1) (2 ^ 16 - 1) = 0") (simp_all add: malloc_def shm_meta_size_def Let_def s'_def make_addr_eq)
    have apart: "q \<noteq> p" if "(r, m) \<in> V" "r \<le> q" "q < r + m" for r m q
    proof -
      have "r + m \<le> p \<or> p + n \<le> r"
        using live_apart [of s1 C1 S1 L1 M1 A1 F1 r m p n] s1(2) that(1) p(3,4) unfolding mgr_inv_def by blast
      then show ?thesis using that u1(3) by linarith
    qed
    have uk: "ukeep V s s'" using p(6) apart unfolding ukeep_def s'_def s2_def by auto
    have "mgr_inv s2 C1 S1 L1 M1 A1 F1" unfolding s2_def by (rule user_write [OF s1(2) l1]) (use u1(3) in simp_all)
    then have "mgr_inv s' C1 S1 L1 M1 A1 F1" by (rule mgr_inv_cong) (simp_all add: s'_def)
    moreover have "tagged s' (insert (p, n) V)"
    proof -
      have "tagged s' V" by (rule keep [OF tg uk]) (rule pos)
      then show ?thesis using uo(2) w sn by (auto simp: tagged_def)
    qed
    moreover have "3 \<le> serial_no s' \<and> serial_no s' < 2 ^ 16"
    proof -
      have "and (?sn + 1) (2 ^ 16 - 1) = (?sn + 1) mod 2 ^ 16" by (rule and_pow2_mod)
      then show ?thesis using sn by (cases "?sn + 1 = 2 ^ 16") (simp_all add: s'_def)
    qed
    ultimately have "alloc_inv s' (insert (p, n) V)" unfolding alloc_inv_def using p(3) by blast
    moreover have "grants s' 0 K" using s1(3) by (simp add: grants_def s'_def s2_def)
    ultimately show ?thesis using run uk p(2,4,7) n8 uo(2) w(1) sn unfolding m_def by (intro exI [of _ "(?sn, p + 8)"] exI [of _ s']) auto
  qed
qed

section \<open>Freeing\<close>

text \<open>The span that holds a region in use is found through the page map.\<close>

lemma find_live:
  assumes inv: "mgr_inv s C S L M A F" and "(p, n) \<in> live C A F"
  shows "\<exists>a \<in> A. in_use (C a) \<and> (p, n) \<in> live_of (C a) (F a) \<and> find_span s (2, p) = Some a"
proof -
  have ok: "page_heap_ok s C S L M A" and ci: "cache_inv s C L M A F" using inv by (auto simp: mgr_inv_def)
  note d = heap_invD [OF page_heap_okD(1) [OF ok]]
  obtain a where a: "a \<in> A" "in_use (C a)" "(p, n) \<in> live_of (C a) (F a)" using assms(2) by (auto simp: live_def)
  have "find_span s (2, p) = Some a"
  proof (cases "size_class (C a) = 255")
    case False
    note co = chunks_okD [OF cache_invD(2) [OF ci a(1,2) False]]
    have "p \<in> set (chunk_slots (C a))" using a(3) False by (auto simp: live_of_def)
    note pg = slot_page [OF co(1,2) this]
    show ?thesis by (rule find_span_ok [OF ok a(1) co(4)]) (use pg in simp_all)
  next
    case True
    then have p: "p div 8192 = lo C a" using a(3) by (simp add: live_of_def)
    have "lo C a < 2 ^ 35" using tilingD(1,2) [OF d(5) a(1)] pages_bound [OF viewD(1) [OF d(1)]] by simp
    then show ?thesis using view_get [OF d(1)] d(7) [OF a(1)] p by (simp add: find_span_def page_size_def)
  qed
  then show ?thesis using a by blast
qed

lemma free_link:
  assumes inv: "mgr_inv s C S L M A F" and a: "a \<in> A" "in_use (C a)" "size_class (C a) \<noteq> 255"
  shows "meta_magic (encode (chunk_list (C a))) \<noteq> SK_MAGIC"
proof (rule magic_link, cases "F a")
  have ok: "page_heap_ok s C S L M A" and ci: "cache_inv s C L M A F" using inv by (auto simp: mgr_inv_def)
  note co = chunks_okD [OF cache_invD(2) [OF ci a]]
  note d = heap_invD [OF page_heap_okD(1) [OF ok]]
  case Nil then show "chunk_list (C a) = nulladdr \<or> fst (chunk_list (C a)) = 2 \<and> snd (chunk_list (C a)) < 2 ^ 48"
    using co(7) by simp
next
  have ok: "page_heap_ok s C S L M A" and ci: "cache_inv s C L M A F" using inv by (auto simp: mgr_inv_def)
  note co = chunks_okD [OF cache_invD(2) [OF ci a]]
  note d = heap_invD [OF page_heap_okD(1) [OF ok]]
  case (Cons r rs)
  then have "r \<in> set (chunk_slots (C a))" "chunk_list (C a) = (2, r)" using co(6,7) by auto
  moreover have "hi C a * 8192 \<le> 2 ^ 47"
    using tilingD(2) [OF d(5) a(1)] pages_bound [OF viewD(1) [OF d(1)]] by simp
  ultimately show "chunk_list (C a) = nulladdr \<or> fst (chunk_list (C a)) = 2 \<and> snd (chunk_list (C a)) < 2 ^ 48"
    using slot_bounds [OF co(1,2), of r] by auto
qed

lemma free_base_ok:
  assumes inv: "mgr_inv s C S L M A F" and l: "(p, n) \<in> live C A F" and z: "user s p = 0" and g: "grants s 0 (K + 540672)"
  shows "\<exists>sp s' C' S' L' M' A' F'. find_span s (2, p) = Some sp \<and> addr_ok sp \<and> as_span s sp = Some (spn s sp) \<and>
    (if size_class (spn s sp) = 255 then chunk_list (spn s sp) = nulladdr \<and> used_count (spn s sp) = 0 \<and> deallocate_span s sp = Some s'
     else deallocate_chunk s (2, p) sp = Some s') \<and> mgr_inv s' C' S' L' M' A' F' \<and> grants s' 0 K \<and>
    gave p n s (live C A F) s' (live C' A' F') \<and> meta_magic (user s' p) \<noteq> SK_MAGIC"
proof -
  have ok: "page_heap_ok s C S L M A" and ci: "cache_inv s C L M A F" using inv by (auto simp: mgr_inv_def)
  note d = heap_invD [OF page_heap_okD(1) [OF ok]]
  note i = cache_invD [OF ci]
  obtain sp where sp: "sp \<in> A" "in_use (C sp)" "(p, n) \<in> live_of (C sp) (F sp)" "find_span s (2, p) = Some sp"
    using find_live [OF inv l] by blast
  have spS: "sp \<in> S" using d(2) sp by auto
  note f = view_fields [OF d(1) spS]
  have sok: "addr_ok sp" using heap_inv_addr_ok [OF page_heap_okD(1) [OF ok] sp(1)] .
  show ?thesis
  proof (cases "size_class (C sp) = 255")
    case True
    have pd: "payload (C sp) = payload span_default" using i(3) [OF sp(1,2) True] .
    have ul: "sp \<notin> set (L (cl_head b))" if "b < 87" for b using i(4) [OF that] True that by (auto simp: cached_def)
    obtain s' C' S' L' M' A' where r: "deallocate_span s sp = Some s'" "page_heap_ok s' C' S' L' M' A'"
        "hframe sp C L M A C' L' M' A'" "\<not> in_use (C' sp)" "pframe s s'" "grants s' 0 K"
      using page_heap_dealloc [OF ok sp(1,2) pd ul g] by blast
    have af: "aframe s s'" using aframe_pframe [OF r(5)] .
    have us: "user s' = user s" using af by (simp add: aframe_def)
    have "cache_inv s' C' L' M' A' F"
      by (rule cache_inv_hframe [OF ci r(3)]) (use True r(4) af in \<open>simp_all add: aframe_def\<close>)
    then have "mgr_inv s' C' S' L' M' A' F" using r(2) by (simp add: mgr_inv_def)
    moreover have one: "live_of (C sp) (F sp) = {(p, n)}" using sp(3) True by (simp add: live_of_def)
    have "live C' A' F = live C A F - {(p, n)}"
    proof -
      have "live C' A' F = live C (A - {sp}) F" using live_not_used [of sp A' C' F] live_hframe [OF r(3)] r(4) by simp
      then show ?thesis using live_split [of sp A C F] sp(1,2) one live_elsewhere [OF ok ci sp(1-3)] by auto
    qed
    then have "gave p n s (live C A F) s' (live C' A' F)"
      using l cframe_aframe [OF af] us by (simp add: gave_def ukeep_def)
    moreover have "meta_magic (user s' p) \<noteq> SK_MAGIC" using us z zero_tag by simp
    moreover have "chunk_list (spn s sp) = nulladdr \<and> used_count (spn s sp) = 0 \<and> size_class (spn s sp) = 255"
      using pd f True by (simp_all add: payload_def span_default_def)
    then have "if size_class (spn s sp) = 255 then chunk_list (spn s sp) = nulladdr \<and> used_count (spn s sp) = 0 \<and>
        deallocate_span s sp = Some s' else deallocate_chunk s (2, p) sp = Some s'" using r(1) by simp
    ultimately show ?thesis using sp(4) sok f(1) r(6) by blast
  next
    case False
    then have p: "p \<in> set (chunk_slots (C sp))" "p \<notin> set (F sp)" "n = class_sizes ! size_class (C sp)"
      using sp(3) by (auto simp: live_of_def)
    obtain s' C' S' L' M' A' F' where r: "deallocate_chunk s (2, p) sp = Some s'"
        "page_heap_ok s' C' S' L' M' A'" "cache_inv s' C' L' M' A' F'" "grants s' 0 K"
        "gave p (class_sizes ! size_class (C sp)) s (live C A F) s' (live C' A' F')" "user s' p = encode (chunk_list (C sp))"
      using deallocate_chunk_ok [OF ok ci sp(1,2) refl False p(1,2) g] by blast
    have "mgr_inv s' C' S' L' M' A' F'" using r(2,3) by (simp add: mgr_inv_def)
    moreover have "meta_magic (user s' p) \<noteq> SK_MAGIC" using r(6) free_link [OF inv sp(1,2) False] by simp
    moreover have "if size_class (spn s sp) = 255 then chunk_list (spn s sp) = nulladdr \<and> used_count (spn s sp) = 0 \<and>
        deallocate_span s sp = Some s' else deallocate_chunk s (2, p) sp = Some s'" using r(1) f False by simp
    ultimately show ?thesis using sp(4) sok f(1) r(4,5) p(3) by blast
  qed
qed

lemma free_ok:
  assumes inv: "alloc_inv s V" and l: "(p, n) \<in> V" and sn: "meta_serial (user s p) = k" and g: "grants s 0 (K + 540672)"
  shows "\<exists>s'. mgr_free s (k, p + 8) = Some s' \<and> alloc_inv s' (V - {(p, n)}) \<and> ukeep (V - {(p, n)}) s s' \<and>
    grants s' 0 K \<and> meta_magic (user s' p) \<noteq> SK_MAGIC \<and> cframe s s'"
proof -
  obtain C S L M A F where mi: "mgr_inv s C S L M A F" "V = live C A F" and tg: "tagged s V"
    and no: "3 \<le> serial_no s" "serial_no s < 2 ^ 16" using inv unfolding alloc_inv_def by blast
  have t: "meta_magic (user s p) = SK_MAGIC" "3 \<le> k" using tg l sn unfolding tagged_def by blast+
  note u = live_user_ok [OF mi(1) l [unfolded mi(2)]]
  define s0 where "s0 = s\<lparr>mgr_stat := (mgr_stat s)\<lparr>free_count := free_count (mgr_stat s) + 1\<rparr>\<rparr>"
  define s1 where "s1 = s0\<lparr>user := (user s0)(p := 0)\<rparr>"
  have "mgr_inv s0 C S L M A F" by (rule mgr_inv_cong [OF mi(1)]) (simp_all add: s0_def)
  then have mi1: "mgr_inv s1 C S L M A F" unfolding s1_def by (rule user_write) (use l mi(2) u(3) in auto)
  have g1: "grants s1 0 (K + 540672)" using g by (simp add: grants_def s0_def s1_def)
  have l1: "(p, n) \<in> live C A F" using l mi(2) by simp
  obtain sp s' C' S' L' M' A' F' where r: "find_span s1 (2, p) = Some sp" "addr_ok sp" "as_span s1 sp = Some (spn s1 sp)"
      "if size_class (spn s1 sp) = 255 then chunk_list (spn s1 sp) = nulladdr \<and> used_count (spn s1 sp) = 0 \<and> deallocate_span s1 sp = Some s'
       else deallocate_chunk s1 (2, p) sp = Some s'" "mgr_inv s' C' S' L' M' A' F'" "grants s' 0 K"
      "gave p n s1 V s' (live C' A' F')" "meta_magic (user s' p) \<noteq> SK_MAGIC"
  proof -
    have "user s1 p = 0" by (simp add: s1_def)
    from free_base_ok [OF mi1 l1 this g1, folded mi(2)] show ?thesis using that by blast
  qed
  have uo: "user_ok s0 p" using u(1) by (simp add: user_ok_def s0_def)
  have wm: "write_meta s0 (2, p) 0 0 = Some s1" using meta_access(2) [OF uo, of 0 0] zero_tag(1) by (simp add: s1_def)
  have rd: "read_meta s0 (2, p) = Some (user s p)" using meta_access(1) [OF uo] by (simp add: s0_def)
  have s0: "s\<lparr>mgr_stat := (mgr_stat s)\<lparr>free_count := Suc (free_count (mgr_stat s))\<rparr>\<rparr> = s0" by (simp add: s0_def)
  have "p < 2 ^ 48" using u by simp
  then have "mgr_free s (k, p + 8) = do {
       sp \<leftarrow> find_span s1 (2, p);
       sk_assert (addr_ok sp);
       x \<leftarrow> as_span s1 sp;
       if size_class x = 255 then do {
         sk_assert (\<not> addr_ok (chunk_list x));
         sk_assert (used_count x = 0);
         deallocate_span s1 sp
       }
       else deallocate_chunk s1 (2, p) sp
     }"
    using t sn wm rd by (simp add: mgr_free_def shm_meta_size_def make_addr_eq s0)
  also have "\<dots> = Some s'"
    unfolding r(1) bind.bind_lunit r(3) using r(2,4) by (cases "size_class (spn s1 sp) = 255") simp_all
  finally have run: "mgr_free s (k, p + 8) = Some s'" .
  have gv: "live C' A' F' = V - {(p, n)}" "cframe s1 s'" "ukeep (V - {(p, n)}) s1 s'"
    using r(7) unfolding gave_def by metis+
  have ap: "q \<noteq> p" if "(a, m) \<in> V - {(p, n)}" "a \<le> q" "q < a + m" for a m q
  proof -
    have "a + m \<le> p \<or> p + n \<le> a"
      using live_apart [of s C S L M A F a m p n] mi that(1) l unfolding mgr_inv_def by blast
    then show ?thesis using that u(3) by linarith
  qed
  have uk: "ukeep (V - {(p, n)}) s s'"
    unfolding ukeep_def
  proof (intro allI impI)
    fix a m q assume h: "(a, m) \<in> V - {(p, n)}" "a \<le> q" "q < a + m"
    then have "user s' q = user s1 q" using gv(3) unfolding ukeep_def by blast
    also have "\<dots> = user s q" using ap [OF h] by (simp add: s1_def s0_def)
    finally show "user s' q = user s q" .
  qed
  have pos: "0 < m" if "(a, m) \<in> V" for a m using live_user_ok(3) [OF mi(1)] that mi(2) by blast
  have "tagged s' (V - {(p, n)})"
    using tg uk pos unfolding tagged_def ukeep_def by (metis DiffD1 less_add_same_cancel1 order_refl)
  moreover have cf: "cframe s s'" using gv(2) by (simp add: cframe_def s1_def s0_def)
  moreover have "serial_no s' = serial_no s" using cf by (simp add: cframe_def)
  ultimately have "alloc_inv s' (V - {(p, n)})" unfolding alloc_inv_def using r(5) gv(1) no by metis
  then show ?thesis using run uk r(6,8) cf by blast
qed

text \<open>A pointer whose tag is gone: freeing it changes nothing but a counter, and it resolves to null.\<close>

lemma free_stale:
  assumes "user_ok s p" and "used1 s \<le> 2 ^ 47" and "3 \<le> k" and "meta_magic (user s p) \<noteq> SK_MAGIC \<or> meta_serial (user s p) \<noteq> k"
  shows "mgr_free s (k, p + 8) = Some (s\<lparr>mgr_stat := (mgr_stat s)\<lparr>free_count := free_count (mgr_stat s) + 1\<rparr>\<rparr>)"
proof -
  let ?s0 = "s\<lparr>mgr_stat := (mgr_stat s)\<lparr>free_count := free_count (mgr_stat s) + 1\<rparr>\<rparr>"
  have "user_ok ?s0 p" using assms(1) by (simp add: user_ok_def)
  from meta_access(1) [OF this] have "read_meta ?s0 (2, p) = Some (user s p)" by simp
  moreover have "p < 2 ^ 48" using assms(1,2) by (simp add: user_ok_def)
  ultimately show ?thesis using assms(3,4) by (simp add: mgr_free_def shm_meta_size_def make_addr_eq)
qed

section \<open>The state after creation\<close>

lemma created_inv:
  assumes "created s"
  shows "alloc_inv s {}"
proof -
  have "cache_inv s (\<lambda>_. span_default) (\<lambda>_. []) (\<lambda>_. nulladdr) {} (\<lambda>_. [])"
    using assms by (simp add: created_def cache_inv_def cstats_def cached_def wsum_def)
  then have "mgr_inv s (\<lambda>_. span_default) HEADS (\<lambda>_. []) (\<lambda>_. nulladdr) {} (\<lambda>_. [])"
    using created_ok [OF assms] by (simp add: mgr_inv_def)
  moreover have "live (\<lambda>_. span_default) {} (\<lambda>_. []) = {}" by (simp add: live_def)
  ultimately show ?thesis using assms unfolding alloc_inv_def tagged_def created_def by fastforce
qed

lemma user_store:
  assumes "alloc_inv s V" and "(p, n) \<in> V" and "p + 8 \<le> q" "q < p + n"
  shows "alloc_inv (s\<lparr>user := (user s)(q := w)\<rparr>) V"
proof -
  obtain C S L M A F where mi: "mgr_inv s C S L M A F" "V = live C A F" and tg: "tagged s V"
    and no: "3 \<le> serial_no s" "serial_no s < 2 ^ 16" using assms(1) unfolding alloc_inv_def by blast
  let ?s = "s\<lparr>user := (user s)(q := w)\<rparr>"
  have "mgr_inv ?s C S L M A F" by (rule user_write [OF mi(1)]) (use assms mi(2) in auto)
  moreover have "a \<noteq> q" if "(a, m) \<in> V" for a m
  proof (cases "(a, m) = (p, n)")
    case True then show ?thesis using assms(3) by auto
  next
    case False
    have "0 < m" using live_user_ok(3) [OF mi(1)] that mi(2) by blast
    then show ?thesis
      using live_apart [of s C S L M A F a m p n] mi that assms False unfolding mgr_inv_def by fastforce
  qed
  then have "tagged ?s V" using tg unfolding tagged_def by fastforce
  ultimately show ?thesis unfolding alloc_inv_def using mi(2) no by fastforce
qed

end
