(* ===== verification/Allocator.thy ===== *)
theory Allocator
  imports Shm_Mgr_Correct
begin

text \<open>
  What a client of the shared memory allocator may rely on: the properties of
  \<^verbatim>\<open>shm_mgr\<close> and of the page heap below it, stated over the operations of the model.
\<close>

section \<open>Clients\<close>

text \<open>
  What one call of \<^verbatim>\<open>malloc\<close> needs of the metadata block in the worst case, a new root of the page map and new spans and nodes at all levels: the block has this much of its mapping left, and the system
  gives it the memory. Without it \<^verbatim>\<open>grow_heap\<close> and the radix tree fail their assertions.
\<close>

definition metadata_room :: "shm \<Rightarrow> bool" where
  "metadata_room s \<longleftrightarrow> grants s 0 10805248"

text \<open>
  A client owns the set \<open>W\<close> of regions it has asked for, each with the offset of its tag and
  its length including the tag. It allocates, frees what it owns, and writes behind the tags
  of what it owns. It allocates and frees while there is room for metadata. The number of a step is the metadata that it may take.
\<close>

inductive client_step :: "nat \<Rightarrow> shm \<Rightarrow> (nat \<times> nat) set \<Rightarrow> shm \<Rightarrow> (nat \<times> nat) set \<Rightarrow> bool" where
  step_malloc: "malloc s b = Some (r, s') \<Longrightarrow> addr_ok r \<Longrightarrow> b + 8 \<le> 2 ^ 47 \<Longrightarrow> metadata_room s \<Longrightarrow>
    client_step 10805248 s W s' (insert (snd r - 8, b + 8) W)"
| step_fail: "malloc s b = Some (r, s') \<Longrightarrow> \<not> addr_ok r \<Longrightarrow> b + 8 \<le> 2 ^ 47 \<Longrightarrow> metadata_room s \<Longrightarrow> client_step 10805248 s W s' W"
| step_free: "(p, b) \<in> W \<Longrightarrow> mgr_free s (meta_serial (user s p), p + 8) = Some s' \<Longrightarrow> metadata_room s \<Longrightarrow>
    client_step 540672 s W s' (W - {(p, b)})"
| step_store: "(p, b) \<in> W \<Longrightarrow> p + 8 \<le> q \<Longrightarrow> q < p + b \<Longrightarrow>
    client_step 0 s W (s\<lparr>user := (user s)(q := w)\<rparr>) W"

inductive client_run :: "nat \<Rightarrow> shm \<Rightarrow> (nat \<times> nat) set \<Rightarrow> shm \<Rightarrow> (nat \<times> nat) set \<Rightarrow> bool" where
  run_nil: "client_run 0 s W s W"
| run_step: "client_run n s W s' W' \<Longrightarrow> client_step c s' W' s'' W'' \<Longrightarrow> client_run (n + c) s W s'' W''"

text \<open>The regions of \<open>W\<close> lie in regions in use, at different offsets.\<close>

definition owns :: "shm \<Rightarrow> (nat \<times> nat) set \<Rightarrow> bool" where
  "owns s W \<longleftrightarrow> (\<exists>V. alloc_inv s V \<and> (\<forall>p b. (p, b) \<in> W \<longrightarrow> 0 < b \<and> (\<exists>n. b \<le> n \<and> (p, n) \<in> V))) \<and> inj_on fst W"

definition disjoint_regions :: "(nat \<times> nat) set \<Rightarrow> bool" where
  "disjoint_regions W \<longleftrightarrow> (\<forall>p b q c. (p, b) \<in> W \<longrightarrow> (q, c) \<in> W \<longrightarrow> (p, b) \<noteq> (q, c) \<longrightarrow> p + b \<le> q \<or> q + c \<le> p)"

lemma alloc_inv_apart:
  assumes "alloc_inv s V" "(p, n) \<in> V" "(q, m) \<in> V" "(p, n) \<noteq> (q, m)"
  shows "p + n \<le> q \<or> q + m \<le> p" "0 < n"
proof -
  obtain C S L M A F where mi: "mgr_inv s C S L M A F" "V = live C A F" using assms(1) unfolding alloc_inv_def by blast
  show "p + n \<le> q \<or> q + m \<le> p" using live_apart [of s C S L M A F p n q m] mi assms unfolding mgr_inv_def by blast
  show "0 < n" using live_user_ok(3) [OF mi(1)] assms(2) mi(2) by blast
qed

lemma alloc_inv_pos: "alloc_inv s V \<Longrightarrow> (p, n) \<in> V \<Longrightarrow> 0 < n \<and> p + n \<le> used1 s \<and> user_ok s p \<and> used1 s \<le> 2 ^ 47"
proof -
  assume "alloc_inv s V" "(p, n) \<in> V"
  then obtain C S L M A F where "mgr_inv s C S L M A F" "(p, n) \<in> live C A F" unfolding alloc_inv_def by blast
  from live_user_ok [OF this] show ?thesis by blast
qed

lemma alloc_inv_fst: "alloc_inv s V \<Longrightarrow> (p, n) \<in> V \<Longrightarrow> (p, m) \<in> V \<Longrightarrow> n = m"
  using alloc_inv_apart(1) [of s V p n p m] alloc_inv_pos [of s V p n] alloc_inv_pos [of s V p m] by fastforce

lemma owns_disjoint: "owns s W \<Longrightarrow> disjoint_regions W"
proof -
  assume "owns s W"
  then obtain V where V: "alloc_inv s V" "\<And>p b. (p, b) \<in> W \<Longrightarrow> \<exists>n. b \<le> n \<and> (p, n) \<in> V" and i: "inj_on fst W"
    unfolding owns_def by blast
  show ?thesis
    unfolding disjoint_regions_def
  proof (intro allI impI)
    fix p b q c assume h: "(p, b) \<in> W" "(q, c) \<in> W" "(p, b) \<noteq> (q, c)"
    obtain n m where nm: "b \<le> n" "(p, n) \<in> V" "c \<le> m" "(q, m) \<in> V" using V(2) h by meson
    have "p \<noteq> q" using i h unfolding inj_on_def by force
    then show "p + b \<le> q \<or> q + c \<le> p" using alloc_inv_apart(1) [OF V(1) nm(2,4)] nm(1,3) by fastforce
  qed
qed

lemma client_step_owns:
  assumes "client_step c s W s' W'" and "owns s W"
  shows "owns s' W' \<and> (\<forall>K. grants s 0 (K + c) \<longrightarrow> grants s' 0 K)"
  using assms
proof cases
  case (step_malloc b r)
  obtain V where V: "alloc_inv s V" "\<And>p b. (p, b) \<in> W \<Longrightarrow> 0 < b \<and> (\<exists>n. b \<le> n \<and> (p, n) \<in> V)" and i: "inj_on fst W"
    using assms(2) unfolding owns_def by blast
  have m: "(b + 8) mod 2 ^ 64 = b + 8" using step_malloc(5) by simp
  have K: "\<exists>p n. r = (serial_no s, p + 8) \<and> b + 8 \<le> n \<and> (p, n) \<notin> V \<and> alloc_inv s' (insert (p, n) V) \<and> grants s' 0 K" if "grants s 0 (K + 10805248)" for K
    using malloc_ok [OF V(1) _ that, of b] step_malloc m by auto
  have "grants s 0 (0 + 10805248)" using step_malloc(6) by (simp add: metadata_room_def)
  then obtain p n where p: "r = (serial_no s, p + 8)" "b + 8 \<le> n" "(p, n) \<notin> V" "alloc_inv s' (insert (p, n) V)" using K by blast
  have "(p, c) \<notin> W" for c
  proof
    assume "(p, c) \<in> W"
    then obtain k where "(p, k) \<in> V" using V(2) by blast
    then show False using alloc_inv_fst [OF p(4), of p k n] p(3) by auto
  qed
  then have "inj_on fst (insert (p, b + 8) W)" using i by (force simp: inj_on_def)
  then have "owns s' (insert (p, b + 8) W)"
    unfolding owns_def using p(2,4) V(2) by (intro conjI exI [of _ "insert (p, n) V"]) fastforce+
  then show ?thesis using p(1) K step_malloc by auto
next
  case (step_fail b r)
  obtain V where V: "alloc_inv s V" "\<And>p b. (p, b) \<in> W \<Longrightarrow> 0 < b \<and> (\<exists>n. b \<le> n \<and> (p, n) \<in> V)" and i: "inj_on fst W"
    using assms(2) unfolding owns_def by blast
  have m: "(b + 8) mod 2 ^ 64 = b + 8" using step_fail(5) by simp
  have K: "alloc_inv s' V \<and> grants s' 0 K" if "grants s 0 (K + 10805248)" for K using malloc_ok [OF V(1) _ that, of b] step_fail m by auto
  have "grants s 0 (0 + 10805248)" using step_fail(6) by (simp add: metadata_room_def)
  then show ?thesis using V i K step_fail unfolding owns_def by blast
next
  case (step_free p b)
  obtain V where V: "alloc_inv s V" "\<And>p b. (p, b) \<in> W \<Longrightarrow> 0 < b \<and> (\<exists>n. b \<le> n \<and> (p, n) \<in> V)" and i: "inj_on fst W"
    using assms(2) unfolding owns_def by blast
  obtain n where n: "(p, n) \<in> V" using V(2) step_free by blast
  have K: "alloc_inv s' (V - {(p, n)}) \<and> grants s' 0 K" if "grants s 0 (K + 540672)" for K using free_ok [OF V(1) n refl that] step_free(4) by auto
  have "grants s 0 (0 + 540672)" using grants_mono [OF step_free(5) [unfolded metadata_room_def]] by simp
  then have r: "alloc_inv s' (V - {(p, n)})" using K by blast
  have "\<exists>m. c \<le> m \<and> (q, m) \<in> V - {(p, n)}" if "(q, c) \<in> W'" for q c
  proof -
    have "(q, c) \<in> W" "(q, c) \<noteq> (p, b)" using that step_free by auto
    then have "q \<noteq> p" using i step_free(3) unfolding inj_on_def by force
    then show ?thesis using V(2) \<open>(q, c) \<in> W\<close> by blast
  qed
  moreover have "inj_on fst W'" using i step_free by (auto intro: inj_on_subset)
  moreover have "0 < c" if "(q, c) \<in> W'" for q c using V(2) that step_free by blast
  ultimately show ?thesis using r K step_free(1) unfolding owns_def by blast
next
  case (step_store p b q w)
  obtain V where V: "alloc_inv s V" "\<And>p b. (p, b) \<in> W \<Longrightarrow> 0 < b \<and> (\<exists>n. b \<le> n \<and> (p, n) \<in> V)" and i: "inj_on fst W"
    using assms(2) unfolding owns_def by blast
  obtain n where n: "b \<le> n" "(p, n) \<in> V" using V(2) step_store by blast
  then have "alloc_inv s' V" using user_store [OF V(1) n(2)] step_store by auto
  moreover have "grants s 0 (K + c) \<longrightarrow> grants s' 0 K" for K using step_store by (simp add: grants_def)
  ultimately show ?thesis using V(2) i step_store unfolding owns_def by blast
qed

lemma client_run_owns:
  "client_run n s W s' W' \<Longrightarrow> owns s W \<Longrightarrow> owns s' W' \<and> (\<forall>K. grants s 0 (K + n) \<longrightarrow> grants s' 0 K)"
proof (induction rule: client_run.induct)
  case (run_step n s W s' W' c s'' W'')
  note o = run_step.IH [OF run_step.prems]
  have "grants s'' 0 K" if "grants s 0 (K + (n + c))" for K
  proof -
    have "grants s 0 ((K + c) + n)" using that by (simp add: ac_simps)
    then have "grants s' 0 (K + c)" using o by blast
    then show ?thesis using client_step_owns [OF run_step.hyps(2)] o by blast
  qed
  then show ?case using client_step_owns [OF run_step.hyps(2)] o by blast
qed simp

lemma owns_no_abort:
  assumes "owns s W" and g: "grants s 0 10805248"
  shows "b + 8 \<le> 2 ^ 47 \<Longrightarrow> malloc s b \<noteq> None" "(p, c) \<in> W \<Longrightarrow> mgr_free s (meta_serial (user s p), p + 8) \<noteq> None"
proof -
  obtain V where V: "alloc_inv s V" "\<And>p b. (p, b) \<in> W \<Longrightarrow> \<exists>n. b \<le> n \<and> (p, n) \<in> V"
    using assms(1) unfolding owns_def by blast
  show "malloc s b \<noteq> None" if "b + 8 \<le> 2 ^ 47"
  proof -
    have "(b + 8) mod 2 ^ 64 \<le> 2 ^ 47" using that by simp
    moreover have "grants s 0 (0 + 10805248)" using g by simp
    ultimately show ?thesis using malloc_ok [OF V(1), of b 0] by auto
  qed
  show "mgr_free s (meta_serial (user s p), p + 8) \<noteq> None" if pc: "(p, c) \<in> W"
  proof -
    obtain n where "(p, n) \<in> V" using V(2) pc by blast
    moreover have "grants s 0 (0 + 540672)" using grants_mono [OF g] by simp
    ultimately show ?thesis using free_ok [OF V(1) _ refl] by blast
  qed
qed

lemma on_create_grants:
  assumes "os_ok k" "ram \<le> 2 ^ 47" "willing k 0" "on_create (shm_mgr_new k) (Some ram) name = Some (0, s)"
    and "32768 + n + 2 ^ 20 \<le> ram - ram mod 8192"
  shows "created s" "grants s 0 n"
proof -
  have c: "created s" "mmap_size (blocks s 0) = ram - ram mod 8192" "os s = k"
    using on_create_ok [OF assms(1,2), of name] assms(4) by auto
  show "created s" by (rule c(1))
  show "grants s 0 n" using c assms(3,5) by (simp add: grants_def created_def mem_ok_def)
qed

section \<open>A concrete system\<close>

definition demo_os :: os where
  "demo_os = \<lparr>os_page_size = 4096,
     answer = (\<lambda>n c. case c of Mmap i l \<Rightarrow> Some (2 ^ 40 * (i + 1)) | Mmap_fixed i p l \<Rightarrow> Some p | _ \<Rightarrow> Some 0)\<rparr>"

lemma demo_os_ok: "os_ok demo_os" "willing demo_os 0"
proof -
  have "\<exists>n \<le> 13. os_page_size demo_os = 2 ^ n" by (rule exI [of _ 12]) (simp add: demo_os_def)
  then show "os_ok demo_os" by (auto simp: os_ok_def demo_os_def)
  show "willing demo_os 0" by (simp add: willing_def demo_os_def)
qed

lemma demo_block:
  assumes "os s = demo_os" and "8192 dvd mm"
  shows "\<exists>t. create_block s 0 33928 mm = Some (0, t)"
proof -
  have a: "and (33928 :: nat) 4095 = 1160" using and_pow2_mod [of 33928 12] by simp
  have rd: "round_up 33928 4096 = Some 36864" "round_up mm 8192 = Some mm"
    using a assms(2) by (simp_all add: round_up_def dvd_eq_mod_eq_0)
  have s: "os_page_size (os s) = 4096" "answer (os s) n (Shm_open i) = Some 0" "answer (os s) n (Ftruncate i l) = Some 0"
      "answer (os s) n (Mmap 0 l) = Some (2 ^ 40)" "answer (os s) n (Munmap q l) = Some 0" for n i l q
    by (simp_all add: assms(1) demo_os_def)
  show ?thesis
    using s rd by (simp add: create_block_def shm_object_create_def shm_object_map_def sys_def page_size_def)
qed

lemma demo_created:
  "\<exists>s. on_create (shm_mgr_new demo_os) (Some (2 ^ 36)) ''demo'' = Some (0, s) \<and> created s \<and> grants s 0 (2 ^ 30) \<and>
     os s = demo_os \<and> default_mmap_size s = 2 ^ 36"
proof -
  let ?d = "2 ^ 36 - 2 ^ 36 mod 8192 :: nat"
  let ?s0 = "(shm_mgr_new demo_os)\<lparr>serial_no := 3, default_mmap_size := ?d, basename := take 255 ''demo''\<rparr>"
  have le: "2 ^ 36 \<le> (2 ^ 47 :: nat)" by simp
  obtain r s t where r: "on_create (shm_mgr_new demo_os) (Some (2 ^ 36)) ''demo'' = Some (r, s)" "os s = demo_os"
      "default_mmap_size s = ?d" "create_block ?s0 0 33928 ?d = Some (r, t)"
    using on_create_ok [OF demo_os_ok(1) le, of "''demo''"] by blast
  have "r = 0" using demo_block [of ?s0 ?d] r(4) by (auto simp: shm_mgr_new_def)
  moreover have "32768 + 2 ^ 30 + 2 ^ 20 \<le> ?d" "?d = 2 ^ 36" by simp_all
  ultimately show ?thesis using r(1-3) on_create_grants [OF demo_os_ok(1) le demo_os_ok(2)] by fastforce
qed

text \<open>On this system a request that is larger than every size class is met by growing the heap.\<close>

lemma demo_userdata:
  assumes "created s" "os s = demo_os" "default_mmap_size s = 2 ^ 36"
  shows "\<exists>a n s'. allocate_userdata s 1048576 = Some ((a, n), s') \<and> addr_ok a"
proof -
  let ?t = "s\<lparr>mgr_stat := (mgr_stat s)\<lparr>userdata_alloc_count := userdata_alloc_count (mgr_stat s) + 1\<rparr>\<rparr>"
  let ?g = "if USERDATA_GROW_SIZE < 1048576 then 1048576 else USERDATA_GROW_SIZE"
  have al: "page_align 1048576 = Some 1048576" by (simp add: page_align_eq pages_bytes_def)
  have rd: "round_up ?g 4096 = Some ?g" "round_up (2 ^ 36) 8192 = Some (2 ^ 36)"
    by (simp_all add: round_up_def USERDATA_GROW_SIZE_def)
  have k: "os_page_size (os ?t) = 4096" "answer (os ?t) n (Shm_open i) = Some 0" "answer (os ?t) n (Ftruncate i l) = Some 0"
      "answer (os ?t) n (Mmap 1 l) = Some (2 ^ 41)" "answer (os ?t) n (Munmap q l) = Some 0" for n i l q
    by (simp_all add: assms(2) demo_os_def)
  obtain t' where c: "create_block ?t 1 ?g (2 ^ 36) = Some (0, t')" "block_addr (blocks t' 1) = 2 ^ 41"
      "used_size (blocks t' 1) = 0" "real_size (blocks t' 1) = ?g"
    using k rd by (simp add: create_block_def shm_object_create_def shm_object_map_def sys_def page_size_def)
  have z: "block_addr (blocks ?t 1) = 0" using assms(1) by (simp add: created_def)
  show ?thesis
    using al c z assms(3)
    by (simp add: allocate_userdata_def sbrk_def block_defs grow_size_def make_addr_eq USERDATA_GROW_SIZE_def)
qed

lemma grow_heap_grown:
  assumes "grow_heap s n = Some (b, s')" "n \<le> 128" "allocate_userdata s 1048576 = Some ((a, m), t)" "addr_ok a"
  shows b
proof -
  have "grow_userdata s n = Some ((a, m, 128), t)"
    using assms(2-4) by (auto simp: grow_userdata_def HEAP_GROW_PAGE_COUNT_def MAX_PAGES_def page_size_def)
  then show ?thesis
    using assms(1,2,4) by (auto simp: grow_heap_def MAX_PAGE_COUNT_def Let_def split: Option.bind_splits if_splits)
qed

lemma demo_span:
  assumes "created s" "os s = demo_os" "default_mmap_size s = 2 ^ 36" "grants s 0 (K + 2154496)"
  shows "\<exists>sp t C S L M A. allocate_span s 37 = Some (sp, t) \<and> addr_ok sp \<and> grants t 0 K \<and>
    allocated 37 sp s (\<lambda>_. span_default) (\<lambda>_. []) (\<lambda>_. nulladdr) {} t C S L M A"
proof -
  have n: "0 < (37 :: nat)" "37 \<le> (2 ^ 34 :: nat)" by simp_all
  obtain a n t' where u: "allocate_userdata s 1048576 = Some ((a, n), t')" "addr_ok a" using demo_userdata [OF assms(1-3)] by blast
  have "\<not> grow_heap s 37 = Some (False, t)" for t using grow_heap_grown [OF _ _ u, of 37 False t] by auto
  then show ?thesis using allocate_span_full [OF created_ok [OF assms(1)] n assms(4)] by blast
qed

lemma demo_malloc:
  assumes "created s" "grants s 0 (2 ^ 30)" "os s = demo_os" "default_mmap_size s = 2 ^ 36"
  shows "\<exists>s' p n. malloc s 300000 = Some ((serial_no s, p + 8), s') \<and> grants s' 0 (2 ^ 29) \<and> 300008 \<le> n \<and>
    alloc_inv s' {(p, n)} \<and> meta_serial (user s' p) = serial_no s"
proof -
  let ?s0 = "s\<lparr>mgr_stat := (mgr_stat s)\<lparr>alloc_count := alloc_count (mgr_stat s) + 1\<rparr>\<rparr>"
  have "mem_ok s" using assms(1) by (simp add: created_def)
  then have "mem_ok ?s0" by (simp add: mem_ok_def default_ok_def)
  then have c0: "created ?s0" using assms(1) by (simp add: created_def)
  have g0: "grants ?s0 0 (0 + 2154496)" using assms(2) by (simp add: grants_def)
  obtain sp t where sp: "allocate_span ?s0 37 = Some (sp, t)" "addr_ok sp"
    using demo_span [OF c0 _ _ g0] assms(3,4) by auto
  have big: "size2class (sizes s) 300008 = None" by (simp add: size2class_index_of MAX_SIZE_def)
  have base: "malloc_base ?s0 300008 = do { x \<leftarrow> as_span t sp; a \<leftarrow> make_addr 2 (start_page x * page_size); Some (a, t) }"
    using sp big by (simp add: malloc_base_def page_size_def)
  have g: "grants s 0 (2 ^ 29 + 10805248)" using grants_mono [OF assms(2)] by simp
  have b: "(300000 + 8) mod 2 ^ 64 \<le> (2 ^ 47 :: nat)" by simp
  obtain r s' where r: "malloc s 300000 = Some (r, s')" "grants s' 0 (2 ^ 29)"
      "if addr_ok r then \<exists>p n. r = (serial_no s, p + 8) \<and> (300000 + 8) mod 2 ^ 64 \<le> n \<and> 8 \<le> n \<and>
       ((300000 + 8) mod 2 ^ 64 = (0 :: nat) \<longrightarrow> n = 8) \<and> (p, n) \<notin> {} \<and> alloc_inv s' (insert (p, n) {}) \<and>
       meta_serial (user s' p) = serial_no s else r = nulladdr \<and> alloc_inv s' {}"
    using malloc_ok [OF created_inv [OF assms(1)] b g] by blast
  have "r \<noteq> nulladdr"
    using r(1) base by (auto simp: malloc_def shm_meta_size_def make_addr_def sk_assert_def nulladdr_def Let_def split: Option.bind_splits if_splits)
  then show ?thesis using r by (auto split: if_splits)
qed

section \<open>Properties\<close>

text \<open>
  C1: however long a client of a freshly created manager allocates regions of at most \<open>2 ^ 47 - 8\<close> bytes, frees what it owns and writes behind the tags of what it owns, allocating and
  freeing only while the metadata block has room (\<open>metadata_room\<close>), the regions it owns never overlap; and while there is room, neither a further allocation nor freeing any of its regions can fail an
  assertion of the allocator. There is room after allocations and releases that may take \<open>n\<close> bytes of metadata, 10805248 for an allocation and 540672 for a release, when the mapping of the manager
  is large enough for that.
\<close>

theorem allocator_client_safety:
  assumes "os_ok k" and "willing k 0" and "ram \<le> 2 ^ 47"
    and "on_create (shm_mgr_new k) (Some ram) name = Some (0, s)"
    and "client_run n s {} s' W"
  shows "disjoint_regions W \<and>
    (metadata_room s' \<longrightarrow> (\<forall>b. b + 8 \<le> 2 ^ 47 \<longrightarrow> malloc s' b \<noteq> None) \<and> (\<forall>p b. (p, b) \<in> W \<longrightarrow> mgr_free s' (meta_serial (user s' p), p + 8) \<noteq> None)) \<and>
    (32768 + (n + 10805248) + 2 ^ 20 \<le> ram - ram mod 8192 \<longrightarrow> metadata_room s')"
proof -
  have c: "created s" using on_create_ok [OF assms(1,3), of name] assms(4) by auto
  have "owns s {}" using created_inv [OF c(1)] unfolding owns_def by auto
  then have o: "owns s' W" "\<And>K. grants s 0 (K + n) \<Longrightarrow> grants s' 0 K" using client_run_owns [OF assms(5)] by blast+
  have "metadata_room s'" if "32768 + (n + 10805248) + 2 ^ 20 \<le> ram - ram mod 8192"
    using on_create_grants(2) [OF assms(1,3,2,4) that] o(2) [of 10805248] by (simp add: metadata_room_def add.commute)
  then show ?thesis using o(1) owns_disjoint owns_no_abort unfolding metadata_room_def by blast
qed

theorem allocator_client_safety_witness:
  "\<exists>s s' W. on_create (shm_mgr_new demo_os) (Some (2 ^ 36)) ''demo'' = Some (0, s) \<and> client_run 10805248 s {} s' W \<and>
     disjoint_regions W \<and> W \<noteq> {} \<and> malloc s' 1000 \<noteq> None"
proof -
  obtain s where s: "on_create (shm_mgr_new demo_os) (Some (2 ^ 36)) ''demo'' = Some (0, s)" "created s" "grants s 0 (2 ^ 30)" "os s = demo_os" "default_mmap_size s = 2 ^ 36"
    using demo_created by blast
  have m: "metadata_room s" using grants_mono [OF s(3)] by (simp add: metadata_room_def)
  obtain s' p where r: "malloc s 300000 = Some ((serial_no s, p + 8), s')" using demo_malloc [OF s(2-5)] by blast
  have "serial_no s = 3" using s(2) by (simp add: created_def)
  then have "client_step 10805248 s {} s' (insert (p, 300008) {})" using client_step.step_malloc [OF r _ _ m, of "{}"] by (simp add: addr_ok_def)
  from client_run.run_step [OF client_run.run_nil this] have run: "client_run 10805248 s {} s' {(p, 300008)}" by simp
  have le: "2 ^ 36 \<le> (2 ^ 47 :: nat)" "32768 + (10805248 + 10805248) + 2 ^ 20 \<le> (2 ^ 36 - 2 ^ 36 mod 8192 :: nat)" by simp_all
  have "disjoint_regions {(p, 300008)} \<and> malloc s' 1000 \<noteq> None"
    using allocator_client_safety [OF demo_os_ok le(1) s(1) run] le(2) by simp
  then show ?thesis using s(1) run by blast
qed

text \<open>
  C2: \<^verbatim>\<open>malloc\<close> refines the abstract allocator: it returns null and changes no region, or it adds one
  region that was not in use and is large enough, with the serial number the manager had; the
  contents of all other regions stay.
\<close>

theorem malloc_refines:
  assumes "alloc_inv s V" and "bytes + 8 \<le> 2 ^ 47" and "grants s 0 (K + 10805248)"
  shows "\<exists>r s'. malloc s bytes = Some (r, s') \<and> grants s' 0 K \<and> ukeep V s s' \<and>
    (r = nulladdr \<and> alloc_inv s' V \<or>
     (\<exists>p n. r = (serial_no s, p + 8) \<and> bytes + 8 \<le> n \<and> (p, n) \<notin> V \<and> alloc_inv s' (insert (p, n) V)))"
proof -
  have m: "(bytes + 8) mod 2 ^ 64 = bytes + 8" using assms(2) by simp
  have "(bytes + 8) mod 2 ^ 64 \<le> 2 ^ 47" using assms(2) m by simp
  from malloc_ok [OF assms(1) this assms(3)] obtain r s' where r: "malloc s bytes = Some (r, s')" "grants s' 0 K" "ukeep V s s'"
      "if addr_ok r then \<exists>p n. r = (serial_no s, p + 8) \<and> bytes + 8 \<le> n \<and> 8 \<le> n \<and>
       (bytes + 8 = 0 \<longrightarrow> n = 8) \<and> (p, n) \<notin> V \<and> alloc_inv s' (insert (p, n) V) \<and> meta_serial (user s' p) = serial_no s
     else r = nulladdr \<and> alloc_inv s' V"
    unfolding m by blast
  show ?thesis
  proof (cases "addr_ok r")
    case True then show ?thesis using r by (intro exI [of _ r] exI [of _ s']) (simp, blast)
  next
    case False then show ?thesis using r by (intro exI [of _ r] exI [of _ s']) simp
  qed
qed

theorem malloc_refines_witness:
  "\<exists>s p n s'. on_create (shm_mgr_new demo_os) (Some (2 ^ 36)) ''demo'' = Some (0, s) \<and> alloc_inv s {} \<and>
     malloc s 300000 = Some ((serial_no s, p + 8), s') \<and> 300008 \<le> n \<and> alloc_inv s' {(p, n)}"
proof -
  obtain s where s: "on_create (shm_mgr_new demo_os) (Some (2 ^ 36)) ''demo'' = Some (0, s)" "created s" "grants s 0 (2 ^ 30)"
      "os s = demo_os" "default_mmap_size s = 2 ^ 36"
    using demo_created by blast
  have "grants s 0 (0 + 10805248)" using grants_mono [OF s(3)] by simp
  note m = malloc_refines [OF created_inv [OF s(2)] _ this, of 300000]
  obtain q s' where "malloc s 300000 = Some ((serial_no s, q + 8), s')" using demo_malloc [OF s(2-5)] by blast
  moreover have "serial_no s = 3" using s(2) by (simp add: created_def)
  ultimately have "\<exists>p n. (serial_no s, q + 8) = (serial_no s, p + 8) \<and> 300008 \<le> n \<and> alloc_inv s' {(p, n)}"
    using m by (auto simp: nulladdr_def)
  then show ?thesis using s(1) created_inv [OF s(2)] \<open>malloc s 300000 = _\<close> by auto
qed

text \<open>
  \<^verbatim>\<open>malloc\<close> adds the size of the tag modulo $2^{64}$: a request of $2^{64} - 8$ bytes that does
  not return null hands out a region of 8 bytes, all of it taken by the tag.
\<close>

theorem malloc_size_wraps:
  assumes "alloc_inv s V" and "grants s 0 (K + 10805248)"
  shows "\<exists>r s'. malloc s (2 ^ 64 - 8) = Some (r, s') \<and>
    (addr_ok r \<longrightarrow> (\<exists>p. r = (serial_no s, p + 8) \<and> (p, 8) \<notin> V \<and> alloc_inv s' (insert (p, 8) V)))"
proof -
  have m: "(2 ^ 64 - 8 + 8) mod 2 ^ 64 = (0 :: nat)" by simp
  have "(2 ^ 64 - 8 + 8) mod 2 ^ 64 \<le> (2 ^ 47 :: nat)" by simp
  from malloc_ok [OF assms(1) this assms(2)] obtain r s' where r: "malloc s (2 ^ 64 - 8) = Some (r, s')"
      "addr_ok r \<Longrightarrow> \<exists>p n. r = (serial_no s, p + 8) \<and> n = 8 \<and> (p, n) \<notin> V \<and> alloc_inv s' (insert (p, n) V)"
    unfolding m by (metis (mono_tags, lifting))
  then show ?thesis by blast
qed

theorem malloc_size_wraps_witness:
  "\<exists>s r s'. on_create (shm_mgr_new demo_os) (Some (2 ^ 36)) ''demo'' = Some (0, s) \<and>
     malloc s (2 ^ 64 - 8) = Some (r, s') \<and> (addr_ok r \<longrightarrow> (\<exists>p. r = (3, p + 8) \<and> alloc_inv s' {(p, 8)}))"
proof -
  obtain s where s: "on_create (shm_mgr_new demo_os) (Some (2 ^ 36)) ''demo'' = Some (0, s)" "created s" "grants s 0 (2 ^ 30)"
    using demo_created by blast
  have "grants s 0 (0 + 10805248)" using grants_mono [OF s(3)] by simp
  note w = malloc_size_wraps [OF created_inv [OF s(2)] this]
  have "serial_no s = 3" using s(2) by (simp add: created_def)
  with w s(1) show ?thesis by metis
qed

text \<open>
  C3: freeing the pointer of a region in use removes exactly this region and keeps the contents of
  the others; afterwards the pointer resolves to null and freeing it again only counts the call.
\<close>

theorem free_refines:
  assumes "alloc_inv s V" and "(p, n) \<in> V" and "8 < n" and "grants s 0 (K + 540672)"
  shows "\<exists>s'. mgr_free s (meta_serial (user s p), p + 8) = Some s' \<and> alloc_inv s' (V - {(p, n)}) \<and>
    ukeep (V - {(p, n)}) s s' \<and> grants s' 0 K \<and> addr2ptr s' (meta_serial (user s p), p + 8) = Some 0 \<and>
    mgr_free s' (meta_serial (user s p), p + 8) =
      Some (s'\<lparr>mgr_stat := (mgr_stat s')\<lparr>free_count := free_count (mgr_stat s') + 1\<rparr>\<rparr>)"
proof -
  let ?k = "meta_serial (user s p)"
  obtain s' where s': "mgr_free s (?k, p + 8) = Some s'" "alloc_inv s' (V - {(p, n)})" "ukeep (V - {(p, n)}) s s'"
      "grants s' 0 K" "meta_magic (user s' p) \<noteq> SK_MAGIC" "cframe s s'"
    using free_ok [OF assms(1,2) refl assms(4)] by blast
  have k: "3 \<le> ?k" using assms(1,2) unfolding alloc_inv_def tagged_def by blast
  have u: "p + n \<le> used1 s" "user_ok s p" using alloc_inv_pos [OF assms(1,2)] by blast+
  have u': "user_ok s' p" "p + 8 < used1 s'" using u s'(6) assms(3) by (auto simp: user_ok_def cframe_def)
  have "used1 s' \<le> 2 ^ 47"
    using s'(2) viewD(1) unfolding alloc_inv_def mgr_inv_def page_heap_ok_def heap_inv_def mem_ok_def block_ok_def view_def by fastforce
  then have "mgr_free s' (?k, p + 8) = Some (s'\<lparr>mgr_stat := (mgr_stat s')\<lparr>free_count := free_count (mgr_stat s') + 1\<rparr>\<rparr>)"
    using free_stale [OF u'(1) _ k] s'(5) by blast
  moreover have "addr2ptr s' (?k, p + 8) = Some 0"
    using k u'(2) s'(5) by (simp add: addr2ptr_def shm_meta_size_def block_defs)
  ultimately show ?thesis using s' by blast
qed

theorem free_refines_witness:
  "\<exists>s r t s'. on_create (shm_mgr_new demo_os) (Some (2 ^ 36)) ''demo'' = Some (0, s) \<and>
     malloc s 300000 = Some (r, t) \<and> addr_ok r \<and> mgr_free t r = Some s' \<and> alloc_inv s' {} \<and> addr2ptr s' r = Some 0"
proof -
  obtain s where s: "on_create (shm_mgr_new demo_os) (Some (2 ^ 36)) ''demo'' = Some (0, s)" "created s" "grants s 0 (2 ^ 30)"
      "os s = demo_os" "default_mmap_size s = 2 ^ 36"
    using demo_created by blast
  obtain t p n where t: "malloc s 300000 = Some ((serial_no s, p + 8), t)" "grants t 0 (2 ^ 29)" "300008 \<le> n"
      "alloc_inv t {(p, n)}" "meta_serial (user t p) = serial_no s"
    using demo_malloc [OF s(2-5)] by blast
  have "grants t 0 (0 + 540672)" using grants_mono [OF t(2)] by simp
  then obtain s' where "mgr_free t (serial_no s, p + 8) = Some s'" "alloc_inv s' {}" "addr2ptr s' (serial_no s, p + 8) = Some 0"
    using free_refines [OF t(4), of p n 0] t(3,5) by auto
  moreover have "addr_ok (serial_no s, p + 8)" using s(2) by (simp add: created_def)
  ultimately show ?thesis using s(1) t(1) by blast
qed

text \<open>
  C5: on a well-formed page heap \<^verbatim>\<open>allocate_span\<close> never fails an assertion. It hands out a span of
  exactly \<open>n\<close> pages that was not in use, cut from a smallest free span that is large enough when
  there is one and from newly mapped pages otherwise; it returns null only when no free span is large
  enough and the heap cannot grow. The heap stays well formed and every other span in use stays as it is.
\<close>

theorem allocate_span_refines:
  assumes "page_heap_ok s C S L M A" and "0 < n" and "n \<le> 2 ^ 34" and "grants s 0 (K + 2154496)"
  shows "\<exists>sp s' C' S' L' M' A'. allocate_span s n = Some (sp, s') \<and> page_heap_ok s' C' S' L' M' A' \<and> grants s' 0 K \<and>
    hframe sp C L M A C' L' M' A' \<and>
    (if addr_ok sp
     then sp \<in> A' \<and> in_use (C' sp) \<and> page_count (C' sp) = n \<and> \<not> (sp \<in> A \<and> in_use (C sp)) \<and>
       (best_fit C A n sp \<or> (\<forall>a \<in> A. \<not> in_use (C a) \<longrightarrow> page_count (C a) < n))
     else C' = C \<and> A' = A \<and> (\<forall>a \<in> A. \<not> in_use (C a) \<longrightarrow> page_count (C a) < n) \<and>
       (\<exists>t. grow_heap s n = Some (False, t)))"
proof -
  obtain sp s' C' S' L' M' A' where r: "allocate_span s n = Some (sp, s')" "allocated n sp s C L M A s' C' S' L' M' A'"
      "grants s' 0 K" "addr_ok sp \<or> (\<exists>t. grow_heap s n = Some (False, t))"
    using allocate_span_full [OF assms] by blast
  note al = r(2) [unfolded allocated_def fresh_span_def]
  show ?thesis
    by (intro exI [of _ sp] exI [of _ s'] exI [of _ C'] exI [of _ S'] exI [of _ L'] exI [of _ M'] exI [of _ A'] conjI)
      (use r(1,3,4) al in \<open>auto simp: addr_ok_def split: if_splits\<close>)
qed

theorem allocate_span_refines_witness:
  "\<exists>s sp s'. on_create (shm_mgr_new demo_os) (Some (2 ^ 36)) ''demo'' = Some (0, s) \<and>
     allocate_span s 37 = Some (sp, s') \<and> addr_ok sp \<and>
     (\<exists>C S L M A. page_heap_ok s' C S L M A \<and> sp \<in> A \<and> page_count (C sp) = 37)"
proof -
  obtain s where s: "on_create (shm_mgr_new demo_os) (Some (2 ^ 36)) ''demo'' = Some (0, s)" "created s" "grants s 0 (2 ^ 30)"
      "os s = demo_os" "default_mmap_size s = 2 ^ 36"
    using demo_created by blast
  have g: "grants s 0 (0 + 2154496)" using grants_mono [OF s(3)] by simp
  have n: "0 < (37 :: nat)" "37 \<le> (2 ^ 34 :: nat)" by simp_all
  obtain sp t where t: "allocate_span s 37 = Some (sp, t)" "addr_ok sp" using demo_span [OF s(2,4,5) g] by blast
  obtain sp' s' C S L M A where r: "allocate_span s 37 = Some (sp', s')" "page_heap_ok s' C S L M A"
      "if addr_ok sp' then sp' \<in> A \<and> in_use (C sp') \<and> page_count (C sp') = 37 \<and> \<not> (sp' \<in> {} \<and> in_use span_default) \<and>
       (best_fit (\<lambda>_. span_default) {} 37 sp' \<or> (\<forall>a \<in> {} :: addr set. \<not> in_use span_default \<longrightarrow> page_count span_default < 37))
     else C = (\<lambda>_. span_default) \<and> A = {} \<and> (\<forall>a \<in> {} :: addr set. \<not> in_use span_default \<longrightarrow> page_count span_default < 37) \<and>
       (\<exists>t. grow_heap s 37 = Some (False, t))"
    using allocate_span_refines [OF created_ok [OF s(2)] n g] by blast
  have "sp' = sp" "s' = t" using r(1) t(1) by simp_all
  moreover have "sp' \<in> A" "page_count (C sp') = 37" using r(3) t(2) calculation by simp_all
  ultimately show ?thesis using s(1) t r(2) by blast
qed

text \<open>
  C6: \<^verbatim>\<open>deallocate_span\<close> of a span in use never fails an assertion. The span becomes free and is
  merged with its free neighbours: afterwards the spans still tile the pages of the heap, every free span
  is on the list of its page count, no two free spans are adjacent, and the other spans in use are untouched.
\<close>

theorem deallocate_span_coalesces:
  assumes "page_heap_ok s C S L M A" and "sp \<in> A" and "in_use (C sp)" and "payload (C sp) = payload span_default"
    and "\<And>c. c < 87 \<Longrightarrow> sp \<notin> set (L (cl_head c))" and "grants s 0 (K + 540672)"
  shows "\<exists>s' C' S' L' M' A'. deallocate_span s sp = Some s' \<and> page_heap_ok s' C' S' L' M' A' \<and> grants s' 0 K \<and>
    sp \<in> A' \<and> \<not> in_use (C' sp) \<and> page_count (C sp) \<le> page_count (C' sp) \<and> hframe sp C L M A C' L' M' A' \<and>
    tiling (lo C') (hi C') A' (pages s') \<and> lists_ok C' A' L' \<and>
    (\<forall>a \<in> A'. \<forall>b \<in> A'. hi C' a = lo C' b \<longrightarrow> in_use (C' a) \<or> in_use (C' b))"
proof -
  obtain s' C' S' L' M' A' where r: "deallocate_span s sp = Some s'" "page_heap_ok s' C' S' L' M' A'"
      "hframe sp C L M A C' L' M' A'" "sp \<in> A'" "\<not> in_use (C' sp)" "grants s' 0 K" "page_count (C sp) \<le> page_count (C' sp)"
    using page_heap_dealloc [OF assms] by blast
  note d = heap_invD [OF page_heap_okD(1) [OF r(2)]]
  have "lists_ok C' A' L'" using d(6) by simp
  moreover have "\<forall>a \<in> A'. \<forall>b \<in> A'. hi C' a = lo C' b \<longrightarrow> in_use (C' a) \<or> in_use (C' b)" using d(10) by blast
  ultimately show ?thesis using r d(5) by blast
qed

theorem deallocate_span_coalesces_witness:
  "\<exists>s sp t s'. on_create (shm_mgr_new demo_os) (Some (2 ^ 36)) ''demo'' = Some (0, s) \<and>
     allocate_span s 37 = Some (sp, t) \<and> addr_ok sp \<and> deallocate_span t sp = Some s'"
proof -
  obtain s where s: "on_create (shm_mgr_new demo_os) (Some (2 ^ 36)) ''demo'' = Some (0, s)" "created s" "grants s 0 (2 ^ 30)"
      "os s = demo_os" "default_mmap_size s = 2 ^ 36"
    using demo_created by blast
  have g: "grants s 0 (540672 + 2154496)" using grants_mono [OF s(3)] by simp
  obtain sp t C S L M A where t: "allocate_span s 37 = Some (sp, t)" "addr_ok sp" "grants t 0 540672"
      "allocated 37 sp s (\<lambda>_. span_default) (\<lambda>_. []) (\<lambda>_. nulladdr) {} t C S L M A"
    using demo_span [OF s(2,4,5) g] by blast
  have a: "page_heap_ok t C S L M A" "sp \<in> A" "in_use (C sp)" "payload (C sp) = payload span_default"
      "sp \<notin> set (L (cl_head c))" for c
    using t(2,4) by (auto simp: allocated_def fresh_span_def hframe_def)
  have "grants t 0 (0 + 540672)" using t(3) by simp
  then show ?thesis using deallocate_span_coalesces [OF a(1-5)] s(1) t(1,2) by blast
qed

text \<open>
  After \<^verbatim>\<open>register_span\<close> of a span in use, \<^verbatim>\<open>find_span\<close> leads from every address in
  one of its pages to the span, and the page heap is otherwise unchanged.
\<close>

theorem register_find_span:
  assumes "page_heap_ok s C S L M A" and "sp \<in> A" and "in_use (C sp)"
    and "grants s 0 (K + page_count (C sp) * 270336)"
  shows "\<exists>s' M'. register_span s sp = Some s' \<and> page_heap_ok s' C S L M' A \<and> grants s' 0 K \<and>
    (\<forall>k p. start_page (C sp) * 8192 \<le> p \<longrightarrow> p < (start_page (C sp) + page_count (C sp)) * 8192 \<longrightarrow> find_span s' (k, p) = Some sp)"
proof -
  obtain s' M' where r: "register_span s sp = Some s'" "page_heap_ok s' C S L M' A" "registered C M' sp" "grants s' 0 K"
    using register_span_ok [OF assms] by blast
  have "find_span s' (k, p) = Some sp"
    if h: "start_page (C sp) * 8192 \<le> p" "p < (start_page (C sp) + page_count (C sp)) * 8192" for k p
  proof -
    have "start_page (C sp) \<le> p div 8192" "p div 8192 < start_page (C sp) + page_count (C sp)"
      using h by (simp_all add: less_mult_imp_div_less less_eq_div_iff_mult_less_eq)
    then show ?thesis using find_span_ok [OF r(2) assms(2) r(3), of "(k, p)"] by simp
  qed
  then show ?thesis using r by blast
qed

theorem register_find_span_witness:
  "\<exists>s sp t s' (C :: addr \<Rightarrow> span). on_create (shm_mgr_new demo_os) (Some (2 ^ 36)) ''demo'' = Some (0, s) \<and>
     allocate_span s 37 = Some (sp, t) \<and> register_span t sp = Some s' \<and> page_count (C sp) = 37 \<and>
     find_span s' (2, start_page (C sp) * 8192 + 5000) = Some sp"
proof -
  obtain s where s: "on_create (shm_mgr_new demo_os) (Some (2 ^ 36)) ''demo'' = Some (0, s)" "created s" "grants s 0 (2 ^ 30)"
      "os s = demo_os" "default_mmap_size s = 2 ^ 36"
    using demo_created by blast
  have g: "grants s 0 (10002432 + 2154496)" using grants_mono [OF s(3)] by simp
  obtain sp t C S L M A where t: "allocate_span s 37 = Some (sp, t)" "addr_ok sp" "grants t 0 10002432"
      "allocated 37 sp s (\<lambda>_. span_default) (\<lambda>_. []) (\<lambda>_. nulladdr) {} t C S L M A"
    using demo_span [OF s(2,4,5) g] by blast
  have a: "page_heap_ok t C S L M A" "sp \<in> A" "in_use (C sp)" "page_count (C sp) = 37"
    using t(2,4) by (auto simp: allocated_def fresh_span_def)
  have g2: "grants t 0 (0 + page_count (C sp) * 270336)" using t(3) a(4) by simp
  let ?p = "start_page (C sp) * 8192 + 5000"
  have p: "start_page (C sp) * 8192 \<le> ?p" "?p < (start_page (C sp) + page_count (C sp)) * 8192" using a(4) by simp_all
  obtain s' where "register_span t sp = Some s'" "find_span s' (2, ?p) = Some sp"
    using register_find_span [OF a(1-3) g2] p by blast
  then show ?thesis using s(1) t(1) a(4) by blast
qed

end
