(* ===== verification/Murmurhash3.thy ===== *)
theory Murmurhash3
  imports Prelude
begin

text \<open>
  \<^verbatim>\<open>src/src/common/murmurhash3.cpp\<close>: the three hash functions on byte strings. The key is the
  list of its bytes. The block count is a signed 32-bit integer; \<open>None\<close> stands for the
  undefined behaviour of a key so long that the count, or the offset computed from it,
  overflows.
\<close>

section \<open>Definitions\<close>

definition rotl32 :: "u32 \<Rightarrow> nat \<Rightarrow> u32" where
  "rotl32 x r = push_bit r x OR drop_bit (32 - r) x"

definition rotl64 :: "u64 \<Rightarrow> nat \<Rightarrow> u64" where
  "rotl64 x r = push_bit r x OR drop_bit (64 - r) x"

text \<open>The little-endian word in the first bytes of a list.\<close>

fun load_le :: "u8 list \<Rightarrow> 'a::len word" where
  "load_le [] = 0"
| "load_le (b # bs) = ucast b OR push_bit 8 (load_le bs)"

definition getblock32 :: "u8 list \<Rightarrow> nat \<Rightarrow> u32" where
  "getblock32 data i = load_le (take 4 (drop (4 * i) data))"

definition getblock64 :: "u8 list \<Rightarrow> nat \<Rightarrow> u64" where
  "getblock64 data i = load_le (take 8 (drop (8 * i) data))"

definition fmix32 :: "u32 \<Rightarrow> u32" where
  "fmix32 h = (let h = h XOR drop_bit 16 h; h = h * 0x85ebca6b; h = h XOR drop_bit 13 h;
     h = h * 0xc2b2ae35 in h XOR drop_bit 16 h)"

definition fmix64 :: "u64 \<Rightarrow> u64" where
  "fmix64 k = (let k = k XOR drop_bit 33 k; k = k * 0xff51afd7ed558ccd; k = k XOR drop_bit 33 k;
     k = k * 0xc4ceb9fe1a85ec53 in k XOR drop_bit 33 k)"

text \<open>\<^verbatim>\<open>const int nblocks = len / w\<close>, with the offset \<^verbatim>\<open>nblocks * w\<close> computed as \<^verbatim>\<open>int\<close>.\<close>

definition int_blocks :: "nat \<Rightarrow> nat \<Rightarrow> nat option" where
  "int_blocks len w =
     (let n = sint (word_of_nat (len div w) :: 32 word)
      in if 0 \<le> n \<and> n * int w < 2 ^ 31 then Some (nat n) else None)"

subsection \<open>\<^verbatim>\<open>murmurhash3_x86_32\<close>\<close>

definition mixk :: "u32 \<Rightarrow> nat \<Rightarrow> u32 \<Rightarrow> u32 \<Rightarrow> u32" where
  "mixk c r c' k = rotl32 (k * c) r * c'"

definition body32 :: "u8 list \<Rightarrow> u32 \<Rightarrow> nat \<Rightarrow> u32" where
  "body32 data h1 i =
     (let k1 = mixk 0xcc9e2d51 15 0x1b873593 (getblock32 data i)
      in rotl32 (h1 XOR k1) 13 * 5 + 0xe6546b64)"

definition tail32 :: "u8 list \<Rightarrow> nat \<Rightarrow> u32 \<Rightarrow> u32" where
  "tail32 tail rest h1 =
     (let k1 = 0;
          k1 = (if rest \<ge> 3 then k1 XOR push_bit 16 (ucast (tail ! 2)) else k1);
          k1 = (if rest \<ge> 2 then k1 XOR push_bit 8 (ucast (tail ! 1)) else k1)
      in if rest \<ge> 1 then h1 XOR mixk 0xcc9e2d51 15 0x1b873593 (k1 XOR ucast (tail ! 0)) else h1)"

definition murmurhash3_x86_32 :: "u8 list \<Rightarrow> u32 \<Rightarrow> u32 option" where
  "murmurhash3_x86_32 data seed = do {
     nblocks \<leftarrow> int_blocks (length data) 4;
     let h1 = fold (\<lambda>i h. body32 data h i) [0..<nblocks] seed;
     let h1 = tail32 (drop (nblocks * 4) data) (length data mod 4) h1;
     let h1 = h1 XOR word_of_nat (length data);
     Some (fmix32 h1)
   }"

subsection \<open>\<^verbatim>\<open>murmurhash3_x86_128\<close>\<close>

type_synonym quad = "u32 \<times> u32 \<times> u32 \<times> u32"

definition body128 :: "u8 list \<Rightarrow> quad \<Rightarrow> nat \<Rightarrow> quad" where
  "body128 data h i = (case h of (h1, h2, h3, h4) \<Rightarrow>
     let k1 = mixk 0x239b961b 15 0xab0e9789 (getblock32 data (4 * i));
         k2 = mixk 0xab0e9789 16 0x38b34ae5 (getblock32 data (4 * i + 1));
         k3 = mixk 0x38b34ae5 17 0xa1e38b93 (getblock32 data (4 * i + 2));
         k4 = mixk 0xa1e38b93 18 0x239b961b (getblock32 data (4 * i + 3));
         h1 = (rotl32 (h1 XOR k1) 19 + h2) * 5 + 0x561ccd1b;
         h2 = (rotl32 (h2 XOR k2) 17 + h3) * 5 + 0x0bcaa747;
         h3 = (rotl32 (h3 XOR k3) 15 + h4) * 5 + 0x96cd1c35;
         h4 = (rotl32 (h4 XOR k4) 13 + h1) * 5 + 0x32ac3b17
     in (h1, h2, h3, h4))"

text \<open>The fall-through cases of one word: byte \<open>j\<close> of the tail is used when \<open>j < rest\<close>.\<close>

definition tbyte :: "u8 list \<Rightarrow> nat \<Rightarrow> nat \<Rightarrow> nat \<Rightarrow> 'a::len word \<Rightarrow> 'a word" where
  "tbyte tail rest j s k = (if j < rest then k XOR push_bit s (ucast (tail ! j)) else k)"

definition tail128 :: "u8 list \<Rightarrow> nat \<Rightarrow> quad \<Rightarrow> quad" where
  "tail128 tail rest h = (case h of (h1, h2, h3, h4) \<Rightarrow>
     let k4 = tbyte tail rest 12 0 (tbyte tail rest 13 8 (tbyte tail rest 14 16 0));
         h4 = (if rest > 12 then h4 XOR mixk 0xa1e38b93 18 0x239b961b k4 else h4);
         k3 = tbyte tail rest 8 0 (tbyte tail rest 9 8 (tbyte tail rest 10 16 (tbyte tail rest 11 24 0)));
         h3 = (if rest > 8 then h3 XOR mixk 0x38b34ae5 17 0xa1e38b93 k3 else h3);
         k2 = tbyte tail rest 4 0 (tbyte tail rest 5 8 (tbyte tail rest 6 16 (tbyte tail rest 7 24 0)));
         h2 = (if rest > 4 then h2 XOR mixk 0xab0e9789 16 0x38b34ae5 k2 else h2);
         k1 = tbyte tail rest 0 0 (tbyte tail rest 1 8 (tbyte tail rest 2 16 (tbyte tail rest 3 24 0)));
         h1 = (if rest > 0 then h1 XOR mixk 0x239b961b 15 0xab0e9789 k1 else h1)
     in (h1, h2, h3, h4))"

definition mixh :: "quad \<Rightarrow> quad" where
  "mixh h = (case h of (h1, h2, h3, h4) \<Rightarrow>
     let h1 = h1 + h2; h1 = h1 + h3; h1 = h1 + h4 in (h1, h2 + h1, h3 + h1, h4 + h1))"

definition finish128 :: "nat \<Rightarrow> quad \<Rightarrow> quad" where
  "finish128 len h = (case h of (h1, h2, h3, h4) \<Rightarrow>
     let l = word_of_nat len;
         (h1, h2, h3, h4) = mixh (h1 XOR l, h2 XOR l, h3 XOR l, h4 XOR l)
     in mixh (fmix32 h1, fmix32 h2, fmix32 h3, fmix32 h4))"

definition murmurhash3_x86_128 :: "u8 list \<Rightarrow> u32 \<Rightarrow> quad option" where
  "murmurhash3_x86_128 data seed = do {
     nblocks \<leftarrow> int_blocks (length data) 16;
     let h = fold (\<lambda>i h. body128 data h i) [0..<nblocks] (seed, seed, seed, seed);
     let h = tail128 (drop (nblocks * 16) data) (length data mod 16) h;
     Some (finish128 (length data) h)
   }"

subsection \<open>\<^verbatim>\<open>murmurhash3_x64_128\<close>\<close>

definition mixk64 :: "u64 \<Rightarrow> nat \<Rightarrow> u64 \<Rightarrow> u64 \<Rightarrow> u64" where
  "mixk64 c r c' k = rotl64 (k * c) r * c'"

definition body64 :: "u8 list \<Rightarrow> u64 \<times> u64 \<Rightarrow> nat \<Rightarrow> u64 \<times> u64" where
  "body64 data h i = (case h of (h1, h2) \<Rightarrow>
     let k1 = mixk64 0x87c37b91114253d5 31 0x4cf5ad432745937f (getblock64 data (2 * i));
         k2 = mixk64 0x4cf5ad432745937f 33 0x87c37b91114253d5 (getblock64 data (2 * i + 1));
         h1 = (rotl64 (h1 XOR k1) 27 + h2) * 5 + 0x52dce729;
         h2 = (rotl64 (h2 XOR k2) 31 + h1) * 5 + 0x38495ab5
     in (h1, h2))"

definition tail64 :: "u8 list \<Rightarrow> nat \<Rightarrow> u64 \<times> u64 \<Rightarrow> u64 \<times> u64" where
  "tail64 tail rest h = (case h of (h1, h2) \<Rightarrow>
     let k2 = tbyte tail rest 8 0 (tbyte tail rest 9 8 (tbyte tail rest 10 16 (tbyte tail rest 11 24
           (tbyte tail rest 12 32 (tbyte tail rest 13 40 (tbyte tail rest 14 48 0))))));
         h2 = (if rest > 8 then h2 XOR mixk64 0x4cf5ad432745937f 33 0x87c37b91114253d5 k2 else h2);
         k1 = tbyte tail rest 0 0 (tbyte tail rest 1 8 (tbyte tail rest 2 16 (tbyte tail rest 3 24
           (tbyte tail rest 4 32 (tbyte tail rest 5 40 (tbyte tail rest 6 48 (tbyte tail rest 7 56 0)))))));
         h1 = (if rest > 0 then h1 XOR mixk64 0x87c37b91114253d5 31 0x4cf5ad432745937f k1 else h1)
     in (h1, h2))"

definition finish64 :: "nat \<Rightarrow> u64 \<times> u64 \<Rightarrow> u64 \<times> u64" where
  "finish64 len h = (case h of (h1, h2) \<Rightarrow>
     let l = word_of_nat len; h1 = h1 XOR l; h2 = h2 XOR l;
         h1 = h1 + h2; h2 = h2 + h1;
         h1 = fmix64 h1; h2 = fmix64 h2;
         h1 = h1 + h2
     in (h1, h2 + h1))"

definition murmurhash3_x64_128 :: "u8 list \<Rightarrow> u32 \<Rightarrow> (u64 \<times> u64) option" where
  "murmurhash3_x64_128 data seed = do {
     nblocks \<leftarrow> int_blocks (length data) 16;
     let h = fold (\<lambda>i h. body64 data h i) [0..<nblocks] (ucast seed, ucast seed);
     let h = tail64 (drop (nblocks * 16) data) (length data mod 16) h;
     Some (finish64 (length data) h)
   }"

section \<open>Bijective steps\<close>

lemma rotl32_back: "0 < r \<Longrightarrow> r < 32 \<Longrightarrow> rotl32 (rotl32 x r) (32 - r) = x"
  by (rule bit_word_eqI) (auto simp: rotl32_def bit_simps)

lemma rotl64_back: "0 < r \<Longrightarrow> r < 64 \<Longrightarrow> rotl64 (rotl64 x r) (64 - r) = x"
  by (rule bit_word_eqI) (auto simp: rotl64_def bit_simps)

lemma rotl32_inj: "rotl32 x r = rotl32 y r \<Longrightarrow> 0 < r \<Longrightarrow> r < 32 \<Longrightarrow> x = y"
  by (metis rotl32_back)

lemma rotl64_inj: "rotl64 x r = rotl64 y r \<Longrightarrow> 0 < r \<Longrightarrow> r < 64 \<Longrightarrow> x = y"
  by (metis rotl64_back)

lemma xorshift_inj:
  fixes x y :: "'a::len word"
  assumes "x XOR drop_bit n x = y XOR drop_bit n y" and "0 < n"
  shows "x = y"
proof (rule bit_word_eqI)
  fix i assume "i < LENGTH('a)"
  show "bit x i = bit y i"
  proof (induction "LENGTH('a) - i" arbitrary: i rule: less_induct)
    case less
    show ?case
    proof (cases "i < LENGTH('a)")
      case True
      have "bit x (n + i) = bit y (n + i)" using less [of "n + i"] assms(2) True by simp
      moreover have "bit (x XOR drop_bit n x) i = bit (y XOR drop_bit n y) i" using assms(1) by simp
      ultimately show ?thesis by (auto simp: bit_simps)
    qed (auto simp: impossible_bit)
  qed
qed

lemma mult_inj:
  fixes c d x y :: "'a::len word"
  assumes "x * c = y * c" and "c * d = 1"
  shows "x = y"
proof -
  have "x = x * c * d" using assms(2) by (simp add: mult.assoc)
  also have "\<dots> = y * c * d" by (simp only: assms(1))
  finally show ?thesis using assms(2) by (simp add: mult.assoc)
qed

lemma inv32:
  "(0x85ebca6b :: u32) * 0xa5cb9243 = 1" "(0xc2b2ae35 :: u32) * 0x7ed1b41d = 1"
  "(0xcc9e2d51 :: u32) * 0xdee13bb1 = 1" "(0x1b873593 :: u32) * 0x56ed309b = 1" "(5 :: u32) * 0xcccccccd = 1"
  by simp_all

lemma inv64: "(0xff51afd7ed558ccd :: u64) * 0x4f74430c22a54005 = 1" "(0xc4ceb9fe1a85ec53 :: u64) * 0x9cb4b2f8129337db = 1"
  by simp_all

lemma fmix32_inj:
  assumes "fmix32 x = fmix32 y"
  shows "x = y"
proof -
  let ?g = "\<lambda>x :: u32. (x XOR drop_bit 16 x) * 0x85ebca6b" and ?k = "\<lambda>x :: u32. (x XOR drop_bit 13 x) * 0xc2b2ae35"
  have "?k (?g x) = ?k (?g y)" by (rule xorshift_inj [of _ 16]) (use assms in \<open>simp_all add: fmix32_def Let_def\<close>)
  then have "?g x = ?g y" by (auto intro: xorshift_inj [of _ 13] dest: mult_inj [OF _ inv32(2)])
  then show ?thesis by (auto intro: xorshift_inj [of _ 16] dest: mult_inj [OF _ inv32(1)])
qed

lemma fmix64_inj:
  assumes "fmix64 x = fmix64 y"
  shows "x = y"
proof -
  let ?g = "\<lambda>x :: u64. (x XOR drop_bit 33 x) * 0xff51afd7ed558ccd" and ?k = "\<lambda>x :: u64. (x XOR drop_bit 33 x) * 0xc4ceb9fe1a85ec53"
  have "?k (?g x) = ?k (?g y)" by (rule xorshift_inj [of _ 33]) (use assms in \<open>simp_all add: fmix64_def Let_def\<close>)
  then have "?g x = ?g y" by (auto intro: xorshift_inj [of _ 33] dest: mult_inj [OF _ inv64(2)])
  then show ?thesis by (auto intro: xorshift_inj [of _ 33] dest: mult_inj [OF _ inv64(1)])
qed

section \<open>The reference definition\<close>

text \<open>A byte string cut into blocks of \<open>n\<close> bytes and a rest.\<close>

function chunks :: "nat \<Rightarrow> 'a list \<Rightarrow> 'a list list \<times> 'a list" where
  "chunks n xs =
     (if n = 0 \<or> length xs < n then ([], xs)
      else let (bs, r) = chunks n (drop n xs) in (take n xs # bs, r))"
  by pat_completeness auto
termination
  by (relation "measure (length \<circ> snd)") auto

declare chunks.simps [simp del]

lemma chunks_eq:
  "0 < n \<Longrightarrow> chunks n xs = (map (\<lambda>i. take n (drop (n * i) xs)) [0..<length xs div n], drop (n * (length xs div n)) xs)"
proof (induction n xs rule: chunks.induct)
  case (1 n xs)
  show ?case
  proof (cases "length xs < n")
    case True then show ?thesis by (simp add: chunks.simps)
  next
    case False
    then have d: "length xs div n = Suc ((length xs - n) div n)"
      using "1.prems" by (simp add: le_div_geq)
    have "map (\<lambda>i. take n (drop (n * i) xs)) [0..<Suc m] = take n xs # map (\<lambda>i. take n (drop (n * i) (drop n xs))) [0..<m]" for m
      by (simp add: map_upt_Suc add.commute del: upt_Suc)
    then show ?thesis using 1 False by (simp add: chunks.simps [of n xs] d add.commute)
  qed
qed

definition step32 :: "u32 \<Rightarrow> u8 list \<Rightarrow> u32" where
  "step32 h b = rotl32 (h XOR mixk 0xcc9e2d51 15 0x1b873593 (load_le b)) 13 * 5 + 0xe6546b64"

definition spec_x86_32 :: "u8 list \<Rightarrow> u32 \<Rightarrow> u32" where
  "spec_x86_32 data seed = (case chunks 4 data of (bs, r) \<Rightarrow>
     fmix32 (foldl step32 seed bs XOR mixk 0xcc9e2d51 15 0x1b873593 (load_le r) XOR word_of_nat (length data)))"

definition step128 :: "quad \<Rightarrow> u8 list \<Rightarrow> quad" where
  "step128 h b = (case h of (h1, h2, h3, h4) \<Rightarrow>
     let h1' = (rotl32 (h1 XOR mixk 0x239b961b 15 0xab0e9789 (load_le (take 4 b))) 19 + h2) * 5 + 0x561ccd1b
     in (h1', (rotl32 (h2 XOR mixk 0xab0e9789 16 0x38b34ae5 (load_le (take 4 (drop 4 b)))) 17 + h3) * 5 + 0x0bcaa747,
         (rotl32 (h3 XOR mixk 0x38b34ae5 17 0xa1e38b93 (load_le (take 4 (drop 8 b)))) 15 + h4) * 5 + 0x96cd1c35,
         (rotl32 (h4 XOR mixk 0xa1e38b93 18 0x239b961b (load_le (take 4 (drop 12 b)))) 13 + h1') * 5 + 0x32ac3b17))"

definition spec_x86_128 :: "u8 list \<Rightarrow> u32 \<Rightarrow> quad" where
  "spec_x86_128 data seed = (case chunks 16 data of (bs, r) \<Rightarrow>
     (case foldl step128 (seed, seed, seed, seed) bs of (h1, h2, h3, h4) \<Rightarrow>
        finish128 (length data)
         (h1 XOR mixk 0x239b961b 15 0xab0e9789 (load_le (take 4 r)),
          h2 XOR mixk 0xab0e9789 16 0x38b34ae5 (load_le (take 4 (drop 4 r))),
          h3 XOR mixk 0x38b34ae5 17 0xa1e38b93 (load_le (take 4 (drop 8 r))),
          h4 XOR mixk 0xa1e38b93 18 0x239b961b (load_le (take 4 (drop 12 r))))))"

definition step64 :: "u64 \<times> u64 \<Rightarrow> u8 list \<Rightarrow> u64 \<times> u64" where
  "step64 h b = (case h of (h1, h2) \<Rightarrow>
     let h1' = (rotl64 (h1 XOR mixk64 0x87c37b91114253d5 31 0x4cf5ad432745937f (load_le (take 8 b))) 27 + h2) * 5 + 0x52dce729
     in (h1', (rotl64 (h2 XOR mixk64 0x4cf5ad432745937f 33 0x87c37b91114253d5 (load_le (take 8 (drop 8 b)))) 31 + h1') * 5 + 0x38495ab5))"

definition spec_x64_128 :: "u8 list \<Rightarrow> u32 \<Rightarrow> u64 \<times> u64" where
  "spec_x64_128 data seed = (case chunks 16 data of (bs, r) \<Rightarrow>
     (case foldl step64 (ucast seed, ucast seed) bs of (h1, h2) \<Rightarrow>
        finish64 (length data)
         (h1 XOR mixk64 0x87c37b91114253d5 31 0x4cf5ad432745937f (load_le (take 8 r)),
          h2 XOR mixk64 0x4cf5ad432745937f 33 0x87c37b91114253d5 (load_le (take 8 (drop 8 r))))))"

lemma int_blocks_eq:
  assumes "len < 2 ^ 31" and "0 < w"
  shows "int_blocks len w = Some (len div w)"
proof -
  have l: "len div w \<le> len" by simp
  then have "len div w < 2 ^ 31" using assms(1) by linarith
  then have "sint (word_of_nat (len div w) :: 32 word) = int (len div w)"
    by (simp add: signed_of_nat signed_take_bit_int_eq_self)
  moreover have "int (len div w) * int w < 2 ^ 31"
  proof -
    have "len div w * w \<le> len" by simp
    then have "len div w * w < 2 ^ 31" using assms(1) by linarith
    then show ?thesis by (metis of_nat_less_iff of_nat_mult of_nat_numeral of_nat_power)
  qed
  ultimately show ?thesis by (simp add: int_blocks_def)
qed

lemma load_le_xor: "load_le (b # bs) = ucast b XOR push_bit 8 (load_le bs)"
  by (rule bit_word_eqI) (auto simp: bit_simps dest: bit_imp_le_length)

lemma mixk_0 [simp]: "mixk c r c' 0 = 0"
  by (simp add: mixk_def rotl32_def)

lemma mixk64_0 [simp]: "mixk64 c r c' 0 = 0"
  by (simp add: mixk64_def rotl64_def)

lemma tbyte_drop:
  "j \<le> length t \<Longrightarrow> tbyte t (length t) (j + i) = tbyte (drop j t) (length (drop j t)) i"
  by (auto simp: tbyte_def fun_eq_iff)

lemma load4: "length t \<le> 4 \<Longrightarrow>
  tbyte t (length t) 0 0 (tbyte t (length t) 1 8 (tbyte t (length t) 2 16 (tbyte t (length t) 3 24 0))) = load_le t"
  by (cases t; cases "tl t"; cases "tl (tl t)"; cases "tl (tl (tl t))")
    (auto simp: tbyte_def load_le_xor push_bit_xor ac_simps simp del: load_le.simps(2))

lemma load8: "length t \<le> 8 \<Longrightarrow>
  tbyte t (length t) 0 0 (tbyte t (length t) 1 8 (tbyte t (length t) 2 16 (tbyte t (length t) 3 24
    (tbyte t (length t) 4 32 (tbyte t (length t) 5 40 (tbyte t (length t) 6 48 (tbyte t (length t) 7 56 0))))))) = load_le t"
  by (cases t; cases "tl t"; cases "tl (tl t)"; cases "tl (tl (tl t))"; cases "tl (tl (tl (tl t)))";
      cases "tl (tl (tl (tl (tl t))))"; cases "tl (tl (tl (tl (tl (tl t)))))"; cases "tl (tl (tl (tl (tl (tl (tl t))))))")
    (auto simp: tbyte_def load_le_xor push_bit_xor ac_simps simp del: load_le.simps(2))

lemma tbyte_take:
  "i < n \<Longrightarrow> tbyte (take n t) (length (take n t)) i s k = tbyte t (length t) i s k"
  by (auto simp: tbyte_def)

lemma tbyte_beyond: "length t \<le> j \<Longrightarrow> tbyte t (length t) j s k = k"
  by (simp add: tbyte_def)

lemma load4_take:
  "tbyte t (length t) 0 0 (tbyte t (length t) 1 8 (tbyte t (length t) 2 16 (tbyte t (length t) 3 24 0))) = load_le (take 4 t)"
  using load4 [of "take 4 t"] by (simp only: tbyte_take) simp

lemma load8_take:
  "tbyte t (length t) 0 0 (tbyte t (length t) 1 8 (tbyte t (length t) 2 16 (tbyte t (length t) 3 24
    (tbyte t (length t) 4 32 (tbyte t (length t) 5 40 (tbyte t (length t) 6 48 (tbyte t (length t) 7 56 0))))))) = load_le (take 8 t)"
  using load8 [of "take 8 t"] by (simp only: tbyte_take) simp

lemma load4_at:
  assumes "j < length t"
  shows "tbyte t (length t) j 0 (tbyte t (length t) (j + 1) 8 (tbyte t (length t) (j + 2) 16 (tbyte t (length t) (j + 3) 24 (0 :: 'a::len word)))) =
    load_le (take 4 (drop j t))"
proof -
  note d = tbyte_drop [where 'a = 'a, OF less_imp_le [OF assms]]
  show ?thesis
    using d [of 0] d [of 1] d [of 2] d [of 3] load4_take [where 'a = 'a, of "drop j t"] by (simp only: add_0_right)
qed

lemma load8_at:
  assumes "j < length t"
  shows "tbyte t (length t) j 0 (tbyte t (length t) (j + 1) 8 (tbyte t (length t) (j + 2) 16 (tbyte t (length t) (j + 3) 24
      (tbyte t (length t) (j + 4) 32 (tbyte t (length t) (j + 5) 40 (tbyte t (length t) (j + 6) 48 (tbyte t (length t) (j + 7) 56 (0 :: 'a::len word)))))))) =
    load_le (take 8 (drop j t))"
proof -
  note d = tbyte_drop [where 'a = 'a, OF less_imp_le [OF assms]]
  show ?thesis
    using d [of 0] d [of 1] d [of 2] d [of 3] d [of 4] d [of 5] d [of 6] d [of 7] load8_take [where 'a = 'a, of "drop j t"]
    by (simp only: add_0_right)
qed

lemma tail32_eq:
  assumes "length t < 4"
  shows "tail32 t (length t) h = h XOR mixk 0xcc9e2d51 15 0x1b873593 (load_le t)"
proof -
  have "tail32 t (length t) h = (if length t \<ge> 1 then h XOR mixk 0xcc9e2d51 15 0x1b873593
     (tbyte t (length t) 0 0 (tbyte t (length t) 1 8 (tbyte t (length t) 2 16 (tbyte t (length t) 3 24 0)))) else h)"
    using assms by (auto simp: tail32_def tbyte_def)
  then show ?thesis using load4 [where 'a = 32, of t] assms by (cases t) auto
qed

lemma tail128_eq:
  assumes "length t < 16"
  shows "tail128 t (length t) (h1, h2, h3, h4) =
     (h1 XOR mixk 0x239b961b 15 0xab0e9789 (load_le (take 4 t)),
      h2 XOR mixk 0xab0e9789 16 0x38b34ae5 (load_le (take 4 (drop 4 t))),
      h3 XOR mixk 0x38b34ae5 17 0xa1e38b93 (load_le (take 4 (drop 8 t))),
      h4 XOR mixk 0xa1e38b93 18 0x239b961b (load_le (take 4 (drop 12 t))))"
  using load4_take [where 'a = 32, of t] load4_at [where 'a = 32, of 4 t] load4_at [where 'a = 32, of 8 t]
    load4_at [where 'a = 32, of 12 t] tbyte_beyond [of t 15 24 "0 :: u32"] assms
  by (auto simp: tail128_def)

lemma tail64_eq:
  assumes "length t < 16"
  shows "tail64 t (length t) (h1, h2) =
     (h1 XOR mixk64 0x87c37b91114253d5 31 0x4cf5ad432745937f (load_le (take 8 t)),
      h2 XOR mixk64 0x4cf5ad432745937f 33 0x87c37b91114253d5 (load_le (take 8 (drop 8 t))))"
  using load8_take [where 'a = 64, of t] load8_at [where 'a = 64, of 8 t] tbyte_beyond [of t 15 56 "0 :: u64"] assms
  by (auto simp: tail64_def)

lemma drop_rest: "length (drop (w * (length xs div w)) xs) = length xs mod w"
  by (simp add: minus_mult_div_eq_mod)

section \<open>Sensitivity to a changed block\<close>

lemma bit_load_le:
  "bit (load_le bs :: 'a::len word) i \<longleftrightarrow> i < LENGTH('a) \<and> i div 8 < length bs \<and> bit (bs ! (i div 8)) (i mod 8)"
proof (induction bs arbitrary: i)
  case (Cons b bs)
  show ?case
  proof (cases "i < 8")
    case True then show ?thesis by (auto simp: bit_simps)
  next
    case False
    then have "i div 8 = Suc ((i - 8) div 8)" "i mod 8 = (i - 8) mod 8" by (simp_all add: le_div_geq le_mod_geq)
    then show ?thesis using False Cons.IH [of "i - 8"] by (auto simp: bit_simps dest: bit_imp_le_length)
  qed
qed simp

lemma load_le_inj:
  assumes "load_le xs = (load_le ys :: 'a::len word)" and "length xs = length ys" and "8 * length xs \<le> LENGTH('a)"
  shows "xs = ys"
proof (rule nth_equalityI [OF assms(2)])
  fix j assume j: "j < length xs"
  show "xs ! j = ys ! j"
  proof (rule bit_word_eqI)
    fix n assume "n < LENGTH(8)"
    then have n: "n < 8" "8 * j + n < LENGTH('a)" "(8 * j + n) div 8 = j" "(8 * j + n) mod 8 = n" using j assms(3) by simp_all
    have "bit (load_le xs :: 'a word) (8 * j + n) = bit (load_le ys :: 'a word) (8 * j + n)" using assms(1) by simp
    then show "bit (xs ! j) n = bit (ys ! j) n" unfolding bit_load_le using n j assms(2) by simp
  qed
qed

lemma mixk_inj:
  assumes "mixk 0xcc9e2d51 15 0x1b873593 x = mixk 0xcc9e2d51 15 0x1b873593 y"
  shows "x = y"
proof -
  have "rotl32 (x * 0xcc9e2d51) 15 = rotl32 (y * 0xcc9e2d51) 15"
    using assms unfolding mixk_def by (rule mult_inj [OF _ inv32(4)])
  then have "x * 0xcc9e2d51 = y * 0xcc9e2d51" by (rule rotl32_inj) simp_all
  then show ?thesis by (rule mult_inj [OF _ inv32(3)])
qed

lemma xor_cancel: "(x :: u32) XOR a = x XOR b \<Longrightarrow> a = b"
  by (metis xor.left_neutral xor.assoc xor_self_eq)

lemma xor_cancel2: "(a :: u32) XOR x = b XOR x \<Longrightarrow> a = b"
  by (metis xor_cancel xor.commute)

lemma step32_core:
  assumes "step32 h b = step32 h' b'"
  shows "h XOR mixk 0xcc9e2d51 15 0x1b873593 (load_le b) = h' XOR mixk 0xcc9e2d51 15 0x1b873593 (load_le b')"
proof -
  let ?x = "h XOR mixk 0xcc9e2d51 15 0x1b873593 (load_le b)" and ?y = "h' XOR mixk 0xcc9e2d51 15 0x1b873593 (load_le b')"
  have "rotl32 ?x 13 * 5 = rotl32 ?y 13 * 5" using assms unfolding step32_def by (rule add_right_imp_eq)
  then have "rotl32 ?x 13 = rotl32 ?y 13" by (rule mult_inj [OF _ inv32(5)])
  then show ?thesis by (rule rotl32_inj) simp_all
qed

lemma step32_inj_state: "step32 h b = step32 h' b \<Longrightarrow> h = h'"
  using step32_core xor_cancel2 by blast

lemma step32_inj_block: "step32 h b = step32 h b' \<Longrightarrow> length b = 4 \<Longrightarrow> length b' = 4 \<Longrightarrow> b = b'"
proof -
  assume h: "step32 h b = step32 h b'" "length b = 4" "length b' = 4"
  have "load_le b = (load_le b' :: u32)" by (rule mixk_inj [OF xor_cancel [OF step32_core [OF h(1)]]])
  then show "b = b'" by (rule load_le_inj) (use h in simp_all)
qed

lemma foldl_step32_inj: "foldl step32 h bs = foldl step32 h' bs \<Longrightarrow> h = h'"
  by (induction bs arbitrary: h h') (auto dest: step32_inj_state)

lemma foldl_step32_changed:
  assumes "length bs' = length bs" and "b < length bs" and "\<And>i. i < length bs \<Longrightarrow> i \<noteq> b \<Longrightarrow> bs' ! i = bs ! i"
    and "length (bs ! b) = 4" "length (bs' ! b) = 4" and "foldl step32 h bs' = foldl step32 h bs"
  shows "bs' ! b = bs ! b"
proof -
  have "take b bs' = take b bs" "drop (Suc b) bs' = drop (Suc b) bs"
    using assms(1-3) by (auto intro!: nth_equalityI)
  then have "bs' = take b bs @ bs' ! b # drop (Suc b) bs" "bs = take b bs @ bs ! b # drop (Suc b) bs"
    using assms(1,2) id_take_nth_drop [of b bs'] id_take_nth_drop [of b bs] by simp_all
  then have "foldl step32 (step32 (foldl step32 h (take b bs)) (bs' ! b)) (drop (Suc b) bs) =
      foldl step32 (step32 (foldl step32 h (take b bs)) (bs ! b)) (drop (Suc b) bs)"
    using assms(6) by (metis foldl_Cons foldl_append)
  then show ?thesis using foldl_step32_inj step32_inj_block assms(4,5) by blast
qed

lemma spec_x86_32_changed:
  assumes len: "length data' = length data" and same: "\<And>j. j < length data \<Longrightarrow> j div 4 \<noteq> b \<Longrightarrow> data' ! j = data ! j"
    and eq: "spec_x86_32 data' seed = spec_x86_32 data seed"
  shows "data' = data"
proof -
  let ?n = "length data div 4"
  let ?B = "\<lambda>d :: u8 list. map (\<lambda>i. take 4 (drop (4 * i) d)) [0..<?n]" and ?r = "\<lambda>d :: u8 list. drop (4 * ?n) d"
  let ?k = "\<lambda>d. mixk 0xcc9e2d51 15 0x1b873593 (load_le (?r d))"
  have core: "foldl step32 seed (?B data') XOR ?k data' = foldl step32 seed (?B data) XOR ?k data"
  proof -
    have "fmix32 ((foldl step32 seed (?B data') XOR ?k data') XOR word_of_nat (length data)) =
        fmix32 ((foldl step32 seed (?B data) XOR ?k data) XOR word_of_nat (length data))"
      using eq by (simp add: spec_x86_32_def chunks_eq len xor.assoc)
    then show ?thesis by (rule xor_cancel2 [OF fmix32_inj])
  qed
  have rest_len: "length (?r data) < 4" "length (?r data') < 4"
    using drop_rest [of 4 data] drop_rest [of 4 data'] len by simp_all
  have blk: "length (?B data ! i) = 4" "length (?B data' ! i) = 4" if "i < ?n" for i
    using that len by auto
  have nthB: "?B d ! (j div 4) ! (j mod 4) = d ! j" if "j < 4 * ?n" "length d = length data" for j d
  proof -
    have "j div 4 < ?n" using that(1) by (simp add: less_mult_imp_div_less mult.commute)
    then show ?thesis using that by simp
  qed
  have eqB: "?B data' ! i = ?B data ! i" if "i \<noteq> b" "i < ?n" for i
  proof (rule nth_equalityI)
    show "length (?B data' ! i) = length (?B data ! i)" using blk [OF that(2)] by simp
    fix j assume "j < length (?B data' ! i)"
    then have j: "j < 4" "(4 * i + j) div 4 = i" "4 * i + j < length data" using blk [OF that(2)] that(2) by auto
    then show "?B data' ! i ! j = ?B data ! i ! j" using same [of "4 * i + j"] that len by simp
  qed
  have eqr: "?r data' = ?r data" if "b < ?n"
    using that same len by (intro nth_equalityI) auto
  have "data' ! j = data ! j" if j: "j < length data" for j
  proof (cases "j div 4 = b")
    case False then show ?thesis using same j by blast
  next
    case jb: True
    show ?thesis
    proof (cases "b < ?n")
      case True
      then have "foldl step32 seed (?B data') = foldl step32 seed (?B data)"
        using core eqr xor_cancel2 by metis
      then have "?B data' ! b = ?B data ! b"
        using foldl_step32_changed [of "?B data'" "?B data" b] True eqB blk by simp
      moreover have "j < 4 * ?n" using jb True by linarith
      ultimately show ?thesis using nthB [of j data'] nthB [of j data] jb len by simp
    next
      case False
      then have "?B data' = ?B data" using eqB by (intro nth_equalityI) auto
      then have "?k data' = ?k data" using core xor_cancel by metis
      then have "load_le (?r data') = (load_le (?r data) :: u32)" by (rule mixk_inj)
      then have "?r data' = ?r data" by (rule load_le_inj) (use rest_len len in simp_all)
      moreover have "4 * ?n \<le> j" using False jb by linarith
      then have "?r data' ! (j - 4 * ?n) = data' ! j" "?r data ! (j - 4 * ?n) = data ! j" using j len by simp_all
      ultimately show ?thesis by simp
    qed
  qed
  then show ?thesis using len by (simp add: list_eq_iff_nth_eq)
qed

lemma x86_32_eq:
  assumes "length d < 2 ^ 31"
  shows "murmurhash3_x86_32 d seed = Some (spec_x86_32 d seed)"
proof -
  have b: "body32 d = (\<lambda>h i. step32 h (take 4 (drop (4 * i) d)))"
    by (simp add: fun_eq_iff body32_def step32_def getblock32_def)
  have r: "length (drop (4 * (length d div 4)) d) < 4" "length d mod 4 = length (drop (4 * (length d div 4)) d)"
    by (simp_all add: drop_rest del: length_drop)
  show ?thesis
    using tail32_eq [OF r(1)] r(2)
    by (simp add: murmurhash3_x86_32_def int_blocks_eq [OF assms] spec_x86_32_def chunks_eq b foldl_conv_fold fold_map comp_def mult.commute xor.assoc)
qed

section \<open>Properties\<close>

text \<open>
  C28: for keys shorter than 2 GiB the three hash functions, with their index arithmetic, block loops
  and fall-through tails, compute the reference definition: the blocks of the key are folded in order and
  the rest of the key is mixed in as one zero-padded block.
\<close>

theorem murmurhash3_reference:
  assumes "length data < 2 ^ 31"
  shows "murmurhash3_x86_32 data seed = Some (spec_x86_32 data seed) \<and>
    murmurhash3_x86_128 data seed = Some (spec_x86_128 data seed) \<and>
    murmurhash3_x64_128 data seed = Some (spec_x64_128 data seed)"
proof (intro conjI)
  show "murmurhash3_x86_32 data seed = Some (spec_x86_32 data seed)" by (rule x86_32_eq [OF assms])
  have b128: "body128 data h i = step128 h (take 16 (drop (16 * i) data))" for h i
    by (cases h) (simp add: body128_def step128_def getblock32_def Let_def drop_take min_def add.commute mult.commute distrib_left)
  have b64: "body64 data h i = step64 h (take 16 (drop (16 * i) data))" for h i
    by (cases h) (simp add: body64_def step64_def getblock64_def Let_def drop_take min_def add.commute mult.commute distrib_left)
  let ?q = "drop (16 * (length data div 16)) data"
  have r: "length ?q < 16" "length data mod 16 = length ?q" by (simp_all add: drop_rest del: length_drop)
  show "murmurhash3_x86_128 data seed = Some (spec_x86_128 data seed)"
    using tail128_eq [OF r(1)] r(2)
    by (simp add: murmurhash3_x86_128_def int_blocks_eq [OF assms] spec_x86_128_def chunks_eq b128 foldl_conv_fold fold_map comp_def mult.commute split: prod.splits)
  show "murmurhash3_x64_128 data seed = Some (spec_x64_128 data seed)"
    using tail64_eq [OF r(1)] r(2)
    by (simp add: murmurhash3_x64_128_def int_blocks_eq [OF assms] spec_x64_128_def chunks_eq b64 foldl_conv_fold fold_map comp_def mult.commute split: prod.splits)
qed

text \<open>The string \<^verbatim>\<open>hello\<close>, with the value published for the algorithm.\<close>

theorem murmurhash3_reference_witness:
  "murmurhash3_x86_32 [0x68, 0x65, 0x6c, 0x6c, 0x6f] 0 = Some 0x248bfa47"
proof -
  have "spec_x86_32 [0x68, 0x65, 0x6c, 0x6c, 0x6f] 0 = 0x248bfa47" by code_simp
  then show ?thesis using murmurhash3_reference [of "[0x68, 0x65, 0x6c, 0x6c, 0x6f]" 0] by simp
qed

text \<open>
  The 32-bit hash that guards the messages of a channel detects every change of a key that is
  confined to one aligned block of four bytes.
\<close>

theorem murmurhash3_detects_change:
  assumes "length data < 2 ^ 31" and "length data' = length data"
    and "\<And>j. j < length data \<Longrightarrow> j div 4 \<noteq> b \<Longrightarrow> data' ! j = data ! j" and "data' \<noteq> data"
  shows "murmurhash3_x86_32 data' seed \<noteq> murmurhash3_x86_32 data seed"
  using x86_32_eq [of data seed] x86_32_eq [of data' seed] spec_x86_32_changed [OF assms(2,3)] assms(1,2,4) by auto

theorem murmurhash3_detects_change_witness:
  "murmurhash3_x86_32 [1, 2, 3, 4, 9, 9] 77 \<noteq> murmurhash3_x86_32 [1, 2, 3, 4, 5, 6] 77"
proof (rule murmurhash3_detects_change [where b = 1])
  fix j :: nat assume "j < length [1, 2, 3, 4, 5, 6 :: u8]" "j div 4 \<noteq> 1"
  then have "j < 4" by simp
  then show "[1, 2, 3, 4, 9, 9 :: u8] ! j = [1, 2, 3, 4, 5, 6] ! j" by (auto simp: less_Suc_eq numeral_eq_Suc)
qed simp_all

end
