(* ===== verification/Channel.thy ===== *)
theory Channel
  imports Murmurhash3 Bytes
begin

text \<open>
  \<^verbatim>\<open>src/src/bus/detail/channel.h\<close> and \<^verbatim>\<open>channel.cpp\<close>: the message ring between a process and the
  bus. The nodes that follow the \<^verbatim>\<open>channel\<close> structure are a memory of bytes; a message is a
  header of 32 bytes, stored at the beginning of a node, and its data, which may go on at the first node.
  Sizes are natural numbers with the wrap-around of \<^verbatim>\<open>size_t\<close> written out.
\<close>

section \<open>Memory\<close>

text \<open>\<^verbatim>\<open>memcpy\<close> into and out of the node area, which has \<open>n\<close> bytes.\<close>

definition put_bytes :: "nat \<Rightarrow> (nat \<Rightarrow> u8) \<Rightarrow> nat \<Rightarrow> u8 list \<Rightarrow> (nat \<Rightarrow> u8) option" where
  "put_bytes n m p bs =
     (if p + length bs \<le> n then Some (\<lambda>a. if p \<le> a \<and> a < p + length bs then bs ! (a - p) else m a) else None)"

definition get_bytes :: "nat \<Rightarrow> (nat \<Rightarrow> u8) \<Rightarrow> nat \<Rightarrow> nat \<Rightarrow> u8 list option" where
  "get_bytes n m p k = (if p + k \<le> n then Some (map m [p..<p + k]) else None)"

section \<open>State\<close>

record channel_message =
  msg_magic :: nat
  msg_hash :: u32
  msg_src_busid :: "32 word"
  msg_dst_busid :: "32 word"
  msg_ctime :: u64
  msg_length :: nat

definition sizeof_channel_message :: nat where "sizeof_channel_message = 32"
definition sizeof_channel :: nat where "sizeof_channel = 72"
definition CH_MAGIC :: nat where "CH_MAGIC = 0xC0DEFEED"
definition MURMURHASH_SEED :: u32 where "MURMURHASH_SEED = 77"

definition encode_message :: "channel_message \<Rightarrow> u8 list" where
  "encode_message h = le_bytes 4 (msg_magic h) @ le_bytes 4 (unat (msg_hash h)) @
     le_bytes 4 (unat (msg_src_busid h)) @ le_bytes 4 (unat (msg_dst_busid h)) @
     le_bytes 8 (unat (msg_ctime h)) @ le_bytes 8 (msg_length h)"

definition decode_message :: "u8 list \<Rightarrow> channel_message" where
  "decode_message bs = \<lparr>msg_magic = le_val (take 4 bs),
     msg_hash = word_of_nat (le_val (take 4 (drop 4 bs))),
     msg_src_busid = word_of_nat (le_val (take 4 (drop 8 bs))),
     msg_dst_busid = word_of_nat (le_val (take 4 (drop 12 bs))),
     msg_ctime = word_of_nat (le_val (take 8 (drop 16 bs))),
     msg_length = le_val (take 8 (drop 24 bs))\<rparr>"

record channel =
  ch_magic :: nat
  node_count :: nat
  node_size :: nat
  node_size_shift :: nat
  push_count :: nat
  pop_count :: nat
  read_pos :: nat
  write_pos :: nat
  node_offset :: nat
  nodes :: "nat \<Rightarrow> u8"

definition area :: "channel \<Rightarrow> nat" where "area c = node_count c * node_size c"

section \<open>Operations\<close>

definition calc_space :: "nat \<Rightarrow> nat \<Rightarrow> nat" where
  "calc_space nsize ncount = (sizeof_channel + nsize * ncount) mod 2 ^ 64"

function shift_loop :: "nat \<Rightarrow> nat \<Rightarrow> nat" where
  "shift_loop nsize shift = (if nsize > 1 then shift_loop (nsize div 2) (shift + 1) else shift)"
  by pat_completeness auto
termination
  by (relation "measure fst") auto

declare shift_loop.simps [simp del]

definition channel_init :: "channel \<Rightarrow> nat \<Rightarrow> nat \<Rightarrow> (int \<times> channel) option" where
  "channel_init c nsize ncount = do {
     sk_assert (ncount > 1);
     sk_assert (and nsize ((nsize + 2 ^ 64 - 1) mod 2 ^ 64) = 0);
     sk_assert (nsize \<ge> sizeof_channel_message);
     let c = c\<lparr>ch_magic := CH_MAGIC, node_count := ncount, node_size := nsize, push_count := 0, pop_count := 0,
       read_pos := 0, write_pos := 0, node_offset := sizeof_channel, node_size_shift := shift_loop nsize 0\<rparr>;
     Some (0, c)
   }"

definition channel_clear :: "channel \<Rightarrow> channel option" where
  "channel_clear c = do {
     sk_assert (ch_magic c = CH_MAGIC);
     Some (c\<lparr>push_count := 0, pop_count := 0, read_pos := 0, write_pos := 0\<rparr>)
   }"

definition calc_node_count :: "channel \<Rightarrow> nat \<Rightarrow> nat" where
  "calc_node_count c data_len =
     (let total_len = (sizeof_channel_message + data_len) mod 2 ^ 64
      in drop_bit (node_size_shift c) ((total_len + 2 ^ 64 - 1) mod 2 ^ 64) + 1)"

text \<open>The offset of a node in the node area; a null pointer is \<open>None\<close>.\<close>

definition channel_message_at :: "channel \<Rightarrow> nat \<Rightarrow> nat option" where
  "channel_message_at c pos = (if pos \<ge> node_count c then None else Some (node_size c * pos))"

definition read_head :: "channel \<Rightarrow> nat \<Rightarrow> channel_message option" where
  "read_head c p = map_option decode_message (get_bytes (area c) (nodes c) p sizeof_channel_message)"

definition available :: "channel \<Rightarrow> nat" where
  "available c = (read_pos c + 2 ^ 64 - write_pos c + node_count c - 1) mod 2 ^ 64 mod node_count c"

text \<open>The two copies of a message that goes on at the first node, and the single copy of one that does not.\<close>

definition copy_in :: "channel \<Rightarrow> nat \<Rightarrow> nat \<Rightarrow> u8 list \<Rightarrow> (nat \<Rightarrow> u8) option" where
  "copy_in c head new_pos data =
     (if new_pos > 0 \<and> new_pos < write_pos c then do {
        let sz0 = (node_count c - write_pos c) * node_size c - sizeof_channel_message;
        let sz1 = new_pos * node_size c;
        sk_assert (\<not> sz0 \<ge> length data);
        sk_assert (length data - sz0 \<le> sz1);
        m \<leftarrow> put_bytes (area c) (nodes c) (head + sizeof_channel_message) (take sz0 data);
        put_bytes (area c) m 0 (drop sz0 data)
      }
      else put_bytes (area c) (nodes c) (head + sizeof_channel_message) data)"

definition copy_out :: "channel \<Rightarrow> nat \<Rightarrow> nat \<Rightarrow> nat \<Rightarrow> u8 list option" where
  "copy_out c head new_pos len =
     (if new_pos > 0 \<and> new_pos < read_pos c then do {
        let sz0 = (node_count c - read_pos c) * node_size c - sizeof_channel_message;
        let sz1 = new_pos * node_size c;
        sk_assert (\<not> sz0 \<ge> len);
        sk_assert (len - sz0 \<le> sz1);
        a \<leftarrow> get_bytes (area c) (nodes c) (head + sizeof_channel_message) sz0;
        b \<leftarrow> get_bytes (area c) (nodes c) 0 (len - sz0);
        Some (a @ b)
      }
      else get_bytes (area c) (nodes c) (head + sizeof_channel_message) len)"

definition channel_push :: "channel \<Rightarrow> 32 word \<Rightarrow> 32 word \<Rightarrow> u64 \<Rightarrow> u8 list \<Rightarrow> (int \<times> channel) option" where
  "channel_push c src_busid dst_busid ctime data = do {
     sk_assert (ch_magic c = CH_MAGIC);
     let len = length data;
     if len = 0 then Some (0, c)
     else do {
       let required_count = calc_node_count c len;
       sk_assert ((len + sizeof_channel_message) mod 2 ^ 64 \<le> required_count * node_size c mod 2 ^ 64);
       let available_count = available c;
       let new_write_pos = (write_pos c + required_count) mod 2 ^ 64 mod node_count c;
       if required_count > available_count then Some (- ENOMEM, c)
       else do {
         head \<leftarrow> channel_message_at c (write_pos c);
         m \<leftarrow> copy_in c head new_write_pos data;
         hash \<leftarrow> murmurhash3_x86_32 data MURMURHASH_SEED;
         m \<leftarrow> put_bytes (area c) m head (encode_message
           \<lparr>msg_magic = CH_MAGIC, msg_hash = hash, msg_src_busid = src_busid, msg_dst_busid = dst_busid,
            msg_ctime = ctime, msg_length = len\<rparr>);
         Some (0, c\<lparr>nodes := m, write_pos := new_write_pos, push_count := (push_count c + 1) mod 2 ^ 64\<rparr>)
       }
     }
   }"

text \<open>
  What \<^verbatim>\<open>pop\<close> returns: the code, the value left in \<^verbatim>\<open>length\<close>, the bytes copied to the buffer and,
  for a popped message, what \<^verbatim>\<open>src_busid\<close>, \<^verbatim>\<open>dst_busid\<close> and \<^verbatim>\<open>ctime\<close> point to. The argument \<open>buf\<close>
  is the length of the buffer, \<open>None\<close> for a null pointer.
\<close>

record popped =
  pop_ret :: int
  pop_len :: nat
  pop_data :: "u8 list"
  pop_info :: "(32 word \<times> 32 word \<times> u64) option"

definition check_next :: "channel \<Rightarrow> nat \<Rightarrow> unit option" where
  "check_next c new_pos =
     (if new_pos \<noteq> write_pos c then do {
        p \<leftarrow> channel_message_at c new_pos;
        h \<leftarrow> read_head c p;
        sk_assert (msg_magic h = CH_MAGIC);
        sk_assert (msg_length h > 0)
      }
      else Some ())"

definition finish_pop :: "channel \<Rightarrow> channel_message \<Rightarrow> nat \<Rightarrow> nat \<Rightarrow> u8 list \<Rightarrow> popped \<times> channel" where
  "finish_pop c h new_pos len data =
     (\<lparr>pop_ret = 1, pop_len = len, pop_data = data,
       pop_info = Some (msg_src_busid h, msg_dst_busid h, msg_ctime h)\<rparr>,
      c\<lparr>read_pos := new_pos, pop_count := (pop_count c + 1) mod 2 ^ 64\<rparr>)"

definition channel_pop :: "channel \<Rightarrow> nat option \<Rightarrow> nat \<Rightarrow> (popped \<times> channel) option" where
  "channel_pop c buf len0 = do {
     sk_assert (ch_magic c = CH_MAGIC);
     if read_pos c = write_pos c then Some (\<lparr>pop_ret = 0, pop_len = len0, pop_data = [], pop_info = None\<rparr>, c)
     else do {
       p \<leftarrow> channel_message_at c (read_pos c);
       h \<leftarrow> read_head c p;
       sk_assert (msg_magic h = CH_MAGIC);
       sk_assert (msg_length h > 0);
       let used_count = calc_node_count c (msg_length h);
       let new_read_pos = (read_pos c + used_count) mod 2 ^ 64 mod node_count c;
       check_next c new_read_pos;
       case buf of
         None \<Rightarrow> Some (finish_pop c h new_read_pos len0 [])
       | Some cap \<Rightarrow>
           if msg_length h > cap
           then Some (\<lparr>pop_ret = - E2BIG, pop_len = msg_length h, pop_data = [], pop_info = None\<rparr>, c)
           else do {
             data \<leftarrow> copy_out c p new_read_pos (msg_length h);
             hash \<leftarrow> murmurhash3_x86_32 data MURMURHASH_SEED;
             sk_assert (hash = msg_hash h);
             Some (finish_pop c h new_read_pos (msg_length h) data)
           }
     }
   }"

definition message_count :: "channel \<Rightarrow> nat" where
  "message_count c = (if push_count c \<ge> pop_count c then push_count c - pop_count c else 0)"

section \<open>The ring of bytes\<close>

text \<open>Reading \<open>k\<close> bytes from position \<open>p\<close> of a ring of \<open>n\<close> bytes.\<close>

definition ring_get :: "nat \<Rightarrow> (nat \<Rightarrow> u8) \<Rightarrow> nat \<Rightarrow> nat \<Rightarrow> u8 list" where
  "ring_get n m p k = map (\<lambda>i. m ((p + i) mod n)) [0..<k]"

definition ring_put :: "nat \<Rightarrow> (nat \<Rightarrow> u8) \<Rightarrow> nat \<Rightarrow> u8 list \<Rightarrow> nat \<Rightarrow> u8" where
  "ring_put n m p bs a = (if a < n \<and> (a + n - p mod n) mod n < length bs then bs ! ((a + n - p mod n) mod n) else m a)"

lemma length_ring_get [simp]: "length (ring_get n m p k) = k"
  by (simp add: ring_get_def)

lemma ring_dist:
  fixes n d p :: nat
  assumes "0 < n" "d < n"
  shows "((p + d) mod n + n - p mod n) mod n = d"
proof -
  have "((p + d) mod n + n - p mod n) mod n = ((p + d) mod n + (n - p mod n)) mod n"
    using assms(1) mod_less_divisor [of n p] by (simp add: Nat.add_diff_assoc)
  also have "\<dots> = (p + d + (n - p mod n)) mod n" by (simp add: mod_add_left_eq)
  also have "p + d + (n - p mod n) = d + n * (p div n) + n"
    using mult_div_mod_eq [of n p] mod_less_divisor [of n p] assms(1) by linarith
  finally show ?thesis using assms(2) by simp
qed

lemma ring_get_put:
  assumes "0 < n" "length bs \<le> n"
  shows "ring_get n (ring_put n m p bs) p (length bs) = bs"
  using assms ring_dist [OF assms(1)] by (intro nth_equalityI) (auto simp: ring_get_def ring_put_def)

lemma ring_get_put_other:
  assumes "0 < n" "k \<le> d" "d + length bs \<le> n"
  shows "ring_get n (ring_put n m (p + d) bs) p k = ring_get n m p k"
proof (intro nth_equalityI)
  fix i assume "i < length (ring_get n (ring_put n m (p + d) bs) p k)"
  then have i: "i < k" by simp
  let ?e = "n - d + i"
  have e: "?e < n" "length bs \<le> ?e" using i assms(2,3) by auto
  have "p + d + ?e = (p + i) + n" using i assms(2,3) by simp
  then have "(p + d + ?e) mod n = (p + i) mod n" by (simp only: mod_add_self2)
  then have "((p + i) mod n + n - (p + d) mod n) mod n = ?e" using ring_dist [OF assms(1) e(1), of "p + d"] by simp
  then show "ring_get n (ring_put n m (p + d) bs) p k ! i = ring_get n m p k ! i"
    using i e(2) by (simp add: ring_get_def ring_put_def)
qed simp

lemma ring_get_append: "ring_get n m p (a + b) = ring_get n m p a @ ring_get n m (p + a) b"
  by (rule nth_equalityI) (auto simp: ring_get_def nth_append add.assoc)

lemma ring_get_mod: "ring_get n m (p mod n) k = ring_get n m p k"
  by (simp add: ring_get_def mod_add_left_eq)

lemma ring_put_mod: "ring_put n m (p mod n) bs = ring_put n m p bs"
  by (simp add: ring_put_def fun_eq_iff)

lemma get_bytes_ring: "p + k \<le> n \<Longrightarrow> get_bytes n m p k = Some (ring_get n m p k)"
  by (auto simp: get_bytes_def ring_get_def intro!: nth_equalityI)

lemma ring_put_eval:
  assumes "p < n"
  shows "ring_put n m p bs a =
    (if p \<le> a \<and> a < n \<and> a - p < length bs then bs ! (a - p)
     else if a < p \<and> a + n - p < length bs then bs ! (a + n - p) else m a)"
proof -
  have "(a + n - p) mod n = (if p \<le> a then a - p else a + n - p)" if "a < n"
  proof (cases "p \<le> a")
    case True
    then have "a + n - p = (a - p) + n" by simp
    then have "(a + n - p) mod n = (a - p) mod n" by (simp only: mod_add_self2)
    then show ?thesis using True that by simp
  qed (use assms that in simp)
  then show ?thesis using assms by (auto simp: ring_put_def)
qed

text \<open>A header and its data, written in one piece or in two.\<close>

lemma put_straight:
  assumes "p + 32 + length bs \<le> n" "length hs = 32"
  shows "\<exists>m1. put_bytes n m (p + 32) bs = Some m1 \<and> put_bytes n m1 p hs = Some (ring_put n m p (hs @ bs))"
proof -
  have p: "p < n" using assms by simp
  show ?thesis
    using assms by (simp add: put_bytes_def) (auto simp: fun_eq_iff ring_put_eval [OF p] nth_append)
qed

lemma put_wrapped:
  assumes "p + 32 \<le> n" "n < p + 32 + length bs" "32 + length bs \<le> n" "length hs = 32" "k = n - p - 32"
  shows "\<exists>m1 m2. put_bytes n m (p + 32) (take k bs) = Some m1 \<and> put_bytes n m1 0 (drop k bs) = Some m2 \<and>
    put_bytes n m2 p hs = Some (ring_put n m p (hs @ bs))"
proof -
  have p: "p < n" using assms by simp
  show ?thesis
    using assms by (simp add: put_bytes_def min_def) (auto simp: fun_eq_iff ring_put_eval [OF p] nth_append add.commute)
qed

section \<open>The queue of messages\<close>

type_synonym message = "32 word \<times> 32 word \<times> u64 \<times> u8 list"

definition head_of :: "message \<Rightarrow> channel_message" where
  "head_of m = (case m of (src, dst, t, data) \<Rightarrow>
     \<lparr>msg_magic = CH_MAGIC, msg_hash = spec_x86_32 data MURMURHASH_SEED, msg_src_busid = src, msg_dst_busid = dst,
      msg_ctime = t, msg_length = length data\<rparr>)"

abbreviation data_of :: "message \<Rightarrow> u8 list" where "data_of m \<equiv> snd (snd (snd m))"

definition nodes_of :: "channel \<Rightarrow> message \<Rightarrow> nat" where
  "nodes_of c m = (31 + length (data_of m)) div node_size c + 1"

definition bytes_of :: "message \<Rightarrow> u8 list" where
  "bytes_of m = encode_message (head_of m) @ data_of m"

fun stored :: "channel \<Rightarrow> nat \<Rightarrow> message list \<Rightarrow> bool" where
  "stored c p [] \<longleftrightarrow> True"
| "stored c p (m # ms) \<longleftrightarrow> ring_get (area c) (nodes c) (p * node_size c) (length (bytes_of m)) = bytes_of m \<and>
     data_of m \<noteq> [] \<and> length (data_of m) < 2 ^ 31 \<and> stored c (p + nodes_of c m) ms"

definition used_nodes :: "channel \<Rightarrow> message list \<Rightarrow> nat" where
  "used_nodes c q = sum_list (map (nodes_of c) q)"

text \<open>The channel holds the messages of \<open>q\<close>, the oldest first.\<close>

definition channel_ok :: "channel \<Rightarrow> message list \<Rightarrow> bool" where
  "channel_ok c q \<longleftrightarrow> ch_magic c = CH_MAGIC \<and> 1 < node_count c \<and> node_size c = 2 ^ node_size_shift c \<and>
     32 \<le> node_size c \<and> area c < 2 ^ 63 \<and> read_pos c < node_count c \<and>
     used_nodes c q < node_count c \<and> write_pos c = (read_pos c + used_nodes c q) mod node_count c \<and>
     stored c (read_pos c) q \<and> pop_count c < 2 ^ 64 \<and> push_count c = (pop_count c + length q) mod 2 ^ 64"

lemma length_encode [simp]: "length (encode_message h) = 32"
  by (simp add: encode_message_def)

lemma decode_encode_message:
  assumes "msg_magic h < 2 ^ 32" "msg_length h < 2 ^ 64"
  shows "decode_message (encode_message h) = h"
proof -
  have "unat (x :: u32) mod 256 ^ 4 = unat x" "unat (y :: u64) mod 256 ^ 8 = unat y" for x y
    using unsigned_less [where 'a = nat, of x] unsigned_less [where 'a = nat, of y] by simp_all
  then show ?thesis
    using assms by (cases h) (simp add: encode_message_def decode_message_def le_val_bytes)
qed

lemma decode_head_of: "length (data_of m) < 2 ^ 31 \<Longrightarrow> decode_message (encode_message (head_of m)) = head_of m"
  by (rule decode_encode_message) (auto simp: head_of_def CH_MAGIC_def split: prod.splits)

lemma channel_okD:
  assumes "channel_ok c q"
  shows "ch_magic c = CH_MAGIC" "1 < node_count c" "node_size c = 2 ^ node_size_shift c" "32 \<le> node_size c"
    "node_count c * node_size c < 2 ^ 63" "read_pos c < node_count c" "used_nodes c q < node_count c"
    "write_pos c = (read_pos c + used_nodes c q) mod node_count c" "stored c (read_pos c) q"
    "write_pos c < node_count c" "node_count c < 2 ^ 63" "area c = node_count c * node_size c"
proof -
  show "node_count c < 2 ^ 63"
  proof -
    have "node_count c * 1 \<le> node_count c * node_size c" using assms by (intro mult_le_mono) (auto simp: channel_ok_def)
    moreover have "node_count c * node_size c < 2 ^ 63" using assms unfolding channel_ok_def area_def by blast
    ultimately show ?thesis by linarith
  qed
qed (use assms in \<open>auto simp: channel_ok_def area_def\<close>)

lemma calc_node_count_eq:
  assumes "channel_ok c q" "0 < len" "len < 2 ^ 31"
  shows "calc_node_count c len = (31 + len) div node_size c + 1"
proof -
  have "(32 + len) mod 2 ^ 64 = 32 + len" "(32 + len + 2 ^ 64 - 1) mod 2 ^ 64 = 31 + len"
  proof -
    show "(32 + len) mod 2 ^ 64 = 32 + len" using assms(3) by simp
    have "32 + len + 2 ^ 64 - 1 = (31 + len) + 2 ^ 64" by simp
    then have "(32 + len + 2 ^ 64 - 1) mod 2 ^ 64 = (31 + len) mod 2 ^ 64" by (simp only: mod_add_self2)
    then show "(32 + len + 2 ^ 64 - 1) mod 2 ^ 64 = 31 + len" using assms(3) by simp
  qed
  then show ?thesis
    using channel_okD(3) [OF assms(1)] by (simp add: calc_node_count_def sizeof_channel_message_def drop_bit_eq_div Let_def)
qed

lemma nodes_of_bounds:
  assumes "channel_ok c q"
  shows "length (bytes_of m) \<le> nodes_of c m * node_size c" "0 < nodes_of c m"
    "(nodes_of c m - 1) * node_size c < length (bytes_of m)"
proof -
  let ?s = "node_size c" and ?l = "31 + length (data_of m)"
  have s: "0 < ?s" using channel_okD(4) [OF assms] by simp
  have "?l mod ?s < ?s" using s by simp
  moreover have "?l div ?s * ?s + ?l mod ?s = ?l" by (rule div_mult_mod_eq)
  ultimately have b: "?l < ?l div ?s * ?s + ?s" "?l div ?s * ?s \<le> ?l" by linarith+
  show "length (bytes_of m) \<le> nodes_of c m * ?s" using b(1) by (simp add: nodes_of_def bytes_of_def)
  show "(nodes_of c m - 1) * ?s < length (bytes_of m)"
    using b(2) by (simp only: nodes_of_def bytes_of_def add_diff_cancel_right' length_append length_encode)
qed (simp add: nodes_of_def)

lemma available_eq:
  assumes "channel_ok c q"
  shows "available c = node_count c - 1 - used_nodes c q"
proof -
  note d = channel_okD [OF assms]
  let ?n = "node_count c" and ?u = "used_nodes c q" and ?r = "read_pos c" and ?w = "write_pos c"
  have eq: "?r + 2 ^ 64 - ?w + ?n - 1 = (?r + ?n - 1 - ?w) + 2 ^ 64" using d(2,10,11) by simp
  have "(?r + 2 ^ 64 - ?w + ?n - 1) mod 2 ^ 64 = (?r + ?n - 1 - ?w) mod 2 ^ 64" unfolding eq by (rule mod_add_self2)
  then have "(?r + 2 ^ 64 - ?w + ?n - 1) mod 2 ^ 64 = ?r + ?n - 1 - ?w" using d(6,11) by simp
  then have av: "available c = (?r + ?n - 1 - ?w) mod ?n" by (simp add: available_def)
  show ?thesis
  proof (cases "?r + ?u < ?n")
    case True
    then have "?w = ?r + ?u" using d(8) by simp
    then have "?r + ?n - 1 - ?w = ?n - 1 - ?u" by simp
    then show ?thesis using av d(2) by (simp add: mod_less)
  next
    case False
    then have "?w = ?r + ?u - ?n" using d(6,7,8) by (simp add: mod_if)
    then have "?r + ?n - 1 - ?w = (?n - 1 - ?u) + ?n" using False d(7) by simp
    then have "(?r + ?n - 1 - ?w) mod ?n = (?n - 1 - ?u) mod ?n" by (simp only: mod_add_self2)
    then show ?thesis using av d(2) by simp
  qed
qed

lemma stored_mono:
  assumes "stored c p q" and "area c' = area c" "node_size c' = node_size c"
    and "\<And>x k. p * node_size c \<le> x \<Longrightarrow> x + k \<le> (p + used_nodes c q) * node_size c \<Longrightarrow>
      ring_get (area c) (nodes c') x k = ring_get (area c) (nodes c) x k"
    and ok: "\<And>m. length (bytes_of m) \<le> nodes_of c m * node_size c"
  shows "stored c' p q"
  using assms(1,4)
proof (induction q arbitrary: p)
  case (Cons m q)
  have n: "nodes_of c' = nodes_of c" using assms(3) by (simp add: nodes_of_def fun_eq_iff)
  have le: "p * node_size c + length (bytes_of m) \<le> (p + used_nodes c (m # q)) * node_size c"
    using ok [of m] by (simp add: used_nodes_def distrib_right)
  have "ring_get (area c) (nodes c') (p * node_size c) (length (bytes_of m)) = bytes_of m"
    using Cons.prems le by simp
  moreover have "stored c' (p + nodes_of c m) q"
  proof (rule Cons.IH)
    show "stored c (p + nodes_of c m) q" using Cons.prems(1) by simp
    fix x k assume "(p + nodes_of c m) * node_size c \<le> x" "x + k \<le> (p + nodes_of c m + used_nodes c q) * node_size c"
    then show "ring_get (area c) (nodes c') x k = ring_get (area c) (nodes c) x k"
      by (intro Cons.prems(2)) (auto simp: used_nodes_def distrib_right add.assoc)
  qed
  ultimately show ?case using Cons.prems(1) assms(2,3) n by simp
qed simp

lemma stored_append:
  "stored c p (q @ [m]) \<longleftrightarrow> stored c p q \<and> stored c (p + used_nodes c q) [m]"
  by (induction q arbitrary: p) (auto simp: used_nodes_def add.assoc)

lemma area_split:
  assumes "channel_ok c q" and "w < node_count c"
  shows "node_size c * w + (node_count c - w) * node_size c = area c" "node_size c * w < area c"
proof -
  have "w * node_size c + (node_count c - w) * node_size c = (w + (node_count c - w)) * node_size c" by (rule add_mult_distrib [symmetric])
  then show "node_size c * w + (node_count c - w) * node_size c = area c" using assms(2) by (simp add: area_def mult.commute)
  show "node_size c * w < area c" using assms channel_okD(4) [OF assms(1)] by (simp add: area_def mult.commute)
qed

text \<open>Where the next position lies decides whether the message goes on at the first node.\<close>

lemma next_pos:
  assumes "channel_ok c q" and "w < node_count c" and "0 < r" "r < node_count c" and "np = (w + r) mod node_count c"
  shows "(0 < np \<and> np < w) \<longleftrightarrow> node_count c < w + r" "(w + r) mod 2 ^ 64 mod node_count c = np"
    "np < node_count c" "node_count c < w + r \<Longrightarrow> np = w + r - node_count c"
proof -
  have "(w + r) mod 2 ^ 64 = w + r" using channel_okD(11) [OF assms(1)] assms(2,4) by simp
  then show "(w + r) mod 2 ^ 64 mod node_count c = np" using assms(5) by simp
  show "np < node_count c" using assms(2,5) by simp
  show "(0 < np \<and> np < w) \<longleftrightarrow> node_count c < w + r" "node_count c < w + r \<Longrightarrow> np = w + r - node_count c"
    using assms(2-5) by (auto simp: mod_if split: if_splits)
qed

lemma write_message:
  assumes ok: "channel_ok c q" and w: "w = write_pos c" and r: "r = nodes_of c m" "r < node_count c"
    and np: "np = (w + r) mod node_count c" and hs: "length hs = 32"
  shows "\<exists>m1. copy_in c (node_size c * w) np (data_of m) = Some m1 \<and>
    put_bytes (area c) m1 (node_size c * w) hs = Some (ring_put (area c) (nodes c) (w * node_size c) (hs @ data_of m))"
proof -
  note d = channel_okD [OF ok] and nb = nodes_of_bounds [OF ok, of m, folded r(1)]
  have wn: "w < node_count c" using w d(10) by simp
  note np' = next_pos [OF ok wn _ r(2) np] and as = area_split [OF ok wn]
  have r0: "0 < r" using nb(2) by simp
  let ?s = "node_size c" and ?l = "length (data_of m)"
  have lb: "length (bytes_of m) = 32 + ?l" by (simp add: bytes_of_def)
  have one: "32 \<le> (node_count c - w) * ?s"
    using d(4) wn mult_le_mono [of 1 "node_count c - w" 32 ?s] by simp
  show ?thesis
  proof (cases "node_count c < w + r")
    case False
    then have "r * ?s \<le> (node_count c - w) * ?s" by (intro mult_le_mono1) simp
    then have "?s * w + 32 + ?l \<le> area c" using as nb(1) lb r(1) by linarith
    moreover have "\<not> (0 < np \<and> np < write_pos c)" using np'(1) [OF r0] False w by simp
    ultimately show ?thesis
      using put_straight [of "?s * w" "data_of m" "area c" hs "nodes c"] hs
      by (simp only: copy_in_def if_False sizeof_channel_message_def mult.commute [of w])
  next
    case True
    let ?k = "area c - ?s * w - 32"
    have k: "(node_count c - write_pos c) * ?s - 32 = ?k" using as w by simp
    have "(node_count c - w) * ?s \<le> (r - 1) * ?s" using True by (intro mult_le_mono1) simp
    then have gt: "area c < ?s * w + 32 + ?l" using nb(3) lb r(1) as(1) by linarith
    have "r * ?s \<le> (node_count c - 1) * ?s" using r(2) by (intro mult_le_mono1) simp
    also have "\<dots> \<le> area c" by (simp add: area_def)
    finally have le: "32 + ?l \<le> area c" using nb(1) lb r(1) by linarith
    have "np * ?s + (node_count c - w) * ?s = r * ?s"
      using np'(4) [OF r0 True] True wn by (simp flip: add_mult_distrib)
    then have sz1: "?l - ?k \<le> np * ?s" using nb(1) lb r(1) as(1) one by linarith
    have a: "?s * w + 32 \<le> area c" using as(1) one by linarith
    have g: "\<not> ?l \<le> ?k" using gt a by linarith
    have b: "0 < np \<and> np < write_pos c" using np'(1) [OF r0] True w by simp
    show ?thesis
      using put_wrapped [OF a gt le hs refl, of "nodes c"] b g sz1 k
      by (auto simp add: copy_in_def sizeof_channel_message_def mult.commute [of w] Let_def)
  qed
qed

lemma read_message:
  assumes ok: "channel_ok c q" and w: "w = read_pos c" and r: "r = nodes_of c m" "r < node_count c"
    and np: "np = (w + r) mod node_count c"
    and st: "ring_get (area c) (nodes c) (w * node_size c) (length (bytes_of m)) = bytes_of m"
  shows "copy_out c (node_size c * w) np (length (data_of m)) = Some (data_of m)"
proof -
  note d = channel_okD [OF ok] and nb = nodes_of_bounds [OF ok, of m, folded r(1)]
  have wn: "w < node_count c" using w d(6) by simp
  note np' = next_pos [OF ok wn _ r(2) np] and as = area_split [OF ok wn]
  have r0: "0 < r" using nb(2) by simp
  let ?s = "node_size c" and ?l = "length (data_of m)"
  have lb: "length (bytes_of m) = 32 + ?l" by (simp add: bytes_of_def)
  have data: "ring_get (area c) (nodes c) (?s * w + 32) ?l = data_of m"
    using st ring_get_append [of "area c" "nodes c" "w * ?s" 32 ?l] unfolding lb by (simp add: bytes_of_def mult.commute)
  have one: "32 \<le> (node_count c - w) * ?s"
    using d(4) wn mult_le_mono [of 1 "node_count c - w" 32 ?s] by simp
  show ?thesis
  proof (cases "node_count c < w + r")
    case False
    then have "r * ?s \<le> (node_count c - w) * ?s" by (intro mult_le_mono1) simp
    then have "?s * w + 32 + ?l \<le> area c" using as nb(1) lb by linarith
    moreover have "\<not> (0 < np \<and> np < read_pos c)" using np'(1) [OF r0] False w by simp
    ultimately show ?thesis
      using get_bytes_ring [of "?s * w + 32" ?l "area c" "nodes c"] data
      by (simp only: copy_out_def if_False sizeof_channel_message_def)
  next
    case True
    let ?k = "area c - ?s * w - 32"
    have k: "(node_count c - read_pos c) * ?s - 32 = ?k" using as w by simp
    have "(node_count c - w) * ?s \<le> (r - 1) * ?s" using True by (intro mult_le_mono1) simp
    then have gt: "area c < ?s * w + 32 + ?l" using nb(3) lb as(1) by linarith
    have "r * ?s \<le> (node_count c - 1) * ?s" using r(2) by (intro mult_le_mono1) simp
    also have "\<dots> \<le> area c" by (simp add: area_def)
    finally have le: "32 + ?l \<le> area c" using nb(1) lb by linarith
    have "np * ?s + (node_count c - w) * ?s = r * ?s"
      using np'(4) [OF r0 True] True wn by (simp flip: add_mult_distrib)
    then have sz1: "?l - ?k \<le> np * ?s" using nb(1) lb as(1) one by linarith
    have a: "?s * w + 32 \<le> area c" using as(1) one by linarith
    have g: "\<not> ?l \<le> ?k" using gt a by linarith
    have b: "0 < np \<and> np < read_pos c" using np'(1) [OF r0] True w by simp
    have "?s * w + 32 + ?k = area c" using a by simp
    then have "ring_get (area c) (nodes c) (?s * w + 32 + ?k) (?l - ?k) = ring_get (area c) (nodes c) 0 (?l - ?k)"
      using ring_get_mod [of "area c" "nodes c" "?s * w + 32 + ?k"] by simp
    then have "ring_get (area c) (nodes c) (?s * w + 32) ?k @ ring_get (area c) (nodes c) 0 (?l - ?k) = data_of m"
      using data ring_get_append [of "area c" "nodes c" "?s * w + 32" ?k "?l - ?k"] g by simp
    moreover have "get_bytes (area c) (nodes c) (?s * w + 32) ?k = Some (ring_get (area c) (nodes c) (?s * w + 32) ?k)"
      "get_bytes (area c) (nodes c) 0 (?l - ?k) = Some (ring_get (area c) (nodes c) 0 (?l - ?k))"
      using a le by (auto intro!: get_bytes_ring)
    ultimately show ?thesis
      using b g sz1 k by (simp add: copy_out_def sizeof_channel_message_def Let_def)
  qed
qed

lemma read_head_eq:
  assumes ok: "channel_ok c q" and w: "w < node_count c" and len: "length (data_of m) < 2 ^ 31"
    and st: "ring_get (area c) (nodes c) (w * node_size c) (length (bytes_of m)) = bytes_of m"
  shows "read_head c (node_size c * w) = Some (head_of m)"
proof -
  have "ring_get (area c) (nodes c) (node_size c * w) 32 = encode_message (head_of m)"
    using st ring_get_append [of "area c" "nodes c" "w * node_size c" 32 "length (data_of m)"]
    by (simp add: bytes_of_def mult.commute)
  moreover have "node_size c * w + 32 \<le> area c"
  proof -
    have "32 \<le> (node_count c - w) * node_size c"
      using channel_okD(4) [OF ok] w mult_le_mono [of 1 "node_count c - w" 32 "node_size c"] by simp
    then show ?thesis using area_split(1) [OF ok w] by linarith
  qed
  ultimately show ?thesis
    using get_bytes_ring [of "node_size c * w" 32 "area c" "nodes c"] decode_head_of [OF len]
    by (simp add: read_head_def sizeof_channel_message_def)
qed

lemma nodes_same:
  assumes "node_size c' = node_size c"
  shows "nodes_of c' = nodes_of c" "used_nodes c' = used_nodes c"
proof -
  show n: "nodes_of c' = nodes_of c" using assms by (intro ext) (simp add: nodes_of_def)
  show "used_nodes c' = used_nodes c" by (intro ext) (simp add: used_nodes_def n)
qed

lemma stored_same:
  "area c' = area c \<Longrightarrow> node_size c' = node_size c \<Longrightarrow> nodes c' = nodes c \<Longrightarrow> stored c' p q = stored c p q"
  by (induction q arbitrary: p) (simp_all add: nodes_of_def)

lemma stored_pos:
  "p mod node_count c = p' mod node_count c \<Longrightarrow> stored c p q = stored c p' q"
proof (induction q arbitrary: p p')
  case (Cons m q)
  have "p * node_size c mod area c = p' * node_size c mod area c"
    using Cons.prems by (simp add: area_def mult_mod_left [symmetric])
  then have "ring_get (area c) (nodes c) (p * node_size c) k = ring_get (area c) (nodes c) (p' * node_size c) k" for k
    by (metis ring_get_mod)
  moreover have "stored c (p + nodes_of c m) q = stored c (p' + nodes_of c m) q"
    using Cons.prems by (intro Cons.IH) (metis mod_add_left_eq)
  ultimately show ?case by simp
qed simp

lemma channel_push_ok:
  assumes ok: "channel_ok c q" and data: "data \<noteq> []" "length data < 2 ^ 31" and m: "m = (src, dst, t, data)"
    and room: "used_nodes c q + nodes_of c m < node_count c"
  shows "\<exists>c'. channel_push c src dst t data = Some (0, c') \<and> channel_ok c' (q @ [m]) \<and> node_count c' = node_count c \<and>
    node_size c' = node_size c"
proof -
  note d = channel_okD [OF ok] and nb = nodes_of_bounds [OF ok, of m]
  let ?r = "nodes_of c m" and ?w = "write_pos c" and ?s = "node_size c"
  let ?np = "(?w + ?r) mod node_count c"
  have dm: "data_of m = data" "length (bytes_of m) = 32 + length data" by (simp_all add: m bytes_of_def)
  have req: "calc_node_count c (length data) = ?r"
    using calc_node_count_eq [OF ok _ data(2)] data(1) dm(1) by (simp add: nodes_of_def)
  have rn: "?r < node_count c" using room by simp
  note np = next_pos [OF ok d(10) nb(2) rn refl]
  have "?r * ?s \<le> node_count c * ?s" using rn by (intro mult_le_mono1) simp
  then have "?r * ?s < 2 ^ 63" using d(5) by linarith
  then have fit: "(length data + 32) mod 2 ^ 64 \<le> ?r * ?s mod 2 ^ 64" using nb(1) dm(2) data(2) by simp
  have av: "\<not> available c < ?r" using available_eq [OF ok] room by simp
  obtain m1 where m1: "copy_in c (?s * ?w) ?np data = Some m1"
      "put_bytes (area c) m1 (?s * ?w) (encode_message (head_of m)) = Some (ring_put (area c) (nodes c) (?w * ?s) (bytes_of m))"
    using write_message [OF ok refl refl rn refl, of "encode_message (head_of m)"] by (auto simp: dm(1) bytes_of_def)
  let ?mem = "ring_put (area c) (nodes c) (?w * ?s) (bytes_of m)"
  let ?c = "c\<lparr>nodes := ?mem, write_pos := ?np, push_count := (push_count c + 1) mod 2 ^ 64\<rparr>"
  have hd: "\<lparr>msg_magic = CH_MAGIC, msg_hash = spec_x86_32 data MURMURHASH_SEED, msg_src_busid = src, msg_dst_busid = dst,
      msg_ctime = t, msg_length = length data\<rparr> = head_of m" by (simp add: head_of_def m)
  have run: "channel_push c src dst t data = Some (0, ?c)"
    using d(1,10) data(1) req fit av np(2) m1 x86_32_eq [OF data(2)] hd
    by (simp add: channel_push_def channel_message_at_def sizeof_channel_message_def Let_def)
  have "node_size ?c = ?s" by simp
  from nodes_same [OF this] this have same: "area ?c = area c" "node_size ?c = ?s" "nodes_of ?c = nodes_of c" "used_nodes ?c = used_nodes c"
    by (simp_all add: area_def)
  let ?P = "(read_pos c + used_nodes c q) * ?s"
  have "?w * ?s mod area c = ?P mod area c" unfolding d(8) area_def by (simp add: mult_mod_left)
  then have mem: "?mem = ring_put (area c) (nodes c) ?P (bytes_of m)" by (metis ring_put_mod)
  have pos: "0 < area c" using d(2,4) by (simp add: area_def)
  have "(used_nodes c q + ?r) * ?s \<le> node_count c * ?s" using room by (intro mult_le_mono1) simp
  then have tot: "used_nodes c q * ?s + length (bytes_of m) \<le> area c" using nb(1) by (simp add: area_def add_mult_distrib)
  have "stored ?c (read_pos c) q"
  proof (rule stored_mono [OF d(9) same(1,2) _ nodes_of_bounds(1) [OF ok]])
    fix x k assume x: "read_pos c * ?s \<le> x" "x + k \<le> ?P"
    have p: "?P = x + (?P - x)" using x by simp
    have "?P = read_pos c * ?s + used_nodes c q * ?s" by (rule add_mult_distrib)
    then have "?P - x + length (bytes_of m) \<le> area c" using x(1) tot by linarith
    moreover have "k \<le> ?P - x" using x(2) by linarith
    ultimately have "ring_get (area c) (ring_put (area c) (nodes c) (x + (?P - x)) (bytes_of m)) x k = ring_get (area c) (nodes c) x k"
      by (intro ring_get_put_other [OF pos])
    then have "ring_get (area c) (ring_put (area c) (nodes c) ?P (bytes_of m)) x k = ring_get (area c) (nodes c) x k" using p by simp
    then show "ring_get (area c) (nodes ?c) x k = ring_get (area c) (nodes c) x k" using mem by simp
  qed
  moreover have "stored ?c (read_pos c + used_nodes c q) [m]"
    using ring_get_put [OF pos, of "bytes_of m" "nodes c" ?P] tot mem data dm(1) same(1) by simp
  ultimately have "stored ?c (read_pos c) (q @ [m])" using stored_append [of ?c "read_pos c" q m] same(4) by simp
  moreover have "?np = (read_pos c + used_nodes c (q @ [m])) mod node_count c"
    unfolding d(8) by (simp add: used_nodes_def mod_add_left_eq add.assoc)
  moreover have "(push_count c + 1) mod 2 ^ 64 = (pop_count c + length (q @ [m])) mod 2 ^ 64"
    using ok by (simp add: channel_ok_def mod_Suc_eq)
  moreover have "used_nodes c (q @ [m]) < node_count c" using room by (simp add: used_nodes_def)
  ultimately have "channel_ok ?c (q @ [m])" using ok same unfolding channel_ok_def by simp
  then show ?thesis using run by (intro exI [of _ ?c]) simp
qed

lemma channel_push_full:
  assumes ok: "channel_ok c q" and data: "data \<noteq> []" "length data < 2 ^ 31" and m: "m = (src, dst, t, data)"
    and room: "\<not> used_nodes c q + nodes_of c m < node_count c"
  shows "channel_push c src dst t data = Some (- ENOMEM, c)"
proof -
  note d = channel_okD [OF ok] and nb = nodes_of_bounds [OF ok, of m]
  have req: "calc_node_count c (length data) = nodes_of c m"
    using calc_node_count_eq [OF ok _ data(2)] data(1) by (simp add: nodes_of_def m)
  have "2 * node_size c \<le> node_count c * node_size c" using d(2) by (intro mult_le_mono1) simp
  then have "2 * node_size c < 2 * 2 ^ 62" using le_less_trans [OF _ d(5)] by simp
  then have size: "node_size c < 2 ^ 62" by simp
  have no: "node_count c - 1 - used_nodes c q < nodes_of c m" using room d(7) by simp
  have "(nodes_of c m - 1) * node_size c + node_size c = nodes_of c m * node_size c"
    using nb(2) by (cases "nodes_of c m") simp_all
  then have "nodes_of c m * node_size c < 2 ^ 63"
    using nb(3) size data(2) by (simp add: bytes_of_def m)
  then have "(length data + 32) mod 2 ^ 64 \<le> nodes_of c m * node_size c mod 2 ^ 64"
    using nb(1) data(2) by (simp add: bytes_of_def m)
  then show ?thesis
    using d(1) data(1) req no available_eq [OF ok]
    by (simp add: channel_push_def sizeof_channel_message_def Let_def)
qed

lemma used_nodes_Cons [simp]: "used_nodes c (m # q) = nodes_of c m + used_nodes c q"
  by (simp add: used_nodes_def)

lemma channel_ok_pop:
  assumes ok: "channel_ok c (m # q)"
  shows "channel_ok (c\<lparr>read_pos := (read_pos c + nodes_of c m) mod node_count c, pop_count := (pop_count c + 1) mod 2 ^ 64\<rparr>) q"
    (is "channel_ok ?c q")
proof -
  note d = channel_okD [OF ok]
  have "node_size ?c = node_size c" by simp
  note same = nodes_same(2) [OF this]
  have ar: "area ?c = area c" by (simp add: area_def)
  have "stored c (read_pos c + nodes_of c m) q" using d(9) by simp
  then have "stored ?c (read_pos c + nodes_of c m) q" using stored_same [of ?c c] ar by simp
  then have "stored ?c ((read_pos c + nodes_of c m) mod node_count c) q"
    using stored_pos [of "(read_pos c + nodes_of c m) mod node_count c" ?c "read_pos c + nodes_of c m" q] by simp
  moreover have "write_pos c = ((read_pos c + nodes_of c m) mod node_count c + used_nodes c q) mod node_count c"
    unfolding d(8) by (simp add: mod_add_left_eq add.assoc)
  moreover have "push_count c = ((pop_count c + 1) mod 2 ^ 64 + length q) mod 2 ^ 64"
    using ok unfolding channel_ok_def by (simp add: mod_add_left_eq flip: add_Suc)
  ultimately show ?thesis using ok ar same unfolding channel_ok_def by simp
qed

lemma channel_pop_empty:
  "channel_ok c [] \<Longrightarrow> channel_pop c buf len0 = Some (\<lparr>pop_ret = 0, pop_len = len0, pop_data = [], pop_info = None\<rparr>, c)"
  using channel_okD [of c "[]"] by (simp add: channel_pop_def used_nodes_def)

lemma stored_next:
  assumes ok: "channel_ok c (m # q)"
  shows "check_next c ((read_pos c + nodes_of c m) mod node_count c) = Some ()"
proof (cases q)
  case Nil
  then show ?thesis using channel_okD(8) [OF ok] by (simp add: check_next_def used_nodes_def)
next
  case (Cons m' q')
  let ?p = "(read_pos c + nodes_of c m) mod node_count c"
  note d = channel_okD [OF ok]
  have p: "?p < node_count c" using d(2) by simp
  have st: "stored c ?p (m' # q')"
    using d(9) Cons stored_pos [of ?p c "read_pos c + nodes_of c m" q] by simp
  have "read_head c (node_size c * ?p) = Some (head_of m')"
    by (rule read_head_eq [OF ok p]) (use st in simp_all)
  then show ?thesis
    using p st by (simp add: check_next_def channel_message_at_def head_of_def CH_MAGIC_def split: prod.splits)
qed

lemma channel_pop_ok:
  assumes ok: "channel_ok c (m # q)" and m: "m = (src, dst, t, data)"
  shows "channel_pop c buf len0 = Some
    (let c' = c\<lparr>read_pos := (read_pos c + nodes_of c m) mod node_count c, pop_count := (pop_count c + 1) mod 2 ^ 64\<rparr>;
         got = (\<lambda>n bs. (\<lparr>pop_ret = 1, pop_len = n, pop_data = bs, pop_info = Some (src, dst, t)\<rparr>, c'))
     in case buf of None \<Rightarrow> got len0 []
        | Some cap \<Rightarrow> if cap < length data
            then (\<lparr>pop_ret = - E2BIG, pop_len = length data, pop_data = [], pop_info = None\<rparr>, c)
            else got (length data) data)"
proof -
  note d = channel_okD [OF ok] and nb = nodes_of_bounds [OF ok, of m]
  have st: "ring_get (area c) (nodes c) (read_pos c * node_size c) (length (bytes_of m)) = bytes_of m"
      "data \<noteq> []" "length data < 2 ^ 31" "data_of m = data"
    using d(9) by (simp_all add: m)
  let ?np = "(read_pos c + nodes_of c m) mod node_count c"
  have rn: "nodes_of c m < node_count c" using d(7) by simp
  note np = next_pos [OF ok d(6) nb(2) rn refl]
  have "\<not> read_pos c = write_pos c"
  proof
    assume e: "read_pos c = write_pos c"
    have "(read_pos c + used_nodes c (m # q)) mod node_count c \<noteq> read_pos c"
    proof (cases "read_pos c + used_nodes c (m # q) < node_count c")
      case False
      then have "(read_pos c + used_nodes c (m # q)) mod node_count c = read_pos c + used_nodes c (m # q) - node_count c"
        using d(6,7) by (simp add: mod_if)
      then have "(read_pos c + used_nodes c (m # q)) mod node_count c < read_pos c" using d(7) False by simp
      then show ?thesis by simp
    qed (use nb(2) in simp)
    then show False using trans [OF e d(8)] by metis
  qed
  moreover have "read_head c (node_size c * read_pos c) = Some (head_of m)"
    by (rule read_head_eq [OF ok d(6) _ st(1)]) (use st in simp)
  moreover have "calc_node_count c (length data) = nodes_of c m"
    using calc_node_count_eq [OF ok _ st(3)] st(2) by (simp add: nodes_of_def m)
  moreover have "copy_out c (node_size c * read_pos c) ?np (length data) = Some data"
    using read_message [OF ok refl refl rn refl st(1)] st(4) by simp
  ultimately show ?thesis
    using d(1,6) st stored_next [OF ok] np(2) x86_32_eq [OF st(3)]
    by (cases buf) (simp_all add: channel_pop_def channel_message_at_def head_of_def m finish_pop_def Let_def)
qed

section \<open>Initialisation\<close>

lemma shift_loop_pow2: "shift_loop (2 ^ k) n = k + n"
proof (induction k arbitrary: n)
  case (Suc k)
  have "(1 :: nat) < 2 ^ Suc k" by (rule one_less_power) simp_all
  then show ?case using Suc [of "n + 1"] by (subst shift_loop.simps) simp
qed (subst shift_loop.simps, simp)

text \<open>The test \<^verbatim>\<open>(node_size & (node_size - 1)) == 0\<close> accepts the powers of two.\<close>

lemma and_pred_0: "0 < n \<Longrightarrow> and n (n - 1) = 0 \<Longrightarrow> \<exists>k. n = 2 ^ k" for n :: nat
proof (induction n rule: less_induct)
  case (less n)
  show ?case
  proof (cases "even n")
    case True
    then obtain m where m: "n = 2 * m" by (auto elim: evenE)
    have "and n (n - 1) = 2 * and m (m - 1)"
    proof -
      have "n - 1 = 1 + 2 * (m - 1)" using m less.prems by simp
      then have "and n (n - 1) = and (2 * m) (1 + 2 * (m - 1))" using m by simp
      then show ?thesis by (simp add: and_rec [of "2 * m"])
    qed
    then have "and m (m - 1) = 0" "0 < m" "m < n" using less.prems m by simp_all
    then obtain k where "m = 2 ^ k" using less.IH [of m] by blast
    then show ?thesis using m by (metis power_Suc)
  next
    case False
    have "n = 1"
    proof (rule ccontr)
      assume "n \<noteq> 1"
      then obtain m where m: "n = 2 * m + 1" "0 < m" using False less.prems(1) by (auto elim!: oddE)
      then have "and n (n - 1) = 2 * m" by (simp add: and_rec [of "Suc (2 * m)"])
      then show False using less.prems(2) m(2) by simp
    qed
    then show ?thesis by (metis power_0)
  qed
qed

lemma channel_init_ok:
  assumes "channel_init c nsize ncount = Some (r, c')" and "ncount * nsize < 2 ^ 63"
  shows "r = 0 \<and> channel_ok c' []"
proof -
  have h: "1 < ncount" "and nsize ((nsize + 2 ^ 64 - 1) mod 2 ^ 64) = 0" "32 \<le> nsize"
    using assms(1) by (auto simp: channel_init_def sizeof_channel_message_def split: if_splits)
  have "nsize < 2 ^ 64"
  proof -
    have "1 * nsize \<le> ncount * nsize" using h(1) by (intro mult_le_mono1) simp
    then have "nsize \<le> ncount * nsize" by simp
    from le_less_trans [OF this assms(2)] show ?thesis by simp
  qed
  moreover have "nsize + 2 ^ 64 - 1 = (nsize - 1) + 2 ^ 64" using h(3) by simp
  ultimately have "(nsize + 2 ^ 64 - 1) mod 2 ^ 64 = nsize - 1" by (simp only: mod_add_self2) simp
  then obtain k where "nsize = 2 ^ k" using and_pred_0 [of nsize] h by auto
  then show ?thesis
    using assms h by (auto simp: channel_init_def channel_ok_def shift_loop_pow2 used_nodes_def area_def sizeof_channel_message_def split: if_splits)
qed

section \<open>Properties\<close>

text \<open>
  C7: a channel is a bounded FIFO queue. On a channel that holds the messages \<open>q\<close>, a push of fewer than
  2 GiB either appends the message or, when the free nodes do not suffice, returns \<^verbatim>\<open>-ENOMEM\<close> and changes nothing;
  it never writes outside the node area and never fails an assertion.
\<close>

theorem channel_push_refines:
  assumes "channel_ok c q" and "length data < 2 ^ 31"
  shows "\<exists>r c'. channel_push c src dst t data = Some (r, c') \<and>
    (if data = [] then r = 0 \<and> c' = c
     else if used_nodes c q + nodes_of c (src, dst, t, data) < node_count c
     then r = 0 \<and> channel_ok c' (q @ [(src, dst, t, data)])
     else r = - ENOMEM \<and> c' = c)"
proof (cases "data = []")
  case True
  then show ?thesis using channel_okD(1) [OF assms(1)] by (simp add: channel_push_def)
next
  case False
  show ?thesis
  proof (cases "used_nodes c q + nodes_of c (src, dst, t, data) < node_count c")
    case True
    obtain c' where "channel_push c src dst t data = Some (0, c')" "channel_ok c' (q @ [(src, dst, t, data)])"
      using channel_push_ok [OF assms(1) False assms(2) refl True] by blast
    then show ?thesis using False True by simp
  next
    case no: False
    then show ?thesis using channel_push_full [OF assms(1) False assms(2) refl no] False by simp
  qed
qed

definition demo_channel :: channel where
  "demo_channel = snd (the (channel_init \<lparr>ch_magic = 0, node_count = 0, node_size = 0, node_size_shift = 0,
     push_count = 0, pop_count = 0, read_pos = 0, write_pos = 0, node_offset = 0, nodes = (\<lambda>_. 0)\<rparr> 64 4))"

lemma demo_channel_ok: "channel_ok demo_channel []" "node_count demo_channel = 4" "node_size demo_channel = 64"
proof -
  let ?z = "\<lparr>ch_magic = 0, node_count = 0, node_size = 0, node_size_shift = 0,
     push_count = 0, pop_count = 0, read_pos = 0, write_pos = 0, node_offset = 0, nodes = (\<lambda>_. 0 :: u8)\<rparr>"
  have "and (64 :: nat) ((64 + 2 ^ 64 - 1) mod 2 ^ 64) = 0" by simp
  then have e: "channel_init ?z 64 4 = Some (0, demo_channel)" "node_count demo_channel = 4" "node_size demo_channel = 64"
    by (simp_all add: demo_channel_def channel_init_def sizeof_channel_message_def)
  then show "channel_ok demo_channel []" "node_count demo_channel = 4" "node_size demo_channel = 64"
    using channel_init_ok [OF e(1)] by simp_all
qed

theorem channel_push_refines_witness:
  "\<exists>c'. channel_push demo_channel 1 2 3 [9, 8, 7] = Some (0, c') \<and> channel_ok c' [(1, 2, 3, [9, 8, 7])]"
  using channel_push_refines [OF demo_channel_ok(1), of "[9, 8, 7]" 1 2 3] demo_channel_ok(2,3)
  by (auto simp: used_nodes_def nodes_of_def)

text \<open>
  C8: \<^verbatim>\<open>pop\<close> delivers the oldest message with its sender, receiver and time, removes it when it fits the buffer or
  when there is no buffer, and otherwise reports its length with \<^verbatim>\<open>-E2BIG\<close> and keeps it; on an empty channel it returns 0.
  The hash test never fails and nothing outside the node area is read.
\<close>

theorem channel_pop_refines:
  assumes "channel_ok c q"
  shows "\<exists>r c'. channel_pop c buf len0 = Some (r, c') \<and>
    (case q of
       [] \<Rightarrow> pop_ret r = 0 \<and> c' = c
     | (src, dst, t, data) # q' \<Rightarrow>
         if buf = None then pop_ret r = 1 \<and> pop_info r = Some (src, dst, t) \<and> channel_ok c' q'
         else if length data \<le> the buf
         then pop_ret r = 1 \<and> pop_info r = Some (src, dst, t) \<and> pop_data r = data \<and> pop_len r = length data \<and> channel_ok c' q'
         else pop_ret r = - E2BIG \<and> pop_len r = length data \<and> c' = c)"
proof (cases q)
  case Nil
  then show ?thesis using channel_pop_empty [of c buf len0] assms by simp
next
  case (Cons m q')
  obtain src dst t data where m: "m = (src, dst, t, data)" by (cases m)
  have ok: "channel_ok c (m # q')" using assms Cons by simp
  show ?thesis
    using channel_pop_ok [OF ok m, of buf len0] channel_ok_pop [OF ok] Cons m
    by (cases buf) (auto simp: Let_def)
qed

theorem channel_pop_refines_witness:
  "\<exists>c' r c''. channel_push demo_channel 1 2 3 [9, 8, 7] = Some (0, c') \<and> channel_pop c' (Some 10) 10 = Some (r, c'') \<and>
     pop_ret r = 1 \<and> pop_data r = [9, 8, 7] \<and> channel_ok c'' []"
proof -
  obtain c' where c': "channel_push demo_channel 1 2 3 [9, 8, 7] = Some (0, c')" "channel_ok c' [(1, 2, 3, [9, 8, 7])]"
    using channel_push_ok [OF demo_channel_ok(1) _ _ refl, of "[9, 8, 7]" 1 2 3] demo_channel_ok(2,3)
    by (auto simp: used_nodes_def nodes_of_def)
  then show ?thesis using channel_pop_refines [OF c'(2), of "Some 10" 10] by auto
qed

text \<open>
  \<^verbatim>\<open>message_count\<close> is the number of messages in the channel as long as the counter of pushed messages
  has not wrapped around past the counter of popped ones; otherwise it is 0.
\<close>

lemma message_count_exact:
  assumes "channel_ok c q" and "pop_count c + length q < 2 ^ 64"
  shows "message_count c = length q"
  using assms by (simp add: channel_ok_def message_count_def)

end
