(* ===== verification/Channel_Mgr.thy ===== *)
theory Channel_Mgr
  imports Channel
begin

text \<open>
  \<^verbatim>\<open>src/src/bus/detail/channel_mgr.h\<close> and \<^verbatim>\<open>channel_mgr.cpp\<close>: the directory of channels at the
  beginning of the shared segment of the bus. Offsets are relative to the manager; \<open>chans\<close> gives
  the channel object at an offset. \<^verbatim>\<open>register_channel\<close> and \<^verbatim>\<open>deregister_channel\<close> run under a spin
  lock and are modelled as atomic steps. \<open>notify\<close> is the result of \<^verbatim>\<open>sigqueue\<close>, a parameter; the
  signals that are sent are recorded in \<open>signals\<close>.
\<close>

section \<open>State\<close>

record channel_descriptor =
  owner :: int
  closed :: bool
  desc_pid :: int
  r_offset :: nat
  w_offset :: nat

definition MAX_DESCRIPTOR_COUNT :: nat where "MAX_DESCRIPTOR_COUNT = 128"
definition sizeof_channel_mgr :: nat where "sizeof_channel_mgr = 40 + 128 * 32"

record channel_mgr =
  cm_magic :: nat
  cm_shmid :: int
  cm_pid :: int
  cm_shm_size :: nat
  cm_used_size :: nat
  descriptor_count :: nat
  descriptors :: "nat \<Rightarrow> channel_descriptor"
  chans :: "nat \<Rightarrow> channel"
  signals :: "(int \<times> int) list"

definition no_descriptor :: channel_descriptor where
  "no_descriptor = \<lparr>owner = 0, closed = False, desc_pid = 0, r_offset = 0, w_offset = 0\<rparr>"

section \<open>Operations\<close>

definition channel_mgr_init :: "channel_mgr \<Rightarrow> int \<Rightarrow> int \<Rightarrow> nat \<Rightarrow> bool \<Rightarrow> (int \<times> channel_mgr) option" where
  "channel_mgr_init cm pid shmid sz resume =
     (if resume then do {
        sk_assert (cm_magic cm = CH_MAGIC);
        sk_assert (cm_shmid cm = shmid);
        sk_assert (cm_shm_size cm = sz);
        Some (0, cm\<lparr>cm_pid := pid\<rparr>)
      }
      else Some (0, cm\<lparr>cm_pid := pid, cm_shmid := shmid, cm_shm_size := sz, cm_used_size := sizeof_channel_mgr,
        descriptor_count := 0, descriptors := (\<lambda>_. no_descriptor), cm_magic := CH_MAGIC\<rparr>))"

definition notify_channel_change :: "(int \<Rightarrow> int \<Rightarrow> int) \<Rightarrow> channel_mgr \<Rightarrow> int \<Rightarrow> int \<times> channel_mgr" where
  "notify_channel_change notify cm fd = (notify (cm_pid cm) fd, cm\<lparr>signals := signals cm @ [(cm_pid cm, fd)]\<rparr>)"

fun find_descriptor :: "(nat \<Rightarrow> channel_descriptor) \<Rightarrow> int \<Rightarrow> nat list \<Rightarrow> nat option" where
  "find_descriptor ds busid [] = None"
| "find_descriptor ds busid (i # is) = (if owner (ds i) = busid then Some i else find_descriptor ds busid is)"

definition set_descriptor :: "channel_mgr \<Rightarrow> nat \<Rightarrow> channel_descriptor \<Rightarrow> channel_mgr" where
  "set_descriptor cm i d = cm\<lparr>descriptors := (descriptors cm)(i := d)\<rparr>"

definition set_channel :: "channel_mgr \<Rightarrow> nat \<Rightarrow> channel \<Rightarrow> channel_mgr" where
  "set_channel cm p c = cm\<lparr>chans := (chans cm)(p := c)\<rparr>"

text \<open>The body of the loop of \<^verbatim>\<open>register_channel\<close> for the descriptor of the bus id.\<close>

definition reopen_channel :: "(int \<Rightarrow> int \<Rightarrow> int) \<Rightarrow> channel_mgr \<Rightarrow> nat \<Rightarrow> int \<Rightarrow> ((int \<times> int) \<times> channel_mgr) option" where
  "reopen_channel notify cm i pid = (let d = descriptors cm i in
     if \<not> closed d then Some ((0, int i), set_descriptor cm i (d\<lparr>desc_pid := pid\<rparr>))
     else do {
       sk_assert (ch_magic (chans cm (r_offset d)) = CH_MAGIC);
       rc \<leftarrow> channel_clear (chans cm (r_offset d));
       let cm = set_channel cm (r_offset d) rc;
       sk_assert (ch_magic (chans cm (w_offset d)) = CH_MAGIC);
       wc \<leftarrow> channel_clear (chans cm (w_offset d));
       let cm = set_channel cm (w_offset d) wc;
       sk_assert (node_size rc = node_size wc);
       sk_assert (node_count rc = node_count wc);
       let cm = set_descriptor cm i (d\<lparr>closed := False, desc_pid := pid\<rparr>);
       let (ret, cm) = notify_channel_change notify cm (int i);
       Some ((ret, int i), cm)
     })"

text \<open>The rest of \<^verbatim>\<open>register_channel\<close>: a new descriptor with two channels.\<close>

definition add_channel ::
    "(int \<Rightarrow> int \<Rightarrow> int) \<Rightarrow> channel_mgr \<Rightarrow> int \<Rightarrow> int \<Rightarrow> nat \<Rightarrow> nat \<Rightarrow> ((int \<times> int) \<times> channel_mgr) option" where
  "add_channel notify cm busid pid nsize ncount = do {
     let channel_size = calc_space nsize ncount;
     sk_assert (channel_size > 0);
     let left_size = (if cm_shm_size cm > cm_used_size cm then cm_shm_size cm - cm_used_size cm else 0);
     if left_size < channel_size * 2 mod 2 ^ 64 then Some ((- ENOMEM, -1), cm)
     else do {
       let fd = descriptor_count cm;
       sk_assert (fd < MAX_DESCRIPTOR_COUNT);
       let r_off = cm_used_size cm;
       let w_off = (r_off + channel_size) mod 2 ^ 64;
       let cm = cm\<lparr>descriptor_count := fd + 1, cm_used_size := (w_off + channel_size) mod 2 ^ 64\<rparr>;
       let cm = set_descriptor cm fd \<lparr>owner = busid, closed = False, desc_pid = pid, r_offset = r_off, w_offset = w_off\<rparr>;
       (ret, rc) \<leftarrow> channel_init (chans cm r_off) nsize ncount;
       let cm = set_channel cm r_off rc;
       if ret \<noteq> 0 then Some ((ret, int fd), cm)
       else do {
         (ret, wc) \<leftarrow> channel_init (chans cm w_off) nsize ncount;
         let cm = set_channel cm w_off wc;
         if ret \<noteq> 0 then Some ((ret, int fd), cm)
         else do {
           let (ret, cm) = notify_channel_change notify cm (int fd);
           Some ((ret, int fd), cm)
         }
       }
     }
   }"

definition register_channel ::
    "(int \<Rightarrow> int \<Rightarrow> int) \<Rightarrow> channel_mgr \<Rightarrow> int \<Rightarrow> int \<Rightarrow> nat \<Rightarrow> nat \<Rightarrow> int \<Rightarrow> ((int \<times> int) \<times> channel_mgr) option" where
  "register_channel notify cm busid pid nsize ncount fd =
     (if cm_magic cm \<noteq> CH_MAGIC then Some ((- EINVAL, fd), cm)
      else if and nsize ((nsize + 2 ^ 64 - 1) mod 2 ^ 64) \<noteq> 0 then Some ((- EINVAL, fd), cm)
      else case find_descriptor (descriptors cm) busid [0..<descriptor_count cm] of
        Some i \<Rightarrow> reopen_channel notify cm i pid
      | None \<Rightarrow> add_channel notify cm busid pid nsize ncount)"

definition deregister_channel :: "(int \<Rightarrow> int \<Rightarrow> int) \<Rightarrow> channel_mgr \<Rightarrow> int \<Rightarrow> channel_mgr" where
  "deregister_channel notify cm busid =
     (case find_descriptor (descriptors cm) busid [0..<descriptor_count cm] of
        None \<Rightarrow> cm
      | Some i \<Rightarrow> (let d = descriptors cm i in
          if closed d then cm
          else snd (notify_channel_change notify (set_descriptor cm i (d\<lparr>closed := True, desc_pid := 0\<rparr>)) (int i))))"

text \<open>The inner \<open>None\<close> is a null pointer, the outer one a failed assertion.\<close>

definition get_read_channel :: "channel_mgr \<Rightarrow> int \<Rightarrow> nat option option" where
  "get_read_channel cm fd = do {
     sk_assert (0 \<le> fd \<and> fd < int (descriptor_count cm));
     let d = descriptors cm (nat fd);
     if closed d then Some None
     else do {
       sk_assert (ch_magic (chans cm (r_offset d)) = CH_MAGIC);
       Some (Some (r_offset d))
     }
   }"

definition get_write_channel :: "channel_mgr \<Rightarrow> int \<Rightarrow> nat option option" where
  "get_write_channel cm fd = do {
     sk_assert (0 \<le> fd \<and> fd < int (descriptor_count cm));
     let d = descriptors cm (nat fd);
     if closed d then Some None
     else do {
       sk_assert (ch_magic (chans cm (w_offset d)) = CH_MAGIC);
       Some (Some (w_offset d))
     }
   }"

definition get_owner_busid :: "channel_mgr \<Rightarrow> int \<Rightarrow> int option" where
  "get_owner_busid cm fd = do {
     sk_assert (0 \<le> fd \<and> fd < int (descriptor_count cm));
     Some (owner (descriptors cm (nat fd)))
   }"

definition find_read_channel :: "channel_mgr \<Rightarrow> int \<Rightarrow> int \<Rightarrow> (nat option \<times> int) option" where
  "find_read_channel cm busid fd =
     (case find_descriptor (descriptors cm) busid [0..<descriptor_count cm] of
        None \<Rightarrow> Some (None, fd)
      | Some i \<Rightarrow> do { p \<leftarrow> get_read_channel cm (int i); Some (p, int i) })"

section \<open>Invariant\<close>

definition space :: "channel \<Rightarrow> nat" where
  "space c = sizeof_channel + node_size c * node_count c"

text \<open>
  \<open>Q i\<close> are the messages in the read and in the write channel of descriptor \<open>i\<close>. The channels lie
  one behind the other in the used part of the segment.
\<close>

definition desc_ok :: "channel_mgr \<Rightarrow> channel_descriptor \<Rightarrow> message list \<times> message list \<Rightarrow> bool" where
  "desc_ok cm d q \<longleftrightarrow> (let rc = chans cm (r_offset d); wc = chans cm (w_offset d) in
     channel_ok rc (fst q) \<and> channel_ok wc (snd q) \<and> node_size rc = node_size wc \<and> node_count rc = node_count wc \<and>
     sizeof_channel_mgr \<le> r_offset d \<and> r_offset d + space rc = w_offset d \<and> w_offset d + space wc \<le> cm_used_size cm)"

definition mgr_ok :: "channel_mgr \<Rightarrow> (nat \<Rightarrow> message list \<times> message list) \<Rightarrow> bool" where
  "mgr_ok cm Q \<longleftrightarrow> cm_magic cm = CH_MAGIC \<and> descriptor_count cm \<le> MAX_DESCRIPTOR_COUNT \<and>
     sizeof_channel_mgr \<le> cm_used_size cm \<and> cm_used_size cm \<le> cm_shm_size cm \<and> cm_shm_size cm < 2 ^ 63 \<and>
     (\<forall>i < descriptor_count cm. desc_ok cm (descriptors cm i) (Q i)) \<and>
     (\<forall>i j. i < j \<longrightarrow> j < descriptor_count cm \<longrightarrow>
        w_offset (descriptors cm i) + space (chans cm (w_offset (descriptors cm i))) \<le> r_offset (descriptors cm j)) \<and>
     inj_on (\<lambda>i. owner (descriptors cm i)) {..<descriptor_count cm}"

lemma mgr_okD:
  assumes "mgr_ok cm Q"
  shows "cm_magic cm = CH_MAGIC" "descriptor_count cm \<le> 128" "sizeof_channel_mgr \<le> cm_used_size cm"
    "cm_used_size cm \<le> cm_shm_size cm" "cm_shm_size cm < 2 ^ 63"
    "i < descriptor_count cm \<Longrightarrow> desc_ok cm (descriptors cm i) (Q i)"
    "i < j \<Longrightarrow> j < descriptor_count cm \<Longrightarrow>
      w_offset (descriptors cm i) + space (chans cm (w_offset (descriptors cm i))) \<le> r_offset (descriptors cm j)"
    "inj_on (\<lambda>i. owner (descriptors cm i)) {..<descriptor_count cm}"
  using assms unfolding mgr_ok_def MAX_DESCRIPTOR_COUNT_def by blast+

lemma find_descriptor_None: "find_descriptor ds b is = None \<longleftrightarrow> (\<forall>i \<in> set is. owner (ds i) \<noteq> b)"
  by (induction "is") auto

lemma find_descriptor_Some: "find_descriptor ds b is = Some i \<Longrightarrow> i \<in> set is \<and> owner (ds i) = b"
  by (induction "is") (auto split: if_splits)

lemma find_descriptor_eq:
  assumes "mgr_ok cm Q" "i < descriptor_count cm" "owner (descriptors cm i) = b"
  shows "find_descriptor (descriptors cm) b [0..<descriptor_count cm] = Some i"
proof (cases "find_descriptor (descriptors cm) b [0..<descriptor_count cm]")
  case None then show ?thesis using assms by (auto simp: find_descriptor_None)
next
  case (Some j)
  then have "j < descriptor_count cm" "owner (descriptors cm j) = b" using find_descriptor_Some by force+
  then show ?thesis using Some assms mgr_okD(8) [OF assms(1)] by (auto dest: inj_onD)
qed

lemma space_pos: "0 < space c" by (simp add: space_def sizeof_channel_def)

text \<open>The channels of different descriptors are at different offsets.\<close>

lemma mgr_offsets:
  assumes ok: "mgr_ok cm Q" and i: "i < descriptor_count cm" and j: "j < descriptor_count cm" and ne: "i \<noteq> j"
  shows "r_offset (descriptors cm i) \<noteq> r_offset (descriptors cm j)" "r_offset (descriptors cm i) \<noteq> w_offset (descriptors cm j)"
    "w_offset (descriptors cm i) \<noteq> w_offset (descriptors cm j)"
proof -
  let ?r = "\<lambda>i. r_offset (descriptors cm i)" and ?w = "\<lambda>i. w_offset (descriptors cm i)"
  have lt: "?r a < ?w a" if "a < descriptor_count cm" for a
    using mgr_okD(6) [OF ok that] space_pos [of "chans cm (?r a)"] by (simp add: desc_ok_def Let_def)
  have ord: "?w a < ?r b" if "a < b" "b < descriptor_count cm" for a b
    using mgr_okD(7) [OF ok that] space_pos [of "chans cm (?w a)"] by linarith
  consider "i < j" | "j < i" using ne by linarith
  then show "?r i \<noteq> ?r j" "?r i \<noteq> ?w j" "?w i \<noteq> ?w j"
    using lt [OF i] lt [OF j] ord [of i j] ord [of j i] i j by (cases; linarith)+
qed

lemma desc_offsets:
  assumes "desc_ok cm d q"
  shows "r_offset d < w_offset d"
  using assms space_pos [of "chans cm (r_offset d)"] by (simp add: desc_ok_def Let_def)

section \<open>Updates that keep the invariant\<close>

lemma space_same: "node_size c' = node_size c \<Longrightarrow> node_count c' = node_count c \<Longrightarrow> space c' = space c"
  by (simp add: space_def)

lemma mgr_ok_channel:
  assumes ok: "mgr_ok cm Q" and i: "i < descriptor_count cm"
    and c: "channel_ok c' q'" "node_size c' = node_size (chans cm p)" "node_count c' = node_count (chans cm p)"
    and p: "p = r_offset (descriptors cm i) \<and> q = (q', snd (Q i)) \<or> p = w_offset (descriptors cm i) \<and> q = (fst (Q i), q')"
  shows "mgr_ok (set_channel cm p c') (Q(i := q))"
proof -
  let ?cm = "set_channel cm p c'"
  have f: "cm_magic ?cm = cm_magic cm" "descriptor_count ?cm = descriptor_count cm" "cm_used_size ?cm = cm_used_size cm"
      "cm_shm_size ?cm = cm_shm_size cm" "descriptors ?cm = descriptors cm" "chans ?cm = (chans cm)(p := c')"
    by (simp_all add: set_channel_def)
  have sp: "space (chans ?cm x) = space (chans cm x)" for x
    using space_same [of c' "chans cm p"] c(2,3) f(6) by simp
  have ns: "node_size (chans ?cm x) = node_size (chans cm x)" "node_count (chans ?cm x) = node_count (chans cm x)" for x
    using c(2,3) f(6) by simp_all
  have "desc_ok ?cm (descriptors cm j) ((Q(i := q)) j)" if j: "j < descriptor_count cm" for j
  proof (cases "j = i")
    case True
    have d: "desc_ok cm (descriptors cm i) (Q i)" using mgr_okD(6) [OF ok i] .
    show ?thesis
      using d p c(1) desc_offsets [OF d] True sp ns f(3,6) by (auto simp: desc_ok_def Let_def)
  next
    case False
    then have "r_offset (descriptors cm j) \<noteq> p" "w_offset (descriptors cm j) \<noteq> p"
      using p mgr_offsets [OF ok i j] mgr_offsets [OF ok j i] by auto
    then show ?thesis using mgr_okD(6) [OF ok j] False f(3,6) by (simp add: desc_ok_def Let_def)
  qed
  then show ?thesis using mgr_okD [OF ok] f sp unfolding mgr_ok_def MAX_DESCRIPTOR_COUNT_def by simp
qed

lemma mgr_ok_descriptor:
  assumes ok: "mgr_ok cm Q" and d: "owner d = owner (descriptors cm i)" "r_offset d = r_offset (descriptors cm i)"
    "w_offset d = w_offset (descriptors cm i)"
  shows "mgr_ok (set_descriptor cm i d) Q"
proof -
  have "desc_ok (cm\<lparr>descriptors := (descriptors cm)(i := d)\<rparr>) (((descriptors cm)(i := d)) j) (Q j) = desc_ok cm (descriptors cm j) (Q j)" for j
    using d by (simp add: desc_ok_def Let_def)
  moreover have "owner (((descriptors cm)(i := d)) j) = owner (descriptors cm j)"
      "r_offset (((descriptors cm)(i := d)) j) = r_offset (descriptors cm j)"
      "w_offset (((descriptors cm)(i := d)) j) = w_offset (descriptors cm j)" for j
    using d by simp_all
  ultimately show ?thesis using ok unfolding mgr_ok_def set_descriptor_def by (simp del: fun_upd_apply)
qed

lemma mgr_ok_signals: "mgr_ok (cm\<lparr>signals := x\<rparr>) Q \<longleftrightarrow> mgr_ok cm Q"
  by (simp add: mgr_ok_def desc_ok_def)

lemma channel_clear_ok:
  assumes "channel_ok c q"
  shows "\<exists>c'. channel_clear c = Some c' \<and> channel_ok c' [] \<and> node_size c' = node_size c \<and> node_count c' = node_count c"
proof -
  let ?c = "c\<lparr>push_count := 0, pop_count := 0, read_pos := 0, write_pos := 0\<rparr>"
  have "channel_clear c = Some ?c" using assms by (simp add: channel_clear_def channel_ok_def)
  moreover have "channel_ok ?c []" using assms by (auto simp: channel_ok_def used_nodes_def area_def)
  ultimately show ?thesis by (intro exI [of _ ?c]) simp
qed

lemma reopen_channel_ok:
  assumes ok: "mgr_ok cm Q" and i: "i < descriptor_count cm"
  shows "\<exists>ret cm'. reopen_channel notify cm i pid = Some ((ret, int i), cm') \<and>
    (if closed (descriptors cm i) then ret = notify (cm_pid cm) (int i) \<and> mgr_ok cm' (Q(i := ([], [])))
     else ret = 0 \<and> mgr_ok cm' Q) \<and>
    descriptor_count cm' = descriptor_count cm \<and> owner (descriptors cm' i) = owner (descriptors cm i) \<and>
    \<not> closed (descriptors cm' i) \<and> desc_pid (descriptors cm' i) = pid"
proof (cases "closed (descriptors cm i)")
  case False
  then show ?thesis
    using mgr_ok_descriptor [OF ok, of "(descriptors cm i)\<lparr>desc_pid := pid\<rparr>" i]
    by (simp add: reopen_channel_def Let_def) (simp add: set_descriptor_def)
next
  case True
  let ?d = "descriptors cm i"
  have d: "desc_ok cm ?d (Q i)" using mgr_okD(6) [OF ok i] .
  note lt = desc_offsets [OF d]
  have ch: "channel_ok (chans cm (r_offset ?d)) (fst (Q i))" "channel_ok (chans cm (w_offset ?d)) (snd (Q i))"
      "node_size (chans cm (r_offset ?d)) = node_size (chans cm (w_offset ?d))"
      "node_count (chans cm (r_offset ?d)) = node_count (chans cm (w_offset ?d))"
    using d by (simp_all add: desc_ok_def Let_def)
  obtain rc where rc: "channel_clear (chans cm (r_offset ?d)) = Some rc" "channel_ok rc []"
      "node_size rc = node_size (chans cm (r_offset ?d))" "node_count rc = node_count (chans cm (r_offset ?d))"
    using channel_clear_ok [OF ch(1)] by blast
  obtain wc where wc: "channel_clear (chans cm (w_offset ?d)) = Some wc" "channel_ok wc []"
      "node_size wc = node_size (chans cm (w_offset ?d))" "node_count wc = node_count (chans cm (w_offset ?d))"
    using channel_clear_ok [OF ch(2)] by blast
  define cm1 where "cm1 = set_channel cm (r_offset ?d) rc"
  have k1: "mgr_ok cm1 (Q(i := ([], snd (Q i))))"
    unfolding cm1_def by (rule mgr_ok_channel [OF ok i rc(2-4)]) simp
  have f1: "descriptors cm1 = descriptors cm" "descriptor_count cm1 = descriptor_count cm" "cm_pid cm1 = cm_pid cm"
      "chans cm1 (w_offset ?d) = chans cm (w_offset ?d)"
    using lt by (simp_all add: cm1_def set_channel_def)
  define cm2 where "cm2 = set_channel cm1 (w_offset ?d) wc"
  have "mgr_ok cm2 ((Q(i := ([], snd (Q i))))(i := ([], [])))"
    unfolding cm2_def by (rule mgr_ok_channel [OF k1 _ wc(2)]) (use f1 i wc(3,4) in simp_all)
  then have k2: "mgr_ok cm2 (Q(i := ([], [])))" by simp
  have f2: "descriptors cm2 = descriptors cm" "descriptor_count cm2 = descriptor_count cm" "cm_pid cm2 = cm_pid cm"
    using f1 by (simp_all add: cm2_def set_channel_def)
  define cm3 where "cm3 = set_descriptor cm2 i (?d\<lparr>closed := False, desc_pid := pid\<rparr>)"
  have k3: "mgr_ok cm3 (Q(i := ([], [])))" unfolding cm3_def by (rule mgr_ok_descriptor [OF k2]) (simp_all add: f2)
  have f3: "descriptors cm3 i = ?d\<lparr>closed := False, desc_pid := pid\<rparr>" "descriptor_count cm3 = descriptor_count cm" "cm_pid cm3 = cm_pid cm"
    using f2 by (simp_all add: cm3_def set_descriptor_def)
  have "reopen_channel notify cm i pid = Some ((notify (cm_pid cm) (int i), int i), cm3\<lparr>signals := signals cm3 @ [(cm_pid cm, int i)]\<rparr>)"
    using True ch rc wc f1 f3 channel_okD(1) [OF ch(1)] channel_okD(1) [OF ch(2)]
    by (simp add: reopen_channel_def notify_channel_change_def Let_def flip: cm1_def cm2_def cm3_def)
  then show ?thesis using True k3 f3 by (simp add: mgr_ok_signals)
qed

lemma channel_init_run:
  assumes "1 < ncount" "and nsize ((nsize + 2 ^ 64 - 1) mod 2 ^ 64) = 0" "32 \<le> nsize" "ncount * nsize < 2 ^ 63"
  shows "\<exists>c'. channel_init c nsize ncount = Some (0, c') \<and> channel_ok c' [] \<and> node_size c' = nsize \<and> node_count c' = ncount"
proof -
  obtain c' where c': "channel_init c nsize ncount = Some (0, c')" "node_size c' = nsize" "node_count c' = ncount"
    using assms by (simp add: channel_init_def sizeof_channel_message_def)
  then show ?thesis using channel_init_ok [OF c'(1) assms(4)] by blast
qed

lemma small_space: "x < 2 ^ 61 \<Longrightarrow> 72 + x < 2 ^ 64 \<and> (72 + x) * 2 < 2 ^ 64" for x :: nat
  by simp

lemma add_channel_ok:
  assumes ok: "mgr_ok cm Q" and new: "\<And>i. i < descriptor_count cm \<Longrightarrow> owner (descriptors cm i) \<noteq> busid"
    and n: "1 < ncount" "and nsize ((nsize + 2 ^ 64 - 1) mod 2 ^ 64) = 0" "32 \<le> nsize" "nsize * ncount < 2 ^ 61"
    and room: "descriptor_count cm < 128" "2 * (72 + nsize * ncount) \<le> cm_shm_size cm - cm_used_size cm"
  shows "\<exists>cm'. add_channel notify cm busid pid nsize ncount =
      Some ((notify (cm_pid cm) (int (descriptor_count cm)), int (descriptor_count cm)), cm') \<and>
    mgr_ok cm' (Q(descriptor_count cm := ([], []))) \<and> descriptor_count cm' = descriptor_count cm + 1 \<and>
    owner (descriptors cm' (descriptor_count cm)) = busid \<and> \<not> closed (descriptors cm' (descriptor_count cm)) \<and>
    (\<forall>i < descriptor_count cm. descriptors cm' i = descriptors cm i)"
proof -
  note d = mgr_okD [OF ok]
  define SP where "SP = 72 + nsize * ncount"
  let ?u = "cm_used_size cm" and ?k = "descriptor_count cm"
  have n63: "ncount * nsize < 2 ^ 63" using n(4) by (simp add: mult.commute)
  have lt: "SP < 2 ^ 64" "SP * 2 < 2 ^ 64" using small_space [OF n(4)] by (simp_all add: SP_def)
  then have sp: "calc_space nsize ncount = SP" "SP * 2 mod 2 ^ 64 = SP * 2"
    by (simp_all add: calc_space_def sizeof_channel_def flip: SP_def)
  have left: "2 * SP \<le> cm_shm_size cm - ?u" "0 < SP" using room(2) by (simp_all only: SP_def)
  then have u: "?u + SP + SP \<le> cm_shm_size cm" "?u < cm_shm_size cm" using d(4) by linarith+
  have w: "(?u + SP) mod 2 ^ 64 = ?u + SP" "(?u + SP + SP) mod 2 ^ 64 = ?u + SP + SP"
    using le_less_trans [OF u(1) d(5)] by simp_all
  let ?d = "\<lparr>owner = busid, closed = False, desc_pid = pid, r_offset = ?u, w_offset = ?u + SP\<rparr>"
  define cm1 where "cm1 = set_descriptor (cm\<lparr>descriptor_count := Suc ?k, cm_used_size := ?u + SP + SP\<rparr>) ?k ?d"
  obtain rc where rc: "channel_init (chans cm1 ?u) nsize ncount = Some (0, rc)" "channel_ok rc []" "node_size rc = nsize" "node_count rc = ncount"
    using channel_init_run [OF n(1-3) n63] by blast
  define cm2 where "cm2 = set_channel cm1 ?u rc"
  obtain wc where wc: "channel_init (chans cm2 (?u + SP)) nsize ncount = Some (0, wc)" "channel_ok wc []" "node_size wc = nsize" "node_count wc = ncount"
    using channel_init_run [OF n(1-3) n63] by blast
  define cm3 where "cm3 = set_channel cm2 (?u + SP) wc"
  let ?cm = "cm3\<lparr>signals := signals cm3 @ [(cm_pid cm, int ?k)]\<rparr>"
  have f: "descriptors cm3 = (descriptors cm)(?k := ?d)" "descriptor_count cm3 = ?k + 1" "cm_used_size cm3 = ?u + SP + SP"
      "cm_shm_size cm3 = cm_shm_size cm" "cm_magic cm3 = cm_magic cm" "cm_pid cm3 = cm_pid cm"
      "chans cm3 = (chans cm)(?u := rc, ?u + SP := wc)"
    by (simp_all add: cm3_def cm2_def cm1_def set_channel_def set_descriptor_def)
  have spc: "space rc = SP" "space wc = SP" using rc(3,4) wc(3,4) by (simp_all add: space_def sizeof_channel_def SP_def)
  have old: "r_offset (descriptors cm i) < ?u" "w_offset (descriptors cm i) < ?u"
      "w_offset (descriptors cm i) + space (chans cm (w_offset (descriptors cm i))) \<le> ?u" if "i < ?k" for i
    using d(6) [OF that] desc_offsets [OF d(6) [OF that]] space_pos [of "chans cm (w_offset (descriptors cm i))"]
    by (auto simp: desc_ok_def Let_def)
  have keep: "chans cm3 x = chans cm x" if "x < ?u" for x using that f(7) by simp
  have dk: "desc_ok cm3 (descriptors cm i) (Q i)" if "i < ?k" for i
    using d(6) [OF that] old [OF that] keep f(3) by (simp add: desc_ok_def Let_def)
  have ne: "?u \<noteq> ?u + SP" using left(2) by simp
  have dn: "desc_ok cm3 ?d ([], [])"
    unfolding desc_ok_def Let_def using rc wc spc f(3,7) ne d(3) by simp
  have "mgr_ok cm3 (Q(?k := ([], [])))"
    unfolding mgr_ok_def MAX_DESCRIPTOR_COUNT_def
  proof (intro conjI allI impI)
    fix i assume "i < descriptor_count cm3"
    then show "desc_ok cm3 (descriptors cm3 i) ((Q(?k := ([], []))) i)" using dk dn f(1,2) by (cases "i = ?k") auto
  next
    fix i j assume ij: "i < j" "j < descriptor_count cm3"
    then have i: "i < ?k" using f(2) by simp
    have e: "descriptors cm3 i = descriptors cm i" "chans cm3 (w_offset (descriptors cm i)) = chans cm (w_offset (descriptors cm i))"
      using i f(1) keep [OF old(2) [OF i]] by simp_all
    show "w_offset (descriptors cm3 i) + space (chans cm3 (w_offset (descriptors cm3 i))) \<le> r_offset (descriptors cm3 j)"
    proof (cases "j = ?k")
      case True then show ?thesis using e old(3) [OF i] f(1) by simp
    next
      case False
      then have "j < ?k" using ij f(2) by simp
      then show ?thesis using e d(7) [OF ij(1)] f(1) False by simp
    qed
  next
    show "inj_on (\<lambda>i. owner (descriptors cm3 i)) {..<descriptor_count cm3}"
    proof (rule inj_onI)
      fix x y assume "x \<in> {..<descriptor_count cm3}" "y \<in> {..<descriptor_count cm3}" "owner (descriptors cm3 x) = owner (descriptors cm3 y)"
      then show "x = y" using new [of x] new [of y] inj_onD [OF d(8), of x y] f(1,2) by (auto simp: less_Suc_eq split: if_splits)
    qed
  qed (use d f u room in auto)
  moreover have "add_channel notify cm busid pid nsize ncount = Some ((notify (cm_pid cm) (int ?k), int ?k), ?cm)"
    using sp w u(2) left room(1) rc(1) wc(1) f(6)
    by (simp add: add_channel_def MAX_DESCRIPTOR_COUNT_def notify_channel_change_def mult.commute Let_def flip: cm1_def cm2_def cm3_def)
  ultimately show ?thesis using f(1,2) by (intro exI [of _ ?cm]) (simp add: mgr_ok_signals)
qed

section \<open>Properties\<close>

text \<open>
  C16: registering a bus id keeps the directory well formed: all channels stay inside the used part of the segment and
  never overlap. An open channel of the bus id is found again with its messages, a closed one is reopened empty,
  otherwise two empty channels are added, or \<^verbatim>\<open>-ENOMEM\<close> is returned and nothing changes.
\<close>

theorem register_channel_refines:
  assumes "mgr_ok cm Q" and "1 < ncount" and "and nsize ((nsize + 2 ^ 64 - 1) mod 2 ^ 64) = 0" and "32 \<le> nsize"
    and "nsize * ncount < 2 ^ 61" and "descriptor_count cm < 128"
  shows "\<exists>ret fd' cm'. register_channel notify cm busid pid nsize ncount fd = Some ((ret, fd'), cm') \<and>
    (case find_descriptor (descriptors cm) busid [0..<descriptor_count cm] of
       Some i \<Rightarrow> fd' = int i \<and> descriptor_count cm' = descriptor_count cm \<and> \<not> closed (descriptors cm' i) \<and>
         mgr_ok cm' (if closed (descriptors cm i) then Q(i := ([], [])) else Q)
     | None \<Rightarrow>
         if 2 * (72 + nsize * ncount) \<le> cm_shm_size cm - cm_used_size cm
         then fd' = int (descriptor_count cm) \<and> descriptor_count cm' = descriptor_count cm + 1 \<and>
           owner (descriptors cm' (descriptor_count cm)) = busid \<and> \<not> closed (descriptors cm' (descriptor_count cm)) \<and>
           mgr_ok cm' (Q(descriptor_count cm := ([], [])))
         else ret = - ENOMEM \<and> fd' = -1 \<and> cm' = cm)"
proof (cases "find_descriptor (descriptors cm) busid [0..<descriptor_count cm]")
  case (Some i)
  have i: "i < descriptor_count cm" using find_descriptor_Some [OF Some] by simp
  have run: "register_channel notify cm busid pid nsize ncount fd = reopen_channel notify cm i pid"
    using Some assms(3) mgr_okD(1) [OF assms(1)] by (simp add: register_channel_def)
  show ?thesis
    using reopen_channel_ok [OF assms(1) i, of notify pid] Some run by (cases "closed (descriptors cm i)") auto
next
  case None
  then have new: "\<And>i. i < descriptor_count cm \<Longrightarrow> owner (descriptors cm i) \<noteq> busid" by (auto simp: find_descriptor_None)
  have run: "register_channel notify cm busid pid nsize ncount fd = add_channel notify cm busid pid nsize ncount"
    using None assms(3) mgr_okD(1) [OF assms(1)] by (simp add: register_channel_def)
  define SP where "SP = 72 + nsize * ncount"
  show ?thesis
  proof (cases "2 * SP \<le> cm_shm_size cm - cm_used_size cm")
    case True
    then show ?thesis
      using add_channel_ok [OF assms(1) new assms(2-6), of notify pid] None run unfolding SP_def by auto
  next
    case False
    have "SP < 2 ^ 64" "SP * 2 < 2 ^ 64" using small_space [OF assms(5)] by (simp_all add: SP_def)
    then have sp: "calc_space nsize ncount = SP" "SP * 2 mod 2 ^ 64 = SP * 2" "0 < SP"
      by (simp_all add: calc_space_def sizeof_channel_def flip: SP_def) (simp add: SP_def)
    have "add_channel notify cm busid pid nsize ncount = Some ((- ENOMEM, -1), cm)"
      using sp False by (auto simp: add_channel_def Let_def mult.commute)
    then show ?thesis using None run False unfolding SP_def by simp
  qed
qed

definition demo_mgr :: channel_mgr where
  "demo_mgr = \<lparr>cm_magic = CH_MAGIC, cm_shmid = 1, cm_pid = 50, cm_shm_size = 2 ^ 20, cm_used_size = sizeof_channel_mgr,
     descriptor_count = 0, descriptors = (\<lambda>_. no_descriptor), chans = (\<lambda>_. demo_channel), signals = []\<rparr>"

lemma demo_mgr_ok: "mgr_ok demo_mgr (\<lambda>_. ([], []))"
  by (simp add: mgr_ok_def demo_mgr_def sizeof_channel_mgr_def)

theorem register_channel_refines_witness:
  "\<exists>ret cm'. register_channel (\<lambda>_ _. 0) demo_mgr 77 100 64 4 (-1) = Some ((ret, 0), cm') \<and>
     mgr_ok cm' ((\<lambda>_. ([], []))(0 := ([], []))) \<and> owner (descriptors cm' 0) = 77"
proof -
  have "and (64 :: nat) ((64 + 2 ^ 64 - 1) mod 2 ^ 64) = 0" by simp
  note r = register_channel_refines [OF demo_mgr_ok _ this, of 4 "\<lambda>_ _. 0" 77 100 "-1"]
  have f: "descriptor_count demo_mgr = 0" "cm_shm_size demo_mgr - cm_used_size demo_mgr = 2 ^ 20 - 4136"
    by (simp_all add: demo_mgr_def sizeof_channel_mgr_def)
  show ?thesis using r by (auto simp: f)
qed

text \<open>
  \<^verbatim>\<open>register_channel\<close> never compares \<^verbatim>\<open>descriptor_count\<close> with \<^verbatim>\<open>MAX_DESCRIPTOR_COUNT\<close>: once all 128 descriptors
  are taken, registering one more bus id that fits into the segment writes behind the array.
\<close>

theorem register_channel_overruns:
  assumes "mgr_ok cm Q" and "descriptor_count cm = 128" and "and nsize ((nsize + 2 ^ 64 - 1) mod 2 ^ 64) = 0"
    and "\<forall>i < 128. owner (descriptors cm i) \<noteq> busid" and "calc_space nsize ncount * 2 mod 2 ^ 64 \<le> cm_shm_size cm - cm_used_size cm"
  shows "register_channel notify cm busid pid nsize ncount fd = None"
proof -
  have "find_descriptor (descriptors cm) busid [0..<descriptor_count cm] = None"
    using assms(2,4) by (auto simp: find_descriptor_None)
  then show ?thesis
    using assms mgr_okD(1) [OF assms(1)]
    by (auto simp: register_channel_def add_channel_def MAX_DESCRIPTOR_COUNT_def Let_def)
qed

definition full_mgr :: channel_mgr where
  "full_mgr = \<lparr>cm_magic = CH_MAGIC, cm_shmid = 1, cm_pid = 50, cm_shm_size = 2 ^ 20, cm_used_size = 4136 + 656 * 128,
     descriptor_count = 128,
     descriptors = (\<lambda>i. \<lparr>owner = int i, closed = False, desc_pid = 9, r_offset = 4136 + 656 * i, w_offset = 4464 + 656 * i\<rparr>),
     chans = (\<lambda>_. demo_channel), signals = []\<rparr>"

theorem register_channel_overruns_witness:
  "mgr_ok full_mgr (\<lambda>_. ([], [])) \<and> register_channel (\<lambda>_ _. 0) full_mgr 200 9 64 4 (-1) = None"
proof -
  have sp: "space demo_channel = 328" using demo_channel_ok by (simp add: space_def sizeof_channel_def)
  have ok: "mgr_ok full_mgr (\<lambda>_. ([], []))"
    unfolding mgr_ok_def
  proof (intro conjI allI impI)
    fix i assume "i < descriptor_count full_mgr"
    then show "desc_ok full_mgr (descriptors full_mgr i) ([], [])"
      using demo_channel_ok(1) sp by (simp add: desc_ok_def full_mgr_def sizeof_channel_mgr_def Let_def)
  next
    show "inj_on (\<lambda>i. owner (descriptors full_mgr i)) {..<descriptor_count full_mgr}" by (simp add: full_mgr_def inj_on_def)
  qed (use sp in \<open>simp_all add: full_mgr_def sizeof_channel_mgr_def MAX_DESCRIPTOR_COUNT_def\<close>)
  have "and (64 :: nat) ((64 + 2 ^ 64 - 1) mod 2 ^ 64) = 0" by simp
  then have "register_channel (\<lambda>_ _. 0) full_mgr 200 9 64 4 (-1) = None"
    by (intro register_channel_overruns [OF ok]) (auto simp: full_mgr_def calc_space_def sizeof_channel_def)
  then show ?thesis using ok by simp
qed

end
