(* ===== verification/Bus.thy ===== *)
theory Bus
  imports Channel_Mgr
begin

text \<open>
  \<^verbatim>\<open>src/src/bus/bus.cpp\<close>: bus ids and the send and receive functions of a process. The static variables
  of the file are the record \<open>bus\<close>. \<open>now\<close> is the value of the clock.
\<close>

section \<open>Bus ids\<close>

text \<open>
  The union \<^verbatim>\<open>busid_format\<close> on a little-endian machine: the area id is the lowest byte. Sub ids are truncated to
  eight bits when they are stored.
\<close>

definition from_subid :: "32 word \<Rightarrow> 32 word \<Rightarrow> 32 word \<Rightarrow> 32 word \<Rightarrow> 32 word" where
  "from_subid a z f i = take_bit 8 a OR push_bit 8 (take_bit 8 z) OR push_bit 16 (take_bit 8 f) OR push_bit 24 (take_bit 8 i)"

definition area_id :: "32 word \<Rightarrow> 32 word" where "area_id b = take_bit 8 b"
definition zone_id :: "32 word \<Rightarrow> 32 word" where "zone_id b = take_bit 8 (drop_bit 8 b)"
definition func_id :: "32 word \<Rightarrow> 32 word" where "func_id b = take_bit 8 (drop_bit 16 b)"
definition inst_id :: "32 word \<Rightarrow> 32 word" where "inst_id b = take_bit 8 (drop_bit 24 b)"

lemmas subid_defs = area_id_def zone_id_def func_id_def inst_id_def

subsection \<open>Printing and scanning decimal numbers\<close>

definition digit :: "nat \<Rightarrow> char" where "digit n = char_of (48 + n)"
definition is_digit :: "char \<Rightarrow> bool" where "is_digit c \<longleftrightarrow> 48 \<le> (of_char c :: nat) \<and> (of_char c :: nat) \<le> 57"
definition digit_value :: "char \<Rightarrow> nat" where "digit_value c = of_char c - 48"
definition is_space :: "char \<Rightarrow> bool" where
  "is_space c \<longleftrightarrow> (of_char c :: nat) = 32 \<or> 9 \<le> (of_char c :: nat) \<and> (of_char c :: nat) \<le> 13"

fun print_nat :: "nat \<Rightarrow> string" where
  "print_nat n = (if n < 10 then [digit n] else print_nat (n div 10) @ [digit (n mod 10)])"

declare print_nat.simps [simp del]

fun scan_digits :: "nat \<Rightarrow> string \<Rightarrow> nat \<times> string" where
  "scan_digits v [] = (v, [])"
| "scan_digits v (c # cs) = (if is_digit c then scan_digits (v * 10 + digit_value c) cs else (v, c # cs))"

text \<open>
  The conversion \<^verbatim>\<open>%d\<close> of \<^verbatim>\<open>sscanf\<close>: white space is skipped, then an optional sign and at least one digit. The
  value saturates like that of \<^verbatim>\<open>strtol\<close> and is truncated to an \<^verbatim>\<open>int\<close>.
\<close>

definition scan_d :: "string \<Rightarrow> (32 word \<times> string) option" where
  "scan_d s =
     (let s = dropWhile is_space s;
          (neg, s) = (case s of [] \<Rightarrow> (False, []) | c # cs \<Rightarrow>
            if c = CHR ''-'' then (True, cs) else if c = CHR ''+'' then (False, cs) else (False, s))
      in case s of [] \<Rightarrow> None
         | c # cs \<Rightarrow>
             if is_digit c then
               let (v, r) = scan_digits 0 s; i = (if neg then - int v else int v);
                   i = (if i > 2 ^ 63 - 1 then 2 ^ 63 - 1 else if i < - (2 ^ 63) then - (2 ^ 63) else i)
               in Some (word_of_int i, r)
             else None)"

definition scan_dot :: "string \<Rightarrow> string option" where
  "scan_dot s = (case s of [] \<Rightarrow> None | c # cs \<Rightarrow> if c = CHR ''.'' then Some cs else None)"

definition bus_from_string :: "string \<Rightarrow> (32 word \<times> 32 word \<times> 32 word \<times> 32 word) option" where
  "bus_from_string s = do {
     (a, s) \<leftarrow> scan_d s; s \<leftarrow> scan_dot s;
     (z, s) \<leftarrow> scan_d s; s \<leftarrow> scan_dot s;
     (f, s) \<leftarrow> scan_d s; s \<leftarrow> scan_dot s;
     (i, s) \<leftarrow> scan_d s;
     Some (a, z, f, i)
   }"

text \<open>The return value; the four ids are also stored through the pointer arguments.\<close>

definition from_string :: "string \<Rightarrow> 32 word" where
  "from_string s = (case bus_from_string s of None \<Rightarrow> -1 | Some (a, z, f, i) \<Rightarrow> from_subid a z f i)"

definition to_string :: "32 word \<Rightarrow> string" where
  "to_string b = print_nat (unat (area_id b)) @ CHR ''.'' # print_nat (unat (zone_id b)) @ CHR ''.'' #
     print_nat (unat (func_id b)) @ CHR ''.'' # print_nat (unat (inst_id b))"

section \<open>The process side of the bus\<close>

record bus =
  bus_fd :: int
  bus_busid :: int
  bus_mgr :: "channel_mgr option"

definition bus_start :: bus where
  "bus_start = \<lparr>bus_fd = -1, bus_busid = -1, bus_mgr = None\<rparr>"

text \<open>\<open>mapped\<close> is the manager behind the shared memory object, \<open>None\<close> when attaching or mapping fails.\<close>

definition register_bus ::
    "(int \<Rightarrow> int \<Rightarrow> int) \<Rightarrow> bus \<Rightarrow> channel_mgr option \<Rightarrow> int \<Rightarrow> int \<Rightarrow> nat \<Rightarrow> nat \<Rightarrow> (int \<times> bus) option" where
  "register_bus notify b mapped pid busid nsize ncount =
     (if bus_fd b \<noteq> -1 then Some (- EINVAL, b)
      else case mapped of None \<Rightarrow> Some (-1, b)
      | Some cm \<Rightarrow> do {
          ((ret, fd), cm) \<leftarrow> register_channel notify cm busid pid nsize ncount (bus_fd b);
          let b = b\<lparr>bus_mgr := Some cm, bus_fd := fd\<rparr>;
          if ret \<noteq> 0 then Some (ret, b) else Some (0, b\<lparr>bus_busid := busid\<rparr>)
        })"

definition deregister_bus :: "(int \<Rightarrow> int \<Rightarrow> int) \<Rightarrow> bus \<Rightarrow> bus option" where
  "deregister_bus notify b = do {
     cm \<leftarrow> bus_mgr b;
     Some (b\<lparr>bus_mgr := Some (deregister_channel notify cm (bus_busid b)), bus_fd := -1\<rparr>)
   }"

fun push_retry :: "nat \<Rightarrow> channel \<Rightarrow> 32 word \<Rightarrow> 32 word \<Rightarrow> u64 \<Rightarrow> u8 list \<Rightarrow> channel option" where
  "push_retry 0 wc src dst t data = Some wc"
| "push_retry (Suc n) wc src dst t data = do {
     (ret, wc) \<leftarrow> channel_push wc src dst t data;
     if ret = 0 then Some wc else push_retry n wc src dst t data
   }"

definition bus_send :: "bus \<Rightarrow> u64 \<Rightarrow> int \<Rightarrow> u8 list \<Rightarrow> (int \<times> bus) option" where
  "bus_send b now dst_busid data = do {
     sk_assert (bus_fd b \<noteq> -1);
     cm \<leftarrow> bus_mgr b;
     if dst_busid \<le> 0 then Some (- EINVAL, b)
     else do {
       p \<leftarrow> get_write_channel cm (bus_fd b);
       wc \<leftarrow> p;
       src_busid \<leftarrow> get_owner_busid cm (bus_fd b);
       sk_assert (src_busid > 0);
       c \<leftarrow> push_retry 3 (chans cm wc) (word_of_int src_busid) (word_of_int dst_busid) now data;
       let cm = set_channel cm wc c;
       Some (0, b\<lparr>bus_mgr := Some (cm\<lparr>signals := signals cm @ [(cm_pid cm, bus_fd b)]\<rparr>)\<rparr>)
     }
   }"

definition bus_recv :: "bus \<Rightarrow> nat \<Rightarrow> (popped \<times> bus) option" where
  "bus_recv b len = do {
     sk_assert (bus_fd b \<noteq> -1);
     cm \<leftarrow> bus_mgr b;
     p \<leftarrow> get_read_channel cm (bus_fd b);
     rc \<leftarrow> p;
     (r, c) \<leftarrow> channel_pop (chans cm rc) (Some len) len;
     Some (r, b\<lparr>bus_mgr := Some (set_channel cm rc c)\<rparr>)
   }"

section \<open>Round trips of bus ids\<close>

lemma subid_from_subid:
  "area_id (from_subid a z f i) = take_bit 8 a" "zone_id (from_subid a z f i) = take_bit 8 z"
  "func_id (from_subid a z f i) = take_bit 8 f" "inst_id (from_subid a z f i) = take_bit 8 i"
  by (rule bit_word_eqI, auto simp: from_subid_def subid_defs bit_simps)+

lemma from_subid_split: "from_subid (area_id b) (zone_id b) (func_id b) (inst_id b) = b"
proof (rule bit_word_eqI)
  fix n assume "n < LENGTH(32)"
  then consider "n < 8" | "8 \<le> n" "n < 16" | "16 \<le> n" "n < 24" | "24 \<le> n" "n < 32" by fastforce
  then show "bit (from_subid (area_id b) (zone_id b) (func_id b) (inst_id b)) n = bit b n"
    by cases (auto simp: from_subid_def subid_defs bit_simps)
qed

lemma digit_simps:
  assumes "k < 10"
  shows "is_digit (digit k)" "digit_value (digit k) = k"
  using assms by (simp_all add: digit_def is_digit_def digit_value_def)

lemma scan_print:
  "scan_digits v (print_nat n @ r) = scan_digits (v * 10 ^ length (print_nat n) + n) r"
proof (induction n arbitrary: v r rule: print_nat.induct)
  case (1 n)
  show ?case
  proof (cases "n < 10")
    case True then show ?thesis by (simp add: print_nat.simps digit_simps)
  next
    case False
    have "scan_digits v (print_nat n @ r) = scan_digits v (print_nat (n div 10) @ digit (n mod 10) # r)"
      using False by (simp add: print_nat.simps [of n])
    also have "\<dots> = scan_digits ((v * 10 ^ length (print_nat (n div 10)) + n div 10) * 10 + n mod 10) r"
      using 1 [OF False] by (simp add: digit_simps)
    also have "(v * 10 ^ length (print_nat (n div 10)) + n div 10) * 10 + n mod 10 = v * 10 ^ length (print_nat n) + n"
      using False by (simp add: print_nat.simps [of n] add_mult_distrib)
    finally show ?thesis .
  qed
qed

lemma print_nat_hd: "\<exists>c cs. print_nat n = c # cs \<and> is_digit c"
proof (induction n rule: print_nat.induct)
  case (1 n)
  show ?case
  proof (cases "n < 10")
    case True then show ?thesis by (simp add: print_nat.simps digit_simps)
  next
    case False
    then show ?thesis using 1 by (auto simp: print_nat.simps [of n])
  qed
qed

lemma scan_d_print:
  assumes "n < 2 ^ 31" and "r = [] \<or> \<not> is_digit (hd r)"
  shows "scan_d (print_nat n @ r) = Some (word_of_nat n, r)"
proof -
  obtain c cs where c: "print_nat n = c # cs" "is_digit c" using print_nat_hd by blast
  have "\<not> is_space c" "c \<noteq> CHR ''-''" "c \<noteq> CHR ''+''" using c(2) by (auto simp: is_digit_def is_space_def)
  moreover have "scan_digits 0 (c # cs @ r) = (n, r)"
    using scan_print [of 0 n r] assms(2) c by (cases r) auto
  moreover have "int n \<le> 2 ^ 63 - 1" using assms(1) by simp
  ultimately show ?thesis using c assms(1) by (simp add: scan_d_def Let_def)
qed

lemma unat_take_bit8: "unat (take_bit 8 (x :: 32 word)) < 2 ^ 31"
proof -
  have "unat (take_bit 8 x) < 2 ^ 8" using take_bit_nat_less_exp [of 8 "unat x"] by (simp add: unsigned_take_bit_eq)
  then show ?thesis by simp
qed

section \<open>Properties\<close>

text \<open>
  C30: bus ids survive printing and scanning, and the four sub ids of an id determine it; an id composed of four
  numbers has their lowest eight bits as sub ids.
\<close>

theorem busid_roundtrip:
  "from_string (to_string b) = b \<and> from_subid (area_id b) (zone_id b) (func_id b) (inst_id b) = b \<and>
   (area_id (from_subid a z f i), zone_id (from_subid a z f i), func_id (from_subid a z f i), inst_id (from_subid a z f i)) =
     (take_bit 8 a, take_bit 8 z, take_bit 8 f, take_bit 8 i)"
proof -
  have nd: "\<not> is_digit (CHR ''.'')" by (simp add: is_digit_def)
  note sc = scan_d_print [OF unat_take_bit8]
  have "bus_from_string (to_string b) = Some (area_id b, zone_id b, func_id b, inst_id b)"
    using sc [of "CHR ''.'' # r" b for r] sc [of "CHR ''.'' # r" "drop_bit 8 b" for r] sc [of "CHR ''.'' # r" "drop_bit 16 b" for r]
      sc [of "[]" "drop_bit 24 b"] nd
    by (simp add: to_string_def bus_from_string_def subid_defs scan_dot_def)
  then show ?thesis by (simp add: from_string_def from_subid_split subid_from_subid)
qed

lemma push_retry_ok:
  assumes "channel_ok c q" and "data \<noteq> []" "length data < 2 ^ 31"
  shows "\<exists>c'. push_retry (Suc n) c src dst t data = Some c' \<and> node_size c' = node_size c \<and> node_count c' = node_count c \<and>
    channel_ok c' (if used_nodes c q + nodes_of c (src, dst, t, data) < node_count c then q @ [(src, dst, t, data)] else q)"
proof (cases "used_nodes c q + nodes_of c (src, dst, t, data) < node_count c")
  case True
  then show ?thesis using channel_push_ok [OF assms refl True] by auto
next
  case False
  have f: "channel_push c src dst t data = Some (- ENOMEM, c)" by (rule channel_push_full [OF assms refl False])
  have "push_retry m c src dst t data = Some c" for m
    by (induction m) (simp_all add: f ENOMEM_def)
  then show ?thesis using assms(1) False by auto
qed

lemma bus_send_ok:
  assumes "bus_mgr b = Some cm" "mgr_ok cm Q" "bus_fd b = int i" "i < descriptor_count cm"
    and "\<not> closed (descriptors cm i)" "0 < owner (descriptors cm i)" "0 < dst" "data \<noteq> []" "length data < 2 ^ 31"
  shows "\<exists>b' cm'. bus_send b now dst data = Some (0, b') \<and> bus_mgr b' = Some cm' \<and> signals cm' = signals cm @ [(cm_pid cm, bus_fd b)] \<and>
    (let wc = chans cm (w_offset (descriptors cm i)); m = (word_of_int (owner (descriptors cm i)), word_of_int dst, now, data)
     in mgr_ok cm' (Q(i := (fst (Q i),
       if used_nodes wc (snd (Q i)) + nodes_of wc m < node_count wc then snd (Q i) @ [m] else snd (Q i)))))"
proof -
  let ?d = "descriptors cm i"
  let ?wc = "chans cm (w_offset ?d)"
  let ?m = "(word_of_int (owner ?d), word_of_int dst, now, data)"
  let ?q = "if used_nodes ?wc (snd (Q i)) + nodes_of ?wc ?m < node_count ?wc then snd (Q i) @ [?m] else snd (Q i)"
  have w: "channel_ok ?wc (snd (Q i))" using mgr_okD(6) [OF assms(2,4)] by (simp add: desc_ok_def Let_def)
  obtain c where c: "push_retry (Suc 2) ?wc (word_of_int (owner ?d)) (word_of_int dst) now data = Some c"
      "node_size c = node_size ?wc" "node_count c = node_count ?wc" "channel_ok c ?q"
    using push_retry_ok [OF w assms(8,9)] by blast
  define cm1 where "cm1 = set_channel cm (w_offset ?d) c"
  have "mgr_ok cm1 (Q(i := (fst (Q i), ?q)))"
    unfolding cm1_def by (rule mgr_ok_channel [OF assms(2,4) c(4,2,3)]) simp
  then have k: "mgr_ok (cm1\<lparr>signals := signals cm1 @ [(cm_pid cm1, bus_fd b)]\<rparr>) (Q(i := (fst (Q i), ?q)))"
    by (simp add: mgr_ok_signals)
  have "push_retry 3 = push_retry (Suc 2)" by (simp only: numeral_3_eq_3 numeral_2_eq_2)
  note c3 = c(1) [folded this]
  have "get_write_channel cm (int i) = Some (Some (w_offset ?d))" "get_owner_busid cm (int i) = Some (owner ?d)"
    using assms(4,5) channel_okD(1) [OF w] by (simp_all add: get_write_channel_def get_owner_busid_def)
  then have "bus_send b now dst data = Some (0, b\<lparr>bus_mgr := Some (cm1\<lparr>signals := signals cm1 @ [(cm_pid cm1, bus_fd b)]\<rparr>)\<rparr>)"
    using assms(1,3,6,7) c3 by (simp add: bus_send_def Let_def flip: cm1_def del: push_retry.simps)
  moreover have "signals cm1 = signals cm" "cm_pid cm1 = cm_pid cm" by (simp_all add: cm1_def set_channel_def)
  ultimately show ?thesis using k by (simp add: Let_def)
qed

text \<open>
  C9: a registered process sends by appending to its write channel, with its own bus id as the sender, and signals the daemon: when the channel has the nodes that the message needs, \<^verbatim>\<open>send\<close>
  returns 0 and the message is the last one of the channel. A destination that is not positive is refused with \<^verbatim>\<open>-EINVAL\<close>, and nothing changes.
\<close>

theorem bus_send_refines:
  assumes "bus_mgr b = Some cm" and "mgr_ok cm Q" and "bus_fd b = int i" and "i < descriptor_count cm"
    and "\<not> closed (descriptors cm i)" and "0 < owner (descriptors cm i)" and "data \<noteq> []" and "length data < 2 ^ 31"
    and "m = (word_of_int (owner (descriptors cm i)), word_of_int dst, now, data)" and "wc = chans cm (w_offset (descriptors cm i))"
    and "used_nodes wc (snd (Q i)) + nodes_of wc m < node_count wc"
  shows "if dst \<le> 0 then bus_send b now dst data = Some (- EINVAL, b)
    else \<exists>b' cm'. bus_send b now dst data = Some (0, b') \<and> bus_mgr b' = Some cm' \<and> signals cm' = signals cm @ [(cm_pid cm, bus_fd b)] \<and>
      mgr_ok cm' (Q(i := (fst (Q i), snd (Q i) @ [m])))"
proof (cases "dst \<le> 0")
  case True
  then show ?thesis using assms(1,3) by (simp add: bus_send_def)
next
  case False
  then show ?thesis using bus_send_ok [OF assms(1-6) _ assms(7,8), of dst now] assms(9-11) by (simp add: Let_def)
qed

text \<open>
  When the free nodes do not suffice for the message, it is dropped, and \<^verbatim>\<open>send\<close> still returns 0 and signals the daemon; the comment in \<^verbatim>\<open>bus.h\<close> promises an error code.
\<close>

lemma bus_send_drops:
  assumes "bus_mgr b = Some cm" "mgr_ok cm Q" "bus_fd b = int i" "i < descriptor_count cm"
    and "\<not> closed (descriptors cm i)" "0 < owner (descriptors cm i)" "0 < dst" "data \<noteq> []" "length data < 2 ^ 31"
    and "wc = chans cm (w_offset (descriptors cm i))" "node_count wc \<le> used_nodes wc (snd (Q i)) + nodes_of wc (word_of_int (owner (descriptors cm i)), word_of_int dst, now, data)"
  shows "\<exists>b' cm'. bus_send b now dst data = Some (0, b') \<and> bus_mgr b' = Some cm' \<and> mgr_ok cm' Q"
  using bus_send_ok [OF assms(1-9), of now] assms(10,11) by (auto simp: Let_def)

definition demo_bus_mgr :: channel_mgr where
  "demo_bus_mgr = demo_mgr\<lparr>cm_used_size := 4792, descriptor_count := 1,
     descriptors := (\<lambda>_. \<lparr>owner = 77, closed = False, desc_pid = 9, r_offset = 4136, w_offset = 4464\<rparr>)\<rparr>"

lemma demo_bus_mgr_ok: "mgr_ok demo_bus_mgr (\<lambda>_. ([], []))"
proof -
  have sp: "space demo_channel = 328" using demo_channel_ok by (simp add: space_def sizeof_channel_def)
  show ?thesis
    using demo_channel_ok(1) sp
    by (simp add: mgr_ok_def desc_ok_def demo_bus_mgr_def demo_mgr_def sizeof_channel_mgr_def MAX_DESCRIPTOR_COUNT_def inj_on_def Let_def)
qed

theorem bus_send_refines_witness:
  "\<exists>b' cm'. bus_send \<lparr>bus_fd = 0, bus_busid = 77, bus_mgr = Some demo_bus_mgr\<rparr> 5 78 [1, 2, 3] = Some (0, b') \<and>
     bus_mgr b' = Some cm' \<and> mgr_ok cm' ((\<lambda>_. ([], []))(0 := ([], [(77, 78, 5, [1, 2, 3])])))"
proof -
  let ?b = "\<lparr>bus_fd = 0, bus_busid = 77, bus_mgr = Some demo_bus_mgr\<rparr>"
  have d: "descriptor_count demo_bus_mgr = 1" "descriptors demo_bus_mgr 0 =
      \<lparr>owner = 77, closed = False, desc_pid = 9, r_offset = 4136, w_offset = 4464\<rparr>" "chans demo_bus_mgr = (\<lambda>_. demo_channel)"
    by (simp_all add: demo_bus_mgr_def demo_mgr_def)
  show ?thesis
    using bus_send_refines [OF _ demo_bus_mgr_ok, of ?b 0 "[1, 2, 3]" "(77, 78, 5, [1, 2, 3])" 78 5 demo_channel] demo_channel_ok(2,3)
    by (auto simp: d used_nodes_def nodes_of_def)
qed

text \<open>
  C10: a registered process receives the oldest message of its read channel, or learns its length when the buffer is too
  small, or gets 0 when there is none; the directory stays well formed.
\<close>

theorem bus_recv_refines:
  assumes "bus_mgr b = Some cm" and "mgr_ok cm Q" and "bus_fd b = int i" and "i < descriptor_count cm" and "\<not> closed (descriptors cm i)"
  shows "\<exists>r b' cm'. bus_recv b len = Some (r, b') \<and> bus_mgr b' = Some cm' \<and>
    (case fst (Q i) of
       [] \<Rightarrow> pop_ret r = 0 \<and> mgr_ok cm' Q
     | (src, dst, t, data) # q \<Rightarrow>
         if length data \<le> len
         then pop_ret r = 1 \<and> pop_data r = data \<and> pop_info r = Some (src, dst, t) \<and> mgr_ok cm' (Q(i := (q, snd (Q i))))
         else pop_ret r = - E2BIG \<and> pop_len r = length data \<and> mgr_ok cm' Q)"
proof -
  let ?d = "descriptors cm i"
  let ?rc = "chans cm (r_offset ?d)"
  have w: "channel_ok ?rc (fst (Q i))" using mgr_okD(6) [OF assms(2,4)] by (simp add: desc_ok_def Let_def)
  have g: "get_read_channel cm (int i) = Some (Some (r_offset ?d))"
    using assms(4,5) channel_okD(1) [OF w] by (simp add: get_read_channel_def)
  have run: "bus_recv b len = (case channel_pop ?rc (Some len) len of None \<Rightarrow> None
      | Some (r, c) \<Rightarrow> Some (r, b\<lparr>bus_mgr := Some (set_channel cm (r_offset ?d) c)\<rparr>))"
    using assms(1,3) g by (simp add: bus_recv_def split: option.splits)
  have same: "set_channel cm (r_offset ?d) ?rc = cm" by (simp add: set_channel_def)
  show ?thesis
  proof (cases "fst (Q i)")
    case Nil
    then show ?thesis using run channel_pop_empty [of ?rc "Some len" len] w same assms(2) by simp
  next
    case (Cons m q)
    obtain src dst t data where m: "m = (src, dst, t, data)" by (cases m)
    have ok: "channel_ok ?rc (m # q)" using w Cons by simp
    let ?c = "?rc\<lparr>read_pos := (read_pos ?rc + nodes_of ?rc m) mod node_count ?rc, pop_count := (pop_count ?rc + 1) mod 2 ^ 64\<rparr>"
    have "mgr_ok (set_channel cm (r_offset ?d) ?c) (Q(i := (q, snd (Q i))))"
      by (rule mgr_ok_channel [OF assms(2,4) channel_ok_pop [OF ok]]) simp_all
    then show ?thesis
      using run channel_pop_ok [OF ok m, of "Some len" len] Cons m same assms(2) by (simp add: Let_def)
  qed
qed

theorem bus_recv_refines_witness:
  "\<exists>b r b'. bus_recv b 100 = Some (r, b') \<and> pop_ret r = 1 \<and> pop_data r = [1, 2, 3]"
proof -
  obtain c where c: "channel_ok c [(78, 77, 5, [1, 2, 3])]" "node_size c = node_size demo_channel" "node_count c = node_count demo_channel"
    using channel_push_ok [OF demo_channel_ok(1) _ _ refl, of "[1, 2, 3]" 78 77 5] demo_channel_ok(2,3)
    by (auto simp: used_nodes_def nodes_of_def)
  let ?cm = "set_channel demo_bus_mgr 4136 c" and ?Q = "(\<lambda>_. ([], []))(0 := ([(78, 77, 5, [1, 2, 3])], [])) :: nat \<Rightarrow> message list \<times> message list"
  have d: "descriptor_count demo_bus_mgr = 1" "descriptors demo_bus_mgr 0 =
      \<lparr>owner = 77, closed = False, desc_pid = 9, r_offset = 4136, w_offset = 4464\<rparr>" "chans demo_bus_mgr = (\<lambda>_. demo_channel)"
    by (simp_all add: demo_bus_mgr_def demo_mgr_def)
  have ok: "mgr_ok ?cm ?Q" by (rule mgr_ok_channel [OF demo_bus_mgr_ok _ c(1)]) (use c d in simp_all)
  let ?b = "\<lparr>bus_fd = 0, bus_busid = 77, bus_mgr = Some ?cm\<rparr>"
  have "\<exists>r b'. bus_recv ?b 100 = Some (r, b') \<and> pop_ret r = 1 \<and> pop_data r = [1, 2, 3]"
    using bus_recv_refines [OF _ ok, of ?b 0 100] by (auto simp: set_channel_def d)
  then show ?thesis by blast
qed

end
