(* ===== verification/Timer_Wheel.thy ===== *)
theory Timer_Wheel
  imports Dll
begin

text \<open>
  \<^verbatim>\<open>src/src/time/shm_timer.h\<close> and \<^verbatim>\<open>shm_timer.cpp\<close>: the hierarchical timer wheel in shared memory.

  Timers are objects in shared memory, named by their pointers; \<open>timers\<close> gives the objects that are alive and 0 is
  the null pointer. \<open>vec w k i\<close> is the dummy head of slot \<open>i\<close> of \<^verbatim>\<open>tv1_\<close> to \<^verbatim>\<open>tv5_\<close> (\<open>k = 0\<close> to \<open>4\<close>). The memory that
  \<^verbatim>\<open>shm_malloc\<close> hands out is a parameter \<open>alloc\<close>, which answers with a pointer or 0. The registered callbacks are a map
  from timer types to functions on the state, so that a callback may start and stop timers. Two fields are history and
  not in the code: \<open>fired\<close> records the callbacks that were called and \<open>changed\<close> the timers that were started or stopped. Ticks are \<^verbatim>\<open>s64\<close> values of milliseconds divided by 20, far below the limits of the type.
\<close>

unbundle bit_operations_syntax

section \<open>State\<close>

record shm_timer =
  self :: nat
  prev :: nat
  nxt :: nat
  expires :: int
  interval :: int
  running :: bool
  repeats :: int
  timer_type :: int
  cb_len :: nat
  cb_data :: "u8 list"

type_synonym timeval = "int \<times> int"

record timer_mgr =
  timers :: "nat \<Rightarrow> shm_timer option"
  tick :: int
  vec :: "nat \<Rightarrow> nat \<Rightarrow> nat"
  time_offset :: timeval
  start_time :: timeval
  current_time :: timeval
  fired :: "(int \<times> nat) list"
  changed :: "nat list"

record callback =
  cb_size :: nat
  cb_fn :: "nat \<Rightarrow> timer_mgr \<Rightarrow> timer_mgr option"

type_synonym registry = "int \<Rightarrow> callback option"

definition REPEAT_FOREVER :: int where "REPEAT_FOREVER = -1"
definition TIMER_PRECISION_MS :: int where "TIMER_PRECISION_MS = 20"

definition timer_default :: shm_timer where
  "timer_default = \<lparr>self = 0, prev = 0, nxt = 0, expires = 2 ^ 63 - 1, interval = 2 ^ 63 - 1,
     running = False, repeats = 0, timer_type = -1, cb_len = 0, cb_data = []\<rparr>"

definition has_repeats :: "shm_timer \<Rightarrow> bool" where
  "has_repeats t \<longleftrightarrow> repeats t > 0 \<or> repeats t = REPEAT_FOREVER"

definition refresh :: "shm_timer \<Rightarrow> int \<Rightarrow> shm_timer" where
  "refresh t current_tick =
     (let t = (if repeats t > 0 then t\<lparr>repeats := repeats t - 1\<rparr> else t)
      in if repeats t > 0 \<or> repeats t = REPEAT_FOREVER then t\<lparr>expires := current_tick + interval t\<rparr> else t)"

section \<open>Memory and lists\<close>

definition upd_timer :: "timer_mgr \<Rightarrow> nat \<Rightarrow> (shm_timer \<Rightarrow> shm_timer) \<Rightarrow> timer_mgr option" where
  "upd_timer w p f = do { t \<leftarrow> timers w p; Some (w\<lparr>timers := (timers w)(p := Some (f t))\<rparr>) }"

definition construct :: "((nat \<Rightarrow> shm_timer option) \<Rightarrow> nat) \<Rightarrow> timer_mgr \<Rightarrow> nat \<times> timer_mgr" where
  "construct alloc w =
     (let p = alloc (timers w)
      in if p \<noteq> 0 then (p, w\<lparr>timers := (timers w)(p := Some timer_default)\<rparr>) else (0, w))"

definition destruct :: "timer_mgr \<Rightarrow> nat \<Rightarrow> timer_mgr option" where
  "destruct w p = do {
     t \<leftarrow> timers w p;
     sk_assert (prev t = 0 \<and> nxt t = 0);
     Some (w\<lparr>timers := (timers w)(p := None)\<rparr>)
   }"

definition timer_list_init :: "timer_mgr \<Rightarrow> nat \<Rightarrow> timer_mgr option" where
  "timer_list_init w l = upd_timer w l (\<lambda>t. t\<lparr>prev := l, nxt := l\<rparr>)"

definition timer_list_empty :: "timer_mgr \<Rightarrow> nat \<Rightarrow> bool option" where
  "timer_list_empty w l = do {
     head \<leftarrow> timers w l;
     let empty = (nxt head = l);
     sk_assert (\<not> empty \<or> prev head = l);
     Some empty
   }"

definition timer_list_remove :: "timer_mgr \<Rightarrow> nat \<Rightarrow> timer_mgr option" where
  "timer_list_remove w node = do {
     n \<leftarrow> timers w node;
     let p = prev n;
     let q = nxt n;
     w \<leftarrow> upd_timer w p (\<lambda>t. t\<lparr>nxt := q\<rparr>);
     w \<leftarrow> upd_timer w q (\<lambda>t. t\<lparr>prev := p\<rparr>);
     w \<leftarrow> upd_timer w node (\<lambda>t. t\<lparr>nxt := 0\<rparr>);
     upd_timer w node (\<lambda>t. t\<lparr>prev := 0\<rparr>)
   }"

definition timer_list_append :: "timer_mgr \<Rightarrow> nat \<Rightarrow> nat \<Rightarrow> timer_mgr option" where
  "timer_list_append w l node = do {
     head \<leftarrow> timers w l;
     n \<leftarrow> timers w node;
     let p = prev head;
     sk_assert (prev n = 0 \<and> nxt n = 0);
     w \<leftarrow> upd_timer w node (\<lambda>t. t\<lparr>prev := p\<rparr>);
     w \<leftarrow> upd_timer w node (\<lambda>t. t\<lparr>nxt := l\<rparr>);
     w \<leftarrow> upd_timer w p (\<lambda>t. t\<lparr>nxt := node\<rparr>);
     upd_timer w l (\<lambda>t. t\<lparr>prev := node\<rparr>)
   }"

section \<open>Ticks\<close>

text \<open>Division of C, towards zero.\<close>

definition ms2tick :: "int \<Rightarrow> int" where
  "ms2tick ms = (if ms \<ge> 0 then ms div TIMER_PRECISION_MS else - (- ms div TIMER_PRECISION_MS))"

definition c_div :: "int \<Rightarrow> int \<Rightarrow> int" where
  "c_div a b = (if a \<ge> 0 then a div b else - (- a div b))"

definition time2tick :: "timeval \<Rightarrow> int" where
  "time2tick tv = ms2tick (fst tv * 1000 + c_div (snd tv) 1000)"

definition timeval_add :: "timeval \<Rightarrow> timeval \<Rightarrow> timeval" where
  "timeval_add a b =
     (let sec = fst a + fst b; usec = snd a + snd b
      in if usec \<ge> 1000000 then (sec + 1, usec - 1000000) else (sec, usec))"

definition timeval_sub :: "timeval \<Rightarrow> timeval \<Rightarrow> timeval" where
  "timeval_sub a b =
     (let sec = fst a - fst b; usec = snd a - snd b
      in if usec < 0 then (sec - 1, usec + 1000000) else (sec, usec))"

text \<open>\<^verbatim>\<open>TV1_IDX\<close> to \<^verbatim>\<open>TV5_IDX\<close>, and \<^verbatim>\<open>TV1_MAX\<close> to \<^verbatim>\<open>TV4_MAX\<close>.\<close>

definition tv_idx :: "nat \<Rightarrow> int \<Rightarrow> nat" where
  "tv_idx k t = nat (if k = 0 then and t 255 else and (drop_bit (8 + (k - 1) * 6) t) 63)"

definition tv_max :: "nat \<Rightarrow> int" where
  "tv_max k = push_bit (8 + k * 6) 1"

definition search_list :: "timer_mgr \<Rightarrow> int \<Rightarrow> nat option" where
  "search_list w e = do {
     sk_assert (e \<ge> tick w);
     let delta = e - tick w;
     if delta < tv_max 0 then Some (vec w 0 (tv_idx 0 e))
     else if delta < tv_max 1 then Some (vec w 1 (tv_idx 1 e))
     else if delta < tv_max 2 then Some (vec w 2 (tv_idx 2 e))
     else if delta < tv_max 3 then Some (vec w 3 (tv_idx 3 e))
     else do {
       let e = (if delta > 0xFFFFFFFF then 0xFFFFFFFF + tick w else e);
       Some (vec w 4 (tv_idx 4 e))
     }
   }"

definition add_timer :: "timer_mgr \<Rightarrow> nat \<Rightarrow> timer_mgr option" where
  "add_timer w p = do {
     t \<leftarrow> timers w p;
     l \<leftarrow> search_list w (expires t);
     timer_list_append w l p
   }"

partial_function (option) cascade :: "timer_mgr \<Rightarrow> nat \<Rightarrow> timer_mgr option" where
  "cascade w l = do {
     empty \<leftarrow> timer_list_empty w l;
     if empty then Some w
     else do {
       head \<leftarrow> timers w l;
       let p = nxt head;
       t \<leftarrow> timers w p;
       l' \<leftarrow> search_list w (expires t);
       w \<leftarrow> timer_list_remove w p;
       w \<leftarrow> timer_list_append w l' p;
       cascade w l
     }
   }"

section \<open>Callbacks\<close>

definition register_callback :: "registry \<Rightarrow> int \<Rightarrow> callback \<Rightarrow> registry option" where
  "register_callback reg ty c = do { sk_assert (reg ty = None); Some (reg(ty := Some c)) }"

definition has_callback :: "registry \<Rightarrow> int \<Rightarrow> bool" where
  "has_callback reg ty \<longleftrightarrow> reg ty \<noteq> None"

definition on_timeout :: "registry \<Rightarrow> timer_mgr \<Rightarrow> nat \<Rightarrow> timer_mgr option" where
  "on_timeout reg w p = do {
     t \<leftarrow> timers w p;
     c \<leftarrow> reg (timer_type t);
     sk_assert (cb_len t = cb_size c);
     cb_fn c p (w\<lparr>fired := fired w @ [(tick w, p)]\<rparr>)
   }"

section \<open>Running a tick\<close>

text \<open>The end of the loop body of \<^verbatim>\<open>run_timer\<close>, after the callback.\<close>

definition reschedule :: "timer_mgr \<Rightarrow> nat \<Rightarrow> timer_mgr option" where
  "reschedule w p = do {
     w \<leftarrow> upd_timer w p (\<lambda>t. refresh t (tick w));
     t \<leftarrow> timers w p;
     if has_repeats t then do {
       l \<leftarrow> search_list w (expires t);
       w \<leftarrow> timer_list_remove w p;
       timer_list_append w l p
     }
     else do { w \<leftarrow> timer_list_remove w p; destruct w p }
   }"

definition fire :: "registry \<Rightarrow> timer_mgr \<Rightarrow> nat \<Rightarrow> timer_mgr option" where
  "fire reg w p = do {
     t \<leftarrow> timers w p;
     sk_assert (self t = p);
     if running t \<and> \<not> has_repeats t then do { w \<leftarrow> timer_list_remove w p; destruct w p }
     else do {
       w \<leftarrow> (if has_repeats t then do {
           w \<leftarrow> upd_timer w p (\<lambda>t. t\<lparr>running := True\<rparr>);
           w \<leftarrow> on_timeout reg w p;
           upd_timer w p (\<lambda>t. t\<lparr>running := False\<rparr>)
         }
         else Some w);
       reschedule w p
     }
   }"

partial_function (option) expire_list :: "registry \<Rightarrow> timer_mgr \<Rightarrow> nat \<Rightarrow> timer_mgr option" where
  "expire_list reg w l = do {
     empty \<leftarrow> timer_list_empty w l;
     if empty then Some w
     else do {
       head \<leftarrow> timers w l;
       w \<leftarrow> fire reg w (nxt head);
       expire_list reg w l
     }
   }"

definition cascade_at :: "timer_mgr \<Rightarrow> nat \<Rightarrow> timer_mgr option" where
  "cascade_at w k = cascade w (vec w k (tv_idx k (tick w)))"

definition run_timer :: "registry \<Rightarrow> timer_mgr \<Rightarrow> timer_mgr option" where
  "run_timer reg w = do {
     let idx = tv_idx 0 (tick w);
     w \<leftarrow> (if idx \<noteq> 0 then Some w else do {
       w \<leftarrow> cascade_at w 1;
       if tv_idx 1 (tick w) \<noteq> 0 then Some w else do {
         w \<leftarrow> cascade_at w 2;
         if tv_idx 2 (tick w) \<noteq> 0 then Some w else do {
           w \<leftarrow> cascade_at w 3;
           if tv_idx 3 (tick w) \<noteq> 0 then Some w else cascade_at w 4
         }
       }
     });
     expire_list reg w (vec w 0 idx)
   }"

definition next_tick :: "registry \<Rightarrow> timer_mgr \<Rightarrow> timer_mgr option" where
  "next_tick reg w = do { w \<leftarrow> run_timer reg w; Some (w\<lparr>tick := tick w + 1\<rparr>) }"

fun run_ticks :: "registry \<Rightarrow> nat \<Rightarrow> timer_mgr \<Rightarrow> timer_mgr option" where
  "run_ticks reg 0 w = Some w"
| "run_ticks reg (Suc n) w = do { w \<leftarrow> next_tick reg w; run_ticks reg n w }"

definition outdated_tick_count :: "timer_mgr \<Rightarrow> timeval \<Rightarrow> int" where
  "outdated_tick_count w tv =
     (let real_tick = time2tick (timeval_sub tv (start_time w))
      in if real_tick \<ge> tick w then real_tick - tick w else 0)"

text \<open>\<open>clock n\<close> is what the \<open>n\<close>-th call of \<^verbatim>\<open>gettimeofday\<close> stores.\<close>

partial_function (option) update_loop ::
    "registry \<Rightarrow> (nat \<Rightarrow> timeval) \<Rightarrow> timer_mgr \<Rightarrow> nat \<Rightarrow> (nat \<times> timer_mgr) option" where
  "update_loop reg clock w n =
     (let count = outdated_tick_count w (clock n)
      in if count > 0 then do {
           w \<leftarrow> run_ticks reg (nat count) w;
           update_loop reg clock w (n + 1)
         }
         else Some (n, w))"

definition update :: "registry \<Rightarrow> (nat \<Rightarrow> timeval) \<Rightarrow> timer_mgr \<Rightarrow> nat \<Rightarrow> (nat \<times> timer_mgr) option" where
  "update reg clock w n = do {
     (n, w) \<leftarrow> update_loop reg clock w n;
     Some (n + 1, w\<lparr>current_time := timeval_add (clock n) (time_offset w)\<rparr>)
   }"

section \<open>Starting and stopping\<close>

definition start ::
    "registry \<Rightarrow> ((nat \<Rightarrow> shm_timer option) \<Rightarrow> nat) \<Rightarrow> timer_mgr \<Rightarrow> int \<Rightarrow> int \<Rightarrow> int \<Rightarrow> int \<Rightarrow> u8 list \<Rightarrow>
     (nat \<times> timer_mgr) option" where
  "start reg alloc w timeout_ms repeat_ms repeat_count ty data = do {
     sk_assert (repeat_count = REPEAT_FOREVER \<or> repeat_count \<ge> 1);
     if \<not> has_callback reg ty then Some (0, w)
     else do {
       let (p, w) = construct alloc w;
       sk_assert (p \<noteq> 0);
       w \<leftarrow> upd_timer w p (\<lambda>t. t\<lparr>expires := tick w + ms2tick timeout_ms, interval := ms2tick repeat_ms,
         repeats := repeat_count, timer_type := ty, cb_len := length data, self := p, cb_data := data\<rparr>);
       w \<leftarrow> add_timer w p;
       Some (p, w\<lparr>changed := changed w @ [p]\<rparr>)
     }
   }"

text \<open>The three public entry points.\<close>

definition start_once ::
    "registry \<Rightarrow> ((nat \<Rightarrow> shm_timer option) \<Rightarrow> nat) \<Rightarrow> timer_mgr \<Rightarrow> int \<Rightarrow> int \<Rightarrow> u8 list \<Rightarrow> (nat \<times> timer_mgr) option" where
  "start_once reg alloc w timeout_ms ty data = start reg alloc w timeout_ms 0 1 ty data"

definition start_forever ::
    "registry \<Rightarrow> ((nat \<Rightarrow> shm_timer option) \<Rightarrow> nat) \<Rightarrow> timer_mgr \<Rightarrow> int \<Rightarrow> int \<Rightarrow> int \<Rightarrow> u8 list \<Rightarrow>
     (nat \<times> timer_mgr) option" where
  "start_forever reg alloc w timeout_ms repeat_ms ty data = start reg alloc w timeout_ms repeat_ms REPEAT_FOREVER ty data"

definition start_specified ::
    "registry \<Rightarrow> ((nat \<Rightarrow> shm_timer option) \<Rightarrow> nat) \<Rightarrow> timer_mgr \<Rightarrow> int \<Rightarrow> int \<Rightarrow> int \<Rightarrow> int \<Rightarrow> u8 list \<Rightarrow>
     (nat \<times> timer_mgr) option" where
  "start_specified reg alloc w timeout_ms repeat_ms repeat_count ty data =
     start reg alloc w timeout_ms repeat_ms repeat_count ty data"

definition stop :: "timer_mgr \<Rightarrow> nat \<Rightarrow> timer_mgr option" where
  "stop w p = do {
     t \<leftarrow> timers w p;
     let w = w\<lparr>changed := changed w @ [p]\<rparr>;
     if running t then upd_timer w p (\<lambda>t. t\<lparr>repeats := 0\<rparr>)
     else do {
       w \<leftarrow> timer_list_remove w (self t);
       destruct w (self t)
     }
   }"

section \<open>Construction\<close>

fun timer_vector_new :: "((nat \<Rightarrow> shm_timer option) \<Rightarrow> nat) \<Rightarrow> timer_mgr \<Rightarrow> nat \<Rightarrow> nat list \<Rightarrow> timer_mgr option" where
  "timer_vector_new alloc w k [] = Some w"
| "timer_vector_new alloc w k (i # is) = do {
     let (p, w) = construct alloc w;
     sk_assert (p \<noteq> 0);
     let w = w\<lparr>vec := (vec w)(k := (vec w k)(i := p))\<rparr>;
     w \<leftarrow> upd_timer w p (\<lambda>t. t\<lparr>self := p\<rparr>);
     w \<leftarrow> timer_list_init w p;
     timer_vector_new alloc w k is
   }"

fun timer_vectors_new :: "((nat \<Rightarrow> shm_timer option) \<Rightarrow> nat) \<Rightarrow> timer_mgr \<Rightarrow> nat list \<Rightarrow> timer_mgr option" where
  "timer_vectors_new alloc w [] = Some w"
| "timer_vectors_new alloc w (k # ks) = do {
     w \<leftarrow> timer_vector_new alloc w k [0..<if k = 0 then 256 else 64];
     timer_vectors_new alloc w ks
   }"

definition shm_timer_mgr_new :: "((nat \<Rightarrow> shm_timer option) \<Rightarrow> nat) \<Rightarrow> timeval \<Rightarrow> int \<Rightarrow> timer_mgr option" where
  "shm_timer_mgr_new alloc now time_offset_sec =
     timer_vectors_new alloc
       \<lparr>timers = (\<lambda>_. None), tick = 0, vec = (\<lambda>_ _. 0), time_offset = (time_offset_sec, 0), start_time = now,
        current_time = timeval_add now (time_offset_sec, 0), fired = [], changed = []\<rparr> [0..<5]"

fun timer_vector_delete :: "timer_mgr \<Rightarrow> nat \<Rightarrow> nat list \<Rightarrow> timer_mgr option" where
  "timer_vector_delete w k [] = Some w"
| "timer_vector_delete w k (i # is) = do {
     w \<leftarrow> upd_timer w (vec w k i) (\<lambda>t. t\<lparr>nxt := 0\<rparr>);
     w \<leftarrow> upd_timer w (vec w k i) (\<lambda>t. t\<lparr>prev := 0\<rparr>);
     w \<leftarrow> destruct w (vec w k i);
     let w = w\<lparr>vec := (vec w)(k := (vec w k)(i := 0))\<rparr>;
     timer_vector_delete w k is
   }"

section \<open>The timer lists implement the list contract\<close>

definition tcore :: "shm_timer \<Rightarrow> shm_timer" where
  "tcore t = t\<lparr>prev := 0, nxt := 0\<rparr>"

definition t_nx :: "timer_mgr \<Rightarrow> nat \<Rightarrow> nat" where
  "t_nx w p = (case timers w p of None \<Rightarrow> 0 | Some t \<Rightarrow> nxt t)"

definition t_pv :: "timer_mgr \<Rightarrow> nat \<Rightarrow> nat" where
  "t_pv w p = (case timers w p of None \<Rightarrow> 0 | Some t \<Rightarrow> prev t)"

definition is_timer :: "timer_mgr \<Rightarrow> nat \<Rightarrow> bool" where
  "is_timer w p \<longleftrightarrow> timers w p \<noteq> None"

definition t_relinked :: "timer_mgr \<Rightarrow> timer_mgr \<Rightarrow> bool" where
  "t_relinked w w' \<longleftrightarrow> w' = w\<lparr>timers := timers w'\<rparr> \<and> (\<forall>p. map_option tcore (timers w' p) = map_option tcore (timers w p))"

definition put_timer :: "timer_mgr \<Rightarrow> nat \<Rightarrow> shm_timer \<Rightarrow> timer_mgr" where
  "put_timer w p t = w\<lparr>timers := (timers w)(p := Some t)\<rparr>"

lemma upd_timer_eq: "timers w p = Some t \<Longrightarrow> upd_timer w p f = Some (put_timer w p (f t))"
  by (simp add: upd_timer_def put_timer_def)

lemma put_timer_timers [simp]: "timers (put_timer w p t) = (timers w)(p := Some t)"
  by (simp add: put_timer_def)

lemma tcore_links [simp]: "tcore (t\<lparr>prev := p\<rparr>) = tcore t" "tcore (t\<lparr>nxt := p\<rparr>) = tcore t"
  by (simp_all add: tcore_def)

lemma t_relinked_put: "timers w p = Some t \<Longrightarrow> tcore t' = tcore t \<Longrightarrow> t_relinked w (put_timer w p t')"
  by (simp add: t_relinked_def put_timer_def)

lemma timers_update_collapse: "w' = w\<lparr>timers := m\<rparr> \<Longrightarrow> w'\<lparr>timers := n\<rparr> = w\<lparr>timers := n\<rparr>" for w w' :: timer_mgr
  by simp

lemma t_relinked_trans: "t_relinked w w' \<Longrightarrow> t_relinked w' w'' \<Longrightarrow> t_relinked w w''"
  unfolding t_relinked_def by (metis timers_update_collapse)

lemma timer_list_remove_law:
  assumes n: "is_timer w x" "is_timer w (t_pv w x)" "is_timer w (t_nx w x)" and d: "t_pv w x \<noteq> x" "t_nx w x \<noteq> x"
  shows "\<exists>w'. timer_list_remove w x = Some w' \<and> t_relinked w w' \<and>
    t_nx w' = (t_nx w)(t_pv w x := t_nx w x, x := 0) \<and> t_pv w' = (t_pv w)(t_nx w x := t_pv w x, x := 0)"
proof -
  obtain tx tp where t: "timers w x = Some tx" "timers w (t_pv w x) = Some tp"
    using n by (auto simp: is_timer_def)
  let ?p = "t_pv w x" and ?q = "t_nx w x"
  have l: "?p = prev tx" "?q = nxt tx" using t by (simp_all add: t_nx_def t_pv_def)
  define w1 where "w1 = put_timer w ?p (tp\<lparr>nxt := ?q\<rparr>)"
  obtain tq where tq: "timers w1 ?q = Some tq" using n(3)
    by (cases "?q = ?p") (auto simp: w1_def is_timer_def)
  define w2 where "w2 = put_timer w1 ?q (tq\<lparr>prev := ?p\<rparr>)"
  have x2: "timers w2 x = Some tx" using t(1) d by (simp add: w2_def w1_def)
  define w3 where "w3 = put_timer w2 x (tx\<lparr>nxt := 0\<rparr>)"
  have x3: "timers w3 x = Some (tx\<lparr>nxt := 0\<rparr>)" by (simp add: w3_def)
  define w4 where "w4 = put_timer w3 x (tx\<lparr>nxt := 0, prev := 0\<rparr>)"
  have "t_relinked w w1" unfolding w1_def by (rule t_relinked_put [OF t(2)]) simp
  moreover have "t_relinked w1 w2" unfolding w2_def by (rule t_relinked_put [OF tq]) simp
  moreover have "t_relinked w2 w3" unfolding w3_def by (rule t_relinked_put [OF x2]) simp
  moreover have "t_relinked w3 w4" unfolding w4_def by (rule t_relinked_put [OF x3]) simp
  ultimately have "t_relinked w w4" using t_relinked_trans by blast
  moreover have "timer_list_remove w x = Some w4"
    unfolding timer_list_remove_def w4_def w3_def w2_def
    using t(1) upd_timer_eq [OF t(2)] upd_timer_eq [OF tq] upd_timer_eq [OF x2] upd_timer_eq [OF x3]
    by (simp add: Let_def w2_def w3_def flip: l w1_def)
  moreover have "t_nx w4 = (t_nx w)(?p := ?q, x := 0)"
    using t tq d by (intro ext) (auto simp: t_nx_def w4_def w3_def w2_def w1_def split: if_splits)
  moreover have "t_pv w4 = (t_pv w)(?q := ?p, x := 0)"
    using t tq d by (intro ext) (auto simp: t_pv_def w4_def w3_def w2_def w1_def split: if_splits)
  ultimately show ?thesis by blast
qed

lemma timer_list_append_law:
  assumes n: "is_timer w h" "is_timer w x" "is_timer w (t_pv w h)" and d: "x \<noteq> h" "t_pv w h \<noteq> x"
    and e: "t_nx w x = 0" "t_pv w x = 0"
  shows "\<exists>w'. timer_list_append w h x = Some w' \<and> t_relinked w w' \<and>
    t_nx w' = (t_nx w)(x := h, t_pv w h := x) \<and> t_pv w' = (t_pv w)(x := t_pv w h, h := x)"
proof -
  obtain th tx tp where t: "timers w h = Some th" "timers w x = Some tx" "timers w (t_pv w h) = Some tp"
    using n by (auto simp: is_timer_def)
  let ?p = "t_pv w h"
  have l: "?p = prev th" "prev tx = 0" "nxt tx = 0" using t e by (simp_all add: t_nx_def t_pv_def)
  define w1 where "w1 = put_timer w x (tx\<lparr>prev := ?p\<rparr>)"
  have x1: "timers w1 x = Some (tx\<lparr>prev := ?p\<rparr>)" by (simp add: w1_def)
  define w2 where "w2 = put_timer w1 x (tx\<lparr>prev := ?p, nxt := h\<rparr>)"
  have p2: "timers w2 ?p = Some tp" using t(3) d by (simp add: w2_def w1_def)
  define w3 where "w3 = put_timer w2 ?p (tp\<lparr>nxt := x\<rparr>)"
  obtain th' where h3: "timers w3 h = Some th'" using t(1) d
    by (cases "h = ?p") (auto simp: w3_def w2_def w1_def)
  define w4 where "w4 = put_timer w3 h (th'\<lparr>prev := x\<rparr>)"
  have "t_relinked w w1" unfolding w1_def by (rule t_relinked_put [OF t(2)]) simp
  moreover have "t_relinked w1 w2" unfolding w2_def by (rule t_relinked_put [OF x1]) simp
  moreover have "t_relinked w2 w3" unfolding w3_def by (rule t_relinked_put [OF p2]) simp
  moreover have "t_relinked w3 w4" unfolding w4_def by (rule t_relinked_put [OF h3]) simp
  ultimately have "t_relinked w w4" using t_relinked_trans by blast
  moreover have "timer_list_append w h x = Some w4"
    unfolding timer_list_append_def w4_def
    using t(1,2) l(2,3) upd_timer_eq [OF t(2)] upd_timer_eq [OF x1] upd_timer_eq [OF p2] upd_timer_eq [OF h3]
    by (simp add: Let_def flip: l(1) w1_def w2_def w3_def)
  moreover have "t_nx w4 = (t_nx w)(x := h, ?p := x)"
    using t h3 d by (intro ext) (auto simp: t_nx_def w4_def w3_def w2_def w1_def split: if_splits)
  moreover have "t_pv w4 = (t_pv w)(x := ?p, h := x)"
    using t h3 d by (intro ext) (auto simp: t_pv_def w4_def w3_def w2_def w1_def split: if_splits)
  ultimately show ?thesis by blast
qed

interpretation timer_lists:
  append_lists t_nx t_pv 0 is_timer t_relinked timer_list_remove timer_list_append
proof unfold_locales
  show "t_relinked w w' \<Longrightarrow> is_timer w' = is_timer w" for w w'
    by (rule ext) (metis t_relinked_def is_timer_def map_option_is_None)
qed (use timer_list_remove_law timer_list_append_law in blast)+

end
