(* ===== verification/Timer_Correct.thy ===== *)
theory Timer_Correct
  imports Timer_Wheel
begin

text \<open>
  The timer wheel is correct. The specification is the agenda: every timer with its expiration tick, interval
  and remaining repeats, and nothing else. Each tick fires exactly the timers that expire at that tick, whatever
  slots of whatever vectors they passed on the way down. This theory has the slots, the lists, the schedule that
  the lists keep, and the cascades; the callbacks are in the next one.
\<close>

section \<open>Slots\<close>

definition width :: "nat \<Rightarrow> nat" where
  "width k = (if k = 0 then 256 else 64)"

definition block :: "nat \<Rightarrow> int" where
  "block k = 2 ^ (2 + 6 * k)"

definition slot :: "nat \<Rightarrow> nat \<Rightarrow> bool" where
  "slot k i \<longleftrightarrow> k < 5 \<and> i < width k"

text \<open>Slot \<open>i\<close> of vector \<open>k > 0\<close> stands for a block \<open>B\<close> of \<open>block k\<close> ticks; blocks before \<open>lo k\<close> have been cascaded.\<close>

definition placed :: "(nat \<Rightarrow> int) \<Rightarrow> int \<Rightarrow> nat \<Rightarrow> nat \<Rightarrow> int \<Rightarrow> bool" where
  "placed lo T k i e \<longleftrightarrow>
     (if k = 0 then T \<le> e \<and> e < T + 256 \<and> i = nat (e mod 256)
      else \<exists>B. i = nat (B mod 64) \<and> lo k \<le> B \<and> B < (T + block k - 1) div block k + 64 \<and> B * block k \<le> e)"

text \<open>The first blocks still to be cascaded, before and after the cascades of tick \<open>T\<close>.\<close>

definition lo_before :: "int \<Rightarrow> nat \<Rightarrow> int" where
  "lo_before T k = (T + block k - 1) div block k"

definition lo_after :: "int \<Rightarrow> nat \<Rightarrow> int" where
  "lo_after T k = T div block k + 1"

lemma block_pos [simp]: "0 < block k"
  by (simp add: block_def)

lemma block_nonzero [simp]: "block k \<noteq> 0"
  by (simp add: block_def)

lemma block_Suc: "block (Suc k) = 64 * block k"
  by (simp add: block_def power_add)

lemma tv_idx_0: "tv_idx 0 t = nat (t mod 256)"
  using take_bit_eq_mask [of 8 t] by (simp add: tv_idx_def take_bit_eq_mod mask_eq_exp_minus_1)

lemma tv_idx_pos: "k > 0 \<Longrightarrow> tv_idx k t = nat (t div block k mod 64)"
proof -
  assume "k > 0"
  then obtain j where "k = Suc j" by (cases k) auto
  then show ?thesis
    using take_bit_eq_mask [of 6 "drop_bit (2 + 6 * k) t"]
    by (simp add: tv_idx_def take_bit_eq_mod drop_bit_eq_div block_def mask_eq_exp_minus_1 power_add mult.commute)
qed

lemma tv_max_block: "tv_max k = 64 * block k"
  by (simp add: tv_max_def block_def push_bit_eq_mult power_add)

lemma slot_tv_idx: "k < 5 \<Longrightarrow> slot k (tv_idx k t)"
proof (cases "k = 0")
  case True then show ?thesis by (simp add: slot_def width_def tv_idx_0 nat_less_iff)
next
  case False then show "k < 5 \<Longrightarrow> ?thesis" by (simp add: slot_def width_def tv_idx_pos nat_less_iff)
qed

lemma mod_window:
  fixes a b :: int
  assumes "nat (a mod 64) = nat (b mod 64)" and "a \<le> b" and "b < a + 64"
  shows "b = a"
proof -
  have "a mod 64 = b mod 64" using assms(1) by simp
  then have "(b - a) mod 64 = 0" by (simp add: mod_diff_eq [symmetric])
  moreover have "(b - a) mod 64 = b - a" using assms(2,3) by (intro mod_pos_pos_trivial) auto
  ultimately show ?thesis by simp
qed

lemma ceil_div: "0 < b \<Longrightarrow> (T + b - 1) div b = (if b dvd T then T div b else T div b + 1)" for b T :: int
proof (cases "b dvd T")
  case True
  assume b: "0 < b"
  have "(T + (b - 1)) div b = T div b + (b - 1) div b" using True by (rule div_plus_div_distrib_dvd_left)
  then show ?thesis using b True by (simp add: algebra_simps)
next
  case False
  assume b: "0 < b"
  have "T mod b \<noteq> 0" "0 \<le> T mod b" "T mod b < b" using False b by (auto simp: dvd_eq_mod_eq_0)
  moreover have "T + b - 1 = (T mod b - 1) + (T div b + 1) * b" by (simp add: algebra_simps)
  then have "(T + b - 1) div b = (T mod b - 1) div b + (T div b + 1)"
    using b div_mult_self1 [of b "T mod b - 1" "T div b + 1"] by (metis add.commute less_irrefl)
  ultimately show ?thesis using False by simp
qed

lemma lo_before_eq: "lo_before T k = (if block k dvd T then T div block k else lo_after T k)"
  by (simp add: lo_before_def lo_after_def ceil_div)

lemma lo_before_le: "lo_before T k \<le> lo_after T k"
  by (simp add: lo_before_eq) (simp add: lo_after_def)

lemma lo_before_next: "lo_before (T + 1) k = lo_after T k"
  using div_add_self2 [of "block k" T] by (simp add: lo_before_def lo_after_def)

lemma less_next_block: "T < (T div block k + 1) * block k"
proof -
  have "T = T div block k * block k + T mod block k" by simp
  moreover have "T mod block k < block k" by simp
  ultimately show ?thesis by (metis add_strict_left_mono distrib_right mult_1)
qed

lemma placed_block:
  "k > 0 \<Longrightarrow> placed lo T k i e \<longleftrightarrow>
    (\<exists>B. i = nat (B mod 64) \<and> lo k \<le> B \<and> B < lo_before T k + 64 \<and> B * block k \<le> e)"
  by (simp add: placed_def lo_before_def)

lemma placed_mono: "placed lo T k i e \<Longrightarrow> lo' k \<le> lo k \<Longrightarrow> placed lo' T k i e"
  unfolding placed_def by (metis order_trans)

lemma placed_after_less: "placed (lo_after T) T k i e \<Longrightarrow> k > 0 \<Longrightarrow> T < e"
proof -
  assume "placed (lo_after T) T k i e" "k > 0"
  then obtain B where "T div block k + 1 \<le> B" "B * block k \<le> e"
    by (auto simp: placed_block lo_after_def)
  then have "(T div block k + 1) * block k \<le> e" by (meson mult_right_mono block_pos less_imp_le order_trans)
  then show ?thesis using less_next_block [of T k] by simp
qed

text \<open>A timer that is placed in a later block is not in the slot of the current one.\<close>

lemma placed_not_current:
  assumes p: "placed (lo_after T) T k i e" and k: "k > 0" and d: "block k dvd T"
  shows "i \<noteq> tv_idx k T"
proof
  assume i: "i = tv_idx k T"
  obtain B where B: "i = nat (B mod 64)" "T div block k + 1 \<le> B" "B < T div block k + 64"
    using p k d by (auto simp: placed_block lo_after_def lo_before_eq)
  have "B = T div block k"
    by (rule mod_window) (use B i k tv_idx_pos [OF k, of T] in auto)
  with B show False by simp
qed

lemma placed_0_not_current: "placed lo T 0 i e \<Longrightarrow> T < e \<Longrightarrow> i \<noteq> tv_idx 0 T"
proof
  assume p: "placed lo T 0 i e" and l: "T < e" and i: "i = tv_idx 0 T"
  then have "e mod 256 = T mod 256"
    using eq_nat_nat_iff [of "e mod 256" "T mod 256"] by (auto simp: placed_def tv_idx_0)
  then have "(e - T) mod 256 = 0" by (simp add: mod_diff_eq [symmetric])
  moreover have "(e - T) mod 256 = e - T" using p l by (intro mod_pos_pos_trivial) (auto simp: placed_def)
  ultimately show False using l by simp
qed

lemma placed_0_current: "placed lo T 0 (tv_idx 0 T) e \<Longrightarrow> e = T"
  using placed_0_not_current [of lo T "tv_idx 0 T" e] by (fastforce simp: placed_def)

lemma placed_current:
  assumes p: "placed lo T k (tv_idx k T) e" and k: "k > 0" and d: "block k dvd T" and lo: "lo k = lo_before T k"
  shows "T \<le> e"
proof -
  obtain B where B: "tv_idx k T = nat (B mod 64)" "T div block k \<le> B" "B < T div block k + 64" "B * block k \<le> e"
    using p k d lo by (auto simp: placed_block lo_before_eq)
  have "B = T div block k"
    by (rule mod_window) (use B tv_idx_pos [OF k, of T] in auto)
  with B d show ?thesis by simp
qed

text \<open>When the slot of the current block is empty, its vector is past that block.\<close>

lemma placed_past:
  assumes p: "placed lo T k i e" and k: "k > 0" and d: "block k dvd T" and lo: "lo k = lo_before T k"
    and i: "i \<noteq> tv_idx k T"
  shows "placed (lo(k := lo_after T k)) T k i e"
proof -
  obtain B where B: "i = nat (B mod 64)" "T div block k \<le> B" "B < lo_before T k + 64" "B * block k \<le> e"
    using p k d lo by (auto simp: placed_block lo_before_eq)
  have "B \<noteq> T div block k" using B(1) i tv_idx_pos [OF k, of T] by auto
  then show ?thesis using B k by (auto simp: placed_block lo_after_def intro!: exI [of _ B])
qed

lemma placed_next:
  assumes "placed (lo_after T) T k i e" and "e \<noteq> T"
  shows "placed (lo_before (T + 1)) (T + 1) k i e"
proof (cases "k = 0")
  case False
  then show ?thesis
    using assms lo_before_le [of T k]
    by (auto simp: placed_block lo_before_next intro: order.strict_trans2)
qed (use assms in \<open>auto simp: placed_def\<close>)

text \<open>\<^verbatim>\<open>search_list\<close> finds a slot of a later block, also for an expiration beyond the range of the wheel.\<close>

lemma placed_search:
  assumes k: "k > 0" and d: "block k \<le> e - T" "e - T < 64 * block k"
  shows "placed (lo_after T) T k (tv_idx k e) e"
proof -
  have e: "e < T + block k * 64" using d by simp
  have "T div block k + 1 = (T + block k) div block k" using div_add_self2 [of "block k" T] by simp
  also have "\<dots> \<le> e div block k" by (rule zdiv_mono1) (use d in auto)
  finally have "T div block k + 1 \<le> e div block k" .
  moreover have "e div block k \<le> (T + block k - 1 + 63 * block k) div block k"
    by (rule zdiv_mono1) (use e in auto)
  then have "e div block k < lo_before T k + 64"
    unfolding div_mult_self1 [OF block_nonzero] lo_before_def by linarith
  moreover have "e div block k * block k \<le> e"
    by (metis block_pos div_mult_mod_eq le_add_same_cancel1 pos_mod_sign)
  ultimately show ?thesis
    using k tv_idx_pos [OF k] by (auto simp: placed_block lo_after_def)
qed

lemma block_values: "block (Suc 0) = 256" "block 2 = 16384" "block 3 = 1048576" "block 4 = 67108864"
  by (simp_all add: block_def)

lemma search_list_placed:
  assumes e: "tick w \<le> e"
  shows "\<exists>k i. search_list w e = Some (vec w k i) \<and> slot k i \<and> placed (lo_after (tick w)) (tick w) k i e"
proof -
  let ?T = "tick w" and ?d = "e - tick w"
  note tv = tv_max_def push_bit_eq_mult
  consider "?d < 256" | "256 \<le> ?d" "?d < 16384" | "16384 \<le> ?d" "?d < 1048576"
    | "1048576 \<le> ?d" "?d < 67108864" | "67108864 \<le> ?d" "?d < 4294967296" | "4294967296 \<le> ?d" by linarith
  then show ?thesis
  proof cases
    case 1
    then have "placed (lo_after ?T) ?T 0 (tv_idx 0 e) e" using e by (simp add: placed_def tv_idx_0)
    then show ?thesis using 1 e slot_tv_idx [of 0 e] by (auto simp: search_list_def tv block_values)
  next
    case 2
    then have "placed (lo_after ?T) ?T 1 (tv_idx 1 e) e" by (intro placed_search) (auto simp: block_values)
    then show ?thesis using 2 e slot_tv_idx [of 1 e] by (auto simp: search_list_def tv block_values)
  next
    case 3
    then have "placed (lo_after ?T) ?T 2 (tv_idx 2 e) e" by (intro placed_search) (auto simp: block_values)
    then show ?thesis using 3 e slot_tv_idx [of 2 e] by (auto simp: search_list_def tv block_values)
  next
    case 4
    then have "placed (lo_after ?T) ?T 3 (tv_idx 3 e) e" by (intro placed_search) (auto simp: block_values)
    then show ?thesis using 4 e slot_tv_idx [of 3 e] by (auto simp: search_list_def tv block_values)
  next
    case 5
    then have "placed (lo_after ?T) ?T 4 (tv_idx 4 e) e" by (intro placed_search) (auto simp: block_values)
    then show ?thesis using 5 e slot_tv_idx [of 4 e] by (auto simp: search_list_def tv block_values)
  next
    case 6
    let ?e = "4294967295 + ?T"
    have "placed (lo_after ?T) ?T 4 (tv_idx 4 ?e) ?e" by (rule placed_search) (auto simp: block_values)
    then have "placed (lo_after ?T) ?T 4 (tv_idx 4 ?e) e"
      using 6 by (auto simp: placed_block intro: order_trans [of _ ?e])
    then show ?thesis using 6 e slot_tv_idx [of 4 ?e] by (auto simp: search_list_def tv block_values)
  qed
qed

section \<open>The lists of the wheel\<close>

text \<open>The timers without their links; the agenda, which is all of them but the dummy heads.\<close>

definition core :: "timer_mgr \<Rightarrow> nat \<Rightarrow> shm_timer option" where
  "core w p = map_option tcore (timers w p)"

definition heads :: "timer_mgr \<Rightarrow> nat set" where
  "heads w = {vec w k i |k i. slot k i}"

definition agenda :: "timer_mgr \<Rightarrow> nat \<Rightarrow> shm_timer option" where
  "agenda w p = (if p \<in> heads w then None else core w p)"

definition lists_ok :: "timer_mgr \<Rightarrow> (nat \<Rightarrow> nat list) \<Rightarrow> bool" where
  "lists_ok w L \<longleftrightarrow>
     (\<forall>k i k' i'. slot k i \<longrightarrow> slot k' i' \<longrightarrow> vec w k i = vec w k' i' \<longrightarrow> k = k' \<and> i = i') \<and>
     rings (t_nx w) (t_pv w) 0 (heads w) L \<and>
     (\<forall>p. is_timer w p \<longleftrightarrow> p \<in> heads w \<or> p \<in> (\<Union>h \<in> heads w. set (L h)))"

lemma head_mem [intro]: "slot k i \<Longrightarrow> vec w k i \<in> heads w"
  by (auto simp: heads_def)

lemma vec_inj: "lists_ok w L \<Longrightarrow> slot k i \<Longrightarrow> slot k' i' \<Longrightarrow> vec w k i = vec w k' i' \<longleftrightarrow> k = k' \<and> i = i'"
  unfolding lists_ok_def by blast

lemma is_timer_core: "is_timer w p \<longleftrightarrow> core w p \<noteq> None"
  by (simp add: is_timer_def core_def)

lemma t_relinkedD:
  assumes "t_relinked w w'"
  shows "core w' = core w" "vec w' = vec w" "tick w' = tick w" "fired w' = fired w" "heads w' = heads w"
    "is_timer w' = is_timer w" "agenda w' = agenda w"
    "start_time w' = start_time w" "current_time w' = current_time w" "time_offset w' = time_offset w" "changed w' = changed w"
proof -
  note r = assms [unfolded t_relinked_def]
  show c: "core w' = core w" using r by (auto simp: core_def)
  show v: "vec w' = vec w" using r by (metis timer_mgr.select_convs(3) timer_mgr.surjective timer_mgr.update_convs(1))
  show "tick w' = tick w" "fired w' = fired w" "start_time w' = start_time w" "current_time w' = current_time w"
      "time_offset w' = time_offset w" "changed w' = changed w"
    using r by (metis timer_mgr.select_convs timer_mgr.surjective timer_mgr.update_convs(1))+
  show "heads w' = heads w" using v by (simp add: heads_def)
  show "is_timer w' = is_timer w" using c by (auto simp: is_timer_core)
  show "agenda w' = agenda w" using c v by (auto simp: agenda_def heads_def fun_eq_iff)
qed

lemma members_append: "g \<in> H \<Longrightarrow> (\<Union>k \<in> H. set ((L(g := L g @ [p])) k)) = insert p (\<Union>k \<in> H. set (L k))"
  by (auto split: if_splits)

lemma members_remove:
  assumes R: "rings nx pv nl H L" and h: "h \<in> H" and p: "p \<in> set (L h)"
  shows "(\<Union>k \<in> H. set ((L(h := remove1 p (L h))) k)) = (\<Union>k \<in> H. set (L k)) - {p}"
  using h rings_distinct [OF R h] rings_disjoint [OF R h _ _ p] by (auto split: if_splits)

lemma lists_ok_relinked:
  assumes "lists_ok w L" and "t_relinked w w'" and "rings (t_nx w') (t_pv w') 0 (heads w) L'"
    and "(\<Union>h \<in> heads w. set (L' h)) = (\<Union>h \<in> heads w. set (L h))"
  shows "lists_ok w' L'"
  using assms(1,3,4) t_relinkedD [OF assms(2)] by (simp add: lists_ok_def)

lemma lists_nodes: "lists_ok w L \<Longrightarrow> h \<in> heads w \<Longrightarrow> y \<in> insert h (set (L h)) \<Longrightarrow> is_timer w y"
  unfolding lists_ok_def by blast

lemma lists_rings: "lists_ok w L \<Longrightarrow> rings (t_nx w) (t_pv w) 0 (heads w) L"
  by (simp add: lists_ok_def)

lemma lists_empty:
  assumes L: "lists_ok w L" and h: "h \<in> heads w"
  shows "timer_list_empty w h = Some (L h = [])"
proof -
  obtain t where t: "timers w h = Some t" using lists_nodes [OF L h] by (auto simp: is_timer_def)
  note r = rings_ring [OF lists_rings [OF L] h]
  have "nxt t = h \<longleftrightarrow> L h = []" using rings_empty [OF lists_rings [OF L] h] t by (simp add: t_nx_def)
  moreover have "L h = [] \<Longrightarrow> prev t = h" using r t by (auto simp: ring_Nil t_pv_def)
  ultimately show ?thesis using t by (auto simp: timer_list_empty_def sk_assert_def)
qed

lemma lists_first:
  assumes L: "lists_ok w L" and h: "h \<in> heads w" and "L h = p # ps"
  shows "\<exists>t. timers w h = Some t \<and> nxt t = p"
proof -
  obtain t where t: "timers w h = Some t" using lists_nodes [OF L h] by (auto simp: is_timer_def)
  then show ?thesis using rings_first [OF lists_rings [OF L] h assms(3)] by (auto simp: t_nx_def)
qed

text \<open>Moving a timer to the end of another list, deleting it, and adding a new one.\<close>

lemma lists_move:
  assumes L: "lists_ok w L" and h: "h \<in> heads w" and g: "g \<in> heads w" and p: "p \<in> set (L h)" and gh: "g \<noteq> h"
  shows "\<exists>w1 w'. timer_list_remove w p = Some w1 \<and> timer_list_append w1 g p = Some w' \<and> t_relinked w w' \<and>
    lists_ok w' (L(h := remove1 p (L h), g := L g @ [p]))"
proof -
  note R = lists_rings [OF L]
  have "\<forall>y \<in> insert h (set (L h)). is_timer w y" using lists_nodes [OF L h] by blast
  from timer_lists.remove_rings [OF R h p this]
  obtain w1 where w1: "timer_list_remove w p = Some w1" "t_relinked w w1"
      "rings (t_nx w1) (t_pv w1) 0 (heads w) (L(h := remove1 p (L h)))" by blast
  note t1 = t_relinkedD [OF w1(2)]
  let ?L = "L(h := remove1 p (L h))"
  have fresh: "p \<notin> heads w" "\<And>g. g \<in> heads w \<Longrightarrow> p \<notin> set (?L g)"
    using rings_heads [OF R h p] rings_disjoint [OF R h _ _ p] rings_distinct [OF R h] by auto
  have "\<forall>y \<in> insert g (set (?L g)). is_timer w1 y" "is_timer w1 p"
    using lists_nodes [OF L g] lists_nodes [OF L h] p gh t1(6) by auto
  from timer_lists.append_rings [OF w1(3) g fresh this]
  obtain w' where w': "timer_list_append w1 g p = Some w'" "t_relinked w1 w'"
      "rings (t_nx w') (t_pv w') 0 (heads w) (?L(g := ?L g @ [p]))" by blast
  have rel: "t_relinked w w'" using t_relinked_trans w1(2) w'(2) by blast
  note t = t_relinkedD [OF rel]
  have "p \<in> (\<Union>k \<in> heads w. set (L k))" using h p by blast
  then have "(\<Union>k \<in> heads w. set ((?L(g := ?L g @ [p])) k)) = (\<Union>k \<in> heads w. set (L k))"
    unfolding members_append [OF g] members_remove [OF R h p] by blast
  with lists_ok_relinked [OF L rel w'(3)] gh have "lists_ok w' (L(h := remove1 p (L h), g := L g @ [p]))" by simp
  with w1(1) w'(1) rel show ?thesis by blast
qed

lemma lists_delete:
  assumes L: "lists_ok w L" and h: "h \<in> heads w" and p: "p \<in> set (L h)"
  shows "\<exists>w1 w'. timer_list_remove w p = Some w1 \<and> destruct w1 p = Some w' \<and> core w' = (core w)(p := None) \<and>
    vec w' = vec w \<and> tick w' = tick w \<and> fired w' = fired w \<and> start_time w' = start_time w \<and> changed w' = changed w \<and>
    lists_ok w' (L(h := remove1 p (L h)))"
proof -
  note R = lists_rings [OF L]
  let ?L = "L(h := remove1 p (L h))"
  have "\<forall>y \<in> insert h (set (L h)). is_timer w y" using lists_nodes [OF L h] by blast
  from timer_lists.remove_rings [OF R h p this]
  obtain w1 where w1: "timer_list_remove w p = Some w1" "t_relinked w w1"
      "rings (t_nx w1) (t_pv w1) 0 (heads w) ?L" by blast
  note t1 = t_relinkedD [OF w1(2)]
  have fresh: "p \<notin> heads w" "\<And>g. g \<in> heads w \<Longrightarrow> p \<notin> set (?L g)"
    using rings_heads [OF R h p] rings_disjoint [OF R h _ _ p] rings_distinct [OF R h] by auto
  have "is_timer w1 p" using lists_nodes [OF L h] p t1(6) by auto
  then obtain t where t: "timers w1 p = Some t" by (auto simp: is_timer_def)
  have l: "t_nx w1 p = 0 \<and> t_pv w1 p = 0" by (rule rings_unlinked [OF w1(3) fresh])
  define w' where "w' = w1\<lparr>timers := (timers w1)(p := None)\<rparr>"
  have d: "destruct w1 p = Some w'"
    using t l by (simp add: destruct_def sk_assert_def t_nx_def t_pv_def w'_def)
  have "t_nx w' = t_nx w1" "t_pv w' = t_pv w1" using l by (auto simp: fun_eq_iff w'_def t_nx_def t_pv_def)
  then have R': "rings (t_nx w') (t_pv w') 0 (heads w) ?L" using w1(3) by simp
  have c: "core w' = (core w)(p := None)" using t1(1) by (auto simp: fun_eq_iff w'_def core_def)
  have o: "vec w' = vec w" "tick w' = tick w" "fired w' = fired w" "start_time w' = start_time w" "changed w' = changed w"
    using t1 by (simp_all add: w'_def)
  have hd: "heads w' = heads w" using o by (simp add: heads_def)
  have mem: "(\<Union>k \<in> heads w. set (?L k)) = (\<Union>k \<in> heads w. set (L k)) - {p}"
    by (rule members_remove [OF R h p])
  have tm: "is_timer w' q \<longleftrightarrow> q \<in> heads w \<or> q \<in> (\<Union>k \<in> heads w. set (?L k))" for q
  proof -
    have "is_timer w' q \<longleftrightarrow> is_timer w q \<and> q \<noteq> p" using c by (auto simp: is_timer_core)
    then show ?thesis unfolding mem using L fresh(1) by (auto simp: lists_ok_def)
  qed
  have "lists_ok w' ?L" using L R' tm unfolding lists_ok_def hd o by blast
  with w1(1) d c o show ?thesis by blast
qed

lemma lists_add:
  assumes L: "lists_ok w L" and g: "g \<in> heads w" and p: "timers w p = None" and t: "prev t = 0" "nxt t = 0"
  shows "\<exists>w'. timer_list_append (put_timer w p t) g p = Some w' \<and> core w' = (core w)(p \<mapsto> t) \<and> vec w' = vec w \<and>
    tick w' = tick w \<and> fired w' = fired w \<and> start_time w' = start_time w \<and> changed w' = changed w \<and> p \<notin> heads w \<and>
    lists_ok w' (L(g := L g @ [p]))"
proof -
  let ?w = "put_timer w p t"
  have np: "\<not> is_timer w p" using p by (simp add: is_timer_def)
  have hd: "heads ?w = heads w" by (simp add: heads_def put_timer_def)
  have "t_nx ?w = t_nx w" "t_pv ?w = t_pv w" using p t by (auto simp: fun_eq_iff t_nx_def t_pv_def)
  then have R: "rings (t_nx ?w) (t_pv ?w) 0 (heads w) L" using lists_rings [OF L] by simp
  have fresh: "p \<notin> heads w" "\<And>g. g \<in> heads w \<Longrightarrow> p \<notin> set (L g)"
    using np L by (auto simp: lists_ok_def)
  have al: "is_timer ?w q \<longleftrightarrow> is_timer w q \<or> q = p" for q by (auto simp: is_timer_def)
  have "\<forall>y \<in> insert g (set (L g)). is_timer ?w y" "is_timer ?w p"
    using lists_nodes [OF L g] by (auto simp: al)
  from timer_lists.append_rings [OF R g fresh this]
  obtain w' where w': "timer_list_append ?w g p = Some w'" "t_relinked ?w w'"
      "rings (t_nx w') (t_pv w') 0 (heads w) (L(g := L g @ [p]))" by blast
  note r = t_relinkedD [OF w'(2)]
  have "tcore t = t" using t by (simp add: tcore_def)
  then have c: "core w' = (core w)(p \<mapsto> t)" using r(1) by (auto simp: fun_eq_iff core_def)
  have o: "vec w' = vec w" "tick w' = tick w" "fired w' = fired w" "start_time w' = start_time w" "changed w' = changed w"
    using r by (simp_all add: put_timer_def)
  have hd': "heads w' = heads w" using o by (simp add: heads_def)
  have mem: "(\<Union>k \<in> heads w. set ((L(g := L g @ [p])) k)) = insert p (\<Union>k \<in> heads w. set (L k))"
    by (rule members_append [OF g])
  have tm: "is_timer w' q \<longleftrightarrow> q \<in> heads w \<or> q \<in> (\<Union>k \<in> heads w. set ((L(g := L g @ [p])) k))" for q
    unfolding mem using r(6) al [of q] L by (auto simp: lists_ok_def)
  have "lists_ok w' (L(g := L g @ [p]))" using L w'(3) tm unfolding lists_ok_def hd' o by blast
  with w'(1) c o fresh(1) show ?thesis by blast
qed

lemma upd_timer_core:
  assumes "timers w p = Some t" and "nxt (f t) = nxt t" and "prev (f t) = prev t" and "lists_ok w L"
  shows "\<exists>w'. upd_timer w p f = Some w' \<and> timers w' p = Some (f t) \<and> core w' = (core w)(p \<mapsto> tcore (f t)) \<and> vec w' = vec w \<and>
    tick w' = tick w \<and> fired w' = fired w \<and> start_time w' = start_time w \<and> changed w' = changed w \<and> lists_ok w' L"
proof -
  let ?w = "put_timer w p (f t)"
  have "t_nx ?w = t_nx w" "t_pv ?w = t_pv w" using assms(1-3) by (auto simp: fun_eq_iff t_nx_def t_pv_def)
  moreover have "vec ?w = vec w" "tick ?w = tick w" "fired ?w = fired w" "start_time ?w = start_time w" "changed ?w = changed w" by (simp_all add: put_timer_def)
  moreover have "heads ?w = heads w" by (simp add: heads_def put_timer_def)
  moreover have "is_timer ?w = is_timer w" using assms(1) by (auto simp: fun_eq_iff is_timer_def)
  ultimately have "lists_ok ?w L" using assms(4) by (simp add: lists_ok_def)
  then show ?thesis using assms(1) by (auto simp: upd_timer_eq core_def put_timer_def fun_eq_iff)
qed

lemma lists_ok_same:
  assumes "timers w' = timers w" and "vec w' = vec w"
  shows "lists_ok w' L = lists_ok w L" and "core w' = core w" and "heads w' = heads w" and "agenda w' = agenda w"
proof -
  have "t_nx w' = t_nx w" "t_pv w' = t_pv w" "is_timer w' = is_timer w" "core w' = core w" "heads w' = heads w"
    using assms by (simp_all add: fun_eq_iff t_nx_def t_pv_def is_timer_def core_def heads_def)
  with assms show "lists_ok w' L = lists_ok w L" "core w' = core w" "heads w' = heads w" "agenda w' = agenda w"
    by (simp_all add: lists_ok_def agenda_def [abs_def] cong: if_cong)
qed

section \<open>The schedule\<close>

definition armed :: "registry \<Rightarrow> nat \<Rightarrow> shm_timer \<Rightarrow> bool" where
  "armed reg p t \<longleftrightarrow> self t = p \<and> \<not> running t \<and> has_repeats t \<and> (repeats t = 1 \<or> interval t > 0) \<and>
     (\<exists>c. reg (timer_type t) = Some c \<and> cb_size c = cb_len t)"

definition sched :: "(nat \<Rightarrow> shm_timer \<Rightarrow> bool) \<Rightarrow> (nat \<Rightarrow> int) \<Rightarrow> timer_mgr \<Rightarrow> (nat \<Rightarrow> nat list) \<Rightarrow> bool" where
  "sched A lo w L \<longleftrightarrow> (\<forall>k i. slot k i \<longrightarrow> (\<forall>p \<in> set (L (vec w k i)).
     \<exists>t. core w p = Some t \<and> A p t \<and> placed lo (tick w) k i (expires t)))"

text \<open>The invariant between two ticks.\<close>

definition wheel_ok :: "registry \<Rightarrow> timer_mgr \<Rightarrow> bool" where
  "wheel_ok reg w \<longleftrightarrow> (\<exists>L. lists_ok w L \<and> sched (armed reg) (lo_before (tick w)) w L)"

lemma schedD:
  assumes "sched A lo w L" and "slot k i" and "p \<in> set (L (vec w k i))"
  obtains t where "core w p = Some t" "A p t" "placed lo (tick w) k i (expires t)"
  using assms unfolding sched_def by blast

lemma sched_update:
  assumes "sched A lo w L" and "vec w' = vec w" and "tick w' = tick w" and "\<And>q. q \<noteq> p \<Longrightarrow> core w' q = core w q"
    and "\<And>k i. slot k i \<Longrightarrow> set (L' (vec w k i)) \<subseteq> insert p (set (L (vec w k i)))"
    and "\<And>k i. slot k i \<Longrightarrow> p \<in> set (L' (vec w k i)) \<Longrightarrow>
      \<exists>t. core w' p = Some t \<and> A p t \<and> placed lo (tick w) k i (expires t)"
  shows "sched A lo w' L'"
  unfolding sched_def
proof (intro allI impI ballI)
  fix k i q assume s: "slot k i" and q: "q \<in> set (L' (vec w' k i))"
  show "\<exists>t. core w' q = Some t \<and> A q t \<and> placed lo (tick w') k i (expires t)"
  proof (cases "q = p")
    case True then show ?thesis using assms(6) [OF s] q assms(2,3) by simp
  next
    case False
    then have "q \<in> set (L (vec w k i))" using assms(5) [OF s] q assms(2) by auto
    then show ?thesis using assms(1,2,3) assms(4) [OF False] s unfolding sched_def by simp
  qed
qed

lemma tcore_fields [simp]: "expires (tcore t) = expires t" "interval (tcore t) = interval t" "repeats (tcore t) = repeats t"
  "self (tcore t) = self t" "running (tcore t) = running t" "timer_type (tcore t) = timer_type t" "cb_len (tcore t) = cb_len t"
  by (simp_all add: tcore_def)

lemma sched_lists:
  "lists_ok w L \<Longrightarrow> slot k i \<Longrightarrow> slot k' i' \<Longrightarrow> p \<in> set (L (vec w k i)) \<Longrightarrow> p \<in> set (L (vec w k' i')) \<Longrightarrow> k' = k \<and> i' = i"
  using rings_disjoint [OF lists_rings, of w L "vec w k i" "vec w k' i'" p] vec_inj [of w L k i k' i'] by blast

text \<open>A timer that moves to the slot of its expiration keeps the schedule.\<close>

lemma sched_move:
  assumes L: "lists_ok w L" and S: "sched A lo w L" and s: "slot k i" "slot k' i'" and ne: "vec w k' i' \<noteq> vec w k i"
    and p: "p \<in> set (L (vec w k i))" and w': "vec w' = vec w" "tick w' = tick w" "core w' = (core w)(p \<mapsto> t)"
    and t: "A p t" "placed lo (tick w) k' i' (expires t)"
  shows "sched A lo w' (L(vec w k i := remove1 p (L (vec w k i)), vec w k' i' := L (vec w k' i') @ [p]))" (is "sched _ _ _ ?L")
proof (rule sched_update [OF S w'(1,2)])
  show "core w' q = core w q" if "q \<noteq> p" for q using w'(3) that by simp
  show "set (?L (vec w j l)) \<subseteq> insert p (set (L (vec w j l)))" if "slot j l" for j l
    using set_remove1_subset [of p "L (vec w k i)"] by auto
  fix j l assume sl: "slot j l" and pl: "p \<in> set (?L (vec w j l))"
  have "j = k' \<and> l = i'"
  proof (rule ccontr)
    assume "\<not> (j = k' \<and> l = i')"
    then have 1: "vec w j l \<noteq> vec w k' i'" using vec_inj [OF L sl s(2)] by simp
    have "p \<notin> set (remove1 p (L (vec w k i)))"
      using rings_distinct [OF lists_rings [OF L] head_mem [OF s(1)]] by simp
    then have 2: "vec w j l \<noteq> vec w k i" "p \<in> set (L (vec w j l))" using pl 1 by (auto split: if_splits)
    then show False using sched_lists [OF L s(1) sl p] by simp
  qed
  with t w'(3) show "\<exists>t. core w' p = Some t \<and> A p t \<and> placed lo (tick w) j l (expires t)" by simp
qed

lemma sched_delete:
  assumes L: "lists_ok w L" and S: "sched A lo w L" and s: "slot k i" and p: "p \<in> set (L (vec w k i))"
    and w': "vec w' = vec w" "tick w' = tick w" "core w' = (core w)(p := None)"
  shows "sched A lo w' (L(vec w k i := remove1 p (L (vec w k i))))" (is "sched _ _ _ ?L")
proof (rule sched_update [OF S w'(1,2), where p = p])
  fix j l assume sl: "slot j l"
  show "set (?L (vec w j l)) \<subseteq> insert p (set (L (vec w j l)))" using set_remove1_subset [of p "L (vec w k i)"] by auto
  have "p \<notin> set (?L (vec w j l))"
  proof (cases "vec w j l = vec w k i")
    case True then show ?thesis using rings_distinct [OF lists_rings [OF L] head_mem [OF s]] by simp
  next
    case False then show ?thesis using sched_lists [OF L s sl p] by auto
  qed
  then show "p \<in> set (?L (vec w j l)) \<Longrightarrow> \<exists>t. core w' p = Some t \<and> A p t \<and> placed lo (tick w) j l (expires t)" by blast
qed (use w' in auto)

lemma cascade_ok:
  assumes "lists_ok w L" and "sched A lo w L" and k: "0 < k" "k < 5" and "block k dvd tick w"
    and "lo k = lo_before (tick w) k" and "\<forall>j. lo j \<le> lo_after (tick w) j" and "h = vec w k (tv_idx k (tick w))"
  shows "\<exists>w' L'. cascade w h = Some w' \<and> t_relinked w w' \<and> lists_ok w' L' \<and> sched A lo w' L' \<and> L' h = []"
  using assms
proof (induction "length (L h)" arbitrary: w L)
  case 0
  have "h \<in> heads w" using 0 slot_tv_idx by auto
  then have "cascade w h = Some w" using 0 by (subst cascade.simps) (simp add: lists_empty [OF 0(2)])
  moreover have "t_relinked w w" by (simp add: t_relinked_def)
  ultimately show ?case using 0 by auto
next
  case (Suc n)
  let ?T = "tick w" and ?i = "tv_idx k (tick w)"
  note L = Suc(3) and S = Suc(4)
  have s: "slot k ?i" using slot_tv_idx k by blast
  then have h: "h \<in> heads w" using Suc(10) by auto
  obtain p ps where Lh: "L h = p # ps" using Suc(2) by (cases "L h") auto
  then have p: "p \<in> set (L (vec w k ?i))" using Suc(10) by simp
  obtain th where th: "timers w h = Some th" "nxt th = p" using lists_first [OF L h Lh] by blast
  obtain t where t: "core w p = Some t" "A p t" "placed lo ?T k ?i (expires t)"
    using schedD [OF S s p] by blast
  then obtain t0 where t0: "timers w p = Some t0" "t = tcore t0" by (auto simp: core_def)
  have "?T \<le> expires t" by (rule placed_current [OF t(3) k(1) Suc(7,8)])
  then obtain k' i' where sl: "search_list w (expires t) = Some (vec w k' i')" "slot k' i'"
      "placed (lo_after ?T) ?T k' i' (expires t)" using search_list_placed by blast
  have pl: "placed lo ?T k' i' (expires t)" using placed_mono [OF sl(3)] Suc(9) by blast
  have "\<not> (k' = k \<and> i' = ?i)" using placed_not_current [OF sl(3)] k Suc(7) by blast
  then have ne: "vec w k' i' \<noteq> vec w k ?i" using vec_inj [OF L sl(2) s] by simp
  obtain w1 w2 where w: "timer_list_remove w p = Some w1" "timer_list_append w1 (vec w k' i') p = Some w2"
      "t_relinked w w2" "lists_ok w2 (L(h := remove1 p (L h), vec w k' i' := L (vec w k' i') @ [p]))"
    using lists_move [OF L h head_mem [OF sl(2)], of p] p ne Suc(10) by auto
  let ?L = "L(h := remove1 p (L h), vec w k' i' := L (vec w k' i') @ [p])"
  note r = t_relinkedD [OF w(3)]
  have "core w2 = (core w)(p \<mapsto> t)" using r(1) t(1) by auto
  then have S2: "sched A lo w2 ?L"
    using sched_move [OF L S s sl(2) ne p r(2,3) _ t(2) pl] Suc(10) by simp
  have "n = length (?L h)" using Suc(2) Lh ne Suc(10) by simp
  then have "\<exists>w' L'. cascade w2 h = Some w' \<and> t_relinked w2 w' \<and> lists_ok w' L' \<and> sched A lo w' L' \<and> L' h = []"
    using Suc(1) [OF _ w(4) S2 k] Suc(7,8,9,10) r by simp
  then obtain w' L' where c: "cascade w2 h = Some w'" "t_relinked w2 w'" "lists_ok w' L'" "sched A lo w' L'" "L' h = []"
    by blast
  have "cascade w h = Some w'"
    using th t0 sl(1) w(1,2) c(1) Lh lists_empty [OF L h] by (subst cascade.simps) simp
  then show ?case using t_relinked_trans [OF w(3) c(2)] c by blast
qed

lemma cascade_level:
  assumes L: "lists_ok w L" and S: "sched A lo w L" and k: "0 < k" "k < 5" and d: "block k dvd tick w"
    and lo: "lo k = lo_before (tick w) k" "\<forall>j. lo j \<le> lo_after (tick w) j"
  shows "\<exists>w' L'. cascade_at w k = Some w' \<and> t_relinked w w' \<and> lists_ok w' L' \<and>
    sched A (lo(k := lo_after (tick w) k)) w' L'"
proof -
  let ?i = "tv_idx k (tick w)"
  have s: "slot k ?i" using slot_tv_idx k by blast
  from cascade_ok [OF L S k d lo refl] obtain w' L' where w': "cascade w (vec w k ?i) = Some w'" "t_relinked w w'"
      "lists_ok w' L'" "sched A lo w' L'" "L' (vec w k ?i) = []" by blast
  note r = t_relinkedD [OF w'(2)]
  have "sched A (lo(k := lo_after (tick w) k)) w' L'"
    unfolding sched_def
  proof (intro allI impI ballI)
    fix j l p assume sl: "slot j l" and p: "p \<in> set (L' (vec w' j l))"
    then obtain t where t: "core w' p = Some t" "A p t" "placed lo (tick w) j l (expires t)"
      using schedD [OF w'(4) sl p] r(3) by metis
    have "j = k \<Longrightarrow> l \<noteq> ?i" using p w'(5) r(2) by auto
    then have "placed (lo(k := lo_after (tick w) k)) (tick w) j l (expires t)"
      using t(3) placed_past [of lo "tick w" k l "expires t"] k(1) d lo(1) by (cases "j = k") (auto simp: placed_def)
    then show "\<exists>t. core w' p = Some t \<and> A p t \<and> placed (lo(k := lo_after (tick w) k)) (tick w') j l (expires t)"
      using t r(3) by auto
  qed
  with w' show ?thesis by (auto simp: cascade_at_def)
qed

section \<open>A tick\<close>

definition lo_upto :: "nat \<Rightarrow> int \<Rightarrow> nat \<Rightarrow> int" where
  "lo_upto n T k = (if k \<le> n then lo_after T k else lo_before T k)"

lemma sched_lo_cong:
  assumes "sched A lo w L" and "\<And>k. 0 < k \<Longrightarrow> k < 5 \<Longrightarrow> lo' k = lo k"
  shows "sched A lo' w L"
proof -
  have "placed lo' T k i e = placed lo T k i e" if "slot k i" for T k i e
    using assms(2) [of k] that by (auto simp: placed_def slot_def)
  with assms(1) show ?thesis unfolding sched_def by blast
qed

lemma block_dvd_mono: "j \<le> k \<Longrightarrow> block k dvd T \<Longrightarrow> block j dvd T"
  unfolding block_def
  by (rule dvd_trans [OF le_imp_power_dvd [of "2 + 6 * j" "2 + 6 * k" 2]]) auto

lemma nat_mod_0: "a mod numeral n \<le> 0 \<longleftrightarrow> a mod numeral n = 0" for a :: int
proof -
  have "0 \<le> a mod numeral n" by simp
  then show ?thesis by linarith
qed

lemma block_dvd_Suc: "0 < k \<Longrightarrow> block k dvd T \<Longrightarrow> tv_idx k T = 0 \<longleftrightarrow> block (Suc k) dvd T"
proof -
  assume k: "0 < k" and "block k dvd T"
  then obtain q where q: "T = block k * q" by (elim dvdE)
  have "tv_idx k T = 0 \<longleftrightarrow> q mod 64 = 0"
    using tv_idx_pos [OF k, of T] q by (simp add: nat_mod_0)
  also have "\<dots> \<longleftrightarrow> block (Suc k) dvd T" using q by (simp add: block_Suc dvd_eq_mod_eq_0 [symmetric] mult.commute)
  finally show ?thesis .
qed

lemma block_dvd_1: "tv_idx 0 T = 0 \<longleftrightarrow> block 1 dvd T"
  by (simp add: tv_idx_0 block_values dvd_eq_mod_eq_0 nat_mod_0)

lemma lo_upto_Suc: "(lo_upto n T)(Suc n := lo_after T (Suc n)) = lo_upto (Suc n) T"
  by (auto simp: lo_upto_def fun_eq_iff le_Suc_eq)

lemma lo_upto_done: "sched A (lo_upto n T) w L \<Longrightarrow> \<not> block (Suc n) dvd T \<or> n = 4 \<Longrightarrow> sched A (lo_after T) w L"
  by (erule sched_lo_cong) (auto simp: lo_upto_def lo_before_eq dest: block_dvd_mono [of "Suc n", rotated])

lemma cascade_upto:
  assumes "lists_ok w L" and "sched A (lo_upto n (tick w)) w L" and "n < 4" and "block (Suc n) dvd tick w"
  shows "\<exists>w' L'. cascade_at w (Suc n) = Some w' \<and> t_relinked w w' \<and> tick w' = tick w \<and> lists_ok w' L' \<and>
    sched A (lo_upto (Suc n) (tick w)) w' L'"
proof -
  have "lo_upto n (tick w) (Suc n) = lo_before (tick w) (Suc n)" by (simp add: lo_upto_def)
  moreover have "\<forall>j. lo_upto n (tick w) j \<le> lo_after (tick w) j" by (simp add: lo_upto_def lo_before_le)
  ultimately obtain w' L' where "cascade_at w (Suc n) = Some w'" "t_relinked w w'" "lists_ok w' L'"
      "sched A ((lo_upto n (tick w))(Suc n := lo_after (tick w) (Suc n))) w' L'"
    using cascade_level [OF assms(1,2) _ _ assms(4)] assms(3) by auto
  then show ?thesis using t_relinkedD(3) unfolding lo_upto_Suc by blast
qed

text \<open>The nested conditionals of \<^verbatim>\<open>run_timer\<close>, one level at a time.\<close>

fun cascade_levels :: "nat list \<Rightarrow> timer_mgr \<Rightarrow> timer_mgr option" where
  "cascade_levels [] w = Some w"
| "cascade_levels (k # ks) w =
     (if tv_idx (k - 1) (tick w) \<noteq> 0 then Some w else do { w \<leftarrow> cascade_at w k; cascade_levels ks w })"

lemma cascade_levels_fun:
  "cascade_levels [] = Some"
  "cascade_levels (k # ks) =
     (\<lambda>w. if tv_idx (k - 1) (tick w) \<noteq> 0 then Some w else do { w \<leftarrow> cascade_at w k; cascade_levels ks w })"
  by (simp_all add: fun_eq_iff)

lemma run_timer_levels:
  "run_timer reg w = do { v \<leftarrow> cascade_levels [1, 2, 3, 4] w; expire_list reg v (vec v 0 (tv_idx 0 (tick w))) }"
  unfolding run_timer_def Let_def cascade_levels_fun
  by (simp del: cascade_levels.simps cong: if_cong)

lemma cascade_levels_ok:
  assumes "lists_ok w L" and "sched A (lo_upto n (tick w)) w L" and "n \<le> 4" and "n = 0 \<or> block n dvd tick w"
  shows "\<exists>w' L'. cascade_levels [Suc n..<5] w = Some w' \<and> t_relinked w w' \<and> lists_ok w' L' \<and> sched A (lo_after (tick w)) w' L'"
  using assms
proof (induction "4 - n" arbitrary: n w L)
  case 0
  then have "n = 4" by simp
  moreover have "t_relinked w w" by (simp add: t_relinked_def)
  ultimately show ?case using lo_upto_done [OF 0(3)] 0(2) by auto
next
  case (Suc m)
  have n: "n < 4" using Suc(2) by simp
  then have u: "[Suc n..<5] = Suc n # [Suc (Suc n)..<5]" by (simp add: upt_rec)
  have b: "tv_idx n (tick w) = 0 \<longleftrightarrow> block (Suc n) dvd tick w"
    using Suc(6) block_dvd_1 block_dvd_Suc by (cases "n = 0") auto
  show ?case
  proof (cases "tv_idx n (tick w) = 0")
    case False
    moreover have "t_relinked w w" by (simp add: t_relinked_def)
    ultimately show ?thesis using lo_upto_done [OF Suc(4)] Suc(3) b u by auto
  next
    case True
    then have d: "block (Suc n) dvd tick w" using b by simp
    from cascade_upto [OF Suc(3,4) n d] obtain v M where v: "cascade_at w (Suc n) = Some v" "t_relinked w v"
        "tick v = tick w" "lists_ok v M" "sched A (lo_upto (Suc n) (tick v)) v M" by auto
    have "\<exists>w' L'. cascade_levels [Suc (Suc n)..<5] v = Some w' \<and> t_relinked v w' \<and> lists_ok w' L' \<and> sched A (lo_after (tick v)) w' L'"
      by (rule Suc(1) [OF _ v(4,5)]) (use Suc(2) n d v(3) in auto)
    then show ?thesis using True u v t_relinked_trans [OF v(2)] by auto
  qed
qed

lemma cascades_ok:
  assumes L: "lists_ok w L" and S: "sched A (lo_before (tick w)) w L"
  shows "\<exists>w' L'. cascade_levels [1, 2, 3, 4] w = Some w' \<and> t_relinked w w' \<and> lists_ok w' L' \<and>
    sched A (lo_after (tick w)) w' L'"
proof -
  have "sched A (lo_upto 0 (tick w)) w L" by (rule sched_lo_cong [OF S]) (simp add: lo_upto_def)
  moreover have "[Suc 0..<5] = [1, 2, 3, 4]" by (simp add: upt_rec)
  ultimately show ?thesis using cascade_levels_ok [OF L, of A 0] by simp
qed


end
