(* ===== verification/Timer_Callbacks.thy ===== *)
theory Timer_Callbacks
  imports Timer_Correct
begin

text \<open>
  The callbacks of the timer wheel. A callback is called while its timer is marked as running and still on the list
  that expires; it may start new timers and stop any timer, its own included (\<^verbatim>\<open>shm_timer::stop\<close> then only clears the
  repeats). The schedule survives every such call, the list that expires only loses timers that the callback
  stopped, and so a tick ends and fires what is due and was not stopped before its turn.
\<close>

section \<open>Starting and stopping in a schedule\<close>

definition fresh_alloc :: "((nat \<Rightarrow> shm_timer option) \<Rightarrow> nat) \<Rightarrow> bool" where
  "fresh_alloc alloc \<longleftrightarrow> (\<forall>m. finite (dom m) \<longrightarrow> alloc m \<noteq> 0 \<and> m (alloc m) = None)"

lemma finite_heads: "finite (heads w)"
proof -
  have "heads w \<subseteq> (\<lambda>(k, i). vec w k i) ` ({..<5} \<times> {..<256})" by (auto simp: heads_def slot_def width_def image_iff split: if_splits)
  then show ?thesis by (rule finite_subset) simp
qed

lemma lists_finite:
  assumes "lists_ok w L"
  shows "finite (dom (timers w))"
proof -
  have "dom (timers w) = heads w \<union> (\<Union>h \<in> heads w. set (L h))" using assms by (auto simp: lists_ok_def is_timer_def)
  then show ?thesis by (simp add: finite_heads)
qed

lemma sched_same: "core w' = core w \<Longrightarrow> vec w' = vec w \<Longrightarrow> tick w' = tick w \<Longrightarrow> sched A lo w' L = sched A lo w L"
  by (simp add: sched_def)

lemma sched_mono: "sched A lo w L \<Longrightarrow> (\<And>k. lo' k \<le> lo k) \<Longrightarrow> sched A lo' w L"
  unfolding sched_def using placed_mono by blast

text \<open>What \<^verbatim>\<open>start\<close> writes into a new timer.\<close>

definition new_timer :: "nat \<Rightarrow> int \<Rightarrow> int \<Rightarrow> int \<Rightarrow> int \<Rightarrow> int \<Rightarrow> u8 list \<Rightarrow> shm_timer" where
  "new_timer p T timeout_ms repeat_ms repeat_count ty data = \<lparr>self = p, prev = 0, nxt = 0, expires = T + timeout_ms div 20,
     interval = ms2tick repeat_ms, running = False, repeats = repeat_count, timer_type = ty, cb_len = length data, cb_data = data\<rparr>"

lemma new_timer_armed:
  assumes "repeat_count = REPEAT_FOREVER \<or> repeat_count \<ge> 1" and "repeat_count = 1 \<or> repeat_ms \<ge> TIMER_PRECISION_MS"
    and "reg ty = Some c" and "cb_size c = length data"
  shows "armed reg p (new_timer p T timeout_ms repeat_ms repeat_count ty data)"
proof -
  have "ms2tick repeat_ms > 0" if "repeat_ms \<ge> 20"
    using that pos_imp_zdiv_pos_iff [of 20 repeat_ms] by (simp add: ms2tick_def TIMER_PRECISION_MS_def)
  then show ?thesis using assms by (auto simp: armed_def new_timer_def has_repeats_def TIMER_PRECISION_MS_def)
qed

lemma start_sched:
  assumes L: "lists_ok w L" and S: "sched A lo w L" and lo: "\<And>k. lo k \<le> lo_after (tick w) k"
    and rc: "repeat_count = REPEAT_FOREVER \<or> repeat_count \<ge> 1" and t0: "timeout_ms \<ge> 0" and cb: "has_callback reg ty"
    and mem: "alloc (timers w) = p" "p \<noteq> 0" "timers w p = None"
    and t: "t = new_timer p (tick w) timeout_ms repeat_ms repeat_count ty data" "A p t"
  shows "\<exists>w' k i. start reg alloc w timeout_ms repeat_ms repeat_count ty data = Some (p, w') \<and> slot k i \<and>
    placed (lo_after (tick w)) (tick w) k i (expires t) \<and> p \<notin> heads w \<and> core w' = (core w)(p \<mapsto> t) \<and> vec w' = vec w \<and>
    tick w' = tick w \<and> fired w' = fired w \<and> start_time w' = start_time w \<and> changed w' = changed w @ [p] \<and>
    lists_ok w' (L(vec w k i := L (vec w k i) @ [p])) \<and> sched A lo w' (L(vec w k i := L (vec w k i) @ [p]))"
proof -
  let ?T = "tick w" and ?e = "expires t"
  have e: "?e = ?T + timeout_ms div 20" by (simp add: t new_timer_def)
  then have "?T \<le> ?e" using t0 by (simp add: pos_imp_zdiv_nonneg_iff)
  then obtain k i where sl: "search_list w ?e = Some (vec w k i)" "slot k i" "placed (lo_after ?T) ?T k i ?e"
    using search_list_placed by blast
  let ?L = "L(vec w k i := L (vec w k i) @ [p])"
  obtain w' where w': "timer_list_append (put_timer w p t) (vec w k i) p = Some w'" "core w' = (core w)(p \<mapsto> t)" "vec w' = vec w"
      "tick w' = ?T" "fired w' = fired w" "start_time w' = start_time w" "changed w' = changed w" "p \<notin> heads w" "lists_ok w' ?L"
    using lists_add [OF L head_mem [OF sl(2)] mem(3), of t] by (auto simp: t new_timer_def)
  have "placed lo ?T k i ?e" using placed_mono [OF sl(3)] lo by blast
  moreover have "j = k \<and> l = i" if "slot j l" "p \<in> set (?L (vec w j l))" for j l
  proof (rule ccontr)
    assume "\<not> (j = k \<and> l = i)"
    then have "p \<in> set (L (vec w j l))" using that vec_inj [OF L that(1) sl(2)] by auto
    then show False using lists_nodes [OF L head_mem [OF that(1)], of p] mem(3) by (auto simp: is_timer_def)
  qed
  ultimately have S': "sched A lo w' ?L"
    using w'(2-4) t(2) by (intro sched_update [OF S, where p = p]) auto
  define v where "v = w'\<lparr>changed := changed w @ [p]\<rparr>"
  have "search_list (put_timer w p t) ?e = search_list w ?e"
    by (simp add: search_list_def put_timer_def Let_def cong: if_cong)
  then have "start reg alloc w timeout_ms repeat_ms repeat_count ty data = Some (p, v)"
    using cb rc mem sl(1) w'(1,7) t0
    by (simp add: start_def sk_assert_def construct_def upd_timer_def put_timer_def add_timer_def t(1) timer_default_def
        ms2tick_def TIMER_PRECISION_MS_def new_timer_def v_def)
  moreover have "lists_ok v ?L" "core v = core w'" using lists_ok_same [of v w'] w'(9) by (simp_all add: v_def)
  moreover have "sched A lo v ?L" using S' sched_same [of v w'] calculation(3) by (simp add: v_def)
  ultimately show ?thesis using sl(2,3) w'
    by (intro exI [of _ v] exI [of _ k] exI [of _ i]) (simp add: v_def)
qed

lemma stop_sched:
  assumes L: "lists_ok w L" and S: "sched A lo w L" and s: "slot k i" "p \<in> set (L (vec w k i))"
    and t: "core w p = Some t" "self t = p" "\<not> running t"
  shows "\<exists>w'. stop w p = Some w' \<and> core w' = (core w)(p := None) \<and> vec w' = vec w \<and> tick w' = tick w \<and> fired w' = fired w \<and>
    start_time w' = start_time w \<and> changed w' = changed w @ [p] \<and>
    lists_ok w' (L(vec w k i := remove1 p (L (vec w k i)))) \<and> sched A lo w' (L(vec w k i := remove1 p (L (vec w k i))))"
proof -
  let ?L = "L(vec w k i := remove1 p (L (vec w k i)))"
  obtain t0 where t0: "timers w p = Some t0" "t = tcore t0" using t(1) by (auto simp: core_def)
  define v where "v = w\<lparr>changed := changed w @ [p]\<rparr>"
  have v: "lists_ok v L" "core v = core w" "vec v = vec w" "tick v = tick w" "timers v = timers w" "heads v = heads w"
    using lists_ok_same [of v w] L by (simp_all add: v_def)
  have Sv: "sched A lo v L" using S sched_same [OF v(2-4)] by simp
  obtain w1 w' where w': "timer_list_remove v p = Some w1" "destruct w1 p = Some w'" "core w' = (core v)(p := None)"
      "vec w' = vec v" "tick w' = tick v" "fired w' = fired v" "start_time w' = start_time v" "changed w' = changed v" "lists_ok w' ?L"
    using lists_delete [OF v(1), of "vec w k i" p] head_mem [OF s(1), of v] s(2) v(3) by auto
  have "sched A lo w' ?L" using sched_delete [OF v(1) Sv s(1), of p w'] s(2) w'(3-5) v(3) by simp
  moreover have "stop w p = Some w'" using t0 t w'(1,2) by (simp add: stop_def v_def)
  ultimately show ?thesis using w' [unfolded v(2)] by (simp add: v_def)
qed

section \<open>What a callback may do\<close>

text \<open>
  The calls of the public interface. A new timer has a whole tick to wait (with less it would be put on the list that
  is being expired), and one that repeats an interval of at least a tick; only timers on the agenda are stopped.
\<close>

datatype timer_call = Start int int int int "u8 list" | Stop nat

fun issue :: "registry \<Rightarrow> ((nat \<Rightarrow> shm_timer option) \<Rightarrow> nat) \<Rightarrow> timer_call \<Rightarrow> timer_mgr \<Rightarrow> timer_mgr option" where
  "issue reg alloc (Start timeout_ms repeat_ms repeat_count ty data) w =
     map_option snd (start reg alloc w timeout_ms repeat_ms repeat_count ty data)"
| "issue reg alloc (Stop p) w = stop w p"

fun allowed :: "registry \<Rightarrow> timer_call \<Rightarrow> timer_mgr \<Rightarrow> bool" where
  "allowed reg (Start timeout_ms repeat_ms repeat_count ty data) w \<longleftrightarrow>
     (repeat_count = REPEAT_FOREVER \<or> repeat_count \<ge> 1) \<and> timeout_ms \<ge> TIMER_PRECISION_MS \<and>
     (repeat_count = 1 \<or> repeat_ms \<ge> TIMER_PRECISION_MS) \<and>
     (case reg ty of None \<Rightarrow> True | Some c \<Rightarrow> cb_size c = length data)"
| "allowed reg (Stop p) w \<longleftrightarrow> agenda w p \<noteq> None"

fun perform :: "registry \<Rightarrow> ((nat \<Rightarrow> shm_timer option) \<Rightarrow> nat) \<Rightarrow> timer_call list \<Rightarrow> timer_mgr \<Rightarrow> timer_mgr option" where
  "perform reg alloc [] w = Some w"
| "perform reg alloc (c # cs) w = do { w \<leftarrow> issue reg alloc c w; perform reg alloc cs w }"

fun all_allowed :: "registry \<Rightarrow> ((nat \<Rightarrow> shm_timer option) \<Rightarrow> nat) \<Rightarrow> timer_call list \<Rightarrow> timer_mgr \<Rightarrow> bool" where
  "all_allowed reg alloc [] w \<longleftrightarrow> True"
| "all_allowed reg alloc (c # cs) w \<longleftrightarrow> allowed reg c w \<and>
     (case issue reg alloc c w of None \<Rightarrow> True | Some w' \<Rightarrow> all_allowed reg alloc cs w')"

text \<open>The timers while the callback of \<open>x\<close> runs, and the states in which it does.\<close>

definition busy :: "registry \<Rightarrow> nat \<Rightarrow> nat \<Rightarrow> shm_timer \<Rightarrow> bool" where
  "busy reg x q t \<longleftrightarrow> (if q = x then self t = x \<and> running t \<and> (repeats t = 0 \<or> armed reg x (t\<lparr>running := False\<rparr>)) else armed reg q t)"

definition expiring :: "registry \<Rightarrow> nat \<Rightarrow> nat list \<Rightarrow> timer_mgr \<Rightarrow> (nat \<Rightarrow> nat list) \<Rightarrow> bool" where
  "expiring reg x ps w L \<longleftrightarrow> lists_ok w L \<and> sched (busy reg x) (lo_after (tick w)) w L \<and> L (vec w 0 (tv_idx 0 (tick w))) = x # ps"

definition in_callback :: "registry \<Rightarrow> nat \<Rightarrow> timer_mgr \<Rightarrow> bool" where
  "in_callback reg x w \<longleftrightarrow> (\<exists>ps L. expiring reg x ps w L)"

text \<open>Every callback only makes such calls, as many as it likes.\<close>

definition clients :: "registry \<Rightarrow> ((nat \<Rightarrow> shm_timer option) \<Rightarrow> nat) \<Rightarrow> bool" where
  "clients reg alloc \<longleftrightarrow> (\<forall>ty c x w. reg ty = Some c \<longrightarrow> in_callback reg x w \<longrightarrow>
     (\<exists>cs. all_allowed reg alloc cs w \<and> cb_fn c x w = perform reg alloc cs w))"

lemma agenda_slot:
  assumes "lists_ok w L" and "agenda w p \<noteq> None"
  obtains k i where "slot k i" "p \<in> set (L (vec w k i))"
proof -
  have "p \<notin> heads w" "is_timer w p" using assms(2) by (auto simp: agenda_def is_timer_core split: if_splits)
  then obtain h where "h \<in> heads w" "p \<in> set (L h)" using assms(1) unfolding lists_ok_def by blast
  then show ?thesis using that by (auto simp: heads_def)
qed

text \<open>The effect of calls: \<open>ch\<close> are the timers that were started or stopped.\<close>

definition effect :: "timer_mgr \<Rightarrow> nat list \<Rightarrow> nat list \<Rightarrow> nat list \<Rightarrow> timer_mgr \<Rightarrow> bool" where
  "effect w ps ch ps' w' \<longleftrightarrow> vec w' = vec w \<and> tick w' = tick w \<and> start_time w' = start_time w \<and> fired w' = fired w \<and>
     changed w' = changed w @ ch \<and> (\<forall>q. q \<notin> set ch \<longrightarrow> core w' q = core w q) \<and> length ps' \<le> length ps \<and>
     set ps' \<subseteq> set ps \<and> set ps - set ps' \<subseteq> set ch"

lemma effect_refl: "effect w ps [] ps w"
  by (simp add: effect_def)

lemma effect_trans: "effect w ps ch ps' w' \<Longrightarrow> effect w' ps' ch' ps'' w'' \<Longrightarrow> effect w ps (ch @ ch') ps'' w''"
  unfolding effect_def by auto

lemma start_effect:
  assumes X: "expiring reg x ps w L" and al: "fresh_alloc alloc" and ok: "allowed reg (Start timeout_ms repeat_ms repeat_count ty data) w"
  shows "\<exists>w' ch L'. issue reg alloc (Start timeout_ms repeat_ms repeat_count ty data) w = Some w' \<and> expiring reg x ps w' L' \<and> effect w ps ch ps w'"
proof (cases "has_callback reg ty")
  case False
  then show ?thesis using X ok effect_refl by (force simp: start_def sk_assert_def)
next
  case True
  let ?T = "tick w" and ?h = "vec w 0 (tv_idx 0 (tick w))"
  have L: "lists_ok w L" "sched (busy reg x) (lo_after ?T) w L" "L ?h = x # ps" using X by (auto simp: expiring_def)
  have s: "slot 0 (tv_idx 0 ?T)" using slot_tv_idx by simp
  define p where "p = alloc (timers w)"
  have p: "p \<noteq> 0" "timers w p = None" using al lists_finite [OF L(1)] by (auto simp: fresh_alloc_def p_def)
  define t where "t = new_timer p ?T timeout_ms repeat_ms repeat_count ty data"
  have "x \<noteq> p" using lists_nodes [OF L(1) head_mem [OF s], of x] L(3) p(2) by (auto simp: is_timer_def)
  moreover have "armed reg p t" using new_timer_armed True ok unfolding t_def by (auto simp: has_callback_def)
  ultimately have A: "busy reg x p t" by (simp add: busy_def)
  obtain w' k i where w': "start reg alloc w timeout_ms repeat_ms repeat_count ty data = Some (p, w')" "slot k i"
      "placed (lo_after ?T) ?T k i (expires t)" "core w' = (core w)(p \<mapsto> t)" "vec w' = vec w" "tick w' = ?T"
      "fired w' = fired w" "start_time w' = start_time w" "changed w' = changed w @ [p]"
      "lists_ok w' (L(vec w k i := L (vec w k i) @ [p]))" "sched (busy reg x) (lo_after ?T) w' (L(vec w k i := L (vec w k i) @ [p]))"
    using start_sched [where alloc = alloc and p = p, OF L(1,2) order_refl _ _ True p_def [symmetric] p t_def A] ok
    by (auto simp: TIMER_PRECISION_MS_def)
  have "?T < expires t"
    using ok pos_imp_zdiv_pos_iff [of 20 timeout_ms] by (simp add: t_def new_timer_def TIMER_PRECISION_MS_def)
  then have "\<not> (k = 0 \<and> i = tv_idx 0 ?T)" using placed_0_not_current [of "lo_after ?T" ?T i "expires t"] w'(3) by auto
  then have "vec w k i \<noteq> ?h" using vec_inj [OF L(1) w'(2) s] by simp
  then have "expiring reg x ps w' (L(vec w k i := L (vec w k i) @ [p]))" using w' L(3) by (simp add: expiring_def)
  moreover have "effect w ps [p] ps w'" using w' by (simp add: effect_def)
  ultimately show ?thesis using w'(1) by (intro exI) auto
qed

lemma stop_effect:
  assumes X: "expiring reg x ps w L" and ag: "agenda w p \<noteq> None"
  shows "\<exists>w' ps' L'. stop w p = Some w' \<and> expiring reg x ps' w' L' \<and> effect w ps [p] ps' w'"
proof -
  let ?T = "tick w" and ?i = "tv_idx 0 (tick w)"
  have L: "lists_ok w L" "sched (busy reg x) (lo_after ?T) w L" "L (vec w 0 ?i) = x # ps" using X by (auto simp: expiring_def)
  obtain k i where s: "slot k i" "p \<in> set (L (vec w k i))" using agenda_slot [OF L(1) ag] by blast
  obtain t where t: "core w p = Some t" "busy reg x p t" "placed (lo_after ?T) ?T k i (expires t)" using schedD [OF L(2) s] by blast
  then obtain t0 where t0: "timers w p = Some t0" "t = tcore t0" by (auto simp: core_def)
  show ?thesis
  proof (cases "p = x")
    case True
    define v where "v = w\<lparr>changed := changed w @ [p]\<rparr>"
    have v: "lists_ok v L" "core v = core w" "vec v = vec w" "tick v = ?T" "timers v p = Some t0"
      using lists_ok_same [of v w] L t0 by (simp_all add: v_def)
    obtain w' where w': "upd_timer v p (\<lambda>t. t\<lparr>repeats := 0\<rparr>) = Some w'" "core w' = (core w)(p \<mapsto> tcore (t0\<lparr>repeats := 0\<rparr>))"
        "vec w' = vec w" "tick w' = ?T" "fired w' = fired v" "start_time w' = start_time v" "changed w' = changed v" "lists_ok w' L"
      using upd_timer_core [OF v(5) _ _ v(1), of "\<lambda>t. t\<lparr>repeats := 0\<rparr>"] v by auto
    have b: "busy reg x p (tcore (t0\<lparr>repeats := 0\<rparr>))" "running t0" using t(2) True t0(2) by (simp_all add: busy_def)
    have "sched (busy reg x) (lo_after ?T) w' L"
    proof (rule sched_update [OF L(2) w'(3,4), where p = p])
      fix k' i' assume s': "slot k' i'" "p \<in> set (L (vec w k' i'))"
      then have "k' = k \<and> i' = i" using sched_lists [OF L(1) s(1)] s(2) by blast
      then show "\<exists>t. core w' p = Some t \<and> busy reg x p t \<and> placed (lo_after ?T) ?T k' i' (expires t)"
        using w'(2) b(1) t(3) t0(2) by simp
    qed (use w'(2) in auto)
    moreover have "stop w p = Some w'" using t0(1) b(2) w'(1) by (simp add: stop_def v_def)
    ultimately show ?thesis using w' L(3) by (intro exI [of _ w'] exI [of _ ps] exI [of _ L]) (auto simp: expiring_def effect_def v_def)
  next
    case False
    then have a: "self t = p" "\<not> running t" using t(2) by (simp_all add: busy_def armed_def)
    let ?L = "L(vec w k i := remove1 p (L (vec w k i)))"
    obtain w' where w': "stop w p = Some w'" "core w' = (core w)(p := None)" "vec w' = vec w" "tick w' = ?T" "fired w' = fired w"
        "start_time w' = start_time w" "changed w' = changed w @ [p]" "lists_ok w' ?L" "sched (busy reg x) (lo_after ?T) w' ?L"
      using stop_sched [OF L(1,2) s t(1) a] by blast
    define ps' where "ps' = (if vec w 0 ?i = vec w k i then remove1 p ps else ps)"
    have "?L (vec w 0 ?i) = x # ps'" using L(3) False by (auto simp: ps'_def)
    then have "expiring reg x ps' w' ?L" using w' by (simp add: expiring_def)
    moreover have "effect w ps [p] ps' w'"
      using w' set_remove1_subset [of p ps] by (auto simp: effect_def ps'_def length_remove1 intro: in_set_remove1 [THEN iffD2])
    ultimately show ?thesis using w'(1) by blast
  qed
qed

lemma perform_effect:
  assumes "expiring reg x ps w L" and "fresh_alloc alloc" and "all_allowed reg alloc cs w"
  shows "\<exists>w' ch ps' L'. perform reg alloc cs w = Some w' \<and> expiring reg x ps' w' L' \<and> effect w ps ch ps' w'"
  using assms
proof (induction cs arbitrary: w ps L)
  case Nil then show ?case using effect_refl by force
next
  case (Cons c cs)
  have a: "allowed reg c w" using Cons.prems(3) by simp
  have "\<exists>v ch ps' L'. issue reg alloc c w = Some v \<and> expiring reg x ps' v L' \<and> effect w ps ch ps' v"
  proof (cases c)
    case (Start timeout_ms repeat_ms repeat_count ty data)
    then show ?thesis using start_effect [OF Cons.prems(1,2)] a by blast
  next
    case (Stop p)
    then show ?thesis using stop_effect [OF Cons.prems(1), of p] a by auto
  qed
  then obtain v ch ps' L' where v: "issue reg alloc c w = Some v" "expiring reg x ps' v L'" "effect w ps ch ps' v" by blast
  then have "all_allowed reg alloc cs v" using Cons.prems(3) by simp
  from Cons.IH [OF v(2) Cons.prems(2) this] show ?case using v(1) effect_trans [OF v(3)] by force
qed

section \<open>Firing\<close>

text \<open>What becomes of a timer that fires at tick \<open>T\<close>.\<close>

definition renewed :: "int \<Rightarrow> shm_timer \<Rightarrow> shm_timer option" where
  "renewed T t = (if repeats t = 1 then None
     else Some (t\<lparr>repeats := (if repeats t > 0 then repeats t - 1 else repeats t), expires := T + interval t\<rparr>))"

lemma refresh_renewed:
  assumes "has_repeats t" and "repeats t = 1 \<or> interval t > 0"
  shows "if has_repeats (refresh t T) then renewed T (tcore t) = Some (tcore (refresh t T)) \<and> expires (refresh t T) = T + interval t \<and>
      interval t > 0 else renewed T (tcore t) = None"
  using assms by (auto simp: renewed_def refresh_def has_repeats_def REPEAT_FOREVER_def Let_def tcore_def split: if_splits)

lemma armed_refresh: "armed reg p (tcore t) \<Longrightarrow> has_repeats (refresh t T) \<Longrightarrow> armed reg p (tcore (refresh t T))"
  by (auto simp: refresh_def has_repeats_def REPEAT_FOREVER_def Let_def tcore_def armed_def split: if_splits)

lemma sched_conv: "sched A lo w L \<Longrightarrow> (\<And>q t. core w q = Some t \<Longrightarrow> A q t \<Longrightarrow> A' q t) \<Longrightarrow> sched A' lo w L"
  unfolding sched_def by blast

text \<open>All timers are armed, but of \<open>x\<close> nothing is known.\<close>

definition other :: "registry \<Rightarrow> nat \<Rightarrow> nat \<Rightarrow> shm_timer \<Rightarrow> bool" where
  "other reg x q t \<longleftrightarrow> q = x \<or> armed reg q t"

lemma armed_other: "armed reg q t \<Longrightarrow> other reg x q t"
  by (simp add: other_def)

lemma busy_other: "busy reg x q t \<Longrightarrow> other reg x q t"
  by (auto simp: busy_def other_def split: if_splits)

lemma upd_timer_sched:
  assumes L: "lists_ok w L" "sched A lo w L" "\<And>q t. A q t \<Longrightarrow> other reg p q t"
    and t: "timers w p = Some t" "nxt (f t) = nxt t" "prev (f t) = prev t" "expires (f t) = expires t"
  shows "\<exists>w'. upd_timer w p f = Some w' \<and> timers w' p = Some (f t) \<and> core w' = (core w)(p \<mapsto> tcore (f t)) \<and> vec w' = vec w \<and>
    tick w' = tick w \<and> fired w' = fired w \<and> start_time w' = start_time w \<and> changed w' = changed w \<and> lists_ok w' L \<and>
    sched (other reg p) lo w' L"
proof -
  obtain w' where w': "upd_timer w p f = Some w'" "timers w' p = Some (f t)" "core w' = (core w)(p \<mapsto> tcore (f t))" "vec w' = vec w"
      "tick w' = tick w" "fired w' = fired w" "start_time w' = start_time w" "changed w' = changed w" "lists_ok w' L"
    using upd_timer_core [where f = f, OF t(1-3) L(1)] by blast
  have S: "sched (other reg p) lo w L" by (rule sched_conv [OF L(2)]) (rule L(3))
  have c: "core w p = Some (tcore t)" using t(1) by (simp add: core_def)
  have "sched (other reg p) lo w' L"
  proof (rule sched_update [OF S w'(4,5), where p = p])
    fix k i assume "slot k i" "p \<in> set (L (vec w k i))"
    then have "placed lo (tick w) k i (expires t)" using schedD [OF S] c by force
    then show "\<exists>t. core w' p = Some t \<and> other reg p p t \<and> placed lo (tick w) k i (expires t)"
      using w'(3) t(4) by (simp add: other_def)
  qed (use w'(3) in auto)
  with w' show ?thesis by blast
qed

text \<open>After the callback: the timer goes to its next slot or is freed.\<close>

lemma reschedule_ok:
  assumes L: "lists_ok w L" and S: "sched (other reg p) (lo_after (tick w)) w L" and h: "h = vec w 0 (tv_idx 0 (tick w))"
    and Lh: "L h = p # ps" and t: "timers w p = Some t" "repeats t = 0 \<or> armed reg p (tcore t)"
  shows "\<exists>w' L'. reschedule w p = Some w' \<and> lists_ok w' L' \<and> sched (armed reg) (lo_after (tick w)) w' L' \<and> L' h = ps \<and>
    vec w' = vec w \<and> tick w' = tick w \<and> start_time w' = start_time w \<and> fired w' = fired w \<and> changed w' = changed w \<and>
    core w' = (core w)(p := if repeats t = 0 then None else renewed (tick w) (tcore t))"
proof -
  let ?T = "tick w" and ?i = "tv_idx 0 (tick w)" and ?A = "other reg p"
  define r where "r = refresh t ?T"
  have s: "slot 0 ?i" using slot_tv_idx by simp
  have p: "p \<in> set (L (vec w 0 ?i))" using h Lh by simp
  have rl: "nxt r = nxt t" "prev r = prev t" by (simp_all add: r_def refresh_def Let_def)
  obtain w4 where w4: "upd_timer w p (\<lambda>t. refresh t ?T) = Some w4" "timers w4 p = Some r" "core w4 = (core w)(p \<mapsto> tcore r)"
      "vec w4 = vec w" "tick w4 = ?T" "fired w4 = fired w" "start_time w4 = start_time w" "changed w4 = changed w" "lists_ok w4 L"
    using upd_timer_core [OF t(1) _ _ L, of "\<lambda>t. refresh t ?T"] rl by (auto simp: r_def)
  have hv: "h \<in> heads w4" using h w4(4) s by (auto simp: heads_def)
  have fin: "repeats t = 0 \<or> has_repeats t \<and> (repeats t = 1 \<or> interval t > 0)"
    using t(2) by (auto simp: armed_def has_repeats_def)
  then have rn: "if has_repeats r then renewed ?T (tcore t) = Some (tcore r) \<and> expires r = ?T + interval t \<and> interval t > 0 \<and> repeats t \<noteq> 0
      else repeats t = 0 \<or> renewed ?T (tcore t) = None"
    using refresh_renewed [of t ?T] by (auto simp: r_def refresh_def has_repeats_def REPEAT_FOREVER_def)
  show ?thesis
  proof (cases "has_repeats r")
    case False
    obtain w5 w6 where w6: "timer_list_remove w4 p = Some w5" "destruct w5 p = Some w6" "core w6 = (core w4)(p := None)"
        "vec w6 = vec w4" "tick w6 = tick w4" "fired w6 = fired w4" "start_time w6 = start_time w4" "changed w6 = changed w4"
        "lists_ok w6 (L(h := remove1 p (L h)))" using lists_delete [OF w4(9) hv, of p] Lh by auto
    have c: "core w6 = (core w)(p := None)" using w6(3) w4(3) by simp
    have "sched ?A (lo_after ?T) w6 (L(h := remove1 p (L h)))"
      unfolding h by (rule sched_delete [OF L S s p _ _ c]) (use w6 w4 in auto)
    then have "sched (armed reg) (lo_after ?T) w6 (L(h := remove1 p (L h)))"
      by (rule sched_conv) (auto simp: c other_def split: if_splits)
    moreover have "reschedule w p = Some w6" using w4(1,2) False w6(1,2) by (simp add: reschedule_def)
    ultimately show ?thesis using w6 w4 Lh False rn c by auto
  next
    case True
    then have "tick w4 \<le> expires r" using rn w4(5) by simp
    then obtain k' i' where sl: "search_list w4 (expires r) = Some (vec w k' i')" "slot k' i'"
        "placed (lo_after ?T) ?T k' i' (expires r)" using search_list_placed [of w4 "expires r"] w4(4,5) by auto
    have "\<not> (k' = 0 \<and> i' = ?i)" using placed_0_not_current [of "lo_after ?T" ?T i' "expires r"] sl(3) rn True by auto
    then have ne: "vec w k' i' \<noteq> vec w 0 ?i" using vec_inj [OF L sl(2) s] by simp
    let ?L = "L(h := remove1 p (L h), vec w k' i' := L (vec w k' i') @ [p])"
    obtain w5 w6 where w6: "timer_list_remove w4 p = Some w5" "timer_list_append w5 (vec w k' i') p = Some w6"
        "t_relinked w4 w6" "lists_ok w6 ?L"
      using lists_move [OF w4(9) hv, of "vec w k' i'" p] head_mem [OF sl(2), of w4] w4(4) Lh ne h by auto
    note rl = t_relinkedD [OF w6(3)]
    have c: "core w6 = (core w)(p \<mapsto> tcore r)" using rl(1) w4(3) by simp
    have ra: "armed reg p (tcore r)" using armed_refresh t(2) rn True r_def by auto
    have "sched ?A (lo_after ?T) w6 ?L"
      unfolding h by (rule sched_move [OF L S s sl(2) ne p _ _ c]) (use rl w4 sl(3) in \<open>auto simp: other_def\<close>)
    then have "sched (armed reg) (lo_after ?T) w6 ?L" by (rule sched_conv) (use ra in \<open>auto simp: c other_def split: if_splits\<close>)
    moreover have "?L h = ps" using ne h Lh by simp
    moreover have "reschedule w p = Some w6" using w4(1,2) True sl(1) w6(1,2) by (simp add: reschedule_def)
    ultimately show ?thesis using w6(4) rl w4 c rn True by (intro exI [of _ w6] exI [of _ ?L]) simp
  qed
qed

lemma fire_ok:
  assumes L: "lists_ok w L" and S: "sched (armed reg) (lo_after (tick w)) w L" and h: "h = vec w 0 (tv_idx 0 (tick w))"
    and Lh: "L h = p # ps" and reg: "clients reg alloc" "fresh_alloc alloc"
  shows "\<exists>w' L' t ch. fire reg w p = Some w' \<and> lists_ok w' L' \<and> sched (armed reg) (lo_after (tick w)) w' L' \<and>
    vec w' = vec w \<and> tick w' = tick w \<and> start_time w' = start_time w \<and> fired w' = fired w @ [(tick w, p)] \<and>
    changed w' = changed w @ ch \<and> core w p = Some t \<and> (\<forall>q. q \<notin> set ch \<longrightarrow> core w' q = ((core w)(p := renewed (tick w) t)) q) \<and>
    length (L' h) \<le> length ps \<and> set (L' h) \<subseteq> set ps \<and> set ps - set (L' h) \<subseteq> set ch"
proof -
  let ?T = "tick w" and ?i = "tv_idx 0 (tick w)" and ?lo = "lo_after (tick w)"
  have s: "slot 0 ?i" using slot_tv_idx by simp
  have p: "p \<in> set (L (vec w 0 ?i))" using h Lh by simp
  obtain t where t: "timers w p = Some t" "core w p = Some (tcore t)" "armed reg p (tcore t)"
    using schedD [OF S s p] by (auto simp: core_def)
  have f: "self t = p" "\<not> running t" "has_repeats t" "repeats t \<noteq> 0" using t(3) by (auto simp: armed_def has_repeats_def REPEAT_FOREVER_def)
  obtain c where c: "reg (timer_type t) = Some c" "cb_size c = cb_len t" using t(3) by (auto simp: armed_def)
  obtain w1 where w1: "upd_timer w p (\<lambda>t. t\<lparr>running := True\<rparr>) = Some w1" "timers w1 p = Some (t\<lparr>running := True\<rparr>)"
      "core w1 = (core w)(p \<mapsto> tcore (t\<lparr>running := True\<rparr>))" "vec w1 = vec w" "tick w1 = ?T" "fired w1 = fired w"
      "start_time w1 = start_time w" "changed w1 = changed w" "lists_ok w1 L" "sched (other reg p) ?lo w1 L"
    using upd_timer_sched [OF L S armed_other t(1), where f = "\<lambda>t. t\<lparr>running := True\<rparr>"] by auto
  have r1: "tcore (t\<lparr>running := True\<rparr>)\<lparr>running := False\<rparr> = tcore t" using f(2) by (cases t) (simp add: tcore_def)
  have b1: "busy reg p p (tcore (t\<lparr>running := True\<rparr>))" unfolding busy_def r1 using t(3) f(1) by simp
  define w2 where "w2 = w1\<lparr>fired := fired w1 @ [(?T, p)]\<rparr>"
  have w2: "core w2 = core w1" "lists_ok w2 L" "vec w2 = vec w" "tick w2 = ?T"
    using w1(4,5,9) lists_ok_same [of w2 w1] by (simp_all add: w2_def)
  have "sched (other reg p) ?lo w2 L" using w1(10) sched_same [of w2 w1] w2 w1(4,5) by simp
  then have "sched (busy reg p) ?lo w2 L"
    by (rule sched_conv) (use b1 in \<open>auto simp: w2(1) w1(3) other_def busy_def split: if_splits\<close>)
  then have X2: "expiring reg p ps w2 L" using w2 Lh h by (simp add: expiring_def)
  then obtain cs where cs: "all_allowed reg alloc cs w2" "cb_fn c p w2 = perform reg alloc cs w2"
    using reg(1) c(1) unfolding clients_def in_callback_def by blast
  obtain w3 ch ps' L' where w3: "perform reg alloc cs w2 = Some w3" "expiring reg p ps' w3 L'" "effect w2 ps ch ps' w3"
    using perform_effect [OF X2 reg(2) cs(1)] by blast
  have to: "on_timeout reg w1 p = Some w3" using w1(2,5) c cs(2) w3(1) by (simp add: on_timeout_def sk_assert_def w2_def)
  have e3: "vec w3 = vec w" "tick w3 = ?T" "start_time w3 = start_time w" "fired w3 = fired w @ [(?T, p)]" "changed w3 = changed w @ ch"
      "\<And>q. q \<notin> set ch \<Longrightarrow> core w3 q = core w1 q" "length ps' \<le> length ps" "set ps' \<subseteq> set ps" "set ps - set ps' \<subseteq> set ch"
    using w3(3) w1 w2 by (auto simp: effect_def) (auto simp: w2_def)
  have x3: "lists_ok w3 L'" "sched (busy reg p) ?lo w3 L'" "L' h = p # ps'" using w3(2) e3 h by (simp_all add: expiring_def)
  then have "p \<in> set (L' (vec w3 0 ?i))" using e3(1) h by simp
  from schedD [OF x3(2) s this] obtain t3 where t3: "timers w3 p = Some t3" "core w3 p = Some (tcore t3)" "busy reg p p (tcore t3)"
    by (auto simp: core_def)
  let ?t = "t3\<lparr>running := False\<rparr>"
  obtain w4 where w4: "upd_timer w3 p (\<lambda>t. t\<lparr>running := False\<rparr>) = Some w4" "timers w4 p = Some ?t"
      "core w4 = (core w3)(p \<mapsto> tcore ?t)" "vec w4 = vec w" "tick w4 = ?T" "fired w4 = fired w @ [(?T, p)]"
      "start_time w4 = start_time w" "changed w4 = changed w @ ch" "lists_ok w4 L'" "sched (other reg p) ?lo w4 L'"
    using upd_timer_sched [OF x3(1,2) busy_other t3(1), where f = "\<lambda>t. t\<lparr>running := False\<rparr>"] e3(1-5) by auto
  have u: "tcore ?t = tcore t3\<lparr>running := False\<rparr>" by (simp add: tcore_def)
  have "repeats ?t = 0 \<or> armed reg p (tcore ?t)" using t3(3) by (simp add: busy_def u)
  then obtain w' L'' where w': "reschedule w4 p = Some w'" "lists_ok w' L''" "sched (armed reg) ?lo w' L''" "L'' h = ps'"
      "vec w' = vec w4" "tick w' = tick w4" "start_time w' = start_time w4" "fired w' = fired w4" "changed w' = changed w4"
      "core w' = (core w4)(p := if repeats ?t = 0 then None else renewed ?T (tcore ?t))"
    using reschedule_ok [OF w4(9) _ _ x3(3) w4(2), of reg] w4(4,5,10) h by auto
  have fr: "fire reg w p = Some w'" using t(1) f w1(1) to w4(1) w'(1) by (simp add: fire_def sk_assert_def)
  have "core w' q = ((core w)(p := renewed ?T (tcore t))) q" if q: "q \<notin> set ch" for q
  proof (cases "q = p")
    case False then show ?thesis using w'(10) w4(3) e3(6) [OF q] w1(3) by simp
  next
    case True
    have "tcore t3 = tcore (t\<lparr>running := True\<rparr>)" using e3(6) [OF q] t3(2) w1(3) True by simp
    then have same: "tcore ?t = tcore t" by (simp add: u r1)
    then have "repeats ?t = repeats t" by (metis tcore_fields(3))
    then show ?thesis using w'(10) True same f(4) by simp
  qed
  then show ?thesis
    using fr w' w4 t(2) e3(7-9) by (intro exI [of _ w'] exI [of _ L''] exI [of _ "tcore t"] exI [of _ ch]) simp
qed

text \<open>
  The loop over the list of the tick. \<open>ps\<close> are the timers it fires and \<open>ch\<close> the ones that callbacks started or stopped:
  of the timers on the list, only those in \<open>ch\<close> are left out.
\<close>

lemma expire_list_ok:
  assumes "lists_ok w L" and "sched (armed reg) (lo_after (tick w)) w L" and "h = vec w 0 (tv_idx 0 (tick w))"
    and reg: "clients reg alloc" "fresh_alloc alloc"
  shows "\<exists>w' L' ps ch. expire_list reg w h = Some w' \<and> lists_ok w' L' \<and> sched (armed reg) (lo_after (tick w)) w' L' \<and> L' h = [] \<and>
    vec w' = vec w \<and> tick w' = tick w \<and> start_time w' = start_time w \<and> fired w' = fired w @ map (Pair (tick w)) ps \<and>
    changed w' = changed w @ ch \<and> distinct ps \<and> set ps \<subseteq> set (L h) \<and> set (L h) - set ps \<subseteq> set ch \<and> (L h \<noteq> [] \<longrightarrow> ps \<noteq> []) \<and>
    (\<forall>q. q \<notin> set ch \<longrightarrow> core w' q = (if q \<in> set ps then Option.bind (core w q) (renewed (tick w)) else core w q))"
  using assms(1-3)
proof (induction "length (L h)" arbitrary: w L rule: less_induct)
  case less
  have h: "h \<in> heads w" using less(4) slot_tv_idx by auto
  show ?case
  proof (cases "L h")
    case Nil
    then have "expire_list reg w h = Some w" by (subst expire_list.simps) (simp add: lists_empty [OF less(2) h])
    then show ?thesis using less(2-4) Nil by (intro exI [of _ w] exI [of _ L] exI [of _ "[]"]) simp
  next
    case (Cons p ps)
    obtain v M t ch where v: "fire reg w p = Some v" "lists_ok v M" "sched (armed reg) (lo_after (tick w)) v M" "vec v = vec w"
        "tick v = tick w" "start_time v = start_time w" "fired v = fired w @ [(tick w, p)]" "changed v = changed w @ ch" "core w p = Some t"
        "\<And>q. q \<notin> set ch \<Longrightarrow> core v q = ((core w)(p := renewed (tick w) t)) q"
        "length (M h) \<le> length ps" "set (M h) \<subseteq> set ps" "set ps - set (M h) \<subseteq> set ch"
      using fire_ok [OF less(2-4) Cons reg] by blast
    have lt: "length (M h) < length (L h)" using v(11) Cons by simp
    have S': "sched (armed reg) (lo_after (tick v)) v M" using v(3,5) by simp
    have h': "h = vec v 0 (tv_idx 0 (tick v))" using v(4,5) less(4) by simp
    obtain w' L' qs dh where w': "expire_list reg v h = Some w'" "lists_ok w' L'" "sched (armed reg) (lo_after (tick w)) w' L'" "L' h = []"
        "vec w' = vec w" "tick w' = tick w" "start_time w' = start_time w" "fired w' = fired v @ map (Pair (tick w)) qs"
        "changed w' = changed v @ dh" "distinct qs" "set qs \<subseteq> set (M h)" "set (M h) - set qs \<subseteq> set dh"
        "\<forall>q. q \<notin> set dh \<longrightarrow> core w' q = (if q \<in> set qs then Option.bind (core v q) (renewed (tick w)) else core v q)"
      using less(1) [OF lt v(2) S' h'] unfolding v(4-6) by blast
    have np: "p \<notin> set ps" using rings_distinct [OF lists_rings [OF less(2)] h] Cons by simp
    then have nq: "p \<notin> set qs" using w'(11) v(12) by blast
    have "core w' q = (if q \<in> set (p # qs) then Option.bind (core w q) (renewed (tick w)) else core w q)" if "q \<notin> set (ch @ dh)" for q
      using w'(13) v(10) [of q] v(9) nq that by auto
    moreover have "expire_list reg w h = Some w'"
      using lists_empty [OF less(2) h] lists_first [OF less(2) h Cons] v(1) w'(1) Cons by (subst expire_list.simps) auto
    moreover have "set (p # qs) \<subseteq> set (L h)" "set (L h) - set (p # qs) \<subseteq> set (ch @ dh)" using w'(11,12) v(12,13) Cons by auto
    ultimately show ?thesis using w' v(7,8) nq
      by (intro exI [of _ w'] exI [of _ L'] exI [of _ "p # qs"] exI [of _ "ch @ dh"]) simp
  qed
qed

text \<open>At tick \<open>T\<close>, the slot of \<open>T\<close> holds exactly the timers that expire at \<open>T\<close>.\<close>

lemma sched_due:
  assumes L: "lists_ok w L" and S: "sched A (lo_after (tick w)) w L"
  shows "p \<in> set (L (vec w 0 (tv_idx 0 (tick w)))) \<longleftrightarrow> (\<exists>t. agenda w p = Some t \<and> expires t = tick w)"
proof
  let ?T = "tick w" and ?i = "tv_idx 0 (tick w)"
  assume p: "p \<in> set (L (vec w 0 ?i))"
  have s: "slot 0 ?i" using slot_tv_idx by simp
  obtain t where t: "core w p = Some t" "placed (lo_after ?T) ?T 0 ?i (expires t)" using schedD [OF S s p] by blast
  have "p \<notin> heads w" using rings_heads [OF lists_rings [OF L] head_mem [OF s] p] .
  with t placed_0_current show "\<exists>t. agenda w p = Some t \<and> expires t = ?T" by (auto simp: agenda_def)
next
  let ?T = "tick w" and ?i = "tv_idx 0 (tick w)"
  assume "\<exists>t. agenda w p = Some t \<and> expires t = ?T"
  then obtain t where t: "p \<notin> heads w" "core w p = Some t" "expires t = ?T" by (auto simp: agenda_def split: if_splits)
  then have "is_timer w p" by (simp add: is_timer_core)
  then obtain h where h: "h \<in> heads w" "p \<in> set (L h)" using L t(1) unfolding lists_ok_def by blast
  then obtain k i where s: "slot k i" and p: "p \<in> set (L (vec w k i))" by (auto simp: heads_def)
  have pl: "placed (lo_after ?T) ?T k i ?T" using schedD [OF S s p] t by auto
  then have k: "k = 0" using placed_after_less [OF pl] by (cases "k = 0") auto
  then have "i = ?i" using pl by (simp add: placed_def tv_idx_0)
  with p k show "p \<in> set (L (vec w 0 ?i))" by simp
qed

text \<open>What a tick does to the agenda.\<close>

definition tick_spec :: "int \<Rightarrow> (nat \<Rightarrow> shm_timer option) \<Rightarrow> nat \<Rightarrow> shm_timer option" where
  "tick_spec T E p = (case E p of None \<Rightarrow> None | Some t \<Rightarrow> if expires t = T then renewed T t else Some t)"

lemma next_tick_ok:
  assumes "wheel_ok reg w" and reg: "clients reg alloc" "fresh_alloc alloc"
  shows "\<exists>w' ps ch. next_tick reg w = Some w' \<and> wheel_ok reg w' \<and> tick w' = tick w + 1 \<and> start_time w' = start_time w \<and>
    fired w' = fired w @ map (Pair (tick w)) ps \<and> changed w' = changed w @ ch \<and> distinct ps \<and>
    (\<forall>p \<in> set ps. \<exists>t. agenda w p = Some t \<and> expires t = tick w) \<and>
    (\<forall>p t. agenda w p = Some t \<longrightarrow> expires t = tick w \<longrightarrow> ps \<noteq> [] \<and> (p \<in> set ps \<or> p \<in> set ch)) \<and>
    (\<forall>p. p \<notin> set ch \<longrightarrow> agenda w' p = tick_spec (tick w) (agenda w) p)"
proof -
  let ?T = "tick w" and ?i = "tv_idx 0 (tick w)"
  obtain L where L: "lists_ok w L" "sched (armed reg) (lo_before ?T) w L" using assms(1) by (auto simp: wheel_ok_def)
  obtain v M where v: "cascade_levels [1, 2, 3, 4] w = Some v" "t_relinked w v" "lists_ok v M" "sched (armed reg) (lo_after ?T) v M"
    using cascades_ok [OF L] by blast
  note r = t_relinkedD [OF v(2)]
  let ?h = "vec v 0 ?i"
  obtain u N ps ch where u: "expire_list reg v ?h = Some u" "lists_ok u N" "sched (armed reg) (lo_after ?T) u N" "N ?h = []"
      "vec u = vec v" "tick u = ?T" "start_time u = start_time w" "fired u = fired w @ map (Pair ?T) ps" "changed u = changed w @ ch"
      "distinct ps" "set ps \<subseteq> set (M ?h)" "set (M ?h) - set ps \<subseteq> set ch" "M ?h \<noteq> [] \<longrightarrow> ps \<noteq> []"
      "\<forall>q. q \<notin> set ch \<longrightarrow> core u q = (if q \<in> set ps then Option.bind (core w q) (renewed ?T) else core w q)"
    using expire_list_ok [OF v(3), unfolded r, OF v(4) refl reg] unfolding r(2) by blast
  have due: "q \<in> set (M ?h) \<longleftrightarrow> (\<exists>t. agenda w q = Some t \<and> expires t = ?T)" for q
    using sched_due [OF v(3), of "armed reg" q] v(4) r by simp
  define w' where "w' = u\<lparr>tick := ?T + 1\<rparr>"
  note same = lists_ok_same [of w' u, unfolded w'_def, simplified, folded w'_def]
  have hu: "heads u = heads w" using u(5) r(2) by (simp add: heads_def)
  have ag: "agenda w' q = tick_spec ?T (agenda w) q" if "q \<notin> set ch" for q
  proof -
    have "q \<in> set ps \<longleftrightarrow> (\<exists>t. agenda w q = Some t \<and> expires t = ?T)" using due [of q] u(11,12) that by blast
    then show ?thesis
      using u(14) that same(4) hu by (auto simp: agenda_def tick_spec_def split: if_splits option.splits)
  qed
  have "sched (armed reg) (lo_before (tick w')) w' N"
    unfolding sched_def
  proof (intro allI impI ballI)
    fix k i p assume sl: "slot k i" and p: "p \<in> set (N (vec w' k i))"
    then have pu: "p \<in> set (N (vec u k i))" by (simp add: w'_def)
    then obtain t where t: "core u p = Some t" "armed reg p t" "placed (lo_after ?T) ?T k i (expires t)"
      using schedD [OF u(3) sl] u(6) by metis
    have "expires t \<noteq> ?T"
    proof
      assume e: "expires t = ?T"
      have "p \<notin> heads u" using rings_heads [OF lists_rings [OF u(2)] head_mem [OF sl] pu] .
      then have "agenda u p = Some t" using t(1) by (simp add: agenda_def)
      then show False using sched_due [OF u(2), of "armed reg" p] u(3,4,5,6) e by simp
    qed
    then show "\<exists>t. core w' p = Some t \<and> armed reg p t \<and> placed (lo_before (tick w')) (tick w') k i (expires t)"
      using t placed_next [OF t(3)] same(2) by (simp add: w'_def)
  qed
  then have "wheel_ok reg w'" using same(1) u(2) by (auto simp: wheel_ok_def)
  moreover have "next_tick reg w = Some w'"
    using v(1) u(1,6) by (simp add: next_tick_def run_timer_levels w'_def)
  moreover have "ps \<noteq> [] \<and> (p \<in> set ps \<or> p \<in> set ch)" if "agenda w p = Some t" "expires t = ?T" for p t
    using due [of p] u(12,13) that by auto
  moreover have "\<forall>p \<in> set ps. \<exists>t. agenda w p = Some t \<and> expires t = ?T" using due u(11) by blast
  ultimately show ?thesis using ag u(7-10) by (intro exI [of _ w'] exI [of _ ps] exI [of _ ch]) (simp add: w'_def)
qed

section \<open>The ticks of a timer\<close>

text \<open>The ticks from \<open>a\<close> on, \<open>n\<close> of them, at which a timer fires.\<close>

definition due_ticks :: "shm_timer \<Rightarrow> int \<Rightarrow> nat \<Rightarrow> int list" where
  "due_ticks t a n = filter (\<lambda>x. expires t \<le> x \<and>
     (if repeats t = 1 then x = expires t
      else (x - expires t) mod interval t = 0 \<and> (repeats t < 0 \<or> (x - expires t) div interval t < repeats t))) (map (\<lambda>j. a + int j) [0..<n])"

lemma map_add_upt: "map (\<lambda>j. a + int j) [0..<Suc n] = a # map (\<lambda>j. (a + 1) + int j) [0..<n]"
  by (simp add: upt_conv_Cons map_Suc_upt [symmetric] comp_def add.assoc del: upt_Suc)

lemma zero_quotient: "0 < b \<Longrightarrow> 0 \<le> y \<Longrightarrow> y mod b = 0 \<Longrightarrow> y div b < 1 \<longleftrightarrow> y = 0" for b y :: int
proof
  assume b: "0 < b" "0 \<le> y" "y mod b = 0" and d: "y div b < 1"
  have "0 \<le> y div b" using b by (simp add: pos_imp_zdiv_nonneg_iff)
  then have "y div b = 0" using d by simp
  then show "y = 0" using b(3) div_mult_mod_eq [of y b] by simp
qed simp

lemma due_ticks_Suc:
  assumes "a \<le> expires t" and "has_repeats t" and "repeats t = 1 \<or> interval t > 0"
  shows "due_ticks t a (Suc n) = (if expires t = a then a # (case renewed a t of None \<Rightarrow> [] | Some u \<Rightarrow> due_ticks u (a + 1) n)
    else due_ticks t (a + 1) n)"
proof (cases "expires t = a")
  case False
  then show ?thesis using assms unfolding due_ticks_def map_add_upt by simp
next
  case True
  have z: "a < x" if "x \<in> set (map (\<lambda>j. (a + 1) + int j) [0..<n])" for x using that by auto
  show ?thesis
  proof (cases "repeats t = 1")
    case one: True
    have "filter (\<lambda>x. a \<le> x \<and> x = a) (map (\<lambda>j. (a + 1) + int j) [0..<n]) = []"
      by (rule filter_False) (use z in force)
    then show ?thesis using True one unfolding due_ticks_def map_add_upt by (simp add: renewed_def)
  next
    case more: False
    define I where "I = interval t"
    have I: "I > 0" using assms(3) more I_def by simp
    define u where "u = t\<lparr>repeats := (if repeats t > 0 then repeats t - 1 else repeats t), expires := a + I\<rparr>"
    have fst: "repeats t < 0 \<or> 0 < repeats t" using assms(2) by (auto simp: has_repeats_def REPEAT_FOREVER_def)
    let ?P = "\<lambda>t x. expires t \<le> x \<and> (if repeats t = 1 then x = expires t
      else (x - expires t) mod interval t = 0 \<and> (repeats t < 0 \<or> (x - expires t) div interval t < repeats t))"
    have pq: "?P t x = ?P u x" if "a < x" for x
    proof (cases "a + I \<le> x")
      case True': True
      have m: "(x - a) mod I = (x - (a + I)) mod I" by (metis diff_diff_eq mod_diff_right_eq mod_self diff_zero)
      have d: "(x - a) div I = (x - (a + I)) div I + 1"
        using div_add_self2 [of I "x - (a + I)"] I by simp
      have "(x - (a + I)) mod I = 0 \<Longrightarrow> (x - (a + I)) div I < 1 \<longleftrightarrow> x = a + I"
        using zero_quotient [of I "x - (a + I)"] I True' by simp
      then show ?thesis using True True' more I m d fst by (auto simp: u_def I_def [symmetric])
    next
      case False
      then have "(x - a) mod I = x - a" using that by (intro mod_pos_pos_trivial) auto
      then show ?thesis using True False that more by (auto simp: u_def I_def [symmetric])
    qed
    have "filter (?P t) (map (\<lambda>j. (a + 1) + int j) [0..<n]) = filter (?P u) (map (\<lambda>j. (a + 1) + int j) [0..<n])"
      by (rule filter_cong [OF refl]) (rule pq [OF z])
    then show ?thesis
      using True more fst I unfolding due_ticks_def map_add_upt by (auto simp: renewed_def u_def I_def)
  qed
qed

end
