(* ===== verification/Timer_Spec.thy ===== *)
theory Timer_Spec
  imports Timer_Callbacks
begin

text \<open>
  The contract of the timer manager over whole runs: construction gives an empty agenda, \<^verbatim>\<open>start\<close> and \<^verbatim>\<open>stop\<close> add and
  delete one entry, and in any number of ticks every timer fires exactly at the ticks its timeout, interval and
  repeat count say, wherever the wheel kept it.
\<close>

section \<open>Runs\<close>

lemma wheel_agenda:
  assumes "wheel_ok reg w" and "agenda w p = Some t"
  shows "armed reg p t" and "tick w \<le> expires t"
    and "\<And>L. lists_ok w L \<Longrightarrow> \<exists>k i. slot k i \<and> p \<in> set (L (vec w k i))"
proof -
  let ?T = "tick w"
  have c: "p \<notin> heads w" "core w p = Some t" using assms(2) by (auto simp: agenda_def split: if_splits)
  show mem: "\<exists>k i. slot k i \<and> p \<in> set (L (vec w k i))" if L: "lists_ok w L" for L
  proof -
    have "is_timer w p" using c by (simp add: is_timer_core)
    then obtain h where "h \<in> heads w" "p \<in> set (L h)" using L c(1) unfolding lists_ok_def by blast
    then show ?thesis by (auto simp: heads_def)
  qed
  obtain L where L: "lists_ok w L" "sched (armed reg) (lo_before ?T) w L" using assms(1) by (auto simp: wheel_ok_def)
  obtain k i where s: "slot k i" "p \<in> set (L (vec w k i))" using mem [OF L(1)] by blast
  then have a: "armed reg p t" and pl: "placed (lo_before ?T) ?T k i (expires t)" using schedD [OF L(2) s] c(2) by auto
  show "armed reg p t" using a .
  show "?T \<le> expires t"
  proof (cases "k = 0")
    case True then show ?thesis using pl by (simp add: placed_def)
  next
    case False
    then obtain B where B: "lo_before ?T k \<le> B" "B * block k \<le> expires t" using pl by (auto simp: placed_block)
    have "?T \<le> lo_before ?T k * block k"
      using less_next_block [of ?T k] by (auto simp: lo_before_eq lo_after_def)
    also have "\<dots> \<le> B * block k" using B(1) by (simp add: mult_right_mono)
    finally show ?thesis using B(2) by simp
  qed
qed

lemma filter_Pair: "distinct ps \<Longrightarrow> filter (\<lambda>(x, q). q = p) (map (Pair T) ps) = (if p \<in> set ps then [(T, p)] else [])"
  by (induction ps) auto

lemma due_ticks_0: "due_ticks t a 0 = []"
  by (simp add: due_ticks_def)

text \<open>
  The callbacks called in a run: for a timer that no callback starts or stops they are the ticks of its agenda entry, and
  any timer that fires is on the agenda and due at the beginning of that tick.
\<close>

definition on_time :: "registry \<Rightarrow> nat \<Rightarrow> timer_mgr \<Rightarrow> (int \<times> nat) list \<Rightarrow> nat list \<Rightarrow> bool" where
  "on_time reg n w log ch \<longleftrightarrow>
     (\<forall>p. p \<notin> set ch \<longrightarrow>
       map fst (filter (\<lambda>(x, q). q = p) log) = (case agenda w p of None \<Rightarrow> [] | Some t \<Rightarrow> due_ticks t (tick w) n)) \<and>
     (\<forall>(x, p) \<in> set log. \<exists>v t. run_ticks reg (nat (x - tick w)) w = Some v \<and> tick v = x \<and> agenda v p = Some t \<and> expires t = x)"

lemma on_time_Suc:
  assumes ok: "wheel_ok reg w" and v: "next_tick reg w = Some v" "tick v = tick w + 1" and d: "distinct ps"
    and due: "\<forall>p \<in> set ps. \<exists>t. agenda w p = Some t \<and> expires t = tick w"
      "\<forall>p t. agenda w p = Some t \<longrightarrow> expires t = tick w \<longrightarrow> ps \<noteq> [] \<and> (p \<in> set ps \<or> p \<in> set ch)"
    and ag: "\<forall>p. p \<notin> set ch \<longrightarrow> agenda v p = tick_spec (tick w) (agenda w) p"
    and log: "on_time reg n v log dh" "\<forall>(x, p) \<in> set log. tick v \<le> x"
  shows "on_time reg (Suc n) w (map (Pair (tick w)) ps @ log) (ch @ dh)"
proof -
  let ?T = "tick w"
  have 1: "map fst (filter (\<lambda>(x, q). q = p) (map (Pair ?T) ps @ log)) =
      (case agenda w p of None \<Rightarrow> [] | Some t \<Rightarrow> due_ticks t ?T (Suc n))" if p: "p \<notin> set ch" "p \<notin> set dh" for p
  proof -
    have IH: "map fst (filter (\<lambda>(x, q). q = p) log) = (case tick_spec ?T (agenda w) p of None \<Rightarrow> [] | Some t \<Rightarrow> due_ticks t (?T + 1) n)"
      using log(1) ag p unfolding on_time_def v(2) by simp
    have mem: "p \<in> set ps \<longleftrightarrow> (\<exists>t. agenda w p = Some t \<and> expires t = ?T)" using due p(1) by blast
    show ?thesis
    proof (cases "agenda w p")
      case None then show ?thesis using mem IH d by (simp add: filter_Pair tick_spec_def)
    next
      case (Some t)
      note a = wheel_agenda(1,2) [OF ok Some]
      have "due_ticks t ?T (Suc n) = (if expires t = ?T then ?T # (case renewed ?T t of None \<Rightarrow> [] | Some u \<Rightarrow> due_ticks u (?T + 1) n)
          else due_ticks t (?T + 1) n)" by (rule due_ticks_Suc) (use a in \<open>auto simp: armed_def\<close>)
      then show ?thesis using Some mem IH d by (simp add: filter_Pair tick_spec_def)
    qed
  qed
  have "\<exists>u t. run_ticks reg (nat (x - ?T)) w = Some u \<and> tick u = x \<and> agenda u p = Some t \<and> expires t = x"
    if "(x, p) \<in> set (map (Pair ?T) ps @ log)" for x p
  proof (cases "(x, p) \<in> set log")
    case True
    then obtain u t where u: "run_ticks reg (nat (x - tick v)) v = Some u" "tick u = x" "agenda u p = Some t" "expires t = x"
      using log(1) unfolding on_time_def by blast
    have "nat (x - ?T) = Suc (nat (x - tick v))" using log(2) True v(2) by fastforce
    then show ?thesis using u v(1) by auto
  next
    case False
    then show ?thesis using that due(1) by auto
  qed
  then have "case y of (x, p) \<Rightarrow> \<exists>u t. run_ticks reg (nat (x - ?T)) w = Some u \<and> tick u = x \<and> agenda u p = Some t \<and> expires t = x"
    if "y \<in> set (map (Pair ?T) ps @ log)" for y using that by (cases y) blast
  with 1 show ?thesis unfolding on_time_def by simp
qed

lemma run_ticks_ok:
  assumes "wheel_ok reg w" and reg: "clients reg alloc" "fresh_alloc alloc"
  shows "\<exists>w' log ch. run_ticks reg n w = Some w' \<and> start_time w' = start_time w \<and> wheel_ok reg w' \<and> tick w' = tick w + int n \<and>
    fired w' = fired w @ log \<and> changed w' = changed w @ ch \<and> on_time reg n w log ch \<and> (\<forall>(x, p) \<in> set log. tick w \<le> x)"
  using assms(1)
proof (induction n arbitrary: w)
  case 0 then show ?case by (auto simp: due_ticks_0 on_time_def split: option.splits)
next
  case (Suc n)
  let ?T = "tick w"
  obtain v ps ch where v: "next_tick reg w = Some v" "wheel_ok reg v" "tick v = ?T + 1" "start_time v = start_time w"
      "fired v = fired w @ map (Pair ?T) ps" "changed v = changed w @ ch" "distinct ps"
      "\<forall>p \<in> set ps. \<exists>t. agenda w p = Some t \<and> expires t = ?T"
      "\<forall>p t. agenda w p = Some t \<longrightarrow> expires t = ?T \<longrightarrow> ps \<noteq> [] \<and> (p \<in> set ps \<or> p \<in> set ch)"
      "\<forall>p. p \<notin> set ch \<longrightarrow> agenda v p = tick_spec ?T (agenda w) p"
    using next_tick_ok [OF Suc.prems reg] by blast
  obtain w' log dh where w': "run_ticks reg n v = Some w'" "start_time w' = start_time v" "wheel_ok reg w'" "tick w' = tick v + int n"
      "fired w' = fired v @ log" "changed w' = changed v @ dh" "on_time reg n v log dh" "\<forall>(x, p) \<in> set log. tick v \<le> x"
    using Suc.IH [OF v(2)] by blast
  note o = on_time_Suc [OF Suc.prems v(1,3,7-10) w'(7,8)]
  have "\<forall>(x, p) \<in> set (map (Pair ?T) ps @ log). ?T \<le> x" using w'(8) v(3) by fastforce
  then show ?case using o v(1,3-6) w'(1-6)
    by (intro exI [of _ w'] exI [of _ "map (Pair ?T) ps @ log"] exI [of _ "ch @ dh"]) simp
qed

text \<open>
  C4: Timers fire on time. From any state of the wheel, \<open>n\<close> ticks run to their end, whatever the callbacks start and stop
  meanwhile. The callback of a timer that no callback starts or stops is called exactly at its expiration tick and then
  every interval after it, as often as its repeat count says (or forever), no matter through which vectors the timer is
  cascaded; and a callback is only ever called for a timer that is due at that tick. The hypotheses on the callbacks: they
  start timers with a timeout of at least one tick of 20 ms and, unless the timer fires once, such an interval, and stop
  timers that are on the agenda, their own included; memory for a new timer is found.
\<close>

theorem timers_fire_on_time:
  assumes "wheel_ok reg w" and "clients reg alloc" and "fresh_alloc alloc"
  shows "\<exists>w' log ch. run_ticks reg n w = Some w' \<and> wheel_ok reg w' \<and> tick w' = tick w + int n \<and> fired w' = fired w @ log \<and>
    changed w' = changed w @ ch \<and>
    (\<forall>p. p \<notin> set ch \<longrightarrow>
      map fst (filter (\<lambda>(x, q). q = p) log) = (case agenda w p of None \<Rightarrow> [] | Some t \<Rightarrow> due_ticks t (tick w) n)) \<and>
    (\<forall>(x, p) \<in> set log. \<exists>v t. run_ticks reg (nat (x - tick w)) w = Some v \<and> tick v = x \<and> agenda v p = Some t \<and> expires t = x)"
  using run_ticks_ok [OF assms, of n] unfolding on_time_def by blast

section \<open>Starting and stopping\<close>

lemma start_ok:
  assumes ok: "wheel_ok reg w" and rc: "repeat_count = REPEAT_FOREVER \<or> repeat_count \<ge> 1" and t0: "timeout_ms \<ge> 0"
    and iv: "repeat_count = 1 \<or> repeat_ms \<ge> TIMER_PRECISION_MS" and cb: "\<forall>c. reg ty = Some c \<longrightarrow> cb_size c = length data"
    and mem: "alloc (timers w) = p" "p \<noteq> 0" "timers w p = None"
  shows "if has_callback reg ty
    then \<exists>w'. start reg alloc w timeout_ms repeat_ms repeat_count ty data = Some (p, w') \<and> wheel_ok reg w' \<and> tick w' = tick w \<and>
      agenda w p = None \<and>
      agenda w' = (agenda w)(p \<mapsto> \<lparr>self = p, prev = 0, nxt = 0, expires = tick w + timeout_ms div 20, interval = ms2tick repeat_ms,
        running = False, repeats = repeat_count, timer_type = ty, cb_len = length data, cb_data = data\<rparr>)
    else start reg alloc w timeout_ms repeat_ms repeat_count ty data = Some (0, w)"
proof (cases "has_callback reg ty")
  case True
  define t where "t = new_timer p (tick w) timeout_ms repeat_ms repeat_count ty data"
  obtain L where L: "lists_ok w L" "sched (armed reg) (lo_before (tick w)) w L" using ok by (auto simp: wheel_ok_def)
  obtain c where c: "reg ty = Some c" using True by (auto simp: has_callback_def)
  then have "armed reg p t" using new_timer_armed rc iv cb unfolding t_def by blast
  from start_sched [where alloc = alloc and p = p, OF L lo_before_le rc t0 True mem t_def this]
  obtain w' L' where w': "start reg alloc w timeout_ms repeat_ms repeat_count ty data = Some (p, w')" "p \<notin> heads w"
      "core w' = (core w)(p \<mapsto> t)" "vec w' = vec w" "tick w' = tick w" "lists_ok w' L'" "sched (armed reg) (lo_before (tick w)) w' L'"
    by blast
  have "wheel_ok reg w'" using w'(5-7) by (auto simp: wheel_ok_def)
  moreover have "agenda w' = (agenda w)(p \<mapsto> t)" using w'(2-4) by (auto simp: agenda_def heads_def fun_eq_iff)
  moreover have "agenda w p = None" using mem(3) by (simp add: agenda_def core_def)
  ultimately show ?thesis using True w'(1,5) by (simp add: t_def new_timer_def)
qed (use rc in \<open>simp add: start_def sk_assert_def\<close>)

text \<open>
  C18: Starting a timer. With a registered callback and memory for one more timer, \<^verbatim>\<open>start\<close> adds exactly one entry to the
  agenda, due \<open>timeout_ms / 20\<close> ticks from now, and keeps the wheel correct; a type without callback adds nothing and
  gives the null handle.
\<close>

theorem start_adds_timer:
  assumes ok: "wheel_ok reg w" and rc: "repeat_count = REPEAT_FOREVER \<or> repeat_count \<ge> 1" and t0: "timeout_ms \<ge> 0"
    and iv: "repeat_count = 1 \<or> repeat_ms \<ge> TIMER_PRECISION_MS" and cb: "\<forall>c. reg ty = Some c \<longrightarrow> cb_size c = length data"
    and mem: "alloc (timers w) = p" "p \<noteq> 0" "timers w p = None"
  shows "if has_callback reg ty
    then \<exists>w'. start reg alloc w timeout_ms repeat_ms repeat_count ty data = Some (p, w') \<and> wheel_ok reg w' \<and> tick w' = tick w \<and>
      agenda w p = None \<and>
      agenda w' = (agenda w)(p \<mapsto> \<lparr>self = p, prev = 0, nxt = 0, expires = tick w + timeout_ms div 20, interval = ms2tick repeat_ms,
        running = False, repeats = repeat_count, timer_type = ty, cb_len = length data, cb_data = data\<rparr>)
    else start reg alloc w timeout_ms repeat_ms repeat_count ty data = Some (0, w)"
  by (rule start_ok [where alloc = alloc and p = p, OF assms])

text \<open>
  C19: Stopping a timer that is on the agenda, outside its own callback, deletes exactly its entry.
\<close>

theorem stop_removes_timer:
  assumes ok: "wheel_ok reg w" and p: "agenda w p = Some t"
  shows "\<exists>w'. stop w p = Some w' \<and> wheel_ok reg w' \<and> tick w' = tick w \<and> agenda w' = (agenda w)(p := None)"
proof -
  obtain L where L: "lists_ok w L" "sched (armed reg) (lo_before (tick w)) w L" using ok by (auto simp: wheel_ok_def)
  obtain k i where s: "slot k i" "p \<in> set (L (vec w k i))" using wheel_agenda(3) [OF ok p L(1)] by blast
  have t: "core w p = Some t" using p by (simp add: agenda_def split: if_splits)
  have a: "self t = p" "\<not> running t" using wheel_agenda(1) [OF ok p] by (auto simp: armed_def)
  obtain w' L' where w': "stop w p = Some w'" "core w' = (core w)(p := None)" "vec w' = vec w" "tick w' = tick w"
      "lists_ok w' L'" "sched (armed reg) (lo_before (tick w)) w' L'"
    using stop_sched [OF L s t a] by blast
  have "wheel_ok reg w'" using w'(4-6) by (auto simp: wheel_ok_def)
  moreover have "agenda w' = (agenda w)(p := None)" using w'(2,3) by (auto simp: agenda_def heads_def fun_eq_iff)
  ultimately show ?thesis using w'(1,4) by blast
qed

section \<open>Construction\<close>

text \<open>The dummy heads in \<open>V\<close> have been made, and nothing else.\<close>

definition built :: "timer_mgr \<Rightarrow> (nat \<times> nat) set \<Rightarrow> bool" where
  "built w V \<longleftrightarrow> finite (dom (timers w)) \<and>
     (\<forall>k i k' i'. (k, i) \<in> V \<longrightarrow> (k', i') \<in> V \<longrightarrow> vec w k i = vec w k' i' \<longrightarrow> k = k' \<and> i = i') \<and>
     (\<forall>p. timers w p \<noteq> None \<longleftrightarrow> (\<exists>k i. (k, i) \<in> V \<and> p = vec w k i)) \<and>
     (\<forall>k i. (k, i) \<in> V \<longrightarrow> t_nx w (vec w k i) = vec w k i \<and> t_pv w (vec w k i) = vec w k i)"

lemma built_step:
  assumes b: "built w V" and n: "(k, i) \<notin> V" and al: "fresh_alloc alloc"
  shows "\<exists>w'. timer_vector_new alloc w k (i # is) = timer_vector_new alloc w' k is \<and> built w' (insert (k, i) V) \<and>
    w' = w\<lparr>timers := timers w', vec := vec w'\<rparr>"
proof -
  define p where "p = alloc (timers w)"
  have p: "p \<noteq> 0" "timers w p = None" using b al by (auto simp: p_def built_def fresh_alloc_def)
  define w' where "w' = w\<lparr>vec := (vec w)(k := (vec w k)(i := p)),
    timers := (timers w)(p \<mapsto> timer_default\<lparr>self := p, prev := p, nxt := p\<rparr>)\<rparr>"
  have old: "vec w' k' i' = vec w k' i'" "vec w k' i' \<noteq> p" if "(k', i') \<in> V" for k' i'
  proof -
    show "vec w' k' i' = vec w k' i'" using that n by (auto simp: w'_def)
    show "vec w k' i' \<noteq> p" using that p(2) b unfolding built_def by metis
  qed
  have new: "vec w' k i = p" by (simp add: w'_def)
  have "timer_vector_new alloc w k (i # is) = timer_vector_new alloc w' k is"
    using p by (simp add: construct_def Let_def sk_assert_def timer_list_init_def upd_timer_def p_def [symmetric] w'_def)
  moreover have "finite (dom (timers w'))" using b by (simp add: built_def w'_def)
  moreover have "k1 = k2 \<and> i1 = i2" if "(k1, i1) \<in> insert (k, i) V" "(k2, i2) \<in> insert (k, i) V" "vec w' k1 i1 = vec w' k2 i2" for k1 i1 k2 i2
    using that old [of k1 i1] old [of k2 i2] new b unfolding built_def by auto
  moreover have "timers w' q \<noteq> None \<longleftrightarrow> (\<exists>k' i'. (k', i') \<in> insert (k, i) V \<and> q = vec w' k' i')" for q
  proof -
    have "timers w' q \<noteq> None \<longleftrightarrow> q = p \<or> timers w q \<noteq> None" by (auto simp: w'_def)
    also have "\<dots> \<longleftrightarrow> q = p \<or> (\<exists>k' i'. (k', i') \<in> V \<and> q = vec w k' i')" using b unfolding built_def by blast
    also have "\<dots> \<longleftrightarrow> (\<exists>k' i'. (k', i') \<in> insert (k, i) V \<and> q = vec w' k' i')"
      using old(1) new by (metis insert_iff prod.inject)
    finally show ?thesis .
  qed
  moreover have "t_nx w' (vec w' k' i') = vec w' k' i' \<and> t_pv w' (vec w' k' i') = vec w' k' i'" if "(k', i') \<in> insert (k, i) V" for k' i'
  proof (cases "(k', i') \<in> V")
    case True
    then have "t_nx w (vec w k' i') = vec w k' i'" "t_pv w (vec w k' i') = vec w k' i'" using b by (auto simp: built_def)
    then show ?thesis using old [OF True] by (simp add: t_nx_def t_pv_def) (simp add: w'_def)
  next
    case False then show ?thesis using that new by (auto simp: t_nx_def t_pv_def w'_def)
  qed
  ultimately have "timer_vector_new alloc w k (i # is) = timer_vector_new alloc w' k is \<and> built w' (insert (k, i) V)"
    unfolding built_def by blast
  moreover have "w' = w\<lparr>timers := timers w', vec := vec w'\<rparr>" by (simp add: w'_def)
  ultimately show ?thesis by blast
qed

lemma built_vector:
  assumes "built w V" and "fresh_alloc alloc" and "distinct is" and "\<forall>i \<in> set is. (k, i) \<notin> V"
  shows "\<exists>w'. timer_vector_new alloc w k is = Some w' \<and> built w' (V \<union> Pair k ` set is) \<and> w' = w\<lparr>timers := timers w', vec := vec w'\<rparr>"
  using assms
proof (induction "is" arbitrary: w V)
  case Nil then show ?case by simp
next
  case (Cons i "is")
  obtain v where v: "timer_vector_new alloc w k (i # is) = timer_vector_new alloc v k is" "built v (insert (k, i) V)"
      "v = w\<lparr>timers := timers v, vec := vec v\<rparr>"
    using built_step [OF Cons.prems(1) _ Cons.prems(2)] Cons.prems(4) by fastforce
  obtain w' where w': "timer_vector_new alloc v k is = Some w'" "built w' (insert (k, i) V \<union> Pair k ` set is)"
      "w' = v\<lparr>timers := timers w', vec := vec w'\<rparr>"
    using Cons.IH [OF v(2) Cons.prems(2)] Cons.prems(3,4) by auto
  have "w' = w\<lparr>timers := timers w', vec := vec w'\<rparr>" by (subst w'(3), subst v(3)) simp
  with v(1) w'(1,2) show ?case by simp
qed

lemma built_vectors:
  assumes "built w V" and "fresh_alloc alloc" and "distinct ks" and "\<forall>k \<in> set ks. \<forall>i. (k, i) \<notin> V"
  shows "\<exists>w'. timer_vectors_new alloc w ks = Some w' \<and> built w' (V \<union> {(k, i). k \<in> set ks \<and> i < width k}) \<and>
    w' = w\<lparr>timers := timers w', vec := vec w'\<rparr>"
  using assms
proof (induction ks arbitrary: w V)
  case Nil then show ?case by simp
next
  case (Cons k ks)
  let ?n = "if k = 0 then 256 else 64 :: nat"
  have n: "?n = width k" by (simp add: width_def)
  obtain v where v: "timer_vector_new alloc w k [0..<?n] = Some v" "built v (V \<union> Pair k ` set [0..<?n])"
      "v = w\<lparr>timers := timers v, vec := vec v\<rparr>"
    using built_vector [OF Cons.prems(1,2), of "[0..<?n]" k] Cons.prems(4) by auto
  obtain w' where w': "timer_vectors_new alloc v ks = Some w'"
      "built w' (V \<union> Pair k ` set [0..<?n] \<union> {(k, i). k \<in> set ks \<and> i < width k})" "w' = v\<lparr>timers := timers w', vec := vec w'\<rparr>"
    using Cons.IH [OF v(2) Cons.prems(2)] Cons.prems(3,4) by auto
  have "w' = w\<lparr>timers := timers w', vec := vec w'\<rparr>" by (subst w'(3), subst v(3)) simp
  moreover have "V \<union> Pair k ` set [0..<?n] \<union> {(k, i). k \<in> set ks \<and> i < width k} = V \<union> {(j, i). j \<in> set (k # ks) \<and> i < width j}"
    unfolding n by auto
  ultimately show ?case using v(1) w'(1,2) by simp
qed

lemma built_lists_ok:
  assumes "built w {(k, i). slot k i}"
  shows "lists_ok w (\<lambda>_. [])"
proof -
  have al: "is_timer w p \<longleftrightarrow> p \<in> heads w" for p using assms by (auto simp: built_def is_timer_def heads_def)
  have "rings (t_nx w) (t_pv w) 0 (heads w) (\<lambda>_. [])"
  proof (rule ringsI)
    fix h assume "h \<in> heads w"
    then show "ring (t_nx w) (t_pv w) h []" using assms by (auto simp: ring_Nil heads_def built_def)
  next
    fix y assume "y \<notin> heads w"
    then show "t_nx w y = 0 \<and> t_pv w y = 0" using al [of y] by (simp add: t_nx_def t_pv_def is_timer_def)
  qed auto
  then show ?thesis using assms al unfolding lists_ok_def built_def by simp
qed

lemma new_ok:
  assumes "fresh_alloc alloc"
  shows "\<exists>w. shm_timer_mgr_new alloc now off = Some w \<and> wheel_ok reg w \<and> tick w = 0 \<and> agenda w = (\<lambda>_. None) \<and> fired w = [] \<and>
    start_time w = now \<and> finite (dom (timers w)) \<and> card (dom (timers w)) = 512"
proof -
  define w0 where "w0 = \<lparr>timers = (\<lambda>_. None), tick = 0, vec = (\<lambda>_ _. 0), time_offset = (off, 0), start_time = now,
    current_time = timeval_add now (off, 0), fired = [], changed = []\<rparr>"
  have "built w0 {}" by (simp add: built_def w0_def)
  then obtain w where w: "timer_vectors_new alloc w0 [0..<5] = Some w" "built w {(k, i). k \<in> set [0..<5] \<and> i < width k}"
      "w = w0\<lparr>timers := timers w, vec := vec w\<rparr>"
    using built_vectors [OF _ assms, of w0 "{}" "[0..<5]"] by auto
  have sl: "{(k, i). k \<in> set [0..<5] \<and> i < width k} = {(k, i). slot k i}" by (auto simp: slot_def)
  note b = w(2) [unfolded sl]
  note L = built_lists_ok [OF b]
  have o: "tick w = 0" "fired w = []" "start_time w = now" by (subst w(3), simp add: w0_def)+
  have "sched (armed reg) (lo_before (tick w)) w (\<lambda>_. [])" by (simp add: sched_def)
  then have ok: "wheel_ok reg w" using L by (auto simp: wheel_ok_def)
  have dom: "dom (timers w) = (\<lambda>(k, i). vec w k i) ` {(k, i). slot k i}"
    using b unfolding built_def dom_def by (auto simp: image_iff)
  have "inj_on (\<lambda>(k, i). vec w k i) {(k, i). slot k i}" using vec_inj [OF L] by (auto simp: inj_on_def)
  moreover have "{(k, i). slot k i} = (SIGMA k:{..<5}. {..<width k})" by (auto simp: slot_def)
  moreover have "card (SIGMA k:{..<5::nat}. {..<width k}) = 512"
    by (simp add: width_def eval_nat_numeral lessThan_Suc)
  ultimately have "card (dom (timers w)) = 512" using dom card_image by metis
  moreover have "agenda w = (\<lambda>_. None)"
  proof
    fix p show "agenda w p = None"
      using L by (cases "is_timer w p") (auto simp: agenda_def is_timer_core lists_ok_def)
  qed
  moreover have "finite (dom (timers w))" using b by (simp add: built_def)
  ultimately show ?thesis using w(1) ok o by (auto simp: shm_timer_mgr_new_def w0_def)
qed

text \<open>
  Construction. When memory is handed out for the 512 dummy heads, a new timer manager is at tick 0, its wheel is correct and its
  agenda is empty.
\<close>

theorem shm_timer_mgr_new_ok:
  assumes "fresh_alloc alloc"
  shows "\<exists>w. shm_timer_mgr_new alloc now off = Some w \<and> wheel_ok reg w \<and> tick w = 0 \<and> agenda w = (\<lambda>_. None) \<and> fired w = [] \<and>
    start_time w = now \<and> finite (dom (timers w)) \<and> card (dom (timers w)) = 512"
  using new_ok [OF assms] by blast

section \<open>Catching up with the clock\<close>

lemma wheel_ok_same:
  assumes "wheel_ok reg w" and "timers w' = timers w" and "vec w' = vec w" and "tick w' = tick w"
  shows "wheel_ok reg w'"
proof -
  note s = lists_ok_same [OF assms(2,3)]
  have "sched (armed reg) lo w' L = sched (armed reg) lo w L" for lo L using sched_same s(2) assms(3,4) by blast
  then show ?thesis using assms(1,4) s(1) by (simp add: wheel_ok_def)
qed

text \<open>
  \<^verbatim>\<open>update\<close> returns and brings the wheel up to the clock: while the clock stays within one tick, exactly the outstanding
  ticks are run, and a clock that went back runs none. The wheel stays correct, with callbacks that start and stop timers.
\<close>

theorem update_catches_up:
  assumes ok: "wheel_ok reg w" "clients reg alloc" "fresh_alloc alloc" and clock: "\<forall>m. time2tick (timeval_sub (clock m) (start_time w)) = R"
  shows "\<exists>n' w'. update reg clock w n = Some (n', w') \<and> wheel_ok reg w' \<and> tick w' = max (tick w) R \<and>
    current_time w' = timeval_add (clock (n' - 1)) (time_offset w')"
proof (cases "R > tick w")
  case True
  obtain w1 where w1: "run_ticks reg (nat (R - tick w)) w = Some w1" "wheel_ok reg w1" "tick w1 = R" "start_time w1 = start_time w"
    using run_ticks_ok [OF ok, of "nat (R - tick w)"] True by auto
  have c: "outdated_tick_count w (clock m) = R - tick w" "outdated_tick_count w1 (clock m) = 0" for m
    using clock True w1(3,4) by (simp_all add: outdated_tick_count_def Let_def)
  have "update_loop reg clock w1 (n + 1) = Some (n + 1, w1)"
    using c(2) by (subst update_loop.simps) simp
  then have "update_loop reg clock w n = Some (n + 1, w1)"
    using c(1) True w1(1) by (subst update_loop.simps) simp
  moreover have "wheel_ok reg (w1\<lparr>current_time := a\<rparr>)" for a using wheel_ok_same [OF w1(2)] by simp
  ultimately show ?thesis using True w1(3) by (simp add: update_def)
next
  case False
  then have "outdated_tick_count w (clock m) = 0" for m using clock by (simp add: outdated_tick_count_def Let_def)
  then have "update_loop reg clock w n = Some (n, w)" by (subst update_loop.simps) simp
  moreover have "wheel_ok reg (w\<lparr>current_time := a\<rparr>)" for a using wheel_ok_same [OF ok(1)] by simp
  ultimately show ?thesis using False by (simp add: update_def)
qed

section \<open>Witnesses\<close>

definition demo_alloc :: "(nat \<Rightarrow> shm_timer option) \<Rightarrow> nat" where
  "demo_alloc m = Suc (Max (insert 0 (dom m)))"

definition demo_reg :: registry where
  "demo_reg = [7 \<mapsto> \<lparr>cb_size = 1, cb_fn = (\<lambda>p w. Some w)\<rparr>]"

definition demo_timer :: "nat \<Rightarrow> shm_timer" where
  "demo_timer p = \<lparr>self = p, prev = 0, nxt = 0, expires = 500, interval = 5, running = False, repeats = 3, timer_type = 7,
     cb_len = 1, cb_data = [9]\<rparr>"

lemma demo_fresh: "fresh_alloc demo_alloc"
  unfolding fresh_alloc_def demo_alloc_def
proof (intro allI impI conjI)
  fix m :: "nat \<Rightarrow> shm_timer option" assume f: "finite (dom m)"
  show "m (Suc (Max (insert 0 (dom m)))) = None"
  proof (rule ccontr)
    assume "m (Suc (Max (insert 0 (dom m)))) \<noteq> None"
    then have "Suc (Max (insert 0 (dom m))) \<in> insert 0 (dom m)" by auto
    then have "Suc (Max (insert 0 (dom m))) \<le> Max (insert 0 (dom m))" using f by (intro Max_ge) auto
    then show False by simp
  qed
qed simp

text \<open>Callbacks that do nothing leave every timer as it is.\<close>

definition inert :: "registry \<Rightarrow> bool" where
  "inert reg \<longleftrightarrow> (\<forall>ty c. reg ty = Some c \<longrightarrow> (\<forall>p w. cb_fn c p w = Some w))"

lemma inert_clients: "inert reg \<Longrightarrow> clients reg alloc"
  unfolding inert_def clients_def by (metis all_allowed.simps(1) perform.simps(1))

lemma upd_timer_changed: "upd_timer w p f = Some w' \<Longrightarrow> changed w' = changed w"
  by (auto simp: upd_timer_def split: bind_splits)

lemma remove_changed: "timer_list_remove w p = Some w' \<Longrightarrow> changed w' = changed w"
  by (auto simp: timer_list_remove_def Let_def dest!: upd_timer_changed split: bind_splits)

lemma append_changed: "timer_list_append w l p = Some w' \<Longrightarrow> changed w' = changed w"
  by (auto simp: timer_list_append_def Let_def dest!: upd_timer_changed split: bind_splits if_splits)

lemma destruct_changed: "destruct w p = Some w' \<Longrightarrow> changed w' = changed w"
  by (auto simp: destruct_def split: bind_splits if_splits)

lemmas op_changed = upd_timer_changed remove_changed append_changed destruct_changed

lemma reschedule_changed: "reschedule w p = Some w' \<Longrightarrow> changed w' = changed w"
  by (auto simp: reschedule_def dest!: op_changed split: bind_splits if_splits)

lemma on_timeout_changed: "inert reg \<Longrightarrow> on_timeout reg w p = Some w' \<Longrightarrow> changed w' = changed w"
  by (auto simp: on_timeout_def inert_def split: bind_splits if_splits)

lemma fire_changed: "inert reg \<Longrightarrow> fire reg w p = Some w' \<Longrightarrow> changed w' = changed w"
  by (auto simp: fire_def dest!: op_changed reschedule_changed dest: on_timeout_changed split: bind_splits if_splits)

lemma cascade_changed: "cascade w l = Some w' \<Longrightarrow> changed w' = changed w"
  by (erule cascade.raw_induct [where P = "\<lambda>w l w'. changed w' = changed w", rotated])
    (auto simp: Let_def dest!: op_changed split: bind_splits if_splits)

lemma expire_list_changed: "inert reg \<Longrightarrow> expire_list reg w l = Some w' \<Longrightarrow> changed w' = changed w"
proof (erule expire_list.raw_induct [where P = "\<lambda>reg w l w'. inert reg \<longrightarrow> changed w' = changed w", rotated, THEN mp])
  fix loop reg w l w'
  assume "\<And>reg w l w'. loop reg w l = Some w' \<Longrightarrow> inert reg \<longrightarrow> changed w' = changed w"
    and "do { empty \<leftarrow> timer_list_empty w l; if empty then Some w else do { head \<leftarrow> timers w l; w \<leftarrow> fire reg w (nxt head); loop reg w l } } = Some w'"
  then show "inert reg \<longrightarrow> changed w' = changed w" by (auto dest: fire_changed split: bind_splits if_splits)
qed

lemma next_tick_changed:
  assumes "inert reg" and "next_tick reg w = Some w'"
  shows "changed w' = changed w"
  using assms by (auto simp: next_tick_def run_timer_def cascade_at_def Let_def dest!: cascade_changed expire_list_changed split: bind_splits if_splits)

lemma run_ticks_changed: "inert reg \<Longrightarrow> run_ticks reg n w = Some w' \<Longrightarrow> changed w' = changed w"
  by (induction n arbitrary: w) (auto dest: next_tick_changed split: bind_splits)

lemma demo_inert: "inert demo_reg"
  by (simp add: inert_def demo_reg_def)

lemmas demo_clients = inert_clients [OF demo_inert, of demo_alloc]

lemma demo_started:
  "\<exists>w p. wheel_ok demo_reg w \<and> tick w = 0 \<and> agenda w = [p \<mapsto> demo_timer p]"
proof -
  obtain w where w: "wheel_ok demo_reg w" "tick w = 0" "agenda w = (\<lambda>_. None)" "finite (dom (timers w))"
    using new_ok [OF demo_fresh, of "(0, 0)" 0 demo_reg] by blast
  then have f: "demo_alloc (timers w) \<noteq> 0" "timers w (demo_alloc (timers w)) = None"
    using demo_fresh by (auto simp: fresh_alloc_def)
  show ?thesis
    using start_ok [where alloc = demo_alloc and p = "demo_alloc (timers w)" and repeat_count = 3 and
      timeout_ms = 10000 and repeat_ms = 100 and ty = 7 and data = "[9]", OF w(1) _ _ _ _ refl f] w(2,3)
    by (auto simp: demo_reg_def has_callback_def demo_timer_def ms2tick_def TIMER_PRECISION_MS_def)
qed

theorem timers_fire_on_time_witness:
  "\<exists>w w' log p. wheel_ok demo_reg w \<and> agenda w p = Some (demo_timer p) \<and> run_ticks demo_reg 508 w = Some w' \<and>
    fired w' = fired w @ log \<and> map fst (filter (\<lambda>(x, q). q = p) log) = [500, 505]"
proof -
  obtain w p where w: "wheel_ok demo_reg w" "tick w = 0" "agenda w = [p \<mapsto> demo_timer p]" using demo_started by blast
  have "due_ticks (demo_timer p) 0 508 = [500, 505]"
    unfolding due_ticks_def demo_timer_def by code_simp
  moreover obtain w' log ch where w': "run_ticks demo_reg 508 w = Some w'" "fired w' = fired w @ log" "changed w' = changed w @ ch"
      "\<forall>p. p \<notin> set ch \<longrightarrow> map fst (filter (\<lambda>(x, q). q = p) log) = (case agenda w p of None \<Rightarrow> [] | Some t \<Rightarrow> due_ticks t (tick w) 508)"
    using timers_fire_on_time [OF w(1) demo_clients demo_fresh, of 508] by blast
  moreover have "ch = []" using run_ticks_changed [OF demo_inert w'(1)] w'(3) by simp
  ultimately show ?thesis using w by fastforce
qed

theorem start_adds_timer_witness:
  "\<exists>w w' p. wheel_ok demo_reg w \<and> tick w = 0 \<and> start demo_reg demo_alloc w 10000 100 3 7 [9] = Some (p, w') \<and> agenda w' = [p \<mapsto> demo_timer p]"
proof -
  obtain w where w: "wheel_ok demo_reg w" "tick w = 0" "agenda w = (\<lambda>_. None)" "finite (dom (timers w))"
    using new_ok [OF demo_fresh, of "(0, 0)" 0 demo_reg] by blast
  then have f: "demo_alloc (timers w) \<noteq> 0" "timers w (demo_alloc (timers w)) = None"
    using demo_fresh by (auto simp: fresh_alloc_def)
  show ?thesis
    using start_adds_timer [where alloc = demo_alloc and p = "demo_alloc (timers w)" and repeat_count = 3 and
      timeout_ms = 10000 and repeat_ms = 100 and ty = 7 and data = "[9]", OF w(1) _ _ _ _ refl f] w
    by (auto simp: demo_reg_def has_callback_def demo_timer_def ms2tick_def TIMER_PRECISION_MS_def)
qed

theorem stop_removes_timer_witness:
  "\<exists>w w' p. wheel_ok demo_reg w \<and> agenda w p = Some (demo_timer p) \<and> stop w p = Some w' \<and> agenda w' = (\<lambda>_. None)"
proof -
  obtain w p where w: "wheel_ok demo_reg w" "agenda w = [p \<mapsto> demo_timer p]" using demo_started by blast
  then show ?thesis using stop_removes_timer [OF w(1), of p "demo_timer p"] by fastforce
qed

theorem shm_timer_mgr_new_ok_witness:
  "\<exists>w. fresh_alloc demo_alloc \<and> shm_timer_mgr_new demo_alloc (5, 0) 0 = Some w \<and> wheel_ok demo_reg w \<and> card (dom (timers w)) = 512"
  using shm_timer_mgr_new_ok [OF demo_fresh, of "(5, 0)" 0 demo_reg] demo_fresh by blast

theorem update_catches_up_witness:
  "\<exists>w n' w'. wheel_ok demo_reg w \<and> update demo_reg (\<lambda>_. (3, 0)) w 0 = Some (n', w') \<and> tick w' = 100"
proof -
  obtain w where w: "wheel_ok demo_reg w" "tick w = 0" "start_time w = (1, 0)"
    using new_ok [OF demo_fresh, of "(1, 0)" 0 demo_reg] by blast
  have "\<forall>m. time2tick (timeval_sub ((\<lambda>_. (3, 0)) m) (start_time w)) = 100"
    using w(3) by (simp add: time2tick_def timeval_sub_def ms2tick_def c_div_def TIMER_PRECISION_MS_def)
  from update_catches_up [OF w(1) demo_clients demo_fresh this, of 0] show ?thesis using w(1,2) by fastforce
qed

text \<open>
  C17: One tick. The wheel cascades the vectors that wrapped and then fires timers whose expiration is the current tick, each
  once: all of them but those that a callback of this tick stops before their turn. Every timer that no callback of the
  tick starts or stops is rescheduled or freed if it was due and is left alone otherwise, and the wheel stays
  correct. The callbacks are as in the previous property: they start timers that wait and repeat at
  least 20 ms and stop timers on the agenda, their own included; memory for a new timer is found.
\<close>

theorem tick_refines_agenda:
  assumes "wheel_ok reg w" and "clients reg alloc" and "fresh_alloc alloc"
  shows "\<exists>w' ps ch. next_tick reg w = Some w' \<and> wheel_ok reg w' \<and> tick w' = tick w + 1 \<and>
    fired w' = fired w @ map (Pair (tick w)) ps \<and> changed w' = changed w @ ch \<and> distinct ps \<and>
    (\<forall>p \<in> set ps. \<exists>t. agenda w p = Some t \<and> expires t = tick w) \<and>
    (\<forall>p t. agenda w p = Some t \<longrightarrow> expires t = tick w \<longrightarrow> ps \<noteq> [] \<and> (p \<in> set ps \<or> p \<in> set ch)) \<and>
    (\<forall>p. p \<notin> set ch \<longrightarrow> agenda w' p = tick_spec (tick w) (agenda w) p)"
  using next_tick_ok [OF assms] by blast

text \<open>A callback that stops its own timer, and a timer of its type that is due at tick 0.\<close>

definition quit_reg :: registry where
  "quit_reg = [8 \<mapsto> \<lparr>cb_size = 0, cb_fn = (\<lambda>p w. stop w p)\<rparr>]"

lemma quit_clients: "clients quit_reg demo_alloc"
proof -
  have "all_allowed quit_reg demo_alloc [Stop x] w \<and> stop w x = perform quit_reg demo_alloc [Stop x] w" if x: "in_callback quit_reg x w" for x w
  proof -
    obtain ps L where X: "lists_ok w L" "sched (busy quit_reg x) (lo_after (tick w)) w L" "L (vec w 0 (tv_idx 0 (tick w))) = x # ps"
      using x by (auto simp: in_callback_def expiring_def)
    have s: "slot 0 (tv_idx 0 (tick w))" using slot_tv_idx by simp
    have "agenda w x \<noteq> None" using sched_due [OF X(1,2), of x] X(3) by auto
    then show ?thesis by (simp split: option.splits)
  qed
  moreover have "cb_fn c x w = stop w x" if "quit_reg ty = Some c" for ty c x w using that by (auto simp: quit_reg_def split: if_splits)
  ultimately show ?thesis unfolding clients_def by metis
qed

theorem tick_refines_agenda_witness:
  "\<exists>w w' p. wheel_ok quit_reg w \<and> next_tick quit_reg w = Some w' \<and> fired w' = fired w @ [(0, p)] \<and> wheel_ok quit_reg w' \<and> tick w' = 1"
proof -
  obtain v where v: "wheel_ok quit_reg v" "tick v = 0" "agenda v = (\<lambda>_. None)" "finite (dom (timers v))"
    using new_ok [OF demo_fresh, of "(0, 0)" 0 quit_reg] by blast
  then have f: "demo_alloc (timers v) \<noteq> 0" "timers v (demo_alloc (timers v)) = None"
    using demo_fresh by (auto simp: fresh_alloc_def)
  obtain w p t where w: "wheel_ok quit_reg w" "tick w = 0" "agenda w = [p \<mapsto> t]" "expires t = 0"
    using start_ok [where alloc = demo_alloc and p = "demo_alloc (timers v)" and repeat_count = 3 and
      timeout_ms = 0 and repeat_ms = 100 and ty = 8 and data = "[]", OF v(1) _ _ _ _ refl f] v(2,3)
    by (auto simp: quit_reg_def has_callback_def TIMER_PRECISION_MS_def)
  obtain w' ps ch where w': "next_tick quit_reg w = Some w'" "wheel_ok quit_reg w'" "tick w' = 0 + 1" "fired w' = fired w @ map (Pair 0) ps"
      "distinct ps" "\<forall>q \<in> set ps. \<exists>u. agenda w q = Some u \<and> expires u = 0"
      "\<forall>q u. agenda w q = Some u \<longrightarrow> expires u = 0 \<longrightarrow> ps \<noteq> [] \<and> (q \<in> set ps \<or> q \<in> set ch)"
    using tick_refines_agenda [OF w(1) quit_clients demo_fresh] unfolding w(2) by blast
  have "ps \<noteq> []" using w'(7) w(3,4) by (metis map_upd_Some_unfold)
  have "\<forall>q \<in> set ps. q = p" using w'(6) w(3) by (auto split: if_splits)
  then have "ps = [p]" using w'(5) \<open>ps \<noteq> []\<close> by (cases ps; cases "tl ps") auto
  then show ?thesis using w(1) w' by auto
qed

end
