(* ===== verification/Coroutine.thy ===== *)
theory Coroutine
  imports Prelude
begin

text \<open>
  \<^verbatim>\<open>src/src/coroutine/coroutine.cpp\<close> and \<^verbatim>\<open>detail/coroutine_mgr.cpp\<close>: coroutines and their scheduler. The switch of machine
  contexts is modelled by its effect on control: \<^verbatim>\<open>resume(c)\<close> gives control to \<open>c\<close>, \<^verbatim>\<open>yield(c)\<close> gives it back to \<^verbatim>\<open>schedule\<close> behind the
  pending \<^verbatim>\<open>resume\<close> (\<open>switched_back\<close>). Coroutines and timers are named by their pointers. The steps of the system are one relation,
  with the bodies of the coroutines and the event loop as its environment.
\<close>

unbundle bit_operations_syntax

section \<open>Coroutines and their stacks\<close>

datatype coroutine_state = Running | Runnable | Sleeping | IoWaiting | CondWaiting | Done

record coroutine =
  co_flag :: nat
  co_state :: coroutine_state
  co_ctx :: bool
  co_stack :: "nat option"
  co_stack_size :: nat

definition FLAG_PRESERVE_FPU :: nat where "FLAG_PRESERVE_FPU = 1"
definition FLAG_PROTECT_STACK :: nat where "FLAG_PROTECT_STACK = 2"

definition coroutine_new :: "nat \<Rightarrow> bool \<Rightarrow> bool \<Rightarrow> coroutine" where
  "coroutine_new stack_size preserve_fpu protect_stack =
     (let c = \<lparr>co_flag = 0, co_state = Runnable, co_ctx = False, co_stack = None, co_stack_size = stack_size\<rparr>;
          c = (if preserve_fpu then c\<lparr>co_flag := or (co_flag c) FLAG_PRESERVE_FPU\<rparr> else c)
      in if protect_stack then c\<lparr>co_flag := or (co_flag c) FLAG_PROTECT_STACK\<rparr> else c)"

text \<open>The answers of the operating system, and the calls a coroutine makes to get and give back its stack.\<close>

record stack_os =
  os_page :: nat
  os_mmap :: "nat \<Rightarrow> nat option"
  os_mprotect :: "nat \<Rightarrow> bool"
  os_malloc :: "nat \<Rightarrow> nat option"
  os_context :: bool

datatype stack_call = Mmap nat nat | Mprotect nat nat | Munmap nat nat | Malloc nat nat | Free nat

definition co_protected :: "coroutine \<Rightarrow> bool" where
  "co_protected c \<longleftrightarrow> and (co_flag c) FLAG_PROTECT_STACK \<noteq> 0"

definition round_stack :: "nat \<Rightarrow> nat \<Rightarrow> nat" where
  "round_stack page sz = (if and sz (page - 1) > 0 then (sz - and sz (page - 1) + page) mod 2 ^ 64 else sz)"

definition co_init :: "stack_os \<Rightarrow> coroutine \<Rightarrow> (bool \<times> coroutine \<times> stack_call list) option" where
  "co_init k c = (if co_protected c then do {
       let page = os_page k;
       let c = c\<lparr>co_stack_size := round_stack page (co_stack_size c)\<rparr>;
       sk_assert (and (co_stack_size c) (page - 1) = 0);
       let mmap_size = (co_stack_size c + page * 2) mod 2 ^ 64;
       case os_mmap k mmap_size of
         None \<Rightarrow> Some (False, c\<lparr>co_stack := None\<rparr>, [])
       | Some p \<Rightarrow> do {
           let c = c\<lparr>co_stack := Some p\<rparr>;
           sk_assert (and p (page - 1) = 0);
           sk_assert (and (p + mmap_size) (page - 1) = 0);
           let calls = [Mmap p mmap_size, Mprotect p page];
           if \<not> os_mprotect k p then Some (False, c, calls @ [Munmap p mmap_size])
           else do {
             let calls = calls @ [Mprotect (p + page + co_stack_size c) page];
             if \<not> os_mprotect k (p + page + co_stack_size c) then Some (False, c, calls @ [Munmap p mmap_size])
             else Some (os_context k, c\<lparr>co_ctx := os_context k\<rparr>, calls)
           }
         }
     }
     else (case os_malloc k (co_stack_size c) of
         None \<Rightarrow> Some (False, c, [])
       | Some p \<Rightarrow> Some (os_context k, c\<lparr>co_stack := Some p, co_ctx := os_context k\<rparr>, [Malloc p (co_stack_size c)])))"

text \<open>The destructor.\<close>

definition co_delete :: "stack_os \<Rightarrow> coroutine \<Rightarrow> stack_call list" where
  "co_delete k c = (case co_stack c of
       None \<Rightarrow> []
     | Some p \<Rightarrow> if co_protected c then [Munmap p ((co_stack_size c + os_page k * 2) mod 2 ^ 64)] else [Free p])"

section \<open>The manager\<close>

text \<open>
  \<open>in_uv\<close> says which of the two calls of \<^verbatim>\<open>resume\<close> in \<^verbatim>\<open>schedule\<close> is pending; \<open>finished\<close> that \<^verbatim>\<open>schedule\<close> has returned. \<open>calls\<close> records the calls for stacks.
\<close>

record co_mgr =
  cos :: "nat \<Rightarrow> coroutine option"
  uv :: "nat option"
  current :: "nat option"
  runnable :: "nat list"
  sleeping :: "nat \<Rightarrow> nat option"
  in_uv :: bool
  finished :: bool
  calls :: "stack_call list"

definition set_state :: "co_mgr \<Rightarrow> nat \<Rightarrow> coroutine_state \<Rightarrow> co_mgr option" where
  "set_state m p s = do { c \<leftarrow> cos m p; Some (m\<lparr>cos := (cos m)(p := Some (c\<lparr>co_state := s\<rparr>))\<rparr>) }"

definition delete_coroutine :: "stack_os \<Rightarrow> co_mgr \<Rightarrow> nat \<Rightarrow> co_mgr option" where
  "delete_coroutine k m p = do { c \<leftarrow> cos m p; Some (m\<lparr>cos := (cos m)(p := None), calls := calls m @ co_delete k c\<rparr>) }"

text \<open>\<open>p\<close> is the pointer that \<^verbatim>\<open>new\<close> returns.\<close>

definition create :: "stack_os \<Rightarrow> co_mgr \<Rightarrow> nat \<Rightarrow> nat \<Rightarrow> bool \<Rightarrow> bool \<Rightarrow> (nat option \<times> co_mgr) option" where
  "create k m p stack_size preserve_fpu protect_stack = do {
     let c = coroutine_new stack_size preserve_fpu protect_stack;
     (ok, c, cs) \<leftarrow> co_init k c;
     let m = m\<lparr>cos := (cos m)(p := Some c), calls := calls m @ cs\<rparr>;
     if \<not> ok then do { m \<leftarrow> delete_coroutine k m p; Some (None, m) }
     else Some (Some p, m\<lparr>runnable := runnable m @ [p]\<rparr>)
   }"

definition coroutine_mgr_new :: "stack_os \<Rightarrow> nat \<Rightarrow> co_mgr option" where
  "coroutine_mgr_new k p = do {
     (u, m) \<leftarrow> create k \<lparr>cos = (\<lambda>_. None), uv = None, current = None, runnable = [], sleeping = (\<lambda>_. None), in_uv = False,
       finished = False, calls = []\<rparr> p (16 * 1024) False True;
     let m = m\<lparr>uv := u\<rparr>;
     sk_assert (length (runnable m) = 1);
     Some (m\<lparr>runnable := tl (runnable m)\<rparr>)
   }"

text \<open>The loop body of \<^verbatim>\<open>schedule\<close> up to \<^verbatim>\<open>resume\<close>, and behind it.\<close>

definition schedule_pick :: "co_mgr \<Rightarrow> co_mgr option" where
  "schedule_pick m = (case runnable m of
       [] \<Rightarrow> do { u \<leftarrow> uv m; m \<leftarrow> set_state m u Running; Some (m\<lparr>current := Some u, in_uv := True\<rparr>) }
     | c # cs \<Rightarrow> do { m \<leftarrow> set_state (m\<lparr>runnable := cs\<rparr>) c Running; Some (m\<lparr>current := Some c, in_uv := False\<rparr>) })"

definition switched_back :: "stack_os \<Rightarrow> co_mgr \<Rightarrow> co_mgr option" where
  "switched_back k m = do {
     c \<leftarrow> current m;
     let m = m\<lparr>current := None\<rparr>;
     if in_uv m then do {
       u \<leftarrow> uv m;
       x \<leftarrow> cos m u;
       if co_state x = Done then do { m \<leftarrow> delete_coroutine k m u; Some (m\<lparr>uv := None, finished := True\<rparr>) } else Some m
     }
     else do { x \<leftarrow> cos m c; if co_state x = Done then delete_coroutine k m c else Some m }
   }"

definition mgr_sleep :: "stack_os \<Rightarrow> co_mgr \<Rightarrow> nat \<Rightarrow> co_mgr option" where
  "mgr_sleep k m t = do {
     c \<leftarrow> current m;
     x \<leftarrow> cos m c;
     sk_assert (co_state x = Running);
     m \<leftarrow> set_state m c Sleeping;
     let m = m\<lparr>sleeping := (case sleeping m t of None \<Rightarrow> (sleeping m)(t := Some c) | Some _ \<Rightarrow> sleeping m)\<rparr>;
     switched_back k m
   }"

text \<open>The callback of the timer that \<^verbatim>\<open>sleep\<close> starts.\<close>

definition on_wakeup :: "stack_os \<Rightarrow> co_mgr \<Rightarrow> nat \<Rightarrow> co_mgr option" where
  "on_wakeup k m t = do {
     c \<leftarrow> sleeping m t;
     let m = m\<lparr>sleeping := (sleeping m)(t := None)\<rparr>;
     m \<leftarrow> set_state m c Runnable;
     let m = m\<lparr>runnable := runnable m @ [c]\<rparr>;
     sk_assert (current m = uv m);
     switched_back k m
   }"

definition mgr_yield :: "stack_os \<Rightarrow> co_mgr \<Rightarrow> co_mgr option" where
  "mgr_yield k m = do {
     c \<leftarrow> current m;
     if current m = uv m then switched_back k m
     else do {
       x \<leftarrow> cos m c;
       m \<leftarrow> (case co_state x of
           Running \<Rightarrow> do { m \<leftarrow> set_state m c Runnable; Some (m\<lparr>runnable := runnable m @ [c]\<rparr>) }
         | Runnable \<Rightarrow> Some (m\<lparr>runnable := runnable m @ [c]\<rparr>)
         | _ \<Rightarrow> Some m);
       switched_back k m
     }
   }"

text \<open>The end of \<^verbatim>\<open>context_main\<close>, when the function of the coroutine has returned.\<close>

definition context_end :: "stack_os \<Rightarrow> co_mgr \<Rightarrow> co_mgr option" where
  "context_end k m = do { c \<leftarrow> current m; m \<leftarrow> set_state m c Done; switched_back k m }"

definition coroutine_sleep :: "stack_os \<Rightarrow> co_mgr \<Rightarrow> nat \<Rightarrow> co_mgr option" where
  "coroutine_sleep k m t = (if current m = None then Some m else mgr_sleep k m t)"

definition coroutine_yield :: "stack_os \<Rightarrow> co_mgr \<Rightarrow> co_mgr option" where
  "coroutine_yield k m = (if current m = None then Some m else mgr_yield k m)"

section \<open>Steps\<close>

datatype co_event = Sched | Create nat | Sleep nat | Yield | Return | Wakeup nat

text \<open>
  The rules state what the environment does: pointers are fresh, coroutines sleep and the event loop does not, and the
  event loop returns only when no timer is active, as \<^verbatim>\<open>uv_run\<close> documents.
\<close>

inductive co_step :: "stack_os \<Rightarrow> co_mgr \<Rightarrow> co_event \<Rightarrow> co_mgr \<Rightarrow> bool" for k where
  sched: "current m = None \<Longrightarrow> \<not> finished m \<Longrightarrow> schedule_pick m = Some m' \<Longrightarrow> co_step k m Sched m'"
| create: "cos m p = None \<Longrightarrow> create k m p sz f pr = Some (r, m') \<Longrightarrow> co_step k m (Create p) m'"
| sleep: "current m = Some c \<Longrightarrow> uv m \<noteq> Some c \<Longrightarrow> sleeping m t = None \<Longrightarrow> coroutine_sleep k m t = Some m' \<Longrightarrow> co_step k m (Sleep t) m'"
| yield: "current m = Some c \<Longrightarrow> coroutine_yield k m = Some m' \<Longrightarrow> co_step k m Yield m'"
| return: "current m = Some c \<Longrightarrow> (uv m = Some c \<longrightarrow> sleeping m = (\<lambda>_. None)) \<Longrightarrow> context_end k m = Some m' \<Longrightarrow> co_step k m Return m'"
| wakeup: "current m = uv m \<Longrightarrow> current m \<noteq> None \<Longrightarrow> sleeping m t \<noteq> None \<Longrightarrow> on_wakeup k m t = Some m' \<Longrightarrow> co_step k m (Wakeup t) m'"

inductive co_run :: "stack_os \<Rightarrow> co_mgr \<Rightarrow> co_event list \<Rightarrow> co_mgr \<Rightarrow> bool" for k where
  start: "co_run k m [] m"
| step: "co_run k m es m' \<Longrightarrow> co_step k m' e m'' \<Longrightarrow> co_run k m (es @ [e]) m''"

inductive_cases co_stepE: "co_step k m e m'"

section \<open>Invariant\<close>

text \<open>Every coroutine but the event loop is in exactly one place, the one its state names.\<close>

definition place_ok :: "co_mgr \<Rightarrow> nat \<Rightarrow> bool" where
  "place_ok m c \<longleftrightarrow> (case cos m c of
       None \<Rightarrow> c \<notin> set (runnable m) \<and> c \<notin> ran (sleeping m) \<and> uv m \<noteq> Some c \<and> current m \<noteq> Some c
     | Some x \<Rightarrow> if uv m = Some c then c \<notin> set (runnable m) \<and> c \<notin> ran (sleeping m) \<and> co_state x \<noteq> Done \<and> (current m = Some c \<longrightarrow> co_state x = Running)
       else co_state x \<in> {Running, Runnable, Sleeping} \<and> (current m = Some c \<longleftrightarrow> co_state x = Running) \<and>
         (c \<in> set (runnable m) \<longleftrightarrow> co_state x = Runnable) \<and> (c \<in> ran (sleeping m) \<longleftrightarrow> co_state x = Sleeping))"

definition timers_ok :: "co_mgr \<Rightarrow> bool" where
  "timers_ok m \<longleftrightarrow> (\<forall>t t' c. sleeping m t = Some c \<longrightarrow> sleeping m t' = Some c \<longrightarrow> t' = t)"

definition control_ok :: "co_mgr \<Rightarrow> bool" where
  "control_ok m \<longleftrightarrow> (finished m \<longleftrightarrow> uv m = None) \<and> (finished m \<longrightarrow> current m = None \<and> sleeping m = (\<lambda>_. None)) \<and>
     (current m \<noteq> None \<longrightarrow> in_uv m = (current m = uv m))"

definition co_ok :: "co_mgr \<Rightarrow> bool" where
  "co_ok m \<longleftrightarrow> distinct (runnable m) \<and> timers_ok m \<and> control_ok m \<and> (\<forall>c. place_ok m c)"

lemmas co_defs = place_ok_def timers_ok_def control_ok_def

lemma set_state_eq: "cos m p = Some c \<Longrightarrow> set_state m p s = Some (m\<lparr>cos := (cos m)(p \<mapsto> c\<lparr>co_state := s\<rparr>)\<rparr>)"
  by (simp add: set_state_def)

lemma co_okD: "co_ok m \<Longrightarrow> place_ok m c" "co_ok m \<Longrightarrow> timers_ok m" "co_ok m \<Longrightarrow> control_ok m" "co_ok m \<Longrightarrow> distinct (runnable m)"
  by (simp_all add: co_ok_def)

text \<open>A step changes the place of one coroutine.\<close>

lemma co_okI:
  assumes "co_ok m" and "distinct (runnable m')" and "timers_ok m'" and "control_ok m'" and "place_ok m' c"
    and "\<And>d. d \<noteq> c \<Longrightarrow> place_ok m d \<Longrightarrow> place_ok m' d"
  shows "co_ok m'"
  using assms unfolding co_ok_def by metis

lemma current_running: "co_ok m \<Longrightarrow> current m = Some c \<Longrightarrow> \<exists>x. cos m c = Some x \<and> co_state x = Running"
  using co_okD(1) [of m c] by (auto simp: place_ok_def split: option.splits if_splits)

lemma pick_ok:
  assumes ok: "co_ok m" and n: "current m = None" "\<not> finished m"
  shows "\<exists>m'. schedule_pick m = Some m' \<and> co_ok m' \<and> runnable m' = tl (runnable m) \<and>
    current m' = (if runnable m = [] then uv m else Some (hd (runnable m)))"
proof (cases "runnable m")
  case Nil
  obtain u where u: "uv m = Some u" using co_okD(3) [OF ok] n(2) by (auto simp: control_ok_def)
  obtain x where x: "cos m u = Some x" using co_okD(1) [OF ok, of u] u by (auto simp: place_ok_def split: option.splits)
  let ?m = "m\<lparr>cos := (cos m)(u \<mapsto> x\<lparr>co_state := Running\<rparr>), current := Some u, in_uv := True\<rparr>"
  have "co_ok ?m"
  proof (rule co_okI [OF ok])
    show "place_ok ?m u" using co_okD(1) [OF ok, of u] u x by (simp add: place_ok_def)
    show "place_ok ?m d" if "d \<noteq> u" "place_ok m d" for d
      using that u n by (auto simp: place_ok_def split: option.splits)
    show "control_ok ?m" using co_okD(3) [OF ok] u by (simp add: control_ok_def)
  qed (use co_okD(2,4) [OF ok] in \<open>simp_all add: timers_ok_def\<close>)
  then show ?thesis using Nil u x by (simp add: schedule_pick_def set_state_eq)
next
  case (Cons c cs)
  have pc: "place_ok m c" using co_okD(1) [OF ok] .
  then obtain x where x: "cos m c = Some x" "co_state x = Runnable" "uv m \<noteq> Some c"
    using Cons by (auto simp: place_ok_def split: option.splits if_splits)
  have c: "c \<notin> set cs" "distinct cs" using co_okD(4) [OF ok] Cons by simp_all
  let ?m = "m\<lparr>runnable := cs, cos := (cos m)(c \<mapsto> x\<lparr>co_state := Running\<rparr>), current := Some c, in_uv := False\<rparr>"
  have "co_ok ?m"
  proof (rule co_okI [OF ok])
    show "place_ok ?m c" using pc x c by (simp add: place_ok_def)
    show "place_ok ?m d" if "d \<noteq> c" "place_ok m d" for d
      using that n Cons by (auto simp: place_ok_def split: option.splits)
    show "control_ok ?m" using co_okD(3) [OF ok] x n by (auto simp: control_ok_def)
  qed (use co_okD(2) [OF ok] c in \<open>simp_all add: timers_ok_def\<close>)
  then show ?thesis using Cons x by (simp add: schedule_pick_def set_state_def)
qed

lemma back_eq:
  assumes "control_ok m" and "current m = Some c" and "cos m c = Some x" and "co_state x \<noteq> Done"
    and "uv m = Some u \<Longrightarrow> \<exists>y. cos m u = Some y \<and> co_state y \<noteq> Done"
  shows "switched_back k m = Some (m\<lparr>current := None\<rparr>)"
  using assms by (auto simp: switched_back_def control_ok_def)

lemma uv_alive: "place_ok m u \<Longrightarrow> uv m = Some u \<Longrightarrow> \<exists>y. cos m u = Some y \<and> co_state y \<noteq> Done"
  by (auto simp: place_ok_def split: option.splits)

lemma ran_upd_new: "m t = None \<Longrightarrow> ran (m(t \<mapsto> c)) = insert c (ran m)"
  by simp

lemma ran_upd_del: "\<forall>t t' c. m t = Some c \<longrightarrow> m t' = Some c \<longrightarrow> t' = t \<Longrightarrow> m t = Some c \<Longrightarrow> ran (m(t := None)) = ran m - {c}"
  by (auto simp: ran_def; metis option.inject)

lemma sleep_ok:
  assumes ok: "co_ok m" and c: "current m = Some c" "uv m \<noteq> Some c" and t: "sleeping m t = None"
  shows "\<exists>m'. coroutine_sleep k m t = Some m' \<and> co_ok m' \<and> runnable m' = runnable m \<and> current m' = None \<and> finished m' = finished m"
proof -
  obtain x where x: "cos m c = Some x" "co_state x = Running" using current_running [OF ok c(1)] by blast
  have pc: "place_ok m c" using co_okD(1) [OF ok] .
  then have nr: "c \<notin> ran (sleeping m)" "c \<notin> set (runnable m)" using x c by (auto simp: place_ok_def)
  let ?n = "m\<lparr>cos := (cos m)(c \<mapsto> x\<lparr>co_state := Sleeping\<rparr>), sleeping := (sleeping m)(t \<mapsto> c)\<rparr>"
  have ctl: "control_ok ?n" using co_okD(3) [OF ok] c by (auto simp: control_ok_def)
  have b: "switched_back k ?n = Some (?n\<lparr>current := None\<rparr>)"
    by (rule back_eq [OF ctl, of c "x\<lparr>co_state := Sleeping\<rparr>"]) (use c co_okD(1) [OF ok] uv_alive [of m] in auto)
  have "co_ok (?n\<lparr>current := None\<rparr>)"
  proof (rule co_okI [OF ok, of _ c])
    show "place_ok (?n\<lparr>current := None\<rparr>) c" using nr c t by (simp add: place_ok_def ran_upd_new)
    show "place_ok (?n\<lparr>current := None\<rparr>) d" if "d \<noteq> c" "place_ok m d" for d
      using that c t by (auto simp: place_ok_def ran_upd_new split: option.splits)
    show "control_ok (?n\<lparr>current := None\<rparr>)" using ctl c by (auto simp: control_ok_def)
    show "timers_ok (?n\<lparr>current := None\<rparr>)" using co_okD(2) [OF ok] nr(1) by (auto simp: timers_ok_def ran_def)
  qed (use co_okD(4) [OF ok] in simp)
  then show ?thesis using c x t b by (simp add: coroutine_sleep_def mgr_sleep_def set_state_eq)
qed

lemma yield_ok:
  assumes ok: "co_ok m" and c: "current m = Some c"
  shows "\<exists>m'. coroutine_yield k m = Some m' \<and> co_ok m' \<and> runnable m' = (if uv m = Some c then runnable m else runnable m @ [c]) \<and>
    current m' = None \<and> finished m' = finished m"
proof (cases "uv m = Some c")
  case True
  obtain x where x: "cos m c = Some x" "co_state x = Running" using current_running [OF ok c] by blast
  have b: "switched_back k m = Some (m\<lparr>current := None\<rparr>)"
    by (rule back_eq [OF co_okD(3) [OF ok] c x(1)]) (use x True in auto)
  have "co_ok (m\<lparr>current := None\<rparr>)"
  proof (rule co_okI [OF ok, of _ c])
    show "place_ok (m\<lparr>current := None\<rparr>) c" using co_okD(1) [OF ok, of c] True x by (simp add: place_ok_def)
    show "place_ok (m\<lparr>current := None\<rparr>) d" if "d \<noteq> c" "place_ok m d" for d using that c by (auto simp: place_ok_def split: option.splits)
    show "control_ok (m\<lparr>current := None\<rparr>)" using co_okD(3) [OF ok] by (simp add: control_ok_def)
  qed (use co_okD(2,4) [OF ok] in \<open>simp_all add: timers_ok_def\<close>)
  then show ?thesis using True c b by (simp add: coroutine_yield_def mgr_yield_def)
next
  case False
  obtain x where x: "cos m c = Some x" "co_state x = Running" using current_running [OF ok c] by blast
  have pc: "place_ok m c" using co_okD(1) [OF ok] .
  then have nr: "c \<notin> ran (sleeping m)" "c \<notin> set (runnable m)" using x c False by (auto simp: place_ok_def)
  let ?n = "m\<lparr>cos := (cos m)(c \<mapsto> x\<lparr>co_state := Runnable\<rparr>), runnable := runnable m @ [c]\<rparr>"
  have ctl: "control_ok ?n" using co_okD(3) [OF ok] by (simp add: control_ok_def)
  have b: "switched_back k ?n = Some (?n\<lparr>current := None\<rparr>)"
    by (rule back_eq [OF ctl, of c "x\<lparr>co_state := Runnable\<rparr>"]) (use c co_okD(1) [OF ok] uv_alive [of m] in auto)
  have "co_ok (?n\<lparr>current := None\<rparr>)"
  proof (rule co_okI [OF ok, of _ c])
    show "place_ok (?n\<lparr>current := None\<rparr>) c" using nr c False by (simp add: place_ok_def)
    show "place_ok (?n\<lparr>current := None\<rparr>) d" if "d \<noteq> c" "place_ok m d" for d
      using that c by (auto simp: place_ok_def split: option.splits)
    show "control_ok (?n\<lparr>current := None\<rparr>)" using ctl by (simp add: control_ok_def)
    show "timers_ok (?n\<lparr>current := None\<rparr>)" using co_okD(2) [OF ok] by (simp add: timers_ok_def)
  qed (use co_okD(4) [OF ok] nr in simp)
  then show ?thesis using c x False b by (simp add: coroutine_yield_def mgr_yield_def set_state_eq)
qed

lemma return_ok:
  assumes ok: "co_ok m" and c: "current m = Some c" and s: "uv m = Some c \<longrightarrow> sleeping m = (\<lambda>_. None)"
  shows "\<exists>m'. context_end k m = Some m' \<and> co_ok m' \<and> runnable m' = runnable m \<and> current m' = None \<and> finished m' = (uv m = Some c) \<and> cos m' c = None"
proof -
  obtain x where x: "cos m c = Some x" "co_state x = Running" using current_running [OF ok c] by blast
  have ctl: "control_ok m" using co_okD(3) [OF ok] .
  let ?n = "m\<lparr>cos := (cos m)(c := None), current := None, calls := calls m @ co_delete k (x\<lparr>co_state := Done\<rparr>)\<rparr>"
  define m' where "m' = (if uv m = Some c then ?n\<lparr>uv := None, finished := True\<rparr> else ?n)"
  have e: "context_end k m = Some m'"
    using c x ctl by (auto simp: context_end_def set_state_eq switched_back_def delete_coroutine_def control_ok_def m'_def)
  have "co_ok m'"
  proof (rule co_okI [OF ok, of _ c])
    show "place_ok m' c" using co_okD(1) [OF ok, of c] c x by (auto simp: place_ok_def m'_def split: if_splits)
    show "place_ok m' d" if "d \<noteq> c" "place_ok m d" for d
      using that c by (auto simp: place_ok_def m'_def split: option.splits if_splits)
    show "control_ok m'" using ctl c s by (auto simp: control_ok_def m'_def)
    show "timers_ok m'" using co_okD(2) [OF ok] by (auto simp: timers_ok_def m'_def)
  qed (use co_okD(4) [OF ok] in \<open>simp add: m'_def\<close>)
  then show ?thesis using e ctl c by (auto simp: m'_def control_ok_def)
qed

lemma wakeup_ok:
  assumes ok: "co_ok m" and u: "current m = uv m" "current m \<noteq> None" and t: "sleeping m t = Some c"
  shows "\<exists>m'. on_wakeup k m t = Some m' \<and> co_ok m' \<and> runnable m' = runnable m @ [c] \<and> current m' = None \<and> finished m' = finished m"
proof -
  have pc: "place_ok m c" and tm: "timers_ok m" using co_okD [OF ok] by blast+
  have rc: "c \<in> ran (sleeping m)" using t by (auto simp: ran_def)
  then obtain x where x: "cos m c = Some x" "co_state x = Sleeping" "uv m \<noteq> Some c" "current m \<noteq> Some c" "c \<notin> set (runnable m)"
    using pc by (auto simp: place_ok_def split: option.splits if_splits)
  have rn: "ran ((sleeping m)(t := None)) = ran (sleeping m) - {c}" by (rule ran_upd_del) (use tm t in \<open>auto simp: timers_ok_def\<close>)
  obtain v where v: "current m = Some v" "uv m = Some v" using u by auto
  obtain y where y: "cos m v = Some y" "co_state y = Running" using current_running [OF ok v(1)] by blast
  let ?n = "m\<lparr>sleeping := (sleeping m)(t := None), cos := (cos m)(c \<mapsto> x\<lparr>co_state := Runnable\<rparr>), runnable := runnable m @ [c]\<rparr>"
  have ctl: "control_ok ?n" using co_okD(3) [OF ok] by (auto simp: control_ok_def)
  have b: "switched_back k ?n = Some (?n\<lparr>current := None\<rparr>)"
    by (rule back_eq [OF ctl, of v y]) (use v y x in auto)
  have "co_ok (?n\<lparr>current := None\<rparr>)"
  proof (rule co_okI [OF ok, of _ c])
    show "place_ok (?n\<lparr>current := None\<rparr>) c" using x rn by (simp add: place_ok_def)
    show "place_ok (?n\<lparr>current := None\<rparr>) d" if "d \<noteq> c" "place_ok m d" for d
      using that v rn by (auto simp: place_ok_def split: option.splits if_splits)
    show "control_ok (?n\<lparr>current := None\<rparr>)" using ctl by (simp add: control_ok_def)
    show "timers_ok (?n\<lparr>current := None\<rparr>)" using tm by (simp add: timers_ok_def)
  qed (use co_okD(4) [OF ok] x in simp)
  then show ?thesis using t x u b by (simp add: on_wakeup_def set_state_def)
qed

lemma create_ok:
  assumes ok: "co_ok m" and p: "cos m p = None" and c: "create k m p sz f pr = Some (r, m')"
  shows "co_ok m' \<and> runnable m' = (if r = None then runnable m else runnable m @ [p]) \<and> current m' = current m \<and> finished m' = finished m"
proof -
  obtain b x cs where i: "co_init k (coroutine_new sz f pr) = Some (b, x, cs)"
    using c by (auto simp: create_def bind_eq_Some_conv)
  have st: "co_state x = Runnable"
    using i by (auto simp: co_init_def coroutine_new_def Let_def split: if_splits option.splits)
  have pp: "place_ok m p" using co_okD(1) [OF ok] .
  show ?thesis
  proof (cases b)
    case False
    then have "r = None" "m' = m\<lparr>calls := calls m @ cs @ co_delete k x\<rparr>"
      using c i p by (auto simp: create_def delete_coroutine_def fun_upd_idem)
    moreover have "place_ok (m\<lparr>calls := a\<rparr>) d = place_ok m d" for a d by (simp add: place_ok_def split: option.split)
    ultimately show ?thesis using ok by (simp add: co_ok_def timers_ok_def control_ok_def)
  next
    case True
    then have m': "r = Some p" "m' = m\<lparr>cos := (cos m)(p \<mapsto> x), calls := calls m @ cs, runnable := runnable m @ [p]\<rparr>"
      using c i by (auto simp: create_def)
    have np: "p \<notin> set (runnable m)" "p \<notin> ran (sleeping m)" "uv m \<noteq> Some p" "current m \<noteq> Some p" using pp p by (simp_all add: place_ok_def)
    have "co_ok m'"
    proof (rule co_okI [OF ok, of _ p])
      show "place_ok m' p" using np st m' by (simp add: place_ok_def)
      show "place_ok m' d" if "d \<noteq> p" "place_ok m d" for d using that m' by (auto simp: place_ok_def split: option.splits if_splits)
      show "control_ok m'" using co_okD(3) [OF ok] m' by (simp add: control_ok_def)
      show "timers_ok m'" using co_okD(2) [OF ok] m' by (simp add: timers_ok_def)
    qed (use co_okD(4) [OF ok] np m' in simp)
    then show ?thesis using m' by simp
  qed
qed


lemma mgr_new_ok:
  assumes "coroutine_mgr_new k p = Some m"
  shows "co_ok m \<and> runnable m = [] \<and> current m = None \<and> \<not> finished m"
proof -
  let ?e = "\<lparr>cos = (\<lambda>_. None), uv = None, current = None, runnable = [], sleeping = (\<lambda>_. None), in_uv = False, finished = False, calls = []\<rparr>"
  obtain u n where c: "create k ?e p (16 * 1024) False True = Some (u, n)" and l: "length (runnable n) = 1"
      and m: "m = n\<lparr>uv := u, runnable := tl (runnable n)\<rparr>"
    using assms by (auto simp: coroutine_mgr_new_def bind_eq_Some_conv sk_assert_def split: if_splits)
  then obtain x cs where i: "co_init k (coroutine_new (16 * 1024) False True) = Some (True, x, cs)"
      and n: "u = Some p" "n = ?e\<lparr>cos := (\<lambda>_. None)(p \<mapsto> x), calls := cs, runnable := [p]\<rparr>"
    by (auto simp: create_def bind_eq_Some_conv delete_coroutine_def Let_def split: if_splits)
  have "co_state x = Runnable"
    using i by (auto simp: co_init_def coroutine_new_def Let_def split: if_splits option.splits)
  then show ?thesis using m n by (auto simp: co_ok_def co_defs)
qed

text \<open>Every step keeps the invariant, and only the scheduler takes from the queue, at its front.\<close>

lemma step_ok:
  assumes "co_step k m e m'" and ok: "co_ok m"
  shows "co_ok m' \<and> (\<exists>zs. runnable m' = (if e = Sched then tl (runnable m) else runnable m) @ zs)"
  using assms(1)
proof cases
  case sched
  then show ?thesis using pick_ok [OF ok] by auto
next
  case (create p sz f pr r)
  then show ?thesis using create_ok [OF ok create(2,3)] by auto
next
  case (sleep c t)
  then show ?thesis using sleep_ok [OF ok sleep(2-4), of k] by auto
next
  case (yield c)
  then show ?thesis using yield_ok [OF ok yield(2), of k] by auto
next
  case (return c)
  then show ?thesis using return_ok [OF ok return(2,3), of k] by auto
next
  case (wakeup t)
  then obtain c where "sleeping m t = Some c" by blast
  then show ?thesis using wakeup wakeup_ok [OF ok, of t c k] by auto
qed

definition scheds :: "co_event list \<Rightarrow> nat" where
  "scheds es = length (filter (\<lambda>e. e = Sched) es)"

lemma run_ok:
  assumes "co_run k m es m'" and "co_ok m"
  shows "co_ok m' \<and> (scheds es \<le> length (runnable m) \<longrightarrow> (\<exists>zs. runnable m' = drop (scheds es) (runnable m) @ zs))"
  using assms
proof (induction rule: co_run.induct)
  case (start m)
  then show ?case by (simp add: scheds_def)
next
  case (step m es m' e m'')
  then have ih: "co_ok m'" "scheds es \<le> length (runnable m) \<Longrightarrow> \<exists>zs. runnable m' = drop (scheds es) (runnable m) @ zs" by auto
  obtain zs where s: "co_ok m''" "runnable m'' = (if e = Sched then tl (runnable m') else runnable m') @ zs"
    using step_ok [OF step.hyps(2) ih(1)] by blast
  have "\<exists>ys. runnable m'' = drop (scheds (es @ [e])) (runnable m) @ ys" if l: "scheds (es @ [e]) \<le> length (runnable m)"
  proof -
    have l': "scheds es \<le> length (runnable m)" "e = Sched \<Longrightarrow> scheds es < length (runnable m)"
      using l by (auto simp: scheds_def split: if_splits)
    obtain ws where w: "runnable m' = drop (scheds es) (runnable m) @ ws" using ih(2) l'(1) by blast
    show ?thesis
    proof (cases "e = Sched")
      case True
      then have "tl (runnable m') = drop (Suc (scheds es)) (runnable m) @ ws" using w l' by (simp add: tl_append2 drop_Suc tl_drop)
      then show ?thesis using s True by (simp add: scheds_def)
    qed (use s w in \<open>simp add: scheds_def\<close>)
  qed
  then show ?case using s by blast
qed

lemma reach_ok: "coroutine_mgr_new k p = Some m \<Longrightarrow> co_run k m es m' \<Longrightarrow> co_ok m'"
  using run_ok mgr_new_ok by blast

section \<open>A small run\<close>

definition demo_os :: stack_os where
  "demo_os = \<lparr>os_page = 4096, os_mmap = (\<lambda>n. Some 65536), os_mprotect = (\<lambda>p. True), os_malloc = (\<lambda>n. Some 512), os_context = True\<rparr>"

definition demo_new :: co_mgr where "demo_new = the (coroutine_mgr_new demo_os 1)"
definition demo_two :: co_mgr where "demo_two = snd (the (create demo_os demo_new 2 8192 False False))"
definition demo_three :: co_mgr where "demo_three = snd (the (create demo_os demo_two 3 8192 False False))"
definition demo_first :: co_mgr where "demo_first = the (schedule_pick demo_three)"
definition demo_yield :: co_mgr where "demo_yield = the (coroutine_yield demo_os demo_first)"
definition demo_second :: co_mgr where "demo_second = the (schedule_pick demo_yield)"

definition demo_loop :: co_mgr where "demo_loop = the (schedule_pick demo_new)"
definition demo_late :: co_mgr where "demo_late = snd (the (create demo_os demo_loop 2 8192 False False))"
definition demo_end :: co_mgr where "demo_end = the (context_end demo_os demo_late)"

lemmas demo_co_defs = demo_new_def demo_two_def demo_three_def demo_first_def demo_yield_def demo_second_def demo_loop_def demo_late_def
  demo_end_def demo_os_def coroutine_mgr_new_def create_def co_init_def coroutine_new_def co_protected_def FLAG_PROTECT_STACK_def round_stack_def
  schedule_pick_def set_state_def coroutine_yield_def mgr_yield_def switched_back_def coroutine_sleep_def mgr_sleep_def context_end_def
  delete_coroutine_def co_delete_def sk_assert_def Let_def

lemma demo_new_eq: "coroutine_mgr_new demo_os 1 = Some demo_new"
  by (simp add: demo_co_defs)

lemma demo_three_run: "co_run demo_os demo_new [Create 2, Create 3] demo_three"
proof -
  have "co_step demo_os demo_new (Create 2) demo_two"
    by (rule co_step.create [of _ _ _ 8192 False False "Some 2"]) (simp_all add: demo_co_defs)
  moreover have "co_step demo_os demo_two (Create 3) demo_three"
    by (rule co_step.create [of _ _ _ 8192 False False "Some 3"]) (simp_all add: demo_co_defs)
  ultimately show ?thesis
    using co_run.step [OF co_run.step [OF co_run.start]] by fastforce
qed

lemma demo_second_run: "co_run demo_os demo_three ([Sched, Yield] @ [Sched]) demo_second"
proof -
  have "co_step demo_os demo_three Sched demo_first" by (rule co_step.sched) (simp_all add: demo_co_defs)
  moreover have "co_step demo_os demo_first Yield demo_yield" by (rule co_step.yield [of _ 2]) (simp_all add: demo_co_defs)
  moreover have "co_step demo_os demo_yield Sched demo_second" by (rule co_step.sched) (simp_all add: demo_co_defs)
  ultimately show ?thesis
    using co_run.step [OF co_run.step [OF co_run.step [OF co_run.start]]] by fastforce
qed

lemma demo_end_run: "co_run demo_os demo_new [Sched, Create 2, Return] demo_end"
proof -
  have "co_step demo_os demo_new Sched demo_loop" by (rule co_step.sched) (simp_all add: demo_co_defs)
  moreover have "co_step demo_os demo_loop (Create 2) demo_late"
    by (rule co_step.create [of _ _ _ 8192 False False "Some 2"]) (simp_all add: demo_co_defs)
  moreover have "co_step demo_os demo_late Return demo_end" by (rule co_step.return [of _ 1]) (simp_all add: demo_co_defs)
  ultimately show ?thesis
    using co_run.step [OF co_run.step [OF co_run.step [OF co_run.start]]] by fastforce
qed

section \<open>Properties\<close>

text \<open>
  C22: In every state that the manager can reach, each living coroutine but the event loop is in exactly one place: it runs, or it is in the
  queue of runnable coroutines, once, or exactly one timer will wake it; its state names that place. Nothing in those places is a deleted coroutine.
\<close>

theorem coroutine_in_one_place:
  assumes "coroutine_mgr_new k p = Some m0" and "co_run k m0 es m"
  shows "distinct (runnable m) \<and>
    (\<forall>c x. cos m c = Some x \<and> uv m \<noteq> Some c \<longrightarrow>
       (current m = Some c \<and> c \<notin> set (runnable m) \<and> c \<notin> ran (sleeping m) \<and> co_state x = Running) \<or>
       (current m \<noteq> Some c \<and> c \<in> set (runnable m) \<and> c \<notin> ran (sleeping m) \<and> co_state x = Runnable) \<or>
       (current m \<noteq> Some c \<and> c \<notin> set (runnable m) \<and> (\<exists>!t. sleeping m t = Some c) \<and> co_state x = Sleeping)) \<and>
    (\<forall>c. c \<in> set (runnable m) \<or> c \<in> ran (sleeping m) \<or> current m = Some c \<or> uv m = Some c \<longrightarrow> cos m c \<noteq> None)"
proof (intro conjI allI impI)
  have ok: "co_ok m" by (rule reach_ok [OF assms])
  show "distinct (runnable m)" using co_okD(4) [OF ok] .
  show "cos m c \<noteq> None" if "c \<in> set (runnable m) \<or> c \<in> ran (sleeping m) \<or> current m = Some c \<or> uv m = Some c" for c
    using that co_okD(1) [OF ok, of c] by (auto simp: place_ok_def split: option.splits)
  fix c x assume a: "cos m c = Some x \<and> uv m \<noteq> Some c"
  have "c \<in> ran (sleeping m) \<Longrightarrow> \<exists>!t. sleeping m t = Some c"
    using co_okD(2) [OF ok] unfolding timers_ok_def ran_def by blast
  then show "(current m = Some c \<and> c \<notin> set (runnable m) \<and> c \<notin> ran (sleeping m) \<and> co_state x = Running) \<or>
       (current m \<noteq> Some c \<and> c \<in> set (runnable m) \<and> c \<notin> ran (sleeping m) \<and> co_state x = Runnable) \<or>
       (current m \<noteq> Some c \<and> c \<notin> set (runnable m) \<and> (\<exists>!t. sleeping m t = Some c) \<and> co_state x = Sleeping)"
    using a co_okD(1) [OF ok, of c] by (auto simp: place_ok_def)
qed

theorem coroutine_in_one_place_witness: "distinct (runnable demo_three) \<and> cos demo_three 3 \<noteq> None"
proof -
  have "3 \<in> set (runnable demo_three)" by (simp add: demo_co_defs)
  then show ?thesis using coroutine_in_one_place [OF demo_new_eq demo_three_run] by blast
qed

text \<open>
  C24: No assertion of the manager fails and nothing reads a deleted coroutine: in every reachable state the scheduler, \<^verbatim>\<open>coroutine_sleep\<close>,
  \<^verbatim>\<open>coroutine_yield\<close>, the return of a coroutine's function and the callback of a timer are carried out.
\<close>

theorem coroutine_mgr_no_abort:
  assumes "coroutine_mgr_new k p = Some m0" and "co_run k m0 es m"
  shows "(current m = None \<and> \<not> finished m \<longrightarrow> schedule_pick m \<noteq> None) \<and>
    (current m \<noteq> None \<longrightarrow> coroutine_yield k m \<noteq> None \<and>
       (current m \<noteq> uv m \<longrightarrow> context_end k m \<noteq> None \<and> (\<forall>t. sleeping m t = None \<longrightarrow> coroutine_sleep k m t \<noteq> None)) \<and>
       (current m = uv m \<longrightarrow> (\<forall>t. sleeping m t \<noteq> None \<longrightarrow> on_wakeup k m t \<noteq> None) \<and> (sleeping m = (\<lambda>_. None) \<longrightarrow> context_end k m \<noteq> None)))"
proof -
  have ok: "co_ok m" by (rule reach_ok [OF assms])
  show ?thesis
  proof (cases "current m")
    case None
    then show ?thesis using pick_ok [OF ok] by auto
  next
    case (Some c)
    have "uv m \<noteq> Some c \<or> sleeping m = (\<lambda>_. None) \<Longrightarrow> context_end k m \<noteq> None" using return_ok [OF ok Some, of k] by auto
    moreover have "uv m \<noteq> Some c \<Longrightarrow> sleeping m t = None \<Longrightarrow> coroutine_sleep k m t \<noteq> None" for t
      using sleep_ok [OF ok Some, of t k] by auto
    moreover have "uv m = Some c \<Longrightarrow> sleeping m t \<noteq> None \<Longrightarrow> on_wakeup k m t \<noteq> None" for t
      using wakeup_ok [OF ok, of t _ k] Some by auto
    moreover have "coroutine_yield k m \<noteq> None" using yield_ok [OF ok Some, of k] by auto
    ultimately show ?thesis using Some by (simp add: eq_commute [of "Some c"])
  qed
qed

theorem coroutine_mgr_no_abort_witness: "schedule_pick demo_three \<noteq> None"
proof -
  have "current demo_three = None" "\<not> finished demo_three" by (simp_all add: demo_co_defs)
  then show ?thesis using coroutine_mgr_no_abort [OF demo_new_eq demo_three_run] by blast
qed

text \<open>
  C23: First come, first served: a coroutine with \<open>xs\<close> before it in the queue of a reachable state is the one the scheduler resumes at its
  \<open>length xs + 1\<close>st turn from there, whatever the coroutines and the event loop do in between.
\<close>

theorem schedule_fifo:
  assumes "coroutine_mgr_new k p = Some m0" and "co_run k m0 es0 m" and "runnable m = xs @ c # ys"
    and "co_run k m (es @ [Sched]) m'" and "scheds es = length xs"
  shows "current m' = Some c"
proof -
  obtain n where n: "co_run k m es n" "co_step k n Sched m'"
    using assms(4) by (cases rule: co_run.cases) auto
  obtain zs where "co_ok n" "runnable n = c # ys @ zs"
    using run_ok [OF n(1) reach_ok [OF assms(1,2)]] assms(3,5) by auto
  moreover from n(2) have "current n = None" "\<not> finished n" "schedule_pick n = Some m'" by (auto elim: co_step.cases)
  ultimately show ?thesis using pick_ok by fastforce
qed

theorem schedule_fifo_witness: "current demo_second = Some 3"
  by (rule schedule_fifo [OF demo_new_eq demo_three_run, of "[2]" 3 "[]" "[Sched, Yield]"])
    (use demo_second_run in \<open>simp_all add: demo_co_defs scheds_def\<close>)

text \<open>
  When \<^verbatim>\<open>schedule\<close> has returned, no coroutine sleeps and every living coroutine is in the queue of runnable ones: it is one that a callback
  of the event loop created in its last turn, and it is never run.
\<close>

theorem schedule_end:
  assumes "coroutine_mgr_new k p = Some m0" and "co_run k m0 es m" and "finished m"
  shows "sleeping m = (\<lambda>_. None) \<and> uv m = None \<and> current m = None \<and> dom (cos m) = set (runnable m) \<and> \<not> (\<exists>m'. co_step k m Sched m')"
proof -
  have ok: "co_ok m" by (rule reach_ok [OF assms(1,2)])
  have c: "sleeping m = (\<lambda>_. None)" "uv m = None" "current m = None" using co_okD(3) [OF ok] assms(3) by (auto simp: control_ok_def)
  have "c \<in> dom (cos m) \<longleftrightarrow> c \<in> set (runnable m)" for c
    using co_okD(1) [OF ok, of c] c by (auto simp: place_ok_def split: option.splits if_splits)
  then show ?thesis using c assms(3) by (auto elim: co_step.cases)
qed

theorem schedule_end_witness: "finished demo_end \<and> runnable demo_end = [2] \<and> dom (cos demo_end) = {2}"
proof -
  have f: "finished demo_end" "runnable demo_end = [2]" by (simp_all add: demo_co_defs)
  then show ?thesis using schedule_end [OF demo_new_eq demo_end_run f(1)] by simp
qed

section \<open>Stacks\<close>

lemma and_page: "and n (2 ^ j - Suc 0) = n mod 2 ^ j" for n :: nat
  using take_bit_eq_mask [of j n] by (simp add: mask_eq_exp_minus_1 take_bit_eq_mod)

lemma protected_new: "co_protected (coroutine_new sz f True)"
  by (cases f) (simp_all add: co_protected_def coroutine_new_def FLAG_PROTECT_STACK_def FLAG_PRESERVE_FPU_def Let_def)

lemma size_new: "co_stack_size (coroutine_new sz f pr) = sz"
  by (simp add: coroutine_new_def Let_def)

lemma round_stack_ok:
  assumes "sz + 2 ^ j < 2 ^ 64"
  shows "2 ^ j dvd round_stack (2 ^ j) sz \<and> sz \<le> round_stack (2 ^ j) sz \<and> round_stack (2 ^ j) sz < sz + 2 ^ j"
proof (cases "sz mod 2 ^ j = 0")
  case False
  define q where "q = sz div 2 ^ j"
  have sz: "sz = q * 2 ^ j + sz mod 2 ^ j" by (simp only: q_def div_mult_mod_eq)
  then have d: "sz - sz mod 2 ^ j = q * 2 ^ j" by simp
  have l: "sz mod 2 ^ j < 2 ^ j" by simp
  have "q * 2 ^ j + 2 ^ j < 2 ^ 64" using assms sz by linarith
  then have "round_stack (2 ^ j) sz = q * 2 ^ j + 2 ^ j" using False by (simp add: round_stack_def and_page d)
  moreover have "sz \<le> q * 2 ^ j + 2 ^ j" "q * 2 ^ j + 2 ^ j < sz + 2 ^ j" using sz l False by linarith+
  ultimately show ?thesis by simp
qed (simp add: round_stack_def and_page mod_eq_0_iff_dvd)

text \<open>
  The stack of a protected coroutine: a request of any size up to the address space less three pages is rounded up to the least multiple of the page
  size, and creation that succeeds maps that many bytes with one inaccessible page in front of them and one behind.
\<close>

theorem create_guard_pages:
  assumes "os_page k = 2 ^ j" and "sz + 3 * 2 ^ j < 2 ^ 64" and "create k m p sz f True = Some (Some q, m')"
  shows "\<exists>a n. 2 ^ j dvd n \<and> sz \<le> n \<and> n < sz + 2 ^ j \<and> 2 ^ j dvd a \<and> os_mmap k (n + 2 * 2 ^ j) = Some a \<and>
    calls m' = calls m @ [Mmap a (n + 2 * 2 ^ j), Mprotect a (2 ^ j), Mprotect (a + 2 ^ j + n) (2 ^ j)] \<and> q = p \<and> runnable m' = runnable m @ [p]"
proof -
  define n where "n = round_stack (2 ^ j) sz"
  have n: "2 ^ j dvd n \<and> sz \<le> n \<and> n < sz + 2 ^ j" using round_stack_ok [of sz j] assms(2) by (simp add: n_def)
  then have "(n + 2 ^ j * 2) mod 2 ^ 64 = n + 2 * 2 ^ j" using assms(2) by simp
  then obtain a where "os_mmap k (n + 2 * 2 ^ j) = Some a" "2 ^ j dvd a" "q = p" "runnable m' = runnable m @ [p]"
      "calls m' = calls m @ [Mmap a (n + 2 * 2 ^ j), Mprotect a (2 ^ j), Mprotect (a + 2 ^ j + n) (2 ^ j)]"
    using assms(1,3) protected_new [of sz f]
    by (auto simp: create_def size_new co_init_def Let_def bind_eq_Some_conv sk_assert_def and_page n_def [symmetric] delete_coroutine_def mod_eq_0_iff_dvd
        split: if_splits option.splits)
  then show ?thesis using n by blast
qed

theorem create_guard_pages_witness:
  "\<exists>a n. 2 ^ 12 dvd n \<and> 5000 \<le> n \<and> n < 5000 + 2 ^ 12 \<and> 2 ^ 12 dvd a \<and> os_mmap demo_os (n + 2 * 2 ^ 12) = Some a \<and>
    calls (snd (the (create demo_os demo_new 2 5000 False True))) =
      calls demo_new @ [Mmap a (n + 2 * 2 ^ 12), Mprotect a (2 ^ 12), Mprotect (a + 2 ^ 12 + n) (2 ^ 12)] \<and> 2 = (2 :: nat) \<and>
    runnable (snd (the (create demo_os demo_new 2 5000 False True))) = runnable demo_new @ [2]"
  by (rule create_guard_pages [of demo_os 12 5000 demo_new 2 False]) (simp_all add: demo_co_defs)

text \<open>
  When the first page of the new stack cannot be protected, \<^verbatim>\<open>init\<close> unmaps the stack and keeps the pointer, and the destructor that \<^verbatim>\<open>create\<close>
  then runs unmaps the same range a second time.
\<close>

theorem create_unmaps_twice:
  assumes "os_page k = 2 ^ j" and "sz + 3 * 2 ^ j < 2 ^ 64" and "\<And>s. os_mmap k s = Some a" and "2 ^ j dvd a" and "\<not> os_mprotect k a"
  shows "\<exists>m' s. create k m p sz f True = Some (None, m') \<and> calls m' = calls m @ [Mmap a s, Mprotect a (2 ^ j), Munmap a s, Munmap a s]"
proof -
  define n where "n = round_stack (2 ^ j) sz"
  have n: "2 ^ j dvd n" "(n + 2 ^ j * 2) mod 2 ^ 64 = n + 2 * 2 ^ j" using round_stack_ok [of sz j] assms(2) by (simp_all add: n_def)
  have "and (a + (n + 2 * 2 ^ j)) (2 ^ j - 1) = 0" "and a (2 ^ j - 1) = 0" "and n (2 ^ j - 1) = 0"
    using n(1) assms(4) by (simp_all add: and_page mod_eq_0_iff_dvd)
  moreover have "co_protected (c\<lparr>co_stack_size := x, co_stack := y\<rparr>) = co_protected c" for c x y by (simp add: co_protected_def)
  ultimately show ?thesis using assms(1,3,5) n protected_new [of sz f]
    by (simp add: size_new create_def co_init_def Let_def delete_coroutine_def co_delete_def n_def [symmetric])
qed

theorem create_unmaps_twice_witness:
  "\<exists>m' s. create (demo_os\<lparr>os_mprotect := \<lambda>p. False\<rparr>) demo_new 2 5000 False True = Some (None, m') \<and>
    calls m' = calls demo_new @ [Mmap 65536 s, Mprotect 65536 (2 ^ 12), Munmap 65536 s, Munmap 65536 s]"
  by (rule create_unmaps_twice) (simp_all add: demo_os_def)

end
