(* ===== verification/Referable_Array.thy ===== *)
theory Referable_Array
  imports Prelude
begin

text \<open>
  \<^verbatim>\<open>src/src/container/referable_array.h\<close>: an array whose elements keep their index, with the free slots linked through
  their own storage. The storage \<open>data\<close> of a slot holds either a link or an element; reading it as the
  other one is undefined. The model of a \<^verbatim>\<open>T*\<close> result is the element read through it.
\<close>

datatype 'a storage = Index nat | Elem 'a

record 'a array_node =
  used :: bool
  data :: "'a storage"

definition npos :: nat where "npos = 2 ^ 64 - 1"

record 'a referable_array =
  used_count :: nat
  free_head :: nat
  memory :: "'a array_node list"

definition capacity :: "'a referable_array \<Rightarrow> nat" where
  "capacity a = length (memory a)"

definition read_index :: "'a array_node \<Rightarrow> nat option" where
  "read_index n = (case data n of Index i \<Rightarrow> Some i | Elem _ \<Rightarrow> None)"

definition read_elem :: "'a array_node \<Rightarrow> 'a option" where
  "read_elem n = (case data n of Index _ \<Rightarrow> None | Elem x \<Rightarrow> Some x)"

text \<open>The constructor: \<^verbatim>\<open>__init\<close> links the free slots.\<close>

definition ra_init :: "nat \<Rightarrow> 'a referable_array" where
  "ra_init N = \<lparr>used_count = 0, free_head = 0,
     memory = map (\<lambda>i. \<lparr>used = False, data = Index (if i = N - 1 then npos else i + 1)\<rparr>) [0..<N]\<rparr>"

fun copy_nodes :: "'a array_node list \<Rightarrow> 'a array_node list option" where
  "copy_nodes [] = Some []"
| "copy_nodes (on # ons) = do {
     nn \<leftarrow> (if used on then do { x \<leftarrow> read_elem on; Some \<lparr>used = True, data = Elem x\<rparr> }
           else do { i \<leftarrow> read_index on; Some \<lparr>used = False, data = Index i\<rparr> });
     nns \<leftarrow> copy_nodes ons;
     Some (nn # nns)
   }"

definition ra_copy :: "'a referable_array \<Rightarrow> 'a referable_array option" where
  "ra_copy a = do {
     ns \<leftarrow> copy_nodes (memory a);
     Some \<lparr>used_count = used_count a, free_head = free_head a, memory = ns\<rparr>
   }"

definition add_free :: "'a referable_array \<Rightarrow> nat \<Rightarrow> 'a referable_array" where
  "add_free a index = a\<lparr>memory := (memory a)[index := \<lparr>used = False, data = Index (free_head a)\<rparr>],
     free_head := index, used_count := (if used_count a = 0 then npos else used_count a - 1)\<rparr>"

definition ra_add_used :: "'a referable_array \<Rightarrow> nat \<Rightarrow> 'a referable_array" where
  "ra_add_used a index = a\<lparr>memory := (memory a)[index := (memory a ! index)\<lparr>used := True\<rparr>], used_count := used_count a + 1\<rparr>"

definition full :: "'a referable_array \<Rightarrow> bool option" where
  "full a = (if used_count a \<ge> capacity a then do { sk_assert (free_head a = npos); Some True } else Some False)"

definition empty :: "'a referable_array \<Rightarrow> bool option" where
  "empty a = (if used_count a = 0 then do { sk_assert (free_head a \<noteq> npos); Some True } else Some False)"

fun clear_from :: "nat list \<Rightarrow> 'a referable_array \<Rightarrow> 'a referable_array option" where
  "clear_from [] a = Some a"
| "clear_from (i # is) a =
     (if \<not> used (memory a ! i) then clear_from is a
      else do { x \<leftarrow> read_elem (memory a ! i); clear_from is (add_free a i) })"

definition clear :: "'a referable_array \<Rightarrow> 'a referable_array option" where
  "clear a = clear_from [0..<capacity a] a"

text \<open>The result is \<open>None\<close> for the null pointer.\<close>

definition ra_at :: "'a referable_array \<Rightarrow> nat \<Rightarrow> 'a option option" where
  "ra_at a index = do {
     sk_assert (index < capacity a);
     let n = memory a ! index;
     if used n then do { x \<leftarrow> read_elem n; Some (Some x) } else Some None
   }"

definition erase :: "'a referable_array \<Rightarrow> nat \<Rightarrow> 'a referable_array option" where
  "erase a index = do {
     sk_assert (index < capacity a);
     let n = memory a ! index;
     if \<not> used n then Some a
     else do { x \<leftarrow> read_elem n; Some (add_free a index) }
   }"

definition emplace :: "'a referable_array \<Rightarrow> 'a \<Rightarrow> ((bool \<times> nat) \<times> 'a referable_array) option" where
  "emplace a x = do {
     f \<leftarrow> full a;
     if f then Some ((False, npos), a)
     else do {
       sk_assert (free_head a \<noteq> npos);
       sk_assert (free_head a < capacity a);
       let i = free_head a;
       let a = ra_add_used a i;
       nxt \<leftarrow> read_index (memory a ! i);
       let a = a\<lparr>free_head := nxt\<rparr>;
       let a = a\<lparr>memory := (memory a)[i := (memory a ! i)\<lparr>data := Elem x\<rparr>]\<rparr>;
       Some ((True, i), a)
     }
   }"

section \<open>Invariant\<close>

text \<open>The free list from \<open>h\<close> visits the slots \<open>is\<close>.\<close>

fun free_list :: "'a array_node list \<Rightarrow> nat \<Rightarrow> nat list \<Rightarrow> bool" where
  "free_list M h [] \<longleftrightarrow> h = npos"
| "free_list M h (i # is) \<longleftrightarrow> h = i \<and> i < length M \<and> (\<exists>n. data (M ! i) = Index n \<and> free_list M n is)"

definition ra_inv :: "'a referable_array \<Rightarrow> nat list \<Rightarrow> bool" where
  "ra_inv a fs \<longleftrightarrow> 0 < capacity a \<and> capacity a < npos \<and> distinct fs \<and> set fs \<subseteq> {..<capacity a} \<and>
     free_list (memory a) (free_head a) fs \<and> used_count a + length fs = capacity a \<and>
     (\<forall>i < capacity a. (used (memory a ! i) \<longleftrightarrow> i \<notin> set fs) \<and> (i \<notin> set fs \<longrightarrow> (\<exists>x. data (memory a ! i) = Elem x)))"

definition ra_ok :: "'a referable_array \<Rightarrow> bool" where
  "ra_ok a \<longleftrightarrow> (\<exists>fs. ra_inv a fs)"

text \<open>The abstract contents.\<close>

definition elems :: "'a referable_array \<Rightarrow> nat \<Rightarrow> 'a option" where
  "elems a i = (if i < capacity a \<and> used (memory a ! i) then read_elem (memory a ! i) else None)"

lemma free_list_update: "i \<notin> set is \<Longrightarrow> free_list (M[i := v]) h is = free_list M h is"
  by (induction M h "is" rule: free_list.induct) auto

lemma free_list_init:
  assumes "i < N"
  shows "free_list (map (\<lambda>i. \<lparr>used = False, data = Index (if i = N - 1 then npos else i + 1)\<rparr>) [0..<N]) i [i..<N]"
  using assms
proof (induction "N - i" arbitrary: i)
  case (Suc n)
  then have u: "[i..<N] = i # [Suc i..<N]" by (simp add: upt_conv_Cons)
  show ?case
  proof (cases "i = N - 1")
    case True then show ?thesis using u Suc by auto
  next
    case False then show ?thesis using u Suc by auto
  qed
qed simp

lemma ra_init_inv: "0 < N \<Longrightarrow> N < npos \<Longrightarrow> ra_inv (ra_init N) [0..<N]"
  using free_list_init [of 0 N] by (auto simp: ra_inv_def ra_init_def capacity_def)

lemma ra_inv_erase:
  assumes inv: "ra_inv a fs" and i: "i < capacity a" and u: "used (memory a ! i)"
  shows "ra_inv (add_free a i) (i # fs)" and "elems (add_free a i) = (elems a)(i := None)"
proof -
  have n: "i \<notin> set fs" and c: "used_count a + length fs = capacity a" using inv i u by (auto simp: ra_inv_def)
  have "length (i # fs) \<le> capacity a"
    using inv i n card_mono [of "{..<capacity a}" "set (i # fs)"] distinct_card [of "i # fs"] by (auto simp: ra_inv_def)
  then have pos: "used_count a > 0" using c by simp
  have "free_list ((memory a)[i := \<lparr>used = False, data = Index (free_head a)\<rparr>]) (free_head a) fs"
    using inv n by (simp add: ra_inv_def free_list_update)
  then show "ra_inv (add_free a i) (i # fs)"
    using inv i n pos c by (auto simp: ra_inv_def add_free_def capacity_def nth_list_update)
  show "elems (add_free a i) = (elems a)(i := None)"
    using i by (auto simp: fun_eq_iff elems_def add_free_def capacity_def nth_list_update)
qed

lemma ra_inv_elem: "ra_inv a fs \<Longrightarrow> i < capacity a \<Longrightarrow> used (memory a ! i) \<Longrightarrow> \<exists>x. read_elem (memory a ! i) = Some x"
  by (auto simp: ra_inv_def read_elem_def)

lemma emplace_free:
  assumes inv: "ra_inv a (i # fs)"
  shows "\<exists>a'. emplace a x = Some ((True, i), a') \<and> ra_inv a' fs \<and> elems a' = (elems a)(i \<mapsto> x) \<and> elems a i = None \<and>
    i < capacity a \<and> capacity a' = capacity a"
proof -
  obtain n where n: "free_head a = i" "i < capacity a" "data (memory a ! i) = Index n" "free_list (memory a) n fs"
    using inv by (auto simp: ra_inv_def capacity_def)
  let ?M = "(memory a)[i := (memory a ! i)\<lparr>used := True, data := Elem x\<rparr>]"
  define a' where "a' = \<lparr>used_count = used_count a + 1, free_head = n, memory = ?M\<rparr>"
  have l: "i < length (memory a)" using n(2) by (simp add: capacity_def)
  have "used_count a < capacity a" "i \<noteq> npos" using inv n(2) by (auto simp: ra_inv_def)
  then have e: "emplace a x = Some ((True, i), a')"
    using n l by (cases a) (simp add: emplace_def full_def sk_assert_def ra_add_used_def read_index_def capacity_def a'_def)
  have "free_list ?M n fs" using n(4) inv by (simp add: ra_inv_def free_list_update)
  then have "ra_inv a' fs"
    using inv l by (auto simp: ra_inv_def a'_def capacity_def nth_list_update)
  moreover have "elems a' = (elems a)(i \<mapsto> x)"
    using l by (auto simp: fun_eq_iff elems_def a'_def capacity_def nth_list_update read_elem_def)
  moreover have "elems a i = None" using inv n(2) by (auto simp: elems_def ra_inv_def)
  moreover have "capacity a' = capacity a" by (simp add: a'_def capacity_def)
  ultimately show ?thesis using e n(2) by blast
qed

lemma clear_from_ok:
  assumes "ra_inv a fs" and "set is \<subseteq> {..<capacity a}"
  shows "\<exists>a' fs'. clear_from is a = Some a' \<and> ra_inv a' fs' \<and> capacity a' = capacity a \<and> (\<forall>i. elems a' i = (if i \<in> set is then None else elems a i))"
  using assms
proof (induction "is" arbitrary: a fs)
  case Nil then show ?case by auto
next
  case (Cons i "is")
  then have i: "i < capacity a" by simp
  show ?case
  proof (cases "used (memory a ! i)")
    case False
    then have "elems a i = None" by (simp add: elems_def)
    then show ?thesis using Cons.IH [OF Cons.prems(1)] Cons.prems(2) False by auto
  next
    case True
    note r = ra_inv_erase [OF Cons.prems(1) i True]
    have c: "capacity (add_free a i) = capacity a" by (simp add: add_free_def capacity_def)
    obtain x where x: "read_elem (memory a ! i) = Some x" using ra_inv_elem [OF Cons.prems(1) i True] by blast
    obtain a' fs' where a': "clear_from is (add_free a i) = Some a'" "ra_inv a' fs'" "capacity a' = capacity a"
        "\<forall>j. elems a' j = (if j \<in> set is then None else elems (add_free a i) j)"
      using Cons.IH [OF r(1)] Cons.prems(2) c by auto
    have "clear_from (i # is) a = Some a'" using True x a'(1) by simp
    moreover have "\<forall>j. elems a' j = (if j \<in> set (i # is) then None else elems a j)" using a'(4) r(2) by simp
    ultimately show ?thesis using a'(2,3) by blast
  qed
qed

lemma copy_nodes_same:
  "\<forall>n \<in> set ns. if used n then \<exists>x. data n = Elem x else \<exists>i. data n = Index i \<Longrightarrow> copy_nodes ns = Some (map (\<lambda>n. \<lparr>used = used n, data = data n\<rparr>) ns)"
  by (induction ns) (auto simp: read_elem_def read_index_def)

lemma free_list_index: "free_list M h is \<Longrightarrow> i \<in> set is \<Longrightarrow> \<exists>n. data (M ! i) = Index n"
  by (induction M h "is" rule: free_list.induct) auto

section \<open>Properties\<close>

text \<open>
  The array is a map from stable indices to elements. A new array is empty; \<^verbatim>\<open>emplace\<close> stores the element under an index
  that was unused and changes no other element, and reports failure without a change exactly when all slots are in use; the
  invariant of the free list, which is threaded through the unused slots, is kept.
\<close>

theorem emplace_refines:
  assumes "ra_ok a"
  shows "if \<forall>i < capacity a. elems a i \<noteq> None then emplace a x = Some ((False, npos), a)
    else \<exists>i a'. emplace a x = Some ((True, i), a') \<and> ra_ok a' \<and> i < capacity a \<and> elems a i = None \<and> elems a' = (elems a)(i \<mapsto> x) \<and>
      capacity a' = capacity a"
proof -
  obtain fs where fs: "ra_inv a fs" using assms by (auto simp: ra_ok_def)
  show ?thesis
  proof (cases fs)
    case Nil
    then have "\<forall>i < capacity a. elems a i \<noteq> None" using fs by (auto simp: ra_inv_def elems_def read_elem_def)
    moreover have "emplace a x = Some ((False, npos), a)"
      using fs Nil by (simp add: emplace_def full_def ra_inv_def sk_assert_def)
    ultimately show ?thesis by simp
  next
    case (Cons i gs)
    then show ?thesis using emplace_free [of a i gs x] fs by (auto simp: ra_ok_def)
  qed
qed

text \<open>
  C31: Erasing an index removes that element alone, clearing removes all of them, copying keeps every element under its index, and
  \<^verbatim>\<open>at\<close> reads the map; none of these operations reads a link as an element or an element as a link.
\<close>

theorem referable_array_refines_map:
  assumes "ra_ok a"
  shows "(\<forall>i < capacity a. ra_at a i = Some (elems a i) \<and>
      (\<exists>a'. erase a i = Some a' \<and> ra_ok a' \<and> elems a' = (elems a)(i := None))) \<and>
    (\<exists>a'. clear a = Some a' \<and> ra_ok a' \<and> elems a' = (\<lambda>_. None) \<and> used_count a' = 0) \<and>
    (\<exists>a'. ra_copy a = Some a' \<and> ra_ok a' \<and> elems a' = elems a) \<and> used_count a = card (dom (elems a))"
proof -
  obtain fs where fs: "ra_inv a fs" using assms by (auto simp: ra_ok_def)
  have el: "ra_at a i = Some (elems a i)" if "i < capacity a" for i
    using that ra_inv_elem [OF fs that] by (auto simp: ra_at_def elems_def sk_assert_def)
  have er: "\<exists>a'. erase a i = Some a' \<and> ra_ok a' \<and> elems a' = (elems a)(i := None)" if i: "i < capacity a" for i
  proof (cases "used (memory a ! i)")
    case True
    then show ?thesis using ra_inv_elem [OF fs i True] ra_inv_erase [OF fs i True] i by (auto simp: erase_def sk_assert_def ra_ok_def)
  next
    case False
    then show ?thesis using i assms by (auto simp: erase_def sk_assert_def elems_def fun_eq_iff)
  qed
  obtain a' fs' where a': "clear a = Some a'" "ra_inv a' fs'" "capacity a' = capacity a" "\<forall>i. elems a' i = (if i < capacity a then None else elems a i)"
    using clear_from_ok [OF fs, of "[0..<capacity a]"] by (fastforce simp: clear_def)
  then have e0: "elems a' = (\<lambda>_. None)" by (auto simp: fun_eq_iff elems_def)
  have dom: "used_count b = card (dom (elems b))" if "ra_inv b gs" for b :: "'a referable_array" and gs
  proof -
    have "dom (elems b) = {..<capacity b} - set gs" using that by (auto simp: ra_inv_def elems_def read_elem_def dom_def)
    moreover have "card ({..<capacity b} - set gs) = capacity b - length gs"
      using that by (subst card_Diff_subset) (auto simp: ra_inv_def distinct_card)
    moreover have "used_count b + length gs = capacity b" using that by (simp add: ra_inv_def)
    ultimately show ?thesis by simp
  qed
  have cl: "\<exists>a'. clear a = Some a' \<and> ra_ok a' \<and> elems a' = (\<lambda>_. None) \<and> used_count a' = 0"
    using a'(1,2) e0 dom [OF a'(2)] by (auto simp: ra_ok_def)
  have "if used n then \<exists>x. data n = Elem x else \<exists>i. data n = Index i" if n: "n \<in> set (memory a)" for n
  proof -
    obtain i where i: "i < capacity a" "n = memory a ! i" using n by (auto simp: in_set_conv_nth capacity_def)
    then show ?thesis using fs free_list_index [of "memory a" "free_head a" fs i] by (auto simp: ra_inv_def)
  qed
  then have "copy_nodes (memory a) = Some (memory a)" using copy_nodes_same [of "memory a"] by (simp add: map_idI)
  then have "ra_copy a = Some a" by (simp add: ra_copy_def)
  then show ?thesis using el er cl assms dom [OF fs] by blast
qed

text \<open>
  The constructor establishes the invariant with no elements, for any capacity of at least one.
\<close>

theorem ra_init_ok:
  assumes "0 < N" and "N < npos"
  shows "ra_ok (ra_init N :: 'a referable_array) \<and> elems (ra_init N :: 'a referable_array) = (\<lambda>_. None) \<and> capacity (ra_init N :: 'a referable_array) = N"
  using ra_init_inv [OF assms] by (auto simp: ra_ok_def fun_eq_iff elems_def ra_init_def capacity_def)

section \<open>Witnesses\<close>

definition demo_array :: "nat referable_array" where
  "demo_array = ra_init 2"

lemma demo_array_ok: "ra_ok demo_array" "elems demo_array = (\<lambda>_. None)" "capacity demo_array = 2"
proof -
  show "ra_ok demo_array" using ra_init_inv [of 2] by (auto simp: ra_ok_def demo_array_def npos_def)
  show "elems demo_array = (\<lambda>_. None)" "capacity demo_array = 2"
    by (auto simp: fun_eq_iff elems_def demo_array_def ra_init_def capacity_def)
qed

theorem emplace_refines_witness:
  "\<exists>i a'. emplace demo_array 7 = Some ((True, i), a') \<and> ra_ok a' \<and> elems a' = [i \<mapsto> 7]"
proof -
  have "\<not> (\<forall>i < capacity demo_array. elems demo_array i \<noteq> None)" using demo_array_ok(2,3) by (auto intro: exI [of _ 0])
  note r = emplace_refines [OF demo_array_ok(1), of 7, unfolded if_not_P [OF this]]
  then show ?thesis using demo_array_ok(2) by auto
qed

theorem referable_array_refines_map_witness:
  "ra_ok demo_array \<and> ra_at demo_array 1 = Some None \<and> (\<exists>a'. erase demo_array 0 = Some a' \<and> ra_ok a') \<and> used_count demo_array = 0"
proof -
  note r = referable_array_refines_map [OF demo_array_ok(1)]
  have "ra_at demo_array 1 = Some None" using r demo_array_ok(2,3) by simp
  moreover have "\<exists>a'. erase demo_array 0 = Some a' \<and> ra_ok a'" using r [THEN conjunct1, rule_format, of 0] demo_array_ok(3) by auto
  moreover have "used_count demo_array = 0" using r demo_array_ok(2) by simp
  ultimately show ?thesis using demo_array_ok(1) by simp
qed

theorem ra_init_ok_witness: "ra_ok (ra_init 3 :: bool referable_array) \<and> capacity (ra_init 3 :: bool referable_array) = 3"
  using ra_init_ok [of 3, where 'a = bool] by (simp add: npos_def)

end
