(* ===== verification/Math_Helper.thy ===== *)
theory Math_Helper
  imports Bytes
begin

text \<open>
  \<^verbatim>\<open>src/src/utility/math_helper.h\<close> and \<^verbatim>\<open>math_helper.cpp\<close>: byte order, the CRC-16 of the keys of a redis cluster, and random numbers. The machine is
  little-endian. \<^verbatim>\<open>rand\<close> is a parameter, a number between 0 and \<open>2 ^ 31 - 1\<close>; signed overflow is undefined behaviour and gives \<open>None\<close>.
\<close>

section \<open>Byte order\<close>

definition memrev16 :: "u8 list \<Rightarrow> u8 list" where
  "memrev16 x = (let t = x ! 0; x = x[0 := x ! 1] in x[1 := t])"

definition memrev32 :: "u8 list \<Rightarrow> u8 list" where
  "memrev32 x = (let t = x ! 0; x = x[0 := x ! 3]; x = x[3 := t]; t = x ! 1; x = x[1 := x ! 2] in x[2 := t])"

definition memrev64 :: "u8 list \<Rightarrow> u8 list" where
  "memrev64 x = (let t = x ! 0; x = x[0 := x ! 7]; x = x[7 := t]; t = x ! 1; x = x[1 := x ! 6]; x = x[6 := t];
     t = x ! 2; x = x[2 := x ! 5]; x = x[5 := t]; t = x ! 3; x = x[3 := x ! 4] in x[4 := t])"

definition intrev16 :: "u16 \<Rightarrow> u16" where
  "intrev16 v = word_of_nat (le_val (memrev16 (le_bytes 2 (unat v))))"

definition intrev32 :: "u32 \<Rightarrow> u32" where
  "intrev32 v = word_of_nat (le_val (memrev32 (le_bytes 4 (unat v))))"

definition intrev64 :: "u64 \<Rightarrow> u64" where
  "intrev64 v = word_of_nat (le_val (memrev64 (le_bytes 8 (unat v))))"

section \<open>CRC-16\<close>

definition crc16tab :: "u16 list" where
  "crc16tab =
    [0x0000, 0x1021, 0x2042, 0x3063, 0x4084, 0x50a5, 0x60c6, 0x70e7,
     0x8108, 0x9129, 0xa14a, 0xb16b, 0xc18c, 0xd1ad, 0xe1ce, 0xf1ef,
     0x1231, 0x0210, 0x3273, 0x2252, 0x52b5, 0x4294, 0x72f7, 0x62d6,
     0x9339, 0x8318, 0xb37b, 0xa35a, 0xd3bd, 0xc39c, 0xf3ff, 0xe3de,
     0x2462, 0x3443, 0x0420, 0x1401, 0x64e6, 0x74c7, 0x44a4, 0x5485,
     0xa56a, 0xb54b, 0x8528, 0x9509, 0xe5ee, 0xf5cf, 0xc5ac, 0xd58d,
     0x3653, 0x2672, 0x1611, 0x0630, 0x76d7, 0x66f6, 0x5695, 0x46b4,
     0xb75b, 0xa77a, 0x9719, 0x8738, 0xf7df, 0xe7fe, 0xd79d, 0xc7bc,
     0x48c4, 0x58e5, 0x6886, 0x78a7, 0x0840, 0x1861, 0x2802, 0x3823,
     0xc9cc, 0xd9ed, 0xe98e, 0xf9af, 0x8948, 0x9969, 0xa90a, 0xb92b,
     0x5af5, 0x4ad4, 0x7ab7, 0x6a96, 0x1a71, 0x0a50, 0x3a33, 0x2a12,
     0xdbfd, 0xcbdc, 0xfbbf, 0xeb9e, 0x9b79, 0x8b58, 0xbb3b, 0xab1a,
     0x6ca6, 0x7c87, 0x4ce4, 0x5cc5, 0x2c22, 0x3c03, 0x0c60, 0x1c41,
     0xedae, 0xfd8f, 0xcdec, 0xddcd, 0xad2a, 0xbd0b, 0x8d68, 0x9d49,
     0x7e97, 0x6eb6, 0x5ed5, 0x4ef4, 0x3e13, 0x2e32, 0x1e51, 0x0e70,
     0xff9f, 0xefbe, 0xdfdd, 0xcffc, 0xbf1b, 0xaf3a, 0x9f59, 0x8f78,
     0x9188, 0x81a9, 0xb1ca, 0xa1eb, 0xd10c, 0xc12d, 0xf14e, 0xe16f,
     0x1080, 0x00a1, 0x30c2, 0x20e3, 0x5004, 0x4025, 0x7046, 0x6067,
     0x83b9, 0x9398, 0xa3fb, 0xb3da, 0xc33d, 0xd31c, 0xe37f, 0xf35e,
     0x02b1, 0x1290, 0x22f3, 0x32d2, 0x4235, 0x5214, 0x6277, 0x7256,
     0xb5ea, 0xa5cb, 0x95a8, 0x8589, 0xf56e, 0xe54f, 0xd52c, 0xc50d,
     0x34e2, 0x24c3, 0x14a0, 0x0481, 0x7466, 0x6447, 0x5424, 0x4405,
     0xa7db, 0xb7fa, 0x8799, 0x97b8, 0xe75f, 0xf77e, 0xc71d, 0xd73c,
     0x26d3, 0x36f2, 0x0691, 0x16b0, 0x6657, 0x7676, 0x4615, 0x5634,
     0xd94c, 0xc96d, 0xf90e, 0xe92f, 0x99c8, 0x89e9, 0xb98a, 0xa9ab,
     0x5844, 0x4865, 0x7806, 0x6827, 0x18c0, 0x08e1, 0x3882, 0x28a3,
     0xcb7d, 0xdb5c, 0xeb3f, 0xfb1e, 0x8bf9, 0x9bd8, 0xabbb, 0xbb9a,
     0x4a75, 0x5a54, 0x6a37, 0x7a16, 0x0af1, 0x1ad0, 0x2ab3, 0x3a92,
     0xfd2e, 0xed0f, 0xdd6c, 0xcd4d, 0xbdaa, 0xad8b, 0x9de8, 0x8dc9,
     0x7c26, 0x6c07, 0x5c64, 0x4c45, 0x3ca2, 0x2c83, 0x1ce0, 0x0cc1,
     0xef1f, 0xff3e, 0xcf5d, 0xdf7c, 0xaf9b, 0xbfba, 0x8fd9, 0x9ff8,
     0x6e17, 0x7e36, 0x4e55, 0x5e74, 0x2e93, 0x3eb2, 0x0ed1, 0x1ef0]"

definition crc16_step :: "u8 \<Rightarrow> u16 \<Rightarrow> u16" where
  "crc16_step b crc = push_bit 8 crc XOR crc16tab ! unat (take_bit 8 (drop_bit 8 crc XOR scast b))"

definition crc16 :: "u8 list \<Rightarrow> u16" where
  "crc16 buf = fold crc16_step buf 0"

section \<open>Random numbers\<close>

text \<open>The static \<^verbatim>\<open>seed\<close> is set from the clock at the first call.\<close>

definition random0 :: "u32 \<Rightarrow> int \<Rightarrow> int \<Rightarrow> int \<times> u32" where
  "random0 seed now r = (r, if seed = 0 then word_of_int now else seed)"

definition random :: "u32 \<Rightarrow> int \<Rightarrow> int \<Rightarrow> int \<Rightarrow> int \<Rightarrow> (int \<times> u32) option" where
  "random seed now r mn mx =
     (if mn = mx then Some (mn, seed)
      else do {
        let (mn, mx) = (if mn > mx then (mx, mn) else (mn, mx));
        let (r, seed) = random0 seed now r;
        sk_assert (mx - mn + 1 < 2 ^ 31);
        Some (r mod (mx - mn + 1) + mn, seed)
      })"

definition probability_hit :: "u32 \<Rightarrow> int \<Rightarrow> int \<Rightarrow> int \<Rightarrow> int \<Rightarrow> (bool \<times> u32) option" where
  "probability_hit seed now r prob prob_max = do {
     sk_assert (prob_max > 0);
     sk_assert (prob \<ge> 0 \<and> prob \<le> prob_max);
     (p, seed) \<leftarrow> random seed now r 1 prob_max;
     Some (p \<le> prob, seed)
   }"

definition percentage_hit :: "u32 \<Rightarrow> int \<Rightarrow> int \<Rightarrow> int \<Rightarrow> (bool \<times> u32) option" where
  "percentage_hit seed now r percentage = do {
     sk_assert (percentage \<ge> 0 \<and> percentage \<le> 100);
     probability_hit seed now r percentage 100
   }"

section \<open>Reversal\<close>

lemma list2: "length x = 2 \<Longrightarrow> \<exists>a b. x = [a, b]"
  by (auto simp: length_Suc_conv numeral_eq_Suc)

lemma memrev_rev:
  "length x = 2 \<Longrightarrow> memrev16 x = rev x" "length x = 4 \<Longrightarrow> memrev32 x = rev x" "length x = 8 \<Longrightarrow> memrev64 x = rev x"
  by (auto simp: memrev16_def memrev32_def memrev64_def Let_def length_Suc_conv numeral_eq_Suc)

lemma le_bytes_val: "le_bytes (length bs) (le_val bs) = bs"
proof (induction bs)
  case (Cons b bs)
  have b: "unat b < 256" using unsigned_less [where 'a = nat, of b] by simp
  have "word_of_nat (unat b + 256 * le_val bs) = b + 256 * word_of_nat (le_val bs)" by simp
  also have "(256 :: u8) = 0" by simp
  finally have "word_of_nat (unat b + 256 * le_val bs) = b" by simp
  moreover have "(unat b + 256 * le_val bs) div 256 = le_val bs" using b by simp
  ultimately show ?case using Cons by simp
qed simp

lemma le_val_less: "le_val bs < 256 ^ length bs"
proof (induction bs)
  case (Cons b bs)
  have "unat b < 256" using unsigned_less [where 'a = nat, of b] by simp
  then show ?case using Cons by simp
qed simp

section \<open>The table\<close>

text \<open>The remainder of the division by \<open>x\<^sup>1\<^sup>6 + x\<^sup>1\<^sup>2 + x\<^sup>5 + 1\<close>, one bit and one byte at a time.\<close>

definition crc_bit :: "u16 \<Rightarrow> u16" where
  "crc_bit c = (if bit c 15 then push_bit 1 c XOR 0x1021 else push_bit 1 c)"

definition crc_byte :: "u8 \<Rightarrow> u16 \<Rightarrow> u16" where
  "crc_byte b c = (crc_bit ^^ 8) (c XOR push_bit 8 (ucast b))"

text \<open>The table of twice the length from a table: one more bit.\<close>

definition doubled :: "u16 list \<Rightarrow> u16 list" where
  "doubled xs = concat (map (\<lambda>x. [crc_bit x, crc_bit x XOR 0x1021]) xs)"

lemma doubled_simps: "doubled [] = []" "doubled (x # xs) = crc_bit x # (crc_bit x XOR 0x1021) # doubled xs"
  by (simp_all add: doubled_def)

lemma crc16tab_doubled: "crc16tab = (doubled ^^ 8) [0]"
proof -
  have "crc16tab = doubled (doubled (doubled (doubled (doubled (doubled (doubled (doubled [0])))))))"
    by (simp add: crc16tab_def doubled_simps crc_bit_def)
  then show ?thesis by (simp add: eval_nat_numeral)
qed

lemma nth_doubled: "i < length xs \<Longrightarrow> doubled xs ! (2 * i) = crc_bit (xs ! i)" "i < length xs \<Longrightarrow> doubled xs ! Suc (2 * i) = crc_bit (xs ! i) XOR 0x1021"
proof (induction xs arbitrary: i)
  case (Cons x xs)
  { case 1 then show ?case using Cons.IH(1) by (cases i) (auto simp: doubled_simps) }
  { case 2 then show ?case using Cons.IH(2) by (cases i) (auto simp: doubled_simps) }
qed simp_all

lemma length_doubled: "length (doubled xs) = 2 * length xs"
  by (induction xs) (simp_all add: doubled_simps)

section \<open>Linearity\<close>

lemma crc_bit_xor: "crc_bit (x XOR y) = crc_bit x XOR crc_bit y"
  by (rule bit_word_eqI) (auto simp: crc_bit_def bit_simps)

lemma crc_bits_xor: "(crc_bit ^^ n) (x XOR y) = (crc_bit ^^ n) x XOR (crc_bit ^^ n) y"
  by (induction n arbitrary: x y) (simp_all add: crc_bit_xor funpow_swap1)

lemma crc_bit_shift: "\<not> bit c 15 \<Longrightarrow> crc_bit c = push_bit 1 c"
  by (simp add: crc_bit_def)

text \<open>As long as the highest bit is not set, a step is a shift.\<close>

lemma crc_bits_low: "(\<And>i. i < n \<Longrightarrow> \<not> bit c (15 - i)) \<Longrightarrow> n \<le> 16 \<Longrightarrow> (crc_bit ^^ n) c = push_bit n c"
proof (induction n)
  case (Suc n)
  then have "(crc_bit ^^ n) c = push_bit n c" by simp
  moreover have "\<not> bit (push_bit n c) 15" using Suc.prems(1) [of n] Suc.prems(2) by (auto simp: bit_simps)
  ultimately have "(crc_bit ^^ Suc n) c = push_bit 1 (push_bit n c)" by (simp add: crc_bit_shift)
  then show ?case by (simp add: push_bit_push_bit)
qed simp

lemma crc_bits_one: "(crc_bit ^^ 8) (push_bit 8 1) = 0x1021"
proof -
  have "crc_bit (crc_bit (crc_bit (crc_bit (crc_bit (crc_bit (crc_bit (crc_bit 256))))))) = 0x1021" by (simp add: crc_bit_def)
  then show ?thesis by (simp add: eval_nat_numeral)
qed

lemma entry_even: "j < 128 \<Longrightarrow> (crc_bit ^^ 8) (push_bit 8 (word_of_nat (2 * j))) = crc_bit ((crc_bit ^^ 8) (push_bit 8 (word_of_nat j)))"
proof -
  assume j: "j < 128"
  have "\<not> bit j 7" using j by (simp add: bit_iff_odd)
  then have "\<not> bit (push_bit 8 (word_of_nat j :: u16)) 15" by (simp add: bit_simps)
  moreover have "push_bit 8 (word_of_nat (2 * j)) = push_bit 1 (push_bit 8 (word_of_nat j :: u16))"
    by (simp add: push_bit_eq_mult)
  ultimately have "push_bit 8 (word_of_nat (2 * j)) = crc_bit (push_bit 8 (word_of_nat j))" by (simp add: crc_bit_shift)
  then show ?thesis by (simp only: funpow_swap1)
qed

lemma entry_odd: "j < 128 \<Longrightarrow> (crc_bit ^^ 8) (push_bit 8 (word_of_nat (Suc (2 * j)))) = crc_bit ((crc_bit ^^ 8) (push_bit 8 (word_of_nat j))) XOR 0x1021"
proof -
  assume j: "j < 128"
  have "word_of_nat (Suc (2 * j)) = word_of_nat (2 * j) XOR (1 :: u16)"
    by (rule bit_word_eqI) (auto simp: bit_simps bit_1_iff even_bit_succ_iff)
  then have "push_bit 8 (word_of_nat (Suc (2 * j)) :: u16) = push_bit 8 (word_of_nat (2 * j)) XOR push_bit 8 1" by (simp only: push_bit_xor)
  then show ?thesis using entry_even [OF j] crc_bits_one by (simp only: crc_bits_xor)
qed

lemma length_table: "length ((doubled ^^ k) [0]) = 2 ^ k"
  by (induction k) (simp_all add: length_doubled)

lemma table_entry: "k \<le> 8 \<Longrightarrow> i < 2 ^ k \<Longrightarrow> (doubled ^^ k) [0] ! i = (crc_bit ^^ 8) (push_bit 8 (word_of_nat i))"
proof (induction k arbitrary: i)
  case 0
  then show ?case by (simp add: crc_bits_low)
next
  case (Suc k)
  define j where "j = i div 2"
  have "(2 :: nat) ^ k \<le> 2 ^ 7" using Suc.prems(1) by (intro power_increasing) auto
  then have j: "j < 2 ^ k" "j < 128" "i = 2 * j \<or> i = Suc (2 * j)" using Suc.prems(2) unfolding j_def by auto
  note IH = Suc.IH [OF _ j(1)]
  from j(3) show ?case
  proof
    assume "i = 2 * j"
    then show ?thesis using nth_doubled(1) [of j "(doubled ^^ k) [0]"] IH Suc.prems(1) j entry_even [OF j(2)] by (simp add: length_table)
  next
    assume "i = Suc (2 * j)"
    then show ?thesis using nth_doubled(2) [of j "(doubled ^^ k) [0]"] IH Suc.prems(1) j entry_odd [OF j(2)] by (simp add: length_table)
  qed
qed

text \<open>A step with the table divides by the polynomial.\<close>

lemma crc16_step_byte: "crc16_step b c = crc_byte b c"
proof -
  define h where "h = take_bit 8 (drop_bit 8 c XOR scast b)"
  have "unat h < 2 ^ 8" unfolding h_def unsigned_take_bit_eq by (rule take_bit_nat_less_exp)
  then have t: "crc16tab ! unat h = (crc_bit ^^ 8) (push_bit 8 h)" using table_entry [of 8 "unat h"] by (simp add: crc16tab_doubled)
  have "c XOR push_bit 8 (ucast b) = push_bit 8 h XOR take_bit 8 c"
    unfolding h_def by (rule bit_word_eqI) (auto simp: bit_simps)
  moreover have "(crc_bit ^^ 8) (take_bit 8 c) = push_bit 8 c"
  proof -
    have "(crc_bit ^^ 8) (take_bit 8 c) = push_bit 8 (take_bit 8 c)" by (rule crc_bits_low) (auto simp: bit_simps)
    also have "\<dots> = push_bit 8 c" by (rule bit_word_eqI) (auto simp: bit_simps)
    finally show ?thesis .
  qed
  ultimately have "crc_byte b c = (crc_bit ^^ 8) (push_bit 8 h) XOR push_bit 8 c" by (simp add: crc_byte_def crc_bits_xor)
  then show ?thesis unfolding crc16_step_def h_def [symmetric] t by (simp only: xor.commute)
qed

lemma crc_bit_inj: "crc_bit x = crc_bit y \<Longrightarrow> x = y"
proof (rule bit_word_eqI)
  fix n assume e: "crc_bit x = crc_bit y" and n: "n < LENGTH(16)"
  have top: "bit (crc_bit c) 0 = bit c 15" for c by (simp add: crc_bit_def bit_push_bit_iff bit_xor_iff del: push_bit_Suc push_bit_of_1 push_bit_minus_one)
  have "bit (push_bit 1 c) (Suc n) = bit c n" if "n < 15" for c :: u16 using that by (subst bit_push_bit_iff) simp
  then have low: "bit (crc_bit c) (Suc n) = (bit c n \<noteq> (bit c 15 \<and> bit (0x1021 :: u16) (Suc n)))" if "n < 15" for c
    using that by (cases "bit c 15") (simp_all only: crc_bit_def if_True if_False bit_xor_iff simp_thms)
  show "bit x n = bit y n"
  proof (cases "n = 15")
    case True
    then show ?thesis using top e by metis
  next
    case False
    then show ?thesis using low [of x] low [of y] top [of x] top [of y] e n by auto
  qed
qed

lemma crc_bits_inj: "(crc_bit ^^ n) x = (crc_bit ^^ n) y \<Longrightarrow> x = y"
  by (induction n) (auto dest: crc_bit_inj)

lemma crc16_append: "crc16 (xs @ ys) = fold crc16_step ys (crc16 xs)"
  by (simp add: crc16_def)

lemma fold_inj: "fold crc16_step ys c = fold crc16_step ys d \<Longrightarrow> c = d"
proof (induction ys arbitrary: c d)
  case (Cons y ys)
  then have "crc_byte y c = crc_byte y d" by (simp add: crc16_step_byte)
  then have "c XOR push_bit 8 (ucast y) = d XOR push_bit 8 (ucast y)" unfolding crc_byte_def by (rule crc_bits_inj)
  then have "(c XOR push_bit 8 (ucast y)) XOR push_bit 8 (ucast y) = (d XOR push_bit 8 (ucast y)) XOR push_bit 8 (ucast y)" by (rule arg_cong)
  then show ?case by (simp add: xor.assoc)
qed simp

text \<open>Two bytes at once.\<close>

lemma crc_two: "crc16_step b' (crc16_step b c) = (crc_bit ^^ 16) (c XOR push_bit 8 (ucast b) XOR ucast b')"
proof -
  have "(crc_bit ^^ 8) (ucast b' :: u16) = push_bit 8 (ucast b')" by (rule crc_bits_low) (auto simp: bit_simps dest: bit_imp_le_length)
  then have "crc16_step b' (crc16_step b c) = (crc_bit ^^ 8) ((crc_bit ^^ 8) (c XOR push_bit 8 (ucast b) XOR ucast b'))"
    by (simp add: crc16_step_byte crc_byte_def crc_bits_xor xor.assoc)
  moreover have "crc_bit ^^ 16 = (crc_bit ^^ 8) \<circ> (crc_bit ^^ 8)" by (simp flip: funpow_add)
  ultimately show ?thesis by simp
qed

lemma two_bytes_inj: "push_bit 8 (ucast b) XOR (ucast b' :: u16) = push_bit 8 (ucast d) XOR ucast d' \<Longrightarrow> b = d \<and> b' = (d' :: u8)" for b d :: u8
proof -
  assume e: "push_bit 8 (ucast b) XOR (ucast b' :: u16) = push_bit 8 (ucast d) XOR ucast d'"
  have hi: "bit (push_bit 8 (ucast x) XOR (ucast y :: u16)) (n + 8) = bit x n" if "n < 8" for x y :: u8 and n
    using that by (auto simp: bit_simps dest: bit_imp_le_length)
  have lo: "bit (push_bit 8 (ucast x) XOR (ucast y :: u16)) n = bit y n" if "n < 8" for x y :: u8 and n
    using that by (auto simp: bit_simps)
  show ?thesis
  proof
    show "b = d" using hi [of _ b b'] hi [of _ d d'] e by (intro bit_word_eqI) simp
    show "b' = d'" using lo [of _ b b'] lo [of _ d d'] e by (intro bit_word_eqI) simp
  qed
qed

section \<open>Properties\<close>

text \<open>
  C29: \<^verbatim>\<open>crc16\<close>, which looks its steps up in a table of 256 numbers, computes the remainder of the division by \<open>x\<^sup>1\<^sup>6 + x\<^sup>1\<^sup>2 + x\<^sup>5 + 1\<close> bit by bit, and gives
  \<^verbatim>\<open>0x31C3\<close> for the text of its comment. Two inputs of one length that differ only inside two adjacent bytes have different values.
\<close>

theorem crc16_reference:
  "crc16 data = fold crc_byte data 0 \<and> crc16 (map of_char ''123456789'') = 0x31C3 \<and>
   (crc16 (xs @ [b, b'] @ ys) = crc16 (xs @ [d, d'] @ ys) \<longleftrightarrow> b = d \<and> b' = d')"
proof -
  have "fold crc16_step data c = fold crc_byte data c" for c
    by (rule fold_cong) (auto simp: crc16_step_byte fun_eq_iff)
  moreover have "crc16 (map of_char ''123456789'') = 0x31C3"
    by (simp add: crc16_def crc16_step_def crc16tab_def)
  moreover have "b = d \<and> b' = d'" if "crc16 (xs @ [b, b'] @ ys) = crc16 (xs @ [d, d'] @ ys)"
  proof -
    have "crc16_step b' (crc16_step b (crc16 xs)) = crc16_step d' (crc16_step d (crc16 xs))"
      using that fold_inj by (simp add: crc16_append)
    then have "crc16 xs XOR push_bit 8 (ucast b) XOR ucast b' = crc16 xs XOR push_bit 8 (ucast d) XOR ucast d'"
      unfolding crc_two by (rule crc_bits_inj)
    then have "crc16 xs XOR (crc16 xs XOR (push_bit 8 (ucast b) XOR ucast b')) = crc16 xs XOR (crc16 xs XOR (push_bit 8 (ucast d) XOR ucast d'))"
      by (simp only: xor.assoc)
    then have "push_bit 8 (ucast b) XOR (ucast b' :: u16) = push_bit 8 (ucast d) XOR ucast d'" by (simp only: xor.assoc [symmetric] xor_self_eq xor.left_neutral)
    then show ?thesis by (rule two_bytes_inj)
  qed
  ultimately show ?thesis unfolding crc16_def [of data] by auto
qed

text \<open>The conversions between host and network order are their own inverse, and reverse the bytes in memory.\<close>

lemma le_bytes_word: "length bs = n \<Longrightarrow> LENGTH('a) = 8 * n \<Longrightarrow> le_bytes n (unat (word_of_nat (le_val bs) :: 'a::len word)) = bs"
  using le_bytes_val [of bs] le_val_less [of bs] by (simp add: unat_of_nat power_mult)

lemma word_le_bytes: "LENGTH('a) = 8 * n \<Longrightarrow> word_of_nat (le_val (le_bytes n (unat x))) = (x :: 'a::len word)"
  using unsigned_less [where 'a = nat, of x] by (simp add: le_val_bytes power_mult)

lemma intrev_bytes: "le_bytes 2 (unat (intrev16 u)) = rev (le_bytes 2 (unat u))" "le_bytes 4 (unat (intrev32 v)) = rev (le_bytes 4 (unat v))"
  "le_bytes 8 (unat (intrev64 w)) = rev (le_bytes 8 (unat w))"
  unfolding intrev16_def intrev32_def intrev64_def by (subst memrev_rev, simp, rule le_bytes_word, simp, simp)+

lemma intrev_self_inverse: "intrev16 (intrev16 u) = u" "intrev32 (intrev32 v) = v" "intrev64 (intrev64 w) = w"
  by (subst intrev16_def intrev32_def intrev64_def, subst intrev_bytes, subst memrev_rev, simp, subst rev_rev_ident, rule word_le_bytes, simp)+

text \<open>\<^verbatim>\<open>random\<close> stays within its bounds as long as the number of values is an \<^verbatim>\<open>int\<close>, and then reaches every value.\<close>

lemma random_bounds:
  assumes "0 \<le> r" and "\<bar>mx - mn\<bar> < 2 ^ 31 - 1"
  shows "\<exists>v seed'. random seed now r mn mx = Some (v, seed') \<and> min mn mx \<le> v \<and> v \<le> max mn mx"
proof -
  have m: "0 \<le> r mod (b - a + 1) \<and> r mod (b - a + 1) \<le> b - a" if "a < b" for a b :: int
    using that pos_mod_bound [of "b - a + 1" r] pos_mod_sign [of "b - a + 1" r] by linarith
  show ?thesis using assms m [of mn mx] m [of mx mn] by (auto simp: random_def random0_def Let_def)
qed

lemma probability_hit_bounds:
  assumes "0 \<le> r" "r < 2 ^ 31" and "0 < prob_max" "prob_max < 2 ^ 31" and "0 \<le> prob" "prob \<le> prob_max"
  shows "\<exists>b seed'. probability_hit seed now r prob prob_max = Some (b, seed') \<and> (prob = 0 \<longrightarrow> \<not> b) \<and> (prob = prob_max \<longrightarrow> b)"
proof -
  obtain v seed' where "random seed now r 1 prob_max = Some (v, seed')" "1 \<le> v" "v \<le> prob_max"
    using random_bounds [of r prob_max 1 seed now] assms by auto
  then show ?thesis using assms by (simp add: probability_hit_def)
qed

end
