(* ===== verification/Bus_Message.thy ===== *)
theory Bus_Message
  imports Math_Helper Channel
begin

text \<open>
  The message between two bus daemons, \<^verbatim>\<open>struct bus_message\<close> of \<^verbatim>\<open>src/bus/bus_router.cpp\<close>: a header of 32 bytes and the data behind it. \<open>bm_data\<close> is the rest of the
  memory block of the message; \<open>bm_length\<close> bytes of it belong to the message. A block that is too short makes an access undefined (\<open>None\<close>).
\<close>

record bus_message =
  bm_magic :: u32
  bm_seq :: u32
  bm_hash :: u32
  bm_src :: u32
  bm_dst :: u32
  bm_length :: u32
  bm_ctime :: u64
  bm_data :: "u8 list"

definition sizeof_bus_message :: nat where "sizeof_bus_message = 32"

definition bm_init :: "u32 \<Rightarrow> nat \<Rightarrow> u8 list \<Rightarrow> bus_message" where
  "bm_init magic capacity block = \<lparr>bm_magic = magic, bm_seq = 0, bm_hash = 0, bm_src = 0, bm_dst = 0, bm_length = word_of_nat capacity, bm_ctime = 0, bm_data = block\<rparr>"

definition bm_reset :: "nat \<Rightarrow> bus_message \<Rightarrow> bus_message" where
  "bm_reset capacity m = m\<lparr>bm_length := word_of_nat capacity\<rparr>"

definition total_length :: "bus_message \<Rightarrow> nat" where
  "total_length m = sizeof_bus_message + unat (bm_length m)"

text \<open>The bytes of the message that \<^verbatim>\<open>length\<close> says are there.\<close>

definition payload :: "bus_message \<Rightarrow> u8 list option" where
  "payload m = do { sk_assert (unat (bm_length m) \<le> length (bm_data m)); Some (take (unat (bm_length m)) (bm_data m)) }"

text \<open>A null pointer when \<^verbatim>\<open>malloc\<close> fails.\<close>

definition dup :: "(nat \<Rightarrow> bool) \<Rightarrow> bus_message \<Rightarrow> bus_message option option" where
  "dup can_malloc m = (if can_malloc (total_length m) then do { d \<leftarrow> payload m; Some (Some (m\<lparr>bm_data := d\<rparr>)) } else Some None)"

definition calc_hash :: "bus_message \<Rightarrow> bus_message option" where
  "calc_hash m = do { d \<leftarrow> payload m; h \<leftarrow> murmurhash3_x86_32 d MURMURHASH_SEED; Some (m\<lparr>bm_hash := h\<rparr>) }"

definition verify_hash :: "bus_message \<Rightarrow> bool option" where
  "verify_hash m = do { d \<leftarrow> payload m; h \<leftarrow> murmurhash3_x86_32 d MURMURHASH_SEED; Some (h = bm_hash m) }"

definition ntoh :: "bus_message \<Rightarrow> bus_message" where
  "ntoh m = m\<lparr>bm_magic := intrev32 (bm_magic m), bm_seq := intrev32 (bm_seq m), bm_hash := intrev32 (bm_hash m), bm_src := intrev32 (bm_src m),
     bm_dst := intrev32 (bm_dst m), bm_length := intrev32 (bm_length m), bm_ctime := intrev64 (bm_ctime m)\<rparr>"

definition hton :: "bus_message \<Rightarrow> bus_message" where
  "hton m = m\<lparr>bm_magic := intrev32 (bm_magic m), bm_seq := intrev32 (bm_seq m), bm_hash := intrev32 (bm_hash m), bm_src := intrev32 (bm_src m),
     bm_dst := intrev32 (bm_dst m), bm_length := intrev32 (bm_length m), bm_ctime := intrev64 (bm_ctime m)\<rparr>"

text \<open>The header in memory.\<close>

definition encode_head :: "bus_message \<Rightarrow> u8 list" where
  "encode_head m = le_bytes 4 (unat (bm_magic m)) @ le_bytes 4 (unat (bm_seq m)) @ le_bytes 4 (unat (bm_hash m)) @ le_bytes 4 (unat (bm_src m)) @
     le_bytes 4 (unat (bm_dst m)) @ le_bytes 4 (unat (bm_length m)) @ le_bytes 8 (unat (bm_ctime m))"

definition decode_bus_message :: "u8 list \<Rightarrow> bus_message" where
  "decode_bus_message bs = \<lparr>bm_magic = word_of_nat (le_val (take 4 bs)), bm_seq = word_of_nat (le_val (take 4 (drop 4 bs))),
     bm_hash = word_of_nat (le_val (take 4 (drop 8 bs))), bm_src = word_of_nat (le_val (take 4 (drop 12 bs))),
     bm_dst = word_of_nat (le_val (take 4 (drop 16 bs))), bm_length = word_of_nat (le_val (take 4 (drop 20 bs))),
     bm_ctime = word_of_nat (le_val (take 8 (drop 24 bs))), bm_data = drop 32 bs\<rparr>"

section \<open>Lemmas\<close>

lemma length_encode_head [simp]: "length (encode_head m) = 32"
  by (simp add: encode_head_def)

lemma decode_encode_head: "decode_bus_message (encode_head m @ bm_data m) = m"
proof -
  have "word_of_nat (le_val (le_bytes 4 (unat x))) = x" for x :: u32 by (rule word_le_bytes) simp
  moreover have "word_of_nat (le_val (le_bytes 8 (unat x))) = x" for x :: u64 by (rule word_le_bytes) simp
  ultimately show ?thesis by (cases m) (simp add: encode_head_def decode_bus_message_def)
qed

lemma ntoh_hton [simp]: "ntoh (hton m) = m" and hton_ntoh [simp]: "hton (ntoh m) = m"
  by (simp_all add: ntoh_def hton_def intrev_self_inverse)

lemma hton_data [simp]: "bm_data (hton m) = bm_data m" "bm_data (ntoh m) = bm_data m"
  by (simp_all add: hton_def ntoh_def)

section \<open>Frames\<close>

text \<open>A message in the stream between two daemons: sender, receiver, time and data with its number.\<close>

definition numbered :: "u32 \<Rightarrow> u32 \<Rightarrow> message \<Rightarrow> bus_message" where
  "numbered magic s x = (case x of (src, dst, t, data) \<Rightarrow>
     \<lparr>bm_magic = magic, bm_seq = s, bm_hash = the (murmurhash3_x86_32 data MURMURHASH_SEED), bm_src = src, bm_dst = dst,
      bm_length = word_of_nat (length data), bm_ctime = t, bm_data = data\<rparr>)"

definition frame :: "u32 \<Rightarrow> u32 \<Rightarrow> message \<Rightarrow> u8 list" where
  "frame magic s x = encode_head (hton (numbered magic s x)) @ data_of x"

fun frames :: "u32 \<Rightarrow> u32 \<Rightarrow> message list \<Rightarrow> u8 list" where
  "frames magic s [] = []"
| "frames magic s (x # xs) = frame magic s x @ frames magic (s + 1) xs"

definition sendable :: "message \<Rightarrow> bool" where
  "sendable x \<longleftrightarrow> length (data_of x) < 2 ^ 31"

lemma length_frame [simp]: "length (frame magic s x) = 32 + length (data_of x)"
  by (simp add: frame_def)

lemma frame_nonempty [simp]: "frame magic s x \<noteq> []"
  using length_frame [of magic s x] by (cases "frame magic s x = []") simp_all

lemma frames_append: "frames magic s (xs @ ys) = frames magic s xs @ frames magic (s + word_of_nat (length xs)) ys"
  by (induction xs arbitrary: s) (simp_all add: add.assoc)

lemma numbered_simps [simp]:
  "bm_magic (numbered magic s x) = magic" "bm_seq (numbered magic s x) = s" "bm_data (numbered magic s x) = data_of x"
  "bm_src (numbered magic s x) = fst x" "bm_dst (numbered magic s x) = fst (snd x)" "bm_ctime (numbered magic s x) = fst (snd (snd x))"
  "bm_length (numbered magic s x) = word_of_nat (length (data_of x))"
  by (cases x; simp add: numbered_def)+

lemma numbered_length [simp]: "sendable x \<Longrightarrow> unat (bm_length (numbered magic s x)) = length (data_of x)"
  by (simp add: sendable_def unat_of_nat)

lemma numbered_payload [simp]: "sendable x \<Longrightarrow> payload (numbered magic s x) = Some (data_of x)"
  by (simp add: payload_def del: numbered_simps(7))

lemma numbered_verify: "sendable x \<Longrightarrow> verify_hash (numbered magic s x) = Some True"
  using x86_32_eq [of "data_of x" MURMURHASH_SEED] by (cases x) (simp add: verify_hash_def sendable_def, simp add: numbered_def)

text \<open>A message that begins in the buffer, in network order.\<close>

lemma decode_frame: "decode_bus_message (frame magic s x @ r) = (hton (numbered magic s x))\<lparr>bm_data := data_of x @ r\<rparr>"
proof -
  have "encode_head (m\<lparr>bm_data := d\<rparr>) = encode_head m" for m d by (simp add: encode_head_def)
  then show ?thesis using decode_encode_head [of "(hton (numbered magic s x))\<lparr>bm_data := data_of x @ r\<rparr>"] by (simp add: frame_def)
qed

end
