(* ===== verification/Buffer.thy ===== *)
theory Buffer
  imports Prelude
begin

text \<open>
  \<^verbatim>\<open>src/src/core/buffer.h\<close> and \<^verbatim>\<open>buffer.cpp\<close>: the byte buffer of the network layer. The memory block is the list \<open>mem\<close> of
  its bytes, so \<^verbatim>\<open>capacity_\<close> is its length. Between \<^verbatim>\<open>prepare\<close> and \<^verbatim>\<open>commit\<close> the caller writes into the writing area
  (\<open>fill\<close>). \<open>junk n\<close> stands for the block of indeterminate bytes that \<^verbatim>\<open>malloc\<close> returns for the size \<open>n\<close>, or for the null pointer
  (\<open>None\<close>), which the assertion behind every call refuses. Index arithmetic is
  modulo \<open>2 ^ 64\<close>.
\<close>

record buffer =
  mem :: "u8 list"
  rindex :: nat
  windex :: nat

definition DEFAULT_BUFFER_SIZE :: nat where "DEFAULT_BUFFER_SIZE = 512"

type_synonym block_source = "nat \<Rightarrow> u8 list option"

definition buffer_new :: "block_source \<Rightarrow> nat \<Rightarrow> buffer option" where
  "buffer_new junk buffer_size = do { addr \<leftarrow> junk buffer_size; Some \<lparr>mem = addr, rindex = 0, windex = 0\<rparr> }"

definition buffer_of :: "block_source \<Rightarrow> u8 list \<Rightarrow> buffer option" where
  "buffer_of junk data = do {
     addr \<leftarrow> junk (length data);
     sk_assert (length data \<le> length addr);
     Some \<lparr>mem = data @ drop (length data) addr, rindex = 0, windex = length data\<rparr>
   }"

definition buffer_size :: "buffer \<Rightarrow> nat option" where
  "buffer_size b = do { sk_assert (windex b \<ge> rindex b); Some (windex b - rindex b) }"

definition buffer_empty :: "buffer \<Rightarrow> bool option" where
  "buffer_empty b = do { sk_assert (windex b \<ge> rindex b); Some (windex b = rindex b) }"

definition commit :: "buffer \<Rightarrow> nat \<Rightarrow> buffer option" where
  "commit b n = do {
     sk_assert (length (mem b) \<ge> windex b);
     sk_assert ((windex b + n) mod 2 ^ 64 \<le> length (mem b));
     Some (b\<lparr>windex := (windex b + n) mod 2 ^ 64\<rparr>)
   }"

definition consume :: "buffer \<Rightarrow> nat \<Rightarrow> buffer option" where
  "consume b n = do {
     sz \<leftarrow> buffer_size b;
     sk_assert (n \<le> sz);
     let b = b\<lparr>rindex := rindex b + n\<rparr>;
     Some (if n \<ge> sz then b\<lparr>rindex := 0, windex := 0\<rparr> else b)
   }"

definition ensure_space :: "block_source \<Rightarrow> buffer \<Rightarrow> nat \<Rightarrow> buffer option" where
  "ensure_space junk b n = do {
     sk_assert (length (mem b) \<ge> windex b);
     let available = length (mem b) - windex b;
     if available \<ge> n then Some b
     else if rindex b + available \<ge> n then do {
       sk_assert (rindex b > 0);
       sz \<leftarrow> buffer_size b;
       let m = (if sz > 0 then take sz (drop (rindex b) (mem b)) @ drop sz (mem b) else mem b);
       Some (b\<lparr>mem := m, rindex := 0, windex := sz\<rparr>)
     }
     else do {
       sz \<leftarrow> buffer_size b;
       let cap = (windex b + n) mod 2 ^ 64;
       addr \<leftarrow> junk cap;
       sk_assert (sz \<le> length addr);
       let addr = (if sz > 0 then take sz (drop (rindex b) (mem b)) @ drop sz addr else addr);
       Some \<lparr>mem = addr, rindex = 0, windex = sz\<rparr>
     }
   }"

text \<open>\<^verbatim>\<open>prepare\<close> returns the offset of the writing area.\<close>

definition prepare :: "block_source \<Rightarrow> buffer \<Rightarrow> nat \<Rightarrow> (nat \<times> buffer) option" where
  "prepare junk b n = do { b \<leftarrow> ensure_space junk b n; Some (windex b, b) }"

text \<open>\<^verbatim>\<open>peek\<close> returns the reading area; the client reads \<^verbatim>\<open>size()\<close> bytes of it.\<close>

definition peek :: "buffer \<Rightarrow> u8 list" where
  "peek b = take (windex b - rindex b) (drop (rindex b) (mem b))"

text \<open>The client writes \<open>data\<close> at the start of the writing area; outside the block this is undefined.\<close>

definition fill :: "buffer \<Rightarrow> u8 list \<Rightarrow> buffer option" where
  "fill b data = do {
     sk_assert (windex b + length data \<le> length (mem b));
     Some (b\<lparr>mem := take (windex b) (mem b) @ data @ drop (windex b + length data) (mem b)\<rparr>)
   }"

definition append_data :: "block_source \<Rightarrow> buffer \<Rightarrow> nat \<Rightarrow> u8 list \<Rightarrow> buffer option" where
  "append_data junk b n data = do { (w, b) \<leftarrow> prepare junk b n; b \<leftarrow> fill b data; commit b (length data) }"

section \<open>The buffer is a queue of bytes\<close>

definition buffer_ok :: "buffer \<Rightarrow> bool" where
  "buffer_ok b \<longleftrightarrow> rindex b \<le> windex b \<and> windex b \<le> length (mem b) \<and> length (mem b) < 2 ^ 63"

text \<open>A \<^verbatim>\<open>malloc\<close> that never runs out of memory.\<close>

definition real_malloc :: "block_source \<Rightarrow> bool" where
  "real_malloc junk \<longleftrightarrow> (\<forall>n. \<exists>addr. junk n = Some addr \<and> length addr = n)"

lemma length_peek: "buffer_ok b \<Longrightarrow> length (peek b) = windex b - rindex b"
  by (auto simp: buffer_ok_def peek_def min_def)

lemma ensure_space_ok:
  assumes ok: "buffer_ok b" and m: "real_malloc junk" and n: "n < 2 ^ 62" and s: "length (mem b) < 2 ^ 62"
  shows "\<exists>b'. ensure_space junk b n = Some b' \<and> buffer_ok b' \<and> peek b' = peek b \<and> windex b' + n \<le> length (mem b') \<and>
    length (mem b') \<le> max (length (mem b)) (length (peek b) + 2 * n)"
proof -
  define sz where "sz = windex b - rindex b"
  have r: "rindex b \<le> windex b" "windex b \<le> length (mem b)" using ok by (auto simp: buffer_ok_def)
  have size: "buffer_size b = Some sz" using r by (simp add: buffer_size_def sz_def)
  consider "n \<le> length (mem b) - windex b" | "\<not> n \<le> length (mem b) - windex b" "n \<le> rindex b + (length (mem b) - windex b)"
    | "\<not> n \<le> length (mem b) - windex b" "\<not> n \<le> rindex b + (length (mem b) - windex b)" by blast
  then show ?thesis
  proof cases
    case 1 then show ?thesis using ok r by (auto simp: ensure_space_def)
  next
    case 2
    let ?m = "if sz > 0 then take sz (drop (rindex b) (mem b)) @ drop sz (mem b) else mem b"
    have l: "length ?m = length (mem b)" "sz \<le> length (mem b)" using r by (auto simp: sz_def)
    have "ensure_space junk b n = Some (b\<lparr>mem := ?m, rindex := 0, windex := sz\<rparr>)"
      using 2 r size by (simp add: ensure_space_def Let_def)
    moreover have "take sz ?m = peek b" using r by (auto simp: peek_def sz_def)
    ultimately show ?thesis using 2 ok l r by (auto simp: buffer_ok_def peek_def sz_def)
  next
    case 3
    have w: "windex b + n < 2 ^ 63" using r s n by simp
    then have c: "(windex b + n) mod 2 ^ 64 = windex b + n" by simp
    obtain addr where j: "junk (windex b + n) = Some addr" "length addr = windex b + n" using m by (auto simp: real_malloc_def)
    let ?a = addr
    let ?m = "if sz > 0 then take sz (drop (rindex b) (mem b)) @ drop sz ?a else ?a"
    have l: "length ?m = windex b + n" "sz \<le> windex b + n" using r j by (auto simp: sz_def)
    have "ensure_space junk b n = Some \<lparr>mem = ?m, rindex = 0, windex = sz\<rparr>"
      using 3 r size l(2) c j by (simp add: ensure_space_def Let_def)
    moreover have "take sz ?m = peek b" using r by (auto simp: peek_def sz_def)
    moreover have "length ?m \<le> length (peek b) + 2 * n" using l(1) 3(2) length_peek [OF ok] r by linarith
    ultimately show ?thesis using l w by (auto simp: buffer_ok_def peek_def sz_def)
  qed
qed

lemma append_data_ok:
  assumes "buffer_ok b" and "real_malloc junk" and "n < 2 ^ 62" and "length (mem b) < 2 ^ 62" and "length data \<le> n"
  shows "\<exists>b'. append_data junk b n data = Some b' \<and> buffer_ok b' \<and> peek b' = peek b @ data \<and>
    length (mem b') \<le> max (length (mem b)) (length (peek b) + 2 * n)"
proof -
  obtain b1 where b1: "ensure_space junk b n = Some b1" "buffer_ok b1" "peek b1 = peek b" "windex b1 + n \<le> length (mem b1)"
      "length (mem b1) \<le> max (length (mem b)) (length (peek b) + 2 * n)"
    using ensure_space_ok [OF assms(1-4)] by blast
  have k: "rindex b1 \<le> windex b1" "length (mem b1) < 2 ^ 63" using b1(2) by (auto simp: buffer_ok_def)
  let ?m = "take (windex b1) (mem b1) @ data @ drop (windex b1 + length data) (mem b1)"
  have len: "length ?m = length (mem b1)" and fit: "windex b1 + length data \<le> length (mem b1)" using b1(4) assms(5) by auto
  then have c: "(windex b1 + length data) mod 2 ^ 64 = windex b1 + length data" using k(2) by simp
  have "append_data junk b n data = Some (b1\<lparr>mem := ?m, windex := windex b1 + length data\<rparr>)"
    using b1(1) fit c len by (simp add: append_data_def prepare_def fill_def commit_def)
  moreover have "buffer_ok (b1\<lparr>mem := ?m, windex := windex b1 + length data\<rparr>)"
    using k fit len by (simp add: buffer_ok_def)
  moreover have "peek (b1\<lparr>mem := ?m, windex := windex b1 + length data\<rparr>) = peek b1 @ data"
    using k(1) fit by (simp add: peek_def drop_take add.commute)
  ultimately show ?thesis using b1(3,5) len by auto
qed

text \<open>
  C32: Writing. Preparing space for \<open>n\<close> bytes, writing at most \<open>n\<close> bytes into it and committing them appends exactly these bytes to the reading area, whether
  the space was there, the data had to be moved to the front, or a larger block was needed. The blocks are assumed to be smaller than 4 EiB,
  and \<^verbatim>\<open>malloc\<close> to give the block that it is asked for: without it the assertion ends the process.
\<close>

theorem append_data_refines:
  assumes "buffer_ok b" and "real_malloc junk" and "n < 2 ^ 62" and "length (mem b) < 2 ^ 62" and "length data \<le> n"
  shows "\<exists>b'. append_data junk b n data = Some b' \<and> buffer_ok b' \<and> peek b' = peek b @ data"
  using append_data_ok [OF assms] by blast

theorem append_data_refines_witness:
  "\<exists>b'. append_data (\<lambda>n. Some (replicate n 0)) \<lparr>mem = [1, 2, 3], rindex = 1, windex = 3\<rparr> 2 [8, 9] = Some b' \<and> peek b' = [2, 3, 8, 9]"
proof -
  have "buffer_ok \<lparr>mem = [1, 2, 3], rindex = 1, windex = 3\<rparr>" "real_malloc (\<lambda>n. Some (replicate n 0))"
      "peek \<lparr>mem = [1, 2, 3], rindex = 1, windex = 3\<rparr> = [2, 3]"
    by (simp_all add: buffer_ok_def real_malloc_def peek_def)
  with append_data_refines [OF this(1,2), of 2 "[8, 9]"] show ?thesis by auto
qed

lemma ensure_space_no_memory:
  assumes "buffer_ok b" "rindex b + (length (mem b) - windex b) < n" "junk ((windex b + n) mod 2 ^ 64) = None"
  shows "ensure_space junk b n = None"
proof -
  have "windex b \<le> length (mem b)" "rindex b \<le> windex b" "\<not> n \<le> length (mem b) - windex b" "\<not> n \<le> rindex b + (length (mem b) - windex b)" using assms(1,2) by (auto simp: buffer_ok_def)
  then show ?thesis using assms(3) by (simp add: ensure_space_def buffer_size_def Let_def)
qed

text \<open>
  Reading. \<^verbatim>\<open>consume\<close> removes the first \<open>n\<close> bytes of the reading area and nothing else, and resets the indices when all is read; asking for
  more bytes than there are ends in the assertion.
\<close>

theorem consume_refines:
  assumes "buffer_ok b"
  shows "if n \<le> length (peek b) then \<exists>b'. consume b n = Some b' \<and> buffer_ok b' \<and> peek b' = drop n (peek b) \<and>
      (n = length (peek b) \<longrightarrow> rindex b' = 0 \<and> windex b' = 0) else consume b n = None"
proof -
  have r: "rindex b \<le> windex b" "windex b \<le> length (mem b)" using assms by (auto simp: buffer_ok_def)
  show ?thesis
    using r assms length_peek [OF assms]
    by (auto simp: consume_def buffer_size_def buffer_ok_def peek_def Let_def drop_take add.commute)
qed

theorem consume_refines_witness:
  "\<exists>b'. consume \<lparr>mem = [1, 2, 3], rindex = 0, windex = 3\<rparr> 2 = Some b' \<and> peek b' = [3]"
  using consume_refines [of "\<lparr>mem = [1, 2, 3], rindex = 0, windex = 3\<rparr>" 2] by (simp add: buffer_ok_def peek_def) auto

end
