(* ===== verification/Tcp_Connection.thy ===== *)
theory Tcp_Connection
  imports Buffer
begin

text \<open>
  \<^verbatim>\<open>src/src/core/tcp_connection.h\<close>, \<^verbatim>\<open>tcp_connection.cpp\<close>, \<^verbatim>\<open>tcp_client.h\<close>, \<^verbatim>\<open>tcp_client.cpp\<close> and \<^verbatim>\<open>tcp_server.cpp\<close>: a stream of bytes in both directions, the client side that opens one and the server side that accepts them. The
  functions of libuv are parameters: \<open>uv_write c data\<close> is the result of \<^verbatim>\<open>uv_write\<close> for a connection and the bytes handed over, the others are results too. \<open>written\<close>
  collects the bytes that libuv has accepted, in their order. A write request is known by its number among the requests of the connection.
\<close>

section \<open>A connection\<close>

datatype conn_state = state_connected | state_disconnecting | state_disconnected

record tcp_connection =
  tc_state :: conn_state
  tc_host :: string
  incoming :: buffer
  outgoing :: "(nat \<times> buffer) list"
  requests :: nat
  written :: "u8 list"

definition UV_EOF :: int where "UV_EOF = -4095"

definition tcp_connection_new :: "block_source \<Rightarrow> string \<Rightarrow> tcp_connection option" where
  "tcp_connection_new junk host = do {
     b \<leftarrow> buffer_new junk DEFAULT_BUFFER_SIZE;
     Some \<lparr>tc_state = state_connected, tc_host = host, incoming = b, outgoing = [], requests = 0, written = []\<rparr>
   }"

text \<open>The request has a copy of the data in a buffer of its own.\<close>

definition tc_send :: "block_source \<Rightarrow> (tcp_connection \<Rightarrow> u8 list \<Rightarrow> int) \<Rightarrow> tcp_connection \<Rightarrow> u8 list \<Rightarrow> (int \<times> tcp_connection) option" where
  "tc_send junk uv_write c data =
     (if tc_state c \<noteq> state_connected then Some (EINVAL, c)
      else do {
        b \<leftarrow> buffer_of junk data;
        let ret = uv_write c (peek b);
        Some (if ret \<noteq> 0 then (ret, c) else (0, c\<lparr>outgoing := outgoing c @ [(requests c, b)], requests := requests c + 1, written := written c @ peek b\<rparr>))
      })"

text \<open>The result of \<^verbatim>\<open>uv_read_start\<close> is the second argument.\<close>

definition tc_recv :: "tcp_connection \<Rightarrow> int \<Rightarrow> int" where
  "tc_recv c uv = (if tc_state c \<noteq> state_connected then EINVAL else uv)"

definition tc_close :: "tcp_connection \<Rightarrow> tcp_connection" where
  "tc_close c = (if tc_state c = state_disconnecting \<or> tc_state c = state_disconnected then c else c\<lparr>tc_state := state_disconnecting\<rparr>)"

definition tc_on_alloc :: "block_source \<Rightarrow> tcp_connection \<Rightarrow> (nat \<times> nat \<times> tcp_connection) option" where
  "tc_on_alloc junk c = do { (p, b) \<leftarrow> prepare junk (incoming c) 1024; Some (p, 1024, c\<lparr>incoming := b\<rparr>) }"

text \<open>The error that the callback gets, and whether it gets the buffer; no callback for 0.\<close>

definition tc_on_read :: "tcp_connection \<Rightarrow> int \<Rightarrow> ((int \<times> bool) option \<times> tcp_connection) option" where
  "tc_on_read c nbytes =
     (if nbytes = 0 then Some (None, c)
      else if nbytes = UV_EOF then Some (Some (UV_EOF, True), c)
      else if nbytes < 0 then Some (Some (nbytes, False), c)
      else do { b \<leftarrow> commit (incoming c) (nat nbytes); Some (Some (0, True), c\<lparr>incoming := b\<rparr>) })"

definition tc_on_write :: "tcp_connection \<Rightarrow> nat \<Rightarrow> tcp_connection option" where
  "tc_on_write c req = (case outgoing c of [] \<Rightarrow> None | x # xs \<Rightarrow> do { sk_assert (fst x = req); Some (c\<lparr>outgoing := xs\<rparr>) })"

definition tc_on_close :: "tcp_connection \<Rightarrow> tcp_connection" where
  "tc_on_close c = c\<lparr>tc_state := state_disconnected\<rparr>"

text \<open>libuv asks for memory, writes at most as many bytes as it was given, and reports them.\<close>

definition uv_deliver :: "block_source \<Rightarrow> tcp_connection \<Rightarrow> u8 list \<Rightarrow> ((int \<times> bool) option \<times> tcp_connection) option" where
  "uv_deliver junk c data = do {
     (p, n, c) \<leftarrow> tc_on_alloc junk c;
     sk_assert (length data \<le> n);
     b \<leftarrow> fill (incoming c) data;
     tc_on_read (c\<lparr>incoming := b\<rparr>) (int (length data))
   }"

section \<open>The client\<close>

datatype client_state = client_connecting | client_connected | client_disconnected

text \<open>\<open>cl_handle\<close>: the handle is not null; \<open>cl_conn\<close>: the address of the connection object.\<close>

record tcp_client =
  cl_state :: client_state
  cl_handle :: bool
  cl_conn :: "nat option"

definition tcp_client_new :: tcp_client where
  "tcp_client_new = \<lparr>cl_state = client_disconnected, cl_handle = False, cl_conn = None\<rparr>"

text \<open>\<open>got\<close> tells that \<^verbatim>\<open>malloc\<close> gave the handle, which is written without a test; the results of \<^verbatim>\<open>uv_tcp_init\<close> and \<^verbatim>\<open>uv_tcp_connect\<close> are the last two arguments.\<close>

definition client_connect :: "tcp_client \<Rightarrow> bool \<Rightarrow> int \<Rightarrow> int \<Rightarrow> (int \<times> tcp_client) option" where
  "client_connect cl got uv_init uv_connect =
     (if cl_state cl \<noteq> client_disconnected then Some (0, cl)
      else do {
        sk_assert (\<not> cl_handle cl);
        sk_assert got;
        if uv_init \<noteq> 0 then Some (uv_init, cl)
        else if uv_connect \<noteq> 0 then Some (uv_connect, cl)
        else Some (0, cl\<lparr>cl_handle := True, cl_state := client_connecting\<rparr>)
      })"

text \<open>The connection objects are in the store \<open>conns\<close>, since others refer to them too.\<close>

definition client_stop :: "tcp_client \<Rightarrow> (nat \<Rightarrow> tcp_connection option) \<Rightarrow> (tcp_client \<times> (nat \<Rightarrow> tcp_connection option)) option" where
  "client_stop cl conns = (case cl_state cl of
       client_connecting \<Rightarrow> do { sk_assert (cl_handle cl); Some (cl\<lparr>cl_state := client_disconnected\<rparr>, conns) }
     | client_connected \<Rightarrow> do { a \<leftarrow> cl_conn cl; c \<leftarrow> conns a; Some (cl, conns(a \<mapsto> tc_close c)) }
     | client_disconnected \<Rightarrow> Some (cl, conns))"

definition remove_connection :: "tcp_client \<Rightarrow> nat \<Rightarrow> tcp_client option" where
  "remove_connection cl a = do { sk_assert (cl_conn cl = Some a); Some (cl\<lparr>cl_state := client_disconnected, cl_conn := None\<rparr>) }"

text \<open>With an error the callback of the owner gets no connection; otherwise the new object is at the address \<open>a\<close>.\<close>

definition client_on_connect ::
    "block_source \<Rightarrow> tcp_client \<Rightarrow> (nat \<Rightarrow> tcp_connection option) \<Rightarrow> string \<Rightarrow> int \<Rightarrow> nat \<Rightarrow> (tcp_client \<times> (nat \<Rightarrow> tcp_connection option)) option" where
  "client_on_connect junk cl conns host error a =
     (if error \<noteq> 0 then Some (cl\<lparr>cl_state := client_disconnected, cl_handle := False\<rparr>, conns)
      else do {
        c \<leftarrow> tcp_connection_new junk host;
        Some (cl\<lparr>cl_state := client_connected, cl_handle := False, cl_conn := Some a\<rparr>, conns(a \<mapsto> c))
      })"

section \<open>The server\<close>

text \<open>The addresses of the connections that the server has accepted; the results of the calls of libuv are arguments.\<close>

record tcp_server =
  sv_conns :: "nat set"

definition tcp_server_new :: tcp_server where "tcp_server_new = \<lparr>sv_conns = {}\<rparr>"

definition server_start :: "int \<Rightarrow> int \<Rightarrow> int \<Rightarrow> int \<Rightarrow> int" where
  "server_start uv_init uv_keepalive uv_bind uv_listen =
     (if uv_init \<noteq> 0 then uv_init else if uv_keepalive \<noteq> 0 then uv_keepalive else if uv_bind \<noteq> 0 then uv_bind else if uv_listen \<noteq> 0 then uv_listen else 0)"

definition server_stop :: "tcp_server \<Rightarrow> (nat \<Rightarrow> tcp_connection option) \<Rightarrow> nat \<Rightarrow> tcp_connection option" where
  "server_stop sv conns a = (if a \<in> sv_conns sv then map_option tc_close (conns a) else conns a)"

definition server_remove_connection :: "tcp_server \<Rightarrow> nat \<Rightarrow> tcp_server" where
  "server_remove_connection sv a = (if a \<in> sv_conns sv then sv\<lparr>sv_conns := sv_conns sv - {a}\<rparr> else sv)"

text \<open>Whether the callback gets the new connection, which is then at the address \<open>a\<close>. \<open>got\<close> tells that \<^verbatim>\<open>malloc\<close> gave the handle, which \<^verbatim>\<open>uv_tcp_init\<close> writes.\<close>

definition server_on_accept ::
    "block_source \<Rightarrow> tcp_server \<Rightarrow> (nat \<Rightarrow> tcp_connection option) \<Rightarrow> int \<Rightarrow> bool \<Rightarrow> int \<Rightarrow> int \<Rightarrow> int \<Rightarrow> string \<Rightarrow> nat \<Rightarrow>
      (bool \<times> tcp_server \<times> (nat \<Rightarrow> tcp_connection option)) option" where
  "server_on_accept junk sv conns error got uv_init uv_accept uv_getpeername host a =
     (if error \<noteq> 0 then Some (False, sv, conns)
      else do {
        sk_assert got;
        if uv_init \<noteq> 0 \<or> uv_accept \<noteq> 0 \<or> uv_getpeername \<noteq> 0 then Some (False, sv, conns)
        else do { c \<leftarrow> tcp_connection_new junk host; Some (True, sv\<lparr>sv_conns := insert a (sv_conns sv)\<rparr>, conns(a \<mapsto> c)) }
      })"

section \<open>Properties\<close>

lemma tcp_connection_new_ok:
  assumes "real_malloc junk"
  shows "\<exists>c. tcp_connection_new junk host = Some c \<and> tc_state c = state_connected \<and> tc_host c = host \<and> written c = [] \<and> buffer_ok (incoming c) \<and> peek (incoming c) = [] \<and>
    length (mem (incoming c)) = 512"
proof -
  obtain addr where "junk DEFAULT_BUFFER_SIZE = Some addr" "length addr = DEFAULT_BUFFER_SIZE" using assms by (auto simp: real_malloc_def)
  then show ?thesis by (simp add: tcp_connection_new_def buffer_new_def buffer_ok_def peek_def DEFAULT_BUFFER_SIZE_def)
qed

text \<open>A request that libuv accepts adds its bytes to the stream; requests are answered in their order.\<close>

lemma tc_send_ok:
  assumes "real_malloc junk" "tc_state c = state_connected" "uv_write c data = 0"
  shows "\<exists>c' b. tc_send junk uv_write c data = Some (0, c') \<and> tc_state c' = state_connected \<and> tc_host c' = tc_host c \<and> written c' = written c @ data \<and> incoming c' = incoming c \<and>
    outgoing c' = outgoing c @ [(requests c, b)]"
proof -
  obtain addr where "junk (length data) = Some addr" "length addr = length data" using assms(1) by (auto simp: real_malloc_def)
  then show ?thesis using assms(2,3) by (simp add: tc_send_def buffer_of_def peek_def)
qed

text \<open>Every byte that arrives goes to the end of the incoming bytes.\<close>

lemma uv_deliver_ok:
  assumes "buffer_ok (incoming c)" "real_malloc junk" "length (mem (incoming c)) < 2 ^ 62" "length data \<le> 1024" "data \<noteq> []"
  shows "\<exists>c'. uv_deliver junk c data = Some (Some (0, True), c') \<and> buffer_ok (incoming c') \<and> peek (incoming c') = peek (incoming c) @ data \<and>
    tc_state c' = tc_state c \<and> tc_host c' = tc_host c \<and> length (mem (incoming c')) \<le> max (length (mem (incoming c))) (length (peek (incoming c)) + 2048)"
proof -
  obtain b where b: "append_data junk (incoming c) 1024 data = Some b" "buffer_ok b" "peek b = peek (incoming c) @ data"
      "length (mem b) \<le> max (length (mem (incoming c))) (length (peek (incoming c)) + 2048)"
    using append_data_ok [of "incoming c" junk 1024 data] assms by auto
  have "uv_deliver junk c data = Some (Some (0, True), c\<lparr>incoming := b\<rparr>)"
  proof -
    obtain q b1 b2 where "prepare junk (incoming c) 1024 = Some (q, b1)" "fill b1 data = Some b2" "commit b2 (length data) = Some b"
      using b(1) by (auto simp: append_data_def split: Option.bind_splits)
    then show ?thesis using assms(4,5) by (simp add: uv_deliver_def tc_on_alloc_def tc_on_read_def UV_EOF_def)
  qed
  then show ?thesis using b(2-4) by auto
qed

text \<open>A client that is stopped while it connects keeps its handle, so that the assertion of the next \<^verbatim>\<open>connect\<close> fails.\<close>

lemma stop_then_connect_aborts:
  assumes "cl_state cl = client_connecting" "cl_handle cl"
  shows "\<exists>cl'. client_stop cl conns = Some (cl', conns) \<and> client_connect cl' got i j = None"
  using assms by (simp add: client_stop_def client_connect_def)

end
