(* ===== verification/String_Helper.thy ===== *)
theory String_Helper
  imports Bus
begin

text \<open>
  \<^verbatim>\<open>src/src/utility/string_helper.h\<close> and \<^verbatim>\<open>string_helper.cpp\<close>: splitting, replacing and trimming strings, the test for a prefix, and the conversion between numbers and
  strings. A C string is the list of its characters before the null character; a null pointer is \<open>None\<close>. The functions of the C and C++ libraries are modelled as far as they are used.
\<close>

section \<open>Strings\<close>

text \<open>\<^verbatim>\<open>getline\<close> takes the characters before the delimiter and skips it; it fails at the end of the stream.\<close>

function split_loop :: "char \<Rightarrow> string \<Rightarrow> string list" where
  "split_loop d s = (if s = [] then [] else takeWhile (\<lambda>c. c \<noteq> d) s # split_loop d (tl (dropWhile (\<lambda>c. c \<noteq> d) s)))"
  by auto
termination
proof (relation "measure (length \<circ> snd)")
  fix d :: char and s :: string
  assume "s \<noteq> []"
  then show "((d, tl (dropWhile (\<lambda>c. c \<noteq> d) s)), (d, s)) \<in> measure (length \<circ> snd)"
    using length_dropWhile_le [of "\<lambda>c. c \<noteq> d" s] by (cases s) auto
qed simp

declare split_loop.simps [simp del]

definition split_string :: "string option \<Rightarrow> char \<Rightarrow> string list \<Rightarrow> int \<times> string list" where
  "split_string str delim vec = (case str of None \<Rightarrow> (- EINVAL, vec) | Some s \<Rightarrow> (0, vec @ split_loop delim s))"

text \<open>\<^verbatim>\<open>std::string::find\<close>: the first position from \<open>pos\<close> on at which \<open>src\<close> stands.\<close>

definition find_from :: "string \<Rightarrow> string \<Rightarrow> nat \<Rightarrow> nat option" where
  "find_from str src pos = find (\<lambda>i. take (length src) (drop i str) = src) [pos..<Suc (length str)]"

lemma find_fromD:
  assumes "find_from str src pos = Some i"
  shows "pos \<le> i" "i \<le> length str" "take (length src) (drop i str) = src" "i + length src \<le> length str"
    "\<forall>j. pos \<le> j \<and> j < i \<longrightarrow> take (length src) (drop j str) \<noteq> src"
proof -
  obtain n where n: "n < Suc (length str) - pos" "i = pos + n" "take (length src) (drop i str) = src"
      "\<forall>m < n. take (length src) (drop (pos + m) str) \<noteq> src"
    using assms by (auto simp: find_from_def find_Some_iff simp del: upt_Suc)
  then show i: "pos \<le> i" "i \<le> length str" "take (length src) (drop i str) = src" by auto
  have "length (take (length src) (drop i str)) = length src" using i(3) by simp
  then show "i + length src \<le> length str" using i(2) by (simp add: min_def split: if_splits)
  show "\<forall>j. pos \<le> j \<and> j < i \<longrightarrow> take (length src) (drop j str) \<noteq> src" using n(2,4) by (metis add_less_cancel_left le_iff_add)
qed

function replace_loop :: "string \<Rightarrow> string \<Rightarrow> string \<Rightarrow> nat \<Rightarrow> string" where
  "replace_loop str src dst pos =
     (if src = [] then str
      else case find_from str src pos of
        None \<Rightarrow> str
      | Some i \<Rightarrow> replace_loop (take i str @ dst @ drop (i + length src) str) src dst (i + length dst))"
  by pat_completeness auto
termination
proof (relation "measure (\<lambda>(str, src, dst, pos). length str - pos)")
  fix str src dst :: string and pos i :: nat
  assume a: "src \<noteq> []" "find_from str src pos = Some i"
  note f = find_fromD [OF a(2)]
  have "length (take i str @ dst @ drop (i + length src) str) = length str + length dst - length src" using f(4) by simp
  moreover have "0 < length src" using a(1) by simp
  ultimately show "((take i str @ dst @ drop (i + length src) str, src, dst, i + length dst), (str, src, dst, pos))
      \<in> measure (\<lambda>(str, src, dst, pos). length str - pos)"
    using f(1,4) by (simp del: length_greater_0_conv)
qed simp

declare replace_loop.simps [simp del]

definition replace_string :: "string \<Rightarrow> string \<Rightarrow> string \<Rightarrow> string" where
  "replace_string str src dst = (if src = [] then str else replace_loop str src dst 0)"

definition trim_string :: "string \<Rightarrow> string" where
  "trim_string str = (let str = dropWhile is_space str in rev (dropWhile is_space (rev str)))"

definition is_prefix :: "string \<Rightarrow> string \<Rightarrow> bool" where
  "is_prefix pre target =
     (let (mn, mx) = (if length pre > length target then (target, pre) else (pre, target))
      in takeWhile (\<lambda>(a, b). a = b) (zip mn mx) = zip mn mx)"

section \<open>Numbers\<close>

text \<open>What \<^verbatim>\<open>strtol\<close> and its relatives read in base 10: a sign, a number and the rest of the string.\<close>

definition scan_number :: "string \<Rightarrow> (bool \<times> nat \<times> string) option" where
  "scan_number s =
     (let s = dropWhile is_space s;
          (neg, s) = (case s of [] \<Rightarrow> (False, []) | c # cs \<Rightarrow>
            if c = CHR ''-'' then (True, cs) else if c = CHR ''+'' then (False, cs) else (False, s))
      in case s of [] \<Rightarrow> None | c # cs \<Rightarrow> if is_digit c then let (v, r) = scan_digits 0 s in Some (neg, v, r) else None)"

text \<open>The value, whether \<^verbatim>\<open>errno\<close> is set, and the rest; the rest is the whole string when there is no number.\<close>

definition strtol :: "string \<Rightarrow> int \<times> bool \<times> string" where
  "strtol s = (case scan_number s of
       None \<Rightarrow> (0, False, s)
     | Some (neg, v, r) \<Rightarrow> let i = (if neg then - int v else int v) in
         if i > 2 ^ 63 - 1 then (2 ^ 63 - 1, True, r) else if i < - (2 ^ 63) then (- (2 ^ 63), True, r) else (i, False, r))"

definition strtoul :: "string \<Rightarrow> int \<times> bool \<times> string" where
  "strtoul s = (case scan_number s of
       None \<Rightarrow> (0, False, s)
     | Some (neg, v, r) \<Rightarrow> if v > 2 ^ 64 - 1 then (2 ^ 64 - 1, True, r) else (if neg then - int v mod 2 ^ 64 else int v, False, r))"

text \<open>The variable is written before the result is examined.\<close>

definition convert :: "(string \<Rightarrow> int \<times> bool \<times> string) \<Rightarrow> string option \<Rightarrow> 'a::len word \<Rightarrow> int \<times> 'a word" where
  "convert f str val = (case str of
       None \<Rightarrow> (- EINVAL, val)
     | Some s \<Rightarrow> (case f s of (v, err, end) \<Rightarrow>
         if err \<or> end \<noteq> [] \<or> length end = length s then (- EINVAL, word_of_int v) else (0, word_of_int v)))"

definition from_string_s32 :: "string option \<Rightarrow> 32 word \<Rightarrow> int \<times> 32 word" where "from_string_s32 = convert strtol"
definition from_string_u32 :: "string option \<Rightarrow> 32 word \<Rightarrow> int \<times> 32 word" where "from_string_u32 = convert strtoul"
definition from_string_s64 :: "string option \<Rightarrow> 64 word \<Rightarrow> int \<times> 64 word" where "from_string_s64 = convert strtol"
definition from_string_u64 :: "string option \<Rightarrow> 64 word \<Rightarrow> int \<times> 64 word" where "from_string_u64 = convert strtoul"

definition print_int :: "int \<Rightarrow> string" where
  "print_int i = (if i < 0 then CHR ''-'' # print_nat (nat (- i)) else print_nat (nat i))"

definition to_string_signed :: "'a::len word \<Rightarrow> string" where "to_string_signed w = print_int (sint w)"
definition to_string_unsigned :: "'a::len word \<Rightarrow> string" where "to_string_unsigned w = print_int (uint w)"

section \<open>Splitting\<close>

text \<open>The pieces with a delimiter behind each of them.\<close>

definition join :: "char \<Rightarrow> string list \<Rightarrow> string" where
  "join d xs = concat (map (\<lambda>x. x @ [d]) xs)"

lemma split_loop_join:
  shows "split_loop d s = [] \<longleftrightarrow> s = []" "\<forall>x \<in> set (split_loop d s). d \<notin> set x" "s \<noteq> [] \<Longrightarrow> join d (split_loop d s) = (if last s = d then s else s @ [d])"
proof (induction d s rule: split_loop.induct)
  case (1 d s)
  let ?t = "takeWhile (\<lambda>c. c \<noteq> d) s" and ?r = "tl (dropWhile (\<lambda>c. c \<noteq> d) s)"
  note sp = split_loop.simps [of d s]
  show "split_loop d s = [] \<longleftrightarrow> s = []" by (subst sp) simp
  show "\<forall>x \<in> set (split_loop d s). d \<notin> set x" using 1 by (subst sp) (auto dest: set_takeWhileD)
  assume s: "s \<noteq> []"
  show "join d (split_loop d s) = (if last s = d then s else s @ [d])"
  proof (cases "d \<in> set s")
    case False
    have dw: "dropWhile (\<lambda>c. c \<noteq> d) s = []" using False by (auto simp: dropWhile_eq_Nil_conv)
    have "?r = []" by (simp only: dw list.sel(2))
    moreover have "last s \<noteq> d" using False s last_in_set by blast
    moreover have "?t = s" using False by (auto simp: takeWhile_eq_all_conv)
    ultimately show ?thesis using s by (subst sp) (simp add: join_def split_loop.simps [of d "[]"])
  next
    case True
    then obtain r where r: "dropWhile (\<lambda>c. c \<noteq> d) s = d # r" 
      using hd_dropWhile [of "\<lambda>c. c \<noteq> d" s] by (cases "dropWhile (\<lambda>c. c \<noteq> d) s") (auto simp: dropWhile_eq_Nil_conv)
    then have e: "s = ?t @ d # r" using takeWhile_dropWhile_id [of "\<lambda>c. c \<noteq> d" s] by simp
    have "join d (split_loop d s) = ?t @ d # join d (split_loop d r)" using s r by (subst sp) (simp add: join_def)
    also have "join d (split_loop d r) = (if r = [] then [] else if last r = d then r else r @ [d])"
      using "1.IH"(3) [OF s] r by (simp add: join_def split_loop.simps [of d "[]"])
    finally have j: "join d (split_loop d s) = ?t @ d # (if r = [] then [] else if last r = d then r else r @ [d])" .
    have "last s = (if r = [] then d else last r)" by (subst e) simp
    then show ?thesis using j by (subst (3 4) e) simp
  qed
qed

text \<open>
  Splitting loses nothing but a delimiter at the end: the pieces contain no delimiter, and put together again they are the string, with a delimiter behind it when it has none there.
  The pieces are added behind what the vector holds.
\<close>

theorem split_string_joins:
  shows "split_string None d vec = (- EINVAL, vec)"
    "\<exists>xs. split_string (Some s) d vec = (0, vec @ xs) \<and> (\<forall>x \<in> set xs. d \<notin> set x) \<and> join d xs = (if s = [] then [] else if last s = d then s else s @ [d])"
  using split_loop_join [where d = d and s = s] by (auto simp: split_string_def join_def)

section \<open>Replacing\<close>

text \<open>The reference: from left to right, every occurrence that does not overlap the one before.\<close>

fun replace_all :: "string \<Rightarrow> string \<Rightarrow> string \<Rightarrow> string" where
  "replace_all src dst [] = []"
| "replace_all src dst (c # cs) = (if src \<noteq> [] \<and> take (length src) (c # cs) = src then dst @ replace_all src dst (drop (length src - 1) cs) else c # replace_all src dst cs)"

lemma replace_all_skip:
  assumes "\<forall>j < n. take (length src) (drop j s) \<noteq> src" "n \<le> length s"
  shows "replace_all src dst s = take n s @ replace_all src dst (drop n s)"
  using assms
proof (induction n arbitrary: s)
  case (Suc n)
  then obtain c cs where s: "s = c # cs" by (cases s) auto
  have "take (length src) s \<noteq> src" using Suc.prems(1) by fastforce
  moreover have "\<forall>j < n. take (length src) (drop j cs) \<noteq> src" using Suc.prems(1) s by fastforce
  ultimately show ?case using Suc.IH [of cs] Suc.prems(2) s by simp
qed simp

lemma replace_all_none:
  assumes "find_from s src pos = None" "src \<noteq> []"
  shows "replace_all src dst (drop pos s) = drop pos s"
proof -
  have "take (length src) (drop j s) \<noteq> src" if "pos \<le> j" "j \<le> length s" for j using assms(1) that by (auto simp: find_from_def find_None_iff simp del: upt_Suc)
  then have "\<forall>j < length (drop pos s). take (length src) (drop j (drop pos s)) \<noteq> src" by (simp add: add.commute)
  from replace_all_skip [OF this, of dst] show ?thesis by simp
qed

lemma replace_loop_all:
  assumes "src \<noteq> []"
  shows "pos \<le> length str \<Longrightarrow> replace_loop str src dst pos = take pos str @ replace_all src dst (drop pos str)"
proof (induction str src dst pos rule: replace_loop.induct)
  case (1 str src dst pos)
  show ?case
  proof (cases "src = []")
    case True
    have "replace_all [] dst s = s" for s by (induction s) simp_all
    then show ?thesis using True by (subst replace_loop.simps) simp
  next
    case ne: False
    show ?thesis
    proof (cases "find_from str src pos")
      case None
      then show ?thesis using replace_all_none [OF None ne] ne by (subst replace_loop.simps) simp
    next
      case (Some i)
      note f = find_fromD [OF Some]
      let ?s = "take i str @ dst @ drop (i + length src) str"
      have "replace_loop str src dst pos = take (i + length dst) ?s @ replace_all src dst (drop (i + length dst) ?s)"
        using "1.IH" [OF ne Some] f(2) ne Some by (subst replace_loop.simps) (simp add: min_def)
      also have "\<dots> = take i str @ dst @ replace_all src dst (drop (i + length src) str)" using f(2) by simp
      also have "dst @ replace_all src dst (drop (i + length src) str) = replace_all src dst (drop i str)"
      proof -
        obtain c cs where c: "drop i str = c # cs" using f(3) ne by (cases "drop i str") auto
        have "drop (length src - 1) cs = drop (i + length src) str" using arg_cong [OF c, of "drop (length src)"] ne by (cases src) (simp_all add: add.commute)
        then show ?thesis using c f(3) ne by simp
      qed
      also have "take i str = take pos str @ take (i - pos) (drop pos str)" using f(1) by (metis le_add_diff_inverse take_add)
      also have "(take pos str @ take (i - pos) (drop pos str)) @ replace_all src dst (drop i str) = take pos str @ replace_all src dst (drop pos str)"
        using replace_all_skip [of "i - pos" src "drop pos str" dst] f(1,2,5) by (simp add: add.commute less_diff_conv)
      finally show ?thesis by simp
    qed
  qed
qed

text \<open>
  \<^verbatim>\<open>replace_string\<close> always returns, and its loop over positions replaces exactly the occurrences that a scan from left to right finds, also when the new text contains the old one.
\<close>

theorem replace_string_reference: "replace_string str src dst = replace_all src dst str"
proof (cases "src = []")
  case True
  have "replace_all [] dst s = s" for s by (induction s) simp_all
  then show ?thesis using True by (simp add: replace_string_def)
next
  case False
  then show ?thesis using replace_loop_all [of src 0 str dst] by (simp add: replace_string_def)
qed

section \<open>Trimming\<close>

lemma trim_string_ok:
  "\<exists>l r. str = l @ trim_string str @ r \<and> (\<forall>c \<in> set (l @ r). is_space c) \<and> (trim_string str \<noteq> [] \<longrightarrow> \<not> is_space (hd (trim_string str)) \<and> \<not> is_space (last (trim_string str)))"
proof -
  define m where "m = dropWhile is_space str"
  have m: "str = takeWhile is_space str @ m" by (simp add: m_def)
  have t: "trim_string str = rev (dropWhile is_space (rev m))" by (simp add: trim_string_def m_def)
  have r: "m = trim_string str @ rev (takeWhile is_space (rev m))" by (metis t rev_append rev_rev_ident takeWhile_dropWhile_id)
  have "\<not> is_space (hd (trim_string str))" if ne: "trim_string str \<noteq> []"
  proof -
    have "m \<noteq> []" using r ne by auto
    then have "\<not> is_space (hd m)" unfolding m_def by (rule hd_dropWhile)
    moreover have "hd m = hd (trim_string str)" by (subst r) (simp add: ne)
    ultimately show ?thesis by simp
  qed
  moreover have "\<not> is_space (last (trim_string str))" if "trim_string str \<noteq> []"
    using that hd_dropWhile [of is_space "rev m"] by (simp add: t last_rev)
  moreover have "str = takeWhile is_space str @ trim_string str @ rev (takeWhile is_space (rev m))" using m r by simp
  ultimately show ?thesis by (intro exI conjI) (assumption, auto dest: set_takeWhileD)
qed

section \<open>Conversion\<close>

lemma scan_number_print: "scan_number (print_int i) = Some (i < 0, nat \<bar>i\<bar>, [])"
proof -
  obtain c cs where c: "print_nat (nat \<bar>i\<bar>) = c # cs" "is_digit c" using print_nat_hd by blast
  have "\<not> is_space c" "c \<noteq> CHR ''-''" "c \<noteq> CHR ''+''" "\<not> is_space (CHR ''-'')" using c(2) by (auto simp: is_digit_def is_space_def)
  moreover have "scan_digits 0 (c # cs) = (nat \<bar>i\<bar>, [])" using scan_print [of 0 "nat \<bar>i\<bar>" "[]"] c by simp
  ultimately show ?thesis using c by (cases "i < 0") (simp_all add: scan_number_def print_int_def Let_def)
qed

lemma convert_print: "- (2 ^ 63) \<le> i \<Longrightarrow> i < 2 ^ 63 \<Longrightarrow> convert strtol (Some (print_int i)) v = (0, word_of_int i)"
  "0 \<le> i \<Longrightarrow> i < 2 ^ 64 \<Longrightarrow> convert strtoul (Some (print_int i)) v = (0, word_of_int i)"
proof -
  have n: "print_int i \<noteq> []" using print_nat_hd [of "nat i"] by (auto simp: print_int_def)
  show "- (2 ^ 63) \<le> i \<Longrightarrow> i < 2 ^ 63 \<Longrightarrow> convert strtol (Some (print_int i)) v = (0, word_of_int i)"
    using n by (auto simp: convert_def strtol_def scan_number_print Let_def)
  show "0 \<le> i \<Longrightarrow> i < 2 ^ 64 \<Longrightarrow> convert strtoul (Some (print_int i)) v = (0, word_of_int i)"
    using n by (auto simp: convert_def strtoul_def scan_number_print)
qed

text \<open>What is written as a decimal number: white space, a sign or none, at least one digit, and nothing behind the digits.\<close>

definition decimal :: "string \<Rightarrow> nat" where
  "decimal ds = foldl (\<lambda>v c. v * 10 + digit_value c) 0 ds"

definition denotes :: "string \<Rightarrow> int \<Rightarrow> bool" where
  "denotes s i \<longleftrightarrow> (\<exists>sp sg ds. s = sp @ sg @ ds \<and> (\<forall>c \<in> set sp. is_space c) \<and> sg \<in> {[], ''+'', ''-''} \<and> ds \<noteq> [] \<and> (\<forall>c \<in> set ds. is_digit c) \<and>
     i = (if sg = ''-'' then - int (decimal ds) else int (decimal ds)))"

lemma scan_digits_split: "scan_digits v s = (foldl (\<lambda>v c. v * 10 + digit_value c) v (takeWhile is_digit s), dropWhile is_digit s)"
  by (induction v s rule: scan_digits.induct) simp_all

lemma digit_not_space: "is_digit c \<Longrightarrow> \<not> is_space c \<and> c \<noteq> CHR ''-'' \<and> c \<noteq> CHR ''+''"
  by (auto simp: is_digit_def is_space_def)

lemma scan_number_denotes: "(\<exists>neg v. scan_number s = Some (neg, v, []) \<and> i = (if neg then - int v else int v)) \<longleftrightarrow> denotes s i"
proof
  assume "\<exists>neg v. scan_number s = Some (neg, v, []) \<and> i = (if neg then - int v else int v)"
  then obtain neg v where n: "scan_number s = Some (neg, v, [])" "i = (if neg then - int v else int v)" by blast
  let ?s = "dropWhile is_space s"
  obtain sg ds where d: "?s = sg @ ds" "sg \<in> {[], ''+'', ''-''}" "neg \<longleftrightarrow> sg = ''-''" "ds \<noteq> []" "is_digit (hd ds)" "scan_digits 0 ds = (v, [])"
  proof -
    obtain c cs where c: "?s = c # cs" using n(1) by (cases ?s) (auto simp: scan_number_def)
    consider "c = CHR ''-''" | "c = CHR ''+''" | "c \<noteq> CHR ''-''" "c \<noteq> CHR ''+''" by blast
    then show thesis
    proof cases
      case 1 then show ?thesis using that [of "''-''" cs] n(1) c by (auto simp: scan_number_def split: list.splits if_splits prod.splits)
    next
      case 2 then show ?thesis using that [of "''+''" cs] n(1) c by (auto simp: scan_number_def split: list.splits if_splits prod.splits)
    next
      case 3 then show ?thesis using that [of "[]" "c # cs"] n(1) c by (auto simp: scan_number_def split: list.splits if_splits prod.splits)
    qed
  qed
  have "dropWhile is_digit ds = []" using d(6) by (simp add: scan_digits_split)
  then have "\<forall>c \<in> set ds. is_digit c" by (simp add: dropWhile_eq_Nil_conv)
  moreover from this have "v = decimal ds" using d(6) by (auto simp: scan_digits_split decimal_def takeWhile_eq_all_conv [THEN iffD2])
  moreover have "s = takeWhile is_space s @ sg @ ds" using d(1) by (metis takeWhile_dropWhile_id)
  ultimately show "denotes s i" unfolding denotes_def using d(2-4) n(2) by (metis set_takeWhileD)
next
  assume "denotes s i"
  then obtain sp sg ds where d: "s = sp @ sg @ ds" "\<forall>c \<in> set sp. is_space c" "sg \<in> {[], ''+'', ''-''}" "ds \<noteq> []" "\<forall>c \<in> set ds. is_digit c"
    "i = (if sg = ''-'' then - int (decimal ds) else int (decimal ds))" unfolding denotes_def by blast
  obtain c cs where c: "ds = c # cs" "is_digit c" using d(4,5) by (cases ds) auto
  have sp: "\<not> is_space (CHR ''-'')" "\<not> is_space (CHR ''+'')" by (simp_all add: is_space_def)
  have "dropWhile is_space s = sg @ ds" using d(1-3) c digit_not_space [OF c(2)] sp by (auto simp: dropWhile_append2)
  moreover have "scan_digits 0 ds = (decimal ds, [])" using d(5) by (simp add: scan_digits_split decimal_def takeWhile_eq_all_conv [THEN iffD2])
  ultimately have "scan_number s = Some (sg = ''-'', decimal ds, [])" using d(3) c digit_not_space [OF c(2)] by (auto simp: scan_number_def Let_def)
  then show "\<exists>neg v. scan_number s = Some (neg, v, []) \<and> i = (if neg then - int v else int v)" using d(6) by blast
qed

lemma scan_number_shorter: "scan_number s = Some (neg, v, r) \<Longrightarrow> length r < length s"
proof -
  assume n: "scan_number s = Some (neg, v, r)"
  have d: "length (dropWhile is_digit cs) < n" if "Suc (length cs) \<le> n" for cs n using that length_dropWhile_le [of is_digit cs] by simp
  have "length (dropWhile is_space s) \<le> length s" by (rule length_dropWhile_le)
  then show ?thesis using n by (auto simp: scan_number_def scan_digits_split Let_def split: list.splits if_splits intro!: d)
qed

lemma word_of_int_mod_64: "LENGTH('a::len) \<le> 64 \<Longrightarrow> (word_of_int (i mod 2 ^ 64) :: 'a word) = word_of_int i"
  using take_bit_eq_mod [of 64 i] by (intro bit_word_eqI) (simp add: bit_simps flip: take_bit_eq_mod del: power_numeral)

lemma convert_Some: "f s = (u, err, end) \<Longrightarrow> convert f (Some s) v = (0, x) \<longleftrightarrow> \<not> err \<and> end = [] \<and> s \<noteq> [] \<and> x = word_of_int u"
  by (auto simp: convert_def EINVAL_def)

lemma strtol_Some:
  assumes "scan_number s = Some (neg, w, r)" and i: "i = (if neg then - int w else int w)"
  shows "\<exists>u. strtol s = (u, \<not> (- (2 ^ 63) \<le> i \<and> i < 2 ^ 63), r) \<and> (- (2 ^ 63) \<le> i \<and> i < 2 ^ 63 \<longrightarrow> u = i)"
  unfolding strtol_def assms(1) option.case prod.case Let_def i [symmetric] by simp

lemma strtoul_Some:
  assumes "scan_number s = Some (neg, w, r)" and i: "i = (if neg then - int w else int w)"
  shows "\<exists>u. strtoul s = (u, \<not> \<bar>i\<bar> < 2 ^ 64, r) \<and> (\<bar>i\<bar> < 2 ^ 64 \<longrightarrow> u = i mod 2 ^ 64)"
proof -
  have "\<not> \<bar>i\<bar> < 2 ^ 64 \<longleftrightarrow> w > 2 ^ 64 - 1" using i by auto
  then show ?thesis unfolding strtoul_def assms(1) option.case prod.case using i by auto
qed

lemma denotes_scan:
  assumes "scan_number s = Some (neg, w, r)"
  shows "denotes s i \<longleftrightarrow> r = [] \<and> s \<noteq> [] \<and> i = (if neg then - int w else int w)"
  using scan_number_denotes [of s i] scan_number_shorter [OF assms] assms by auto

lemma convert_strtol: "convert strtol str v = (0, x) \<longleftrightarrow> (\<exists>s i. str = Some s \<and> denotes s i \<and> - (2 ^ 63) \<le> i \<and> i < 2 ^ 63 \<and> x = word_of_int i)"
proof (cases str)
  case (Some s)
  show ?thesis
  proof (cases "scan_number s")
    case None
    then show ?thesis using Some scan_number_denotes [of s] by (auto simp: convert_def strtol_def EINVAL_def)
  next
    case fields: (Some n)
    obtain neg w r where n: "scan_number s = Some (neg, w, r)" using fields by (cases n) auto
    obtain i where i: "i = (if neg then - int w else int w)" by simp
    obtain u where u: "strtol s = (u, \<not> (- (2 ^ 63) \<le> i \<and> i < 2 ^ 63), r)" "- (2 ^ 63) \<le> i \<and> i < 2 ^ 63 \<longrightarrow> u = i" using strtol_Some [OF n i] by blast
    show ?thesis unfolding Some convert_Some [of strtol, OF u(1)] using u(2) denotes_scan [OF n, folded i] by auto
  qed
qed (simp add: convert_def EINVAL_def)

lemma convert_strtoul:
  fixes v x :: "'a::len word"
  assumes "LENGTH('a) \<le> 64"
  shows "convert strtoul str v = (0, x) \<longleftrightarrow> (\<exists>s i. str = Some s \<and> denotes s i \<and> \<bar>i\<bar> < 2 ^ 64 \<and> x = word_of_int i)"
proof (cases str)
  case (Some s)
  show ?thesis
  proof (cases "scan_number s")
    case None
    then show ?thesis using Some scan_number_denotes [of s] by (auto simp: convert_def strtoul_def EINVAL_def)
  next
    case fields: (Some n)
    obtain neg w r where n: "scan_number s = Some (neg, w, r)" using fields by (cases n) auto
    obtain i where i: "i = (if neg then - int w else int w)" by simp
    obtain u where u: "strtoul s = (u, \<not> \<bar>i\<bar> < 2 ^ 64, r)" "\<bar>i\<bar> < 2 ^ 64 \<longrightarrow> u = i mod 2 ^ 64" using strtoul_Some [OF n i] by blast
    have "\<bar>i\<bar> < 2 ^ 64 \<Longrightarrow> (word_of_int u :: 'a word) = word_of_int i" using u(2) word_of_int_mod_64 [OF assms] by metis
    then show ?thesis unfolding Some convert_Some [of strtoul, OF u(1)] using denotes_scan [OF n, folded i] by auto
  qed
qed (simp add: convert_def EINVAL_def)

lemma convert_results: "fst (convert f str v) \<in> {0, - EINVAL}"
  by (auto simp: convert_def split: option.split prod.split)

text \<open>
  C38: Conversion accepts exactly the decimal numbers: \<^verbatim>\<open>from_string\<close> returns 0 if and only if the string is there, has white space, an optional sign and at least one digit and nothing behind them,
  and the number is in the range of the 64-bit function of the C library behind it; the variable then holds the number, cut off at the width of the variable. In every other case, a null pointer, no
  digits, characters behind the number or a number out of range, it returns \<^verbatim>\<open>-EINVAL\<close>. What \<^verbatim>\<open>to_string\<close> prints is accepted and gives the number back.
\<close>

theorem from_string_exact:
  fixes v x a :: "32 word" and w y b :: "64 word"
  shows "(from_string_s32 str v = (0, x) \<longleftrightarrow> (\<exists>s i. str = Some s \<and> denotes s i \<and> - (2 ^ 63) \<le> i \<and> i < 2 ^ 63 \<and> x = word_of_int i)) \<and>
    (from_string_u32 str v = (0, x) \<longleftrightarrow> (\<exists>s i. str = Some s \<and> denotes s i \<and> \<bar>i\<bar> < 2 ^ 64 \<and> x = word_of_int i)) \<and>
    (from_string_s64 str w = (0, y) \<longleftrightarrow> (\<exists>s i. str = Some s \<and> denotes s i \<and> - (2 ^ 63) \<le> i \<and> i < 2 ^ 63 \<and> y = word_of_int i)) \<and>
    (from_string_u64 str w = (0, y) \<longleftrightarrow> (\<exists>s i. str = Some s \<and> denotes s i \<and> \<bar>i\<bar> < 2 ^ 64 \<and> y = word_of_int i)) \<and>
    {fst (from_string_s32 str v), fst (from_string_u32 str v), fst (from_string_s64 str w), fst (from_string_u64 str w)} \<subseteq> {0, - EINVAL} \<and>
    from_string_s32 (Some (to_string_signed a)) v = (0, a) \<and> from_string_u32 (Some (to_string_unsigned a)) v = (0, a) \<and>
    from_string_s64 (Some (to_string_signed b)) w = (0, b) \<and> from_string_u64 (Some (to_string_unsigned b)) w = (0, b)"
  unfolding from_string_s32_def from_string_u32_def from_string_s64_def from_string_u64_def
proof (intro conjI)
  show "{fst (convert strtol str v), fst (convert strtoul str v), fst (convert strtol str w), fst (convert strtoul str w)} \<subseteq> {0, - EINVAL}"
    using convert_results by (metis empty_subsetI insert_subset)
  have "- (2 ^ 31) \<le> sint a" "sint a < 2 ^ 31" "- (2 ^ 63) \<le> sint b" "sint b < 2 ^ 63" "uint a < 2 ^ 32" "uint b < 2 ^ 64"
    using sint_greater_eq [of a] sint_less [of a] sint_greater_eq [of b] sint_less [of b] uint_lt2p [of a] uint_lt2p [of b] by simp_all
  then show "convert strtol (Some (to_string_signed a)) v = (0, a)" "convert strtoul (Some (to_string_unsigned a)) v = (0, a)"
    "convert strtol (Some (to_string_signed b)) w = (0, b)" "convert strtoul (Some (to_string_unsigned b)) w = (0, b)"
    by (simp_all add: to_string_signed_def to_string_unsigned_def convert_print)
qed (rule convert_strtol convert_strtoul, (simp; fail)?)+

text \<open>A number that does not fit 32 bits is not refused but truncated, and an unsigned one may have a minus sign.\<close>

lemma from_string_truncates: "from_string_s32 (Some (print_int (2 ^ 32 + 5))) v = (0, 5)" "from_string_u32 (Some (print_int (-1))) v = (0, 0xffffffff)"
  by (simp_all add: from_string_s32_def convert_print(1)) (simp add: from_string_u32_def convert_def strtoul_def scan_number_print, simp add: print_int_def)

end
