(* ===== verification/Bus_Router.thy ===== *)
theory Bus_Router
  imports Bus_Message Tcp_Connection String_Helper
begin

text \<open>
  The bus daemon, \<^verbatim>\<open>src/bus/bus_router.h\<close> and \<^verbatim>\<open>bus_router.cpp\<close>: it takes messages from the write channels of the processes of its host and from other daemons, and passes
  them to the read channels of its processes or to the daemon of another host. Routes come from a consul service. What the daemon calls outside the repository is in the
  record \<open>env\<close>: the results of libuv and the constant \<^verbatim>\<open>MAGIC\<close>, which no file of the repository defines. \<open>consul\<close> collects the requests to consul, the field \<open>signals\<close> of the
  channel manager the signals that are sent. A \<^verbatim>\<open>std::map\<close> over which the code iterates is the list of its pairs in key order.
\<close>

section \<open>State\<close>

record env =
  uv_write :: "tcp_connection \<Rightarrow> u8 list \<Rightarrow> int"
  uv_tcp_init :: "string \<Rightarrow> int"
  uv_tcp_connect :: "string \<Rightarrow> int"
  can_malloc :: "nat \<Rightarrow> bool"
  garbage :: "nat \<Rightarrow> u8 list"
  sizeof_uv_tcp_handle :: nat
  last_errno :: int
  MAGIC :: u32

text \<open>\<^verbatim>\<open>malloc\<close>: the block that it returns, or the null pointer.\<close>

definition heap_malloc :: "env \<Rightarrow> block_source" where
  "heap_malloc e n = (if can_malloc e n then Some (garbage e n) else None)"

record endpoint =
  seed :: u32
  client :: tcp_client
  connection :: "nat option"

datatype consul_request = Watch int | Set string string | Del string

record router =
  loop_rate :: int
  localhost :: string
  rt_msg :: bus_message
  buffer_capacity :: nat
  rt_mgr :: channel_mgr
  active_endpoints :: "(int \<times> string) list"
  inactive_endpoints :: "int set"
  host2endpoints :: "string \<Rightarrow> endpoint option"
  host2seq :: "string \<Rightarrow> u32 option"
  busid2queue :: "int \<Rightarrow> bus_message option list option"
  host2queue :: "string \<Rightarrow> bus_message option list option"
  conns :: "nat \<Rightarrow> tcp_connection option"
  consul :: "consul_request list"

definition BUS_KV_PREFIX :: string where "BUS_KV_PREFIX = ''bus/''"

text \<open>Bus ids are signed in the maps.\<close>

abbreviation busid_of :: "u32 \<Rightarrow> int" where "busid_of w \<equiv> sint w"

fun map_put :: "'k::linorder \<Rightarrow> 'v \<Rightarrow> ('k \<times> 'v) list \<Rightarrow> ('k \<times> 'v) list" where
  "map_put k v [] = [(k, v)]"
| "map_put k v ((k', v') # m) = (if k < k' then (k, v) # (k', v') # m else if k = k' then (k, v) # m else (k', v') # map_put k v m)"

definition map_erase :: "'k \<Rightarrow> ('k \<times> 'v) list \<Rightarrow> ('k \<times> 'v) list" where
  "map_erase k m = filter (\<lambda>x. fst x \<noteq> k) m"

section \<open>Endpoints\<close>

definition ep_connected :: "endpoint \<Rightarrow> bool option" where
  "ep_connected p = (if connection p \<noteq> None then do {
       sk_assert (cl_state (client p) \<noteq> client_connecting \<and> cl_state (client p) \<noteq> client_disconnected);
       Some True
     } else Some False)"

text \<open>The message is changed in place: it is left in network order.\<close>

definition ep_send :: "env \<Rightarrow> (nat \<Rightarrow> tcp_connection option) \<Rightarrow> endpoint \<Rightarrow> bus_message \<Rightarrow>
    (int \<times> bus_message \<times> endpoint \<times> (nat \<Rightarrow> tcp_connection option)) option" where
  "ep_send e cs p m = do {
     a \<leftarrow> connection p;
     c \<leftarrow> cs a;
     let len = total_length m;
     let p = p\<lparr>seed := seed p + 1\<rparr>;
     let m = m\<lparr>bm_magic := MAGIC e, bm_seq := seed p\<rparr>;
     m \<leftarrow> calc_hash m;
     let m = hton m;
     sk_assert (len \<le> length (encode_head m @ bm_data m));
     (nbytes, c) \<leftarrow> tc_send (heap_malloc e) (uv_write e) c (take len (encode_head m @ bm_data m));
     Some (if nbytes = -1 then (- last_errno e, m, p, cs(a \<mapsto> c)) else (0, m, p, cs(a \<mapsto> c)))
   }"

definition ep_stop :: "(nat \<Rightarrow> tcp_connection option) \<Rightarrow> endpoint \<Rightarrow> (endpoint \<times> (nat \<Rightarrow> tcp_connection option)) option" where
  "ep_stop cs p = do { (cl, cs) \<leftarrow> client_stop (client p) cs; Some (p\<lparr>client := cl, connection := None\<rparr>, cs) }"

section \<open>Passing a message on\<close>

definition find_host :: "router \<Rightarrow> int \<Rightarrow> string option" where
  "find_host r busid = map_of (active_endpoints r) busid"

definition enqueue_busid :: "env \<Rightarrow> router \<Rightarrow> int \<Rightarrow> bus_message \<Rightarrow> router option" where
  "enqueue_busid e r busid msg = do {
     m \<leftarrow> dup (can_malloc e) msg;
     let q = (case busid2queue r busid of None \<Rightarrow> [] | Some q \<Rightarrow> q);
     Some (r\<lparr>busid2queue := (busid2queue r)(busid \<mapsto> q @ [m])\<rparr>)
   }"

definition enqueue_host :: "env \<Rightarrow> router \<Rightarrow> string \<Rightarrow> bus_message \<Rightarrow> router option" where
  "enqueue_host e r host msg = do {
     m \<leftarrow> dup (can_malloc e) msg;
     let q = (case host2queue r host of None \<Rightarrow> [] | Some q \<Rightarrow> q);
     Some (r\<lparr>host2queue := (host2queue r)(host \<mapsto> q @ [m])\<rparr>)
   }"

text \<open>A null pointer when the endpoint cannot be opened.\<close>

definition fetch_endpoint :: "env \<Rightarrow> router \<Rightarrow> string \<Rightarrow> (bool \<times> router) option" where
  "fetch_endpoint e r host = do {
     sk_assert (host \<noteq> localhost r);
     case host2endpoints r host of
       Some p \<Rightarrow> Some (True, r)
     | None \<Rightarrow> do {
         (ret, cl) \<leftarrow> client_connect tcp_client_new (can_malloc e (sizeof_uv_tcp_handle e)) (uv_tcp_init e host) (uv_tcp_connect e host);
         if ret \<noteq> 0 then Some (False, r)
         else Some (True, r\<lparr>host2endpoints := (host2endpoints r)(host \<mapsto> \<lparr>seed = 0, client = cl, connection = None\<rparr>)\<rparr>)
       }
   }"

definition send_local_message :: "router \<Rightarrow> bus_message \<Rightarrow> (int \<times> router) option" where
  "send_local_message r m = do {
     (rc, fd) \<leftarrow> find_read_channel (rt_mgr r) (busid_of (bm_dst m)) (-1);
     case rc of
       None \<Rightarrow> Some (- EINVAL, r)
     | Some p \<Rightarrow>
         if fd < 0 \<or> fd \<ge> int (descriptor_count (rt_mgr r)) then Some (- EINVAL, r)
         else do {
           d \<leftarrow> payload m;
           (ret, c) \<leftarrow> channel_push (chans (rt_mgr r) p) (bm_src m) (bm_dst m) (bm_ctime m) d;
           let cm = set_channel (rt_mgr r) p c;
           if ret \<noteq> 0 then Some (ret, r\<lparr>rt_mgr := cm\<rparr>)
           else Some (0, r\<lparr>rt_mgr := cm\<lparr>signals := signals cm @ [(desc_pid (descriptors cm (nat fd)), fd)]\<rparr>\<rparr>)
         }
   }"

definition ENOENT :: int where "ENOENT = 2"

text \<open>The result, the message as it is left, and the new state.\<close>

definition handle_message :: "env \<Rightarrow> router \<Rightarrow> bus_message \<Rightarrow> (int \<times> bus_message \<times> router) option" where
  "handle_message e r m =
     (if busid_of (bm_dst m) \<in> inactive_endpoints r then Some (- EINVAL, m, r)
      else case find_host r (busid_of (bm_dst m)) of
        None \<Rightarrow> do { r \<leftarrow> enqueue_busid e r (busid_of (bm_dst m)) m; Some (0, m, r) }
      | Some host \<Rightarrow>
          if host = localhost r then do { (ret, r) \<leftarrow> send_local_message r m; Some (ret, m, r) }
          else do {
            (ok, r) \<leftarrow> fetch_endpoint e r host;
            if \<not> ok then Some (- ENOENT, m, r)
            else do {
              p \<leftarrow> host2endpoints r host;
              b \<leftarrow> ep_connected p;
              if b then do {
                sk_assert (host2queue r host = None);
                (ret, m, p, cs) \<leftarrow> ep_send e (conns r) p m;
                Some (ret, m, r\<lparr>host2endpoints := (host2endpoints r)(host \<mapsto> p), conns := cs\<rparr>)
              }
              else do { r \<leftarrow> enqueue_host e r host m; Some (0, m, r) }
            }
          })"

section \<open>Messages of other daemons\<close>

definition on_client_connected :: "router \<Rightarrow> int \<Rightarrow> string \<Rightarrow> router" where
  "on_client_connected r error host = (if error \<noteq> 0 then r else r\<lparr>host2seq := (host2seq r)(host \<mapsto> 0)\<rparr>)"

text \<open>The message at the beginning of the reading area, and the reading area with its header changed.\<close>

definition msg_at :: "buffer \<Rightarrow> bus_message" where
  "msg_at b = decode_bus_message (peek b)"

definition put_head :: "buffer \<Rightarrow> bus_message \<Rightarrow> buffer" where
  "put_head b m = b\<lparr>mem := take (rindex b) (mem b) @ encode_head m @ drop (rindex b + sizeof_bus_message) (mem b)\<rparr>"

text \<open>One turn for a complete message.\<close>

definition receive_one :: "env \<Rightarrow> router \<Rightarrow> string \<Rightarrow> bus_message \<Rightarrow> (bus_message \<times> router) option" where
  "receive_one e r host m = do {
     sk_assert (bm_magic m = MAGIC e);
     h \<leftarrow> verify_hash m;
     sk_assert h;
     last \<leftarrow> host2seq r host;
     sk_assert (bm_seq m = last + 1);
     let r = r\<lparr>host2seq := (host2seq r)(host \<mapsto> bm_seq m)\<rparr>;
     (ret, m, r) \<leftarrow> handle_message e r m;
     Some (m, r)
   }"

partial_function (option) receive_loop :: "env \<Rightarrow> router \<Rightarrow> string \<Rightarrow> buffer \<Rightarrow> (buffer \<times> router) option" where
  "receive_loop e r host b = do {
     sz \<leftarrow> buffer_size b;
     if sz < sizeof_bus_message then Some (b, r)
     else do {
       let m = msg_at b;
       let m = m\<lparr>bm_length := intrev32 (bm_length m)\<rparr>;
       let b = put_head b m;
       if sz < total_length m then Some (put_head b (m\<lparr>bm_length := intrev32 (bm_length m)\<rparr>), r)
       else do {
         let m = ntoh (m\<lparr>bm_length := intrev32 (bm_length m)\<rparr>);
         let b = put_head b m;
         (m, r) \<leftarrow> receive_one e r host m;
         let b = put_head b m;
         b \<leftarrow> consume b (total_length m);
         receive_loop e r host b
       }
     }
   }"

definition on_client_message_received :: "env \<Rightarrow> router \<Rightarrow> int \<Rightarrow> tcp_connection \<Rightarrow> (tcp_connection \<times> router) option" where
  "on_client_message_received e r error c =
     (if error \<noteq> 0 then do {
        _ \<leftarrow> host2seq r (tc_host c);
        Some (tc_close c, r\<lparr>host2seq := (host2seq r)(tc_host c := None)\<rparr>)
      }
      else do { (b, r) \<leftarrow> receive_loop e r (tc_host c) (incoming c); Some (c\<lparr>incoming := b\<rparr>, r) })"

section \<open>The connection to another daemon\<close>

fun flush_host :: "env \<Rightarrow> (nat \<Rightarrow> tcp_connection option) \<Rightarrow> endpoint \<Rightarrow> bus_message option list \<Rightarrow> (endpoint \<times> (nat \<Rightarrow> tcp_connection option)) option" where
  "flush_host e cs p [] = Some (p, cs)"
| "flush_host e cs p (m # q) = do { m \<leftarrow> m; (ret, m, p, cs) \<leftarrow> ep_send e cs p m; flush_host e cs p q }"

definition on_server_connected :: "env \<Rightarrow> router \<Rightarrow> string \<Rightarrow> int \<Rightarrow> nat \<Rightarrow> router option" where
  "on_server_connected e r host error a = do {
     p \<leftarrow> host2endpoints r host;
     if error \<noteq> 0 then Some r
     else do {
       b \<leftarrow> ep_connected p;
       sk_assert (\<not> b);
       let p = p\<lparr>connection := Some a\<rparr>;
       q \<leftarrow> host2queue r host;
       sk_assert (q \<noteq> []);
       (p, cs) \<leftarrow> flush_host e (conns r) p q;
       Some (r\<lparr>host2endpoints := (host2endpoints r)(host \<mapsto> p), conns := cs, host2queue := (host2queue r)(host := None)\<rparr>)
     }
   }"

definition on_server_message_received :: "router \<Rightarrow> string \<Rightarrow> int \<Rightarrow> router option" where
  "on_server_message_received r host error = do { sk_assert (host2endpoints r host \<noteq> None); sk_assert (error = UV_EOF); Some r }"

definition on_server_message_sent :: "router \<Rightarrow> string \<Rightarrow> int \<Rightarrow> router option" where
  "on_server_message_sent r host error = do { sk_assert (host2endpoints r host \<noteq> None); Some r }"

text \<open>What \<^verbatim>\<open>tcp_client::on_connect\<close> does before it calls the callback above.\<close>

definition on_connect :: "env \<Rightarrow> router \<Rightarrow> string \<Rightarrow> int \<Rightarrow> nat \<Rightarrow> router option" where
  "on_connect e r host error a = do {
     p \<leftarrow> host2endpoints r host;
     (cl, cs) \<leftarrow> client_on_connect (heap_malloc e) (client p) (conns r) host error a;
     on_server_connected e (r\<lparr>host2endpoints := (host2endpoints r)(host \<mapsto> p\<lparr>client := cl\<rparr>), conns := cs\<rparr>) host error a
   }"

section \<open>Messages of local processes\<close>

text \<open>\<^verbatim>\<open>pop\<close> writes the data of a popped message to the beginning of the block.\<close>

definition pop_into :: "router \<Rightarrow> nat \<Rightarrow> (int \<times> router) option" where
  "pop_into r w = do {
     let len = unat (bm_length (rt_msg r));
     (x, c) \<leftarrow> channel_pop (chans (rt_mgr r) w) (Some len) len;
     let m = (rt_msg r)\<lparr>bm_data := pop_data x @ drop (length (pop_data x)) (bm_data (rt_msg r))\<rparr>;
     let m = (case pop_info x of None \<Rightarrow> m | Some (src, dst, t) \<Rightarrow> m\<lparr>bm_src := src, bm_dst := dst, bm_ctime := t\<rparr>);
     let r = r\<lparr>rt_mgr := set_channel (rt_mgr r) w c\<rparr>;
     Some (pop_ret x, if pop_ret x = 0 then r else r\<lparr>rt_msg := m\<lparr>bm_length := word_of_nat (pop_len x)\<rparr>\<rparr>)
   }"

text \<open>The block is replaced by a larger one, and \<^verbatim>\<open>pop\<close> is called again.\<close>

definition grow_and_pop :: "env \<Rightarrow> router \<Rightarrow> nat \<Rightarrow> (int \<times> router) option" where
  "grow_and_pop e r w = do {
     sk_assert (can_malloc e (total_length (rt_msg r)));
     let cap = unat (bm_length (rt_msg r));
     let r = r\<lparr>buffer_capacity := cap, rt_msg := bm_init (MAGIC e) cap (garbage e cap)\<rparr>;
     (ret, r) \<leftarrow> pop_into r w;
     sk_assert (ret \<noteq> 0);
     Some (ret, r)
   }"

partial_function (option) local_loop :: "env \<Rightarrow> router \<Rightarrow> nat \<Rightarrow> int \<Rightarrow> router option" where
  "local_loop e r w count =
     (if count \<ge> loop_rate r then Some r
      else do {
        let r = r\<lparr>rt_msg := bm_reset (buffer_capacity r) (rt_msg r)\<rparr>;
        (ret, r) \<leftarrow> pop_into r w;
        if ret = 0 then Some r
        else if ret < 0 \<and> ret \<noteq> - E2BIG then local_loop e r w count
        else do {
          (ret, r) \<leftarrow> (if ret < 0 then grow_and_pop e r w else Some (ret, r));
          if ret < 0 then do { sk_assert (ret \<noteq> - E2BIG); local_loop e r w count }
          else do {
            sk_assert (ret = 1);
            (rc, m, r) \<leftarrow> handle_message e r (rt_msg r);
            local_loop e (r\<lparr>rt_msg := m\<rparr>) w (count + 1)
          }
        }
      })"

definition on_local_message :: "env \<Rightarrow> router \<Rightarrow> int \<Rightarrow> router option" where
  "on_local_message e r fd =
     (if fd < 0 \<or> fd \<ge> int (descriptor_count (rt_mgr r)) then Some r
      else if closed (descriptors (rt_mgr r) (nat fd)) then Some r
      else do { w \<leftarrow> get_write_channel (rt_mgr r) fd; w \<leftarrow> w; local_loop e r w 0 })"

definition on_descriptor_change :: "router \<Rightarrow> int \<Rightarrow> router option" where
  "on_descriptor_change r fd =
     (if fd < 0 \<or> fd \<ge> int (descriptor_count (rt_mgr r)) then Some r
      else do {
        let d = descriptors (rt_mgr r) (nat fd);
        let active = (map_of (active_endpoints r) (owner d) \<noteq> None);
        let inactive = (owner d \<in> inactive_endpoints r);
        sk_assert ((\<not> active \<and> \<not> inactive) \<or> (active \<and> \<not> inactive) \<or> (\<not> active \<and> inactive));
        let k = BUS_KV_PREFIX @ to_string (word_of_int (owner d));
        Some (if \<not> active \<and> \<not> closed d then r\<lparr>consul := consul r @ [Set k (localhost r)]\<rparr>
              else if active \<and> closed d then r\<lparr>consul := consul r @ [Del k]\<rparr> else r)
      })"

section \<open>Routes\<close>

text \<open>The bus id behind the prefix; \<^verbatim>\<open>substr\<close> throws when the key is shorter than the prefix.\<close>

definition key_busid :: "string \<Rightarrow> int option" where
  "key_busid k = do {
     sk_assert (is_prefix BUS_KV_PREFIX k);
     sk_assert (length BUS_KV_PREFIX \<le> length k);
     Some (busid_of (from_string (drop (length BUS_KV_PREFIX) k)))
   }"

fun read_routes :: "router \<Rightarrow> (int \<times> string) list \<Rightarrow> (string \<times> string) list \<Rightarrow> ((int \<times> string) list \<times> router) option" where
  "read_routes r act [] = Some (act, r)"
| "read_routes r act ((k, v) # kvs) = do {
     b \<leftarrow> key_busid k;
     let act = map_put b v act;
     let r = r\<lparr>inactive_endpoints := inactive_endpoints r - {b}\<rparr>;
     sk_assert (map_of (active_endpoints r) b = None \<or> busid2queue r b = None);
     read_routes r act kvs
   }"

fun flush_queue :: "env \<Rightarrow> router \<Rightarrow> bus_message option list \<Rightarrow> router option" where
  "flush_queue e r [] = Some r"
| "flush_queue e r (m # q) = do { m \<leftarrow> m; (ret, m, r) \<leftarrow> handle_message e r m; flush_queue e r q }"

fun flush_routes :: "env \<Rightarrow> router \<Rightarrow> (int \<times> string) list \<Rightarrow> router option" where
  "flush_routes e r [] = Some r"
| "flush_routes e r ((b, h) # bs) =
     (case busid2queue r b of
        None \<Rightarrow> flush_routes e r bs
      | Some q \<Rightarrow> do { r \<leftarrow> flush_queue e r q; flush_routes e (r\<lparr>busid2queue := (busid2queue r)(b := None)\<rparr>) bs })"

definition on_route_watch :: "env \<Rightarrow> router \<Rightarrow> int \<Rightarrow> int \<Rightarrow> (string \<times> string) list option \<Rightarrow> router option" where
  "on_route_watch e r ret index kv_list =
     (if ret \<noteq> 0 then Some (r\<lparr>consul := consul r @ [Watch index]\<rparr>)
      else do {
        kvs \<leftarrow> kv_list;
        (act, r) \<leftarrow> read_routes r [] kvs;
        let gone = set (filter (\<lambda>b. map_of act b = None) (map fst (active_endpoints r)));
        let r = r\<lparr>inactive_endpoints := inactive_endpoints r \<union> gone, active_endpoints := act\<rparr>;
        r \<leftarrow> flush_routes e r act;
        Some (r\<lparr>consul := consul r @ [Watch index]\<rparr>)
      })"

fun flush_local :: "router \<Rightarrow> bus_message option list \<Rightarrow> router option" where
  "flush_local r [] = Some r"
| "flush_local r (m # q) = do { m \<leftarrow> m; (ret, r) \<leftarrow> send_local_message r m; flush_local r q }"

definition on_route_set :: "router \<Rightarrow> int \<Rightarrow> string \<Rightarrow> string \<Rightarrow> router option" where
  "on_route_set r ret k v =
     (if ret \<noteq> 0 then Some r
      else do {
        sk_assert (v = localhost r);
        b \<leftarrow> key_busid k;
        let existing = (map_of (active_endpoints r) b \<noteq> None);
        let r = r\<lparr>active_endpoints := map_put b v (active_endpoints r), inactive_endpoints := inactive_endpoints r - {b}\<rparr>;
        sk_assert (existing \<longrightarrow> busid2queue r b = None);
        case busid2queue r b of
          None \<Rightarrow> Some r
        | Some q \<Rightarrow> do { r \<leftarrow> flush_local r q; Some (r\<lparr>busid2queue := (busid2queue r)(b := None)\<rparr>) }
      })"

definition on_route_del :: "router \<Rightarrow> int \<Rightarrow> bool \<Rightarrow> string \<Rightarrow> router option" where
  "on_route_del r ret recursive k =
     (if ret \<noteq> 0 then Some r
      else do {
        sk_assert (\<not> recursive);
        b \<leftarrow> key_busid k;
        Some (r\<lparr>active_endpoints := map_erase b (active_endpoints r), inactive_endpoints := insert b (inactive_endpoints r)\<rparr>)
      })"

definition BUS_OUTGOING_SIGNO :: int where "BUS_OUTGOING_SIGNO = 34 + 8"
definition BUS_REGISTRATION_SIGNO :: int where "BUS_REGISTRATION_SIGNO = 34 + 9"

definition on_signal :: "env \<Rightarrow> router \<Rightarrow> int \<Rightarrow> int \<Rightarrow> router option" where
  "on_signal e r signo fd =
     (if signo = BUS_OUTGOING_SIGNO then on_local_message e r fd
      else if signo = BUS_REGISTRATION_SIGNO then on_descriptor_change r fd else Some r)"

text \<open>The state that \<^verbatim>\<open>init\<close> leaves when it succeeds: the channel manager is in the shared segment, the address of the host is known.\<close>

definition router_new :: "env \<Rightarrow> int \<Rightarrow> string \<Rightarrow> channel_mgr \<Rightarrow> router" where
  "router_new e msg_per_run host cm =
     (let cap = 2 * 1024 * 1024 in
      \<lparr>loop_rate = (if msg_per_run > 0 then msg_per_run else 200), localhost = host, rt_msg = bm_init (MAGIC e) cap (garbage e cap), buffer_capacity = cap,
       rt_mgr = cm, active_endpoints = [], inactive_endpoints = {}, host2endpoints = (\<lambda>_. None), host2seq = (\<lambda>_. None), busid2queue = (\<lambda>_. None),
       host2queue = (\<lambda>_. None), conns = (\<lambda>_. None), consul = [Watch 0]\<rparr>)"

definition reload :: "router \<Rightarrow> int \<Rightarrow> router" where
  "reload r msg_per_run = r\<lparr>loop_rate := (if msg_per_run > 0 then msg_per_run else 200)\<rparr>"

end
