(* ===== verification/Bus_Router_Correct.thy ===== *)
theory Bus_Router_Correct
  imports Bus_Router
begin

text \<open>
  The daemon against an abstract router that keeps, for every bus id without a route, the messages that wait for one, for every other host the messages handed to it, and
  for every channel the messages in it.
\<close>

section \<open>The abstract router\<close>

record view =
  v_wait :: "int \<Rightarrow> message list"
  v_out :: "string \<Rightarrow> message list"
  v_chan :: "nat \<Rightarrow> message list \<times> message list"

text \<open>The message that a block in memory stands for, and a block that holds all of its message.\<close>

definition msg_of :: "bus_message \<Rightarrow> message" where
  "msg_of m = (bm_src m, bm_dst m, bm_ctime m, take (unat (bm_length m)) (bm_data m))"

definition fits :: "bus_message \<Rightarrow> bool" where
  "fits m \<longleftrightarrow> unat (bm_length m) \<le> length (bm_data m) \<and> unat (bm_length m) < 2 ^ 31"

definition holds :: "bus_message option \<Rightarrow> message \<Rightarrow> bool" where
  "holds m x \<longleftrightarrow> (\<exists>y. m = Some y \<and> fits y \<and> msg_of y = x)"

text \<open>What the calls of libuv and of the C library must do: allocations succeed and writes are accepted.\<close>

definition env_ok :: "env \<Rightarrow> bool" where
  "env_ok e \<longleftrightarrow> (\<forall>n. can_malloc e n) \<and> (\<forall>n. length (garbage e n) = n) \<and> (\<forall>c d. uv_write e c d = 0)"

lemma env_malloc: "env_ok e \<Longrightarrow> real_malloc (heap_malloc e)"
  by (simp add: env_ok_def real_malloc_def heap_malloc_def)

definition opens :: "env \<Rightarrow> string \<Rightarrow> bool" where
  "opens e h \<longleftrightarrow> uv_tcp_init e h = 0 \<and> uv_tcp_connect e h = 0"

text \<open>A local message goes to the open channel of its receiver when there is room for it.\<close>

definition deliver :: "channel_mgr \<Rightarrow> message \<Rightarrow> view \<Rightarrow> view" where
  "deliver cm x v =
     (case find_descriptor (descriptors cm) (busid_of (fst (snd x))) [0..<descriptor_count cm] of
        None \<Rightarrow> v
      | Some i \<Rightarrow> (let d = descriptors cm i; c = chans cm (r_offset d) in
          if closed d \<or> data_of x = [] \<or> \<not> used_nodes c (fst (v_chan v i)) + nodes_of c x < node_count c then v
          else v\<lparr>v_chan := (v_chan v)(i := (fst (v_chan v i) @ [x], snd (v_chan v i)))\<rparr>))"

text \<open>A message for another host is handed over when there is an endpoint, because a message has been handed over before, or when one can be opened.\<close>

definition pass :: "env \<Rightarrow> router \<Rightarrow> message \<Rightarrow> view \<Rightarrow> view" where
  "pass e r x v = (let b = busid_of (fst (snd x)) in
     if b \<in> inactive_endpoints r then v
     else case map_of (active_endpoints r) b of
       None \<Rightarrow> v\<lparr>v_wait := (v_wait v)(b := v_wait v b @ [x])\<rparr>
     | Some h \<Rightarrow> if h = localhost r then deliver (rt_mgr r) x v
         else if v_out v h \<noteq> [] \<or> opens e h then v\<lparr>v_out := (v_out v)(h := v_out v h @ [x])\<rparr> else v)"

section \<open>Refinement relation\<close>

text \<open>A queue of bus id \<open>b\<close>, which has no route unless \<open>b\<close> is in \<open>P\<close>, the bus ids whose queues are just being emptied, and the endpoint of host \<open>h\<close> with its queue.\<close>

definition wait_ok :: "int set \<Rightarrow> router \<Rightarrow> view \<Rightarrow> int \<Rightarrow> bool" where
  "wait_ok P r v b \<longleftrightarrow> (case busid2queue r b of
       None \<Rightarrow> v_wait v b = []
     | Some q \<Rightarrow> q \<noteq> [] \<and> (b \<notin> P \<longrightarrow> map_of (active_endpoints r) b = None) \<and> list_all2 holds q (v_wait v b) \<and> (\<forall>x \<in> set (v_wait v b). busid_of (fst (snd x)) = b))"

definition host_ok :: "env \<Rightarrow> router \<Rightarrow> view \<Rightarrow> string \<Rightarrow> bool" where
  "host_ok e r v h \<longleftrightarrow> (case host2endpoints r h of
       None \<Rightarrow> host2queue r h = None \<and> v_out v h = []
     | Some p \<Rightarrow> h \<noteq> localhost r \<and> v_out v h \<noteq> [] \<and> (case connection p of
           None \<Rightarrow> (\<exists>q. host2queue r h = Some q \<and> q \<noteq> [] \<and> list_all2 holds q (v_out v h)) \<and> seed p = 0 \<and> cl_state (client p) \<noteq> client_connected
         | Some a \<Rightarrow> host2queue r h = None \<and> cl_state (client p) = client_connected \<and> seed p = word_of_nat (length (v_out v h)) \<and>
             (\<forall>x \<in> set (v_out v h). sendable x) \<and> (\<exists>c. conns r a = Some c \<and> tc_state c = state_connected \<and> tc_host c = h \<and> written c = frames (MAGIC e) 1 (v_out v h))))"

definition router_view :: "int set \<Rightarrow> env \<Rightarrow> router \<Rightarrow> view \<Rightarrow> bool" where
  "router_view P e r v \<longleftrightarrow> mgr_ok (rt_mgr r) (v_chan v) \<and> (\<forall>b. map_of (active_endpoints r) b \<noteq> None \<longrightarrow> b \<notin> inactive_endpoints r) \<and>
     (\<forall>b. wait_ok P r v b) \<and> (\<forall>h. host_ok e r v h) \<and> length (bm_data (rt_msg r)) = buffer_capacity r \<and> buffer_capacity r < 2 ^ 31"

text \<open>What passing messages leaves alone; the channels keep their sizes.\<close>

definition same_shape :: "channel_mgr \<Rightarrow> channel_mgr \<Rightarrow> bool" where
  "same_shape cm cm' \<longleftrightarrow> descriptors cm' = descriptors cm \<and> descriptor_count cm' = descriptor_count cm \<and>
     (\<forall>p. node_size (chans cm' p) = node_size (chans cm p) \<and> node_count (chans cm' p) = node_count (chans cm p))"

definition same_routing :: "router \<Rightarrow> router \<Rightarrow> bool" where
  "same_routing r r' \<longleftrightarrow> active_endpoints r' = active_endpoints r \<and> inactive_endpoints r' = inactive_endpoints r \<and> localhost r' = localhost r \<and>
     loop_rate r' = loop_rate r \<and> host2seq r' = host2seq r \<and> consul r' = consul r \<and> same_shape (rt_mgr r) (rt_mgr r')"

lemma same_shape_refl [simp]: "same_shape cm cm"
  by (simp add: same_shape_def)

lemma same_routing_refl [simp]: "same_routing r r"
  by (simp add: same_routing_def)

lemma same_routing_trans: "same_routing r r' \<Longrightarrow> same_routing r' r'' \<Longrightarrow> same_routing r r''"
  by (simp add: same_routing_def same_shape_def)

lemma nodes_of_shape:
  assumes "node_size c = node_size c'"
  shows "nodes_of c = nodes_of c'" "used_nodes c = used_nodes c'"
proof -
  show n: "nodes_of c = nodes_of c'" using assms by (simp add: nodes_of_def fun_eq_iff)
  show "used_nodes c = used_nodes c'" unfolding used_nodes_def n ..
qed

lemma deliver_shape: "same_shape cm cm' \<Longrightarrow> deliver cm' = deliver cm"
proof (intro ext)
  fix x v assume s: "same_shape cm cm'"
  have "nodes_of (chans cm' p) = nodes_of (chans cm p)" "used_nodes (chans cm' p) = used_nodes (chans cm p)" for p
    using nodes_of_shape [of "chans cm' p" "chans cm p"] s by (simp_all add: same_shape_def)
  then show "deliver cm' x v = deliver cm x v" using s by (simp add: deliver_def same_shape_def Let_def split: option.split)
qed

lemma pass_routing: "same_routing r r' \<Longrightarrow> pass e r' = pass e r"
  using deliver_shape [of "rt_mgr r" "rt_mgr r'"] by (intro ext) (simp add: same_routing_def pass_def Let_def split: option.split)

section \<open>Local delivery\<close>

lemma push_cases:
  assumes "channel_ok c q" "length d < 2 ^ 31"
  shows "\<exists>ret c'. channel_push c s t u d = Some (ret, c') \<and> node_count c' = node_count c \<and> node_size c' = node_size c \<and> (ret = 0 \<or> ret = - ENOMEM) \<and>
    channel_ok c' (if d = [] \<or> \<not> used_nodes c q + nodes_of c (s, t, u, d) < node_count c then q else q @ [(s, t, u, d)])"
proof (cases "d = []")
  case True
  then show ?thesis using assms channel_okD(1) [OF assms(1)] by (simp add: channel_push_def)
next
  case False
  then show ?thesis using channel_push_ok [OF assms(1) False assms(2) refl, of s t u] channel_push_full [OF assms(1) False assms(2) refl, of s t u] assms(1)
    by (cases "used_nodes c q + nodes_of c (s, t, u, d) < node_count c") (simp, blast, simp)
qed

lemma send_local_ok:
  assumes ok: "mgr_ok (rt_mgr r) (v_chan v)" and m: "fits m"
  shows "\<exists>ret cm. send_local_message r m = Some (ret, r\<lparr>rt_mgr := cm\<rparr>) \<and> mgr_ok cm (v_chan (deliver (rt_mgr r) (msg_of m) v)) \<and> same_shape (rt_mgr r) cm"
proof -
  let ?cm = "rt_mgr r"
  have pl: "payload m = Some (data_of (msg_of m))" "length (data_of (msg_of m)) < 2 ^ 31" using m by (auto simp: payload_def msg_of_def fits_def)
  have mo: "(bm_src m, bm_dst m, bm_ctime m, data_of (msg_of m)) = msg_of m" by (simp add: msg_of_def)
  show ?thesis
  proof (cases "find_descriptor (descriptors ?cm) (busid_of (bm_dst m)) [0..<descriptor_count ?cm]")
    case None
    then show ?thesis using ok by (auto simp: send_local_message_def find_read_channel_def deliver_def msg_of_def intro!: exI [of _ "?cm"])
  next
    case (Some i)
    then have i: "i < descriptor_count ?cm" using find_descriptor_Some by force
    let ?d = "descriptors ?cm i"
    let ?c = "chans ?cm (r_offset ?d)"
    have c: "channel_ok ?c (fst (v_chan v i))" using mgr_okD(6) [OF ok i] by (simp add: desc_ok_def Let_def)
    show ?thesis
    proof (cases "closed ?d")
      case True
      then show ?thesis using Some ok i
        by (auto simp: send_local_message_def find_read_channel_def get_read_channel_def deliver_def msg_of_def Let_def intro!: exI [of _ "?cm"])
    next
      case False
      obtain ret c' where c': "channel_push ?c (bm_src m) (bm_dst m) (bm_ctime m) (data_of (msg_of m)) = Some (ret, c')"
          "node_count c' = node_count ?c" "node_size c' = node_size ?c"
          "channel_ok c' (if data_of (msg_of m) = [] \<or> \<not> used_nodes ?c (fst (v_chan v i)) + nodes_of ?c (msg_of m) < node_count ?c then fst (v_chan v i) else fst (v_chan v i) @ [msg_of m])"
        using push_cases [OF c pl(2), of "bm_src m" "bm_dst m" "bm_ctime m"] unfolding mo by blast
      let ?cm' = "set_channel ?cm (r_offset ?d) c'"
      have sh: "same_shape ?cm ?cm'" using c'(2,3) by (simp add: same_shape_def set_channel_def)
      have q: "v_chan (deliver ?cm (msg_of m) v) = (v_chan v)(i := (if data_of (msg_of m) = [] \<or> \<not> used_nodes ?c (fst (v_chan v i)) + nodes_of ?c (msg_of m) < node_count ?c
          then fst (v_chan v i) else fst (v_chan v i) @ [msg_of m], snd (v_chan v i)))"
        using Some False by (auto simp: deliver_def Let_def msg_of_def)
      have "mgr_ok ?cm' (v_chan (deliver ?cm (msg_of m) v))" unfolding q by (rule mgr_ok_channel [OF ok i c'(4,3,2)]) simp
      moreover have "send_local_message r m = Some (ret, r\<lparr>rt_mgr := if ret \<noteq> 0 then ?cm' else ?cm'\<lparr>signals := signals ?cm' @ [(desc_pid (descriptors ?cm' i), int i)]\<rparr>\<rparr>)"
        using Some False i c'(1) channel_okD(1) [OF c] pl(1) by (simp add: send_local_message_def find_read_channel_def get_read_channel_def Let_def)
      ultimately show ?thesis using sh mgr_ok_signals by (intro exI conjI) (assumption, auto simp: same_shape_def)
    qed
  qed
qed

section \<open>Sending to another daemon\<close>

text \<open>Sending on a connection that has carried the messages \<open>xs\<close>: the bytes of the message with the next number follow.\<close>

lemma ep_send_ok:
  assumes e: "env_ok e" and m: "fits m" and p: "connection p = Some a" "cs a = Some c" "tc_state c = state_connected" "written c = frames (MAGIC e) 1 xs"
    "seed p = word_of_nat (length xs)"
  shows "\<exists>m' c'. ep_send e cs p m = Some (0, m', p\<lparr>seed := word_of_nat (length (xs @ [msg_of m]))\<rparr>, cs(a \<mapsto> c')) \<and> bm_data m' = bm_data m \<and>
    bm_length m' = intrev32 (bm_length m) \<and> tc_state c' = state_connected \<and> tc_host c' = tc_host c \<and> written c' = frames (MAGIC e) 1 (xs @ [msg_of m])"
proof -
  let ?s = "word_of_nat (length xs) + 1 :: u32" and ?d = "data_of (msg_of m)"
  have pl: "payload m = Some ?d" "length ?d = unat (bm_length m)" "length ?d < 2 ^ 31" using m by (auto simp: payload_def msg_of_def fits_def)
  obtain h where h: "murmurhash3_x86_32 ?d MURMURHASH_SEED = Some h" using x86_32_eq [OF pl(3)] by blast
  let ?m = "m\<lparr>bm_magic := MAGIC e, bm_seq := ?s, bm_hash := h\<rparr>"
  have "hton ?m = (hton (numbered (MAGIC e) ?s (msg_of m)))\<lparr>bm_data := bm_data m\<rparr>"
    using h pl(2) by (simp add: numbered_def hton_def msg_of_def)
  then have "encode_head (hton ?m) = encode_head (hton (numbered (MAGIC e) ?s (msg_of m)))" by (simp add: encode_head_def)
  then have f: "take (total_length m) (encode_head (hton ?m) @ bm_data m) = frame (MAGIC e) ?s (msg_of m)"
    by (simp add: frame_def total_length_def sizeof_bus_message_def msg_of_def)
  have ch: "calc_hash (m\<lparr>bm_magic := MAGIC e, bm_seq := ?s\<rparr>) = Some ?m" using pl(1) h by (simp add: calc_hash_def payload_def)
  have "total_length m \<le> length (encode_head (hton ?m) @ bm_data m)" using m by (simp add: total_length_def sizeof_bus_message_def fits_def)
  moreover obtain c' where c': "tc_send (heap_malloc e) (uv_write e) c (frame (MAGIC e) ?s (msg_of m)) = Some (0, c')" "tc_state c' = state_connected" "tc_host c' = tc_host c"
      "written c' = written c @ frame (MAGIC e) ?s (msg_of m)"
    using tc_send_ok [OF env_malloc [OF e] p(3), of "uv_write e" "frame (MAGIC e) ?s (msg_of m)"] e unfolding env_ok_def by blast
  ultimately have "ep_send e cs p m = Some (0, hton ?m, p\<lparr>seed := ?s\<rparr>, cs(a \<mapsto> c'))"
    using p f ch by (simp add: ep_send_def Let_def)
  then show ?thesis using p(4) c' by (auto simp: frames_append hton_def add.commute)
qed

section \<open>Handling a message\<close>

lemma router_viewD:
  assumes "router_view P e r v"
  shows "mgr_ok (rt_mgr r) (v_chan v)" "map_of (active_endpoints r) b \<noteq> None \<Longrightarrow> b \<notin> inactive_endpoints r" "wait_ok P r v b" "host_ok e r v h"
    "length (bm_data (rt_msg r)) = buffer_capacity r" "buffer_capacity r < 2 ^ 31"
  using assms by (auto simp: router_view_def)

lemma dup_ok:
  assumes "env_ok e" "fits m"
  shows "\<exists>y. dup (can_malloc e) m = Some (Some y) \<and> holds (Some y) (msg_of m)"
  using assms by (auto simp: dup_def env_ok_def payload_def fits_def holds_def msg_of_def)

lemma fits_sendable: "fits m \<Longrightarrow> sendable (msg_of m)"
  by (simp add: fits_def sendable_def msg_of_def)

lemma holds_sendable: "list_all2 holds q ys \<Longrightarrow> y \<in> set ys \<Longrightarrow> sendable y"
  by (induction rule: list_all2_induct) (auto simp: holds_def dest: fits_sendable)

lemma queue_snoc: "list_all2 P xs ys \<Longrightarrow> P a b \<Longrightarrow> list_all2 P (xs @ [a]) (ys @ [b])"
  by (rule list_all2_appendI) simp_all

lemma enqueue_busid_ok:
  assumes e: "env_ok e" and v: "router_view P e r v" and m: "fits m" "busid_of (bm_dst m) = b" and n: "map_of (active_endpoints r) b = None"
  shows "\<exists>q. enqueue_busid e r b m = Some (r\<lparr>busid2queue := q\<rparr>) \<and> router_view P e (r\<lparr>busid2queue := q\<rparr>) (v\<lparr>v_wait := (v_wait v)(b := v_wait v b @ [msg_of m])\<rparr>)"
proof -
  obtain y where y: "dup (can_malloc e) m = Some (Some y)" "holds (Some y) (msg_of m)" using dup_ok [OF e m(1)] by blast
  define q where "q = (case busid2queue r b of None \<Rightarrow> [] | Some q \<Rightarrow> q)"
  have q: "list_all2 holds q (v_wait v b)" "\<forall>x \<in> set (v_wait v b). busid_of (fst (snd x)) = b"
    using router_viewD(3) [OF v, of b] by (auto simp: wait_ok_def q_def split: option.splits)
  let ?r = "r\<lparr>busid2queue := (busid2queue r)(b \<mapsto> q @ [Some y])\<rparr>" and ?v = "v\<lparr>v_wait := (v_wait v)(b := v_wait v b @ [msg_of m])\<rparr>"
  have "wait_ok P ?r ?v b'" for b'
    using router_viewD(3) [OF v, of b'] q queue_snoc [OF q(1) y(2)] n m(2) by (cases "b' = b") (auto simp: wait_ok_def msg_of_def cong: option.case_cong)
  moreover have "host_ok e ?r ?v h" for h using router_viewD(4) [OF v, of h] by (simp add: host_ok_def cong: option.case_cong)
  ultimately have "router_view P e ?r ?v" using v by (simp add: router_view_def)
  moreover have "enqueue_busid e r b m = Some ?r" using y(1) by (simp add: enqueue_busid_def q_def Let_def)
  ultimately show ?thesis by blast
qed

lemma router_view_mgr:
  assumes "router_view P e r v" "mgr_ok cm (v_chan v')" "v_wait v' = v_wait v" "v_out v' = v_out v"
  shows "router_view P e (r\<lparr>rt_mgr := cm\<rparr>) v'"
  using assms by (simp add: router_view_def wait_ok_def host_ok_def cong: option.case_cong)

lemma local_ok:
  assumes v: "router_view P e r v" and m: "fits m"
  shows "\<exists>ret cm. send_local_message r m = Some (ret, r\<lparr>rt_mgr := cm\<rparr>) \<and> router_view P e (r\<lparr>rt_mgr := cm\<rparr>) (deliver (rt_mgr r) (msg_of m) v) \<and> same_shape (rt_mgr r) cm"
proof -
  obtain ret cm where c: "send_local_message r m = Some (ret, r\<lparr>rt_mgr := cm\<rparr>)" "mgr_ok cm (v_chan (deliver (rt_mgr r) (msg_of m) v))" "same_shape (rt_mgr r) cm"
    using send_local_ok [OF router_viewD(1) [OF v] m] by blast
  have d: "v_wait (deliver (rt_mgr r) x v) = v_wait v" "v_out (deliver (rt_mgr r) x v) = v_out v" for x
    by (simp_all add: deliver_def Let_def split: option.splits)
  have "router_view P e (r\<lparr>rt_mgr := cm\<rparr>) (deliver (rt_mgr r) (msg_of m) v)"
    by (rule router_view_mgr [OF v c(2) d])
  then show ?thesis using c by blast
qed

text \<open>A message for another host, whose endpoint is opened when it is not there.\<close>

definition send_remote :: "env \<Rightarrow> router \<Rightarrow> string \<Rightarrow> bus_message \<Rightarrow> (int \<times> bus_message \<times> router) option" where
  "send_remote e r h m = do {
     p \<leftarrow> host2endpoints r h;
     b \<leftarrow> ep_connected p;
     if b then do {
       sk_assert (host2queue r h = None);
       (ret, m, p, cs) \<leftarrow> ep_send e (conns r) p m;
       Some (ret, m, r\<lparr>host2endpoints := (host2endpoints r)(h \<mapsto> p), conns := cs\<rparr>)
     }
     else do { r \<leftarrow> enqueue_host e r h m; Some (0, m, r) }
   }"

lemma host_ok_other:
  assumes "host_ok e r v h" "host2endpoints r' h = host2endpoints r h" "host2queue r' h = host2queue r h" "localhost r' = localhost r" "v_out v' h = v_out v h"
    and "\<And>a c. conns r a = Some c \<Longrightarrow> tc_host c = h \<Longrightarrow> conns r' a = Some c"
  shows "host_ok e r' v' h"
  using assms by (auto simp: host_ok_def split: option.splits)

lemma host_connectedI:
  assumes "host2endpoints r h = Some p" "connection p = Some a" "conns r a = Some c" "seed p = word_of_nat (length (v_out v h))"
    and "written c = frames (MAGIC e) 1 (v_out v h)" "tc_host c = h" "tc_state c = state_connected" "cl_state (client p) = client_connected"
    and "h \<noteq> localhost r" "v_out v h \<noteq> []" "host2queue r h = None" "\<forall>x \<in> set (v_out v h). sendable x"
  shows "host_ok e r v h"
  using assms by (simp add: host_ok_def)

lemma wait_ok_other: "busid2queue r' b = busid2queue r b \<Longrightarrow> active_endpoints r' = active_endpoints r \<Longrightarrow> v_wait v' b = v_wait v b \<Longrightarrow> wait_ok P r' v' b = wait_ok P r v b"
  by (simp add: wait_ok_def split: option.split)

lemma send_connected:
  assumes e: "env_ok e" and v: "router_view P e r v" and m: "fits m" and p: "host2endpoints r h = Some p" "connection p = Some a"
  shows "\<exists>m' eps cs. send_remote e r h m = Some (0, m', r\<lparr>host2endpoints := eps, conns := cs\<rparr>) \<and> bm_data m' = bm_data m \<and> bm_length m' = intrev32 (bm_length m) \<and>
    router_view P e (r\<lparr>host2endpoints := eps, conns := cs\<rparr>) (v\<lparr>v_out := (v_out v)(h := v_out v h @ [msg_of m])\<rparr>)"
proof -
  note H = router_viewD(4) [OF v]
  obtain c where c: "host2queue r h = None" "cl_state (client p) = client_connected" "seed p = word_of_nat (length (v_out v h))" "conns r a = Some c"
      "tc_state c = state_connected" "tc_host c = h" "written c = frames (MAGIC e) 1 (v_out v h)" "h \<noteq> localhost r" "\<forall>x \<in> set (v_out v h). sendable x"
    using H [of h] p by (auto simp: host_ok_def)
  obtain m' c' where s: "ep_send e (conns r) p m = Some (0, m', p\<lparr>seed := word_of_nat (length (v_out v h @ [msg_of m]))\<rparr>, (conns r)(a \<mapsto> c'))"
      "bm_data m' = bm_data m" "bm_length m' = intrev32 (bm_length m)" "tc_state c' = state_connected" "tc_host c' = tc_host c"
      "written c' = frames (MAGIC e) 1 (v_out v h @ [msg_of m])"
    using ep_send_ok [where cs = "conns r", OF e m p(2) c(4,5,7,3)] by blast
  let ?p = "p\<lparr>seed := word_of_nat (length (v_out v h @ [msg_of m]))\<rparr>"
  let ?r = "r\<lparr>host2endpoints := (host2endpoints r)(h \<mapsto> ?p), conns := (conns r)(a \<mapsto> c')\<rparr>" and ?v = "v\<lparr>v_out := (v_out v)(h := v_out v h @ [msg_of m])\<rparr>"
  have "send_remote e r h m = Some (0, m', ?r)" using p c(1,2) s(1) by (simp add: send_remote_def ep_connected_def)
  moreover have "host_ok e ?r ?v g" for g
  proof (cases "g = h")
    case True
    have "host_ok e ?r ?v h"
      by (rule host_connectedI [where p = ?p and a = a and c = c']) (use c s(4,5,6) p(2) fits_sendable [OF m] in simp_all)
    then show ?thesis using True by simp
  next
    case False
    have "x \<noteq> a" if "conns r x = Some d" "tc_host d = g" for x d using that c(4,6) False by auto
    then show ?thesis using False by (intro host_ok_other [OF H [of g]]) simp_all
  qed
  moreover have "wait_ok P ?r ?v b" for b using router_viewD(3) [OF v, of b] wait_ok_other [of ?r b r ?v v P] by simp
  ultimately have "router_view P e ?r ?v" using v by (simp add: router_view_def)
  then show ?thesis using \<open>send_remote e r h m = Some (0, m', ?r)\<close> s(2,3) by blast
qed

lemma send_waiting:
  assumes e: "env_ok e" and v: "router_view P e r v" and m: "fits m" and p: "host2endpoints r h = Some p" "connection p = None"
  shows "\<exists>q. send_remote e r h m = Some (0, m, r\<lparr>host2queue := q\<rparr>) \<and>
    router_view P e (r\<lparr>host2queue := q\<rparr>) (v\<lparr>v_out := (v_out v)(h := v_out v h @ [msg_of m])\<rparr>)"
proof -
  note H = router_viewD(4) [OF v]
  obtain y where y: "dup (can_malloc e) m = Some (Some y)" "holds (Some y) (msg_of m)" using dup_ok [OF e m] by blast
  obtain q where q: "host2queue r h = Some q" "list_all2 holds q (v_out v h)" "seed p = 0" "cl_state (client p) \<noteq> client_connected" "h \<noteq> localhost r"
    using H [of h] p by (auto simp: host_ok_def)
  let ?r = "r\<lparr>host2queue := (host2queue r)(h \<mapsto> q @ [Some y])\<rparr>" and ?v = "v\<lparr>v_out := (v_out v)(h := v_out v h @ [msg_of m])\<rparr>"
  have "send_remote e r h m = Some (0, m, ?r)" using p q(1) y(1) by (simp add: send_remote_def ep_connected_def enqueue_host_def Let_def)
  moreover have "host_ok e ?r ?v g" for g
    using H [of g] q p queue_snoc [OF q(2) y(2)] by (cases "g = h") (auto simp: host_ok_def cong: option.case_cong)
  moreover have "wait_ok P ?r ?v b" for b using router_viewD(3) [OF v, of b] wait_ok_other [of ?r b r ?v v P] by simp
  ultimately show ?thesis using v by (auto simp: router_view_def)
qed

text \<open>The first message for a host opens its endpoint.\<close>

lemma send_first:
  assumes e: "env_ok e" and v: "router_view P e r v" and m: "fits m" and p: "host2endpoints r h = None" and o: "opens e h" "h \<noteq> localhost r"
    and r1: "r1 = r\<lparr>host2endpoints := (host2endpoints r)(h \<mapsto> \<lparr>seed = 0, client = cl, connection = None\<rparr>)\<rparr>" "cl_state cl = client_connecting"
  shows "\<exists>q. send_remote e r1 h m = Some (0, m, r1\<lparr>host2queue := q\<rparr>) \<and>
    router_view P e (r1\<lparr>host2queue := q\<rparr>) (v\<lparr>v_out := (v_out v)(h := v_out v h @ [msg_of m])\<rparr>)"
proof -
  note H = router_viewD(4) [OF v]
  obtain y where y: "dup (can_malloc e) m = Some (Some y)" "holds (Some y) (msg_of m)" using dup_ok [OF e m] by blast
  have q: "host2queue r h = None" "v_out v h = []" using H [of h] p by (simp_all add: host_ok_def)
  let ?r = "r1\<lparr>host2queue := (host2queue r)(h \<mapsto> [Some y])\<rparr>" and ?v = "v\<lparr>v_out := (v_out v)(h := v_out v h @ [msg_of m])\<rparr>"
  have "send_remote e r1 h m = Some (0, m, ?r)" using q(1) y(1) r1(1) by (simp add: send_remote_def ep_connected_def enqueue_host_def Let_def)
  moreover have "host_ok e ?r ?v g" for g
    using H [of g] q o y(2) r1 by (cases "g = h") (auto simp: host_ok_def cong: option.case_cong)
  moreover have "wait_ok P ?r ?v b" for b using router_viewD(3) [OF v, of b] wait_ok_other [of ?r b r ?v v P] r1(1) by simp
  ultimately show ?thesis using v r1(1) by (auto simp: router_view_def)
qed

text \<open>A message is settled when it does not leave the host.\<close>

definition settled :: "router \<Rightarrow> message \<Rightarrow> bool" where
  "settled r x \<longleftrightarrow> (let b = busid_of (fst (snd x)) in b \<in> inactive_endpoints r \<or> map_of (active_endpoints r) b \<in> {None, Some (localhost r)})"

lemma handle_ok:
  assumes e: "env_ok e" and v: "router_view P e r v" and m: "fits m"
  shows "\<exists>ret m' r'. handle_message e r m = Some (ret, m', r') \<and> router_view P e r' (pass e r (msg_of m) v) \<and> same_routing r r' \<and>
    rt_msg r' = rt_msg r \<and> buffer_capacity r' = buffer_capacity r \<and> bm_data m' = bm_data m \<and> (settled r (msg_of m) \<longrightarrow> m' = m)"
proof -
  let ?b = "busid_of (bm_dst m)"
  have b: "fst (snd (msg_of m)) = bm_dst m" by (simp add: msg_of_def)
  consider "?b \<in> inactive_endpoints r" | "?b \<notin> inactive_endpoints r" "map_of (active_endpoints r) ?b = None"
    | "?b \<notin> inactive_endpoints r" "map_of (active_endpoints r) ?b = Some (localhost r)"
    | h where "?b \<notin> inactive_endpoints r" "map_of (active_endpoints r) ?b = Some h" "h \<noteq> localhost r" by fastforce
  then show ?thesis
  proof cases
    case 1
    then show ?thesis using v by (simp add: handle_message_def pass_def b Let_def)
  next
    case 2
    then show ?thesis using enqueue_busid_ok [OF e v m refl] by (auto simp: handle_message_def find_host_def pass_def b same_routing_def Let_def)
  next
    case 3
    then show ?thesis using local_ok [OF v m] by (auto simp: handle_message_def find_host_def pass_def b same_routing_def Let_def)
  next
    case (4 h)
    have ns: "\<not> settled r (msg_of m)" using 4 by (simp add: settled_def b)
    have hm: "handle_message e r m = do { (ok, r) \<leftarrow> fetch_endpoint e r h; if \<not> ok then Some (- ENOENT, m, r) else send_remote e r h m }"
      unfolding handle_message_def find_host_def send_remote_def using 4 by simp
    have ps: "pass e r (msg_of m) v = (if v_out v h \<noteq> [] \<or> opens e h then v\<lparr>v_out := (v_out v)(h := v_out v h @ [msg_of m])\<rparr> else v)"
      using 4 by (simp add: pass_def b Let_def)
    show ?thesis
    proof (cases "host2endpoints r h")
      case (Some p)
      then have o: "v_out v h \<noteq> []" using router_viewD(4) [OF v, of h] by (auto simp: host_ok_def)
      have f: "fetch_endpoint e r h = Some (True, r)" using Some 4 by (simp add: fetch_endpoint_def)
      show ?thesis using send_connected [OF e v m Some] send_waiting [OF e v m Some] hm f ps o ns
        by (cases "connection p") (auto simp: same_routing_def)
    next
      case None
      then have o: "v_out v h = []" using router_viewD(4) [OF v, of h] by (simp add: host_ok_def)
      have mem: "can_malloc e n" for n using e by (simp add: env_ok_def)
      show ?thesis
      proof (cases "opens e h")
        case True
        let ?cl = "tcp_client_new\<lparr>cl_handle := True, cl_state := client_connecting\<rparr>"
        let ?r = "r\<lparr>host2endpoints := (host2endpoints r)(h \<mapsto> \<lparr>seed = 0, client = ?cl, connection = None\<rparr>)\<rparr>"
        have "fetch_endpoint e r h = Some (True, ?r)"
          using None 4 True mem by (simp add: fetch_endpoint_def client_connect_def tcp_client_new_def opens_def)
        moreover obtain q where "send_remote e ?r h m = Some (0, m, ?r\<lparr>host2queue := q\<rparr>)"
            "router_view P e (?r\<lparr>host2queue := q\<rparr>) (v\<lparr>v_out := (v_out v)(h := v_out v h @ [msg_of m])\<rparr>)"
          using send_first [OF e v m None True 4(3) refl, of ?cl] by auto
        ultimately show ?thesis using hm ps True by (simp add: same_routing_def)
      next
        case False
        then have "fetch_endpoint e r h = Some (False, r)"
          using None 4 mem by (auto simp: fetch_endpoint_def client_connect_def tcp_client_new_def opens_def)
        then show ?thesis using hm ps o False v by simp
      qed
    qed
  qed
qed

end
