(* ===== verification/Bus_Router_Local.thy ===== *)
theory Bus_Router_Local
  imports Bus_Router_Correct
begin

text \<open>
  The daemon taking messages from the write channel of a local process: \<^verbatim>\<open>on_local_message\<close> of \<^verbatim>\<open>src/bus/bus_router.cpp\<close> passes on the oldest messages of the channel in
  their order, at most as many as one run may handle, and takes a larger block when a message does not fit the one it has.
\<close>

section \<open>Taking one message\<close>

abbreviation taken :: "view \<Rightarrow> nat \<Rightarrow> message list \<Rightarrow> view" where
  "taken v i xs \<equiv> v\<lparr>v_chan := (v_chan v)(i := (fst (v_chan v i), xs))\<rparr>"

primrec drain :: "env \<Rightarrow> router \<Rightarrow> nat \<Rightarrow> nat \<Rightarrow> view \<Rightarrow> view" where
  "drain e r i 0 v = v"
| "drain e r i (Suc n) v = (case snd (v_chan v i) of [] \<Rightarrow> v | x # xs \<Rightarrow> drain e r i n (pass e r x (taken v i xs)))"

lemma drain_routing: "same_routing r r' \<Longrightarrow> drain e r' i n v = drain e r i n v"
  by (induction n arbitrary: v) (simp_all add: pass_routing split: list.split)

lemma set_channel_same [simp]: "set_channel cm p (chans cm p) = cm"
  by (simp add: set_channel_def)

lemma write_channel_ok:
  assumes "mgr_ok cm Q" "i < descriptor_count cm"
  shows "channel_ok (chans cm (w_offset (descriptors cm i))) (snd (Q i))"
  using mgr_okD(6) [OF assms] by (simp add: desc_ok_def Let_def)

lemma stored_sendable: "channel_ok c (x # xs) \<Longrightarrow> sendable x"
  using channel_okD(9) [of c "x # xs"] by (simp add: sendable_def)

lemma router_view_msg:
  assumes "router_view P e r v" "length (bm_data m) = c" "c < 2 ^ 31"
  shows "router_view P e (r\<lparr>rt_msg := m, buffer_capacity := c\<rparr>) v"
  using assms by (simp add: router_view_def wait_ok_def host_ok_def cong: option.case_cong)

lemma router_view_taken:
  assumes "router_view P e r v" "mgr_ok cm ((v_chan v)(i := (fst (v_chan v i), xs)))" "length (bm_data m) = c" "c < 2 ^ 31"
  shows "router_view P e (r\<lparr>rt_mgr := cm, rt_msg := m, buffer_capacity := c\<rparr>) (taken v i xs)"
  using assms by (simp add: router_view_def wait_ok_def host_ok_def cong: option.case_cong)

text \<open>The three results of \<^verbatim>\<open>pop\<close>, with the capacity of the block in the length field.\<close>

lemma pop_into_empty:
  assumes "mgr_ok (rt_mgr r) Q" "i < descriptor_count (rt_mgr r)" "snd (Q i) = []"
  shows "pop_into r (w_offset (descriptors (rt_mgr r) i)) = Some (0, r)"
proof -
  let ?w = "w_offset (descriptors (rt_mgr r) i)"
  have "channel_ok (chans (rt_mgr r) ?w) []" using write_channel_ok [OF assms(1,2)] assms(3) by simp
  then show ?thesis by (simp add: pop_into_def channel_pop_empty)
qed

lemma pop_into_small:
  assumes "mgr_ok (rt_mgr r) Q" "i < descriptor_count (rt_mgr r)" "snd (Q i) = x # xs" "unat (bm_length (rt_msg r)) < length (data_of x)"
  shows "pop_into r (w_offset (descriptors (rt_mgr r) i)) = Some (- E2BIG, r\<lparr>rt_msg := (rt_msg r)\<lparr>bm_length := word_of_nat (length (data_of x))\<rparr>\<rparr>)"
proof -
  let ?w = "w_offset (descriptors (rt_mgr r) i)"
  obtain s d t y where x: "x = (s, d, t, y)" by (cases x)
  have "channel_ok (chans (rt_mgr r) ?w) (x # xs)" using write_channel_ok [OF assms(1,2)] assms(3) by simp
  then show ?thesis using channel_pop_ok [OF _ x] assms(4) x by (simp add: pop_into_def E2BIG_def)
qed

lemma pop_into_fits:
  assumes ok: "mgr_ok (rt_mgr r) Q" and i: "i < descriptor_count (rt_mgr r)" and q: "snd (Q i) = x # xs"
    and l: "length (data_of x) \<le> unat (bm_length (rt_msg r))" "unat (bm_length (rt_msg r)) = length (bm_data (rt_msg r))"
  shows "\<exists>cm m. pop_into r (w_offset (descriptors (rt_mgr r) i)) = Some (1, r\<lparr>rt_mgr := cm, rt_msg := m\<rparr>) \<and> fits m \<and> msg_of m = x \<and>
    length (bm_data m) = length (bm_data (rt_msg r)) \<and> mgr_ok cm (Q(i := (fst (Q i), xs))) \<and> same_shape (rt_mgr r) cm"
proof -
  let ?w = "w_offset (descriptors (rt_mgr r) i)"
  let ?c = "chans (rt_mgr r) ?w" and ?m = "rt_msg r"
  obtain s d t y where x: "x = (s, d, t, y)" by (cases x)
  have c: "channel_ok ?c (x # xs)" using write_channel_ok [OF ok i] q by simp
  let ?c' = "?c\<lparr>read_pos := (read_pos ?c + nodes_of ?c x) mod node_count ?c, pop_count := (pop_count ?c + 1) mod 2 ^ 64\<rparr>"
  let ?m' = "?m\<lparr>bm_data := y @ drop (length y) (bm_data ?m), bm_src := s, bm_dst := d, bm_ctime := t, bm_length := word_of_nat (length y)\<rparr>"
  have y: "length y < 2 ^ 31" "length y \<le> length (bm_data ?m)" using stored_sendable [OF c] l x by (simp_all add: sendable_def)
  then have u: "unat (word_of_nat (length y) :: u32) = length y" by (simp add: unat_of_nat)
  have "pop_into r ?w = Some (1, r\<lparr>rt_mgr := set_channel (rt_mgr r) ?w ?c', rt_msg := ?m'\<rparr>)"
    using channel_pop_ok [OF c x, of "Some (unat (bm_length ?m))"] l(1) x by (simp add: pop_into_def Let_def)
  moreover have "mgr_ok (set_channel (rt_mgr r) ?w ?c') (Q(i := (fst (Q i), xs)))" by (rule mgr_ok_channel [OF ok i channel_ok_pop [OF c]]) simp_all
  moreover have "same_shape (rt_mgr r) (set_channel (rt_mgr r) ?w ?c')" by (simp add: same_shape_def set_channel_def)
  ultimately show ?thesis using y u x by (intro exI conjI) (assumption, simp_all add: fits_def msg_of_def)
qed

section \<open>One turn of the loop\<close>

lemma local_stop:
  assumes "mgr_ok (rt_mgr r) Q" "i < descriptor_count (rt_mgr r)" "snd (Q i) = []" "count < loop_rate r"
  shows "local_loop e r (w_offset (descriptors (rt_mgr r) i)) count = Some (r\<lparr>rt_msg := bm_reset (buffer_capacity r) (rt_msg r)\<rparr>)"
  using pop_into_empty [of "r\<lparr>rt_msg := bm_reset (buffer_capacity r) (rt_msg r)\<rparr>" Q i] assms by (subst local_loop.simps) (simp add: Let_def)

lemma local_turn:
  assumes e: "env_ok e" and v: "router_view P e r v" and i: "i < descriptor_count (rt_mgr r)" and q: "snd (v_chan v i) = x # xs" and n: "count < loop_rate r"
    and w: "w = w_offset (descriptors (rt_mgr r) i)"
  shows "\<exists>r1. local_loop e r w count = do { (rc, m, r2) \<leftarrow> handle_message e r1 (rt_msg r1); local_loop e (r2\<lparr>rt_msg := m\<rparr>) w (count + 1) } \<and>
    router_view P e r1 (taken v i xs) \<and> same_routing r r1 \<and> fits (rt_msg r1) \<and> msg_of (rt_msg r1) = x"
proof -
  let ?r = "r\<lparr>rt_msg := bm_reset (buffer_capacity r) (rt_msg r)\<rparr>"
  note d = router_viewD [OF v]
  have ok: "mgr_ok (rt_mgr ?r) (v_chan v)" using d(1) by simp
  have bl: "unat (bm_length (rt_msg ?r)) = buffer_capacity r" "length (bm_data (rt_msg ?r)) = buffer_capacity r"
    using d(5,6) by (simp_all add: bm_reset_def unat_of_nat)
  have step: "local_loop e r w count = do { (ret, r) \<leftarrow> pop_into ?r w;
      if ret = 0 then Some r else if ret < 0 \<and> ret \<noteq> - E2BIG then local_loop e r w count
      else do { (ret, r) \<leftarrow> (if ret < 0 then grow_and_pop e r w else Some (ret, r));
        if ret < 0 then do { sk_assert (ret \<noteq> - E2BIG); local_loop e r w count }
        else do { sk_assert (ret = 1); (rc, m, r) \<leftarrow> handle_message e r (rt_msg r); local_loop e (r\<lparr>rt_msg := m\<rparr>) w (count + 1) } } }"
    using n by (subst local_loop.simps) (simp add: Let_def)
  show ?thesis
  proof (cases "length (data_of x) \<le> buffer_capacity r")
    case True
    then obtain cm m where p: "pop_into ?r w = Some (1, ?r\<lparr>rt_mgr := cm, rt_msg := m\<rparr>)" "fits m" "msg_of m = x"
        "length (bm_data m) = buffer_capacity r" "mgr_ok cm ((v_chan v)(i := (fst (v_chan v i), xs)))" "same_shape (rt_mgr r) cm"
      using pop_into_fits [OF ok _ q] i bl w by auto
    have "router_view P e (r\<lparr>rt_mgr := cm, rt_msg := m, buffer_capacity := buffer_capacity r\<rparr>) (taken v i xs)"
      by (rule router_view_taken [OF v p(5,4) d(6)])
    then show ?thesis using p by (intro exI [of _ "?r\<lparr>rt_mgr := cm, rt_msg := m\<rparr>"]) (simp add: step same_routing_def)
  next
    case False
    let ?n = "length (data_of x)"
    have "channel_ok (chans (rt_mgr r) w) (x # xs)" using write_channel_ok [OF d(1) i] q w by simp
    then have nb: "?n < 2 ^ 31" using stored_sendable by (auto simp: sendable_def)
    then have u: "unat (word_of_nat ?n :: u32) = ?n" by (simp add: unat_of_nat)
    let ?r1 = "?r\<lparr>rt_msg := (rt_msg ?r)\<lparr>bm_length := word_of_nat ?n\<rparr>\<rparr>"
    let ?r2 = "?r1\<lparr>buffer_capacity := ?n, rt_msg := bm_init (MAGIC e) ?n (garbage e ?n)\<rparr>"
    have s: "pop_into ?r w = Some (- E2BIG, ?r1)" using pop_into_small [OF ok _ q] i bl w False by simp
    have gl: "length (garbage e ?n) = ?n" using e by (simp add: env_ok_def)
    have "\<exists>cm m. pop_into ?r2 w = Some (1, ?r2\<lparr>rt_mgr := cm, rt_msg := m\<rparr>) \<and> fits m \<and> msg_of m = x \<and>
        length (bm_data m) = ?n \<and> mgr_ok cm ((v_chan v)(i := (fst (v_chan v i), xs))) \<and> same_shape (rt_mgr r) cm"
      using pop_into_fits [of ?r2 "v_chan v" i x xs] d(1) q i w u gl by (simp add: bm_init_def)
    then obtain cm m where p: "pop_into ?r2 w = Some (1, ?r2\<lparr>rt_mgr := cm, rt_msg := m\<rparr>)" "fits m" "msg_of m = x"
        "length (bm_data m) = ?n" "mgr_ok cm ((v_chan v)(i := (fst (v_chan v i), xs)))" "same_shape (rt_mgr r) cm"
      by blast
    have g: "grow_and_pop e ?r1 w = Some (1, ?r2\<lparr>rt_mgr := cm, rt_msg := m\<rparr>)"
      using p(1) e u by (simp add: grow_and_pop_def env_ok_def Let_def)
    have "router_view P e (r\<lparr>rt_mgr := cm, rt_msg := m, buffer_capacity := ?n\<rparr>) (taken v i xs)"
      by (rule router_view_taken [OF v p(5,4) nb])
    moreover have "r\<lparr>rt_mgr := cm, rt_msg := m, buffer_capacity := ?n\<rparr> = ?r2\<lparr>rt_mgr := cm, rt_msg := m\<rparr>" by (rule router.equality) simp_all
    ultimately have "router_view P e (?r2\<lparr>rt_mgr := cm, rt_msg := m\<rparr>) (taken v i xs)" by (simp only:)
    moreover have "local_loop e r w count = do { (rc, m, r2) \<leftarrow> handle_message e (?r2\<lparr>rt_mgr := cm, rt_msg := m\<rparr>) m; local_loop e (r2\<lparr>rt_msg := m\<rparr>) w (count + 1) }"
      unfolding step s using g by (simp add: E2BIG_def del: router.simps)
    ultimately show ?thesis using p(2,3,6) by (intro exI [of _ "?r2\<lparr>rt_mgr := cm, rt_msg := m\<rparr>"]) (simp add: same_routing_def)
  qed
qed

section \<open>The loop\<close>

lemma local_loop_ok:
  assumes "env_ok e" "router_view P e r v" "i < descriptor_count (rt_mgr r)" "n = nat (loop_rate r - count)"
  shows "\<exists>r'. local_loop e r (w_offset (descriptors (rt_mgr r) i)) count = Some r' \<and> router_view P e r' (drain e r i n v) \<and> same_routing r r'"
  using assms(2-4)
proof (induction n arbitrary: r v count)
  case 0
  then show ?case by (subst local_loop.simps) simp
next
  case (Suc n)
  then have n: "count < loop_rate r" "n = nat (loop_rate r - (count + 1))" by linarith+
  let ?w = "w_offset (descriptors (rt_mgr r) i)"
  note d = router_viewD [OF Suc.prems(1)]
  show ?case
  proof (cases "snd (v_chan v i)")
    case Nil
    then show ?thesis using local_stop [OF d(1) Suc.prems(2) Nil n(1)] router_view_msg [OF Suc.prems(1), of "bm_reset (buffer_capacity r) (rt_msg r)" "buffer_capacity r"] d(5,6)
      by (simp add: bm_reset_def same_routing_def)
  next
    case (Cons x xs)
    obtain r1 where r1: "local_loop e r ?w count = do { (rc, m, r2) \<leftarrow> handle_message e r1 (rt_msg r1); local_loop e (r2\<lparr>rt_msg := m\<rparr>) ?w (count + 1) }"
        "router_view P e r1 (taken v i xs)" "same_routing r r1" "fits (rt_msg r1)" "msg_of (rt_msg r1) = x"
      using local_turn [OF assms(1) Suc.prems(1,2) Cons n(1) refl] by blast
    obtain ret m r2 where r2: "handle_message e r1 (rt_msg r1) = Some (ret, m, r2)" "router_view P e r2 (pass e r1 x (taken v i xs))" "same_routing r1 r2"
        "buffer_capacity r2 = buffer_capacity r1" "bm_data m = bm_data (rt_msg r1)"
      using handle_ok [OF assms(1) r1(2,4)] r1(5) by auto
    let ?r3 = "r2\<lparr>rt_msg := m\<rparr>"
    have "router_view P e (r2\<lparr>rt_msg := m, buffer_capacity := buffer_capacity r2\<rparr>) (pass e r1 x (taken v i xs))"
      by (rule router_view_msg [OF r2(2)]) (use r2(4,5) router_viewD(5,6) [OF r1(2)] in simp_all)
    then have v3: "router_view P e ?r3 (pass e r x (taken v i xs))" using pass_routing [OF r1(3)] by simp
    have s3: "same_routing r ?r3" using same_routing_trans [OF r1(3) r2(3)] by (simp add: same_routing_def)
    then have k: "i < descriptor_count (rt_mgr ?r3)" "n = nat (loop_rate ?r3 - (count + 1))" "w_offset (descriptors (rt_mgr ?r3) i) = ?w"
      using Suc.prems(2) n(2) by (simp_all add: same_routing_def same_shape_def)
    obtain r' where r': "local_loop e ?r3 ?w (count + 1) = Some r'" "router_view P e r' (drain e ?r3 i n (pass e r x (taken v i xs)))" "same_routing ?r3 r'"
      using Suc.IH [OF v3 k(1,2)] k(3) by auto
    then show ?thesis using r1(1) r2(1) Cons same_routing_trans [OF s3 r'(3)] drain_routing [OF s3] by simp
  qed
qed

lemma on_local_message_ok:
  assumes e: "env_ok e" and v: "router_view P e r v"
  shows "\<exists>r'. on_local_message e r fd = Some r' \<and> same_routing r r' \<and>
    router_view P e r' (if 0 \<le> fd \<and> fd < int (descriptor_count (rt_mgr r)) \<and> \<not> closed (descriptors (rt_mgr r) (nat fd)) then drain e r (nat fd) (nat (loop_rate r)) v else v)"
proof (cases "0 \<le> fd \<and> fd < int (descriptor_count (rt_mgr r)) \<and> \<not> closed (descriptors (rt_mgr r) (nat fd))")
  case True
  then have i: "nat fd < descriptor_count (rt_mgr r)" by linarith
  have "ch_magic (chans (rt_mgr r) (w_offset (descriptors (rt_mgr r) (nat fd)))) = CH_MAGIC"
    using channel_okD(1) [OF write_channel_ok [OF router_viewD(1) [OF v] i]] .
  then have "on_local_message e r fd = local_loop e r (w_offset (descriptors (rt_mgr r) (nat fd))) 0"
    using True by (simp add: on_local_message_def get_write_channel_def Let_def)
  then show ?thesis using local_loop_ok [OF e v i, of "nat (loop_rate r)" 0] True by auto
next
  case False
  then show ?thesis using v by (auto simp: on_local_message_def)
qed

end
