(* ===== verification/Bus_Router_Routes.thy ===== *)
theory Bus_Router_Routes
  imports Bus_Router_Local
begin

text \<open>
  The daemon when a connection to another daemon is there and when routes change: the messages that have waited go out in their order
  (\<^verbatim>\<open>on_server_connected\<close>, \<^verbatim>\<open>on_route_watch\<close>, \<^verbatim>\<open>on_route_set\<close> and \<^verbatim>\<open>on_route_del\<close> of \<^verbatim>\<open>src/bus/bus_router.cpp\<close>).
\<close>

section \<open>A connection is there\<close>

lemma flush_host_ok:
  assumes "env_ok e" "list_all2 holds q ys" "connection p = Some a" "cs a = Some c" "tc_state c = state_connected" "written c = frames (MAGIC e) 1 xs"
    "seed p = word_of_nat (length xs)"
  shows "\<exists>c'. flush_host e cs p q = Some (p\<lparr>seed := word_of_nat (length (xs @ ys))\<rparr>, cs(a \<mapsto> c')) \<and> tc_state c' = state_connected \<and> tc_host c' = tc_host c \<and>
    written c' = frames (MAGIC e) 1 (xs @ ys)"
  using assms(2-)
proof (induction q arbitrary: ys p cs c xs)
  case Nil
  have "p\<lparr>seed := word_of_nat (length xs)\<rparr> = p" using Nil.prems(6) by (intro endpoint.equality) simp_all
  moreover have "cs(a \<mapsto> c) = cs" using Nil.prems(3) by (simp add: fun_upd_idem)
  ultimately show ?case using Nil by (intro exI [of _ c]) simp
next
  case (Cons m q)
  obtain y ys' where y: "ys = y # ys'" "holds m y" "list_all2 holds q ys'" using Cons.prems(1) by (auto simp: list_all2_Cons1)
  then obtain b where b: "m = Some b" "fits b" "msg_of b = y" by (auto simp: holds_def)
  obtain m' c1 where s: "ep_send e cs p b = Some (0, m', p\<lparr>seed := word_of_nat (length (xs @ [y]))\<rparr>, cs(a \<mapsto> c1))" "tc_state c1 = state_connected"
      "tc_host c1 = tc_host c" "written c1 = frames (MAGIC e) 1 (xs @ [y])"
    using ep_send_ok [where cs = cs, OF assms(1) b(2) Cons.prems(2-6)] b(3) by blast
  have pre: "connection (p\<lparr>seed := word_of_nat (length (xs @ [y]))\<rparr>) = Some a" "(cs(a \<mapsto> c1)) a = Some c1"
      "seed (p\<lparr>seed := word_of_nat (length (xs @ [y]))\<rparr>) = word_of_nat (length (xs @ [y]))" using Cons.prems(2) by simp_all
  obtain c' where c': "flush_host e (cs(a \<mapsto> c1)) (p\<lparr>seed := word_of_nat (length (xs @ [y]))\<rparr>) q =
      Some (p\<lparr>seed := word_of_nat (length (xs @ [y]))\<rparr>\<lparr>seed := word_of_nat (length ((xs @ [y]) @ ys'))\<rparr>, (cs(a \<mapsto> c1))(a \<mapsto> c'))"
      "tc_state c' = state_connected" "tc_host c' = tc_host c1" "written c' = frames (MAGIC e) 1 ((xs @ [y]) @ ys')"
    using Cons.IH [where cs = "cs(a \<mapsto> c1)", OF y(3) pre(1,2) s(2,4) pre(3)] by blast
  then show ?case using s b(1) y(1) by (intro exI [of _ c']) (simp add: fun_eq_iff)
qed

lemma on_connect_ok:
  assumes e: "env_ok e" and v: "router_view P e r v" and p: "host2endpoints r h = Some p" "connection p = None" and a: "conns r a = None"
  shows "\<exists>r' p' c. on_connect e r h 0 a = Some r' \<and> router_view P e r' v \<and> same_routing r r' \<and> host2endpoints r' h = Some p' \<and> connection p' = Some a \<and>
    conns r' a = Some c \<and> host2queue r' h = None \<and> written c = frames (MAGIC e) 1 (v_out v h)"
proof -
  note H = router_viewD(4) [OF v]
  obtain q where q: "host2queue r h = Some q" "q \<noteq> []" "list_all2 holds q (v_out v h)" "seed p = 0" "h \<noteq> localhost r" "v_out v h \<noteq> []"
    using H [of h] p by (auto simp: host_ok_def)
  let ?cl = "(client p)\<lparr>cl_state := client_connected, cl_handle := False, cl_conn := Some a\<rparr>"
  obtain c where n: "tcp_connection_new (heap_malloc e) h = Some c" "tc_state c = state_connected" "tc_host c = h" "written c = []"
    using tcp_connection_new_ok [OF env_malloc [OF e], of h] by blast
  let ?c = c
  obtain c' where c': "flush_host e ((conns r)(a \<mapsto> ?c)) (p\<lparr>client := ?cl, connection := Some a\<rparr>) q =
      Some (p\<lparr>client := ?cl, connection := Some a\<rparr>\<lparr>seed := word_of_nat (length ([] @ v_out v h))\<rparr>, ((conns r)(a \<mapsto> ?c))(a \<mapsto> c'))" "tc_state c' = state_connected"
      "tc_host c' = h" "written c' = frames (MAGIC e) 1 ([] @ v_out v h)"
    using flush_host_ok [OF e q(3), of "p\<lparr>client := ?cl, connection := Some a\<rparr>" a "(conns r)(a \<mapsto> ?c)" ?c "[]"] q(4) n(2-4) by auto
  let ?p = "p\<lparr>client := ?cl, connection := Some a, seed := word_of_nat (length (v_out v h))\<rparr>"
  let ?r = "r\<lparr>host2endpoints := (host2endpoints r)(h \<mapsto> ?p), conns := (conns r)(a \<mapsto> c'), host2queue := (host2queue r)(h := None)\<rparr>"
  have "on_connect e r h 0 a = Some ?r"
    using p q(1,2) c'(1) n(1) by (simp add: on_connect_def on_server_connected_def client_on_connect_def ep_connected_def Let_def)
  moreover have "host_ok e ?r v g" for g
  proof (cases "g = h")
    case True
    have "host_ok e ?r v h" by (rule host_connectedI [where p = ?p and a = a and c = c']) (use c' q holds_sendable [OF q(3)] in simp_all)
    then show ?thesis using True by simp
  next
    case False
    have "x \<noteq> a" if "conns r x = Some d" for x d using that a by auto
    then show ?thesis using False by (intro host_ok_other [OF H [of g]]) simp_all
  qed
  moreover have "wait_ok P ?r v b" for b using router_viewD(3) [OF v, of b] wait_ok_other [of ?r b r v v P] by simp
  ultimately have "on_connect e r h 0 a = Some ?r" "router_view P e ?r v" using v by (simp_all add: router_view_def)
  moreover have "same_routing r ?r" by (simp add: same_routing_def)
  ultimately show ?thesis using c' by (intro exI [of _ ?r] exI [of _ ?p] exI [of _ c']) simp
qed

text \<open>When the connection fails, the messages stay in the queue of the host.\<close>

lemma on_connect_failed:
  assumes v: "router_view P e r v" and p: "host2endpoints r h = Some p" "connection p = None" and "error \<noteq> 0"
  shows "\<exists>r'. on_connect e r h error a = Some r' \<and> router_view P e r' v \<and> same_routing r r' \<and> host2queue r' = host2queue r \<and> conns r' = conns r"
proof -
  let ?p = "p\<lparr>client := (client p)\<lparr>cl_state := client_disconnected, cl_handle := False\<rparr>\<rparr>"
  let ?r = "r\<lparr>host2endpoints := (host2endpoints r)(h \<mapsto> ?p)\<rparr>"
  have "host_ok e ?r v g" for g using router_viewD(4) [OF v, of g] p by (cases "g = h") (simp_all add: host_ok_def cong: option.case_cong)
  moreover have "wait_ok P ?r v b" for b using router_viewD(3) [OF v, of b] wait_ok_other [of ?r b r v v P] by simp
  ultimately have "router_view P e ?r v" using v by (simp add: router_view_def)
  moreover have "on_connect e r h error a = Some ?r"
    using p assms(4) by (simp add: on_connect_def on_server_connected_def client_on_connect_def Let_def)
  ultimately show ?thesis by (simp add: same_routing_def)
qed

section \<open>Routes\<close>

lemma map_of_map_put [simp]: "map_of (map_put k x m) = (map_of m)(k \<mapsto> x)"
  by (induction k x m rule: map_put.induct) (auto simp: fun_eq_iff)

lemma map_of_map_erase [simp]: "map_of (map_erase k m) = (map_of m)(k := None)"
  by (induction m) (auto simp: map_erase_def fun_eq_iff)

lemma router_view_routes:
  assumes "router_view P e r v" "\<And>b. map_of act b \<noteq> None \<Longrightarrow> b \<notin> ina" "\<And>b. map_of act b \<noteq> None \<Longrightarrow> map_of (active_endpoints r) b = None \<Longrightarrow> b \<in> P'" "P \<subseteq> P'"
  shows "router_view P' e (r\<lparr>active_endpoints := act, inactive_endpoints := ina\<rparr>) v"
proof -
  have "wait_ok P' (r\<lparr>active_endpoints := act, inactive_endpoints := ina\<rparr>) v b" for b
    using router_viewD(3) [OF assms(1), of b] assms(3) [of b] assms(4) by (cases "map_of act b") (auto simp: wait_ok_def split: option.splits)
  then show ?thesis using assms(1,2) by (simp add: router_view_def host_ok_def cong: option.case_cong)
qed

text \<open>The waiting messages of a bus id are passed on and its queue is erased.\<close>

abbreviation cleared :: "int \<Rightarrow> view \<Rightarrow> view" where
  "cleared b v \<equiv> v\<lparr>v_wait := (v_wait v)(b := [])\<rparr>"

definition settle :: "env \<Rightarrow> router \<Rightarrow> int \<times> string \<Rightarrow> view \<Rightarrow> view" where
  "settle e r bh v = cleared (fst bh) (fold (pass e r) (v_wait v (fst bh)) v)"

lemma router_view_cleared:
  assumes "router_view P e r v"
  shows "router_view (P - {b}) e (r\<lparr>busid2queue := (busid2queue r)(b := None)\<rparr>) (cleared b v)"
proof -
  let ?r = "r\<lparr>busid2queue := (busid2queue r)(b := None)\<rparr>"
  have "wait_ok (P - {b}) ?r (cleared b v) b'" for b'
    using router_viewD(3) [OF assms, of b'] by (cases "b' = b") (auto simp: wait_ok_def split: option.splits)
  moreover have "host_ok e ?r (cleared b v) h" for h using router_viewD(4) [OF assms, of h] by (simp add: host_ok_def cong: option.case_cong)
  ultimately show ?thesis using assms by (simp add: router_view_def)
qed

lemma router_view_none:
  assumes "router_view P e r v" "busid2queue r b = None"
  shows "router_view (P - {b}) e r v" "v_wait v b = []"
proof -
  have "wait_ok (P - {b}) r v b'" for b'
    using router_viewD(3) [OF assms(1), of b'] assms(2) by (cases "b' = b") (auto simp: wait_ok_def split: option.splits)
  then show "router_view (P - {b}) e r v" using assms(1) by (simp add: router_view_def)
  show "v_wait v b = []" using router_viewD(3) [OF assms(1), of b] assms(2) by (simp add: wait_ok_def)
qed

lemma flush_queue_ok:
  assumes "env_ok e" "list_all2 holds q ys" "router_view P e r v"
  shows "\<exists>r'. flush_queue e r q = Some r' \<and> router_view P e r' (fold (pass e r) ys v) \<and> same_routing r r'"
  using assms(2,3)
proof (induction q arbitrary: ys r v)
  case (Cons m q)
  obtain y ys' where y: "ys = y # ys'" "holds m y" "list_all2 holds q ys'" using Cons.prems(1) by (auto simp: list_all2_Cons1)
  then obtain b where b: "m = Some b" "fits b" "msg_of b = y" by (auto simp: holds_def)
  obtain ret m' r1 where r1: "handle_message e r b = Some (ret, m', r1)" "router_view P e r1 (pass e r y v)" "same_routing r r1"
    using handle_ok [OF assms(1) Cons.prems(2) b(2)] b(3) by auto
  obtain r' where "flush_queue e r1 q = Some r'" "router_view P e r' (fold (pass e r1) ys' (pass e r y v))" "same_routing r1 r'"
    using Cons.IH [OF y(3) r1(2)] by blast
  then show ?case using r1(1) b(1) y(1) pass_routing [OF r1(3)] same_routing_trans [OF r1(3)] by simp
qed simp

lemma flush_routes_ok:
  assumes "env_ok e" "router_view P e r v"
  shows "\<exists>r'. flush_routes e r bs = Some r' \<and> router_view (P - fst ` set bs) e r' (fold (settle e r) bs v) \<and> same_routing r r'"
  using assms(2)
proof (induction bs arbitrary: P r v)
  case (Cons bh bs)
  obtain b h where bh: "bh = (b, h)" by (cases bh)
  obtain r1 where r1: "flush_routes e r (bh # bs) = flush_routes e r1 bs" "router_view (P - {b}) e r1 (settle e r bh v)" "same_routing r r1"
  proof (cases "busid2queue r b")
    case None
    note n = router_view_none [OF Cons.prems None]
    have "cleared b v = v" using n(2) by (intro view.equality) auto
    then show ?thesis using that [of r] None n bh by (simp add: settle_def)
  next
    case (Some q)
    then have "list_all2 holds q (v_wait v b)" using router_viewD(3) [OF Cons.prems, of b] by (simp add: wait_ok_def)
    then obtain r1 where r1: "flush_queue e r q = Some r1" "router_view P e r1 (fold (pass e r) (v_wait v b) v)" "same_routing r r1"
      using flush_queue_ok [OF assms(1) _ Cons.prems] by blast
    let ?r = "r1\<lparr>busid2queue := (busid2queue r1)(b := None)\<rparr>"
    show ?thesis using that [of ?r] Some r1 bh router_view_cleared [OF r1(2), of b] by (simp add: settle_def same_routing_def)
  qed
  obtain r' where "flush_routes e r1 bs = Some r'" "router_view (P - {b} - fst ` set bs) e r' (fold (settle e r1) bs (settle e r bh v))" "same_routing r1 r'"
    using Cons.IH [OF r1(2)] by blast
  moreover have "settle e r1 = settle e r" using pass_routing [OF r1(3)] by (simp add: settle_def [abs_def])
  moreover have "P - {b} - fst ` set bs = P - fst ` set (bh # bs)" using bh by auto
  ultimately show ?case using r1(1) same_routing_trans [OF r1(3)] by auto
qed simp

text \<open>The routes of a list of keys and values; the last one of a bus id counts.\<close>

definition routes_of :: "(string \<times> string) list \<Rightarrow> (int \<times> string) list \<Rightarrow> (int \<times> string) list" where
  "routes_of kvs act = fold (\<lambda>(k, h). map_put (the (key_busid k)) h) kvs act"

definition keys_of :: "(string \<times> string) list \<Rightarrow> int set" where
  "keys_of kvs = (\<lambda>x. the (key_busid (fst x))) ` set kvs"

lemma read_routes_ok:
  assumes "\<forall>x \<in> set kvs. key_busid (fst x) \<noteq> None" "\<And>b. map_of (active_endpoints r) b \<noteq> None \<Longrightarrow> busid2queue r b = None"
  shows "read_routes r act kvs = Some (routes_of kvs act, r\<lparr>inactive_endpoints := inactive_endpoints r - keys_of kvs\<rparr>)"
  using assms
proof (induction kvs arbitrary: r act)
  case Nil
  then show ?case by (simp add: routes_of_def keys_of_def)
next
  case (Cons x kvs)
  obtain k h b where x: "x = (k, h)" "key_busid k = Some b" using Cons.prems(1) by (cases x) auto
  have "inactive_endpoints r - {b} - keys_of kvs = inactive_endpoints r - keys_of (x # kvs)" using x by (auto simp: keys_of_def)
  then show ?case using x Cons.prems Cons.IH [of "r\<lparr>inactive_endpoints := inactive_endpoints r - {b}\<rparr>" "map_put b h act"]
    by (auto simp: Let_def routes_of_def)
qed

lemma map_of_routes: "map_of (routes_of kvs act) b \<noteq> None \<longleftrightarrow> b \<in> keys_of kvs \<or> map_of act b \<noteq> None"
  by (induction kvs arbitrary: act) (auto simp: routes_of_def keys_of_def split: if_splits)

lemma on_route_watch_ok:
  assumes e: "env_ok e" and v: "router_view {} e r v" and k: "\<forall>x \<in> set kvs. key_busid (fst x) \<noteq> None"
  shows "\<exists>r'. on_route_watch e r 0 idx (Some kvs) = Some r' \<and> active_endpoints r' = routes_of kvs [] \<and>
    inactive_endpoints r' = (inactive_endpoints r \<union> {b. map_of (active_endpoints r) b \<noteq> None}) - keys_of kvs \<and>
    router_view {} e r' (fold (settle e r') (routes_of kvs []) v) \<and> consul r' = consul r @ [Watch idx] \<and> host2seq r' = host2seq r"
proof -
  have none: "map_of (active_endpoints r) b \<noteq> None \<Longrightarrow> busid2queue r b = None" for b
    using router_viewD(3) [OF v, of b] by (auto simp: wait_ok_def split: option.splits)
  let ?act = "routes_of kvs []"
  let ?ina = "(inactive_endpoints r \<union> {b. map_of (active_endpoints r) b \<noteq> None}) - keys_of kvs"
  let ?r = "r\<lparr>active_endpoints := ?act, inactive_endpoints := ?ina\<rparr>"
  have ko: "map_of ?act b \<noteq> None \<longleftrightarrow> b \<in> keys_of kvs" for b using map_of_routes [of kvs "[]" b] by simp
  have gone: "inactive_endpoints r - keys_of kvs \<union> {b \<in> fst ` set (active_endpoints r). map_of ?act b = None} = ?ina"
    using ko by (auto simp: map_of_eq_None_iff)
  have "router_view (fst ` set ?act) e ?r v" by (rule router_view_routes [OF v]) (use ko in \<open>auto simp: map_of_eq_None_iff\<close>)
  then obtain r1 where r1: "flush_routes e ?r ?act = Some r1" "router_view {} e r1 (fold (settle e ?r) ?act v)" "same_routing ?r r1"
    using flush_routes_ok [OF e, of "fst ` set ?act" ?r v ?act] by auto
  let ?r1 = "r1\<lparr>consul := consul r1 @ [Watch idx]\<rparr>"
  have "pass e ?r1 = pass e r1" by (intro ext) (simp add: pass_def Let_def split: option.split)
  then have "settle e ?r1 = settle e ?r" using pass_routing [OF r1(3)] by (simp add: settle_def [abs_def])
  moreover have "router_view {} e ?r1 w = router_view {} e r1 w" for w by (simp add: router_view_def wait_ok_def host_ok_def cong: option.case_cong)
  moreover have "r\<lparr>inactive_endpoints := ?ina, active_endpoints := ?act\<rparr> = ?r" by (rule router.equality) simp_all
  then have "flush_routes e (r\<lparr>inactive_endpoints := ?ina, active_endpoints := ?act\<rparr>) ?act = Some r1" using r1(1) by (simp only:)
  then have "on_route_watch e r 0 idx (Some kvs) = Some ?r1"
    by (simp add: on_route_watch_def read_routes_ok [OF k none] Let_def gone)
  ultimately show ?thesis using r1(2,3) by (intro exI [of _ ?r1]) (simp add: same_routing_def)
qed

lemma flush_local_ok:
  assumes "list_all2 holds q ys" "mgr_ok (rt_mgr r) (v_chan v)"
  shows "\<exists>cm. flush_local r q = Some (r\<lparr>rt_mgr := cm\<rparr>) \<and> mgr_ok cm (v_chan (fold (deliver (rt_mgr r)) ys v)) \<and> same_shape (rt_mgr r) cm"
  using assms
proof (induction q arbitrary: ys r v)
  case Nil
  then show ?case by (intro exI [of _ "rt_mgr r"]) simp
next
  case (Cons m q)
  obtain y ys' where y: "ys = y # ys'" "holds m y" "list_all2 holds q ys'" using Cons.prems(1) by (auto simp: list_all2_Cons1)
  then obtain b where b: "m = Some b" "fits b" "msg_of b = y" by (auto simp: holds_def)
  obtain ret cm where cm: "send_local_message r b = Some (ret, r\<lparr>rt_mgr := cm\<rparr>)" "mgr_ok cm (v_chan (deliver (rt_mgr r) y v))" "same_shape (rt_mgr r) cm"
    using send_local_ok [OF Cons.prems(2) b(2)] b(3) by auto
  have "mgr_ok (rt_mgr (r\<lparr>rt_mgr := cm\<rparr>)) (v_chan (deliver (rt_mgr r) y v))" using cm(2) by simp
  from Cons.IH [OF y(3) this] show ?case using cm b(1) y(1) deliver_shape [OF cm(3)] by (auto simp: same_shape_def)
qed

lemma deliver_fields:
  "v_wait (fold (deliver cm) xs v) = v_wait v" "v_out (fold (deliver cm) xs v) = v_out v"
proof -
  have "v_wait (deliver cm x v) = v_wait v \<and> v_out (deliver cm x v) = v_out v" for x v by (simp add: deliver_def Let_def split: option.splits)
  then show "v_wait (fold (deliver cm) xs v) = v_wait v" "v_out (fold (deliver cm) xs v) = v_out v" by (induction xs arbitrary: v) auto
qed

lemma on_route_set_ok:
  assumes v: "router_view {} e r v" and k: "key_busid k = Some b"
  shows "\<exists>r'. on_route_set r 0 k (localhost r) = Some r' \<and> active_endpoints r' = map_put b (localhost r) (active_endpoints r) \<and>
    inactive_endpoints r' = inactive_endpoints r - {b} \<and> router_view {} e r' (cleared b (fold (deliver (rt_mgr r)) (v_wait v b) v)) \<and> host2seq r' = host2seq r"
proof -
  let ?r = "r\<lparr>active_endpoints := map_put b (localhost r) (active_endpoints r), inactive_endpoints := inactive_endpoints r - {b}\<rparr>"
  have w: "router_view {b} e ?r v" by (rule router_view_routes [OF v]) (use router_viewD(2) [OF v] in \<open>auto split: if_splits\<close>)
  have none: "map_of (active_endpoints r) b \<noteq> None \<Longrightarrow> busid2queue r b = None"
    using router_viewD(3) [OF v, of b] by (auto simp: wait_ok_def split: option.splits)
  show ?thesis
  proof (cases "busid2queue r b")
    case None
    then have n: "router_view {} e ?r v" "v_wait v b = []" using router_view_none [OF w, of b] by simp_all
    then have "cleared b v = v" by (intro view.equality) auto
    then show ?thesis using None n k by (intro exI [of _ ?r]) (simp add: on_route_set_def Let_def)
  next
    case (Some q)
    then have "list_all2 holds q (v_wait v b)" using router_viewD(3) [OF v, of b] by (simp add: wait_ok_def)
    moreover have "mgr_ok (rt_mgr ?r) (v_chan v)" using router_viewD(1) [OF v] by simp
    ultimately obtain cm where cm: "flush_local ?r q = Some (?r\<lparr>rt_mgr := cm\<rparr>)" "mgr_ok cm (v_chan (fold (deliver (rt_mgr ?r)) (v_wait v b) v))"
      using flush_local_ok by blast
    have "router_view {b} e (?r\<lparr>rt_mgr := cm\<rparr>) (fold (deliver (rt_mgr r)) (v_wait v b) v)"
      by (rule router_view_mgr [OF w]) (use cm(2) in \<open>simp_all add: deliver_fields\<close>)
    from router_view_cleared [OF this, of b]
    have "router_view {} e (?r\<lparr>rt_mgr := cm, busid2queue := (busid2queue r)(b := None)\<rparr>) (cleared b (fold (deliver (rt_mgr r)) (v_wait v b) v))" by simp
    moreover have "map_of (active_endpoints r) b = None" using none Some by (cases "map_of (active_endpoints r) b") auto
    then have "on_route_set r 0 k (localhost r) = Some (?r\<lparr>rt_mgr := cm, busid2queue := (busid2queue r)(b := None)\<rparr>)"
      using Some cm(1) k by (simp add: on_route_set_def Let_def)
    ultimately show ?thesis by (intro exI [of _ "?r\<lparr>rt_mgr := cm, busid2queue := (busid2queue r)(b := None)\<rparr>"]) simp
  qed
qed

lemma on_route_del_ok:
  assumes v: "router_view {} e r v" and k: "key_busid k = Some b"
  shows "\<exists>r'. on_route_del r 0 False k = Some r' \<and> router_view {} e r' v \<and> active_endpoints r' = map_erase b (active_endpoints r) \<and>
    inactive_endpoints r' = insert b (inactive_endpoints r) \<and> host2seq r' = host2seq r"
proof -
  let ?r = "r\<lparr>active_endpoints := map_erase b (active_endpoints r), inactive_endpoints := insert b (inactive_endpoints r)\<rparr>"
  have "router_view {} e ?r v" by (rule router_view_routes [OF v]) (use router_viewD(2) [OF v] in \<open>auto split: if_splits\<close>)
  then show ?thesis using k by (intro exI [of _ ?r]) (simp add: on_route_del_def)
qed

lemma on_descriptor_change_ok:
  assumes v: "router_view {} e r v"
  shows "\<exists>r'. on_descriptor_change r fd = Some r' \<and> router_view {} e r' v \<and> host2seq r' = host2seq r"
proof -
  have "router_view {} e (r\<lparr>consul := c\<rparr>) v" for c using v by (simp add: router_view_def wait_ok_def host_ok_def cong: option.case_cong)
  then show ?thesis using v router_viewD(2) [OF v, of "owner (descriptors (rt_mgr r) (nat fd))"] by (auto simp: on_descriptor_change_def Let_def)
qed

end
