(* ===== verification/Bus_Router_Receive.thy ===== *)
theory Bus_Router_Receive
  imports Bus_Router_Routes
begin

text \<open>
  The daemon reading the stream of another daemon: \<^verbatim>\<open>on_client_message_received\<close> of \<^verbatim>\<open>src/bus/bus_router.cpp\<close> on the bytes that \<^verbatim>\<open>tcp_connection\<close> collects. The stream
  is cut into pieces anywhere; every complete message is passed on once and in order, and an incomplete one stays in the buffer.
\<close>

section \<open>The header in the buffer\<close>

lemma put_head_ok:
  assumes "buffer_ok b" "32 \<le> length (peek b)"
  shows "buffer_ok (put_head b m)" "peek (put_head b m) = encode_head m @ drop 32 (peek b)" "length (mem (put_head b m)) = length (mem b)"
    "put_head (put_head b m) m' = put_head b m'"
proof -
  have r: "rindex b + 32 \<le> windex b" "windex b \<le> length (mem b)" "length (mem b) < 2 ^ 63" using assms length_peek [OF assms(1)] by (auto simp: buffer_ok_def)
  have l: "length (take (rindex b) (mem b)) = rindex b" using r by simp
  show k: "length (mem (put_head b m)) = length (mem b)" using r by (simp add: put_head_def sizeof_bus_message_def)
  show "buffer_ok (put_head b m)" using k r by (simp add: buffer_ok_def put_head_def)
  show "peek (put_head b m) = encode_head m @ drop 32 (peek b)"
    using r l by (simp add: peek_def put_head_def sizeof_bus_message_def drop_take add.commute)
  show "put_head (put_head b m) m' = put_head b m'" using r l by (simp add: put_head_def sizeof_bus_message_def)
qed

lemma encode_head_data [simp]: "encode_head (m\<lparr>bm_data := d\<rparr>) = encode_head m"
  by (simp add: encode_head_def)

section \<open>One message\<close>

text \<open>The message in the buffer after its header is in host order.\<close>

definition arrived :: "u32 \<Rightarrow> u32 \<Rightarrow> message \<Rightarrow> u8 list \<Rightarrow> bus_message" where
  "arrived magic s x t = (numbered magic s x)\<lparr>bm_data := data_of x @ t\<rparr>"

lemma arrived_ok:
  assumes "sendable x"
  shows "fits (arrived magic s x t)" "msg_of (arrived magic s x t) = x" "verify_hash (arrived magic s x t) = Some True"
    "total_length (arrived magic s x t) = 32 + length (data_of x)"
proof -
  have u: "unat (word_of_nat (length (data_of x)) :: u32) = length (data_of x)" using numbered_length [OF assms] by simp
  show "fits (arrived magic s x t)" using assms u by (simp add: fits_def arrived_def sendable_def)
  show "msg_of (arrived magic s x t) = x" using u by (cases x) (simp add: msg_of_def arrived_def)
  have "payload (arrived magic s x t) = payload (numbered magic s x)" using u by (simp add: payload_def arrived_def)
  then show "verify_hash (arrived magic s x t) = Some True" using numbered_verify [OF assms, of magic s] by (simp add: verify_hash_def arrived_def)
  show "total_length (arrived magic s x t) = 32 + length (data_of x)" using u by (simp add: total_length_def sizeof_bus_message_def arrived_def)
qed

text \<open>A turn of the loop on a complete message: the header is in host order, and the result of the handler is consumed.\<close>

lemma receive_turn:
  assumes b: "buffer_ok b" "peek b = frame (MAGIC e) s x @ t" and x: "sendable x" and q: "host2seq r h = Some (s - 1)"
  shows "receive_loop e r h b = do {
    (ret, m, r) \<leftarrow> handle_message e (r\<lparr>host2seq := (host2seq r)(h \<mapsto> s)\<rparr>) (arrived (MAGIC e) s x t);
    b \<leftarrow> consume (put_head b m) (total_length m);
    receive_loop e r h b }"
proof -
  let ?m = "arrived (MAGIC e) s x t"
  have l: "32 \<le> length (peek b)" "windex b - rindex b = 32 + length (data_of x) + length t" "rindex b \<le> windex b"
    using b length_peek [OF b(1)] by (auto simp: buffer_ok_def)
  have m: "msg_at b = hton ?m" using decode_frame [of "MAGIC e" s x t] b(2) by (simp add: msg_at_def arrived_def hton_def)
  have u: "unat (word_of_nat (length (data_of x)) :: u32) = length (data_of x)" using numbered_length [OF x] by simp
  have len: "intrev32 (bm_length (msg_at b)) = word_of_nat (length (data_of x))" unfolding m by (simp add: hton_def arrived_def intrev_self_inverse)
  have "total_length ((msg_at b)\<lparr>bm_length := word_of_nat (length (data_of x))\<rparr>) = 32 + length (data_of x)"
    using u by (simp add: total_length_def sizeof_bus_message_def)
  moreover have "ntoh ((msg_at b)\<lparr>bm_length := intrev32 (word_of_nat (length (data_of x)))\<rparr>) = ?m"
    unfolding m by (simp add: ntoh_def hton_def arrived_def intrev_self_inverse)
  moreover have "receive_one e r h ?m = do { (ret, m, r) \<leftarrow> handle_message e (r\<lparr>host2seq := (host2seq r)(h \<mapsto> s)\<rparr>) ?m; Some (m, r) }"
    using arrived_ok(3) [OF x, of "MAGIC e" s t] q by (simp add: receive_one_def arrived_def)
  ultimately show ?thesis
    by (subst receive_loop.simps) (use l in \<open>simp add: buffer_size_def sizeof_bus_message_def len put_head_ok(4) [OF b(1) l(1)] case_prod_unfold\<close>)
qed

text \<open>The beginning of a frame stays as it is.\<close>

definition partial_frame :: "u32 \<Rightarrow> u32 \<Rightarrow> u8 list \<Rightarrow> bool" where
  "partial_frame magic s t \<longleftrightarrow> (\<exists>y u. sendable y \<and> u \<noteq> [] \<and> frame magic s y = t @ u)"

lemma receive_partial:
  assumes b: "buffer_ok b" and t: "partial_frame (MAGIC e) s (peek b)"
  shows "\<exists>b'. receive_loop e r h b = Some (b', r) \<and> buffer_ok b' \<and> peek b' = peek b \<and> length (mem b') = length (mem b)"
proof (cases "length (peek b) < 32")
  case True
  then show ?thesis using b length_peek [OF b] by (subst receive_loop.simps) (auto simp: buffer_size_def sizeof_bus_message_def buffer_ok_def)
next
  case False
  then have l: "32 \<le> length (peek b)" "rindex b \<le> windex b" using b by (auto simp: buffer_ok_def)
  obtain y u where y: "sendable y" "u \<noteq> []" "frame (MAGIC e) s y = peek b @ u" using t by (auto simp: partial_frame_def)
  define d where "d = drop 32 (peek b)"
  have "take 32 (frame (MAGIC e) s y) = encode_head (hton (numbered (MAGIC e) s y))" by (simp add: frame_def)
  then have pk: "peek b = encode_head (hton (numbered (MAGIC e) s y)) @ d" using l y(3) d_def by (metis append_take_drop_id take_append diff_is_0_eq take_0 append_Nil2)
  let ?m = "(hton (numbered (MAGIC e) s y))\<lparr>bm_data := d\<rparr>"
  have m: "msg_at b = ?m" using decode_encode_head [of ?m] pk by (simp add: msg_at_def)
  have w: "unat (word_of_nat (length (data_of y)) :: u32) = length (data_of y)" using numbered_length [OF y(1)] by simp
  have "length (peek b) + length u = 32 + length (data_of y)" using arg_cong [OF y(3), of length] by simp
  then have "windex b - rindex b < 32 + length (data_of y)" using y(2) length_peek [OF b] by (cases u) auto
  moreover have "intrev32 (bm_length (msg_at b)) = word_of_nat (length (data_of y))" unfolding m by (simp add: hton_def intrev_self_inverse)
  moreover have "(msg_at b)\<lparr>bm_length := intrev32 (word_of_nat (length (data_of y)))\<rparr> = msg_at b" unfolding m by (simp add: hton_def)
  ultimately have "receive_loop e r h b = Some (put_head b (msg_at b), r)"
    by (subst receive_loop.simps) (use l w length_peek [OF b] in \<open>simp add: buffer_size_def sizeof_bus_message_def total_length_def put_head_ok(4) [OF b l(1)] Let_def\<close>)
  moreover have "peek (put_head b (msg_at b)) = peek b" unfolding put_head_ok(2) [OF b l(1)] m using pk d_def by simp
  ultimately show ?thesis using put_head_ok [OF b l(1)] by auto
qed

section \<open>All complete messages\<close>

lemma router_view_seq [simp]: "router_view P e (r\<lparr>host2seq := f\<rparr>) v = router_view P e r v"
  by (simp add: router_view_def wait_ok_def host_ok_def cong: option.case_cong)

lemma pass_seq [simp]: "pass e (r\<lparr>host2seq := f\<rparr>) = pass e r"
  by (intro ext) (simp add: pass_def Let_def split: option.split)

lemma settled_seq [simp]: "settled (r\<lparr>host2seq := f\<rparr>) = settled r"
  by (intro ext) (simp add: settled_def)

lemma settled_routing: "same_routing r r' \<Longrightarrow> settled r' = settled r"
  by (intro ext) (simp add: settled_def same_routing_def)

text \<open>The routing is as before, and the last number that came from host \<open>h\<close> is \<open>s\<close>.\<close>

definition heard :: "router \<Rightarrow> string \<Rightarrow> u32 \<Rightarrow> router \<Rightarrow> bool" where
  "heard r h s r' \<longleftrightarrow> same_routing (r\<lparr>host2seq := (host2seq r)(h \<mapsto> s)\<rparr>) r'"

lemma heardD:
  assumes "heard r h s r'"
  shows "pass e r' = pass e r" "settled r' = settled r" "host2seq r' h = Some s"
  using pass_routing [OF assms [unfolded heard_def], of e] settled_routing [OF assms [unfolded heard_def]] assms by (simp_all add: heard_def same_routing_def)

lemma heard_trans: "heard r h s r' \<Longrightarrow> heard r' h s' r'' \<Longrightarrow> heard r h s' r''"
  by (auto simp: heard_def same_routing_def same_shape_def)

lemma receive_settled:
  assumes e: "env_ok e" and v: "router_view P e r v" and b: "buffer_ok b" "peek b = frame (MAGIC e) s x @ t" and x: "sendable x" "settled r x"
    and q: "host2seq r h = Some (s - 1)"
  shows "\<exists>b' r'. receive_loop e r h b = receive_loop e r' h b' \<and> buffer_ok b' \<and> peek b' = t \<and> length (mem b') = length (mem b) \<and>
    router_view P e r' (pass e r x v) \<and> heard r h s r'"
proof -
  let ?m = "arrived (MAGIC e) s x t" and ?r = "r\<lparr>host2seq := (host2seq r)(h \<mapsto> s)\<rparr>"
  note a = arrived_ok [OF x(1), of "MAGIC e" s t]
  obtain ret r' where r': "handle_message e ?r ?m = Some (ret, ?m, r')" "router_view P e r' (pass e r x v)" "same_routing ?r r'"
    using handle_ok [OF e _ a(1), of P ?r v] v x(2) a(2) by auto
  have l: "32 \<le> length (peek b)" using b(2) by simp
  note p = put_head_ok [OF b(1) l, of ?m]
  have pk: "peek (put_head b ?m) = encode_head ?m @ data_of x @ t" unfolding p(2) b(2) by (simp add: frame_def)
  then obtain b' where b': "consume (put_head b ?m) (total_length ?m) = Some b'" "buffer_ok b'" "peek b' = t"
    using consume_refines [OF p(1), of "total_length ?m"] a(4) by auto
  moreover have "length (mem b') = length (mem b)"
    using b'(1) p(3) by (auto simp: consume_def Let_def split: Option.bind_splits if_splits)
  ultimately show ?thesis using receive_turn [OF b x(1) q] r' by (intro exI [of _ b'] exI [of _ r']) (simp add: heard_def)
qed

lemma receive_all:
  assumes "env_ok e" "router_view P e r v" "buffer_ok b" "peek b = frames (MAGIC e) s xs @ t" "\<forall>x \<in> set xs. sendable x \<and> settled r x"
    and "partial_frame (MAGIC e) (s + word_of_nat (length xs)) t" "host2seq r h = Some (s - 1)"
  shows "\<exists>b' r'. receive_loop e r h b = Some (b', r') \<and> buffer_ok b' \<and> peek b' = t \<and> length (mem b') = length (mem b) \<and>
    router_view P e r' (fold (pass e r) xs v) \<and> heard r h (s + word_of_nat (length xs) - 1) r'"
  using assms(2-)
proof (induction xs arbitrary: r v b s)
  case Nil
  have "heard r h (s - 1) r" using Nil.prems(6) by (simp add: heard_def fun_upd_idem)
  then show ?case using receive_partial [OF Nil.prems(2), of e s r h] Nil.prems by auto
next
  case (Cons x xs)
  have "peek b = frame (MAGIC e) s x @ frames (MAGIC e) (s + 1) xs @ t" using Cons.prems(3) by simp
  then obtain b1 r1 where r1: "receive_loop e r h b = receive_loop e r1 h b1" "buffer_ok b1" "peek b1 = frames (MAGIC e) (s + 1) xs @ t"
      "length (mem b1) = length (mem b)" "router_view P e r1 (pass e r x v)" "heard r h s r1"
    using receive_settled [OF assms(1) Cons.prems(1,2) _ _ _ Cons.prems(6)] Cons.prems(4) by (metis list.set_intros(1))
  note h = heardD [OF r1(6)]
  have "\<exists>b' r'. receive_loop e r1 h b1 = Some (b', r') \<and> buffer_ok b' \<and> peek b' = t \<and> length (mem b') = length (mem b1) \<and>
    router_view P e r' (fold (pass e r1) xs (pass e r x v)) \<and> heard r1 h (s + 1 + word_of_nat (length xs) - 1) r'"
    by (rule Cons.IH [OF r1(5,2,3)]) (use Cons.prems h in \<open>simp_all add: add.assoc\<close>)
  then show ?case using r1(1,4) h(1) heard_trans [OF r1(6)] by (auto simp: add.assoc)
qed

section \<open>Pieces of the stream\<close>

lemma partial_prefix: "partial_frame magic s (t @ u) \<Longrightarrow> partial_frame magic s t"
  unfolding partial_frame_def by (metis append.assoc append_is_Nil_conv)

lemma split_stream:
  assumes "p @ q = frames magic s xs @ u" "partial_frame magic (s + word_of_nat (length xs)) u" "\<forall>x \<in> set xs. sendable x"
  shows "\<exists>xs1 xs2 t. xs = xs1 @ xs2 \<and> p = frames magic s xs1 @ t \<and> partial_frame magic (s + word_of_nat (length xs1)) t \<and>
    t @ q = frames magic (s + word_of_nat (length xs1)) xs2 @ u"
  using assms
proof (induction xs arbitrary: s p)
  case Nil
  then show ?case using partial_prefix [of magic s p q] by (intro exI [of _ "[]"] exI [of _ p]) simp
next
  case (Cons x xs)
  show ?case
  proof (cases "length p < length (frame magic s x)")
    case True
    then obtain w where w: "p @ w = frame magic s x" using Cons.prems(1) by (auto simp: append_eq_append_conv2)
    then have "w \<noteq> []" using True by auto
    then have "partial_frame magic s p" using Cons.prems(3) w [symmetric] unfolding partial_frame_def by (intro exI [of _ x] exI [of _ w]) simp
    then show ?thesis using Cons.prems(1) by (intro exI [of _ "[]"] exI [of _ "x # xs"] exI [of _ p]) simp
  next
    case False
    have "take (length (frame magic s x)) (p @ q) = frame magic s x" unfolding Cons.prems(1) by (simp del: length_frame)
    then have "take (length (frame magic s x)) p = frame magic s x" using False by simp
    then obtain w where w: "p = frame magic s x @ w" by (metis append_take_drop_id)
    then obtain xs1 xs2 t where "xs = xs1 @ xs2" "w = frames magic (s + 1) xs1 @ t" "partial_frame magic (s + 1 + word_of_nat (length xs1)) t"
        "t @ q = frames magic (s + 1 + word_of_nat (length xs1)) xs2 @ u"
      using Cons.IH [of w "s + 1"] Cons.prems by (auto simp: add.assoc)
    then show ?thesis using w by (intro exI [of _ "x # xs1"] exI [of _ xs2] exI [of _ t]) (simp add: add.assoc)
  qed
qed

lemma frame_prefix:
  assumes "sendable x" "sendable y" "frame magic s y = frame magic s x @ w"
  shows "w = []"
proof -
  have "bm_length (decode_bus_message (frame magic s y @ [])) = bm_length (decode_bus_message (frame magic s x @ w))" using assms(3) by simp
  then have "intrev32 (bm_length (numbered magic s y)) = intrev32 (bm_length (numbered magic s x))" unfolding decode_frame by (simp add: hton_def)
  then have "bm_length (numbered magic s y) = bm_length (numbered magic s x)" by (metis intrev_self_inverse(2))
  then have "length (data_of y) = length (data_of x)" using numbered_length assms(1,2) by metis
  then show ?thesis using arg_cong [OF assms(3), of length] by simp
qed

text \<open>What happens when bytes arrive on a connection: libuv hands them to the connection, and the connection calls the daemon.\<close>

definition receive_chunk :: "env \<Rightarrow> router \<Rightarrow> tcp_connection \<Rightarrow> u8 list \<Rightarrow> (tcp_connection \<times> router) option" where
  "receive_chunk e r c data = do {
     (cb, c) \<leftarrow> uv_deliver (heap_malloc e) c data;
     case cb of None \<Rightarrow> Some (c, r) | Some (error, _) \<Rightarrow> on_client_message_received e r error c
   }"

fun receive_chunks :: "env \<Rightarrow> router \<Rightarrow> tcp_connection \<Rightarrow> u8 list list \<Rightarrow> (tcp_connection \<times> router) option" where
  "receive_chunks e r c [] = Some (c, r)"
| "receive_chunks e r c (d # ds) = do { (c, r) \<leftarrow> receive_chunk e r c d; receive_chunks e r c ds }"

definition chunk :: "u8 list \<Rightarrow> bool" where
  "chunk d \<longleftrightarrow> d \<noteq> [] \<and> length d \<le> 1024"

lemma receive_chunk_ok:
  assumes e: "env_ok e" and v: "router_view P e r v" and c: "buffer_ok (incoming c)" "length (mem (incoming c)) < 2 ^ 62" and d: "chunk d"
    and s: "peek (incoming c) @ d = frames (MAGIC e) s xs @ t" "\<forall>x \<in> set xs. sendable x \<and> settled r x" "partial_frame (MAGIC e) (s + word_of_nat (length xs)) t"
    and q: "host2seq r (tc_host c) = Some (s - 1)"
  shows "\<exists>c' r'. receive_chunk e r c d = Some (c', r') \<and> buffer_ok (incoming c') \<and> peek (incoming c') = t \<and> tc_host c' = tc_host c \<and>
    length (mem (incoming c')) \<le> max (length (mem (incoming c))) (length (peek (incoming c)) + 2048) \<and> router_view P e r' (fold (pass e r) xs v) \<and> heard r (tc_host c) (s + word_of_nat (length xs) - 1) r'"
proof -
  obtain c1 where c1: "uv_deliver (heap_malloc e) c d = Some (Some (0, True), c1)" "buffer_ok (incoming c1)" "peek (incoming c1) = peek (incoming c) @ d"
      "tc_host c1 = tc_host c" "length (mem (incoming c1)) \<le> max (length (mem (incoming c))) (length (peek (incoming c)) + 2048)"
    using uv_deliver_ok [OF c(1) env_malloc [OF e] c(2)] d by (auto simp: chunk_def)
  have pk: "peek (incoming c1) = frames (MAGIC e) s xs @ t" using c1(3) s(1) by simp
  obtain b' r' where r': "receive_loop e r (tc_host c) (incoming c1) = Some (b', r')" "buffer_ok b'" "peek b' = t" "length (mem b') = length (mem (incoming c1))"
      "router_view P e r' (fold (pass e r) xs v)" "heard r (tc_host c) (s + word_of_nat (length xs) - 1) r'"
    using receive_all [OF e v c1(2) pk s(2,3) q] by blast
  show ?thesis using c1 r' by (intro exI [of _ "c1\<lparr>incoming := b'\<rparr>"] exI [of _ r']) (simp add: receive_chunk_def on_client_message_received_def)
qed

lemma receive_chunks_ok:
  assumes "env_ok e" "router_view P e r v" "buffer_ok (incoming c)" "length (mem (incoming c)) + 2048 * length ds < 2 ^ 62" "\<forall>d \<in> set ds. chunk d"
    and "peek (incoming c) @ concat ds = frames (MAGIC e) s xs @ t" "\<forall>x \<in> set xs. sendable x \<and> settled r x"
    and "partial_frame (MAGIC e) (s + word_of_nat (length xs)) t" "partial_frame (MAGIC e) s (peek (incoming c))" "host2seq r (tc_host c) = Some (s - 1)"
  shows "\<exists>c' r'. receive_chunks e r c ds = Some (c', r') \<and> buffer_ok (incoming c') \<and> peek (incoming c') = t \<and>
    router_view P e r' (fold (pass e r) xs v) \<and> heard r (tc_host c) (s + word_of_nat (length xs) - 1) r'"
  using assms(2-)
proof (induction ds arbitrary: r v c s xs)
  case Nil
  have "xs = []"
  proof (cases xs)
    case (Cons x xs')
    obtain y u where y: "sendable y" "u \<noteq> []" "frame (MAGIC e) s y = peek (incoming c) @ u" using Nil.prems(8) by (auto simp: partial_frame_def)
    define w where "w = frames (MAGIC e) (s + 1) xs' @ t"
    have "peek (incoming c) = frame (MAGIC e) s x @ w" using Nil.prems(5) Cons w_def by simp
    then have f: "frame (MAGIC e) s y = frame (MAGIC e) s x @ w @ u" using y(3) by simp
    then show ?thesis using frame_prefix [OF _ y(1) f] Nil.prems(6) Cons y(2) by simp
  qed simp
  then show ?case using Nil.prems by (auto simp: heard_def fun_upd_idem)
next
  case (Cons d ds)
  have "(peek (incoming c) @ d) @ concat ds = frames (MAGIC e) s xs @ t" using Cons.prems(5) by simp
  then obtain xs1 xs2 t1 where x: "xs = xs1 @ xs2" "peek (incoming c) @ d = frames (MAGIC e) s xs1 @ t1" "partial_frame (MAGIC e) (s + word_of_nat (length xs1)) t1"
      "t1 @ concat ds = frames (MAGIC e) (s + word_of_nat (length xs1)) xs2 @ t"
    using split_stream [OF _ Cons.prems(7)] Cons.prems(6) by blast
  have m: "length (mem (incoming c)) < 2 ^ 62" "chunk d" using Cons.prems(3,4) by simp_all
  obtain c1 r1 where r1: "receive_chunk e r c d = Some (c1, r1)" "buffer_ok (incoming c1)" "peek (incoming c1) = t1" "tc_host c1 = tc_host c"
      "length (mem (incoming c1)) \<le> max (length (mem (incoming c))) (length (peek (incoming c)) + 2048)" "router_view P e r1 (fold (pass e r) xs1 v)"
      "heard r (tc_host c) (s + word_of_nat (length xs1) - 1) r1"
    using receive_chunk_ok [OF assms(1) Cons.prems(1,2) m x(2) _ x(3) Cons.prems(9)] Cons.prems(6) x(1) by auto
  note h = heardD [OF r1(7)]
  have "length (mem (incoming c1)) \<le> length (mem (incoming c)) + 2048" using r1(5) by (simp add: peek_def)
  then have "\<exists>c' r'. receive_chunks e r1 c1 ds = Some (c', r') \<and> buffer_ok (incoming c') \<and> peek (incoming c') = t \<and>
    router_view P e r' (fold (pass e r1) xs2 (fold (pass e r) xs1 v)) \<and> heard r1 (tc_host c1) (s + word_of_nat (length xs1) + word_of_nat (length xs2) - 1) r'"
    by (intro Cons.IH [OF r1(6,2)]) (use Cons.prems x r1 h in \<open>simp_all add: add.assoc\<close>)
  then show ?case using r1(1,4) h(1) x(1) heard_trans [OF r1(7)] by (auto simp: add.assoc)
qed

end
