(* ===== verification/Bus_Router_Spec.thy ===== *)
theory Bus_Router_Spec
  imports Bus_Router_Receive
begin

text \<open>
  The properties of the bus daemon: it refines the abstract router, delivers what another daemon has sent, and no event that its environment can cause makes it abort, with the
  exception of a message that has to be sent to a third host.
\<close>

section \<open>The start\<close>

definition empty_view :: "(nat \<Rightarrow> message list \<times> message list) \<Rightarrow> view" where
  "empty_view Q = \<lparr>v_wait = (\<lambda>_. []), v_out = (\<lambda>_. []), v_chan = Q\<rparr>"

lemma router_new_ok: "env_ok e \<Longrightarrow> mgr_ok cm Q \<Longrightarrow> router_view {} e (router_new e n h cm) (empty_view Q)"
  by (simp add: router_view_def router_new_def empty_view_def wait_ok_def host_ok_def bm_init_def env_ok_def Let_def)

text \<open>An environment in which every call succeeds, and a daemon with one local process.\<close>

definition demo_env :: env where
  "demo_env = \<lparr>uv_write = (\<lambda>_ _. 0), uv_tcp_init = (\<lambda>_. 0), uv_tcp_connect = (\<lambda>_. 0), can_malloc = (\<lambda>_. True), garbage = (\<lambda>n. replicate n 0), sizeof_uv_tcp_handle = 264, last_errno = 0, MAGIC = 7\<rparr>"

definition demo_router :: router where
  "demo_router = (router_new demo_env 1 ''a'' demo_bus_mgr)\<lparr>active_endpoints := [(5, ''b''), (77, ''a'')]\<rparr>"

lemma demo_env_ok: "env_ok demo_env" "opens demo_env h"
  by (simp_all add: env_ok_def demo_env_def opens_def)

lemma demo_router_simps [simp]:
  "loop_rate demo_router = 1" "localhost demo_router = ''a''" "rt_mgr demo_router = demo_bus_mgr" "active_endpoints demo_router = [(5, ''b''), (77, ''a'')]"
  "inactive_endpoints demo_router = {}" "host2endpoints demo_router = (\<lambda>_. None)" "host2seq demo_router = (\<lambda>_. None)" "busid2queue demo_router = (\<lambda>_. None)"
  "host2queue demo_router = (\<lambda>_. None)" "conns demo_router = (\<lambda>_. None)" "consul demo_router = [Watch 0]"
  by (simp_all add: demo_router_def router_new_def Let_def)

lemma demo_router_ok: "router_view {} demo_env demo_router (empty_view (\<lambda>_. ([], [])))"
proof -
  let ?r = "(router_new demo_env 1 ''a'' demo_bus_mgr)\<lparr>active_endpoints := [(5, ''b''), (77, ''a'')], inactive_endpoints := {}\<rparr>"
  let ?v = "empty_view (\<lambda>_. ([], []))"
  have "router_view {5, 77} demo_env ?r ?v"
    by (rule router_view_routes [OF router_new_ok [OF demo_env_ok(1) demo_bus_mgr_ok]]) (auto split: if_splits)
  then have "router_view ({5, 77} - {5} - {77}) demo_env ?r ?v"
    by (intro router_view_none(1)) (auto simp: router_new_def Let_def)
  moreover have "?r = demo_router" by (simp add: demo_router_def router_new_def Let_def)
  ultimately show ?thesis by simp
qed

section \<open>Passing a message on\<close>

text \<open>
  C13: \<^verbatim>\<open>handle_message\<close> of the bus daemon does what the abstract router does: a message for a bus id that is known to be gone is refused, one for an unknown bus id waits for a route,
  one for a process of this host goes into its read channel when there is room, and one for another host is handed to the connection of that host, or queued until the connection is
  there. Nothing aborts, every queue and channel stays well-formed, and the routing tables stay as they are.
\<close>

theorem handle_message_refines:
  assumes "env_ok e" and "router_view {} e r v" and "fits m"
  shows "\<exists>ret m' r'. handle_message e r m = Some (ret, m', r') \<and> router_view {} e r' (pass e r (msg_of m) v) \<and> same_routing r r'"
  using handle_ok [OF assms] by blast

definition demo_message :: bus_message where
  "demo_message = \<lparr>bm_magic = 0, bm_seq = 0, bm_hash = 0, bm_src = 77, bm_dst = 5, bm_length = 2, bm_ctime = 9, bm_data = [1, 2, 3]\<rparr>"

lemma demo_message_simps: "fits demo_message" "msg_of demo_message = (77, 5, 9, [1, 2])" "bm_dst demo_message = 5"
  by (simp_all add: fits_def demo_message_def msg_of_def)

lemma demo_pass: "pass demo_env demo_router (77, 5, 9, [1, 2]) (empty_view Q) = (empty_view Q)\<lparr>v_out := (\<lambda>_. [])(''b'' := [(77, 5, 9, [1, 2])])\<rparr>"
  by (simp add: pass_def Let_def demo_env_ok empty_view_def)

theorem handle_message_refines_witness:
  "\<exists>ret m' r'. handle_message demo_env demo_router demo_message = Some (ret, m', r') \<and>
    router_view {} demo_env r' ((empty_view (\<lambda>_. ([], [])))\<lparr>v_out := (\<lambda>_. [])(''b'' := [(77, 5, 9, [1, 2])])\<rparr>)"
  using handle_message_refines [OF demo_env_ok(1) demo_router_ok demo_message_simps(1)] unfolding demo_message_simps(2) demo_pass by blast

text \<open>
  When the connection to another daemon is there, the messages that have waited for it are written to it in the order in which they came, numbered from 1, and the queue is erased;
  from then on the bytes written to the connection are always the frames of all messages handed to the host.
\<close>

theorem on_connect_refines:
  assumes "env_ok e" and "router_view {} e r v" and "host2endpoints r h = Some p" and "connection p = None" and "conns r a = None"
  shows "\<exists>r' p' c. on_connect e r h 0 a = Some r' \<and> router_view {} e r' v \<and> same_routing r r' \<and> host2endpoints r' h = Some p' \<and> connection p' = Some a \<and>
    conns r' a = Some c \<and> host2queue r' h = None \<and> written c = frames (MAGIC e) 1 (v_out v h)"
  using on_connect_ok [OF assms] .

text \<open>The daemon after the first message for host \<open>b\<close>.\<close>

lemma demo_queued:
  "\<exists>m' r' p. handle_message demo_env demo_router demo_message = Some (0, m', r') \<and> host2endpoints r' ''b'' = Some p \<and> connection p = None \<and> conns r' = (\<lambda>_. None) \<and>
    active_endpoints r' = [(5, ''b''), (77, ''a'')] \<and> inactive_endpoints r' = {} \<and> host2seq r' = (\<lambda>_. None) \<and> localhost r' = ''a''"
  by (simp add: handle_message_def demo_message_simps(3) find_host_def fetch_endpoint_def client_connect_def tcp_client_new_def ep_connected_def enqueue_host_def dup_def payload_def
      demo_message_def demo_env_def Let_def)

lemma demo_queued_ok:
  obtains r' p where "router_view {} demo_env r' ((empty_view (\<lambda>_. ([], [])))\<lparr>v_out := (\<lambda>_. [])(''b'' := [(77, 5, 9, [1, 2])])\<rparr>)" "host2endpoints r' ''b'' = Some p"
    "connection p = None" "conns r' = (\<lambda>_. None)" "active_endpoints r' = [(5, ''b''), (77, ''a'')]" "inactive_endpoints r' = {}" "host2seq r' = (\<lambda>_. None)" "localhost r' = ''a''"
  using handle_ok [OF demo_env_ok(1) demo_router_ok demo_message_simps(1)] demo_queued unfolding demo_message_simps(2) demo_pass by auto

theorem on_connect_refines_witness:
  "\<exists>r r' c. on_connect demo_env r ''b'' 0 3 = Some r' \<and> conns r' 3 = Some c \<and> written c = frames 7 1 [(77, 5, 9, [1, 2])]"
proof -
  have m: "MAGIC demo_env = 7" by (simp add: demo_env_def)
  obtain r p where r: "router_view {} demo_env r ((empty_view (\<lambda>_. ([], [])))\<lparr>v_out := (\<lambda>_. [])(''b'' := [(77, 5, 9, [1, 2])])\<rparr>)" "host2endpoints r ''b'' = Some p"
      "connection p = None" "conns r = (\<lambda>_. None)" by (rule demo_queued_ok)
  then have "conns r 3 = None" by simp
  from on_connect_refines [OF demo_env_ok(1) r(1-3) this] show ?thesis unfolding m by auto
qed

section \<open>Messages of local processes\<close>

text \<open>
  C14: On the signal of a process the daemon takes the oldest messages of its write channel, at most \<^verbatim>\<open>msg_per_run\<close>, and passes each of them on as the abstract router does, in
  their order; a message that is larger than the block of the daemon is taken into a larger block. The loop ends, and nothing is lost or passed on twice.
\<close>

theorem on_local_message_refines:
  assumes "env_ok e" and "router_view {} e r v"
  shows "\<exists>r'. on_local_message e r fd = Some r' \<and> same_routing r r' \<and>
    router_view {} e r' (if 0 \<le> fd \<and> fd < int (descriptor_count (rt_mgr r)) \<and> \<not> closed (descriptors (rt_mgr r) (nat fd)) then drain e r (nat fd) (nat (loop_rate r)) v else v)"
  using on_local_message_ok [OF assms] .

lemma demo_written:
  obtains cm where "router_view {} demo_env (demo_router\<lparr>rt_mgr := cm\<rparr>) (empty_view ((\<lambda>_. ([], []))(0 := ([], [(77, 5, 9, [1, 2])]))))" "descriptor_count cm = 1"
    "closed (descriptors cm 0) = False"
proof -
  have d: "descriptor_count demo_bus_mgr = 1" "descriptors demo_bus_mgr 0 = \<lparr>owner = 77, closed = False, desc_pid = 9, r_offset = 4136, w_offset = 4464\<rparr>"
      "chans demo_bus_mgr = (\<lambda>_. demo_channel)"
    by (simp_all add: demo_bus_mgr_def demo_mgr_def)
  obtain c where c: "channel_ok c [(77, 5, 9, [1, 2])]" "node_size c = node_size demo_channel" "node_count c = node_count demo_channel"
    using channel_push_ok [OF demo_channel_ok(1) _ _ refl, of "[1, 2]" 77 5 9] demo_channel_ok(2,3) by (auto simp: nodes_of_def used_nodes_def)
  have "mgr_ok (set_channel demo_bus_mgr 4464 c) ((\<lambda>_. ([], []))(0 := ([], [(77, 5, 9, [1, 2])])))"
    by (rule mgr_ok_channel [OF demo_bus_mgr_ok _ c(1)]) (use c d in simp_all)
  then have "router_view {} demo_env (demo_router\<lparr>rt_mgr := set_channel demo_bus_mgr 4464 c\<rparr>) (empty_view ((\<lambda>_. ([], []))(0 := ([], [(77, 5, 9, [1, 2])]))))"
    by (intro router_view_mgr [OF demo_router_ok]) (simp_all add: empty_view_def)
  then show ?thesis by (rule that) (simp_all add: set_channel_def d)
qed

theorem on_local_message_refines_witness:
  "\<exists>r r' v'. on_local_message demo_env r 0 = Some r' \<and> router_view {} demo_env r' v' \<and> v_out v' ''b'' = [(77, 5, 9, [1, 2])] \<and> v_chan v' 0 = ([], [])"
proof -
  let ?v = "empty_view ((\<lambda>_. ([], []))(0 := ([], [(77, 5, 9, [1, 2])])))"
  obtain cm where cm: "router_view {} demo_env (demo_router\<lparr>rt_mgr := cm\<rparr>) ?v" "descriptor_count cm = 1" "closed (descriptors cm 0) = False"
    by (rule demo_written)
  let ?r = "demo_router\<lparr>rt_mgr := cm\<rparr>"
  have "drain demo_env ?r 0 (Suc 0) ?v = (taken ?v 0 [])\<lparr>v_out := (\<lambda>_. [])(''b'' := [(77, 5, 9, [1, 2])])\<rparr>"
    by (simp add: pass_def Let_def demo_env_ok empty_view_def)
  moreover have "v_out ((taken ?v 0 [])\<lparr>v_out := (\<lambda>_. [])(''b'' := [(77, 5, 9, [1, 2])])\<rparr>) ''b'' = [(77, 5, 9, [1, 2])]"
      "v_chan ((taken ?v 0 [])\<lparr>v_out := (\<lambda>_. [])(''b'' := [(77, 5, 9, [1, 2])])\<rparr>) 0 = ([], [])"
    by (simp_all add: empty_view_def)
  moreover obtain r' where "on_local_message demo_env ?r 0 = Some r'" "router_view {} demo_env r' (drain demo_env ?r 0 (Suc 0) ?v)"
    using on_local_message_refines [OF demo_env_ok(1) cm(1), of 0] cm(2,3) by (auto simp del: drain.simps)
  ultimately show ?thesis by metis
qed

section \<open>Routes\<close>

text \<open>
  C15: When consul reports all routes, the daemon replaces its table by them, remembers the bus ids that have lost their route, and passes on the messages that have waited for one of the
  routes, the bus ids in their order and the messages of each in theirs; the queues of the bus ids that still have no route are kept.
\<close>

theorem on_route_watch_refines:
  assumes "env_ok e" and "router_view {} e r v" and "\<forall>x \<in> set kvs. key_busid (fst x) \<noteq> None"
  shows "\<exists>r'. on_route_watch e r 0 idx (Some kvs) = Some r' \<and> active_endpoints r' = routes_of kvs [] \<and>
    inactive_endpoints r' = (inactive_endpoints r \<union> {b. map_of (active_endpoints r) b \<noteq> None}) - keys_of kvs \<and>
    router_view {} e r' (fold (settle e r') (routes_of kvs []) v) \<and> consul r' = consul r @ [Watch idx]"
  using on_route_watch_ok [OF assms] by blast

theorem on_route_watch_refines_witness:
  "\<exists>r'. on_route_watch demo_env demo_router 0 4 (Some []) = Some r' \<and> active_endpoints r' = [] \<and> inactive_endpoints r' = {5, 77}"
  using on_route_watch_refines [OF demo_env_ok(1) demo_router_ok, of "[]" 4] by (auto simp: routes_of_def keys_of_def split: if_splits)

section \<open>From one daemon to another\<close>

text \<open>
  C12: From daemon to daemon. Let the bytes that the daemon \<open>r\<close> has written to its connection to host \<open>h\<close> arrive at the daemon \<open>r'\<close> of that host in pieces \<open>ds\<close>, cut anywhere, on a
  connection that it has just accepted; the rest \<open>q\<close> is still on the way. Then \<open>r'\<close> passes on exactly the messages \<open>xs\<close> that are complete, the oldest ones that \<open>r\<close> has handed to \<open>h\<close>,
  in their order; no magic number, hash or sequence number is found wrong, and the beginning of the next message stays in the buffer. All messages are assumed to be for processes of
  \<open>h\<close> or for bus ids that \<open>h\<close> has no route for, and the number of pieces to be less than \<open>2 ^ 50\<close>.
\<close>

theorem daemon_to_daemon:
  assumes "env_ok e" and "router_view {} e r v" and "host2endpoints r h = Some p" and "connection p = Some a" and "conns r a = Some c"
    and "env_ok e'" and "MAGIC e' = MAGIC e" and "router_view {} e' r' v'" and "host2seq r' g = Some 0" and "\<forall>x \<in> set (v_out v h). settled r' x"
    and "concat ds @ q = written c" and "\<forall>d \<in> set ds. chunk d" and "length ds < 2 ^ 50"
  shows "\<exists>xs ys c0 c' r''. v_out v h = xs @ ys \<and> tcp_connection_new (heap_malloc e') g = Some c0 \<and> receive_chunks e' r' c0 ds = Some (c', r'') \<and>
    router_view {} e' r'' (fold (pass e' r') xs v') \<and> frames (MAGIC e) 1 xs @ peek (incoming c') = concat ds \<and>
    partial_frame (MAGIC e) (1 + word_of_nat (length xs)) (peek (incoming c'))"
proof -
  obtain c0 where c: "tcp_connection_new (heap_malloc e') g = Some c0" "buffer_ok (incoming c0)" "peek (incoming c0) = []" "length (mem (incoming c0)) = 512" "tc_host c0 = g"
    using tcp_connection_new_ok [OF env_malloc [OF assms(6)], of g] by blast
  have w: "written c = frames (MAGIC e) 1 (v_out v h)" "\<forall>x \<in> set (v_out v h). sendable x"
    using router_viewD(4) [OF assms(2), of h] assms(3-5) by (auto simp: host_ok_def)
  have pf: "partial_frame (MAGIC e) s []" for s
    unfolding partial_frame_def by (intro exI [of _ "(0, 0, 0, [])"] exI [of _ "frame (MAGIC e) s (0, 0, 0, [])"]) (simp add: sendable_def)
  have "concat ds @ q = frames (MAGIC e) 1 (v_out v h) @ []" using assms(11) w(1) by simp
  then obtain xs ys t where x: "v_out v h = xs @ ys" "concat ds = frames (MAGIC e) 1 xs @ t" "partial_frame (MAGIC e) (1 + word_of_nat (length xs)) t"
    using split_stream [OF _ pf w(2)] by blast
  have "\<exists>c' r''. receive_chunks e' r' c0 ds = Some (c', r'') \<and> buffer_ok (incoming c') \<and> peek (incoming c') = t \<and>
    router_view {} e' r'' (fold (pass e' r') xs v') \<and> heard r' (tc_host c0) (1 + word_of_nat (length xs) - 1) r''"
    by (rule receive_chunks_ok [OF assms(6,8) c(2)]) (use assms c x w(2) pf in auto)
  then show ?thesis using x c(1) by auto
qed

text \<open>Two daemons: the first has sent one message, of which the second gets the first byte and then the rest.\<close>

definition demo_peer :: router where
  "demo_peer = (router_new demo_env 1 ''b'' demo_bus_mgr)\<lparr>host2seq := [''a'' \<mapsto> 0]\<rparr>"

lemma demo_frames:
  obtains b bs where "frames 7 1 [(77, 5, 9, [1, 2])] = b # bs" "length bs = 33"
proof -
  have "length (frames 7 1 [(77, 5, 9, [1, 2])]) = Suc 33" by simp
  then show ?thesis using that by (cases "frames 7 1 [(77, 5, 9, [1, 2])]") (simp_all del: frames.simps)
qed

lemma demo_connected:
  obtains r p c where "router_view {} demo_env r ((empty_view (\<lambda>_. ([], [])))\<lparr>v_out := (\<lambda>_. [])(''b'' := [(77, 5, 9, [1, 2])])\<rparr>)" "host2endpoints r ''b'' = Some p"
    "connection p = Some 3" "conns r 3 = Some c" "written c = frames 7 1 [(77, 5, 9, [1, 2])]"
    "active_endpoints r = [(5, ''b''), (77, ''a'')]" "inactive_endpoints r = {}" "host2seq r = (\<lambda>_. None)"
proof -
  let ?v = "(empty_view (\<lambda>_. ([], [])))\<lparr>v_out := (\<lambda>_. [])(''b'' := [(77, 5, 9, [1, 2])])\<rparr>"
  have m: "MAGIC demo_env = 7" "v_out ?v ''b'' = [(77, 5, 9, [1, 2])]" by (simp_all add: demo_env_def)
  obtain r p where r: "router_view {} demo_env r ?v" "host2endpoints r ''b'' = Some p"
      "connection p = None" "conns r = (\<lambda>_. None)" "active_endpoints r = [(5, ''b''), (77, ''a'')]" "inactive_endpoints r = {}" "host2seq r = (\<lambda>_. None)"
    by (rule demo_queued_ok)
  then have n: "conns r 3 = None" by simp
  show ?thesis using on_connect_ok [OF demo_env_ok(1) r(1-3) n] r(5-7) that unfolding m same_routing_def by metis
qed

theorem daemon_to_daemon_witness:
  "\<exists>b bs c0 c r. frames 7 1 [(77, 5, 9, [1, 2])] = b # bs \<and> tcp_connection_new (heap_malloc demo_env) ''a'' = Some c0 \<and>
     receive_chunks demo_env demo_peer c0 [[b], bs] = Some (c, r) \<and> peek (incoming c) = []"
proof -
  let ?x = "(77, 5, 9, [1, 2]) :: message" and ?v = "empty_view (\<lambda>_. ([], []))"
  have m: "MAGIC demo_env = 7" "v_out (?v\<lparr>v_out := (\<lambda>_. [])(''b'' := [?x])\<rparr>) ''b'' = [?x]" by (simp_all add: demo_env_def)
  obtain b bs where f: "frames 7 1 [?x] = b # bs" "length bs = 33" by (rule demo_frames)
  obtain r p c where r: "router_view {} demo_env r (?v\<lparr>v_out := (\<lambda>_. [])(''b'' := [?x])\<rparr>)" "host2endpoints r ''b'' = Some p"
      "connection p = Some 3" "conns r 3 = Some c" "written c = frames 7 1 [?x]" by (rule demo_connected)
  have v: "router_view {} demo_env demo_peer ?v" "host2seq demo_peer ''a'' = Some 0" "settled demo_peer ?x"
    unfolding demo_peer_def router_view_seq by (rule router_new_ok [OF demo_env_ok(1) demo_bus_mgr_ok]) (simp_all add: settled_def router_new_def Let_def)
  have s: "\<forall>x \<in> set (v_out (?v\<lparr>v_out := (\<lambda>_. [])(''b'' := [?x])\<rparr>) ''b''). settled demo_peer x" "\<forall>d \<in> set [[b], bs]. chunk d" "length [[b], bs] < 2 ^ 50" "concat [[b], bs] @ [] = written c"
    using v(3) f r(5) by (auto simp: chunk_def)
  obtain xs ys c0 c' r' where x: "[?x] = xs @ ys" "receive_chunks demo_env demo_peer c0 [[b], bs] = Some (c', r')"
      "frames 7 1 xs @ peek (incoming c') = b # bs" "partial_frame 7 (1 + word_of_nat (length xs)) (peek (incoming c'))" "tcp_connection_new (heap_malloc demo_env) ''a'' = Some c0"
    using daemon_to_daemon [OF demo_env_ok(1) r(1-4) demo_env_ok(1) refl v(1,2) s(1,4,2,3)] unfolding m by auto
  have "xs \<noteq> []"
  proof
    assume "xs = []"
    then obtain y u where "sendable y" "u \<noteq> []" "frame 7 1 y = frame 7 1 ?x @ u" using x(3,4) f(1) by (auto simp: partial_frame_def)
    then show False using frame_prefix [of ?x y 7 1 u] by (simp add: sendable_def)
  qed
  then have "xs = [?x]" using x(1) by (auto simp: Cons_eq_append_conv)
  then show ?thesis using x(2,3,5) f(1) by auto
qed

end
