(* ===== verification/Bus_Router_Events.thy ===== *)
theory Bus_Router_Events
  imports Bus_Router_Spec
begin

text \<open>
  The daemon as a machine that reacts to events: the signals of local processes, the results of libuv, the answers of consul and the bytes of other daemons. The theory
  shows that no possible event aborts it, and which events do. The state has, beside the router, what the network knows: the connections that other hosts have opened and how
  far each of them has got with its stream.
\<close>

section \<open>Events\<close>

text \<open>
  A connection from another host: the object of the daemon, the number of messages that the other side has sent completely on this connection, and the bytes that it has sent of the next one. The last
  two belong to the other side; the daemon does not see them.
\<close>

record peer =
  pr_conn :: tcp_connection
  pr_sent :: nat
  pr_begun :: "u8 list"

record daemon =
  dm_router :: router
  dm_peers :: "string \<Rightarrow> peer option"

text \<open>\<open>Received h xs t\<close>: the other side at \<open>h\<close> sends the rest of the message it has begun, further messages, together \<open>xs\<close>, and the beginning \<open>t\<close> of the next one.\<close>

datatype event =
    Signal int int
  | Connected string nat
  | Refused string int
  | Routes int "(string \<times> string) list"
  | WatchFailed int int
  | RouteSet string
  | RouteDel string
  | Shared channel_mgr
  | Accepted string
  | Received string "message list" "u8 list"
  | Lost string int
  | Reload int

text \<open>The bytes of a peer that numbers its messages from 1 on each connection; the piece that arrives is what follows the bytes sent before.\<close>

definition stream :: "u32 \<Rightarrow> peer \<Rightarrow> message list \<Rightarrow> u8 list \<Rightarrow> u8 list" where
  "stream magic p xs t = frames magic (word_of_nat (pr_sent p) + 1) xs @ t"

definition piece :: "u32 \<Rightarrow> peer \<Rightarrow> message list \<Rightarrow> u8 list \<Rightarrow> u8 list" where
  "piece magic p xs t = drop (length (pr_begun p)) (stream magic p xs t)"

fun react :: "env \<Rightarrow> router \<Rightarrow> event \<Rightarrow> router option" where
  "react e r (Signal signo fd) = on_signal e r signo fd"
| "react e r (Connected h a) = on_connect e r h 0 a"
| "react e r (Refused h error) = on_connect e r h error 0"
| "react e r (Routes idx kvs) = on_route_watch e r 0 idx (Some kvs)"
| "react e r (WatchFailed ret idx) = on_route_watch e r ret idx None"
| "react e r (RouteSet k) = on_route_set r 0 k (localhost r)"
| "react e r (RouteDel k) = on_route_del r 0 False k"
| "react e r (Shared cm) = Some (r\<lparr>rt_mgr := cm\<rparr>)"
| "react e r (Reload n) = Some (reload r n)"
| "react e r _ = Some r"

fun dispatch :: "env \<Rightarrow> daemon \<Rightarrow> event \<Rightarrow> daemon option" where
  "dispatch e s (Accepted h) = do {
     c \<leftarrow> tcp_connection_new (heap_malloc e) h;
     Some (s\<lparr>dm_router := on_client_connected (dm_router s) 0 h, dm_peers := (dm_peers s)(h \<mapsto> \<lparr>pr_conn = c, pr_sent = 0, pr_begun = []\<rparr>)\<rparr>)
   }"
| "dispatch e s (Received h xs t) = do {
     p \<leftarrow> dm_peers s h;
     (c, r) \<leftarrow> receive_chunk e (dm_router s) (pr_conn p) (piece (MAGIC e) p xs t);
     Some (s\<lparr>dm_router := r, dm_peers := (dm_peers s)(h \<mapsto> \<lparr>pr_conn = c, pr_sent = pr_sent p + length xs, pr_begun = t\<rparr>)\<rparr>)
   }"
| "dispatch e s (Lost h error) = do {
     p \<leftarrow> dm_peers s h;
     (c, r) \<leftarrow> on_client_message_received e (dm_router s) error (pr_conn p);
     Some (s\<lparr>dm_router := r, dm_peers := (dm_peers s)(h := None)\<rparr>)
   }"
| "dispatch e s ev = map_option (\<lambda>r. s\<lparr>dm_router := r\<rparr>) (react e (dm_router s) ev)"

text \<open>libuv calls the callback of a connect request of a client that is connecting.\<close>

definition awaits :: "router \<Rightarrow> string \<Rightarrow> bool" where
  "awaits r h \<longleftrightarrow> (\<exists>p. host2endpoints r h = Some p \<and> cl_state (client p) = client_connecting)"

text \<open>
  What can happen. The local processes may change the shared segment as they like as long as it stays well-formed. A host opens a connection when it has none open, and a connection is lost once. What arrives on it
  continues the stream of a daemon that numbers its messages, in pieces of the size that \<^verbatim>\<open>on_alloc\<close> offers, and the messages that it completes stay on this host.
\<close>

fun possible :: "u32 \<Rightarrow> daemon \<Rightarrow> event \<Rightarrow> bool" where
  "possible magic s (Signal signo fd) = True"
| "possible magic s (Connected h a) = (awaits (dm_router s) h \<and> conns (dm_router s) a = None)"
| "possible magic s (Refused h error) = (awaits (dm_router s) h \<and> error \<noteq> 0)"
| "possible magic s (Routes idx kvs) = (\<forall>x \<in> set kvs. key_busid (fst x) \<noteq> None)"
| "possible magic s (WatchFailed ret idx) = (ret \<noteq> 0)"
| "possible magic s (RouteSet k) = (key_busid k \<noteq> None)"
| "possible magic s (RouteDel k) = (key_busid k \<noteq> None)"
| "possible magic s (Shared cm) = (\<exists>Q. mgr_ok cm Q)"
| "possible magic s (Accepted h) = (dm_peers s h = None)"
| "possible magic s (Received h xs t) = (case dm_peers s h of None \<Rightarrow> False | Some p \<Rightarrow>
     take (length (pr_begun p)) (stream magic p xs t) = pr_begun p \<and> chunk (piece magic p xs t) \<and>
     (\<forall>x \<in> set xs. sendable x \<and> settled (dm_router s) x) \<and> partial_frame magic (word_of_nat (pr_sent p + length xs) + 1) t)"
| "possible magic s (Lost h error) = (dm_peers s h \<noteq> None \<and> error \<noteq> 0)"
| "possible magic s (Reload n) = True"

text \<open>Every event has its own environment: what \<^verbatim>\<open>malloc\<close> and libuv do may change from call to call.\<close>

inductive reachable :: "u32 \<Rightarrow> daemon \<Rightarrow> bool" for magic where
  start: "env_ok e \<Longrightarrow> MAGIC e = magic \<Longrightarrow> mgr_ok cm Q \<Longrightarrow> reachable magic \<lparr>dm_router = router_new e n h cm, dm_peers = (\<lambda>_. None)\<rparr>"
| event: "reachable magic s \<Longrightarrow> env_ok e \<Longrightarrow> MAGIC e = magic \<Longrightarrow> possible magic s ev \<Longrightarrow> dispatch e s ev = Some s' \<Longrightarrow> reachable magic s'"

section \<open>No possible event aborts the daemon\<close>

lemma router_view_other [simp]:
  "router_view P e (r\<lparr>consul := x\<rparr>) v = router_view P e r v" "router_view P e (r\<lparr>loop_rate := n\<rparr>) v = router_view P e r v"
  by (simp_all add: router_view_def wait_ok_def host_ok_def cong: option.case_cong)

text \<open>Of the environment, the refinement relation depends on the magic number only.\<close>

lemma router_view_env: "MAGIC e = MAGIC e' \<Longrightarrow> router_view P e r v = router_view P e' r v"
  by (simp add: router_view_def host_ok_def cong: option.case_cong)

lemma awaits_waiting:
  assumes "router_view P e r v" "awaits r h"
  shows "\<exists>p. host2endpoints r h = Some p \<and> connection p = None"
proof -
  obtain p where p: "host2endpoints r h = Some p" "cl_state (client p) = client_connecting" using assms(2) by (auto simp: awaits_def)
  then have "connection p = None" using router_viewD(4) [OF assms(1), of h] by (cases "connection p") (simp_all add: host_ok_def)
  then show ?thesis using p(1) by blast
qed

lemma react_ok:
  assumes e: "env_ok e" and v: "router_view {} e (dm_router s) v" and ev: "possible magic s ev"
  shows "\<exists>r' v'. react e (dm_router s) ev = Some r' \<and> router_view {} e r' v' \<and> host2seq r' = host2seq (dm_router s)"
proof (cases ev)
  case (Signal signo fd)
  then show ?thesis using on_local_message_ok [OF e v, of fd] on_descriptor_change_ok [OF v, of fd] v by (auto simp: on_signal_def same_routing_def)
next
  case (Connected h a)
  then obtain p where "host2endpoints (dm_router s) h = Some p" "connection p = None" "conns (dm_router s) a = None" using ev awaits_waiting [OF v] by auto
  from on_connect_ok [OF e v this] show ?thesis using Connected by (auto simp: same_routing_def)
next
  case (Refused h error)
  then obtain p where "host2endpoints (dm_router s) h = Some p" "connection p = None" "error \<noteq> 0" using ev awaits_waiting [OF v] by auto
  from on_connect_failed [OF v this, of 0] show ?thesis using Refused by (auto simp: same_routing_def)
next
  case (Routes idx kvs)
  then show ?thesis using ev on_route_watch_ok [OF e v, of kvs idx] by auto
next
  case (WatchFailed ret idx)
  then show ?thesis using ev v by (auto simp: on_route_watch_def)
next
  case (RouteSet k)
  then obtain b where "key_busid k = Some b" using ev by auto
  from on_route_set_ok [OF v this] show ?thesis using RouteSet by auto
next
  case (RouteDel k)
  then obtain b where "key_busid k = Some b" using ev by auto
  from on_route_del_ok [OF v this] show ?thesis using RouteDel by auto
next
  case (Shared cm)
  then obtain Q where "mgr_ok cm Q" using ev by auto
  then have "router_view {} e ((dm_router s)\<lparr>rt_mgr := cm\<rparr>) (v\<lparr>v_chan := Q\<rparr>)" by (intro router_view_mgr [OF v]) simp_all
  then show ?thesis using Shared by auto
qed (use v in \<open>auto simp: reload_def\<close>)

text \<open>
  What the daemon knows of a connection agrees with what the network knows of it: the last sequence number is the number of the messages sent, and the buffer holds the bytes of the next one.
  It never needs more than 4 GiB.
\<close>

definition peer_ok :: "router \<Rightarrow> string \<Rightarrow> peer \<Rightarrow> bool" where
  "peer_ok r h p \<longleftrightarrow> tc_host (pr_conn p) = h \<and> buffer_ok (incoming (pr_conn p)) \<and> peek (incoming (pr_conn p)) = pr_begun p \<and> length (pr_begun p) < 2 ^ 31 + 32 \<and>
     length (mem (incoming (pr_conn p))) < 2 ^ 32 \<and> host2seq r h = Some (word_of_nat (pr_sent p))"

definition daemon_ok :: "env \<Rightarrow> daemon \<Rightarrow> bool" where
  "daemon_ok e s \<longleftrightarrow> (\<exists>v. router_view {} e (dm_router s) v) \<and> (\<forall>h p. dm_peers s h = Some p \<longrightarrow> peer_ok (dm_router s) h p)"

lemma peer_ok_seq: "peer_ok r h p \<Longrightarrow> host2seq r' h = host2seq r h \<Longrightarrow> peer_ok r' h p"
  by (simp add: peer_ok_def)

lemma partial_length: "partial_frame magic s t \<Longrightarrow> length t < 2 ^ 31 + 32"
proof -
  assume "partial_frame magic s t"
  then obtain y u where "sendable y" "frame magic s y = t @ u" by (auto simp: partial_frame_def)
  then show ?thesis using arg_cong [of _ _ length] length_frame [of magic s y] by (fastforce simp: sendable_def)
qed

lemma received_ok:
  assumes e: "env_ok e" and s: "daemon_ok e s" and ev: "possible (MAGIC e) s (Received h xs t)"
  shows "\<exists>s'. dispatch e s (Received h xs t) = Some s' \<and> daemon_ok e s'"
proof -
  obtain v p where v: "router_view {} e (dm_router s) v" and p: "dm_peers s h = Some p" "peer_ok (dm_router s) h p"
    using s ev by (auto simp: daemon_ok_def split: option.splits)
  let ?q = "word_of_nat (pr_sent p) + 1 :: u32" and ?d = "piece (MAGIC e) p xs t"
  have x: "take (length (pr_begun p)) (stream (MAGIC e) p xs t) = pr_begun p" "chunk ?d" "\<forall>x \<in> set xs. sendable x \<and> settled (dm_router s) x"
      "partial_frame (MAGIC e) (?q + word_of_nat (length xs)) t"
    using ev p(1) by (simp_all add: ac_simps)
  note k = p(2) [unfolded peer_ok_def]
  have "pr_begun p @ ?d = stream (MAGIC e) p xs t" using append_take_drop_id [of "length (pr_begun p)" "stream (MAGIC e) p xs t"] x(1) by (simp add: piece_def)
  then have st: "peek (incoming (pr_conn p)) @ ?d = frames (MAGIC e) ?q xs @ t" using k by (simp add: stream_def)
  have hs: "host2seq (dm_router s) (tc_host (pr_conn p)) = Some (?q - 1)" and m: "length (mem (incoming (pr_conn p))) < 2 ^ 62" using k by simp_all
  obtain c' r' where r': "receive_chunk e (dm_router s) (pr_conn p) ?d = Some (c', r')" "buffer_ok (incoming c')" "peek (incoming c') = t" "tc_host c' = tc_host (pr_conn p)"
      "length (mem (incoming c')) \<le> max (length (mem (incoming (pr_conn p)))) (length (peek (incoming (pr_conn p))) + 2048)"
      "router_view {} e r' (fold (pass e (dm_router s)) xs v)" "heard (dm_router s) (tc_host (pr_conn p)) (?q + word_of_nat (length xs) - 1) r'"
    using receive_chunk_ok [OF e v _ m x(2) st x(3,4) hs] k by blast
  let ?s = "s\<lparr>dm_router := r', dm_peers := (dm_peers s)(h \<mapsto> \<lparr>pr_conn = c', pr_sent = pr_sent p + length xs, pr_begun = t\<rparr>)\<rparr>"
  have seq: "host2seq r' = (host2seq (dm_router s))(h \<mapsto> word_of_nat (pr_sent p + length xs))" using r'(7) k by (simp add: heard_def same_routing_def)
  have "peer_ok r' h \<lparr>pr_conn = c', pr_sent = pr_sent p + length xs, pr_begun = t\<rparr>"
    using r'(2-5) k partial_length [OF x(4)] seq by (auto simp: peer_ok_def max_def split: if_splits)
  moreover have "peer_ok r' g q" if "dm_peers s g = Some q" "g \<noteq> h" for g q
    by (rule peer_ok_seq [of "dm_router s"]) (use s that(1) in \<open>simp add: daemon_ok_def\<close>, simp add: seq that(2))
  ultimately have "daemon_ok e ?s" using r'(6) by (auto simp: daemon_ok_def)
  then show ?thesis using p(1) r'(1) by simp
qed

lemma dispatch_ok:
  assumes e: "env_ok e" and s: "daemon_ok e s" and ev: "possible (MAGIC e) s ev"
  shows "\<exists>s'. dispatch e s ev = Some s' \<and> daemon_ok e s'"
proof -
  obtain v where v: "router_view {} e (dm_router s) v" using s by (auto simp: daemon_ok_def)
  have P: "peer_ok (dm_router s) h p" if "dm_peers s h = Some p" for h p using s that by (auto simp: daemon_ok_def)
  obtain r v' where r: "react e (dm_router s) ev = Some r" "router_view {} e r v'" "host2seq r = host2seq (dm_router s)" using react_ok [OF e v ev] by blast
  then have k: "daemon_ok e (s\<lparr>dm_router := r\<rparr>)" using P by (auto simp: daemon_ok_def peer_ok_def)
  show ?thesis
  proof (cases ev)
    case (Accepted h)
    obtain c where c: "tcp_connection_new (heap_malloc e) h = Some c" "tc_host c = h" "buffer_ok (incoming c)" "peek (incoming c) = []" "length (mem (incoming c)) = 512"
      using tcp_connection_new_ok [OF env_malloc [OF e], of h] by blast
    let ?r = "on_client_connected (dm_router s) 0 h"
    have "peer_ok ?r h \<lparr>pr_conn = c, pr_sent = 0, pr_begun = []\<rparr>" using c by (simp add: peer_ok_def on_client_connected_def)
    moreover have "peer_ok ?r g q" if "dm_peers s g = Some q" "g \<noteq> h" for g q using P [OF that(1)] that(2) by (auto simp: peer_ok_def on_client_connected_def)
    ultimately show ?thesis using Accepted c(1) v by (auto simp: daemon_ok_def on_client_connected_def)
  next
    case (Received h xs t)
    then show ?thesis using received_ok [OF e s] ev by blast
  next
    case (Lost h error)
    then obtain p where p: "dm_peers s h = Some p" "error \<noteq> 0" using ev by auto
    have q: "host2seq (dm_router s) (tc_host (pr_conn p)) = Some (word_of_nat (pr_sent p))" "tc_host (pr_conn p) = h" using P [OF p(1)] by (auto simp: peer_ok_def)
    let ?r = "(dm_router s)\<lparr>host2seq := (host2seq (dm_router s))(h := None)\<rparr>"
    have "peer_ok ?r g u" if "dm_peers s g = Some u" "g \<noteq> h" for g u using P [OF that(1)] that(2) by (auto simp: peer_ok_def)
    then show ?thesis using Lost p q v by (auto simp: on_client_message_received_def daemon_ok_def split: if_splits)
  qed (use r(1) k in auto)
qed

lemma daemon_ok_env: "MAGIC e = MAGIC e' \<Longrightarrow> daemon_ok e s = daemon_ok e' s"
  using router_view_env [of e e'] by (simp add: daemon_ok_def)

lemma reachable_ok: "reachable magic s \<Longrightarrow> MAGIC e = magic \<Longrightarrow> daemon_ok e s"
proof (induction arbitrary: e rule: reachable.induct)
  case (start e' cm Q n h)
  then show ?case using router_new_ok [OF start(1,3), of n h] router_view_env [of e e'] by (auto simp: daemon_ok_def)
next
  case (event s e' ev s')
  then have "daemon_ok e' s'" using dispatch_ok [of e' s ev] by fastforce
  then show ?case using daemon_ok_env [of e e'] event by simp
qed

text \<open>
  C11: The daemon does not abort. After any sequence of signals, connections made or refused, connections from other hosts opened and lost, route changes, changes of the shared segment by the local
  processes, and pieces of the streams of other daemons, no next event of these kinds makes an assertion fail or touches memory it must not, and the state stays one that refines the abstract router.
  In particular the sequence numbers that the daemon has stored are always those of the connections that are open. The hypotheses on the environment, which may change from event to event: allocations
  succeed, libuv accepts writes and calls the callback of a connect request once, the shared segment stays well-formed, keys of routes begin with the prefix, every other host has at most one
  connection open at a time, on which a daemon sends well-formed messages numbered from 1, and these messages stay on this host.
\<close>

theorem daemon_never_aborts:
  assumes "env_ok e" and "reachable (MAGIC e) s" and "possible (MAGIC e) s ev"
  shows "\<exists>s' v'. dispatch e s ev = Some s' \<and> reachable (MAGIC e) s' \<and> router_view {} e (dm_router s') v' \<and>
    (\<forall>h p. dm_peers s' h = Some p \<longrightarrow> host2seq (dm_router s') h = Some (word_of_nat (pr_sent p)))"
proof -
  obtain s' where s': "dispatch e s ev = Some s'" "daemon_ok e s'" using dispatch_ok [OF assms(1) reachable_ok [OF assms(2) refl] assms(3)] by blast
  then show ?thesis using reachable.event [OF assms(2,1) refl assms(3)] by (auto simp: daemon_ok_def peer_ok_def)
qed

theorem daemon_never_aborts_witness:
  "\<exists>s s' s''. reachable 7 s \<and> dispatch demo_env s (Accepted ''c'') = Some s' \<and> dispatch demo_env s' (Lost ''c'' UV_EOF) = Some s''"
proof -
  let ?s = "\<lparr>dm_router = router_new demo_env 1 ''a'' demo_bus_mgr, dm_peers = (\<lambda>_. None)\<rparr>"
  have m: "MAGIC demo_env = 7" by (simp add: demo_env_def)
  have r: "reachable (MAGIC demo_env) ?s" using demo_bus_mgr_ok by (intro reachable.start [OF demo_env_ok(1) refl])
  obtain s' where s': "dispatch demo_env ?s (Accepted ''c'') = Some s'" "reachable (MAGIC demo_env) s'"
    using daemon_never_aborts [OF demo_env_ok(1) r, of "Accepted ''c''"] by auto
  have "dm_peers s' ''c'' \<noteq> None" using s'(1) by (auto split: Option.bind_splits)
  then obtain s'' where "dispatch demo_env s' (Lost ''c'' UV_EOF) = Some s''"
    using daemon_never_aborts [OF demo_env_ok(1) s'(2), of "Lost ''c'' UV_EOF"] by (auto simp: UV_EOF_def simp del: dispatch.simps)
  then show ?thesis using r s'(1) unfolding m by blast
qed

section \<open>Two connections from one host\<close>

text \<open>
  The sequence numbers are kept by host. When a host opens a second connection before the first one is lost, as after a crash that the first connection has not noticed, the loss of both aborts the
  daemon, and so does a message on the second one after the loss of the first.
\<close>

lemma second_connection_aborts:
  assumes "tc_host c = h" "tc_host d = h" "error \<noteq> 0"
  shows "\<exists>c' r'. on_client_message_received e (on_client_connected (on_client_connected r 0 h) 0 h) error c = Some (c', r') \<and>
    on_client_message_received e r' error d = None \<and> receive_one e r' h m = None"
  using assms by (simp add: on_client_message_received_def on_client_connected_def receive_one_def sk_assert_def split: Option.bind_split)

section \<open>The message that aborts it\<close>

lemma handle_connected:
  assumes e: "env_ok e" and v: "router_view P e r v" and m: "fits m" and g: "map_of (active_endpoints r) (busid_of (bm_dst m)) = Some g"
    and p: "host2endpoints r g = Some p" "connection p = Some a"
  shows "\<exists>m' r'. handle_message e r m = Some (0, m', r') \<and> bm_length m' = intrev32 (bm_length m)"
proof -
  have i: "busid_of (bm_dst m) \<notin> inactive_endpoints r" using router_viewD(2) [OF v] g by auto
  have l: "g \<noteq> localhost r" using router_viewD(4) [OF v, of g] p by (auto simp: host_ok_def)
  have "handle_message e r m = send_remote e r g m"
    unfolding handle_message_def find_host_def send_remote_def fetch_endpoint_def using i l g p(1) by simp
  then show ?thesis using send_connected [OF e v m p] by auto
qed

lemma intrev32_large: "(unat v mod 256) * 2 ^ 24 \<le> unat (intrev32 v)"
proof -
  have "unat (intrev32 v) = le_val (le_bytes 4 (unat (intrev32 v)))" using unsigned_less [where 'a = nat, of "intrev32 v"] by (simp add: le_val_bytes)
  also have "\<dots> = le_val (rev (le_bytes 4 (unat v)))" by (simp only: intrev_bytes)
  finally have u: "unat (intrev32 v) = le_val (rev (le_bytes 4 (unat v)))" .
  have "(4 :: nat) = Suc (Suc (Suc (Suc 0)))" by simp
  then have b: "le_bytes 4 (unat v) = [word_of_nat (unat v), word_of_nat (unat v div 256), word_of_nat (unat v div 256 div 256), word_of_nat (unat v div 256 div 256 div 256)]"
    by (simp only: le_bytes.simps)
  have m: "unat (word_of_nat (unat v) :: u8) = unat v mod 256" by (subst unat_of_nat) simp
  show ?thesis unfolding u b by (simp only: rev.simps append.simps le_val.simps m) simp
qed

text \<open>
  C40: A message of another daemon that has to be sent on to a third host aborts the daemon: \<^verbatim>\<open>handle_message\<close> leaves the header of the message in network order, and the bytes that
  are consumed afterwards are counted with that length. It suffices that the connection to the third host is open, that the length is not a multiple of 256 and that the buffer holds at most 16 MiB.
\<close>

theorem forwarding_aborts:
  assumes "env_ok e" and "router_view {} e r v" and "buffer_ok b" and "peek b = frame (MAGIC e) s x @ t" and "sendable x"
    and "host2seq r h = Some (s - 1)" and "map_of (active_endpoints r) (busid_of (fst (snd x))) = Some g" and "host2endpoints r g = Some p" and "connection p = Some a"
    and "length (data_of x) mod 256 \<noteq> 0" and "length (peek b) \<le> 2 ^ 24"
  shows "receive_loop e r h b = None"
proof -
  let ?m = "arrived (MAGIC e) s x t" and ?r = "r\<lparr>host2seq := (host2seq r)(h \<mapsto> s)\<rparr>"
  have d: "bm_dst ?m = fst (snd x)" "bm_length ?m = word_of_nat (length (data_of x))" by (simp_all add: arrived_def)
  obtain m' r' where m: "handle_message e ?r ?m = Some (0, m', r')" "bm_length m' = intrev32 (bm_length ?m)"
    using handle_connected [OF assms(1) _ arrived_ok(1) [OF assms(5)], of "{}" ?r v "MAGIC e" s t g p a] assms(2,7,8,9) d by auto
  have u: "unat (bm_length ?m) = length (data_of x)" using numbered_length [OF assms(5)] d(2) by simp
  have "2 ^ 24 < total_length m'" using intrev32_large [of "bm_length ?m"] assms(10) m(2) u by (simp add: total_length_def sizeof_bus_message_def)
  moreover have l: "32 \<le> length (peek b)" using assms(4) by simp
  moreover have "length (peek (put_head b m')) = length (peek b)" unfolding put_head_ok(2) [OF assms(3) l] using l by simp
  ultimately have "consume (put_head b m') (total_length m') = None"
    using consume_refines [OF put_head_ok(1) [OF assms(3) l], of "total_length m'" m'] assms(11) by simp
  then show ?thesis using receive_turn [OF assms(3-6)] m(1) by simp
qed

theorem forwarding_aborts_witness:
  "\<exists>r v b. router_view {} demo_env r v \<and> peek b = frame 7 1 (3, 5, 9, [1, 2]) \<and> receive_loop demo_env r ''c'' b = None"
proof -
  let ?b = "\<lparr>mem = frame 7 1 (3, 5, 9, [1, 2]), rindex = 0, windex = 34\<rparr> :: buffer" and ?v = "(empty_view (\<lambda>_. ([], [])))\<lparr>v_out := (\<lambda>_. [])(''b'' := [(77, 5, 9, [1, 2])])\<rparr>"
  have b: "buffer_ok ?b" "peek ?b = frame (MAGIC demo_env) 1 (3, 5, 9, [1, 2]) @ []" "sendable (3, 5, 9, [1, 2])" "length (peek ?b) \<le> 2 ^ 24"
    by (simp_all add: buffer_ok_def peek_def sendable_def demo_env_def)
  obtain r p c where r: "router_view {} demo_env r ?v" "host2endpoints r ''b'' = Some p" "connection p = Some 3" "active_endpoints r = [(5, ''b''), (77, ''a'')]"
    by (rule demo_connected)
  let ?r = "r\<lparr>host2seq := [''c'' \<mapsto> 0]\<rparr>"
  have v: "router_view {} demo_env ?r ?v" using r(1) by simp
  have "receive_loop demo_env ?r ''c'' ?b = None"
    by (rule forwarding_aborts [OF demo_env_ok(1) v b(1-3), where g = "''b''" and p = p and a = 3]) (use r b(4) in simp_all)
  moreover have "peek ?b = frame 7 1 (3, 5, 9, [1, 2])" using b(2) by (simp add: demo_env_def)
  ultimately show ?thesis using v by blast
qed

text \<open>The test for the prefix of a key holds for a key that is shorter than the prefix, and the code behind it throws.\<close>

lemma short_key_aborts: "on_route_del r 0 False ''bu'' = None"
  by (simp add: on_route_del_def key_busid_def BUS_KV_PREFIX_def)

end
