(* ===== verification/Fixed_Bitmap.thy ===== *)
theory Fixed_Bitmap
  imports Prelude
begin

text \<open>
  \<^verbatim>\<open>src/src/container/fixed_bitmap.h\<close>: a bitmap of \<open>N \<ge> 1\<close> bits in 64-bit words. The words are a list of length \<open>WORD_COUNT N\<close>;
  the operations take the template parameter \<open>N\<close>. The compiler builtins \<^verbatim>\<open>__builtin_popcountl\<close> and \<^verbatim>\<open>__builtin_ctzl\<close>
  are the number of set bits and the position of the lowest one.
\<close>

unbundle bit_operations_syntax

type_synonym bitmap = "u64 list"

definition WORD_COUNT :: "nat \<Rightarrow> nat" where "WORD_COUNT N = (N + 64 - 1) div 64"
definition EXTRA_BITS :: "nat \<Rightarrow> nat" where "EXTRA_BITS N = and N 63"
definition WASTE_BITS :: "nat \<Rightarrow> nat" where "WASTE_BITS N = (if EXTRA_BITS N = 0 then 0 else 64 - EXTRA_BITS N)"
definition WORD_FULL :: u64 where "WORD_FULL = NOT 0"

definition popcountl :: "u64 \<Rightarrow> nat" where "popcountl w = length (filter (bit w) [0..<64])"
definition ctzl :: "u64 \<Rightarrow> nat" where "ctzl w = length (takeWhile (\<lambda>j. \<not> bit w j) [0..<64])"

definition pos_mask :: "nat \<Rightarrow> u64" where "pos_mask pos = push_bit (and pos 63) 1"

definition bm_reset :: "nat \<Rightarrow> bitmap" where
  "bm_reset N = replicate (WORD_COUNT N) 0"

fun count_loop :: "bitmap \<Rightarrow> nat \<Rightarrow> nat" where
  "count_loop [] n = n"
| "count_loop (w # ws) n = count_loop ws (n + popcountl w)"

definition bm_count :: "bitmap \<Rightarrow> nat" where
  "bm_count ws = count_loop ws 0"

definition bm_all :: "nat \<Rightarrow> bitmap \<Rightarrow> bool" where
  "bm_all N ws \<longleftrightarrow> (\<forall>w \<in> set (take (WORD_COUNT N - 1) ws). w = WORD_FULL) \<and>
     ws ! (WORD_COUNT N - 1) = drop_bit (WASTE_BITS N) WORD_FULL"

fun bm_any :: "bitmap \<Rightarrow> bool" where
  "bm_any [] = False"
| "bm_any (w # ws) = (if w \<noteq> 0 then True else bm_any ws)"

definition bm_none :: "bitmap \<Rightarrow> bool" where
  "bm_none ws \<longleftrightarrow> \<not> bm_any ws"

definition bm_test :: "nat \<Rightarrow> bitmap \<Rightarrow> nat \<Rightarrow> bool option" where
  "bm_test N ws pos = do { sk_assert (pos < N); Some (and (ws ! drop_bit 6 pos) (pos_mask pos) \<noteq> 0) }"

definition bm_set_all :: "nat \<Rightarrow> bitmap \<Rightarrow> bitmap" where
  "bm_set_all N ws =
     (let ws = map (\<lambda>_. WORD_FULL) ws; l = WORD_COUNT N - 1
      in if EXTRA_BITS N \<noteq> 0 then ws[l := and (ws ! l) (NOT (push_bit (EXTRA_BITS N) WORD_FULL))] else ws)"

definition bm_set :: "nat \<Rightarrow> bitmap \<Rightarrow> nat \<Rightarrow> bitmap option" where
  "bm_set N ws pos = do { sk_assert (pos < N); Some (ws[drop_bit 6 pos := or (ws ! drop_bit 6 pos) (pos_mask pos)]) }"

definition bm_reset_bit :: "nat \<Rightarrow> bitmap \<Rightarrow> nat \<Rightarrow> bitmap option" where
  "bm_reset_bit N ws pos =
     do { sk_assert (pos < N); Some (ws[drop_bit 6 pos := and (ws ! drop_bit 6 pos) (NOT (pos_mask pos))]) }"

definition bm_flip_all :: "nat \<Rightarrow> bitmap \<Rightarrow> bitmap" where
  "bm_flip_all N ws =
     (let ws = map (\<lambda>w. NOT w) ws; l = WORD_COUNT N - 1
      in ws[l := and (ws ! l) (NOT (push_bit (EXTRA_BITS N) WORD_FULL))])"

definition bm_flip :: "nat \<Rightarrow> bitmap \<Rightarrow> nat \<Rightarrow> bitmap option" where
  "bm_flip N ws pos = do { sk_assert (pos < N); Some (ws[drop_bit 6 pos := xor (ws ! drop_bit 6 pos) (pos_mask pos)]) }"

fun first_loop :: "nat \<Rightarrow> bitmap \<Rightarrow> nat \<Rightarrow> nat" where
  "first_loop N [] i = N"
| "first_loop N (w # ws) i = (if w \<noteq> 0 then i * 64 + ctzl w else first_loop N ws (i + 1))"

definition find_first :: "nat \<Rightarrow> bitmap \<Rightarrow> nat" where
  "find_first N ws = first_loop N ws 0"

section \<open>The set of positions\<close>

definition bits :: "bitmap \<Rightarrow> nat set" where
  "bits ws = {p. p < 64 * length ws \<and> bit (ws ! (p div 64)) (p mod 64)}"

definition bitmap_ok :: "nat \<Rightarrow> bitmap \<Rightarrow> bool" where
  "bitmap_ok N ws \<longleftrightarrow> 0 < N \<and> length ws = WORD_COUNT N \<and> bits ws \<subseteq> {..<N}"

lemma pos_parts: "drop_bit 6 p = p div 64" "and p 63 = p mod 64" for p :: nat
proof -
  show "drop_bit 6 p = p div 64" by (simp add: drop_bit_eq_div)
  show "and p 63 = p mod 64" using take_bit_eq_mask [of 6 p] by (simp add: take_bit_eq_mod mask_eq_exp_minus_1)
qed

lemma bit_pos_mask: "bit (pos_mask p) j \<longleftrightarrow> j = p mod 64"
  by (auto simp: pos_mask_def pos_parts bit_simps)

lemma bit_word_full: "bit WORD_FULL j \<longleftrightarrow> j < 64"
  by (simp add: WORD_FULL_def bit_simps)

lemma words_bound: "0 < N \<Longrightarrow> p < N \<Longrightarrow> p div 64 < WORD_COUNT N"
  by (simp add: WORD_COUNT_def div_less_iff_less_mult)

lemma words_cover: "N \<le> 64 * WORD_COUNT N"
  by (simp add: WORD_COUNT_def)

lemma bits_update:
  assumes "p < 64 * length ws" and "\<And>j. j < 64 \<Longrightarrow> bit v j \<longleftrightarrow> (if j = p mod 64 then c else bit (ws ! (p div 64)) j)"
  shows "bits (ws[p div 64 := v]) = (if c then insert p (bits ws) else bits ws - {p})"
proof -
  have "q = p \<longleftrightarrow> q div 64 = p div 64 \<and> q mod 64 = p mod 64" for q by (metis div_mult_mod_eq)
  moreover have "p div 64 < length ws" using assms(1) by (simp add: div_less_iff_less_mult mult.commute)
  ultimately show ?thesis using assms by (auto simp: bits_def nth_list_update split: if_splits)
qed

lemma word_zero_iff: "w = 0 \<longleftrightarrow> (\<forall>j < 64. \<not> bit w j)" for w :: u64
  by (auto intro: bit_word_eqI)

lemma and_mask_bit: "and w (pos_mask p) \<noteq> 0 \<longleftrightarrow> bit w (p mod 64)" for w :: u64
  by (auto simp: word_zero_iff bit_and_iff bit_pos_mask)

text \<open>
  Single positions. \<^verbatim>\<open>test\<close> reads membership, and \<^verbatim>\<open>set\<close>, \<^verbatim>\<open>reset\<close> and \<^verbatim>\<open>flip\<close> of a position insert, delete and toggle exactly this position;
  a position outside the bitmap ends in the assertion.
\<close>

theorem bitmap_positions:
  assumes "bitmap_ok N ws"
  shows "if p < N then bm_test N ws p = Some (p \<in> bits ws) \<and>
      (\<exists>ws'. bm_set N ws p = Some ws' \<and> bitmap_ok N ws' \<and> bits ws' = insert p (bits ws)) \<and>
      (\<exists>ws'. bm_reset_bit N ws p = Some ws' \<and> bitmap_ok N ws' \<and> bits ws' = bits ws - {p}) \<and>
      (\<exists>ws'. bm_flip N ws p = Some ws' \<and> bitmap_ok N ws' \<and> bits ws' = (if p \<in> bits ws then bits ws - {p} else insert p (bits ws)))
    else bm_test N ws p = None \<and> bm_set N ws p = None \<and> bm_reset_bit N ws p = None \<and> bm_flip N ws p = None"
proof (cases "p < N")
  case True
  have l: "length ws = WORD_COUNT N" "0 < N" "bits ws \<subseteq> {..<N}" using assms by (auto simp: bitmap_ok_def)
  have p: "p < 64 * length ws" using True words_cover [of N] l(1) by simp
  let ?w = "ws ! (p div 64)"
  have t: "p \<in> bits ws \<longleftrightarrow> bit ?w (p mod 64)" using p by (simp add: bits_def)
  have s: "bits (ws[p div 64 := or ?w (pos_mask p)]) = insert p (bits ws)"
    using bits_update [OF p, of "or ?w (pos_mask p)" True] by (simp add: bit_or_iff bit_pos_mask)
  have r: "bits (ws[p div 64 := and ?w (NOT (pos_mask p))]) = bits ws - {p}"
    using bits_update [OF p, of "and ?w (NOT (pos_mask p))" False] by (simp add: bit_and_iff bit_not_iff bit_pos_mask)
  have f: "bits (ws[p div 64 := xor ?w (pos_mask p)]) = (if p \<in> bits ws then bits ws - {p} else insert p (bits ws))"
    using bits_update [OF p, of "xor ?w (pos_mask p)" "p \<notin> bits ws"] t by (auto simp: bit_xor_iff bit_pos_mask)
  show ?thesis
    using True l t s r f by (auto simp: bm_test_def bm_set_def bm_reset_bit_def bm_flip_def pos_parts and_mask_bit bitmap_ok_def)
qed (simp add: bm_test_def bm_set_def bm_reset_bit_def bm_flip_def)

section \<open>Whole bitmaps\<close>

lemma bits_Nil: "bits [] = {}"
  by (simp add: bits_def)

lemma bits_Cons: "bits (w # ws) = {j. j < 64 \<and> bit w j} \<union> (\<lambda>p. p + 64) ` bits ws"
proof (rule set_eqI)
  fix p show "p \<in> bits (w # ws) \<longleftrightarrow> p \<in> {j. j < 64 \<and> bit w j} \<union> (\<lambda>p. p + 64) ` bits ws"
  proof (cases "p < 64")
    case True then show ?thesis by (auto simp: bits_def)
  next
    case False
    then obtain q where "p = q + 64" using le_Suc_ex by (metis add.commute not_less)
    moreover have "(q + 64) div 64 = Suc (q div 64)" by simp
    ultimately show ?thesis by (auto simp: bits_def image_iff)
  qed
qed

lemma finite_bits: "finite (bits ws)"
  by (simp add: bits_def)

lemma popcountl_card: "popcountl w = card {j. j < 64 \<and> bit w j}"
  by (simp add: popcountl_def length_filter_conv_card cong: conj_cong)

lemma count_loop_card: "count_loop ws n = n + card (bits ws)"
proof (induction ws arbitrary: n)
  case Nil then show ?case by (simp add: bits_Nil)
next
  case (Cons w ws)
  have "card (bits (w # ws)) = card {j. j < 64 \<and> bit w j} + card ((\<lambda>p. p + 64) ` bits ws)"
    unfolding bits_Cons by (rule card_Un_disjoint) (auto simp: finite_bits)
  also have "card ((\<lambda>p. p + 64) ` bits ws) = card (bits ws)" by (rule card_image) simp
  finally show ?case using Cons by (simp add: popcountl_card)
qed

lemma bm_any_iff: "bm_any ws \<longleftrightarrow> bits ws \<noteq> {}"
  by (induction ws) (auto simp: bits_Nil bits_Cons word_zero_iff)

lemma ctzl_least: "w \<noteq> 0 \<Longrightarrow> ctzl w < 64 \<and> bit w (ctzl w) \<and> (\<forall>j. bit w j \<longrightarrow> ctzl w \<le> j)"
proof -
  assume "w \<noteq> 0"
  then obtain j where j: "j < 64" "bit w j" by (auto simp: word_zero_iff)
  let ?xs = "[0..<64]" and ?n = "length (takeWhile (\<lambda>j. \<not> bit w j) [0..<64])"
  have "takeWhile (\<lambda>j. \<not> bit w j) ?xs \<noteq> ?xs" using j by (auto simp: takeWhile_eq_all_conv)
  then have "?n \<noteq> length ?xs" using takeWhile_eq_take [of "\<lambda>j. \<not> bit w j" ?xs] by (metis take_all_iff order_refl)
  then have n: "?n < length ?xs" using length_takeWhile_le [of "\<lambda>j. \<not> bit w j" ?xs] by linarith
  then have "bit w (?xs ! ?n)" using nth_length_takeWhile [of "\<lambda>j. \<not> bit w j" ?xs] by blast
  moreover have "\<not> bit w i" if "i < ?n" for i
    using takeWhile_nth [OF that] nth_mem [OF that] set_takeWhileD [of "?xs ! i" "\<lambda>j. \<not> bit w j" ?xs] that n by simp
  ultimately show ?thesis using n by (auto simp: ctzl_def) (meson not_le)
qed

lemma first_loop_Min: "first_loop N ws i = (if bits ws = {} then N else 64 * i + Min (bits ws))"
proof (induction ws arbitrary: i)
  case Nil then show ?case by (simp add: bits_Nil)
next
  case (Cons w ws)
  show ?case
  proof (cases "w = 0")
    case True
    then have b: "bits (w # ws) = (\<lambda>p. p + 64) ` bits ws" by (simp add: bits_Cons)
    have "Min ((\<lambda>p. p + 64) ` bits ws) = Min (bits ws) + 64" if "bits ws \<noteq> {}"
      using that finite_bits by (intro mono_Min_commute [symmetric]) (auto simp: mono_def)
    then show ?thesis using Cons True b by simp
  next
    case False
    note c = ctzl_least [OF False]
    have "Min (bits (w # ws)) = ctzl w"
      by (rule Min_eqI) (use c finite_bits in \<open>auto simp: bits_Cons\<close>)
    then show ?thesis using False c by (auto simp: bits_Cons)
  qed
qed

text \<open>
  Queries. \<^verbatim>\<open>count\<close> is the number of positions, \<^verbatim>\<open>any\<close> and \<^verbatim>\<open>none\<close> test for emptiness, and \<^verbatim>\<open>find_first\<close> is the least position, or \<open>N\<close> for an empty bitmap.
\<close>

theorem bitmap_queries:
  "bm_count ws = card (bits ws) \<and> bm_any ws = (bits ws \<noteq> {}) \<and> bm_none ws = (bits ws = {}) \<and>
   find_first N ws = (if bits ws = {} then N else Min (bits ws))"
  by (simp add: bm_count_def count_loop_card bm_any_iff bm_none_def find_first_def first_loop_Min)

lemma diff_int: "C \<subseteq> A \<Longrightarrow> (A - B) \<inter> C = C - B"
  by blast

lemma last_word: "0 < N \<Longrightarrow> 64 * (WORD_COUNT N - 1) + (if EXTRA_BITS N = 0 then 64 else EXTRA_BITS N) = N \<and> EXTRA_BITS N < 64 \<and> 0 < WORD_COUNT N"
proof -
  assume "0 < N"
  then obtain M where M: "N = Suc M" by (cases N) auto
  then have w: "WORD_COUNT N = M div 64 + 1" by (simp add: WORD_COUNT_def) 
  have e: "EXTRA_BITS N = Suc M mod 64" using M by (simp add: EXTRA_BITS_def pos_parts)
  have "(M mod 64 = 63 \<longrightarrow> 63 + 64 * (M div 64) = M) \<and> (M mod 64 \<noteq> 63 \<longrightarrow> M mod 64 < 63)" by presburger
  then show ?thesis using w e M by (simp add: mod_Suc)
qed

lemma bits_masked:
  assumes "length ws = WORD_COUNT N" and "0 < N"
  shows "bits (ws[WORD_COUNT N - 1 := and (ws ! (WORD_COUNT N - 1)) (NOT (push_bit (EXTRA_BITS N) WORD_FULL))]) =
    bits ws \<inter> {..<64 * (WORD_COUNT N - 1) + EXTRA_BITS N}" (is "bits ?v = _")
proof (rule set_eqI)
  fix p
  let ?l = "WORD_COUNT N - 1" and ?E = "EXTRA_BITS N"
  note s = last_word [OF assms(2)]
  have m: "bit (and (ws ! ?l) (NOT (push_bit ?E WORD_FULL))) j \<longleftrightarrow> bit (ws ! ?l) j \<and> j < ?E" if "j < 64" for j
    using that by (auto simp: bit_and_iff bit_not_iff bit_push_bit_iff bit_word_full)
  have len: "length ?v = length ws" by simp
  show "p \<in> bits ?v \<longleftrightarrow> p \<in> bits ws \<inter> {..<64 * ?l + ?E}"
  proof (cases "p div 64 = ?l")
    case True
    then have "p = 64 * ?l + p mod 64" by (metis mult_div_mod_eq)
    then have "p < 64 * ?l + ?E \<longleftrightarrow> p mod 64 < ?E" by linarith
    then show ?thesis using True m [of "p mod 64"] assms(1) s by (auto simp: bits_def)
  next
    case False
    have "p \<in> bits ws \<Longrightarrow> p div 64 < WORD_COUNT N"
      using assms(1) by (simp add: bits_def div_less_iff_less_mult mult.commute)
    then have "p \<in> bits ws \<Longrightarrow> p < 64 * ?l" using False by (simp add: div_less_iff_less_mult [symmetric] mult.commute)
    then show ?thesis using False by (auto simp: bits_def)
  qed
qed

lemma bits_full: "bits (map (\<lambda>_. WORD_FULL) ws) = {..<64 * length ws}"
  by (auto simp: bits_def bit_word_full div_less_iff_less_mult mult.commute)

lemma bits_not: "bits (map (\<lambda>w. NOT w) ws) = {..<64 * length ws} - bits ws"
  by (auto simp: bits_def bit_not_iff div_less_iff_less_mult mult.commute)

lemma bits_set_all:
  assumes "0 < N" and "length ws = WORD_COUNT N"
  shows "bits (bm_set_all N ws) = {..<N}"
proof (cases "EXTRA_BITS N = 0")
  case True
  have "64 * WORD_COUNT N = N" using last_word [OF assms(1)] True by (cases "WORD_COUNT N") auto
  then show ?thesis using True assms(2) by (simp add: bm_set_all_def bits_full Let_def)
next
  case False
  then have "64 * (WORD_COUNT N - 1) + EXTRA_BITS N = N" "N \<le> 64 * WORD_COUNT N"
    using last_word [OF assms(1)] words_cover [of N] by simp_all
  then show ?thesis
    using bits_masked [of "map (\<lambda>_. WORD_FULL) ws" N] assms False
    by (simp add: bm_set_all_def bits_full Let_def Int_absorb1)
qed

lemma bits_inj: "length ws = length vs \<Longrightarrow> bits ws = bits vs \<Longrightarrow> ws = vs"
proof (induction ws vs rule: list_induct2)
  case (Cons w ws v vs)
  have b: "j < 64 \<Longrightarrow> bit w j = bit v j" for j
    using Cons.prems by (fastforce simp: bits_Cons set_eq_iff image_iff)
  have "p \<in> bits ws \<longleftrightarrow> p \<in> bits vs" for p
  proof -
    have "p \<in> bits us \<longleftrightarrow> p + 64 \<in> bits (u # us)" for u us by (auto simp: bits_Cons)
    then show ?thesis using Cons.prems by metis
  qed
  then show ?case using Cons.IH b by (auto intro: bit_word_eqI)
qed simp

lemma bm_all_iff:
  assumes "bitmap_ok N ws"
  shows "bm_all N ws \<longleftrightarrow> bits ws = {..<N}"
proof -
  have l: "0 < N" "length ws = WORD_COUNT N" using assms by (auto simp: bitmap_ok_def)
  let ?l = "WORD_COUNT N - 1" and ?E = "EXTRA_BITS N"
  note s = last_word [OF l(1)]
  have d: "drop_bit (WASTE_BITS N) WORD_FULL = (if ?E = 0 then WORD_FULL else and WORD_FULL (NOT (push_bit ?E WORD_FULL)))"
    using s by (intro bit_word_eqI) (auto simp: WASTE_BITS_def bit_drop_bit_eq bit_and_iff bit_not_iff bit_push_bit_iff bit_word_full)
  have sa: "bm_set_all N ws = replicate ?l WORD_FULL @ [drop_bit (WASTE_BITS N) WORD_FULL]"
  proof -
    have "map (\<lambda>_. WORD_FULL) ws = replicate ?l WORD_FULL @ [WORD_FULL]"
      using l s replicate_Suc [of ?l WORD_FULL] replicate_append_same [of ?l WORD_FULL] by (simp add: map_replicate_const)
    then show ?thesis unfolding bm_set_all_def d by (simp add: Let_def nth_append list_update_append)
  qed
  have split: "ws = take ?l ws @ [ws ! ?l]"
    using l s take_Suc_conv_app_nth [of ?l ws] by simp
  have "bm_all N ws \<longleftrightarrow> ws = bm_set_all N ws"
  proof
    assume a: "bm_all N ws"
    then have "take ?l ws = replicate ?l WORD_FULL" using l by (intro replicate_eqI) (auto simp: bm_all_def)
    then show "ws = bm_set_all N ws" using split a unfolding sa bm_all_def by metis
  next
    assume "ws = bm_set_all N ws"
    then have w: "ws = replicate ?l WORD_FULL @ [drop_bit (WASTE_BITS N) WORD_FULL]" using sa by simp
    show "bm_all N ws" unfolding bm_all_def by (subst (1 2) w) (simp add: nth_append)
  qed
  also have "\<dots> \<longleftrightarrow> bits ws = bits (bm_set_all N ws)"
  proof
    have "length ws = length (bm_set_all N ws)" by (simp add: bm_set_all_def Let_def)
    then show "bits ws = bits (bm_set_all N ws) \<Longrightarrow> ws = bm_set_all N ws" by (rule bits_inj)
  qed (rule arg_cong)
  finally show ?thesis unfolding bits_set_all [OF l] .
qed

text \<open>
  Whole-bitmap updates. The empty bitmap, \<^verbatim>\<open>set()\<close> and \<^verbatim>\<open>all()\<close> treat exactly the \<open>N\<close> positions, whatever the unused bits of the last
  word; \<^verbatim>\<open>flip()\<close> complements the bitmap when \<open>N\<close> is not a multiple of 64. When it is, the mask of the last word is empty
  and \<^verbatim>\<open>flip()\<close> clears the last 64 positions instead of complementing them.
\<close>

theorem bitmap_whole:
  assumes "bitmap_ok N ws"
  shows "bits (bm_reset N) = {} \<and> bitmap_ok N (bm_reset N) \<and> bits (bm_set_all N ws) = {..<N} \<and> bitmap_ok N (bm_set_all N ws) \<and>
    (bm_all N ws \<longleftrightarrow> bits ws = {..<N}) \<and>
    bits (bm_flip_all N ws) = (if N mod 64 \<noteq> 0 then {..<N} - bits ws else {..<N - 64} - bits ws)"
proof -
  have l: "0 < N" "length ws = WORD_COUNT N" using assms by (auto simp: bitmap_ok_def)
  have z: "bits (bm_reset N) = {}" by (auto simp: bits_def bm_reset_def div_less_iff_less_mult mult.commute)
  have e: "EXTRA_BITS N = N mod 64" by (simp add: EXTRA_BITS_def pos_parts)
  note s = last_word [OF l(1)]
  have f: "bits (bm_flip_all N ws) = ({..<64 * length ws} - bits ws) \<inter> {..<64 * (WORD_COUNT N - 1) + EXTRA_BITS N}"
    using bits_masked [of "map (\<lambda>w. NOT w) ws" N] l by (simp add: bm_flip_all_def bits_not Let_def)
  have "bits (bm_flip_all N ws) = (if N mod 64 \<noteq> 0 then {..<N} - bits ws else {..<N - 64} - bits ws)"
  proof (cases "N mod 64 = 0")
    case True
    then have a: "64 * (WORD_COUNT N - 1) + 64 = N" using s e by simp
    then have "64 * (WORD_COUNT N - 1) + EXTRA_BITS N = N - 64" using e True by linarith
    moreover have "N - 64 \<le> 64 * length ws" using l(2) words_cover [of N] by simp
    ultimately show ?thesis using f True by (simp add: diff_int)
  next
    case False
    then have "64 * (WORD_COUNT N - 1) + EXTRA_BITS N = N" "N \<le> 64 * length ws"
      using s e l(2) words_cover [of N] False by simp_all
    then show ?thesis using f False by (simp add: diff_int)
  qed
  moreover have "length (bm_set_all N ws) = WORD_COUNT N" using l by (simp add: bm_set_all_def Let_def)
  moreover have "length (bm_reset N) = WORD_COUNT N" by (simp add: bm_reset_def)
  ultimately show ?thesis
    using z bits_set_all [OF l] bm_all_iff [OF assms] l(1) unfolding bitmap_ok_def by simp
qed

theorem bitmap_positions_witness: "bm_test 70 [0, 2] 65 = Some True"
proof -
  have b: "bits [0, 2] = {65}"
  proof -
    have "bit (2 :: u64) j \<longleftrightarrow> j = 1" for j using bit_exp_iff [of 1 j, where 'a = "64 word"] by auto
    then have "{j. j < 64 \<and> bit (2 :: u64) j} = {1}" by auto
    then show ?thesis by (simp only: bits_Cons bits_Nil) simp
  qed
  then have "bitmap_ok 70 [0, 2]" by (simp add: bitmap_ok_def WORD_COUNT_def)
  from bitmap_positions [OF this, of 65] b show ?thesis by simp
qed

theorem bitmap_whole_witness: "bits (bm_flip_all 64 [0]) = {} \<and> bits (bm_set_all 64 [0]) = {..<64}"
  using bitmap_whole [of 64 "[0]"] by (simp add: bitmap_ok_def WORD_COUNT_def bits_Cons bits_Nil)

end
