(* ===== verification/Base64.thy ===== *)
theory Base64
  imports Prelude
begin

text \<open>
  \<^verbatim>\<open>src/src/utility/crypto_helper.cpp\<close>: base64. Strings are lists of bytes; \<^verbatim>\<open>bytes\<close> is a 32-bit accumulator that is shifted left without ever
  being cleared, and \<open>bits\<close> counts the valid low bits in it. The output string of \<^verbatim>\<open>base64_encode\<close> is allocated
  in full, filled with padding characters.
\<close>

unbundle bit_operations_syntax

definition ch :: "char \<Rightarrow> u8" where "ch c = of_nat (of_char c)"

definition basis64 :: "u8 list" where
  "basis64 = map ch ''ABCDEFGHIJKLMNOPQRSTUVWXYZabcdefghijklmnopqrstuvwxyz0123456789+/''"

definition pr2six :: "nat list" where
  "pr2six = replicate 43 64 @ [62] @ replicate 3 64 @ [63] @ [52..<62] @ replicate 7 64 @ [0..<26] @ replicate 6 64 @ [26..<52] @ replicate 133 64"

text \<open>The inner loop of \<^verbatim>\<open>base64_encode\<close>: \<^verbatim>\<open>output[pos]\<close> is written before \<open>pos\<close> moves on, and the switch then looks at the next character.\<close>

definition put :: "u8 list \<Rightarrow> nat \<Rightarrow> u8 \<Rightarrow> u8 list option" where
  "put output pos c = do { sk_assert (pos < length output); Some (output[pos := c]) }"

definition url_switch :: "bool \<Rightarrow> u8 list \<Rightarrow> nat \<Rightarrow> u8 list" where
  "url_switch url output pos =
     (if url \<and> pos < length output then
        (if output ! pos = ch (CHR ''+'') then output[pos := ch (CHR ''-'')]
         else if output ! pos = ch (CHR ''/'') then output[pos := ch (CHR ''_'')] else output)
      else output)"

function encode_bits :: "bool \<Rightarrow> u32 \<Rightarrow> nat \<Rightarrow> nat \<Rightarrow> u8 list \<Rightarrow> (nat \<times> nat \<times> u8 list) option" where
  "encode_bits url bytes bits pos output =
     (if bits \<ge> 6 then do {
        let bits = bits - 6;
        output \<leftarrow> put output pos (basis64 ! unat (and (drop_bit bits bytes) 0x3F));
        let pos = pos + 1;
        encode_bits url bytes bits pos (url_switch url output pos)
      }
      else Some (bits, pos, output))"
  by pat_completeness auto

termination by (relation "measure (\<lambda>(_, _, bits, _, _). bits)") auto

declare encode_bits.simps [simp del]

fun encode_loop :: "bool \<Rightarrow> u8 list \<Rightarrow> u32 \<Rightarrow> nat \<Rightarrow> nat \<Rightarrow> u8 list \<Rightarrow> (u32 \<times> nat \<times> nat \<times> u8 list) option" where
  "encode_loop url [] bytes bits pos output = Some (bytes, bits, pos, output)"
| "encode_loop url (byte # bin) bytes bits pos output = do {
     let bytes = or (push_bit 8 bytes) (and (ucast byte) 0xFF);
     let bits = bits + 8;
     (bits, pos, output) \<leftarrow> encode_bits url bytes bits pos output;
     encode_loop url bin bytes bits pos output
   }"

definition base64_encode :: "u8 list \<Rightarrow> bool \<Rightarrow> u8 list option" where
  "base64_encode bin url = do {
     let output = replicate ((length bin + 2) div 3 * 4) (ch (CHR ''=''));
     (bytes, bits, pos, output) \<leftarrow> encode_loop url bin 0 0 0 output;
     (pos, output) \<leftarrow> (if bits > 0 then do {
         sk_assert (bits < 6);
         let bytes = push_bit (6 - bits) bytes;
         output \<leftarrow> put output pos (basis64 ! unat (and bytes 0x3F));
         Some (pos + 1, output)
       } else Some (pos, output));
     sk_assert (pos \<le> length output \<and> pos \<ge> (length output + 2 ^ 64 - 2) mod 2 ^ 64);
     Some output
   }"

fun decode_loop :: "u8 list \<Rightarrow> u32 \<Rightarrow> nat \<Rightarrow> u8 list \<Rightarrow> u8 list" where
  "decode_loop [] bytes bits output = output"
| "decode_loop (byte # str) bytes bits output =
     (let byte = (if byte = ch (CHR ''-'') then ch (CHR ''+'') else if byte = ch (CHR ''_'') then ch (CHR ''/'') else byte);
          six = pr2six ! unat byte
      in if \<not> six < 64 then output
         else let bytes = or (push_bit 6 bytes) (of_nat six); bits = bits + 6
              in if bits \<ge> 8 then decode_loop str bytes (bits - 8) (output @ [ucast (and (drop_bit (bits - 8) bytes) 0xFF)])
                 else decode_loop str bytes bits output)"

definition base64_decode :: "u8 list \<Rightarrow> u8 list" where
  "base64_decode str = decode_loop str 0 0 []"

section \<open>Round trip\<close>

definition sextet :: "u32 \<Rightarrow> u8" where
  "sextet x = basis64 ! unat (and x 0x3F)"

abbreviation pad :: u8 where "pad \<equiv> ch (CHR ''='')"

lemma and_63: "and x 0x3F = take_bit 6 x" for x :: u32
  by (simp add: take_bit_eq_mask mask_eq_exp_minus_1)

lemma and_255: "and x 0xFF = take_bit 8 x" for x :: u32
  by (simp add: take_bit_eq_mask mask_eq_exp_minus_1)

lemma sextet_less: "unat (and x 0x3F) < 64" for x :: u32
  unfolding and_63 unsigned_take_bit_eq using take_bit_nat_less_exp [of 6 "unat x"] by simp

lemma basis64_table:
  "map (\<lambda>b. pr2six ! unat b) basis64 = [0..<64]" "list_all (\<lambda>b. b \<noteq> ch (CHR ''-'') \<and> b \<noteq> ch (CHR ''_'')) basis64"
  by code_simp+

lemma basis64_inv:
  assumes "k < 64"
  shows "pr2six ! unat (basis64 ! k) = k \<and> basis64 ! k \<noteq> ch (CHR ''-'') \<and> basis64 ! k \<noteq> ch (CHR ''_'')"
proof -
  have l: "length basis64 = 64" by (simp add: basis64_def)
  have "map (\<lambda>b. pr2six ! unat b) basis64 ! k = k" using basis64_table(1) assms by simp
  then have "pr2six ! unat (basis64 ! k) = k" using assms l by simp
  then show ?thesis using basis64_table(2) assms l by (auto simp: list_all_length)
qed

lemma decode_sextet:
  "decode_loop (sextet x # str) Y n out =
     (let Y = or (push_bit 6 Y) (take_bit 6 x)
      in if n + 6 \<ge> 8 then decode_loop str Y (n - 2) (out @ [ucast (take_bit 8 (drop_bit (n - 2) Y))]) else decode_loop str Y (n + 6) out)"
proof -
  have "n + 6 - 8 = n - 2" by simp
  then show ?thesis
    using basis64_inv [OF sextet_less [of x]] sextet_less [of x] by (simp add: sextet_def Let_def and_63 and_255)
qed

lemma decode_pad: "decode_loop (pad # str) Y n out = out"
proof -
  have "pr2six ! unat pad = 64 \<and> pad \<noteq> ch (CHR ''-'') \<and> pad \<noteq> ch (CHR ''_'')" by code_simp
  then show ?thesis by simp
qed

declare decode_loop.simps(2) [simp del]

lemma decode_steps:
  "decode_loop (sextet x # str) Y 0 out = decode_loop str (or (push_bit 6 Y) (take_bit 6 x)) 6 out"
  "decode_loop (sextet x # str) Y 6 out =
     decode_loop str (or (push_bit 6 Y) (take_bit 6 x)) 4 (out @ [ucast (take_bit 8 (drop_bit 4 (or (push_bit 6 Y) (take_bit 6 x))))])"
  "decode_loop (sextet x # str) Y 4 out =
     decode_loop str (or (push_bit 6 Y) (take_bit 6 x)) 2 (out @ [ucast (take_bit 8 (drop_bit 2 (or (push_bit 6 Y) (take_bit 6 x))))])"
  "decode_loop (sextet x # str) Y 2 out =
     decode_loop str (or (push_bit 6 Y) (take_bit 6 x)) 0 (out @ [ucast (take_bit 8 (or (push_bit 6 Y) (take_bit 6 x)))])"
  by (simp_all add: decode_sextet Let_def)

lemma pad_neq: "pad \<noteq> ch (CHR ''+'')" "pad \<noteq> ch (CHR ''/'')"
  by code_simp+

lemma url_switch_pad: "url_switch url (pre @ replicate n pad) (length pre) = pre @ replicate n pad"
  using pad_neq by (cases n) (auto simp: url_switch_def)

lemma put_pad: "put (pre @ replicate (Suc n) pad) (length pre) c = Some ((pre @ [c]) @ replicate n pad)"
  by (simp add: put_def)

lemma encode_bits_step:
  assumes "6 \<le> bits"
  shows "encode_bits url B bits (length pre) (pre @ replicate (Suc n) pad) =
    encode_bits url B (bits - 6) (length (pre @ [sextet (drop_bit (bits - 6) B)])) ((pre @ [sextet (drop_bit (bits - 6) B)]) @ replicate n pad)"
  using assms url_switch_pad [of url "pre @ [sextet (drop_bit (bits - 6) B)]" n] put_pad [of pre n]
  by (subst encode_bits.simps) (simp add: sextet_def Let_def)

lemma encode_bits_done: "bits < 6 \<Longrightarrow> encode_bits url B bits pos out = Some (bits, pos, out)"
  by (subst encode_bits.simps) simp

text \<open>The accumulator after one more byte.\<close>

definition acc :: "u32 \<Rightarrow> u8 \<Rightarrow> u32" where
  "acc X a = or (push_bit 8 X) (and (ucast a) 0xFF)"

lemma encode_one:
  "encode_loop url (a # bin) X 0 (length pre) (pre @ replicate (Suc n) pad) =
     encode_loop url bin (acc X a) 2 (length (pre @ [sextet (drop_bit 2 (acc X a))])) ((pre @ [sextet (drop_bit 2 (acc X a))]) @ replicate n pad)"
  using encode_bits_step [of 8 url "acc X a" pre n] by (simp add: encode_bits_done acc_def [symmetric] Let_def)

lemma encode_two:
  "encode_loop url (a # bin) X 2 (length pre) (pre @ replicate (Suc n) pad) =
     encode_loop url bin (acc X a) 4 (length (pre @ [sextet (drop_bit 4 (acc X a))])) ((pre @ [sextet (drop_bit 4 (acc X a))]) @ replicate n pad)"
  using encode_bits_step [of 10 url "acc X a" pre n] by (simp add: encode_bits_done acc_def [symmetric] Let_def)

lemma encode_three:
  "encode_loop url (a # bin) X 4 (length pre) (pre @ replicate (Suc (Suc n)) pad) =
     encode_loop url bin (acc X a) 0 (length (pre @ [sextet (drop_bit 6 (acc X a)), sextet (acc X a)]))
       ((pre @ [sextet (drop_bit 6 (acc X a)), sextet (acc X a)]) @ replicate n pad)"
  using encode_bits_step [of 12 url "acc X a" pre "Suc n"] encode_bits_step [of 6 url "acc X a" "pre @ [sextet (drop_bit 6 (acc X a))]" n]
  by (simp add: encode_bits_done acc_def [symmetric] Let_def)

lemma bit_acc: "bit (acc X a) j \<longleftrightarrow> j < 32 \<and> (if j < 8 then bit a j else bit X (j - 8))"
  by (auto simp: acc_def and_255 bit_simps dest: bit_imp_le_length)

lemma byte_eqI: "(\<And>j. j < 8 \<Longrightarrow> bit x j = bit y j) \<Longrightarrow> x = y" for x y :: u8
  by (rule bit_word_eqI) simp

lemma less8: "j < 8 \<Longrightarrow> j = 0 \<or> j = 1 \<or> j = 2 \<or> j = 3 \<or> j = 4 \<or> j = 5 \<or> j = 6 \<or> j = (7 :: nat)"
  by linarith

lemma decoded_bytes:
  fixes X Y :: u32 and a b c :: u8
  defines "A \<equiv> acc X a" and "B \<equiv> acc (acc X a) b" and "C \<equiv> acc (acc (acc X a) b) c"
  defines "Y1 \<equiv> or (push_bit 6 Y) (take_bit 6 (drop_bit 2 A))"
  shows "ucast (take_bit 8 (drop_bit 4 (or (push_bit 6 Y1) (take_bit 6 (drop_bit 4 B))))) = a"
    and "ucast (take_bit 8 (drop_bit 4 (or (push_bit 6 Y1) (take_bit 6 (push_bit 4 A))))) = a"
    and "ucast (take_bit 8 (drop_bit 2 (or (push_bit 6 (or (push_bit 6 Y1) (take_bit 6 (drop_bit 4 B)))) (take_bit 6 (drop_bit 6 C))))) = b"
    and "ucast (take_bit 8 (drop_bit 2 (or (push_bit 6 (or (push_bit 6 Y1) (take_bit 6 (drop_bit 4 B)))) (take_bit 6 (push_bit 2 B))))) = b"
    and "ucast (take_bit 8 (or (push_bit 6 (or (push_bit 6 (or (push_bit 6 Y1) (take_bit 6 (drop_bit 4 B)))) (take_bit 6 (drop_bit 6 C)))) (take_bit 6 C))) = c"
  unfolding Y1_def A_def B_def C_def
  by (rule byte_eqI, drule less8, elim disjE, (simp add: bit_simps bit_acc)+)+

lemma decode_group:
  "decode_loop (sextet (drop_bit 2 (acc X a)) # sextet (drop_bit 4 (acc (acc X a) b)) # sextet (drop_bit 6 (acc (acc (acc X a) b) c)) #
     sextet (acc (acc (acc X a) b) c) # str) Y 0 out = decode_loop str Y4 0 (out @ [a, b, c])"
  if "Y4 = or (push_bit 6 (or (push_bit 6 (or (push_bit 6 (or (push_bit 6 Y) (take_bit 6 (drop_bit 2 (acc X a)))))
       (take_bit 6 (drop_bit 4 (acc (acc X a) b))))) (take_bit 6 (drop_bit 6 (acc (acc (acc X a) b) c))))) (take_bit 6 (acc (acc (acc X a) b) c))"
  unfolding that by (simp only: decode_steps decoded_bytes append_assoc append_Cons append_Nil)

lemma decode_tail1:
  "decode_loop (sextet (drop_bit 2 (acc X a)) # sextet (push_bit 4 (acc X a)) # pad # str) Y 0 out = out @ [a]"
  by (simp only: decode_steps decoded_bytes decode_pad)

lemma decode_tail2:
  "decode_loop (sextet (drop_bit 2 (acc X a)) # sextet (drop_bit 4 (acc (acc X a) b)) # sextet (push_bit 2 (acc (acc X a) b)) # pad # str) Y 0 out = out @ [a, b]"
  by (simp only: decode_steps decoded_bytes decode_pad append_assoc append_Cons append_Nil)

text \<open>The end of \<^verbatim>\<open>base64_encode\<close>, after the loop.\<close>

definition finish :: "u32 \<times> nat \<times> nat \<times> u8 list \<Rightarrow> (nat \<times> u8 list) option" where
  "finish = (\<lambda>(bytes, bits, pos, output). if bits > 0 then do {
         sk_assert (bits < 6);
         let bytes = push_bit (6 - bits) bytes;
         output \<leftarrow> put output pos (basis64 ! unat (and bytes 0x3F));
         Some (pos + 1, output)
       } else Some (pos, output))"

fun triples :: "u8 list \<Rightarrow> nat" where
  "triples (a # b # c # r) = Suc (triples r)"
| "triples _ = 0"

lemma triples_induct [case_names step none one two]:
  assumes "\<And>a b c r. P r \<Longrightarrow> P (a # b # c # r)" and "P []" and "\<And>a. P [a]" and "\<And>a b. P [a, b]"
  shows "P (bin :: u8 list)"
  by (induction bin rule: triples.induct) (use assms in auto)

lemma encode_ok:
  "\<exists>S pos. Option.bind (encode_loop url bin X 0 (length pre) (pre @ replicate ((length bin + 2) div 3 * 4) pad)) finish = Some (pos, pre @ S) \<and>
     length S = (length bin + 2) div 3 * 4 \<and> pos \<le> length (pre @ S) \<and> length (pre @ S) \<le> pos + 2 \<and>
     (\<forall>Y out. decode_loop S Y 0 out = out @ bin)"
proof (induction bin arbitrary: X pre rule: triples_induct)
  case (step a b c r)
  define A where "A = acc X a"
  define B where "B = acc A b"
  define C where "C = acc B c"
  let ?T = "[sextet (drop_bit 2 A), sextet (drop_bit 4 B), sextet (drop_bit 6 C), sextet C]"
  define n where "n = (length r + 2) div 3 * 4"
  have n: "(length (a # b # c # r) + 2) div 3 * 4 = Suc (Suc (Suc (Suc n)))"
    using div_add_self2 [of 3 "length r + 2"] by (simp add: n_def)
  have e: "encode_loop url (a # b # c # r) X 0 (length pre) (pre @ replicate (Suc (Suc (Suc (Suc n)))) pad) =
      encode_loop url r C 0 (length (pre @ ?T)) ((pre @ ?T) @ replicate n pad)"
    unfolding encode_one encode_two encode_three A_def [symmetric] B_def [symmetric] C_def [symmetric] by simp
  obtain S pos where S: "Option.bind (encode_loop url r C 0 (length (pre @ ?T)) ((pre @ ?T) @ replicate n pad)) finish = Some (pos, (pre @ ?T) @ S)"
      "length S = n" "pos \<le> length ((pre @ ?T) @ S)" "length ((pre @ ?T) @ S) \<le> pos + 2" "\<And>Y out. decode_loop S Y 0 out = out @ r"
    using step [of C "pre @ ?T"] by (auto simp: n_def)
  have "decode_loop (?T @ S) Y 0 out = out @ a # b # c # r" for Y out
    using decode_group [OF refl, of X a b c S] S(5) by (simp add: A_def B_def C_def)
  then show ?case using e n S(1-4) by (intro exI [of _ "?T @ S"] exI [of _ pos]) simp
next
  case none
  then show ?case by (simp add: finish_def)
next
  case (one a)
  let ?S = "[sextet (drop_bit 2 (acc X a)), sextet (push_bit 4 (acc X a)), pad, pad]"
  have e: "encode_loop url [a] X 0 (length pre) (pre @ replicate 4 pad) =
      Some (acc X a, 2, length (pre @ [sextet (drop_bit 2 (acc X a))]), (pre @ [sextet (drop_bit 2 (acc X a))]) @ replicate 3 pad)"
    using encode_one [of url a "[]" X pre 3] by (simp add: numeral_eq_Suc)
  have p: "put ((pre @ [sextet (drop_bit 2 (acc X a))]) @ replicate 3 pad) (length (pre @ [sextet (drop_bit 2 (acc X a))])) (sextet (push_bit 4 (acc X a)))
      = Some (pre @ ?S)" using put_pad [of "pre @ [sextet (drop_bit 2 (acc X a))]" 2] by (simp add: numeral_eq_Suc)
  show ?case using e p decode_tail1 [of X a "[pad]"]
    by (intro exI [of _ ?S] exI [of _ "length pre + 2"]) (simp add: finish_def sextet_def [symmetric])
next
  case (two a b)
  let ?B = "acc (acc X a) b"
  let ?P = "pre @ [sextet (drop_bit 2 (acc X a)), sextet (drop_bit 4 ?B)]"
  let ?S = "[sextet (drop_bit 2 (acc X a)), sextet (drop_bit 4 ?B), sextet (push_bit 2 ?B), pad]"
  have e: "encode_loop url [a, b] X 0 (length pre) (pre @ replicate 4 pad) = Some (?B, 4, length ?P, ?P @ replicate 2 pad)"
    using encode_one [of url a "[b]" X pre 3] encode_two [of url b "[]" "acc X a" "pre @ [sextet (drop_bit 2 (acc X a))]" 2] by (simp add: numeral_eq_Suc)
  have p: "put (?P @ replicate 2 pad) (length ?P) (sextet (push_bit 2 ?B)) = Some (pre @ ?S)"
    using put_pad [of ?P 1] by (simp add: numeral_eq_Suc)
  show ?case using e p decode_tail2 [of X a b "[]"]
    by (intro exI [of _ ?S] exI [of _ "length pre + 3"]) (simp add: finish_def sextet_def [symmetric])
qed

lemma base64_encode_alt:
  "base64_encode bin url = do {
     (pos, output) \<leftarrow> Option.bind (encode_loop url bin 0 0 0 (replicate ((length bin + 2) div 3 * 4) pad)) finish;
     sk_assert (pos \<le> length output \<and> pos \<ge> (length output + 2 ^ 64 - 2) mod 2 ^ 64);
     Some output
   }"
  unfolding base64_encode_def finish_def Let_def
  by (cases "encode_loop url bin 0 0 0 (replicate ((length bin + 2) div 3 * 4) pad)") (simp_all add: split_beta)

text \<open>
  C39: Round trip. Encoding a non-empty string succeeds with a result of the right length, and decoding gives the string back; the flag for the URL alphabet
  makes no difference.
\<close>

theorem base64_roundtrip:
  assumes "bin \<noteq> []" and "length bin < 2 ^ 61"
  shows "\<exists>s. base64_encode bin url = Some s \<and> length s = (length bin + 2) div 3 * 4 \<and> base64_decode s = bin"
proof -
  let ?n = "(length bin + 2) div 3 * 4"
  obtain S pos where S: "Option.bind (encode_loop url bin 0 0 0 (replicate ?n pad)) finish = Some (pos, S)"
      "length S = ?n" "pos \<le> length S" "length S \<le> pos + 2" "\<forall>Y out. decode_loop S Y 0 out = out @ bin"
    using encode_ok [of url bin 0 "[]"] by auto
  have "2 \<le> ?n" using assms(1) by (cases bin) auto
  moreover have "?n < 2 ^ 64" using assms(2) by simp
  ultimately have "(length S + 2 ^ 64 - 2) mod 2 ^ 64 = length S - 2"
    using S(2) mod_add_self1 [of "2 ^ 64 :: nat" "length S - 2"] by (simp add: mod_if)
  then have "base64_encode bin url = Some S"
    using S(1,3,4) by (simp add: base64_encode_alt)
  then show ?thesis using S(2,5) by (simp add: base64_decode_def)
qed

theorem base64_roundtrip_witness: "\<exists>s. base64_encode [1, 2] True = Some s \<and> length s = 4 \<and> base64_decode s = [1, 2]"
  using base64_roundtrip [of "[1, 2]" True] by simp

text \<open>
  The empty string. \<^verbatim>\<open>base64_encode\<close> of an empty string fails its own assertion: the lower bound of the final check, \<^verbatim>\<open>output.length() - 2\<close>, wraps around.
\<close>

theorem base64_encode_empty_aborts: "base64_encode [] url = None"
  by (simp add: base64_encode_def)

end
