(* ===== verification/Node_Allocator.thy ===== *)
theory Node_Allocator
  imports Prelude
begin

text \<open>
  The allocators behind the containers: \<^verbatim>\<open>src/src/container/detail/fixed_allocator.h\<close>, a pool of \<open>N\<close> nodes of \<open>S\<close> bytes inside the
  container itself. The record \<open>allocator\<close> stands for the template parameter \<^verbatim>\<open>Allocator\<close> of the list and of the tree,
  the locale \<open>node_allocator\<close> for what they rely on. Pointers are options, null is \<open>None\<close>.
\<close>

section \<open>The interface\<close>

record ('s, 'p) allocator =
  al_allocate :: "'s \<Rightarrow> ('p option \<times> 's) option"
  al_deallocate :: "'s \<Rightarrow> 'p \<Rightarrow> 's option"
  al_full :: "'s \<Rightarrow> bool"
  al_empty :: "'s \<Rightarrow> bool"
  al_size :: "'s \<Rightarrow> nat"

text \<open>
  \<open>ok n s L\<close>: in state \<open>s\<close> the nodes \<open>L\<close> are allocated and the allocator can serve at least \<open>n\<close> more calls.
  \<open>sn\<close> is the sentinel of the container, which is no node of the allocator.
\<close>

locale node_allocator =
  fixes A :: "('s, 'p) allocator" and ok :: "nat \<Rightarrow> 's \<Rightarrow> 'p set \<Rightarrow> bool" and sn :: 'p
  assumes ok_live: "ok n s L \<Longrightarrow> finite L \<and> sn \<notin> L \<and> al_size A s = card L \<and> (al_empty A s \<longleftrightarrow> L = {})"
    and ok_mono: "ok (Suc n) s L \<Longrightarrow> ok n s L"
    and allocate_law: "ok (Suc n) s L \<Longrightarrow>
      \<exists>r s'. al_allocate A s = Some (r, s') \<and> (case r of None \<Rightarrow> ok n s' L | Some p \<Rightarrow> p \<notin> L \<and> ok n s' (insert p L))"
    and deallocate_law: "ok (Suc n) s L \<Longrightarrow> p \<in> L \<Longrightarrow> \<exists>s'. al_deallocate A s p = Some s' \<and> ok n s' (L - {p})"
begin

lemma ok_le: "ok n s L \<Longrightarrow> k \<le> n \<Longrightarrow> ok k s L"
proof (induction n)
  case (Suc n)
  show ?case
  proof (cases "k = Suc n")
    case False
    then show ?thesis using Suc ok_mono by simp
  qed (use Suc in simp)
qed simp

end

text \<open>A pool of \<open>cap\<close> nodes: allocation fails exactly when all of them are in use.\<close>

locale pool_allocator = node_allocator +
  fixes cap :: nat
  assumes pool_law: "ok (Suc n) s L \<Longrightarrow> al_allocate A s = Some (r, s') \<Longrightarrow> r = None \<longleftrightarrow> card L = cap"
    and full_law: "ok n s L \<Longrightarrow> al_full A s \<longleftrightarrow> card L = cap"
begin

lemma pool_bound: "ok n s L \<Longrightarrow> al_full A s \<longleftrightarrow> al_size A s = cap"
  using full_law ok_live by metis

end

section \<open>The fixed allocator\<close>

text \<open>\<open>links\<close> are the pointers that the free nodes hold in \<^verbatim>\<open>memory_\<close>; an allocated node holds an object of the client there.\<close>

record fixed_allocator =
  memory :: nat
  links :: "nat \<Rightarrow> nat option option"
  fa_head :: "nat option"
  fa_next :: nat
  fa_end :: nat
  fa_size :: nat
  peak_size :: nat

definition fixed_allocator_new :: "nat \<Rightarrow> nat \<Rightarrow> nat \<Rightarrow> fixed_allocator option" where
  "fixed_allocator_new S N addr = do {
     let a = \<lparr>memory = addr, links = (\<lambda>_. None), fa_head = None, fa_next = addr, fa_end = addr + S * N, fa_size = 0, peak_size = 0\<rparr>;
     sk_assert (fa_next a \<noteq> 0);
     sk_assert (fa_next a = memory a);
     sk_assert (fa_end a = memory a + S * N);
     Some a
   }"

definition count_up :: "fixed_allocator \<Rightarrow> fixed_allocator" where
  "count_up a = (let a = a\<lparr>fa_size := fa_size a + 1\<rparr> in if fa_size a > peak_size a then a\<lparr>peak_size := fa_size a\<rparr> else a)"

definition fa_allocate :: "nat \<Rightarrow> fixed_allocator \<Rightarrow> nat \<Rightarrow> (nat option \<times> fixed_allocator) option" where
  "fa_allocate S a sz = do {
     sk_assert (sz \<le> S);
     case fa_head a of
       Some p \<Rightarrow> do {
         nxt \<leftarrow> links a p;
         Some (Some p, count_up (a\<lparr>fa_head := nxt, links := (links a)(p := None)\<rparr>))
       }
     | None \<Rightarrow>
         if fa_next a \<noteq> fa_end a then Some (Some (fa_next a), count_up (a\<lparr>fa_next := fa_next a + S\<rparr>))
         else Some (None, a)
   }"

definition fa_deallocate :: "nat \<Rightarrow> nat \<Rightarrow> fixed_allocator \<Rightarrow> nat \<Rightarrow> fixed_allocator option" where
  "fa_deallocate S N a p = do {
     sk_assert (p \<ge> memory a \<and> p < memory a + S * N);
     sk_assert ((p - memory a) mod S = 0);
     sk_assert (fa_size a > 0);
     let a = a\<lparr>fa_size := fa_size a - 1\<rparr>;
     let a = a\<lparr>links := (links a)(p := Some (fa_head a))\<rparr>;
     Some (a\<lparr>fa_head := Some p\<rparr>)
   }"

definition fa_full :: "nat \<Rightarrow> fixed_allocator \<Rightarrow> bool" where "fa_full N a \<longleftrightarrow> fa_size a \<ge> N"

definition fa_empty :: "fixed_allocator \<Rightarrow> bool" where "fa_empty a \<longleftrightarrow> fa_size a \<le> 0"

text \<open>The allocator as the template parameter of a container whose nodes have \<open>sz\<close> bytes.\<close>

definition fixed_allocator_ops :: "nat \<Rightarrow> nat \<Rightarrow> nat \<Rightarrow> (fixed_allocator, nat) allocator" where
  "fixed_allocator_ops S N sz = \<lparr>al_allocate = (\<lambda>a. fa_allocate S a sz), al_deallocate = fa_deallocate S N, al_full = fa_full N,
     al_empty = fa_empty, al_size = fa_size\<rparr>"

section \<open>Invariant\<close>

fun free_chain :: "(nat \<Rightarrow> nat option option) \<Rightarrow> nat option \<Rightarrow> nat list \<Rightarrow> bool" where
  "free_chain m p [] = (p = None)"
| "free_chain m p (x # xs) = (p = Some x \<and> (\<exists>q. m x = Some q \<and> free_chain m q xs))"

definition slot :: "nat \<Rightarrow> nat \<Rightarrow> nat \<Rightarrow> nat" where "slot S b i = b + i * S"

text \<open>The first \<open>k\<close> slots are the allocated nodes \<open>L\<close> and the free list \<open>xs\<close>.\<close>

definition fa_view :: "nat \<Rightarrow> nat \<Rightarrow> fixed_allocator \<Rightarrow> nat set \<Rightarrow> nat list \<Rightarrow> nat \<Rightarrow> bool" where
  "fa_view S N a L xs k \<longleftrightarrow> k \<le> N \<and> 0 < memory a \<and> fa_next a = slot S (memory a) k \<and> fa_end a = slot S (memory a) N \<and>
     free_chain (links a) (fa_head a) xs \<and> distinct xs \<and> set xs \<inter> L = {} \<and> set xs \<union> L = slot S (memory a) ` {..<k} \<and>
     fa_size a = card L \<and> fa_size a \<le> peak_size a \<and> peak_size a \<le> N"

definition fa_ok :: "nat \<Rightarrow> nat \<Rightarrow> nat \<Rightarrow> fixed_allocator \<Rightarrow> nat set \<Rightarrow> bool" where
  "fa_ok S N b a L \<longleftrightarrow> memory a = b \<and> (\<exists>xs k. fa_view S N a L xs k)"

lemma free_chain_upd: "x \<notin> set xs \<Longrightarrow> free_chain (m(x := v)) p xs = free_chain m p xs"
  by (induction xs arbitrary: p) auto

lemma slot_inj: "0 < S \<Longrightarrow> slot S b i = slot S b j \<longleftrightarrow> i = j"
  by (simp add: slot_def)

lemma card_slots: "0 < S \<Longrightarrow> card (slot S b ` {..<k}) = k"
  by (subst card_image) (auto simp: inj_on_def slot_inj)

lemma slots_Suc: "slot S b ` {..<Suc k} = insert (slot S b k) (slot S b ` {..<k})"
  by (simp add: lessThan_Suc)

lemma pool_slot_bounds: "0 < S \<Longrightarrow> i < N \<Longrightarrow> slot S b i < b + S * N"
  by (simp add: slot_def mult.commute)

lemma fa_view_card:
  assumes "0 < S" "fa_view S N a L xs k"
  shows "finite L" and "length xs + card L = k" and "card L \<le> N"
proof -
  have u: "set xs \<union> L = slot S (memory a) ` {..<k}" and d: "set xs \<inter> L = {}" "distinct xs" and k: "k \<le> N"
    using assms(2) by (auto simp: fa_view_def)
  have "finite (set xs \<union> L)" unfolding u by simp
  then show f: "finite L" by simp
  have "card (set xs \<union> L) = k" unfolding u by (rule card_slots [OF assms(1)])
  then show "length xs + card L = k" using card_Un_disjoint [of "set xs" L] d f by (simp add: distinct_card)
  then show "card L \<le> N" using k by simp
qed

lemma fa_view_slots: "fa_view S N a L xs k \<Longrightarrow> set xs \<union> L \<subseteq> slot S (memory a) ` {..<N}"
  by (auto simp: fa_view_def)

lemma fixed_allocator_new_ok:
  assumes "b \<noteq> 0"
  shows "\<exists>a. fixed_allocator_new S N b = Some a \<and> fa_ok S N b a {}"
  using assms by (auto simp: fixed_allocator_new_def fa_ok_def fa_view_def slot_def mult.commute intro!: exI [of _ "[]"] exI [of _ 0])

lemma count_up_simps [simp]:
  "memory (count_up a) = memory a" "links (count_up a) = links a" "fa_head (count_up a) = fa_head a"
  "fa_next (count_up a) = fa_next a" "fa_end (count_up a) = fa_end a" "fa_size (count_up a) = Suc (fa_size a)"
  "peak_size (count_up a) = max (peak_size a) (Suc (fa_size a))"
  by (simp_all add: count_up_def Let_def)

lemma fa_allocate_ok:
  assumes S: "0 < S" "sz \<le> S" and ok: "fa_ok S N b a L"
  shows "\<exists>r a'. fa_allocate S a sz = Some (r, a') \<and>
    (case r of None \<Rightarrow> a' = a \<and> card L = N | Some p \<Rightarrow> p \<notin> L \<and> fa_ok S N b a' (insert p L) \<and> card L < N \<and> p \<in> slot S b ` {..<N})"
proof -
  obtain xs k where v: "fa_view S N a L xs k" and b: "memory a = b" using ok by (auto simp: fa_ok_def)
  note c = fa_view_card [OF S(1) v]
  show ?thesis
  proof (cases xs)
    case Nil
    then have h: "fa_head a = None" using v by (simp add: fa_view_def)
    show ?thesis
    proof (cases "k = N")
      case True
      then show ?thesis using h S v Nil c by (simp add: fa_allocate_def fa_view_def)
    next
      case False
      let ?a = "count_up (a\<lparr>fa_next := fa_next a + S\<rparr>)" and ?p = "slot S b k"
      have k: "k < N" using False v by (simp add: fa_view_def)
      have L: "L = slot S b ` {..<k}" using v Nil b by (simp add: fa_view_def)
      then have p: "?p \<notin> L" using S by (auto simp: slot_inj)
      have "fa_view S N ?a (insert ?p L) [] (Suc k)"
        using v Nil k b L p c h unfolding fa_view_def slots_Suc by (simp add: slot_def)
      moreover have "fa_allocate S a sz = Some (Some ?p, ?a)"
        using h S v False b by (simp add: fa_allocate_def fa_view_def slot_inj)
      ultimately show ?thesis using p b k c Nil by (auto simp: fa_ok_def)
    qed
  next
    case (Cons x ys)
    then obtain q where q: "fa_head a = Some x" "links a x = Some q" "free_chain (links a) q ys" "x \<notin> set ys" "distinct ys" "x \<notin> L"
      using v by (auto simp: fa_view_def)
    let ?a = "count_up (a\<lparr>fa_head := q, links := (links a)(x := None)\<rparr>)"
    have "free_chain ((links a)(x := None)) q ys" using q by (simp add: free_chain_upd)
    moreover have "set ys \<inter> insert x L = {}" "set ys \<union> insert x L = slot S (memory a) ` {..<k}"
      using v Cons q by (auto simp: fa_view_def)
    moreover have "card (insert x L) = Suc (card L)" using c q by simp
    moreover have "Suc (card L) \<le> N" using c(2) v Cons by (simp add: fa_view_def)
    ultimately have "fa_view S N ?a (insert x L) ys k" using v q unfolding fa_view_def by simp
    moreover have "fa_allocate S a sz = Some (Some x, ?a)" using q S by (simp add: fa_allocate_def)
    moreover have "x \<in> slot S b ` {..<N}" using fa_view_slots [OF v] Cons b by auto
    ultimately show ?thesis using q b \<open>Suc (card L) \<le> N\<close> by (auto simp: fa_ok_def)
  qed
qed

lemma fa_deallocate_ok:
  assumes S: "0 < S" and ok: "fa_ok S N b a L" and p: "p \<in> L"
  shows "\<exists>a'. fa_deallocate S N a p = Some a' \<and> fa_ok S N b a' (L - {p})"
proof -
  obtain xs k where v: "fa_view S N a L xs k" and b: "memory a = b" using ok by (auto simp: fa_ok_def)
  note c = fa_view_card [OF S v]
  let ?a = "a\<lparr>fa_size := fa_size a - 1, links := (links a)(p := Some (fa_head a)), fa_head := Some p\<rparr>"
  obtain i where i: "p = slot S b i" "i < k" using v p b by (auto simp: fa_view_def)
  have iN: "i < N" using i v by (simp add: fa_view_def)
  have sz: "0 < fa_size a" using v p c(1) card_gt_0_iff by (auto simp: fa_view_def)
  have np: "p \<notin> set xs" using v p by (auto simp: fa_view_def)
  have "free_chain ((links a)(p := Some (fa_head a))) (fa_head a) xs"
    using v np by (simp add: fa_view_def free_chain_upd)
  moreover have "set (p # xs) \<inter> (L - {p}) = {}" "set (p # xs) \<union> (L - {p}) = slot S (memory a) ` {..<k}"
    using v p by (auto simp: fa_view_def)
  moreover have "card (L - {p}) = card L - 1" "card L - 1 \<le> peak_size a" using c(1) p v by (auto simp: fa_view_def)
  ultimately have "fa_view S N ?a (L - {p}) (p # xs) k" using v np unfolding fa_view_def by simp
  moreover have "fa_deallocate S N a p = Some ?a"
    using pool_slot_bounds [OF S iN, of b] i(1) b sz by (simp add: fa_deallocate_def slot_def)
  ultimately show ?thesis using b by (auto simp: fa_ok_def)
qed

text \<open>The fixed allocator keeps the contract, for any number of calls and any sentinel outside its memory.\<close>

definition fa_contract :: "nat \<Rightarrow> nat \<Rightarrow> nat \<Rightarrow> nat \<Rightarrow> fixed_allocator \<Rightarrow> nat set \<Rightarrow> bool" where
  "fa_contract S N sn n a L \<longleftrightarrow> 0 < S \<and> sn \<notin> slot S (memory a) ` {..<N} \<and> fa_ok S N (memory a) a L"

lemma fa_ok_subset: "fa_ok S N b a L \<Longrightarrow> L \<subseteq> slot S b ` {..<N}"
  by (auto simp: fa_ok_def fa_view_def)

lemma fa_ok_memory: "fa_ok S N b a L \<Longrightarrow> memory a = b"
  by (simp add: fa_ok_def)

interpretation fa: node_allocator "fixed_allocator_ops S N S" "fa_contract S N sn" sn for S N sn :: nat
proof unfold_locales
  show "finite L \<and> sn \<notin> L \<and> al_size (fixed_allocator_ops S N S) a = card L \<and> (al_empty (fixed_allocator_ops S N S) a \<longleftrightarrow> L = {})"
    if o: "fa_contract S N sn n a L" for n a L
  proof -
    obtain xs k where v: "fa_view S N a L xs k" and S: "0 < S" and s: "sn \<notin> slot S (memory a) ` {..<N}" "fa_ok S N (memory a) a L"
      using o by (auto simp: fa_contract_def fa_ok_def)
    then show ?thesis using fa_view_card(1) [OF S v] v fa_ok_subset [OF s(2)] by (auto simp: fixed_allocator_ops_def fa_view_def fa_empty_def)
  qed
next
  show "\<exists>r a'. al_allocate (fixed_allocator_ops S N S) a = Some (r, a') \<and>
      (case r of None \<Rightarrow> fa_contract S N sn n a' L | Some p \<Rightarrow> p \<notin> L \<and> fa_contract S N sn n a' (insert p L))"
    if o: "fa_contract S N sn (Suc n) a L" for n a L
  proof -
    obtain r a' where "fa_allocate S a S = Some (r, a')"
        "case r of None \<Rightarrow> a' = a \<and> card L = N | Some p \<Rightarrow> p \<notin> L \<and> fa_ok S N (memory a) a' (insert p L) \<and> card L < N \<and> p \<in> slot S (memory a) ` {..<N}"
      using o fa_allocate_ok [of S S N "memory a" a L] by (auto simp: fa_contract_def)
    then show ?thesis using o fa_ok_memory [of S N "memory a" a']
      by (cases r) (auto simp: fixed_allocator_ops_def fa_contract_def)
  qed
next
  show "\<exists>a'. al_deallocate (fixed_allocator_ops S N S) a p = Some a' \<and> fa_contract S N sn n a' (L - {p})"
    if o: "fa_contract S N sn (Suc n) a L" and p: "p \<in> L" for n a L p
  proof -
    obtain a' where a': "fa_deallocate S N a p = Some a'" "fa_ok S N (memory a) a' (L - {p})"
      using o p fa_deallocate_ok [of S N "memory a" a L p] by (auto simp: fa_contract_def)
    then have "fa_contract S N sn n a' (L - {p})" using o fa_ok_memory [OF a'(2)] by (simp add: fa_contract_def)
    then show ?thesis using a'(1) by (simp add: fixed_allocator_ops_def)
  qed
qed (simp add: fa_contract_def)

interpretation pool: pool_allocator "fixed_allocator_ops S N S" "fa_contract S N sn" sn N for S N sn :: nat
proof unfold_locales
  show "r = None \<longleftrightarrow> card L = N"
    if "fa_contract S N sn (Suc n) a L" "al_allocate (fixed_allocator_ops S N S) a = Some (r, a')" for n a L r a'
    using that fa_allocate_ok [of S S N "memory a" a L] by (cases r) (auto simp: fa_contract_def fixed_allocator_ops_def)
  show "al_full (fixed_allocator_ops S N S) a \<longleftrightarrow> card L = N" if o: "fa_contract S N sn n a L" for n a L
  proof -
    obtain xs k where v: "fa_view S N a L xs k" and S: "0 < S" using o by (auto simp: fa_contract_def fa_ok_def)
    then have "fa_size a = card L" by (simp add: fa_view_def)
    then show ?thesis using fa_view_card(3) [OF S v] by (auto simp: fixed_allocator_ops_def fa_full_def)
  qed
qed

end
