(* ===== verification/List_Container.thy ===== *)
theory List_Container
  imports Dll Node_Allocator
begin

text \<open>
  \<^verbatim>\<open>src/src/container/detail/list.h\<close>: the doubly linked list behind \<^verbatim>\<open>fixed_list\<close> and \<^verbatim>\<open>shm_list\<close>, over an allocator. The nodes are a
  ring through the sentinel \<^verbatim>\<open>dummy_\<close>. A node is two subobjects, the links and the value; a freed node has neither.
\<close>

section \<open>State\<close>

record 'p list_node_base =
  prev :: 'p
  next_node :: 'p

record ('s, 'p, 'v) sk_list =
  allocator_st :: 's
  lnodes :: "'p \<Rightarrow> 'p list_node_base option"
  lvals :: "'p \<Rightarrow> 'v option"
  sentinel :: 'p

definition list_new :: "'s \<Rightarrow> 'p \<Rightarrow> ('s, 'p, 'v) sk_list" where
  "list_new s sn = \<lparr>allocator_st = s, lnodes = (\<lambda>_. None)(sn := Some \<lparr>prev = sn, next_node = sn\<rparr>), lvals = (\<lambda>_. None), sentinel = sn\<rparr>"

section \<open>Nodes\<close>

definition set_next :: "('s, 'p, 'v) sk_list \<Rightarrow> 'p \<Rightarrow> 'p \<Rightarrow> ('s, 'p, 'v) sk_list option" where
  "set_next m p q = do { x \<leftarrow> lnodes m p; Some (m\<lparr>lnodes := (lnodes m)(p := Some (x\<lparr>next_node := q\<rparr>))\<rparr>) }"

definition set_prev :: "('s, 'p, 'v) sk_list \<Rightarrow> 'p \<Rightarrow> 'p \<Rightarrow> ('s, 'p, 'v) sk_list option" where
  "set_prev m p q = do { x \<leftarrow> lnodes m p; Some (m\<lparr>lnodes := (lnodes m)(p := Some (x\<lparr>prev := q\<rparr>))\<rparr>) }"

definition get_next :: "('s, 'p, 'v) sk_list \<Rightarrow> 'p \<Rightarrow> 'p option" where
  "get_next m p = do { x \<leftarrow> lnodes m p; Some (next_node x) }"

definition get_prev :: "('s, 'p, 'v) sk_list \<Rightarrow> 'p \<Rightarrow> 'p option" where
  "get_prev m p = do { x \<leftarrow> lnodes m p; Some (prev x) }"

definition link :: "('s, 'p, 'v) sk_list \<Rightarrow> 'p \<Rightarrow> 'p \<Rightarrow> ('s, 'p, 'v) sk_list option" where
  "link m node nxt = do {
     m \<leftarrow> set_next m node nxt;
     q \<leftarrow> get_prev m nxt;
     m \<leftarrow> set_prev m node q;
     q \<leftarrow> get_prev m nxt;
     m \<leftarrow> set_next m q node;
     set_prev m nxt node
   }"

definition unlink :: "('s, 'p, 'v) sk_list \<Rightarrow> 'p \<Rightarrow> ('s, 'p, 'v) sk_list option" where
  "unlink m node = do {
     n \<leftarrow> get_next m node;
     p \<leftarrow> get_prev m node;
     m \<leftarrow> set_prev m n p;
     p \<leftarrow> get_prev m node;
     n \<leftarrow> get_next m node;
     set_next m p n
   }"

definition list_construct :: "('s, 'p) allocator \<Rightarrow> ('s, 'p, 'v) sk_list \<Rightarrow> 'v \<Rightarrow> ('p option \<times> ('s, 'p, 'v) sk_list) option" where
  "list_construct A m t = do {
     (node, s) \<leftarrow> al_allocate A (allocator_st m);
     let m = m\<lparr>allocator_st := s\<rparr>;
     case node of
       None \<Rightarrow> Some (None, m)
     | Some p \<Rightarrow> Some (Some p, m\<lparr>lnodes := (lnodes m)(p := Some \<lparr>prev = p, next_node = p\<rparr>), lvals := (lvals m)(p := Some t)\<rparr>)
   }"

definition list_destruct :: "('s, 'p) allocator \<Rightarrow> ('s, 'p, 'v) sk_list \<Rightarrow> 'p \<Rightarrow> ('s, 'p, 'v) sk_list option" where
  "list_destruct A m node = do {
     sk_assert (node \<noteq> sentinel m);
     _ \<leftarrow> lnodes m node;
     _ \<leftarrow> lvals m node;
     let m = m\<lparr>lnodes := (lnodes m)(node := None), lvals := (lvals m)(node := None)\<rparr>;
     s \<leftarrow> al_deallocate A (allocator_st m) node;
     Some (m\<lparr>allocator_st := s\<rparr>)
   }"

definition list_value :: "('s, 'p, 'v) sk_list \<Rightarrow> 'p \<Rightarrow> 'v option" where
  "list_value m node = do { sk_assert (node \<noteq> sentinel m); lvals m node }"

section \<open>Operations\<close>

text \<open>A null pointer as a result of \<^verbatim>\<open>front\<close> and \<^verbatim>\<open>back\<close> is the inner \<open>None\<close>.\<close>

definition list_front :: "('s, 'p) allocator \<Rightarrow> ('s, 'p, 'v) sk_list \<Rightarrow> 'v option option" where
  "list_front A m = (if al_empty A (allocator_st m) then Some None
     else do { p \<leftarrow> get_next m (sentinel m); v \<leftarrow> list_value m p; Some (Some v) })"

definition list_back :: "('s, 'p) allocator \<Rightarrow> ('s, 'p, 'v) sk_list \<Rightarrow> 'v option option" where
  "list_back A m = (if al_empty A (allocator_st m) then Some None
     else do { p \<leftarrow> get_prev m (sentinel m); v \<leftarrow> list_value m p; Some (Some v) })"

definition list_insert :: "('s, 'p) allocator \<Rightarrow> ('s, 'p, 'v) sk_list \<Rightarrow> 'p \<Rightarrow> 'v \<Rightarrow> (int \<times> ('s, 'p, 'v) sk_list) option" where
  "list_insert A m pos t = do {
     (node, m) \<leftarrow> list_construct A m t;
     case node of
       None \<Rightarrow> Some (- ENOMEM, m)
     | Some p \<Rightarrow> do { m \<leftarrow> link m p pos; Some (0, m) }
   }"

definition push_back :: "('s, 'p) allocator \<Rightarrow> ('s, 'p, 'v) sk_list \<Rightarrow> 'v \<Rightarrow> (int \<times> ('s, 'p, 'v) sk_list) option" where
  "push_back A m t = do {
     (node, m) \<leftarrow> list_construct A m t;
     case node of
       None \<Rightarrow> Some (- ENOMEM, m)
     | Some p \<Rightarrow> do { m \<leftarrow> link m p (sentinel m); Some (0, m) }
   }"

definition push_front :: "('s, 'p) allocator \<Rightarrow> ('s, 'p, 'v) sk_list \<Rightarrow> 'v \<Rightarrow> (int \<times> ('s, 'p, 'v) sk_list) option" where
  "push_front A m t = do {
     (node, m) \<leftarrow> list_construct A m t;
     case node of
       None \<Rightarrow> Some (- ENOMEM, m)
     | Some p \<Rightarrow> do { f \<leftarrow> get_next m (sentinel m); m \<leftarrow> link m p f; Some (0, m) }
   }"

definition pop_back :: "('s, 'p) allocator \<Rightarrow> ('s, 'p, 'v) sk_list \<Rightarrow> ('s, 'p, 'v) sk_list option" where
  "pop_back A m = do {
     sk_assert (\<not> al_empty A (allocator_st m));
     node \<leftarrow> get_prev m (sentinel m);
     m \<leftarrow> unlink m node;
     list_destruct A m node
   }"

definition pop_front :: "('s, 'p) allocator \<Rightarrow> ('s, 'p, 'v) sk_list \<Rightarrow> ('s, 'p, 'v) sk_list option" where
  "pop_front A m = do {
     sk_assert (\<not> al_empty A (allocator_st m));
     node \<leftarrow> get_next m (sentinel m);
     m \<leftarrow> unlink m node;
     list_destruct A m node
   }"

text \<open>The \<^verbatim>\<open>emplace\<close> functions return the address of the new value, or null.\<close>

definition list_emplace :: "('s, 'p) allocator \<Rightarrow> ('s, 'p, 'v) sk_list \<Rightarrow> 'p \<Rightarrow> 'v \<Rightarrow> ('p option \<times> ('s, 'p, 'v) sk_list) option" where
  "list_emplace A m pos t = do {
     (node, m) \<leftarrow> list_construct A m t;
     case node of
       None \<Rightarrow> Some (None, m)
     | Some p \<Rightarrow> do { m \<leftarrow> link m p pos; _ \<leftarrow> list_value m p; Some (Some p, m) }
   }"

definition emplace_back :: "('s, 'p) allocator \<Rightarrow> ('s, 'p, 'v) sk_list \<Rightarrow> 'v \<Rightarrow> ('p option \<times> ('s, 'p, 'v) sk_list) option" where
  "emplace_back A m t = do {
     (node, m) \<leftarrow> list_construct A m t;
     case node of
       None \<Rightarrow> Some (None, m)
     | Some p \<Rightarrow> do { m \<leftarrow> link m p (sentinel m); _ \<leftarrow> list_value m p; Some (Some p, m) }
   }"

definition emplace_front :: "('s, 'p) allocator \<Rightarrow> ('s, 'p, 'v) sk_list \<Rightarrow> 'v \<Rightarrow> ('p option \<times> ('s, 'p, 'v) sk_list) option" where
  "emplace_front A m t = do {
     (node, m) \<leftarrow> list_construct A m t;
     case node of
       None \<Rightarrow> Some (None, m)
     | Some p \<Rightarrow> do { f \<leftarrow> get_next m (sentinel m); m \<leftarrow> link m p f; _ \<leftarrow> list_value m p; Some (Some p, m) }
   }"

definition list_erase :: "('s, 'p) allocator \<Rightarrow> ('s, 'p, 'v) sk_list \<Rightarrow> 'p \<Rightarrow> ('p \<times> ('s, 'p, 'v) sk_list) option" where
  "list_erase A m pos = do {
     sk_assert (pos \<noteq> sentinel m);
     nxt \<leftarrow> get_next m pos;
     m \<leftarrow> unlink m pos;
     m \<leftarrow> list_destruct A m pos;
     Some (nxt, m)
   }"

partial_function (option) clear_loop :: "('s, 'p) allocator \<Rightarrow> ('s, 'p, 'v) sk_list \<Rightarrow> 'p \<Rightarrow> ('s, 'p, 'v) sk_list option" where
  "clear_loop A m node = (if node \<noteq> sentinel m then do {
       nxt \<leftarrow> get_next m node;
       m \<leftarrow> unlink m node;
       m \<leftarrow> list_destruct A m node;
       clear_loop A m nxt
     } else Some m)"

definition list_clear :: "('s, 'p) allocator \<Rightarrow> ('s, 'p, 'v) sk_list \<Rightarrow> ('s, 'p, 'v) sk_list option" where
  "list_clear A m = do {
     node \<leftarrow> get_next m (sentinel m);
     m \<leftarrow> clear_loop A m node;
     sk_assert (al_empty A (allocator_st m));
     Some m
   }"

text \<open>\<^verbatim>\<open>assign\<close>, with the range \<^verbatim>\<open>[first, last)\<close> as the list of the values it yields.\<close>

definition set_value :: "('s, 'p, 'v) sk_list \<Rightarrow> 'p \<Rightarrow> 'v \<Rightarrow> ('s, 'p, 'v) sk_list option" where
  "set_value m p v = do { _ \<leftarrow> lvals m p; Some (m\<lparr>lvals := (lvals m)(p := Some v)\<rparr>) }"

fun assign_push :: "('s, 'p) allocator \<Rightarrow> ('s, 'p, 'v) sk_list \<Rightarrow> 'v list \<Rightarrow> ('s, 'p, 'v) sk_list option" where
  "assign_push A m [] = Some m"
| "assign_push A m (v # vs) = do { (ret, m) \<leftarrow> push_back A m v; sk_assert (ret = 0); assign_push A m vs }"

partial_function (option) assign_erase :: "('s, 'p) allocator \<Rightarrow> ('s, 'p, 'v) sk_list \<Rightarrow> 'p \<Rightarrow> ('s, 'p, 'v) sk_list option" where
  "assign_erase A m it = (if it \<noteq> sentinel m then do { (it, m) \<leftarrow> list_erase A m it; assign_erase A m it } else Some m)"

fun assign_from :: "('s, 'p) allocator \<Rightarrow> ('s, 'p, 'v) sk_list \<Rightarrow> 'p \<Rightarrow> 'v list \<Rightarrow> ('s, 'p, 'v) sk_list option" where
  "assign_from A m it [] = (if it = sentinel m then Some m else assign_erase A m it)"
| "assign_from A m it (v # vs) = (if it = sentinel m then assign_push A m (v # vs)
     else do { m \<leftarrow> set_value m it v; it \<leftarrow> get_next m it; assign_from A m it vs })"

definition list_assign :: "('s, 'p) allocator \<Rightarrow> ('s, 'p, 'v) sk_list \<Rightarrow> 'v list \<Rightarrow> ('s, 'p, 'v) sk_list option" where
  "list_assign A m vs = do { it \<leftarrow> get_next m (sentinel m); assign_from A m it vs }"

text \<open>The copy constructor walks over \<^verbatim>\<open>that\<close> with a constant iterator.\<close>

partial_function (option) copy_loop :: "('s, 'p) allocator \<Rightarrow> ('s, 'p, 'v) sk_list \<Rightarrow> ('s2, 'q, 'v) sk_list \<Rightarrow> 'q \<Rightarrow> ('s, 'p, 'v) sk_list option" where
  "copy_loop A m that it = (if it \<noteq> sentinel that then do {
       v \<leftarrow> lvals that it;
       (ret, m) \<leftarrow> push_back A m v;
       sk_assert (ret = 0);
       it \<leftarrow> get_next that it;
       copy_loop A m that it
     } else Some m)"

definition list_copy :: "('s, 'p) allocator \<Rightarrow> 's \<Rightarrow> 'p \<Rightarrow> ('s2, 'q, 'v) sk_list \<Rightarrow> ('s, 'p, 'v) sk_list option" where
  "list_copy A s sn that = do { it \<leftarrow> get_next that (sentinel that); copy_loop A (list_new s sn) that it }"

section \<open>The list as a sequence\<close>

definition nxf :: "('p \<Rightarrow> 'p list_node_base option) \<Rightarrow> 'p \<Rightarrow> 'p" where "nxf N p = next_node (the (N p))"

definition pvf :: "('p \<Rightarrow> 'p list_node_base option) \<Rightarrow> 'p \<Rightarrow> 'p" where "pvf N p = prev (the (N p))"

text \<open>\<open>xs\<close> are the nodes in order, \<open>vs\<close> their values, and the allocator has handed out exactly these nodes.\<close>

definition list_view :: "(nat \<Rightarrow> 's \<Rightarrow> 'p set \<Rightarrow> bool) \<Rightarrow> 'p \<Rightarrow> nat \<Rightarrow> ('s, 'p, 'v) sk_list \<Rightarrow> 'p list \<Rightarrow> 'v list \<Rightarrow> bool" where
  "list_view ok sn n m xs vs \<longleftrightarrow> sentinel m = sn \<and> ring (nxf (lnodes m)) (pvf (lnodes m)) sn xs \<and> dom (lnodes m) = insert sn (set xs) \<and>
     ok n (allocator_st m) (set xs) \<and> map (lvals m) xs = map Some vs"

lemma get_next_eq: "p \<in> dom (lnodes m) \<Longrightarrow> get_next m p = Some (nxf (lnodes m) p)"
  by (auto simp: get_next_def nxf_def)

lemma get_prev_eq: "p \<in> dom (lnodes m) \<Longrightarrow> get_prev m p = Some (pvf (lnodes m) p)"
  by (auto simp: get_prev_def pvf_def)

lemma ring_before:
  assumes "ring nx pv h (us @ ws)"
  shows "pv (hd (ws @ [h])) = last (h # us)"
proof (cases ws)
  case Nil
  then show ?thesis using ring_last [of nx pv h us] assms by simp
next
  case (Cons w ws')
  then show ?thesis using ring_mem(1) [of nx pv h us w ws'] assms by simp
qed

lemma link_ring:
  assumes r: "ring (nxf (lnodes m)) (pvf (lnodes m)) h (us @ ws)" and d: "insert x (insert h (set (us @ ws))) \<subseteq> dom (lnodes m)"
    and x: "x \<notin> insert h (set (us @ ws))" and pos: "pos = hd (ws @ [h])"
  shows "\<exists>N. link m x pos = Some (m\<lparr>lnodes := N\<rparr>) \<and> dom N = dom (lnodes m) \<and> ring (nxf N) (pvf N) h (us @ x # ws)"
proof -
  define q where "q = last (h # us)"
  have pv: "pvf (lnodes m) pos = q" using ring_before [OF r] pos by (simp add: q_def)
  have in': "pos \<in> insert h (set ws)" "q \<in> insert h (set us)" using pos by (auto simp: q_def hd_append)
  then have ne: "pos \<noteq> x" "q \<noteq> x" using x by auto
  have "x \<in> dom (lnodes m)" "pos \<in> dom (lnodes m)" "q \<in> dom (lnodes m)" using d in' by auto
  then obtain a b c where abc: "lnodes m x = Some a" "lnodes m pos = Some b" "lnodes m q = Some c" by blast
  then have b: "prev b = q" using pv by (simp add: pvf_def)
  obtain N where N: "link m x pos = Some (m\<lparr>lnodes := N\<rparr>)" "dom N = dom (lnodes m)"
      "nxf N = (nxf (lnodes m))(x := pos, q := x)" "pvf N = (pvf (lnodes m))(x := q, pos := x)"
  proof (cases "q = pos")
    case True
    show ?thesis
      by (rule that [of "(lnodes m)(x \<mapsto> a\<lparr>next_node := pos, prev := q\<rparr>, pos \<mapsto> b\<lparr>next_node := x, prev := x\<rparr>)"])
        (use abc ne b True in \<open>auto simp: link_def set_next_def set_prev_def get_prev_def nxf_def pvf_def fun_eq_iff\<close>)
  next
    case False
    show ?thesis
      by (rule that [of "(lnodes m)(x \<mapsto> a\<lparr>next_node := pos, prev := q\<rparr>, q \<mapsto> c\<lparr>next_node := x\<rparr>, pos \<mapsto> b\<lparr>prev := x\<rparr>)"])
        (use abc ne b False in \<open>auto simp: link_def set_next_def set_prev_def get_prev_def nxf_def pvf_def fun_eq_iff\<close>)
  qed
  have "ring (nxf N) (pvf N) h (us @ x # ws)"
    unfolding N(3,4) by (rule ring_insert [OF r x]) (simp_all add: q_def pos)
  then show ?thesis using N(1,2) by blast
qed

lemma unlink_ring:
  assumes r: "ring (nxf (lnodes m)) (pvf (lnodes m)) h (us @ x # ws)" and d: "insert h (set (us @ x # ws)) \<subseteq> dom (lnodes m)"
  shows "\<exists>N. unlink m x = Some (m\<lparr>lnodes := N\<rparr>) \<and> dom N = dom (lnodes m) \<and> ring (nxf N) (pvf N) h (us @ ws)"
proof -
  define q n where "q = pvf (lnodes m) x" and "n = nxf (lnodes m) x"
  have dd: "distinct (h # us @ x # ws)" using r by (simp add: ring_def)
  have in': "q \<in> insert h (set us)" "n \<in> insert h (set ws)" using ring_mem(1,2) [OF r] by (auto simp: q_def n_def hd_append)
  then have ne: "q \<noteq> x" "n \<noteq> x" using dd by auto
  have "x \<in> dom (lnodes m)" "n \<in> dom (lnodes m)" "q \<in> dom (lnodes m)" using d in' by auto
  then obtain a b c where abc: "lnodes m x = Some a" "lnodes m n = Some b" "lnodes m q = Some c" by blast
  then have a: "prev a = q" "next_node a = n" by (simp_all add: pvf_def nxf_def q_def n_def)
  obtain N where N: "unlink m x = Some (m\<lparr>lnodes := N\<rparr>)" "dom N = dom (lnodes m)"
      "nxf N = (nxf (lnodes m))(q := n, x := n)" "pvf N = (pvf (lnodes m))(n := q, x := q)"
  proof (cases "q = n")
    case True
    show ?thesis
      by (rule that [of "(lnodes m)(n \<mapsto> b\<lparr>next_node := n, prev := q\<rparr>)"])
        (use abc ne a True in \<open>auto simp: unlink_def set_next_def set_prev_def get_prev_def get_next_def nxf_def pvf_def fun_eq_iff\<close>)
  next
    case False
    show ?thesis
      by (rule that [of "(lnodes m)(n \<mapsto> b\<lparr>prev := q\<rparr>, q \<mapsto> c\<lparr>next_node := n\<rparr>)"])
        (use abc ne a False in \<open>auto simp: unlink_def set_next_def set_prev_def get_prev_def get_next_def nxf_def pvf_def fun_eq_iff\<close>)
  qed
  have "ring (nxf N) (pvf N) h (us @ ws)"
    unfolding N(3,4) using ring_remove [OF r] by (simp add: q_def n_def)
  then show ?thesis using N(1,2) by blast
qed

lemma ring_nodes_cong: "ring (nxf N) (pvf N) h xs \<Longrightarrow> \<forall>a \<in> insert h (set xs). N' a = N a \<Longrightarrow> ring (nxf N') (pvf N') h xs"
  using ring_cong [of h xs "nxf N'" "nxf N" "pvf N'" "pvf N"] by (simp add: nxf_def pvf_def)

text \<open>What the steps below need of a list.\<close>

lemma list_viewD:
  assumes "list_view ok sn n m xs vs"
  shows "ring (nxf (lnodes m)) (pvf (lnodes m)) sn xs" "dom (lnodes m) = insert sn (set xs)"
    "ok n (allocator_st m) (set xs)" "map (lvals m) xs = map Some vs" "distinct (sn # xs)" "length vs = length xs" "sentinel m = sn"
proof -
  show "map (lvals m) xs = map Some vs" using assms by (simp add: list_view_def)
  then show "length vs = length xs" using map_eq_imp_length_eq by metis
qed (use assms in \<open>auto simp: list_view_def ring_def\<close>)

lemma list_view_next: "list_view ok sn n m (us @ ws) vs \<Longrightarrow> get_next m (last (sn # us)) = Some (hd (ws @ [sn]))"
proof -
  assume v: "list_view ok sn n m (us @ ws) vs"
  note d = list_viewD [OF v]
  have "nxf (lnodes m) (last (sn # us)) = hd (ws @ [sn])"
  proof (cases us rule: rev_cases)
    case Nil
    then show ?thesis using ring_first [OF d(1)] by (simp split: list.splits)
  next
    case (snoc us' u)
    then show ?thesis using ring_mem(2) [of "nxf (lnodes m)" "pvf (lnodes m)" sn us' u ws] d(1) by simp
  qed
  moreover have "last (sn # us) \<in> dom (lnodes m)" using d(2) by (auto split: if_splits)
  ultimately show ?thesis using get_next_eq by metis
qed

lemma list_view_prev: "list_view ok sn n m (us @ ws) vs \<Longrightarrow> get_prev m (hd (ws @ [sn])) = Some (last (sn # us))"
proof -
  assume v: "list_view ok sn n m (us @ ws) vs"
  note d = list_viewD [OF v]
  have "hd (ws @ [sn]) \<in> dom (lnodes m)" using d(2) by (auto simp: hd_append)
  then show ?thesis using get_prev_eq ring_before [OF d(1)] by metis
qed

lemma list_view_split:
  assumes "list_view ok sn n m (us @ ws) vs"
  obtains as bs where "vs = as @ bs" "length as = length us" "length bs = length ws"
  by (rule that [of "take (length us) vs" "drop (length us) vs"]) (use list_viewD(6) [OF assms] in simp_all)

lemma list_value_at:
  assumes "list_view ok sn n m (us @ x # ws) (as @ v # bs)" and "length as = length us"
  shows "lvals m x = Some v" and "list_value m x = Some v"
proof -
  have "map (lvals m) us @ lvals m x # map (lvals m) ws = map Some as @ Some v # map Some bs" using list_viewD(4) [OF assms(1)] by simp
  then show "lvals m x = Some v" using assms(2) by simp
  moreover have "x \<noteq> sn" using list_viewD(5) [OF assms(1)] by auto
  ultimately show "list_value m x = Some v" using list_viewD(7) [OF assms(1)] by (simp add: list_value_def)
qed

section \<open>Correctness over any allocator\<close>

context node_allocator
begin

lemma construct_ok:
  assumes v: "list_view ok sn (Suc n) m xs vs"
  shows "\<exists>r m1. list_construct A m t = Some (r, m1) \<and> sentinel m1 = sn \<and> get_next m1 sn = get_next m sn \<and>
    (\<exists>s'. al_allocate A (allocator_st m) = Some (r, s')) \<and>
    (case r of None \<Rightarrow> list_view ok sn n m1 xs vs
     | Some x \<Rightarrow> \<forall>us ws as bs. xs = us @ ws \<longrightarrow> vs = as @ bs \<longrightarrow> length as = length us \<longrightarrow>
         (\<exists>m'. link m1 x (hd (ws @ [sn])) = Some m' \<and> list_view ok sn n m' (us @ x # ws) (as @ t # bs)))"
proof -
  note d = list_viewD [OF v]
  obtain r s' where a: "al_allocate A (allocator_st m) = Some (r, s')"
      "case r of None \<Rightarrow> ok n s' (set xs) | Some p \<Rightarrow> p \<notin> set xs \<and> ok n s' (insert p (set xs))"
    using allocate_law [OF d(3)] by blast
  show ?thesis
  proof (cases r)
    case None
    then show ?thesis using a d by (simp add: list_construct_def list_view_def get_next_def)
  next
    case (Some x)
    then have x: "x \<notin> set xs" "ok n s' (insert x (set xs))" using a by auto
    have xn: "x \<noteq> sn" using ok_live [OF x(2)] by auto
    let ?N = "(lnodes m)(x \<mapsto> \<lparr>prev = x, next_node = x\<rparr>)"
    let ?m = "m\<lparr>allocator_st := s', lnodes := ?N, lvals := (lvals m)(x \<mapsto> t)\<rparr>"
    have c: "list_construct A m t = Some (Some x, ?m)" using a(1) Some by (simp add: list_construct_def)
    have "\<exists>m'. link ?m x (hd (ws @ [sn])) = Some m' \<and> list_view ok sn n m' (us @ x # ws) (as @ t # bs)"
      if h: "xs = us @ ws" "vs = as @ bs" "length as = length us" for us ws as bs
    proof -
      have "ring (nxf ?N) (pvf ?N) sn (us @ ws)" by (rule ring_nodes_cong [of "lnodes m"]) (use d(1) h(1) x xn in auto)
      moreover have "insert x (insert sn (set (us @ ws))) \<subseteq> dom (lnodes ?m)" using d(2) h(1) by auto
      moreover have "x \<notin> insert sn (set (us @ ws))" using x xn h(1) by simp
      ultimately obtain N where N: "link ?m x (hd (ws @ [sn])) = Some (?m\<lparr>lnodes := N\<rparr>)" "dom N = dom ?N" "ring (nxf N) (pvf N) sn (us @ x # ws)"
        using link_ring [of ?m sn us ws x "hd (ws @ [sn])"] by auto
      have "map (lvals m) us = map Some as" "map (lvals m) ws = map Some bs" using d(4) h by simp_all
      then have "map ((lvals m)(x \<mapsto> t)) (us @ x # ws) = map Some (as @ t # bs)" using x h(1) by simp
      moreover have "dom N = insert sn (set (us @ x # ws))" using N(2) d(2) h(1) by auto
      moreover have "ok n s' (set (us @ x # ws))" using x(2) h(1) by simp
      ultimately show ?thesis using N(1,3) d(7) unfolding list_view_def by (intro exI [of _ "?m\<lparr>lnodes := N\<rparr>"]) simp
    qed
    moreover have "get_next ?m sn = get_next m sn" using xn by (simp add: get_next_def)
    ultimately show ?thesis using c a(1) Some d(7) by simp
  qed
qed

lemma remove_ok:
  assumes v: "list_view ok sn (Suc n) m (us @ x # ws) (as @ w # bs)" and l: "length as = length us"
  shows "\<exists>m1 m'. unlink m x = Some m1 \<and> list_destruct A m1 x = Some m' \<and> list_view ok sn n m' (us @ ws) (as @ bs)"
proof -
  note d = list_viewD [OF v]
  obtain N where N: "unlink m x = Some (m\<lparr>lnodes := N\<rparr>)" "dom N = dom (lnodes m)" "ring (nxf N) (pvf N) sn (us @ ws)"
    using unlink_ring [OF d(1)] d(2) by auto
  have x: "x \<noteq> sn" "x \<notin> set us" "x \<notin> set ws" using d(5) by auto
  obtain s' where s': "al_deallocate A (allocator_st m) x = Some s'" "ok n s' (set (us @ x # ws) - {x})"
    using deallocate_law [OF d(3), of x] by auto
  have e: "set (us @ x # ws) - {x} = set (us @ ws)" using x by auto
  obtain y where y: "N x = Some y" using N(2) d(2) by (metis domD in_set_conv_decomp insertCI)
  let ?m = "m\<lparr>lnodes := N(x := None), lvals := (lvals m)(x := None), allocator_st := s'\<rparr>"
  have "list_destruct A (m\<lparr>lnodes := N\<rparr>) x = Some ?m"
    using x(1) y list_value_at(1) [OF v l] s'(1) d(7) by (simp add: list_destruct_def)
  moreover have "ring (nxf (N(x := None))) (pvf (N(x := None))) sn (us @ ws)"
    by (rule ring_nodes_cong [OF N(3)]) (use x in auto)
  moreover have "dom (N(x := None)) = insert sn (set (us @ ws))" using N(2) d(2) x by auto
  moreover have "map ((lvals m)(x := None)) (us @ ws) = map Some (as @ bs)" using d(4) l x by simp
  moreover have "ok n s' (set (us @ ws))" using s'(2) e by simp
  ultimately show ?thesis using N(1) d(7) unfolding list_view_def by (intro exI [of _ "m\<lparr>lnodes := N\<rparr>"] exI [of _ ?m]) simp
qed

lemma list_view_le: "list_view ok sn n m xs vs \<Longrightarrow> k \<le> n \<Longrightarrow> list_view ok sn k m xs vs"
  using ok_le unfolding list_view_def by blast

lemma construct_at:
  assumes v: "list_view ok sn (Suc n) m (us @ ws) (as @ bs)" and l: "length as = length us"
  shows "\<exists>r m1 s'. list_construct A m t = Some (r, m1) \<and> al_allocate A (allocator_st m) = Some (r, s') \<and>
    (case r of None \<Rightarrow> list_view ok sn n m1 (us @ ws) (as @ bs)
     | Some x \<Rightarrow> \<exists>m'. link m1 x (hd (ws @ [sn])) = Some m' \<and> list_view ok sn n m' (us @ x # ws) (as @ t # bs))"
proof -
  from construct_ok [OF v, of t] obtain r m1 s' where c: "list_construct A m t = Some (r, m1)" "al_allocate A (allocator_st m) = Some (r, s')"
      and k: "case r of None \<Rightarrow> list_view ok sn n m1 (us @ ws) (as @ bs)
       | Some x \<Rightarrow> \<forall>us' ws' as' bs'. us @ ws = us' @ ws' \<longrightarrow> as @ bs = as' @ bs' \<longrightarrow> length as' = length us' \<longrightarrow>
           (\<exists>m'. link m1 x (hd (ws' @ [sn])) = Some m' \<and> list_view ok sn n m' (us' @ x # ws') (as' @ t # bs'))" by blast
  show ?thesis
  proof (cases r)
    case (Some x)
    then have "\<exists>m'. link m1 x (hd (ws @ [sn])) = Some m' \<and> list_view ok sn n m' (us @ x # ws) (as @ t # bs)"
      using k l by (simp only: option.case)
    then show ?thesis using c Some by simp
  qed (use c k in simp)
qed

lemma insert_ok:
  assumes v: "list_view ok sn (Suc n) m (us @ ws) (as @ bs)" and l: "length as = length us"
  shows "\<exists>r m'. list_insert A m (hd (ws @ [sn])) t = Some (r, m') \<and>
    (r = 0 \<and> (\<exists>x s'. al_allocate A (allocator_st m) = Some (Some x, s') \<and> list_view ok sn n m' (us @ x # ws) (as @ t # bs)) \<or>
     r = - ENOMEM \<and> (\<exists>s'. al_allocate A (allocator_st m) = Some (None, s')) \<and> list_view ok sn n m' (us @ ws) (as @ bs))"
proof -
  from construct_at [OF v l, of t] obtain r m1 s' where c: "list_construct A m t = Some (r, m1)" "al_allocate A (allocator_st m) = Some (r, s')"
      "case r of None \<Rightarrow> list_view ok sn n m1 (us @ ws) (as @ bs)
       | Some x \<Rightarrow> \<exists>m'. link m1 x (hd (ws @ [sn])) = Some m' \<and> list_view ok sn n m' (us @ x # ws) (as @ t # bs)" by blast
  show ?thesis
  proof (cases r)
    case None
    then show ?thesis using c by (simp add: list_insert_def)
  next
    case (Some x)
    then obtain m' where "link m1 x (hd (ws @ [sn])) = Some m'" "list_view ok sn n m' (us @ x # ws) (as @ t # bs)" using c(3) by auto
    then show ?thesis using c(1,2) Some by (auto simp: list_insert_def)
  qed
qed

text \<open>The other ways to add an element, in terms of \<^verbatim>\<open>insert\<close>.\<close>

lemma push_insert:
  assumes v: "list_view ok sn (Suc n) m xs vs"
  shows "push_back A m t = list_insert A m sn t" and "push_front A m t = list_insert A m (hd (xs @ [sn])) t"
proof -
  from construct_ok [OF v, of t] obtain r m1 where c: "list_construct A m t = Some (r, m1)" "sentinel m1 = sn" "get_next m1 sn = get_next m sn" by blast
  show "push_back A m t = list_insert A m sn t" using c by (simp add: push_back_def list_insert_def split: option.split)
  have "get_next m sn = Some (hd (xs @ [sn]))" using list_view_next [of ok sn "Suc n" m "[]" xs vs] v by simp
  then show "push_front A m t = list_insert A m (hd (xs @ [sn])) t" using c by (simp add: push_front_def list_insert_def split: option.split)
qed

lemma emplace_insert:
  assumes v: "list_view ok sn (Suc n) m (us @ ws) (as @ bs)" and l: "length as = length us"
  shows "list_emplace A m (hd (ws @ [sn])) t = do {
    (r, m') \<leftarrow> list_insert A m (hd (ws @ [sn])) t;
    (p, s') \<leftarrow> al_allocate A (allocator_st m);
    Some (p, m') }"
proof -
  from construct_at [OF v l, of t] obtain r m1 s' where c: "list_construct A m t = Some (r, m1)" "al_allocate A (allocator_st m) = Some (r, s')"
      "case r of None \<Rightarrow> list_view ok sn n m1 (us @ ws) (as @ bs)
       | Some x \<Rightarrow> \<exists>m'. link m1 x (hd (ws @ [sn])) = Some m' \<and> list_view ok sn n m' (us @ x # ws) (as @ t # bs)" by blast
  show ?thesis
  proof (cases r)
    case None
    then show ?thesis using c by (simp add: list_insert_def list_emplace_def)
  next
    case (Some x)
    then obtain m' where m': "link m1 x (hd (ws @ [sn])) = Some m'" "list_view ok sn n m' (us @ x # ws) (as @ t # bs)" using c(3) by auto
    then show ?thesis using c(1,2) Some list_value_at(2) [OF m'(2) l] by (simp add: list_insert_def list_emplace_def)
  qed
qed

lemma emplace_ends:
  assumes v: "list_view ok sn (Suc n) m xs vs"
  shows "emplace_back A m t = list_emplace A m sn t" and "emplace_front A m t = list_emplace A m (hd (xs @ [sn])) t"
proof -
  from construct_ok [OF v, of t] obtain r m1 where c: "list_construct A m t = Some (r, m1)" "sentinel m1 = sn" "get_next m1 sn = get_next m sn" by blast
  show "emplace_back A m t = list_emplace A m sn t" using c by (simp add: emplace_back_def list_emplace_def split: option.split)
  have "get_next m sn = Some (hd (xs @ [sn]))" using list_view_next [of ok sn "Suc n" m "[]" xs vs] v by simp
  then show "emplace_front A m t = list_emplace A m (hd (xs @ [sn])) t" using c by (simp add: emplace_front_def list_emplace_def split: option.split)
qed

lemma erase_ok:
  assumes v: "list_view ok sn (Suc n) m (us @ x # ws) (as @ w # bs)" and l: "length as = length us"
  shows "\<exists>m'. list_erase A m x = Some (hd (ws @ [sn]), m') \<and> list_view ok sn n m' (us @ ws) (as @ bs)"
proof -
  obtain m1 m' where m': "unlink m x = Some m1" "list_destruct A m1 x = Some m'" "list_view ok sn n m' (us @ ws) (as @ bs)"
    using remove_ok [OF v l] by blast
  have "get_next m x = Some (hd (ws @ [sn]))" using list_view_next [of ok sn "Suc n" m "us @ [x]" ws "as @ w # bs"] v by simp
  moreover have "x \<noteq> sn" using list_viewD(5) [OF v] by auto
  ultimately show ?thesis using m' list_viewD(7) [OF v] by (simp add: list_erase_def)
qed

lemma empty_iff: "list_view ok sn n m xs vs \<Longrightarrow> al_empty A (allocator_st m) \<longleftrightarrow> vs = []"
  using ok_live [of n "allocator_st m" "set xs"] list_viewD(3,6) by fastforce

lemma pop_ok:
  shows "list_view ok sn (Suc n) m (x # ws) (w # bs) \<Longrightarrow> \<exists>m'. pop_front A m = Some m' \<and> list_view ok sn n m' ws bs"
    and "list_view ok sn (Suc n) m (us @ [x]) (as @ [w]) \<Longrightarrow> \<exists>m'. pop_back A m = Some m' \<and> list_view ok sn n m' us as"
proof -
  assume v: "list_view ok sn (Suc n) m (x # ws) (w # bs)"
  have "get_next m sn = Some x" using list_view_next [of ok sn "Suc n" m "[]" "x # ws"] v by simp
  then show "\<exists>m'. pop_front A m = Some m' \<and> list_view ok sn n m' ws bs"
    using remove_ok [of n m "[]" x ws "[]" w bs] v empty_iff [OF v] list_viewD(7) [OF v] by (auto simp: pop_front_def)
next
  assume v: "list_view ok sn (Suc n) m (us @ [x]) (as @ [w])"
  have "get_prev m sn = Some x" using list_view_prev [of ok sn "Suc n" m "us @ [x]" "[]"] v by simp
  moreover have "length as = length us" using list_viewD(6) [OF v] by simp
  ultimately show "\<exists>m'. pop_back A m = Some m' \<and> list_view ok sn n m' us as"
    using remove_ok [of n m us x "[]" as w "[]"] v empty_iff [OF v] list_viewD(7) [OF v] by (auto simp: pop_back_def)
qed

lemma front_back_ok:
  assumes v: "list_view ok sn n m xs vs"
  shows "list_front A m = Some (if vs = [] then None else Some (hd vs))" and "list_back A m = Some (if vs = [] then None else Some (last vs))"
proof -
  note d = list_viewD [OF v] and e = empty_iff [OF v]
  show "list_front A m = Some (if vs = [] then None else Some (hd vs))"
  proof (cases xs)
    case (Cons x ws)
    then obtain w bs where vs: "vs = w # bs" using d(6) by (cases vs) auto
    have "get_next m sn = Some x" using list_view_next [of ok sn n m "[]" "x # ws"] v Cons by simp
    moreover have "list_value m x = Some w" using list_value_at(2) [of ok sn n m "[]" x ws "[]" w bs] v Cons vs by simp
    ultimately show ?thesis using vs e d(7) by (simp add: list_front_def)
  qed (use d e in \<open>simp add: list_front_def\<close>)
  show "list_back A m = Some (if vs = [] then None else Some (last vs))"
  proof (cases xs rule: rev_cases)
    case (snoc us x)
    then obtain as w where vs: "vs = as @ [w]" using d(6) by (cases vs rule: rev_cases) auto
    have "get_prev m sn = Some x" using list_view_prev [of ok sn n m "us @ [x]" "[]"] v snoc by simp
    moreover have "list_value m x = Some w" using list_value_at(2) [of ok sn n m us x "[]" as w "[]"] v snoc vs d(6) by simp
    ultimately show ?thesis using vs e d(7) by (simp add: list_back_def)
  qed (use d e in \<open>simp add: list_back_def\<close>)
qed

lemma clear_loop_ok:
  "list_view ok sn (length xs + n) m xs vs \<Longrightarrow> \<exists>m'. clear_loop A m (hd (xs @ [sn])) = Some m' \<and> list_view ok sn n m' [] []"
proof (induction xs arbitrary: m vs)
  case Nil
  then show ?case using list_viewD(6,7) [OF Nil] by (subst clear_loop.simps) simp
next
  case (Cons x xs)
  obtain w bs where vs: "vs = w # bs" using list_viewD(6) [OF Cons.prems] by (cases vs) auto
  have v: "list_view ok sn (Suc (length xs + n)) m ([] @ x # xs) ([] @ w # bs)" using Cons.prems vs by simp
  obtain m1 m' where m': "unlink m x = Some m1" "list_destruct A m1 x = Some m'" "list_view ok sn (length xs + n) m' xs bs"
    using remove_ok [OF v] by auto
  have "get_next m x = Some (hd (xs @ [sn]))" using list_view_next [of ok sn _ m "[x]" xs] Cons.prems by simp
  moreover have "x \<noteq> sentinel m" using list_viewD(5,7) [OF v] by auto
  moreover obtain m'' where "clear_loop A m' (hd (xs @ [sn])) = Some m''" "list_view ok sn n m'' [] []" using Cons.IH [OF m'(3)] by blast
  ultimately show ?case using m' by (subst clear_loop.simps) simp
qed

lemma clear_ok: "list_view ok sn (length xs + n) m xs vs \<Longrightarrow> \<exists>m'. list_clear A m = Some m' \<and> list_view ok sn n m' [] []"
proof -
  assume v: "list_view ok sn (length xs + n) m xs vs"
  obtain m' where m': "clear_loop A m (hd (xs @ [sn])) = Some m'" "list_view ok sn n m' [] []" using clear_loop_ok [OF v] by blast
  have "get_next m sn = Some (hd (xs @ [sn]))" using list_view_next [of ok sn _ m "[]" xs] v by simp
  then show ?thesis using m' empty_iff [OF m'(2)] list_viewD(7) [OF v] by (simp add: list_clear_def)
qed

lemma assign_erase_ok:
  "list_view ok sn (length ws + n) m (us @ ws) (as @ bs) \<Longrightarrow> length as = length us \<Longrightarrow>
    \<exists>m'. assign_erase A m (hd (ws @ [sn])) = Some m' \<and> list_view ok sn n m' us as"
proof (induction ws arbitrary: m bs)
  case Nil
  then show ?case using list_viewD(6,7) [OF Nil(1)] by (subst assign_erase.simps) simp
next
  case (Cons x ws)
  obtain w bs' where bs: "bs = w # bs'" using list_viewD(6) [OF Cons.prems(1)] Cons.prems(2) by (cases bs) auto
  have v: "list_view ok sn (Suc (length ws + n)) m (us @ x # ws) (as @ w # bs')" using Cons.prems bs by simp
  obtain m' where m': "list_erase A m x = Some (hd (ws @ [sn]), m')" "list_view ok sn (length ws + n) m' (us @ ws) (as @ bs')"
    using erase_ok [OF v Cons.prems(2)] by blast
  moreover have "x \<noteq> sentinel m" using list_viewD(5,7) [OF v] by auto
  ultimately show ?case using Cons.IH [OF m'(2) Cons.prems(2)] by (subst assign_erase.simps) simp
qed

lemma set_value_ok:
  assumes v: "list_view ok sn n m (us @ x # ws) (as @ w # bs)" and l: "length as = length us"
  shows "\<exists>m'. set_value m x t = Some m' \<and> list_view ok sn n m' (us @ x # ws) (as @ t # bs) \<and> lnodes m' = lnodes m"
proof -
  note d = list_viewD [OF v]
  have "x \<notin> set us" "x \<notin> set ws" using d(5) by auto
  then have "map ((lvals m)(x \<mapsto> t)) (us @ x # ws) = map Some (as @ t # bs)" using d(4) l by simp
  then show ?thesis using list_value_at(1) [OF v l] d by (simp add: set_value_def list_view_def)
qed

lemma list_new_ok: "ok n s {} \<Longrightarrow> list_view ok sn n (list_new s sn) [] []"
  by (simp add: list_view_def list_new_def ring_Nil nxf_def pvf_def)

end

text \<open>Over a pool of nodes it is known when an element can be added.\<close>

context pool_allocator
begin

lemma pool_insert:
  assumes v: "list_view ok sn (Suc n) m (us @ ws) (as @ bs)" and l: "length as = length us"
  shows "\<exists>r m'. list_insert A m (hd (ws @ [sn])) t = Some (r, m') \<and>
    (if length (as @ bs) = cap then r = - ENOMEM \<and> list_view ok sn n m' (us @ ws) (as @ bs)
     else r = 0 \<and> (\<exists>x. list_view ok sn n m' (us @ x # ws) (as @ t # bs)))"
proof -
  note d = list_viewD [OF v]
  have "card (set (us @ ws)) = length (as @ bs)" using d(5,6) distinct_card [of "us @ ws"] by simp
  then have "r = None \<longleftrightarrow> length (as @ bs) = cap" if "al_allocate A (allocator_st m) = Some (r, s')" for r s'
    using pool_law [OF d(3) that] by simp
  then show ?thesis using insert_ok [OF v l, of t] by fastforce
qed

lemma pool_push_back:
  assumes v: "list_view ok sn (Suc n) m xs vs"
  shows "\<exists>r m'. push_back A m t = Some (r, m') \<and>
    (if length vs = cap then r = - ENOMEM \<and> list_view ok sn n m' xs vs else r = 0 \<and> (\<exists>x. list_view ok sn n m' (xs @ [x]) (vs @ [t])))"
  using pool_insert [of n m xs "[]" vs "[]" t] v list_viewD(6) [OF v]
  by (simp only: append_Nil append_Nil2 list.sel push_insert(1) [OF v])

lemma assign_push_ok:
  "list_view ok sn (length ts + n) m xs vs \<Longrightarrow> length vs + length ts \<le> cap \<Longrightarrow>
    \<exists>m' ys. assign_push A m ts = Some m' \<and> list_view ok sn n m' ys (vs @ ts)"
proof (induction ts arbitrary: m xs vs)
  case (Cons t ts)
  have v: "list_view ok sn (Suc (length ts + n)) m xs vs" and ne: "length vs \<noteq> cap" using Cons.prems by simp_all
  obtain m1 x where m1: "push_back A m t = Some (0, m1)" "list_view ok sn (length ts + n) m1 (xs @ [x]) (vs @ [t])"
    using pool_push_back [OF v, of t] ne by auto
  show ?case using Cons.IH [OF m1(2)] Cons.prems(2) m1(1) by auto
qed auto

lemma assign_push_over:
  "list_view ok sn (length ts + n) m xs vs \<Longrightarrow> length vs \<le> cap \<Longrightarrow> cap < length vs + length ts \<Longrightarrow> assign_push A m ts = None"
proof (induction ts arbitrary: m xs vs)
  case (Cons t ts)
  have v: "list_view ok sn (Suc (length ts + n)) m xs vs" using Cons.prems by simp
  show ?case
  proof (cases "length vs = cap")
    case True
    then obtain m1 where "push_back A m t = Some (- ENOMEM, m1)" using pool_push_back [OF v, of t] by auto
    then show ?thesis by (simp add: ENOMEM_def)
  next
    case False
    then obtain m1 x where m1: "push_back A m t = Some (0, m1)" "list_view ok sn (length ts + n) m1 (xs @ [x]) (vs @ [t])"
      using pool_push_back [OF v, of t] by auto
    show ?thesis using Cons.IH [OF m1(2)] Cons.prems(2,3) m1(1) False by simp
  qed
qed simp

text \<open>\<^verbatim>\<open>assign\<close> overwrites the first elements, then it appends or erases.\<close>

lemma assign_from_ok:
  "list_view ok sn (length ws + length ts + n) m (us @ ws) (as @ bs) \<Longrightarrow> length as = length us \<Longrightarrow> length as + length ts \<le> cap \<Longrightarrow>
    \<exists>m' ys. assign_from A m (hd (ws @ [sn])) ts = Some m' \<and> list_view ok sn n m' ys (as @ ts)"
proof (induction ts arbitrary: m us ws as bs)
  case Nil
  show ?case
  proof (cases ws)
    case Nil
    then show ?thesis using Nil.prems list_viewD(6,7) [OF Nil.prems(1)] by auto
  next
    case (Cons x xs)
    then have "x \<noteq> sentinel m" using list_viewD(5,7) [OF Nil.prems(1)] by auto
    then show ?thesis using assign_erase_ok [of ws n m us as bs] Nil.prems Cons by auto
  qed
next
  case (Cons t ts)
  note prems = Cons.prems
  show ?case
  proof (cases ws)
    case Nil
    then have "bs = []" using list_viewD(6) [OF prems(1)] prems(2) by simp
    then have "list_view ok sn (length (t # ts) + n) m us as" using prems(1) Nil by simp
    then show ?thesis using assign_push_ok [of "t # ts" n m us as] prems(3) Nil list_viewD(7) [OF prems(1)] by auto
  next
    case (Cons x xs)
    obtain w bs' where bs: "bs = w # bs'" using list_viewD(6) [OF prems(1)] prems(2) Cons by (cases bs) auto
    have v: "list_view ok sn (length ws + length (t # ts) + n) m (us @ x # xs) (as @ w # bs')" using prems(1) Cons bs by simp
    obtain m1 where m1: "set_value m x t = Some m1" "list_view ok sn (length ws + length (t # ts) + n) m1 (us @ x # xs) (as @ t # bs')"
      using set_value_ok [OF v prems(2)] by blast
    have v1: "list_view ok sn (length xs + length ts + n) m1 ((us @ [x]) @ xs) ((as @ [t]) @ bs')"
      using list_view_le [OF m1(2), of "length xs + length ts + n"] Cons by simp
    have "get_next m1 x = Some (hd (xs @ [sn]))" using list_view_next [OF v1] by simp
    moreover have "x \<noteq> sentinel m" using list_viewD(5,7) [OF v] by auto
    ultimately show ?thesis using Cons.IH [OF v1] prems m1(1) \<open>ws = x # xs\<close> by auto
  qed
qed

lemma assign_ok:
  assumes v: "list_view ok sn (length vs + length ts + n) m xs vs" and "length ts \<le> cap"
  shows "\<exists>m' ys. list_assign A m ts = Some m' \<and> list_view ok sn n m' ys ts"
proof -
  have "get_next m sn = Some (hd (xs @ [sn]))" using list_view_next [of ok sn _ m "[]" xs] v by simp
  then show ?thesis using assign_from_ok [of xs ts n m "[]" "[]" vs] assms list_viewD(6,7) [OF v] by (auto simp: list_assign_def)
qed

lemma copy_loop_ok:
  "list_view ok sn (length ts + n) m xs vs \<Longrightarrow> list_view ok2 sn2 n2 that (us @ ws) (as @ ts) \<Longrightarrow> length as = length us \<Longrightarrow>
    length vs + length ts \<le> cap \<Longrightarrow> \<exists>m' ys. copy_loop A m that (hd (ws @ [sn2])) = Some m' \<and> list_view ok sn n m' ys (vs @ ts)"
proof (induction ts arbitrary: m xs vs us ws as)
  case Nil
  have "ws = []" using list_viewD(6) [OF Nil(2)] Nil(3) by simp
  then show ?case using Nil list_viewD(7) [OF Nil(2)] by (subst copy_loop.simps) auto
next
  case (Cons t ts)
  obtain y ws' where ws: "ws = y # ws'" using list_viewD(6) [OF Cons.prems(2)] Cons.prems(3) by (cases ws) auto
  have v: "list_view ok sn (Suc (length ts + n)) m xs vs" and ne: "length vs \<noteq> cap" using Cons.prems by simp_all
  obtain m1 x where m1: "push_back A m t = Some (0, m1)" "list_view ok sn (length ts + n) m1 (xs @ [x]) (vs @ [t])"
    using pool_push_back [OF v, of t] ne by auto
  have w: "list_view ok2 sn2 n2 that ((us @ [y]) @ ws') ((as @ [t]) @ ts)" using Cons.prems(2) ws by simp
  have "lvals that y = Some t" using list_value_at(1) [of ok2 sn2 n2 that us y ws' as t ts] w Cons.prems(3) by simp
  moreover have "get_next that y = Some (hd (ws' @ [sn2]))" using list_view_next [OF w] by simp
  moreover have "y \<noteq> sentinel that" using list_viewD(5,7) [OF w] by auto
  moreover obtain m' ys where "copy_loop A m1 that (hd (ws' @ [sn2])) = Some m'" "list_view ok sn n m' ys ((vs @ [t]) @ ts)"
    using Cons.IH [OF m1(2) w] Cons.prems(3,4) by auto
  ultimately show ?case using m1(1) ws by (subst copy_loop.simps) auto
qed

lemma copy_ok:
  assumes "ok (length ts + n) s {}" and w: "list_view ok2 sn2 n2 that ws ts" and "length ts \<le> cap"
  shows "\<exists>m ys. list_copy A s sn that = Some m \<and> list_view ok sn n m ys ts"
proof -
  have "get_next that sn2 = Some (hd (ws @ [sn2]))" using list_view_next [of ok2 sn2 n2 that "[]" ws] w by simp
  then show ?thesis using copy_loop_ok [OF list_new_ok [OF assms(1)], of ok2 sn2 n2 that "[]" ws "[]"] assms list_viewD(7) [OF w]
    by (auto simp: list_copy_def)
qed

end

section \<open>The fixed list\<close>

text \<open>A \<^verbatim>\<open>fixed_list\<close> of capacity \<open>N\<close> with the nodes \<open>xs\<close> and the elements \<open>vs\<close>. Its allocator serves any number of calls.\<close>

definition fixed_list :: "nat \<Rightarrow> nat \<Rightarrow> (fixed_allocator, nat, 'v) sk_list \<Rightarrow> nat list \<Rightarrow> 'v list \<Rightarrow> bool" where
  "fixed_list S N m xs vs \<longleftrightarrow> list_view (fa_contract S N (sentinel m)) (sentinel m) 0 m xs vs"

definition fixed_list_new :: "nat \<Rightarrow> nat \<Rightarrow> nat \<Rightarrow> nat \<Rightarrow> (fixed_allocator, nat, 'v) sk_list option" where
  "fixed_list_new S N addr sn = do { a \<leftarrow> fixed_allocator_new S N addr; Some (list_new a sn) }"

lemma fixed_view: "list_view (fa_contract S N sn) sn n m xs vs \<longleftrightarrow> fixed_list S N m xs vs \<and> sentinel m = sn"
  by (auto simp: fixed_list_def list_view_def fa_contract_def)

lemma fixed_list_length: "fixed_list S N m xs vs \<Longrightarrow> length vs = length xs \<and> length vs \<le> N \<and> al_size (fixed_allocator_ops S N S) (allocator_st m) = length vs"
proof -
  assume v: "fixed_list S N m xs vs"
  note d = list_viewD [OF v [unfolded fixed_list_def]]
  obtain ys k where "0 < S" "fa_view S N (allocator_st m) (set xs) ys k" using d(3) by (auto simp: fa_contract_def fa_ok_def)
  from fa_view_card [OF this] have "card (set xs) \<le> N" by simp
  moreover have "al_size (fixed_allocator_ops S N S) (allocator_st m) = card (set xs)" using fa.ok_live [OF d(3)] by simp
  moreover have "card (set xs) = length vs" using d(5,6) distinct_card [of xs] by simp
  ultimately show ?thesis using d(6) by simp
qed

lemma fixed_list_new_ok:
  assumes "0 < S" "addr \<noteq> 0" "sn \<notin> slot S addr ` {..<N}"
  shows "\<exists>m. fixed_list_new S N addr sn = Some m \<and> fixed_list S N m [] [] \<and> sentinel m = sn"
proof -
  obtain a where a: "fixed_allocator_new S N addr = Some a" "fa_ok S N addr a {}" using fixed_allocator_new_ok [OF assms(2)] by blast
  then have "fa_contract S N sn 0 a {}" using assms fa_ok_memory [OF a(2)] by (simp add: fa_contract_def)
  from fa.list_new_ok [OF this] show ?thesis using a(1) by (auto simp: fixed_list_new_def fixed_view)
qed

text \<open>
  The operations of a \<^verbatim>\<open>fixed_list\<close> act on the sequence of its elements: \<^verbatim>\<open>front\<close> and \<^verbatim>\<open>back\<close> read the ends, \<^verbatim>\<open>push_back\<close> and \<^verbatim>\<open>push_front\<close>
  add at the ends and fail with \<^verbatim>\<open>-ENOMEM\<close> exactly when \<open>N\<close> elements are stored, \<^verbatim>\<open>pop_back\<close> and \<^verbatim>\<open>pop_front\<close> remove them, \<^verbatim>\<open>clear\<close> removes all.
\<close>

theorem fixed_list_refines_sequence:
  fixes S N :: nat and m :: "(fixed_allocator, nat, 'v) sk_list"
  defines "A \<equiv> fixed_allocator_ops S N S"
  assumes v: "fixed_list S N m xs vs"
  shows "list_front A m = Some (if vs = [] then None else Some (hd vs)) \<and> list_back A m = Some (if vs = [] then None else Some (last vs)) \<and>
    (\<exists>r m' ys. push_back A m t = Some (r, m') \<and> r = (if length vs = N then - ENOMEM else 0) \<and> fixed_list S N m' ys (if r = 0 then vs @ [t] else vs)) \<and>
    (\<exists>r m' ys. push_front A m t = Some (r, m') \<and> r = (if length vs = N then - ENOMEM else 0) \<and> fixed_list S N m' ys (if r = 0 then t # vs else vs)) \<and>
    (vs \<noteq> [] \<longrightarrow> (\<exists>m'. pop_back A m = Some m' \<and> fixed_list S N m' (butlast xs) (butlast vs)) \<and> (\<exists>m'. pop_front A m = Some m' \<and> fixed_list S N m' (tl xs) (tl vs))) \<and>
    (\<exists>m'. list_clear A m = Some m' \<and> fixed_list S N m' [] [])"
proof -
  let ?sn = "sentinel m"
  have w: "list_view (fa_contract S N ?sn) ?sn n m xs vs" for n using v by (simp add: fixed_view)
  have l: "length vs = length xs" using fixed_list_length [OF v] by simp
  have "\<exists>r m' ys. push_back A m t = Some (r, m') \<and> r = (if length vs = N then - ENOMEM else 0) \<and> fixed_list S N m' ys (if r = 0 then vs @ [t] else vs)"
    using pool.pool_push_back [OF w, of t 0] by (auto simp: A_def fixed_view ENOMEM_def split: if_splits)
  moreover have "\<exists>r m' ys. push_front A m t = Some (r, m') \<and> r = (if length vs = N then - ENOMEM else 0) \<and> fixed_list S N m' ys (if r = 0 then t # vs else vs)"
    using pool.pool_insert [of S N ?sn 0 m "[]" xs "[]" vs t] w fa.push_insert(2) [OF w, of t] by (auto simp: A_def fixed_view ENOMEM_def split: if_splits)
  moreover have "\<exists>m'. pop_back A m = Some m' \<and> fixed_list S N m' (butlast xs) (butlast vs)" if "vs \<noteq> []"
    using fa.pop_ok(2) [of S N ?sn 0 m "butlast xs" "last xs" "butlast vs" "last vs"] w that l by (cases "xs = []") (auto simp: A_def fixed_view)
  moreover have "\<exists>m'. pop_front A m = Some m' \<and> fixed_list S N m' (tl xs) (tl vs)" if "vs \<noteq> []"
    using fa.pop_ok(1) [of S N ?sn 0 m "hd xs" "tl xs" "hd vs" "tl vs"] w that l by (cases xs) (auto simp: A_def fixed_view)
  moreover have "\<exists>m'. list_clear A m = Some m' \<and> fixed_list S N m' [] []"
    using fa.clear_ok [OF w, of 0] by (auto simp: A_def fixed_view)
  moreover have "list_front A m = Some (if vs = [] then None else Some (hd vs))" "list_back A m = Some (if vs = [] then None else Some (last vs))"
    using fa.front_back_ok [OF w] by (simp_all add: A_def)
  ultimately show ?thesis by blast
qed

theorem fixed_list_refines_sequence_witness:
  "\<exists>m r m' ys. fixed_list_new 24 2 100 8 = Some m \<and> push_back (fixed_allocator_ops 24 2 24) m (7 :: int) = Some (r, m') \<and> r = 0 \<and> fixed_list 24 2 m' ys [7]"
proof -
  have "8 \<notin> slot 24 100 ` {..<2}" by (auto simp: slot_def)
  then obtain m :: "(fixed_allocator, nat, int) sk_list" where m: "fixed_list_new 24 2 100 8 = Some m" "fixed_list 24 2 m [] []"
    using fixed_list_new_ok [of 24 100 8 2] by auto
  show ?thesis using fixed_list_refines_sequence [OF m(2), of 7] m(1) by auto
qed

text \<open>
  Positions. Before the \<open>i\<close>th node of a \<^verbatim>\<open>fixed_list\<close> (or before \<^verbatim>\<open>end()\<close>) \<^verbatim>\<open>insert\<close> adds an element there, unless the list is full; \<^verbatim>\<open>erase\<close> removes the
  element of its node and returns the position behind it; \<^verbatim>\<open>assign\<close> and the copy constructor give a list with exactly the elements of the range,
  if these are at most \<open>N\<close>. In all cases the other nodes keep their places.
\<close>

theorem fixed_list_positions:
  fixes S N :: nat and m :: "(fixed_allocator, nat, 'v) sk_list"
  defines "A \<equiv> fixed_allocator_ops S N S"
  assumes v: "fixed_list S N m xs vs"
  shows "(i \<le> length vs \<longrightarrow> (\<exists>r m'. list_insert A m ((xs @ [sentinel m]) ! i) t = Some (r, m') \<and>
      (if length vs = N then r = - ENOMEM \<and> fixed_list S N m' xs vs
       else r = 0 \<and> (\<exists>x. fixed_list S N m' (take i xs @ x # drop i xs) (take i vs @ t # drop i vs))))) \<and>
    (i < length vs \<longrightarrow> (\<exists>m'. list_erase A m (xs ! i) = Some ((xs @ [sentinel m]) ! Suc i, m') \<and>
      fixed_list S N m' (take i xs @ drop (Suc i) xs) (take i vs @ drop (Suc i) vs))) \<and>
    (length ts \<le> N \<longrightarrow> (\<exists>m' ys. list_assign A m ts = Some m' \<and> fixed_list S N m' ys ts)) \<and>
    (fa_ok S N b a {} \<and> sn \<notin> slot S b ` {..<N} \<longrightarrow> (\<exists>m' ys. list_copy A a sn m = Some m' \<and> fixed_list S N m' ys vs))"
proof -
  let ?sn = "sentinel m"
  have w: "list_view (fa_contract S N ?sn) ?sn n m xs vs" for n using v by (simp add: fixed_view)
  have l: "length vs = length xs" "length vs \<le> N" using fixed_list_length [OF v] by simp_all
  have "\<exists>r m'. list_insert A m ((xs @ [?sn]) ! i) t = Some (r, m') \<and>
      (if length vs = N then r = - ENOMEM \<and> fixed_list S N m' xs vs
       else r = 0 \<and> (\<exists>x. fixed_list S N m' (take i xs @ x # drop i xs) (take i vs @ t # drop i vs)))" if "i \<le> length vs"
  proof -
    have "hd (drop i xs @ [?sn]) = (xs @ [?sn]) ! i" using that l(1) hd_drop_conv_nth [of i "xs @ [?sn]"] by simp
    then show ?thesis using pool.pool_insert [of S N ?sn 0 m "take i xs" "drop i xs" "take i vs" "drop i vs" t] w that l
      by (auto simp: A_def fixed_view split: if_splits)
  qed
  moreover have "\<exists>m'. list_erase A m (xs ! i) = Some ((xs @ [?sn]) ! Suc i, m') \<and>
      fixed_list S N m' (take i xs @ drop (Suc i) xs) (take i vs @ drop (Suc i) vs)" if "i < length vs"
  proof -
    have "hd (drop (Suc i) xs @ [?sn]) = (xs @ [?sn]) ! Suc i" using that l(1) hd_drop_conv_nth [of "Suc i" "xs @ [?sn]"] by simp
    then show ?thesis using fa.erase_ok [of S N ?sn 0 m "take i xs" "xs ! i" "drop (Suc i) xs" "take i vs" "vs ! i" "drop (Suc i) vs"] w that l
      by (auto simp: A_def fixed_view nth_take_drop_append)
  qed
  moreover have "\<exists>m' ys. list_assign A m ts = Some m' \<and> fixed_list S N m' ys ts" if "length ts \<le> N"
    using pool.assign_ok [OF w that, of 0] by (auto simp: A_def fixed_view)
  moreover have "\<exists>m' ys. list_copy A a sn m = Some m' \<and> fixed_list S N m' ys vs" if "fa_ok S N b a {} \<and> sn \<notin> slot S b ` {..<N}"
  proof -
    have "0 < S" using list_viewD(3) [OF w] by (simp add: fa_contract_def)
    then have "fa_contract S N sn (length vs + 0) a {}" using that fa_ok_memory [of S N b a "{}"] by (simp add: fa_contract_def)
    from pool.copy_ok [OF this w l(2)] show ?thesis by (auto simp: A_def fixed_view)
  qed
  ultimately show ?thesis by blast
qed

theorem fixed_list_positions_witness:
  "\<exists>m r m' x. fixed_list_new 24 2 100 8 = Some m \<and> list_insert (fixed_allocator_ops 24 2 24) m 8 (7 :: int) = Some (r, m') \<and> fixed_list 24 2 m' [x] [7]"
proof -
  have "8 \<notin> slot 24 100 ` {..<2}" by (auto simp: slot_def)
  then obtain m :: "(fixed_allocator, nat, int) sk_list" where m: "fixed_list_new 24 2 100 8 = Some m" "fixed_list 24 2 m [] []" "sentinel m = 8"
    using fixed_list_new_ok [of 24 100 8 2] by auto
  show ?thesis using fixed_list_positions [OF m(2), of 0 7, THEN conjunct1] m(1,3) by auto
qed

end
