(* ===== verification/Shm_Allocator.thy ===== *)
theory Shm_Allocator
  imports Allocator List_Container
begin

text \<open>
  \<^verbatim>\<open>src/src/shm/shm.h\<close> with \<^verbatim>\<open>shm.cpp\<close>, the functions over the one manager of the process, and \<^verbatim>\<open>src/src/container/detail/shm_allocator.h\<close>, the allocator that takes
  the nodes of a container from it. The manager behind \<^verbatim>\<open>ctx\<close> is part of the state. The interpretations below prove, on the model of the manager itself, the contracts
  that the containers rely on; each call needs a part of what the metadata block still grants.
\<close>

section \<open>The functions of the shared memory\<close>

definition shm_malloc :: "shm \<Rightarrow> nat \<Rightarrow> (addr \<times> shm) option" where "shm_malloc s bytes = malloc s bytes"

definition shm_free :: "shm \<Rightarrow> addr \<Rightarrow> shm option" where "shm_free s ptr = mgr_free s ptr"

text \<open>\<^verbatim>\<open>shm_ptr::get\<close> where the pointer is used as an object: null aborts.\<close>

definition shm_deref :: "shm \<Rightarrow> addr \<Rightarrow> nat option" where
  "shm_deref s a = do { p \<leftarrow> addr2ptr s a; sk_assert (p \<noteq> 0); Some p }"

definition shm_new :: "nat \<Rightarrow> shm \<Rightarrow> (addr option \<times> shm) option" where
  "shm_new sz s = do {
     (ptr, s) \<leftarrow> shm_malloc s sz;
     if addr_ok ptr then do { _ \<leftarrow> shm_deref s ptr; Some (Some ptr, s) } else Some (None, s)
   }"

definition shm_delete :: "shm \<Rightarrow> addr \<Rightarrow> shm option" where
  "shm_delete s ptr = (if addr_ok ptr then do { _ \<leftarrow> shm_deref s ptr; shm_free s ptr } else Some s)"

section \<open>The allocator\<close>

record shm_allocator =
  sa_size :: nat
  sa_peak :: nat
  sa_shm :: shm

definition shm_allocator_new :: "shm \<Rightarrow> shm_allocator" where
  "shm_allocator_new s = \<lparr>sa_size = 0, sa_peak = 0, sa_shm = s\<rparr>"

definition sa_allocate :: "shm_allocator \<Rightarrow> nat \<Rightarrow> (addr option \<times> shm_allocator) option" where
  "sa_allocate a sz = do {
     (ptr, s) \<leftarrow> shm_malloc (sa_shm a) sz;
     let a = a\<lparr>sa_shm := s\<rparr>;
     if addr_ok ptr then do {
       let a = a\<lparr>sa_size := sa_size a + 1\<rparr>;
       Some (Some ptr, if sa_size a > sa_peak a then a\<lparr>sa_peak := sa_size a\<rparr> else a)
     } else Some (None, a)
   }"

definition sa_deallocate :: "shm_allocator \<Rightarrow> addr \<Rightarrow> shm_allocator option" where
  "sa_deallocate a ptr = do {
     sk_assert (sa_size a > 0);
     let a = a\<lparr>sa_size := sa_size a - 1\<rparr>;
     s \<leftarrow> shm_free (sa_shm a) ptr;
     Some (a\<lparr>sa_shm := s\<rparr>)
   }"

definition sa_full :: "shm_allocator \<Rightarrow> bool" where "sa_full a = False"

definition sa_empty :: "shm_allocator \<Rightarrow> bool" where "sa_empty a \<longleftrightarrow> sa_size a \<le> 0"

definition shm_allocator_ops :: "nat \<Rightarrow> (shm_allocator, addr) allocator" where
  "shm_allocator_ops sz = \<lparr>al_allocate = (\<lambda>a. sa_allocate a sz), al_deallocate = sa_deallocate, al_full = sa_full, al_empty = sa_empty, al_size = sa_size\<rparr>"

section \<open>The contract\<close>

text \<open>A pointer to a region in use, with at least \<open>sz\<close> bytes behind its tag.\<close>

definition live_ptr :: "shm \<Rightarrow> (nat \<times> nat) set \<Rightarrow> nat \<Rightarrow> addr \<Rightarrow> bool" where
  "live_ptr s V sz a \<longleftrightarrow> (\<exists>p m. a = (meta_serial (user s p), p + 8) \<and> (p, m) \<in> V \<and> sz + 8 \<le> m)"

text \<open>
  The nodes \<open>L\<close> are regions in use, the container with its sentinel \<open>sn\<close> lies in the region at \<open>h\<close>, which is none of them, and the metadata block has
  room for \<open>n\<close> more calls. A pointer to a sentinel has the serial number of the block, as \<^verbatim>\<open>shm_ptr2addr\<close> makes it, and another offset than any node.
\<close>

definition nodes_ok :: "nat \<Rightarrow> addr \<Rightarrow> nat \<Rightarrow> shm \<Rightarrow> addr set \<Rightarrow> bool" where
  "nodes_ok sz sn n s L \<longleftrightarrow> (\<exists>V h m. alloc_inv s V \<and> grants s 0 (n * 10805248) \<and> finite L \<and> 0 < sz \<and> sz + 8 \<le> 2 ^ 47 \<and> (\<forall>a \<in> L. live_ptr s V sz a) \<and>
     (h, m) \<in> V \<and> h + 8 \<le> snd sn \<and> snd sn < h + m \<and> fst sn = 2 \<and> h + 8 \<notin> snd ` L)"

lemma live_serial: "alloc_inv s V \<Longrightarrow> (p, m) \<in> V \<Longrightarrow> 3 \<le> meta_serial (user s p) \<and> meta_magic (user s p) = SK_MAGIC"
  by (auto simp: alloc_inv_def tagged_def)

lemma live_deref:
  assumes "alloc_inv s V" "live_ptr s V sz a" "0 < sz"
  shows "addr_ok a \<and> (\<exists>q. shm_deref s a = Some q)"
proof -
  obtain p m where a: "a = (meta_serial (user s p), p + 8)" "(p, m) \<in> V" "sz + 8 \<le> m" using assms(2) by (auto simp: live_ptr_def)
  have "p + 8 < used1 s" using alloc_inv_pos [OF assms(1) a(2)] a(3) assms(3) by simp
  then show ?thesis using live_serial [OF assms(1) a(2)] a(1)
    by (simp add: shm_deref_def addr2ptr_def shm_meta_size_def addr_ok_def block_defs)
qed

lemma live_ptr_keep:
  assumes "alloc_inv s V" "live_ptr s V sz a" "ukeep V s s'" "V \<subseteq> V'"
  shows "live_ptr s' V' sz a"
proof -
  obtain p m where a: "a = (meta_serial (user s p), p + 8)" "(p, m) \<in> V" "sz + 8 \<le> m" using assms(2) by (auto simp: live_ptr_def)
  have "user s' p = user s p" using assms(3) a(2,3) unfolding ukeep_def by fastforce
  then show ?thesis using a assms(4) by (auto simp: live_ptr_def)
qed

lemma nodes_ok_fresh:
  assumes "alloc_inv s V" "\<forall>a \<in> L. live_ptr s V sz a" "(h, m) \<in> V" "alloc_inv s' (insert (p, k) V)" "(p, k) \<notin> V"
  shows "(c, p + 8) \<notin> L" "p \<noteq> h"
proof -
  have "(p, j) \<notin> V" for j using alloc_inv_fst [OF assms(4), of p j k] assms(5) by auto
  then show "(c, p + 8) \<notin> L" "p \<noteq> h" using assms(2,3) by (auto simp: live_ptr_def)
qed

text \<open>Allocation and release of a node.\<close>

lemma node_malloc:
  assumes ok: "nodes_ok sz sn (Suc n) s L"
  shows "\<exists>r s'. shm_malloc s sz = Some (r, s') \<and>
    (if addr_ok r then r \<notin> L \<and> nodes_ok sz sn n s' (insert r L) \<and> (\<exists>q. shm_deref s' r = Some q) else nodes_ok sz sn n s' L)"
proof -
  obtain V h m where v: "alloc_inv s V" "grants s 0 (n * 10805248 + 10805248)" "finite L" "0 < sz" "sz + 8 \<le> 2 ^ 47" "\<forall>a \<in> L. live_ptr s V sz a"
      "(h, m) \<in> V" "h + 8 \<le> snd sn" "snd sn < h + m" "fst sn = 2" "h + 8 \<notin> snd ` L"
    using ok by (auto simp: nodes_ok_def add.commute)
  have md: "(sz + 8) mod 2 ^ 64 = sz + 8" using v(5) by simp
  have "(sz + 8) mod 2 ^ 64 \<le> 2 ^ 47" using v(5) md by simp
  from malloc_ok [OF v(1) this v(2)] obtain r s' where r: "malloc s sz = Some (r, s')" "grants s' 0 (n * 10805248)" "ukeep V s s'"
      "if addr_ok r then \<exists>p k. r = (serial_no s, p + 8) \<and> sz + 8 \<le> k \<and> 8 \<le> k \<and> (sz + 8 = 0 \<longrightarrow> k = 8) \<and> (p, k) \<notin> V \<and>
         alloc_inv s' (insert (p, k) V) \<and> meta_serial (user s' p) = serial_no s
       else r = nulladdr \<and> alloc_inv s' V"
    unfolding md by blast
  show ?thesis
  proof (cases "addr_ok r")
    case True
    then obtain p k where p: "r = (serial_no s, p + 8)" "sz + 8 \<le> k" "(p, k) \<notin> V" "alloc_inv s' (insert (p, k) V)" "meta_serial (user s' p) = serial_no s"
      using r(4) by auto
    let ?V = "insert (p, k) V"
    note fr = nodes_ok_fresh [OF v(1,6,7) p(4,3)]
    have lr: "live_ptr s' ?V sz r" using p(1,2,5) unfolding live_ptr_def by (intro exI [of _ p] exI [of _ k]) simp
    have keep: "\<forall>a \<in> L. live_ptr s' ?V sz a" using v(6) live_ptr_keep [OF v(1) _ r(3)] by blast
    have "nodes_ok sz sn n s' (insert r L)"
      unfolding nodes_ok_def using p v r(2) lr keep fr by (intro exI [of _ ?V] exI [of _ h] exI [of _ m]) auto
    then show ?thesis using True r(1) p(1) fr(1) live_deref [OF p(4) lr v(4)] by (simp add: shm_malloc_def)
  next
    case False
    then have "alloc_inv s' V" using r(4) by simp
    moreover have "\<forall>a \<in> L. live_ptr s' V sz a" using v(6) live_ptr_keep [OF v(1) _ r(3)] by blast
    ultimately have "nodes_ok sz sn n s' L" unfolding nodes_ok_def using v r(2) by blast
    then show ?thesis using False r(1) by (simp add: shm_malloc_def)
  qed
qed

lemma node_free:
  assumes ok: "nodes_ok sz sn (Suc n) s L" and a: "a \<in> L"
  shows "addr_ok a \<and> (\<exists>q. shm_deref s a = Some q) \<and> (\<exists>s'. shm_free s a = Some s' \<and> nodes_ok sz sn n s' (L - {a}))"
proof -
  obtain V h m where v: "alloc_inv s V" "grants s 0 (n * 10805248 + 10805248)" "finite L" "0 < sz" "sz + 8 \<le> 2 ^ 47" "\<forall>a \<in> L. live_ptr s V sz a"
      "(h, m) \<in> V" "h + 8 \<le> snd sn" "snd sn < h + m" "fst sn = 2" "h + 8 \<notin> snd ` L"
    using ok by (auto simp: nodes_ok_def add.commute)
  obtain p k where p: "a = (meta_serial (user s p), p + 8)" "(p, k) \<in> V" "sz + 8 \<le> k" using v(6) a by (auto simp: live_ptr_def)
  have "grants s 0 (n * 10805248 + 540672)" using grants_mono [OF v(2)] by simp
  from free_ok [OF v(1) p(2) refl this] obtain s' where s': "mgr_free s a = Some s'" "alloc_inv s' (V - {(p, k)})" "ukeep (V - {(p, k)}) s s'" "grants s' 0 (n * 10805248)"
    using p(1) by blast
  have ph: "p \<noteq> h" using v(11) a p(1) by force
  have live: "live_ptr s' (V - {(p, k)}) sz b" if b: "b \<in> L - {a}" for b
  proof -
    obtain q j where q: "b = (meta_serial (user s q), q + 8)" "(q, j) \<in> V" "sz + 8 \<le> j" using v(6) b by (auto simp: live_ptr_def)
    have "(q, j) \<in> V - {(p, k)}" using q b p(1) by auto
    moreover have "user s' q = user s q" using s'(3) calculation q(3) unfolding ukeep_def by fastforce
    ultimately show ?thesis unfolding live_ptr_def using q by (intro exI [of _ q] exI [of _ j]) simp
  qed
  have "(h, m) \<in> V - {(p, k)}" using v(7) ph by simp
  then have "nodes_ok sz sn n s' (L - {a})" unfolding nodes_ok_def using v s'(2,4) live
    by (intro exI [of _ "V - {(p, k)}"] exI [of _ h] exI [of _ m]) auto
  then show ?thesis using s'(1) live_deref [OF v(1) _ v(4)] v(6) a by (auto simp: shm_free_def)
qed

lemma nodes_ok_less: "nodes_ok sz sn (Suc n) s L \<Longrightarrow> nodes_ok sz sn n s L"
proof -
  assume "nodes_ok sz sn (Suc n) s L"
  moreover have "grants s 0 (Suc n * 10805248) \<Longrightarrow> grants s 0 (n * 10805248)" by (erule grants_mono) simp
  ultimately show ?thesis unfolding nodes_ok_def by blast
qed

lemma nodes_ok_sentinel:
  assumes "nodes_ok sz sn n s L"
  shows "finite L" "sn \<notin> L"
proof -
  obtain V where v: "alloc_inv s V" "finite L" "\<forall>a \<in> L. live_ptr s V sz a" "fst sn = 2" using assms by (auto simp: nodes_ok_def)
  show "finite L" by (rule v(2))
  show "sn \<notin> L"
  proof
    assume "sn \<in> L"
    then obtain p m where "sn = (meta_serial (user s p), p + 8)" "(p, m) \<in> V" using v(3) by (auto simp: live_ptr_def)
    then show False using live_serial [OF v(1)] v(4) by fastforce
  qed
qed

text \<open>\<^verbatim>\<open>shm_new\<close> and \<^verbatim>\<open>shm_delete\<close> as a source of nodes.\<close>

locale node_source =
  fixes new :: "'s \<Rightarrow> ('p option \<times> 's) option" and del :: "'s \<Rightarrow> 'p \<Rightarrow> 's option" and ok :: "nat \<Rightarrow> 's \<Rightarrow> 'p set \<Rightarrow> bool"
  assumes src_less: "ok (Suc n) s L \<Longrightarrow> ok n s L"
    and src_new: "ok (Suc n) s L \<Longrightarrow> \<exists>r s'. new s = Some (r, s') \<and> (case r of None \<Rightarrow> ok n s' L | Some p \<Rightarrow> p \<notin> L \<and> ok n s' (insert p L))"
    and src_del: "ok (Suc n) s L \<Longrightarrow> p \<in> L \<Longrightarrow> \<exists>s'. del s p = Some s' \<and> ok n s' (L - {p})"
begin

lemma src_le: "ok n s L \<Longrightarrow> k \<le> n \<Longrightarrow> ok k s L"
proof (induction n)
  case (Suc n)
  then show ?case using src_less by (cases "k = Suc n") auto
qed simp

end

sublocale node_allocator \<subseteq> source: node_source "al_allocate A" "al_deallocate A" ok
  by unfold_locales (use ok_mono allocate_law deallocate_law in auto)

interpretation shm: node_source "shm_new sz" shm_delete "nodes_ok sz sn" for sz :: nat and sn :: addr
proof unfold_locales
  show "nodes_ok sz sn n s L" if "nodes_ok sz sn (Suc n) s L" for n s L using that by (rule nodes_ok_less)
  show "\<exists>r s'. shm_new sz s = Some (r, s') \<and> (case r of None \<Rightarrow> nodes_ok sz sn n s' L | Some p \<Rightarrow> p \<notin> L \<and> nodes_ok sz sn n s' (insert p L))"
    if "nodes_ok sz sn (Suc n) s L" for n s L using node_malloc [OF that] by (auto simp: shm_new_def split: if_splits)
  show "\<exists>s'. shm_delete s p = Some s' \<and> nodes_ok sz sn n s' (L - {p})" if "nodes_ok sz sn (Suc n) s L" "p \<in> L" for n s L p
    using node_free [OF that] by (auto simp: shm_delete_def)
qed

definition sa_contract :: "nat \<Rightarrow> addr \<Rightarrow> nat \<Rightarrow> shm_allocator \<Rightarrow> addr set \<Rightarrow> bool" where
  "sa_contract sz sn n a L \<longleftrightarrow> nodes_ok sz sn n (sa_shm a) L \<and> sa_size a = card L \<and> sa_size a \<le> sa_peak a"

interpretation sa: node_allocator "shm_allocator_ops sz" "sa_contract sz sn" sn for sz :: nat and sn :: addr
proof unfold_locales
  show "finite L \<and> sn \<notin> L \<and> al_size (shm_allocator_ops sz) a = card L \<and> (al_empty (shm_allocator_ops sz) a \<longleftrightarrow> L = {})"
    if "sa_contract sz sn n a L" for n a L
    using that nodes_ok_sentinel [of sz sn n "sa_shm a" L] by (auto simp: sa_contract_def shm_allocator_ops_def sa_empty_def)
  show "sa_contract sz sn n a L" if "sa_contract sz sn (Suc n) a L" for n a L using that nodes_ok_less by (simp add: sa_contract_def)
  show "\<exists>r a'. al_allocate (shm_allocator_ops sz) a = Some (r, a') \<and> (case r of None \<Rightarrow> sa_contract sz sn n a' L | Some p \<Rightarrow> p \<notin> L \<and> sa_contract sz sn n a' (insert p L))"
    if o: "sa_contract sz sn (Suc n) a L" for n a L
  proof -
    obtain r s' where "shm_malloc (sa_shm a) sz = Some (r, s')" "if addr_ok r then r \<notin> L \<and> nodes_ok sz sn n s' (insert r L) else nodes_ok sz sn n s' L"
      using o node_malloc [of sz sn n "sa_shm a" L] by (auto simp: sa_contract_def split: if_splits)
    then show ?thesis using o nodes_ok_sentinel(1) [of sz sn "Suc n" "sa_shm a" L]
      by (auto simp: shm_allocator_ops_def sa_allocate_def sa_contract_def Let_def split: if_splits)
  qed
  show "\<exists>a'. al_deallocate (shm_allocator_ops sz) a p = Some a' \<and> sa_contract sz sn n a' (L - {p})" if o: "sa_contract sz sn (Suc n) a L" "p \<in> L" for n a L p
  proof -
    have f: "finite L" using o(1) unfolding sa_contract_def by (blast intro: nodes_ok_sentinel(1))
    have "0 < card L" using f o(2) card_gt_0_iff by blast
    moreover obtain s' where "shm_free (sa_shm a) p = Some s'" "nodes_ok sz sn n s' (L - {p})"
      using o node_free [of sz sn n "sa_shm a" L p] by (auto simp: sa_contract_def)
    ultimately show ?thesis using o f by (auto simp: shm_allocator_ops_def sa_deallocate_def sa_contract_def Let_def card_Diff_singleton)
  qed
qed

section \<open>A container in shared memory\<close>

text \<open>
  A container lies in a region in use, where \<^verbatim>\<open>shm_new\<close> has put it; its sentinel is \<open>off\<close> bytes behind the start of the container and no node is allocated yet.
\<close>

lemma nodes_ok_start:
  assumes "alloc_inv s V" "(h, m) \<in> V" "off + 8 < m" "grants s 0 (n * 10805248)" "0 < sz" "sz + 8 \<le> 2 ^ 47"
  shows "nodes_ok sz (2, h + 8 + off) n s {}"
  unfolding nodes_ok_def using assms by (intro exI [of _ V] exI [of _ h] exI [of _ m]) simp

lemma sa_contract_start: "nodes_ok sz sn n s {} \<Longrightarrow> sa_contract sz sn n (shm_allocator_new s) {}"
  by (simp add: sa_contract_def shm_allocator_new_def)

text \<open>A manager of a small system that has handed out one region, for the witnesses.\<close>

lemma demo_region:
  "\<exists>s p t. on_create (shm_mgr_new demo_os) (Some (2 ^ 36)) ''demo'' = Some (0, s) \<and> malloc s 300000 = Some ((3, p + 8), t) \<and>
     nodes_ok 40 (2, p + 24) 8 t {} \<and> nodes_ok 40 (2, p + 8) 8 t {}"
proof -
  obtain s where s: "on_create (shm_mgr_new demo_os) (Some (2 ^ 36)) ''demo'' = Some (0, s)" "created s" "grants s 0 (2 ^ 30)" "os s = demo_os" "default_mmap_size s = 2 ^ 36"
    using demo_created by blast
  obtain t p n where t: "malloc s 300000 = Some ((serial_no s, p + 8), t)" "grants t 0 (2 ^ 29)" "300008 \<le> n" "alloc_inv t {(p, n)}"
    using demo_malloc [OF s(2-5)] by blast
  have "grants t 0 (8 * 10805248)" using grants_mono [OF t(2)] by simp
  then have "nodes_ok 40 (2, p + 8 + 16) 8 t {}" "nodes_ok 40 (2, p + 8 + 0) 8 t {}"
    using nodes_ok_start [OF t(4), of p n 16 8 40] nodes_ok_start [OF t(4), of p n 0 8 40] t(3) by simp_all
  moreover have "serial_no s = 3" using s(2) by (simp add: created_def)
  ultimately show ?thesis using s(1) t(1) by (auto simp: add.assoc)
qed

end
