(* ===== verification/Rbtree.thy ===== *)
theory Rbtree
  imports Node_Allocator
begin

text \<open>
  \<^verbatim>\<open>src/src/container/detail/rbtree.h\<close>: the red-black tree behind \<^verbatim>\<open>fixed_set\<close>, \<^verbatim>\<open>fixed_map\<close>, \<^verbatim>\<open>shm_set\<close> and \<^verbatim>\<open>shm_map\<close>, with parent pointers and a sentinel whose
  parent is the root and whose left and right are the first and the last node. A pointer is an option, null is \<open>None\<close>; reading through a null
  pointer or a freed node gives \<open>None\<close>. The reference \<^verbatim>\<open>root\<close> of the source is the field \<open>parent\<close> of the sentinel.
\<close>

section \<open>Nodes\<close>

record 'p rb_node =
  right :: "'p option"
  left :: "'p option"
  parent :: "'p option"
  red :: bool

type_synonym 'p rb_heap = "'p \<Rightarrow> 'p rb_node option"

definition rd :: "'p rb_heap \<Rightarrow> 'p option \<Rightarrow> ('p rb_node \<Rightarrow> 'a) \<Rightarrow> 'a option" where
  "rd h n f = do { a \<leftarrow> n; x \<leftarrow> h a; Some (f x) }"

definition wr :: "'p rb_heap \<Rightarrow> 'p option \<Rightarrow> ('p rb_node \<Rightarrow> 'p rb_node) \<Rightarrow> 'p rb_heap option" where
  "wr h n g = do { a \<leftarrow> n; x \<leftarrow> h a; Some (h(a := Some (g x))) }"

section \<open>rbtree_algorithm\<close>

definition is_red :: "'p rb_heap \<Rightarrow> 'p option \<Rightarrow> bool option" where
  "is_red h n = (if n \<noteq> None then rd h n red else Some False)"

definition is_left_child :: "'p rb_heap \<Rightarrow> 'p option \<Rightarrow> bool option" where
  "is_left_child h n = do { p \<leftarrow> rd h n parent; l \<leftarrow> rd h p left; Some (n = l) }"

partial_function (option) black_count :: "'p rb_heap \<Rightarrow> 'p option \<Rightarrow> 'p option \<Rightarrow> nat \<Rightarrow> nat option" where
  "black_count h t b count = (if b \<noteq> None then do {
       r \<leftarrow> is_red h b;
       let count = (if \<not> r then count + 1 else count);
       if b = t then Some count else do { b \<leftarrow> rd h b parent; black_count h t b count }
     } else Some count)"

definition rotate_left :: "'p rb_heap \<Rightarrow> 'p option \<Rightarrow> 'p option \<Rightarrow> 'p rb_heap option" where
  "rotate_left h n s = do {
     p \<leftarrow> rd h n parent;
     r \<leftarrow> rd h n right;
     rl \<leftarrow> rd h r left;
     h \<leftarrow> wr h n (\<lambda>x. x\<lparr>right := rl\<rparr>);
     h \<leftarrow> (if rl \<noteq> None then wr h rl (\<lambda>x. x\<lparr>parent := n\<rparr>) else Some h);
     h \<leftarrow> wr h r (\<lambda>x. x\<lparr>parent := p\<rparr>);
     root \<leftarrow> rd h s parent;
     h \<leftarrow> (if n = root then wr h s (\<lambda>x. x\<lparr>parent := r\<rparr>)
       else do { b \<leftarrow> is_left_child h n; if b then wr h p (\<lambda>x. x\<lparr>left := r\<rparr>) else wr h p (\<lambda>x. x\<lparr>right := r\<rparr>) });
     h \<leftarrow> wr h r (\<lambda>x. x\<lparr>left := n\<rparr>);
     wr h n (\<lambda>x. x\<lparr>parent := r\<rparr>)
   }"

definition rotate_right :: "'p rb_heap \<Rightarrow> 'p option \<Rightarrow> 'p option \<Rightarrow> 'p rb_heap option" where
  "rotate_right h n s = do {
     p \<leftarrow> rd h n parent;
     l \<leftarrow> rd h n left;
     lr \<leftarrow> rd h l right;
     h \<leftarrow> wr h n (\<lambda>x. x\<lparr>left := lr\<rparr>);
     h \<leftarrow> (if lr \<noteq> None then wr h lr (\<lambda>x. x\<lparr>parent := n\<rparr>) else Some h);
     h \<leftarrow> wr h l (\<lambda>x. x\<lparr>parent := p\<rparr>);
     root \<leftarrow> rd h s parent;
     h \<leftarrow> (if n = root then wr h s (\<lambda>x. x\<lparr>parent := l\<rparr>)
       else do { b \<leftarrow> is_left_child h n; if \<not> b then wr h p (\<lambda>x. x\<lparr>right := l\<rparr>) else wr h p (\<lambda>x. x\<lparr>left := l\<rparr>) });
     h \<leftarrow> wr h l (\<lambda>x. x\<lparr>right := n\<rparr>);
     wr h n (\<lambda>x. x\<lparr>parent := l\<rparr>)
   }"

partial_function (option) min_child :: "'p rb_heap \<Rightarrow> 'p option \<Rightarrow> 'p option option" where
  "min_child h n = do { l \<leftarrow> rd h n left; if l \<noteq> None then min_child h l else Some n }"

partial_function (option) max_child :: "'p rb_heap \<Rightarrow> 'p option \<Rightarrow> 'p option option" where
  "max_child h n = do { r \<leftarrow> rd h n right; if r \<noteq> None then max_child h r else Some n }"

partial_function (option) climb_right :: "'p rb_heap \<Rightarrow> 'p option \<Rightarrow> 'p option \<Rightarrow> ('p option \<times> 'p option) option" where
  "climb_right h n p = do { r \<leftarrow> rd h p right; if n = r then do { p' \<leftarrow> rd h p parent; climb_right h p p' } else Some (n, p) }"

definition increment :: "'p rb_heap \<Rightarrow> 'p option \<Rightarrow> 'p option option" where
  "increment h n = do {
     r \<leftarrow> rd h n right;
     if r \<noteq> None then min_child h r
     else do {
       p \<leftarrow> rd h n parent;
       (n, p) \<leftarrow> climb_right h n p;
       r \<leftarrow> rd h n right;
       Some (if r \<noteq> p then p else n)
     }
   }"

partial_function (option) climb_left :: "'p rb_heap \<Rightarrow> 'p option \<Rightarrow> 'p option \<Rightarrow> 'p option option" where
  "climb_left h n p = do { l \<leftarrow> rd h p left; if n = l then do { p' \<leftarrow> rd h p parent; climb_left h p p' } else Some p }"

definition decrement :: "'p rb_heap \<Rightarrow> 'p option \<Rightarrow> 'p option option" where
  "decrement h n = do {
     p \<leftarrow> rd h n parent;
     pp \<leftarrow> rd h p parent;
     b \<leftarrow> is_red h n;
     if pp = n \<and> b then rd h n right
     else do {
       l \<leftarrow> rd h n left;
       if l \<noteq> None then max_child h l
       else do { p \<leftarrow> rd h n parent; climb_left h n p }
     }
   }"

text \<open>One turn of the loop of \<^verbatim>\<open>insert\<close> when the parent is a left child, and when it is a right child: the new \<^verbatim>\<open>n\<close>.\<close>

definition insert_turn_left :: "'p rb_heap \<Rightarrow> 'p option \<Rightarrow> 'p option \<Rightarrow> 'p option \<Rightarrow> ('p option \<times> 'p rb_heap) option" where
  "insert_turn_left h n pp s = do {
     r \<leftarrow> rd h pp right;
     b \<leftarrow> is_red h r;
     if r \<noteq> None \<and> b then do {
       p \<leftarrow> rd h n parent;
       h \<leftarrow> wr h p (\<lambda>x. x\<lparr>red := False\<rparr>);
       h \<leftarrow> wr h r (\<lambda>x. x\<lparr>red := False\<rparr>);
       h \<leftarrow> wr h pp (\<lambda>x. x\<lparr>red := True\<rparr>);
       Some (pp, h)
     } else do {
       p \<leftarrow> rd h n parent;
       lc \<leftarrow> is_left_child h n;
       (n, h) \<leftarrow> (if p \<noteq> None \<and> \<not> lc then do { n \<leftarrow> rd h n parent; h \<leftarrow> rotate_left h n s; Some (n, h) } else Some (n, h));
       p \<leftarrow> rd h n parent;
       h \<leftarrow> wr h p (\<lambda>x. x\<lparr>red := False\<rparr>);
       h \<leftarrow> wr h pp (\<lambda>x. x\<lparr>red := True\<rparr>);
       h \<leftarrow> rotate_right h pp s;
       Some (n, h)
     }
   }"

definition insert_turn_right :: "'p rb_heap \<Rightarrow> 'p option \<Rightarrow> 'p option \<Rightarrow> 'p option \<Rightarrow> ('p option \<times> 'p rb_heap) option" where
  "insert_turn_right h n pp s = do {
     l \<leftarrow> rd h pp left;
     b \<leftarrow> is_red h l;
     if l \<noteq> None \<and> b then do {
       p \<leftarrow> rd h n parent;
       h \<leftarrow> wr h p (\<lambda>x. x\<lparr>red := False\<rparr>);
       h \<leftarrow> wr h l (\<lambda>x. x\<lparr>red := False\<rparr>);
       h \<leftarrow> wr h pp (\<lambda>x. x\<lparr>red := True\<rparr>);
       Some (pp, h)
     } else do {
       lc \<leftarrow> is_left_child h n;
       (n, h) \<leftarrow> (if lc then do { n \<leftarrow> rd h n parent; h \<leftarrow> rotate_right h n s; Some (n, h) } else Some (n, h));
       p \<leftarrow> rd h n parent;
       h \<leftarrow> wr h p (\<lambda>x. x\<lparr>red := False\<rparr>);
       h \<leftarrow> wr h pp (\<lambda>x. x\<lparr>red := True\<rparr>);
       h \<leftarrow> rotate_left h pp s;
       Some (n, h)
     }
   }"

partial_function (option) insert_fix :: "'p rb_heap \<Rightarrow> 'p option \<Rightarrow> 'p option \<Rightarrow> 'p rb_heap option" where
  "insert_fix h n s = do {
     root \<leftarrow> rd h s parent;
     if n = root then Some h
     else do {
       p \<leftarrow> rd h n parent;
       b \<leftarrow> is_red h p;
       if \<not> b then Some h
       else do {
         pp \<leftarrow> rd h p parent;
         l \<leftarrow> rd h pp left;
         (n, h) \<leftarrow> (if p = l then insert_turn_left h n pp s else insert_turn_right h n pp s);
         insert_fix h n s
       }
     }
   }"

definition rb_link :: "'p rb_heap \<Rightarrow> 'p option \<Rightarrow> 'p option \<Rightarrow> 'p option \<Rightarrow> bool \<Rightarrow> 'p rb_heap option" where
  "rb_link h n p s insert_left = do {
     h \<leftarrow> wr h n (\<lambda>x. x\<lparr>parent := p\<rparr>);
     h \<leftarrow> wr h n (\<lambda>x. x\<lparr>right := None\<rparr>);
     h \<leftarrow> wr h n (\<lambda>x. x\<lparr>left := None\<rparr>);
     h \<leftarrow> wr h n (\<lambda>x. x\<lparr>red := True\<rparr>);
     if insert_left then do {
       h \<leftarrow> wr h p (\<lambda>x. x\<lparr>left := n\<rparr>);
       if p = s then do { h \<leftarrow> wr h s (\<lambda>x. x\<lparr>parent := n\<rparr>); wr h s (\<lambda>x. x\<lparr>right := n\<rparr>) }
       else do { l \<leftarrow> rd h s left; if p = l then wr h s (\<lambda>x. x\<lparr>left := n\<rparr>) else Some h }
     } else do {
       h \<leftarrow> wr h p (\<lambda>x. x\<lparr>right := n\<rparr>);
       r \<leftarrow> rd h s right;
       if p = r then wr h s (\<lambda>x. x\<lparr>right := n\<rparr>) else Some h
     }
   }"

definition rb_insert :: "'p rb_heap \<Rightarrow> 'p option \<Rightarrow> 'p option \<Rightarrow> 'p option \<Rightarrow> bool \<Rightarrow> 'p rb_heap option" where
  "rb_insert h n p s insert_left = do {
     h \<leftarrow> rb_link h n p s insert_left;
     h \<leftarrow> insert_fix h n s;
     root \<leftarrow> rd h s parent;
     wr h root (\<lambda>x. x\<lparr>red := False\<rparr>)
   }"

text \<open>The first half of \<^verbatim>\<open>erase\<close>: \<^verbatim>\<open>n\<close> leaves the tree; the result is \<^verbatim>\<open>c\<close>, the node that took the place of the node removed from its place, and \<^verbatim>\<open>p\<close>, its parent.\<close>

definition erase_ends :: "'p rb_heap \<Rightarrow> 'p option \<Rightarrow> 'p option \<Rightarrow> 'p option \<Rightarrow> 'p rb_heap option" where
  "erase_ends h n c s = do {
     leftmost \<leftarrow> rd h s left;
     h \<leftarrow> (if n = leftmost then do {
         r \<leftarrow> rd h n right;
         if r \<noteq> None then do { sk_assert (c \<noteq> None); m \<leftarrow> min_child h c; wr h s (\<lambda>x. x\<lparr>left := m\<rparr>) }
         else do { q \<leftarrow> rd h n parent; wr h s (\<lambda>x. x\<lparr>left := q\<rparr>) }
       } else Some h);
     rightmost \<leftarrow> rd h s right;
     if n = rightmost then do {
         l \<leftarrow> rd h n left;
         if l \<noteq> None then do { sk_assert (c \<noteq> None); m \<leftarrow> max_child h c; wr h s (\<lambda>x. x\<lparr>right := m\<rparr>) }
         else do { q \<leftarrow> rd h n parent; wr h s (\<lambda>x. x\<lparr>right := q\<rparr>) }
       } else Some h
   }"

definition erase_splice :: "'p rb_heap \<Rightarrow> 'p option \<Rightarrow> 'p option \<Rightarrow> 'p option \<Rightarrow> ('p option \<times> 'p rb_heap) option" where
  "erase_splice h n c s = do {
     p \<leftarrow> rd h n parent;
     h \<leftarrow> (if c \<noteq> None then wr h c (\<lambda>x. x\<lparr>parent := p\<rparr>) else Some h);
     root \<leftarrow> rd h s parent;
     h \<leftarrow> (if n = root then wr h s (\<lambda>x. x\<lparr>parent := c\<rparr>)
       else do {
         lc \<leftarrow> is_left_child h n;
         q \<leftarrow> rd h n parent;
         if lc then wr h q (\<lambda>x. x\<lparr>left := c\<rparr>) else wr h q (\<lambda>x. x\<lparr>right := c\<rparr>)
       });
     Some (p, h)
   }"

definition erase_one_child :: "'p rb_heap \<Rightarrow> 'p option \<Rightarrow> 'p option \<Rightarrow> 'p option \<Rightarrow> ('p option \<times> 'p rb_heap) option" where
  "erase_one_child h n c s = do {
     (p, h) \<leftarrow> erase_splice h n c s;
     h \<leftarrow> erase_ends h n c s;
     Some (p, h)
   }"

definition erase_replace :: "'p rb_heap \<Rightarrow> 'p option \<Rightarrow> 'p option \<Rightarrow> 'p option \<Rightarrow> 'p rb_heap option" where
  "erase_replace h n x s = do {
     root \<leftarrow> rd h s parent;
     np \<leftarrow> rd h n parent;
     h \<leftarrow> (if n = root then wr h s (\<lambda>y. y\<lparr>parent := x\<rparr>)
       else do { lc \<leftarrow> is_left_child h n; if lc then wr h np (\<lambda>y. y\<lparr>left := x\<rparr>) else wr h np (\<lambda>y. y\<lparr>right := x\<rparr>) });
     h \<leftarrow> wr h x (\<lambda>y. y\<lparr>parent := np\<rparr>);
     cx \<leftarrow> rd h x red;
     cn \<leftarrow> rd h n red;
     h \<leftarrow> wr h x (\<lambda>y. y\<lparr>red := cn\<rparr>);
     wr h n (\<lambda>y. y\<lparr>red := cx\<rparr>)
   }"

definition erase_two_children :: "'p rb_heap \<Rightarrow> 'p option \<Rightarrow> 'p option \<Rightarrow> 'p option \<Rightarrow> 'p option \<Rightarrow> ('p option \<times> 'p rb_heap) option" where
  "erase_two_children h n x c s = do {
     nl \<leftarrow> rd h n left;
     h \<leftarrow> wr h nl (\<lambda>y. y\<lparr>parent := x\<rparr>);
     h \<leftarrow> wr h x (\<lambda>y. y\<lparr>left := nl\<rparr>);
     nr \<leftarrow> rd h n right;
     (p, h) \<leftarrow> (if x = nr then Some (x, h)
       else do {
         p \<leftarrow> rd h x parent;
         h \<leftarrow> (if c \<noteq> None then wr h c (\<lambda>y. y\<lparr>parent := p\<rparr>) else Some h);
         h \<leftarrow> wr h p (\<lambda>y. y\<lparr>left := c\<rparr>);
         h \<leftarrow> wr h x (\<lambda>y. y\<lparr>right := nr\<rparr>);
         h \<leftarrow> wr h nr (\<lambda>y. y\<lparr>parent := x\<rparr>);
         Some (p, h)
       });
     h \<leftarrow> erase_replace h n x s;
     Some (p, h)
   }"

definition erase_unlink :: "'p rb_heap \<Rightarrow> 'p option \<Rightarrow> 'p option \<Rightarrow> ('p option \<times> 'p option \<times> 'p rb_heap) option" where
  "erase_unlink h n s = do {
     l \<leftarrow> rd h n left;
     r \<leftarrow> rd h n right;
     (x, c) \<leftarrow> (if l = None then Some (n, r)
       else if r = None then Some (n, l)
       else do { x \<leftarrow> min_child h r; c \<leftarrow> rd h x right; Some (x, c) });
     (p, h) \<leftarrow> (if x = n then erase_one_child h n c s else erase_two_children h n x c s);
     Some (c, p, h)
   }"

text \<open>
  One turn of the loop of \<^verbatim>\<open>erase\<close> when \<^verbatim>\<open>c\<close> is a left child, and when it is a right child. The result is the next \<^verbatim>\<open>c\<close> and \<^verbatim>\<open>p\<close>, or \<open>None\<close> when the source
  leaves the loop.
\<close>

definition erase_black_left :: "'p rb_heap \<Rightarrow> 'p option \<Rightarrow> 'p option \<Rightarrow> 'p option \<Rightarrow> (('p option \<times> 'p option) option \<times> 'p rb_heap) option" where
  "erase_black_left h p r s = do {
     rl \<leftarrow> rd h r left;
     rr \<leftarrow> rd h r right;
     bl \<leftarrow> is_red h rl;
     br \<leftarrow> is_red h rr;
     if \<not> bl \<and> \<not> br then do {
       h \<leftarrow> wr h r (\<lambda>x. x\<lparr>red := True\<rparr>);
       pp \<leftarrow> rd h p parent;
       Some (Some (p, pp), h)
     } else do {
       (r, h) \<leftarrow> (if \<not> br then do {
           h \<leftarrow> wr h rl (\<lambda>x. x\<lparr>red := False\<rparr>);
           h \<leftarrow> wr h r (\<lambda>x. x\<lparr>red := True\<rparr>);
           h \<leftarrow> rotate_right h r s;
           r \<leftarrow> rd h p right;
           Some (r, h)
         } else Some (r, h));
       pc \<leftarrow> rd h p red;
       h \<leftarrow> wr h r (\<lambda>x. x\<lparr>red := pc\<rparr>);
       h \<leftarrow> wr h p (\<lambda>x. x\<lparr>red := False\<rparr>);
       rr \<leftarrow> rd h r right;
       h \<leftarrow> (if rr \<noteq> None then wr h rr (\<lambda>x. x\<lparr>red := False\<rparr>) else Some h);
       h \<leftarrow> rotate_left h p s;
       Some (None, h)
     }
   }"

definition erase_turn_left :: "'p rb_heap \<Rightarrow> 'p option \<Rightarrow> 'p option \<Rightarrow> (('p option \<times> 'p option) option \<times> 'p rb_heap) option" where
  "erase_turn_left h p s = do {
     r \<leftarrow> rd h p right;
     b \<leftarrow> is_red h r;
     (r, h) \<leftarrow> (if b then do {
         h \<leftarrow> wr h r (\<lambda>x. x\<lparr>red := False\<rparr>);
         h \<leftarrow> wr h p (\<lambda>x. x\<lparr>red := True\<rparr>);
         h \<leftarrow> rotate_left h p s;
         r \<leftarrow> rd h p right;
         Some (r, h)
       } else Some (r, h));
     erase_black_left h p r s
   }"

definition erase_black_right :: "'p rb_heap \<Rightarrow> 'p option \<Rightarrow> 'p option \<Rightarrow> 'p option \<Rightarrow> (('p option \<times> 'p option) option \<times> 'p rb_heap) option" where
  "erase_black_right h p l s = do {
     lr \<leftarrow> rd h l right;
     ll \<leftarrow> rd h l left;
     br \<leftarrow> is_red h lr;
     bl \<leftarrow> is_red h ll;
     if \<not> br \<and> \<not> bl then do {
       h \<leftarrow> wr h l (\<lambda>x. x\<lparr>red := True\<rparr>);
       pp \<leftarrow> rd h p parent;
       Some (Some (p, pp), h)
     } else do {
       (l, h) \<leftarrow> (if \<not> bl then do {
           h \<leftarrow> wr h lr (\<lambda>x. x\<lparr>red := False\<rparr>);
           h \<leftarrow> wr h l (\<lambda>x. x\<lparr>red := True\<rparr>);
           h \<leftarrow> rotate_left h l s;
           l \<leftarrow> rd h p left;
           Some (l, h)
         } else Some (l, h));
       pc \<leftarrow> rd h p red;
       h \<leftarrow> wr h l (\<lambda>x. x\<lparr>red := pc\<rparr>);
       h \<leftarrow> wr h p (\<lambda>x. x\<lparr>red := False\<rparr>);
       ll \<leftarrow> rd h l left;
       h \<leftarrow> (if ll \<noteq> None then wr h ll (\<lambda>x. x\<lparr>red := False\<rparr>) else Some h);
       h \<leftarrow> rotate_right h p s;
       Some (None, h)
     }
   }"

definition erase_turn_right :: "'p rb_heap \<Rightarrow> 'p option \<Rightarrow> 'p option \<Rightarrow> (('p option \<times> 'p option) option \<times> 'p rb_heap) option" where
  "erase_turn_right h p s = do {
     l \<leftarrow> rd h p left;
     b \<leftarrow> is_red h l;
     (l, h) \<leftarrow> (if b then do {
         h \<leftarrow> wr h l (\<lambda>x. x\<lparr>red := False\<rparr>);
         h \<leftarrow> wr h p (\<lambda>x. x\<lparr>red := True\<rparr>);
         h \<leftarrow> rotate_right h p s;
         l \<leftarrow> rd h p left;
         Some (l, h)
       } else Some (l, h));
     erase_black_right h p l s
   }"

text \<open>The loop; the result is the last \<^verbatim>\<open>c\<close>.\<close>

partial_function (option) erase_fix :: "'p rb_heap \<Rightarrow> 'p option \<Rightarrow> 'p option \<Rightarrow> 'p option \<Rightarrow> ('p option \<times> 'p rb_heap) option" where
  "erase_fix h c p s = do {
     root \<leftarrow> rd h s parent;
     b \<leftarrow> is_red h c;
     if c \<noteq> root \<and> \<not> b then do {
       l \<leftarrow> rd h p left;
       (nxt, h) \<leftarrow> (if c = l then erase_turn_left h p s else erase_turn_right h p s);
       case nxt of None \<Rightarrow> Some (c, h) | Some (c, p) \<Rightarrow> erase_fix h c p s
     } else Some (c, h)
   }"

definition rb_erase :: "'p rb_heap \<Rightarrow> 'p option \<Rightarrow> 'p option \<Rightarrow> 'p rb_heap option" where
  "rb_erase h n s = do {
     (c, p, h) \<leftarrow> erase_unlink h n s;
     b \<leftarrow> is_red h n;
     if \<not> b then do {
       (c, h) \<leftarrow> erase_fix h c p s;
       if c \<noteq> None then wr h c (\<lambda>x. x\<lparr>red := False\<rparr>) else Some h
     } else Some h
   }"

section \<open>The class rbtree\<close>

text \<open>\<open>cmp\<close> is the template parameter \<^verbatim>\<open>Compare\<close>, \<open>key\<close> is \<^verbatim>\<open>Extractor\<close>.\<close>

record ('s, 'p, 'v) rbtree =
  rb_alloc :: 's
  rnodes :: "'p rb_heap"
  rvals :: "'p \<Rightarrow> 'v option"
  rb_sentinel :: 'p

definition rb_value :: "('s, 'p, 'v) rbtree \<Rightarrow> 'p option \<Rightarrow> 'v option" where
  "rb_value m node = do { sk_assert (node \<noteq> Some (rb_sentinel m)); a \<leftarrow> node; rvals m a }"

definition reset_sentinel :: "('s, 'p, 'v) rbtree \<Rightarrow> ('s, 'p, 'v) rbtree" where
  "reset_sentinel m = (let s = rb_sentinel m in
     m\<lparr>rnodes := (rnodes m)(s := Some \<lparr>right = Some s, left = Some s, parent = None, red = True\<rparr>)\<rparr>)"

definition rbtree_new :: "'s \<Rightarrow> 'p \<Rightarrow> ('s, 'p, 'v) rbtree" where
  "rbtree_new st s = reset_sentinel \<lparr>rb_alloc = st, rnodes = (\<lambda>_. None), rvals = (\<lambda>_. None), rb_sentinel = s\<rparr>"

text \<open>The constructor of a node leaves the fields of its base unset; \<open>rb_insert\<close> sets all of them.\<close>

definition rb_construct :: "('s, 'p) allocator \<Rightarrow> ('s, 'p, 'v) rbtree \<Rightarrow> 'v \<Rightarrow> ('p option \<times> ('s, 'p, 'v) rbtree) option" where
  "rb_construct A m v = do {
     (node, st) \<leftarrow> al_allocate A (rb_alloc m);
     let m = m\<lparr>rb_alloc := st\<rparr>;
     case node of
       None \<Rightarrow> Some (None, m)
     | Some a \<Rightarrow> Some (Some a, m\<lparr>rnodes := (rnodes m)(a := Some \<lparr>right = None, left = None, parent = None, red = False\<rparr>), rvals := (rvals m)(a := Some v)\<rparr>)
   }"

definition rb_destruct :: "('s, 'p) allocator \<Rightarrow> ('s, 'p, 'v) rbtree \<Rightarrow> 'p option \<Rightarrow> ('s, 'p, 'v) rbtree option" where
  "rb_destruct A m node = do {
     sk_assert (node \<noteq> Some (rb_sentinel m));
     a \<leftarrow> node;
     _ \<leftarrow> rnodes m a;
     _ \<leftarrow> rvals m a;
     let m = m\<lparr>rnodes := (rnodes m)(a := None), rvals := (rvals m)(a := None)\<rparr>;
     st \<leftarrow> al_deallocate A (rb_alloc m) a;
     Some (m\<lparr>rb_alloc := st\<rparr>)
   }"

partial_function (option) search_loop :: "('k \<Rightarrow> 'k \<Rightarrow> bool) \<Rightarrow> ('v \<Rightarrow> 'k) \<Rightarrow> ('s, 'p, 'v) rbtree \<Rightarrow> 'k \<Rightarrow> 'p option \<Rightarrow> 'p option \<Rightarrow> bool \<Rightarrow> ('p option \<times> bool) option" where
  "search_loop cmp key m k n l lt = (if n \<noteq> None then do {
       v \<leftarrow> rb_value m n;
       let lt = cmp k (key v);
       if lt then do { sk_assert (\<not> cmp (key v) k); n' \<leftarrow> rd (rnodes m) n left; search_loop cmp key m k n' n lt }
       else do { n' \<leftarrow> rd (rnodes m) n right; search_loop cmp key m k n' n lt }
     } else Some (l, lt))"

text \<open>The position and the flag \<^verbatim>\<open>exists\<close>.\<close>

definition search_position :: "('k \<Rightarrow> 'k \<Rightarrow> bool) \<Rightarrow> ('v \<Rightarrow> 'k) \<Rightarrow> ('s, 'p, 'v) rbtree \<Rightarrow> 'k \<Rightarrow> ('p option \<times> bool) option" where
  "search_position cmp key m k = do {
     let s = Some (rb_sentinel m);
     root \<leftarrow> rd (rnodes m) s parent;
     (p, lt) \<leftarrow> search_loop cmp key m k root s True;
     leftmost \<leftarrow> rd (rnodes m) s left;
     if lt \<and> p = leftmost then Some (p, False)
     else do {
       l \<leftarrow> (if lt then decrement (rnodes m) p else Some p);
       v \<leftarrow> rb_value m l;
       if cmp (key v) k then do { sk_assert (\<not> cmp k (key v)); Some (p, False) } else Some (l, True)
     }
   }"

partial_function (option) find_loop :: "('k \<Rightarrow> 'k \<Rightarrow> bool) \<Rightarrow> ('v \<Rightarrow> 'k) \<Rightarrow> ('s, 'p, 'v) rbtree \<Rightarrow> 'k \<Rightarrow> 'p option \<Rightarrow> 'p option \<Rightarrow> 'p option option" where
  "find_loop cmp key m k n e = (if n \<noteq> None then do {
       v \<leftarrow> rb_value m n;
       if \<not> cmp (key v) k then do { n' \<leftarrow> rd (rnodes m) n left; find_loop cmp key m k n' n }
       else do { sk_assert (\<not> cmp k (key v)); n' \<leftarrow> rd (rnodes m) n right; find_loop cmp key m k n' e }
     } else Some e)"

definition rb_find :: "('k \<Rightarrow> 'k \<Rightarrow> bool) \<Rightarrow> ('v \<Rightarrow> 'k) \<Rightarrow> ('s, 'p, 'v) rbtree \<Rightarrow> 'k \<Rightarrow> 'p option option" where
  "rb_find cmp key m k = do {
     let s = Some (rb_sentinel m);
     root \<leftarrow> rd (rnodes m) s parent;
     e \<leftarrow> find_loop cmp key m k root s;
     if e \<noteq> s then do { v \<leftarrow> rb_value m e; Some (if \<not> cmp k (key v) then e else s) } else Some s
   }"

text \<open>The checks of \<^verbatim>\<open>verify_properties\<close> for one node: the order of its children, the colours, the number of black nodes above a leaf.\<close>

definition verify_child :: "('k \<Rightarrow> 'k \<Rightarrow> bool) \<Rightarrow> ('v \<Rightarrow> 'k) \<Rightarrow> ('s, 'p, 'v) rbtree \<Rightarrow> 'p option \<Rightarrow> 'p option \<Rightarrow> unit option" where
  "verify_child cmp key m a b = do {
     x \<leftarrow> rb_value m a;
     y \<leftarrow> rb_value m b;
     sk_assert (\<not> cmp (key x) (key y) \<or> \<not> cmp (key y) (key x));
     sk_assert (\<not> cmp (key x) (key y))
   }"

definition verify_node :: "('k \<Rightarrow> 'k \<Rightarrow> bool) \<Rightarrow> ('v \<Rightarrow> 'k) \<Rightarrow> ('s, 'p, 'v) rbtree \<Rightarrow> 'p option \<Rightarrow> nat \<Rightarrow> 'p option \<Rightarrow> unit option" where
  "verify_node cmp key m root bc n = do {
     let h = rnodes m;
     l \<leftarrow> rd h n left;
     r \<leftarrow> rd h n right;
     _ \<leftarrow> (if r \<noteq> None then verify_child cmp key m r n else Some ());
     _ \<leftarrow> (if l \<noteq> None then verify_child cmp key m n l else Some ());
     b \<leftarrow> is_red h n;
     _ \<leftarrow> (if b then do { bl \<leftarrow> is_red h l; sk_assert (\<not> bl); br \<leftarrow> is_red h r; sk_assert (\<not> br) } else Some ());
     if r = None \<and> l = None then do { c \<leftarrow> black_count h root n 0; sk_assert (c = bc) } else Some ()
   }"

partial_function (option) verify_loop :: "('k \<Rightarrow> 'k \<Rightarrow> bool) \<Rightarrow> ('v \<Rightarrow> 'k) \<Rightarrow> ('s, 'p, 'v) rbtree \<Rightarrow> 'p option \<Rightarrow> nat \<Rightarrow> 'p option \<Rightarrow> nat \<Rightarrow> nat option" where
  "verify_loop cmp key m root bc it count = (if it \<noteq> Some (rb_sentinel m) then do {
       _ \<leftarrow> verify_node cmp key m root bc it;
       it \<leftarrow> increment (rnodes m) it;
       verify_loop cmp key m root bc it (count + 1)
     } else Some count)"

definition verify_properties :: "('s, 'p) allocator \<Rightarrow> ('k \<Rightarrow> 'k \<Rightarrow> bool) \<Rightarrow> ('v \<Rightarrow> 'k) \<Rightarrow> ('s, 'p, 'v) rbtree \<Rightarrow> unit option" where
  "verify_properties A cmp key m = do {
     let h = rnodes m;
     let s = Some (rb_sentinel m);
     root \<leftarrow> rd h s parent;
     leftmost \<leftarrow> rd h s left;
     rightmost \<leftarrow> rd h s right;
     b \<leftarrow> is_red h root;
     sk_assert (\<not> b);
     if al_empty A (rb_alloc m) then do {
       sk_assert (al_size A (rb_alloc m) \<le> 0);
       sk_assert (leftmost = s \<and> rightmost = s)
     } else do {
       sk_assert (root \<noteq> None);
       mn \<leftarrow> min_child h root;
       sk_assert (leftmost = mn);
       mx \<leftarrow> max_child h root;
       sk_assert (rightmost = mx);
       bc \<leftarrow> black_count h root leftmost 0;
       count \<leftarrow> verify_loop cmp key m root bc leftmost 0;
       sk_assert (count = al_size A (rb_alloc m))
     }
   }"

definition insert_child :: "('s, 'p) allocator \<Rightarrow> ('k \<Rightarrow> 'k \<Rightarrow> bool) \<Rightarrow> ('v \<Rightarrow> 'k) \<Rightarrow> ('s, 'p, 'v) rbtree \<Rightarrow> 'p option \<Rightarrow> 'k \<Rightarrow> 'p option \<Rightarrow> ('s, 'p, 'v) rbtree option" where
  "insert_child A cmp key m par k node = do {
     let s = Some (rb_sentinel m);
     insert_left \<leftarrow> (if par \<noteq> s then do { v \<leftarrow> rb_value m par; Some (cmp k (key v)) } else Some True);
     h \<leftarrow> rb_insert (rnodes m) node par s insert_left;
     let m = m\<lparr>rnodes := h\<rparr>;
     _ \<leftarrow> verify_properties A cmp key m;
     Some m
   }"

definition erase_node :: "('s, 'p) allocator \<Rightarrow> ('k \<Rightarrow> 'k \<Rightarrow> bool) \<Rightarrow> ('v \<Rightarrow> 'k) \<Rightarrow> ('s, 'p, 'v) rbtree \<Rightarrow> 'p option \<Rightarrow> ('s, 'p, 'v) rbtree option" where
  "erase_node A cmp key m node = do {
     h \<leftarrow> rb_erase (rnodes m) node (Some (rb_sentinel m));
     m \<leftarrow> rb_destruct A (m\<lparr>rnodes := h\<rparr>) node;
     _ \<leftarrow> verify_properties A cmp key m;
     Some m
   }"

definition rbtree_insert :: "('s, 'p) allocator \<Rightarrow> ('k \<Rightarrow> 'k \<Rightarrow> bool) \<Rightarrow> ('v \<Rightarrow> 'k) \<Rightarrow> ('s, 'p, 'v) rbtree \<Rightarrow> 'v \<Rightarrow> (int \<times> ('s, 'p, 'v) rbtree) option" where
  "rbtree_insert A cmp key m v = do {
     let k = key v;
     (pos, exists) \<leftarrow> search_position cmp key m k;
     if exists then Some (0, m)
     else if al_full A (rb_alloc m) then Some (- ENOMEM, m)
     else do {
       (node, m) \<leftarrow> rb_construct A m v;
       if node = None then Some (- ENOMEM, m)
       else do { m \<leftarrow> insert_child A cmp key m pos k node; Some (0, m) }
     }
   }"

text \<open>\<^verbatim>\<open>emplace\<close> returns the address of the value with the key, or null.\<close>

definition rbtree_emplace :: "('s, 'p) allocator \<Rightarrow> ('k \<Rightarrow> 'k \<Rightarrow> bool) \<Rightarrow> ('v \<Rightarrow> 'k) \<Rightarrow> ('s, 'p, 'v) rbtree \<Rightarrow> 'v \<Rightarrow> ('p option \<times> ('s, 'p, 'v) rbtree) option" where
  "rbtree_emplace A cmp key m v = do {
     let k = key v;
     (pos, exists) \<leftarrow> search_position cmp key m k;
     if exists then do { _ \<leftarrow> rb_value m pos; Some (pos, m) }
     else if al_full A (rb_alloc m) then Some (None, m)
     else do {
       (node, m) \<leftarrow> rb_construct A m v;
       if node = None then Some (None, m)
       else do { m \<leftarrow> insert_child A cmp key m pos k node; _ \<leftarrow> rb_value m node; Some (node, m) }
     }
   }"

definition rbtree_erase_at :: "('s, 'p) allocator \<Rightarrow> ('k \<Rightarrow> 'k \<Rightarrow> bool) \<Rightarrow> ('v \<Rightarrow> 'k) \<Rightarrow> ('s, 'p, 'v) rbtree \<Rightarrow> 'p option \<Rightarrow> ('s, 'p, 'v) rbtree option" where
  "rbtree_erase_at A cmp key m it = (if it = Some (rb_sentinel m) then Some m else erase_node A cmp key m it)"

definition rbtree_erase :: "('s, 'p) allocator \<Rightarrow> ('k \<Rightarrow> 'k \<Rightarrow> bool) \<Rightarrow> ('v \<Rightarrow> 'k) \<Rightarrow> ('s, 'p, 'v) rbtree \<Rightarrow> 'k \<Rightarrow> ('s, 'p, 'v) rbtree option" where
  "rbtree_erase A cmp key m k = do {
     it \<leftarrow> rb_find cmp key m k;
     if it = Some (rb_sentinel m) then Some m else erase_node A cmp key m it
   }"

partial_function (option) clear_subtree :: "('s, 'p) allocator \<Rightarrow> ('s, 'p, 'v) rbtree \<Rightarrow> 'p option \<Rightarrow> (nat \<times> ('s, 'p, 'v) rbtree) option" where
  "clear_subtree A m node = (if node = None then Some (0, m) else do {
       ln \<leftarrow> rd (rnodes m) node left;
       (l, m) \<leftarrow> clear_subtree A m ln;
       rn \<leftarrow> rd (rnodes m) node right;
       (r, m) \<leftarrow> clear_subtree A m rn;
       m \<leftarrow> rb_destruct A m node;
       Some (l + r + 1, m)
     })"

definition rbtree_clear :: "('s, 'p) allocator \<Rightarrow> ('s, 'p, 'v) rbtree \<Rightarrow> ('s, 'p, 'v) rbtree option" where
  "rbtree_clear A m = do {
     let total_count = al_size A (rb_alloc m);
     root \<leftarrow> rd (rnodes m) (Some (rb_sentinel m)) parent;
     (clear_count, m) \<leftarrow> clear_subtree A m root;
     sk_assert (total_count = clear_count);
     Some (reset_sentinel m)
   }"

definition rb_begin :: "('s, 'p, 'v) rbtree \<Rightarrow> 'p option option" where
  "rb_begin m = rd (rnodes m) (Some (rb_sentinel m)) left"

end
