(* ===== verification/Rbtree_View.thy ===== *)
theory Rbtree_View
  imports Rbtree
begin

text \<open>
  The nodes of a red-black tree in memory seen as a tree of addresses and colours, and a place in it as a path of frames from the
  place up to the root. The reads, the colour changes and the rotations of \<^verbatim>\<open>rbtree.h\<close> act on such trees.
\<close>

section \<open>Trees, paths\<close>

datatype 'p ptree = Lf | Nd "'p ptree" 'p bool "'p ptree"

text \<open>\<open>LF a c r\<close>: the place is the left child of the node \<open>a\<close> of colour \<open>c\<close> with the right subtree \<open>r\<close>.\<close>

datatype 'p frame = LF 'p bool "'p ptree" | RF "'p ptree" 'p bool

fun addrs :: "'p ptree \<Rightarrow> 'p list" where
  "addrs Lf = []"
| "addrs (Nd l a c r) = addrs l @ a # addrs r"

fun root_ptr :: "'p ptree \<Rightarrow> 'p option" where
  "root_ptr Lf = None"
| "root_ptr (Nd l a c r) = Some a"

fun isred :: "'p ptree \<Rightarrow> bool" where
  "isred Lf = False"
| "isred (Nd l a c r) = c"

fun plug :: "'p ptree \<Rightarrow> 'p frame list \<Rightarrow> 'p ptree" where
  "plug t [] = t"
| "plug t (LF a c r # k) = plug (Nd t a c r) k"
| "plug t (RF l a c # k) = plug (Nd l a c t) k"

fun up :: "'p \<Rightarrow> 'p frame list \<Rightarrow> 'p" where
  "up s [] = s"
| "up s (LF a c r # k) = a"
| "up s (RF l a c # k) = a"

fun lctx :: "'p frame list \<Rightarrow> 'p list" where
  "lctx [] = []"
| "lctx (LF a c r # k) = lctx k"
| "lctx (RF l a c # k) = lctx k @ addrs l @ [a]"

fun rctx :: "'p frame list \<Rightarrow> 'p list" where
  "rctx [] = []"
| "rctx (LF a c r # k) = a # addrs r @ rctx k"
| "rctx (RF l a c # k) = rctx k"

lemma addrs_plug: "addrs (plug t k) = lctx k @ addrs t @ rctx k"
  by (induction t k rule: plug.induct) simp_all

lemma root_plug: "root_ptr t = root_ptr t' \<or> k \<noteq> [] \<Longrightarrow> root_ptr (plug t k) = root_ptr (plug t' k)"
proof (induction k arbitrary: t t')
  case (Cons f k)
  then show ?case by (cases f) auto
qed simp

lemma addrs_root: "root_ptr t = Some a \<Longrightarrow> a \<in> set (addrs t)"
  by (cases t) auto

lemma addrs_Nil [simp]: "addrs t = [] \<longleftrightarrow> t = Lf"
  by (cases t) auto

lemma root_ptr_None [simp]: "root_ptr t = None \<longleftrightarrow> t = Lf" "None = root_ptr t \<longleftrightarrow> t = Lf"
  by (cases t; simp)+

section \<open>Trees in memory\<close>

fun rep :: "'p rb_heap \<Rightarrow> 'p \<Rightarrow> 'p ptree \<Rightarrow> bool" where
  "rep h q Lf = True"
| "rep h q (Nd l a c r) = (h a = Some \<lparr>right = root_ptr r, left = root_ptr l, parent = Some q, red = c\<rparr> \<and> rep h a l \<and> rep h a r)"

fun rep_ctx :: "'p rb_heap \<Rightarrow> 'p \<Rightarrow> 'p option \<Rightarrow> 'p frame list \<Rightarrow> bool" where
  "rep_ctx h s p [] = True"
| "rep_ctx h s p (LF a c r # k) = (h a = Some \<lparr>right = root_ptr r, left = p, parent = Some (up s k), red = c\<rparr> \<and> rep h a r \<and> rep_ctx h s (Some a) k)"
| "rep_ctx h s p (RF l a c # k) = (h a = Some \<lparr>right = p, left = root_ptr l, parent = Some (up s k), red = c\<rparr> \<and> rep h a l \<and> rep_ctx h s (Some a) k)"

lemma rep_plug: "rep h s (plug t k) \<longleftrightarrow> rep h (up s k) t \<and> rep_ctx h s (root_ptr t) k"
  by (induction t k rule: plug.induct) auto

lemma rep_upd [simp]: "a \<notin> set (addrs t) \<Longrightarrow> rep (h(a := x)) q t = rep h q t"
  by (induction t arbitrary: q) auto

lemma rep_ctx_upd [simp]: "a \<notin> set (lctx k) \<Longrightarrow> a \<notin> set (rctx k) \<Longrightarrow> rep_ctx (h(a := x)) s p k = rep_ctx h s p k"
  by (induction h s p k rule: rep_ctx.induct) auto

definition tree_in :: "'p rb_heap \<Rightarrow> 'p \<Rightarrow> 'p option \<Rightarrow> 'p option \<Rightarrow> 'p ptree \<Rightarrow> bool" where
  "tree_in h s lm rm t \<longleftrightarrow> h s = Some \<lparr>right = rm, left = lm, parent = root_ptr t, red = True\<rparr> \<and> rep h s t \<and> distinct (s # addrs t)"

lemma tree_inD:
  assumes "tree_in h s lm rm (plug t k)"
  shows "h s = Some \<lparr>right = rm, left = lm, parent = root_ptr (plug t k), red = True\<rparr>" "rep h (up s k) t" "rep_ctx h s (root_ptr t) k"
    "distinct (s # lctx k @ addrs t @ rctx k)"
  using assms by (simp_all add: tree_in_def rep_plug addrs_plug)

text \<open>The node at a place, and the sentinel.\<close>

lemma node_at: "tree_in h s lm rm (plug (Nd l a c r) k) \<Longrightarrow>
  h a = Some \<lparr>right = root_ptr r, left = root_ptr l, parent = Some (up s k), red = c\<rparr>"
  using tree_inD(2) by fastforce

lemma sentinel_at: "tree_in h s lm rm t \<Longrightarrow> h s = Some \<lparr>right = rm, left = lm, parent = root_ptr t, red = True\<rparr>"
  by (simp add: tree_in_def)

lemma is_red_tree: "rep h q t \<Longrightarrow> is_red h (root_ptr t) = Some (isred t)"
  by (cases t) (simp_all add: is_red_def rd_def)

lemma is_red_at: "tree_in h s lm rm (plug t k) \<Longrightarrow> is_red h (root_ptr t) = Some (isred t)"
  by (rule is_red_tree [OF tree_inD(2)])

lemma is_root_iff:
  assumes "tree_in h s lm rm (plug (Nd l a c r) k)"
  shows "root_ptr (plug (Nd l a c r) k) = Some a \<longleftrightarrow> k = []"
proof (cases k rule: rev_cases)
  case (snoc k' f)
  have d: "distinct (lctx k @ addrs (Nd l a c r) @ rctx k)" using tree_inD(4) [OF assms] by simp
  have p: "plug t (k' @ [f]) = (case f of LF b c' r' \<Rightarrow> Nd (plug t k') b c' r' | RF l' b c' \<Rightarrow> Nd l' b c' (plug t k'))" for t
    by (induction t k' rule: plug.induct) (auto split: frame.split)
  have lr: "\<exists>xs. lctx (k' @ [f]) = (case f of LF b c' r' \<Rightarrow> [] | RF l' b c' \<Rightarrow> addrs l' @ [b]) @ xs"
    by (induction k' rule: lctx.induct) (auto split: frame.split)
  have rr: "\<exists>xs. rctx (k' @ [f]) = xs @ (case f of LF b c' r' \<Rightarrow> b # addrs r' | RF l' b c' \<Rightarrow> [])"
    by (induction k' rule: rctx.induct) (auto split: frame.split)
  show ?thesis using d snoc p lr rr by (cases f) auto
qed simp

text \<open>Painting a node.\<close>

lemma paint_at:
  assumes t: "tree_in h s lm rm (plug (Nd l a c r) k)"
  shows "\<exists>h'. wr h (Some a) (\<lambda>x. x\<lparr>red := c'\<rparr>) = Some h' \<and> dom h' = dom h \<and> tree_in h' s lm rm (plug (Nd l a c' r) k)"
proof -
  note d = tree_inD [OF t]
  let ?h = "h(a := Some \<lparr>right = root_ptr r, left = root_ptr l, parent = Some (up s k), red = c'\<rparr>)"
  have "root_ptr (plug (Nd l a c' r) k) = root_ptr (plug (Nd l a c r) k)" by (simp add: root_plug)
  then have "tree_in ?h s lm rm (plug (Nd l a c' r) k)"
    using d unfolding tree_in_def rep_plug addrs_plug by auto
  then show ?thesis using node_at [OF t] by (simp add: wr_def dom_fun_upd insert_absorb domI)
qed

lemma rep_reparent: "rep h q (Nd l a c r) \<Longrightarrow> a \<notin> set (addrs l) \<Longrightarrow> a \<notin> set (addrs r) \<Longrightarrow>
  rep (h(a := Some \<lparr>right = root_ptr r, left = root_ptr l, parent = Some q', red = c\<rparr>)) q' (Nd l a c r)"
  by simp

lemma up_in: "up s k \<in> insert s (set (lctx k) \<union> set (rctx k))"
  by (cases "(s, k)" rule: up.cases) auto

lemma tree_inI:
  assumes "h s = Some \<lparr>right = rm, left = lm, parent = root_ptr (plug t k), red = True\<rparr>" "rep h (up s k) t" "rep_ctx h s (root_ptr t) k"
    "distinct (s # lctx k @ addrs t @ rctx k)"
  shows "tree_in h s lm rm (plug t k)"
  using assms by (simp add: tree_in_def rep_plug addrs_plug)

section \<open>Rotations\<close>

lemma rd_Some: "h a = Some x \<Longrightarrow> rd h (Some a) f = Some (f x)"
  by (simp add: rd_def)

lemma wr_Some: "h a = Some x \<Longrightarrow> wr h (Some a) g = Some (h(a := Some (g x)))"
  by (simp add: wr_def)

lemma dom_upd_same: "h a = Some x \<Longrightarrow> dom (h(a := Some y)) = dom h"
  by auto

lemma root_notin: "a \<notin> set (addrs t) \<Longrightarrow> root_ptr t \<noteq> Some a" "a \<notin> set (addrs t) \<Longrightarrow> Some a \<noteq> root_ptr t"
  using addrs_root by metis+

lemma rotate_left_at:
  assumes t: "tree_in h s lm rm (plug (Nd l n c (Nd m r c' rr)) k)"
  shows "\<exists>h'. rotate_left h (Some n) (Some s) = Some h' \<and> dom h' = dom h \<and> tree_in h' s lm rm (plug (Nd (Nd l n c m) r c' rr) k)"
proof -
  note d = tree_inD [OF t]
  have root: "root_ptr (plug (Nd l n c (Nd m r c' rr)) k) = Some n \<longleftrightarrow> k = []" using is_root_iff [OF t] by auto
  show ?thesis
  proof (cases "(s, k)" rule: up.cases)
    case 1
    then show ?thesis
      using d root by (cases m) (auto simp: rotate_left_def rd_Some wr_Some tree_in_def)
  next
    case (2 _ a ca ra k')
    then show ?thesis
      using d root root_plug [of "Nd l n c (Nd m r c' rr)" "Nd (Nd l n c m) r c' rr" k] by (cases m) (auto simp: rotate_left_def rd_Some wr_Some is_left_child_def tree_in_def rep_plug addrs_plug)
  next
    case (3 _ la a ca k')
    then show ?thesis
      using d root root_plug [of "Nd l n c (Nd m r c' rr)" "Nd (Nd l n c m) r c' rr" k] by (cases m) (auto simp: rotate_left_def rd_Some wr_Some is_left_child_def tree_in_def rep_plug addrs_plug root_notin)
  qed
qed

lemma rotate_right_at:
  assumes t: "tree_in h s lm rm (plug (Nd (Nd ll l c' m) n c r) k)"
  shows "\<exists>h'. rotate_right h (Some n) (Some s) = Some h' \<and> dom h' = dom h \<and> tree_in h' s lm rm (plug (Nd ll l c' (Nd m n c r)) k)"
proof -
  note d = tree_inD [OF t]
  have root: "root_ptr (plug (Nd (Nd ll l c' m) n c r) k) = Some n \<longleftrightarrow> k = []" using is_root_iff [OF t] by auto
  show ?thesis
  proof (cases "(s, k)" rule: up.cases)
    case 1
    then show ?thesis
      using d root by (cases m) (auto simp: rotate_right_def rd_Some wr_Some tree_in_def)
  next
    case (2 _ a ca ra k')
    then show ?thesis
      using d root root_plug [of "Nd (Nd ll l c' m) n c r" "Nd ll l c' (Nd m n c r)" k]
      by (cases m) (auto simp: rotate_right_def rd_Some wr_Some is_left_child_def tree_in_def rep_plug addrs_plug)
  next
    case (3 _ la a ca k')
    then show ?thesis
      using d root root_plug [of "Nd (Nd ll l c' m) n c r" "Nd ll l c' (Nd m n c r)" k]
      by (cases m) (auto simp: rotate_right_def rd_Some wr_Some is_left_child_def tree_in_def rep_plug addrs_plug root_notin)
  qed
qed

end
