(* ===== verification/Rbtree_Insert.thy ===== *)
theory Rbtree_Insert
  imports Rbtree_View
begin

text \<open>
  Insertion into a red-black tree (\<^verbatim>\<open>rbtree_algorithm::insert\<close>): the turns of the loop that repairs the colours, as steps on trees, and
  the invariant of the loop. A tree is balanced when no red node has a red child and all paths have the same number of black nodes.
\<close>

section \<open>Colours and heights\<close>

fun invc :: "'p ptree \<Rightarrow> bool" where
  "invc Lf = True"
| "invc (Nd l a c r) = (invc l \<and> invc r \<and> (c \<longrightarrow> \<not> isred l \<and> \<not> isred r))"

fun bh :: "'p ptree \<Rightarrow> nat" where
  "bh Lf = 0"
| "bh (Nd l a c r) = (if c then bh l else Suc (bh l))"

fun invh :: "'p ptree \<Rightarrow> bool" where
  "invh Lf = True"
| "invh (Nd l a c r) = (invh l \<and> invh r \<and> bh l = bh r)"

definition balanced :: "'p ptree \<Rightarrow> bool" where
  "balanced t \<longleftrightarrow> invc t \<and> \<not> isred t \<and> invh t"

text \<open>What a path asks of the tree at its place: the colour of its root, its height.\<close>

fun ctx_c :: "'p frame list \<Rightarrow> bool \<Rightarrow> bool" where
  "ctx_c [] b = (\<not> b)"
| "ctx_c (LF a c r # k) b = (invc r \<and> (c \<longrightarrow> \<not> b \<and> \<not> isred r) \<and> ctx_c k c)"
| "ctx_c (RF l a c # k) b = (invc l \<and> (c \<longrightarrow> \<not> b \<and> \<not> isred l) \<and> ctx_c k c)"

fun ctx_h :: "'p frame list \<Rightarrow> nat \<Rightarrow> bool" where
  "ctx_h [] b = True"
| "ctx_h (LF a c r # k) b = (invh r \<and> bh r = b \<and> ctx_h k (if c then b else Suc b))"
| "ctx_h (RF l a c # k) b = (invh l \<and> bh l = b \<and> ctx_h k (if c then b else Suc b))"

lemma invc_plug: "invc (plug t k) \<and> \<not> isred (plug t k) \<longleftrightarrow> invc t \<and> ctx_c k (isred t)"
  by (induction t k rule: plug.induct) auto

lemma invh_plug: "invh (plug t k) \<longleftrightarrow> invh t \<and> ctx_h k (bh t)"
  by (induction t k rule: plug.induct) auto

lemma ctx_c_False: "ctx_c k b \<Longrightarrow> ctx_c k False"
  by (cases "(k, b)" rule: ctx_c.cases) auto

lemma balanced_plug: "balanced (plug t k) \<longleftrightarrow> invc t \<and> ctx_c k (isred t) \<and> invh t \<and> ctx_h k (bh t)"
  using invc_plug [of t k] invh_plug [of t k] by (auto simp: balanced_def)

section \<open>The turns\<close>

lemma rd_at:
  assumes "tree_in h s lm rm (plug (Nd l a c r) k)"
  shows "rd h (Some a) right = Some (root_ptr r) \<and> rd h (Some a) left = Some (root_ptr l) \<and> rd h (Some a) parent = Some (Some (up s k)) \<and>
    rd h (Some a) red = Some c"
  using node_at [OF assms] by (simp add: rd_Some)

lemma rd_root: "tree_in h s lm rm t \<Longrightarrow> rd h (Some s) parent = Some (root_ptr t)"
  by (simp add: sentinel_at rd_Some)

lemma turn_left_recolor:
  assumes t: "tree_in h s lm rm (plug (Nd (Nd pl p pc pr) g gc (Nd ul u True ur)) k)" and n: "rd h (Some n) parent = Some (Some p)"
  shows "\<exists>h'. insert_turn_left h (Some n) (Some g) (Some s) = Some (Some g, h') \<and> dom h' = dom h \<and>
    tree_in h' s lm rm (plug (Nd (Nd pl p False pr) g True (Nd ul u False ur)) k)"
proof -
  obtain h1 where h1: "wr h (Some p) (\<lambda>x. x\<lparr>red := False\<rparr>) = Some h1" "dom h1 = dom h"
      "tree_in h1 s lm rm (plug (Nd (Nd pl p False pr) g gc (Nd ul u True ur)) k)"
    using paint_at [of h s lm rm pl p pc pr "LF g gc (Nd ul u True ur) # k" False] t by auto
  obtain h2 where h2: "wr h1 (Some u) (\<lambda>x. x\<lparr>red := False\<rparr>) = Some h2" "dom h2 = dom h"
      "tree_in h2 s lm rm (plug (Nd (Nd pl p False pr) g gc (Nd ul u False ur)) k)"
    using paint_at [of h1 s lm rm ul u True ur "RF (Nd pl p False pr) g gc # k" False] h1 by auto
  obtain h3 where "wr h2 (Some g) (\<lambda>x. x\<lparr>red := True\<rparr>) = Some h3" "dom h3 = dom h"
      "tree_in h3 s lm rm (plug (Nd (Nd pl p False pr) g True (Nd ul u False ur)) k)"
    using paint_at [OF h2(3), of True] h2(2) by auto
  moreover have "is_red h (Some u) = Some True" using is_red_at [of h s lm rm "Nd ul u True ur" "RF (Nd pl p pc pr) g gc # k"] t by simp
  ultimately show ?thesis using rd_at [OF t] n h1(1) h2(1) by (simp add: insert_turn_left_def)
qed

lemma turn_right_recolor:
  assumes t: "tree_in h s lm rm (plug (Nd (Nd ul u True ur) g gc (Nd pl p pc pr)) k)" and n: "rd h (Some n) parent = Some (Some p)"
  shows "\<exists>h'. insert_turn_right h (Some n) (Some g) (Some s) = Some (Some g, h') \<and> dom h' = dom h \<and>
    tree_in h' s lm rm (plug (Nd (Nd ul u False ur) g True (Nd pl p False pr)) k)"
proof -
  obtain h1 where h1: "wr h (Some p) (\<lambda>x. x\<lparr>red := False\<rparr>) = Some h1" "dom h1 = dom h"
      "tree_in h1 s lm rm (plug (Nd (Nd ul u True ur) g gc (Nd pl p False pr)) k)"
    using paint_at [of h s lm rm pl p pc pr "RF (Nd ul u True ur) g gc # k" False] t by auto
  obtain h2 where h2: "wr h1 (Some u) (\<lambda>x. x\<lparr>red := False\<rparr>) = Some h2" "dom h2 = dom h"
      "tree_in h2 s lm rm (plug (Nd (Nd ul u False ur) g gc (Nd pl p False pr)) k)"
    using paint_at [of h1 s lm rm ul u True ur "LF g gc (Nd pl p False pr) # k" False] h1 by auto
  obtain h3 where "wr h2 (Some g) (\<lambda>x. x\<lparr>red := True\<rparr>) = Some h3" "dom h3 = dom h"
      "tree_in h3 s lm rm (plug (Nd (Nd ul u False ur) g True (Nd pl p False pr)) k)"
    using paint_at [OF h2(3), of True] h2(2) by auto
  moreover have "is_red h (Some u) = Some True" using is_red_at [of h s lm rm "Nd ul u True ur" "LF g gc (Nd pl p pc pr) # k"] t by simp
  ultimately show ?thesis using rd_at [OF t] n h1(1) h2(1) by (simp add: insert_turn_right_def)
qed

text \<open>The last two steps of a turn: paint parent and grandparent, rotate the grandparent.\<close>

lemma paint_rotate_right:
  assumes t: "tree_in h s lm rm (plug (Nd (Nd t1 p pc pr) g gc u) k)"
  shows "\<exists>h1 h2 h3. wr h (Some p) (\<lambda>x. x\<lparr>red := c1\<rparr>) = Some h1 \<and> wr h1 (Some g) (\<lambda>x. x\<lparr>red := c2\<rparr>) = Some h2 \<and>
    rotate_right h2 (Some g) (Some s) = Some h3 \<and> dom h3 = dom h \<and> tree_in h3 s lm rm (plug (Nd t1 p c1 (Nd pr g c2 u)) k)"
proof -
  obtain h1 where h1: "wr h (Some p) (\<lambda>x. x\<lparr>red := c1\<rparr>) = Some h1" "dom h1 = dom h" "tree_in h1 s lm rm (plug (Nd (Nd t1 p c1 pr) g gc u) k)"
    using paint_at [of h s lm rm t1 p pc pr "LF g gc u # k" c1] t by auto
  obtain h2 where h2: "wr h1 (Some g) (\<lambda>x. x\<lparr>red := c2\<rparr>) = Some h2" "dom h2 = dom h" "tree_in h2 s lm rm (plug (Nd (Nd t1 p c1 pr) g c2 u) k)"
    using paint_at [OF h1(3), of c2] h1(2) by auto
  show ?thesis using rotate_right_at [OF h2(3)] h1 h2 by auto
qed

lemma paint_rotate_left:
  assumes t: "tree_in h s lm rm (plug (Nd u g gc (Nd pl p pc t1)) k)"
  shows "\<exists>h1 h2 h3. wr h (Some p) (\<lambda>x. x\<lparr>red := c1\<rparr>) = Some h1 \<and> wr h1 (Some g) (\<lambda>x. x\<lparr>red := c2\<rparr>) = Some h2 \<and>
    rotate_left h2 (Some g) (Some s) = Some h3 \<and> dom h3 = dom h \<and> tree_in h3 s lm rm (plug (Nd (Nd u g c2 pl) p c1 t1) k)"
proof -
  obtain h1 where h1: "wr h (Some p) (\<lambda>x. x\<lparr>red := c1\<rparr>) = Some h1" "dom h1 = dom h" "tree_in h1 s lm rm (plug (Nd u g gc (Nd pl p c1 t1)) k)"
    using paint_at [of h s lm rm pl p pc t1 "RF u g gc # k" c1] t by auto
  obtain h2 where h2: "wr h1 (Some g) (\<lambda>x. x\<lparr>red := c2\<rparr>) = Some h2" "dom h2 = dom h" "tree_in h2 s lm rm (plug (Nd u g c2 (Nd pl p c1 t1)) k)"
    using paint_at [OF h1(3), of c2] h1(2) by auto
  show ?thesis using rotate_left_at [OF h2(3)] h1 h2 by auto
qed

lemma left_child_at:
  "tree_in h s lm rm (plug (Nd (Nd l n c r) p pc pr) k) \<Longrightarrow> is_left_child h (Some n) = Some True"
  "tree_in h s lm rm (plug (Nd pl p pc (Nd l n c r)) k) \<Longrightarrow> is_left_child h (Some n) = Some False"
proof -
  assume t: "tree_in h s lm rm (plug (Nd (Nd l n c r) p pc pr) k)"
  show "is_left_child h (Some n) = Some True"
    using rd_at [OF t] rd_at [of h s lm rm l n c r "LF p pc pr # k"] t by (simp add: is_left_child_def)
next
  assume t: "tree_in h s lm rm (plug (Nd pl p pc (Nd l n c r)) k)"
  have "n \<notin> set (addrs pl)" using tree_inD(4) [OF t] by auto
  then show "is_left_child h (Some n) = Some False"
    using rd_at [OF t] rd_at [of h s lm rm l n c r "RF pl p pc # k"] t by (simp add: is_left_child_def root_notin)
qed

lemma turn_left_outer:
  assumes t: "tree_in h s lm rm (plug (Nd (Nd (Nd l n c r) p pc pr) g gc u) k)" and u: "\<not> isred u"
  shows "\<exists>h'. insert_turn_left h (Some n) (Some g) (Some s) = Some (Some n, h') \<and> dom h' = dom h \<and>
    tree_in h' s lm rm (plug (Nd (Nd l n c r) p False (Nd pr g True u)) k)"
proof -
  have t': "tree_in h s lm rm (plug (Nd (Nd l n c r) p pc pr) (LF g gc u # k))" using t by simp
  have b: "is_red h (root_ptr u) = Some False" using is_red_at [of h s lm rm u "RF (Nd (Nd l n c r) p pc pr) g gc # k"] t u by simp
  have n: "rd h (Some n) parent = Some (Some p)" using rd_at [of h s lm rm l n c r "LF p pc pr # LF g gc u # k"] t by simp
  show ?thesis using paint_rotate_right [OF t, of False True] rd_at [OF t] b n left_child_at(1) [OF t'] by (auto simp: insert_turn_left_def)
qed

lemma turn_left_inner:
  assumes t: "tree_in h s lm rm (plug (Nd (Nd pl p pc (Nd l n c r)) g gc u) k)" and u: "\<not> isred u"
  shows "\<exists>h'. insert_turn_left h (Some n) (Some g) (Some s) = Some (Some p, h') \<and> dom h' = dom h \<and>
    tree_in h' s lm rm (plug (Nd (Nd pl p pc l) n False (Nd r g True u)) k)"
proof -
  have t': "tree_in h s lm rm (plug (Nd pl p pc (Nd l n c r)) (LF g gc u # k))" using t by simp
  have b: "is_red h (root_ptr u) = Some False" using is_red_at [of h s lm rm u "RF (Nd pl p pc (Nd l n c r)) g gc # k"] t u by simp
  have n: "rd h (Some n) parent = Some (Some p)" using rd_at [of h s lm rm l n c r "RF pl p pc # LF g gc u # k"] t by simp
  obtain h1 where h1: "rotate_left h (Some p) (Some s) = Some h1" "dom h1 = dom h" "tree_in h1 s lm rm (plug (Nd (Nd (Nd pl p pc l) n c r) g gc u) k)"
    using rotate_left_at [OF t'] by auto
  have p: "rd h1 (Some p) parent = Some (Some n)" using rd_at [of h1 s lm rm pl p pc l "LF n c r # LF g gc u # k"] h1(3) by simp
  show ?thesis using paint_rotate_right [OF h1(3), of False True] rd_at [OF t] b n p h1 left_child_at(2) [OF t'] by (auto simp: insert_turn_left_def)
qed

lemma turn_right_outer:
  assumes t: "tree_in h s lm rm (plug (Nd u g gc (Nd pl p pc (Nd l n c r))) k)" and u: "\<not> isred u"
  shows "\<exists>h'. insert_turn_right h (Some n) (Some g) (Some s) = Some (Some n, h') \<and> dom h' = dom h \<and>
    tree_in h' s lm rm (plug (Nd (Nd u g True pl) p False (Nd l n c r)) k)"
proof -
  have t': "tree_in h s lm rm (plug (Nd pl p pc (Nd l n c r)) (RF u g gc # k))" using t by simp
  have b: "is_red h (root_ptr u) = Some False" using is_red_at [of h s lm rm u "LF g gc (Nd pl p pc (Nd l n c r)) # k"] t u by simp
  have n: "rd h (Some n) parent = Some (Some p)" using rd_at [of h s lm rm l n c r "RF pl p pc # RF u g gc # k"] t by simp
  show ?thesis using paint_rotate_left [OF t, of False True] rd_at [OF t] b n left_child_at(2) [OF t'] by (auto simp: insert_turn_right_def)
qed

lemma turn_right_inner:
  assumes t: "tree_in h s lm rm (plug (Nd u g gc (Nd (Nd l n c r) p pc pr)) k)" and u: "\<not> isred u"
  shows "\<exists>h'. insert_turn_right h (Some n) (Some g) (Some s) = Some (Some p, h') \<and> dom h' = dom h \<and>
    tree_in h' s lm rm (plug (Nd (Nd u g True l) n False (Nd r p pc pr)) k)"
proof -
  have t': "tree_in h s lm rm (plug (Nd (Nd l n c r) p pc pr) (RF u g gc # k))" using t by simp
  have b: "is_red h (root_ptr u) = Some False" using is_red_at [of h s lm rm u "LF g gc (Nd (Nd l n c r) p pc pr) # k"] t u by simp
  have n: "rd h (Some n) parent = Some (Some p)" using rd_at [of h s lm rm l n c r "LF p pc pr # RF u g gc # k"] t by simp
  obtain h1 where h1: "rotate_right h (Some p) (Some s) = Some h1" "dom h1 = dom h" "tree_in h1 s lm rm (plug (Nd u g gc (Nd l n c (Nd r p pc pr))) k)"
    using rotate_right_at [OF t'] by auto
  have p: "rd h1 (Some p) parent = Some (Some n)" using rd_at [of h1 s lm rm r p pc pr "RF l n c # RF u g gc # k"] h1(3) by simp
  show ?thesis using paint_rotate_left [OF h1(3), of False True] rd_at [OF t] b n p h1 left_child_at(1) [OF t'] by (auto simp: insert_turn_right_def)
qed

section \<open>The loop\<close>

lemma fix_done_root: "tree_in h s lm rm (Nd l n c r) \<Longrightarrow> insert_fix h (Some n) (Some s) = Some h"
  by (subst insert_fix.simps) (simp add: rd_root)

lemma fix_done_black:
  assumes t: "tree_in h s lm rm (plug (Nd pl p False pr) k)" and n: "rd h (Some n) parent = Some (Some p)"
  shows "insert_fix h (Some n) (Some s) = Some h"
  using is_red_at [OF t] n rd_root [OF t] by (subst insert_fix.simps) simp

lemma fix_turn_left:
  assumes t: "tree_in h s lm rm (plug (Nd (Nd pl p True pr) g gc u) k)" and n: "rd h (Some n) parent = Some (Some p)"
    and r: "root_ptr (plug (Nd (Nd pl p True pr) g gc u) k) \<noteq> Some n"
  shows "insert_fix h (Some n) (Some s) = do { (n, h) \<leftarrow> insert_turn_left h (Some n) (Some g) (Some s); insert_fix h n (Some s) }"
proof -
  have t': "tree_in h s lm rm (plug (Nd pl p True pr) (LF g gc u # k))" using t by simp
  show ?thesis using is_red_at [OF t'] n rd_root [OF t] r rd_at [OF t'] rd_at [OF t] by (subst insert_fix.simps) auto
qed

lemma fix_turn_right:
  assumes t: "tree_in h s lm rm (plug (Nd u g gc (Nd pl p True pr)) k)" and n: "rd h (Some n) parent = Some (Some p)"
    and r: "root_ptr (plug (Nd u g gc (Nd pl p True pr)) k) \<noteq> Some n"
  shows "insert_fix h (Some n) (Some s) = do { (n, h) \<leftarrow> insert_turn_right h (Some n) (Some g) (Some s); insert_fix h n (Some s) }"
proof -
  have t': "tree_in h s lm rm (plug (Nd pl p True pr) (RF u g gc # k))" using t by simp
  have "p \<notin> set (addrs u)" using tree_inD(4) [OF t] by auto
  then show ?thesis using is_red_at [OF t'] n rd_root [OF t] r rd_at [OF t'] rd_at [OF t] by (subst insert_fix.simps) (auto simp: root_notin)
qed

text \<open>The place of the loop is a red node that may have a red parent; everything else is in order.\<close>

definition fixable :: "'p ptree \<Rightarrow> 'p frame list \<Rightarrow> bool" where
  "fixable t k \<longleftrightarrow> invc t \<and> isred t \<and> invh t \<and> ctx_c k False \<and> ctx_h k (bh t)"

definition fixed :: "'p rb_heap \<Rightarrow> 'p \<Rightarrow> 'p option \<Rightarrow> 'p option \<Rightarrow> 'p option \<Rightarrow> 'p list \<Rightarrow> bool" where
  "fixed h s lm rm n xs \<longleftrightarrow> (\<exists>h' t. insert_fix h n (Some s) = Some h' \<and> dom h' = dom h \<and> tree_in h' s lm rm t \<and> addrs t = xs \<and> invc t \<and> invh t)"

lemma fixed_again:
  "insert_fix h (Some n) (Some s) = insert_fix h' (Some n') (Some s) \<Longrightarrow> fixed h' s lm rm (Some n') xs \<Longrightarrow> dom h' = dom h \<Longrightarrow> fixed h s lm rm (Some n) xs"
  by (auto simp: fixed_def)

lemma fixed_leave:
  "insert_fix h (Some n) (Some s) = Some h' \<Longrightarrow> dom h' = dom h \<Longrightarrow> tree_in h' s lm rm t' \<Longrightarrow> addrs t' = xs \<Longrightarrow> invc t' \<Longrightarrow> invh t' \<Longrightarrow>
    fixed h s lm rm (Some n) xs"
  by (auto simp: fixed_def)

lemma insert_fix_left:
  assumes t: "tree_in h s lm rm (plug (Nd l n True r) k)" and fx: "fixable (Nd l n True r) k" and k: "k = LF p pc pr # k1"
    and IH: "\<And>k' h l n r. length k' < length k \<Longrightarrow> tree_in h s lm rm (plug (Nd l n True r) k') \<Longrightarrow> fixable (Nd l n True r) k' \<Longrightarrow>
      fixed h s lm rm (Some n) (addrs (plug (Nd l n True r) k'))"
  shows "fixed h s lm rm (Some n) (addrs (plug (Nd l n True r) k))"
proof -
  note f = fx [unfolded fixable_def]
  have root: "root_ptr (plug (Nd l n True r) k) \<noteq> Some n" using is_root_iff [OF t] k by simp
  have par: "rd h (Some n) parent = Some (Some (up s k))" using rd_at [OF t] by simp
  have stop: ?thesis if "insert_fix h (Some n) (Some s) = Some h" "ctx_c k True"
    using that t f invc_plug [of "Nd l n True r" k] invh_plug [of "Nd l n True r" k] by (auto simp: fixed_def)
  note again = fixed_again [of h n s] and leave = fixed_leave [of h n s]
  have tp: "tree_in h s lm rm (plug (Nd (Nd l n True r) p pc pr) k1)" and pn: "rd h (Some n) parent = Some (Some p)" using t k par by simp_all
  show ?thesis
  proof (cases pc)
    case False
    then show ?thesis using stop fix_done_black [of h s lm rm "Nd l n True r" p pr k1 n] tp pn k f by simp
  next
    case True
    show ?thesis
    proof (cases "(s, k1)" rule: up.cases)
      case 1
      then show ?thesis using f k True by simp
    next
      case (2 _ g gc u k2)
      then have tg: "tree_in h s lm rm (plug (Nd (Nd (Nd l n True r) p True pr) g gc u) k2)" using tp True by simp
      note go = fix_turn_left [OF tg pn] and kk = k True 2
      show ?thesis
      proof (cases "isred u")
        case True
        then obtain ul a ur where u: "u = Nd ul a True ur" by (cases u) auto
        obtain h' where h': "insert_turn_left h (Some n) (Some g) (Some s) = Some (Some g, h')" "dom h' = dom h"
            "tree_in h' s lm rm (plug (Nd (Nd (Nd l n True r) p False pr) g True (Nd ul a False ur)) k2)"
          using turn_left_recolor [OF tg [unfolded u] pn] by blast
        have "fixed h' s lm rm (Some g) (addrs (plug (Nd (Nd (Nd l n True r) p False pr) g True (Nd ul a False ur)) k2))"
          by (rule IH [OF _ h'(3)]) (use f kk u ctx_c_False in \<open>auto simp: fixable_def\<close>)
        then show ?thesis using again [of h' g lm rm] go h' root kk u by (simp add: addrs_plug)
      next
        case False
        obtain h' where h': "insert_turn_left h (Some n) (Some g) (Some s) = Some (Some n, h')" "dom h' = dom h"
            "tree_in h' s lm rm (plug (Nd (Nd l n True r) p False (Nd pr g True u)) k2)"
          using turn_left_outer [OF tg False] by blast
        let ?t = "plug (Nd (Nd l n True r) p False (Nd pr g True u)) k2"
        have "invc ?t \<and> invh ?t"
          using invc_plug [of "Nd (Nd l n True r) p False (Nd pr g True u)" k2] invh_plug [of "Nd (Nd l n True r) p False (Nd pr g True u)" k2]
            f kk False ctx_c_False by auto
        moreover have "rd h' (Some n) parent = Some (Some p)"
          using rd_at [of h' s lm rm l n True r "LF p False (Nd pr g True u) # k2"] h'(3) by simp
        ultimately show ?thesis using leave [of h' lm rm ?t] go h' root kk fix_done_black [OF h'(3)] by (simp add: addrs_plug)
      qed
    next
      case (3 _ u g gc k2)
      then have tg: "tree_in h s lm rm (plug (Nd u g gc (Nd (Nd l n True r) p True pr)) k2)" using tp True by simp
      note go = fix_turn_right [OF tg pn] and kk = k True 3
      show ?thesis
      proof (cases "isred u")
        case True
        then obtain ul a ur where u: "u = Nd ul a True ur" by (cases u) auto
        obtain h' where h': "insert_turn_right h (Some n) (Some g) (Some s) = Some (Some g, h')" "dom h' = dom h"
            "tree_in h' s lm rm (plug (Nd (Nd ul a False ur) g True (Nd (Nd l n True r) p False pr)) k2)"
          using turn_right_recolor [OF tg [unfolded u] pn] by blast
        have "fixed h' s lm rm (Some g) (addrs (plug (Nd (Nd ul a False ur) g True (Nd (Nd l n True r) p False pr)) k2))"
          by (rule IH [OF _ h'(3)]) (use f kk u ctx_c_False in \<open>auto simp: fixable_def\<close>)
        then show ?thesis using again [of h' g lm rm] go h' root kk u by (simp add: addrs_plug)
      next
        case False
        obtain h' where h': "insert_turn_right h (Some n) (Some g) (Some s) = Some (Some p, h')" "dom h' = dom h"
            "tree_in h' s lm rm (plug (Nd (Nd u g True l) n False (Nd r p True pr)) k2)"
          using turn_right_inner [OF tg False] by blast
        let ?t = "plug (Nd (Nd u g True l) n False (Nd r p True pr)) k2"
        have "invc ?t \<and> invh ?t"
          using invc_plug [of "Nd (Nd u g True l) n False (Nd r p True pr)" k2] invh_plug [of "Nd (Nd u g True l) n False (Nd r p True pr)" k2]
            f kk False ctx_c_False by auto
        moreover have "rd h' (Some p) parent = Some (Some n)"
          using rd_at [of h' s lm rm r p True pr "RF (Nd u g True l) n False # k2"] h'(3) by simp
        ultimately show ?thesis using leave [of h' lm rm ?t] go h' root kk fix_done_black [OF h'(3)] by (simp add: addrs_plug)
      qed
    qed
  qed
qed

lemma insert_fix_right:
  assumes t: "tree_in h s lm rm (plug (Nd l n True r) k)" and fx: "fixable (Nd l n True r) k" and k: "k = RF pl p pc # k1"
    and IH: "\<And>k' h l n r. length k' < length k \<Longrightarrow> tree_in h s lm rm (plug (Nd l n True r) k') \<Longrightarrow> fixable (Nd l n True r) k' \<Longrightarrow>
      fixed h s lm rm (Some n) (addrs (plug (Nd l n True r) k'))"
  shows "fixed h s lm rm (Some n) (addrs (plug (Nd l n True r) k))"
proof -
  note f = fx [unfolded fixable_def]
  have root: "root_ptr (plug (Nd l n True r) k) \<noteq> Some n" using is_root_iff [OF t] k by simp
  have par: "rd h (Some n) parent = Some (Some (up s k))" using rd_at [OF t] by simp
  have stop: ?thesis if "insert_fix h (Some n) (Some s) = Some h" "ctx_c k True"
    using that t f invc_plug [of "Nd l n True r" k] invh_plug [of "Nd l n True r" k] by (auto simp: fixed_def)
  note again = fixed_again [of h n s] and leave = fixed_leave [of h n s]
  have tp: "tree_in h s lm rm (plug (Nd pl p pc (Nd l n True r)) k1)" and pn: "rd h (Some n) parent = Some (Some p)" using t k par by simp_all
  show ?thesis
  proof (cases pc)
    case False
    then show ?thesis using stop fix_done_black [of h s lm rm pl p "Nd l n True r" k1 n] tp pn k f by simp
  next
    case True
    show ?thesis
    proof (cases "(s, k1)" rule: up.cases)
      case 1
      then show ?thesis using f k True by simp
    next
      case (2 _ g gc u k2)
      then have tg: "tree_in h s lm rm (plug (Nd (Nd pl p True (Nd l n True r)) g gc u) k2)" using tp True by simp
      note go = fix_turn_left [OF tg pn] and kk = k True 2
      show ?thesis
      proof (cases "isred u")
        case True
        then obtain ul a ur where u: "u = Nd ul a True ur" by (cases u) auto
        obtain h' where h': "insert_turn_left h (Some n) (Some g) (Some s) = Some (Some g, h')" "dom h' = dom h"
            "tree_in h' s lm rm (plug (Nd (Nd pl p False (Nd l n True r)) g True (Nd ul a False ur)) k2)"
          using turn_left_recolor [OF tg [unfolded u] pn] by blast
        have "fixed h' s lm rm (Some g) (addrs (plug (Nd (Nd pl p False (Nd l n True r)) g True (Nd ul a False ur)) k2))"
          by (rule IH [OF _ h'(3)]) (use f kk u ctx_c_False in \<open>auto simp: fixable_def\<close>)
        then show ?thesis using again [of h' g lm rm] go h' root kk u by (simp add: addrs_plug)
      next
        case False
        obtain h' where h': "insert_turn_left h (Some n) (Some g) (Some s) = Some (Some p, h')" "dom h' = dom h"
            "tree_in h' s lm rm (plug (Nd (Nd pl p True l) n False (Nd r g True u)) k2)"
          using turn_left_inner [OF tg False] by blast
        let ?t = "plug (Nd (Nd pl p True l) n False (Nd r g True u)) k2"
        have "invc ?t \<and> invh ?t"
          using invc_plug [of "Nd (Nd pl p True l) n False (Nd r g True u)" k2] invh_plug [of "Nd (Nd pl p True l) n False (Nd r g True u)" k2]
            f kk False ctx_c_False by auto
        moreover have "rd h' (Some p) parent = Some (Some n)"
          using rd_at [of h' s lm rm pl p True l "LF n False (Nd r g True u) # k2"] h'(3) by simp
        ultimately show ?thesis using leave [of h' lm rm ?t] go h' root kk fix_done_black [OF h'(3)] by (simp add: addrs_plug)
      qed
    next
      case (3 _ u g gc k2)
      then have tg: "tree_in h s lm rm (plug (Nd u g gc (Nd pl p True (Nd l n True r))) k2)" using tp True by simp
      note go = fix_turn_right [OF tg pn] and kk = k True 3
      show ?thesis
      proof (cases "isred u")
        case True
        then obtain ul a ur where u: "u = Nd ul a True ur" by (cases u) auto
        obtain h' where h': "insert_turn_right h (Some n) (Some g) (Some s) = Some (Some g, h')" "dom h' = dom h"
            "tree_in h' s lm rm (plug (Nd (Nd ul a False ur) g True (Nd pl p False (Nd l n True r))) k2)"
          using turn_right_recolor [OF tg [unfolded u] pn] by blast
        have "fixed h' s lm rm (Some g) (addrs (plug (Nd (Nd ul a False ur) g True (Nd pl p False (Nd l n True r))) k2))"
          by (rule IH [OF _ h'(3)]) (use f kk u ctx_c_False in \<open>auto simp: fixable_def\<close>)
        then show ?thesis using again [of h' g lm rm] go h' root kk u by (simp add: addrs_plug)
      next
        case False
        obtain h' where h': "insert_turn_right h (Some n) (Some g) (Some s) = Some (Some n, h')" "dom h' = dom h"
            "tree_in h' s lm rm (plug (Nd (Nd u g True pl) p False (Nd l n True r)) k2)"
          using turn_right_outer [OF tg False] by blast
        let ?t = "plug (Nd (Nd u g True pl) p False (Nd l n True r)) k2"
        have "invc ?t \<and> invh ?t"
          using invc_plug [of "Nd (Nd u g True pl) p False (Nd l n True r)" k2] invh_plug [of "Nd (Nd u g True pl) p False (Nd l n True r)" k2]
            f kk False ctx_c_False by auto
        moreover have "rd h' (Some n) parent = Some (Some p)"
          using rd_at [of h' s lm rm l n True r "RF (Nd u g True pl) p False # k2"] h'(3) by simp
        ultimately show ?thesis using leave [of h' lm rm ?t] go h' root kk fix_done_black [OF h'(3)] by (simp add: addrs_plug)
      qed
    qed
  qed
qed

lemma insert_fix_ok:
  assumes "tree_in h s lm rm (plug (Nd l n True r) k)" and "fixable (Nd l n True r) k"
  shows "fixed h s lm rm (Some n) (addrs (plug (Nd l n True r) k))"
  using assms
proof (induction "length k" arbitrary: k h l n r rule: less_induct)
  case less
  show ?case
  proof (cases "(s, k)" rule: up.cases)
    case 1
    then show ?thesis using fix_done_root [of h s lm rm l n True r] less.prems by (auto simp: fixed_def fixable_def)
  next
    case (2 _ p pc pr k1)
    then show ?thesis using insert_fix_left [OF less.prems _ less.hyps, of p pc pr k1] by simp
  next
    case (3 _ pl p pc k1)
    then show ?thesis using insert_fix_right [OF less.prems _ less.hyps, of pl p pc k1] by simp
  qed
qed

section \<open>Insertion\<close>

text \<open>A tree whose sentinel points to its first and its last node.\<close>

definition whole_tree :: "'p rb_heap \<Rightarrow> 'p \<Rightarrow> 'p ptree \<Rightarrow> bool" where
  "whole_tree h s t \<longleftrightarrow> tree_in h s (Some (hd (addrs t @ [s]))) (Some (last (s # addrs t))) t"

fun goes_left :: "'p frame list \<Rightarrow> bool" where
  "goes_left (RF l a c # k) = False"
| "goes_left _ = True"

lemma last_Cons_append: "last (x # xs @ y # ys) = last (y # ys)"
  by (cases xs rule: rev_cases) auto

lemma link_leaf:
  assumes t: "whole_tree h s (plug Lf k)" and n: "n \<notin> insert s (set (addrs (plug Lf k)))" "h n = Some x"
  shows "\<exists>h'. rb_link h (Some n) (Some (up s k)) (Some s) (goes_left k) = Some h' \<and> dom h' = dom h \<and> whole_tree h' s (plug (Nd Lf n True Lf) k)"
proof -
  note d = tree_inD [OF t [unfolded whole_tree_def]] and n' = n(1) [unfolded addrs_plug]
  show ?thesis
  proof (cases "(s, k)" rule: up.cases)
    case 1
    then show ?thesis using d n' n(2) by (auto simp: rb_link_def rd_Some wr_Some whole_tree_def tree_in_def)
  next
    case (2 _ a ca ra k')
    have "hd (lctx k' @ a # xs) = a \<longleftrightarrow> lctx k' = []" for xs using d(4) 2 by (cases "lctx k'") auto
    then show ?thesis
      using 2 d n' n(2) root_plug [of Lf "Nd Lf n True Lf" k]
      by (cases "lctx k'") (auto simp: rb_link_def rd_Some wr_Some whole_tree_def tree_in_def rep_plug addrs_plug)
  next
    case (3 _ la a ca k')
    then show ?thesis
      using d n' n(2) root_plug [of Lf "Nd Lf n True Lf" k]
      by (cases "rctx k'" rule: rev_cases) (auto simp: rb_link_def rd_Some wr_Some whole_tree_def tree_in_def rep_plug addrs_plug hd_append)
  qed
qed

lemma balanced_nonempty: "addrs t \<noteq> [] \<Longrightarrow> \<exists>l a c r. t = Nd l a c r"
  by (cases t) auto

lemma rb_insert_ok:
  assumes t: "whole_tree h s (plug Lf k)" and b: "balanced (plug Lf k)" and n: "n \<notin> insert s (set (addrs (plug Lf k)))" "h n = Some x"
  shows "\<exists>h' t'. rb_insert h (Some n) (Some (up s k)) (Some s) (goes_left k) = Some h' \<and> dom h' = dom h \<and> whole_tree h' s t' \<and> balanced t' \<and>
    addrs t' = lctx k @ n # rctx k"
proof -
  obtain h1 where h1: "rb_link h (Some n) (Some (up s k)) (Some s) (goes_left k) = Some h1" "dom h1 = dom h" "whole_tree h1 s (plug (Nd Lf n True Lf) k)"
    using link_leaf [OF t n] by blast
  have "fixable (Nd Lf n True Lf) k" using b ctx_c_False by (auto simp: fixable_def balanced_plug)
  then obtain h2 t2 where h2: "insert_fix h1 (Some n) (Some s) = Some h2" "dom h2 = dom h1" "addrs t2 = lctx k @ n # rctx k" "invc t2" "invh t2"
      "tree_in h2 s (Some (hd (addrs t2 @ [s]))) (Some (last (s # addrs t2))) t2"
    using insert_fix_ok [OF h1(3) [unfolded whole_tree_def]] by (auto simp: fixed_def addrs_plug)
  then obtain l a c r where t2: "t2 = Nd l a c r" using balanced_nonempty [of t2] by auto
  obtain h3 where h3: "wr h2 (Some a) (\<lambda>x. x\<lparr>red := False\<rparr>) = Some h3" "dom h3 = dom h2"
      "tree_in h3 s (Some (hd (addrs t2 @ [s]))) (Some (last (s # addrs t2))) (Nd l a False r)"
    using paint_at [of h2 s "Some (hd (addrs t2 @ [s]))" "Some (last (s # addrs t2))" l a c r "[]" False] h2(6) by (auto simp only: t2 plug.simps)
  have "whole_tree h3 s (Nd l a False r)" using h3(3) t2 by (simp add: whole_tree_def)
  moreover have "balanced (Nd l a False r)" "addrs (Nd l a False r) = lctx k @ n # rctx k" using h2(3-5) t2 by (simp_all add: balanced_def)
  ultimately show ?thesis using h1 h2(1,2) h3(1,2) rd_root [OF h2(6)] t2 by (auto simp: rb_insert_def)
qed

end
