(* ===== verification/Rbtree_Erase.thy ===== *)
theory Rbtree_Erase
  imports Rbtree_Insert
begin

text \<open>
  The second half of \<^verbatim>\<open>rbtree_algorithm::erase\<close>: the loop that repairs a tree in which the paths through one place lack a black node.
\<close>

section \<open>The turns\<close>

fun blacken :: "'p ptree \<Rightarrow> 'p ptree" where
  "blacken Lf = Lf"
| "blacken (Nd l a c r) = Nd l a False r"

lemma addrs_blacken [simp]: "addrs (blacken t) = addrs t"
  by (cases t) simp_all

lemma invh_blacken [simp]: "invh (blacken t) = invh t"
  by (cases t) simp_all

lemma isred_blacken [simp]: "\<not> isred (blacken t)"
  by (cases t) simp_all

lemma bh_blacken: "bh (blacken t) = (if isred t then Suc (bh t) else bh t)"
  by (cases t) simp_all

lemma blacken_black: "\<not> isred t \<Longrightarrow> blacken t = t"
  by (cases t) simp_all

lemma invc_blackenD: "invc t \<Longrightarrow> invc (blacken t)"
  by (cases t) simp_all

text \<open>Painting a subtree that may be empty, as the source does.\<close>

lemma blacken_at:
  assumes "tree_in h s lm rm (plug t k)"
  shows "\<exists>h'. (if root_ptr t \<noteq> None then wr h (root_ptr t) (\<lambda>x. x\<lparr>red := False\<rparr>) else Some h) = Some h' \<and> dom h' = dom h \<and> tree_in h' s lm rm (plug (blacken t) k)"
  using assms paint_at [of h s lm rm _ _ _ _ k False] by (cases t) auto

lemma black_left_up:
  assumes t: "tree_in h s lm rm (plug (Nd t p pc (Nd rl r rc rr)) k)" and b: "\<not> isred rl" "\<not> isred rr"
  shows "\<exists>h'. erase_black_left h (Some p) (Some r) (Some s) = Some (Some (Some p, Some (up s k)), h') \<and> dom h' = dom h \<and>
    tree_in h' s lm rm (plug (Nd t p pc (Nd rl r True rr)) k)"
proof -
  have tr: "tree_in h s lm rm (plug (Nd rl r rc rr) (RF t p pc # k))" using t by simp
  obtain h1 where h1: "wr h (Some r) (\<lambda>x. x\<lparr>red := True\<rparr>) = Some h1" "dom h1 = dom h" "tree_in h1 s lm rm (plug (Nd t p pc (Nd rl r True rr)) k)"
    using paint_at [OF tr, of True] by auto
  have "is_red h (root_ptr rl) = Some False" using is_red_at [of h s lm rm rl "LF r rc rr # RF t p pc # k"] t b by simp
  moreover have "is_red h (root_ptr rr) = Some False" using is_red_at [of h s lm rm rr "RF rl r rc # RF t p pc # k"] t b by simp
  ultimately show ?thesis using rd_at [OF tr] rd_at [OF h1(3)] h1 by (simp add: erase_black_left_def)
qed

text \<open>The last four steps: the sibling takes the colour of the parent, parent and outer nephew become black, and the parent is rotated.\<close>

lemma outer_left:
  assumes t: "tree_in h s lm rm (plug (Nd t p pc (Nd rl r rc rr)) k)"
  shows "\<exists>h1 h2 h3 h4. wr h (Some r) (\<lambda>x. x\<lparr>red := pc\<rparr>) = Some h1 \<and> wr h1 (Some p) (\<lambda>x. x\<lparr>red := False\<rparr>) = Some h2 \<and>
    rd h2 (Some r) right = Some (root_ptr rr) \<and>
    (if root_ptr rr \<noteq> None then wr h2 (root_ptr rr) (\<lambda>x. x\<lparr>red := False\<rparr>) else Some h2) = Some h3 \<and>
    rotate_left h3 (Some p) (Some s) = Some h4 \<and> dom h4 = dom h \<and> tree_in h4 s lm rm (plug (Nd (Nd t p False rl) r pc (blacken rr)) k)"
proof -
  obtain h1 where h1: "wr h (Some r) (\<lambda>x. x\<lparr>red := pc\<rparr>) = Some h1" "dom h1 = dom h" "tree_in h1 s lm rm (plug (Nd t p pc (Nd rl r pc rr)) k)"
    using paint_at [of h s lm rm rl r rc rr "RF t p pc # k" pc] t by auto
  obtain h2 where h2: "wr h1 (Some p) (\<lambda>x. x\<lparr>red := False\<rparr>) = Some h2" "dom h2 = dom h" "tree_in h2 s lm rm (plug (Nd t p False (Nd rl r pc rr)) k)"
    using paint_at [OF h1(3), of False] h1(2) by auto
  obtain h3 where h3: "(if root_ptr rr \<noteq> None then wr h2 (root_ptr rr) (\<lambda>x. x\<lparr>red := False\<rparr>) else Some h2) = Some h3" "dom h3 = dom h"
      "tree_in h3 s lm rm (plug (Nd t p False (Nd rl r pc (blacken rr))) k)"
    using blacken_at [of h2 s lm rm rr "RF rl r pc # RF t p False # k"] h2 by auto
  have "rd h2 (Some r) right = Some (root_ptr rr)" using rd_at [of h2 s lm rm rl r pc rr "RF t p False # k"] h2(3) by simp
  then show ?thesis using rotate_left_at [OF h3(3)] h1 h2 h3 by auto
qed

lemma black_left_outer:
  assumes t: "tree_in h s lm rm (plug (Nd t p pc (Nd rl r rc rr)) k)" and b: "isred rr"
  shows "\<exists>h'. erase_black_left h (Some p) (Some r) (Some s) = Some (None, h') \<and> dom h' = dom h \<and>
    tree_in h' s lm rm (plug (Nd (Nd t p False rl) r pc (blacken rr)) k)"
proof -
  have tr: "tree_in h s lm rm (plug (Nd rl r rc rr) (RF t p pc # k))" using t by simp
  have "is_red h (root_ptr rl) = Some (isred rl)" using is_red_at [of h s lm rm rl "LF r rc rr # RF t p pc # k"] t by simp
  moreover have "is_red h (root_ptr rr) = Some True" using is_red_at [of h s lm rm rr "RF rl r rc # RF t p pc # k"] t b by simp
  ultimately show ?thesis using rd_at [OF tr] rd_at [OF t] outer_left [OF t] b by (cases rr) (auto simp: erase_black_left_def)
qed

lemma black_left_inner:
  assumes t: "tree_in h s lm rm (plug (Nd t p pc (Nd (Nd a x True c) r rc rr)) k)" and b: "\<not> isred rr"
  shows "\<exists>h'. erase_black_left h (Some p) (Some r) (Some s) = Some (None, h') \<and> dom h' = dom h \<and>
    tree_in h' s lm rm (plug (Nd (Nd t p False a) x pc (Nd c r False rr)) k)"
proof -
  have tr: "tree_in h s lm rm (plug (Nd (Nd a x True c) r rc rr) (RF t p pc # k))" using t by simp
  have i: "is_red h (Some x) = Some True" using is_red_at [of h s lm rm "Nd a x True c" "LF r rc rr # RF t p pc # k"] t by simp
  have j: "is_red h (root_ptr rr) = Some False" using is_red_at [of h s lm rm rr "RF (Nd a x True c) r rc # RF t p pc # k"] t b by simp
  obtain h1 h2 h3 where h3: "wr h (Some x) (\<lambda>x. x\<lparr>red := False\<rparr>) = Some h1" "wr h1 (Some r) (\<lambda>x. x\<lparr>red := True\<rparr>) = Some h2"
      "rotate_right h2 (Some r) (Some s) = Some h3" "dom h3 = dom h" "tree_in h3 s lm rm (plug (Nd t p pc (Nd a x False (Nd c r True rr))) k)"
    using paint_rotate_right [OF tr, of False True] by auto
  show ?thesis using rd_at [OF tr] rd_at [OF h3(5)] outer_left [OF h3(5)] i j h3 by (auto simp: erase_black_left_def)
qed

lemma turn_left_red:
  assumes t: "tree_in h s lm rm (plug (Nd t p pc (Nd rl r True rr)) k)"
  shows "\<exists>h'. erase_turn_left h (Some p) (Some s) = erase_black_left h' (Some p) (root_ptr rl) (Some s) \<and> dom h' = dom h \<and>
    tree_in h' s lm rm (plug (Nd t p True rl) (LF r False rr # k))"
proof -
  have i: "is_red h (Some r) = Some True" using is_red_at [of h s lm rm "Nd rl r True rr" "RF t p pc # k"] t by simp
  obtain h1 h2 h3 where h3: "wr h (Some r) (\<lambda>x. x\<lparr>red := False\<rparr>) = Some h1" "wr h1 (Some p) (\<lambda>x. x\<lparr>red := True\<rparr>) = Some h2"
      "rotate_left h2 (Some p) (Some s) = Some h3" "dom h3 = dom h" "tree_in h3 s lm rm (plug (Nd (Nd t p True rl) r False rr) k)"
    using paint_rotate_left [OF t, of False True] by auto
  then show ?thesis using rd_at [OF t] rd_at [of h3 s lm rm t p True rl "LF r False rr # k"] i by (intro exI [of _ h3]) (simp add: erase_turn_left_def)
qed

lemma turn_left_black:
  assumes t: "tree_in h s lm rm (plug (Nd t p pc (Nd rl r False rr)) k)"
  shows "erase_turn_left h (Some p) (Some s) = erase_black_left h (Some p) (Some r) (Some s)"
proof -
  have "is_red h (Some r) = Some False" using is_red_at [of h s lm rm "Nd rl r False rr" "RF t p pc # k"] t by simp
  then show ?thesis using rd_at [OF t] by (simp add: erase_turn_left_def)
qed

text \<open>The same for a place that is a right child.\<close>

lemma black_right_up:
  assumes t: "tree_in h s lm rm (plug (Nd (Nd ll l lc lr) p pc t) k)" and b: "\<not> isred ll" "\<not> isred lr"
  shows "\<exists>h'. erase_black_right h (Some p) (Some l) (Some s) = Some (Some (Some p, Some (up s k)), h') \<and> dom h' = dom h \<and>
    tree_in h' s lm rm (plug (Nd (Nd ll l True lr) p pc t) k)"
proof -
  have tr: "tree_in h s lm rm (plug (Nd ll l lc lr) (LF p pc t # k))" using t by simp
  obtain h1 where h1: "wr h (Some l) (\<lambda>x. x\<lparr>red := True\<rparr>) = Some h1" "dom h1 = dom h" "tree_in h1 s lm rm (plug (Nd (Nd ll l True lr) p pc t) k)"
    using paint_at [OF tr, of True] by auto
  have "is_red h (root_ptr ll) = Some False" using is_red_at [of h s lm rm ll "LF l lc lr # LF p pc t # k"] t b by simp
  moreover have "is_red h (root_ptr lr) = Some False" using is_red_at [of h s lm rm lr "RF ll l lc # LF p pc t # k"] t b by simp
  ultimately show ?thesis using rd_at [OF tr] rd_at [OF h1(3)] h1 by (simp add: erase_black_right_def)
qed

lemma outer_right:
  assumes t: "tree_in h s lm rm (plug (Nd (Nd ll l lc lr) p pc t) k)"
  shows "\<exists>h1 h2 h3 h4. wr h (Some l) (\<lambda>x. x\<lparr>red := pc\<rparr>) = Some h1 \<and> wr h1 (Some p) (\<lambda>x. x\<lparr>red := False\<rparr>) = Some h2 \<and>
    rd h2 (Some l) left = Some (root_ptr ll) \<and>
    (if root_ptr ll \<noteq> None then wr h2 (root_ptr ll) (\<lambda>x. x\<lparr>red := False\<rparr>) else Some h2) = Some h3 \<and>
    rotate_right h3 (Some p) (Some s) = Some h4 \<and> dom h4 = dom h \<and> tree_in h4 s lm rm (plug (Nd (blacken ll) l pc (Nd lr p False t)) k)"
proof -
  obtain h1 where h1: "wr h (Some l) (\<lambda>x. x\<lparr>red := pc\<rparr>) = Some h1" "dom h1 = dom h" "tree_in h1 s lm rm (plug (Nd (Nd ll l pc lr) p pc t) k)"
    using paint_at [of h s lm rm ll l lc lr "LF p pc t # k" pc] t by auto
  obtain h2 where h2: "wr h1 (Some p) (\<lambda>x. x\<lparr>red := False\<rparr>) = Some h2" "dom h2 = dom h" "tree_in h2 s lm rm (plug (Nd (Nd ll l pc lr) p False t) k)"
    using paint_at [OF h1(3), of False] h1(2) by auto
  obtain h3 where h3: "(if root_ptr ll \<noteq> None then wr h2 (root_ptr ll) (\<lambda>x. x\<lparr>red := False\<rparr>) else Some h2) = Some h3" "dom h3 = dom h"
      "tree_in h3 s lm rm (plug (Nd (Nd (blacken ll) l pc lr) p False t) k)"
    using blacken_at [of h2 s lm rm ll "LF l pc lr # LF p False t # k"] h2 by auto
  have "rd h2 (Some l) left = Some (root_ptr ll)" using rd_at [of h2 s lm rm ll l pc lr "LF p False t # k"] h2(3) by simp
  then show ?thesis using rotate_right_at [OF h3(3)] h1 h2 h3 by auto
qed

lemma black_right_outer:
  assumes t: "tree_in h s lm rm (plug (Nd (Nd ll l lc lr) p pc t) k)" and b: "isred ll"
  shows "\<exists>h'. erase_black_right h (Some p) (Some l) (Some s) = Some (None, h') \<and> dom h' = dom h \<and>
    tree_in h' s lm rm (plug (Nd (blacken ll) l pc (Nd lr p False t)) k)"
proof -
  have tr: "tree_in h s lm rm (plug (Nd ll l lc lr) (LF p pc t # k))" using t by simp
  have "is_red h (root_ptr ll) = Some True" using is_red_at [of h s lm rm ll "LF l lc lr # LF p pc t # k"] t b by simp
  moreover have "is_red h (root_ptr lr) = Some (isred lr)" using is_red_at [of h s lm rm lr "RF ll l lc # LF p pc t # k"] t by simp
  ultimately show ?thesis using rd_at [OF tr] rd_at [OF t] outer_right [OF t] b by (cases ll) (auto simp: erase_black_right_def)
qed

lemma black_right_inner:
  assumes t: "tree_in h s lm rm (plug (Nd (Nd ll l lc (Nd a x True c)) p pc t) k)" and b: "\<not> isred ll"
  shows "\<exists>h'. erase_black_right h (Some p) (Some l) (Some s) = Some (None, h') \<and> dom h' = dom h \<and>
    tree_in h' s lm rm (plug (Nd (Nd ll l False a) x pc (Nd c p False t)) k)"
proof -
  have tr: "tree_in h s lm rm (plug (Nd ll l lc (Nd a x True c)) (LF p pc t # k))" using t by simp
  have i: "is_red h (Some x) = Some True" using is_red_at [of h s lm rm "Nd a x True c" "RF ll l lc # LF p pc t # k"] t by simp
  have j: "is_red h (root_ptr ll) = Some False" using is_red_at [of h s lm rm ll "LF l lc (Nd a x True c) # LF p pc t # k"] t b by simp
  obtain h1 h2 h3 where h3: "wr h (Some x) (\<lambda>x. x\<lparr>red := False\<rparr>) = Some h1" "wr h1 (Some l) (\<lambda>x. x\<lparr>red := True\<rparr>) = Some h2"
      "rotate_left h2 (Some l) (Some s) = Some h3" "dom h3 = dom h" "tree_in h3 s lm rm (plug (Nd (Nd (Nd ll l True a) x False c) p pc t) k)"
    using paint_rotate_left [OF tr, of False True] by auto
  show ?thesis using rd_at [OF tr] rd_at [OF h3(5)] outer_right [OF h3(5)] i j h3 by (auto simp: erase_black_right_def)
qed

lemma turn_right_red:
  assumes t: "tree_in h s lm rm (plug (Nd (Nd ll l True lr) p pc t) k)"
  shows "\<exists>h'. erase_turn_right h (Some p) (Some s) = erase_black_right h' (Some p) (root_ptr lr) (Some s) \<and> dom h' = dom h \<and>
    tree_in h' s lm rm (plug (Nd lr p True t) (RF ll l False # k))"
proof -
  have i: "is_red h (Some l) = Some True" using is_red_at [of h s lm rm "Nd ll l True lr" "LF p pc t # k"] t by simp
  obtain h1 h2 h3 where h3: "wr h (Some l) (\<lambda>x. x\<lparr>red := False\<rparr>) = Some h1" "wr h1 (Some p) (\<lambda>x. x\<lparr>red := True\<rparr>) = Some h2"
      "rotate_right h2 (Some p) (Some s) = Some h3" "dom h3 = dom h" "tree_in h3 s lm rm (plug (Nd ll l False (Nd lr p True t)) k)"
    using paint_rotate_right [OF t, of False True] by auto
  then show ?thesis using rd_at [OF t] rd_at [of h3 s lm rm lr p True t "RF ll l False # k"] i by (intro exI [of _ h3]) (simp add: erase_turn_right_def)
qed

lemma turn_right_black:
  assumes t: "tree_in h s lm rm (plug (Nd (Nd ll l False lr) p pc t) k)"
  shows "erase_turn_right h (Some p) (Some s) = erase_black_right h (Some p) (Some l) (Some s)"
proof -
  have "is_red h (Some l) = Some False" using is_red_at [of h s lm rm "Nd ll l False lr" "LF p pc t # k"] t by simp
  then show ?thesis using rd_at [OF t] by (simp add: erase_turn_right_def)
qed

section \<open>The loop\<close>

text \<open>The paths through the place lack one black node; a red node at the place can be painted black.\<close>

definition lacking :: "'p ptree \<Rightarrow> 'p frame list \<Rightarrow> bool" where
  "lacking t k \<longleftrightarrow> invc (blacken t) \<and> invh t \<and> ctx_c k False \<and> ctx_h k (Suc (bh t))"

definition erase_finish :: "'p rb_heap \<Rightarrow> 'p option \<Rightarrow> 'p option \<Rightarrow> 'p option \<Rightarrow> 'p rb_heap option" where
  "erase_finish h c p s = do { (c, h) \<leftarrow> erase_fix h c p s; if c \<noteq> None then wr h c (\<lambda>x. x\<lparr>red := False\<rparr>) else Some h }"

definition repaired :: "'p rb_heap \<Rightarrow> 'p \<Rightarrow> 'p option \<Rightarrow> 'p option \<Rightarrow> 'p option \<Rightarrow> 'p option \<Rightarrow> 'p list \<Rightarrow> bool" where
  "repaired h s lm rm c p xs \<longleftrightarrow> (\<exists>h' t. erase_finish h c p (Some s) = Some h' \<and> dom h' = dom h \<and> tree_in h' s lm rm t \<and> addrs t = xs \<and> balanced t)"

lemma repaired_stop:
  assumes t: "tree_in h s lm rm (plug t k)" and l: "lacking t k" and e: "k = [] \<or> isred t"
  shows "repaired h s lm rm (root_ptr t) p (addrs (plug t k))"
proof -
  have "root_ptr (plug t k) = root_ptr t \<or> isred t" using e by auto
  then have f: "erase_fix h (root_ptr t) p (Some s) = Some (root_ptr t, h)"
    using is_red_at [OF t] rd_root [OF t] by (subst erase_fix.simps) auto
  have "balanced (plug (blacken t) k)"
    using l e by (auto simp: balanced_plug lacking_def bh_blacken)
  moreover obtain h' where "(if root_ptr t \<noteq> None then wr h (root_ptr t) (\<lambda>x. x\<lparr>red := False\<rparr>) else Some h) = Some h'" "dom h' = dom h"
      "tree_in h' s lm rm (plug (blacken t) k)" using blacken_at [OF t] by blast
  ultimately show ?thesis using f unfolding repaired_def erase_finish_def
    by (intro exI [of _ h'] exI [of _ "plug (blacken t) k"]) (cases t; simp add: addrs_plug)
qed

lemma repaired_break:
  assumes f: "erase_fix h (root_ptr t) p (Some s) = Some (root_ptr t, h')" "dom h' = dom h" and t: "tree_in h' s lm rm (plug t k)" "\<not> isred t" and b: "balanced (plug t k)"
  shows "repaired h s lm rm (root_ptr t) p (addrs (plug t k))"
  using f blacken_at [OF t(1)] b t(2) by (cases t) (auto simp: repaired_def erase_finish_def blacken_black)

lemma repaired_again:
  "erase_fix h c p (Some s) = erase_fix h' c' p' (Some s) \<Longrightarrow> dom h' = dom h \<Longrightarrow> repaired h' s lm rm c' p' xs \<Longrightarrow> repaired h s lm rm c p xs"
  by (auto simp: repaired_def erase_finish_def)

lemma erase_fix_left:
  assumes t: "tree_in h s lm rm (plug (Nd t p pc r) k)" and b: "\<not> isred t"
  shows "erase_fix h (root_ptr t) (Some p) (Some s) = do {
    (nxt, h) \<leftarrow> erase_turn_left h (Some p) (Some s);
    case nxt of None \<Rightarrow> Some (root_ptr t, h) | Some (c, p) \<Rightarrow> erase_fix h c p (Some s) }"
proof -
  have tt: "tree_in h s lm rm (plug t (LF p pc r # k))" using t by simp
  have "root_ptr t \<noteq> root_ptr (plug (Nd t p pc r) k)"
  proof (cases t)
    case Lf
    have "addrs (plug (Nd t p pc r) k) \<noteq> []" by (simp add: addrs_plug)
    then show ?thesis using Lf by auto
  next
    case (Nd a x c d)
    then show ?thesis using is_root_iff [of h s lm rm a x c d "LF p pc r # k"] tt by auto
  qed
  then show ?thesis using is_red_at [OF tt] b rd_root [OF t] rd_at [OF t] by (subst erase_fix.simps) simp
qed

lemma erase_fix_right:
  assumes t: "tree_in h s lm rm (plug (Nd l p pc t) k)" and b: "\<not> isred t" and l: "l \<noteq> Lf"
  shows "erase_fix h (root_ptr t) (Some p) (Some s) = do {
    (nxt, h) \<leftarrow> erase_turn_right h (Some p) (Some s);
    case nxt of None \<Rightarrow> Some (root_ptr t, h) | Some (c, p) \<Rightarrow> erase_fix h c p (Some s) }"
proof -
  have tt: "tree_in h s lm rm (plug t (RF l p pc # k))" using t by simp
  have "root_ptr t \<noteq> root_ptr (plug (Nd l p pc t) k) \<and> root_ptr t \<noteq> root_ptr l"
  proof (cases t)
    case Lf
    have "addrs (plug (Nd l p pc t) k) \<noteq> []" by (simp add: addrs_plug)
    then show ?thesis using Lf l by auto
  next
    case (Nd a x c d)
    have "x \<notin> set (addrs l)" using tree_inD(4) [OF tt] Nd by auto
    then show ?thesis using is_root_iff [of h s lm rm a x c d "RF l p pc # k"] tt Nd by (auto simp: root_notin)
  qed
  then show ?thesis using is_red_at [OF tt] b rd_root [OF t] rd_at [OF t] by (subst erase_fix.simps) simp
qed

text \<open>A black sibling: the three ways to go on, for a parent of either colour.\<close>

lemma lacking_black_left:
  assumes t: "tree_in h s lm rm (plug (Nd t p pc (Nd rl r False rr)) k)" and b: "\<not> isred t" and l: "lacking t (LF p pc (Nd rl r False rr) # k)"
    and f: "erase_fix h0 (root_ptr t) (Some p) (Some s) = do {
      (nxt, h) \<leftarrow> erase_black_left h (Some p) (Some r) (Some s);
      case nxt of None \<Rightarrow> Some (root_ptr t, h) | Some (c, p) \<Rightarrow> erase_fix h c p (Some s) }" "dom h = dom h0"
    and IH: "\<And>h' t'. tree_in h' s lm rm (plug t' k) \<Longrightarrow> lacking t' k \<Longrightarrow> \<not> pc \<Longrightarrow> repaired h' s lm rm (root_ptr t') (Some (up s k)) (addrs (plug t' k))"
  shows "repaired h0 s lm rm (root_ptr t) (Some p) (addrs (plug (Nd t p pc (Nd rl r False rr)) k))"
proof (cases "isred rr")
  case True
  obtain h' where h': "erase_black_left h (Some p) (Some r) (Some s) = Some (None, h')" "dom h' = dom h"
      "tree_in h' s lm rm (plug (Nd (Nd t p False rl) r pc (blacken rr)) k)"
    using black_left_outer [OF t True] by blast
  let ?k = "LF p False rl # LF r pc (blacken rr) # k"
  have "balanced (plug t ?k)" unfolding balanced_plug using l b True ctx_c_False by (auto simp: lacking_def blacken_black bh_blacken dest: invc_blackenD)
  then show ?thesis using repaired_break [of h0 t "Some p" s h' lm rm ?k] f h' b by (simp add: addrs_plug)
next
  case False
  show ?thesis
  proof (cases "isred rl")
    case True
    then obtain a x c where rl: "rl = Nd a x True c" by (cases rl) auto
    obtain h' where h': "erase_black_left h (Some p) (Some r) (Some s) = Some (None, h')" "dom h' = dom h"
        "tree_in h' s lm rm (plug (Nd (Nd t p False a) x pc (Nd c r False rr)) k)"
      using black_left_inner [OF t [unfolded rl] False] by blast
    let ?k = "LF p False a # LF x pc (Nd c r False rr) # k"
    have "balanced (plug t ?k)" unfolding balanced_plug using l b False rl by (auto simp: lacking_def blacken_black)
    then show ?thesis using repaired_break [of h0 t "Some p" s h' lm rm ?k] f h' b rl by (simp add: addrs_plug)
  next
    case nrl: False
    obtain h' where h': "erase_black_left h (Some p) (Some r) (Some s) = Some (Some (Some p, Some (up s k)), h')" "dom h' = dom h"
        "tree_in h' s lm rm (plug (Nd t p pc (Nd rl r True rr)) k)"
      using black_left_up [OF t nrl False] by blast
    let ?t = "Nd t p pc (Nd rl r True rr)"
    have lk: "lacking ?t k" using l b False nrl ctx_c_False by (auto simp: lacking_def blacken_black)
    have "repaired h' s lm rm (Some p) (Some (up s k)) (addrs (plug ?t k))"
      using repaired_stop [OF h'(3) lk, of "Some (up s k)"] IH [OF h'(3) lk] by (cases pc) simp_all
    then show ?thesis using repaired_again [of h0 "root_ptr t" "Some p" s h' "Some p" "Some (up s k)"] f h' by (simp add: addrs_plug)
  qed
qed

lemma lacking_black_right:
  assumes t: "tree_in h s lm rm (plug (Nd (Nd ll l False lr) p pc t) k)" and b: "\<not> isred t" and l: "lacking t (RF (Nd ll l False lr) p pc # k)"
    and f: "erase_fix h0 (root_ptr t) (Some p) (Some s) = do {
      (nxt, h) \<leftarrow> erase_black_right h (Some p) (Some l) (Some s);
      case nxt of None \<Rightarrow> Some (root_ptr t, h) | Some (c, p) \<Rightarrow> erase_fix h c p (Some s) }" "dom h = dom h0"
    and IH: "\<And>h' t'. tree_in h' s lm rm (plug t' k) \<Longrightarrow> lacking t' k \<Longrightarrow> \<not> pc \<Longrightarrow> repaired h' s lm rm (root_ptr t') (Some (up s k)) (addrs (plug t' k))"
  shows "repaired h0 s lm rm (root_ptr t) (Some p) (addrs (plug (Nd (Nd ll l False lr) p pc t) k))"
proof (cases "isred ll")
  case True
  obtain h' where h': "erase_black_right h (Some p) (Some l) (Some s) = Some (None, h')" "dom h' = dom h"
      "tree_in h' s lm rm (plug (Nd (blacken ll) l pc (Nd lr p False t)) k)"
    using black_right_outer [OF t True] by blast
  let ?k = "RF lr p False # RF (blacken ll) l pc # k"
  have "balanced (plug t ?k)" unfolding balanced_plug using l b True ctx_c_False by (auto simp: lacking_def blacken_black bh_blacken dest: invc_blackenD)
  then show ?thesis using repaired_break [of h0 t "Some p" s h' lm rm ?k] f h' b by (simp add: addrs_plug)
next
  case False
  show ?thesis
  proof (cases "isred lr")
    case True
    then obtain a x c where lr: "lr = Nd a x True c" by (cases lr) auto
    obtain h' where h': "erase_black_right h (Some p) (Some l) (Some s) = Some (None, h')" "dom h' = dom h"
        "tree_in h' s lm rm (plug (Nd (Nd ll l False a) x pc (Nd c p False t)) k)"
      using black_right_inner [OF t [unfolded lr] False] by blast
    let ?k = "RF c p False # RF (Nd ll l False a) x pc # k"
    have "balanced (plug t ?k)" unfolding balanced_plug using l b False lr by (auto simp: lacking_def blacken_black)
    then show ?thesis using repaired_break [of h0 t "Some p" s h' lm rm ?k] f h' b lr by (simp add: addrs_plug)
  next
    case nlr: False
    obtain h' where h': "erase_black_right h (Some p) (Some l) (Some s) = Some (Some (Some p, Some (up s k)), h')" "dom h' = dom h"
        "tree_in h' s lm rm (plug (Nd (Nd ll l True lr) p pc t) k)"
      using black_right_up [OF t False nlr] by blast
    let ?t = "Nd (Nd ll l True lr) p pc t"
    have lk: "lacking ?t k" using l b False nlr ctx_c_False by (auto simp: lacking_def blacken_black)
    have "repaired h' s lm rm (Some p) (Some (up s k)) (addrs (plug ?t k))"
      using repaired_stop [OF h'(3) lk, of "Some (up s k)"] IH [OF h'(3) lk] by (cases pc) simp_all
    then show ?thesis using repaired_again [of h0 "root_ptr t" "Some p" s h' "Some p" "Some (up s k)"] f h' by (simp add: addrs_plug)
  qed
qed

lemma erase_fix_ok:
  assumes "tree_in h s lm rm (plug t k)" and "lacking t k" and "k \<noteq> [] \<longrightarrow> p = Some (up s k)"
  shows "repaired h s lm rm (root_ptr t) p (addrs (plug t k))"
  using assms
proof (induction k arbitrary: h t p)
  case Nil
  then show ?case using repaired_stop [of h s lm rm t "[]"] by simp
next
  case (Cons f k)
  note t = Cons.prems(1) and l = Cons.prems(2)
  have ih: "repaired h' s lm rm (root_ptr t') (Some (up s k)) (addrs (plug t' k))" if "tree_in h' s lm rm (plug t' k)" "lacking t' k" for h' t'
    using Cons.IH [OF that] by simp
  show ?case
  proof (cases "isred t")
    case True
    then show ?thesis using repaired_stop [OF t l] by simp
  next
    case b: False
    show ?thesis
    proof (cases f)
      case (LF a pc R)
      then obtain rl r rc rr where R: "R = Nd rl r rc rr" using l by (cases R) (auto simp: lacking_def)
      have ta: "tree_in h s lm rm (plug (Nd t a pc R) k)" using t LF by simp
      note go = erase_fix_left [OF ta b]
      show ?thesis
      proof (cases rc)
        case False
        then show ?thesis
          using lacking_black_left [of h s lm rm t a pc rl r rr k h] ta b l go turn_left_black [of h s lm rm t a pc rl r rr k] ih Cons.prems(3) LF R by simp
      next
        case True
        obtain h' where h': "erase_turn_left h (Some a) (Some s) = erase_black_left h' (Some a) (root_ptr rl) (Some s)" "dom h' = dom h"
            "tree_in h' s lm rm (plug (Nd t a True rl) (LF r False rr # k))"
          using turn_left_red [of h s lm rm t a pc rl r rr k] ta R True by auto
        have pc: "\<not> pc" "\<not> isred rl" "bh rl = Suc (bh t)" using l LF R True by (auto simp: lacking_def)
        then obtain x y z where rl: "rl = Nd x y False z" by (cases rl) auto
        have "lacking t (LF a True rl # LF r False rr # k)" using l b LF R True pc by (auto simp: lacking_def)
        then show ?thesis
          using lacking_black_left [of h' s lm rm t a True x y z "LF r False rr # k" h] h' b go LF R Cons.prems(3) rl by (simp add: addrs_plug)
      qed
    next
      case (RF L a pc)
      then obtain ll q lc lr where L: "L = Nd ll q lc lr" using l by (cases L) (auto simp: lacking_def)
      have ta: "tree_in h s lm rm (plug (Nd L a pc t) k)" using t RF by simp
      have ne: "L \<noteq> Lf" using L by simp
      note go = erase_fix_right [OF ta b ne]
      show ?thesis
      proof (cases lc)
        case False
        then show ?thesis
          using lacking_black_right [of h s lm rm ll q lr a pc t k h] ta b l go turn_right_black [of h s lm rm ll q lr a pc t k] ih Cons.prems(3) RF L by simp
      next
        case True
        obtain h' where h': "erase_turn_right h (Some a) (Some s) = erase_black_right h' (Some a) (root_ptr lr) (Some s)" "dom h' = dom h"
            "tree_in h' s lm rm (plug (Nd lr a True t) (RF ll q False # k))"
          using turn_right_red [of h s lm rm ll q lr a pc t k] ta L True by auto
        have pc: "\<not> pc" "\<not> isred lr" "bh lr = Suc (bh t)" using l RF L True by (auto simp: lacking_def)
        then obtain x y z where lr: "lr = Nd x y False z" by (cases lr) auto
        have "lacking t (RF lr a True # RF ll q False # k)" using l b RF L True pc by (auto simp: lacking_def)
        then show ?thesis
          using lacking_black_right [of h' s lm rm x y z a True t "RF ll q False # k" h] h' b go RF L Cons.prems(3) lr by (simp add: addrs_plug)
      qed
    qed
  qed
qed

end
