(* ===== verification/Rbtree_Unlink.thy ===== *)
theory Rbtree_Unlink
  imports Rbtree_Erase
begin

text \<open>
  The first half of \<^verbatim>\<open>rbtree_algorithm::erase\<close>: a node with at most one child is spliced out, a node with two children is replaced by its
  successor; then both halves together.
\<close>

lemma min_child_ok: "rep h q t \<Longrightarrow> t \<noteq> Lf \<Longrightarrow> min_child h (root_ptr t) = Some (Some (hd (addrs t)))"
proof (induction t arbitrary: q)
  case (Nd l a c r)
  then show ?case by (subst min_child.simps) (auto simp: rd_Some hd_append)
qed simp

lemma max_child_ok: "rep h q t \<Longrightarrow> t \<noteq> Lf \<Longrightarrow> max_child h (root_ptr t) = Some (Some (last (addrs t)))"
proof (induction t arbitrary: q)
  case (Nd l a c r)
  then show ?case by (subst max_child.simps) (auto simp: rd_Some)
qed simp

section \<open>A node with at most one child\<close>

lemma splice_ok:
  assumes t: "tree_in h s lm rm (plug (Nd l n c r) k)" and cc: "l = Lf \<and> cc = r \<or> r = Lf \<and> cc = l"
  shows "\<exists>h'. erase_splice h (Some n) (root_ptr cc) (Some s) = Some (Some (up s k), h') \<and> dom h' = dom h \<and> h' n = h n \<and> tree_in h' s lm rm (plug cc k)"
proof -
  note d = tree_inD [OF t]
  have root: "root_ptr (plug (Nd l n c r) k) = Some n \<longleftrightarrow> k = []" using is_root_iff [OF t] by auto
  show ?thesis
  proof (cases "(s, k)" rule: up.cases)
    case 1
    then show ?thesis using d root cc by (cases cc) (auto simp: erase_splice_def rd_Some wr_Some tree_in_def)
  next
    case (2 _ a ca ra k')
    then show ?thesis
      using d root cc root_plug [of "Nd l n c r" cc k]
      by (cases cc) (auto simp: erase_splice_def rd_Some wr_Some is_left_child_def tree_in_def rep_plug addrs_plug)
  next
    case (3 _ la a ca k')
    then show ?thesis
      using d root cc root_plug [of "Nd l n c r" cc k]
      by (cases cc) (auto simp: erase_splice_def rd_Some wr_Some is_left_child_def tree_in_def rep_plug addrs_plug root_notin)
  qed
qed

lemma set_first: "tree_in h s lm rm t \<Longrightarrow> \<exists>h'. wr h (Some s) (\<lambda>x. x\<lparr>left := m\<rparr>) = Some h' \<and> dom h' = dom h \<and> tree_in h' s m rm t \<and> (\<forall>a. a \<noteq> s \<longrightarrow> h' a = h a)"
  by (auto simp: tree_in_def wr_Some)

lemma set_last: "tree_in h s lm rm t \<Longrightarrow> \<exists>h'. wr h (Some s) (\<lambda>x. x\<lparr>right := m\<rparr>) = Some h' \<and> dom h' = dom h \<and> tree_in h' s lm m t \<and> (\<forall>a. a \<noteq> s \<longrightarrow> h' a = h a)"
  by (auto simp: tree_in_def wr_Some)

lemma up_ends: "lctx k = [] \<Longrightarrow> up s k = hd (rctx k @ [s])" "rctx k = [] \<Longrightarrow> up s k = last (s # lctx k)"
  by (cases "(s, k)" rule: up.cases; simp)+

text \<open>The source repairs the pointers to the first and the last node when \<open>n\<close> was one of them.\<close>

lemma ends_ok:
  assumes t: "tree_in h s (Some (hd (addrs (plug (Nd l n c r) k) @ [s]))) (Some (last (s # addrs (plug (Nd l n c r) k)))) (plug cc k)"
    and n: "h n = Some \<lparr>right = root_ptr r, left = root_ptr l, parent = Some (up s k), red = c\<rparr>" "n \<notin> insert s (set (addrs (plug cc k)))"
    and cc: "l = Lf \<and> cc = r \<or> r = Lf \<and> cc = l"
  shows "\<exists>h'. erase_ends h (Some n) (root_ptr cc) (Some s) = Some h' \<and> dom h' = dom h \<and> h' n = h n \<and> whole_tree h' s (plug cc k)"
proof -
  have first: "Some n = Some (hd (addrs (plug (Nd l n c r) k) @ [s])) \<longleftrightarrow> lctx k = [] \<and> l = Lf"
    using n(2) cc unfolding addrs_plug by (cases "lctx k"; cases "addrs l") auto
  have last: "Some n = Some (last (s # addrs (plug (Nd l n c r) k))) \<longleftrightarrow> rctx k = [] \<and> r = Lf"
    using n(2) cc unfolding addrs_plug by (cases "rctx k" rule: rev_cases; cases "addrs r" rule: rev_cases) auto
  have hd': "hd (addrs (plug cc k) @ [s]) = (if lctx k = [] \<and> l = Lf then hd (addrs r @ [up s k]) else hd (addrs (plug (Nd l n c r) k) @ [s]))"
    using cc up_ends(1) [of k s] by (cases "lctx k"; cases "addrs l"; cases "addrs r") (auto simp: addrs_plug)
  have last': "last (s # addrs (plug cc k)) = (if rctx k = [] \<and> r = Lf then last (up s k # addrs l) else last (s # addrs (plug (Nd l n c r) k)))"
    using cc up_ends(2) [of k s] by (cases "rctx k" rule: rev_cases; cases "addrs r" rule: rev_cases; cases "addrs l" rule: rev_cases) (auto simp: addrs_plug)
  define lm rm where "lm = Some (hd (addrs (plug (Nd l n c r) k) @ [s]))" and "rm = Some (last (s # addrs (plug (Nd l n c r) k)))"
  note t = t [folded lm_def rm_def] and first = first [folded lm_def] and last = last [folded rm_def]
  obtain h1 where h1: "(if Some n = lm then do {
         r \<leftarrow> rd h (Some n) right;
         if r \<noteq> None then do { sk_assert (root_ptr cc \<noteq> None); m \<leftarrow> min_child h (root_ptr cc); wr h (Some s) (\<lambda>x. x\<lparr>left := m\<rparr>) }
         else do { q \<leftarrow> rd h (Some n) parent; wr h (Some s) (\<lambda>x. x\<lparr>left := q\<rparr>) }
       } else Some h) = Some h1" "dom h1 = dom h" "\<forall>a. a \<noteq> s \<longrightarrow> h1 a = h a" "tree_in h1 s (Some (hd (addrs (plug cc k) @ [s]))) rm (plug cc k)"
  proof (cases "lctx k = [] \<and> l = Lf")
    case True
    then have r: "cc = r" using cc by auto
    show ?thesis
    proof (cases "r = Lf")
      case True
      then show ?thesis using that first \<open>lctx k = [] \<and> l = Lf\<close> set_first [OF t, of "Some (up s k)"] n(1) hd' by (auto simp: rd_Some)
    next
      case False
      then show ?thesis using that first \<open>lctx k = [] \<and> l = Lf\<close> set_first [OF t, of "Some (hd (addrs r))"] n(1) hd' min_child_ok [OF tree_inD(2) [OF t]] r
        by (cases r) (auto simp: rd_Some hd_append split: if_splits)
    qed
  next
    case False
    then show ?thesis using that [of h] first hd' t by (auto simp: lm_def)
  qed
  have n1: "h1 n = h n" using h1(3) n(2) by auto
  obtain h2 where h2: "(if Some n = rm then do {
         l \<leftarrow> rd h1 (Some n) left;
         if l \<noteq> None then do { sk_assert (root_ptr cc \<noteq> None); m \<leftarrow> max_child h1 (root_ptr cc); wr h1 (Some s) (\<lambda>x. x\<lparr>right := m\<rparr>) }
         else do { q \<leftarrow> rd h1 (Some n) parent; wr h1 (Some s) (\<lambda>x. x\<lparr>right := q\<rparr>) }
       } else Some h1) = Some h2" "dom h2 = dom h" "\<forall>a. a \<noteq> s \<longrightarrow> h2 a = h1 a" "whole_tree h2 s (plug cc k)"
  proof (cases "rctx k = [] \<and> r = Lf")
    case True
    then have l: "cc = l" using cc by auto
    show ?thesis
    proof (cases "l = Lf")
      case True
      then show ?thesis using that last \<open>rctx k = [] \<and> r = Lf\<close> set_last [OF h1(4), of "Some (up s k)"] n(1) n1 last' h1(2) by (auto simp: rd_Some whole_tree_def)
    next
      case False
      then show ?thesis using that last \<open>rctx k = [] \<and> r = Lf\<close> set_last [OF h1(4), of "Some (List.last (addrs l))"] n(1) n1 last' h1(2) max_child_ok [OF tree_inD(2) [OF h1(4)]] l
        by (cases l) (auto simp: rd_Some whole_tree_def split: if_splits)
    qed
  next
    case False
    then show ?thesis using that [of h1] last last' h1 by (auto simp: rm_def whole_tree_def)
  qed
  have "rd h (Some s) left = Some lm" "rd h1 (Some s) right = Some rm" using sentinel_at [OF t] sentinel_at [OF h1(4)] by (simp_all add: rd_Some)
  then have "erase_ends h (Some n) (root_ptr cc) (Some s) = Some h2" using h1(1) h2(1) by (simp add: erase_ends_def)
  then show ?thesis using h2 n1 n(2) by auto
qed

section \<open>A node with two children\<close>

text \<open>The successor \<open>x\<close>, with its new children in place, takes the place and the colour of \<open>n\<close>.\<close>

lemma replace_ok:
  assumes hs: "h s = Some \<lparr>right = rm, left = lm, parent = (if k = [] then Some n else root_ptr (plug Lf k)), red = True\<rparr>"
    and hn: "h n = Some \<lparr>right = nr, left = nl, parent = Some (up s k), red = c\<rparr>" and ctx: "rep_ctx h s (Some n) k"
    and hx: "h x = Some \<lparr>right = root_ptr r, left = root_ptr l, parent = q, red = cx\<rparr>" "rep h x l" "rep h x r"
    and d: "distinct (s # lctx k @ addrs l @ x # addrs r @ rctx k)" "n \<notin> set (s # lctx k @ addrs l @ x # addrs r @ rctx k)"
  shows "\<exists>h'. erase_replace h (Some n) (Some x) (Some s) = Some h' \<and> dom h' = dom h \<and> h' n = Some \<lparr>right = nr, left = nl, parent = Some (up s k), red = cx\<rparr> \<and>
    tree_in h' s lm rm (plug (Nd l x c r) k)"
proof -
  have root: "k \<noteq> [] \<Longrightarrow> root_ptr (plug Lf k) \<noteq> Some n" using root_notin [of n "plug Lf k"] d(2) by (simp add: addrs_plug)
  show ?thesis
  proof (cases "(s, k)" rule: up.cases)
    case 1
    then show ?thesis using assms by (auto simp: erase_replace_def rd_Some wr_Some tree_in_def)
  next
    case (2 _ a ca ra k')
    then show ?thesis
      using assms root root_plug [of Lf "Nd l x c r" k] by (auto simp: erase_replace_def rd_Some wr_Some is_left_child_def tree_in_def rep_plug addrs_plug)
  next
    case (3 _ la a ca k')
    then show ?thesis
      using assms root root_plug [of Lf "Nd l x c r" k] by (auto simp: erase_replace_def rd_Some wr_Some is_left_child_def tree_in_def rep_plug addrs_plug root_notin)
  qed
qed

lemma reparent:
  assumes "rep h q t" "distinct (addrs t)" "t \<noteq> Lf"
  shows "\<exists>h'. wr h (root_ptr t) (\<lambda>x. x\<lparr>parent := Some a\<rparr>) = Some h' \<and> rep h' a t \<and> dom h' = dom h \<and> (\<forall>x. x \<notin> set (addrs t) \<longrightarrow> h' x = h x)"
proof (cases t)
  case (Nd l b c r)
  then show ?thesis using assms by (intro exI [of _ "h(b := Some \<lparr>right = root_ptr r, left = root_ptr l, parent = Some a, red = c\<rparr>)"]) (auto simp: wr_def)
qed (use assms in simp)

lemma rep_cong: "rep h q t \<Longrightarrow> \<forall>x \<in> set (addrs t). h' x = h x \<Longrightarrow> rep h' q t"
  by (induction t arbitrary: q) auto

lemma rep_ctx_cong: "rep_ctx h s p k \<Longrightarrow> \<forall>x \<in> set (lctx k) \<union> set (rctx k). h' x = h x \<Longrightarrow> rep_ctx h' s p k"
  by (induction h s p k rule: rep_ctx.induct) (auto intro: rep_cong)

text \<open>The successor leaves the right subtree.\<close>

lemma drop_min:
  assumes "rep_ctx h n (Some x) k" "rep h x t" "lctx k = []" "k \<noteq> []" "distinct (addrs t @ rctx k)"
  shows "\<exists>h1 h2. (if root_ptr t \<noteq> None then wr h (root_ptr t) (\<lambda>y. y\<lparr>parent := Some (up n k)\<rparr>) else Some h) = Some h1 \<and>
    wr h1 (Some (up n k)) (\<lambda>y. y\<lparr>left := root_ptr t\<rparr>) = Some h2 \<and> rep h2 n (plug t k) \<and> dom h2 = dom h \<and>
    (\<forall>a. a \<notin> set (addrs t @ rctx k) \<longrightarrow> h2 a = h a)"
  using assms
proof (cases "(n, k)" rule: up.cases)
  case (2 _ p cp rp k')
  then show ?thesis using assms by (cases t) (auto simp: wr_Some rep_plug)
qed auto

lemma min_split: "r \<noteq> Lf \<Longrightarrow> \<exists>x c t k. r = plug (Nd Lf x c t) k \<and> lctx k = []"
proof (induction r)
  case (Nd l a c r)
  show ?case
  proof (cases "l = Lf")
    case True
    then show ?thesis by (intro exI [of _ a] exI [of _ c] exI [of _ r] exI [of _ "[]"]) simp
  next
    case False
    then obtain x c' t k where l: "l = plug (Nd Lf x c' t) k" "lctx k = []" using Nd by blast
    have "plug t' (k @ [LF a c r]) = Nd (plug t' k) a c r" for t' by (induction t' k rule: plug.induct) auto
    moreover have "lctx (k @ [LF a c r]) = lctx k" by (induction k rule: lctx.induct) auto
    ultimately show ?thesis using l by (intro exI [of _ x] exI [of _ c'] exI [of _ t] exI [of _ "k @ [LF a c r]"]) simp
  qed
qed simp

lemma plug_append: "plug t (k1 @ k2) = plug (plug t k1) k2"
  by (induction t k1 rule: plug.induct) simp_all

lemma up_append: "up s (k1 @ k2) = up (up s k2) k1"
  by (cases "(s, k1)" rule: up.cases) simp_all

text \<open>The left subtree and the successor are joined first.\<close>

lemma join_left:
  assumes "rep h n l" "l \<noteq> Lf" "h x = Some \<lparr>right = xr, left = None, parent = q, red = cx\<rparr>" "x \<notin> set (addrs l)" "distinct (addrs l)"
  shows "\<exists>h1 h2. wr h (root_ptr l) (\<lambda>y. y\<lparr>parent := Some x\<rparr>) = Some h1 \<and> wr h1 (Some x) (\<lambda>y. y\<lparr>left := root_ptr l\<rparr>) = Some h2 \<and>
    h2 x = Some \<lparr>right = xr, left = root_ptr l, parent = q, red = cx\<rparr> \<and> rep h2 x l \<and> dom h2 = dom h \<and> (\<forall>a. a \<notin> insert x (set (addrs l)) \<longrightarrow> h2 a = h a)"
  using assms by (cases l) (auto simp: wr_Some)

lemma two_children_next:
  assumes t: "tree_in h s lm rm (plug (Nd l n c (Nd Lf x cx xr)) k)" and l: "l \<noteq> Lf"
  shows "\<exists>h'. erase_two_children h (Some n) (Some x) (root_ptr xr) (Some s) = Some (Some x, h') \<and> dom h' = dom h \<and>
    (\<exists>y. h' n = Some y \<and> red y = cx) \<and> tree_in h' s lm rm (plug (Nd l x c xr) k)"
proof -
  note d = tree_inD [OF t]
  obtain h1 h2 where h2: "wr h (root_ptr l) (\<lambda>y. y\<lparr>parent := Some x\<rparr>) = Some h1" "wr h1 (Some x) (\<lambda>y. y\<lparr>left := root_ptr l\<rparr>) = Some h2"
      "h2 x = Some \<lparr>right = root_ptr xr, left = root_ptr l, parent = Some n, red = cx\<rparr>" "rep h2 x l" "dom h2 = dom h" "\<forall>a. a \<notin> insert x (set (addrs l)) \<longrightarrow> h2 a = h a"
    using join_left [of h n l x "root_ptr xr" "Some n" cx] d(2,4) l by auto
  have hs: "h2 s = Some \<lparr>right = rm, left = lm, parent = (if k = [] then Some n else root_ptr (plug Lf k)), red = True\<rparr>"
    using h2(6) d(1,4) root_plug [of Lf "Nd l n c (Nd Lf x cx xr)" k] by auto
  have hn: "h2 n = Some \<lparr>right = Some x, left = root_ptr l, parent = Some (up s k), red = c\<rparr>" using h2(6) d(2,4) by auto
  have ctx: "rep_ctx h2 s (Some n) k" by (rule rep_ctx_cong [of h]) (use d(3,4) h2(6) in auto)
  have "rep h2 x xr" by (rule rep_cong [of h]) (use d(2,4) h2(6) in auto)
  then obtain h3 where "erase_replace h2 (Some n) (Some x) (Some s) = Some h3" "dom h3 = dom h2"
      "h3 n = Some \<lparr>right = Some x, left = root_ptr l, parent = Some (up s k), red = cx\<rparr>" "tree_in h3 s lm rm (plug (Nd l x c xr) k)"
    using replace_ok [OF hs hn ctx h2(3,4)] d(4) by auto
  moreover have "rd h (Some n) left = Some (root_ptr l)" "rd h2 (Some n) right = Some (Some x)" using d(2) hn by (simp_all add: rd_Some)
  ultimately show ?thesis using h2 by (auto simp: erase_two_children_def)
qed

lemma two_children_far:
  assumes t: "tree_in h s lm rm (plug (Nd l n c (plug (Nd Lf x cx xr) kr)) k)" and l: "l \<noteq> Lf" and kr: "lctx kr = []" "kr \<noteq> []"
  shows "\<exists>h'. erase_two_children h (Some n) (Some x) (root_ptr xr) (Some s) = Some (Some (up x kr), h') \<and> dom h' = dom h \<and>
    (\<exists>y. h' n = Some y \<and> red y = cx) \<and> tree_in h' s lm rm (plug (Nd l x c (plug xr kr)) k)"
proof -
  note d = tree_inD [OF t]
  define R where "R = plug xr kr"
  have rr: "root_ptr (plug (Nd Lf x cx xr) kr) = root_ptr R" using root_plug [of "Nd Lf x cx xr" xr kr] kr(2) by (simp add: R_def)
  have aR: "addrs R = addrs xr @ rctx kr" by (simp add: R_def addrs_plug kr(1))
  have dd: "distinct (s # lctx k @ addrs l @ n # x # addrs xr @ rctx kr @ rctx k)" using d(4) kr(1) by (simp add: addrs_plug)
  have upk: "up x kr = up n kr" using kr(2) by (cases "(x, kr)" rule: up.cases) auto
  have repn: "h n = Some \<lparr>right = root_ptr R, left = root_ptr l, parent = Some (up s k), red = c\<rparr>" "rep h n l"
      "h x = Some \<lparr>right = root_ptr xr, left = None, parent = Some (up n kr), red = cx\<rparr>" "rep h x xr" "rep_ctx h n (Some x) kr"
    using d(2) rr by (simp_all add: rep_plug)
  obtain h1 h2 where h2: "wr h (root_ptr l) (\<lambda>y. y\<lparr>parent := Some x\<rparr>) = Some h1" "wr h1 (Some x) (\<lambda>y. y\<lparr>left := root_ptr l\<rparr>) = Some h2"
      "h2 x = Some \<lparr>right = root_ptr xr, left = root_ptr l, parent = Some (up n kr), red = cx\<rparr>" "rep h2 x l" "dom h2 = dom h"
      "\<forall>a. a \<notin> insert x (set (addrs l)) \<longrightarrow> h2 a = h a"
    using join_left [OF repn(2) l repn(3)] dd by auto
  have "rep_ctx h2 n (Some x) kr" by (rule rep_ctx_cong [OF repn(5)]) (use dd h2(6) kr(1) in auto)
  moreover have "rep h2 x xr" by (rule rep_cong [OF repn(4)]) (use dd h2(6) in auto)
  moreover have "distinct (addrs xr @ rctx kr)" using dd by auto
  ultimately obtain h3 h4 where h4: "(if root_ptr xr \<noteq> None then wr h2 (root_ptr xr) (\<lambda>y. y\<lparr>parent := Some (up n kr)\<rparr>) else Some h2) = Some h3"
      "wr h3 (Some (up n kr)) (\<lambda>y. y\<lparr>left := root_ptr xr\<rparr>) = Some h4" "rep h4 n R" "dom h4 = dom h2" "\<forall>a. a \<notin> set (addrs R) \<longrightarrow> h4 a = h2 a"
    using drop_min [of h2 n x kr xr] kr unfolding aR unfolding R_def by blast
  define h5 where "h5 = h4(x := Some \<lparr>right = root_ptr R, left = root_ptr l, parent = Some (up n kr), red = cx\<rparr>)"
  have hx4: "h4 x = Some \<lparr>right = root_ptr xr, left = root_ptr l, parent = Some (up n kr), red = cx\<rparr>" using h4(5) h2(3) dd aR by auto
  have "rctx kr \<noteq> []" using kr by (cases "(x, kr)" rule: up.cases) auto
  then have R: "R \<noteq> Lf" "distinct (addrs R)" "rep h5 n R" using h4(3) dd aR by (auto simp: h5_def simp flip: addrs_Nil)
  obtain h6 where h6: "wr h5 (root_ptr R) (\<lambda>y. y\<lparr>parent := Some x\<rparr>) = Some h6" "rep h6 x R" "dom h6 = dom h5" "\<forall>a. a \<notin> set (addrs R) \<longrightarrow> h6 a = h5 a"
    using reparent [OF R(3,2,1), of x] by blast
  have out: "h6 a = h a" if "a \<notin> set (addrs R)" "a \<noteq> x" "a \<notin> set (addrs l)" for a using that h6(4) h4(5) h2(6) by (auto simp: h5_def)
  have hs: "h6 s = Some \<lparr>right = rm, left = lm, parent = (if k = [] then Some n else root_ptr (plug Lf k)), red = True\<rparr>"
    using out [of s] d(1) dd aR root_plug [of Lf "Nd l n c (plug (Nd Lf x cx xr) kr)" k] by auto
  have hn: "h6 n = Some \<lparr>right = root_ptr R, left = root_ptr l, parent = Some (up s k), red = c\<rparr>" using out [of n] repn(1) dd aR by auto
  have "(set (lctx k) \<union> set (rctx k)) \<inter> (insert x (set (addrs R) \<union> set (addrs l))) = {}" using dd aR by auto
  then have "\<forall>a \<in> set (lctx k) \<union> set (rctx k). h6 a = h a" using out by blast
  then have ctx: "rep_ctx h6 s (Some n) k" using rep_ctx_cong [of h s "Some n" k h6] d(3) by simp
  have hx: "h6 x = Some \<lparr>right = root_ptr R, left = root_ptr l, parent = Some (up n kr), red = cx\<rparr>" using h6(4) dd aR by (auto simp: h5_def)
  have "set (addrs l) \<inter> insert x (set (addrs R)) = {}" using dd aR by auto
  then have "h6 a = h2 a" if "a \<in> set (addrs l)" for a using that h6(4) h4(5) unfolding h5_def by (metis IntI empty_iff fun_upd_other insert_iff)
  then have "rep h6 x l" using rep_cong [OF h2(4)] by blast
  then obtain h7 where h7: "erase_replace h6 (Some n) (Some x) (Some s) = Some h7" "dom h7 = dom h6"
      "h7 n = Some \<lparr>right = root_ptr R, left = root_ptr l, parent = Some (up s k), red = cx\<rparr>" "tree_in h7 s lm rm (plug (Nd l x c R) k)"
    using replace_ok [OF hs hn ctx hx _ h6(2)] dd aR by auto
  have x: "root_ptr R \<noteq> Some x" using root_notin [of x R] dd aR by auto
  have n2: "rd h2 (Some n) right = Some (root_ptr R)" "rd h2 (Some x) parent = Some (Some (up n kr))"
    using h2(3,6) repn(1) dd by (auto simp: rd_Some)
  have w: "wr h4 (Some x) (\<lambda>y. y\<lparr>right := root_ptr R\<rparr>) = Some h5" "rd h (Some n) left = Some (root_ptr l)" using hx4 repn(1) by (simp_all add: wr_Some rd_Some h5_def)
  have "erase_two_children h (Some n) (Some x) (root_ptr xr) (Some s) = Some (Some (up x kr), h7)"
    using h2(1,2) n2 h4(1,2) w h6(1) h7(1) x upk by (simp add: erase_two_children_def split del: if_split)
  moreover have "dom h7 = dom h" using h7(2) h6(3) h4(4) h2(5) hx4 by (auto simp: h5_def)
  ultimately show ?thesis using h7(3,4) by (simp add: R_def)
qed

section \<open>Erasing\<close>

lemma ctx_addr: "ctx_c (k1 @ RF l x c # k) b = ctx_c (k1 @ RF l n c # k) b" "ctx_h (k1 @ RF l x c # k) i = ctx_h (k1 @ RF l n c # k) i"
proof -
  show "ctx_c (k1 @ RF l x c # k) b = ctx_c (k1 @ RF l n c # k) b" by (induction k1 b rule: ctx_c.induct) auto
  show "ctx_h (k1 @ RF l x c # k) i = ctx_h (k1 @ RF l n c # k) i" by (induction k1 i rule: ctx_h.induct) auto
qed

text \<open>What the first half leaves: a balanced tree when the colour that vanished was red, a place that lacks a black node otherwise.\<close>

definition unlinked :: "'p rb_heap \<Rightarrow> 'p \<Rightarrow> 'p \<Rightarrow> 'p list \<Rightarrow> bool" where
  "unlinked h s n xs \<longleftrightarrow> (\<exists>h' t k y. erase_unlink h (Some n) (Some s) = Some (root_ptr t, Some (up s k), h') \<and> dom h' = dom h \<and> h' n = Some y \<and>
     whole_tree h' s (plug t k) \<and> addrs (plug t k) = xs \<and> (if red y then balanced (plug t k) else lacking t k))"

lemma unlink_one_child:
  assumes t: "whole_tree h s (plug (Nd l n c r) k)" and b: "balanced (plug (Nd l n c r) k)" and cc: "l = Lf \<and> cc = r \<or> r = Lf \<and> cc = l"
  shows "unlinked h s n (lctx k @ addrs l @ addrs r @ rctx k)"
proof -
  note t' = t [unfolded whole_tree_def]
  note d = tree_inD [OF t']
  obtain h1 where h1: "erase_splice h (Some n) (root_ptr cc) (Some s) = Some (Some (up s k), h1)" "dom h1 = dom h" "h1 n = h n"
      "tree_in h1 s (Some (hd (addrs (plug (Nd l n c r) k) @ [s]))) (Some (last (s # addrs (plug (Nd l n c r) k)))) (plug cc k)"
    using splice_ok [OF t' cc] by blast
  have n: "n \<notin> insert s (set (addrs (plug cc k)))" using d(4) cc by (auto simp: addrs_plug)
  have hn: "h n = Some \<lparr>right = root_ptr r, left = root_ptr l, parent = Some (up s k), red = c\<rparr>" using node_at [OF t'] .
  obtain h2 where h2: "erase_ends h1 (Some n) (root_ptr cc) (Some s) = Some h2" "dom h2 = dom h1" "h2 n = h1 n" "whole_tree h2 s (plug cc k)"
    using ends_ok [OF h1(4) _ n cc] h1(3) hn by auto
  have "erase_unlink h (Some n) (Some s) = Some (root_ptr cc, Some (up s k), h2)"
    using hn h1(1) h2(1) cc by (auto simp: erase_unlink_def erase_one_child_def rd_Some)
  moreover have "if c then balanced (plug cc k) else lacking cc k"
    using b cc ctx_c_False invc_blackenD unfolding balanced_plug lacking_def by (auto split: if_splits)
  moreover have "addrs (plug cc k) = lctx k @ addrs l @ addrs r @ rctx k" using cc by (auto simp: addrs_plug)
  ultimately show ?thesis using h1(2,3) h2 hn unfolding unlinked_def
    by (intro exI [of _ h2] exI [of _ cc] exI [of _ k] exI [of _ "\<lparr>right = root_ptr r, left = root_ptr l, parent = Some (up s k), red = c\<rparr>"]) simp
qed

lemma unlink_two_children:
  assumes t: "whole_tree h s (plug (Nd l n c r) k)" and b: "balanced (plug (Nd l n c r) k)" and lr: "l \<noteq> Lf" "r \<noteq> Lf"
  shows "unlinked h s n (lctx k @ addrs l @ addrs r @ rctx k)"
proof -
  note t' = t [unfolded whole_tree_def]
  obtain x cx xr kr where r: "r = plug (Nd Lf x cx xr) kr" "lctx kr = []" using min_split [OF lr(2)] by blast
  define lm rm where "lm = Some (hd (addrs (plug (Nd l n c r) k) @ [s]))" and "rm = Some (last (s # addrs (plug (Nd l n c r) k)))"
  let ?k = "kr @ RF l x c # k"
  have p: "plug xr ?k = plug (Nd l x c (plug xr kr)) k" by (simp add: plug_append)
  have "\<exists>h'. erase_two_children h (Some n) (Some x) (root_ptr xr) (Some s) = Some (Some (up x kr), h') \<and> dom h' = dom h \<and>
    (\<exists>y. h' n = Some y \<and> red y = cx) \<and> tree_in h' s lm rm (plug xr ?k)"
    using two_children_next [of h s lm rm l n c x cx xr k] two_children_far [of h s lm rm l n c x cx xr kr k] t' r lr(1)
    by (cases "kr = []") (auto simp: lm_def rm_def p)
  then obtain h' y where h': "erase_two_children h (Some n) (Some x) (root_ptr xr) (Some s) = Some (Some (up x kr), h')" "dom h' = dom h"
      "h' n = Some y" "red y = cx" "tree_in h' s lm rm (plug xr ?k)" by blast
  have a: "addrs (plug xr ?k) = lctx k @ addrs l @ addrs r @ rctx k" by (simp add: p addrs_plug r)
  have ne: "addrs r \<noteq> []" "addrs l \<noteq> []" using lr by auto
  have "lm = Some (hd (addrs (plug xr ?k) @ [s]))" unfolding lm_def a using ne(2) by (cases "lctx k"; cases "addrs l") (simp_all add: addrs_plug)
  moreover have "rm = Some (last (s # addrs (plug xr ?k)))" unfolding rm_def a using ne by (cases "addrs r") (simp_all add: addrs_plug)
  ultimately have w: "whole_tree h' s (plug xr ?k)" using h'(5) by (simp add: whole_tree_def)
  have "rep h n r" using tree_inD(2) [OF t'] by simp
  then have "min_child h (root_ptr r) = Some (Some x)" using min_child_ok [of h n r] lr(2) r by (simp add: addrs_plug)
  moreover have "rd h (Some x) right = Some (root_ptr xr)" using \<open>rep h n r\<close> r by (simp add: rep_plug rd_Some)
  moreover have "x \<noteq> n" using tree_inD(4) [OF t'] r by (auto simp: addrs_plug)
  ultimately have e: "erase_unlink h (Some n) (Some s) = Some (root_ptr xr, Some (up s ?k), h')"
    using node_at [OF t'] lr h'(1) by (simp add: erase_unlink_def rd_Some up_append)
  have "plug (Nd l n c r) k = plug (Nd Lf x cx xr) (kr @ RF l n c # k)" by (simp add: plug_append r)
  then have "invc (Nd Lf x cx xr) \<and> ctx_c ?k cx \<and> invh (Nd Lf x cx xr) \<and> ctx_h ?k (bh (Nd Lf x cx xr))"
    using b unfolding ctx_addr [of kr l x c k _ n] by (simp add: balanced_plug)
  then have "if cx then balanced (plug xr ?k) else lacking xr ?k"
    using ctx_c_False [of ?k cx] invc_blackenD [of xr] unfolding balanced_plug lacking_def by auto
  then show ?thesis using e h'(2-4) w a unfolding unlinked_def by (intro exI [of _ h'] exI [of _ xr] exI [of _ ?k] exI [of _ y]) simp
qed

lemma rb_erase_ok:
  assumes t: "whole_tree h s (plug (Nd l n c r) k)" and b: "balanced (plug (Nd l n c r) k)"
  shows "\<exists>h' t'. rb_erase h (Some n) (Some s) = Some h' \<and> dom h' = dom h \<and> whole_tree h' s t' \<and> balanced t' \<and> addrs t' = lctx k @ addrs l @ addrs r @ rctx k"
proof -
  let ?xs = "lctx k @ addrs l @ addrs r @ rctx k"
  have "unlinked h s n ?xs" using unlink_one_child [OF t b, of r] unlink_one_child [OF t b, of l] unlink_two_children [OF t b] by (cases "l = Lf"; cases "r = Lf") auto
  then obtain h1 t1 k1 y where h1: "erase_unlink h (Some n) (Some s) = Some (root_ptr t1, Some (up s k1), h1)" "dom h1 = dom h" "h1 n = Some y"
      "whole_tree h1 s (plug t1 k1)" "addrs (plug t1 k1) = ?xs" "if red y then balanced (plug t1 k1) else lacking t1 k1" unfolding unlinked_def by blast
  have red: "is_red h1 (Some n) = Some (red y)" using h1(3) by (simp add: is_red_def rd_Some)
  show ?thesis
  proof (cases "red y")
    case True
    then show ?thesis using h1 red by (auto simp: rb_erase_def)
  next
    case False
    then have "repaired h1 s (Some (hd (?xs @ [s]))) (Some (last (s # ?xs))) (root_ptr t1) (Some (up s k1)) ?xs"
      using erase_fix_ok [OF h1(4) [unfolded whole_tree_def], of "Some (up s k1)"] h1(5,6) by simp
    then obtain h2 t2 where "erase_finish h1 (root_ptr t1) (Some (up s k1)) (Some s) = Some h2" "dom h2 = dom h1"
        "tree_in h2 s (Some (hd (?xs @ [s]))) (Some (last (s # ?xs))) t2" "addrs t2 = ?xs" "balanced t2" unfolding repaired_def by blast
    then show ?thesis using h1 red False unfolding whole_tree_def
      by (intro exI [of _ h2] exI [of _ t2]) (simp add: rb_erase_def erase_finish_def)
  qed
qed

end
