(* ===== verification/Rbtree_Iter.thy ===== *)
theory Rbtree_Iter
  imports Rbtree_Unlink
begin

text \<open>
  The iterators of \<^verbatim>\<open>rbtree.h\<close> and the function that counts black nodes: \<^verbatim>\<open>increment\<close> and \<^verbatim>\<open>decrement\<close> move to the next and to the previous
  address in the order of the tree, with the sentinel behind the last one.
\<close>

lemma locate: "a \<in> set (addrs t) \<Longrightarrow> \<exists>l c r k. t = plug (Nd l a c r) k"
proof (induction t)
  case (Nd tl b c tr)
  have p: "plug t' (k @ [LF b c tr]) = Nd (plug t' k) b c tr" "plug t' (k @ [RF tl b c]) = Nd tl b c (plug t' k)" for t' k
    by (simp_all add: plug_append)
  from Nd.prems consider "a = b" | "a \<in> set (addrs tl)" | "a \<in> set (addrs tr)" by auto
  then show ?case
  proof cases
    case 1
    then show ?thesis by (intro exI [of _ tl] exI [of _ c] exI [of _ tr] exI [of _ "[]"]) simp
  next
    case 2
    then show ?thesis using Nd.IH(1) p(1) by metis
  next
    case 3
    then show ?thesis using Nd.IH(2) p(2) by metis
  qed
qed simp

text \<open>The place of the address in the middle of a split of the order.\<close>

lemma locate_split:
  assumes "distinct (addrs t)" and "addrs t = xs @ a # ys"
  shows "\<exists>l c r k. t = plug (Nd l a c r) k \<and> xs = lctx k @ addrs l \<and> ys = addrs r @ rctx k"
proof -
  obtain l c r k where t: "t = plug (Nd l a c r) k" using locate [of a t] assms(2) by auto
  have "(lctx k @ addrs l) @ a # (addrs r @ rctx k) = xs @ a # ys" using assms(2) t by (simp add: addrs_plug)
  moreover have "a \<notin> set (lctx k @ addrs l)" "a \<notin> set (addrs r @ rctx k)" using assms(1) t by (auto simp: addrs_plug)
  ultimately have "lctx k @ addrs l = xs \<and> addrs r @ rctx k = ys" using append_Cons_eq_iff by metis
  then show ?thesis using t by blast
qed

section \<open>Forwards\<close>

lemma climb_right_ok:
  assumes "whole_tree h s (plug (Nd l a c r) k)"
  shows "do { (n, p) \<leftarrow> climb_right h (Some a) (Some (up s k)); q \<leftarrow> rd h n right; Some (if q \<noteq> p then p else n) } = Some (Some (hd (rctx k @ [s])))"
  using assms
proof (induction k arbitrary: l a c r)
  case Nil
  have t: "tree_in h s (Some (hd (addrs (Nd l a c r) @ [s]))) (Some (last (s # addrs (Nd l a c r)))) (plug (Nd l a c r) [])" using Nil by (simp add: whole_tree_def)
  note d = tree_inD [OF t]
  have na: "h a = Some \<lparr>right = root_ptr r, left = root_ptr l, parent = Some s, red = c\<rparr>" using node_at [OF t] by simp
  have ns: "h s = Some \<lparr>right = Some (last (s # addrs (Nd l a c r))), left = Some (hd (addrs (Nd l a c r) @ [s])), parent = Some a, red = True\<rparr>" using d(1) by simp
  show ?case
  proof (cases "r = Lf")
    case True
    have "climb_right h (Some s) (Some a) = Some (Some s, Some a)" using na True by (subst climb_right.simps) (simp add: rd_Some)
    then have "climb_right h (Some a) (Some s) = Some (Some s, Some a)" using ns True by (subst climb_right.simps) (simp add: rd_Some)
    then show ?thesis using ns True by (simp add: rd_Some)
  next
    case False
    then have "last (addrs r) \<in> set (addrs r)" by simp
    then have "last (addrs r) \<noteq> a" using d(4) by auto
    then have "climb_right h (Some a) (Some s) = Some (Some a, Some s)"
      using ns False by (subst climb_right.simps) (simp add: rd_Some)
    moreover have "s \<notin> set (addrs r)" using d(4) by simp
    ultimately show ?thesis using na by (simp add: rd_Some root_notin)
  qed
next
  case (Cons f k)
  note t = Cons.prems [unfolded whole_tree_def]
  note d = tree_inD [OF t]
  have na: "h a = Some \<lparr>right = root_ptr r, left = root_ptr l, parent = Some (up s (f # k)), red = c\<rparr>" using node_at [OF t] by simp
  show ?case
  proof (cases f)
    case (LF b cb rb)
    have nb: "h b = Some \<lparr>right = root_ptr rb, left = Some a, parent = Some (up s k), red = cb\<rparr>" using d(3) LF by simp
    have o: "a \<notin> set (addrs rb)" "b \<notin> set (addrs r)" using d(4) LF by auto
    then have "climb_right h (Some a) (Some b) = Some (Some a, Some b)" using nb by (subst climb_right.simps) (simp add: rd_Some root_notin)
    then show ?thesis using na LF o by (simp add: rd_Some root_notin)
  next
    case (RF lb b cb)
    have nb: "h b = Some \<lparr>right = Some a, left = root_ptr lb, parent = Some (up s k), red = cb\<rparr>" using d(3) RF by simp
    have "climb_right h (Some a) (Some b) = climb_right h (Some b) (Some (up s k))" using nb by (subst climb_right.simps) (simp add: rd_Some)
    then show ?thesis using Cons.IH [of lb b cb "Nd l a c r"] Cons.prems RF by simp
  qed
qed

lemma increment_ok:
  assumes t: "whole_tree h s t" and x: "addrs t = xs @ a # ys"
  shows "increment h (Some a) = Some (Some (hd (ys @ [s])))"
proof -
  have "distinct (addrs t)" using t by (simp add: whole_tree_def tree_in_def)
  then obtain l c r k where p: "t = plug (Nd l a c r) k" "ys = addrs r @ rctx k" using locate_split x by metis
  note t' = t [unfolded p(1) whole_tree_def]
  have na: "h a = Some \<lparr>right = root_ptr r, left = root_ptr l, parent = Some (up s k), red = c\<rparr>" using node_at [OF t'] .
  show ?thesis
  proof (cases "r = Lf")
    case True
    then show ?thesis using climb_right_ok [of h s l a c r k] t p na by (simp add: increment_def rd_Some)
  next
    case False
    have "rep h a r" using tree_inD(2) [OF t'] by simp
    then show ?thesis using min_child_ok [of h a r] False na p(2) by (cases "addrs r") (auto simp: increment_def rd_Some)
  qed
qed

section \<open>Backwards\<close>

lemma climb_left_ok:
  assumes "tree_in h s lm rm (plug (Nd l a c r) k)" and "lctx k \<noteq> []"
  shows "climb_left h (Some a) (Some (up s k)) = Some (Some (last (lctx k)))"
  using assms
proof (induction k arbitrary: l a c r)
  case (Cons f k)
  note d = tree_inD [OF Cons.prems(1)]
  show ?case
  proof (cases f)
    case (LF b cb rb)
    have nb: "h b = Some \<lparr>right = root_ptr rb, left = Some a, parent = Some (up s k), red = cb\<rparr>" using d(3) LF by simp
    have "climb_left h (Some a) (Some b) = climb_left h (Some b) (Some (up s k))" using nb by (subst climb_left.simps) (simp add: rd_Some)
    then show ?thesis using Cons.IH [of "Nd l a c r" b cb rb] Cons.prems LF by simp
  next
    case (RF lb b cb)
    have nb: "h b = Some \<lparr>right = Some a, left = root_ptr lb, parent = Some (up s k), red = cb\<rparr>" using d(3) RF by simp
    have "a \<notin> set (addrs lb)" using d(4) RF by auto
    then show ?thesis using nb RF by (subst climb_left.simps) (simp add: rd_Some root_notin)
  qed
qed simp

text \<open>The grandparent of a node is the node itself only when the node is the root.\<close>

lemma grandparent:
  assumes t: "tree_in h s lm rm (plug (Nd l a c r) k)"
  shows "\<exists>q. rd h (Some (up s k)) parent = Some q \<and> (q = Some a \<longleftrightarrow> k = [])"
proof (cases k)
  case Nil
  then show ?thesis using rd_root [OF t] by simp
next
  case (Cons f k')
  note d = tree_inD [OF t]
  have "up s k' \<noteq> a" using up_in [of s k'] d(4) Cons by (cases f) auto
  then show ?thesis using d(3) Cons by (cases f) (auto simp: rd_Some)
qed

lemma decrement_ok:
  assumes t: "whole_tree h s t" and b: "balanced t" and x: "addrs t = xs @ a # ys" and xs: "xs \<noteq> []"
  shows "decrement h (Some a) = Some (Some (last xs))"
proof -
  have "distinct (addrs t)" using t by (simp add: whole_tree_def tree_in_def)
  then obtain l c r k where p: "t = plug (Nd l a c r) k" "xs = lctx k @ addrs l" using locate_split x by metis
  note t' = t [unfolded p(1) whole_tree_def]
  have na: "h a = Some \<lparr>right = root_ptr r, left = root_ptr l, parent = Some (up s k), red = c\<rparr>" using node_at [OF t'] .
  obtain q where q: "rd h (Some (up s k)) parent = Some q" "q = Some a \<longleftrightarrow> k = []" using grandparent [OF t'] by blast
  have root: "k = [] \<Longrightarrow> \<not> c" using b p(1) by (simp add: balanced_def)
  have e: "decrement h (Some a) = (if l \<noteq> Lf then max_child h (root_ptr l) else climb_left h (Some a) (Some (up s k)))"
    using na q root by (auto simp: decrement_def rd_Some is_red_def)
  show ?thesis
  proof (cases "l = Lf")
    case True
    then show ?thesis using e climb_left_ok [OF t'] xs p(2) by simp
  next
    case False
    have "rep h a l" using tree_inD(2) [OF t'] by simp
    then show ?thesis using e False max_child_ok [of h a l] p(2) by simp
  qed
qed

lemma decrement_end:
  assumes t: "whole_tree h s t" and "t \<noteq> Lf"
  shows "decrement h (Some s) = Some (Some (last (addrs t)))"
proof -
  obtain l a c r where p: "t = Nd l a c r" using assms(2) by (cases t) auto
  note t' = t [unfolded whole_tree_def]
  have "h a = Some \<lparr>right = root_ptr r, left = root_ptr l, parent = Some s, red = c\<rparr>" using node_at [of h s _ _ l a c r "[]"] t' p by simp
  then show ?thesis using sentinel_at [OF t'] p by (simp add: decrement_def rd_Some is_red_def)
qed

section \<open>Counting black nodes\<close>

fun blacks :: "'p frame list \<Rightarrow> nat" where
  "blacks [] = 0"
| "blacks (LF a c r # k) = (if c then 0 else 1) + blacks k"
| "blacks (RF l a c # k) = (if c then 0 else 1) + blacks k"

lemma bh_plug: "invh (plug t k) \<Longrightarrow> bh (plug t k) = bh t + blacks k"
proof (induction t k rule: plug.induct)
  case (3 t l a c k)
  then have "bh l = bh t" using invh_plug by fastforce
  then show ?case using 3 by simp
qed simp_all

lemma black_count_ok:
  assumes "tree_in h s lm rm (plug (Nd l a c r) k)"
  shows "black_count h (root_ptr (plug (Nd l a c r) k)) (Some a) n = Some (n + (if c then 0 else 1) + blacks k)"
  using assms
proof (induction k arbitrary: l a c r n)
  case Nil
  then have "is_red h (Some a) = Some c" using is_red_at [of h s lm rm "Nd l a c r" "[]"] by simp
  then show ?case by (subst black_count.simps) simp
next
  case (Cons f k)
  have r: "is_red h (Some a) = Some c" using is_red_at [OF Cons.prems] by simp
  have p: "rd h (Some a) parent = Some (Some (up s (f # k)))" using rd_at [OF Cons.prems] by simp
  have n: "root_ptr (plug (Nd l a c r) (f # k)) \<noteq> Some a" using is_root_iff [OF Cons.prems] by simp
  show ?case
  proof (cases f)
    case (LF b cb rb)
    then show ?thesis using r p n Cons.IH [of "Nd l a c r" b cb rb] Cons.prems by (subst black_count.simps) (auto simp: Let_def)
  next
    case (RF lb b cb)
    then show ?thesis using r p n Cons.IH [of lb b cb "Nd l a c r"] Cons.prems by (subst black_count.simps) (auto simp: Let_def)
  qed
qed

text \<open>From a node without a left child or without any child the count is the black height of the tree.\<close>

lemma black_count_leaf:
  assumes "tree_in h s lm rm (plug (Nd Lf a c r) k)" and "balanced (plug (Nd Lf a c r) k)"
  shows "black_count h (root_ptr (plug (Nd Lf a c r) k)) (Some a) 0 = Some (bh (plug (Nd Lf a c r) k))"
  using black_count_ok [OF assms(1)] bh_plug [of "Nd Lf a c r" k] assms(2) by (simp add: balanced_def)

end
