(* ===== verification/Rbtree_Search.thy ===== *)
theory Rbtree_Search
  imports Rbtree_Iter
begin

text \<open>
  Searching in the tree: \<^verbatim>\<open>find\<close> and \<^verbatim>\<open>search_position\<close> for a comparison that is a strict weak ordering (the locale \<open>key_order\<close>), and
  \<^verbatim>\<open>verify_properties\<close>, whose assertions hold for every tree in order.
\<close>

section \<open>Trees in order\<close>

locale key_order =
  fixes cmp :: "'k \<Rightarrow> 'k \<Rightarrow> bool"
  assumes asym: "cmp a b \<Longrightarrow> \<not> cmp b a"
    and negtrans: "cmp a c \<Longrightarrow> cmp a b \<or> cmp b c"
begin

lemma irrefl: "\<not> cmp a a"
  using asym by blast

lemma trans: "cmp a b \<Longrightarrow> cmp b c \<Longrightarrow> cmp a c"
  using asym negtrans by blast

text \<open>Two keys are equivalent when neither is before the other.\<close>

lemma equiv_left: "cmp a b \<Longrightarrow> \<not> cmp b c \<Longrightarrow> \<not> cmp c b \<Longrightarrow> cmp a c"
  using negtrans by blast

lemma equiv_right: "cmp b a \<Longrightarrow> \<not> cmp b c \<Longrightarrow> \<not> cmp c b \<Longrightarrow> cmp c a"
  using negtrans by blast

end

definition kv :: "('v \<Rightarrow> 'k) \<Rightarrow> ('s, 'p, 'v) rbtree \<Rightarrow> 'p \<Rightarrow> 'k" where
  "kv key m a = key (the (rvals m a))"

definition ordered_tree :: "('k \<Rightarrow> 'k \<Rightarrow> bool) \<Rightarrow> ('v \<Rightarrow> 'k) \<Rightarrow> ('s, 'p, 'v) rbtree \<Rightarrow> 'p ptree \<Rightarrow> bool" where
  "ordered_tree cmp key m t \<longleftrightarrow> whole_tree (rnodes m) (rb_sentinel m) t \<and> balanced t \<and> set (addrs t) \<subseteq> dom (rvals m) \<and>
     sorted_wrt (\<lambda>a b. cmp (kv key m a) (kv key m b)) (addrs t)"

lemma ordered_value: "ordered_tree cmp key m t \<Longrightarrow> a \<in> set (addrs t) \<Longrightarrow> rb_value m (Some a) = Some (the (rvals m a))"
  by (auto simp: ordered_tree_def rb_value_def whole_tree_def tree_in_def)

lemma ordered_rd:
  assumes "ordered_tree cmp key m (plug (Nd l a c r) k)"
  shows "rd (rnodes m) (Some a) left = Some (root_ptr l)" "rd (rnodes m) (Some a) right = Some (root_ptr r)"
  using rd_at [of "rnodes m" "rb_sentinel m" _ _ l a c r k] assms unfolding ordered_tree_def whole_tree_def by blast+

lemma ordered_root: "ordered_tree cmp key m t \<Longrightarrow> rd (rnodes m) (Some (rb_sentinel m)) parent = Some (root_ptr t)"
  unfolding ordered_tree_def whole_tree_def by (elim conjE) (rule rd_root)

section \<open>find\<close>

context key_order
begin

lemma find_loop_ok:
  assumes "ordered_tree cmp key m (plug t k)" and "\<forall>a \<in> set (lctx k). cmp (kv key m a) x" and "\<forall>a \<in> set (rctx k). \<not> cmp (kv key m a) x"
  shows "find_loop cmp key m x (root_ptr t) (Some (hd (rctx k @ [s]))) =
    Some (Some (hd (dropWhile (\<lambda>a. cmp (kv key m a) x) (addrs (plug t k)) @ [s])))"
  using assms
proof (induction t arbitrary: k)
  case Lf
  have "dropWhile (\<lambda>a. cmp (kv key m a) x) (rctx k) = rctx k" using Lf.prems(3) by (cases "rctx k") auto
  then show ?case using Lf.prems(2) by (subst find_loop.simps) (simp add: addrs_plug)
next
  case (Nd l a c r)
  note o = Nd.prems(1)
  have v: "rb_value m (Some a) = Some (the (rvals m a))" using ordered_value [OF o, of a] by (simp add: addrs_plug)
  have so: "sorted_wrt (\<lambda>a b. cmp (kv key m a) (kv key m b)) (lctx k @ addrs l @ a # addrs r @ rctx k)" using o by (simp add: ordered_tree_def addrs_plug)
  have kva: "key (the (rvals m a)) = kv key m a" by (simp add: kv_def)
  show ?case
  proof (cases "cmp (kv key m a) x")
    case True
    have "\<forall>b \<in> set (lctx (RF l a c # k)). cmp (kv key m b) x" using Nd.prems(2) so True trans by (auto simp: sorted_wrt_append)
    then show ?thesis using Nd.IH(2) [of "RF l a c # k"] Nd.prems(1,3) v ordered_rd [OF o] asym [OF True] True
      by (subst find_loop.simps) (simp add: kva)
  next
    case False
    have "\<forall>b \<in> set (addrs r @ rctx k). cmp (kv key m a) (kv key m b)" using so by (simp add: sorted_wrt_append)
    then have "\<forall>b \<in> set (rctx (LF a c r # k)). \<not> cmp (kv key m b) x" using False trans by auto
    then show ?thesis using Nd.IH(1) [of "LF a c r # k"] Nd.prems(1,2) v ordered_rd [OF o] False
      by (subst find_loop.simps) (simp add: kva)
  qed
qed

lemma find_ok:
  assumes o: "ordered_tree cmp key m t"
  shows "\<exists>e. rb_find cmp key m x = Some (Some e) \<and>
    (if \<exists>a \<in> set (addrs t). \<not> cmp (kv key m a) x \<and> \<not> cmp x (kv key m a)
     then e \<in> set (addrs t) \<and> \<not> cmp (kv key m e) x \<and> \<not> cmp x (kv key m e) else e = rb_sentinel m)"
proof -
  let ?s = "rb_sentinel m" and ?P = "\<lambda>a. cmp (kv key m a) x"
  note w = o [unfolded ordered_tree_def whole_tree_def]
  define e where "e = hd (dropWhile ?P (addrs t) @ [?s])"
  have "find_loop cmp key m x (root_ptr t) (Some ?s) = Some (Some e)" using find_loop_ok [of key m t "[]" x ?s] o by (simp add: e_def)
  then have f: "rb_find cmp key m x = (if Some e \<noteq> Some ?s then do { v \<leftarrow> rb_value m (Some e); Some (if \<not> cmp x (key v) then Some e else Some ?s) } else Some (Some ?s))"
    using ordered_root [OF o] by (simp add: rb_find_def Let_def)
  have sn: "?s \<notin> set (addrs t)" using w by (simp add: tree_in_def)
  show ?thesis
  proof (cases "dropWhile ?P (addrs t)")
    case Nil
    then have "\<forall>a \<in> set (addrs t). ?P a" by (simp add: dropWhile_eq_Nil_conv)
    then show ?thesis using f Nil by (auto simp: e_def)
  next
    case (Cons b bs)
    have t: "addrs t = takeWhile ?P (addrs t) @ b # bs" using takeWhile_dropWhile_id [of ?P "addrs t"] Cons by simp
    have b: "e = b" "b \<in> set (addrs t)" "\<not> ?P b" using Cons hd_dropWhile [of ?P "addrs t"] t by (auto simp: e_def) (metis in_set_conv_decomp)
    have bs: "cmp (kv key m b) (kv key m a)" if "a \<in> set bs" for a
      using w that by (subst (asm) t) (auto simp: sorted_wrt_append)
    have f': "rb_find cmp key m x = Some (if \<not> cmp x (kv key m b) then Some b else Some ?s)"
      using f b ordered_value [OF o b(2)] sn by (auto simp: kv_def)
    have "\<not> (\<not> ?P a \<and> \<not> cmp x (kv key m a))" if a: "a \<in> set (addrs t)" "cmp x (kv key m b)" for a
    proof -
      have "a \<in> set (takeWhile ?P (addrs t)) \<or> a = b \<or> a \<in> set bs" using a(1) by (subst (asm) t) auto
      then show ?thesis using a(2) bs trans set_takeWhileD [of a ?P "addrs t"] by blast
    qed
    then show ?thesis using f' b by (cases "cmp x (kv key m b)") auto
  qed
qed

section \<open>search_position\<close>

lemma search_loop_ok:
  assumes "ordered_tree cmp key m (plug t k)" and "\<forall>a \<in> set (lctx k). \<not> cmp x (kv key m a)" and "\<forall>a \<in> set (rctx k). cmp x (kv key m a)"
  shows "\<exists>k'. plug t k = plug Lf k' \<and> search_loop cmp key m x (root_ptr t) (Some (up (rb_sentinel m) k)) (goes_left k) = Some (Some (up (rb_sentinel m) k'), goes_left k') \<and>
    (\<forall>a \<in> set (lctx k'). \<not> cmp x (kv key m a)) \<and> (\<forall>a \<in> set (rctx k'). cmp x (kv key m a))"
  using assms
proof (induction t arbitrary: k)
  case Lf
  then show ?case by (subst search_loop.simps) auto
next
  case (Nd l a c r)
  note o = Nd.prems(1)
  have v: "rb_value m (Some a) = Some (the (rvals m a))" using ordered_value [OF o, of a] by (simp add: addrs_plug)
  have so: "sorted_wrt (\<lambda>a b. cmp (kv key m a) (kv key m b)) (lctx k @ addrs l @ a # addrs r @ rctx k)" using o by (simp add: ordered_tree_def addrs_plug)
  have kva: "key (the (rvals m a)) = kv key m a" by (simp add: kv_def)
  show ?case
  proof (cases "cmp x (kv key m a)")
    case True
    have "\<forall>b \<in> set (rctx (LF a c r # k)). cmp x (kv key m b)" using Nd.prems(3) so True trans by (auto simp: sorted_wrt_append)
    then show ?thesis using Nd.IH(1) [of "LF a c r # k"] Nd.prems(1,2) v ordered_rd [OF o] asym [OF True] True
      by (subst search_loop.simps) (simp add: kva)
  next
    case False
    have "\<forall>b \<in> set (lctx (RF l a c # k)). \<not> cmp x (kv key m b)" using Nd.prems(2) so False trans by (auto simp: sorted_wrt_append)
    then show ?thesis using Nd.IH(2) [of "RF l a c # k"] Nd.prems(1,3) v ordered_rd [OF o] False
      by (subst search_loop.simps) (simp add: kva)
  qed
qed

text \<open>The position is a free place between the smaller and the larger keys, or the address of an equivalent key.\<close>

lemma search_position_ok:
  assumes o: "ordered_tree cmp key m t"
  shows "(\<exists>a \<in> set (addrs t). \<not> cmp (kv key m a) x \<and> \<not> cmp x (kv key m a) \<and> search_position cmp key m x = Some (Some a, True)) \<or>
    (\<exists>k. t = plug Lf k \<and> search_position cmp key m x = Some (Some (up (rb_sentinel m) k), False) \<and>
      (\<forall>a \<in> set (lctx k). cmp (kv key m a) x) \<and> (\<forall>a \<in> set (rctx k). cmp x (kv key m a)))"
proof -
  let ?s = "rb_sentinel m"
  note w = o [unfolded ordered_tree_def]
  have tr: "tree_in (rnodes m) ?s (Some (hd (addrs t @ [?s]))) (Some (last (?s # addrs t))) t" using w by (simp add: whole_tree_def)
  obtain k where k: "t = plug Lf k" "search_loop cmp key m x (root_ptr t) (Some ?s) True = Some (Some (up ?s k), goes_left k)"
      "\<forall>a \<in> set (lctx k). \<not> cmp x (kv key m a)" "\<forall>a \<in> set (rctx k). cmp x (kv key m a)"
    using search_loop_ok [of key m t "[]" x] o by auto
  have a: "addrs t = lctx k @ rctx k" using k(1) by (simp add: addrs_plug)
  have dis: "distinct (?s # lctx k @ rctx k)" using tr a by (simp add: tree_in_def)
  have lm: "rd (rnodes m) (Some ?s) left = Some (Some (hd (lctx k @ rctx k @ [?s])))" using sentinel_at [OF tr] a by (simp add: rd_Some)
  have first: "goes_left k \<and> up ?s k = hd (lctx k @ rctx k @ [?s]) \<longleftrightarrow> lctx k = []"
    using dis by (cases "(?s, k)" rule: up.cases; cases "lctx k") (auto split: if_splits)
  show ?thesis
  proof (cases "lctx k = []")
    case True
    then have "search_position cmp key m x = Some (Some (up ?s k), False)" using k(2) lm first rd_root [OF tr] by (simp add: search_position_def Let_def)
    then show ?thesis using k True by auto
  next
    case False
    define b where "b = last (lctx k)"
    have dec: "(if goes_left k then decrement (rnodes m) (Some (up ?s k)) else Some (Some (up ?s k))) = Some (Some b)"
    proof (cases "(?s, k)" rule: up.cases)
      case (2 _ c cc rc k')
      then show ?thesis using decrement_ok [of "rnodes m" ?s t "lctx k" c "addrs rc @ rctx k'"] w a False by (simp add: b_def)
    qed (use False in \<open>simp_all add: b_def\<close>)
    have bin: "b \<in> set (addrs t)" using False a by (simp add: b_def)
    have e: "search_position cmp key m x = (if cmp (kv key m b) x then do { sk_assert (\<not> cmp x (kv key m b)); Some (Some (up ?s k), False) } else Some (Some b, True))"
      using k(2) lm first False rd_root [OF tr] dec ordered_value [OF o bin] by (auto simp: search_position_def Let_def kv_def)
    show ?thesis
    proof (cases "cmp (kv key m b) x")
      case True
      have so: "sorted_wrt (\<lambda>a b. cmp (kv key m a) (kv key m b)) (butlast (lctx k) @ [b])" using w a False by (simp add: sorted_wrt_append b_def)
      have "cmp (kv key m d) x" if "d \<in> set (lctx k)" for d
      proof -
        have "d \<in> set (butlast (lctx k) @ [b])" using that False by (simp add: b_def)
        then show ?thesis using so True trans by (auto simp: sorted_wrt_append)
      qed
      then show ?thesis using e True asym [OF True] k by auto
    next
      case nb: False
      have "\<not> cmp x (kv key m b)" using k(3) False by (simp add: b_def)
      then show ?thesis using e nb bin by auto
    qed
  qed
qed

section \<open>verify_properties\<close>

lemma verify_child_ok:
  assumes o: "ordered_tree cmp key m t" and "a \<in> set (addrs t)" "b \<in> set (addrs t)" and "cmp (kv key m b) (kv key m a)"
  shows "verify_child cmp key m (Some a) (Some b) = Some ()"
  using ordered_value [OF o] assms asym by (auto simp: verify_child_def kv_def)

lemma verify_node_ok:
  assumes o: "ordered_tree cmp key m (plug (Nd l a c r) k)"
  shows "verify_node cmp key m (root_ptr (plug (Nd l a c r) k)) (bh (plug (Nd l a c r) k)) (Some a) = Some ()"
proof -
  let ?t = "plug (Nd l a c r) k"
  note w = o [unfolded ordered_tree_def]
  have tr: "tree_in (rnodes m) (rb_sentinel m) (Some (hd (addrs ?t @ [rb_sentinel m]))) (Some (last (rb_sentinel m # addrs ?t))) ?t"
    using w by (simp add: whole_tree_def)
  have so: "sorted_wrt (\<lambda>a b. cmp (kv key m a) (kv key m b)) (lctx k @ addrs l @ a # addrs r @ rctx k)" using w by (simp add: addrs_plug)
  have "verify_child cmp key m (Some b) (Some a) = Some ()" if "root_ptr r = Some b" for b
    by (rule verify_child_ok [OF o]) (use addrs_root [OF that] so in \<open>auto simp: addrs_plug sorted_wrt_append\<close>)
  moreover have "verify_child cmp key m (Some a) (Some b) = Some ()" if "root_ptr l = Some b" for b
    by (rule verify_child_ok [OF o]) (use addrs_root [OF that] so in \<open>auto simp: addrs_plug sorted_wrt_append\<close>)
  moreover have "is_red (rnodes m) (Some a) = Some c" using is_red_at [OF tr] by simp
  moreover have "is_red (rnodes m) (root_ptr l) = Some (isred l)" "is_red (rnodes m) (root_ptr r) = Some (isred r)"
    using tree_inD(2) [OF tr] is_red_tree [of "rnodes m" a] by auto
  moreover have "c \<longrightarrow> \<not> isred l \<and> \<not> isred r" using w balanced_plug [of "Nd l a c r" k] by simp
  moreover have "black_count (rnodes m) (root_ptr ?t) (Some a) 0 = Some (bh ?t)" if "l = Lf"
    using black_count_leaf [of "rnodes m" "rb_sentinel m"] tr w that by blast
  ultimately show ?thesis using ordered_rd [OF o] by (cases l; cases r) (auto simp: verify_node_def Let_def)
qed

lemma tree_verify_loop:
  assumes o: "ordered_tree cmp key m t"
  shows "addrs t = xs @ ys \<Longrightarrow>
    verify_loop cmp key m (root_ptr t) (bh t) (Some (hd (ys @ [rb_sentinel m]))) n = Some (n + length ys)"
proof (induction ys arbitrary: xs n)
  case Nil
  then show ?case by (subst verify_loop.simps) simp
next
  case (Cons a ys)
  note w = o [unfolded ordered_tree_def]
  have "distinct (rb_sentinel m # addrs t)" using w by (simp add: whole_tree_def tree_in_def)
  then have ne: "a \<noteq> rb_sentinel m" and "distinct (addrs t)" using Cons.prems by auto
  then obtain l c r k where t: "t = plug (Nd l a c r) k" using locate_split Cons.prems by metis
  have "verify_node cmp key m (root_ptr t) (bh t) (Some a) = Some ()" using verify_node_ok o t by metis
  moreover have "increment (rnodes m) (Some a) = Some (Some (hd (ys @ [rb_sentinel m])))" using increment_ok w Cons.prems by metis
  ultimately show ?case using Cons.IH [of "xs @ [a]" "n + 1"] Cons.prems ne by (subst verify_loop.simps) simp
qed

lemma verify_ok:
  assumes o: "ordered_tree cmp key m t" and A: "al_size A (rb_alloc m) = length (addrs t)" "al_empty A (rb_alloc m) \<longleftrightarrow> t = Lf"
  shows "verify_properties A cmp key m = Some ()"
proof -
  let ?h = "rnodes m" and ?s = "rb_sentinel m"
  note w = o [unfolded ordered_tree_def]
  have tr: "tree_in ?h ?s (Some (hd (addrs t @ [?s]))) (Some (last (?s # addrs t))) t" using w by (simp add: whole_tree_def)
  have ends: "rd ?h (Some ?s) left = Some (Some (hd (addrs t @ [?s])))" "rd ?h (Some ?s) right = Some (Some (last (?s # addrs t)))"
    using sentinel_at [OF tr] by (simp_all add: rd_Some)
  have red: "is_red ?h (root_ptr t) = Some False" using is_red_at [of ?h ?s _ _ t "[]"] tr w by (simp add: balanced_def)
  show ?thesis
  proof (cases "t = Lf")
    case True
    then show ?thesis using ordered_root [OF o] ends red A by (simp add: verify_properties_def Let_def)
  next
    case False
    have rep: "rep ?h ?s t" using tr by (simp add: tree_in_def)
    obtain a ys where ys: "addrs t = a # ys" using False by (cases "addrs t") auto
    have "distinct (addrs t)" using tr by (simp add: tree_in_def)
    then obtain l c r k where t: "t = plug (Nd l a c r) k" "l = Lf" using locate_split [of t "[]" a ys] ys by auto
    have "black_count ?h (root_ptr t) (Some a) 0 = Some (bh t)" using black_count_leaf [of ?h ?s] tr w t by blast
    moreover have "verify_loop cmp key m (root_ptr t) (bh t) (Some a) 0 = Some (length (addrs t))" using tree_verify_loop [OF o, of "[]" "addrs t" 0] ys by simp
    ultimately show ?thesis using ordered_root [OF o] ends red A False min_child_ok [OF rep] max_child_ok [OF rep] ys
      by (simp add: verify_properties_def Let_def)
  qed
qed

end

end
