(* ===== verification/Rbtree_Correct.thy ===== *)
theory Rbtree_Correct
  imports Rbtree_Search
begin

text \<open>
  The class \<^verbatim>\<open>rbtree\<close> as a sorted sequence of values without equivalent keys: \<^verbatim>\<open>insert\<close>, \<^verbatim>\<open>emplace\<close>, \<^verbatim>\<open>erase\<close>, \<^verbatim>\<open>find\<close>, \<^verbatim>\<open>clear\<close> and iteration, for every
  allocator that keeps the contract \<open>node_allocator\<close>, and for \<^verbatim>\<open>fixed_set\<close> and \<^verbatim>\<open>fixed_map\<close>.
\<close>

section \<open>The tree as a sorted sequence\<close>

definition tree_view :: "(nat \<Rightarrow> 's \<Rightarrow> 'p set \<Rightarrow> bool) \<Rightarrow> 'p \<Rightarrow> ('k \<Rightarrow> 'k \<Rightarrow> bool) \<Rightarrow> ('v \<Rightarrow> 'k) \<Rightarrow> nat \<Rightarrow> ('s, 'p, 'v) rbtree \<Rightarrow> 'p ptree \<Rightarrow> 'v list \<Rightarrow> bool" where
  "tree_view ok sn cmp key n m t vs \<longleftrightarrow> rb_sentinel m = sn \<and> ordered_tree cmp key m t \<and> dom (rnodes m) = insert sn (set (addrs t)) \<and>
     ok n (rb_alloc m) (set (addrs t)) \<and> map (rvals m) (addrs t) = map Some vs"

text \<open>Where a value goes in a sorted sequence, and what is left of it without a key.\<close>

definition sorted_insert :: "('k \<Rightarrow> 'k \<Rightarrow> bool) \<Rightarrow> ('v \<Rightarrow> 'k) \<Rightarrow> 'v \<Rightarrow> 'v list \<Rightarrow> 'v list" where
  "sorted_insert cmp key v vs = takeWhile (\<lambda>w. cmp (key w) (key v)) vs @ v # dropWhile (\<lambda>w. cmp (key w) (key v)) vs"

definition equiv_key :: "('k \<Rightarrow> 'k \<Rightarrow> bool) \<Rightarrow> 'k \<Rightarrow> 'k \<Rightarrow> bool" where
  "equiv_key cmp a b \<longleftrightarrow> \<not> cmp a b \<and> \<not> cmp b a"

text \<open>The container refuses a new value when the allocator is full or returns null.\<close>

definition no_room :: "('s, 'p) allocator \<Rightarrow> 's \<Rightarrow> bool" where
  "no_room A st \<longleftrightarrow> al_full A st \<or> (case al_allocate A st of Some (None, _) \<Rightarrow> True | _ \<Rightarrow> False)"

definition insert_spec :: "('k \<Rightarrow> 'k \<Rightarrow> bool) \<Rightarrow> ('v \<Rightarrow> 'k) \<Rightarrow> bool \<Rightarrow> 'v \<Rightarrow> 'v list \<Rightarrow> int \<times> 'v list" where
  "insert_spec cmp key none w vs = (if \<exists>u \<in> set vs. equiv_key cmp (key u) (key w) then (0, vs) else if none then (- ENOMEM, vs) else (0, sorted_insert cmp key w vs))"

definition erase_spec :: "('k \<Rightarrow> 'k \<Rightarrow> bool) \<Rightarrow> ('v \<Rightarrow> 'k) \<Rightarrow> 'k \<Rightarrow> 'v list \<Rightarrow> 'v list" where
  "erase_spec cmp key x vs = filter (\<lambda>w. \<not> equiv_key cmp (key w) x) vs"

text \<open>The loop of a client from an iterator to the end.\<close>

partial_function (option) visit :: "('s, 'p, 'v) rbtree \<Rightarrow> 'p option \<Rightarrow> 'v list \<Rightarrow> 'v list option" where
  "visit m it vs = (if it = Some (rb_sentinel m) then Some vs else do {
     v \<leftarrow> rb_value m it;
     nxt \<leftarrow> increment (rnodes m) it;
     visit m nxt (vs @ [v])
   })"

lemma tree_in_upd: "a \<notin> insert s (set (addrs t)) \<Longrightarrow> tree_in (h(a := x)) s lm rm t = tree_in h s lm rm t"
  by (auto simp: tree_in_def)

lemma whole_tree_upd: "a \<notin> insert s (set (addrs t)) \<Longrightarrow> whole_tree (h(a := x)) s t = whole_tree h s t"
  by (simp add: whole_tree_def tree_in_upd)

lemma tree_viewD:
  assumes "tree_view ok sn cmp key n m t vs"
  shows "ordered_tree cmp key m t" "whole_tree (rnodes m) sn t" "balanced t" "distinct (sn # addrs t)" "length vs = length (addrs t)" "rb_sentinel m = sn"
    "ok n (rb_alloc m) (set (addrs t))" "dom (rnodes m) = insert sn (set (addrs t))" "map (rvals m) (addrs t) = map Some vs"
proof -
  show "map (rvals m) (addrs t) = map Some vs" using assms by (simp add: tree_view_def)
  then show "length vs = length (addrs t)" using map_eq_imp_length_eq by metis
qed (use assms in \<open>auto simp: tree_view_def ordered_tree_def whole_tree_def tree_in_def\<close>)

lemma tree_view_keys: "tree_view ok sn cmp key n m t vs \<Longrightarrow> map (kv key m) (addrs t) = map key vs"
proof -
  assume "tree_view ok sn cmp key n m t vs"
  then have "map (key \<circ> the) (map (rvals m) (addrs t)) = map (key \<circ> the) (map Some vs)" using tree_viewD(9) by metis
  then show ?thesis by (simp add: kv_def [abs_def] comp_def)
qed

lemma tree_view_sorted: "tree_view ok sn cmp key n m t vs \<Longrightarrow> sorted_wrt (\<lambda>v w. cmp (key v) (key w)) vs"
proof -
  assume v: "tree_view ok sn cmp key n m t vs"
  have "sorted_wrt cmp (map (kv key m) (addrs t))" using tree_viewD(1) [OF v] by (simp add: ordered_tree_def sorted_wrt_map)
  then show ?thesis unfolding tree_view_keys [OF v] by (simp add: sorted_wrt_map)
qed

lemma tree_view_value:
  assumes v: "tree_view ok sn cmp key n m t vs" and a: "a \<in> set (addrs t)"
  shows "the (rvals m a) \<in> set vs" "rb_value m (Some a) = Some (the (rvals m a))"
proof -
  have "rvals m a \<in> set (map Some vs)" unfolding tree_viewD(9) [OF v, symmetric] using a by simp
  then show "the (rvals m a) \<in> set vs" by auto
qed (rule ordered_value [OF tree_viewD(1) [OF v] a])

text \<open>Values at the addresses of a tree, split like the addresses.\<close>

lemma values_keys: "map (rvals m) xs = map Some as \<Longrightarrow> map (kv key m) xs = map key as"
  by (induction xs arbitrary: as) (auto simp: kv_def Cons_eq_map_conv)

lemma values_split:
  assumes "map f (xs @ ys) = map Some vs"
  shows "\<exists>as bs. vs = as @ bs \<and> map f xs = map Some as \<and> map f ys = map Some bs"
  using assms by (simp add: append_eq_map_conv)

lemma values_all: "map (rvals m) xs = map Some as \<Longrightarrow> (\<forall>a \<in> set xs. P (kv key m a)) \<longleftrightarrow> (\<forall>w \<in> set as. P (key w))"
  using arg_cong [OF values_keys, of m xs as set key] by (auto simp: set_eq_iff image_iff) metis+

lemma tree_view_intro:
  assumes "rb_sentinel m = sn" "whole_tree (rnodes m) sn t" "balanced t" "dom (rnodes m) = insert sn (set (addrs t))" "ok n (rb_alloc m) (set (addrs t))"
    and v: "map (rvals m) (addrs t) = map Some vs" and s: "sorted_wrt (\<lambda>v w. cmp (key v) (key w)) vs"
  shows "tree_view ok sn cmp key n m t vs"
proof -
  have "sorted_wrt cmp (map (kv key m) (addrs t))" unfolding values_keys [OF v] using s by (simp add: sorted_wrt_map)
  then have "sorted_wrt (\<lambda>a b. cmp (kv key m a) (kv key m b)) (addrs t)" by (simp add: sorted_wrt_map)
  moreover have "set (addrs t) \<subseteq> dom (rvals m)" using arg_cong [OF v, of set] by auto
  ultimately show ?thesis using assms by (simp add: tree_view_def ordered_tree_def)
qed

lemma sorted_wrt_pair: "sorted_wrt R xs \<Longrightarrow> u \<in> set xs \<Longrightarrow> w \<in> set xs \<Longrightarrow> u = w \<or> R u w \<or> R w u"
  by (induction xs) auto

lemma rep_restrict: "set (addrs t) \<inter> S = {} \<Longrightarrow> rep (h |` (- S)) q t = rep h q t"
  by (induction t arbitrary: q) (auto simp: Int_Un_distrib2 restrict_map_def)

section \<open>Correctness over any allocator\<close>

locale tree_container = node_allocator A ok sn + key_order cmp
  for A :: "('s, 'p) allocator" and ok sn and cmp :: "'k \<Rightarrow> 'k \<Rightarrow> bool" +
  fixes key :: "'v \<Rightarrow> 'k"
begin

lemma view_le: "tree_view ok sn cmp key n m t vs \<Longrightarrow> k \<le> n \<Longrightarrow> tree_view ok sn cmp key k m t vs"
  using ok_le unfolding tree_view_def by blast

lemma view_verify: "tree_view ok sn cmp key n m t vs \<Longrightarrow> verify_properties A cmp key m = Some ()"
proof -
  assume v: "tree_view ok sn cmp key n m t vs"
  note d = tree_viewD [OF v]
  have "al_size A (rb_alloc m) = length (addrs t)" "al_empty A (rb_alloc m) \<longleftrightarrow> t = Lf"
    using ok_live [OF d(7)] d(4) distinct_card [of "addrs t"] by auto
  then show ?thesis by (rule verify_ok [OF d(1)])
qed

text \<open>A new value at a free place of the tree, between the smaller and the larger keys.\<close>

lemma place_ok:
  assumes v: "tree_view ok sn cmp key n m (plug Lf k) vs"
    and o: "\<forall>b \<in> set (lctx k). cmp (kv key m b) (key w)" "\<forall>b \<in> set (rctx k). cmp (key w) (kv key m b)"
  shows "\<exists>as bs. map (rvals m) (lctx k) = map Some as \<and> map (rvals m) (rctx k) = map Some bs \<and> sorted_insert cmp key w vs = as @ w # bs \<and>
    sorted_wrt (\<lambda>v w. cmp (key v) (key w)) (as @ w # bs)"
proof -
  obtain as bs where vs: "vs = as @ bs" "map (rvals m) (lctx k) = map Some as" "map (rvals m) (rctx k) = map Some bs"
    using values_split [of "rvals m" "lctx k" "rctx k" vs] tree_viewD(9) [OF v] by (auto simp: addrs_plug)
  have b: "\<forall>u \<in> set as. cmp (key u) (key w)" "\<forall>u \<in> set bs. cmp (key w) (key u)"
    using o values_all [OF vs(2), of "\<lambda>x. cmp x (key w)"] values_all [OF vs(3), of "cmp (key w)"] by auto
  then have "sorted_insert cmp key w vs = as @ w # bs"
    using asym by (cases bs) (auto simp: sorted_insert_def vs(1) takeWhile_append2 dropWhile_append2)
  moreover have "sorted_wrt (\<lambda>v w. cmp (key v) (key w)) (as @ w # bs)"
    using tree_view_sorted [OF v] b trans unfolding vs(1) by (auto simp: sorted_wrt_append)
  ultimately show ?thesis using vs by blast
qed

lemma insert_side:
  assumes v: "tree_view ok sn cmp key n m (plug Lf k) vs" and a: "a \<notin> set (addrs (plug Lf k))"
    and o: "\<forall>b \<in> set (lctx k). cmp (kv key m b) x" "\<forall>b \<in> set (rctx k). cmp x (kv key m b)"
    and m1: "rvals m1 = (rvals m)(a := w)" "rb_sentinel m1 = sn"
  shows "(if Some (up sn k) \<noteq> Some sn then do { v \<leftarrow> rb_value m1 (Some (up sn k)); Some (cmp x (key v)) } else Some True) = Some (goes_left k)"
proof (cases k)
  case (Cons f k')
  note d = tree_viewD [OF v]
  have u: "up sn k \<in> set (addrs (plug Lf k))" using Cons by (cases f) (auto simp: addrs_plug)
  then have "up sn k \<noteq> sn" using d(4) by auto
  moreover have "rb_value m1 (Some (up sn k)) = Some (the (rvals m (up sn k)))"
    using ordered_value [OF d(1) u] u a d(6) m1 by (auto simp: rb_value_def)
  moreover have "cmp x (kv key m (up sn k)) = goes_left k" using o asym Cons by (cases f) auto
  ultimately show ?thesis by (simp add: kv_def)
qed simp

lemma insert_child_ok:
  assumes v: "tree_view ok sn cmp key n m (plug Lf k) vs" and a: "a \<notin> set (addrs (plug Lf k))" "ok i st (insert a (set (addrs (plug Lf k))))"
    and o: "\<forall>b \<in> set (lctx k). cmp (kv key m b) (key w)" "\<forall>b \<in> set (rctx k). cmp (key w) (kv key m b)"
    and m1: "m1 = m\<lparr>rb_alloc := st, rnodes := (rnodes m)(a := Some x), rvals := (rvals m)(a := Some w)\<rparr>"
  shows "\<exists>m' t'. insert_child A cmp key m1 (Some (up sn k)) (key w) (Some a) = Some m' \<and> tree_view ok sn cmp key i m' t' (sorted_insert cmp key w vs) \<and>
    rb_value m' (Some a) = Some w"
proof -
  note d = tree_viewD [OF v]
  have an: "a \<noteq> sn" using ok_live [OF a(2)] by auto
  have adr: "addrs (plug Lf k) = lctx k @ rctx k" by (simp add: addrs_plug)
  obtain as bs where p: "map (rvals m) (lctx k) = map Some as" "map (rvals m) (rctx k) = map Some bs" "sorted_insert cmp key w vs = as @ w # bs"
      "sorted_wrt (\<lambda>v w. cmp (key v) (key w)) (as @ w # bs)"
    using place_ok [OF v o] by blast
  have "whole_tree (rnodes m1) sn (plug Lf k)" using d(2) a(1) an m1 by (simp add: whole_tree_upd)
  then obtain h' t' where h': "rb_insert (rnodes m1) (Some a) (Some (up sn k)) (Some sn) (goes_left k) = Some h'" "dom h' = dom (rnodes m1)" "whole_tree h' sn t'"
      "balanced t'" "addrs t' = lctx k @ a # rctx k"
    using rb_insert_ok [of "rnodes m1" sn k a x] d(3) a(1) an m1 by auto
  let ?m = "m1\<lparr>rnodes := h'\<rparr>"
  have "map (rvals ?m) (addrs t') = map Some (as @ w # bs)" using p(1,2) a(1) adr h'(5) m1 by simp
  moreover have "dom h' = insert sn (set (addrs t'))" "set (addrs t') = insert a (set (addrs (plug Lf k)))" using h'(2,5) d(8) adr m1 by auto
  ultimately have vw: "tree_view ok sn cmp key i ?m t' (sorted_insert cmp key w vs)"
    using p(3,4) h'(3,4) a(2) d(6) m1 by (intro tree_view_intro) simp_all
  have "rb_value ?m (Some a) = Some w" using an d(6) m1 by (simp add: rb_value_def)
  moreover have "(if Some (up sn k) \<noteq> Some sn then do { v \<leftarrow> rb_value m1 (Some (up sn k)); Some (cmp (key w) (key v)) } else Some True) = Some (goes_left k)"
    by (rule insert_side [OF v a(1) o]) (simp_all add: m1 d(6))
  moreover have "rb_sentinel m1 = sn" using d(6) m1 by simp
  ultimately show ?thesis using h'(1) view_verify [OF vw] vw by (auto simp: insert_child_def Let_def)
qed

lemma tree_new_ok: "ok n st {} \<Longrightarrow> tree_view ok sn cmp key n (rbtree_new st sn) Lf []"
  by (rule tree_view_intro) (auto simp: rbtree_new_def reset_sentinel_def Let_def whole_tree_def tree_in_def balanced_def)

text \<open>The two outcomes of \<^verbatim>\<open>search_position\<close>.\<close>

lemma search_cases:
  assumes v: "tree_view ok sn cmp key n m t vs"
  obtains (found) a where "a \<in> set (addrs t)" "equiv_key cmp (kv key m a) x" "search_position cmp key m x = Some (Some a, True)" "\<exists>u \<in> set vs. equiv_key cmp (key u) x"
  | (place) k where "t = plug Lf k" "search_position cmp key m x = Some (Some (up sn k), False)" "\<forall>a \<in> set (lctx k). cmp (kv key m a) x"
      "\<forall>a \<in> set (rctx k). cmp x (kv key m a)" "\<not> (\<exists>u \<in> set vs. equiv_key cmp (key u) x)"
proof -
  note d = tree_viewD [OF v]
  note all = values_all [OF d(9), of "\<lambda>y. \<not> equiv_key cmp y x" key]
  from search_position_ok [OF d(1), of x] show ?thesis
  proof (elim disjE bexE exE conjE)
    fix a assume "a \<in> set (addrs t)" "\<not> cmp (kv key m a) x" "\<not> cmp x (kv key m a)" "search_position cmp key m x = Some (Some a, True)"
    then show ?thesis using all by (intro found) (auto simp: equiv_key_def)
  next
    fix k assume k: "t = plug Lf k" "search_position cmp key m x = Some (Some (up (rb_sentinel m) k), False)"
      "\<forall>a \<in> set (lctx k). cmp (kv key m a) x" "\<forall>a \<in> set (rctx k). cmp x (kv key m a)"
    have "\<forall>a \<in> set (addrs t). \<not> equiv_key cmp (kv key m a) x" using k by (auto simp: equiv_key_def addrs_plug)
    then show ?thesis using k d(6) all by (intro place) auto
  qed
qed

text \<open>Construction of the node and its place in the tree, for \<^verbatim>\<open>insert\<close> and \<^verbatim>\<open>emplace\<close>.\<close>

lemma add_ok:
  assumes v: "tree_view ok sn cmp key (Suc n) m (plug Lf k) vs"
    and o: "\<forall>b \<in> set (lctx k). cmp (kv key m b) (key w)" "\<forall>b \<in> set (rctx k). cmp (key w) (kv key m b)"
  shows "\<exists>r m1. rb_construct A m w = Some (r, m1) \<and>
    (case r of None \<Rightarrow> no_room A (rb_alloc m) \<and> tree_view ok sn cmp key n m1 (plug Lf k) vs
     | Some a \<Rightarrow> (no_room A (rb_alloc m) \<longleftrightarrow> al_full A (rb_alloc m)) \<and>
        (\<exists>m' t'. insert_child A cmp key m1 (Some (up sn k)) (key w) r = Some m' \<and> tree_view ok sn cmp key n m' t' (sorted_insert cmp key w vs) \<and> rb_value m' r = Some w))"
proof -
  note d = tree_viewD [OF v]
  obtain r st where a: "al_allocate A (rb_alloc m) = Some (r, st)"
      "case r of None \<Rightarrow> ok n st (set (addrs (plug Lf k))) | Some p \<Rightarrow> p \<notin> set (addrs (plug Lf k)) \<and> ok n st (insert p (set (addrs (plug Lf k))))"
    using allocate_law [OF d(7)] by blast
  show ?thesis
  proof (cases r)
    case None
    then show ?thesis using a v by (auto simp: rb_construct_def Let_def no_room_def tree_view_def ordered_tree_def kv_def [abs_def])
  next
    case (Some p)
    then show ?thesis using a insert_child_ok [OF v _ _ o refl, of p n st] by (auto simp: rb_construct_def Let_def no_room_def)
  qed
qed

lemma tree_insert_ok:
  assumes v: "tree_view ok sn cmp key (Suc n) m t vs"
  shows "\<exists>m' t'. rbtree_insert A cmp key m w = Some (fst (insert_spec cmp key (no_room A (rb_alloc m)) w vs), m') \<and>
    tree_view ok sn cmp key n m' t' (snd (insert_spec cmp key (no_room A (rb_alloc m)) w vs))"
  using v
proof (cases rule: search_cases [where x = "key w"])
  case (found a)
  then show ?thesis using view_le [OF v, of n] by (auto simp: rbtree_insert_def Let_def insert_spec_def)
next
  case (place k)
  show ?thesis
  proof (cases "al_full A (rb_alloc m)")
    case True
    then show ?thesis using place view_le [OF v, of n] by (auto simp: rbtree_insert_def Let_def insert_spec_def no_room_def)
  next
    case False
    then show ?thesis using place(2,5) add_ok [OF v [unfolded place(1)] place(3,4)]
      by (auto simp: rbtree_insert_def Let_def insert_spec_def split: option.splits)
  qed
qed

lemma tree_emplace_ok:
  assumes v: "tree_view ok sn cmp key (Suc n) m t vs"
  shows "\<exists>r m' t'. rbtree_emplace A cmp key m w = Some (r, m') \<and> tree_view ok sn cmp key n m' t' (snd (insert_spec cmp key (no_room A (rb_alloc m)) w vs)) \<and>
    (if \<exists>u \<in> set vs. equiv_key cmp (key u) (key w) then m' = m \<and> (\<exists>u \<in> set vs. rb_value m r = Some u \<and> equiv_key cmp (key u) (key w))
     else if no_room A (rb_alloc m) then r = None else rb_value m' r = Some w)"
  using v
proof (cases rule: search_cases [where x = "key w"])
  case (found a)
  then show ?thesis using view_le [OF v, of n] tree_view_value [OF v found(1)] by (auto simp: rbtree_emplace_def Let_def insert_spec_def kv_def)
next
  case (place k)
  show ?thesis
  proof (cases "al_full A (rb_alloc m)")
    case True
    then show ?thesis using place view_le [OF v, of n] by (auto simp: rbtree_emplace_def Let_def insert_spec_def no_room_def)
  next
    case False
    then show ?thesis using place(2,5) add_ok [OF v [unfolded place(1)] place(3,4)]
      by (auto simp: rbtree_emplace_def Let_def insert_spec_def split: option.splits)
  qed
qed

text \<open>Without a value the sequence is what was before and behind it.\<close>

lemma erase_spec_split:
  assumes s: "sorted_wrt (\<lambda>v w. cmp (key v) (key w)) (as @ u # bs)" and u: "equiv_key cmp (key u) x"
  shows "erase_spec cmp key x (as @ u # bs) = as @ bs"
proof -
  have "\<not> equiv_key cmp (key w) x" if "w \<in> set as \<or> w \<in> set bs" for w
    using that s u negtrans by (auto simp: sorted_wrt_append equiv_key_def) blast+
  then show ?thesis using u by (simp add: erase_spec_def filter_id_conv)
qed

lemma erase_node_ok:
  assumes v: "tree_view ok sn cmp key (Suc n) m t vs" and a: "a \<in> set (addrs t)" "equiv_key cmp (kv key m a) x"
  shows "\<exists>m' t'. erase_node A cmp key m (Some a) = Some m' \<and> tree_view ok sn cmp key n m' t' (erase_spec cmp key x vs)"
proof -
  note d = tree_viewD [OF v]
  obtain l c r k where t: "t = plug (Nd l a c r) k" using locate [OF a(1)] by blast
  have adr: "addrs t = (lctx k @ addrs l) @ a # addrs r @ rctx k" using t by (simp add: addrs_plug)
  obtain as u bs where vs: "vs = as @ u # bs" "map (rvals m) (lctx k @ addrs l) = map Some as" "rvals m a = Some u" "map (rvals m) (addrs r @ rctx k) = map Some bs"
    using values_split [of "rvals m" "lctx k @ addrs l" "a # addrs r @ rctx k" vs] d(9) unfolding adr by (auto simp: Cons_eq_map_conv)
  obtain h' t' where h': "rb_erase (rnodes m) (Some a) (Some sn) = Some h'" "dom h' = dom (rnodes m)" "whole_tree h' sn t'" "balanced t'"
      "addrs t' = lctx k @ addrs l @ addrs r @ rctx k"
    using rb_erase_ok d(2,3) t by metis
  obtain st where st: "al_deallocate A (rb_alloc m) a = Some st" "ok n st (set (addrs t) - {a})" using deallocate_law [OF d(7) a(1)] by blast
  have an: "a \<noteq> sn" "a \<notin> set (addrs t')" "distinct (addrs t)" using d(4) a(1) adr h'(5) by auto
  have ad: "set (addrs t') = set (addrs t) - {a}" using adr h'(5) an(3) by auto
  let ?m = "m\<lparr>rb_alloc := st, rnodes := h'(a := None), rvals := (rvals m)(a := None)\<rparr>"
  have s: "sorted_wrt (\<lambda>v w. cmp (key v) (key w)) (as @ u # bs)" using tree_view_sorted [OF v] vs(1) by simp
  have "tree_view ok sn cmp key n ?m t' (as @ bs)"
  proof (rule tree_view_intro)
    show "map (rvals ?m) (addrs t') = map Some (as @ bs)" using vs(2,4) an(2) h'(5) by auto
    show "dom (rnodes ?m) = insert sn (set (addrs t'))" using h'(2) d(8) an(1) ad by auto
  qed (use d(6) h'(3,4) an st(2) ad s in \<open>auto simp: whole_tree_upd sorted_wrt_append\<close>)
  moreover have "erase_spec cmp key x vs = as @ bs" using erase_spec_split [OF s] a(2) vs(1,3) by (simp add: kv_def)
  moreover have "rb_destruct A (m\<lparr>rnodes := h'\<rparr>) (Some a) = Some ?m"
  proof -
    obtain y where "h' a = Some y" using h'(2) d(8) a(1) by blast
    then show ?thesis using an(1) d(6) vs(3) st(1) by (simp add: rb_destruct_def Let_def)
  qed
  ultimately show ?thesis using h'(1) d(6) view_verify [of n ?m t' "as @ bs"] by (auto simp: erase_node_def)
qed

lemma equiv_incomparable: "equiv_key cmp a x \<Longrightarrow> equiv_key cmp b x \<Longrightarrow> \<not> cmp a b"
  using negtrans by (auto simp: equiv_key_def)

lemma find_refines:
  assumes v: "tree_view ok sn cmp key n m t vs"
  shows "\<exists>e. rb_find cmp key m x = Some (Some e) \<and>
    (case find (\<lambda>w. equiv_key cmp (key w) x) vs of None \<Rightarrow> e = sn | Some w \<Rightarrow> e \<in> set (addrs t) \<and> rb_value m (Some e) = Some w \<and> equiv_key cmp (kv key m e) x)"
proof -
  note d = tree_viewD [OF v]
  obtain e where e: "rb_find cmp key m x = Some (Some e)" "if \<exists>a \<in> set (addrs t). equiv_key cmp (kv key m a) x
     then e \<in> set (addrs t) \<and> equiv_key cmp (kv key m e) x else e = sn"
    using find_ok [OF d(1), of x] d(6) unfolding equiv_key_def by auto
  note all = values_all [OF d(9), of "\<lambda>y. \<not> equiv_key cmp y x" key]
  show ?thesis
  proof (cases "find (\<lambda>w. equiv_key cmp (key w) x) vs")
    case None
    then have "\<forall>w \<in> set vs. \<not> equiv_key cmp (key w) x" by (simp add: find_None_iff)
    then show ?thesis using None e all by auto
  next
    case (Some w)
    then have w: "w \<in> set vs" "equiv_key cmp (key w) x" by (auto simp: find_Some_iff)
    then have en: "e \<in> set (addrs t)" "equiv_key cmp (kv key m e) x" using e(2) all by (auto split: if_splits)
    have "the (rvals m e) = w" using tree_view_value(1) [OF v en(1)] sorted_wrt_pair [OF tree_view_sorted [OF v] _ w(1)] equiv_incomparable w(2) en(2) unfolding kv_def by blast
    then show ?thesis using Some e(1) en tree_view_value(2) [OF v en(1)] by auto
  qed
qed

lemma tree_erase_ok:
  assumes v: "tree_view ok sn cmp key (Suc n) m t vs"
  shows "\<exists>m' t'. rbtree_erase A cmp key m x = Some m' \<and> tree_view ok sn cmp key n m' t' (erase_spec cmp key x vs)"
proof -
  note d = tree_viewD [OF v]
  obtain e where e: "rb_find cmp key m x = Some (Some e)"
      "case find (\<lambda>w. equiv_key cmp (key w) x) vs of None \<Rightarrow> e = sn | Some w \<Rightarrow> e \<in> set (addrs t) \<and> rb_value m (Some e) = Some w \<and> equiv_key cmp (kv key m e) x"
    using find_refines [OF v] by blast
  show ?thesis
  proof (cases "find (\<lambda>w. equiv_key cmp (key w) x) vs")
    case None
    then have "erase_spec cmp key x vs = vs" by (simp add: erase_spec_def find_None_iff filter_id_conv)
    then show ?thesis using None e d(6) view_le [OF v, of n] by (auto simp: rbtree_erase_def)
  next
    case (Some w)
    then have "e \<noteq> sn" using e(2) d(4) by auto
    then show ?thesis using Some e d(6) erase_node_ok [OF v, of e x] by (simp add: rbtree_erase_def)
  qed
qed

lemma clear_subtree_ok:
  assumes "rep (rnodes m) q t" "distinct (addrs t)" "set (addrs t) \<subseteq> dom (rvals m)" "set (addrs t) \<subseteq> L" "ok (n + length (addrs t)) (rb_alloc m) L" "rb_sentinel m = sn"
  shows "\<exists>m'. clear_subtree A m (root_ptr t) = Some (length (addrs t), m') \<and> rb_sentinel m' = sn \<and> rnodes m' = rnodes m |` (- set (addrs t)) \<and>
    rvals m' = rvals m |` (- set (addrs t)) \<and> ok n (rb_alloc m') (L - set (addrs t))"
  using assms
proof (induction t arbitrary: m q L n)
  case Lf
  then show ?case by (subst clear_subtree.simps) (auto simp: restrict_map_def)
next
  case (Nd l a c r)
  note P = Nd.prems
  have a: "rnodes m a = Some \<lparr>right = root_ptr r, left = root_ptr l, parent = Some q, red = c\<rparr>" using P(1) by simp
  have dis: "set (addrs l) \<inter> set (addrs r) = {}" "a \<notin> set (addrs l)" "a \<notin> set (addrs r)" using P(2) by auto
  obtain m1 where m1: "clear_subtree A m (root_ptr l) = Some (length (addrs l), m1)" "rb_sentinel m1 = sn" "rnodes m1 = rnodes m |` (- set (addrs l))"
      "rvals m1 = rvals m |` (- set (addrs l))" "ok (Suc n + length (addrs r)) (rb_alloc m1) (L - set (addrs l))"
    using Nd.IH(1) [of m a L "Suc n + length (addrs r)"] P by (auto simp: add_ac)
  have "rep (rnodes m1) a r" using P(1) rep_restrict dis(1) unfolding m1(3) by (simp add: rep_restrict Int_commute)
  moreover have "set (addrs r) \<subseteq> dom (rvals m1)" "set (addrs r) \<subseteq> L - set (addrs l)" using P(3,4) dis(1) m1(4) by auto
  ultimately obtain m2 where m2: "clear_subtree A m1 (root_ptr r) = Some (length (addrs r), m2)" "rb_sentinel m2 = sn" "rnodes m2 = rnodes m1 |` (- set (addrs r))"
      "rvals m2 = rvals m1 |` (- set (addrs r))" "ok (Suc n) (rb_alloc m2) (L - set (addrs l) - set (addrs r))"
    using Nd.IH(2) [of m1 a "L - set (addrs l)" "Suc n"] P(2) m1(2,5) by auto
  have L: "a \<in> L - set (addrs l) - set (addrs r)" using P(4) dis by simp
  obtain st where st: "al_deallocate A (rb_alloc m2) a = Some st" "ok n st (L - set (addrs l) - set (addrs r) - {a})" using deallocate_law [OF m2(5) L] by blast
  have r1: "rd (rnodes m1) (Some a) right = Some (root_ptr r)" using a dis m1(3) by (simp add: rd_Some)
  have an: "a \<noteq> sn" using ok_live [OF m2(5)] L by auto
  obtain u where u: "rvals m2 a = Some u" "rnodes m2 a = rnodes m a" using P(3) dis m1(3,4) m2(3,4) by auto
  have e: "(rnodes m2)(a := None) = rnodes m |` (- set (addrs (Nd l a c r)))" "(rvals m2)(a := None) = rvals m |` (- set (addrs (Nd l a c r)))"
    "L - set (addrs l) - set (addrs r) - {a} = L - set (addrs (Nd l a c r))"
    using m1(3,4) m2(3,4) by (auto simp: restrict_map_def fun_eq_iff)
  have "clear_subtree A m (Some a) = Some (length (addrs l) + length (addrs r) + 1, m2\<lparr>rb_alloc := st, rnodes := (rnodes m2)(a := None), rvals := (rvals m2)(a := None)\<rparr>)"
    using a m1(1) m2(1,2) r1 u an st(1) by (subst clear_subtree.simps) (simp add: rd_Some rb_destruct_def Let_def)
  then show ?case using e st(2) m2(2) by simp
qed

lemma tree_clear_ok:
  assumes v: "tree_view ok sn cmp key (n + length vs) m t vs"
  shows "\<exists>m'. rbtree_clear A m = Some m' \<and> tree_view ok sn cmp key n m' Lf []"
proof -
  note d = tree_viewD [OF v]
  have sz: "al_size A (rb_alloc m) = length (addrs t)" using ok_live [OF d(7)] d(4) distinct_card [of "addrs t"] by simp
  obtain m' where m': "clear_subtree A m (root_ptr t) = Some (length (addrs t), m')" "rb_sentinel m' = sn" "rnodes m' = rnodes m |` (- set (addrs t))"
      "rvals m' = rvals m |` (- set (addrs t))" "ok n (rb_alloc m') (set (addrs t) - set (addrs t))"
    using clear_subtree_ok [of m sn t "set (addrs t)" n] d by (auto simp: ordered_tree_def whole_tree_def tree_in_def)
  have "dom (rnodes m') \<subseteq> {sn}" using m'(3) d(8) by auto
  then have "tree_view ok sn cmp key n (reset_sentinel m') Lf []"
    using m'(2,5) by (intro tree_view_intro) (auto simp: reset_sentinel_def Let_def whole_tree_def tree_in_def balanced_def)
  then show ?thesis using m'(1) sz ordered_root [OF d(1)] d(6) by (auto simp: rbtree_clear_def Let_def)
qed

text \<open>A loop over the iterators reads the sequence.\<close>

lemma visit_ok:
  assumes v: "tree_view ok sn cmp key n m t vs"
  shows "addrs t = xs @ ys \<Longrightarrow> map (rvals m) ys = map Some ws \<Longrightarrow> visit m (Some (hd (ys @ [sn]))) us = Some (us @ ws)"
proof (induction ys arbitrary: xs ws us)
  case Nil
  then show ?case using tree_viewD(6) [OF v] by (subst visit.simps) simp
next
  case (Cons a ys)
  note d = tree_viewD [OF v]
  obtain w ws' where w: "ws = w # ws'" "rvals m a = Some w" "map (rvals m) ys = map Some ws'" using Cons.prems(2) by (auto simp: Cons_eq_map_conv)
  have "a \<noteq> sn" using d(4) Cons.prems(1) by auto
  moreover have "increment (rnodes m) (Some a) = Some (Some (hd (ys @ [sn])))" using increment_ok [OF d(2) Cons.prems(1)] .
  ultimately show ?case using Cons.IH [of "xs @ [a]" ws' "us @ [w]"] Cons.prems(1) w d(6) by (subst visit.simps) (simp add: rb_value_def)
qed

lemma contents_ok:
  assumes v: "tree_view ok sn cmp key n m t vs"
  shows "do { it \<leftarrow> rb_begin m; visit m it [] } = Some vs"
proof -
  note d = tree_viewD [OF v]
  have "rb_begin m = Some (Some (hd (addrs t @ [sn])))" using sentinel_at [OF d(2) [unfolded whole_tree_def]] d(6) by (simp add: rb_begin_def rd_Some)
  then show ?thesis using visit_ok [OF v, of "[]" "addrs t" vs "[]"] d(9) by simp
qed

end

end
