(* ===== verification/Rbtree_Fixed.thy ===== *)
theory Rbtree_Fixed
  imports Rbtree_Correct
begin

text \<open>
  The sets and maps of \<^verbatim>\<open>src/src/container/fixed_set.h\<close> and \<^verbatim>\<open>fixed_map.h\<close>: the tree over the pool of \<open>N\<close> nodes with \<^verbatim>\<open>std::less\<close> on a linearly ordered key
  type. A set has the identity as its extractor, a map the first component.
\<close>

definition fixed_tree_new :: "nat \<Rightarrow> nat \<Rightarrow> nat \<Rightarrow> nat \<Rightarrow> (fixed_allocator, nat, 'v) rbtree option" where
  "fixed_tree_new S N addr sn = do { st \<leftarrow> fixed_allocator_new S N addr; Some (rbtree_new st sn) }"

interpretation less: key_order "(<) :: 'k::linorder \<Rightarrow> 'k \<Rightarrow> bool"
  by unfold_locales auto

interpretation ft: tree_container "fixed_allocator_ops S N S" "fa_contract S N sn" sn "(<) :: 'k::linorder \<Rightarrow> 'k \<Rightarrow> bool" key
  for S N sn :: nat and key :: "'v \<Rightarrow> 'k::linorder" ..

text \<open>The values of a tree in their order.\<close>

definition fixed_tree :: "nat \<Rightarrow> nat \<Rightarrow> ('v \<Rightarrow> 'k::linorder) \<Rightarrow> (fixed_allocator, nat, 'v) rbtree \<Rightarrow> 'v list \<Rightarrow> bool" where
  "fixed_tree S N key m vs \<longleftrightarrow> (\<exists>t. tree_view (fa_contract S N (rb_sentinel m)) (rb_sentinel m) (<) key 0 m t vs)"

lemma fa_contract_budget: "fa_contract S N sn n a L = fa_contract S N sn k a L"
  by (simp add: fa_contract_def)

lemma fixed_treeI: "tree_view (fa_contract S N sn) sn (<) key n m t vs \<Longrightarrow> fixed_tree S N key m vs"
  using fa_contract_budget unfolding fixed_tree_def tree_view_def by blast

lemma fixed_treeE:
  assumes "fixed_tree S N key m vs"
  obtains t where "\<And>n. tree_view (fa_contract S N (rb_sentinel m)) (rb_sentinel m) (<) key n m t vs"
  using assms fa_contract_budget unfolding fixed_tree_def tree_view_def by blast

lemma fixed_tree_sorted: "fixed_tree S N key m vs \<Longrightarrow> sorted_wrt (<) (map key vs)"
  unfolding fixed_tree_def using tree_view_sorted by (auto simp: sorted_wrt_map)

lemma fixed_tree_card:
  assumes "tree_view (fa_contract S N sn) sn (<) key n m t vs"
  shows "card (set (addrs t)) = length vs" "length vs \<le> N" "fa_size (rb_alloc m) = length vs"
proof -
  note d = tree_viewD [OF assms]
  obtain xs k where v: "0 < S" "fa_view S N (rb_alloc m) (set (addrs t)) xs k" using d(7) by (auto simp: fa_contract_def fa_ok_def)
  show c: "card (set (addrs t)) = length vs" using d(4,5) distinct_card [of "addrs t"] by simp
  then show "length vs \<le> N" using fa_view_card(3) [OF v] by simp
  show "fa_size (rb_alloc m) = length vs" using v(2) c by (simp add: fa_view_def)
qed

lemma fixed_tree_length: "fixed_tree S N key m vs \<Longrightarrow> length vs \<le> N \<and> fa_size (rb_alloc m) = length vs"
  using fixed_tree_card(2,3) unfolding fixed_tree_def by blast

text \<open>The pool has no room exactly when it holds \<open>N\<close> values.\<close>

lemma fixed_no_room:
  assumes v: "\<And>n. tree_view (fa_contract S N sn) sn (<) key n m t vs"
  shows "no_room (fixed_allocator_ops S N S) (rb_alloc m) \<longleftrightarrow> length vs = N"
proof -
  note d = tree_viewD [OF v]
  obtain r st where a: "al_allocate (fixed_allocator_ops S N S) (rb_alloc m) = Some (r, st)" using fa.allocate_law [OF d(7)] by blast
  have "al_full (fixed_allocator_ops S N S) (rb_alloc m) \<longleftrightarrow> length vs = N" using pool.full_law [OF d(7)] fixed_tree_card(1) [OF v] by simp
  moreover have "r = None \<longleftrightarrow> length vs = N" using pool.pool_law [OF d(7) a] fixed_tree_card(1) [OF v] by simp
  ultimately show ?thesis using a by (auto simp: no_room_def split: option.splits)
qed

lemma equiv_less [simp]: "equiv_key (<) a b \<longleftrightarrow> a = (b :: 'k::linorder)"
  by (auto simp: equiv_key_def)

lemma sorted_insert_insort:
  "sorted_wrt (<) (map key vs) \<Longrightarrow> key w \<notin> key ` set vs \<Longrightarrow> sorted_insert (<) key w vs = insort_key key w vs"
  by (induction vs) (auto simp: sorted_insert_def)

text \<open>At most one value has a key.\<close>

lemma strictly_first: "sorted_wrt (<) (map key (a # vs)) \<Longrightarrow> u \<in> set vs \<Longrightarrow> key u \<noteq> (key a :: 'k::linorder)"
  by (auto dest: order.strict_implies_not_eq)

lemma filter_key_single: "sorted_wrt (<) (map (key :: 'v \<Rightarrow> 'k::linorder) vs) \<Longrightarrow> w \<in> set vs \<Longrightarrow> filter (\<lambda>u. key u = key w) vs = [w]"
proof (induction vs)
  case (Cons a vs)
  have lt: "\<forall>u \<in> set vs. key u \<noteq> key a" using strictly_first [OF Cons.prems(1)] by blast
  then have "filter (\<lambda>u. key u = key a) vs = []" by (simp add: filter_empty_conv)
  then show ?case using Cons lt by (cases "w = a") auto
qed simp

lemma filter_key_remove1: "sorted_wrt (<) (map (key :: 'v \<Rightarrow> 'k::linorder) vs) \<Longrightarrow> w \<in> set vs \<Longrightarrow> filter (\<lambda>u. key u \<noteq> key w) vs = remove1 w vs"
proof (induction vs)
  case (Cons a vs)
  have lt: "\<forall>u \<in> set vs. key u \<noteq> key a" using strictly_first [OF Cons.prems(1)] by blast
  then have "filter (\<lambda>u. key u \<noteq> key a) vs = vs" by (simp add: filter_id_conv)
  then show ?case using Cons lt by (cases "w = a") auto
qed simp

lemma fixed_tree_new_ok:
  assumes "0 < S" "addr \<noteq> 0" "sn \<notin> slot S addr ` {..<N}"
  shows "\<exists>m. fixed_tree_new S N addr sn = Some m \<and> rb_sentinel m = sn \<and> fixed_tree S N key m []"
proof -
  obtain a where a: "fixed_allocator_new S N addr = Some a" "fa_ok S N addr a {}" using fixed_allocator_new_ok [OF assms(2)] by blast
  then have "fa_contract S N sn 0 a {}" using assms fa_ok_memory [OF a(2)] by (simp add: fa_contract_def)
  from fixed_treeI [OF ft.tree_new_ok [OF this]] show ?thesis using a(1) by (auto simp: fixed_tree_new_def rbtree_new_def reset_sentinel_def Let_def)
qed

lemma fixed_insert_spec:
  assumes v: "\<And>n. tree_view (fa_contract S N sn) sn (<) key n m t vs"
  shows "insert_spec (<) key (no_room (fixed_allocator_ops S N S) (rb_alloc m)) w vs =
    (if key w \<in> key ` set vs then (0, vs) else if length vs = N then (- ENOMEM, vs) else (0, insort_key key w vs))"
  using fixed_no_room [OF v] sorted_insert_insort [of key vs w] fixed_tree_sorted [OF fixed_treeI [OF v]] by (auto simp: insert_spec_def image_iff)

text \<open>A map is the finite map of the pairs that its tree holds.\<close>

definition fixed_map :: "nat \<Rightarrow> nat \<Rightarrow> (fixed_allocator, nat, 'k::linorder \<times> 'v) rbtree \<Rightarrow> ('k \<Rightarrow> 'v option) \<Rightarrow> bool" where
  "fixed_map S N m M \<longleftrightarrow> (\<exists>vs. fixed_tree S N fst m vs \<and> M = map_of vs)"

lemma map_of_find: "map_of vs k = map_option snd (find (\<lambda>w. fst w = k) vs)"
  by (induction vs) auto

lemma find_SomeD: "find P xs = Some x \<Longrightarrow> P x"
  by (auto simp: find_Some_iff)

lemma map_of_filter_key: "map_of (filter (\<lambda>w. fst w \<noteq> k) vs) = (map_of vs)(k := None)"
  by (induction vs) auto

lemma map_of_insort: "k \<notin> fst ` set vs \<Longrightarrow> map_of (insort_key fst (k, v) vs) = (map_of vs)(k \<mapsto> v)"
  by (induction vs) auto

text \<open>The operations on the sequence of values.\<close>

lemma fixed_insert_ok:
  assumes m: "fixed_tree S N key m vs"
  shows "\<exists>r m'. rbtree_insert (fixed_allocator_ops S N S) (<) key m w = Some (r, m') \<and>
    (if key w \<in> key ` set vs then r = 0 \<and> fixed_tree S N key m' vs
     else if length vs = N then r = - ENOMEM \<and> fixed_tree S N key m' vs else r = 0 \<and> fixed_tree S N key m' (insort_key key w vs))"
proof -
  obtain t where v: "\<And>n. tree_view (fa_contract S N (rb_sentinel m)) (rb_sentinel m) (<) key n m t vs" by (rule fixed_treeE [OF m]) blast
  obtain m' t' where a: "rbtree_insert (fixed_allocator_ops S N S) (<) key m w = Some (fst (insert_spec (<) key (no_room (fixed_allocator_ops S N S) (rb_alloc m)) w vs), m')"
      "tree_view (fa_contract S N (rb_sentinel m)) (rb_sentinel m) (<) key 0 m' t' (snd (insert_spec (<) key (no_room (fixed_allocator_ops S N S) (rb_alloc m)) w vs))"
    using ft.tree_insert_ok [OF v] by blast
  show ?thesis using a(1) fixed_treeI [OF a(2)] unfolding fixed_insert_spec [OF v, of w]
    by (cases "key w \<in> key ` set vs"; cases "length vs = N") auto
qed

lemma fixed_emplace_ok:
  assumes m: "fixed_tree S N key m vs"
  shows "\<exists>p m'. rbtree_emplace (fixed_allocator_ops S N S) (<) key m w = Some (p, m') \<and>
    (if key w \<in> key ` set vs then m' = m \<and> (\<exists>u \<in> set vs. key u = key w \<and> rb_value m p = Some u)
     else if length vs = N then p = None \<and> fixed_tree S N key m' vs else rb_value m' p = Some w \<and> fixed_tree S N key m' (insort_key key w vs))"
proof -
  obtain t where v: "\<And>n. tree_view (fa_contract S N (rb_sentinel m)) (rb_sentinel m) (<) key n m t vs" by (rule fixed_treeE [OF m]) blast
  obtain p m' t' where a: "rbtree_emplace (fixed_allocator_ops S N S) (<) key m w = Some (p, m')"
      "tree_view (fa_contract S N (rb_sentinel m)) (rb_sentinel m) (<) key 0 m' t' (snd (insert_spec (<) key (no_room (fixed_allocator_ops S N S) (rb_alloc m)) w vs))"
      "if \<exists>u \<in> set vs. equiv_key (<) (key u) (key w) then m' = m \<and> (\<exists>u \<in> set vs. rb_value m p = Some u \<and> equiv_key (<) (key u) (key w))
       else if no_room (fixed_allocator_ops S N S) (rb_alloc m) then p = None else rb_value m' p = Some w"
    using ft.tree_emplace_ok [OF v] by blast
  have e: "(\<exists>u \<in> set vs. key u = key w) \<longleftrightarrow> key w \<in> key ` set vs" by (metis image_iff)
  show ?thesis using a(1) a(3) [unfolded fixed_no_room [OF v] equiv_less e] fixed_treeI [OF a(2)] unfolding fixed_insert_spec [OF v, of w]
    by (cases "key w \<in> key ` set vs"; cases "length vs = N") auto
qed

lemma fixed_erase_ok:
  assumes m: "fixed_tree S N key m vs"
  shows "\<exists>m'. rbtree_erase (fixed_allocator_ops S N S) (<) key m x = Some m' \<and> fixed_tree S N key m' (filter (\<lambda>w. key w \<noteq> x) vs)"
proof -
  obtain t where v: "\<And>n. tree_view (fa_contract S N (rb_sentinel m)) (rb_sentinel m) (<) key n m t vs" by (rule fixed_treeE [OF m]) blast
  show ?thesis using ft.tree_erase_ok [OF v, where x = x] fixed_treeI unfolding erase_spec_def equiv_less by blast
qed

lemma fixed_find_ok:
  assumes m: "fixed_tree S N key m vs"
  shows "\<exists>it. rb_find (<) key m x = Some it \<and>
    (case find (\<lambda>w. key w = x) vs of None \<Rightarrow> it = Some (rb_sentinel m) | Some w \<Rightarrow> it \<noteq> Some (rb_sentinel m) \<and> rb_value m it = Some w)"
proof -
  obtain t where v: "\<And>n. tree_view (fa_contract S N (rb_sentinel m)) (rb_sentinel m) (<) key n m t vs" by (rule fixed_treeE [OF m]) blast
  show ?thesis using ft.find_refines [OF v, where x = x] tree_viewD(4) [OF v] by (auto split: option.splits)
qed

lemma small_set:
  "\<exists>m m1. fixed_tree_new 40 2 100 8 = Some m \<and> rbtree_insert (fixed_allocator_ops 40 2 40) (<) (\<lambda>x. x) m (7 :: int) = Some (0, m1) \<and> fixed_tree 40 2 (\<lambda>x. x) m1 [7]"
proof -
  have "8 \<notin> slot 40 100 ` {..<2}" by (auto simp: slot_def)
  then obtain m :: "(fixed_allocator, nat, int) rbtree" where m: "fixed_tree_new 40 2 100 8 = Some m" "fixed_tree 40 2 (\<lambda>x. x) m []"
    using fixed_tree_new_ok [of 40 100 8 2 "\<lambda>x. x"] by auto
  show ?thesis using fixed_insert_ok [OF m(2), of 7] m(1) by auto
qed

text \<open>
  C20: insertion into a \<^verbatim>\<open>fixed_set\<close> or \<^verbatim>\<open>fixed_map\<close>. The values are kept in strictly increasing order of their keys, at most \<open>N\<close> of them. \<^verbatim>\<open>insert\<close> always returns:
  with 0 and an unchanged tree if the key is present, with \<^verbatim>\<open>-ENOMEM\<close> and an unchanged sequence if \<open>N\<close> values are stored, and else with 0 and the value at its
  place in the order. \<^verbatim>\<open>emplace\<close> does the same and returns the address of the value with the key, or null when there is no room. The red-black
  properties that \<^verbatim>\<open>verify_properties\<close> asserts after every change hold.
\<close>

theorem rbtree_insert_refines:
  fixes S N :: nat and key :: "'v \<Rightarrow> 'k::linorder" and m :: "(fixed_allocator, nat, 'v) rbtree"
  defines "A \<equiv> fixed_allocator_ops S N S"
  assumes m: "fixed_tree S N key m vs"
  shows "sorted_wrt (<) (map key vs) \<and> length vs \<le> N \<and> verify_properties A (<) key m = Some () \<and>
    (\<exists>r m'. rbtree_insert A (<) key m w = Some (r, m') \<and>
      (if key w \<in> key ` set vs then r = 0 \<and> fixed_tree S N key m' vs
       else if length vs = N then r = - ENOMEM \<and> fixed_tree S N key m' vs else r = 0 \<and> fixed_tree S N key m' (insort_key key w vs))) \<and>
    (\<exists>p m'. rbtree_emplace A (<) key m w = Some (p, m') \<and>
      (if key w \<in> key ` set vs then m' = m \<and> (\<exists>u \<in> set vs. key u = key w \<and> rb_value m p = Some u)
       else if length vs = N then p = None \<and> fixed_tree S N key m' vs else rb_value m' p = Some w \<and> fixed_tree S N key m' (insort_key key w vs)))"
proof -
  obtain t where v: "\<And>n. tree_view (fa_contract S N (rb_sentinel m)) (rb_sentinel m) (<) key n m t vs" by (rule fixed_treeE [OF m]) blast
  show ?thesis using fixed_insert_ok [OF m, of w] fixed_emplace_ok [OF m, of w] fixed_tree_sorted [OF m] fixed_tree_length [OF m] ft.view_verify [OF v]
    by (simp add: A_def)
qed

theorem rbtree_insert_refines_witness:
  "\<exists>m r m'. fixed_tree_new 40 2 100 8 = Some m \<and> rbtree_insert (fixed_allocator_ops 40 2 40) (<) (\<lambda>x. x) m (7 :: int) = Some (r, m') \<and> r = 0 \<and> fixed_tree 40 2 (\<lambda>x. x) m' [7]"
proof -
  have "8 \<notin> slot 40 100 ` {..<2}" by (auto simp: slot_def)
  then obtain m :: "(fixed_allocator, nat, int) rbtree" where m: "fixed_tree_new 40 2 100 8 = Some m" "fixed_tree 40 2 (\<lambda>x. x) m []"
    using fixed_tree_new_ok [of 40 100 8 2 "\<lambda>x. x"] by auto
  show ?thesis using rbtree_insert_refines [OF m(2), of 7] m(1) by auto
qed

text \<open>
  C21: removal from a \<^verbatim>\<open>fixed_set\<close> or \<^verbatim>\<open>fixed_map\<close>. \<^verbatim>\<open>erase(key)\<close> always returns and leaves exactly the values with other keys, so an absent key changes nothing;
  \<^verbatim>\<open>erase(it)\<close> removes the value of the iterator and does nothing at \<^verbatim>\<open>end()\<close>; \<^verbatim>\<open>clear\<close> removes all values, one node each, and leaves an empty tree.
\<close>

theorem rbtree_erase_refines:
  fixes S N :: nat and key :: "'v \<Rightarrow> 'k::linorder" and m :: "(fixed_allocator, nat, 'v) rbtree"
  defines "A \<equiv> fixed_allocator_ops S N S"
  assumes m: "fixed_tree S N key m vs"
  shows "(\<exists>m'. rbtree_erase A (<) key m x = Some m' \<and> fixed_tree S N key m' (filter (\<lambda>w. key w \<noteq> x) vs)) \<and>
    rbtree_erase_at A (<) key m (Some (rb_sentinel m)) = Some m \<and>
    (rnodes m a \<noteq> None \<and> a \<noteq> rb_sentinel m \<longrightarrow>
      (\<exists>w m'. w \<in> set vs \<and> rb_value m (Some a) = Some w \<and> rbtree_erase_at A (<) key m (Some a) = Some m' \<and> fixed_tree S N key m' (remove1 w vs))) \<and>
    (\<exists>m'. rbtree_clear A m = Some m' \<and> fixed_tree S N key m' [])"
proof -
  obtain t where v: "\<And>n. tree_view (fa_contract S N (rb_sentinel m)) (rb_sentinel m) (<) key n m t vs" by (rule fixed_treeE [OF m]) blast
  have sp: "erase_spec (<) key y vs = filter (\<lambda>w. key w \<noteq> y) vs" for y by (simp add: erase_spec_def)
  have "\<exists>w m'. w \<in> set vs \<and> rb_value m (Some a) = Some w \<and> rbtree_erase_at A (<) key m (Some a) = Some m' \<and> fixed_tree S N key m' (remove1 w vs)"
    if a: "rnodes m a \<noteq> None" "a \<noteq> rb_sentinel m"
  proof -
    have "a \<in> dom (rnodes m)" using a(1) by blast
    then have at: "a \<in> set (addrs t)" using a(2) tree_viewD(8) [OF v] by simp
    let ?w = "the (rvals m a)"
    note w = tree_view_value [OF v at]
    have "\<exists>m' t'. erase_node A (<) key m (Some a) = Some m' \<and> tree_view (fa_contract S N (rb_sentinel m)) (rb_sentinel m) (<) key 0 m' t' (filter (\<lambda>u. key u \<noteq> key ?w) vs)"
      using ft.erase_node_ok [OF v at, of "key ?w" 0] by (simp add: sp A_def kv_def)
    moreover have "filter (\<lambda>u. key u \<noteq> key ?w) vs = remove1 ?w vs" using filter_key_remove1 [OF fixed_tree_sorted [OF m] w(1)] .
    ultimately show ?thesis using w a(2) fixed_treeI by (auto simp: rbtree_erase_at_def)
  qed
  moreover have "\<exists>m'. rbtree_clear A m = Some m' \<and> fixed_tree S N key m' []"
    using ft.tree_clear_ok [OF v] fixed_treeI unfolding A_def by blast
  ultimately show ?thesis using fixed_erase_ok [OF m, of x] by (simp add: rbtree_erase_at_def A_def)
qed

theorem rbtree_erase_refines_witness:
  "\<exists>m m1 m'. fixed_tree_new 40 2 100 8 = Some m \<and> rbtree_insert (fixed_allocator_ops 40 2 40) (<) (\<lambda>x. x) m (7 :: int) = Some (0, m1) \<and>
    rbtree_erase (fixed_allocator_ops 40 2 40) (<) (\<lambda>x. x) m1 7 = Some m' \<and> fixed_tree 40 2 (\<lambda>x. x) m' []"
proof -
  obtain m m1 :: "(fixed_allocator, nat, int) rbtree" where m: "fixed_tree_new 40 2 100 8 = Some m"
      "rbtree_insert (fixed_allocator_ops 40 2 40) (<) (\<lambda>x. x) m 7 = Some (0, m1)" "fixed_tree 40 2 (\<lambda>x. x) m1 [7]" using small_set by blast
  show ?thesis using rbtree_erase_refines [OF m(3), of 7] m(1,2) by auto
qed

text \<open>
  Reading a \<^verbatim>\<open>fixed_set\<close> or \<^verbatim>\<open>fixed_map\<close>. \<^verbatim>\<open>find\<close> always returns an iterator to the only value with the key, or \<^verbatim>\<open>end()\<close> when no value has it; a loop from
  \<^verbatim>\<open>begin()\<close> with \<^verbatim>\<open>++\<close> ends and visits the values in increasing order of their keys.
\<close>

theorem rbtree_find_iterate:
  fixes S N :: nat and key :: "'v \<Rightarrow> 'k::linorder" and m :: "(fixed_allocator, nat, 'v) rbtree"
  assumes m: "fixed_tree S N key m vs"
  shows "(\<exists>it. rb_find (<) key m x = Some it \<and>
      (if x \<in> key ` set vs then it \<noteq> Some (rb_sentinel m) \<and> (\<exists>w. rb_value m it = Some w \<and> filter (\<lambda>u. key u = x) vs = [w]) else it = Some (rb_sentinel m))) \<and>
    do { it \<leftarrow> rb_begin m; visit m it [] } = Some vs"
proof -
  obtain t where v: "\<And>n. tree_view (fa_contract S N (rb_sentinel m)) (rb_sentinel m) (<) key n m t vs" by (rule fixed_treeE [OF m]) blast
  obtain it where it: "rb_find (<) key m x = Some it"
      "case find (\<lambda>w. key w = x) vs of None \<Rightarrow> it = Some (rb_sentinel m) | Some w \<Rightarrow> it \<noteq> Some (rb_sentinel m) \<and> rb_value m it = Some w"
    using fixed_find_ok [OF m] by blast
  show ?thesis
  proof (cases "find (\<lambda>w. key w = x) vs")
    case None
    then have "x \<notin> key ` set vs" by (auto simp: find_None_iff)
    then show ?thesis using None it ft.contents_ok [OF v] by auto
  next
    case (Some w)
    then have w: "w \<in> set vs" "key w = x" by (auto simp: find_Some_iff)
    then have "filter (\<lambda>u. key u = x) vs = [w]" using filter_key_single [OF fixed_tree_sorted [OF m] w(1)] by simp
    then show ?thesis using it Some w ft.contents_ok [OF v] by auto
  qed
qed

theorem rbtree_find_iterate_witness:
  "\<exists>m it. fixed_tree 40 2 (\<lambda>x. x) m [7 :: int] \<and> rb_find (<) (\<lambda>x. x) m 7 = Some it \<and> rb_value m it = Some 7 \<and> it \<noteq> Some (rb_sentinel m)"
proof -
  obtain m :: "(fixed_allocator, nat, int) rbtree" where m: "fixed_tree 40 2 (\<lambda>x. x) m [7]" using small_set by blast
  show ?thesis using rbtree_find_iterate [OF m, of 7] m by auto
qed

text \<open>
  A \<^verbatim>\<open>fixed_map\<close> is a finite map of at most \<open>N\<close> keys. \<^verbatim>\<open>insert\<close> of a present key keeps the old value and returns 0, \<^verbatim>\<open>insert\<close> of a new key adds it or
  returns \<^verbatim>\<open>-ENOMEM\<close> when \<open>N\<close> keys are stored; \<^verbatim>\<open>erase\<close> removes the key; \<^verbatim>\<open>find\<close> looks it up.
\<close>

theorem fixed_map_refines_map:
  fixes S N :: nat and m :: "(fixed_allocator, nat, 'k::linorder \<times> 'v) rbtree"
  defines "A \<equiv> fixed_allocator_ops S N S"
  assumes m: "fixed_map S N m M"
  shows "card (dom M) \<le> N \<and>
    (\<exists>r m'. rbtree_insert A (<) fst m (k, v) = Some (r, m') \<and>
      (if k \<in> dom M then r = 0 \<and> fixed_map S N m' M else if card (dom M) = N then r = - ENOMEM \<and> fixed_map S N m' M else r = 0 \<and> fixed_map S N m' (M(k \<mapsto> v)))) \<and>
    (\<exists>m'. rbtree_erase A (<) fst m k = Some m' \<and> fixed_map S N m' (M(k := None))) \<and>
    (\<exists>it. rb_find (<) fst m k = Some it \<and> (case M k of None \<Rightarrow> it = Some (rb_sentinel m) | Some w \<Rightarrow> rb_value m it = Some (k, w)))"
proof -
  obtain vs where vs: "fixed_tree S N fst m vs" "M = map_of vs" using m by (auto simp: fixed_map_def)
  have dis: "distinct (map fst vs)" using strict_sorted_iff fixed_tree_sorted [OF vs(1)] by blast
  have dom: "dom M = fst ` set vs" by (simp add: vs(2) dom_map_of_conv_image_fst)
  then have c: "card (dom M) = length vs" using distinct_card [OF dis] by simp
  have "map_of (insort_key fst (k, v) vs) = M(k \<mapsto> v)" if "k \<notin> dom M" using map_of_insort [of k vs v] that dom vs(2) by simp
  then have "\<exists>r m'. rbtree_insert A (<) fst m (k, v) = Some (r, m') \<and>
      (if k \<in> dom M then r = 0 \<and> fixed_map S N m' M else if card (dom M) = N then r = - ENOMEM \<and> fixed_map S N m' M else r = 0 \<and> fixed_map S N m' (M(k \<mapsto> v)))"
    using fixed_insert_ok [OF vs(1), of "(k, v)"] dom c vs(2) unfolding fixed_map_def A_def by (auto split: if_splits) metis+
  moreover have "\<exists>m'. rbtree_erase A (<) fst m k = Some m' \<and> fixed_map S N m' (M(k := None))"
    using fixed_erase_ok [OF vs(1), of k] map_of_filter_key [of k vs] unfolding fixed_map_def A_def vs(2) by metis
  moreover have "\<exists>it. rb_find (<) fst m k = Some it \<and> (case M k of None \<Rightarrow> it = Some (rb_sentinel m) | Some w \<Rightarrow> rb_value m it = Some (k, w))"
    using fixed_find_ok [OF vs(1), of k] find_SomeD [of "\<lambda>w. fst w = k" vs] unfolding vs(2) map_of_find [of vs k]
    by (cases "find (\<lambda>w. fst w = k) vs") auto
  ultimately show ?thesis using c fixed_tree_length [OF vs(1)] by simp
qed

theorem fixed_map_refines_map_witness:
  "\<exists>m r m'. fixed_tree_new 40 2 100 8 = Some m \<and> rbtree_insert (fixed_allocator_ops 40 2 40) (<) fst m (7 :: int, True) = Some (r, m') \<and> fixed_map 40 2 m' [7 \<mapsto> True]"
proof -
  have "8 \<notin> slot 40 100 ` {..<2}" by (auto simp: slot_def)
  then obtain m :: "(fixed_allocator, nat, int \<times> bool) rbtree" where m: "fixed_tree_new 40 2 100 8 = Some m" "fixed_tree 40 2 fst m []"
    using fixed_tree_new_ok [of 40 100 8 2 fst] by auto
  then have "fixed_map 40 2 m Map.empty" by (auto simp: fixed_map_def)
  from fixed_map_refines_map [OF this, of 7 True] show ?thesis using m(1) by auto
qed

end
