(* ===== verification/Shm_Containers.thy ===== *)
theory Shm_Containers
  imports Shm_Allocator Rbtree_Fixed
begin

text \<open>
  \<^verbatim>\<open>src/src/container/shm_list.h\<close>, \<^verbatim>\<open>shm_set.h\<close> and \<^verbatim>\<open>shm_map.h\<close>: the list and the tree whose nodes the shared memory manager hands out. What holds for every allocator
  that keeps the contract is carried over to the manager itself, down to its page heap and its chunks. \<open>n\<close> is the number of calls that the metadata block has room for.
\<close>

definition node_null :: "nat \<Rightarrow> shm_allocator \<Rightarrow> bool" where
  "node_null sz a \<longleftrightarrow> (\<exists>s. sa_allocate a sz = Some (None, s))"

lemma al_allocate_shm [simp]: "al_allocate (shm_allocator_ops sz) a = sa_allocate a sz" "\<not> al_full (shm_allocator_ops sz) a"
  by (simp_all add: shm_allocator_ops_def sa_full_def)

section \<open>The list\<close>

definition shm_list :: "nat \<Rightarrow> nat \<Rightarrow> (shm_allocator, addr, 'v) sk_list \<Rightarrow> addr list \<Rightarrow> 'v list \<Rightarrow> bool" where
  "shm_list sz n m xs vs \<longleftrightarrow> list_view (sa_contract sz (sentinel m)) (sentinel m) n m xs vs"

lemma shm_view: "list_view (sa_contract sz sn) sn n m xs vs \<longleftrightarrow> shm_list sz n m xs vs \<and> sentinel m = sn"
  by (auto simp: shm_list_def list_view_def)

lemma shm_list_new_ok: "nodes_ok sz sn n s {} \<Longrightarrow> shm_list sz n (list_new (shm_allocator_new s) sn) [] []"
  by (rule conjunct1 [OF shm_view [THEN iffD1, OF sa.list_new_ok [OF sa_contract_start]]])

lemma shm_insert_ok:
  assumes v: "shm_list sz (Suc n) m xs vs" and i: "i \<le> length vs"
  shows "\<exists>r m'. list_insert (shm_allocator_ops sz) m ((xs @ [sentinel m]) ! i) t = Some (r, m') \<and>
    (if node_null sz (allocator_st m) then r = - ENOMEM \<and> shm_list sz n m' xs vs
     else r = 0 \<and> (\<exists>x. shm_list sz n m' (take i xs @ x # drop i xs) (take i vs @ t # drop i vs)))"
proof -
  have w: "list_view (sa_contract sz (sentinel m)) (sentinel m) (Suc n) m xs vs" using v by (simp add: shm_view)
  have l: "length vs = length xs" using list_viewD(6) [OF w] by simp
  have "hd (drop i xs @ [sentinel m]) = (xs @ [sentinel m]) ! i" using i l hd_drop_conv_nth [of i "xs @ [sentinel m]"] by simp
  then show ?thesis using sa.insert_ok [of sz "sentinel m" n m "take i xs" "drop i xs" "take i vs" "drop i vs" t] w i l
    by (auto simp: shm_view node_null_def simp del: split_paired_Ex)
qed

text \<open>
  C26: a \<^verbatim>\<open>shm_list\<close> is a sequence. With room for one more call to the allocator no operation aborts: \<^verbatim>\<open>insert\<close> before the \<open>i\<close>th element or before \<^verbatim>\<open>end()\<close>, and with it
  \<^verbatim>\<open>push_back\<close> and \<^verbatim>\<open>push_front\<close>, adds the element there, or returns \<^verbatim>\<open>-ENOMEM\<close> and leaves the sequence when the manager has no memory for a node; \<^verbatim>\<open>erase\<close> removes the element of
  its node, gives the node back to the manager and returns the next position; \<^verbatim>\<open>clear\<close>, with room for one call per element, gives all nodes back.
\<close>

theorem shm_list_refines_sequence:
  fixes sz :: nat and m :: "(shm_allocator, addr, 'v) sk_list"
  defines "A \<equiv> shm_allocator_ops sz"
  assumes v: "shm_list sz (Suc n) m xs vs"
  shows "list_front A m = Some (if vs = [] then None else Some (hd vs)) \<and> list_back A m = Some (if vs = [] then None else Some (last vs)) \<and>
    push_back A m t = list_insert A m ((xs @ [sentinel m]) ! length vs) t \<and> push_front A m t = list_insert A m ((xs @ [sentinel m]) ! 0) t \<and>
    (i \<le> length vs \<longrightarrow> (\<exists>r m'. list_insert A m ((xs @ [sentinel m]) ! i) t = Some (r, m') \<and>
      (if node_null sz (allocator_st m) then r = - ENOMEM \<and> shm_list sz n m' xs vs
       else r = 0 \<and> (\<exists>x. shm_list sz n m' (take i xs @ x # drop i xs) (take i vs @ t # drop i vs))))) \<and>
    (i < length vs \<longrightarrow> (\<exists>m'. list_erase A m (xs ! i) = Some ((xs @ [sentinel m]) ! Suc i, m') \<and>
      shm_list sz n m' (take i xs @ drop (Suc i) xs) (take i vs @ drop (Suc i) vs))) \<and>
    (n = length vs + k \<longrightarrow> (\<exists>m'. list_clear A m = Some m' \<and> shm_list sz k m' [] []))"
proof -
  let ?sn = "sentinel m"
  have w: "list_view (sa_contract sz ?sn) ?sn (Suc n) m xs vs" using v by (simp add: shm_view)
  have l: "length vs = length xs" using list_viewD(6) [OF w] by simp
  have "\<exists>m'. list_erase A m (xs ! i) = Some ((xs @ [?sn]) ! Suc i, m') \<and> shm_list sz n m' (take i xs @ drop (Suc i) xs) (take i vs @ drop (Suc i) vs)"
    if "i < length vs"
  proof -
    have "hd (drop (Suc i) xs @ [?sn]) = (xs @ [?sn]) ! Suc i" using that l(1) hd_drop_conv_nth [of "Suc i" "xs @ [?sn]"] by simp
    then show ?thesis using sa.erase_ok [of sz ?sn n m "take i xs" "xs ! i" "drop (Suc i) xs" "take i vs" "vs ! i" "drop (Suc i) vs"] w that l
      by (auto simp: A_def shm_view nth_take_drop_append)
  qed
  moreover have "\<exists>m'. list_clear A m = Some m' \<and> shm_list sz k m' [] []" if "n = length vs + k"
    using sa.clear_ok [of sz ?sn xs k m vs] sa.list_view_le [OF w, of n] that l by (auto simp: A_def shm_view)
  moreover have "push_back A m t = list_insert A m ((xs @ [?sn]) ! length vs) t" "push_front A m t = list_insert A m ((xs @ [?sn]) ! 0) t"
    using sa.push_insert [OF w, of t] l by (auto simp: A_def hd_conv_nth)
  ultimately show ?thesis using sa.front_back_ok [OF w] shm_insert_ok [OF v, of i t] by (simp add: A_def)
qed

theorem shm_list_refines_sequence_witness:
  "\<exists>s p t m r m'. on_create (shm_mgr_new demo_os) (Some (2 ^ 36)) ''demo'' = Some (0, s) \<and> malloc s 300000 = Some ((3, p + 8), t) \<and>
     m = list_new (shm_allocator_new t) (2, p + 24) \<and> push_back (shm_allocator_ops 40) m (7 :: int) = Some (r, m') \<and> (r = 0 \<longrightarrow> (\<exists>x. shm_list 40 7 m' [x] [7]))"
proof -
  obtain s p t where s: "on_create (shm_mgr_new demo_os) (Some (2 ^ 36)) ''demo'' = Some (0, s)" "malloc s 300000 = Some ((3, p + 8), t)" "nodes_ok 40 (2, p + 24) 8 t {}"
    using demo_region by blast
  define m :: "(shm_allocator, addr, int) sk_list" where "m = list_new (shm_allocator_new t) (2, p + 24)"
  have "shm_list 40 (Suc 7) m [] []" using shm_list_new_ok [OF s(3)] by (simp add: m_def)
  from shm_list_refines_sequence [OF this, of 7 0 0] obtain r m' where "push_back (shm_allocator_ops 40) m (7 :: int) = Some (r, m')" "r = 0 \<longrightarrow> (\<exists>x. shm_list 40 7 m' [x] [7])"
    by (auto simp: ENOMEM_def split: if_splits simp del: split_paired_Ex)
  then show ?thesis using s(1,2) m_def by blast
qed

section \<open>The set and the map\<close>

interpretation st: tree_container "shm_allocator_ops sz" "sa_contract sz sn" sn "(<) :: 'k::linorder \<Rightarrow> 'k \<Rightarrow> bool" key
  for sz :: nat and sn :: addr and key :: "'v \<Rightarrow> 'k::linorder" ..

definition shm_tree :: "nat \<Rightarrow> nat \<Rightarrow> ('v \<Rightarrow> 'k::linorder) \<Rightarrow> (shm_allocator, addr, 'v) rbtree \<Rightarrow> 'v list \<Rightarrow> bool" where
  "shm_tree sz n key m vs \<longleftrightarrow> (\<exists>t. tree_view (sa_contract sz (rb_sentinel m)) (rb_sentinel m) (<) key n m t vs)"

definition shm_map :: "nat \<Rightarrow> nat \<Rightarrow> (shm_allocator, addr, 'k::linorder \<times> 'v) rbtree \<Rightarrow> ('k \<Rightarrow> 'v option) \<Rightarrow> bool" where
  "shm_map sz n m M \<longleftrightarrow> (\<exists>vs. shm_tree sz n fst m vs \<and> M = map_of vs)"

lemma shm_treeI: "tree_view (sa_contract sz sn) sn (<) key n m t vs \<Longrightarrow> shm_tree sz n key m vs"
  unfolding shm_tree_def tree_view_def by blast

lemma shm_tree_new_ok: "nodes_ok sz sn n s {} \<Longrightarrow> shm_tree sz n key (rbtree_new (shm_allocator_new s) sn) []"
  by (rule shm_treeI [OF st.tree_new_ok [OF sa_contract_start]])

lemma shm_tree_sorted: "shm_tree sz n key m vs \<Longrightarrow> sorted_wrt (<) (map key vs)"
  unfolding shm_tree_def using tree_view_sorted by (auto simp: sorted_wrt_map)

lemma shm_no_room: "tree_view (sa_contract sz sn) sn (<) key (Suc n) m t vs \<Longrightarrow> no_room (shm_allocator_ops sz) (rb_alloc m) \<longleftrightarrow> node_null sz (rb_alloc m)"
  using sa.allocate_law [of sz sn n "rb_alloc m" "set (addrs t)"] tree_viewD(7) [of "sa_contract sz sn" sn "(<)" key "Suc n" m t vs]
  by (fastforce simp: no_room_def node_null_def split: option.splits)

lemma shm_tree_insert_ok:
  assumes m: "shm_tree sz (Suc n) key m vs"
  shows "\<exists>r m'. rbtree_insert (shm_allocator_ops sz) (<) key m w = Some (r, m') \<and>
    (if key w \<in> key ` set vs then r = 0 \<and> shm_tree sz n key m' vs
     else if node_null sz (rb_alloc m) then r = - ENOMEM \<and> shm_tree sz n key m' vs else r = 0 \<and> shm_tree sz n key m' (insort_key key w vs))"
proof -
  obtain t where v: "tree_view (sa_contract sz (rb_sentinel m)) (rb_sentinel m) (<) key (Suc n) m t vs" using m by (auto simp: shm_tree_def)
  have sp: "insert_spec (<) key (no_room (shm_allocator_ops sz) (rb_alloc m)) w vs =
      (if key w \<in> key ` set vs then (0, vs) else if node_null sz (rb_alloc m) then (- ENOMEM, vs) else (0, insort_key key w vs))"
    using sorted_insert_insort [of key vs w] shm_tree_sorted [OF m] by (auto simp: insert_spec_def image_iff shm_no_room [OF v])
  obtain m' t' where a: "rbtree_insert (shm_allocator_ops sz) (<) key m w = Some (fst (insert_spec (<) key (no_room (shm_allocator_ops sz) (rb_alloc m)) w vs), m')"
      "tree_view (sa_contract sz (rb_sentinel m)) (rb_sentinel m) (<) key n m' t' (snd (insert_spec (<) key (no_room (shm_allocator_ops sz) (rb_alloc m)) w vs))"
    using st.tree_insert_ok [OF v] by blast
  show ?thesis using a(1) shm_treeI [OF a(2)] unfolding sp by (auto split: if_splits)
qed

lemma shm_tree_erase_ok:
  assumes m: "shm_tree sz (Suc n) key m vs"
  shows "\<exists>m'. rbtree_erase (shm_allocator_ops sz) (<) key m x = Some m' \<and> shm_tree sz n key m' (filter (\<lambda>w. key w \<noteq> x) vs)"
proof -
  obtain t where v: "tree_view (sa_contract sz (rb_sentinel m)) (rb_sentinel m) (<) key (Suc n) m t vs" using m by (auto simp: shm_tree_def)
  show ?thesis using st.tree_erase_ok [OF v, where x = x] shm_treeI unfolding erase_spec_def equiv_less by blast
qed

lemma shm_tree_find_ok:
  assumes m: "shm_tree sz n key m vs"
  shows "\<exists>it. rb_find (<) key m x = Some it \<and>
    (case find (\<lambda>w. key w = x) vs of None \<Rightarrow> it = Some (rb_sentinel m) | Some w \<Rightarrow> it \<noteq> Some (rb_sentinel m) \<and> rb_value m it = Some w)"
proof -
  obtain t where v: "tree_view (sa_contract sz (rb_sentinel m)) (rb_sentinel m) (<) key n m t vs" using m by (auto simp: shm_tree_def)
  show ?thesis using st.find_refines [OF v, where x = x] tree_viewD(4) [OF v] by (auto split: option.splits)
qed

text \<open>
  C25: a \<^verbatim>\<open>shm_map\<close> is a finite map. With room for one more call to the allocator no operation aborts: \<^verbatim>\<open>insert\<close> of a present key keeps the old value and returns 0, \<^verbatim>\<open>insert\<close>
  of a new key adds it, or returns \<^verbatim>\<open>-ENOMEM\<close> and changes nothing when the manager has no memory for a node; \<^verbatim>\<open>erase\<close> removes the key and gives its node back to the manager;
  \<^verbatim>\<open>find\<close> looks it up; a loop over the iterators visits the keys in increasing order, each once; \<^verbatim>\<open>clear\<close>, with room for one call per key, empties the map.
\<close>

theorem shm_map_refines_map:
  fixes sz :: nat and m :: "(shm_allocator, addr, 'k::linorder \<times> 'v) rbtree"
  defines "A \<equiv> shm_allocator_ops sz"
  assumes m: "shm_map sz (Suc n) m M"
  shows "(\<exists>r m'. rbtree_insert A (<) fst m (k, v) = Some (r, m') \<and>
      (if k \<in> dom M then r = 0 \<and> shm_map sz n m' M
       else if node_null sz (rb_alloc m) then r = - ENOMEM \<and> shm_map sz n m' M else r = 0 \<and> shm_map sz n m' (M(k \<mapsto> v)))) \<and>
    (\<exists>m'. rbtree_erase A (<) fst m k = Some m' \<and> shm_map sz n m' (M(k := None))) \<and>
    (\<exists>it. rb_find (<) fst m k = Some it \<and> (case M k of None \<Rightarrow> it = Some (rb_sentinel m) | Some w \<Rightarrow> rb_value m it = Some (k, w))) \<and>
    (\<exists>vs. do { it \<leftarrow> rb_begin m; visit m it [] } = Some vs \<and> sorted_wrt (<) (map fst vs) \<and> M = map_of vs) \<and>
    (n = card (dom M) + j \<longrightarrow> (\<exists>m'. rbtree_clear A m = Some m' \<and> shm_map sz j m' Map.empty))"
proof -
  obtain vs where vs: "shm_tree sz (Suc n) fst m vs" "M = map_of vs" using m by (auto simp: shm_map_def)
  obtain t where v: "tree_view (sa_contract sz (rb_sentinel m)) (rb_sentinel m) (<) fst (Suc n) m t vs" using vs(1) by (auto simp: shm_tree_def)
  have dis: "distinct (map fst vs)" using strict_sorted_iff shm_tree_sorted [OF vs(1)] by blast
  have dom: "dom M = fst ` set vs" by (simp add: vs(2) dom_map_of_conv_image_fst)
  have c: "card (dom M) = length vs" using distinct_card [OF dis] dom by simp
  have "map_of (insort_key fst (k, v) vs) = M(k \<mapsto> v)" if "k \<notin> dom M" using map_of_insort [of k vs v] that dom vs(2) by simp
  then have "\<exists>r m'. rbtree_insert A (<) fst m (k, v) = Some (r, m') \<and>
      (if k \<in> dom M then r = 0 \<and> shm_map sz n m' M
       else if node_null sz (rb_alloc m) then r = - ENOMEM \<and> shm_map sz n m' M else r = 0 \<and> shm_map sz n m' (M(k \<mapsto> v)))"
    using shm_tree_insert_ok [OF vs(1), of "(k, v)"] dom vs(2) unfolding shm_map_def A_def by (auto split: if_splits) metis+
  moreover have "\<exists>m'. rbtree_erase A (<) fst m k = Some m' \<and> shm_map sz n m' (M(k := None))"
    using shm_tree_erase_ok [OF vs(1), of k] map_of_filter_key [of k vs] unfolding shm_map_def A_def vs(2) by metis
  moreover have "\<exists>it. rb_find (<) fst m k = Some it \<and> (case M k of None \<Rightarrow> it = Some (rb_sentinel m) | Some w \<Rightarrow> rb_value m it = Some (k, w))"
    using shm_tree_find_ok [OF vs(1), of k] find_SomeD [of "\<lambda>w. fst w = k" vs] unfolding vs(2) map_of_find [of vs k]
    by (cases "find (\<lambda>w. fst w = k) vs") auto
  moreover have "\<exists>m'. rbtree_clear A m = Some m' \<and> shm_map sz j m' Map.empty" if "n = card (dom M) + j"
    using st.tree_clear_ok [where sz = sz and sn = "rb_sentinel m" and key = fst and n = j and m = m and t = t and vs = vs] st.view_le [OF v, of n] that c shm_treeI unfolding A_def shm_map_def by (fastforce simp: add.commute)
  ultimately show ?thesis using st.contents_ok [OF v] shm_tree_sorted [OF vs(1)] vs(2) by blast
qed

theorem shm_map_refines_map_witness:
  "\<exists>s p t m r m'. on_create (shm_mgr_new demo_os) (Some (2 ^ 36)) ''demo'' = Some (0, s) \<and> malloc s 300000 = Some ((3, p + 8), t) \<and>
     m = rbtree_new (shm_allocator_new t) (2, p + 24) \<and> rbtree_insert (shm_allocator_ops 40) (<) fst m (7 :: int, True) = Some (r, m') \<and>
     (r = 0 \<longrightarrow> shm_map 40 7 m' [7 \<mapsto> True])"
proof -
  obtain s p t where s: "on_create (shm_mgr_new demo_os) (Some (2 ^ 36)) ''demo'' = Some (0, s)" "malloc s 300000 = Some ((3, p + 8), t)" "nodes_ok 40 (2, p + 24) 8 t {}"
    using demo_region by blast
  define m :: "(shm_allocator, addr, int \<times> bool) rbtree" where "m = rbtree_new (shm_allocator_new t) (2, p + 24)"
  have "shm_tree 40 (Suc 7) fst m []" using shm_tree_new_ok [OF s(3), where key = fst] by (simp add: m_def)
  then have "shm_map 40 (Suc 7) m Map.empty" by (auto simp: shm_map_def)
  from shm_map_refines_map [OF this, of 7 True, THEN conjunct1] obtain r m' where "rbtree_insert (shm_allocator_ops 40) (<) fst m (7, True) = Some (r, m')" "r = 0 \<longrightarrow> shm_map 40 7 m' [7 \<mapsto> True]"
    by (auto simp: ENOMEM_def split: if_splits simp del: split_paired_Ex)
  then show ?thesis using s(1,2) m_def by blast
qed

end
