(* ===== verification/Shm_Hash.thy ===== *)
theory Shm_Hash
  imports Shm_Allocator
begin

text \<open>
  \<^verbatim>\<open>src/src/container/shm_hash.h\<close>: a hash table with chains in shared memory. The array of the buckets is one region of the manager, each node another; their contents are
  the fields \<open>buckets\<close> and \<open>hnodes\<close>, a freed node has none. \<open>F\<close> is the hash function of the template, \<open>new\<close> and \<open>del\<close> are \<^verbatim>\<open>shm_new\<close> and \<^verbatim>\<open>shm_delete\<close> of a node.
\<close>

section \<open>State\<close>

definition hash_sizes :: "nat list" where
  "hash_sizes = [3, 13, 23, 53, 97, 193, 389, 769, 1543, 3079, 6151, 12289, 24593, 49157,
     98317, 196613, 393241, 786433, 1572869, 3145739, 6291469, 12582917, 25165843]"

fun hash_size_loop :: "nat \<Rightarrow> nat list \<Rightarrow> nat" where
  "hash_size_loop n [] = 0"
| "hash_size_loop n [s] = s"
| "hash_size_loop n (s # ss) = (if n < s then s else hash_size_loop n ss)"

definition hash_size :: "nat \<Rightarrow> nat" where "hash_size max_node_count = hash_size_loop max_node_count hash_sizes"

record ('k, 'v, 'p) shm_hash_node =
  hkey :: 'k
  hval :: 'v
  hnext :: "'p option"

record ('s, 'p, 'k, 'v) shm_hash =
  bucket_size :: nat
  used_node_count :: nat
  total_node_count :: nat
  buckets_ptr :: 'p
  buckets :: "'p option list"
  hnodes :: "'p \<Rightarrow> ('k, 'v, 'p) shm_hash_node option"
  hash_mem :: 's

section \<open>Operations\<close>

definition hash_full :: "('s, 'p, 'k, 'v) shm_hash \<Rightarrow> bool" where "hash_full h \<longleftrightarrow> used_node_count h \<ge> total_node_count h"

definition hash_empty :: "('s, 'p, 'k, 'v) shm_hash \<Rightarrow> bool" where "hash_empty h \<longleftrightarrow> used_node_count h \<le> 0"

definition bucket_index :: "('k \<Rightarrow> nat) \<Rightarrow> ('s, 'p, 'k, 'v) shm_hash \<Rightarrow> 'k \<Rightarrow> nat" where "bucket_index F h k = F k mod bucket_size h"

text \<open>The element of the array; an index behind its end is an error.\<close>

definition base_addr :: "('s, 'p, 'k, 'v) shm_hash \<Rightarrow> nat \<Rightarrow> 'p option option" where
  "base_addr h i = (if i < length (buckets h) then Some (buckets h ! i) else None)"

definition set_bucket :: "('s, 'p, 'k, 'v) shm_hash \<Rightarrow> nat \<Rightarrow> 'p option \<Rightarrow> ('s, 'p, 'k, 'v) shm_hash option" where
  "set_bucket h i p = (if i < length (buckets h) then Some (h\<lparr>buckets := (buckets h)[i := p]\<rparr>) else None)"

partial_function (option) hash_search_loop :: "('p \<Rightarrow> ('k, 'v, 'p) shm_hash_node option) \<Rightarrow> 'k \<Rightarrow> 'p option \<Rightarrow> 'p option option" where
  "hash_search_loop N k p = (case p of
     None \<Rightarrow> Some None
   | Some a \<Rightarrow> do { x \<leftarrow> N a; if hkey x = k then Some (Some a) else hash_search_loop N k (hnext x) })"

definition hash_search :: "('k \<Rightarrow> nat) \<Rightarrow> ('s, 'p, 'k, 'v) shm_hash \<Rightarrow> 'k \<Rightarrow> 'p option option" where
  "hash_search F h k = (if hash_empty h then Some None else do { p \<leftarrow> base_addr h (bucket_index F h k); hash_search_loop (hnodes h) k p })"

definition hash_find :: "('k \<Rightarrow> nat) \<Rightarrow> ('s, 'p, 'k, 'v) shm_hash \<Rightarrow> 'k \<Rightarrow> 'v option option" where
  "hash_find F h k = do { p \<leftarrow> hash_search F h k; case p of None \<Rightarrow> Some None | Some a \<Rightarrow> do { x \<leftarrow> hnodes h a; Some (Some (hval x)) } }"

definition hash_insert :: "('s \<Rightarrow> ('p option \<times> 's) option) \<Rightarrow> ('k \<Rightarrow> nat) \<Rightarrow> ('s, 'p, 'k, 'v) shm_hash \<Rightarrow> 'k \<Rightarrow> 'v \<Rightarrow> (int \<times> ('s, 'p, 'k, 'v) shm_hash) option" where
  "hash_insert new F h k v = (if hash_full h then Some (- ENOMEM, h) else do {
     p \<leftarrow> hash_search F h k;
     case p of
       Some a \<Rightarrow> do { x \<leftarrow> hnodes h a; Some (0, h\<lparr>hnodes := (hnodes h)(a \<mapsto> x\<lparr>hval := v\<rparr>)\<rparr>) }
     | None \<Rightarrow> do {
         let idx = bucket_index F h k;
         (p, s) \<leftarrow> new (hash_mem h);
         let h = h\<lparr>hash_mem := s\<rparr>;
         case p of
           None \<Rightarrow> Some (- ENOMEM, h)
         | Some a \<Rightarrow> do {
             let h = h\<lparr>hnodes := (hnodes h)(a \<mapsto> \<lparr>hkey = k, hval = v, hnext = None\<rparr>)\<rparr>;
             b \<leftarrow> base_addr h idx;
             x \<leftarrow> hnodes h a;
             let h = h\<lparr>hnodes := (hnodes h)(a \<mapsto> x\<lparr>hnext := b\<rparr>)\<rparr>;
             h \<leftarrow> set_bucket h idx (Some a);
             Some (0, h\<lparr>used_node_count := used_node_count h + 1\<rparr>)
           }
       }
   })"

text \<open>The node with the key and the one before it.\<close>

partial_function (option) hash_erase_loop :: "('p \<Rightarrow> ('k, 'v, 'p) shm_hash_node option) \<Rightarrow> 'k \<Rightarrow> 'p option \<Rightarrow> 'p option \<Rightarrow> ('p option \<times> 'p option) option" where
  "hash_erase_loop N k pv p = (case p of
     None \<Rightarrow> Some (pv, None)
   | Some a \<Rightarrow> do { x \<leftarrow> N a; if hkey x = k then Some (pv, Some a) else hash_erase_loop N k (Some a) (hnext x) })"

definition delete_node :: "('s \<Rightarrow> 'p \<Rightarrow> 's option) \<Rightarrow> ('s, 'p, 'k, 'v) shm_hash \<Rightarrow> 'p \<Rightarrow> ('s, 'p, 'k, 'v) shm_hash option" where
  "delete_node del h a = do { _ \<leftarrow> hnodes h a; s \<leftarrow> del (hash_mem h) a; Some (h\<lparr>hash_mem := s, hnodes := (hnodes h)(a := None)\<rparr>) }"

definition hash_erase :: "('s \<Rightarrow> 'p \<Rightarrow> 's option) \<Rightarrow> ('k \<Rightarrow> nat) \<Rightarrow> ('s, 'p, 'k, 'v) shm_hash \<Rightarrow> 'k \<Rightarrow> ('s, 'p, 'k, 'v) shm_hash option" where
  "hash_erase del F h k = (if hash_empty h then Some h else do {
     let idx = bucket_index F h k;
     p \<leftarrow> base_addr h idx;
     (pv, p) \<leftarrow> hash_erase_loop (hnodes h) k None p;
     case p of
       None \<Rightarrow> Some h
     | Some a \<Rightarrow> do {
         x \<leftarrow> hnodes h a;
         h \<leftarrow> (case pv of
             None \<Rightarrow> do { b \<leftarrow> base_addr h idx; sk_assert (b = p); set_bucket h idx (hnext x) }
           | Some q \<Rightarrow> do { y \<leftarrow> hnodes h q; sk_assert (hnext y = p); Some (h\<lparr>hnodes := (hnodes h)(q \<mapsto> y\<lparr>hnext := hnext x\<rparr>)\<rparr>) });
         h \<leftarrow> delete_node del h a;
         Some (h\<lparr>used_node_count := used_node_count h - 1\<rparr>)
       }
   })"

partial_function (option) clear_chain :: "('s \<Rightarrow> 'p \<Rightarrow> 's option) \<Rightarrow> ('s, 'p, 'k, 'v) shm_hash \<Rightarrow> 'p option \<Rightarrow> ('s, 'p, 'k, 'v) shm_hash option" where
  "clear_chain del h p = (case p of
     None \<Rightarrow> Some h
   | Some a \<Rightarrow> do { x \<leftarrow> hnodes h a; h \<leftarrow> delete_node del h a; clear_chain del h (hnext x) })"

function clear_buckets :: "('s \<Rightarrow> 'p \<Rightarrow> 's option) \<Rightarrow> nat \<Rightarrow> nat \<Rightarrow> ('s, 'p, 'k, 'v) shm_hash \<Rightarrow> ('s, 'p, 'k, 'v) shm_hash option" where
  "clear_buckets del n i h = (if i < n then do {
       p \<leftarrow> base_addr h i;
       h \<leftarrow> clear_chain del h p;
       h \<leftarrow> set_bucket h i None;
       clear_buckets del n (i + 1) h
     } else Some h)"
  by auto
termination by (relation "measure (\<lambda>(d, n, i, h). n - i)") auto

declare clear_buckets.simps [simp del]

definition hash_clear :: "('s \<Rightarrow> 'p \<Rightarrow> 's option) \<Rightarrow> ('s, 'p, 'k, 'v) shm_hash \<Rightarrow> ('s, 'p, 'k, 'v) shm_hash option" where
  "hash_clear del h = do { h \<leftarrow> clear_buckets del (bucket_size h) 0 h; Some (h\<lparr>used_node_count := 0\<rparr>) }"

text \<open>Iteration: the first node at or behind a bucket, and the last one before a bucket.\<close>

function first_from :: "('s, 'p, 'k, 'v) shm_hash \<Rightarrow> nat \<Rightarrow> 'p option option" where
  "first_from h i = (if i < bucket_size h then do {
       p \<leftarrow> base_addr h i;
       case p of Some a \<Rightarrow> Some (Some a) | None \<Rightarrow> first_from h (i + 1)
     } else Some None)"
  by auto
termination by (relation "measure (\<lambda>(h, i). bucket_size h - i)") auto

declare first_from.simps [simp del]

definition hash_begin :: "('s, 'p, 'k, 'v) shm_hash \<Rightarrow> 'p option option" where "hash_begin h = first_from h 0"

definition hash_next :: "('k \<Rightarrow> nat) \<Rightarrow> ('s, 'p, 'k, 'v) shm_hash \<Rightarrow> 'p option \<Rightarrow> 'p option option" where
  "hash_next F h n = (case n of
     None \<Rightarrow> Some None
   | Some a \<Rightarrow> do { x \<leftarrow> hnodes h a; if hnext x \<noteq> None then Some (hnext x) else first_from h (bucket_index F h (hkey x) + 1) })"

partial_function (option) hash_prev_loop :: "('p \<Rightarrow> ('k, 'v, 'p) shm_hash_node option) \<Rightarrow> 'p \<Rightarrow> 'p option \<Rightarrow> 'p option \<Rightarrow> ('p option \<times> 'p option) option" where
  "hash_prev_loop N n pv p = (case p of
     None \<Rightarrow> Some (pv, None)
   | Some a \<Rightarrow> if a = n then Some (pv, Some a) else do { x \<leftarrow> N a; hash_prev_loop N n (Some a) (hnext x) })"

partial_function (option) hash_last_loop :: "('p \<Rightarrow> ('k, 'v, 'p) shm_hash_node option) \<Rightarrow> 'p option \<Rightarrow> 'p option \<Rightarrow> 'p option option" where
  "hash_last_loop N pv p = (case p of None \<Rightarrow> Some pv | Some a \<Rightarrow> do { x \<leftarrow> N a; hash_last_loop N (Some a) (hnext x) })"

fun last_before :: "('s, 'p, 'k, 'v) shm_hash \<Rightarrow> nat \<Rightarrow> 'p option option" where
  "last_before h 0 = Some None"
| "last_before h (Suc i) = do {
     p \<leftarrow> base_addr h i;
     if p = None then last_before h i else hash_last_loop (hnodes h) None p
   }"

definition hash_prev :: "('k \<Rightarrow> nat) \<Rightarrow> ('s, 'p, 'k, 'v) shm_hash \<Rightarrow> 'p option \<Rightarrow> 'p option option" where
  "hash_prev F h n = (case n of
     None \<Rightarrow> Some None
   | Some a \<Rightarrow> do {
       x \<leftarrow> hnodes h a;
       let idx = bucket_index F h (hkey x);
       p \<leftarrow> base_addr h idx;
       sk_assert (p \<noteq> None);
       (pv, p) \<leftarrow> hash_prev_loop (hnodes h) a None p;
       sk_assert (p = Some a);
       case pv of
         Some q \<Rightarrow> do { y \<leftarrow> hnodes h q; sk_assert (hnext y = p); Some pv }
       | None \<Rightarrow> do { b \<leftarrow> base_addr h idx; sk_assert (b = p); last_before h idx }
     })"

text \<open>A loop over the iterators.\<close>

partial_function (option) hash_visit :: "('k \<Rightarrow> nat) \<Rightarrow> ('s, 'p, 'k, 'v) shm_hash \<Rightarrow> 'p option \<Rightarrow> ('k \<times> 'v) list \<Rightarrow> ('k \<times> 'v) list option" where
  "hash_visit F h n kvs = (case n of
     None \<Rightarrow> Some kvs
   | Some a \<Rightarrow> do { x \<leftarrow> hnodes h a; n \<leftarrow> hash_next F h n; hash_visit F h n (kvs @ [(hkey x, hval x)]) })"

section \<open>Construction and destruction\<close>

text \<open>Over the manager: the array of the buckets holds pointers of 8 bytes.\<close>

definition shm_hash_new :: "shm \<Rightarrow> nat \<Rightarrow> (shm, addr, 'k, 'v) shm_hash option" where
  "shm_hash_new s max_node_count = do {
     let n = hash_size max_node_count;
     (b, s) \<leftarrow> shm_new (8 * n) s;
     p \<leftarrow> b;
     Some \<lparr>bucket_size = n, used_node_count = 0, total_node_count = max_node_count, buckets_ptr = p, buckets = replicate n None, hnodes = (\<lambda>_. None), hash_mem = s\<rparr>
   }"

definition shm_hash_delete :: "(shm, addr, 'k, 'v) shm_hash \<Rightarrow> shm option" where
  "shm_hash_delete h = do { h \<leftarrow> hash_clear shm_delete h; shm_delete (hash_mem h) (buckets_ptr h) }"

section \<open>The table as a finite map\<close>

text \<open>The nodes \<open>c\<close> from the pointer \<open>p\<close> on lead to the pointer \<open>q\<close>.\<close>

fun hchain :: "('p \<Rightarrow> ('k, 'v, 'p) shm_hash_node option) \<Rightarrow> 'p option \<Rightarrow> 'p list \<Rightarrow> 'p option \<Rightarrow> bool" where
  "hchain N p [] q = (p = q)"
| "hchain N p (a # c) q = (p = Some a \<and> (\<exists>x. N a = Some x \<and> hchain N (hnext x) c q))"

definition nkey :: "('p \<Rightarrow> ('k, 'v, 'p) shm_hash_node option) \<Rightarrow> 'p \<Rightarrow> 'k" where "nkey N a = hkey (the (N a))"

definition nval :: "('p \<Rightarrow> ('k, 'v, 'p) shm_hash_node option) \<Rightarrow> 'p \<Rightarrow> 'v" where "nval N a = hval (the (N a))"

text \<open>\<open>c\<close> are the nodes of bucket \<open>i\<close>, \<open>cs\<close> those of all buckets.\<close>

definition bucket :: "('k \<Rightarrow> nat) \<Rightarrow> nat \<Rightarrow> ('p \<Rightarrow> ('k, 'v, 'p) shm_hash_node option) \<Rightarrow> nat \<Rightarrow> 'p option \<Rightarrow> 'p list \<Rightarrow> bool" where
  "bucket F n N i p c \<longleftrightarrow> hchain N p c None \<and> inj_on (nkey N) (set c) \<and> (\<forall>a \<in> set c. F (nkey N a) mod n = i)"

definition table :: "('k \<Rightarrow> nat) \<Rightarrow> nat \<Rightarrow> 'p option list \<Rightarrow> ('p \<Rightarrow> ('k, 'v, 'p) shm_hash_node option) \<Rightarrow> 'p list list \<Rightarrow> bool" where
  "table F n B N cs \<longleftrightarrow> 0 < n \<and> length B = n \<and> length cs = n \<and> (\<forall>i < n. bucket F n N i (B ! i) (cs ! i)) \<and> distinct (concat cs) \<and> dom N = set (concat cs)"

definition hash_view :: "(nat \<Rightarrow> 's \<Rightarrow> 'p set \<Rightarrow> bool) \<Rightarrow> ('k \<Rightarrow> nat) \<Rightarrow> nat \<Rightarrow> ('s, 'p, 'k, 'v) shm_hash \<Rightarrow> 'p list list \<Rightarrow> bool" where
  "hash_view ok F n h cs \<longleftrightarrow> table F (bucket_size h) (buckets h) (hnodes h) cs \<and> used_node_count h = length (concat cs) \<and> ok n (hash_mem h) (set (concat cs))"

text \<open>The map that the nodes hold.\<close>

definition holds_map :: "('p \<Rightarrow> ('k, 'v, 'p) shm_hash_node option) \<Rightarrow> ('k \<Rightarrow> 'v option) \<Rightarrow> bool" where
  "holds_map N M \<longleftrightarrow> (\<forall>k v. M k = Some v \<longleftrightarrow> (\<exists>a x. N a = Some x \<and> hkey x = k \<and> hval x = v))"

section \<open>Chains\<close>

lemma hchain_append: "hchain N p (us @ ws) q \<longleftrightarrow> (\<exists>r. hchain N p us r \<and> hchain N r ws q)"
  by (induction us arbitrary: p) auto

lemma hchain_cong: "(\<And>a. a \<in> set c \<Longrightarrow> N' a = N a) \<Longrightarrow> hchain N' p c q = hchain N p c q"
  by (induction c arbitrary: p) auto

lemma chain_upd [simp]: "a \<notin> set c \<Longrightarrow> hchain (N(a := v)) p c q = hchain N p c q"
  by (rule hchain_cong) auto

lemma chain_dom: "hchain N p c q \<Longrightarrow> a \<in> set c \<Longrightarrow> \<exists>x. N a = Some x \<and> nkey N a = hkey x"
  by (induction c arbitrary: p) (auto simp: nkey_def)

lemma chain_snoc: "hchain N p (us @ [a]) q \<longleftrightarrow> (\<exists>x. hchain N p us (Some a) \<and> N a = Some x \<and> hnext x = q)"
  by (auto simp: hchain_append)

lemma chain_search: "hchain N p c None \<Longrightarrow> hash_search_loop N k p = Some (find (\<lambda>a. nkey N a = k) c)"
proof (induction c arbitrary: p)
  case (Cons a c)
  then show ?case by (subst hash_search_loop.simps) (auto simp: nkey_def)
qed (simp add: hash_search_loop.simps)

text \<open>The loops with a trailing pointer pass the nodes they do not look for.\<close>

lemma chain_erase: "hchain N p us r \<Longrightarrow> \<forall>a \<in> set us. nkey N a \<noteq> k \<Longrightarrow> hash_erase_loop N k pv p = hash_erase_loop N k (last (pv # map Some us)) r"
proof (induction us arbitrary: p pv)
  case (Cons a us)
  then obtain x where x: "p = Some a" "N a = Some x" "hchain N (hnext x) us r" "hkey x \<noteq> k" by (auto simp: nkey_def)
  have "hash_erase_loop N k pv p = hash_erase_loop N k (Some a) (hnext x)" unfolding x(1) by (subst hash_erase_loop.simps) (simp add: x)
  then show ?case using Cons.IH [OF x(3), of "Some a"] Cons.prems by simp
qed simp

lemma chain_prev: "hchain N p us r \<Longrightarrow> n \<notin> set us \<Longrightarrow> hash_prev_loop N n pv p = hash_prev_loop N n (last (pv # map Some us)) r"
proof (induction us arbitrary: p pv)
  case (Cons a us)
  then obtain x where x: "p = Some a" "N a = Some x" "hchain N (hnext x) us r" "a \<noteq> n" by auto
  have "hash_prev_loop N n pv p = hash_prev_loop N n (Some a) (hnext x)" unfolding x(1) by (subst hash_prev_loop.simps) (simp add: x)
  then show ?case using Cons.IH [OF x(3), of "Some a"] Cons.prems by simp
qed simp

lemma chain_last: "hchain N p us None \<Longrightarrow> hash_last_loop N pv p = Some (last (pv # map Some us))"
proof (induction us arbitrary: p pv)
  case (Cons a us)
  then show ?case by (subst hash_last_loop.simps) auto
qed (simp add: hash_last_loop.simps)

section \<open>Buckets\<close>

lemma bucket_cong: "(\<And>a. a \<in> set c \<Longrightarrow> N' a = N a) \<Longrightarrow> bucket F n N' i p c = bucket F n N i p c"
  using hchain_cong [of c N' N] by (simp add: bucket_def nkey_def inj_on_def)

lemma tableD:
  assumes "table F n B N cs" "i < n"
  shows "bucket F n N i (B ! i) (cs ! i)" "length B = n" "length cs = n" "distinct (concat cs)" "dom N = set (concat cs)" "0 < n"
  using assms by (auto simp: table_def)

lemma table_distinct: "table F n B N cs \<Longrightarrow> i < n \<Longrightarrow> distinct (cs ! i)"
  using nth_mem [of i cs] by (auto simp: table_def distinct_concat_iff)

lemma concat_split: "i < length cs \<Longrightarrow> \<exists>us ws. cs = us @ cs ! i # ws \<and> length us = i \<and> (\<forall>c. cs[i := c] = us @ c # ws)"
  by (intro exI [of _ "take i cs"] exI [of _ "drop (Suc i) cs"]) (simp add: id_take_nth_drop [symmetric] upd_conv_take_nth_drop)

text \<open>One bucket changes, the nodes of the others do not.\<close>

lemma table_upd:
  assumes t: "table F n B N cs" and i: "i < n" and b: "bucket F n N' i p c" and c: "distinct c" "set c \<inter> (dom N - set (cs ! i)) = {}"
    and same: "\<And>a. a \<in> dom N - set (cs ! i) \<Longrightarrow> N' a = N a" and d: "dom N' = set c \<union> (dom N - set (cs ! i))"
  shows "table F n (B[i := p]) N' (cs[i := c])"
proof -
  note td = tableD [OF t i]
  obtain us ws where u: "cs = us @ cs ! i # ws" "length us = i" "\<And>c. cs[i := c] = us @ c # ws" using concat_split [of i cs] i td(3) by auto
  have dc: "distinct (concat us @ cs ! i @ concat ws)" using td(4) by (subst (asm) u(1)) simp
  have rest: "dom N - set (cs ! i) = set (concat us @ concat ws)" using td(5) dc by (subst (asm) u(1)) auto
  have "bucket F n N' j (B[i := p] ! j) (cs[i := c] ! j)" if j: "j < n" for j
  proof (cases "j = i")
    case False
    have "cs ! j = (us @ cs ! i # ws) ! j" using u(1) by simp
    moreover have "j < length us + Suc (length ws)" using arg_cong [OF u(1), of length] j td(3) by simp
    ultimately have "cs ! j \<in> set us \<union> set ws" using False u(2) by (cases "j < i") (auto simp: nth_append nth_Cons')
    then have "set (cs ! j) \<subseteq> dom N - set (cs ! i)" using rest by auto
    then have "bucket F n N' j (B ! j) (cs ! j) = bucket F n N j (B ! j) (cs ! j)" using same by (intro bucket_cong) auto
    then show ?thesis using False tableD(1) [OF t j] by simp
  qed (use b i td in simp)
  moreover have "distinct (concat (cs[i := c]))" using dc c rest by (auto simp: u(3))
  moreover have "dom N' = set (concat (cs[i := c]))" using d rest by (auto simp: u(3))
  ultimately show ?thesis using t by (simp add: table_def)
qed

text \<open>A key is in its bucket or nowhere, and at most once.\<close>

lemma table_bucket_of:
  assumes t: "table F n B N cs" and a: "N a = Some x"
  shows "a \<in> set (cs ! (F (hkey x) mod n))"
proof -
  have "a \<in> set (concat cs)" using tableD(5) [OF t, of 0] t a by (auto simp: table_def)
  then obtain c where "c \<in> set cs" "a \<in> set c" by auto
  then obtain j where j: "j < n" "a \<in> set (cs ! j)" using t in_set_conv_nth [of c cs] by (auto simp: table_def)
  then have "F (nkey N a) mod n = j" using tableD(1) [OF t j(1)] by (simp add: bucket_def)
  then show ?thesis using j a by (simp add: nkey_def)
qed

lemma table_find:
  assumes t: "table F n B N cs" and M: "holds_map N M" and i: "i = F k mod n"
  shows "case find (\<lambda>a. nkey N a = k) (cs ! i) of None \<Rightarrow> M k = None | Some a \<Rightarrow> \<exists>x. N a = Some x \<and> a \<in> set (cs ! i) \<and> hkey x = k \<and> M k = Some (hval x)"
proof (cases "find (\<lambda>a. nkey N a = k) (cs ! i)")
  case None
  have "\<not> (\<exists>a x. N a = Some x \<and> hkey x = k \<and> hval x = v)" for v
  proof
    assume "\<exists>a x. N a = Some x \<and> hkey x = k \<and> hval x = v"
    then obtain a x where "N a = Some x" "hkey x = k" by blast
    then show False using None table_bucket_of [OF t, of a x] i by (auto simp: find_None_iff nkey_def)
  qed
  then have "M k \<noteq> Some v" for v using M by (simp add: holds_map_def)
  then show ?thesis using None by (cases "M k") auto
next
  case (Some a)
  have "i < n" using t i by (simp add: table_def)
  then have "hchain N (B ! i) (cs ! i) None" using tableD(1) [OF t] by (simp add: bucket_def)
  moreover have a: "a \<in> set (cs ! i)" "nkey N a = k" using Some by (auto simp: find_Some_iff)
  ultimately obtain x where "N a = Some x" "hkey x = k" "a \<in> set (cs ! i)" using chain_dom [of N "B ! i" "cs ! i" None a] by auto
  then show ?thesis using Some M by (auto simp: holds_map_def)
qed

lemma table_key_unique:
  assumes t: "table F n B N cs" and "N a = Some x" "N b = Some y" "hkey x = hkey y"
  shows "a = b"
proof -
  let ?i = "F (hkey x) mod n"
  have "a \<in> set (cs ! ?i)" "b \<in> set (cs ! ?i)" using table_bucket_of [OF t] assms(2-4) by metis+
  moreover have "inj_on (nkey N) (set (cs ! ?i))" using tableD(1) [OF t, of ?i] t by (simp add: table_def bucket_def)
  ultimately show ?thesis using assms(2-4) by (simp add: inj_on_def nkey_def)
qed

text \<open>Values may change under a table.\<close>

lemma chain_links: "(\<And>a. map_option hnext (N' a) = map_option hnext (N a)) \<Longrightarrow> hchain N' p c q = hchain N p c q"
proof (induction c arbitrary: p)
  case (Cons a c)
  show ?case using Cons.prems [of a] Cons.IH [OF Cons.prems] by (cases "N a"; cases "N' a") auto
qed simp

lemma table_value:
  assumes t: "table F n B N cs" and a: "N a = Some x"
  shows "table F n B (N(a \<mapsto> x\<lparr>hval := v\<rparr>)) cs"
proof -
  let ?N = "N(a \<mapsto> x\<lparr>hval := v\<rparr>)"
  have "hchain ?N p c q = hchain N p c q" for p c q by (rule chain_links) (simp add: a)
  moreover have "nkey ?N = nkey N" using a by (auto simp: nkey_def fun_eq_iff)
  ultimately show ?thesis using t a by (auto simp: table_def bucket_def)
qed

lemma find_split: "find P xs = Some a \<Longrightarrow> \<exists>us ws. xs = us @ a # ws \<and> (\<forall>b \<in> set us. \<not> P b) \<and> P a"
proof (induction xs)
  case (Cons x xs)
  then show ?case
  proof (cases "P x")
    case True
    then show ?thesis using Cons.prems by (intro exI [of _ "[]"] exI [of _ xs]) auto
  next
    case False
    then obtain us ws where "xs = us @ a # ws" "\<forall>b \<in> set us. \<not> P b" "P a" using Cons by auto
    then show ?thesis using False by (intro exI [of _ "x # us"] exI [of _ ws]) auto
  qed
qed simp

section \<open>The operations on the map\<close>

lemma holds_map_iff: "holds_map N M \<longleftrightarrow> (\<forall>k v. M k = Some v \<longleftrightarrow> (\<exists>a. map_option (\<lambda>x. (hkey x, hval x)) (N a) = Some (k, v)))"
proof -
  have "(\<exists>x. N a = Some x \<and> hkey x = k \<and> hval x = v) \<longleftrightarrow> map_option (\<lambda>x. (hkey x, hval x)) (N a) = Some (k, v)" for a k v by (cases "N a") auto
  then show ?thesis unfolding holds_map_def by simp
qed

lemma ex_at: "(\<exists>b. P b) \<longleftrightarrow> P a \<or> (\<exists>b. b \<noteq> a \<and> P b)"
  by metis

text \<open>The node at \<open>a\<close> changes to hold \<open>d\<close>, the others keep their data; no other node has a key of the old or the new data.\<close>

lemma holds_upd:
  fixes N N' :: "'p \<Rightarrow> ('k, 'v, 'p) shm_hash_node option"
  assumes h: "holds_map N M" and N': "\<And>b. b \<noteq> a \<Longrightarrow> map_option (\<lambda>y. (hkey y, hval y)) (N' b) = map_option (\<lambda>y. (hkey y, hval y)) (N b)"
    and d: "map_option (\<lambda>y. (hkey y, hval y)) (N' a) = map_option (Pair k) d" and k: "\<And>b y. N b = Some y \<Longrightarrow> (hkey y = k \<longleftrightarrow> b = a) \<or> N a = None \<and> hkey y \<noteq> k"
  shows "holds_map N' (M(k := d))"
  unfolding holds_map_iff
proof (intro allI)
  fix l :: 'k and v :: 'v
  let ?f = "\<lambda>N b. map_option (\<lambda>x. (hkey x, hval x)) (N b) = Some (l, v)"
  have "(\<exists>b. ?f N' b) \<longleftrightarrow> ?f N' a \<or> (\<exists>b. b \<noteq> a \<and> ?f N' b)" by (rule ex_at)
  also have "\<dots> \<longleftrightarrow> map_option (Pair k) d = Some (l, v) \<or> (\<exists>b. b \<noteq> a \<and> ?f N b)" using N' d by (simp cong: conj_cong)
  also have "(\<exists>b. b \<noteq> a \<and> ?f N b) \<longleftrightarrow> l \<noteq> k \<and> M l = Some v"
  proof -
    have "b \<noteq> a \<longleftrightarrow> l \<noteq> k" if "?f N b" for b
      using that k [of b] by (cases "N b") auto
    then show ?thesis using h [unfolded holds_map_iff] by blast
  qed
  finally show "(M(k := d)) l = Some v \<longleftrightarrow> (\<exists>b. map_option (\<lambda>x. (hkey x, hval x)) (N' b) = Some (l, v))" by (cases d) auto
qed

lemma holds_new: "holds_map N M \<Longrightarrow> N a = None \<Longrightarrow> M (hkey x) = None \<Longrightarrow> holds_map (N(a \<mapsto> x)) (M(hkey x \<mapsto> hval x))"
proof (rule holds_upd [of N M a])
  assume h: "holds_map N M" "M (hkey x) = None"
  show "(hkey y = hkey x \<longleftrightarrow> b = a) \<or> N a = None \<and> hkey y \<noteq> hkey x" if "N b = Some y" "N a = None" for b y
  proof -
    have "M (hkey y) = Some (hval y)" using h(1) that(1) unfolding holds_map_def by blast
    then show ?thesis using h(2) that(2) by auto
  qed
qed simp_all

lemma table_only_key: "table F n B N cs \<Longrightarrow> N a = Some x \<Longrightarrow> N b = Some y \<Longrightarrow> hkey y = hkey x \<longleftrightarrow> b = a"
  using table_key_unique by fastforce

lemma holds_value: "table F n B N cs \<Longrightarrow> holds_map N M \<Longrightarrow> N a = Some x \<Longrightarrow> holds_map (N(a \<mapsto> x\<lparr>hval := v\<rparr>)) (M(hkey x \<mapsto> v))"
  by (rule holds_upd [of N M a]) (simp_all add: table_only_key)

lemma holds_del:
  assumes "table F n B N cs" "holds_map N M" "N a = Some x" "N' a = None"
    and "\<And>b. b \<noteq> a \<Longrightarrow> map_option (\<lambda>y. (hkey y, hval y)) (N' b) = map_option (\<lambda>y. (hkey y, hval y)) (N b)"
  shows "holds_map N' (M(hkey x := None))"
  by (rule holds_upd [of N M a]) (use assms in \<open>simp_all add: table_only_key\<close>)

lemma hash_viewD:
  assumes "hash_view ok F n h cs"
  shows "table F (bucket_size h) (buckets h) (hnodes h) cs" "used_node_count h = length (concat cs)" "ok n (hash_mem h) (set (concat cs))"
    "bucket_index F h k < bucket_size h" "base_addr h (bucket_index F h k) = Some (buckets h ! bucket_index F h k)" "dom (hnodes h) = set (concat cs)"
    "bucket F (bucket_size h) (hnodes h) (bucket_index F h k) (buckets h ! bucket_index F h k) (cs ! bucket_index F h k)"
  using assms by (auto simp: hash_view_def bucket_index_def table_def base_addr_def)

lemma hash_search_ok:
  assumes v: "hash_view ok F n h cs"
  shows "hash_search F h k = Some (find (\<lambda>a. nkey (hnodes h) a = k) (cs ! bucket_index F h k))"
proof (cases "hash_empty h")
  case True
  then have "concat cs = []" using hash_viewD(2) [OF v] by (simp add: hash_empty_def)
  moreover have "bucket_index F h k < length cs" using hash_viewD(1,4) [OF v] by (simp add: table_def)
  ultimately have "cs ! bucket_index F h k = []" by (metis concat_eq_Nil_conv nth_mem)
  then show ?thesis using True by (simp add: hash_search_def)
next
  case False
  have "hchain (hnodes h) (buckets h ! bucket_index F h k) (cs ! bucket_index F h k) None" using hash_viewD(7) [OF v] by (simp add: bucket_def)
  then show ?thesis using False hash_viewD(5) [OF v] chain_search by (simp add: hash_search_def)
qed

lemma hash_find_ok:
  assumes v: "hash_view ok F n h cs" and M: "holds_map (hnodes h) M"
  shows "hash_find F h k = Some (M k)"
  using table_find [OF hash_viewD(1) [OF v] M refl, of k] hash_search_ok [OF v, of k]
  by (auto simp: hash_find_def bucket_index_def split: option.splits)

text \<open>A node leaves its chain.\<close>

lemma chain_unlink_first:
  assumes "hchain N p (a # ws) q" "a \<notin> set ws" "N a = Some x"
  shows "p = Some a" "hchain (N(a := None)) (hnext x) ws q"
  using assms by auto

lemma chain_unlink_mid:
  assumes c: "hchain N p (vs @ b # a # ws) q" and d: "distinct (vs @ b # a # ws)" and x: "N a = Some x"
  shows "\<exists>y. N b = Some y \<and> hnext y = Some a \<and> hchain (N(b \<mapsto> y\<lparr>hnext := hnext x\<rparr>, a := None)) p (vs @ b # ws) q"
proof -
  obtain y where y: "hchain N p vs (Some b)" "N b = Some y" "hnext y = Some a" "hchain N (hnext x) ws q" using c x by (auto simp: hchain_append)
  let ?N = "N(b \<mapsto> y\<lparr>hnext := hnext x\<rparr>, a := None)"
  have "hchain ?N p vs (Some b)" "hchain ?N (hnext x) ws q" using y d by auto
  moreover have "?N b = Some (y\<lparr>hnext := hnext x\<rparr>)" using d by auto
  ultimately show ?thesis using y(2,3) by (auto simp: hchain_append)
qed

lemma concat_update:
  assumes "i < length cs" "cs ! i = us @ a # ws" "distinct (concat cs)"
  shows "set (concat (cs[i := us @ ws])) = set (concat cs) - {a}" "length (concat (cs[i := us @ ws])) = length (concat cs) - 1" "a \<in> set (concat cs)"
proof -
  obtain ps qs where u: "cs = ps @ cs ! i # qs" "cs[i := us @ ws] = ps @ (us @ ws) # qs" using concat_split [OF assms(1)] by blast
  have c: "concat cs = concat ps @ us @ a # ws @ concat qs" using arg_cong [OF u(1), of concat] assms(2) by simp
  show "set (concat (cs[i := us @ ws])) = set (concat cs) - {a}" "length (concat (cs[i := us @ ws])) = length (concat cs) - 1" "a \<in> set (concat cs)"
    using assms(3) unfolding u(2) c by auto
qed

text \<open>The table without the node \<open>a\<close>; \<open>N'\<close> has the node before it relinked, if there is one.\<close>

lemma table_del:
  assumes t: "table F n B N cs" and i: "i < n" and c: "cs ! i = us @ a # ws" and ch: "hchain N' p (us @ ws) None" and a: "N' a = None"
    and same: "\<And>b. b \<noteq> a \<Longrightarrow> b \<notin> set us \<Longrightarrow> N' b = N b" and data: "\<And>b. b \<noteq> a \<Longrightarrow> map_option hkey (N' b) = map_option hkey (N b)"
  shows "table F n (B[i := p]) N' (cs[i := us @ ws])"
proof -
  note td = tableD [OF t i]
  have l: "i < length cs" using td(3) i by simp
  have dc: "distinct (cs ! i)" by (rule table_distinct [OF t i])
  have k: "nkey N' b = nkey N b" if bi: "b \<in> set (us @ ws)" for b
  proof -
    have "b \<noteq> a" using bi dc c by auto
    moreover obtain y where "N' b = Some y" using chain_dom [OF ch bi] by blast
    ultimately show ?thesis using data [of b] by (cases "N b") (auto simp: nkey_def)
  qed
  have b: "bucket F n N' i p (us @ ws)" using td(1) c ch k by (auto simp: bucket_def inj_on_def)
  have sub: "set (cs ! i) \<subseteq> dom N" using td(5) nth_mem [OF l] by auto
  have dm: "b \<in> dom N' \<longleftrightarrow> b \<in> dom N" if "b \<noteq> a" for b using data [OF that] by (cases "N b"; cases "N' b") auto
  show ?thesis
  proof (rule table_upd [OF t i b])
    show "distinct (us @ ws)" "set (us @ ws) \<inter> (dom N - set (cs ! i)) = {}" using dc c by auto
    show "N' b = N b" if "b \<in> dom N - set (cs ! i)" for b using that same c by auto
    have "b \<in> dom N' \<longleftrightarrow> b \<in> dom N - {a}" for b using dm [of b] a by (cases "b = a") auto
    then have "dom N' = dom N - {a}" by blast
    then show "dom N' = set (us @ ws) \<union> (dom N - set (cs ! i))" using sub c dc by auto
  qed
qed

context node_source
begin

lemma view_less: "hash_view ok F (Suc n) h cs \<Longrightarrow> hash_view ok F n h cs"
  using src_less by (simp add: hash_view_def)

lemma hash_insert_ok:
  assumes v: "hash_view ok F (Suc n) h cs" and M: "holds_map (hnodes h) M"
  shows "\<exists>r h' cs'. hash_insert new F h k w = Some (r, h') \<and> hash_view ok F n h' cs' \<and> bucket_size h' = bucket_size h \<and> total_node_count h' = total_node_count h \<and> buckets_ptr h' = buckets_ptr h \<and>
    (if hash_full h \<or> k \<notin> dom M \<and> (\<exists>s. new (hash_mem h) = Some (None, s)) then r = - ENOMEM \<and> holds_map (hnodes h') M else r = 0 \<and> holds_map (hnodes h') (M(k \<mapsto> w)))"
proof (cases "hash_full h")
  case True
  then show ?thesis using view_less [OF v] M by (auto simp: hash_insert_def)
next
  case nf: False
  let ?i = "bucket_index F h k"
  note d = hash_viewD [OF v]
  note f = table_find [OF d(1) M refl, of k, folded bucket_index_def]
  show ?thesis
  proof (cases "find (\<lambda>a. nkey (hnodes h) a = k) (cs ! ?i)")
    case (Some a)
    then obtain x where x: "hnodes h a = Some x" "hkey x = k" "M k = Some (hval x)" using f by auto
    let ?h = "h\<lparr>hnodes := (hnodes h)(a \<mapsto> x\<lparr>hval := w\<rparr>)\<rparr>"
    have "hash_insert new F h k w = Some (0, ?h)" using nf hash_search_ok [OF v, of k] Some x by (simp add: hash_insert_def)
    moreover have "hash_view ok F n ?h cs" using view_less [OF v] table_value [OF d(1) x(1)] by (simp add: hash_view_def)
    moreover have "holds_map (hnodes ?h) (M(k \<mapsto> w))" using holds_value [OF d(1) M x(1), of w] x(2) by simp
    ultimately show ?thesis using nf x(3) by (intro exI [of _ 0] exI [of _ ?h] exI [of _ cs]) auto
  next
    case None
    then have mk: "M k = None" using f by simp
    have nk: "\<forall>a \<in> set (cs ! ?i). nkey (hnodes h) a \<noteq> k" using None by (auto simp: find_None_iff)
    obtain r s where r: "new (hash_mem h) = Some (r, s)" "case r of None \<Rightarrow> ok n s (set (concat cs)) | Some p \<Rightarrow> p \<notin> set (concat cs) \<and> ok n s (insert p (set (concat cs)))"
      using src_new [OF d(3)] by blast
    show ?thesis
    proof (cases r)
      case rn: None
      have "hash_view ok F n (h\<lparr>hash_mem := s\<rparr>) cs" using v r rn by (simp add: hash_view_def)
      then show ?thesis using nf hash_search_ok [OF v, of k] None r rn M mk by (auto simp: hash_insert_def Let_def)
    next
      case (Some a)
      then have a: "a \<notin> set (concat cs)" "ok n s (insert a (set (concat cs)))" using r by auto
      define x where "x = \<lparr>hkey = k, hval = w, hnext = buckets h ! ?i\<rparr>"
      let ?N = "(hnodes h)(a \<mapsto> x)" and ?c = "a # cs ! ?i"
      let ?h = "h\<lparr>hash_mem := s, hnodes := ?N, buckets := (buckets h)[?i := Some a], used_node_count := used_node_count h + 1\<rparr>"
      have il: "?i < length cs" "?i < length (buckets h)" using d(1,4) by (simp_all add: table_def)
      have ci: "set (cs ! ?i) \<subseteq> set (concat cs)" using nth_mem [OF il(1)] by auto
      have same: "?N b = hnodes h b" if "b \<noteq> a" for b using that by simp
      have "bucket F (bucket_size h) ?N ?i (buckets h ! ?i) (cs ! ?i)" using d(7) [of k] a(1) ci by (subst bucket_cong [of _ ?N "hnodes h"]) auto
      moreover have "F k mod bucket_size h = ?i" by (simp add: bucket_index_def)
      moreover have "\<forall>b \<in> set (cs ! ?i). nkey ?N b \<noteq> k" using nk a(1) ci by (auto simp: nkey_def)
      moreover have "nkey ?N a = k" by (simp add: nkey_def x_def)
      ultimately have b: "bucket F (bucket_size h) ?N ?i (Some a) ?c" by (auto simp: bucket_def x_def)
      have "distinct (cs ! ?i)" by (rule table_distinct [OF d(1,4)])
      then have "table F (bucket_size h) ((buckets h)[?i := Some a]) ?N (cs[?i := ?c])"
        using d(6) a(1) ci by (intro table_upd [OF d(1,4) b]) auto
      moreover obtain us ws where u: "cs = us @ cs ! ?i # ws" "cs[?i := ?c] = us @ ?c # ws" using concat_split [OF il(1)] by blast
      have "set (concat (cs[?i := ?c])) = insert a (set (concat cs))" "length (concat (cs[?i := ?c])) = Suc (length (concat cs))"
        unfolding u(2) by (subst (2) u(1); auto)+
      ultimately have "hash_view ok F n ?h (cs[?i := ?c])" using a(2) d(2) by (simp add: hash_view_def)
      moreover have "holds_map ?N (M(k \<mapsto> w))" using holds_new [OF M, of a x] a(1) d(6) mk by (auto simp: x_def)
      moreover have "hash_insert new F h k w = Some (0, ?h)"
        using nf hash_search_ok [OF v, of k] None r(1) Some d(5) [of k] il by (simp add: hash_insert_def Let_def base_addr_def set_bucket_def bucket_index_def x_def)
      ultimately show ?thesis using nf r(1) Some by (intro exI [of _ 0] exI [of _ ?h] exI [of _ "cs[?i := ?c]"]) auto
    qed
  qed
qed

lemma hash_erase_ok:
  assumes v: "hash_view ok F (Suc n) h cs" and M: "holds_map (hnodes h) M"
  shows "\<exists>h' cs'. hash_erase del F h k = Some h' \<and> hash_view ok F n h' cs' \<and> bucket_size h' = bucket_size h \<and> total_node_count h' = total_node_count h \<and> buckets_ptr h' = buckets_ptr h \<and>
    holds_map (hnodes h') (M(k := None))"
proof -
  let ?i = "bucket_index F h k" and ?N = "hnodes h"
  note d = hash_viewD [OF v]
  note f = table_find [OF d(1) M refl, of k, folded bucket_index_def]
  have ch: "hchain ?N (buckets h ! ?i) (cs ! ?i) None" using d(7) [of k] by (simp add: bucket_def)
  show ?thesis
  proof (cases "find (\<lambda>a. nkey ?N a = k) (cs ! ?i)")
    case None
    have "\<forall>a \<in> set (cs ! ?i). nkey ?N a \<noteq> k" using None by (auto simp: find_None_iff)
    then have "\<exists>q. hash_erase_loop ?N k None (buckets h ! ?i) = Some (q, None)" using chain_erase [OF ch, of k None] by (simp add: hash_erase_loop.simps)
    then have "hash_erase del F h k = Some h" using d(5) [of k] by (auto simp: hash_erase_def Let_def)
    moreover have "M(k := None) = M" using f None by (simp add: fun_upd_idem)
    ultimately show ?thesis using view_less [OF v] M by auto
  next
    case (Some a)
    then obtain x where x: "?N a = Some x" "hkey x = k" using f by auto
    obtain us ws where u: "cs ! ?i = us @ a # ws" "\<forall>b \<in> set us. nkey ?N b \<noteq> k" using find_split [OF Some] by blast
    have il: "?i < length cs" "?i < length (buckets h)" using d(1) d(4) [of k] by (simp_all add: table_def)
    have dc: "distinct (us @ a # ws)" "distinct (concat cs)" using table_distinct [OF d(1,4), of k] tableD(4) [OF d(1,4)] u(1) by simp_all
    note cu = concat_update [OF il(1) u(1) dc(2)]
    obtain r where r: "hchain ?N (buckets h ! ?i) us r" "hchain ?N r (a # ws) None" using ch u(1) by (auto simp: hchain_append)
    have er: "hash_erase_loop ?N k None (buckets h ! ?i) = Some (last (None # map Some us), Some a)"
      using chain_erase [OF r(1) u(2), of None] r(2) x by (simp add: hash_erase_loop.simps)
    have "concat cs \<noteq> []" using cu(3) by (metis empty_iff list.set(1))
    then have ne: "\<not> hash_empty h" using d(2) by (simp add: hash_empty_def)
    obtain s where s: "del (hash_mem h) a = Some s" "ok n s (set (concat cs) - {a})" using src_del [OF d(3) cu(3)] by blast
    have "\<exists>p N'. hchain N' p (us @ ws) None \<and> N' a = None \<and> (\<forall>b. b \<noteq> a \<longrightarrow> b \<notin> set us \<longrightarrow> N' b = ?N b) \<and>
        (\<forall>b. b \<noteq> a \<longrightarrow> map_option (\<lambda>y. (hkey y, hval y)) (N' b) = map_option (\<lambda>y. (hkey y, hval y)) (?N b)) \<and>
        hash_erase del F h k = Some (h\<lparr>hash_mem := s, hnodes := N', buckets := (buckets h)[?i := p], used_node_count := used_node_count h - 1\<rparr>)"
    proof (cases us rule: rev_cases)
      case Nil
      have c: "hchain ?N (buckets h ! ?i) (a # ws) None" using ch u(1) Nil by simp
      have "a \<notin> set ws" using dc(1) by simp
      note uf = chain_unlink_first [OF c this x(1)]
      show ?thesis
        by (rule exI [of _ "hnext x"], rule exI [of _ "?N(a := None)"])
          (use uf Nil er ne d(5) [of k] il x s in \<open>simp add: hash_erase_def Let_def set_bucket_def delete_node_def\<close>)
    next
      case (snoc vs b)
      have c: "hchain ?N (buckets h ! ?i) (vs @ b # a # ws) None" and db: "distinct (vs @ b # a # ws)" using ch u(1) snoc dc(1) by auto
      obtain y where y: "?N b = Some y" "hnext y = Some a" "hchain (?N(b \<mapsto> y\<lparr>hnext := hnext x\<rparr>, a := None)) (buckets h ! ?i) (vs @ b # ws) None"
        using chain_unlink_mid [OF c db x(1)] by blast
      have "a \<noteq> b" using db by auto
      then show ?thesis
        by (intro exI [of _ "buckets h ! ?i"] exI [of _ "?N(b \<mapsto> y\<lparr>hnext := hnext x\<rparr>, a := None)"])
          (use y snoc er ne d(5) [of k] x s in \<open>simp add: hash_erase_def Let_def delete_node_def\<close>)
    qed
    then obtain p N' where N': "hchain N' p (us @ ws) None" "N' a = None" "\<And>b. b \<noteq> a \<Longrightarrow> b \<notin> set us \<Longrightarrow> N' b = ?N b"
        "\<And>b. b \<noteq> a \<Longrightarrow> map_option (\<lambda>y. (hkey y, hval y)) (N' b) = map_option (\<lambda>y. (hkey y, hval y)) (?N b)"
        "hash_erase del F h k = Some (h\<lparr>hash_mem := s, hnodes := N', buckets := (buckets h)[?i := p], used_node_count := used_node_count h - 1\<rparr>)" by blast
    have "map_option hkey (N' b) = map_option hkey (?N b)" if "b \<noteq> a" for b using N'(4) [OF that] by (cases "N' b"; cases "?N b") auto
    then have "table F (bucket_size h) ((buckets h)[?i := p]) N' (cs[?i := us @ ws])" using table_del [OF d(1,4) u(1) N'(1,2)] N'(3) by blast
    then have "hash_view ok F n (h\<lparr>hash_mem := s, hnodes := N', buckets := (buckets h)[?i := p], used_node_count := used_node_count h - 1\<rparr>) (cs[?i := us @ ws])"
      using cu d(2) s(2) by (simp add: hash_view_def)
    moreover have "holds_map N' (M(k := None))" using holds_del [OF d(1) M x(1) N'(2,4)] x(2) by simp
    ultimately show ?thesis
      by (intro exI [of _ "h\<lparr>hash_mem := s, hnodes := N', buckets := (buckets h)[?i := p], used_node_count := used_node_count h - 1\<rparr>"] exI [of _ "cs[?i := us @ ws]"])
        (simp add: N'(5))
  qed
qed

lemma clear_chain_ok:
  assumes "hchain (hnodes h) p c None" "distinct c" "set c \<subseteq> S" "ok (length c + n) (hash_mem h) S"
  shows "\<exists>s. clear_chain del h p = Some (h\<lparr>hash_mem := s, hnodes := hnodes h |` (- set c)\<rparr>) \<and> ok n s (S - set c)"
  using assms
proof (induction c arbitrary: h p S)
  case Nil
  have "hnodes h |` UNIV = hnodes h" by (auto simp: restrict_map_def)
  then show ?case using Nil by (intro exI [of _ "hash_mem h"]) (simp add: clear_chain.simps)
next
  case (Cons a c)
  obtain x where x: "p = Some a" "hnodes h a = Some x" "hchain (hnodes h) (hnext x) c None" using Cons.prems(1) by auto
  obtain s where s: "del (hash_mem h) a = Some s" "ok (length c + n) s (S - {a})" using src_del [of "length c + n" "hash_mem h" S a] Cons.prems(3,4) by auto
  let ?h = "h\<lparr>hash_mem := s, hnodes := (hnodes h)(a := None)\<rparr>"
  have "hchain (hnodes ?h) (hnext x) c None" using x(3) Cons.prems(2) by simp
  moreover have "set c \<subseteq> S - {a}" "distinct c" using Cons.prems(2,3) by auto
  moreover have "ok (length c + n) (hash_mem ?h) (S - {a})" using s(2) by simp
  ultimately obtain s' where s': "clear_chain del ?h (hnext x) = Some (?h\<lparr>hash_mem := s', hnodes := hnodes ?h |` (- set c)\<rparr>)" "ok n s' (S - {a} - set c)"
    using Cons.IH by blast
  have "(hnodes h)(a := None) |` (- set c) = hnodes h |` (- set (a # c))" by (auto simp: restrict_map_def fun_eq_iff)
  moreover have "S - {a} - set c = S - set (a # c)" by auto
  ultimately show ?case using x(1,2) s(1) s' by (subst clear_chain.simps) (auto simp: delete_node_def)
qed

lemma clear_buckets_ok:
  assumes "length (buckets h) = n" "length cs = n" "i \<le> n" "\<And>j. i \<le> j \<Longrightarrow> j < n \<Longrightarrow> hchain (hnodes h) (buckets h ! j) (cs ! j) None"
    and "distinct (concat (drop i cs))" "dom (hnodes h) = set (concat (drop i cs))" "ok (length (concat (drop i cs)) + m) (hash_mem h) (set (concat (drop i cs)))"
  shows "\<exists>s. clear_buckets del n i h = Some (h\<lparr>hash_mem := s, hnodes := (\<lambda>_. None), buckets := take i (buckets h) @ replicate (n - i) None\<rparr>) \<and> ok m s {}"
  using assms
proof (induction "n - i" arbitrary: i h)
  case 0
  then have "hnodes h = (\<lambda>_. None)" by simp
  then show ?case using 0 by (intro exI [of _ "hash_mem h"]) (simp add: clear_buckets.simps)
next
  case (Suc d)
  have i: "i < n" "drop i cs = cs ! i # drop (Suc i) cs" using Suc.hyps(2) Suc.prems(2) by (simp_all add: Cons_nth_drop_Suc)
  let ?c = "cs ! i" and ?r = "set (concat (drop (Suc i) cs))"
  have ch: "hchain (hnodes h) (buckets h ! i) ?c None" using Suc.prems(4) i(1) by simp
  have dis: "distinct ?c" "set ?c \<inter> ?r = {}" "distinct (concat (drop (Suc i) cs))" using Suc.prems(5) i(2) by auto
  have "ok (length ?c + (length (concat (drop (Suc i) cs)) + m)) (hash_mem h) (set ?c \<union> ?r)" using Suc.prems(7) i(2) by (simp add: add.assoc)
  from clear_chain_ok [OF ch dis(1) _ this] obtain s where
    s: "clear_chain del h (buckets h ! i) = Some (h\<lparr>hash_mem := s, hnodes := hnodes h |` (- set ?c)\<rparr>)" "ok (length (concat (drop (Suc i) cs)) + m) s (set ?c \<union> ?r - set ?c)"
    by auto
  let ?h = "h\<lparr>hash_mem := s, hnodes := hnodes h |` (- set ?c), buckets := (buckets h)[i := None]\<rparr>"
  have dn: "d = n - Suc i" using Suc.hyps(2) by simp
  have "set ?c \<union> ?r - set ?c = ?r" using dis(2) by auto
  moreover have "hchain (hnodes ?h) (buckets ?h ! j) (cs ! j) None" if j: "Suc i \<le> j" "j < n" for j
  proof -
    have "cs ! j \<in> set (drop (Suc i) cs)" using nth_mem [of "j - Suc i" "drop (Suc i) cs"] j Suc.prems(2) by simp
    then have "set (cs ! j) \<inter> set ?c = {}" using dis(2) by auto
    then have "hchain (hnodes ?h) (buckets h ! j) (cs ! j) None = hchain (hnodes h) (buckets h ! j) (cs ! j) None" by (intro hchain_cong) (auto simp: restrict_map_def)
    then show ?thesis using Suc.prems(4) [of j] j by simp
  qed
  moreover have "dom (hnodes ?h) = ?r" using Suc.prems(6) i(2) dis(2) by auto
  ultimately obtain s' where "clear_buckets del n (Suc i) ?h = Some (?h\<lparr>hash_mem := s', hnodes := (\<lambda>_. None), buckets := take (Suc i) (buckets ?h) @ replicate (n - Suc i) None\<rparr>)" "ok m s' {}"
    using Suc.hyps(1) [of "Suc i" ?h] dn Suc.prems(1,2) i(1) dis(3) s(2) by auto
  moreover have "take (Suc i) (buckets ?h) @ replicate (n - Suc i) None = take i (buckets h) @ replicate (n - i) None"
    using i(1) Suc.prems(1) by (simp add: take_Suc_conv_app_nth replicate_Suc [symmetric] Suc_diff_Suc del: replicate_Suc)
  ultimately show ?case using i(1) Suc.prems(1) s(1) by (intro exI [of _ s'], subst clear_buckets.simps) (simp add: base_addr_def set_bucket_def)
qed

lemma hash_clear_ok:
  assumes v: "hash_view ok F (used_node_count h + n) h cs"
  shows "\<exists>h'. hash_clear del h = Some h' \<and> hash_view ok F n h' (replicate (bucket_size h) []) \<and> hnodes h' = (\<lambda>_. None) \<and>
    bucket_size h' = bucket_size h \<and> total_node_count h' = total_node_count h \<and> buckets_ptr h' = buckets_ptr h"
proof -
  note d = hash_viewD [OF v]
  have "\<exists>s. clear_buckets del (bucket_size h) 0 h = Some (h\<lparr>hash_mem := s, hnodes := (\<lambda>_. None), buckets := take 0 (buckets h) @ replicate (bucket_size h - 0) None\<rparr>) \<and> ok n s {}"
    by (rule clear_buckets_ok [where cs = cs]) (use d(1-3) in \<open>auto simp: table_def bucket_def\<close>)
  then obtain s where "clear_buckets del (bucket_size h) 0 h = Some (h\<lparr>hash_mem := s, hnodes := (\<lambda>_. None), buckets := replicate (bucket_size h) None\<rparr>)" "ok n s {}" by auto
  then show ?thesis using d(1) by (auto simp: hash_clear_def hash_view_def table_def bucket_def)
qed

end

section \<open>Iteration\<close>

definition first_of :: "'a list \<Rightarrow> 'a option" where "first_of xs = (if xs = [] then None else Some (hd xs))"

definition last_of :: "'a list \<Rightarrow> 'a option" where "last_of xs = (if xs = [] then None else Some (last xs))"

lemma bucket_head: "bucket F n N i p c \<Longrightarrow> p = first_of c"
  by (cases c) (auto simp: bucket_def first_of_def)

lemma first_from_ok:
  assumes t: "table F (bucket_size h) (buckets h) (hnodes h) cs" and "i \<le> bucket_size h"
  shows "first_from h i = Some (first_of (concat (drop i cs)))"
  using assms(2)
proof (induction "bucket_size h - i" arbitrary: i)
  case 0
  then show ?case using t by (simp add: table_def first_of_def first_from.simps)
next
  case (Suc d)
  have i: "i < bucket_size h" "drop i cs = cs ! i # drop (Suc i) cs" using Suc.hyps(2) t by (simp_all add: table_def Cons_nth_drop_Suc)
  have "buckets h ! i = first_of (cs ! i)" using bucket_head [OF tableD(1) [OF t i(1)]] .
  moreover have "i < length (buckets h)" using t i(1) by (simp add: table_def)
  ultimately show ?case using i Suc.hyps(1) [of "Suc i"] Suc.hyps(2) by (subst first_from.simps) (auto simp: base_addr_def first_of_def)
qed

text \<open>A node splits its bucket and with it the sequence of all nodes.\<close>

lemma table_node:
  assumes t: "table F n B N cs" and c: "concat cs = us @ a # ws"
  shows "\<exists>x i vs rs. N a = Some x \<and> i = F (hkey x) mod n \<and> i < n \<and> cs ! i = vs @ a # rs \<and> us = concat (take i cs) @ vs \<and> ws = rs @ concat (drop (Suc i) cs)"
proof -
  have n: "0 < n" "length cs = n" using t by (auto simp: table_def)
  obtain x where x: "N a = Some x" using tableD(5) [OF t n(1)] c by auto
  let ?i = "F (hkey x) mod n"
  have i: "?i < n" using n by simp
  obtain vs rs where vs: "cs ! ?i = vs @ a # rs" using split_list [OF table_bucket_of [OF t x]] by blast
  have "concat cs = concat (take ?i cs @ cs ! ?i # drop (Suc ?i) cs)" using i n(2) by (simp only: id_take_nth_drop [symmetric])
  then have e: "us @ a # ws = (concat (take ?i cs) @ vs) @ a # (rs @ concat (drop (Suc ?i) cs))" using c vs by simp
  have "distinct (us @ a # ws)" using tableD(4) [OF t n(1)] c by simp
  then have "us = concat (take ?i cs) @ vs \<and> ws = rs @ concat (drop (Suc ?i) cs)" using e append_Cons_eq_iff [of a us ws] by (metis distinct.simps(2) distinct_append not_distinct_conv_prefix)
  then show ?thesis using x i vs by blast
qed

lemma hash_next_ok:
  assumes v: "hash_view ok F n h cs" and c: "concat cs = us @ a # ws"
  shows "hash_next F h (Some a) = Some (first_of ws)"
proof -
  note d = hash_viewD [OF v]
  obtain x i vs rs where x: "hnodes h a = Some x" "i = F (hkey x) mod bucket_size h" "i < bucket_size h" "cs ! i = vs @ a # rs" "ws = rs @ concat (drop (Suc i) cs)"
    using table_node [OF d(1) c] by blast
  have "hchain (hnodes h) (buckets h ! i) (vs @ a # rs) None" using tableD(1) [OF d(1) x(3)] x(4) by (simp add: bucket_def)
  then have r: "hchain (hnodes h) (hnext x) rs None" using x(1) by (auto simp: hchain_append)
  show ?thesis
  proof (cases rs)
    case Nil
    have "Suc i \<le> bucket_size h" using x(3) by simp
    then show ?thesis using first_from_ok [OF d(1)] r Nil x(1,2,5) by (simp add: hash_next_def bucket_index_def)
  next
    case (Cons b rs')
    then show ?thesis using r x(1,5) by (simp add: hash_next_def first_of_def)
  qed
qed

lemma hash_visit_ok:
  assumes v: "hash_view ok F n h cs"
  shows "concat cs = us @ ws \<Longrightarrow> hash_visit F h (first_of ws) kvs = Some (kvs @ map (\<lambda>a. (nkey (hnodes h) a, nval (hnodes h) a)) ws)"
proof (induction ws arbitrary: us kvs)
  case Nil
  then show ?case by (simp add: first_of_def hash_visit.simps)
next
  case (Cons a ws)
  obtain x where x: "hnodes h a = Some x" using table_node [OF hash_viewD(1) [OF v] Cons.prems] by blast
  have "hash_visit F h (Some a) kvs = hash_visit F h (first_of ws) (kvs @ [(hkey x, hval x)])"
    using x hash_next_ok [OF v Cons.prems] by (subst hash_visit.simps) simp
  then show ?case using Cons.IH [of "us @ [a]" "kvs @ [(hkey x, hval x)]"] Cons.prems x by (simp add: first_of_def nkey_def nval_def)
qed

lemma last_before_ok:
  assumes t: "table F (bucket_size h) (buckets h) (hnodes h) cs"
  shows "i \<le> bucket_size h \<Longrightarrow> last_before h i = Some (last_of (concat (take i cs)))"
proof (induction i)
  case (Suc i)
  have i: "i < length cs" "i < length (buckets h)" using Suc.prems t by (simp_all add: table_def)
  have b: "bucket F (bucket_size h) (hnodes h) i (buckets h ! i) (cs ! i)" using tableD(1) [OF t] Suc.prems by simp
  have "take (Suc i) cs = take i cs @ [cs ! i]" using i(1) by (rule take_Suc_conv_app_nth)
  moreover have "hash_last_loop (hnodes h) None (buckets h ! i) = Some (last (None # map Some (cs ! i)))" using b chain_last [of "hnodes h"] by (simp add: bucket_def)
  ultimately show ?case using Suc i(2) bucket_head [OF b] by (auto simp: base_addr_def first_of_def last_of_def last_map)
qed (simp add: last_of_def)

lemma hash_prev_ok:
  assumes v: "hash_view ok F n h cs" and c: "concat cs = us @ a # ws"
  shows "hash_prev F h (Some a) = Some (last_of us)"
proof -
  note d = hash_viewD [OF v]
  obtain x i vs rs where x: "hnodes h a = Some x" "i = F (hkey x) mod bucket_size h" "i < bucket_size h" "cs ! i = vs @ a # rs" "us = concat (take i cs) @ vs"
    using table_node [OF d(1) c] by blast
  have ch: "hchain (hnodes h) (buckets h ! i) (vs @ a # rs) None" using tableD(1) [OF d(1) x(3)] x(4) by (simp add: bucket_def)
  have "a \<notin> set vs" using table_distinct [OF d(1) x(3)] x(4) by auto
  moreover have p: "hchain (hnodes h) (buckets h ! i) vs (Some a)" using ch by (auto simp: hchain_append)
  ultimately have pl: "hash_prev_loop (hnodes h) a None (buckets h ! i) = Some (last (None # map Some vs), Some a)" using chain_prev [of "hnodes h" _ vs "Some a" a None] by (simp add: hash_prev_loop.simps)
  have b: "base_addr h i = Some (buckets h ! i)" "buckets h ! i \<noteq> None" using d(1) x(3) ch by (cases vs; auto simp: base_addr_def table_def)+
  show ?thesis
  proof (cases vs rule: rev_cases)
    case Nil
    then show ?thesis using x b pl p last_before_ok [OF d(1), of i] by (simp add: hash_prev_def bucket_index_def)
  next
    case (snoc vs' q)
    then obtain y where "hnodes h q = Some y" "hnext y = Some a" using p by (auto simp: chain_snoc)
    then show ?thesis using x b pl snoc by (simp add: hash_prev_def bucket_index_def last_of_def)
  qed
qed

lemma view_entries:
  assumes v: "hash_view ok F n h cs" and M: "holds_map (hnodes h) M"
  defines "kvs \<equiv> map (\<lambda>a. (nkey (hnodes h) a, nval (hnodes h) a)) (concat cs)"
  shows "distinct (map fst kvs)" "M = map_of kvs"
proof -
  note d = hash_viewD [OF v]
  have n: "0 < bucket_size h" using d(1) by (simp add: table_def)
  have "a = b" if "a \<in> set (concat cs)" "b \<in> set (concat cs)" "nkey (hnodes h) a = nkey (hnodes h) b" for a b
    using that table_key_unique [OF d(1), of a _ b] unfolding d(6) [symmetric] nkey_def by fastforce
  then have "inj_on (nkey (hnodes h)) (set (concat cs))" by (rule inj_onI)
  then show dis: "distinct (map fst kvs)" using tableD(4) [OF d(1) n] unfolding kvs_def by (simp add: comp_def distinct_map)
  have "M k = Some w \<longleftrightarrow> (k, w) \<in> set kvs" for k w
  proof -
    have "(k, w) \<in> set kvs \<longleftrightarrow> (\<exists>a \<in> dom (hnodes h). nkey (hnodes h) a = k \<and> nval (hnodes h) a = w)" unfolding kvs_def d(6) by auto
    also have "\<dots> \<longleftrightarrow> (\<exists>a x. hnodes h a = Some x \<and> hkey x = k \<and> hval x = w)"
      unfolding nkey_def nval_def dom_def by force
    finally show ?thesis using M by (simp add: holds_map_def)
  qed
  then have "M k = map_of kvs k" for k using map_of_eq_Some_iff [OF dis, of k] by (metis option.exhaust)
  then show "M = map_of kvs" by blast
qed

section \<open>The table in shared memory\<close>

text \<open>The nodes have \<open>sz\<close> bytes; the region of the buckets is none of them. \<open>n\<close> is the number of calls that the metadata block has room for.\<close>

definition hash_map :: "nat \<Rightarrow> ('k \<Rightarrow> nat) \<Rightarrow> nat \<Rightarrow> (shm, addr, 'k, 'v) shm_hash \<Rightarrow> ('k \<Rightarrow> 'v option) \<Rightarrow> bool" where
  "hash_map sz F n h M \<longleftrightarrow> (\<exists>cs. hash_view (nodes_ok sz (2, snd (buckets_ptr h))) F n h cs \<and> holds_map (hnodes h) M)"

lemma view_card: "hash_view ok F n h cs \<Longrightarrow> holds_map (hnodes h) M \<Longrightarrow> used_node_count h = card (dom M)"
proof -
  assume v: "hash_view ok F n h cs" "holds_map (hnodes h) M"
  note e = view_entries [OF v]
  have "card (dom M) = length (map fst (map (\<lambda>a. (nkey (hnodes h) a, nval (hnodes h) a)) (concat cs)))"
    using distinct_card [OF e(1)] unfolding e(2) dom_map_of_conv_image_fst by (simp add: image_image)
  then show ?thesis using hash_viewD(2) [OF v(1)] by simp
qed

lemma hash_size_pos: "0 < hash_size n"
  by (simp add: hash_size_def hash_sizes_def)

text \<open>A new table, when the manager has memory for the buckets.\<close>

lemma shm_hash_new_ok:
  assumes inv: "alloc_inv s V" and g: "grants s 0 (Suc n * 10805248)" and sz: "0 < sz" "sz + 8 \<le> 2 ^ 47" and b: "8 * hash_size k + 8 \<le> 2 ^ 47"
    and m: "malloc s (8 * hash_size k) = Some (r, t)" "addr_ok r"
  shows "\<exists>h. shm_hash_new s k = Some h \<and> hash_map sz F n h Map.empty \<and> total_node_count h = k"
proof -
  let ?b = "8 * hash_size k"
  have md: "(?b + 8) mod 2 ^ 64 = ?b + 8" using b by simp
  have "(?b + 8) mod 2 ^ 64 \<le> 2 ^ 47" using b md by simp
  moreover have "grants s 0 (n * 10805248 + 10805248)" using g by (simp add: add.commute)
  ultimately obtain p j where p: "r = (serial_no s, p + 8)" "?b + 8 \<le> j" "alloc_inv t (insert (p, j) V)" "meta_serial (user t p) = serial_no s" "grants t 0 (n * 10805248)"
    using malloc_ok [OF inv, of ?b "n * 10805248"] m unfolding md by (auto split: if_splits)
  have "live_ptr t (insert (p, j) V) ?b r" using p unfolding live_ptr_def by (intro exI [of _ p] exI [of _ j]) simp
  then obtain q where "shm_deref t r = Some q" using live_deref [OF p(3), of ?b r] hash_size_pos by auto
  then have nw: "shm_new ?b s = Some (Some r, t)" using m by (simp add: shm_new_def shm_malloc_def)
  have "nodes_ok sz (2, p + 8 + 0) n t {}" using nodes_ok_start [OF p(3), of p j 0 n sz] p(2,5) sz hash_size_pos [of k] by simp
  then show ?thesis using nw p(1) hash_size_pos [of k]
    by (auto simp: shm_hash_new_def Let_def hash_map_def hash_view_def table_def bucket_def holds_map_def intro!: exI [of _ "replicate (hash_size k) []"])
qed

text \<open>
  C27: a \<^verbatim>\<open>shm_hash\<close> is a finite map of at most \<^verbatim>\<open>total_node_count\<close> keys. With room for one more call to the allocator no operation aborts and every loop over a chain ends:
  \<^verbatim>\<open>find\<close> looks the key up; \<^verbatim>\<open>insert\<close> sets the value of the key and returns 0, or returns \<^verbatim>\<open>-ENOMEM\<close> and changes nothing when the table is full, even for a key that is present, or
  when there is no memory for a node of a new key; \<^verbatim>\<open>erase\<close> removes the key and gives its node back; a loop over the iterators visits each key once, and \<^verbatim>\<open>--\<close> undoes \<^verbatim>\<open>++\<close>;
  \<^verbatim>\<open>clear\<close>, with room for one call per key, gives all nodes back.
\<close>

theorem shm_hash_refines_map:
  assumes h: "hash_map sz F (Suc n) h M"
  shows "hash_find F h k = Some (M k) \<and>
    (\<exists>r h'. hash_insert (shm_new sz) F h k w = Some (r, h') \<and> total_node_count h' = total_node_count h \<and>
      (if total_node_count h \<le> card (dom M) \<or> k \<notin> dom M \<and> (\<exists>s. shm_new sz (hash_mem h) = Some (None, s)) then r = - ENOMEM \<and> hash_map sz F n h' M
       else r = 0 \<and> hash_map sz F n h' (M(k \<mapsto> w)))) \<and>
    (\<exists>h'. hash_erase shm_delete F h k = Some h' \<and> hash_map sz F n h' (M(k := None))) \<and>
    (\<exists>kvs. do { it \<leftarrow> hash_begin h; hash_visit F h it [] } = Some kvs \<and> distinct (map fst kvs) \<and> M = map_of kvs) \<and>
    (a \<in> dom (hnodes h) \<and> hash_next F h (Some a) = Some (Some b) \<longrightarrow> hash_prev F h (Some b) = Some (Some a)) \<and>
    (n = card (dom M) + j \<longrightarrow> (\<exists>h'. hash_clear shm_delete h = Some h' \<and> hash_map sz F j h' Map.empty))"
proof -
  obtain cs where v: "hash_view (nodes_ok sz (2, snd (buckets_ptr h))) F (Suc n) h cs" and M: "holds_map (hnodes h) M" using h by (auto simp: hash_map_def)
  note d = hash_viewD [OF v] and c = view_card [OF v M]
  have full: "hash_full h \<longleftrightarrow> total_node_count h \<le> card (dom M)" using c by (simp add: hash_full_def)
  have ins: "\<exists>r h'. hash_insert (shm_new sz) F h k w = Some (r, h') \<and> total_node_count h' = total_node_count h \<and>
      (if hash_full h \<or> k \<notin> dom M \<and> (\<exists>s. shm_new sz (hash_mem h) = Some (None, s)) then r = - ENOMEM \<and> hash_map sz F n h' M
       else r = 0 \<and> hash_map sz F n h' (M(k \<mapsto> w)))"
  proof -
    from shm.hash_insert_ok [OF v M, of k w] obtain r h' cs' where r: "hash_insert (shm_new sz) F h k w = Some (r, h')"
        "hash_view (nodes_ok sz (2, snd (buckets_ptr h))) F n h' cs'" "total_node_count h' = total_node_count h" "buckets_ptr h' = buckets_ptr h"
        "if hash_full h \<or> k \<notin> dom M \<and> (\<exists>s. shm_new sz (hash_mem h) = Some (None, s)) then r = - ENOMEM \<and> holds_map (hnodes h') M else r = 0 \<and> holds_map (hnodes h') (M(k \<mapsto> w))"
      by blast
    have hm: "hash_map sz F n h' M'" if "holds_map (hnodes h') M'" for M' using r(2,4) that by (auto simp: hash_map_def)
    show ?thesis
    proof (cases "hash_full h \<or> k \<notin> dom M \<and> (\<exists>s. shm_new sz (hash_mem h) = Some (None, s))")
      case True
      then have "r = - ENOMEM" "holds_map (hnodes h') M" using r(5) by (simp_all only: if_True)
      then show ?thesis using True r(1,3) hm by (intro exI [of _ r] exI [of _ h']) simp
    next
      case False
      then have "r = 0" "holds_map (hnodes h') (M(k \<mapsto> w))" using r(5) by (simp_all only: if_False)
      then show ?thesis using False r(1,3) hm by (intro exI [of _ r] exI [of _ h']) auto
    qed
  qed
  have er: "\<exists>h'. hash_erase shm_delete F h k = Some h' \<and> hash_map sz F n h' (M(k := None))"
    using shm.hash_erase_ok [OF v M, of k] unfolding hash_map_def by metis
  have first: "hash_begin h = Some (first_of (concat cs))" using first_from_ok [OF d(1), of 0] by (simp add: hash_begin_def)
  have it: "\<exists>kvs. do { it \<leftarrow> hash_begin h; hash_visit F h it [] } = Some kvs \<and> distinct (map fst kvs) \<and> M = map_of kvs"
    using first hash_visit_ok [OF v, of "[]" "concat cs" "[]"] view_entries [OF v M] by simp
  have pv: "hash_prev F h (Some b) = Some (Some a)" if ab: "a \<in> dom (hnodes h)" "hash_next F h (Some a) = Some (Some b)"
  proof -
    obtain us ws where u: "concat cs = us @ a # ws" using split_list [OF ab(1) [unfolded d(6)]] by blast
    obtain ws' where "ws = b # ws'" using hash_next_ok [OF v u] ab(2) by (cases ws) (auto simp: first_of_def)
    then show ?thesis using hash_prev_ok [OF v, of "us @ [a]" b ws'] u by (simp add: last_of_def)
  qed
  have cl: "\<exists>h'. hash_clear shm_delete h = Some h' \<and> hash_map sz F j h' Map.empty" if "n = card (dom M) + j"
  proof -
    have "hash_view (nodes_ok sz (2, snd (buckets_ptr h))) F (used_node_count h + j) h cs" using shm.view_less [OF v] that c by simp
    from shm.hash_clear_ok [OF this] show ?thesis unfolding hash_map_def by (auto simp: holds_map_def)
  qed
  show ?thesis by (intro conjI impI) (use hash_find_ok [OF v M] ins [unfolded full] er it pv cl in \<open>simp_all only: simp_thms\<close>)
qed

theorem shm_hash_refines_map_witness:
  "\<exists>s p t h r h'. on_create (shm_mgr_new demo_os) (Some (2 ^ 36)) ''demo'' = Some (0, s) \<and> malloc s 300000 = Some ((3, p + 8), t) \<and>
     h = \<lparr>bucket_size = 3, used_node_count = 0, total_node_count = 2, buckets_ptr = (3, p + 8), buckets = [None, None, None], hnodes = (\<lambda>_. None), hash_mem = t\<rparr> \<and>
     hash_insert (shm_new 40) nat h (7 :: int) True = Some (r, h') \<and> (r = 0 \<longrightarrow> hash_map 40 nat 7 h' [7 \<mapsto> True])"
proof -
  obtain s p t where s: "on_create (shm_mgr_new demo_os) (Some (2 ^ 36)) ''demo'' = Some (0, s)" "malloc s 300000 = Some ((3, p + 8), t)" "nodes_ok 40 (2, p + 8) 8 t {}"
    using demo_region by blast
  define h :: "(shm, addr, int, bool) shm_hash" where
    "h = \<lparr>bucket_size = 3, used_node_count = 0, total_node_count = 2, buckets_ptr = (3, p + 8), buckets = [None, None, None], hnodes = (\<lambda>_. None), hash_mem = t\<rparr>"
  have "bucket nat 3 (hnodes h) i ([None, None, None] ! i) ([[], [], []] ! i)" if "i < 3" for i
  proof -
    have "i = 0 \<or> i = 1 \<or> i = 2" using that by arith
    then show ?thesis by (auto simp: bucket_def)
  qed
  then have "hash_view (nodes_ok 40 (2, snd (buckets_ptr h))) nat (Suc 7) h [[], [], []]" using s(3) by (simp add: hash_view_def table_def h_def)
  then have "hash_map 40 nat (Suc 7) h Map.empty" unfolding hash_map_def by (auto simp: holds_map_def h_def)
  from shm_hash_refines_map [OF this, of 7 True undefined undefined 0, THEN conjunct2, THEN conjunct1] obtain r h' where
    "hash_insert (shm_new 40) nat h (7 :: int) True = Some (r, h')" "r = 0 \<longrightarrow> hash_map 40 nat 7 h' [7 \<mapsto> True]"
    by (auto simp: ENOMEM_def split: if_splits simp del: split_paired_Ex)
  then show ?thesis using s(1,2) h_def by blast
qed

end
