(* ===== verification/Option_Parser.thy ===== *)
theory Option_Parser
  imports String_Helper
begin

text \<open>
  The command line parser, \<^verbatim>\<open>src/src/server/option_parser.h\<close> and \<^verbatim>\<open>option_parser.cpp\<close>. The configurations are objects on the heap that two maps and a set refer to;
  \<open>confs\<close> is the heap, and the variables of the program that receive the values are a store of typed values. Texts that are printed are not modelled. \<open>None\<close> is a failed
  assertion, a null or dangling pointer that is followed, or an access to a variable through a pointer that has been cast to another type than that of the variable.
\<close>

section \<open>State\<close>

datatype value_type = VALUE_TYPE_HELP | VALUE_TYPE_BOOL | VALUE_TYPE_S32 | VALUE_TYPE_U32 | VALUE_TYPE_S64 | VALUE_TYPE_U64 | VALUE_TYPE_STRING

datatype opt_value = V_bool bool | V_s32 "32 word" | V_u32 "32 word" | V_s64 "64 word" | V_u64 "64 word" | V_string string

type_synonym variables = "nat \<Rightarrow> opt_value"

record option_config =
  sopt :: char
  lopt :: string
  desc :: string
  vname :: string
  required :: bool
  vtype :: value_type
  target :: "nat option"

record option_parser =
  confs :: "nat \<Rightarrow> option_config option"
  sopt2conf :: "char \<Rightarrow> nat option"
  lopt2conf :: "string \<Rightarrow> nat option"
  conf_list :: "nat set"

abbreviation no_sopt :: char where "no_sopt \<equiv> CHR 0x00"

text \<open>\<open>a\<close> is the address of the new object.\<close>

definition option_parser_new :: "nat \<Rightarrow> option_parser" where
  "option_parser_new a =
     \<lparr>confs = [a \<mapsto> \<lparr>sopt = CHR ''h'', lopt = ''help'', desc = ''display this help'', vname = [], required = False, vtype = VALUE_TYPE_HELP, target = None\<rparr>],
      sopt2conf = [CHR ''h'' \<mapsto> a], lopt2conf = [''help'' \<mapsto> a], conf_list = {a}\<rparr>"

text \<open>The overloads of \<^verbatim>\<open>set_value_type\<close>: the type of the variable decides.\<close>

fun set_value_type :: "opt_value \<Rightarrow> value_type" where
  "set_value_type (V_bool _) = VALUE_TYPE_BOOL"
| "set_value_type (V_s32 _) = VALUE_TYPE_S32"
| "set_value_type (V_u32 _) = VALUE_TYPE_U32"
| "set_value_type (V_s64 _) = VALUE_TYPE_S64"
| "set_value_type (V_u64 _) = VALUE_TYPE_U64"
| "set_value_type (V_string _) = VALUE_TYPE_STRING"


section \<open>Parsing\<close>

definition remove_option :: "option_parser \<Rightarrow> nat \<Rightarrow> option_parser option" where
  "remove_option p a = do {
     conf \<leftarrow> confs p a;
     Some (p\<lparr>sopt2conf := (if sopt conf \<noteq> no_sopt then (sopt2conf p)(sopt conf := None) else sopt2conf p),
             lopt2conf := (if lopt conf \<noteq> [] then (lopt2conf p)(lopt conf := None) else lopt2conf p),
             conf_list := conf_list p - {a}, confs := (confs p)(a := None)\<rparr>)
   }"

text \<open>What \<^verbatim>\<open>set_value\<close> does with the variable that held \<open>old\<close>; the pointer is cast to the type of the option.\<close>

definition convert_value :: "value_type \<Rightarrow> string \<Rightarrow> opt_value \<Rightarrow> (int \<times> opt_value) option" where
  "convert_value t arg old = (case (t, old) of
       (VALUE_TYPE_S32, V_s32 w) \<Rightarrow> (case from_string_s32 (Some arg) w of (ret, v) \<Rightarrow> Some (ret, V_s32 v))
     | (VALUE_TYPE_U32, V_u32 w) \<Rightarrow> (case from_string_u32 (Some arg) w of (ret, v) \<Rightarrow> Some (ret, V_u32 v))
     | (VALUE_TYPE_S64, V_s64 w) \<Rightarrow> (case from_string_s64 (Some arg) w of (ret, v) \<Rightarrow> Some (ret, V_s64 v))
     | (VALUE_TYPE_U64, V_u64 w) \<Rightarrow> (case from_string_u64 (Some arg) w of (ret, v) \<Rightarrow> Some (ret, V_u64 v))
     | (VALUE_TYPE_STRING, V_string _) \<Rightarrow> Some (0, V_string arg)
     | _ \<Rightarrow> None)"

definition set_value :: "option_config \<Rightarrow> string \<Rightarrow> variables \<Rightarrow> (int \<times> variables) option" where
  "set_value conf arg st = do {
     a \<leftarrow> (if vtype conf = VALUE_TYPE_HELP \<or> vtype conf = VALUE_TYPE_BOOL then None else target conf);
     (ret, v) \<leftarrow> convert_value (vtype conf) arg (st a);
     Some (ret, st(a := v))
   }"

text \<open>The flags: the variable is written through a pointer to \<^verbatim>\<open>bool\<close>.\<close>

definition set_flag :: "option_config \<Rightarrow> variables \<Rightarrow> variables option" where
  "set_flag conf st = do { v \<leftarrow> target conf; case st v of V_bool _ \<Rightarrow> Some (st(v := V_bool True)) | _ \<Rightarrow> None }"

text \<open>The part before the first equals sign, and the part behind it when there is one.\<close>

definition split_eq :: "string \<Rightarrow> string \<times> string option" where
  "split_eq arg = (takeWhile (\<lambda>c. c \<noteq> CHR ''='') arg, case dropWhile (\<lambda>c. c \<noteq> CHR ''='') arg of [] \<Rightarrow> None | _ # v \<Rightarrow> Some v)"

definition parse_long :: "option_parser \<Rightarrow> variables \<Rightarrow> string \<Rightarrow> (int \<times> option_parser \<times> variables) option" where
  "parse_long p st arg =
     (let (name, value) = split_eq arg; lo = drop 2 name in
      if length lo < 2 then Some (0, p, st)
      else case lopt2conf p lo of
        None \<Rightarrow> Some (0, p, st)
      | Some a \<Rightarrow> do {
          conf \<leftarrow> confs p a;
          if vtype conf = VALUE_TYPE_BOOL then
            if value \<noteq> None then Some (- EINVAL, p, st)
            else do { st \<leftarrow> set_flag conf st; p \<leftarrow> remove_option p a; Some (0, p, st) }
          else case value of
            None \<Rightarrow> Some (- EINVAL, p, st)
          | Some v \<Rightarrow>
              if v = [] then Some (- EINVAL, p, st)
              else do {
                (ret, st) \<leftarrow> set_value conf v st;
                if ret \<noteq> 0 then Some (ret, p, st)
                else do { p \<leftarrow> remove_option p a; Some (0, p, st) }
              }
        })"

text \<open>
  The letters of a short option; \<open>rest\<close> are the arguments behind it. The second result tells that the next argument is used as a value.
\<close>

fun short_loop :: "option_parser \<Rightarrow> variables \<Rightarrow> string \<Rightarrow> string list \<Rightarrow> (int \<times> bool \<times> option_parser \<times> variables) option" where
  "short_loop p st [] rest = Some (0, False, p, st)"
| "short_loop p st (c # cs) rest = (case sopt2conf p c of
       None \<Rightarrow> short_loop p st cs rest
     | Some a \<Rightarrow> do {
         conf \<leftarrow> confs p a;
         if vtype conf = VALUE_TYPE_BOOL then do { st \<leftarrow> set_flag conf st; p \<leftarrow> remove_option p a; short_loop p st cs rest }
         else if cs \<noteq> [] then Some (- EINVAL, False, p, st)
         else case rest of
           [] \<Rightarrow> Some (- EINVAL, False, p, st)
         | arg # _ \<Rightarrow> do {
             (ret, st) \<leftarrow> set_value conf arg st;
             if ret \<noteq> 0 then Some (ret, False, p, st)
             else do { p \<leftarrow> remove_option p a; Some (0, True, p, st) }
           }
       })"

definition parse_short :: "option_parser \<Rightarrow> variables \<Rightarrow> string \<Rightarrow> string list \<Rightarrow> (int \<times> bool \<times> option_parser \<times> variables) option" where
  "parse_short p st arg rest = short_loop p st (drop 1 arg) rest"

function parse_args :: "option_parser \<Rightarrow> variables \<Rightarrow> string list \<Rightarrow> (int \<times> option_parser \<times> variables) option" where
  "parse_args p st [] = Some (0, p, st)"
| "parse_args p st (arg # rest) =
     (if length arg < 2 \<or> arg ! 0 \<noteq> CHR ''-'' then parse_args p st rest
      else if arg ! 1 = CHR ''-'' then
        (case parse_long p st arg of None \<Rightarrow> None | Some (ret, p, st) \<Rightarrow> if ret \<noteq> 0 then Some (ret, p, st) else parse_args p st rest)
      else (case parse_short p st arg rest of None \<Rightarrow> None | Some (ret, used, p, st) \<Rightarrow>
        if ret \<noteq> 0 then Some (ret, p, st) else parse_args p st (if used then tl rest else rest)))"
  by pat_completeness auto
termination by (relation "measure (\<lambda>(p, st, args). length args)") auto

datatype outcome = Returned int | Exited

definition parse :: "option_parser \<Rightarrow> variables \<Rightarrow> string list \<Rightarrow> bool \<Rightarrow> (outcome \<times> option_parser \<times> variables) option" where
  "parse p st argv help_handler =
     (let args = tl argv in
      if ''-h'' \<in> set args \<or> ''--help'' \<in> set args then Some (if help_handler then Returned 0 else Exited, p, st)
      else do {
        (ret, p, st) \<leftarrow> parse_args p st args;
        sk_assert (ret \<noteq> 0 \<or> (\<forall>a \<in> conf_list p. confs p a \<noteq> None));
        if ret \<noteq> 0 then Some (Returned ret, p, st)
        else if \<exists>a \<in> conf_list p. required (the (confs p a)) then Some (Returned (- EINVAL), p, st)
        else Some (Returned 0, p, st)
      })"

section \<open>Invariant\<close>

text \<open>The maps and the set refer to the configurations that are there, each under its own names.\<close>

definition parser_ok :: "option_parser \<Rightarrow> bool" where
  "parser_ok p \<longleftrightarrow>
     (\<forall>c a. sopt2conf p c = Some a \<longrightarrow> c \<noteq> no_sopt \<and> (\<exists>cf. confs p a = Some cf \<and> sopt cf = c)) \<and>
     (\<forall>l a. lopt2conf p l = Some a \<longrightarrow> l = [] \<or> (\<exists>cf. confs p a = Some cf \<and> lopt cf = l)) \<and>
     (\<forall>a. a \<in> conf_list p \<longleftrightarrow> confs p a \<noteq> None) \<and>
     (\<forall>a cf. confs p a = Some cf \<longrightarrow> (sopt cf \<noteq> no_sopt \<longrightarrow> sopt2conf p (sopt cf) = Some a) \<and> (lopt cf \<noteq> [] \<longrightarrow> lopt2conf p (lopt cf) = Some a)) \<and>
     (\<forall>a cf. confs p a = Some cf \<longrightarrow> (if vtype cf = VALUE_TYPE_HELP then sopt cf = CHR ''h'' \<and> lopt cf = ''help'' else target cf \<noteq> None)) \<and>
     (\<exists>a cf. confs p a = Some cf \<and> vtype cf = VALUE_TYPE_HELP)"

lemma parser_okD:
  assumes "parser_ok p"
  shows "sopt2conf p c = Some a \<Longrightarrow> c \<noteq> no_sopt \<and> (\<exists>cf. confs p a = Some cf \<and> sopt cf = c)"
    "lopt2conf p l = Some a \<Longrightarrow> l \<noteq> [] \<Longrightarrow> \<exists>cf. confs p a = Some cf \<and> lopt cf = l"
    "a \<in> conf_list p \<longleftrightarrow> confs p a \<noteq> None"
    "confs p a = Some cf \<Longrightarrow> sopt cf \<noteq> no_sopt \<Longrightarrow> sopt2conf p (sopt cf) = Some a"
    "confs p a = Some cf \<Longrightarrow> lopt cf \<noteq> [] \<Longrightarrow> lopt2conf p (lopt cf) = Some a"
    "confs p a = Some cf \<Longrightarrow> vtype cf = VALUE_TYPE_HELP \<Longrightarrow> sopt cf = CHR ''h'' \<and> lopt cf = ''help''"
    "confs p a = Some cf \<Longrightarrow> vtype cf \<noteq> VALUE_TYPE_HELP \<Longrightarrow> target cf \<noteq> None"
    "\<exists>a cf. confs p a = Some cf \<and> vtype cf = VALUE_TYPE_HELP"
proof -
  show "confs p a = Some cf \<Longrightarrow> vtype cf = VALUE_TYPE_HELP \<Longrightarrow> sopt cf = CHR ''h'' \<and> lopt cf = ''help''"
    "confs p a = Some cf \<Longrightarrow> vtype cf \<noteq> VALUE_TYPE_HELP \<Longrightarrow> target cf \<noteq> None"
    using assms unfolding parser_ok_def by presburger+
qed (use assms in \<open>unfold parser_ok_def, blast+\<close>)

text \<open>The names of the help option belong to it alone.\<close>

lemma help_names:
  assumes "parser_ok p" "confs p a = Some cf" "vtype cf \<noteq> VALUE_TYPE_HELP"
  shows "sopt cf \<noteq> CHR ''h''" "lopt cf \<noteq> ''help''"
proof -
  obtain b hf where h: "confs p b = Some hf" "vtype hf = VALUE_TYPE_HELP" using parser_okD(8) [OF assms(1)] by blast
  then have n: "sopt hf = CHR ''h''" "lopt hf = ''help''" using parser_okD(6) [OF assms(1)] by blast+
  have "b \<noteq> a" using h assms by auto
  moreover have "sopt2conf p (CHR ''h'') = Some b" using parser_okD(4) [OF assms(1) h(1)] n by simp
  moreover have "lopt2conf p ''help'' = Some b" using parser_okD(5) [OF assms(1) h(1)] n by simp
  ultimately show "sopt cf \<noteq> CHR ''h''" "lopt cf \<noteq> ''help''"
    using parser_okD(4,5) [OF assms(1,2)] by force+
qed

lemma parser_new_ok: "parser_ok (option_parser_new a)"
  by (simp add: parser_ok_def option_parser_new_def)

text \<open>What is left when the configuration at \<open>a\<close> has been used.\<close>

definition without :: "option_parser \<Rightarrow> nat \<Rightarrow> option_parser" where
  "without p a = the (remove_option p a)"

lemma remove_option_ok:
  assumes ok: "parser_ok p" and c: "confs p a = Some cf" "vtype cf \<noteq> VALUE_TYPE_HELP"
  shows "remove_option p a = Some (without p a)" "parser_ok (without p a)" "confs (without p a) = (confs p)(a := None)"
proof -
  note d = parser_okD [OF ok]
  show r: "remove_option p a = Some (without p a)" using c by (simp add: without_def remove_option_def)
  let ?p = "without p a"
  have f: "confs ?p = (confs p)(a := None)" "conf_list ?p = conf_list p - {a}" "sopt2conf ?p = (if sopt cf \<noteq> no_sopt then (sopt2conf p)(sopt cf := None) else sopt2conf p)"
      "lopt2conf ?p = (if lopt cf \<noteq> [] then (lopt2conf p)(lopt cf := None) else lopt2conf p)"
    unfolding without_def remove_option_def using c(1) by simp_all
  then show "confs ?p = (confs p)(a := None)" by simp
  have s: "sopt2conf ?p x = Some b \<longleftrightarrow> sopt2conf p x = Some b \<and> b \<noteq> a" for x b
    using d(1) [of x b] d(4) [OF c(1)] c(1) f(3) by auto
  have l: "lopt2conf ?p x = Some b \<Longrightarrow> lopt2conf p x = Some b \<and> (x = [] \<or> b \<noteq> a)" "lopt2conf p x = Some b \<Longrightarrow> x \<noteq> [] \<Longrightarrow> b \<noteq> a \<Longrightarrow> lopt2conf ?p x = Some b" for x b
    using d(2) [of x b] d(5) [OF c(1)] c(1) f(4) by (auto split: if_splits)
  show "parser_ok ?p"
    unfolding parser_ok_def
  proof (intro conjI allI impI)
    fix x b assume "sopt2conf ?p x = Some b"
    then show "x \<noteq> no_sopt" "\<exists>cf. confs ?p b = Some cf \<and> sopt cf = x" using s d(1) [of x b] f(1) by auto
  next
    fix x b assume "lopt2conf ?p x = Some b"
    then show "x = [] \<or> (\<exists>cf. confs ?p b = Some cf \<and> lopt cf = x)" using l(1) d(2) [of x b] f(1) by auto
  next
    fix b show "(b \<in> conf_list ?p) = (confs ?p b \<noteq> None)" using d(3) f(1,2) by auto
  next
    fix b x assume x: "confs ?p b = Some x"
    then have b: "b \<noteq> a" "confs p b = Some x" using f(1) by (auto split: if_splits)
    show "sopt x \<noteq> no_sopt \<Longrightarrow> sopt2conf ?p (sopt x) = Some b" using s d(4) [OF b(2)] b(1) by simp
    show "lopt x \<noteq> [] \<Longrightarrow> lopt2conf ?p (lopt x) = Some b" using l(2) d(5) [OF b(2)] b(1) by simp
    show "if vtype x = VALUE_TYPE_HELP then sopt x = CHR ''h'' \<and> lopt x = ''help'' else target x \<noteq> None" using d(6,7) [OF b(2)] by simp
  next
    show "\<exists>a cf. confs ?p a = Some cf \<and> vtype cf = VALUE_TYPE_HELP" using d(8) f(1) c by (metis fun_upd_other option.inject)
  qed
qed

section \<open>Types\<close>

text \<open>Every option refers to a variable of the type it records; parsing keeps the types of all variables.\<close>

definition typed :: "option_parser \<Rightarrow> variables \<Rightarrow> bool" where
  "typed p st \<longleftrightarrow> (\<forall>a cf. confs p a = Some cf \<and> vtype cf \<noteq> VALUE_TYPE_HELP \<longrightarrow> (\<exists>v. target cf = Some v \<and> set_value_type (st v) = vtype cf))"

definition same_types :: "variables \<Rightarrow> variables \<Rightarrow> bool" where
  "same_types st st' \<longleftrightarrow> (\<forall>v. set_value_type (st' v) = set_value_type (st v))"

lemma same_types_refl [simp]: "same_types st st"
  by (simp add: same_types_def)

lemma same_types_trans: "same_types st st' \<Longrightarrow> same_types st' st'' \<Longrightarrow> same_types st st''"
  by (simp add: same_types_def)

lemma typedD: "typed p st \<Longrightarrow> confs p a = Some cf \<Longrightarrow> vtype cf \<noteq> VALUE_TYPE_HELP \<Longrightarrow> \<exists>v. target cf = Some v \<and> set_value_type (st v) = vtype cf"
  by (auto simp: typed_def)

lemma typed_mono: "typed p st \<Longrightarrow> same_types st st' \<Longrightarrow> (\<And>a cf. confs p' a = Some cf \<Longrightarrow> confs p a = Some cf) \<Longrightarrow> typed p' st'"
  by (fastforce simp: typed_def same_types_def)

lemma set_value_type_no_help [simp]: "set_value_type v \<noteq> VALUE_TYPE_HELP"
  by (cases v) simp_all

lemma convert_value_type:
  assumes "set_value_type old = t" "t \<noteq> VALUE_TYPE_BOOL"
  shows "\<exists>ret v. convert_value t arg old = Some (ret, v) \<and> set_value_type v = t"
  using assms by (cases old) (auto simp: convert_value_def split: prod.split)

lemma set_flag_typed:
  assumes "typed p st" "confs p a = Some cf" "vtype cf = VALUE_TYPE_BOOL"
  shows "\<exists>v. target cf = Some v \<and> set_flag cf st = Some (st(v := V_bool True)) \<and> same_types st (st(v := V_bool True))"
proof -
  obtain v where v: "target cf = Some v" "set_value_type (st v) = VALUE_TYPE_BOOL" using typedD [OF assms(1,2)] assms(3) by auto
  then show ?thesis by (cases "st v") (auto simp: set_flag_def same_types_def)
qed

lemma set_value_typed:
  assumes "typed p st" "confs p a = Some cf" "vtype cf \<noteq> VALUE_TYPE_HELP" "vtype cf \<noteq> VALUE_TYPE_BOOL"
  shows "\<exists>ret st'. set_value cf arg st = Some (ret, st') \<and> same_types st st'"
proof -
  obtain v where v: "target cf = Some v" "set_value_type (st v) = vtype cf" using typedD [OF assms(1-3)] by blast
  then show ?thesis using convert_value_type [OF v(2) assms(4), of arg] assms(3,4) by (auto simp: set_value_def same_types_def)
qed




section \<open>Parsing always returns\<close>

text \<open>An argument that the loop takes for a use of the help option: a cluster of letters with an \<^verbatim>\<open>h\<close>, or \<^verbatim>\<open>--help\<close>, with a value or without.\<close>

definition mentions_help :: "string \<Rightarrow> bool" where
  "mentions_help arg \<longleftrightarrow> 2 \<le> length arg \<and> arg ! 0 = CHR ''-'' \<and>
     (if arg ! 1 = CHR ''-'' then drop 2 (fst (split_eq arg)) = ''help'' else CHR ''h'' \<in> set (drop 1 arg))"

text \<open>A request for help, which is served before the loop.\<close>

definition help_requested :: "string list \<Rightarrow> bool" where
  "help_requested args \<longleftrightarrow> ''-h'' \<in> set args \<or> ''--help'' \<in> set args"

abbreviation kept :: "option_parser \<Rightarrow> variables \<Rightarrow> variables \<Rightarrow> bool" where
  "kept p' st st' \<equiv> parser_ok p' \<and> typed p' st' \<and> same_types st st'"

lemma kept_trans: "same_types st st' \<Longrightarrow> kept p st' st'' \<Longrightarrow> kept p st st''"
  by (auto intro: same_types_trans)

lemma without_typed:
  assumes "parser_ok p" "typed p st" "confs p a = Some cf" "vtype cf \<noteq> VALUE_TYPE_HELP" "same_types st st'"
  shows "kept (without p a) st st'"
proof -
  have "typed (without p a) st'" by (rule typed_mono [OF assms(2,5)]) (simp add: remove_option_ok(3) [OF assms(1,3,4)] split: if_splits)
  then show ?thesis using remove_option_ok(2) [OF assms(1,3,4)] assms(5) by blast
qed

lemma parse_long_ok:
  assumes ok: "parser_ok p" "typed p st" and h: "drop 2 (fst (split_eq arg)) \<noteq> ''help''"
  shows "\<exists>ret p' st'. parse_long p st arg = Some (ret, p', st') \<and> kept p' st st'"
proof -
  obtain name val where sp: "split_eq arg = (name, val)" by (cases "split_eq arg")
  show ?thesis
  proof (cases "length (drop 2 name) < 2 \<or> lopt2conf p (drop 2 name) = None")
    case True
    then show ?thesis using ok sp by (auto simp: parse_long_def)
  next
    case False
    then obtain a cf where a: "lopt2conf p (drop 2 name) = Some a" "confs p a = Some cf" "lopt cf = drop 2 name"
      using parser_okD(2) [OF ok(1), of "drop 2 name"] by fastforce
    have nh: "vtype cf \<noteq> VALUE_TYPE_HELP" using parser_okD(6) [OF ok(1) a(2)] a(3) h sp by auto
    note r = remove_option_ok(1) [OF ok(1) a(2) nh]
    note w = without_typed [OF ok a(2) nh]
    show ?thesis
    proof (cases "vtype cf = VALUE_TYPE_BOOL")
      case True
      then obtain st' where "set_flag cf st = Some st'" "same_types st st'" using set_flag_typed [OF ok(2) a(2)] by blast
      then show ?thesis using True False sp a(1,2) r w [of st'] ok by (cases val) (auto simp: parse_long_def)
    next
      case nb: False
      show ?thesis
      proof (cases val)
        case None
        then show ?thesis using False nb sp a(1,2) ok by (auto simp: parse_long_def)
      next
        case (Some x)
        obtain ret st' where st': "set_value cf x st = Some (ret, st')" "same_types st st'" using set_value_typed [OF ok(2) a(2) nh nb] by blast
        then have "kept p st st'" using ok typed_mono [OF ok(2) st'(2)] by auto
        then show ?thesis using st' w [of st'] False nb sp a(1,2) r ok Some by (cases "x = []"; cases "ret = 0") (auto simp: parse_long_def)
      qed
    qed
  qed
qed

lemma short_loop_ok:
  assumes "parser_ok p" "typed p st" "CHR ''h'' \<notin> set cs"
  shows "\<exists>ret used p' st'. short_loop p st cs rest = Some (ret, used, p', st') \<and> kept p' st st'"
  using assms
proof (induction cs arbitrary: p st)
  case (Cons c cs)
  show ?case
  proof (cases "sopt2conf p c")
    case None
    then show ?thesis using Cons by simp
  next
    case (Some a)
    then obtain cf where a: "confs p a = Some cf" "sopt cf = c" using parser_okD(1) [OF Cons.prems(1)] by blast
    have nh: "vtype cf \<noteq> VALUE_TYPE_HELP" using parser_okD(6) [OF Cons.prems(1) a(1)] a(2) Cons.prems(3) by auto
    note r = remove_option_ok(1) [OF Cons.prems(1) a(1) nh]
    note w = without_typed [OF Cons.prems(1,2) a(1) nh]
    show ?thesis
    proof (cases "vtype cf = VALUE_TYPE_BOOL")
      case True
      then obtain st1 where st1: "set_flag cf st = Some st1" "same_types st st1" using set_flag_typed [OF Cons.prems(2) a(1)] by blast
      then obtain ret used p' st' where "short_loop (without p a) st1 cs rest = Some (ret, used, p', st')" "kept p' st1 st'"
        using Cons.IH [of "without p a" st1] w [OF st1(2)] Cons.prems(3) by auto
      then show ?thesis using Some a(1) True st1 r kept_trans [OF st1(2)] by simp
    next
      case nb: False
      show ?thesis
      proof (cases "cs = [] \<and> rest \<noteq> []")
        case False
        then show ?thesis using Some a(1) nb Cons.prems(1,2) by (cases rest) auto
      next
        case True
        then obtain x xs where x: "cs = []" "rest = x # xs" by (cases rest) auto
        obtain ret st' where st': "set_value cf x st = Some (ret, st')" "same_types st st'" using set_value_typed [OF Cons.prems(2) a(1) nh nb] by blast
        then have "kept p st st'" using Cons.prems typed_mono [OF Cons.prems(2) st'(2)] by auto
        then show ?thesis using Some a(1) nb x r st' w [of st'] by (cases "ret = 0") auto
      qed
    qed
  qed
qed (auto intro: exI [of _ False])

lemma parse_args_ok:
  assumes "parser_ok p" "typed p st" "\<forall>arg \<in> set args. \<not> mentions_help arg"
  shows "\<exists>ret p' st'. parse_args p st args = Some (ret, p', st') \<and> kept p' st st'"
  using assms
proof (induction p st args rule: parse_args.induct)
  case (2 p st arg rest)
  have sub: "\<forall>arg \<in> set (if u then tl rest else rest). \<not> mentions_help arg" for u using "2.prems"(3) by (cases rest) auto
  consider "length arg < 2 \<or> arg ! 0 \<noteq> CHR ''-''" | "\<not> (length arg < 2 \<or> arg ! 0 \<noteq> CHR ''-'')" "arg ! 1 = CHR ''-''"
    | "\<not> (length arg < 2 \<or> arg ! 0 \<noteq> CHR ''-'')" "arg ! 1 \<noteq> CHR ''-''" by blast
  then show ?case
  proof cases
    case 1
    then show ?thesis using "2.IH"(1) [OF 1 "2.prems"(1,2)] sub [of False] by auto
  next
    case b: 2
    then have "drop 2 (fst (split_eq arg)) \<noteq> ''help''" using "2.prems"(3) by (auto simp: mentions_help_def not_less)
    then obtain ret p' st' where l: "parse_long p st arg = Some (ret, p', st')" "kept p' st st'" using parse_long_ok [OF "2.prems"(1,2)] by blast
    show ?thesis
    proof (cases "ret = 0")
      case True
      then obtain ret' p'' st'' where "parse_args p' st' rest = Some (ret', p'', st'')" "kept p'' st' st''" using "2.IH"(2) [OF b l(1) refl refl] l(2) sub [of False] by auto
      then show ?thesis using b l(1) True kept_trans [of st st' p'' st''] l(2) by auto
    next
      case False
      then show ?thesis using b l by auto
    qed
  next
    case c: 3
    then have "CHR ''h'' \<notin> set (drop 1 arg)" using "2.prems"(3) by (auto simp: mentions_help_def not_less)
    then obtain ret u p' st' where l: "parse_short p st arg rest = Some (ret, u, p', st')" "kept p' st st'"
      using short_loop_ok [OF "2.prems"(1,2)] unfolding parse_short_def by blast
    show ?thesis
    proof (cases "ret = 0")
      case True
      then obtain ret' p'' st'' where "parse_args p' st' (if u then tl rest else rest) = Some (ret', p'', st'')" "kept p'' st' st''"
        using "2.IH"(3) [OF c l(1) refl refl refl] l(2) sub [of u] by blast
      then show ?thesis using c l(1) True kept_trans [of st st' p'' st''] l(2) by auto
    next
      case False
      then show ?thesis using c l by auto
    qed
  qed
qed auto

text \<open>
  C34: Parsing a command line returns, whatever options and values it has, provided that it has \<^verbatim>\<open>-h\<close> or \<^verbatim>\<open>--help\<close> as an argument, or that no argument is a cluster of short options with the
  letter \<^verbatim>\<open>h\<close> or \<^verbatim>\<open>--help\<close> with a value. A request for help without a handler, and nothing else, ends the process. No variable is accessed as one of another type: all variables keep their
  types, the parser stays well-formed, and its options still fit their variables.
\<close>

theorem parse_returns:
  assumes "parser_ok p" and "typed p st" and "help_requested (tl argv) \<or> (\<forall>arg \<in> set (tl argv). \<not> mentions_help arg)"
  shows "\<exists>out p' st'. parse p st argv hh = Some (out, p', st') \<and> (out = Exited \<longleftrightarrow> help_requested (tl argv) \<and> \<not> hh) \<and> parser_ok p' \<and> typed p' st' \<and> same_types st st'"
proof (cases "help_requested (tl argv)")
  case True
  then show ?thesis using assms(1,2) by (auto simp: parse_def Let_def help_requested_def)
next
  case False
  then obtain ret p' st' where r: "parse_args p st (tl argv) = Some (ret, p', st')" "kept p' st st'" using parse_args_ok [OF assms(1,2)] assms(3) by blast
  have "\<forall>a \<in> conf_list p'. confs p' a \<noteq> None" using parser_okD(3) [of p'] r(2) by blast
  then show ?thesis using r False by (auto simp: parse_def Let_def help_requested_def)
qed

theorem parse_returns_witness:
  "\<exists>out p' st'. parse (option_parser_new 0) (\<lambda>_. V_bool False) [''prog'', ''-vh'', ''--name=5'', ''--help'', ''file''] True = Some (out, p', st') \<and> out \<noteq> Exited \<and> parser_ok p' \<and> typed p' st'"
proof -
  have t: "typed (option_parser_new 0) (\<lambda>_. V_bool False)" by (simp add: typed_def option_parser_new_def)
  have h: "help_requested (tl [''prog'', ''-vh'', ''--name=5'', ''--help'', ''file''])" by (simp add: help_requested_def)
  show ?thesis using parse_returns [OF parser_new_ok t disjI1 [OF h], of True] by blast
qed

text \<open>The help option among other letters, followed by another argument, ends in an assertion; so does a value for it.\<close>

lemma help_in_cluster_aborts:
  "parse (option_parser_new 0) st [''prog'', ''-vh'', ''x''] hh = None" "parse (option_parser_new 0) st [''prog'', ''--help=x''] hh = None"
  by (simp_all add: parse_def option_parser_new_def parse_short_def parse_long_def split_eq_def set_value_def)

section \<open>What a command line means\<close>

text \<open>A variable of a type, as it is before a conversion writes it; its value does not matter.\<close>

fun initial :: "value_type \<Rightarrow> opt_value" where
  "initial VALUE_TYPE_S32 = V_s32 0"
| "initial VALUE_TYPE_U32 = V_u32 0"
| "initial VALUE_TYPE_S64 = V_s64 0"
| "initial VALUE_TYPE_U64 = V_u64 0"
| "initial VALUE_TYPE_STRING = V_string []"
| "initial _ = V_bool False"

text \<open>
  A use of the option at \<open>a\<close>: by its long or its short name, with a text when it is not a flag. Every use is written as one or two arguments.
\<close>

type_synonym use = "nat \<times> bool \<times> string"

definition conf_of :: "option_parser \<Rightarrow> use \<Rightarrow> option_config" where "conf_of p u = the (confs p (fst u))"

definition render :: "option_parser \<Rightarrow> use \<Rightarrow> string list" where
  "render p u = (case u of (a, long, text) \<Rightarrow> let cf = conf_of p u in
     if vtype cf = VALUE_TYPE_BOOL then [if long then ''--'' @ lopt cf else [CHR ''-'', sopt cf]]
     else if long then [''--'' @ lopt cf @ ''='' @ text] else [[CHR ''-'', sopt cf], text])"

definition meaning :: "option_config \<Rightarrow> string \<Rightarrow> opt_value option" where
  "meaning cf text = (if vtype cf = VALUE_TYPE_BOOL then Some (V_bool True) else
     case convert_value (vtype cf) text (initial (vtype cf)) of Some (ret, v) \<Rightarrow> if ret = 0 then Some v else None | None \<Rightarrow> None)"

definition usable :: "option_parser \<Rightarrow> use \<Rightarrow> bool" where
  "usable p u = (case u of (a, long, text) \<Rightarrow> case confs p a of None \<Rightarrow> False | Some cf \<Rightarrow>
     meaning cf text \<noteq> None \<and> vtype cf \<noteq> VALUE_TYPE_HELP \<and>
     (if long then 2 \<le> length (lopt cf) \<and> CHR ''='' \<notin> set (lopt cf) \<and> text \<noteq> []
      else sopt cf \<noteq> no_sopt \<and> sopt cf \<noteq> CHR ''-'' \<and> text \<noteq> ''-h'' \<and> text \<noteq> ''--help''))"

definition assign :: "option_parser \<Rightarrow> use \<Rightarrow> variables \<Rightarrow> variables" where
  "assign p u st = st(the (target (conf_of p u)) := the (meaning (conf_of p u) (snd (snd u))))"

lemma convert_old:
  assumes "convert_value t text (initial t) = Some (ret, v)" "set_value_type old = t"
  shows "convert_value t text old = Some (ret, v)"
  using assms by (cases old) (auto simp: convert_value_def from_string_s32_def from_string_u32_def from_string_s64_def from_string_u64_def convert_def split: prod.splits)

lemma set_value_meaning:
  assumes "meaning cf text = Some v" "vtype cf \<noteq> VALUE_TYPE_BOOL" "vtype cf \<noteq> VALUE_TYPE_HELP" "target cf = Some t" "set_value_type (st t) = vtype cf"
  shows "set_value cf text st = Some (0, st(t := v))"
proof -
  have "convert_value (vtype cf) text (initial (vtype cf)) = Some (0, v)" using assms(1,2) by (auto simp: meaning_def split: option.splits prod.splits if_splits)
  from convert_old [OF this assms(5)] show ?thesis using assms(2-4) by (simp add: set_value_def)
qed

lemma usableD:
  assumes ok: "parser_ok p" and u: "usable p (a, long, text)"
  obtains cf t v where "confs p a = Some cf" "target cf = Some t" "meaning cf text = Some v" "vtype cf \<noteq> VALUE_TYPE_HELP" "\<And>st. assign p (a, long, text) st = st(t := v)"
    "conf_of p (a, long, text) = cf"
    "long \<Longrightarrow> 2 \<le> length (lopt cf) \<and> CHR ''='' \<notin> set (lopt cf) \<and> text \<noteq> [] \<and> lopt2conf p (lopt cf) = Some a"
    "\<not> long \<Longrightarrow> sopt cf \<noteq> CHR ''-'' \<and> text \<noteq> ''-h'' \<and> text \<noteq> ''--help'' \<and> sopt2conf p (sopt cf) = Some a"
proof -
  obtain cf v where cf: "confs p a = Some cf" "meaning cf text = Some v" "vtype cf \<noteq> VALUE_TYPE_HELP"
      "if long then 2 \<le> length (lopt cf) \<and> CHR ''='' \<notin> set (lopt cf) \<and> text \<noteq> []
       else sopt cf \<noteq> no_sopt \<and> sopt cf \<noteq> CHR ''-'' \<and> text \<noteq> ''-h'' \<and> text \<noteq> ''--help''"
    using u by (auto simp: usable_def split: option.splits)
  obtain t where t: "target cf = Some t" using parser_okD(7) [OF ok cf(1,3)] by auto
  have "long \<Longrightarrow> lopt cf \<noteq> []" using cf(4) by auto
  then show ?thesis
    by (intro that [OF cf(1) t cf(2,3)]) (use cf t parser_okD(4,5) [OF ok cf(1)] in \<open>auto simp: assign_def conf_of_def\<close>)
qed

lemma parse_use:
  assumes ok: "parser_ok p" "typed p st" and u: "usable p (a, long, text)"
  shows "same_types st (assign p (a, long, text) st) \<and> parse_args p st (render p (a, long, text) @ rest) = parse_args (without p a) (assign p (a, long, text) st) rest"
proof -
  obtain cf t v where cf: "confs p a = Some cf" "target cf = Some t" "meaning cf text = Some v" "vtype cf \<noteq> VALUE_TYPE_HELP"
      "\<And>st. assign p (a, long, text) st = st(t := v)" "conf_of p (a, long, text) = cf"
      "long \<Longrightarrow> 2 \<le> length (lopt cf) \<and> CHR ''='' \<notin> set (lopt cf) \<and> text \<noteq> [] \<and> lopt2conf p (lopt cf) = Some a"
      "\<not> long \<Longrightarrow> sopt cf \<noteq> CHR ''-'' \<and> text \<noteq> ''-h'' \<and> text \<noteq> ''--help'' \<and> sopt2conf p (sopt cf) = Some a"
    by (rule usableD [OF ok(1) u]) blast
  note r = remove_option_ok(1) [OF ok(1) cf(1,4)]
  have ty: "set_value_type (st t) = vtype cf" using typedD [OF ok(2) cf(1,4)] cf(2) by simp
  have bool: "v = V_bool True" if "vtype cf = VALUE_TYPE_BOOL" using cf(3) that by (simp add: meaning_def)
  have sv: "set_value cf text st = Some (0, st(t := v))" if "vtype cf \<noteq> VALUE_TYPE_BOOL" using set_value_meaning [where st = st, OF cf(3) that cf(4,2) ty] .
  have flag: "set_flag cf st = Some (st(t := v))" if "vtype cf = VALUE_TYPE_BOOL" using cf(2) ty that bool [OF that] by (cases "st t") (auto simp: set_flag_def)
  have "same_types st (st(t := v))"
  proof (cases "vtype cf = VALUE_TYPE_BOOL")
    case True
    then show ?thesis using ty bool by (simp add: same_types_def)
  next
    case False
    then show ?thesis using sv set_value_typed [OF ok(2) cf(1,4) False, of "text"] by auto
  qed
  moreover have "parse_args p st (render p (a, long, text) @ rest) = parse_args (without p a) (st(t := v)) rest"
  proof (cases long)
    case True
    then have l: "2 \<le> length (lopt cf)" "CHR ''='' \<notin> set (lopt cf)" "text \<noteq> []" "lopt2conf p (lopt cf) = Some a" using cf(7) by auto
    have s1: "split_eq (''--'' @ lopt cf) = (''--'' @ lopt cf, None)" and s2: "split_eq (''--'' @ lopt cf @ ''='' @ text) = (''--'' @ lopt cf, Some text)"
    proof -
      have "takeWhile (\<lambda>c. c \<noteq> CHR ''='') (lopt cf) = lopt cf" "dropWhile (\<lambda>c. c \<noteq> CHR ''='') (lopt cf) = []"
        using l(2) by (auto simp: takeWhile_eq_all_conv)
      moreover have "takeWhile (\<lambda>c. c \<noteq> CHR ''='') (lopt cf @ ''='' @ text) = lopt cf" "dropWhile (\<lambda>c. c \<noteq> CHR ''='') (lopt cf @ ''='' @ text) = ''='' @ text"
        by (subst takeWhile_append2 dropWhile_append2, use l(2) in auto)+
      ultimately show "split_eq (''--'' @ lopt cf) = (''--'' @ lopt cf, None)" "split_eq (''--'' @ lopt cf @ ''='' @ text) = (''--'' @ lopt cf, Some text)"
        by (simp_all add: split_eq_def del: dropWhile_eq_Nil_conv)
    qed
    show ?thesis
    proof (cases "vtype cf = VALUE_TYPE_BOOL")
      case b: True
      have "parse_long p st (''--'' @ lopt cf) = Some (0, without p a, st(t := v))"
        using s1 l b cf(1,2) r flag by (simp add: parse_long_def Let_def)
      then show ?thesis using True b cf(5,6) by (simp add: render_def)
    next
      case b: False
      have "parse_long p st (''--'' @ lopt cf @ ''='' @ text) = Some (0, without p a, st(t := v))"
        unfolding parse_long_def s2 using l b cf(1) r sv by (simp add: Let_def)
      then show ?thesis using True b cf(5,6) by (simp add: render_def)
    qed
  next
    case False
    then have l: "sopt cf \<noteq> CHR ''-''" "sopt2conf p (sopt cf) = Some a" using cf(8) by auto
    show ?thesis
    proof (cases "vtype cf = VALUE_TYPE_BOOL")
      case b: True
      then show ?thesis using False l cf(1,2,5,6) r flag by (simp add: render_def parse_short_def)
    next
      case b: False
      then show ?thesis using False l cf(1,5,6) r sv by (simp add: render_def parse_short_def)
    qed
  qed
  ultimately show ?thesis using cf(5) by simp
qed

lemma without_other:
  assumes "parser_ok p" "usable p (a, long, text)" "fst u \<noteq> a"
  shows "confs (without p a) (fst u) = confs p (fst u)" "render (without p a) u = render p u" "usable (without p a) u = usable p u" "assign (without p a) u = assign p u"
proof -
  obtain cf where "confs p a = Some cf" "vtype cf \<noteq> VALUE_TYPE_HELP" using usableD [OF assms(1,2)] by metis
  then show c: "confs (without p a) (fst u) = confs p (fst u)" using remove_option_ok(3) [OF assms(1)] assms(3) by simp
  show "render (without p a) u = render p u" "usable (without p a) u = usable p u" "assign (without p a) u = assign p u"
    using c by (auto simp: render_def usable_def assign_def conf_of_def split: prod.split)
qed

lemma parse_uses:
  assumes "parser_ok p" "typed p st" "distinct (map fst us)" "\<forall>u \<in> set us. usable p u"
  shows "\<exists>p'. parse_args p st (concat (map (render p) us)) = Some (0, p', fold (assign p) us st) \<and> parser_ok p' \<and> confs p' = (\<lambda>a. if a \<in> fst ` set us then None else confs p a)"
  using assms
proof (induction us arbitrary: p st)
  case (Cons u us)
  obtain a long tx where u: "u = (a, long, tx)" by (cases u)
  have us: "usable p (a, long, tx)" using Cons.prems(4) u by simp
  obtain cf where cf: "confs p a = Some cf" "vtype cf \<noteq> VALUE_TYPE_HELP" using usableD [OF Cons.prems(1) us] by metis
  note r = remove_option_ok [OF Cons.prems(1) cf]
  have ne: "fst w \<noteq> a" if "w \<in> set us" for w using Cons.prems(3) u that by auto
  note w = without_other [OF Cons.prems(1) us]
  have m: "map (render (without p a)) us = map (render p) us" using w(2) ne by simp
  have f: "fold (assign (without p a)) us x = fold (assign p) us x" for x by (rule fold_cong) (use w(4) ne in auto)
  have "\<forall>w \<in> set us. usable (without p a) w" using Cons.prems(4) w(3) ne by simp
  moreover have "typed (without p a) (assign p u st)" using without_typed [OF Cons.prems(1,2) cf] parse_use [OF Cons.prems(1,2) us] u by blast
  ultimately obtain p' where p': "parse_args (without p a) (assign p u st) (concat (map (render p) us)) = Some (0, p', fold (assign p) us (assign p u st))" "parser_ok p'"
      "confs p' = (\<lambda>b. if b \<in> fst ` set us then None else confs (without p a) b)"
    using Cons.IH [OF r(2), of "assign p u st"] Cons.prems(3) unfolding m f by auto
  then show ?case using parse_use [OF Cons.prems(1,2) us, of "concat (map (render p) us)"] u r(3) by (auto simp: fun_eq_iff)
qed simp

text \<open>
  C33: A command line in which every option is used at most once, by its short or its long name and with a text that its type accepts, sets exactly the variables of these options to the
  values of the texts, where every option refers to a variable of its type, as registration ensures. \<^verbatim>\<open>parse\<close> returns 0 when all required options are among them and \<^verbatim>\<open>-EINVAL\<close> otherwise.
\<close>

theorem parse_sets_values:
  assumes "parser_ok p" and "typed p st" and "distinct (map fst us)" and "\<forall>u \<in> set us. usable p u"
  shows "\<exists>p'. parse p st (prog # concat (map (render p) us)) hh =
    Some (Returned (if \<exists>a cf. confs p a = Some cf \<and> required cf \<and> a \<notin> fst ` set us then - EINVAL else 0), p', fold (assign p) us st)"
proof -
  have nh: "arg \<noteq> ''-h'' \<and> arg \<noteq> ''--help''" if arg: "arg \<in> set (render p u)" "u \<in> set us" for arg u
  proof -
    obtain a long tx where u: "u = (a, long, tx)" by (cases u)
    have us: "usable p (a, long, tx)" using assms(4) that(2) u by auto
    obtain cf where cf: "confs p a = Some cf" "vtype cf \<noteq> VALUE_TYPE_HELP" "conf_of p (a, long, tx) = cf" "long \<Longrightarrow> CHR ''='' \<notin> set (lopt cf) \<and> tx \<noteq> []"
        "\<not> long \<Longrightarrow> sopt cf \<noteq> CHR ''-'' \<and> tx \<noteq> ''-h'' \<and> tx \<noteq> ''--help''"
      by (rule usableD [OF assms(1) us]) blast
    show ?thesis using arg(1) u cf(3-5) help_names [OF assms(1) cf(1,2)] by (auto simp: render_def Let_def append_eq_Cons_conv split: if_splits)
  qed
  obtain p' where p': "parse_args p st (concat (map (render p) us)) = Some (0, p', fold (assign p) us st)" "parser_ok p'"
      "confs p' = (\<lambda>a. if a \<in> fst ` set us then None else confs p a)"
    using parse_uses [OF assms] by blast
  have "(\<exists>a \<in> conf_list p'. required (the (confs p' a))) \<longleftrightarrow> (\<exists>a cf. confs p a = Some cf \<and> required cf \<and> a \<notin> fst ` set us)"
  proof -
    have cl: "conf_list p' = {a. confs p' a \<noteq> None}" using parser_okD(3) [OF p'(2)] by blast
    show ?thesis unfolding cl p'(3) by (auto simp del: image_iff) blast
  qed
  moreover have "\<forall>a \<in> conf_list p'. confs p' a \<noteq> None" using parser_okD(3) [OF p'(2)] by blast
  moreover have "''-h'' \<notin> set (concat (map (render p) us))" "''--help'' \<notin> set (concat (map (render p) us))" using nh by auto
  ultimately show ?thesis using p'(1) by (simp add: parse_def Let_def) blast
qed

definition demo_parser :: option_parser where
  "demo_parser = (option_parser_new 0)\<lparr>confs := (confs (option_parser_new 0))(1 \<mapsto> \<lparr>sopt = CHR ''n'', lopt = ''num'', desc = ''a number'', vname = ''N'', required = True,
     vtype = VALUE_TYPE_S32, target = Some 7\<rparr>), conf_list := {0, 1}, sopt2conf := [CHR ''h'' \<mapsto> 0, CHR ''n'' \<mapsto> 1], lopt2conf := [''help'' \<mapsto> 0, ''num'' \<mapsto> 1]\<rparr>"

lemma demo_parser_ok: "parser_ok demo_parser"
  by (auto simp: parser_ok_def demo_parser_def option_parser_new_def)

theorem parse_sets_values_witness:
  "\<exists>p' st'. parse demo_parser (\<lambda>_. V_s32 0) [''prog'', ''--num=-12''] True = Some (Returned 0, p', st') \<and> st' 7 = V_s32 (-12)"
proof -
  have "convert_value VALUE_TYPE_S32 ''-12'' (V_s32 0) = Some (0, V_s32 (-12))"
    by (simp add: convert_value_def from_string_s32_def convert_def strtol_def scan_number_def is_space_def is_digit_def digit_value_def)
  then have m: "usable demo_parser (1, True, ''-12'')" "assign demo_parser (1, True, ''-12'') st 7 = V_s32 (-12)" for st
    by (simp_all add: usable_def meaning_def demo_parser_def assign_def conf_of_def)
  moreover have "render demo_parser (1, True, ''-12'') = [''--num=-12'']" by (simp add: render_def conf_of_def demo_parser_def)
  moreover have "\<not> (\<exists>a cf. confs demo_parser a = Some cf \<and> required cf \<and> a \<notin> fst ` set [(1 :: nat, True, ''-12'')])" by (auto simp: demo_parser_def option_parser_new_def)
  moreover have "typed demo_parser (\<lambda>_. V_s32 0)" by (simp add: typed_def demo_parser_def option_parser_new_def)
  ultimately show ?thesis using parse_sets_values [OF demo_parser_ok, of "\<lambda>_. V_s32 0" "[(1, True, ''-12'')]" "''prog''" True] by auto
qed

end
