(* ===== verification/Guid.thy ===== *)
theory Guid
  imports Bus
begin

text \<open>
  \<^verbatim>\<open>src/src/utility/guid.cpp\<close>: 64-bit ids from the ids of the process, the second and a serial number within the second. The static map of the file is an argument; \<open>now\<close> is the
  value of the clock.
\<close>

section \<open>Model\<close>

definition INST_BIT_COUNT :: nat where "INST_BIT_COUNT = 3"
definition FUNC_BIT_COUNT :: nat where "FUNC_BIT_COUNT = 5"
definition ZONE_BIT_COUNT :: nat where "ZONE_BIT_COUNT = 10"
definition SERIAL_BIT_COUNT :: nat where "SERIAL_BIT_COUNT = 16"
definition TIMESTAMP_BIT_COUNT :: nat where "TIMESTAMP_BIT_COUNT = 30"

lemmas bit_counts = INST_BIT_COUNT_def FUNC_BIT_COUNT_def ZONE_BIT_COUNT_def SERIAL_BIT_COUNT_def TIMESTAMP_BIT_COUNT_def

text \<open>The bit fields of \<^verbatim>\<open>struct GUID\<close>, the first one in the lowest bits.\<close>

definition GUID :: "u64 \<Rightarrow> u64 \<Rightarrow> u64 \<Rightarrow> u64 \<Rightarrow> u64 \<Rightarrow> u64" where
  "GUID inst func zone serial timestamp =
     take_bit INST_BIT_COUNT inst OR push_bit INST_BIT_COUNT (take_bit FUNC_BIT_COUNT func) OR push_bit (INST_BIT_COUNT + FUNC_BIT_COUNT) (take_bit ZONE_BIT_COUNT zone) OR
     push_bit (INST_BIT_COUNT + FUNC_BIT_COUNT + ZONE_BIT_COUNT) (take_bit SERIAL_BIT_COUNT serial) OR
     push_bit (INST_BIT_COUNT + FUNC_BIT_COUNT + ZONE_BIT_COUNT + SERIAL_BIT_COUNT) (take_bit TIMESTAMP_BIT_COUNT timestamp)"

type_synonym guid_key = "int \<times> int \<times> int"

record guid_value =
  last_sec :: int
  last_serial :: nat

definition create :: "(guid_key \<Rightarrow> guid_value option) \<Rightarrow> int \<Rightarrow> int \<Rightarrow> int \<Rightarrow> int \<Rightarrow> (int \<times> u64 \<times> (guid_key \<Rightarrow> guid_value option)) option" where
  "create key2guid inst func zone now = do {
     sk_assert (inst > 0);
     sk_assert (inst < 2 ^ INST_BIT_COUNT);
     sk_assert (func > 0);
     sk_assert (func < 2 ^ FUNC_BIT_COUNT);
     sk_assert (zone \<ge> 0);
     sk_assert (zone < 2 ^ ZONE_BIT_COUNT);
     let key = (inst, func, zone);
     let val = (case key2guid key of None \<Rightarrow> \<lparr>last_sec = 0, last_serial = 0\<rparr> | Some v \<Rightarrow> v);
     let val = (if last_sec val \<noteq> now then val\<lparr>last_sec := now, last_serial := 0\<rparr> else val);
     sk_assert (last_serial val < 2 ^ SERIAL_BIT_COUNT);
     let guid = GUID (word_of_int inst) (word_of_int func) (word_of_int zone) (word_of_nat (last_serial val)) (word_of_int (and (last_sec val) (2 ^ TIMESTAMP_BIT_COUNT - 1)));
     Some (0, guid, key2guid(key \<mapsto> val\<lparr>last_serial := last_serial val + 1\<rparr>))
   }"

text \<open>The calls of one process with fixed ids, at the times \<open>ts\<close>. The map is a static variable of the process: a process starts with the empty map, and a restart loses it.\<close>

fun create_all :: "(guid_key \<Rightarrow> guid_value option) \<Rightarrow> guid_key \<Rightarrow> int list \<Rightarrow> (u64 list \<times> (guid_key \<Rightarrow> guid_value option)) option" where
  "create_all m k [] = Some ([], m)"
| "create_all m (inst, func, zone) (now # ts) = do { (ret, g, m) \<leftarrow> create m inst func zone now; (gs, m) \<leftarrow> create_all m (inst, func, zone) ts; Some (g # gs, m) }"

text \<open>
  The life of a server process: its instance, function and zone, the time at which \<^verbatim>\<open>init\<close> of \<^verbatim>\<open>server.h\<close> ends its start-up and sleeps for a second, and the times of the calls it makes
  after that.
\<close>

record life =
  life_key :: guid_key
  life_start :: int
  life_calls :: "int list"

definition create_life :: "life \<Rightarrow> u64 list option" where
  "create_life l = do { (gs, m) \<leftarrow> create_all (\<lambda>_. None) (life_key l) (life_calls l); Some gs }"

fun create_lives :: "life list \<Rightarrow> u64 list list option" where
  "create_lives [] = Some []"
| "create_lives (l # ls) = do { gs \<leftarrow> create_life l; gss \<leftarrow> create_lives ls; Some (gs # gss) }"

section \<open>The fields determine the id\<close>

lemma GUID_fields:
  "take_bit 3 (GUID i f z s t) = take_bit 3 i" "take_bit 5 (drop_bit 3 (GUID i f z s t)) = take_bit 5 f" "take_bit 10 (drop_bit 8 (GUID i f z s t)) = take_bit 10 z"
  "take_bit 16 (drop_bit 18 (GUID i f z s t)) = take_bit 16 s" "take_bit 30 (drop_bit 34 (GUID i f z s t)) = take_bit 30 t"
  by (rule bit_word_eqI, auto simp: GUID_def bit_counts bit_simps)+

lemma take_bit_field:
  assumes "take_bit n (word_of_int a :: u64) = take_bit n (word_of_int b)" "0 \<le> a" "a < 2 ^ n" "0 \<le> b" "b < 2 ^ n" "n \<le> 64"
  shows "a = b"
proof -
  have "uint (take_bit n (word_of_int x :: u64)) = x" if "0 \<le> x" "x < 2 ^ n" for x
  proof -
    have "uint (take_bit n (word_of_int x :: u64)) = take_bit n (take_bit 64 x)" by (simp add: unsigned_take_bit_eq uint_word_of_int_eq)
    also have "\<dots> = take_bit n x" using assms(6) by (simp add: min_absorb1)
    also have "\<dots> = x" using that by (simp add: take_bit_int_eq_self)
    finally show ?thesis .
  qed
  then show ?thesis using assms by metis
qed

definition guid_of :: "guid_key \<Rightarrow> int \<Rightarrow> nat \<Rightarrow> u64" where
  "guid_of k t n = (case k of (i, f, z) \<Rightarrow> GUID (word_of_int i) (word_of_int f) (word_of_int z) (word_of_nat n) (word_of_int (and t (2 ^ 30 - 1))))"

definition valid_key :: "guid_key \<Rightarrow> bool" where
  "valid_key k = (case k of (i, f, z) \<Rightarrow> 0 < i \<and> i < 8 \<and> 0 < f \<and> f < 32 \<and> 0 \<le> z \<and> z < 1024)"

lemma guid_of_inj:
  assumes "guid_of k t n = guid_of k' t' n'" "valid_key k" "valid_key k'" "n < 2 ^ 16" "n' < 2 ^ 16"
  shows "k = k' \<and> n = n' \<and> t mod 2 ^ 30 = t' mod 2 ^ 30"
proof -
  obtain i f z i' f' z' where k: "k = (i, f, z)" "k' = (i', f', z')" by (cases k, cases k')
  let ?g = "\<lambda>i f z n t. GUID (word_of_int i) (word_of_int f) (word_of_int z) (word_of_nat n) (word_of_int (and t (2 ^ 30 - 1)))"
  have e: "?g i f z n t = ?g i' f' z' n' t'" using assms(1) k by (simp add: guid_of_def)
  have m: "and x (2 ^ 30 - 1) = x mod 2 ^ 30" for x :: int using take_bit_eq_mask [of 30 x] by (simp add: take_bit_eq_mod mask_eq_exp_minus_1)
  have v: "0 < i" "i < 8" "0 < f" "f < 32" "0 \<le> z" "z < 1024" "0 < i'" "i' < 8" "0 < f'" "f' < 32" "0 \<le> z'" "z' < 1024" using assms(2,3) k by (simp_all add: valid_key_def)
  note F = GUID_fields [of "word_of_int i" "word_of_int f" "word_of_int z" "word_of_nat n" "word_of_int (and t (2 ^ 30 - 1))"]
  note F' = GUID_fields [of "word_of_int i'" "word_of_int f'" "word_of_int z'" "word_of_nat n'" "word_of_int (and t' (2 ^ 30 - 1))"]
  have "i = i'" by (rule take_bit_field [of 3]) (use F(1) F'(1) e v in simp_all)
  moreover have "f = f'" by (rule take_bit_field [of 5]) (use F(2) F'(2) e v in simp_all)
  moreover have "z = z'" by (rule take_bit_field [of 10]) (use F(3) F'(3) e v in simp_all)
  moreover have "int n = int n'" by (rule take_bit_field [of 16]) (use F(4) F'(4) e assms(4,5) in simp_all)
  moreover have "t mod 2 ^ 30 = t' mod 2 ^ 30" by (rule take_bit_field [of 30]) (use F(5) F'(5) e m in simp_all)
  ultimately show ?thesis using k by simp
qed

lemma mod_less_window:
  fixes a b t0 :: int
  assumes "t0 \<le> a" "a < t0 + 2 ^ 30" "t0 \<le> b" "b < t0 + 2 ^ 30" "a mod 2 ^ 30 = b mod 2 ^ 30"
  shows "a = b"
proof -
  have "2 ^ 30 dvd a - b" using assms(5) by (simp add: mod_eq_dvd_iff)
  moreover have "\<bar>a - b\<bar> < 2 ^ 30" using assms by linarith
  ultimately show ?thesis using dvd_imp_le_int [of "a - b" "2 ^ 30"] by fastforce
qed

section \<open>Every call gets the next serial number of its second\<close>

definition guid_ok :: "guid_key \<Rightarrow> int list \<Rightarrow> (guid_key \<Rightarrow> guid_value option) \<Rightarrow> bool" where
  "guid_ok k ps m \<longleftrightarrow> (case m k of None \<Rightarrow> ps = []
     | Some v \<Rightarrow> last_serial v = count_list ps (last_sec v) \<and> last_sec v \<in> set ps \<and> (\<forall>t \<in> set ps. t \<le> last_sec v))"

lemma guid_create_ok:
  assumes ok: "guid_ok (i, f, z) ps m" and k: "valid_key (i, f, z)" and t: "\<forall>u \<in> set ps. u \<le> t" and n: "count_list ps t < 2 ^ 16"
  shows "\<exists>m'. create m i f z t = Some (0, guid_of (i, f, z) t (count_list ps t), m') \<and> guid_ok (i, f, z) (ps @ [t]) m'"
proof -
  let ?k = "(i, f, z)"
  let ?v0 = "case m ?k of None \<Rightarrow> \<lparr>last_sec = 0, last_serial = 0\<rparr> | Some v \<Rightarrow> v"
  let ?v = "if last_sec ?v0 \<noteq> t then ?v0\<lparr>last_sec := t, last_serial := 0\<rparr> else ?v0"
  have s: "last_sec ?v = t" by simp
  have n': "last_serial ?v = count_list ps t"
  proof (cases "m ?k")
    case None
    then show ?thesis using ok by (simp add: guid_ok_def)
  next
    case (Some v)
    then have v: "last_serial v = count_list ps (last_sec v)" "last_sec v \<in> set ps" "\<forall>t \<in> set ps. t \<le> last_sec v" using ok by (simp_all add: guid_ok_def)
    then have "t \<notin> set ps" if "last_sec v \<noteq> t" using that t by force
    then show ?thesis using Some v(1) by (auto simp: count_list_0_iff)
  qed
  let ?m = "m(?k \<mapsto> ?v\<lparr>last_serial := last_serial ?v + 1\<rparr>)"
  have "create m i f z t = Some (0, guid_of ?k t (count_list ps t), ?m)"
    unfolding create_def Let_def s n' using k n by (simp add: valid_key_def bit_counts guid_of_def)
  moreover have "guid_ok ?k (ps @ [t]) ?m"
  proof -
    have "?m ?k = Some (?v\<lparr>last_serial := count_list ps t + 1\<rparr>)" using n' by simp
    moreover have "last_sec (?v\<lparr>last_serial := count_list ps t + 1\<rparr>) = t" by simp
    ultimately show ?thesis using t by (simp add: guid_ok_def)
  qed
  ultimately show ?thesis by blast
qed

text \<open>The ids that the calls at the times \<open>ts\<close> return after the calls at \<open>ps\<close>.\<close>

fun guids :: "guid_key \<Rightarrow> int list \<Rightarrow> int list \<Rightarrow> u64 list" where
  "guids k ps [] = []"
| "guids k ps (t # ts) = guid_of k t (count_list ps t) # guids k (ps @ [t]) ts"

lemma create_all_ok:
  assumes "guid_ok k ps m" "valid_key k" "sorted (ps @ ts)" "\<forall>t. count_list (ps @ ts) t \<le> 2 ^ 16"
  shows "\<exists>m'. create_all m k ts = Some (guids k ps ts, m')"
  using assms
proof (induction ts arbitrary: ps m)
  case (Cons t ts)
  obtain i f z where k: "k = (i, f, z)" by (cases k)
  have "\<forall>u \<in> set ps. u \<le> t" using Cons.prems(3) by (auto simp: sorted_append)
  moreover have "count_list ps t < 2 ^ 16" using Cons.prems(4) [rule_format, of t] by simp
  ultimately obtain m1 where m1: "create m i f z t = Some (0, guid_of (i, f, z) t (count_list ps t), m1)" "guid_ok k (ps @ [t]) m1"
    using guid_create_ok [of i f z ps m t] Cons.prems(1,2) k by blast
  then show ?case using Cons.IH [OF m1(2)] Cons.prems(2-4) k by auto
qed simp

lemma guids_nth: "j < length ts \<Longrightarrow> guids k ps ts ! j = guid_of k (ts ! j) (count_list (ps @ take j ts) (ts ! j))"
proof (induction ts arbitrary: ps j)
  case (Cons c ts)
  then show ?case by (cases j) simp_all
qed simp

lemma length_guids [simp]: "length (guids k ps ts) = length ts"
  by (induction ts arbitrary: ps) simp_all

lemma count_take_less:
  assumes "i < j" "j < length ts" "ts ! i = ts ! j"
  shows "count_list (take i ts) (ts ! i) < count_list (take j ts) (ts ! j)"
proof -
  have "take j ts = take i ts @ ts ! i # drop (Suc i) (take j ts)" using assms(1,2) id_take_nth_drop [of i "take j ts"] by (simp add: min_absorb1)
  then have "count_list (take j ts) (ts ! i) = count_list (take i ts @ ts ! i # drop (Suc i) (take j ts)) (ts ! i)" by (rule arg_cong)
  then show ?thesis using assms(3) by simp
qed

lemma count_take_bound: "j < length ts \<Longrightarrow> count_list (take j ts) (ts ! j) < count_list ts (ts ! j)"
  using arg_cong [OF id_take_nth_drop, of j ts "\<lambda>xs. count_list xs (ts ! j)"] by simp

section \<open>The ids of one life and of several\<close>

text \<open>What a life has to respect: valid ids of the process, a clock that does not go back, at most \<open>2 ^ 16\<close> calls in a second, no call before the second of sleep is over.\<close>

definition life_ok :: "int \<Rightarrow> life \<Rightarrow> bool" where
  "life_ok t0 l \<longleftrightarrow> valid_key (life_key l) \<and> sorted (life_calls l) \<and> (\<forall>t \<in> set (life_calls l). t0 \<le> t \<and> t < t0 + 2 ^ 30 \<and> life_start l + 1 \<le> t) \<and> (\<forall>t. count_list (life_calls l) t \<le> 2 ^ 16)"

text \<open>Two processes with the same instance, function and zone do not live at the same time: the later one starts when the earlier one has made its last call.\<close>

definition restarted :: "life list \<Rightarrow> bool" where
  "restarted ls \<longleftrightarrow> (\<forall>j < length ls. \<forall>i < j. life_key (ls ! i) = life_key (ls ! j) \<longrightarrow> (\<forall>t \<in> set (life_calls (ls ! i)). t \<le> life_start (ls ! j)))"

lemma create_life_ok: "life_ok t0 l \<Longrightarrow> create_life l = Some (guids (life_key l) [] (life_calls l))"
  using create_all_ok [of "life_key l" "[]" "\<lambda>_. None" "life_calls l"] by (auto simp: life_ok_def create_life_def guid_ok_def)

lemma create_lives_ok: "\<forall>l \<in> set ls. life_ok t0 l \<Longrightarrow> create_lives ls = Some (map (\<lambda>l. guids (life_key l) [] (life_calls l)) ls)"
  by (induction ls) (auto simp: create_life_ok)

lemma guids_inj:
  assumes ok: "life_ok t0 l" "life_ok t0 l'" and ij: "i < length (life_calls l)" "j < length (life_calls l')"
    and e: "guids (life_key l) [] (life_calls l) ! i = guids (life_key l') [] (life_calls l') ! j"
  shows "life_key l = life_key l' \<and> life_calls l ! i = life_calls l' ! j \<and>
    count_list (take i (life_calls l)) (life_calls l ! i) = count_list (take j (life_calls l')) (life_calls l' ! j)"
proof -
  let ?c = "life_calls l" and ?c' = "life_calls l'"
  have g: "guid_of (life_key l) (?c ! i) (count_list (take i ?c) (?c ! i)) = guid_of (life_key l') (?c' ! j) (count_list (take j ?c') (?c' ! j))"
    using e guids_nth [OF ij(1), of _ "[]"] guids_nth [OF ij(2), of _ "[]"] by simp
  have small: "count_list (take i ?c) (?c ! i) < 2 ^ 16" "count_list (take j ?c') (?c' ! j) < 2 ^ 16"
    using count_take_bound ij ok by (meson life_ok_def less_le_trans)+
  have "life_key l = life_key l' \<and> count_list (take i ?c) (?c ! i) = count_list (take j ?c') (?c' ! j) \<and> ?c ! i mod 2 ^ 30 = ?c' ! j mod 2 ^ 30"
    by (rule guid_of_inj [OF g _ _ small]) (use ok in \<open>simp_all add: life_ok_def\<close>)
  moreover have "t0 \<le> ?c ! i" "?c ! i < t0 + 2 ^ 30" "t0 \<le> ?c' ! j" "?c' ! j < t0 + 2 ^ 30" using ok ij by (simp_all add: life_ok_def)
  ultimately show ?thesis using mod_less_window by blast
qed

lemma life_distinct:
  assumes "life_ok t0 l"
  shows "distinct (guids (life_key l) [] (life_calls l))"
proof -
  have "guids (life_key l) [] (life_calls l) ! i \<noteq> guids (life_key l) [] (life_calls l) ! j" if ij: "i < j" "j < length (life_calls l)" for i j
    using guids_inj [OF assms assms, of i j] count_take_less [OF ij] ij by (metis less_irrefl less_trans)
  then show ?thesis unfolding distinct_conv_nth by (metis length_guids linorder_neqE_nat)
qed

lemma lives_disjoint:
  assumes "life_ok t0 l" "life_ok t0 l'" "life_key l = life_key l' \<longrightarrow> (\<forall>t \<in> set (life_calls l). t \<le> life_start l')"
  shows "set (guids (life_key l) [] (life_calls l)) \<inter> set (guids (life_key l') [] (life_calls l')) = {}"
proof (rule ccontr)
  assume "\<not> ?thesis"
  then obtain i j where ij: "i < length (life_calls l)" "j < length (life_calls l')"
    "guids (life_key l) [] (life_calls l) ! i = guids (life_key l') [] (life_calls l') ! j"
    by (metis disjoint_iff in_set_conv_nth length_guids)
  have h: "life_key l = life_key l'" "life_calls l ! i = life_calls l' ! j" using guids_inj [OF assms(1,2) ij] by auto
  have "life_calls l ! i \<le> life_start l'" using assms(3) h(1) ij(1) by simp
  moreover have "life_start l' + 1 \<le> life_calls l' ! j" using assms(2) ij(2) by (simp add: life_ok_def)
  ultimately show False using h(2) by simp
qed

lemma restarted_Cons:
  "restarted (l # ls) \<longleftrightarrow> (\<forall>l' \<in> set ls. life_key l = life_key l' \<longrightarrow> (\<forall>t \<in> set (life_calls l). t \<le> life_start l')) \<and> restarted ls"
proof -
  have "restarted (l # ls) \<longleftrightarrow> (\<forall>j < length ls. \<forall>i < Suc j. life_key ((l # ls) ! i) = life_key (ls ! j) \<longrightarrow> (\<forall>t \<in> set (life_calls ((l # ls) ! i)). t \<le> life_start (ls ! j)))"
    unfolding restarted_def by (simp add: All_less_Suc2)
  then show ?thesis unfolding restarted_def All_less_Suc2 by (auto simp: all_set_conv_all_nth)
qed

lemma lives_distinct:
  assumes "\<forall>l \<in> set ls. life_ok t0 l" "restarted ls"
  shows "distinct (concat (map (\<lambda>l. guids (life_key l) [] (life_calls l)) ls))"
  using assms
proof (induction ls)
  case (Cons l ls)
  have "set (guids (life_key l) [] (life_calls l)) \<inter> set (guids (life_key l') [] (life_calls l')) = {}" if "l' \<in> set ls" for l'
    by (rule lives_disjoint) (use Cons.prems that restarted_Cons in auto)
  then show ?case using Cons life_distinct by (fastforce simp: restarted_Cons)
qed simp

text \<open>
  C36: Ids are unique over the lives of any number of server processes, each of which starts with an empty map. In a life the clock does not go back, at most \<open>2 ^ 16\<close> ids are created in a second and
  none before the second that \<^verbatim>\<open>init\<close> sleeps is over; all calls lie within \<open>2 ^ 30\<close> seconds; a process that has the instance, function and zone of an earlier one starts after the last call
  of that one. Then every call succeeds, and no id is given out twice, in one life, across restarts or between processes.
\<close>

theorem guid_unique:
  assumes "\<forall>l \<in> set ls. life_ok t0 l" and "restarted ls"
  shows "\<exists>gss. create_lives ls = Some gss \<and> map length gss = map (\<lambda>l. length (life_calls l)) ls \<and> distinct (concat gss)"
  using create_lives_ok [OF assms(1)] lives_distinct [OF assms] by (simp add: comp_def)

theorem guid_unique_witness:
  "\<exists>gss. create_lives [\<lparr>life_key = (1, 2, 3), life_start = 99, life_calls = [100, 100, 101]\<rparr>, \<lparr>life_key = (1, 2, 3), life_start = 101, life_calls = [102]\<rparr>,
      \<lparr>life_key = (2, 2, 3), life_start = 99, life_calls = [100]\<rparr>] = Some gss \<and> map length gss = [3, 1, 1] \<and> distinct (concat gss)"
proof -
  let ?ls = "[\<lparr>life_key = (1, 2, 3), life_start = 99, life_calls = [100, 100, 101]\<rparr>, \<lparr>life_key = (1, 2, 3), life_start = 101, life_calls = [102]\<rparr>,
      \<lparr>life_key = (2, 2, 3), life_start = 99, life_calls = [100]\<rparr>]"
  have ok: "\<forall>l \<in> set ?ls. life_ok 100 l" by (simp add: life_ok_def valid_key_def)
  have re: "restarted ?ls" by (simp add: restarted_Cons) (simp add: restarted_def)
  show ?thesis using guid_unique [OF ok re] by (simp add: numeral_3_eq_3 del: create_lives.simps)
qed

section \<open>Ids that repeat\<close>

text \<open>When the clock goes back, an id is given out again.\<close>

lemma guid_clock_back: "\<exists>a b. create_life \<lparr>life_key = (1, 2, 3), life_start = 98, life_calls = [100, 99, 100]\<rparr> = Some [a, b, a]"
  by (simp add: create_life_def create_def bit_counts)

text \<open>
  A process that creates an id before the second of sleep is over, as \<^verbatim>\<open>on_init\<close> can, repeats an id of its earlier life in the same second; and two processes that differ in their area
  only create the same ids, since neither the key nor the id holds the area.
\<close>

lemma guid_restart_repeats: "create_life \<lparr>life_key = k, life_start = 100, life_calls = [100]\<rparr> = create_life \<lparr>life_key = k, life_start = 99, life_calls = [100]\<rparr>"
  by (simp add: create_life_def)

lemma guid_area_ignored:
  "\<exists>a. create_lives [\<lparr>life_key = (1, 2, 3), life_start = 99, life_calls = [100]\<rparr>, \<lparr>life_key = (1, 2, 3), life_start = 99, life_calls = [100]\<rparr>] = Some [[a], [a]]"
  by (simp add: create_life_def create_def bit_counts)

end
