(* ===== verification/Fixed_Vector.thy ===== *)
theory Fixed_Vector
  imports Prelude
begin

text \<open>
  \<^verbatim>\<open>src/src/container/fixed_vector.h\<close> and \<^verbatim>\<open>fixed_stack.h\<close>: a vector inside an array of \<open>N\<close> elements. \<open>memory\<close> is the array, so \<open>N\<close> is its length; what it holds
  behind the first \<open>size\<close> elements does not matter. An iterator is an index. Index arithmetic is modulo \<open>2 ^ 64\<close>.
\<close>

section \<open>Model\<close>

record 'a fixed_vector =
  fv_size :: nat
  peak_size :: nat
  memory :: "'a list"

definition fixed_vector_new :: "'a list \<Rightarrow> 'a fixed_vector" where
  "fixed_vector_new raw = \<lparr>fv_size = 0, peak_size = 0, memory = raw\<rparr>"

definition fv_capacity :: "'a fixed_vector \<Rightarrow> nat" where "fv_capacity v = length (memory v)"
definition fv_full :: "'a fixed_vector \<Rightarrow> bool" where "fv_full v \<longleftrightarrow> fv_size v \<ge> fv_capacity v"
definition fv_empty :: "'a fixed_vector \<Rightarrow> bool" where "fv_empty v \<longleftrightarrow> fv_size v \<le> 0"

definition fv_at :: "'a fixed_vector \<Rightarrow> nat \<Rightarrow> nat option" where
  "fv_at v index = do { sk_assert (index < fv_size v); Some index }"

definition fv_clear :: "'a fixed_vector \<Rightarrow> 'a fixed_vector" where
  "fv_clear v = v\<lparr>fv_size := 0\<rparr>"

text \<open>\<^verbatim>\<open>at(size_++)\<close>: the size has grown when the index is examined.\<close>

definition fv_emplace :: "'a fixed_vector \<Rightarrow> 'a \<Rightarrow> (nat option \<times> 'a fixed_vector) option" where
  "fv_emplace v x =
     (if fv_full v then Some (None, v)
      else do {
        let index = fv_size v;
        let v = v\<lparr>fv_size := fv_size v + 1\<rparr>;
        t \<leftarrow> fv_at v index;
        let v = v\<lparr>memory := (memory v)[t := x]\<rparr>;
        let v = (if fv_size v > peak_size v then v\<lparr>peak_size := fv_size v\<rparr> else v);
        Some (Some t, v)
      })"

text \<open>\<^verbatim>\<open>std::copy\<close> moves the elements of \<open>[a, b)\<close> to \<open>d\<close>, the first one first.\<close>

definition copy_down :: "'a list \<Rightarrow> nat \<Rightarrow> nat \<Rightarrow> nat \<Rightarrow> 'a list" where
  "copy_down m a b d = take d m @ drop a (take b m) @ drop (d + (b - a)) m"

definition fv_erase_at :: "'a fixed_vector \<Rightarrow> nat \<Rightarrow> 'a fixed_vector option" where
  "fv_erase_at v index = do {
     sk_assert (index < fv_size v);
     i \<leftarrow> fv_at v index;
     let v = (if i + 1 \<noteq> fv_size v then v\<lparr>memory := copy_down (memory v) (i + 1) (fv_size v) i\<rparr> else v);
     _ \<leftarrow> fv_at v (fv_size v - 1);
     Some (v\<lparr>fv_size := fv_size v - 1\<rparr>)
   }"

definition fv_erase :: "'a fixed_vector \<Rightarrow> nat \<Rightarrow> 'a fixed_vector option" where
  "fv_erase v it = do { sk_assert (it \<noteq> fv_size v); fv_erase_at v it }"

definition fv_find_if :: "('a \<Rightarrow> bool) \<Rightarrow> 'a fixed_vector \<Rightarrow> nat" where
  "fv_find_if p v = (case find (\<lambda>i. p (memory v ! i)) [0..<fv_size v] of None \<Rightarrow> fv_size v | Some i \<Rightarrow> i)"

definition fv_find :: "'a \<Rightarrow> 'a fixed_vector \<Rightarrow> nat" where
  "fv_find x v = fv_find_if (\<lambda>y. y = x) v"

definition fv_erase_value :: "'a fixed_vector \<Rightarrow> 'a \<Rightarrow> 'a fixed_vector option" where
  "fv_erase_value v x = (let it = fv_find x v in if it = fv_size v then Some v else fv_erase v it)"

definition fv_erase_if :: "('a \<Rightarrow> bool) \<Rightarrow> 'a fixed_vector \<Rightarrow> 'a fixed_vector option" where
  "fv_erase_if p v = (let it = fv_find_if p v in if it = fv_size v then Some v else fv_erase v it)"

fun emplace_times :: "nat \<Rightarrow> 'a fixed_vector \<Rightarrow> 'a \<Rightarrow> 'a fixed_vector option" where
  "emplace_times 0 v x = Some v"
| "emplace_times (Suc n) v x = do { (t, v) \<leftarrow> fv_emplace v x; emplace_times n v x }"

partial_function (option) shrink_loop :: "'a fixed_vector \<Rightarrow> nat \<Rightarrow> nat \<Rightarrow> 'a fixed_vector option" where
  "shrink_loop v n i = (if i \<ge> n then do { v \<leftarrow> fv_erase_at v i; shrink_loop v n ((i + 2 ^ 64 - 1) mod 2 ^ 64) } else Some v)"

definition fv_fill :: "'a fixed_vector \<Rightarrow> nat \<Rightarrow> 'a \<Rightarrow> 'a fixed_vector option" where
  "fv_fill v n x = do {
     sk_assert (n \<le> fv_capacity v);
     if n \<ge> fv_size v then
       let v = v\<lparr>memory := replicate (fv_size v) x @ drop (fv_size v) (memory v)\<rparr> in emplace_times (n - fv_size v) v x
     else do {
       e \<leftarrow> fv_at v n;
       let v = v\<lparr>memory := replicate e x @ drop e (memory v)\<rparr>;
       shrink_loop v n (fv_size v - 1)
     }
   }"

fun emplace_all :: "'a fixed_vector \<Rightarrow> 'a list \<Rightarrow> 'a fixed_vector option" where
  "emplace_all v [] = Some v"
| "emplace_all v (x # xs) = do { (t, v) \<leftarrow> fv_emplace v x; emplace_all v xs }"

definition fv_copy :: "'a list \<Rightarrow> 'a fixed_vector \<Rightarrow> 'a fixed_vector option" where
  "fv_copy raw v = emplace_all (fixed_vector_new raw) (take (fv_size v) (memory v))"

definition fv_assign :: "'a fixed_vector \<Rightarrow> 'a fixed_vector \<Rightarrow> 'a fixed_vector option" where
  "fv_assign w v = emplace_all (fv_clear w) (take (fv_size v) (memory v))"

subsection \<open>The stack\<close>

definition fs_top :: "'a fixed_vector \<Rightarrow> nat option" where
  "fs_top v = (if fv_empty v then None else Some (fv_size v - 1))"

definition fs_pop :: "'a fixed_vector \<Rightarrow> 'a fixed_vector option" where
  "fs_pop v = (if fv_empty v then Some v else fv_erase v (fv_size v - 1))"

section \<open>The vector is a sequence of at most \<open>N\<close> elements\<close>

definition fv_ok :: "'a fixed_vector \<Rightarrow> 'a list \<Rightarrow> bool" where
  "fv_ok v xs \<longleftrightarrow> fv_size v \<le> length (memory v) \<and> length (memory v) < 2 ^ 63 \<and> fv_size v \<le> peak_size v \<and> xs = take (fv_size v) (memory v)"

lemma fv_okD:
  assumes "fv_ok v xs"
  shows "fv_size v = length xs" "length xs \<le> fv_capacity v" "fv_capacity v < 2 ^ 63" "take (length xs) (memory v) = xs" "length xs \<le> peak_size v"
    "fv_full v \<longleftrightarrow> length xs = fv_capacity v" "fv_empty v \<longleftrightarrow> xs = []"
  using assms by (auto simp: fv_ok_def fv_capacity_def fv_full_def fv_empty_def)

lemma fv_new_ok: "length raw < 2 ^ 63 \<Longrightarrow> fv_ok (fixed_vector_new raw) []"
  by (simp add: fv_ok_def fixed_vector_new_def)

lemma emplace_ok:
  assumes "fv_ok v xs" "length xs < fv_capacity v"
  shows "\<exists>v'. fv_emplace v x = Some (Some (length xs), v') \<and> fv_ok v' (xs @ [x]) \<and> fv_capacity v' = fv_capacity v"
proof -
  note d = fv_okD [OF assms(1)]
  have l: "length xs < length (memory v)" using assms(2) by (simp add: fv_capacity_def)
  let ?v = "v\<lparr>fv_size := length xs + 1, memory := (memory v)[length xs := x], peak_size := max (peak_size v) (length xs + 1)\<rparr>"
  have "fv_emplace v x = Some (Some (length xs), ?v)"
    using d(1,6) assms(2) by (auto simp: fv_emplace_def fv_at_def Let_def max_def intro!: fixed_vector.equality)
  moreover have "take (length xs + 1) ((memory v)[length xs := x]) = xs @ [x]" using l d(4) by (simp add: take_Suc_conv_app_nth)
  ultimately show ?thesis using l assms(1) by (auto simp: fv_ok_def fv_capacity_def)
qed

lemma emplace_full: "fv_ok v xs \<Longrightarrow> length xs = fv_capacity v \<Longrightarrow> fv_emplace v x = Some (None, v)"
  using fv_okD(6) by (auto simp: fv_emplace_def)

lemma erase_at_ok:
  assumes "fv_ok v xs" "i < length xs"
  shows "\<exists>v'. fv_erase_at v i = Some v' \<and> fv_ok v' (take i xs @ drop (Suc i) xs) \<and> fv_capacity v' = fv_capacity v"
proof -
  note d = fv_okD [OF assms(1)]
  define n where "n = length xs - 1"
  have n: "length xs = Suc n" "i \<le> n" using assms(2) by (auto simp: n_def)
  have l: "Suc n \<le> length (memory v)" using d(2) n by (simp add: fv_capacity_def)
  let ?m = "if i + 1 \<noteq> fv_size v then copy_down (memory v) (i + 1) (fv_size v) i else memory v"
  have "fv_erase_at v i = Some (v\<lparr>memory := ?m, fv_size := n\<rparr>)"
    using assms(2) d(1) n by (auto simp: fv_erase_at_def fv_at_def intro!: fixed_vector.equality)
  moreover have "length ?m = length (memory v)" using l n d(1) by (auto simp: copy_down_def)
  moreover have "take n ?m = take i xs @ drop (Suc i) xs"
  proof (cases "i = n")
    case True
    then have "?m = memory v" using d(1) n by simp
    moreover have "take n (memory v) = take n xs" using d(4) n by (metis lessI less_imp_le_nat min_def take_take)
    ultimately show ?thesis using True n(1) by simp
  next
    case False
    then have "?m = take i (memory v) @ drop (Suc i) xs @ drop n (memory v)" using d(1,4) n by (simp add: copy_down_def)
    moreover have "take i (memory v) = take i xs" using d(4) n by (metis le_SucI min_def take_take)
    ultimately show ?thesis using n l by simp
  qed
  ultimately show ?thesis using assms(1) n d(1) l by (auto simp: fv_ok_def fv_capacity_def)
qed

lemma find_if_ok:
  assumes "fv_ok v xs"
  shows "fv_find_if p v = length (takeWhile (\<lambda>x. \<not> p x) xs)"
proof -
  note d = fv_okD [OF assms]
  have nth: "memory v ! i = xs ! i" if "i < length xs" for i using d(4) that by (metis nth_take)
  show ?thesis
  proof (cases "find (\<lambda>i. p (memory v ! i)) [0..<length xs]")
    case None
    then have "\<forall>x \<in> set xs. \<not> p x" using nth by (auto simp: find_None_iff in_set_conv_nth)
    then show ?thesis using None d(1) by (simp add: fv_find_if_def takeWhile_eq_all_conv [THEN iffD2])
  next
    case (Some i)
    then have i: "i < length xs" "p (xs ! i)" "\<forall>j < i. \<not> p (xs ! j)" using nth by (auto simp: find_Some_iff)
    then have "takeWhile (\<lambda>x. \<not> p x) xs = take i xs" by (intro takeWhile_eq_take_P_nth) auto
    then show ?thesis using Some i(1) d(1) by (simp add: fv_find_if_def)
  qed
qed

text \<open>The first element with the property goes, when there is one.\<close>

lemma erase_if_ok:
  assumes "fv_ok v xs"
  shows "\<exists>v'. fv_erase_if p v = Some v' \<and> fv_ok v' (takeWhile (\<lambda>x. \<not> p x) xs @ tl (dropWhile (\<lambda>x. \<not> p x) xs)) \<and> fv_capacity v' = fv_capacity v"
proof -
  note d = fv_okD [OF assms] and f = find_if_ok [OF assms, of p]
  let ?n = "length (takeWhile (\<lambda>x. \<not> p x) xs)"
  show ?thesis
  proof (cases "?n = length xs")
    case True
    have "dropWhile (\<lambda>x. \<not> p x) xs = []" by (subst dropWhile_eq_drop) (simp add: True)
    moreover have "takeWhile (\<lambda>x. \<not> p x) xs = xs" by (subst takeWhile_eq_take) (simp add: True)
    ultimately have "takeWhile (\<lambda>x. \<not> p x) xs @ tl (dropWhile (\<lambda>x. \<not> p x) xs) = xs" by (simp only: list.sel(2) append_Nil2)
    then show ?thesis using True f d(1) assms by (simp add: fv_erase_if_def)
  next
    case False
    then have n: "?n < length xs" using length_takeWhile_le [of "\<lambda>x. \<not> p x" xs] by linarith
    have "take ?n xs @ drop (Suc ?n) xs = takeWhile (\<lambda>x. \<not> p x) xs @ tl (dropWhile (\<lambda>x. \<not> p x) xs)"
      by (simp add: takeWhile_eq_take [symmetric] dropWhile_eq_drop drop_Suc tl_drop)
    then show ?thesis using erase_at_ok [OF assms n] False f d(1) by (simp add: fv_erase_if_def fv_erase_def)
  qed
qed

section \<open>Filling and copying\<close>

lemma emplace_times_ok:
  assumes "fv_ok v xs" "length xs + n \<le> fv_capacity v"
  shows "\<exists>v'. emplace_times n v x = Some v' \<and> fv_ok v' (xs @ replicate n x) \<and> fv_capacity v' = fv_capacity v"
  using assms
proof (induction n arbitrary: v xs)
  case (Suc n)
  obtain v1 where v1: "fv_emplace v x = Some (Some (length xs), v1)" "fv_ok v1 (xs @ [x])" "fv_capacity v1 = fv_capacity v"
    using emplace_ok [OF Suc.prems(1)] Suc.prems(2) by fastforce
  then show ?case using Suc.IH [OF v1(2)] Suc.prems(2) by simp
qed auto

lemma emplace_all_ok:
  assumes "fv_ok v xs" "length xs + length ys \<le> fv_capacity v"
  shows "\<exists>v'. emplace_all v ys = Some v' \<and> fv_ok v' (xs @ ys) \<and> fv_capacity v' = fv_capacity v"
  using assms
proof (induction ys arbitrary: v xs)
  case (Cons y ys)
  obtain v1 where v1: "fv_emplace v y = Some (Some (length xs), v1)" "fv_ok v1 (xs @ [y])" "fv_capacity v1 = fv_capacity v"
    using emplace_ok [OF Cons.prems(1)] Cons.prems(2) by fastforce
  then show ?case using Cons.IH [OF v1(2)] Cons.prems(2) by simp
qed auto

lemma pred_mod: "0 < n \<Longrightarrow> n < 2 ^ 64 \<Longrightarrow> (n + 2 ^ 64 - 1) mod 2 ^ 64 = n - (1 :: nat)"
proof (cases n)
  case (Suc k)
  assume "n < 2 ^ 64"
  have "n + 2 ^ 64 - 1 = k + 2 ^ 64" using Suc by simp
  then show ?thesis using \<open>n < 2 ^ 64\<close> Suc by (simp only: mod_add_self2) simp
qed simp

lemma shrink_loop_ok:
  assumes "fv_ok v (xs @ ys)" "xs \<noteq> []"
  shows "\<exists>v'. shrink_loop v (length xs) (length (xs @ ys) - 1) = Some v' \<and> fv_ok v' xs \<and> fv_capacity v' = fv_capacity v"
  using assms(1)
proof (induction ys arbitrary: v rule: rev_induct)
  case Nil
  then show ?case using assms(2) by (subst shrink_loop.simps) (cases xs, simp_all)
next
  case (snoc y ys)
  let ?n = "length (xs @ ys)"
  obtain v1 where v1: "fv_erase_at v ?n = Some v1" "fv_ok v1 (xs @ ys)" "fv_capacity v1 = fv_capacity v"
    using erase_at_ok [OF snoc.prems, of ?n] by auto
  have "(?n + 2 ^ 64 - 1) mod 2 ^ 64 = ?n - 1" by (rule pred_mod) (use assms(2) fv_okD(2,3) [OF snoc.prems] in auto)
  then show ?case using snoc.IH [OF v1(2)] v1(1,3) by (subst shrink_loop.simps) simp
qed

lemma shrink_loop_zero:
  assumes "fv_ok v ys" "ys \<noteq> []"
  shows "shrink_loop v 0 (length ys - 1) = None"
  using assms
proof (induction ys arbitrary: v rule: rev_induct)
  case (snoc y ys)
  obtain v1 where v1: "fv_erase_at v (length ys) = Some v1" "fv_ok v1 ys" using erase_at_ok [OF snoc.prems(1), of "length ys"] by auto
  show ?case
  proof (cases "ys = []")
    case True
    then have "fv_erase_at v1 (2 ^ 64 - 1) = None" using fv_okD(1) [OF v1(2)] by (simp add: fv_erase_at_def)
    then have "shrink_loop v1 0 (2 ^ 64 - 1) = None" by (subst shrink_loop.simps) simp
    then show ?thesis using v1(1) True by (subst shrink_loop.simps) simp
  next
    case False
    have "(length ys + 2 ^ 64 - 1) mod 2 ^ 64 = length ys - 1" by (rule pred_mod) (use False fv_okD(2,3) [OF snoc.prems(1)] in auto)
    then show ?thesis using snoc.IH [OF v1(2) False] v1(1) by (subst shrink_loop.simps) simp
  qed
qed simp

lemma fv_set_memory:
  assumes "fv_ok v xs" "n \<le> length xs"
  shows "fv_ok (v\<lparr>memory := replicate n x @ drop n (memory v)\<rparr>) (replicate n x @ drop n xs)" "fv_capacity (v\<lparr>memory := replicate n x @ drop n (memory v)\<rparr>) = fv_capacity v"
proof -
  note d = fv_okD [OF assms(1)]
  have "length xs \<le> length (memory v)" using d(2) by (simp add: fv_capacity_def)
  moreover have "take (length xs - n) (drop n (memory v)) = drop n xs" using d(4) assms(2) by (metis drop_take)
  ultimately show "fv_ok (v\<lparr>memory := replicate n x @ drop n (memory v)\<rparr>) (replicate n x @ drop n xs)" using assms d(1) by (auto simp: fv_ok_def)
  show "fv_capacity (v\<lparr>memory := replicate n x @ drop n (memory v)\<rparr>) = fv_capacity v" using \<open>length xs \<le> length (memory v)\<close> assms(2) by (simp add: fv_capacity_def)
qed

lemma fv_fill_cases:
  assumes "fv_ok v xs"
  shows "if n \<le> fv_capacity v \<and> (n \<noteq> 0 \<or> xs = []) then \<exists>v'. fv_fill v n x = Some v' \<and> fv_ok v' (replicate n x) else fv_fill v n x = None"
proof -
  note d = fv_okD [OF assms]
  consider "n > fv_capacity v" | "n \<le> fv_capacity v" "length xs \<le> n" | "n \<le> fv_capacity v" "n < length xs" by linarith
  then show ?thesis
  proof cases
    case 1
    then show ?thesis by (simp add: fv_fill_def)
  next
    case 2
    note m = fv_set_memory [OF assms, of "length xs" x]
    have "\<exists>v'. fv_fill v n x = Some v' \<and> fv_ok v' (replicate (length xs) x @ replicate (n - length xs) x)"
      using emplace_times_ok [OF m(1), of "n - length xs" x] m(2) 2 d(1) by (auto simp: fv_fill_def Let_def)
    moreover have "replicate (length xs) x @ replicate (n - length xs) x = replicate n x" using 2(2) by (simp add: replicate_add [symmetric])
    ultimately show ?thesis using 2 by auto
  next
    case 3
    let ?v = "v\<lparr>memory := replicate n x @ drop n (memory v)\<rparr>"
    have m: "fv_ok ?v (replicate n x @ drop n xs)" using fv_set_memory(1) [OF assms, of n x] 3(2) by simp
    have f: "fv_fill v n x = shrink_loop ?v n (length (replicate n x @ drop n xs) - 1)" using 3 d(1) by (simp add: fv_fill_def fv_at_def)
    show ?thesis
    proof (cases "n = 0")
      case True
      then show ?thesis using shrink_loop_zero [OF m] f 3 by auto
    next
      case False
      then show ?thesis using shrink_loop_ok [OF m] f 3 by auto
    qed
  qed
qed

text \<open>
  C37: A \<^verbatim>\<open>fixed_vector\<close> is a sequence of at most \<open>N\<close> elements: \<^verbatim>\<open>emplace\<close> appends, or refuses exactly when the vector is full, \<^verbatim>\<open>erase_at\<close> removes the element at a position,
  \<^verbatim>\<open>erase_if\<close> the first one with a property, \<^verbatim>\<open>find_if\<close> finds it, copying and assigning copy, \<^verbatim>\<open>clear\<close> empties, and \<^verbatim>\<open>fill\<close> leaves \<open>n\<close> equal elements. There is one exception:
  \<^verbatim>\<open>fill\<close> with no elements on a vector that is not empty counts its index below zero, and an assertion fails. As a stack the vector gives its last element back first.
\<close>

theorem fixed_vector_refines_sequence:
  assumes "fv_ok v xs"
  shows "(if length xs < fv_capacity v then \<exists>v'. fv_emplace v x = Some (Some (length xs), v') \<and> fv_ok v' (xs @ [x]) else fv_emplace v x = Some (None, v)) \<and>
    (if i < length xs then \<exists>v'. fv_erase_at v i = Some v' \<and> fv_ok v' (take i xs @ drop (Suc i) xs) else fv_erase_at v i = None) \<and>
    (\<exists>v'. fv_erase_if p v = Some v' \<and> fv_ok v' (takeWhile (\<lambda>x. \<not> p x) xs @ tl (dropWhile (\<lambda>x. \<not> p x) xs))) \<and>
    fv_find_if p v = length (takeWhile (\<lambda>x. \<not> p x) xs) \<and> fv_ok (fv_clear v) [] \<and>
    (length raw = fv_capacity v \<longrightarrow> (\<exists>v'. fv_copy raw v = Some v' \<and> fv_ok v' xs)) \<and>
    (if n \<le> fv_capacity v \<and> (n \<noteq> 0 \<or> xs = []) then \<exists>v'. fv_fill v n x = Some v' \<and> fv_ok v' (replicate n x) else fv_fill v n x = None) \<and>
    (if xs = [] then fs_top v = None \<and> fs_pop v = Some v else fs_top v = Some (length xs - 1) \<and> (\<exists>v'. fs_pop v = Some v' \<and> fv_ok v' (butlast xs)))"
proof (intro conjI)
  note d = fv_okD [OF assms]
  show "if length xs < fv_capacity v then \<exists>v'. fv_emplace v x = Some (Some (length xs), v') \<and> fv_ok v' (xs @ [x]) else fv_emplace v x = Some (None, v)"
    using emplace_ok [OF assms, of x] emplace_full [OF assms, of x] d(2) by auto
  show "if i < length xs then \<exists>v'. fv_erase_at v i = Some v' \<and> fv_ok v' (take i xs @ drop (Suc i) xs) else fv_erase_at v i = None"
    using erase_at_ok [OF assms, of i] d(1) by (auto simp: fv_erase_at_def)
  show "\<exists>v'. fv_erase_if p v = Some v' \<and> fv_ok v' (takeWhile (\<lambda>x. \<not> p x) xs @ tl (dropWhile (\<lambda>x. \<not> p x) xs))" using erase_if_ok [OF assms, of p] by blast
  show "fv_find_if p v = length (takeWhile (\<lambda>x. \<not> p x) xs)" by (rule find_if_ok [OF assms])
  show "fv_ok (fv_clear v) []" using d(3) by (simp add: fv_ok_def fv_clear_def fv_capacity_def)
  show "length raw = fv_capacity v \<longrightarrow> (\<exists>v'. fv_copy raw v = Some v' \<and> fv_ok v' xs)"
  proof
    assume r: "length raw = fv_capacity v"
    have "fv_ok (fixed_vector_new raw) []" "fv_capacity (fixed_vector_new raw) = length raw" using fv_new_ok [of raw] r d(3) by (simp, simp add: fixed_vector_new_def fv_capacity_def)
    then show "\<exists>v'. fv_copy raw v = Some v' \<and> fv_ok v' xs" using emplace_all_ok [of "fixed_vector_new raw" "[]" xs] d r by (auto simp: fv_copy_def)
  qed
  show "if n \<le> fv_capacity v \<and> (n \<noteq> 0 \<or> xs = []) then \<exists>v'. fv_fill v n x = Some v' \<and> fv_ok v' (replicate n x) else fv_fill v n x = None"
    by (rule fv_fill_cases [OF assms])
  show "if xs = [] then fs_top v = None \<and> fs_pop v = Some v else fs_top v = Some (length xs - 1) \<and> (\<exists>v'. fs_pop v = Some v' \<and> fv_ok v' (butlast xs))"
    using erase_at_ok [OF assms, of "length xs - 1"] d(1,7) by (cases xs) (auto simp: fs_top_def fs_pop_def fv_erase_def butlast_conv_take)
qed

theorem fixed_vector_refines_sequence_witness:
  "(\<exists>v'. fv_fill \<lparr>fv_size = 2, peak_size = 2, memory = [5, 6, 0 :: nat]\<rparr> 1 9 = Some v' \<and> fv_ok v' [9]) \<and>
   fv_fill \<lparr>fv_size = 2, peak_size = 2, memory = [5, 6, 0 :: nat]\<rparr> 0 9 = None"
proof -
  have ok: "fv_ok \<lparr>fv_size = 2, peak_size = 2, memory = [5, 6, 0 :: nat]\<rparr> [5, 6]" by (simp add: fv_ok_def)
  have c: "fv_capacity \<lparr>fv_size = 2, peak_size = 2, memory = [5, 6, 0 :: nat]\<rparr> = 3" by (simp add: fv_capacity_def)
  show ?thesis
    using fixed_vector_refines_sequence [OF ok, where n = 1 and x = 9] fixed_vector_refines_sequence [OF ok, where n = 0 and x = 9] c by simp
qed

end
