(* ===== verification/Fixed_String.thy ===== *)
theory Fixed_String
  imports Prelude
begin

text \<open>
  \<^verbatim>\<open>src/src/container/fixed_string.h\<close>: a string inside an array of \<open>N\<close> characters, always followed by a null character. \<open>chars\<close> is the array. A C string is the list of its
  characters before the null character; a \<^verbatim>\<open>std::string\<close> may contain null characters.
\<close>

section \<open>Model\<close>

abbreviation NUL :: char where "NUL \<equiv> CHR 0x00"

record fixed_string =
  str_size :: nat
  chars :: string

text \<open>Copies at most \<open>length dst - 1\<close> characters and a null character, and returns how many.\<close>

definition copy :: "string \<Rightarrow> string \<Rightarrow> (nat \<times> string) option" where
  "copy dst src = do {
     sk_assert (length dst > 0);
     let len = min (length dst - 1) (length src);
     Some (len, take len src @ NUL # drop (len + 1) dst)
   }"

definition fixed_string_new :: "string \<Rightarrow> fixed_string option" where
  "fixed_string_new raw = do { sk_assert (length raw > 0); Some \<lparr>str_size = 0, chars = raw[0 := NUL]\<rparr> }"

definition str_assign :: "fixed_string \<Rightarrow> string \<Rightarrow> fixed_string option" where
  "str_assign s src = do { (n, m) \<leftarrow> copy (chars s) src; Some (s\<lparr>str_size := n, chars := m\<rparr>) }"

definition str_clear :: "fixed_string \<Rightarrow> fixed_string option" where
  "str_clear s = do { sk_assert (length (chars s) > 0); Some (s\<lparr>str_size := 0, chars := (chars s)[0 := NUL]\<rparr>) }"

definition str_fill :: "fixed_string \<Rightarrow> string \<Rightarrow> (nat \<times> string) option" where
  "str_fill s array = copy array (take (str_size s) (chars s))"

definition str_to_string :: "fixed_string \<Rightarrow> string" where
  "str_to_string s = take (str_size s) (chars s)"

text \<open>What a client of \<^verbatim>\<open>c_str()\<close> reads.\<close>

definition c_str :: "fixed_string \<Rightarrow> string" where
  "c_str s = takeWhile (\<lambda>c. c \<noteq> NUL) (chars s)"

definition str_full :: "fixed_string \<Rightarrow> bool" where
  "str_full s \<longleftrightarrow> str_size s \<ge> length (chars s) - 1"

definition str_empty :: "fixed_string \<Rightarrow> bool" where
  "str_empty s \<longleftrightarrow> str_size s \<le> 0"

fun eq_loop :: "string \<Rightarrow> string \<Rightarrow> bool" where
  "eq_loop (a # as) (b # bs) = (if a \<noteq> b then False else eq_loop as bs)"
| "eq_loop _ _ = True"

definition str_eq :: "fixed_string \<Rightarrow> string \<Rightarrow> bool" where
  "str_eq s t = (if str_size s \<noteq> length t then False else eq_loop (take (str_size s) (chars s)) t)"

text \<open>\<^verbatim>\<open>strncmp\<close> compares characters as unsigned numbers and stops at a null character.\<close>

fun strncmp :: "nat \<Rightarrow> string \<Rightarrow> string \<Rightarrow> int" where
  "strncmp (Suc n) (a # as) (b # bs) =
     (if a \<noteq> b then int (of_char a :: nat) - int (of_char b) else if a = NUL then 0 else strncmp n as bs)"
| "strncmp _ _ _ = 0"

definition compare :: "fixed_string \<Rightarrow> string \<Rightarrow> int" where
  "compare s t =
     (let ret = strncmp (min (str_size s) (length t)) (chars s) t in
      if ret \<noteq> 0 then ret else if str_size s < length t then -1 else if str_size s > length t then 1 else 0)"

definition str_less :: "fixed_string \<Rightarrow> string \<Rightarrow> bool" where
  "str_less s t \<longleftrightarrow> compare s t < 0"

section \<open>Properties\<close>

definition str_ok :: "fixed_string \<Rightarrow> string \<Rightarrow> bool" where
  "str_ok s xs \<longleftrightarrow> str_size s < length (chars s) \<and> chars s ! str_size s = NUL \<and> xs = take (str_size s) (chars s)"

lemma str_okD:
  assumes "str_ok s xs"
  shows "str_size s = length xs" "length xs < length (chars s)" "str_to_string s = xs" "chars s = xs @ NUL # drop (Suc (length xs)) (chars s)"
proof -
  show l: "str_size s = length xs" using assms by (simp add: str_ok_def)
  show "length xs < length (chars s)" "str_to_string s = xs" using assms l by (simp_all add: str_ok_def str_to_string_def)
  show "chars s = xs @ NUL # drop (Suc (length xs)) (chars s)" using assms l id_take_nth_drop [of "length xs" "chars s"] by (simp add: str_ok_def)
qed

lemma string_copy_ok:
  assumes "0 < length dst"
  shows "copy dst src = Some (length (take (length dst - 1) src), take (length dst - 1) src @ NUL # drop (length (take (length dst - 1) src) + 1) dst)"
  using assms by (auto simp: copy_def Let_def min_def)

lemma eq_loop_iff: "length as = length bs \<Longrightarrow> eq_loop as bs \<longleftrightarrow> as = bs"
  by (induction as bs rule: list_induct2) auto

text \<open>The order of the characters as unsigned numbers.\<close>

definition char_less :: "(char \<times> char) set" where
  "char_less = {(a, b). (of_char a :: nat) < of_char b}"

lemma strncmp_sign:
  assumes "NUL \<notin> set xs" "NUL \<notin> set ys"
  shows "(let ret = strncmp (min (length xs) (length ys)) (xs @ r) ys in
      if ret \<noteq> 0 then ret else if length xs < length ys then -1 else if length xs > length ys then 1 else 0) < 0 \<longleftrightarrow> (xs, ys) \<in> lexord char_less"
  using assms
proof (induction xs arbitrary: ys)
  case Nil
  then show ?case by (cases ys) simp_all
next
  case (Cons x xs)
  show ?case
  proof (cases ys)
    case Nil
    then show ?thesis by simp
  next
    case (Cons y ys')
    have ne: "int (of_char x :: nat) - int (of_char y) \<noteq> 0" if "x \<noteq> y" using that by simp
    show ?thesis
    proof (cases "x = y")
      case True
      have ny: "y \<noteq> NUL" "NUL \<notin> set xs" "NUL \<notin> set ys'" using Cons.prems Cons True by auto
      have st: "strncmp (min (length (x # xs)) (length ys)) ((x # xs) @ r) ys = strncmp (min (length xs) (length ys')) (xs @ r) ys'" using True Cons ny(1) by simp
      have lx: "(x # xs, ys) \<in> lexord char_less \<longleftrightarrow> (xs, ys') \<in> lexord char_less" using True Cons by (simp add: char_less_def)
      have ln: "length (x # xs) < length ys \<longleftrightarrow> length xs < length ys'" "length (x # xs) > length ys \<longleftrightarrow> length xs > length ys'" using Cons by simp_all
      show ?thesis unfolding st lx ln by (rule Cons.IH [OF ny(2,3)])
    next
      case False
      then show ?thesis using Cons ne by (auto simp: char_less_def)
    qed
  qed
qed

text \<open>
  A \<^verbatim>\<open>fixed_string\<close> of capacity \<open>N\<close> holds the first \<open>N - 1\<close> characters of what it is given and a null character behind them, and nothing is written outside the array;
  \<^verbatim>\<open>==\<close> compares the contents, and \<^verbatim>\<open><\<close> is the lexicographic order when no null characters are inside. \<^verbatim>\<open>fill\<close> copies the string out, and a reader of \<^verbatim>\<open>c_str()\<close> sees it when it has no
  null characters.
\<close>

theorem fixed_string_refines_string:
  assumes "str_ok s xs"
  shows "(\<exists>s'. str_assign s src = Some s' \<and> str_ok s' (take (length (chars s) - 1) src) \<and> length (chars s') = length (chars s)) \<and>
    (\<exists>s'. str_clear s = Some s' \<and> str_ok s' []) \<and> str_to_string s = xs \<and> (str_full s \<longleftrightarrow> length xs = length (chars s) - 1) \<and> (str_empty s \<longleftrightarrow> xs = []) \<and>
    (str_eq s t \<longleftrightarrow> xs = t) \<and> (NUL \<notin> set xs \<and> NUL \<notin> set t \<longrightarrow> c_str s = xs \<and> (str_less s t \<longleftrightarrow> (xs, t) \<in> lexord char_less)) \<and>
    (0 < length array \<longrightarrow> (\<exists>m. str_fill s array = Some (min (length array - 1) (length xs), m) \<and> length m = length array \<and>
       take (Suc (min (length array - 1) (length xs))) m = take (length array - 1) xs @ [NUL]))"
proof (intro conjI impI)
  note d = str_okD [OF assms]
  have n: "0 < length (chars s)" using d(2) by linarith
  let ?t = "take (length (chars s) - 1) src"
  have "length ?t < length (chars s)" using n by (cases "chars s") auto
  then show "\<exists>s'. str_assign s src = Some s' \<and> str_ok s' ?t \<and> length (chars s') = length (chars s)"
    using string_copy_ok [OF n, of src] by (auto simp: str_assign_def str_ok_def nth_append min_def)
  show "\<exists>s'. str_clear s = Some s' \<and> str_ok s' []" using n by (simp add: str_clear_def str_ok_def)
  show "str_to_string s = xs" "str_full s \<longleftrightarrow> length xs = length (chars s) - 1" "str_empty s \<longleftrightarrow> xs = []" using d by (auto simp: str_full_def str_empty_def)
  show "str_eq s t \<longleftrightarrow> xs = t" using d eq_loop_iff [of xs t] assms by (auto simp: str_eq_def str_ok_def)
  show "c_str s = xs" if "NUL \<notin> set xs \<and> NUL \<notin> set t"
    unfolding c_str_def by (subst d(4), subst takeWhile_append2) (use that in auto)
  show "str_less s t \<longleftrightarrow> (xs, t) \<in> lexord char_less" if "NUL \<notin> set xs \<and> NUL \<notin> set t"
    using strncmp_sign [of xs t "NUL # drop (Suc (length xs)) (chars s)"] that unfolding str_less_def compare_def d(1) d(4) [symmetric] by blast
  show "\<exists>m. str_fill s array = Some (min (length array - 1) (length xs), m) \<and> length m = length array \<and>
      take (Suc (min (length array - 1) (length xs))) m = take (length array - 1) xs @ [NUL]" if "0 < length array"
    using string_copy_ok [OF that, of xs] assms d(1) that by (cases array) (auto simp: str_fill_def str_ok_def min_def)
qed

theorem fixed_string_refines_string_witness:
  "\<exists>s'. str_assign \<lparr>str_size = 0, chars = [NUL, NUL, NUL]\<rparr> ''abc'' = Some s' \<and> str_ok s' ''ab''"
proof -
  have "str_ok \<lparr>str_size = 0, chars = [NUL, NUL, NUL]\<rparr> []" by (simp add: str_ok_def)
  from fixed_string_refines_string [OF this, of "''abc''" "[]" "[]"] show ?thesis by auto
qed

text \<open>With null characters inside, two different strings can be neither smaller nor larger than each other.\<close>

lemma compare_stops_at_null: "compare \<lparr>str_size = 2, chars = [NUL, CHR ''a'', NUL]\<rparr> [NUL, CHR ''b''] = 0"
  by (simp add: compare_def numeral_2_eq_2)

end
