(* ===== verification/Spec2Isabelle.thy ===== *)
theory Spec2Isabelle
  imports Allocator Bus Timer_Spec Coroutine Referable_Array Bus_Router_Events Fixed_Bitmap Base64 Shm_Containers Shm_Hash Option_Parser Guid Fixed_Vector Fixed_String
begin

text \<open>
  \<^bold>\<open>libsk\<close>: shared memory, message bus, timers and containers of a C++ server library.

  This development models the parts of the library that carry its own logic and proves them correct, from the
  allocator that lives in shared memory up to the message bus and the timers. Every definition is a translation of
  the C++ source named at the head of its theory; sources are given relative to the repository, and the part of the
  library is under \<^verbatim>\<open>src/\<close>.

  \<^bold>\<open>The parts of the program and how they interact\<close>

  \<^item> \<^emph>\<open>Shared memory\<close> (\<^verbatim>\<open>src/shm\<close>). A process maps two POSIX shared-memory blocks, one for metadata and one for user data.
    Objects are named by 64-bit addresses (serial number and offset) that stay valid when a process restarts and maps
    the blocks elsewhere. \<^verbatim>\<open>shm_mgr::malloc\<close> rounds a request up to a size class and takes a chunk from the chunk cache, which
    cuts spans of pages into chunks; larger requests take whole spans from the page heap. The page heap
    keeps free spans in lists by length, merges neighbours on release, grows the user block through the operating system, and finds the span
    of a page through a radix tree whose nodes come from the metadata block. A header in front of each
    object carries a magic number and the serial number, so that a stale address is recognised.
  \<^item> \<^emph>\<open>Message bus\<close> (\<^verbatim>\<open>src/bus\<close>). Processes exchange messages through pairs of single-reader single-writer rings (\<^verbatim>\<open>channel\<close>) that a manager
    (\<^verbatim>\<open>channel_mgr\<close>) lays out in one segment; a hash over the header and the body of a message (\<^verbatim>\<open>murmurhash3\<close>) detects corruption.
    On each host a daemon (\<^verbatim>\<open>bus/bus_router.cpp\<close>) takes the messages for other processes out of the channels and puts those for local processes into them; it sends the
    others over TCP to the daemon of their host, which it finds in a table of routes kept up to date by consul. Messages for an unknown bus id or an unconnected host wait in queues.
  \<^item> \<^emph>\<open>Timers\<close> (\<^verbatim>\<open>src/time\<close>). A hierarchical timer wheel whose lists and timers are in shared memory; \<^verbatim>\<open>update\<close> runs the ticks the clock has
    passed, calls the registered callbacks and reschedules repeating timers.
  \<^item> \<^emph>\<open>Containers and utilities\<close> (\<^verbatim>\<open>src/container\<close>, \<^verbatim>\<open>src/core/buffer\<close>, \<^verbatim>\<open>src/utility\<close>): containers that work inside shared memory because they refer
    to their elements by index or by shared address (lists, red-black trees, hash tables, vectors, strings, bitmaps), each over a pool inside the container or over the shared memory manager;
    the byte buffer and the connections of the network layer; ids, string and number conversion, byte order and checksums, base64.
  \<^item> \<^emph>\<open>Coroutines\<close> (\<^verbatim>\<open>src/coroutine\<close>): a scheduler with a queue of runnable coroutines and timers for sleeping ones. \<^emph>\<open>Server\<close> (\<^verbatim>\<open>src/server\<close>): the parser of command line options.

  \<^bold>\<open>Theories\<close>

  \<^item> \<^emph>\<open>Prelude\<close>: machine integers, error codes, the assertion macros, shared list lemmas. \<^emph>\<open>Dll\<close>: circular doubly linked lists with
    sentinels; the locales \<open>linked_lists\<close>, \<open>prepend_lists\<close> and \<open>append_lists\<close> state what a client may rely on, and the span lists and the timer
    lists interpret them.
  \<^item> \<^emph>\<open>Shm_Address\<close> (\<^verbatim>\<open>shm_address.h\<close>), \<^emph>\<open>Size_Map\<close> (\<^verbatim>\<open>size_map.cpp\<close>), \<^emph>\<open>Shm_Memory\<close> (\<^verbatim>\<open>shm_object.cpp\<close> and the block functions of \<^verbatim>\<open>shm_mgr.cpp\<close>), \<^emph>\<open>Span\<close> (\<^verbatim>\<open>span.cpp\<close>),
    \<^emph>\<open>Radix_Tree\<close> (\<^verbatim>\<open>radix_tree.h\<close>), \<^emph>\<open>Metadata_Allocator\<close> (\<^verbatim>\<open>metadata_allocator.h\<close>), \<^emph>\<open>Page_Heap\<close> (\<^verbatim>\<open>page_heap.cpp\<close>), \<^emph>\<open>Chunk_Cache\<close> (\<^verbatim>\<open>chunk_cache.cpp\<close>), \<^emph>\<open>Shm_Mgr\<close> (\<^verbatim>\<open>shm_mgr.cpp\<close>): the
    operations, in the order of the source, on one state record \<open>shm\<close>.
  \<^item> \<^emph>\<open>Heap_View\<close>, \<^emph>\<open>Tiling\<close>, \<^emph>\<open>Page_Heap_Correct\<close>, \<^emph>\<open>Page_Heap_Alloc\<close>: the page heap seen as a tiling of the user block by spans, and the proof that allocation,
    carving, merging and growth keep it. \<^emph>\<open>Chunk_View\<close>, \<^emph>\<open>Chunk_Inv\<close>, \<^emph>\<open>Chunk_Cache_Correct\<close>: chunks of a span, the free chunk lists in user memory. \<^emph>\<open>Shm_Create\<close>, \<^emph>\<open>Shm_Mgr_Correct\<close>: creation
    establishes the invariant, \<^verbatim>\<open>malloc\<close> and \<^verbatim>\<open>free\<close> keep it. \<^emph>\<open>Allocator\<close>: the contract of the allocator and its composition over whole runs of a client.
  \<^item> \<^emph>\<open>Murmurhash3\<close>, \<^emph>\<open>Channel\<close>, \<^emph>\<open>Channel_Mgr\<close>, \<^emph>\<open>Bus\<close>: the message bus, at the level of bytes in the rings.
  \<^item> \<^emph>\<open>Timer_Wheel\<close> (\<^verbatim>\<open>shm_timer.h\<close>, \<^verbatim>\<open>shm_timer.cpp\<close>), \<^emph>\<open>Timer_Correct\<close>, \<^emph>\<open>Timer_Callbacks\<close>, \<^emph>\<open>Timer_Spec\<close>: the wheel; its invariant; callbacks that start and stop timers while a tick
    runs; its contract.
  \<^item> \<^emph>\<open>Bytes\<close>, \<^emph>\<open>Math_Helper\<close> (\<^verbatim>\<open>math_helper.cpp\<close>), \<^emph>\<open>Bus_Message\<close> (the wire format), \<^emph>\<open>Buffer\<close> (\<^verbatim>\<open>buffer.cpp\<close>), \<^emph>\<open>Tcp_Connection\<close> (\<^verbatim>\<open>tcp_connection.cpp\<close>, \<^verbatim>\<open>tcp_client.cpp\<close>, \<^verbatim>\<open>tcp_server.cpp\<close>),
    \<^emph>\<open>Bus_Router\<close> (\<^verbatim>\<open>bus_router.cpp\<close>): the daemon, every handler on one state record \<open>router\<close>. \<^emph>\<open>Bus_Router_Correct\<close>, \<^emph>\<open>Bus_Router_Local\<close>, \<^emph>\<open>Bus_Router_Routes\<close>, \<^emph>\<open>Bus_Router_Receive\<close>: the relation
    \<open>router_view\<close> between the daemon and an abstract router of queues, kept by each handler. \<^emph>\<open>Bus_Router_Spec\<close>: what the handlers do to the abstract router, and two daemons joined by a
    connection. \<^emph>\<open>Bus_Router_Events\<close>: events, the step relation, reachable states.
  \<^item> \<^emph>\<open>Coroutine\<close>: the scheduler, with the switch of contexts as the event that a coroutine runs until its next call.
  \<^item> \<^emph>\<open>Node_Allocator\<close> (\<^verbatim>\<open>fixed_allocator.h\<close>): the locales \<open>node_allocator\<close> and \<open>pool_allocator\<close>, what containers rely on, interpreted on the pool. \<^emph>\<open>List_Container\<close> (\<^verbatim>\<open>list.h\<close>); \<^emph>\<open>Rbtree\<close> (\<^verbatim>\<open>rbtree.h\<close>),
    \<^emph>\<open>Rbtree_View\<close>, \<^emph>\<open>Rbtree_Iter\<close>, \<^emph>\<open>Rbtree_Insert\<close>, \<^emph>\<open>Rbtree_Unlink\<close>, \<^emph>\<open>Rbtree_Erase\<close>, \<^emph>\<open>Rbtree_Search\<close>, \<^emph>\<open>Rbtree_Correct\<close>: pointers, rotations and repairs, and the tree as a sorted sequence, inside
    these locales. \<^emph>\<open>Rbtree_Fixed\<close>: \<^verbatim>\<open>fixed_set\<close> and \<^verbatim>\<open>fixed_map\<close>.
  \<^item> \<^emph>\<open>Shm_Allocator\<close> (\<^verbatim>\<open>shm.h\<close>, \<^verbatim>\<open>shm_allocator.h\<close>): the same contract, and \<open>node_source\<close> for clients without a counter, interpreted on the model of the shared memory manager.
    \<^emph>\<open>Shm_Containers\<close>: \<^verbatim>\<open>shm_list\<close>, \<^verbatim>\<open>shm_set\<close>, \<^verbatim>\<open>shm_map\<close>. \<^emph>\<open>Shm_Hash\<close> (\<^verbatim>\<open>shm_hash.h\<close>).
  \<^item> \<^emph>\<open>Referable_Array\<close>, \<^emph>\<open>Fixed_Bitmap\<close>, \<^emph>\<open>Fixed_Vector\<close> (with \<^verbatim>\<open>fixed_stack.h\<close>), \<^emph>\<open>Fixed_String\<close>, \<^emph>\<open>Base64\<close>, \<^emph>\<open>String_Helper\<close>, \<^emph>\<open>Option_Parser\<close>, \<^emph>\<open>Guid\<close>: one theory per component.

  \<^bold>\<open>How the state corresponds to the code\<close>

  \<^item> An operation returns an option: \<open>None\<close> is a process that was ended by an assertion (the repository builds without \<^verbatim>\<open>NDEBUG\<close>) or an access outside the
    memory of the model, so a theorem with a \<open>Some\<close> on the right states that no assertion fails and every access is inside. Error codes of the source are integers in the result.
  \<^item> The metadata block is a map from offsets to typed cells (spans, tree nodes, free cells), the user block a map from offsets to 64-bit words, since the allocator writes only words into user memory.
    Offsets and sizes are natural numbers; where the source can wrap around, the reduction modulo \<open>2 ^ 64\<close> is written out.
  \<^item> The operating system is a parameter: it answers each call of \<^verbatim>\<open>ftruncate\<close>, \<^verbatim>\<open>mmap\<close> and so on; the hypothesis \<open>os_ok\<close> says that a mapping it returns is aligned to a page,
    not null, and at a fixed place on growth. Whether the system grants memory is left open; the theorems say what happens in both cases.
  \<^item> Channel memory is a map from offsets to bytes, and message headers are encoded in little-endian order, so that the theorems cover messages that go around the end of the ring.
  \<^item> The nodes of a container are partial maps from pointers to links and to values, next to the state of its allocator: a freed node has neither, so that a use after free is \<open>None\<close>. A container over
    the shared memory manager carries the whole state \<open>shm\<close>; a pointer is a serial number with an offset, the sentinel of a container has the serial number of the user block.
  \<^item> libuv, consul and the C library are parameters of the daemon, collected in an environment; \<open>env_ok\<close> says that libuv accepts every write and that memory is granted. \<^verbatim>\<open>malloc\<close> may
    fail: a buffer then aborts at the assertion of the source, and a handle that the source does not check is \<open>None\<close>. The bytes that a connection has written are part of the state, and the receiving side may get them in pieces cut anywhere.
  \<^item> Timers are a map from pointers to records; the five vectors are one function from level and slot to the dummy head. Callbacks, memory for new timers and the clock are parameters. Two fields are history
    that the code does not keep: \<open>fired\<close>, the callbacks called, and \<open>changed\<close>, the timers started or stopped. The hypothesis \<open>clients\<close> says that a callback calls \<^verbatim>\<open>start\<close> with a timeout and an
    interval of at least a tick and \<^verbatim>\<open>stop\<close> on timers of the agenda, any number of times.

  \<^bold>\<open>What is proved\<close>

  \<^item> Allocator: objects handed out are inside the user block, disjoint from each other and from all free memory, a write to one object changes no other, and no sequence of \<^verbatim>\<open>malloc\<close> and \<^verbatim>\<open>free\<close>
    of the client's own addresses fails an assertion, as long as the operating system grants the metadata block what the calls may need (\<open>metadata_room\<close>; writes need none); a second \<^verbatim>\<open>free\<close> is ignored; spans are merged with both neighbours. Size classes are the smallest that fit and waste at most an eighth.
  \<^item> Bus: each channel is a FIFO queue of messages, delivered unchanged and once; channels in one segment never overlap; sending and receiving refine operations on the queues,
    where a message that has room is queued and signalled; one that has none is dropped (\<^verbatim>\<open>bus_send_drops\<close>).
  \<^item> Timers: ticks end and fire only what is due, whatever the callbacks start and stop; a timer that no callback touches fires exactly at its ticks, in any number of ticks, whatever vectors it is cascaded
    through; starting, stopping and construction act on the agenda alone; \<^verbatim>\<open>update\<close> returns and catches up.
  \<^item> Daemon: a daemon whose peers are daemons, with one connection from each host at a time, is aborted by no sequence of events (signals of local processes, connections made, refused, accepted and lost, pieces of
    the streams of other daemons, changes of routes) while memory is granted;
    each handler refines the abstract router; what one daemon writes, another passes on, complete and in order.
  \<^item> Coroutines: each living coroutine is in exactly one place, the queue is served in its order, and no assertion of the scheduler fails.
  \<^item> Containers: sequences, maps, sets and byte queues as specifications, for the pool and, down to pages and chunks, for the shared memory manager; the red-black properties that the code asserts hold.
  \<^item> Utilities: ids are unique over the lives of all processes as long as the clock does not go back in a life and a restarted process starts after the last id of its predecessor; options are registered with the type of their variable, a command line
    sets exactly the values it names, and parsing it returns with every value still of its type, apart from clusters with the letter of help; a string converts to a number exactly when it denotes one in range; the checksums equal their
    reference definitions; base64 decodes what it encodes.
  \<^item> Where the code does not do what it is meant to do, a theorem says what it does: \<^verbatim>\<open>malloc_size_wraps\<close>, \<^verbatim>\<open>register_channel_overruns\<close>, \<^verbatim>\<open>bitmap_whole\<close>, \<^verbatim>\<open>base64_encode_empty_aborts\<close>, \<^verbatim>\<open>forwarding_aborts\<close>,
    \<^verbatim>\<open>short_key_aborts\<close>, \<^verbatim>\<open>help_in_cluster_aborts\<close>, \<^verbatim>\<open>from_string_truncates\<close>, \<^verbatim>\<open>guid_clock_back\<close>, \<^verbatim>\<open>guid_restart_repeats\<close>,
    \<^verbatim>\<open>guid_area_ignored\<close>, \<^verbatim>\<open>second_connection_aborts\<close>, \<^verbatim>\<open>bus_send_drops\<close>, \<^verbatim>\<open>compare_stops_at_null\<close>; an update in a full hash table fails (\<^verbatim>\<open>shm_hash_refines_map\<close>).

  \<^bold>\<open>Loops and bounds\<close>

  Loops that end by their structure are recursive functions, or functions with a measure. The loops over linked lists (the best-fit search of the page heap, cascading and expiring timers, catching
  up with the clock, walking up and down a tree, the chains of a hash table, the receive loop of the daemon) may run forever on a corrupted structure; they are partial functions into option, and the
  theorems state that they return. There is no fuel. The number \<open>n\<close> in the contracts of the containers over the shared memory manager counts the calls that the metadata block still has room for;
  one call needs at most 10805248 bytes of it, a bound for the spans and the nodes of the radix tree that it may have to allocate.

  \<^bold>\<open>Not modelled\<close>

  The redis, HTTP and consul clients, logging, server start-up, watchers and crash dumps are calls into hiredis, curl, spdlog, libuv and the operating system. The switch of machine contexts is in
  assembly. Of the daemon, the start and stop of the process and its XML configuration are left out; of the network layer, the socket addresses; of \<^verbatim>\<open>string_helper\<close>, formatting and floating-point
  numbers; of \<^verbatim>\<open>shm.cpp\<close>, mapping the manager itself. \<^verbatim>\<open>extensible_hash.h\<close> and \<^verbatim>\<open>extensible_stack.h\<close> are used by their tests alone.
  The memory barriers between the reader and the writer of a channel are not modelled: each operation is one step. The XML parser and everything under \<^verbatim>\<open>deps\<close> are third-party code.
\<close>

end
